(* ===== verification/Prelude.thy ===== *)
theory Prelude
  imports Main "HOL-Library.Word" "HOL-Library.Monad_Syntax"
begin

text \<open>
  Shared vocabulary of the development: how a kernel panic and a C error number are
  represented, the collections of rewrite rules the component theories fill, and the
  generic facts on options, lists and words that several components use.
\<close>

unbundle bit_operations_syntax

section \<open>Collections\<close>

named_theorems kdefs \<open>definitions of straight-line kernel operations, unfolded together\<close>
named_theorems list_abs \<open>laws of the circular list operations on their abstraction\<close>

section \<open>Panics and error numbers\<close>

text \<open>
  A failed \<^verbatim>\<open>assert\<close> and a call of \<^verbatim>\<open>panic\<close> stop the kernel: nothing
  after them runs. An operation that can panic returns an option, and \<^term>\<open>None\<close> is the
  panic. Sequencing is \<^verbatim>\<open>Option.bind\<close>.
\<close>

type_synonym 'a kernel = "'a option"

abbreviation (input) panic :: "'a kernel" where
  "panic \<equiv> None"

definition kassert :: "bool \<Rightarrow> unit kernel" where
  "kassert b = (if b then Some () else panic)"

lemma bind_kassert [simp]: "(kassert b \<bind> f) = (if b then f () else None)"
  by (simp add: kassert_def)

lemma bind_eq_SomeD:
  "m \<bind> f = Some y \<Longrightarrow> \<exists>x. m = Some x \<and> f x = Some y"
  by (simp add: bind_eq_Some_conv)

text \<open>
  The error numbers of \<^verbatim>\<open>kern/include/error.h\<close>. C returns \<^verbatim>\<open>-E_X\<close>;
  \<open>errno_of\<close> gives that integer.
\<close>

datatype errno =
    E_UNSPECIFIED | E_BAD_PROC | E_INVAL | E_NO_MEM | E_NO_FREE_PROC | E_FAULT
  | E_SWAP_FAULT | E_INVAL_ELF | E_KILLED | E_PANIC | E_TIMEOUT | E_TOO_BIG | E_NO_DEV
  | E_NA_DEV | E_BUSY | E_NOENT | E_ISDIR | E_NOTDIR | E_XDEV | E_UNIMP | E_SEEK
  | E_MAX_OPEN | E_EXISTS | E_NOTEMPTY

primrec errno_of :: "errno \<Rightarrow> int" where
  "errno_of E_UNSPECIFIED = 1"
| "errno_of E_BAD_PROC = 2"
| "errno_of E_INVAL = 3"
| "errno_of E_NO_MEM = 4"
| "errno_of E_NO_FREE_PROC = 5"
| "errno_of E_FAULT = 6"
| "errno_of E_SWAP_FAULT = 7"
| "errno_of E_INVAL_ELF = 8"
| "errno_of E_KILLED = 9"
| "errno_of E_PANIC = 10"
| "errno_of E_TIMEOUT = 11"
| "errno_of E_TOO_BIG = 12"
| "errno_of E_NO_DEV = 13"
| "errno_of E_NA_DEV = 14"
| "errno_of E_BUSY = 15"
| "errno_of E_NOENT = 16"
| "errno_of E_ISDIR = 17"
| "errno_of E_NOTDIR = 18"
| "errno_of E_XDEV = 19"
| "errno_of E_UNIMP = 20"
| "errno_of E_SEEK = 21"
| "errno_of E_MAX_OPEN = 22"
| "errno_of E_EXISTS = 23"
| "errno_of E_NOTEMPTY = 24"

lemma errno_of_range: "1 \<le> errno_of e \<and> errno_of e \<le> 24"
  by (cases e) simp_all

lemma errno_of_pos [simp]: "0 < errno_of e"
  using errno_of_range [of e] by linarith

type_synonym 'a result = "errno + 'a"

section \<open>Machine words\<close>

type_synonym u8 = "8 word"
type_synonym u32 = "32 word"

lemma unat_u32_bound: "unat (x :: u32) < 4294967296"
  using unsigned_less [of x] by simp

lemma unat_add_u32: "unat (a :: u32) + unat b < 4294967296 \<Longrightarrow> unat (a + b) = unat a + unat b"
  by (simp add: unat_word_ariths)

lemma unat_mult_u32: "unat (a :: u32) * unat b < 4294967296 \<Longrightarrow> unat (a * b) = unat a * unat b"
  by (simp add: unat_word_ariths)

lemma unat_drop_bit_eq: "unat (drop_bit k (x :: 'a::len word)) = unat x div 2 ^ k"
proof -
  have "unat (drop_bit k x) = drop_bit k (unat x)"
    by (simp only: unsigned_drop_bit_eq take_bit_nat_eq_self_iff unsigned_less
        take_bit_nat_eq_self [OF unsigned_less])
  then show ?thesis by (simp add: drop_bit_eq_div)
qed

end
