(* ===== verification/Clist.thy ===== *)
theory Clist
  imports Prelude
begin

text \<open>
  The intrusive doubly linked circular lists of \<^verbatim>\<open>kern/include/list.h\<close>: every kernel
  queue (free pages, run queue, wait queues, timers, process lists, memory areas) is one.
  The heap of \<^verbatim>\<open>list_entry_t\<close> cells is a record of two functions on addresses; each C
  function is a state transformer on it. \<open>ring h c xs\<close> says that the cells \<open>xs\<close>, in this
  order, form the list whose head cell is \<open>c\<close>. The locale \<open>intrusive_list\<close> states what
  the clients rely on, derives the queue discipline and the traversal from it, and is
  interpreted on the pointer operations.
\<close>

section \<open>The operations of list.h\<close>

record 'a links =
  le_prev :: "'a \<Rightarrow> 'a"
  le_next :: "'a \<Rightarrow> 'a"

definition list_init :: "'a \<Rightarrow> 'a links \<Rightarrow> 'a links" where
  "list_init elm h =
     h\<lparr>le_prev := (le_prev h)(elm := elm), le_next := (le_next h)(elm := elm)\<rparr>"

definition list_add_raw :: "'a \<Rightarrow> 'a \<Rightarrow> 'a \<Rightarrow> 'a links \<Rightarrow> 'a links" where
  "list_add_raw elm prv nxt h =
     (let h1 = h\<lparr>le_prev := (le_prev h)(nxt := elm)\<rparr>;
          h2 = h1\<lparr>le_next := (le_next h1)(prv := elm)\<rparr>;
          h3 = h2\<lparr>le_next := (le_next h2)(elm := nxt)\<rparr>
      in h3\<lparr>le_prev := (le_prev h3)(elm := prv)\<rparr>)"

definition list_add_before :: "'a \<Rightarrow> 'a \<Rightarrow> 'a links \<Rightarrow> 'a links" where
  "list_add_before listelm elm h = list_add_raw elm (le_prev h listelm) listelm h"

definition list_add_after :: "'a \<Rightarrow> 'a \<Rightarrow> 'a links \<Rightarrow> 'a links" where
  "list_add_after listelm elm h = list_add_raw elm listelm (le_next h listelm) h"

definition list_add :: "'a \<Rightarrow> 'a \<Rightarrow> 'a links \<Rightarrow> 'a links" where
  "list_add listelm elm h = list_add_after listelm elm h"

definition list_del_raw :: "'a \<Rightarrow> 'a \<Rightarrow> 'a links \<Rightarrow> 'a links" where
  "list_del_raw prv nxt h =
     (let h1 = h\<lparr>le_next := (le_next h)(prv := nxt)\<rparr>
      in h1\<lparr>le_prev := (le_prev h1)(nxt := prv)\<rparr>)"

definition list_del :: "'a \<Rightarrow> 'a links \<Rightarrow> 'a links" where
  "list_del listelm h = list_del_raw (le_prev h listelm) (le_next h listelm) h"

definition list_del_init :: "'a \<Rightarrow> 'a links \<Rightarrow> 'a links" where
  "list_del_init listelm h = list_init listelm (list_del listelm h)"

definition list_empty :: "'a links \<Rightarrow> 'a \<Rightarrow> bool" where
  "list_empty h l \<longleftrightarrow> le_next h l = l"

definition list_next :: "'a links \<Rightarrow> 'a \<Rightarrow> 'a" where
  "list_next h listelm = le_next h listelm"

definition list_prev :: "'a links \<Rightarrow> 'a \<Rightarrow> 'a" where
  "list_prev h listelm = le_prev h listelm"

lemmas list_h_defs = list_init_def list_add_raw_def list_add_before_def list_add_after_def
  list_add_def list_del_raw_def list_del_def list_del_init_def list_empty_def
  list_next_def list_prev_def

text \<open>
  The loop \<^verbatim>\<open>while ((le = list_next(le)) != list) { ... }\<close> that the kernel uses to
  walk a list: the cells it visits, with fuel, since on a heap that holds no ring through
  \<open>l\<close> it does not end.
\<close>

fun list_walk :: "nat \<Rightarrow> 'a links \<Rightarrow> 'a \<Rightarrow> 'a \<Rightarrow> 'a list option" where
  "list_walk 0 h l le = None"
| "list_walk (Suc fuel) h l le =
     (let le' = list_next h le
      in if le' = l then Some [] else map_option ((#) le') (list_walk fuel h l le'))"

section \<open>The abstraction to lists\<close>

definition linked :: "'a links \<Rightarrow> 'a \<Rightarrow> 'a \<Rightarrow> bool" where
  "linked h a b \<longleftrightarrow> le_next h a = b \<and> le_prev h b = a"

definition ring :: "'a links \<Rightarrow> 'a \<Rightarrow> 'a list \<Rightarrow> bool" where
  "ring h c xs \<longleftrightarrow> distinct (c # xs) \<and> successively (linked h) (c # xs @ [c])"

lemma successively_linked_frame:
  assumes "\<forall>x \<in> set (butlast A). le_next h' x = le_next h x"
    and "\<forall>x \<in> set (tl A). le_prev h' x = le_prev h x"
  shows "successively (linked h') A = successively (linked h) A"
  using assms
proof (induction A)
  case Nil
  then show ?case by simp
next
  case (Cons a A)
  show ?case
  proof (cases A)
    case Nil
    then show ?thesis by simp
  next
    case (Cons b B)
    then have "successively (linked h') A = successively (linked h) A"
      using Cons.IH Cons.prems by (cases B) auto
    moreover have "linked h' a b = linked h a b"
      using Cons Cons.prems by (auto simp: linked_def)
    ultimately show ?thesis using Cons by simp
  qed
qed

text \<open>A ring cut at any point: \<open>us\<close> before the cut, \<open>vs\<close> after it.\<close>

lemma ring_cut:
  "ring h c (us @ vs) \<longleftrightarrow>
     distinct (c # us @ vs) \<and> successively (linked h) (c # us) \<and>
     successively (linked h) (vs @ [c]) \<and> linked h (last (c # us)) (hd (vs @ [c]))"
proof -
  have "successively (linked h) ((c # us) @ (vs @ [c])) \<longleftrightarrow>
      successively (linked h) (c # us) \<and> successively (linked h) (vs @ [c]) \<and>
      linked h (last (c # us)) (hd (vs @ [c]))"
    by (subst successively_append_iff) auto
  then show ?thesis by (simp add: ring_def)
qed

lemma ring_distinct: "ring h c xs \<Longrightarrow> distinct (c # xs)"
  by (simp add: ring_def)

lemma ring_next: "ring h c (us @ vs) \<Longrightarrow> list_next h (last (c # us)) = hd (vs @ [c])"
  by (simp add: ring_cut linked_def list_next_def)

lemma ring_prev: "ring h c (us @ vs) \<Longrightarrow> list_prev h (hd (vs @ [c])) = last (c # us)"
  by (simp add: ring_cut linked_def list_prev_def)

lemma ring_init: "ring (list_init e h) e []"
  by (simp add: ring_def linked_def list_init_def)

lemma last_notin_butlast: "distinct xs \<Longrightarrow> xs \<noteq> [] \<Longrightarrow> last xs \<notin> set (butlast xs)"
  by (metis append_butlast_last_id distinct_butlast distinct_append IntI empty_iff
      list.set_intros(1))

lemma hd_notin_tl: "distinct xs \<Longrightarrow> hd xs \<notin> set (tl xs)"
  by (cases xs) auto

lemma ring_add_raw:
  assumes r: "ring h c (us @ vs)" and e: "e \<notin> set (c # us @ vs)"
  shows "ring (list_add_raw e (last (c # us)) (hd (vs @ [c])) h) c (us @ e # vs)"
    (is "ring ?h' c _")
proof -
  let ?p = "last (c # us)" and ?n = "hd (vs @ [c])"
  from r have d: "distinct (c # us @ vs)" and A: "successively (linked h) (c # us)"
    and B: "successively (linked h) (vs @ [c])"
    by (simp_all add: ring_cut)
  have pA: "?p \<notin> set (butlast (c # us))"
    using d by (intro last_notin_butlast) auto
  have nB: "?n \<notin> set (tl (vs @ [c]))"
    using d by (intro hd_notin_tl) auto
  have nA: "?n \<notin> set us" and pB: "?p \<notin> set vs"
    using d by (cases vs, auto simp: last_in_set) (metis IntI empty_iff last_in_set)+
  have en: "e \<noteq> ?n" "e \<noteq> ?p"
    using e by (cases vs, auto)
  have eA: "e \<notin> set (butlast (c # us))"
    using e by (auto dest: in_set_butlastD split: if_splits)
  have eB: "e \<notin> set (tl (vs @ [c]))"
    using e by (cases vs) auto
  have "successively (linked ?h') (c # us) = successively (linked h) (c # us)"
    using pA nA eA e
    by (intro successively_linked_frame) (auto simp: list_add_raw_def Let_def)
  moreover have "successively (linked ?h') (vs @ [c]) = successively (linked h) (vs @ [c])"
    using pB nB eB e
    by (intro successively_linked_frame) (auto simp: list_add_raw_def Let_def)
  moreover have "linked ?h' ?p e" and "linked ?h' e ?n"
    using en by (auto simp: linked_def list_add_raw_def Let_def)
  ultimately show ?thesis
    using d e A B ring_cut [of ?h' c us "e # vs"] by (cases vs) auto
qed

lemma ring_add_before:
  assumes "ring h c (us @ vs)" and "e \<notin> set (c # us @ vs)"
  shows "ring (list_add_before (hd (vs @ [c])) e h) c (us @ e # vs)"
  using ring_add_raw [OF assms] ring_prev [OF assms(1)]
  by (simp add: list_add_before_def list_prev_def)

lemma ring_add_after:
  assumes "ring h c (us @ vs)" and "e \<notin> set (c # us @ vs)"
  shows "ring (list_add_after (last (c # us)) e h) c (us @ e # vs)"
  using ring_add_raw [OF assms] ring_next [OF assms(1)]
  by (simp add: list_add_after_def list_next_def)

lemma ring_del:
  assumes r: "ring h c (us @ x # vs)"
  shows "ring (list_del x h) c (us @ vs)" (is "ring ?h' c _")
proof -
  let ?p = "last (c # us)" and ?n = "hd (vs @ [c])"
  from r have d: "distinct (c # us @ x # vs)" and A: "successively (linked h) (c # us)"
    and B: "successively (linked h) (x # vs @ [c])" and px: "linked h ?p x"
    by (simp_all add: ring_cut)
  from B have B': "successively (linked h) (vs @ [c])" and xn: "linked h x ?n"
    by (cases vs; simp)+
  have h': "?h' = list_del_raw ?p ?n h"
    using px xn by (simp add: list_del_def linked_def)
  have pA: "?p \<notin> set (butlast (c # us))"
    using d by (intro last_notin_butlast) auto
  have nB: "?n \<notin> set (tl (vs @ [c]))"
    using d by (intro hd_notin_tl) auto
  have nA: "?n \<notin> set us" and pB: "?p \<notin> set vs"
    using d by (cases vs, auto simp: last_in_set) (metis IntI empty_iff last_in_set)+
  have "successively (linked ?h') (c # us) = successively (linked h) (c # us)"
    unfolding h' using pA nA
    by (intro successively_linked_frame) (auto simp: list_del_raw_def Let_def)
  moreover have "successively (linked ?h') (vs @ [c]) = successively (linked h) (vs @ [c])"
    unfolding h' using pB nB
    by (intro successively_linked_frame) (auto simp: list_del_raw_def Let_def)
  moreover have "linked ?h' ?p ?n"
    unfolding h' by (simp add: linked_def list_del_raw_def Let_def)
  ultimately show ?thesis using d A B' by (simp add: ring_cut)
qed

text \<open>
  Frame: two heaps that agree on the cells of a ring hold the same ring.
\<close>

lemma ring_cong:
  assumes "\<forall>x \<in> set (c # xs). le_next h' x = le_next h x \<and> le_prev h' x = le_prev h x"
  shows "ring h' c xs = ring h c xs"
proof -
  have "successively (linked h') (c # xs @ [c]) = successively (linked h) (c # xs @ [c])"
    using assms by (intro successively_linked_frame) (auto simp: butlast_append)
  then show ?thesis by (simp add: ring_def)
qed

lemma ring_init_other: "ring h c xs \<Longrightarrow> e \<notin> set (c # xs) \<Longrightarrow> ring (list_init e h) c xs"
  by (subst ring_cong [of c xs _ h]) (auto simp: list_init_def)

lemma ring_del_init:
  assumes "ring h c (us @ x # vs)"
  shows "ring (list_del_init x h) c (us @ vs)"
  using ring_del [OF assms] ring_distinct [OF assms]
  by (auto simp: list_del_init_def intro: ring_init_other)

lemma ring_del_init_self: "ring (list_del_init x h) x []"
  by (simp add: list_del_init_def ring_init)

lemma ring_links_in:
  assumes "ring h c (us @ vs)"
  shows "last (c # us) \<in> set (c # us @ vs)" and "hd (vs @ [c]) \<in> set (c # us @ vs)"
  by (auto simp: hd_append intro: last_in_set hd_in_set)

lemma ring_add_before_other:
  assumes r: "ring h c (us @ vs)" and k: "ring h k zs"
    and dis: "set (k # zs) \<inter> set (e # c # us @ vs) = {}"
  shows "ring (list_add_before (hd (vs @ [c])) e h) k zs"
proof -
  have p: "le_prev h (hd (vs @ [c])) = last (c # us)"
    using ring_prev [OF r] by (simp add: list_prev_def)
  show ?thesis
    using k dis ring_links_in [OF r]
    by (subst ring_cong [of k zs _ h])
      (auto simp: list_add_before_def p list_add_raw_def Let_def simp del: last.simps)
qed

lemma ring_del_init_other:
  assumes r: "ring h c (us @ x # vs)" and k: "ring h k zs"
    and dis: "set (k # zs) \<inter> set (c # us @ x # vs) = {}"
  shows "ring (list_del_init x h) k zs"
proof -
  have px: "le_prev h x = last (c # us)" "le_next h x = hd (vs @ [c])"
    using ring_prev [OF r] ring_next [of h c "us @ [x]" vs] r
    by (simp_all add: list_prev_def list_next_def)
  have inr: "last (c # us) \<in> set (c # us @ x # vs)" "hd (vs @ [c]) \<in> set (c # us @ x # vs)"
    by (auto simp: hd_append intro: last_in_set hd_in_set)
  show ?thesis
    using k dis inr
    by (subst ring_cong [of k zs _ h])
      (auto simp: list_del_init_def list_del_def px list_init_def list_del_raw_def Let_def
        simp del: last.simps)
qed

lemma ring_push:
  assumes "ring h c xs" and "e \<notin> set (c # xs)"
  shows "ring (list_add c e h) c (e # xs)"
  using ring_add_after [of h c "[]" xs e] assms by (simp add: list_add_def)

lemma ring_push_other:
  assumes r: "ring h c xs" and k: "ring h k zs" and dis: "set (k # zs) \<inter> set (e # c # xs) = {}"
  shows "ring (list_add c e h) k zs"
proof -
  have "le_next h c = hd (xs @ [c])" using ring_next [of h c "[]" xs] r by (simp add: list_next_def)
  moreover have "hd (xs @ [c]) \<in> set (c # xs)" by (cases xs) auto
  ultimately show ?thesis
    using k dis
    by (subst ring_cong [of k zs _ h])
      (auto simp: list_add_def list_add_after_def list_add_raw_def Let_def)
qed

lemma ring_del_other:
  assumes r: "ring h c (us @ x # vs)" and k: "ring h k zs"
    and dis: "set (k # zs) \<inter> set (c # us @ x # vs) = {}"
  shows "ring (list_del x h) k zs"
proof -
  have "ring (list_init x (list_del x h)) k zs"
    using ring_del_init_other [OF assms] by (simp add: list_del_init_def)
  then show ?thesis
    using dis by (subst (asm) ring_cong [of k zs _ "list_del x h"]) (auto simp: list_init_def)
qed


section \<open>The interface the kernel's queues rely on\<close>

text \<open>
  Laws of an intrusive list: \<open>rep h c xs\<close> is the abstraction, and every operation is
  described by what it does to \<open>xs\<close>, and to no other list.
\<close>

locale intrusive_list =
  fixes rep :: "'h \<Rightarrow> 'a \<Rightarrow> 'a list \<Rightarrow> bool"
    and linit :: "'a \<Rightarrow> 'h \<Rightarrow> 'h"
    and add_before :: "'a \<Rightarrow> 'a \<Rightarrow> 'h \<Rightarrow> 'h"
    and del_init :: "'a \<Rightarrow> 'h \<Rightarrow> 'h"
    and lnext :: "'h \<Rightarrow> 'a \<Rightarrow> 'a"
    and lempty :: "'h \<Rightarrow> 'a \<Rightarrow> bool"
  assumes rep_distinct: "rep h c xs \<Longrightarrow> distinct (c # xs)"
    and rep_linit: "rep (linit e h) e []"
    and rep_linit_other: "rep h c xs \<Longrightarrow> e \<notin> set (c # xs) \<Longrightarrow> rep (linit e h) c xs"
    and rep_add_before: "rep h c (us @ vs) \<Longrightarrow> e \<notin> set (c # us @ vs) \<Longrightarrow>
      rep (add_before (hd (vs @ [c])) e h) c (us @ e # vs)"
    and rep_add_other: "rep h c (us @ vs) \<Longrightarrow> rep h k zs \<Longrightarrow>
      set (k # zs) \<inter> set (e # c # us @ vs) = {} \<Longrightarrow>
      rep (add_before (hd (vs @ [c])) e h) k zs"
    and rep_del_init: "rep h c (us @ x # vs) \<Longrightarrow> rep (del_init x h) c (us @ vs)"
    and rep_del_init_self: "rep (del_init x h) x []"
    and rep_del_other: "rep h c (us @ x # vs) \<Longrightarrow> rep h k zs \<Longrightarrow>
      set (k # zs) \<inter> set (c # us @ x # vs) = {} \<Longrightarrow> rep (del_init x h) k zs"
    and rep_next: "rep h c (us @ vs) \<Longrightarrow> lnext h (last (c # us)) = hd (vs @ [c])"
    and lempty_iff: "lempty h x \<longleftrightarrow> lnext h x = x"
begin

text \<open>Appending at the tail is adding before the head cell.\<close>

lemma rep_enqueue: "rep h c xs \<Longrightarrow> e \<notin> set (c # xs) \<Longrightarrow> rep (add_before c e h) c (xs @ [e])"
  using rep_add_before [of h c xs "[]" e] by simp

lemma next_head: "rep h c xs \<Longrightarrow> lnext h c = hd (xs @ [c])"
  using rep_next [of h c "[]" xs] by simp

lemma next_cell: "rep h c (us @ x # vs) \<Longrightarrow> lnext h x = hd (vs @ [c])"
  using rep_next [of h c "us @ [x]" vs] by simp

lemma lempty_head: "rep h c xs \<Longrightarrow> lempty h c \<longleftrightarrow> xs = []"
  using next_head [of h c xs] rep_distinct [of h c xs]
  by (cases xs) (auto simp: lempty_iff)

text \<open>A cell that is on a list is not empty, a freshly initialised or deleted one is.\<close>

lemma lempty_member:
  assumes "rep h c xs" and "x \<in> set xs"
  shows "\<not> lempty h x"
proof -
  from assms(2) obtain us vs where xs: "xs = us @ x # vs"
    by (auto simp: in_set_conv_decomp)
  with assms(1) have "lnext h x = hd (vs @ [c])" by (auto dest: next_cell)
  with xs rep_distinct [OF assms(1)] show ?thesis by (cases vs) (auto simp: lempty_iff)
qed

lemma lempty_linit: "lempty (linit e h) e"
  using lempty_head [OF rep_linit] by simp

lemma lempty_del_init: "lempty (del_init x h) x"
  using lempty_head [OF rep_del_init_self] by simp

text \<open>Taking the first element off is FIFO.\<close>

lemma rep_dequeue: "rep h c (x # xs) \<Longrightarrow> lnext h c = x \<and> rep (del_init (lnext h c) h) c xs"
  using rep_del_init [of h c "[]" x xs] next_head [of h c "x # xs"] by simp

lemma rep_fold_enqueue:
  "rep h c xs \<Longrightarrow> distinct es \<Longrightarrow> set es \<inter> set (c # xs) = {} \<Longrightarrow>
   rep (fold (add_before c) es h) c (xs @ es)"
proof (induction es arbitrary: h xs)
  case Nil
  then show ?case by simp
next
  case (Cons e es)
  then have "rep (add_before c e h) c (xs @ [e])" by (intro rep_enqueue) auto
  then have "rep (fold (add_before c) es (add_before c e h)) c ((xs @ [e]) @ es)"
    using Cons.prems by (intro Cons.IH) auto
  then show ?case by simp
qed

text \<open>Walking with \<open>lnext\<close> visits the elements in order and comes back to the head.\<close>

lemma next_funpow:
  assumes "rep h c xs" and "i \<le> length xs"
  shows "(lnext h ^^ i) c = (c # xs) ! i"
  using assms(2)
proof (induction i)
  case 0
  then show ?case by simp
next
  case (Suc i)
  then have "last (c # take i xs) = (c # xs) ! i"
    by (cases i) (simp_all add: take_Suc_conv_app_nth)
  then have "lnext h ((c # xs) ! i) = hd (drop i xs @ [c])"
    using rep_next [of h c "take i xs" "drop i xs"] assms(1) by simp
  with Suc show ?case by (simp add: hd_append hd_drop_conv_nth)
qed

end

interpretation clist: intrusive_list ring list_init list_add_before list_del_init list_next list_empty
proof unfold_locales
  show "ring h c xs \<Longrightarrow> distinct (c # xs)" for h c and xs :: "'a list"
    by (rule ring_distinct)
  show "ring (list_init e h) e []" for h and e :: 'a
    by (rule ring_init)
  show "ring h c xs \<Longrightarrow> e \<notin> set (c # xs) \<Longrightarrow> ring (list_init e h) c xs" for h c and e :: 'a and xs
    by (rule ring_init_other)
  show "ring h c (us @ vs) \<Longrightarrow> e \<notin> set (c # us @ vs) \<Longrightarrow>
      ring (list_add_before (hd (vs @ [c])) e h) c (us @ e # vs)" for h c us vs and e :: 'a
    by (rule ring_add_before)
  show "ring h c (us @ vs) \<Longrightarrow> ring h k zs \<Longrightarrow> set (k # zs) \<inter> set (e # c # us @ vs) = {} \<Longrightarrow>
      ring (list_add_before (hd (vs @ [c])) e h) k zs" for h c us vs k zs and e :: 'a
    by (rule ring_add_before_other)
  show "ring h c (us @ x # vs) \<Longrightarrow> ring (list_del_init x h) c (us @ vs)" for h c us vs and x :: 'a
    by (rule ring_del_init)
  show "ring (list_del_init x h) x []" for h and x :: 'a
    by (rule ring_del_init_self)
  show "ring h c (us @ x # vs) \<Longrightarrow> ring h k zs \<Longrightarrow> set (k # zs) \<inter> set (c # us @ x # vs) = {} \<Longrightarrow>
      ring (list_del_init x h) k zs" for h c us vs k zs and x :: 'a
    by (rule ring_del_init_other)
  show "ring h c (us @ vs) \<Longrightarrow> list_next h (last (c # us)) = hd (vs @ [c])" for h c us and vs :: "'a list"
    by (rule ring_next)
  show "list_empty h x \<longleftrightarrow> list_next h x = x" for h and x :: 'a
    by (simp add: list_empty_def list_next_def)
qed

section \<open>Traversal loops end and see the whole list\<close>

lemma list_walk_suffix:
  "ring h c (us @ vs) \<Longrightarrow> length vs < fuel \<Longrightarrow> list_walk fuel h c (last (c # us)) = Some vs"
proof (induction vs arbitrary: us fuel)
  case Nil
  then obtain f where "fuel = Suc f" by (cases fuel) auto
  with ring_next [OF Nil.prems(1)] show ?case by (simp del: last.simps)
next
  case (Cons v vs)
  then obtain f where f: "fuel = Suc f" "length vs < f" by (cases fuel) auto
  have "list_walk f h c (last (c # (us @ [v]))) = Some vs"
    using Cons.prems f(2) by (intro Cons.IH) auto
  then have "list_walk f h c v = Some vs" by simp
  with f ring_next [OF Cons.prems(1)] ring_distinct [OF Cons.prems(1)] show ?case
    by (auto simp: Let_def simp del: last.simps)
qed

end
