(* ===== verification/Klib.thy ===== *)
theory Klib
  imports Prelude
begin

text \<open>
  Small arithmetic routines of the kernel: the division-free \<^verbatim>\<open>__divu10\<close> and
  \<^verbatim>\<open>__divu5\<close> of \<^verbatim>\<open>include/thumips.h\<close> (the soft core has no divider), the
  rounding macros of \<^verbatim>\<open>include/defs.h\<close>, and \<^verbatim>\<open>hash32\<close> and \<^verbatim>\<open>rand\<close> of
  \<^verbatim>\<open>libs/\<close>. All are 32-bit words, with the wrap-around of the C code.
\<close>

section \<open>Division by constants\<close>

definition mulu10 :: "u32 \<Rightarrow> u32" where
  "mulu10 n = push_bit 3 n + push_bit 1 n"

definition divu10 :: "u32 \<Rightarrow> u32" where
  "divu10 n =
     (let q = drop_bit 1 n + drop_bit 2 n;
          q = q + drop_bit 4 q;
          q = q + drop_bit 8 q;
          q = q + drop_bit 16 q;
          q = drop_bit 3 q;
          r = n - mulu10 q
      in q + drop_bit 4 (r + 6))"

definition divu5 :: "u32 \<Rightarrow> u32" where
  "divu5 n =
     (let q = drop_bit 3 n + drop_bit 4 n;
          q = q + drop_bit 4 q;
          q = q + drop_bit 8 q;
          q = q + drop_bit 16 q;
          r = n - q * 5
      in q + drop_bit 6 (13 * r))"

lemma mulu10_eq: "mulu10 n = 10 * n"
  by (simp add: mulu10_def push_bit_eq_mult)

text \<open>The shift-and-add series both routines use, and its value without wrap-around.\<close>

definition qseries :: "u32 \<Rightarrow> u32" where
  "qseries q =
     (let q = q + drop_bit 4 q; q = q + drop_bit 8 q in q + drop_bit 16 q)"

definition qnat :: "nat \<Rightarrow> nat" where
  "qnat q = (let q = q + q div 16; q = q + q div 256 in q + q div 65536)"

lemma qnat_bounds:
  "5 * 65536 * 256 * 16 * qnat q \<le> 5 * 65537 * 257 * 17 * q"
  "5 * 65537 * 257 * 17 * q \<le> 5 * 65536 * 256 * 16 * qnat q + 5 * 65536 * 256 * 16 * 3"
proof -
  define q1 where "q1 = q + q div 16"
  define q2 where "q2 = q1 + q1 div 256"
  have "qnat q = q2 + q2 div 65536" by (simp add: qnat_def q1_def q2_def Let_def)
  moreover have "16 * (q div 16) \<le> q" "q \<le> 16 * (q div 16) + 15" by arith+
  moreover have "256 * (q1 div 256) \<le> q1" "q1 \<le> 256 * (q1 div 256) + 255" by arith+
  moreover have "65536 * (q2 div 65536) \<le> q2" "q2 \<le> 65536 * (q2 div 65536) + 65535" by arith+
  ultimately show
    "5 * 65536 * 256 * 16 * qnat q \<le> 5 * 65537 * 257 * 17 * q"
    "5 * 65537 * 257 * 17 * q \<le> 5 * 65536 * 256 * 16 * qnat q + 5 * 65536 * 256 * 16 * 3"
    unfolding q1_def [symmetric] using q1_def q2_def by linarith+
qed

lemma unat_qseries:
  assumes "qnat (unat q) < 4294967296"
  shows "unat (qseries q) = qnat (unat q)"
proof -
  have "unat q + unat q div 16 < 4294967296"
    and "unat q + unat q div 16 + (unat q + unat q div 16) div 256 < 4294967296"
    using assms by (simp_all add: qnat_def Let_def)
  with assms show ?thesis
    by (simp add: qseries_def qnat_def Let_def unat_add_u32 unat_drop_bit_eq)
qed

lemma divu10_estimate:
  fixes n :: nat
  assumes "n < 4294967296"
  defines "q \<equiv> qnat (n div 2 + n div 4) div 8"
  shows "10 * q \<le> n" and "n \<le> 10 * q + 19" and "qnat (n div 2 + n div 4) < 4294967296"
proof -
  let ?q0 = "n div 2 + n div 4"
  have q0: "4 * ?q0 \<le> 3 * n" "3 * n \<le> 4 * ?q0 + 5" by arith+
  have q3: "8 * q \<le> qnat ?q0" "qnat ?q0 \<le> 8 * q + 7" unfolding q_def by arith+
  note b = qnat_bounds [of ?q0]
  show "10 * q \<le> n" using assms(1) q0 q3 b by linarith
  show "n \<le> 10 * q + 19" using assms(1) q0 q3 b by linarith
  show "qnat ?q0 < 4294967296" using assms(1) q0 b by linarith
qed

lemma div10_by_16: "r \<le> 19 \<Longrightarrow> (r + 6) div 16 = r div (10::nat)"
proof -
  have "list_all (\<lambda>r::nat. (r + 6) div 16 = r div 10) [0..<20]" by code_simp
  then show "r \<le> 19 \<Longrightarrow> ?thesis" by (simp add: list_all_iff)
qed

lemma divu10_nat: "unat (divu10 n) = unat n div 10"
proof -
  let ?n = "unat n" and ?q0 = "drop_bit 1 n + drop_bit 2 n"
  define q where "q = qnat (?n div 2 + ?n div 4) div 8"
  note e = divu10_estimate [OF unat_u32_bound, of n, folded q_def]
  have q0: "unat ?q0 = ?n div 2 + ?n div 4"
    using unat_u32_bound [of n] by (subst unat_add_u32) (simp_all add: unat_drop_bit_eq)
  then have q: "unat (drop_bit 3 (qseries ?q0)) = q"
    using e(3) by (simp add: unat_drop_bit_eq unat_qseries q_def)
  let ?w = "drop_bit 3 (qseries ?q0)"
  have m: "unat (mulu10 ?w) = 10 * q"
    using e(1) unat_u32_bound [of n] q by (simp add: mulu10_eq unat_mult_u32)
  then have r: "unat (n - mulu10 ?w) = ?n - 10 * q"
    using e(1) by (subst unat_sub) (simp_all add: word_le_nat_alt)
  then have r6: "unat (n - mulu10 ?w + 6) = ?n - 10 * q + 6"
    using e(2) by (subst unat_add_u32) simp_all
  have "divu10 n = ?w + drop_bit 4 (n - mulu10 ?w + 6)"
    by (simp add: divu10_def qseries_def Let_def)
  then have "unat (divu10 n) = q + (?n - 10 * q + 6) div 16"
    using r6 q e(2) unat_u32_bound [of n] e(1)
    by (simp add: unat_add_u32 unat_drop_bit_eq)
  also have "\<dots> = q + (?n - 10 * q) div 10" using e(2) by (subst div10_by_16) linarith+
  also have "\<dots> = (10 * q + (?n - 10 * q)) div 10" by simp
  also have "\<dots> = ?n div 10" using e(1) by (simp only: le_add_diff_inverse)
  finally show ?thesis .
qed

lemma divu5_estimate:
  fixes n :: nat
  assumes "n < 4294967296"
  defines "q \<equiv> qnat (n div 8 + n div 16)"
  shows "5 * q \<le> n" and "n \<le> 5 * q + 29"
proof -
  let ?q0 = "n div 8 + n div 16"
  have d: "8 * (n div 8) \<le> n" "n \<le> 8 * (n div 8) + 7" "16 * (n div 16) \<le> n"
    "n \<le> 16 * (n div 16) + 15" by (simp_all add: mod_less_divisor minus_mod_eq_mult_div [symmetric])
  have "16 * (a + b) \<le> 3 * n \<and> 3 * n \<le> 16 * (a + b) + 29"
    if "8 * a \<le> n" "n \<le> 8 * a + 7" "16 * b \<le> n" "n \<le> 16 * b + 15" for a b
    using that by auto
  from this [OF d] have q0: "16 * ?q0 \<le> 3 * n" "3 * n \<le> 16 * ?q0 + 29" by blast+
  note b = qnat_bounds [of ?q0, folded q_def]
  show "5 * q \<le> n" using assms(1) q0 b by linarith
  show "n \<le> 5 * q + 29" using assms(1) q0 b by linarith
qed

lemma div5_by_13: "r \<le> 29 \<Longrightarrow> 13 * r div 64 = r div (5::nat)"
proof -
  have "list_all (\<lambda>r::nat. 13 * r div 64 = r div 5) [0..<30]" by code_simp
  then show "r \<le> 29 \<Longrightarrow> ?thesis" by (simp add: list_all_iff)
qed

lemma divu5_nat: "unat (divu5 n) = unat n div 5"
proof -
  let ?n = "unat n" and ?q0 = "drop_bit 3 n + drop_bit 4 n"
  define q where "q = qnat (?n div 8 + ?n div 16)"
  note e = divu5_estimate [OF unat_u32_bound, of n, folded q_def]
  have q0: "unat ?q0 = ?n div 8 + ?n div 16"
    using unat_u32_bound [of n] by (subst unat_add_u32) (simp_all add: unat_drop_bit_eq)
  let ?w = "qseries ?q0"
  from q0 have q: "unat ?w = q"
    using e(1) unat_u32_bound [of n] by (simp add: unat_qseries q_def)
  have m: "unat (?w * 5) = q * 5"
    using e(1) unat_u32_bound [of n] q by (simp add: unat_mult_u32)
  then have r: "unat (n - ?w * 5) = ?n - 5 * q"
    using e(1) by (subst unat_sub) (simp_all add: word_le_nat_alt)
  then have r13: "unat (13 * (n - ?w * 5)) = 13 * (?n - 5 * q)"
    using e(2) by (subst unat_mult_u32) simp_all
  have "divu5 n = ?w + drop_bit 6 (13 * (n - ?w * 5))"
    by (simp add: divu5_def qseries_def Let_def)
  then have "unat (divu5 n) = q + 13 * (?n - 5 * q) div 64"
    using r13 q e unat_u32_bound [of n] by (simp add: unat_add_u32 unat_drop_bit_eq)
  also have "\<dots> = q + (?n - 5 * q) div 5" using e(2) by (subst div5_by_13) linarith+
  also have "\<dots> = (5 * q + (?n - 5 * q)) div 5" by simp
  also have "\<dots> = ?n div 5" using e(1) by (simp only: le_add_diff_inverse)
  finally show ?thesis .
qed

section \<open>Rounding\<close>

definition ROUNDDOWN_2N :: "u32 \<Rightarrow> nat \<Rightarrow> u32" where
  "ROUNDDOWN_2N a n = push_bit n (drop_bit n a)"

definition ROUNDUP_2N :: "u32 \<Rightarrow> nat \<Rightarrow> u32" where
  "ROUNDUP_2N a n = ROUNDDOWN_2N (a + push_bit n 1 - 1) n"

definition ROUNDUP_DIV_2N :: "u32 \<Rightarrow> nat \<Rightarrow> u32" where
  "ROUNDUP_DIV_2N a n = drop_bit n (a + push_bit n 1 - 1)"

lemma unat_two_power: "n < 32 \<Longrightarrow> unat (2 ^ n :: u32) = 2 ^ n"
proof -
  assume n: "n < 32"
  have "unat (2 ^ n :: u32) = unat (of_nat (2 ^ n) :: u32)" by simp
  also have "\<dots> = 2 ^ n"
    using n by (simp add: unsigned_of_nat take_bit_nat_eq_self del: of_nat_power)
  finally show ?thesis .
qed

lemma unat_ROUNDDOWN_2N: "n < 32 \<Longrightarrow> unat (ROUNDDOWN_2N a n) = (unat a div 2 ^ n) * 2 ^ n"
proof -
  assume n: "n < 32"
  have "(unat a div 2 ^ n) * 2 ^ n < 4294967296"
    using unat_u32_bound [of a] by (rule le_less_trans [OF div_times_less_eq_dividend])
  then show ?thesis
    using n by (simp add: ROUNDDOWN_2N_def push_bit_eq_mult unat_mult_u32 unat_two_power
        unat_drop_bit_eq)
qed

lemma unat_round_add:
  assumes "n < 32" and "unat (a :: u32) + 2 ^ n - 1 < 2 ^ 32"
  shows "unat (a + 2 ^ n - 1) = unat a + 2 ^ n - 1"
proof -
  have "1 \<le> (2 ^ n :: u32)"
    using unat_two_power [OF assms(1)] by (simp add: word_le_nat_alt)
  then have "unat (2 ^ n - 1 :: u32) = 2 ^ n - 1"
    using unat_two_power [OF assms(1)] by (simp add: unat_sub)
  moreover have "(1::nat) \<le> 2 ^ n" by simp
  ultimately have "unat (a + (2 ^ n - 1)) = unat a + 2 ^ n - 1"
    using assms(2) by (subst unat_add_u32) simp_all
  then show ?thesis by (simp only: add_diff_eq)
qed

text \<open>The result of rounding up is the least multiple of \<open>2 ^ n\<close> above the argument.\<close>

lemma unat_ROUNDUP_2N:
  assumes "n < 32" and "unat a + 2 ^ n - 1 < 2 ^ 32"
  shows "unat (ROUNDUP_2N a n) = ((unat a + 2 ^ n - 1) div 2 ^ n) * 2 ^ n"
  by (simp add: ROUNDUP_2N_def unat_ROUNDDOWN_2N [OF assms(1)] unat_round_add [OF assms, simplified])

lemma unat_ROUNDUP_DIV_2N:
  assumes "n < 32" and "unat a + 2 ^ n - 1 < 2 ^ 32"
  shows "unat (ROUNDUP_DIV_2N a n) = (unat a + 2 ^ n - 1) div 2 ^ n"
  by (simp add: ROUNDUP_DIV_2N_def unat_drop_bit_eq unat_round_add [OF assms, simplified])

lemma round_up_least:
  fixes a m k :: nat
  assumes "0 < m"
  shows "a \<le> ((a + m - 1) div m) * m" and "((a + m - 1) div m) * m < a + m"
    and "a \<le> k * m \<Longrightarrow> (a + m - 1) div m \<le> k"
proof -
  have *: "(a + m - 1) div m * m + (a + m - 1) mod m = a + m - 1" by simp
  have "(a + m - 1) mod m < m" using assms by simp
  with * assms show "a \<le> ((a + m - 1) div m) * m" by linarith
  from * assms show "((a + m - 1) div m) * m < a + m" by linarith
  assume "a \<le> k * m"
  then have "(a + m - 1) div m \<le> ((m - 1) + k * m) div m"
    using assms by (intro div_le_mono) arith
  also have "\<dots> = k" using assms by (subst div_mult_self1) simp_all
  finally show "(a + m - 1) div m \<le> k" .
qed

section \<open>Hashing and random numbers\<close>

definition GOLDEN_RATIO_PRIME_32 :: u32 where
  "GOLDEN_RATIO_PRIME_32 = 0x9e370001"

definition hash32 :: "u32 \<Rightarrow> nat \<Rightarrow> u32" where
  "hash32 v bits = drop_bit (32 - bits) (v * GOLDEN_RATIO_PRIME_32)"

lemma hash32_bound: "bits \<le> 32 \<Longrightarrow> unat (hash32 v bits) < 2 ^ bits"
proof -
  assume b: "bits \<le> 32"
  let ?h = "unat (v * GOLDEN_RATIO_PRIME_32)"
  have "?h < 2 ^ bits * 2 ^ (32 - bits)"
    using unat_u32_bound b by (simp flip: power_add)
  then have "?h div 2 ^ (32 - bits) < 2 ^ bits"
    by (simp add: less_mult_imp_div_less)
  then show ?thesis by (simp add: hash32_def unat_drop_bit_eq)
qed

definition RAND_MAX :: u32 where "RAND_MAX = 0xFFFF"

definition rand :: "u32 \<Rightarrow> u32 \<times> u32" where
  "rand next0 =
     (let next1 = (next0 * 0xDEECE66D + 0xB) AND (push_bit 17 1 - 1);
          result = drop_bit 12 next1
      in (result AND RAND_MAX, next1))"

definition srand :: "u32 \<Rightarrow> u32" where
  "srand seed = seed"

section \<open>Properties\<close>

text \<open>
  C39: The kernel's division by shifts and adds, used because the processor has no divider, is
  exact division for every 32-bit operand: \<^verbatim>\<open>__divu10\<close> and \<^verbatim>\<open>__divu5\<close> are
  truncating division by 10 and by 5, and \<^verbatim>\<open>__mulu10\<close> is multiplication by 10.\<close>
theorem divu_exact: "divu10 n = n div 10 \<and> divu5 n = n div 5 \<and> mulu10 n = 10 * n"
proof -
  have "unat (n div 10) = unat n div 10" "unat (n div 5) = unat n div 5"
    by (simp_all add: unat_div)
  then show ?thesis
    by (simp add: mulu10_eq word_unat_eq_iff divu10_nat divu5_nat)
qed

text \<open>
  \<^verbatim>\<open>ROUNDUP_2N\<close> is the least multiple of the power of two that is not below its
  argument, and \<^verbatim>\<open>ROUNDUP_DIV_2N\<close> the number of blocks, whenever the sum inside the macro
  does not wrap.\<close>
theorem ROUNDUP_2N_least:
  assumes "n < 32" and "unat a + 2 ^ n - 1 < 2 ^ 32"
  shows "unat a \<le> unat (ROUNDUP_2N a n) \<and>
    unat (ROUNDUP_2N a n) = unat (ROUNDUP_DIV_2N a n) * 2 ^ n \<and>
    (\<forall>k. unat a \<le> k * 2 ^ n \<longrightarrow> unat (ROUNDUP_2N a n) \<le> k * 2 ^ n)"
  using round_up_least [of "2 ^ n" "unat a"]
  by (simp add: unat_ROUNDUP_2N [OF assms] unat_ROUNDUP_DIV_2N [OF assms])

theorem ROUNDUP_2N_least_witness:
  "unat (5000 :: u32) \<le> unat (ROUNDUP_2N 5000 12) \<and>
    unat (ROUNDUP_2N 5000 12) = unat (ROUNDUP_DIV_2N 5000 12) * 2 ^ 12 \<and>
    unat (ROUNDUP_2N 5000 12) \<le> 2 * 2 ^ 12"
proof -
  have "unat (5000 :: u32) \<le> 2 * 2 ^ 12" by simp
  with ROUNDUP_2N_least [of 12 5000] show ?thesis by auto
qed

end
