(* ===== verification/Paging.thy ===== *)
theory Paging
  imports Klib
begin

text \<open>
  Addresses, page table entries and the software-loaded TLB: the macros of
  \<^verbatim>\<open>kern/mm/mmu.h\<close>, the entry accessors of \<^verbatim>\<open>kern/include/glue_pgmap.h\<close>, and the
  TLB routines of \<^verbatim>\<open>kern/include/thumips_tlb.h\<close> and \<^verbatim>\<open>kern/mm/thumips_tlb.c\<close>.
  An accessor that stores through \<^verbatim>\<open>pte_t *\<close> is the function from the old to the new
  entry. The coprocessor's TLB is a function from the slot to its four register images.
\<close>

section \<open>mmu.h\<close>

abbreviation (input) KERNBASE :: u32 where "KERNBASE \<equiv> 0x80000000"
abbreviation (input) PGSIZE :: u32 where "PGSIZE \<equiv> 4096"

definition PDX :: "u32 \<Rightarrow> u32" where "PDX la = drop_bit 22 la AND 0x3FF"
definition PTX :: "u32 \<Rightarrow> u32" where "PTX la = drop_bit 12 la AND 0x3FF"
definition PPN :: "u32 \<Rightarrow> u32" where "PPN la = drop_bit 12 (la - KERNBASE)"
definition PGOFF :: "u32 \<Rightarrow> u32" where "PGOFF la = la AND 0xFFF"
definition PGADDR :: "u32 \<Rightarrow> u32 \<Rightarrow> u32 \<Rightarrow> u32" where
  "PGADDR d t off = push_bit 22 d OR push_bit 12 t OR off"
definition PTE_ADDR :: "u32 \<Rightarrow> u32" where "PTE_ADDR pte = pte AND NOT 0xFFF"

definition PTE_P :: u32 where "PTE_P = 0x001"
definition PTE_W :: u32 where "PTE_W = 0x002"
definition PTE_U :: u32 where "PTE_U = 0x004"
definition PTE_A :: u32 where "PTE_A = 0x020"
definition PTE_D :: u32 where "PTE_D = 0x040"
definition PTE_USER :: u32 where "PTE_USER = PTE_U OR PTE_W OR PTE_P"

lemmas PTE_bits = PTE_P_def PTE_W_def PTE_U_def PTE_A_def PTE_D_def PTE_USER_def

lemma and_mask_u32: "(x :: u32) AND (2 ^ n - 1) = take_bit n x"
  by (simp add: take_bit_eq_mask mask_eq_exp_minus_1)

lemma and_3FF: "(x :: u32) AND 0x3FF = take_bit 10 x" using and_mask_u32 [of x 10] by simp
lemma and_FFF: "(x :: u32) AND 0xFFF = take_bit 12 x" using and_mask_u32 [of x 12] by simp

lemma PDX_bound: "unat (PDX la) < 1024"
  unfolding PDX_def and_3FF by (simp add: take_bit_eq_mod unat_mod)

lemma PTX_bound: "unat (PTX la) < 1024"
  unfolding PTX_def and_3FF by (simp add: take_bit_eq_mod unat_mod)

lemma unat_PTX: "unat (PTX la) = unat la div 4096 mod 1024"
  unfolding PTX_def and_3FF
  by (simp add: take_bit_eq_mod unat_mod unat_drop_bit_eq)

section \<open>glue_pgmap.h\<close>

definition ptep_map :: "u32 \<Rightarrow> u32" where "ptep_map pa = pa OR PTE_P"
definition ptep_unmap :: u32 where "ptep_unmap = 0"
definition ptep_invalid :: "u32 \<Rightarrow> bool" where "ptep_invalid pte \<longleftrightarrow> pte = 0"
definition ptep_present :: "u32 \<Rightarrow> bool" where "ptep_present pte \<longleftrightarrow> pte AND PTE_P \<noteq> 0"
definition ptep_s_read :: "u32 \<Rightarrow> bool" where "ptep_s_read pte \<longleftrightarrow> pte AND PTE_P \<noteq> 0"
definition ptep_s_write :: "u32 \<Rightarrow> bool" where "ptep_s_write pte \<longleftrightarrow> pte AND PTE_W \<noteq> 0"
definition ptep_u_read :: "u32 \<Rightarrow> bool" where "ptep_u_read pte \<longleftrightarrow> pte AND PTE_U \<noteq> 0"
definition ptep_u_write :: "u32 \<Rightarrow> bool" where
  "ptep_u_write pte \<longleftrightarrow> pte AND PTE_U \<noteq> 0 \<and> pte AND PTE_W \<noteq> 0"
definition ptep_set_s_read :: "u32 \<Rightarrow> u32" where "ptep_set_s_read pte = pte"
definition ptep_set_s_write :: "u32 \<Rightarrow> u32" where "ptep_set_s_write pte = pte OR PTE_W"
definition ptep_set_u_read :: "u32 \<Rightarrow> u32" where "ptep_set_u_read pte = pte OR PTE_U"
definition ptep_set_u_write :: "u32 \<Rightarrow> u32" where "ptep_set_u_write pte = pte OR (PTE_W OR PTE_U)"
definition ptep_unset_s_read :: "u32 \<Rightarrow> u32" where "ptep_unset_s_read pte = pte"
definition ptep_unset_s_write :: "u32 \<Rightarrow> u32" where "ptep_unset_s_write pte = pte AND NOT PTE_W"
definition ptep_unset_u_read :: "u32 \<Rightarrow> u32" where "ptep_unset_u_read pte = pte AND NOT PTE_U"
definition ptep_unset_u_write :: "u32 \<Rightarrow> u32" where "ptep_unset_u_write pte = pte AND NOT PTE_W"
definition ptep_get_perm :: "u32 \<Rightarrow> u32 \<Rightarrow> u32" where "ptep_get_perm pte perm = pte AND perm"
definition ptep_set_perm :: "u32 \<Rightarrow> u32 \<Rightarrow> u32" where "ptep_set_perm pte perm = pte OR perm"
definition ptep_copy :: "u32 \<Rightarrow> u32" where "ptep_copy from = from"
definition ptep_unset_perm :: "u32 \<Rightarrow> u32 \<Rightarrow> u32" where
  "ptep_unset_perm pte perm = pte AND NOT perm"
definition ptep_accessed :: "u32 \<Rightarrow> bool" where "ptep_accessed pte \<longleftrightarrow> pte AND PTE_A \<noteq> 0"
definition ptep_dirty :: "u32 \<Rightarrow> bool" where "ptep_dirty pte \<longleftrightarrow> pte AND PTE_D \<noteq> 0"
definition ptep_set_accessed :: "u32 \<Rightarrow> u32" where "ptep_set_accessed pte = pte OR PTE_A"
definition ptep_set_dirty :: "u32 \<Rightarrow> u32" where "ptep_set_dirty pte = pte OR PTE_D"
definition ptep_unset_accessed :: "u32 \<Rightarrow> u32" where "ptep_unset_accessed pte = pte AND NOT PTE_A"
definition ptep_unset_dirty :: "u32 \<Rightarrow> u32" where "ptep_unset_dirty pte = pte AND NOT PTE_D"

lemmas ptep_defs = ptep_map_def ptep_unmap_def ptep_invalid_def ptep_present_def ptep_s_read_def
  ptep_s_write_def ptep_u_read_def ptep_u_write_def ptep_set_s_read_def ptep_set_s_write_def
  ptep_set_u_read_def ptep_set_u_write_def ptep_unset_s_read_def ptep_unset_s_write_def
  ptep_unset_u_read_def ptep_unset_u_write_def ptep_get_perm_def ptep_set_perm_def ptep_copy_def
  ptep_unset_perm_def ptep_accessed_def ptep_dirty_def ptep_set_accessed_def ptep_set_dirty_def
  ptep_unset_accessed_def ptep_unset_dirty_def

text \<open>A test of a single flag bit is a test of that bit of the entry.\<close>

lemma and_flag_bit: "(x :: u32) AND 2 ^ n \<noteq> 0 \<longleftrightarrow> n < 32 \<and> bit x n"
  by (auto simp: and_exp_eq_0_iff_not_bit possible_bit_def dest: bit_imp_le_length)

lemma flag_tests:
  "ptep_present pte \<longleftrightarrow> bit pte 0" "ptep_s_write pte \<longleftrightarrow> bit pte 1" "ptep_u_read pte \<longleftrightarrow> bit pte 2"
  "ptep_accessed pte \<longleftrightarrow> bit pte 5" "ptep_dirty pte \<longleftrightarrow> bit pte 6"
  using and_flag_bit [of pte 0] and_flag_bit [of pte 1] and_flag_bit [of pte 2]
    and_flag_bit [of pte 5] and_flag_bit [of pte 6]
  by (simp_all add: ptep_defs PTE_bits)

lemma PGADDR_decompose: "PGADDR (PDX la) (PTX la) (PGOFF la) = la"
  unfolding PGADDR_def PDX_def PTX_def PGOFF_def and_3FF and_FFF
proof (rule bit_eqI)
  fix n
  assume "possible_bit TYPE(32 word) n"
  then show "bit (push_bit 22 (take_bit 10 (drop_bit 22 la)) OR
      push_bit 12 (take_bit 10 (drop_bit 12 la)) OR take_bit 12 la) n = bit la n"
    by (cases "22 \<le> n"; cases "12 \<le> n") (auto simp: bit_simps possible_bit_def)
qed

section \<open>The TLB\<close>

record tlb_entry =
  e_pagemask :: u32
  e_hi :: u32
  e_lo0 :: u32
  e_lo1 :: u32

type_synonym tlb = "nat \<Rightarrow> tlb_entry"

definition THUMIPS_TLB_ENTRYL_V :: u32 where "THUMIPS_TLB_ENTRYL_V = push_bit 1 1"
definition THUMIPS_TLB_ENTRYL_D :: u32 where "THUMIPS_TLB_ENTRYL_D = push_bit 2 1"
definition THUMIPS_TLB_ENTRYL_G :: u32 where "THUMIPS_TLB_ENTRYL_G = push_bit 0 1"
definition THUMIPS_TLB_ENTRYH_VPN2_MASK :: u32 where "THUMIPS_TLB_ENTRYH_VPN2_MASK = NOT 0x1FFF"

lemmas TLB_bits = THUMIPS_TLB_ENTRYL_V_def THUMIPS_TLB_ENTRYL_D_def THUMIPS_TLB_ENTRYL_G_def
  THUMIPS_TLB_ENTRYH_VPN2_MASK_def

definition write_one_tlb :: "nat \<Rightarrow> u32 \<Rightarrow> u32 \<Rightarrow> u32 \<Rightarrow> u32 \<Rightarrow> tlb \<Rightarrow> tlb" where
  "write_one_tlb index pagemask hi low0 low1 t =
     t(index := \<lparr>e_pagemask = pagemask, e_hi = hi, e_lo0 = low0, e_lo1 = low1\<rparr>)"

text \<open>The slot that \<^verbatim>\<open>tlbwr\<close> takes is the processor's choice, an argument here.\<close>

definition tlb_replace_random :: "nat \<Rightarrow> u32 \<Rightarrow> u32 \<Rightarrow> u32 \<Rightarrow> u32 \<Rightarrow> tlb \<Rightarrow> tlb" where
  "tlb_replace_random slot pagemask hi low0 low1 t =
     t(slot := \<lparr>e_pagemask = pagemask, e_hi = hi, e_lo0 = low0, e_lo1 = low1\<rparr>)"

definition pte2tlblow :: "u32 \<Rightarrow> u32" where
  "pte2tlblow pte =
     (let t = push_bit 6 (drop_bit 12 (pte - KERNBASE))
      in if \<not> ptep_present pte then 0
         else let t = t OR THUMIPS_TLB_ENTRYL_V;
                  t = t OR THUMIPS_TLB_ENTRYL_G;
                  t = t OR push_bit 3 2
              in if ptep_s_write pte then t OR THUMIPS_TLB_ENTRYL_D else t)"

text \<open>
  The page table is an array \<open>pt\<close> of entries and the pointer an index in it, or \<^verbatim>\<open>NULL\<close>.
\<close>

definition tlb_refill :: "nat \<Rightarrow> u32 \<Rightarrow> (nat \<Rightarrow> u32) \<Rightarrow> nat option \<Rightarrow> tlb \<Rightarrow> tlb" where
  "tlb_refill slot badaddr pt pte t =
     (case pte of
        None \<Rightarrow> t
      | Some i \<Rightarrow>
          let i = (if badaddr AND push_bit 12 1 \<noteq> 0 then i - 1 else i)
          in tlb_replace_random slot 0 (badaddr AND THUMIPS_TLB_ENTRYH_VPN2_MASK)
               (pte2tlblow (pt i)) (pte2tlblow (pt (i + 1))) t)"

definition tlb_invalidate_all :: "tlb \<Rightarrow> tlb" where
  "tlb_invalidate_all t =
     fold (\<lambda>i. write_one_tlb i 0 (0x80000000 + push_bit 20 (of_nat i)) 0 0) [0..<128] t"

definition tlb_invalidate :: "u32 \<Rightarrow> u32 \<Rightarrow> tlb \<Rightarrow> tlb" where
  "tlb_invalidate pgdir la t = tlb_invalidate_all t"

text \<open>Which physical page number and flags a TLB half holds.\<close>

lemma drop_push_page: "drop_bit 6 (push_bit 6 (drop_bit 12 (x :: u32))) = drop_bit 12 x"
  by (rule bit_eqI) (auto simp: bit_simps possible_bit_def dest: bit_imp_le_length)

lemma pte2tlblow_bits:
  assumes "ptep_present pte"
  shows "bit (pte2tlblow pte) 1" and "bit (pte2tlblow pte) 0"
    and "bit (pte2tlblow pte) 2 \<longleftrightarrow> ptep_s_write pte"
    and "drop_bit 6 (pte2tlblow pte) = drop_bit 12 (pte - KERNBASE)"
proof -
  show "bit (pte2tlblow pte) 1" "bit (pte2tlblow pte) 0"
    "bit (pte2tlblow pte) 2 \<longleftrightarrow> ptep_s_write pte"
    using assms by (simp_all add: pte2tlblow_def Let_def TLB_bits bit_simps)
  show "drop_bit 6 (pte2tlblow pte) = drop_bit 12 (pte - KERNBASE)"
    using assms drop_push_page [of "pte - KERNBASE"]
    by (simp add: pte2tlblow_def Let_def TLB_bits drop_bit_or)
qed

lemma fold_write_one_tlb:
  "fold (\<lambda>i. write_one_tlb i pm (hi i) lo0 lo1) [0..<n] t =
   (\<lambda>i. if i < n then \<lparr>e_pagemask = pm, e_hi = hi i, e_lo0 = lo0, e_lo1 = lo1\<rparr> else t i)"
  by (induction n) (auto simp: write_one_tlb_def fun_eq_iff)

lemma tlb_invalidate_all_eq:
  "tlb_invalidate_all t =
   (\<lambda>i. if i < 128 then \<lparr>e_pagemask = 0, e_hi = 0x80000000 + push_bit 20 (of_nat i), e_lo0 = 0, e_lo1 = 0\<rparr>
        else t i)"
  unfolding tlb_invalidate_all_def by (rule fold_write_one_tlb)

section \<open>Properties\<close>

text \<open>
  How the processor reads an entry: the address selects the pair of pages by
  \<open>e_hi\<close>, and bit 12 of it one half.
\<close>

definition tlb_match :: "tlb_entry \<Rightarrow> u32 \<Rightarrow> bool" where
  "tlb_match e va \<longleftrightarrow> e_hi e AND THUMIPS_TLB_ENTRYH_VPN2_MASK = va AND THUMIPS_TLB_ENTRYH_VPN2_MASK"

definition tlb_half :: "tlb_entry \<Rightarrow> u32 \<Rightarrow> u32" where
  "tlb_half e va = (if bit va 12 then e_lo1 e else e_lo0 e)"

lemma and_bit_12: "(va :: u32) AND push_bit 12 1 \<noteq> 0 \<longleftrightarrow> bit va 12"
  using and_flag_bit [of va 12] by simp

lemma PTX_odd_pos: "bit va 12 \<Longrightarrow> 0 < unat (PTX va)"
proof -
  assume "bit va 12"
  then have "bit (PTX va) 0" by (simp add: PTX_def and_3FF bit_simps)
  then have "PTX va \<noteq> 0" by (auto simp del: bit_0)
  then show ?thesis by (simp add: unat_gt_0)
qed

text \<open>
  C40: After \<^verbatim>\<open>tlb_refill\<close> with the page table entry of a faulting address, the entry
  written matches the address, its half for the address is valid exactly when the page is
  present, and then maps to the entry's page frame and is writable exactly when the page is.
  All other TLB entries are kept.\<close>
theorem tlb_refill_translates:
  "(let t' = tlb_refill slot va pt (Some (unat (PTX va))) t;
        pte = pt (unat (PTX va)); lo = tlb_half (t' slot) va
    in tlb_match (t' slot) va \<and>
       (bit lo 1 \<longleftrightarrow> ptep_present pte) \<and>
       (ptep_present pte \<longrightarrow> drop_bit 6 lo = drop_bit 12 (pte - KERNBASE) \<and>
          (bit lo 2 \<longleftrightarrow> ptep_s_write pte)) \<and>
       (\<forall>i. i \<noteq> slot \<longrightarrow> t' i = t i))"
proof -
  let ?t = "tlb_refill slot va pt (Some (unat (PTX va))) t"
  have "tlb_half (?t slot) va = pte2tlblow (pt (unat (PTX va)))"
    using PTX_odd_pos [of va] and_bit_12 [of va]
    by (auto simp: tlb_refill_def tlb_half_def tlb_replace_random_def Let_def)
  moreover have "tlb_match (?t slot) va"
    by (simp add: tlb_match_def tlb_refill_def tlb_replace_random_def Let_def and.assoc)
  moreover have "\<forall>i. i \<noteq> slot \<longrightarrow> ?t i = t i"
    by (simp add: tlb_refill_def tlb_replace_random_def Let_def)
  moreover have "\<not> ptep_present (pt (unat (PTX va))) \<Longrightarrow> \<not> bit (pte2tlblow (pt (unat (PTX va)))) 1"
    by (simp add: pte2tlblow_def)
  ultimately show ?thesis using pte2tlblow_bits [of "pt (unat (PTX va))"]
    by (auto simp: Let_def)
qed

theorem tlb_refill_translates_witness:
  "(let t' = tlb_refill 3 0x5123 (\<lambda>i. if i = 5 then 0x80003003 else 0) (Some (unat (PTX 0x5123))) (\<lambda>_. undefined);
        lo = tlb_half (t' 3) 0x5123
    in tlb_match (t' 3) 0x5123 \<and> bit lo 1 \<and> drop_bit 6 lo = 3 \<and> bit lo 2)"
proof -
  have 5: "unat (PTX 0x5123) = 5" by (simp add: unat_PTX)
  have p: "ptep_present 0x80003003" "ptep_s_write 0x80003003" by (simp_all add: flag_tests bit_numeral_rec)
  have "drop_bit 12 (0x80003003 - KERNBASE) = 3" by simp
  with tlb_refill_translates [of 3 "0x5123" "\<lambda>i. if i = 5 then 0x80003003 else 0" "\<lambda>_. undefined"] p
  show ?thesis unfolding 5 by (simp add: Let_def)
qed

text \<open>
  \<^verbatim>\<open>tlb_invalidate_all\<close> leaves no valid half in any of the 128 entries, and no two
  entries with the same tag, which the processor forbids.\<close>
theorem tlb_invalidate_all_clears:
  assumes "i < 128" and "j < 128"
  shows "\<not> bit (tlb_half (tlb_invalidate_all t i) va) 1 \<and>
    (i \<noteq> j \<longrightarrow> e_hi (tlb_invalidate_all t i) \<noteq> e_hi (tlb_invalidate_all t j))"
proof -
  have "unat (0x80000000 + push_bit 20 (of_nat k) :: u32) = 0x80000000 + k * 2 ^ 20" if "k < 128" for k
    using that by (simp add: push_bit_eq_mult unat_word_ariths unat_of_nat)
  from this [OF assms(1)] this [OF assms(2)]
  have "i \<noteq> j \<Longrightarrow> (0x80000000 + push_bit 20 (of_nat i) :: u32) \<noteq> 0x80000000 + push_bit 20 (of_nat j)"
    by (auto simp: word_unat_eq_iff simp del: unat_of_nat)
  with assms show ?thesis by (simp add: tlb_invalidate_all_eq tlb_half_def)
qed

theorem tlb_invalidate_all_clears_witness:
  "\<not> bit (tlb_half (tlb_invalidate_all (\<lambda>_. undefined) 1) 0) 1 \<and>
    e_hi (tlb_invalidate_all (\<lambda>_. undefined) 1) \<noteq> e_hi (tlb_invalidate_all (\<lambda>_. undefined) 2)"
  using tlb_invalidate_all_clears [of 1 2] by simp

end
