(* ===== verification/Kstate.thy ===== *)
theory Kstate
  imports Clist Paging
begin

text \<open>
  The process descriptors of \<^verbatim>\<open>kern/process/proc.h\<close> and the part of the kernel's
  global state that scheduling, timers, wait queues and process management share. A pointer to
  a descriptor is a number (\<open>pptr\<close>), and \<^verbatim>\<open>NULL\<close> is \<^term>\<open>None\<close>. The cells of
  a circular list are tagged with what they are embedded in: \<open>None\<close> is the head cell of the run
  queue, \<open>Some p\<close> the \<^verbatim>\<open>run_link\<close> of \<open>p\<close>.

  Each operation of these components runs between \<^verbatim>\<open>local_intr_save\<close> and
  \<^verbatim>\<open>local_intr_restore\<close> on one processor, so it is one atomic transformation of the state.
\<close>

section \<open>proc.h\<close>

type_synonym pptr = nat
type_synonym tptr = nat

datatype proc_state = PROC_UNINIT | PROC_SLEEPING | PROC_RUNNABLE | PROC_ZOMBIE

record proc_context =
  sf_s0 :: u32
  sf_s1 :: u32
  sf_s2 :: u32
  sf_s3 :: u32
  sf_s4 :: u32
  sf_s5 :: u32
  sf_s6 :: u32
  sf_s7 :: u32
  sf_s8 :: u32
  sf_gp :: u32
  sf_ra :: u32
  sf_sp :: u32

record proc_struct =
  p_state :: proc_state
  p_pid :: int
  p_runs :: int
  p_kstack :: u32
  p_need_resched :: bool
  p_parent :: "pptr option"
  p_mm :: "nat option"
  p_context :: proc_context
  p_tf :: u32
  p_cr3 :: u32
  p_flags :: u32
  p_name :: "u8 list"
  p_exit_code :: int
  p_wait_state :: u32
  p_cptr :: "pptr option"
  p_yptr :: "pptr option"
  p_optr :: "pptr option"
  p_rq :: "nat option"
  p_time_slice :: int
  p_fs_struct :: "nat option"

definition PF_EXITING :: u32 where "PF_EXITING = 0x00000001"
definition WT_INTERRUPTED :: u32 where "WT_INTERRUPTED = 0x80000000"
definition WT_CHILD :: u32 where "WT_CHILD = 0x00000001 OR WT_INTERRUPTED"
definition WT_KSEM :: u32 where "WT_KSEM = 0x00000100"
definition WT_TIMER :: u32 where "WT_TIMER = 0x00000002 OR WT_INTERRUPTED"
definition WT_KBD :: u32 where "WT_KBD = 0x00000004 OR WT_INTERRUPTED"

lemmas WT_defs = PF_EXITING_def WT_INTERRUPTED_def WT_CHILD_def WT_KSEM_def WT_TIMER_def WT_KBD_def

text \<open>\<^verbatim>\<open>timer_t\<close> of \<^verbatim>\<open>kern/schedule/sched.h\<close>.\<close>

record timer =
  t_expires :: nat
  t_proc :: "pptr option"

section \<open>The shared kernel state\<close>

text \<open>
  \<open>cpu_regs\<close> are the callee-saved registers that \<^verbatim>\<open>switch_to\<close> moves, \<open>current_pgdir\<close>
  is the variable \<^verbatim>\<open>lcr3\<close> sets, \<open>run_links\<close>, \<open>proc_num\<close> and \<open>max_time_slice\<close> are the
  fields of the run queue \<^verbatim>\<open>__rq\<close>, whose address is \<open>rq\<close>.
\<close>

record kern =
  procs :: "pptr \<Rightarrow> proc_struct"
  current :: pptr
  idleproc :: pptr
  initproc :: "pptr option"
  cpu_regs :: proc_context
  current_pgdir :: u32
  cpu_tlb :: tlb
  rq :: nat
  run_links :: "pptr option links"
  proc_num :: u32
  max_time_slice :: int
  timer_links :: "tptr option links"
  timers :: "tptr \<Rightarrow> timer"

definition upd_proc :: "pptr \<Rightarrow> (proc_struct \<Rightarrow> proc_struct) \<Rightarrow> 'z kern_scheme \<Rightarrow> 'z kern_scheme" where
  "upd_proc p f s = s\<lparr>procs := (procs s)(p := f (procs s p))\<rparr>"

lemma upd_proc_simps [simp]:
  "procs (upd_proc p f s) = (procs s)(p := f (procs s p))"
  "current (upd_proc p f s) = current s"
  "idleproc (upd_proc p f s) = idleproc s"
  "initproc (upd_proc p f s) = initproc s"
  "cpu_regs (upd_proc p f s) = cpu_regs s"
  "current_pgdir (upd_proc p f s) = current_pgdir s"
  "cpu_tlb (upd_proc p f s) = cpu_tlb s"
  "rq (upd_proc p f s) = rq s"
  "run_links (upd_proc p f s) = run_links s"
  "proc_num (upd_proc p f s) = proc_num s"
  "max_time_slice (upd_proc p f s) = max_time_slice s"
  "timer_links (upd_proc p f s) = timer_links s"
  "timers (upd_proc p f s) = timers s"
  "kern.more (upd_proc p f s) = kern.more s"
  by (simp_all add: upd_proc_def)

section \<open>The switch between two processes\<close>

text \<open>
  \<^verbatim>\<open>switch_to(from, to)\<close> of \<^verbatim>\<open>switch.S\<close> stores the twelve registers in one context
  and loads them from the other. In \<^verbatim>\<open>proc_run\<close> this is the point where the processor goes
  on in the other process.
\<close>

definition switch_to :: "pptr \<Rightarrow> pptr \<Rightarrow> 'z kern_scheme \<Rightarrow> 'z kern_scheme" where
  "switch_to from to s =
     (let s1 = upd_proc from (\<lambda>p. p\<lparr>p_context := cpu_regs s\<rparr>) s
      in s1\<lparr>cpu_regs := p_context (procs s1 to)\<rparr>)"

definition lcr3 :: "u32 \<Rightarrow> 'z kern_scheme \<Rightarrow> 'z kern_scheme" where
  "lcr3 cr3 s = s\<lparr>current_pgdir := cr3\<rparr>"

definition proc_run :: "pptr \<Rightarrow> 'z kern_scheme \<Rightarrow> 'z kern_scheme" where
  "proc_run p s =
     (if p \<noteq> current s then
        let prev = current s;
            s1 = s\<lparr>current := p\<rparr>;
            s2 = lcr3 (p_cr3 (procs s1 p)) s1;
            s3 = s2\<lparr>cpu_tlb := tlb_invalidate_all (cpu_tlb s2)\<rparr>
        in switch_to prev p s3
      else s)"

lemma proc_run_simps [simp]:
  "current (proc_run p s) = p"
  "idleproc (proc_run p s) = idleproc s"
  "initproc (proc_run p s) = initproc s"
  "rq (proc_run p s) = rq s"
  "run_links (proc_run p s) = run_links s"
  "proc_num (proc_run p s) = proc_num s"
  "max_time_slice (proc_run p s) = max_time_slice s"
  "timer_links (proc_run p s) = timer_links s"
  "timers (proc_run p s) = timers s"
  "p_state (procs (proc_run p s) q) = p_state (procs s q)"
  "p_time_slice (procs (proc_run p s) q) = p_time_slice (procs s q)"
  "p_rq (procs (proc_run p s) q) = p_rq (procs s q)"
  "p_runs (procs (proc_run p s) q) = p_runs (procs s q)"
  "p_wait_state (procs (proc_run p s) q) = p_wait_state (procs s q)"
  "p_need_resched (procs (proc_run p s) q) = p_need_resched (procs s q)"
  "kern.more (proc_run p s) = kern.more s"
  by (simp_all add: proc_run_def switch_to_def lcr3_def Let_def)

end
