(* ===== verification/Sched.thy ===== *)
theory Sched
  imports Kstate
begin

text \<open>
  The scheduler: the round-robin class of \<^verbatim>\<open>kern/schedule/default_sched.c\<close> on the
  pointer list of the run queue, and \<^verbatim>\<open>wakeup_proc\<close> and \<^verbatim>\<open>schedule\<close> of
  \<^verbatim>\<open>kern/schedule/sched.c\<close>. \<^verbatim>\<open>sched_init\<close> sets the class to
  \<^verbatim>\<open>default_sched_class\<close>, so the class's function pointers are the \<open>RR_\<close> operations.
  The locale \<open>fifo_class\<close> is the contract of a scheduling class.
\<close>

section \<open>The round-robin class\<close>

definition RR_init :: "'z kern_scheme \<Rightarrow> 'z kern_scheme" where
  "RR_init s = s\<lparr>run_links := list_init None (run_links s), proc_num := 0\<rparr>"

definition RR_enqueue :: "pptr \<Rightarrow> 'z kern_scheme \<Rightarrow> 'z kern_scheme kernel" where
  "RR_enqueue p s = do {
     kassert (list_empty (run_links s) (Some p));
     let s1 = s\<lparr>run_links := list_add_before None (Some p) (run_links s)\<rparr>;
     let s2 = (if p_time_slice (procs s1 p) = 0 \<or> max_time_slice s1 < p_time_slice (procs s1 p)
               then upd_proc p (\<lambda>x. x\<lparr>p_time_slice := max_time_slice s1\<rparr>) s1 else s1);
     let s3 = upd_proc p (\<lambda>x. x\<lparr>p_rq := Some (rq s2)\<rparr>) s2;
     Some (s3\<lparr>proc_num := proc_num s3 + 1\<rparr>)
   }"

definition RR_dequeue :: "pptr \<Rightarrow> 'z kern_scheme \<Rightarrow> 'z kern_scheme kernel" where
  "RR_dequeue p s = do {
     kassert (\<not> list_empty (run_links s) (Some p) \<and> p_rq (procs s p) = Some (rq s));
     let s1 = s\<lparr>run_links := list_del_init (Some p) (run_links s)\<rparr>;
     Some (s1\<lparr>proc_num := proc_num s1 - 1\<rparr>)
   }"

definition RR_pick_next :: "'z kern_scheme \<Rightarrow> pptr option" where
  "RR_pick_next s =
     (let le = list_next (run_links s) None in if le \<noteq> None then le else None)"

definition RR_proc_tick :: "pptr \<Rightarrow> 'z kern_scheme \<Rightarrow> 'z kern_scheme" where
  "RR_proc_tick p s =
     (let s1 = (if 0 < p_time_slice (procs s p)
                then upd_proc p (\<lambda>x. x\<lparr>p_time_slice := p_time_slice x - 1\<rparr>) s else s)
      in if p_time_slice (procs s1 p) = 0
         then upd_proc p (\<lambda>x. x\<lparr>p_need_resched := True\<rparr>) s1 else s1)"

section \<open>sched.c\<close>

definition sched_class_enqueue :: "pptr \<Rightarrow> 'z kern_scheme \<Rightarrow> 'z kern_scheme kernel" where
  "sched_class_enqueue p s = (if p \<noteq> idleproc s then RR_enqueue p s else Some s)"

definition sched_class_dequeue :: "pptr \<Rightarrow> 'z kern_scheme \<Rightarrow> 'z kern_scheme kernel" where
  "sched_class_dequeue p s = RR_dequeue p s"

definition sched_class_pick_next :: "'z kern_scheme \<Rightarrow> pptr option" where
  "sched_class_pick_next s = RR_pick_next s"

definition sched_class_proc_tick :: "pptr \<Rightarrow> 'z kern_scheme \<Rightarrow> 'z kern_scheme" where
  "sched_class_proc_tick p s =
     (if p \<noteq> idleproc s then RR_proc_tick p s
      else upd_proc p (\<lambda>x. x\<lparr>p_need_resched := True\<rparr>) s)"

definition sched_init :: "nat \<Rightarrow> 'z kern_scheme \<Rightarrow> 'z kern_scheme" where
  "sched_init rq_addr s =
     (let s1 = s\<lparr>timer_links := list_init None (timer_links s)\<rparr>;
          s2 = s1\<lparr>rq := rq_addr, max_time_slice := 20\<rparr>
      in RR_init s2)"

definition wakeup_proc :: "pptr \<Rightarrow> 'z kern_scheme \<Rightarrow> 'z kern_scheme kernel" where
  "wakeup_proc p s = do {
     kassert (p_state (procs s p) \<noteq> PROC_ZOMBIE);
     if p_state (procs s p) \<noteq> PROC_RUNNABLE then do {
       let s1 = upd_proc p (\<lambda>x. x\<lparr>p_state := PROC_RUNNABLE, p_wait_state := 0\<rparr>) s;
       if p \<noteq> current s1 then sched_class_enqueue p s1 else Some s1
     }
     else Some s
   }"

text \<open>
  \<^verbatim>\<open>schedule\<close> up to the switch: the state in which the chosen process goes on.
\<close>

definition schedule :: "'z kern_scheme \<Rightarrow> 'z kern_scheme kernel" where
  "schedule s = do {
     let s1 = upd_proc (current s) (\<lambda>x. x\<lparr>p_need_resched := False\<rparr>) s;
     s2 \<leftarrow> (if p_state (procs s1 (current s1)) = PROC_RUNNABLE
            then sched_class_enqueue (current s1) s1 else Some s1);
     let nxt = sched_class_pick_next s2;
     s3 \<leftarrow> (case nxt of Some p \<Rightarrow> sched_class_dequeue p s2 | None \<Rightarrow> Some s2);
     let next = (case nxt of Some p \<Rightarrow> p | None \<Rightarrow> idleproc s3);
     let s4 = upd_proc next (\<lambda>x. x\<lparr>p_runs := p_runs x + 1\<rparr>) s3;
     Some (if next \<noteq> current s4 then proc_run next s4 else s4)
   }"

lemmas sched_defs = RR_enqueue_def RR_dequeue_def RR_pick_next_def RR_proc_tick_def
  sched_class_enqueue_def sched_class_dequeue_def sched_class_pick_next_def
  sched_class_proc_tick_def

section \<open>The run queue as a FIFO list\<close>

text \<open>
  \<open>run_queue s xs\<close>: the run list holds exactly the processes \<open>xs\<close>, in this order; the links of
  all other processes are unlinked; the counter agrees; queued processes know their queue.
\<close>

definition run_queue :: "'z kern_scheme \<Rightarrow> pptr list \<Rightarrow> bool" where
  "run_queue s xs \<longleftrightarrow>
     ring (run_links s) None (map Some xs) \<and>
     (\<forall>p. p \<notin> set xs \<longrightarrow> list_empty (run_links s) (Some p)) \<and>
     proc_num s = of_nat (length xs) \<and>
     (\<forall>p \<in> set xs. p_rq (procs s p) = Some (rq s))"

lemma run_queue_distinct: "run_queue s xs \<Longrightarrow> distinct xs"
  by (auto simp: run_queue_def dest!: ring_distinct simp: distinct_map)

lemma run_queue_empty_iff: "run_queue s xs \<Longrightarrow> list_empty (run_links s) (Some p) \<longleftrightarrow> p \<notin> set xs"
  using clist.lempty_member [of "run_links s" None "map Some xs" "Some p"]
  by (auto simp: run_queue_def)

lemma run_queue_unique: "run_queue s xs \<Longrightarrow> run_queue s ys \<Longrightarrow> set xs = set ys"
  using run_queue_empty_iff [of s xs] run_queue_empty_iff [of s ys] by blast

text \<open>Links of unlinked cells stay unlinked when another cell is added or removed.\<close>

lemma list_empty_add_other:
  assumes "ring h c xs" and "x \<notin> set (e # c # xs)"
  shows "list_empty (list_add_before c e h) x = list_empty h x"
proof -
  have "le_prev h c \<in> set (c # xs)"
    using ring_prev [of h c xs "[]"] assms(1) last_in_set [of "c # xs"]
    by (simp add: list_prev_def)
  with assms(2) show ?thesis
    by (auto simp: list_empty_def list_add_before_def list_add_raw_def Let_def)
qed

lemma list_empty_del_other:
  assumes r: "ring h c (us @ y # vs)" and "x \<notin> set (c # us @ y # vs)"
  shows "list_empty (list_del_init y h) x = list_empty h x"
proof -
  have "le_prev h y \<in> set (c # us @ y # vs)"
    using ring_prev [OF r] last_in_set [of "c # us"]
    by (auto simp: list_prev_def split: if_splits)
  with assms(2) show ?thesis
    by (auto simp: list_empty_def list_del_init_def list_init_def list_del_def list_del_raw_def
        Let_def)
qed

lemma RR_enqueue_run_queue:
  assumes q: "run_queue s xs" and p: "p \<notin> set xs"
  obtains s' where "RR_enqueue p s = Some s'" and "run_queue s' (xs @ [p])"
proof -
  have r: "ring (run_links s) None (map Some xs)" using q by (simp add: run_queue_def)
  have e: "list_empty (run_links s) (Some p)" using q p by (simp add: run_queue_empty_iff)
  let ?h = "list_add_before None (Some p) (run_links s)"
  from r have r': "ring ?h None (map Some (xs @ [p]))"
    using clist.rep_enqueue [OF r, of "Some p"] p by auto
  have o: "list_empty ?h (Some x)" if "x \<notin> set (xs @ [p])" for x
    using that list_empty_add_other [OF r, of "Some x" "Some p"] q
    by (auto simp: run_queue_def)
  show ?thesis
    using that e r' o q
    by (auto simp: RR_enqueue_def Let_def run_queue_def)
qed

lemma RR_dequeue_run_queue:
  assumes q: "run_queue s (us @ p # vs)"
  obtains s' where "RR_dequeue p s = Some s'" and "run_queue s' (us @ vs)"
proof -
  have r: "ring (run_links s) None (map Some us @ Some p # map Some vs)"
    using q by (simp add: run_queue_def)
  have e: "\<not> list_empty (run_links s) (Some p)" "p_rq (procs s p) = Some (rq s)"
    using run_queue_empty_iff [OF q, of p] q by (auto simp: run_queue_def)
  let ?h = "list_del_init (Some p) (run_links s)"
  have r': "ring ?h None (map Some (us @ vs))" using ring_del_init [OF r] by simp
  have o: "list_empty ?h (Some x)" if "x \<notin> set (us @ vs)" for x
    using that list_empty_del_other [OF r, of "Some x"] q clist.lempty_del_init
    by (cases "x = p") (auto simp: run_queue_def)
  show ?thesis
    using that e r' o q
    by (auto simp: RR_dequeue_def Let_def run_queue_def)
qed

lemma RR_pick_next_run_queue:
  assumes "run_queue s xs"
  shows "RR_pick_next s = (case xs of [] \<Rightarrow> None | x # _ \<Rightarrow> Some x)"
  using assms clist.next_head [of "run_links s" None "map Some xs"]
  by (cases xs) (simp_all add: run_queue_def RR_pick_next_def)

section \<open>The contract of a scheduling class\<close>

text \<open>
  What \<^verbatim>\<open>sched.c\<close> relies on: the class keeps a list, \<^verbatim>\<open>enqueue\<close> appends,
  \<^verbatim>\<open>pick_next\<close> looks at the front, \<^verbatim>\<open>dequeue\<close> removes.
\<close>

locale fifo_class =
  fixes queue :: "'s \<Rightarrow> 'p list \<Rightarrow> bool"
    and enq :: "'p \<Rightarrow> 's \<Rightarrow> 's option"
    and deq :: "'p \<Rightarrow> 's \<Rightarrow> 's option"
    and pick :: "'s \<Rightarrow> 'p option"
  assumes queue_distinct: "queue s xs \<Longrightarrow> distinct xs"
    and enq_queue: "queue s xs \<Longrightarrow> p \<notin> set xs \<Longrightarrow> \<exists>s'. enq p s = Some s' \<and> queue s' (xs @ [p])"
    and deq_queue: "queue s (us @ p # vs) \<Longrightarrow> \<exists>s'. deq p s = Some s' \<and> queue s' (us @ vs)"
    and pick_queue: "queue s xs \<Longrightarrow> pick s = (case xs of [] \<Rightarrow> None | x # _ \<Rightarrow> Some x)"
begin

text \<open>Picking and dequeuing the front, the way \<^verbatim>\<open>schedule\<close> composes them.\<close>

lemma pick_deq:
  assumes "queue s xs"
  shows "\<exists>s'. (case pick s of Some p \<Rightarrow> deq p s | None \<Rightarrow> Some s) = Some s' \<and> queue s' (tl xs)"
proof (cases xs)
  case Nil
  with assms pick_queue [OF assms] show ?thesis by auto
next
  case (Cons x ys)
  with assms pick_queue [OF assms] deq_queue [of s "[]" x ys] show ?thesis by auto
qed

lemma enq_pick:
  assumes "queue s xs" and "p \<notin> set xs"
  shows "\<exists>s'. enq p s = Some s' \<and> queue s' (xs @ [p]) \<and> pick s' = Some (hd (xs @ [p]))"
  using enq_queue [OF assms] pick_queue [of _ "xs @ [p]"] by (cases xs) fastforce+

end

interpretation rr: fifo_class run_queue RR_enqueue RR_dequeue RR_pick_next
proof unfold_locales
  show "distinct xs" if "run_queue s xs" for s :: "'a kern_scheme" and xs
    using that by (rule run_queue_distinct)
  show "\<exists>s'. RR_enqueue p s = Some s' \<and> run_queue s' (xs @ [p])"
    if "run_queue s xs" "p \<notin> set xs" for s :: "'a kern_scheme" and xs p
    using that by (metis RR_enqueue_run_queue)
  show "\<exists>s'. RR_dequeue p s = Some s' \<and> run_queue s' (us @ vs)"
    if "run_queue s (us @ p # vs)" for s :: "'a kern_scheme" and us p vs
    using that by (metis RR_dequeue_run_queue)
  show "RR_pick_next s = (case xs of [] \<Rightarrow> None | x # _ \<Rightarrow> Some x)"
    if "run_queue s xs" for s :: "'a kern_scheme" and xs
    using that by (rule RR_pick_next_run_queue)
qed

section \<open>What the operations leave alone\<close>

text \<open>
  \<open>sched_frame s s'\<close>: between \<open>s\<close> and \<open>s'\<close> only the run queue, and of the descriptors only
  \<open>time_slice\<close>, \<open>rq\<close> and the fields \<open>keep\<close> does not see, have changed.
\<close>

definition sched_frame :: "'z kern_scheme \<Rightarrow> 'z kern_scheme \<Rightarrow> bool" where
  "sched_frame s s' \<longleftrightarrow>
     current s' = current s \<and> idleproc s' = idleproc s \<and> initproc s' = initproc s \<and>
     rq s' = rq s \<and> max_time_slice s' = max_time_slice s \<and>
     timer_links s' = timer_links s \<and> timers s' = timers s \<and> kern.more s' = kern.more s \<and>
     (\<forall>q. p_state (procs s' q) = p_state (procs s q) \<and>
          p_wait_state (procs s' q) = p_wait_state (procs s q) \<and>
          p_runs (procs s' q) = p_runs (procs s q) \<and>
          p_pid (procs s' q) = p_pid (procs s q) \<and>
          p_parent (procs s' q) = p_parent (procs s q))"

lemma RR_enqueue_frame: "RR_enqueue p s = Some s' \<Longrightarrow> sched_frame s s'"
  by (auto simp: RR_enqueue_def sched_frame_def Let_def split: if_splits)

lemma RR_dequeue_frame: "RR_dequeue p s = Some s' \<Longrightarrow> sched_frame s s'"
  by (auto simp: RR_dequeue_def sched_frame_def Let_def split: if_splits)

lemma RR_proc_tick_procs:
  "run_links (RR_proc_tick p s) = run_links s" "proc_num (RR_proc_tick p s) = proc_num s"
  "sched_frame s (RR_proc_tick p s)" "p_rq (procs (RR_proc_tick p s) q) = p_rq (procs s q)"
  by (auto simp: RR_proc_tick_def sched_frame_def Let_def)

section \<open>The scheduling invariant\<close>

definition sched_inv :: "'z kern_scheme \<Rightarrow> pptr list \<Rightarrow> bool" where
  "sched_inv s xs \<longleftrightarrow>
     run_queue s xs \<and> current s \<notin> set xs \<and> idleproc s \<notin> set xs \<and>
     (\<forall>p \<in> set xs. p_state (procs s p) = PROC_RUNNABLE)"

lemma run_queue_cong:
  "run_links s' = run_links s \<Longrightarrow> proc_num s' = proc_num s \<Longrightarrow> rq s' = rq s \<Longrightarrow>
   (\<forall>p \<in> set xs. p_rq (procs s' p) = p_rq (procs s p)) \<Longrightarrow> run_queue s' xs = run_queue s xs"
  by (auto simp: run_queue_def)

lemma run_queue_upd_proc:
  "(\<And>x. p_rq (f x) = p_rq x) \<Longrightarrow> run_queue (upd_proc p f s) xs = run_queue s xs"
  by (rule run_queue_cong) auto

lemma wakeup_proc_inv:
  assumes inv: "sched_inv s xs" and z: "p_state (procs s p) \<noteq> PROC_ZOMBIE"
  defines "ys \<equiv> (if p_state (procs s p) = PROC_RUNNABLE \<or> p = current s \<or> p = idleproc s
                 then xs else xs @ [p])"
  obtains s' where "wakeup_proc p s = Some s'" and "sched_inv s' ys"
    and "p_state (procs s' p) = PROC_RUNNABLE"
    and "\<And>q. q \<noteq> p \<Longrightarrow> p_state (procs s' q) = p_state (procs s q)"
    and "current s' = current s" and "idleproc s' = idleproc s" and "initproc s' = initproc s"
    and "timers s' = timers s" and "timer_links s' = timer_links s" and "kern.more s' = kern.more s"
    and "\<And>q. p_wait_state (procs s' q) =
           (if q = p \<and> p_state (procs s p) \<noteq> PROC_RUNNABLE then 0 else p_wait_state (procs s q))"
proof (cases "p_state (procs s p) = PROC_RUNNABLE")
  case True
  with that [of s] z inv show ?thesis by (simp add: wakeup_proc_def ys_def)
next
  case False
  let ?s1 = "upd_proc p (\<lambda>x. x\<lparr>p_state := PROC_RUNNABLE, p_wait_state := 0\<rparr>) s"
  from inv False have px: "p \<notin> set xs" by (auto simp: sched_inv_def)
  from inv have q1: "run_queue ?s1 xs" by (simp add: sched_inv_def run_queue_upd_proc)
  have inv1: "sched_inv ?s1 xs" using inv q1 by (auto simp: sched_inv_def)
  show ?thesis
  proof (cases "p = current s \<or> p = idleproc s")
    case True
    then have "wakeup_proc p s = Some ?s1"
      using False z by (auto simp: wakeup_proc_def sched_class_enqueue_def Let_def)
    with that [of ?s1] inv1 True False show ?thesis by (auto simp: ys_def)
  next
    case other: False
    from RR_enqueue_run_queue [OF q1 px] obtain s'
      where s': "RR_enqueue p ?s1 = Some s'" and q': "run_queue s' (xs @ [p])" .
    then have w: "wakeup_proc p s = Some s'"
      using False other z by (auto simp: wakeup_proc_def sched_class_enqueue_def Let_def)
    from RR_enqueue_frame [OF s'] have f: "sched_frame ?s1 s'" .
    show ?thesis
      by (rule that [OF w]) (use f q' inv other False in \<open>auto simp: sched_inv_def sched_frame_def ys_def\<close>)
  qed
qed

section \<open>schedule\<close>

text \<open>The queue \<^verbatim>\<open>schedule\<close> picks from: the current process goes to the end of it.\<close>

definition sched_candidates :: "'z kern_scheme \<Rightarrow> pptr list \<Rightarrow> pptr list" where
  "sched_candidates s xs =
     (if p_state (procs s (current s)) = PROC_RUNNABLE \<and> current s \<noteq> idleproc s
      then xs @ [current s] else xs)"

definition sched_next :: "'z kern_scheme \<Rightarrow> pptr list \<Rightarrow> pptr" where
  "sched_next s xs = (case sched_candidates s xs of [] \<Rightarrow> idleproc s | p # _ \<Rightarrow> p)"

lemma schedule_enqueue_phase:
  assumes inv: "sched_inv s xs"
  defines "s1 \<equiv> upd_proc (current s) (\<lambda>x. x\<lparr>p_need_resched := False\<rparr>) s"
  obtains s2 where "(if p_state (procs s1 (current s1)) = PROC_RUNNABLE
      then sched_class_enqueue (current s1) s1 else Some s1) = Some s2"
    and "run_queue s2 (sched_candidates s xs)" and "sched_frame s s2"
proof -
  have f1: "sched_frame s s1" by (auto simp: s1_def sched_frame_def)
  have q1: "run_queue s1 xs"
    using inv by (simp add: s1_def sched_inv_def run_queue_upd_proc)
  show ?thesis
  proof (cases "p_state (procs s (current s)) = PROC_RUNNABLE \<and> current s \<noteq> idleproc s")
    case True
    from inv have "current s \<notin> set xs" by (simp add: sched_inv_def)
    from RR_enqueue_run_queue [OF q1 this] obtain s2
      where e: "RR_enqueue (current s) s1 = Some s2" and q: "run_queue s2 (xs @ [current s])" .
    show ?thesis
      by (rule that [of s2])
        (use e q True f1 RR_enqueue_frame [OF e] in
          \<open>auto simp: s1_def sched_class_enqueue_def sched_candidates_def sched_frame_def\<close>)
  next
    case False
    show ?thesis
      by (rule that [of s1])
        (use q1 f1 False in \<open>auto simp: s1_def sched_class_enqueue_def sched_candidates_def\<close>)
  qed
qed

lemma schedule_inv:
  assumes inv: "sched_inv s xs"
  obtains s' where "schedule s = Some s'"
    and "current s' = sched_next s xs"
    and "sched_inv s' (tl (sched_candidates s xs))"
    and "\<And>q. p_state (procs s' q) = p_state (procs s q)"
    and "\<And>q. p_wait_state (procs s' q) = p_wait_state (procs s q)"
    and "\<And>q. p_runs (procs s' q) = p_runs (procs s q) + (if q = sched_next s xs then 1 else 0)"
    and "idleproc s' = idleproc s" and "initproc s' = initproc s"
    and "timers s' = timers s" and "timer_links s' = timer_links s" and "kern.more s' = kern.more s"
proof -
  let ?q = "sched_candidates s xs" and ?n = "sched_next s xs"
  from schedule_enqueue_phase [OF inv] obtain s2 where
    e: "(if p_state (procs (upd_proc (current s) (\<lambda>x. x\<lparr>p_need_resched := False\<rparr>) s)
          (current (upd_proc (current s) (\<lambda>x. x\<lparr>p_need_resched := False\<rparr>) s))) = PROC_RUNNABLE
      then sched_class_enqueue (current (upd_proc (current s) (\<lambda>x. x\<lparr>p_need_resched := False\<rparr>) s))
        (upd_proc (current s) (\<lambda>x. x\<lparr>p_need_resched := False\<rparr>) s)
      else Some (upd_proc (current s) (\<lambda>x. x\<lparr>p_need_resched := False\<rparr>) s)) = Some s2"
    and q2: "run_queue s2 ?q" and f2: "sched_frame s s2" .
  from rr.pick_deq [OF q2] obtain s3 where
    d: "(case RR_pick_next s2 of Some p \<Rightarrow> RR_dequeue p s2 | None \<Rightarrow> Some s2) = Some s3"
    and q3: "run_queue s3 (tl ?q)" by blast
  from d have f3: "sched_frame s2 s3"
    by (auto dest: RR_dequeue_frame split: option.splits) (simp add: sched_frame_def)
  have n: "(case RR_pick_next s2 of Some p \<Rightarrow> p | None \<Rightarrow> idleproc s3) = ?n"
    using rr.pick_queue [OF q2] f2 f3
    by (auto simp: sched_next_def sched_frame_def split: list.splits)
  let ?s4 = "upd_proc ?n (\<lambda>x. x\<lparr>p_runs := p_runs x + 1\<rparr>) s3"
  let ?s' = "if ?n \<noteq> current ?s4 then proc_run ?n ?s4 else ?s4"
  have sch: "schedule s = Some ?s'"
    using e d n unfolding schedule_def sched_class_pick_next_def sched_class_dequeue_def Let_def
    by (simp split: option.splits)
  have cur: "current ?s' = ?n" by simp
  have tl_set: "set (tl ?q) \<subseteq> set ?q" by (cases ?q) auto
  have dis: "?n \<notin> set (tl ?q)"
    using run_queue_distinct [OF q2] inv
    by (cases ?q) (auto simp: sched_next_def)
  have q': "run_queue ?s' (tl ?q)"
    using q3 by (subst run_queue_cong [of _ s3]) auto
  show ?thesis
    by (rule that [OF sch cur])
      (use q' dis tl_set inv f2 f3 in
        \<open>auto simp: sched_inv_def sched_frame_def sched_candidates_def split: if_splits\<close>)
qed

section \<open>Fairness of the rotation\<close>

fun schedule_n :: "nat \<Rightarrow> 'z kern_scheme \<Rightarrow> 'z kern_scheme kernel" where
  "schedule_n 0 s = Some s"
| "schedule_n (Suc n) s = schedule s \<bind> schedule_n n"

lemma schedule_n_reaches:
  "sched_inv s xs \<Longrightarrow> i < length xs \<Longrightarrow> \<exists>s'. schedule_n (Suc i) s = Some s' \<and> current s' = xs ! i"
proof (induction i arbitrary: s xs)
  case 0
  then obtain x ys where xs: "xs = x # ys" by (cases xs) auto
  obtain s' where "schedule s = Some s'" "current s' = sched_next s xs"
    by (rule schedule_inv [OF "0.prems"(1)])
  with xs show ?case by (auto simp: sched_next_def sched_candidates_def)
next
  case (Suc i)
  then obtain x ys where xs: "xs = x # ys" by (cases xs) auto
  obtain s' where s': "schedule s = Some s'" "sched_inv s' (tl (sched_candidates s xs))"
    by (rule schedule_inv [OF Suc.prems(1)])
  have t: "tl (sched_candidates s xs) ! i = ys ! i" "i < length (tl (sched_candidates s xs))"
    using xs Suc.prems(2) by (auto simp: sched_candidates_def nth_append)
  from Suc.IH [OF s'(2) t(2)] s'(1) t(1) xs show ?case by auto
qed

section \<open>A small run queue, for closed instances\<close>

definition idle_context :: proc_context where
  "idle_context = \<lparr>sf_s0 = 0, sf_s1 = 0, sf_s2 = 0, sf_s3 = 0, sf_s4 = 0, sf_s5 = 0, sf_s6 = 0,
     sf_s7 = 0, sf_s8 = 0, sf_gp = 0, sf_ra = 0, sf_sp = 0\<rparr>"

definition blank_proc :: "proc_state \<Rightarrow> proc_struct" where
  "blank_proc st = \<lparr>p_state = st, p_pid = -1, p_runs = 0, p_kstack = 0, p_need_resched = False,
     p_parent = None, p_mm = None, p_context = idle_context, p_tf = 0, p_cr3 = 0, p_flags = 0,
     p_name = [], p_exit_code = 0, p_wait_state = 0, p_cptr = None, p_yptr = None, p_optr = None,
     p_rq = Some 7, p_time_slice = 0, p_fs_struct = None\<rparr>"

definition self_links :: "'a links" where
  "self_links = \<lparr>le_prev = (\<lambda>x. x), le_next = (\<lambda>x. x)\<rparr>"

text \<open>Process 0 is idle, 3 runs, 1 and 2 wait on the run queue, the others sleep.\<close>

definition demo_kern :: kern where
  "demo_kern = \<lparr>procs = (\<lambda>p. blank_proc (if p \<le> 3 then PROC_RUNNABLE else PROC_SLEEPING)),
     current = 3, idleproc = 0, initproc = Some 1, cpu_regs = idle_context, current_pgdir = 0,
     cpu_tlb = (\<lambda>_. \<lparr>e_pagemask = 0, e_hi = 0, e_lo0 = 0, e_lo1 = 0\<rparr>), rq = 7,
     run_links = list_add_before None (Some 2) (list_add_before None (Some 1) self_links),
     proc_num = 2, max_time_slice = 20, timer_links = self_links,
     timers = (\<lambda>_. \<lparr>t_expires = 0, t_proc = None\<rparr>)\<rparr>"

lemma demo_kern_inv: "sched_inv demo_kern [1, 2]"
  by (auto simp: sched_inv_def run_queue_def demo_kern_def blank_proc_def ring_def linked_def
      self_links_def list_add_before_def list_add_raw_def list_empty_def Let_def)

section \<open>Properties\<close>

text \<open>
  C32: the round-robin class refines a FIFO queue. On a run list that holds the processes
  \<open>xs\<close>, enqueuing a process that is not on it never fails and appends it; the
  candidate for the processor is the first element; dequeuing a listed process never fails
  and removes exactly that one; and the pointer list, the links of all other processes and
  the process counter stay consistent.
\<close>

theorem RR_refines_fifo:
  assumes "run_queue s xs"
  shows "(p \<notin> set xs \<longrightarrow> (\<exists>s'. RR_enqueue p s = Some s' \<and> run_queue s' (xs @ [p]))) \<and>
    RR_pick_next s = (case xs of [] \<Rightarrow> None | x # _ \<Rightarrow> Some x) \<and>
    (p \<in> set xs \<longrightarrow> (\<exists>s'. RR_dequeue p s = Some s' \<and> run_queue s' (remove1 p xs)))"
proof (intro conjI impI)
  show "\<exists>s'. RR_enqueue p s = Some s' \<and> run_queue s' (xs @ [p])" if "p \<notin> set xs"
    using assms that by (rule rr.enq_queue)
  show "RR_pick_next s = (case xs of [] \<Rightarrow> None | x # _ \<Rightarrow> Some x)"
    using assms by (rule rr.pick_queue)
  assume "p \<in> set xs"
  then obtain us vs where xs: "xs = us @ p # vs" "p \<notin> set us" by (meson split_list_first)
  with assms rr.deq_queue [of s us p vs] show "\<exists>s'. RR_dequeue p s = Some s' \<and> run_queue s' (remove1 p xs)"
    by (simp add: remove1_append)
qed

theorem RR_refines_fifo_witness:
  "RR_pick_next demo_kern = Some 1 \<and>
   (\<exists>s'. RR_enqueue 5 demo_kern = Some s' \<and> run_queue s' [1, 2, 5]) \<and>
   (\<exists>s'. RR_dequeue 2 demo_kern = Some s' \<and> run_queue s' [1])"
proof -
  have q: "run_queue demo_kern [1, 2]" using demo_kern_inv by (simp add: sched_inv_def)
  show ?thesis
    using RR_refines_fifo [OF q, of 5] RR_refines_fifo [OF q, of 2] by simp
qed

text \<open>
  C30: \<^verbatim>\<open>schedule\<close> never panics in a consistent state. A runnable current process other
  than idle goes to the end of the queue, the front of the queue (or the idle process, when
  there is none) becomes current and its run counter is incremented, all others keep
  theirs, no process changes its state, and the invariant holds for the remaining queue.
\<close>

theorem schedule_picks_front:
  assumes "sched_inv s xs"
  shows "\<exists>s'. schedule s = Some s' \<and>
    current s' = (case sched_candidates s xs of [] \<Rightarrow> idleproc s | p # _ \<Rightarrow> p) \<and>
    sched_inv s' (tl (sched_candidates s xs)) \<and>
    (\<forall>q. p_state (procs s' q) = p_state (procs s q) \<and>
         p_runs (procs s' q) = p_runs (procs s q) + (if q = current s' then 1 else 0))"
  by (rule schedule_inv [OF assms]) (auto simp: sched_next_def)

theorem schedule_picks_front_witness:
  "\<exists>s'. schedule demo_kern = Some s' \<and> current s' = 1 \<and> sched_inv s' [2, 3]"
  using schedule_picks_front [OF demo_kern_inv]
  by (auto simp: sched_candidates_def demo_kern_def blank_proc_def)

text \<open>
  C31: round-robin is fair. The process at position \<open>i\<close> of the run queue is the one that runs
  after \<open>i + 1\<close> calls of \<^verbatim>\<open>schedule\<close>, whatever the state of the processes that run before it.
\<close>

theorem schedule_fair:
  assumes "sched_inv s xs" and "i < length xs"
  shows "\<exists>s'. schedule_n (Suc i) s = Some s' \<and> current s' = xs ! i"
  using assms by (rule schedule_n_reaches)

theorem schedule_fair_witness: "\<exists>s'. schedule_n 2 demo_kern = Some s' \<and> current s' = 2"
  using schedule_fair [OF demo_kern_inv, of 1] by (simp add: numeral_2_eq_2)

text \<open>
  Waking a process that is not a zombie never panics; afterwards the process is runnable,
  it is on the run queue at the end unless it was already runnable, is current or is idle,
  its wait state is cleared if it slept, and the scheduling invariant is kept.
\<close>

theorem wakeup_proc_correct:
  assumes "sched_inv s xs" and "p_state (procs s p) \<noteq> PROC_ZOMBIE"
  shows "\<exists>s'. wakeup_proc p s = Some s' \<and> p_state (procs s' p) = PROC_RUNNABLE \<and>
    sched_inv s' (if p_state (procs s p) = PROC_RUNNABLE \<or> p = current s \<or> p = idleproc s
                  then xs else xs @ [p]) \<and>
    (p_state (procs s p) \<noteq> PROC_RUNNABLE \<longrightarrow> p_wait_state (procs s' p) = 0) \<and>
    (\<forall>q. q \<noteq> p \<longrightarrow> p_state (procs s' q) = p_state (procs s q))"
  by (rule wakeup_proc_inv [OF assms]) auto

theorem wakeup_proc_correct_witness:
  "\<exists>s'. wakeup_proc 5 demo_kern = Some s' \<and> p_state (procs s' 5) = PROC_RUNNABLE \<and>
     sched_inv s' [1, 2, 5]"
proof -
  have "p_state (procs demo_kern 5) = PROC_SLEEPING" by (simp add: demo_kern_def blank_proc_def)
  then show ?thesis
    using wakeup_proc_correct [OF demo_kern_inv, of 5] by (auto simp: demo_kern_def)
qed

end
