(* ===== verification/Wait.thy ===== *)
theory Wait
  imports Sched
begin

text \<open>
  \<^verbatim>\<open>kern/sync/wait.c\<close>: wait queues. The kernel state is extended by the links of all
  wait queues and by the \<^verbatim>\<open>wait_t\<close> structures. A list cell is either the head of a queue or the
  \<^verbatim>\<open>wait_link\<close> of a \<^verbatim>\<open>wait_t\<close>. \<open>wqueue s q ws\<close> says that the queue at address \<open>q\<close>
  holds exactly \<open>ws\<close>; the lemmas show each operation on that list, including the two wake-up
  loops, which always end.
\<close>

type_synonym qptr = nat
type_synonym wptr = nat

datatype wcell = WHead qptr | WLink wptr

record wait_t =
  w_proc :: "pptr option"
  w_wakeup_flags :: u32
  w_wait_queue :: qptr

record wkern = kern +
  wq_links :: "wcell links"
  waits :: "wptr \<Rightarrow> wait_t"
  sem_value :: "qptr \<Rightarrow> int"

section \<open>Operations\<close>

definition wait_init :: "wptr \<Rightarrow> pptr option \<Rightarrow> 'z wkern_scheme \<Rightarrow> 'z wkern_scheme" where
  "wait_init w p s =
     s\<lparr>waits := (waits s)(w := (waits s w)\<lparr>w_proc := p, w_wakeup_flags := WT_INTERRUPTED\<rparr>),
       wq_links := list_init (WLink w) (wq_links s)\<rparr>"

definition wait_queue_init :: "qptr \<Rightarrow> 'z wkern_scheme \<Rightarrow> 'z wkern_scheme" where
  "wait_queue_init q s = s\<lparr>wq_links := list_init (WHead q) (wq_links s)\<rparr>"

definition wait_queue_add :: "qptr \<Rightarrow> wptr \<Rightarrow> 'z wkern_scheme \<Rightarrow> 'z wkern_scheme kernel" where
  "wait_queue_add q w s = do {
     kassert (list_empty (wq_links s) (WLink w) \<and> w_proc (waits s w) \<noteq> None);
     let s1 = s\<lparr>waits := (waits s)(w := (waits s w)\<lparr>w_wait_queue := q\<rparr>)\<rparr>;
     Some (s1\<lparr>wq_links := list_add_before (WHead q) (WLink w) (wq_links s1)\<rparr>)
   }"

definition wait_queue_del :: "qptr \<Rightarrow> wptr \<Rightarrow> 'z wkern_scheme \<Rightarrow> 'z wkern_scheme kernel" where
  "wait_queue_del q w s = do {
     kassert (\<not> list_empty (wq_links s) (WLink w) \<and> w_wait_queue (waits s w) = q);
     Some (s\<lparr>wq_links := list_del_init (WLink w) (wq_links s)\<rparr>)
   }"

text \<open>\<^verbatim>\<open>le2wait\<close> of a cell that is not the head asked for.\<close>

definition le2wait :: "wcell \<Rightarrow> wptr option" where
  "le2wait le = (case le of WLink w \<Rightarrow> Some w | WHead _ \<Rightarrow> None)"

definition wait_queue_next :: "qptr \<Rightarrow> wptr \<Rightarrow> 'z wkern_scheme \<Rightarrow> wptr option kernel" where
  "wait_queue_next q w s = do {
     kassert (\<not> list_empty (wq_links s) (WLink w) \<and> w_wait_queue (waits s w) = q);
     let le = list_next (wq_links s) (WLink w);
     Some (if le \<noteq> WHead q then le2wait le else None)
   }"

definition wait_queue_prev :: "qptr \<Rightarrow> wptr \<Rightarrow> 'z wkern_scheme \<Rightarrow> wptr option kernel" where
  "wait_queue_prev q w s = do {
     kassert (\<not> list_empty (wq_links s) (WLink w) \<and> w_wait_queue (waits s w) = q);
     let le = list_prev (wq_links s) (WLink w);
     Some (if le \<noteq> WHead q then le2wait le else None)
   }"

definition wait_queue_first :: "qptr \<Rightarrow> 'z wkern_scheme \<Rightarrow> wptr option" where
  "wait_queue_first q s =
     (let le = list_next (wq_links s) (WHead q) in if le \<noteq> WHead q then le2wait le else None)"

definition wait_queue_last :: "qptr \<Rightarrow> 'z wkern_scheme \<Rightarrow> wptr option" where
  "wait_queue_last q s =
     (let le = list_prev (wq_links s) (WHead q) in if le \<noteq> WHead q then le2wait le else None)"

definition wait_queue_empty :: "qptr \<Rightarrow> 'z wkern_scheme \<Rightarrow> bool" where
  "wait_queue_empty q s = list_empty (wq_links s) (WHead q)"

definition wait_in_queue :: "wptr \<Rightarrow> 'z wkern_scheme \<Rightarrow> bool" where
  "wait_in_queue w s = (\<not> list_empty (wq_links s) (WLink w))"

definition wakeup_wait :: "qptr \<Rightarrow> wptr \<Rightarrow> u32 \<Rightarrow> bool \<Rightarrow> 'z wkern_scheme \<Rightarrow> 'z wkern_scheme kernel" where
  "wakeup_wait q w wakeup_flags del s = do {
     s1 \<leftarrow> (if del then wait_queue_del q w s else Some s);
     let s2 = s1\<lparr>waits := (waits s1)(w := (waits s1 w)\<lparr>w_wakeup_flags := wakeup_flags\<rparr>)\<rparr>;
     case w_proc (waits s2 w) of
       None \<Rightarrow> panic
     | Some p \<Rightarrow> wakeup_proc p s2
   }"

definition wakeup_first :: "qptr \<Rightarrow> u32 \<Rightarrow> bool \<Rightarrow> 'z wkern_scheme \<Rightarrow> 'z wkern_scheme kernel" where
  "wakeup_first q wakeup_flags del s =
     (case wait_queue_first q s of
        Some w \<Rightarrow> wakeup_wait q w wakeup_flags del s
      | None \<Rightarrow> Some s)"

partial_function (option) wakeup_del_loop :: "qptr \<Rightarrow> u32 \<Rightarrow> wptr \<Rightarrow> 'z wkern_scheme \<Rightarrow> 'z wkern_scheme kernel" where
  "wakeup_del_loop q wakeup_flags w s = do {
     s1 \<leftarrow> wakeup_wait q w wakeup_flags True s;
     case wait_queue_first q s1 of
       Some w' \<Rightarrow> wakeup_del_loop q wakeup_flags w' s1
     | None \<Rightarrow> Some s1
   }"

partial_function (option) wakeup_keep_loop :: "qptr \<Rightarrow> u32 \<Rightarrow> wptr \<Rightarrow> 'z wkern_scheme \<Rightarrow> 'z wkern_scheme kernel" where
  "wakeup_keep_loop q wakeup_flags w s = do {
     s1 \<leftarrow> wakeup_wait q w wakeup_flags False s;
     nxt \<leftarrow> wait_queue_next q w s1;
     case nxt of
       Some w' \<Rightarrow> wakeup_keep_loop q wakeup_flags w' s1
     | None \<Rightarrow> Some s1
   }"

definition wakeup_queue :: "qptr \<Rightarrow> u32 \<Rightarrow> bool \<Rightarrow> 'z wkern_scheme \<Rightarrow> 'z wkern_scheme kernel" where
  "wakeup_queue q wakeup_flags del s =
     (case wait_queue_first q s of
        None \<Rightarrow> Some s
      | Some w \<Rightarrow> if del then wakeup_del_loop q wakeup_flags w s
                  else wakeup_keep_loop q wakeup_flags w s)"

definition wait_current_set :: "qptr \<Rightarrow> wptr \<Rightarrow> u32 \<Rightarrow> 'z wkern_scheme \<Rightarrow> 'z wkern_scheme kernel" where
  "wait_current_set q w wait_state s =
     (let s1 = wait_init w (Some (current s)) s;
          s2 = upd_proc (current s1) (\<lambda>x. x\<lparr>p_state := PROC_SLEEPING, p_wait_state := wait_state\<rparr>) s1
      in wait_queue_add q w s2)"

definition wait_current_del :: "qptr \<Rightarrow> wptr \<Rightarrow> 'z wkern_scheme \<Rightarrow> 'z wkern_scheme kernel" where
  "wait_current_del q w s = (if wait_in_queue w s then wait_queue_del q w s else Some s)"

section \<open>A wait queue as a list\<close>

definition wqueue :: "'z wkern_scheme \<Rightarrow> qptr \<Rightarrow> wptr list \<Rightarrow> bool" where
  "wqueue s q ws \<longleftrightarrow>
     ring (wq_links s) (WHead q) (map WLink ws) \<and> (\<forall>w \<in> set ws. w_wait_queue (waits s w) = q)"

lemma wkern_more_eq:
  assumes "kern.more (s' :: 'z wkern_scheme) = kern.more s"
  shows "wq_links s' = wq_links s" and "waits s' = waits s" and "sem_value s' = sem_value s"
  using assms by (cases s; cases s'; simp)+

lemma upd_proc_wkern [simp]:
  "wq_links (upd_proc p f s) = wq_links s" "waits (upd_proc p f s) = waits s"
  "sem_value (upd_proc p f s) = sem_value s"
  by (simp_all add: upd_proc_def)

lemma upd_proc_wkern_fields:
  "procs (s\<lparr>wq_links := l\<rparr>) = procs s" "procs (s\<lparr>waits := m\<rparr>) = procs s"
  by simp_all

lemma wqueue_cong:
  "wq_links s' = wq_links s \<Longrightarrow> (\<And>w. w_wait_queue (waits s' w) = w_wait_queue (waits s w)) \<Longrightarrow>
   wqueue s' q ws = wqueue s q ws"
  by (simp add: wqueue_def)

lemma wqueue_distinct: "wqueue s q ws \<Longrightarrow> distinct ws"
  by (auto simp: wqueue_def distinct_map dest!: ring_distinct)

lemma wqueue_linked: "wqueue s q ws \<Longrightarrow> w \<in> set ws \<Longrightarrow> \<not> list_empty (wq_links s) (WLink w)"
  using clist.lempty_member [of "wq_links s" "WHead q" "map WLink ws" "WLink w"]
  by (auto simp: wqueue_def)

lemma wqueue_disjoint:
  "wqueue s q ws \<Longrightarrow> wqueue s k vs \<Longrightarrow> k \<noteq> q \<Longrightarrow> set ws \<inter> set vs = {}"
  by (auto simp: wqueue_def)

lemma wqueue_first: "wqueue s q ws \<Longrightarrow> wait_queue_first q s = (case ws of [] \<Rightarrow> None | w # _ \<Rightarrow> Some w)"
  using clist.next_head [of "wq_links s" "WHead q" "map WLink ws"]
  by (cases ws) (simp_all add: wqueue_def wait_queue_first_def le2wait_def)

lemma wqueue_last: "wqueue s q ws \<Longrightarrow> wait_queue_last q s = (if ws = [] then None else Some (last ws))"
  using ring_prev [of "wq_links s" "WHead q" "map WLink ws" "[]"]
  by (cases ws rule: rev_cases) (simp_all add: wqueue_def wait_queue_last_def le2wait_def)

lemma wqueue_next:
  assumes "wqueue s q (us @ w # vs)"
  shows "wait_queue_next q w s = Some (case vs of [] \<Rightarrow> None | v # _ \<Rightarrow> Some v)"
  using wqueue_linked [OF assms, of w] assms
    clist.next_cell [of "wq_links s" "WHead q" "map WLink us" "WLink w" "map WLink vs"]
  by (cases vs) (simp_all add: wqueue_def wait_queue_next_def le2wait_def)

lemma wqueue_prev:
  assumes "wqueue s q (us @ w # vs)"
  shows "wait_queue_prev q w s = Some (if us = [] then None else Some (last us))"
  using wqueue_linked [OF assms, of w] assms
    ring_prev [of "wq_links s" "WHead q" "map WLink us" "WLink w # map WLink vs"]
  by (cases us rule: rev_cases) (simp_all add: wqueue_def wait_queue_prev_def le2wait_def)

lemma wqueue_empty: "wqueue s q ws \<Longrightarrow> wait_queue_empty q s \<longleftrightarrow> ws = []"
  using clist.lempty_head [of "wq_links s" "WHead q" "map WLink ws"]
  by (simp add: wqueue_def wait_queue_empty_def)

lemma wait_queue_add_wqueue:
  assumes q: "wqueue s q ws" and w: "w \<notin> set ws" and e: "list_empty (wq_links s) (WLink w)"
    and p: "w_proc (waits s w) \<noteq> None"
  obtains s' where "wait_queue_add q w s = Some s'" and "wqueue s' q (ws @ [w])"
    and "\<And>k vs. wqueue s k vs \<Longrightarrow> k \<noteq> q \<Longrightarrow> w \<notin> set vs \<Longrightarrow> wqueue s' k vs"
    and "s' = s\<lparr>waits := (waits s)(w := (waits s w)\<lparr>w_wait_queue := q\<rparr>),
                wq_links := list_add_before (WHead q) (WLink w) (wq_links s)\<rparr>"
proof -
  let ?s = "s\<lparr>waits := (waits s)(w := (waits s w)\<lparr>w_wait_queue := q\<rparr>),
              wq_links := list_add_before (WHead q) (WLink w) (wq_links s)\<rparr>"
  have r: "ring (wq_links s) (WHead q) (map WLink ws)" using q by (simp add: wqueue_def)
  have "ring (wq_links ?s) (WHead q) (map WLink (ws @ [w]))"
    using clist.rep_enqueue [OF r, of "WLink w"] w by auto
  then have 1: "wqueue ?s q (ws @ [w])" using q by (auto simp: wqueue_def)
  have 2: "wqueue ?s k vs" if k: "wqueue s k vs" "k \<noteq> q" "w \<notin> set vs" for k vs
  proof -
    have "ring (list_add_before (hd ([] @ [WHead q])) (WLink w) (wq_links s)) (WHead k) (map WLink vs)"
      by (rule ring_add_before_other [of _ _ "map WLink ws"])
        (use r k wqueue_disjoint [OF q k(1,2)] in \<open>auto simp: wqueue_def\<close>)
    with k show ?thesis by (auto simp: wqueue_def)
  qed
  show ?thesis
    by (rule that [of ?s]) (use e p 1 2 in \<open>auto simp: wait_queue_add_def Let_def\<close>)
qed

lemma wait_queue_del_wqueue:
  assumes q: "wqueue s q (us @ w # vs)"
  obtains s' where "wait_queue_del q w s = Some s'" and "wqueue s' q (us @ vs)"
    and "\<not> wait_in_queue w s'" and "\<And>k xs. wqueue s k xs \<Longrightarrow> k \<noteq> q \<Longrightarrow> wqueue s' k xs"
    and "s' = s\<lparr>wq_links := list_del_init (WLink w) (wq_links s)\<rparr>"
proof -
  let ?s = "s\<lparr>wq_links := list_del_init (WLink w) (wq_links s)\<rparr>"
  have r: "ring (wq_links s) (WHead q) (map WLink us @ WLink w # map WLink vs)"
    using q by (simp add: wqueue_def)
  have 1: "wqueue ?s q (us @ vs)" using ring_del_init [OF r] q by (auto simp: wqueue_def)
  have 2: "wqueue ?s k xs" if k: "wqueue s k xs" "k \<noteq> q" for k xs
    using ring_del_init_other [OF r, of "WHead k" "map WLink xs"] wqueue_disjoint [OF q k] k
    by (auto simp: wqueue_def)
  show ?thesis
    by (rule that [of ?s])
      (use wqueue_linked [OF q, of w] q 1 2 clist.lempty_del_init in
        \<open>auto simp: wait_queue_del_def wqueue_def wait_in_queue_def\<close>)
qed

section \<open>Waking waiters\<close>

text \<open>
  What a wake-up keeps: only process states and wait states of woken processes change,
  towards runnable.
\<close>

definition wake_frame :: "pptr set \<Rightarrow> 'z wkern_scheme \<Rightarrow> 'z wkern_scheme \<Rightarrow> bool" where
  "wake_frame P s s' \<longleftrightarrow>
     current s' = current s \<and> idleproc s' = idleproc s \<and> initproc s' = initproc s \<and>
     sem_value s' = sem_value s \<and> wkern.more s' = wkern.more s \<and>
     (\<forall>p. p \<in> P \<longrightarrow> p_state (procs s' p) = PROC_RUNNABLE) \<and>
     (\<forall>p. p \<notin> P \<longrightarrow> p_state (procs s' p) = p_state (procs s p) \<and>
        p_wait_state (procs s' p) = p_wait_state (procs s p)) \<and>
     (\<forall>w. w_proc (waits s' w) = w_proc (waits s w) \<and> w_wait_queue (waits s' w) = w_wait_queue (waits s w))"

lemma wake_frame_trans:
  "wake_frame P s s1 \<Longrightarrow> wake_frame Q s1 s2 \<Longrightarrow> wake_frame (P \<union> Q) s s2"
  by (auto simp: wake_frame_def)

definition wakeable :: "'z wkern_scheme \<Rightarrow> wptr list \<Rightarrow> bool" where
  "wakeable s ws \<longleftrightarrow> (\<forall>w \<in> set ws. \<exists>p. w_proc (waits s w) = Some p \<and> p_state (procs s p) \<noteq> PROC_ZOMBIE)"

definition waiter_procs :: "'z wkern_scheme \<Rightarrow> wptr list \<Rightarrow> pptr set" where
  "waiter_procs s ws = {p. \<exists>w \<in> set ws. w_proc (waits s w) = Some p}"

lemma wakeable_frame: "wake_frame P s s' \<Longrightarrow> wakeable s ws \<Longrightarrow> wakeable s' ws"
  unfolding wakeable_def wake_frame_def by (metis proc_state.distinct(11))

lemma waiter_procs_frame: "wake_frame P s s' \<Longrightarrow> waiter_procs s' ws = waiter_procs s ws"
  by (simp add: waiter_procs_def wake_frame_def)

lemma wkern_more_wkern_more:
  "kern.more (s' :: 'z wkern_scheme) = kern.more s \<Longrightarrow> wkern.more s' = wkern.more s"
  by (cases s; cases s'; simp)

text \<open>The step common to all wake-ups, after the entry has been taken off the queue or not.\<close>

lemma wakeup_marked:
  fixes s :: "'z wkern_scheme" and flags :: u32
  assumes inv: "sched_inv s xs" and p: "w_proc (waits s w) = Some p" "p_state (procs s p) \<noteq> PROC_ZOMBIE"
  defines "s2 \<equiv> s\<lparr>waits := (waits s)(w := (waits s w)\<lparr>w_wakeup_flags := flags\<rparr>)\<rparr>"
  obtains s' ys where "wakeup_proc p s2 = Some s'" and "sched_inv s' ys" and "set xs \<subseteq> set ys"
    and "p = current s \<or> p = idleproc s \<or> p \<in> set ys \<or> p_state (procs s p) = PROC_RUNNABLE"
    and "wake_frame {p} s s'" and "wq_links s' = wq_links s"
    and "waits s' = (waits s)(w := (waits s w)\<lparr>w_wakeup_flags := flags\<rparr>)"
proof -
  have "run_queue s2 xs = run_queue s xs"
    unfolding s2_def by (rule run_queue_cong) auto
  then have inv2: "sched_inv s2 xs" using inv by (auto simp: sched_inv_def s2_def)
  have z: "p_state (procs s2 p) \<noteq> PROC_ZOMBIE" using p by (simp add: s2_def)
  define ys where "ys = (if p_state (procs s2 p) = PROC_RUNNABLE \<or> p = current s2 \<or> p = idleproc s2
                 then xs else xs @ [p])"
  show ?thesis
    by (rule wakeup_proc_inv [OF inv2 z], fold ys_def, rule that)
      (assumption, assumption, auto simp: ys_def s2_def wake_frame_def dest: wkern_more_eq
        wkern_more_wkern_more split: if_splits)
qed

lemma wakeup_wait_del:
  assumes inv: "sched_inv s xs" and q: "wqueue s q (us @ w # vs)"
    and p: "w_proc (waits s w) = Some p" "p_state (procs s p) \<noteq> PROC_ZOMBIE"
  obtains s' ys where "wakeup_wait q w flags True s = Some s'" and "sched_inv s' ys"
    and "set xs \<subseteq> set ys" and "wqueue s' q (us @ vs)" and "\<not> wait_in_queue w s'"
    and "wake_frame {p} s s'"
    and "waits s' = (waits s)(w := (waits s w)\<lparr>w_wakeup_flags := flags\<rparr>)"
    and "\<And>k zs. wqueue s k zs \<Longrightarrow> k \<noteq> q \<Longrightarrow> wqueue s' k zs"
    and "p = current s \<or> p = idleproc s \<or> p \<in> set ys \<or> p_state (procs s p) = PROC_RUNNABLE"
proof -
  obtain s1 where d: "wait_queue_del q w s = Some s1" and q1: "wqueue s1 q (us @ vs)"
    and nin: "\<not> wait_in_queue w s1" and other: "\<forall>k xs. wqueue s k xs \<longrightarrow> k \<noteq> q \<longrightarrow> wqueue s1 k xs"
    and s1: "s1 = s\<lparr>wq_links := list_del_init (WLink w) (wq_links s)\<rparr>"
    by (rule wait_queue_del_wqueue [OF q]) blast
  have "run_queue s1 xs = run_queue s xs" unfolding s1 by (rule run_queue_cong) auto
  then have inv1: "sched_inv s1 xs" using inv by (auto simp: sched_inv_def s1)
  have p1: "w_proc (waits s1 w) = Some p" "p_state (procs s1 p) \<noteq> PROC_ZOMBIE"
    using p by (simp_all add: s1)
  obtain s' ys where s': "wakeup_proc p (s1\<lparr>waits := (waits s1)(w := (waits s1 w)\<lparr>w_wakeup_flags := flags\<rparr>)\<rparr>) = Some s'"
    "sched_inv s' ys" "set xs \<subseteq> set ys"
    "p = current s1 \<or> p = idleproc s1 \<or> p \<in> set ys \<or> p_state (procs s1 p) = PROC_RUNNABLE"
    "wake_frame {p} s1 s'" "wq_links s' = wq_links s1"
    "waits s' = (waits s1)(w := (waits s1 w)\<lparr>w_wakeup_flags := flags\<rparr>)"
    by (rule wakeup_marked [OF inv1 p1])
  have "wqueue s' k zs = wqueue s1 k zs" for k zs
    by (rule wqueue_cong) (simp_all add: s')
  then show ?thesis
    by (intro that [of s' ys])
      (use s' d p1 q1 nin other in \<open>auto simp: wakeup_wait_def Let_def s1 wake_frame_def wait_in_queue_def\<close>)
qed

lemma wakeup_wait_keep:
  assumes inv: "sched_inv s xs"
    and p: "w_proc (waits s w) = Some p" "p_state (procs s p) \<noteq> PROC_ZOMBIE"
  obtains s' ys where "wakeup_wait q w flags False s = Some s'" and "sched_inv s' ys"
    and "set xs \<subseteq> set ys" and "\<And>k zs. wqueue s' k zs = wqueue s k zs" and "wake_frame {p} s s'"
    and "waits s' = (waits s)(w := (waits s w)\<lparr>w_wakeup_flags := flags\<rparr>)"
proof -
  obtain s' ys where s': "wakeup_proc p (s\<lparr>waits := (waits s)(w := (waits s w)\<lparr>w_wakeup_flags := flags\<rparr>)\<rparr>) = Some s'"
    "sched_inv s' ys" "set xs \<subseteq> set ys" "wake_frame {p} s s'" "wq_links s' = wq_links s"
    "waits s' = (waits s)(w := (waits s w)\<lparr>w_wakeup_flags := flags\<rparr>)"
    by (rule wakeup_marked [OF inv p])
  have "wqueue s' k zs = wqueue s k zs" for k zs
    by (rule wqueue_cong) (simp_all add: s')
  then show ?thesis
    by (intro that [of s' ys]) (use s' p in \<open>auto simp: wakeup_wait_def\<close>)
qed

lemma waiter_procs_Cons:
  "w_proc (waits s w) = Some p \<Longrightarrow> waiter_procs s (w # ws) = {p} \<union> waiter_procs s ws"
  by (auto simp: waiter_procs_def)

lemma wakeable_Cons:
  "wakeable s (w # ws) \<longleftrightarrow> (\<exists>p. w_proc (waits s w) = Some p \<and> p_state (procs s p) \<noteq> PROC_ZOMBIE) \<and> wakeable s ws"
  by (simp add: wakeable_def)

lemma wakeup_del_loop_all:
  "sched_inv s xs \<Longrightarrow> wqueue s q (w # ws) \<Longrightarrow> wakeable s (w # ws) \<Longrightarrow>
   \<exists>s' ys. wakeup_del_loop q flags w s = Some s' \<and> sched_inv s' ys \<and> wqueue s' q [] \<and>
     wake_frame (waiter_procs s (w # ws)) s s' \<and>
     (\<forall>v. w_wakeup_flags (waits s' v) = (if v \<in> set (w # ws) then flags else w_wakeup_flags (waits s v)))"
proof (induction ws arbitrary: w s xs)
  case (Nil w s xs)
  then obtain p where p: "w_proc (waits s w) = Some p" "p_state (procs s p) \<noteq> PROC_ZOMBIE"
    by (auto simp: wakeable_def)
  obtain s1 ys where s1: "wakeup_wait q w flags True s = Some s1" "sched_inv s1 ys"
    "wqueue s1 q []" "wake_frame {p} s s1"
    "waits s1 = (waits s)(w := (waits s w)\<lparr>w_wakeup_flags := flags\<rparr>)"
    by (rule wakeup_wait_del [OF Nil(1) _ p, of q "[]" "[]" flags]) (use Nil in auto)
  have "wakeup_del_loop q flags w s = Some s1"
    using s1(1) wqueue_first [OF s1(3)] by (subst wakeup_del_loop.simps) simp
  with s1 p show ?case by (auto simp: waiter_procs_def)
next
  case (Cons v vs w s xs)
  then obtain p where p: "w_proc (waits s w) = Some p" "p_state (procs s p) \<noteq> PROC_ZOMBIE"
    by (auto simp: wakeable_def)
  obtain s1 ys where s1: "wakeup_wait q w flags True s = Some s1" "sched_inv s1 ys"
    "wqueue s1 q (v # vs)" "wake_frame {p} s s1"
    "waits s1 = (waits s)(w := (waits s w)\<lparr>w_wakeup_flags := flags\<rparr>)"
    by (rule wakeup_wait_del [OF Cons(2) _ p, of q "[]" "v # vs" flags]) (use Cons in auto)
  have "wakeable s1 (v # vs)"
    using Cons.prems(3) by (intro wakeable_frame [OF s1(4)]) (simp add: wakeable_def)
  from Cons.IH [OF s1(2,3) this] obtain s' zs where s': "wakeup_del_loop q flags v s1 = Some s'"
    "sched_inv s' zs" "wqueue s' q []" "wake_frame (waiter_procs s1 (v # vs)) s1 s'"
    "\<forall>x. w_wakeup_flags (waits s' x) = (if x \<in> set (v # vs) then flags else w_wakeup_flags (waits s1 x))"
    by blast
  have "wakeup_del_loop q flags w s = Some s'"
    using s1(1) s'(1) wqueue_first [OF s1(3)] by (subst wakeup_del_loop.simps) simp
  moreover have "wake_frame (waiter_procs s (w # v # vs)) s s'"
    using wake_frame_trans [OF s1(4) s'(4)]
    by (simp add: waiter_procs_Cons [OF p(1)] waiter_procs_frame [OF s1(4)])
  ultimately show ?case using s' s1(5) by auto
qed

lemma wakeup_keep_loop_all:
  "sched_inv s xs \<Longrightarrow> wqueue s q (us @ w # ws) \<Longrightarrow> wakeable s (w # ws) \<Longrightarrow>
   \<exists>s' ys. wakeup_keep_loop q flags w s = Some s' \<and> sched_inv s' ys \<and> wqueue s' q (us @ w # ws) \<and>
     wake_frame (waiter_procs s (w # ws)) s s' \<and>
     (\<forall>v. w_wakeup_flags (waits s' v) = (if v \<in> set (w # ws) then flags else w_wakeup_flags (waits s v)))"
proof (induction ws arbitrary: us w s xs)
  case (Nil us w s xs)
  then obtain p where p: "w_proc (waits s w) = Some p" "p_state (procs s p) \<noteq> PROC_ZOMBIE"
    by (auto simp: wakeable_def)
  obtain s1 ys where s1: "wakeup_wait q w flags False s = Some s1" "sched_inv s1 ys"
    "wqueue s1 q (us @ [w]) = wqueue s q (us @ [w])" "wake_frame {p} s s1"
    "waits s1 = (waits s)(w := (waits s w)\<lparr>w_wakeup_flags := flags\<rparr>)"
    by (rule wakeup_wait_keep [OF Nil(1) p, of q flags]) simp
  have "wakeup_keep_loop q flags w s = Some s1"
    using s1(1) wqueue_next [of s1 q us w "[]"] s1(3) Nil(2) by (subst wakeup_keep_loop.simps) simp
  with s1 p Nil(2) show ?case by (auto simp: waiter_procs_def)
next
  case (Cons v vs us w s xs)
  then obtain p where p: "w_proc (waits s w) = Some p" "p_state (procs s p) \<noteq> PROC_ZOMBIE"
    by (auto simp: wakeable_def)
  obtain s1 ys where s1: "wakeup_wait q w flags False s = Some s1" "sched_inv s1 ys"
    "wqueue s1 q (us @ w # v # vs) = wqueue s q (us @ w # v # vs)" "wake_frame {p} s s1"
    "waits s1 = (waits s)(w := (waits s w)\<lparr>w_wakeup_flags := flags\<rparr>)"
    by (rule wakeup_wait_keep [OF Cons(2) p, of q flags]) simp
  have "wakeable s1 (v # vs)"
    using Cons.prems(3) by (intro wakeable_frame [OF s1(4)]) (simp add: wakeable_def)
  moreover have q1: "wqueue s1 q ((us @ [w]) @ v # vs)" using s1(3) Cons.prems(2) by simp
  ultimately obtain s' zs where s': "wakeup_keep_loop q flags v s1 = Some s'"
    "sched_inv s' zs" "wqueue s' q ((us @ [w]) @ v # vs)" "wake_frame (waiter_procs s1 (v # vs)) s1 s'"
    "\<forall>x. w_wakeup_flags (waits s' x) = (if x \<in> set (v # vs) then flags else w_wakeup_flags (waits s1 x))"
    using Cons.IH [OF s1(2)] by blast
  have "wakeup_keep_loop q flags w s = Some s'"
    using s1(1) s'(1) wqueue_next [of s1 q us w "v # vs"] q1 by (subst wakeup_keep_loop.simps) simp
  moreover have "wake_frame (waiter_procs s (w # v # vs)) s s'"
    using wake_frame_trans [OF s1(4) s'(4)]
    by (simp add: waiter_procs_Cons [OF p(1)] waiter_procs_frame [OF s1(4)])
  ultimately show ?case using s' s1(5) by auto
qed

section \<open>A wait queue with two waiters, for closed instances\<close>

definition demo_wait :: wkern where
  "demo_wait = kern.extend demo_kern
     \<lparr>wq_links = list_add_before (WHead 0) (WLink 2) (list_add_before (WHead 0) (WLink 1) self_links),
      waits = (\<lambda>w. \<lparr>w_proc = Some (w + 4), w_wakeup_flags = WT_INTERRUPTED, w_wait_queue = 0\<rparr>),
      sem_value = (\<lambda>_. 0)\<rparr>"

lemma demo_wait_simps [simp]:
  "procs demo_wait = procs demo_kern" "current demo_wait = 3" "idleproc demo_wait = 0"
  by (simp_all add: demo_wait_def kern.defs demo_kern_def)

lemma demo_wait_sched: "sched_inv demo_wait [1, 2]"
proof -
  have "run_queue demo_wait [1, 2] = run_queue demo_kern [1, 2]"
    by (simp add: run_queue_def demo_wait_def kern.defs)
  with demo_kern_inv show ?thesis by (simp add: sched_inv_def demo_kern_def)
qed

lemma demo_wait_queue: "wqueue demo_wait 0 [1, 2]"
  by (auto simp: wqueue_def demo_wait_def kern.defs ring_def linked_def self_links_def
      list_add_before_def list_add_raw_def Let_def)

lemma demo_wait_wakeable: "wakeable demo_wait [1, 2]"
  by (auto simp: wakeable_def demo_kern_def blank_proc_def) (auto simp: demo_wait_def kern.defs)

section \<open>Properties\<close>

text \<open>
  \<^verbatim>\<open>wakeup_queue\<close> ends and wakes every waiter. On a wait queue whose processes are
  not zombies it never panics; afterwards every process that waited is runnable, every waiter
  has received the wake-up flags, the queue is empty if removal was asked for and unchanged
  otherwise, no process outside the queue is touched, and scheduling stays consistent.\<close>
theorem wakeup_queue_wakes_all:
  assumes "sched_inv s xs" and "wqueue s q ws" and "wakeable s ws"
  shows "\<exists>s' ys. wakeup_queue q flags del s = Some s' \<and> sched_inv s' ys \<and>
    wqueue s' q (if del then [] else ws) \<and>
    (\<forall>p. p \<in> waiter_procs s ws \<longrightarrow> p_state (procs s' p) = PROC_RUNNABLE) \<and>
    (\<forall>p. p \<notin> waiter_procs s ws \<longrightarrow> p_state (procs s' p) = p_state (procs s p)) \<and>
    (\<forall>w. w_wakeup_flags (waits s' w) = (if w \<in> set ws then flags else w_wakeup_flags (waits s w)))"
proof (cases ws)
  case Nil
  with assms show ?thesis
    by (intro exI[of _ s] exI[of _ xs]) (auto simp: wakeup_queue_def wqueue_first waiter_procs_def)
next
  case (Cons w vs)
  with assms wakeup_del_loop_all [of s xs q w vs flags] wakeup_keep_loop_all [of s xs q "[]" w vs flags]
  show ?thesis
    by (cases del) (auto simp: wakeup_queue_def wqueue_first wake_frame_def)
qed

theorem wakeup_queue_wakes_all_witness:
  "\<exists>s' ys. wakeup_queue 0 WT_KBD True demo_wait = Some s' \<and> sched_inv s' ys \<and> wqueue s' 0 [] \<and>
     p_state (procs s' 5) = PROC_RUNNABLE \<and> p_state (procs s' 6) = PROC_RUNNABLE"
proof -
  have "5 \<in> waiter_procs demo_wait [1, 2]" "6 \<in> waiter_procs demo_wait [1, 2]"
    by (auto simp: waiter_procs_def demo_wait_def kern.defs)
  with wakeup_queue_wakes_all [OF demo_wait_sched demo_wait_queue demo_wait_wakeable, of WT_KBD True]
  show ?thesis by auto
qed

end
