(* ===== verification/Sem.thy ===== *)
theory Sem
  imports Wait
begin

text \<open>
  \<^verbatim>\<open>kern/sync/sem.c\<close>: counting semaphores on wait queues. \<^verbatim>\<open>__down\<close> gives the
  processor away in the middle: \<open>down_begin\<close> is the code up to and including the call of
  \<^verbatim>\<open>schedule\<close>, \<open>down_end\<close> the code that runs when the process is scheduled again. The
  wait queue of a semaphore stands at the semaphore's address. \<open>sem_step\<close> is the transition
  system of the operations on one semaphore.
\<close>

section \<open>Operations\<close>

definition sem_init :: "qptr \<Rightarrow> int \<Rightarrow> 'z wkern_scheme \<Rightarrow> 'z wkern_scheme" where
  "sem_init sem v s = wait_queue_init sem (s\<lparr>sem_value := (sem_value s)(sem := v)\<rparr>)"

definition up_raw :: "qptr \<Rightarrow> u32 \<Rightarrow> 'z wkern_scheme \<Rightarrow> 'z wkern_scheme kernel" where
  "up_raw sem wait_state s =
     (case wait_queue_first sem s of
        None \<Rightarrow> Some (s\<lparr>sem_value := (sem_value s)(sem := sem_value s sem + 1)\<rparr>)
      | Some w \<Rightarrow>
          (case w_proc (waits s w) of
             None \<Rightarrow> panic
           | Some p \<Rightarrow> do {
               kassert (p_wait_state (procs s p) = wait_state);
               wakeup_wait sem w wait_state True s
             }))"

text \<open>The flag says whether the call is finished; if not, the caller sleeps.\<close>

definition down_begin :: "qptr \<Rightarrow> wptr \<Rightarrow> u32 \<Rightarrow> 'z wkern_scheme \<Rightarrow> (bool \<times> 'z wkern_scheme) kernel" where
  "down_begin sem w wait_state s =
     (if 0 < sem_value s sem
      then Some (True, s\<lparr>sem_value := (sem_value s)(sem := sem_value s sem - 1)\<rparr>)
      else do {
        s1 \<leftarrow> wait_current_set sem w wait_state s;
        s2 \<leftarrow> schedule s1;
        Some (False, s2)
      })"

definition down_end :: "qptr \<Rightarrow> wptr \<Rightarrow> u32 \<Rightarrow> 'z wkern_scheme \<Rightarrow> (u32 \<times> 'z wkern_scheme) kernel" where
  "down_end sem w wait_state s = do {
     s1 \<leftarrow> wait_current_del sem w s;
     Some (if w_wakeup_flags (waits s1 w) \<noteq> wait_state then w_wakeup_flags (waits s1 w) else 0, s1)
   }"

definition up :: "qptr \<Rightarrow> 'z wkern_scheme \<Rightarrow> 'z wkern_scheme kernel" where
  "up sem s = up_raw sem WT_KSEM s"

definition down :: "qptr \<Rightarrow> wptr \<Rightarrow> 'z wkern_scheme \<Rightarrow> (bool \<times> 'z wkern_scheme) kernel" where
  "down sem w s = down_begin sem w WT_KSEM s"

definition down_resume :: "qptr \<Rightarrow> wptr \<Rightarrow> 'z wkern_scheme \<Rightarrow> 'z wkern_scheme kernel" where
  "down_resume sem w s = do {
     (flags, s1) \<leftarrow> down_end sem w WT_KSEM s;
     kassert (flags = 0);
     Some s1
   }"

definition try_down :: "qptr \<Rightarrow> 'z wkern_scheme \<Rightarrow> bool \<times> 'z wkern_scheme" where
  "try_down sem s =
     (if 0 < sem_value s sem
      then (True, s\<lparr>sem_value := (sem_value s)(sem := sem_value s sem - 1)\<rparr>) else (False, s))"

section \<open>The invariant of a semaphore\<close>

definition waiter_ok :: "'z wkern_scheme \<Rightarrow> wptr \<Rightarrow> bool" where
  "waiter_ok s w \<longleftrightarrow> (\<exists>p. w_proc (waits s w) = Some p \<and> p_state (procs s p) = PROC_SLEEPING \<and>
     p_wait_state (procs s p) = WT_KSEM)"

definition sem_inv :: "'z wkern_scheme \<Rightarrow> qptr \<Rightarrow> wptr list \<Rightarrow> bool" where
  "sem_inv s sem ws \<longleftrightarrow>
     wqueue s sem ws \<and> 0 \<le> sem_value s sem \<and> (ws \<noteq> [] \<longrightarrow> sem_value s sem = 0) \<and>
     (\<forall>w \<in> set ws. waiter_ok s w) \<and>
     (\<forall>v \<in> set ws. \<forall>w \<in> set ws. w_proc (waits s v) = w_proc (waits s w) \<longrightarrow> v = w)"

lemma up_idle:
  assumes "sem_inv s sem []"
  shows "up sem s = Some (s\<lparr>sem_value := (sem_value s)(sem := sem_value s sem + 1)\<rparr>)"
    and "sem_inv (s\<lparr>sem_value := (sem_value s)(sem := sem_value s sem + 1)\<rparr>) sem []"
  using assms wqueue_first [of s sem "[]"]
  by (simp_all add: sem_inv_def up_def up_raw_def wqueue_def)

lemma up_waiting:
  assumes inv: "sched_inv s xs" and sem: "sem_inv s sem (w # ws)"
  obtains s' ys p where "up sem s = Some s'" and "sched_inv s' ys" and "sem_inv s' sem ws"
    and "w_proc (waits s w) = Some p" and "p_state (procs s' p) = PROC_RUNNABLE"
    and "p = current s \<or> p = idleproc s \<or> p \<in> set ys"
    and "\<not> wait_in_queue w s'" and "w_wakeup_flags (waits s' w) = WT_KSEM"
    and "sem_value s' = sem_value s" and "current s' = current s" and "idleproc s' = idleproc s"
    and "\<And>q. q \<noteq> p \<Longrightarrow> p_state (procs s' q) = p_state (procs s q)"
proof -
  from sem obtain p where p: "w_proc (waits s w) = Some p" "p_state (procs s p) = PROC_SLEEPING"
    "p_wait_state (procs s p) = WT_KSEM" by (auto simp: sem_inv_def waiter_ok_def)
  have q: "wqueue s sem ([] @ w # ws)" using sem by (simp add: sem_inv_def)
  have z: "p_state (procs s p) \<noteq> PROC_ZOMBIE" using p by simp
  obtain s' ys where s': "wakeup_wait sem w WT_KSEM True s = Some s'" "sched_inv s' ys"
    "wqueue s' sem ([] @ ws)" "\<not> wait_in_queue w s'" "wake_frame {p} s s'"
    "waits s' = (waits s)(w := (waits s w)\<lparr>w_wakeup_flags := WT_KSEM\<rparr>)"
    "p = current s \<or> p = idleproc s \<or> p \<in> set ys \<or> p_state (procs s p) = PROC_RUNNABLE"
    by (rule wakeup_wait_del [OF inv q p(1) z])
  have up: "up sem s = Some s'"
    using s'(1) p wqueue_first [OF q] by (simp add: up_def up_raw_def)
  have "waiter_ok s' v" if "v \<in> set ws" for v
  proof -
    have "v \<noteq> w" using that wqueue_distinct [OF q] by auto
    moreover have "w_proc (waits s v) \<noteq> w_proc (waits s w)"
      using sem that \<open>v \<noteq> w\<close> by (auto simp: sem_inv_def)
    moreover have "waiter_ok s v" using sem that by (simp add: sem_inv_def)
    ultimately show ?thesis using s'(5) p(1) by (auto simp: waiter_ok_def wake_frame_def)
  qed
  then have "sem_inv s' sem ws"
    using sem s' by (auto simp: sem_inv_def wake_frame_def)
  then show ?thesis
    by (intro that [of s' ys p]) (use up s' p in \<open>auto simp: wake_frame_def\<close>)
qed

lemma down_free:
  assumes "sem_inv s sem ws" and "0 < sem_value s sem"
  shows "down sem w s = Some (True, s\<lparr>sem_value := (sem_value s)(sem := sem_value s sem - 1)\<rparr>)"
    and "sem_inv (s\<lparr>sem_value := (sem_value s)(sem := sem_value s sem - 1)\<rparr>) sem ws"
  using assms by (auto simp: sem_inv_def down_def down_begin_def wqueue_def waiter_ok_def)

lemma wqueue_wait_init: "wqueue s q ws \<Longrightarrow> w \<notin> set ws \<Longrightarrow> wqueue (wait_init w p s) q ws"
  using ring_init_other [of "wq_links s" "WHead q" "map WLink ws" "WLink w"]
  by (auto simp: wqueue_def wait_init_def)

text \<open>
  The two calls with which a process gives itself up, common to \<^verbatim>\<open>__down\<close> and to the device drivers:
  it sleeps at the end of the wait queue, and the next process runs.
\<close>

lemma sleep_current:
  fixes s :: "'z wkern_scheme"
  assumes inv: "sched_inv s xs" and q: "wqueue s q ws" and w: "w \<notin> set ws"
  obtains s1 s' where "wait_current_set q w flags s = Some s1" and "schedule s1 = Some s'" and "sched_inv s' (tl xs)"
    and "wqueue s' q (ws @ [w])" and "current s' = (case xs of [] \<Rightarrow> idleproc s | p # _ \<Rightarrow> p)" and "idleproc s' = idleproc s"
    and "p_state (procs s' (current s)) = PROC_SLEEPING" and "p_wait_state (procs s' (current s)) = flags"
    and "\<And>p. p \<noteq> current s \<Longrightarrow> p_state (procs s' p) = p_state (procs s p) \<and> p_wait_state (procs s' p) = p_wait_state (procs s p)"
    and "w_proc (waits s' w) = Some (current s)" and "\<And>v. v \<noteq> w \<Longrightarrow> waits s' v = waits s v"
    and "sem_value s' = sem_value s" and "wkern.more s' = wkern.more s"
proof -
  let ?c = "current s"
  define s2 where "s2 = upd_proc ?c (\<lambda>x. x\<lparr>p_state := PROC_SLEEPING, p_wait_state := flags\<rparr>)
    (wait_init w (Some ?c) s)"
  have q2: "wqueue s2 q ws"
    using wqueue_wait_init [OF q w] by (simp add: s2_def wqueue_def)
  have e2: "list_empty (wq_links s2) (WLink w)" "w_proc (waits s2 w) \<noteq> None"
    using clist.lempty_linit by (auto simp: s2_def wait_init_def)
  obtain s3 where s3: "wait_queue_add q w s2 = Some s3" "wqueue s3 q (ws @ [w])"
    "s3 = s2\<lparr>waits := (waits s2)(w := (waits s2 w)\<lparr>w_wait_queue := q\<rparr>),
             wq_links := list_add_before (WHead q) (WLink w) (wq_links s2)\<rparr>"
    by (rule wait_queue_add_wqueue [OF q2 w e2])
  have set: "wait_current_set q w flags s = Some s3"
    using s3(1) by (simp add: wait_current_set_def s2_def wait_init_def Let_def)
  have f3: "current s3 = ?c" "idleproc s3 = idleproc s" "sem_value s3 = sem_value s"
    "procs s3 = (procs s)(?c := (procs s ?c)\<lparr>p_state := PROC_SLEEPING, p_wait_state := flags\<rparr>)"
    "\<And>v. v \<noteq> w \<Longrightarrow> waits s3 v = waits s v" "w_proc (waits s3 w) = Some ?c" "wkern.more s3 = wkern.more s"
    by (simp_all add: s3(3) s2_def wait_init_def upd_proc_def)
  have "run_queue s3 xs = run_queue s xs"
    by (rule run_queue_cong) (auto simp: s3(3) s2_def wait_init_def)
  then have inv3: "sched_inv s3 xs" using inv by (auto simp: sched_inv_def f3)
  have cand: "sched_candidates s3 xs = xs" by (simp add: sched_candidates_def f3)
  obtain s' where s': "schedule s3 = Some s'" "current s' = sched_next s3 xs" "sched_inv s' (tl xs)" "idleproc s' = idleproc s3"
    "\<forall>q. p_state (procs s' q) = p_state (procs s3 q)"
    "\<forall>q. p_wait_state (procs s' q) = p_wait_state (procs s3 q)" "kern.more s' = kern.more s3"
    by (rule schedule_inv [OF inv3, unfolded cand]) blast
  note m = wkern_more_eq [OF s'(7)]
  have "wqueue s' q (ws @ [w])" using s3(2) by (simp add: wqueue_def m)
  then show ?thesis
    by (intro that [of s3 s'])
      (use set s' m f3 wkern_more_wkern_more [OF s'(7)] in \<open>auto simp: sched_next_def cand split: list.splits\<close>)
qed

lemma down_blocks:
  assumes inv: "sched_inv s xs" and sem: "sem_inv s sem ws" and v: "sem_value s sem = 0"
    and w: "w \<notin> set ws" and run: "p_state (procs s (current s)) = PROC_RUNNABLE"
  obtains s' where "down sem w s = Some (False, s')" and "sched_inv s' (tl xs)"
    and "sem_inv s' sem (ws @ [w])" and "w_proc (waits s' w) = Some (current s)"
    and "p_state (procs s' (current s)) = PROC_SLEEPING"
    and "current s' = (case xs of [] \<Rightarrow> idleproc s | p # _ \<Rightarrow> p)"
    and "sem_value s' = sem_value s"
    and "\<And>q. q \<noteq> current s \<Longrightarrow> p_state (procs s' q) = p_state (procs s q)"
proof -
  let ?c = "current s"
  have q: "wqueue s sem ws" using sem by (simp add: sem_inv_def)
  obtain s1 s' where s': "wait_current_set sem w WT_KSEM s = Some s1" "schedule s1 = Some s'" "sched_inv s' (tl xs)"
    "wqueue s' sem (ws @ [w])" "current s' = (case xs of [] \<Rightarrow> idleproc s | p # _ \<Rightarrow> p)"
    "p_state (procs s' ?c) = PROC_SLEEPING" "p_wait_state (procs s' ?c) = WT_KSEM"
    "\<forall>p. p \<noteq> ?c \<longrightarrow> p_state (procs s' p) = p_state (procs s p) \<and> p_wait_state (procs s' p) = p_wait_state (procs s p)"
    "w_proc (waits s' w) = Some ?c" "\<forall>v. v \<noteq> w \<longrightarrow> waits s' v = waits s v" "sem_value s' = sem_value s"
    by (rule sleep_current [OF inv q w, of WT_KSEM]) blast
  have np: "w_proc (waits s v) \<noteq> Some ?c" if "v \<in> set ws" for v
    using sem that run by (auto simp: sem_inv_def waiter_ok_def)
  have inj: "w_proc (waits s a) = w_proc (waits s b) \<Longrightarrow> a = b" if "a \<in> set ws" "b \<in> set ws" for a b
    using sem that unfolding sem_inv_def by blast
  have ok: "waiter_ok s' v" if "v \<in> set (ws @ [w])" for v
  proof (cases "v = w")
    case True
    then show ?thesis by (simp add: waiter_ok_def s')
  next
    case False
    with that sem have "waiter_ok s v" by (simp add: sem_inv_def)
    with np [of v] that False show ?thesis
      by (fastforce simp: waiter_ok_def s')
  qed
  have inj': "a = b" if ab: "a \<in> set (ws @ [w])" "b \<in> set (ws @ [w])"
    "w_proc (waits s' a) = w_proc (waits s' b)" for a b
  proof (cases "a = w \<or> b = w")
    case True
    with ab np [of a] np [of b] s'(9,10) show ?thesis
      by (cases "a = w"; cases "b = w") simp_all
  next
    case False
    then have "w_proc (waits s a) = w_proc (waits s b)" using ab(3) s'(10) by simp
    moreover from ab(1,2) False have "a \<in> set ws" "b \<in> set ws" by simp_all
    ultimately show ?thesis by (intro inj)
  qed
  have "sem_inv s' sem (ws @ [w])"
    unfolding sem_inv_def
  proof (intro conjI ballI impI)
    show "waiter_ok s' a" if "a \<in> set (ws @ [w])" for a using that by (rule ok)
    show "a = b" if "a \<in> set (ws @ [w])" "b \<in> set (ws @ [w])"
      "w_proc (waits s' a) = w_proc (waits s' b)" for a b using that by (rule inj')
  qed (simp_all add: s' v)
  then show ?thesis
    by (intro that [of s']) (use s' v in \<open>simp_all add: down_def down_begin_def\<close>)
qed

section \<open>The transition system of one semaphore\<close>

text \<open>
  A step is \<^verbatim>\<open>up\<close>, a \<^verbatim>\<open>down\<close> that passes, a \<^verbatim>\<open>down\<close> that blocks (with a
  \<^verbatim>\<open>wait_t\<close> not in the queue, on the caller's stack) or a \<^verbatim>\<open>try_down\<close>; the caller of
  each is the current process, which is running. \<open>u\<close> counts the units released, \<open>g\<close> the units
  granted: a waiter taken off the queue by \<^verbatim>\<open>up\<close> has its unit.
\<close>

inductive sem_run :: "qptr \<Rightarrow> wkern \<Rightarrow> wptr list \<Rightarrow> nat \<Rightarrow> nat \<Rightarrow> wkern \<Rightarrow> wptr list \<Rightarrow> bool"
  for sem :: qptr and s0 :: wkern and ws0 :: "wptr list" where
  start: "sem_run sem s0 ws0 0 0 s0 ws0"
| up_free: "sem_run sem s0 ws0 u g s [] \<Longrightarrow> up sem s = Some s' \<Longrightarrow> sem_run sem s0 ws0 (Suc u) g s' []"
| up_grant: "sem_run sem s0 ws0 u g s (w # ws) \<Longrightarrow> up sem s = Some s' \<Longrightarrow>
    sem_run sem s0 ws0 (Suc u) (Suc g) s' ws"
| down_pass: "sem_run sem s0 ws0 u g s ws \<Longrightarrow> down sem w s = Some (True, s') \<Longrightarrow>
    sem_run sem s0 ws0 u (Suc g) s' ws"
| down_block: "sem_run sem s0 ws0 u g s ws \<Longrightarrow> w \<notin> set ws \<Longrightarrow>
    p_state (procs s (current s)) = PROC_RUNNABLE \<Longrightarrow> down sem w s = Some (False, s') \<Longrightarrow>
    sem_run sem s0 ws0 u g s' (ws @ [w])"
| try_pass: "sem_run sem s0 ws0 u g s ws \<Longrightarrow> try_down sem s = (True, s') \<Longrightarrow>
    sem_run sem s0 ws0 u (Suc g) s' ws"
| try_fail: "sem_run sem s0 ws0 u g s ws \<Longrightarrow> try_down sem s = (False, s') \<Longrightarrow>
    sem_run sem s0 ws0 u g s' ws"

lemma down_result:
  "down sem w s = Some (True, s') \<Longrightarrow>
     0 < sem_value s sem \<and> s' = s\<lparr>sem_value := (sem_value s)(sem := sem_value s sem - 1)\<rparr>"
  "down sem w s = Some (False, s') \<Longrightarrow> sem_value s sem \<le> 0"
  by (auto simp: down_def down_begin_def bind_eq_Some_conv split: if_splits)

lemma sched_inv_sem_value: "sched_inv s xs \<Longrightarrow> sched_inv (s\<lparr>sem_value := f\<rparr>) xs"
proof -
  have "run_queue (s\<lparr>sem_value := f\<rparr>) xs = run_queue s xs" by (rule run_queue_cong) auto
  then show "sched_inv s xs \<Longrightarrow> ?thesis" by (simp add: sched_inv_def)
qed

lemma sem_run_inv:
  assumes "sem_run sem s0 ws0 u g s ws" and "\<exists>xs. sched_inv s0 xs" and "sem_inv s0 sem ws0"
  shows "(\<exists>xs. sched_inv s xs) \<and> sem_inv s sem ws \<and> sem_value s sem + int g = sem_value s0 sem + int u"
  using assms
proof (induction rule: sem_run.induct)
  case start
  then show ?case by simp
next
  case (up_free u g s s')
  then show ?case using up_idle [of s sem] by (auto intro: sched_inv_sem_value)
next
  case (up_grant u g s w ws s')
  then obtain xs where xs: "sched_inv s xs" and sem: "sem_inv s sem (w # ws)" by blast
  obtain s1 ys where "up sem s = Some s1" "sched_inv s1 ys" "sem_inv s1 sem ws" "sem_value s1 = sem_value s"
    by (rule up_waiting [OF xs sem])
  with up_grant show ?case by auto
next
  case (down_pass u g s ws w s')
  then show ?case using down_result(1) [OF down_pass.hyps(2)] down_free [of s sem ws]
    by (auto intro: sched_inv_sem_value)
next
  case (down_block u g s ws w s')
  then obtain xs where xs: "sched_inv s xs" and sem: "sem_inv s sem ws" by blast
  have "sem_value s sem = 0"
    using down_result(2) [OF down_block.hyps(4)] sem by (simp add: sem_inv_def)
  then obtain s1 where "down sem w s = Some (False, s1)" "sched_inv s1 (tl xs)" "sem_inv s1 sem (ws @ [w])"
    "sem_value s1 = sem_value s"
    by (rule down_blocks [OF xs sem _ down_block.hyps(2,3)])
  with down_block show ?case by auto
next
  case (try_pass u g s ws s')
  then have "0 < sem_value s sem" "s' = s\<lparr>sem_value := (sem_value s)(sem := sem_value s sem - 1)\<rparr>"
    by (auto simp: try_down_def split: if_splits)
  with try_pass show ?case using down_free [of s sem ws] by (auto intro: sched_inv_sem_value)
next
  case (try_fail u g s ws s')
  then show ?case by (auto simp: try_down_def split: if_splits)
qed

lemma demo_wait_sem: "sem_inv (upd_proc 5 (\<lambda>x. x\<lparr>p_wait_state := WT_KSEM\<rparr>)
    (upd_proc 6 (\<lambda>x. x\<lparr>p_wait_state := WT_KSEM\<rparr>) demo_wait)) 0 [1, 2]"
proof -
  have "w_proc (waits demo_wait w) = Some (w + 4)" "sem_value demo_wait 0 = 0" for w
    by (simp_all add: demo_wait_def kern.defs)
  then show ?thesis
    using demo_wait_queue
    by (auto simp: sem_inv_def wqueue_def waiter_ok_def demo_kern_def blank_proc_def)
qed

definition demo_sem :: wkern where
  "demo_sem = upd_proc 5 (\<lambda>x. x\<lparr>p_wait_state := WT_KSEM\<rparr>)
    (upd_proc 6 (\<lambda>x. x\<lparr>p_wait_state := WT_KSEM\<rparr>) demo_wait)"

lemma demo_sem_sched: "sched_inv demo_sem [1, 2]"
proof -
  have "run_queue demo_sem [1, 2] = run_queue demo_wait [1, 2]"
    by (simp add: demo_sem_def run_queue_upd_proc)
  with demo_wait_sched show ?thesis by (auto simp: sched_inv_def demo_sem_def)
qed

section \<open>Properties\<close>

text \<open>
  C36: Semaphores never lose or invent a unit. Over any sequence of \<^verbatim>\<open>up\<close>,
  \<^verbatim>\<open>down\<close> and \<^verbatim>\<open>try_down\<close>, the value plus the units granted is the initial value plus the
  units released; the value is never negative, is zero while anyone waits, and every waiter
  sleeps on the semaphore.\<close>
theorem sem_conserves_units:
  assumes "sem_run sem s0 ws0 u g s ws" and "sched_inv s0 xs" and "sem_inv s0 sem ws0"
  shows "sem_value s sem + int g = sem_value s0 sem + int u \<and> 0 \<le> sem_value s sem \<and>
    (ws \<noteq> [] \<longrightarrow> sem_value s sem = 0) \<and> wqueue s sem ws \<and> (\<forall>w \<in> set ws. waiter_ok s w)"
  using sem_run_inv [OF assms(1) _ assms(3)] assms(2) by (auto simp: sem_inv_def)

theorem sem_conserves_units_witness:
  "\<exists>s. sem_run 0 demo_sem [1, 2] 1 1 s [2] \<and> sem_value s 0 + int 1 = sem_value demo_sem 0 + int 1"
proof -
  have sem: "sem_inv demo_sem 0 [1, 2]" using demo_wait_sem by (simp add: demo_sem_def)
  obtain s where "up 0 demo_sem = Some s" by (rule up_waiting [OF demo_sem_sched sem])
  then have r: "sem_run 0 demo_sem [1, 2] (Suc 0) (Suc 0) s [2]"
    using sem_run.up_grant [OF sem_run.start [of 0 demo_sem "[1, 2]"]] by blast
  from sem_conserves_units [OF r demo_sem_sched sem] r show ?thesis by auto
qed

text \<open>
  C37: \<^verbatim>\<open>up\<close> with waiters hands the unit to the longest waiter: it never panics, the first
  waiter leaves the queue, its process is runnable and will be scheduled, the value is
  untouched, and when that process continues inside \<^verbatim>\<open>down\<close> its assertion holds.\<close>
theorem up_wakes_first:
  assumes "sched_inv s xs" and "sem_inv s sem (w # ws)"
  shows "\<exists>s' ys p. up sem s = Some s' \<and> sched_inv s' ys \<and> sem_inv s' sem ws \<and>
    w_proc (waits s w) = Some p \<and> p_state (procs s' p) = PROC_RUNNABLE \<and>
    (p = current s \<or> p = idleproc s \<or> p \<in> set ys) \<and> sem_value s' = sem_value s \<and>
    down_resume sem w s' = Some s'"
  by (rule up_waiting [OF assms])
    (auto simp: down_resume_def down_end_def wait_current_del_def intro!: exI)

theorem up_wakes_first_witness:
  "\<exists>s' ys p. up 0 demo_sem = Some s' \<and> sched_inv s' ys \<and> sem_inv s' 0 [2] \<and>
    w_proc (waits demo_sem 1) = Some p \<and> p_state (procs s' p) = PROC_RUNNABLE \<and>
    (p = current demo_sem \<or> p = idleproc demo_sem \<or> p \<in> set ys) \<and> sem_value s' = sem_value demo_sem \<and>
    down_resume 0 1 s' = Some s'"
proof (rule up_wakes_first)
  show "sched_inv demo_sem [1, 2]" by (rule demo_sem_sched)
  show "sem_inv demo_sem 0 [1, 2]" using demo_wait_sem by (simp add: demo_sem_def)
qed

text \<open>
  \<^verbatim>\<open>down\<close> on a semaphore without units puts the caller to sleep at the end of the
  wait queue and gives the processor to the next runnable process, or to the idle process.\<close>
theorem down_blocks_caller:
  assumes "sched_inv s xs" and "sem_inv s sem ws" and "sem_value s sem = 0" and "w \<notin> set ws"
    and "p_state (procs s (current s)) = PROC_RUNNABLE"
  shows "\<exists>s'. down sem w s = Some (False, s') \<and> sched_inv s' (tl xs) \<and> sem_inv s' sem (ws @ [w]) \<and>
    w_proc (waits s' w) = Some (current s) \<and> p_state (procs s' (current s)) = PROC_SLEEPING \<and>
    current s' = (case xs of [] \<Rightarrow> idleproc s | p # _ \<Rightarrow> p)"
  by (rule down_blocks [OF assms]) blast

theorem down_blocks_caller_witness:
  "\<exists>s'. down 0 9 demo_sem = Some (False, s') \<and> sched_inv s' (tl [1, 2]) \<and> sem_inv s' 0 ([1, 2] @ [9]) \<and>
    w_proc (waits s' 9) = Some (current demo_sem) \<and>
    p_state (procs s' (current demo_sem)) = PROC_SLEEPING \<and>
    current s' = (case [1, 2] of [] \<Rightarrow> idleproc demo_sem | p # _ \<Rightarrow> p)"
proof (rule down_blocks_caller)
  show "sched_inv demo_sem [1, 2]" by (rule demo_sem_sched)
  show "sem_inv demo_sem 0 [1, 2]" using demo_wait_sem by (simp add: demo_sem_def)
  show "sem_value demo_sem 0 = 0" "p_state (procs demo_sem (current demo_sem)) = PROC_RUNNABLE"
    by (simp_all add: demo_sem_def) (simp_all add: demo_wait_def kern.defs demo_kern_def blank_proc_def)
qed simp

end
