(* ===== verification/ProcTable.thy ===== *)
theory ProcTable
  imports Sem Klib
begin

text \<open>
  The process table of \<^verbatim>\<open>kern/process/proc.c\<close>: the list of all processes, the hash
  chains by pid, the family links, and the allocation of pids. \<open>PHead\<close> is the cell
  \<^verbatim>\<open>proc_list\<close>, \<open>PLink p\<close> the \<^verbatim>\<open>list_link\<close> of \<open>p\<close>; \<open>HHead b\<close> is \<^verbatim>\<open>hash_list[b]\<close> and
  \<open>HLink p\<close> the \<^verbatim>\<open>hash_link\<close> of \<open>p\<close>. The static variables of \<^verbatim>\<open>get_pid\<close> are fields of
  the state.
\<close>

datatype pcell = PHead | PLink pptr
datatype hcell = HHead nat | HLink pptr

record pkern = wkern +
  proc_links :: "pcell links"
  hash_links :: "hcell links"
  nr_process :: int
  next_safe :: int
  last_pid :: int

definition MAX_PROCESS :: int where "MAX_PROCESS = 4096"
definition MAX_PID :: int where "MAX_PID = MAX_PROCESS * 2"
definition HASH_SHIFT :: nat where "HASH_SHIFT = 10"

lemma upd_proc_pkern [simp]:
  "proc_links (upd_proc p f s) = proc_links s" "hash_links (upd_proc p f s) = hash_links s"
  "nr_process (upd_proc p f s) = nr_process s" "next_safe (upd_proc p f s) = next_safe s"
  "last_pid (upd_proc p f s) = last_pid s"
  by (simp_all add: upd_proc_def)

section \<open>Operations\<close>

definition pid_hashfn :: "int \<Rightarrow> nat" where
  "pid_hashfn x = unat (hash32 (word_of_int x) HASH_SHIFT)"

text \<open>
  The scan of \<^verbatim>\<open>get_pid\<close>: \<open>le\<close> is the cell last visited, and \<^verbatim>\<open>goto repeat\<close> goes back to
  the head.
\<close>

partial_function (option) get_pid_scan ::
  "pcell links \<Rightarrow> (pptr \<Rightarrow> int) \<Rightarrow> pcell \<Rightarrow> int \<Rightarrow> int \<Rightarrow> (int \<times> int) option" where
  "get_pid_scan h pid le lst safe =
     (case list_next h le of
        PHead \<Rightarrow> Some (lst, safe)
      | PLink p \<Rightarrow>
          if pid p = lst then
            if lst + 1 \<ge> safe
            then get_pid_scan h pid PHead (if lst + 1 \<ge> MAX_PID then 1 else lst + 1) MAX_PID
            else get_pid_scan h pid (PLink p) (lst + 1) safe
          else if pid p > lst \<and> safe > pid p then get_pid_scan h pid (PLink p) lst (pid p)
          else get_pid_scan h pid (PLink p) lst safe)"

definition get_pid :: "'z pkern_scheme \<Rightarrow> (int \<times> 'z pkern_scheme) option" where
  "get_pid s = do {
     let lst = last_pid s + 1;
     (lst', safe') \<leftarrow>
       (if lst \<ge> MAX_PID then get_pid_scan (proc_links s) (\<lambda>p. p_pid (procs s p)) PHead 1 MAX_PID
        else if lst \<ge> next_safe s then get_pid_scan (proc_links s) (\<lambda>p. p_pid (procs s p)) PHead lst MAX_PID
        else Some (lst, next_safe s));
     Some (lst', s\<lparr>last_pid := lst', next_safe := safe'\<rparr>)
   }"

definition hash_proc :: "pptr \<Rightarrow> 'z pkern_scheme \<Rightarrow> 'z pkern_scheme" where
  "hash_proc p s =
     s\<lparr>hash_links := list_add (HHead (pid_hashfn (p_pid (procs s p)))) (HLink p) (hash_links s)\<rparr>"

definition unhash_proc :: "pptr \<Rightarrow> 'z pkern_scheme \<Rightarrow> 'z pkern_scheme" where
  "unhash_proc p s = s\<lparr>hash_links := list_del (HLink p) (hash_links s)\<rparr>"

partial_function (option) find_proc_loop ::
  "hcell links \<Rightarrow> (pptr \<Rightarrow> int) \<Rightarrow> int \<Rightarrow> hcell \<Rightarrow> pptr option option" where
  "find_proc_loop h pidf pid le =
     (case list_next h le of
        HHead _ \<Rightarrow> Some None
      | HLink p \<Rightarrow> if pidf p = pid then Some (Some p) else find_proc_loop h pidf pid (HLink p))"

text \<open>The outer option: \<open>None\<close> would be a loop that never ends.\<close>

definition find_proc :: "int \<Rightarrow> 'z pkern_scheme \<Rightarrow> pptr option option" where
  "find_proc pid s =
     (if 0 < pid \<and> pid < MAX_PID
      then find_proc_loop (hash_links s) (\<lambda>p. p_pid (procs s p)) pid (HHead (pid_hashfn pid))
      else Some None)"

text \<open>The family links. \<^verbatim>\<open>proc->parent\<close> is read as a pointer: a null parent is a fault.\<close>

definition set_links :: "pptr \<Rightarrow> 'z pkern_scheme \<Rightarrow> 'z pkern_scheme kernel" where
  "set_links p s =
     (case p_parent (procs s p) of
        None \<Rightarrow> panic
      | Some par \<Rightarrow>
          let s1 = s\<lparr>proc_links := list_add PHead (PLink p) (proc_links s)\<rparr>;
              s2 = upd_proc p (\<lambda>x. x\<lparr>p_yptr := None\<rparr>) s1;
              s3 = upd_proc p (\<lambda>x. x\<lparr>p_optr := p_cptr (procs s2 par)\<rparr>) s2;
              s4 = (case p_optr (procs s3 p) of
                      None \<Rightarrow> s3 | Some q \<Rightarrow> upd_proc q (\<lambda>x. x\<lparr>p_yptr := Some p\<rparr>) s3);
              s5 = upd_proc par (\<lambda>x. x\<lparr>p_cptr := Some p\<rparr>) s4
          in Some (s5\<lparr>nr_process := nr_process s5 + 1\<rparr>))"

definition remove_links :: "pptr \<Rightarrow> 'z pkern_scheme \<Rightarrow> 'z pkern_scheme kernel" where
  "remove_links p s = do {
     let s1 = s\<lparr>proc_links := list_del (PLink p) (proc_links s)\<rparr>;
     let s2 = (case p_optr (procs s1 p) of
                 None \<Rightarrow> s1 | Some q \<Rightarrow> upd_proc q (\<lambda>x. x\<lparr>p_yptr := p_yptr (procs s1 p)\<rparr>) s1);
     s3 \<leftarrow> (case p_yptr (procs s2 p) of
               Some q \<Rightarrow> Some (upd_proc q (\<lambda>x. x\<lparr>p_optr := p_optr (procs s2 p)\<rparr>) s2)
             | None \<Rightarrow>
                 (case p_parent (procs s2 p) of
                    None \<Rightarrow> panic
                  | Some par \<Rightarrow> Some (upd_proc par (\<lambda>x. x\<lparr>p_cptr := p_optr (procs s2 p)\<rparr>) s2)));
     Some (s3\<lparr>nr_process := nr_process s3 - 1\<rparr>)
   }"

section \<open>Unique pids\<close>

text \<open>
  \<open>pid_safe P lst safe\<close>: no pid in use lies strictly between \<open>lst\<close> and \<open>safe\<close>. This is what the
  two static variables of \<^verbatim>\<open>get_pid\<close> promise between calls.
\<close>

definition pid_safe :: "int set \<Rightarrow> int \<Rightarrow> int \<Rightarrow> bool" where
  "pid_safe P lst safe \<longleftrightarrow> (\<forall>q \<in> P. lst < q \<longrightarrow> safe \<le> q)"

definition next_pid :: "int \<Rightarrow> int" where
  "next_pid x = (if x + 1 \<ge> MAX_PID then 1 else x + 1)"

lemma next_pid_range: "1 \<le> x \<Longrightarrow> x < MAX_PID \<Longrightarrow> 1 \<le> next_pid x \<and> next_pid x < MAX_PID"
  by (simp add: next_pid_def MAX_PID_def MAX_PROCESS_def)

lemma next_pid_funpow:
  assumes "1 \<le> x" and "x + int k < MAX_PID"
  shows "(next_pid ^^ k) x = x + int k"
  using assms by (induction k) (auto simp: next_pid_def)

lemma next_pid_reaches:
  assumes "1 \<le> x" "x < MAX_PID" "1 \<le> y" "y < MAX_PID"
  shows "\<exists>k. (next_pid ^^ k) x = y"
proof (cases "x \<le> y")
  case True
  then show ?thesis using next_pid_funpow [of x "nat (y - x)"] assms by auto
next
  case False
  let ?k = "nat (MAX_PID - 1 - x)"
  have e: "(next_pid ^^ ?k) x = MAX_PID - 1" using next_pid_funpow [of x ?k] assms by simp
  have "next_pid (MAX_PID - 1) = 1" by (simp add: next_pid_def)
  with e have one: "(next_pid ^^ Suc ?k) x = 1" by simp
  have "(next_pid ^^ nat (y - 1)) 1 = y" using next_pid_funpow [of 1 "nat (y - 1)"] assms by simp
  then have "(next_pid ^^ (nat (y - 1) + Suc ?k)) x = y" by (simp only: funpow_add o_apply one)
  then show ?thesis by blast
qed

text \<open>How far the next unused pid is.\<close>

definition pid_dist :: "int set \<Rightarrow> int \<Rightarrow> nat" where
  "pid_dist P x = (LEAST k. (next_pid ^^ k) x \<notin> P)"

lemma pid_dist_next:
  assumes ex: "\<exists>k. (next_pid ^^ k) x \<notin> P" and x: "x \<in> P"
  shows "pid_dist P (next_pid x) < pid_dist P x" and "\<exists>k. (next_pid ^^ k) (next_pid x) \<notin> P"
proof -
  let ?d = "pid_dist P x"
  have d: "(next_pid ^^ ?d) x \<notin> P" unfolding pid_dist_def by (rule LeastI_ex [OF ex])
  then obtain e where e: "?d = Suc e" using x by (cases ?d) auto
  with d have "(next_pid ^^ e) (next_pid x) \<notin> P" by (simp add: funpow_swap1)
  then have "pid_dist P (next_pid x) \<le> e" and "\<exists>k. (next_pid ^^ k) (next_pid x) \<notin> P"
    unfolding pid_dist_def by (auto intro: Least_le)
  with e show "pid_dist P (next_pid x) < ?d" "\<exists>k. (next_pid ^^ k) (next_pid x) \<notin> P" by auto
qed

text \<open>
  The scan visits the suffix \<open>vs\<close> of the list after the cells \<open>us\<close>; the invariant says
  what has been established for \<open>us\<close>.
\<close>

lemma get_pid_scan_correct:
  assumes r: "ring h PHead (map PLink (us @ vs))"
    and P: "P = pid ` set (us @ vs)"
    and ex: "\<exists>k. (next_pid ^^ k) lst \<notin> P"
    and rng: "1 \<le> lst" "lst < MAX_PID" "lst < safe" "safe \<le> MAX_PID"
    and us: "\<forall>q \<in> set us. pid q \<noteq> lst" "pid_safe (pid ` set us) lst safe"
  shows "\<exists>l s. get_pid_scan h pid (last (PHead # map PLink us)) lst safe = Some (l, s) \<and>
    l \<notin> P \<and> 1 \<le> l \<and> l < s \<and> s \<le> MAX_PID \<and> pid_safe P l s"
  using assms
proof (induction "(pid_dist P lst, length vs)" arbitrary: us vs lst safe
    rule: wf_induct_rule [OF wf_lex_prod [OF wf_less_than wf_less_than]])
  case (1 vs lst us safe)
  have nx: "list_next h (last (PHead # map PLink us)) = hd (map PLink vs @ [PHead])"
    using ring_next [of h PHead "map PLink us" "map PLink vs"] "1.prems"(1) by (simp only: map_append)
  show ?case
  proof (cases vs)
    case Nil
    then show ?thesis
      using "1.prems" nx by (subst get_pid_scan.simps) auto
  next
    case (Cons p ws)
    have r': "ring h PHead (map PLink ((us @ [p]) @ ws))" and P': "P = pid ` set ((us @ [p]) @ ws)"
      using "1.prems"(1,2) Cons by simp_all
    have lst': "last (PHead # map PLink (us @ [p])) = PLink p" by simp
    have pP: "pid p \<in> P" using P' by simp
    note step = get_pid_scan.simps [of h pid "last (PHead # map PLink us)" lst safe, unfolded nx]
    show ?thesis
    proof (cases "pid p = lst")
      case eq: True
      note d = pid_dist_next [OF "1.prems"(3), unfolded eq [symmetric], OF pP, unfolded eq]
      show ?thesis
      proof (cases "lst + 1 \<ge> safe")
        case True
        have "get_pid_scan h pid (last (PHead # map PLink us)) lst safe =
            get_pid_scan h pid (last (PHead # map PLink [])) (next_pid lst) MAX_PID"
          using step eq True Cons by (simp add: next_pid_def)
        moreover have "\<exists>l s. get_pid_scan h pid (last (PHead # map PLink [])) (next_pid lst) MAX_PID = Some (l, s) \<and>
            l \<notin> P \<and> 1 \<le> l \<and> l < s \<and> s \<le> MAX_PID \<and> pid_safe P l s"
          by (rule "1.hyps" [of "next_pid lst" "us @ vs" "[]" MAX_PID])
            (use d "1.prems" next_pid_range [of lst] in \<open>auto simp: pid_safe_def\<close>)
        ultimately show ?thesis by simp
      next
        case False
        then have np: "next_pid lst = lst + 1"
          using "1.prems"(7) by (simp add: next_pid_def)
        have "get_pid_scan h pid (last (PHead # map PLink us)) lst safe =
            get_pid_scan h pid (last (PHead # map PLink (us @ [p]))) (lst + 1) safe"
          using step eq False Cons by simp
        moreover have "\<exists>l s. get_pid_scan h pid (last (PHead # map PLink (us @ [p]))) (lst + 1) safe = Some (l, s) \<and>
            l \<notin> P \<and> 1 \<le> l \<and> l < s \<and> s \<le> MAX_PID \<and> pid_safe P l s"
        proof (rule "1.hyps" [of "lst + 1" ws "us @ [p]"])
          show "\<forall>q \<in> set (us @ [p]). pid q \<noteq> lst + 1"
            using "1.prems"(9) False eq by (fastforce simp: pid_safe_def)
          show "pid_safe (pid ` set (us @ [p])) (lst + 1) safe"
            using "1.prems"(9) eq by (auto simp: pid_safe_def)
        qed (use d np "1.prems" False r' P' in \<open>auto simp: \<close>)
        ultimately show ?thesis by simp
      qed
    next
      case ne: False
      let ?safe = "if pid p > lst \<and> safe > pid p then pid p else safe"
      have "get_pid_scan h pid (last (PHead # map PLink us)) lst safe =
          get_pid_scan h pid (last (PHead # map PLink (us @ [p]))) lst ?safe"
        using step ne Cons by simp
      moreover have "\<exists>l s. get_pid_scan h pid (last (PHead # map PLink (us @ [p]))) lst ?safe = Some (l, s) \<and>
          l \<notin> P \<and> 1 \<le> l \<and> l < s \<and> s \<le> MAX_PID \<and> pid_safe P l s"
      proof (rule "1.hyps" [of lst ws "us @ [p]"])
        show "pid_safe (pid ` set (us @ [p])) lst ?safe"
          using "1.prems"(9) by (fastforce simp: pid_safe_def)
      qed (use "1.prems" ne Cons r' P' in auto)
      ultimately show ?thesis by simp
    qed
  qed
qed

definition proc_pids :: "'z pkern_scheme \<Rightarrow> pptr list \<Rightarrow> int set" where
  "proc_pids s ps = (\<lambda>p. p_pid (procs s p)) ` set ps"

definition pid_state :: "'z pkern_scheme \<Rightarrow> pptr list \<Rightarrow> bool" where
  "pid_state s ps \<longleftrightarrow>
     ring (proc_links s) PHead (map PLink ps) \<and> 0 \<le> last_pid s \<and> next_safe s \<le> MAX_PID \<and>
     pid_safe (proc_pids s ps) (last_pid s) (next_safe s)"

lemma free_pid_exists:
  assumes "finite P" and "int (card P) < MAX_PID - 1"
  shows "\<exists>y. 1 \<le> y \<and> y < MAX_PID \<and> y \<notin> P"
proof (rule ccontr)
  assume "\<not> ?thesis"
  then have "{1..<MAX_PID} \<subseteq> P" by auto
  then have "card {1..<MAX_PID} \<le> card P" by (rule card_mono [OF assms(1)])
  with assms(2) show False by (simp add: MAX_PID_def MAX_PROCESS_def)
qed

lemma get_pid_correct:
  assumes st: "pid_state s ps" and len: "int (length ps) < MAX_PID - 1"
  obtains pid s' where "get_pid s = Some (pid, s')" and "pid \<notin> proc_pids s ps" and "1 \<le> pid"
    and "pid < MAX_PID" and "last_pid s' = pid" and "next_safe s' \<le> MAX_PID"
    and "pid_safe (insert pid (proc_pids s ps)) (last_pid s') (next_safe s')"
    and "s' = s\<lparr>last_pid := last_pid s', next_safe := next_safe s'\<rparr>"
proof -
  let ?P = "proc_pids s ps" and ?pid = "\<lambda>p. p_pid (procs s p)"
  have r: "ring (proc_links s) PHead (map PLink ([] @ ps))" using st by (simp add: pid_state_def)
  have card: "int (card ?P) < MAX_PID - 1"
    using len card_image_le [of "set ps" ?pid] card_length [of ps] by (simp add: proc_pids_def)
  then obtain y where y: "1 \<le> y" "y < MAX_PID" "y \<notin> ?P"
    using free_pid_exists [of ?P] by (auto simp: proc_pids_def)
  have scan: "\<exists>l sf. get_pid_scan (proc_links s) ?pid PHead x MAX_PID = Some (l, sf) \<and>
      l \<notin> ?P \<and> 1 \<le> l \<and> l < sf \<and> sf \<le> MAX_PID \<and> pid_safe ?P l sf" if "1 \<le> x" "x < MAX_PID" for x
  proof -
    have "\<exists>k. (next_pid ^^ k) x \<notin> ?P" using next_pid_reaches [OF that y(1,2)] y(3) by metis
    with get_pid_scan_correct [OF r, of ?P ?pid x MAX_PID] that show ?thesis
      by (simp add: proc_pids_def pid_safe_def)
  qed
  have "\<exists>l sf. get_pid s = Some (l, s\<lparr>last_pid := l, next_safe := sf\<rparr>) \<and>
      l \<notin> ?P \<and> 1 \<le> l \<and> l < sf \<and> sf \<le> MAX_PID \<and> pid_safe ?P l sf"
  proof (cases "last_pid s + 1 \<ge> MAX_PID")
    case True
    with scan [of 1] show ?thesis by (auto simp: get_pid_def Let_def MAX_PID_def MAX_PROCESS_def)
  next
    case False
    show ?thesis
    proof (cases "last_pid s + 1 \<ge> next_safe s")
      case True
      with False scan [of "last_pid s + 1"] st show ?thesis by (auto simp: get_pid_def Let_def pid_state_def)
    next
      case fast: False
      have g: "get_pid s = Some (last_pid s + 1, s\<lparr>last_pid := last_pid s + 1, next_safe := next_safe s\<rparr>)"
        using False fast by (simp add: get_pid_def Let_def)
      have "pid_safe ?P (last_pid s) (next_safe s)" "0 \<le> last_pid s" "next_safe s \<le> MAX_PID"
        using st by (simp_all add: pid_state_def)
      then have "last_pid s + 1 \<notin> ?P" "1 \<le> last_pid s + 1" "pid_safe ?P (last_pid s + 1) (next_safe s)"
        using fast by (force simp: pid_safe_def)+
      with g fast \<open>next_safe s \<le> MAX_PID\<close> show ?thesis
        by (intro exI [of _ "last_pid s + 1"] exI [of _ "next_safe s"]) simp
    qed
  qed
  then obtain l sf where g: "get_pid s = Some (l, s\<lparr>last_pid := l, next_safe := sf\<rparr>)"
    and l: "l \<notin> ?P" "1 \<le> l" "l < sf" "sf \<le> MAX_PID" "pid_safe ?P l sf" by blast
  show ?thesis
    by (rule that [OF g l(1,2)]) (use l in \<open>simp_all add: pid_safe_def\<close>)
qed

section \<open>The hash chains\<close>

definition hash_table :: "'z pkern_scheme \<Rightarrow> pptr set \<Rightarrow> (nat \<Rightarrow> pptr list) \<Rightarrow> bool" where
  "hash_table s hs B \<longleftrightarrow>
     (\<forall>b. ring (hash_links s) (HHead b) (map HLink (B b)) \<and>
          set (B b) = {p \<in> hs. pid_hashfn (p_pid (procs s p)) = b})"

lemma hash_table_cong:
  "hash_links s' = hash_links s \<Longrightarrow> (\<And>p. p \<in> hs \<Longrightarrow> p_pid (procs s' p) = p_pid (procs s p)) \<Longrightarrow>
   hash_table s' hs B = hash_table s hs B"
  by (auto simp: hash_table_def)

lemma pid_hashfn_bound: "pid_hashfn x < 1024"
  using hash32_bound [of HASH_SHIFT "word_of_int x"] by (simp add: pid_hashfn_def HASH_SHIFT_def)

lemma find_proc_loop_suffix:
  "ring h (HHead b) (map HLink (us @ vs)) \<Longrightarrow>
   find_proc_loop h pidf pid (last (HHead b # map HLink us)) = Some (find (\<lambda>p. pidf p = pid) vs)"
proof (induction vs arbitrary: us)
  case Nil
  then show ?case
    using ring_next [of h "HHead b" "map HLink us" "[]"]
    by (subst find_proc_loop.simps) (simp del: last.simps)
next
  case (Cons v vs)
  have nx: "list_next h (last (HHead b # map HLink us)) = HLink v"
    using ring_next [of h "HHead b" "map HLink us" "HLink v # map HLink vs"] Cons.prems
    by (simp del: last.simps)
  have "find_proc_loop h pidf pid (last (HHead b # map HLink (us @ [v]))) = Some (find (\<lambda>p. pidf p = pid) vs)"
    using Cons.prems by (intro Cons.IH) simp
  then have "find_proc_loop h pidf pid (HLink v) = Some (find (\<lambda>p. pidf p = pid) vs)" by simp
  with nx show ?case by (subst find_proc_loop.simps) simp
qed

lemma find_proc_table:
  assumes "hash_table s hs B"
  shows "find_proc pid s = Some (if 0 < pid \<and> pid < MAX_PID
    then find (\<lambda>p. p_pid (procs s p) = pid) (B (pid_hashfn pid)) else None)"
  using find_proc_loop_suffix [of "hash_links s" "pid_hashfn pid" "[]" "B (pid_hashfn pid)"] assms
  by (simp add: find_proc_def hash_table_def)

lemma find_proc_spec:
  assumes h: "hash_table s hs B"
  shows "\<exists>r. find_proc pid s = Some r \<and>
    (case r of Some p \<Rightarrow> p \<in> hs \<and> p_pid (procs s p) = pid \<and> 0 < pid \<and> pid < MAX_PID
             | None \<Rightarrow> 0 < pid \<and> pid < MAX_PID \<longrightarrow> (\<forall>p \<in> hs. p_pid (procs s p) \<noteq> pid))"
proof -
  have B: "set (B (pid_hashfn pid)) = {p \<in> hs. pid_hashfn (p_pid (procs s p)) = pid_hashfn pid}"
    using h by (simp add: hash_table_def)
  show ?thesis
    using find_proc_table [OF h, of pid] B
    by (auto simp: find_Some_iff find_None_iff split: option.splits if_splits)
qed

lemma hash_proc_table:
  assumes h: "hash_table s hs B" and p: "p \<notin> hs"
  defines "b \<equiv> pid_hashfn (p_pid (procs s p))"
  shows "hash_table (hash_proc p s) (insert p hs) (B(b := p # B b))"
proof -
  have r: "ring (hash_links s) (HHead b) (map HLink (B b))" using h by (simp add: hash_table_def)
  have np: "p \<notin> set (B c)" for c using h p by (auto simp: hash_table_def)
  have dis: "set (B c) \<inter> set (B b) = {}" if "c \<noteq> b" for c using h that by (auto simp: hash_table_def)
  let ?l = "list_add (HHead b) (HLink p) (hash_links s)"
  have "ring ?l (HHead b) (map HLink (p # B b))" using ring_push [OF r, of "HLink p"] np by auto
  moreover have "ring ?l (HHead c) (map HLink (B c))" if "c \<noteq> b" for c
    using ring_push_other [OF r, of "HHead c" "map HLink (B c)" "HLink p"] h that np dis [OF that]
    by (auto simp: hash_table_def)
  moreover have "hash_proc p s = s\<lparr>hash_links := ?l\<rparr>" by (simp add: hash_proc_def b_def)
  ultimately show ?thesis using h p by (auto simp: hash_table_def b_def)
qed

lemma unhash_proc_table:
  assumes h: "hash_table s hs B" and p: "p \<in> hs"
  obtains B' where "hash_table (unhash_proc p s) (hs - {p}) B'"
proof -
  let ?b = "pid_hashfn (p_pid (procs s p))"
  have "p \<in> set (B ?b)" using h p by (simp add: hash_table_def)
  then obtain us vs where b: "B ?b = us @ p # vs" by (meson split_list)
  have r: "ring (hash_links s) (HHead ?b) (map HLink us @ HLink p # map HLink vs)"
    using h b unfolding hash_table_def by (metis map_append list.simps(9))
  have np: "p \<notin> set us" "p \<notin> set vs" using ring_distinct [OF r] by auto
  have dis: "set (B c) \<inter> set (us @ p # vs) = {}" if "c \<noteq> ?b" for c
    using h that b unfolding hash_table_def by (metis (mono_tags, lifting) disjoint_iff mem_Collect_eq)
  let ?l = "list_del (HLink p) (hash_links s)" and ?B = "B(?b := us @ vs)"
  have "ring ?l (HHead ?b) (map HLink (us @ vs))" using ring_del [OF r] by simp
  moreover have "ring ?l (HHead c) (map HLink (B c))" if "c \<noteq> ?b" for c
    using ring_del_other [OF r, of "HHead c" "map HLink (B c)"] h that dis [OF that]
    by (auto simp: hash_table_def)
  moreover have "set (us @ vs) = {q \<in> hs - {p}. pid_hashfn (p_pid (procs s q)) = ?b}"
  proof -
    have "set (us @ p # vs) = {q \<in> hs. pid_hashfn (p_pid (procs s q)) = ?b}"
      using h unfolding hash_table_def b [symmetric] by blast
    with np show ?thesis by auto
  qed
  ultimately have "hash_table (unhash_proc p s) (hs - {p}) ?B"
    using h by (auto simp: hash_table_def unhash_proc_def)
  then show ?thesis by (rule that)
qed

section \<open>The family tree\<close>

text \<open>
  \<open>C par\<close> is the list of children of \<open>par\<close>, youngest first: \<^verbatim>\<open>cptr\<close> points at the first, \<^verbatim>\<open>optr\<close> at
  the next, \<^verbatim>\<open>yptr\<close> back.
\<close>

definition first_of :: "'a list \<Rightarrow> 'a option" where
  "first_of xs = (case xs of [] \<Rightarrow> None | x # _ \<Rightarrow> Some x)"

lemma first_of_simps [simp]: "first_of [] = None" "first_of (x # xs) = Some x"
  by (simp_all add: first_of_def)

fun sib_chain :: "(pptr \<Rightarrow> proc_struct) \<Rightarrow> pptr option \<Rightarrow> pptr list \<Rightarrow> bool" where
  "sib_chain f y [] \<longleftrightarrow> True"
| "sib_chain f y (c # cs) \<longleftrightarrow>
     p_yptr (f c) = y \<and> p_optr (f c) = first_of cs \<and> sib_chain f (Some c) cs"

definition family :: "'z pkern_scheme \<Rightarrow> (pptr \<Rightarrow> pptr list) \<Rightarrow> bool" where
  "family s C \<longleftrightarrow> (\<forall>par. p_cptr (procs s par) = first_of (C par) \<and> sib_chain (procs s) None (C par) \<and>
     distinct (C par) \<and> (\<forall>c \<in> set (C par). p_parent (procs s c) = Some par))"

lemma sib_chain_cong:
  "(\<And>c. c \<in> set cs \<Longrightarrow> p_yptr (f' c) = p_yptr (f c) \<and> p_optr (f' c) = p_optr (f c)) \<Longrightarrow>
   sib_chain f' y cs = sib_chain f y cs"
  by (induction cs arbitrary: y) auto

lemma family_disjoint: "family s C \<Longrightarrow> a \<noteq> b \<Longrightarrow> set (C a) \<inter> set (C b) = {}"
  unfolding family_def by (metis disjoint_iff option.inject)

lemma family_cong:
  assumes "\<And>p. p_cptr (procs s' p) = p_cptr (procs s p)" "\<And>p. p_yptr (procs s' p) = p_yptr (procs s p)"
    "\<And>p. p_optr (procs s' p) = p_optr (procs s p)" "\<And>p. p_parent (procs s' p) = p_parent (procs s p)"
  shows "family s' C = family s C"
proof -
  have "sib_chain (procs s') None (C par) = sib_chain (procs s) None (C par)" for par
    by (rule sib_chain_cong) (simp add: assms)
  then show ?thesis by (simp add: family_def assms)
qed

text \<open>
  \<open>pushed par p f f'\<close>: from \<open>f\<close> to \<open>f'\<close> the pointer assignments of \<^verbatim>\<open>set_links\<close> have been made,
  which \<^verbatim>\<open>do_exit\<close> repeats inline for \<^verbatim>\<open>initproc\<close>.
\<close>

definition pushed :: "pptr \<Rightarrow> pptr \<Rightarrow> (pptr \<Rightarrow> proc_struct) \<Rightarrow> (pptr \<Rightarrow> proc_struct) \<Rightarrow> bool" where
  "pushed par p f f' \<longleftrightarrow>
     (\<forall>x. p_cptr (f' x) = (if x = par then Some p else p_cptr (f x)) \<and>
          p_optr (f' x) = (if x = p then p_cptr (f par) else p_optr (f x)) \<and>
          p_yptr (f' x) = (if p_cptr (f par) = Some x then Some p else if x = p then None else p_yptr (f x)) \<and>
          p_parent (f' x) = (if x = p then Some par else p_parent (f x)) \<and>
          p_pid (f' x) = p_pid (f x) \<and> p_state (f' x) = p_state (f x) \<and> p_wait_state (f' x) = p_wait_state (f x) \<and>
          p_rq (f' x) = p_rq (f x) \<and> p_exit_code (f' x) = p_exit_code (f x))"

lemma pushedD:
  assumes "pushed par p f f'"
  shows "p_cptr (f' x) = (if x = par then Some p else p_cptr (f x))"
    and "p_optr (f' x) = (if x = p then p_cptr (f par) else p_optr (f x))"
    and "p_yptr (f' x) = (if p_cptr (f par) = Some x then Some p else if x = p then None else p_yptr (f x))"
    and "p_parent (f' x) = (if x = p then Some par else p_parent (f x))"
    and "p_pid (f' x) = p_pid (f x)" and "p_state (f' x) = p_state (f x)"
    and "p_wait_state (f' x) = p_wait_state (f x)" and "p_rq (f' x) = p_rq (f x)"
    and "p_exit_code (f' x) = p_exit_code (f x)"
  using assms by (simp_all add: pushed_def)

text \<open>
  \<open>family_y s C Y\<close> is the same with the younger-sibling pointer of the first child of \<open>q\<close> being
  \<open>Y q\<close>: while \<^verbatim>\<open>do_exit\<close> moves the children away, this pointer of the next child is stale.
\<close>

definition family_y :: "'z pkern_scheme \<Rightarrow> (pptr \<Rightarrow> pptr list) \<Rightarrow> (pptr \<Rightarrow> pptr option) \<Rightarrow> bool" where
  "family_y s C Y \<longleftrightarrow> (\<forall>par. p_cptr (procs s par) = first_of (C par) \<and> sib_chain (procs s) (Y par) (C par) \<and>
     distinct (C par) \<and> (\<forall>c \<in> set (C par). p_parent (procs s c) = Some par))"

lemma family_iff_y: "family s C \<longleftrightarrow> family_y s C (\<lambda>_. None)"
  by (simp add: family_def family_y_def)

lemma family_y_disjoint: "family_y s C Y \<Longrightarrow> a \<noteq> b \<Longrightarrow> set (C a) \<inter> set (C b) = {}"
  unfolding family_y_def by (metis disjoint_iff option.inject)

lemma family_y_pushed:
  assumes f: "family_y s C Y" and p: "\<And>q. p \<notin> set (C q)" and s': "pushed par p (procs s) (procs s')"
    and y: "Y par = None"
  shows "family_y s' (C(par := p # C par)) Y"
proof -
  let ?f = "procs s" and ?f' = "procs s'"
  note fields = pushedD [OF s']
  have cpar: "p_cptr (?f par) = first_of (C par)" and chain: "sib_chain ?f (Y q) (C q)" for q
    using f by (simp_all add: family_y_def)
  have par_list: "sib_chain ?f' None (p # C par)"
  proof (cases "C par")
    case Nil
    then show ?thesis by (simp add: fields cpar)
  next
    case (Cons c cs)
    have d: "c \<notin> set cs" "p \<noteq> c" "p \<notin> set cs" using f p [of par] Cons unfolding family_y_def
      by (metis distinct.simps(2), auto)
    have "sib_chain ?f' (Some c) cs = sib_chain ?f (Some c) cs"
      by (rule sib_chain_cong) (use d cpar Cons in \<open>auto simp: fields\<close>)
    with chain [of par] Cons d cpar show ?thesis by (simp add: fields)
  qed
  have other: "sib_chain ?f' (Y q) (C q)" if "q \<noteq> par" for q
  proof -
    have "c \<notin> set (C par)" if "c \<in> set (C q)" for c using family_y_disjoint [OF f \<open>q \<noteq> par\<close>] that by blast
    then have "sib_chain ?f' (Y q) (C q) = sib_chain ?f (Y q) (C q)"
      using p [of q] cpar by (intro sib_chain_cong) (auto simp: fields first_of_def split: list.splits)
    with chain show ?thesis by simp
  qed
  show ?thesis
    unfolding family_y_def using f p par_list other y
    by (auto simp: family_y_def fields)
qed

lemma family_pushed:
  assumes "family s C" and "\<And>q. p \<notin> set (C q)" and "pushed par p (procs s) (procs s')"
  shows "family s' (C(par := p # C par))"
  using family_y_pushed [of s C "\<lambda>_. None" p par s'] assms by (simp add: family_iff_y)

lemma set_links_pushed:
  assumes "p_parent (procs s p) = Some par" and "par \<noteq> p"
  obtains s' where "set_links p s = Some s'" and "pushed par p (procs s) (procs s')"
    and "proc_links s' = list_add PHead (PLink p) (proc_links s)" and "nr_process s' = nr_process s + 1"
    and "hash_links s' = hash_links s" and "last_pid s' = last_pid s" and "next_safe s' = next_safe s"
    and "run_links s' = run_links s" and "proc_num s' = proc_num s" and "rq s' = rq s"
    and "current s' = current s" and "idleproc s' = idleproc s" and "initproc s' = initproc s"
proof (cases "p_cptr (procs s par)")
  case None
  show ?thesis
    by (rule that [of "the (set_links p s)"]) (simp_all add: set_links_def Let_def assms None pushed_def)
next
  case (Some q)
  show ?thesis
    by (rule that [of "the (set_links p s)"]) (use assms Some in \<open>auto simp: set_links_def Let_def pushed_def\<close>)
qed

lemma sib_chain_remove:
  assumes "sib_chain f y (us @ p # vs)" and "distinct (us @ p # vs)"
    and "\<And>c. c \<in> set (us @ vs) \<Longrightarrow>
      p_yptr (f' c) = (if first_of vs = Some c then p_yptr (f p) else p_yptr (f c)) \<and>
      p_optr (f' c) = (if us \<noteq> [] \<and> c = last us then p_optr (f p) else p_optr (f c))"
  shows "sib_chain f' y (us @ vs)"
  using assms
proof (induction us arbitrary: y)
  case Nil
  show ?case
  proof (cases vs)
    case (Cons v ws)
    have "sib_chain f' (Some v) ws = sib_chain f (Some v) ws"
      by (rule sib_chain_cong) (use Nil Cons in auto)
    with Nil Cons show ?thesis by auto
  qed simp
next
  case (Cons u us)
  have ch: "sib_chain f y ((u # us) @ p # vs)" and d: "u \<notin> set us" using Cons.prems(1,2) by auto
  note eqs = conjunct2 [OF Cons.prems(3) [of u]]
  have "sib_chain f' (Some u) (us @ vs)"
  proof (rule Cons.IH)
    fix c assume c: "c \<in> set (us @ vs)"
    with Cons.prems(2) have "c \<noteq> u" by auto
    with Cons.prems(3) [of c] c show "p_yptr (f' c) = (if first_of vs = Some c then p_yptr (f p) else p_yptr (f c)) \<and>
      p_optr (f' c) = (if us \<noteq> [] \<and> c = last us then p_optr (f p) else p_optr (f c))" by auto
  qed (use Cons.prems in auto)
  moreover have "p_yptr (f' u) = y"
  proof -
    have "first_of vs \<noteq> Some u" using Cons.prems(2) by (cases vs) auto
    with Cons.prems(1) Cons.prems(3) [of u] show ?thesis by simp
  qed
  moreover have "p_optr (f' u) = first_of (us @ vs)"
  proof (cases us)
    case Nil
    with Cons.prems(1) Cons.prems(3) [of u] show ?thesis by simp
  next
    case (Cons w ws)
    then have "last us \<in> set us" by simp
    then have ul: "u \<noteq> last (u # us)" using d Cons by auto
    have "p_optr (f' u) = (if u # us \<noteq> [] \<and> u = last (u # us) then p_optr (f p) else p_optr (f u))"
      using eqs by simp
    also have "\<dots> = p_optr (f u)" using ul by simp
    also have "\<dots> = first_of (us @ vs)" using ch Cons by simp
    finally show ?thesis .
  qed
  ultimately show ?case by simp
qed

lemma sib_chain_links:
  "sib_chain f y (us @ p # vs) \<Longrightarrow>
     p_yptr (f p) = (if us = [] then y else Some (last us)) \<and> p_optr (f p) = first_of vs"
proof (induction us arbitrary: y)
  case (Cons u us)
  then have "sib_chain f (Some u) (us @ p # vs)" by simp
  from Cons.IH [OF this] show ?case by simp
qed simp

lemma remove_links_family:
  assumes fam: "family s C" and c: "C par = us @ p # vs"
  obtains s' where "remove_links p s = Some s'" and "family s' (C(par := us @ vs))"
    and "proc_links s' = list_del (PLink p) (proc_links s)" and "nr_process s' = nr_process s - 1"
    and "\<And>q. p_pid (procs s' q) = p_pid (procs s q)" and "hash_links s' = hash_links s"
    and "last_pid s' = last_pid s" and "next_safe s' = next_safe s"
proof -
  let ?f = "procs s"
  have chain: "sib_chain ?f None (us @ p # vs)" and dist: "distinct (us @ p # vs)"
    and par: "\<forall>c \<in> set (us @ p # vs). p_parent (?f c) = Some par" and cp: "p_cptr (?f par) = first_of (us @ p # vs)"
    using fam c unfolding family_def by (metis)+
  have links: "p_yptr (?f p) = (if us = [] then None else Some (last us))" "p_optr (?f p) = first_of vs"
    using sib_chain_links [OF chain] by simp_all
  have ov: "p_optr (?f p) = Some q \<Longrightarrow> q \<noteq> p" "p_yptr (?f p) = Some q \<Longrightarrow> q \<noteq> p" for q
    using links dist by (auto simp: first_of_def split: if_splits list.splits)
  obtain s' where s': "remove_links p s = Some s'"
    "\<And>x. p_yptr (procs s' x) = (if p_optr (?f p) = Some x then p_yptr (?f p) else p_yptr (?f x))"
    "\<And>x. p_optr (procs s' x) = (if p_yptr (?f p) = Some x then p_optr (?f p) else p_optr (?f x))"
    "\<And>x. p_cptr (procs s' x) = (if p_yptr (?f p) = None \<and> x = par then p_optr (?f p) else p_cptr (?f x))"
    "\<And>x. p_parent (procs s' x) = p_parent (?f x)" "\<And>x. p_pid (procs s' x) = p_pid (?f x)"
    "proc_links s' = list_del (PLink p) (proc_links s)" "nr_process s' = nr_process s - 1"
    "hash_links s' = hash_links s" "last_pid s' = last_pid s" "next_safe s' = next_safe s"
  proof -
    have pp: "p_parent (?f p) = Some par" using par by simp
    show ?thesis
    proof (cases "p_optr (?f p)"; cases "p_yptr (?f p)")
      assume "p_optr (?f p) = None" "p_yptr (?f p) = None"
      then show ?thesis using pp
        by (intro that [of "the (remove_links p s)"]) (simp_all add: remove_links_def Let_def)
    next
      fix y assume "p_optr (?f p) = None" "p_yptr (?f p) = Some y"
      then show ?thesis using pp ov
        by (intro that [of "the (remove_links p s)"]) (simp_all add: remove_links_def Let_def)
    next
      fix o' assume "p_optr (?f p) = Some o'" "p_yptr (?f p) = None"
      then show ?thesis using pp ov
        by (intro that [of "the (remove_links p s)"]) (simp_all add: remove_links_def Let_def)
    next
      fix o' y assume "p_optr (?f p) = Some o'" "p_yptr (?f p) = Some y"
      then show ?thesis using pp ov
        by (intro that [of "the (remove_links p s)"]) (simp_all add: remove_links_def Let_def)
    qed
  qed
  have "sib_chain (procs s') None (us @ vs)"
    by (rule sib_chain_remove [OF chain dist]) (auto simp: s' links)
  moreover have "sib_chain (procs s') None (C q)" if "q \<noteq> par" for q
  proof -
    have "x \<notin> set (us @ p # vs)" if "x \<in> set (C q)" for x
      using family_disjoint [OF fam \<open>q \<noteq> par\<close>] that unfolding c by blast
    moreover have "p_optr (?f p) = Some x \<Longrightarrow> x \<in> set vs" "p_yptr (?f p) = Some x \<Longrightarrow> x \<in> set us" for x
      using links by (auto simp: first_of_def split: list.splits if_splits)
    ultimately have "sib_chain (procs s') None (C q) = sib_chain ?f None (C q)"
      by (intro sib_chain_cong) (auto simp: s'(2,3))
    with fam show ?thesis by (simp add: family_def)
  qed
  moreover have "p_cptr (procs s' par) = first_of (us @ vs)"
    using cp by (cases us) (auto simp: s' links)
  ultimately have "family s' (C(par := us @ vs))"
    using fam dist par by (auto simp: family_def s' links split: if_splits)
  with s' that show ?thesis by blast
qed

section \<open>A small process table, for closed instances\<close>

text \<open>Processes 5 and 6 have the pids 5 and 6 and are children of 3.\<close>

definition demo_proc :: "pptr \<Rightarrow> proc_struct" where
  "demo_proc p = (procs demo_kern p)\<lparr>p_pid := int p,
     p_parent := (if p = 5 \<or> p = 6 then Some 3 else None), p_cptr := (if p = 3 then Some 6 else None),
     p_optr := (if p = 6 then Some 5 else None), p_yptr := (if p = 5 then Some 6 else None)\<rparr>"

definition demo_table :: pkern where
  "demo_table = (wkern.extend demo_wait
     \<lparr>proc_links = list_add PHead (PLink 6) (list_add PHead (PLink 5) self_links),
      hash_links = list_add (HHead (pid_hashfn 6)) (HLink 6) (list_add (HHead (pid_hashfn 5)) (HLink 5) self_links),
      nr_process = 3, next_safe = 5, last_pid = 4\<rparr>)\<lparr>procs := demo_proc\<rparr>"

lemma demo_table_simps [simp]:
  "procs demo_table = demo_proc" "next_safe demo_table = 5" "last_pid demo_table = 4"
  "current demo_table = 3" "idleproc demo_table = 0"
  by (simp_all add: demo_table_def wkern.defs demo_wait_def kern.defs demo_kern_def)

lemma demo_table_pids: "pid_state demo_table [6, 5]"
proof -
  have "ring self_links PHead []" by (simp add: ring_def linked_def self_links_def)
  from ring_push [OF this, of "PLink 5"] have "ring (list_add PHead (PLink 5) self_links) PHead [PLink 5]" by simp
  from ring_push [OF this, of "PLink 6"] have "ring (proc_links demo_table) PHead [PLink 6, PLink 5]"
    by (simp add: demo_table_def wkern.defs)
  then show ?thesis
    by (simp add: pid_state_def pid_safe_def proc_pids_def demo_proc_def MAX_PID_def MAX_PROCESS_def)
qed

lemma ring_self_links: "ring self_links c []"
  by (simp add: ring_def linked_def self_links_def)

definition blank_table :: pkern where
  "blank_table = demo_table\<lparr>hash_links := self_links\<rparr>"

lemma demo_table_hash: "\<exists>B. hash_table demo_table {5, 6} B"
proof -
  have "hash_table blank_table {} (\<lambda>_. [])" by (simp add: hash_table_def blank_table_def ring_self_links)
  from hash_proc_table [OF this, of 5] obtain B where "hash_table (hash_proc 5 blank_table) {5} B" by auto
  from hash_proc_table [OF this, of 6] obtain B' where "hash_table (hash_proc 6 (hash_proc 5 blank_table)) {6, 5} B'" by auto
  moreover have "hash_proc 6 (hash_proc 5 blank_table) = demo_table"
    by (simp add: hash_proc_def blank_table_def demo_table_def wkern.defs demo_proc_def)
  ultimately show ?thesis by (auto simp: insert_commute)
qed

lemma demo_table_family: "family demo_table (\<lambda>p. if p = 3 then [6, 5] else [])"
  by (auto simp: family_def demo_proc_def)

section \<open>Properties\<close>

text \<open>
  C27: \<^verbatim>\<open>get_pid\<close> always ends and returns an unused pid. While fewer than 8191 processes
  exist, from static variables that satisfy their invariant it returns a pid between 1 and
  \<^verbatim>\<open>MAX_PID\<close> - 1 that no listed process has, and the invariant holds again when the pid has been
  given out.\<close>
theorem get_pid_unique:
  assumes "pid_state s ps" and "int (length ps) < MAX_PID - 1"
  shows "\<exists>pid s'. get_pid s = Some (pid, s') \<and> pid \<notin> proc_pids s ps \<and> 1 \<le> pid \<and> pid < MAX_PID \<and>
    pid_safe (insert pid (proc_pids s ps)) (last_pid s') (next_safe s') \<and> next_safe s' \<le> MAX_PID \<and>
    proc_links s' = proc_links s \<and> procs s' = procs s"
proof (rule get_pid_correct [OF assms])
  fix pid s' assume "get_pid s = Some (pid, s')" "pid \<notin> proc_pids s ps" "1 \<le> pid" "pid < MAX_PID"
    "next_safe s' \<le> MAX_PID" "pid_safe (insert pid (proc_pids s ps)) (last_pid s') (next_safe s')"
    and e: "s' = s\<lparr>last_pid := last_pid s', next_safe := next_safe s'\<rparr>"
  moreover have "proc_links s' = proc_links s" "procs s' = procs s"
    using arg_cong [OF e, of proc_links] arg_cong [OF e, of procs] by simp_all
  ultimately show ?thesis by blast
qed

theorem get_pid_unique_witness:
  "\<exists>pid s'. get_pid demo_table = Some (pid, s') \<and> pid \<notin> {6, 5} \<and> 1 \<le> pid \<and> pid < MAX_PID"
  using get_pid_unique [OF demo_table_pids]
  by (auto simp: proc_pids_def demo_proc_def MAX_PID_def MAX_PROCESS_def)

text \<open>
  \<^verbatim>\<open>find_proc\<close> ends and is exact: for a pid in range it returns a hashed process with that
  pid, or \<^verbatim>\<open>NULL\<close> when there is none; \<^verbatim>\<open>hash_proc\<close> makes a process findable and
  \<^verbatim>\<open>unhash_proc\<close> removes just that process.\<close>
theorem find_proc_exact:
  assumes "hash_table s hs B"
  shows "(\<exists>r. find_proc pid s = Some r \<and>
      (case r of Some p \<Rightarrow> p \<in> hs \<and> p_pid (procs s p) = pid \<and> 0 < pid \<and> pid < MAX_PID
               | None \<Rightarrow> 0 < pid \<and> pid < MAX_PID \<longrightarrow> (\<forall>p \<in> hs. p_pid (procs s p) \<noteq> pid))) \<and>
    (p \<notin> hs \<longrightarrow> (\<exists>B'. hash_table (hash_proc p s) (insert p hs) B')) \<and>
    (p \<in> hs \<longrightarrow> (\<exists>B'. hash_table (unhash_proc p s) (hs - {p}) B'))"
  using find_proc_spec [OF assms, of pid] hash_proc_table [OF assms, of p] unhash_proc_table [OF assms, of p]
  by blast

theorem find_proc_exact_witness:
  "\<exists>p. find_proc 6 demo_table = Some (Some p) \<and> p \<in> {5, 6} \<and> p_pid (procs demo_table p) = 6"
proof -
  obtain B where "hash_table demo_table {5, 6} B" using demo_table_hash by blast
  from find_proc_exact [OF this, of 6 5] show ?thesis
    by (auto simp: MAX_PID_def MAX_PROCESS_def demo_proc_def split: option.splits)
qed

text \<open>
  C28: \<^verbatim>\<open>set_links\<close> makes a process the youngest child of its parent, \<^verbatim>\<open>remove_links\<close> takes any
  child out of the sibling list, and both keep every other family list and the process count
  consistent.\<close>
theorem family_links_correct:
  assumes "family s C"
  shows "((\<forall>q. p \<notin> set (C q)) \<and> p_parent (procs s p) = Some par \<and> par \<noteq> p \<longrightarrow>
      (\<exists>s'. set_links p s = Some s' \<and> family s' (C(par := p # C par)) \<and> nr_process s' = nr_process s + 1)) \<and>
    (C par = us @ p # vs \<longrightarrow>
      (\<exists>s'. remove_links p s = Some s' \<and> family s' (C(par := us @ vs)) \<and> nr_process s' = nr_process s - 1))"
proof (intro conjI impI)
  assume p: "(\<forall>q. p \<notin> set (C q)) \<and> p_parent (procs s p) = Some par \<and> par \<noteq> p"
  then obtain s' where "set_links p s = Some s'" "pushed par p (procs s) (procs s')" "nr_process s' = nr_process s + 1"
    by (metis set_links_pushed)
  with family_pushed [OF assms, of p par s'] p show "\<exists>s'. set_links p s = Some s' \<and> family s' (C(par := p # C par)) \<and>
      nr_process s' = nr_process s + 1" by blast
next
  assume "C par = us @ p # vs"
  then show "\<exists>s'. remove_links p s = Some s' \<and> family s' (C(par := us @ vs)) \<and> nr_process s' = nr_process s - 1"
    by (metis remove_links_family [OF assms])
qed

theorem family_links_correct_witness:
  "\<exists>s'. remove_links 5 demo_table = Some s' \<and> family s' ((\<lambda>p. if p = 3 then [6, 5] else [])(3 := [6])) \<and>
     nr_process s' = nr_process demo_table - 1"
  using family_links_correct [OF demo_table_family, of 5 3 "[6]" "[]"] by simp

end
