(* ===== verification/Timer.thy ===== *)
theory Timer
  imports Sched
begin

text \<open>
  The kernel timers of \<^verbatim>\<open>kern/schedule/sched.h\<close> and \<^verbatim>\<open>sched.c\<close>: a list in which
  each timer holds the ticks that remain after its predecessor has expired. The abstraction
  \<open>deadlines\<close> turns these differences into absolute times, on which adding is a sorted insertion,
  deleting a filter, and a clock tick a decrement; the three operations are shown to
  refine exactly that. Expiry counts are naturals: C's are 32-bit and unsigned, and the
  refinement shows that no subtraction goes below zero and no sum exceeds an absolute
  deadline, which is itself the argument of some \<^verbatim>\<open>add_timer\<close>.
\<close>

section \<open>The operations\<close>

definition upd_timer :: "tptr \<Rightarrow> (timer \<Rightarrow> timer) \<Rightarrow> 'z kern_scheme \<Rightarrow> 'z kern_scheme" where
  "upd_timer t f s = s\<lparr>timers := (timers s)(t := f (timers s t))\<rparr>"

abbreviation expires :: "'z kern_scheme \<Rightarrow> tptr \<Rightarrow> nat" where
  "expires s t \<equiv> t_expires (timers s t)"

definition timer_init :: "tptr \<Rightarrow> pptr \<Rightarrow> nat \<Rightarrow> 'z kern_scheme \<Rightarrow> 'z kern_scheme" where
  "timer_init t p n s =
     (let s1 = upd_timer t (\<lambda>x. x\<lparr>t_expires := n, t_proc := Some p\<rparr>) s
      in s1\<lparr>timer_links := list_init (Some t) (timer_links s1)\<rparr>)"

partial_function (option) add_timer_loop ::
  "tptr \<Rightarrow> tptr option \<Rightarrow> 'z kern_scheme \<Rightarrow> (tptr option \<times> 'z kern_scheme) option" where
  "add_timer_loop t le s =
     (case le of
        None \<Rightarrow> Some (None, s)
      | Some n \<Rightarrow>
          if expires s t < expires s n
          then Some (Some n, upd_timer n (\<lambda>x. x\<lparr>t_expires := t_expires x - expires s t\<rparr>) s)
          else let s1 = upd_timer t (\<lambda>x. x\<lparr>t_expires := t_expires x - expires s n\<rparr>) s
               in add_timer_loop t (list_next (timer_links s1) (Some n)) s1)"

definition add_timer :: "tptr \<Rightarrow> 'z kern_scheme \<Rightarrow> 'z kern_scheme kernel" where
  "add_timer t s = do {
     kassert (0 < expires s t \<and> t_proc (timers s t) \<noteq> None);
     kassert (list_empty (timer_links s) (Some t));
     (le, s1) \<leftarrow> add_timer_loop t (list_next (timer_links s) None) s;
     Some (s1\<lparr>timer_links := list_add_before le (Some t) (timer_links s1)\<rparr>)
   }"

definition del_timer :: "tptr \<Rightarrow> 'z kern_scheme \<Rightarrow> 'z kern_scheme" where
  "del_timer t s =
     (if \<not> list_empty (timer_links s) (Some t) then
        let s1 = (if expires s t \<noteq> 0 then
                    (case list_next (timer_links s) (Some t) of
                       None \<Rightarrow> s
                     | Some n \<Rightarrow> upd_timer n (\<lambda>x. x\<lparr>t_expires := t_expires x + expires s t\<rparr>) s)
                  else s)
        in s1\<lparr>timer_links := list_del_init (Some t) (timer_links s1)\<rparr>
      else s)"

partial_function (option) run_timer_loop :: "tptr \<Rightarrow> 'z kern_scheme \<Rightarrow> 'z kern_scheme option" where
  "run_timer_loop t s =
     (if expires s t = 0 then do {
        let le = list_next (timer_links s) (Some t);
        p \<leftarrow> t_proc (timers s t);
        kassert (p_wait_state (procs s p) \<noteq> 0 \<longrightarrow> p_wait_state (procs s p) AND WT_INTERRUPTED \<noteq> 0);
        s1 \<leftarrow> wakeup_proc p s;
        let s2 = del_timer t s1;
        (case le of None \<Rightarrow> Some s2 | Some t' \<Rightarrow> run_timer_loop t' s2)
      }
      else Some s)"

definition run_timer_list :: "'z kern_scheme \<Rightarrow> 'z kern_scheme kernel" where
  "run_timer_list s = do {
     s1 \<leftarrow> (case list_next (timer_links s) None of
              None \<Rightarrow> Some s
            | Some t \<Rightarrow> do {
                kassert (expires s t \<noteq> 0);
                run_timer_loop t (upd_timer t (\<lambda>x. x\<lparr>t_expires := t_expires x - 1\<rparr>) s)
              });
     Some (sched_class_proc_tick (current s1) s1)
   }"

section \<open>Deadlines\<close>

fun deadlines :: "(tptr \<Rightarrow> nat) \<Rightarrow> nat \<Rightarrow> tptr list \<Rightarrow> (tptr \<times> nat) list" where
  "deadlines ex acc [] = []"
| "deadlines ex acc (t # ts) = (t, acc + ex t) # deadlines ex (acc + ex t) ts"

fun insert_deadline :: "tptr \<Rightarrow> nat \<Rightarrow> (tptr \<times> nat) list \<Rightarrow> (tptr \<times> nat) list" where
  "insert_deadline t e [] = [(t, e)]"
| "insert_deadline t e ((u, d) # ds) =
     (if e < d then (t, e) # (u, d) # ds else (u, d) # insert_deadline t e ds)"

lemma map_fst_deadlines [simp]: "map fst (deadlines ex acc ts) = ts"
  by (induction ts arbitrary: acc) simp_all

lemma set_deadlines: "fst ` set (deadlines ex acc ts) = set ts"
  by (metis list.set_map map_fst_deadlines)

lemma deadlines_cong:
  "(\<And>u. u \<in> set ts \<Longrightarrow> ex' u = ex u) \<Longrightarrow> deadlines ex' acc ts = deadlines ex acc ts"
  by (induction ts arbitrary: acc) simp_all

lemma deadlines_append:
  "deadlines ex acc (us @ vs) = deadlines ex acc us @ deadlines ex (acc + sum_list (map ex us)) vs"
  by (induction us arbitrary: acc) (simp_all add: add.assoc)

lemma deadlines_ge: "(u, d) \<in> set (deadlines ex acc ts) \<Longrightarrow> acc \<le> d"
  by (induction ts arbitrary: acc) force+

lemma deadlines_sorted: "sorted (map snd (deadlines ex acc ts))"
proof (induction ts arbitrary: acc)
  case Nil
  then show ?case by simp
next
  case (Cons t ts)
  then show ?case using deadlines_ge by fastforce
qed

lemma set_insert_deadline: "set (insert_deadline t e ds) = insert (t, e) (set ds)"
  by (induction t e ds rule: insert_deadline.induct) auto

lemma deadlines_fst_notin: "u \<notin> set ts \<Longrightarrow> filter (\<lambda>(v, d). v \<noteq> u) (deadlines ex acc ts) = deadlines ex acc ts"
  by (induction ts arbitrary: acc) auto

section \<open>The timer list of a state\<close>

definition timer_queue :: "'z kern_scheme \<Rightarrow> tptr list \<Rightarrow> bool" where
  "timer_queue s ts \<longleftrightarrow>
     ring (timer_links s) None (map Some ts) \<and>
     (\<forall>t. t \<notin> set ts \<longrightarrow> list_empty (timer_links s) (Some t)) \<and>
     (\<forall>t \<in> set ts. t_proc (timers s t) \<noteq> None)"

text \<open>All deadlines lie in the future: so the first difference is positive.\<close>

definition timer_inv :: "'z kern_scheme \<Rightarrow> tptr list \<Rightarrow> bool" where
  "timer_inv s ts \<longleftrightarrow> timer_queue s ts \<and> (\<forall>(t, d) \<in> set (deadlines (expires s) 0 ts). 0 < d)"

lemma timer_queue_distinct: "timer_queue s ts \<Longrightarrow> distinct ts"
  by (auto simp: timer_queue_def dest!: ring_distinct simp: distinct_map)

lemma upd_timer_simps [simp]:
  "timers (upd_timer t f s) = (timers s)(t := f (timers s t))"
  "timer_links (upd_timer t f s) = timer_links s"
  "procs (upd_timer t f s) = procs s" "current (upd_timer t f s) = current s"
  "idleproc (upd_timer t f s) = idleproc s" "run_links (upd_timer t f s) = run_links s"
  "proc_num (upd_timer t f s) = proc_num s" "rq (upd_timer t f s) = rq s"
  by (simp_all add: upd_timer_def)

lemma timer_queue_empty_iff: "timer_queue s ts \<Longrightarrow> list_empty (timer_links s) (Some t) \<longleftrightarrow> t \<notin> set ts"
  using clist.lempty_member [of "timer_links s" None "map Some ts" "Some t"]
  by (auto simp: timer_queue_def)

section \<open>add\_timer is a sorted insertion\<close>

lemma list_empty_add_between:
  assumes r: "ring h c (us @ vs)" and "x \<notin> set (e # c # us @ vs)"
  shows "list_empty (list_add_before (hd (vs @ [c])) e h) x = list_empty h x"
proof -
  have "le_prev h (hd (vs @ [c])) \<in> set (c # us @ vs)" "hd (vs @ [c]) \<in> set (c # us @ vs)"
    using ring_prev [OF r] ring_links_in [OF r] by (simp_all add: list_prev_def)
  with assms(2) show ?thesis
    by (auto simp: list_empty_def list_add_before_def list_add_raw_def Let_def)
qed

lemma add_timer_loop_correct:
  assumes "ring (timer_links s) None (map Some (us @ vs))" and "t \<notin> set (us @ vs)"
  shows "\<exists>vs1 vs2 T. vs = vs1 @ vs2 \<and>
    add_timer_loop t (hd (map Some vs @ [None])) s = Some (hd (map Some vs2 @ [None]), s\<lparr>timers := T\<rparr>) \<and>
    (\<forall>acc. deadlines (t_expires \<circ> T) acc (vs1 @ t # vs2) =
           insert_deadline t (acc + expires s t) (deadlines (expires s) acc vs)) \<and>
    (\<forall>u. u \<notin> set (t # vs) \<longrightarrow> T u = timers s u) \<and>
    (\<forall>u. t_proc (T u) = t_proc (timers s u))"
  using assms
proof (induction vs arbitrary: us s)
  case Nil
  show ?case
    by (intro exI [of _ "[]"] exI [of _ "timers s"]) (simp add: add_timer_loop.simps)
next
  case (Cons v vs)
  then have tv: "t \<noteq> v" "t \<notin> set vs" "v \<notin> set vs"
    by (auto dest!: ring_distinct simp: distinct_map)
  show ?case
  proof (cases "expires s t < expires s v")
    case True
    let ?s' = "upd_timer v (\<lambda>x. x\<lparr>t_expires := t_expires x - expires s t\<rparr>) s"
    have "deadlines (expires ?s') acc (t # v # vs) =
        insert_deadline t (acc + expires s t) (deadlines (expires s) acc (v # vs))" for acc
      using tv True by (auto intro!: deadlines_cong)
    then show ?thesis
      using True tv
      by - (rule exI [of _ "[]"], rule exI [of _ "v # vs"], rule exI [of _ "timers ?s'"],
          auto simp: add_timer_loop.simps upd_timer_def comp_def fun_upd_def)
  next
    case False
    let ?s1 = "upd_timer t (\<lambda>x. x\<lparr>t_expires := t_expires x - expires s v\<rparr>) s"
    have nxt: "list_next (timer_links ?s1) (Some v) = hd (map Some vs @ [None])"
      using clist.next_cell [of "timer_links s" None "map Some us" "Some v" "map Some vs"] Cons.prems
      by simp
    have "ring (timer_links ?s1) None (map Some ((us @ [v]) @ vs))" "t \<notin> set ((us @ [v]) @ vs)"
      using Cons.prems by simp_all
    from Cons.IH [OF this] obtain vs1 vs2 T where IH: "vs = vs1 @ vs2"
      "add_timer_loop t (hd (map Some vs @ [None])) ?s1 = Some (hd (map Some vs2 @ [None]), ?s1\<lparr>timers := T\<rparr>)"
      "\<And>acc. deadlines (t_expires \<circ> T) acc (vs1 @ t # vs2) =
           insert_deadline t (acc + expires ?s1 t) (deadlines (expires ?s1) acc vs)"
      "\<And>u. u \<notin> set (t # vs) \<Longrightarrow> T u = timers ?s1 u" "\<And>u. t_proc (T u) = t_proc (timers ?s1 u)"
      by blast
    have dl: "deadlines (expires ?s1) acc vs = deadlines (expires s) acc vs" for acc
      using tv by (intro deadlines_cong) auto
    have "t_expires (T v) = expires s v" using IH(4) [of v] tv by simp
    then have "deadlines (t_expires \<circ> T) acc ((v # vs1) @ t # vs2) =
        insert_deadline t (acc + expires s t) (deadlines (expires s) acc (v # vs))" for acc
      using IH(3) [of "acc + expires s v"] dl False by simp
    moreover have "add_timer_loop t (Some v) s = Some (hd (map Some vs2 @ [None]), s\<lparr>timers := T\<rparr>)"
      using IH(2) nxt False by (subst add_timer_loop.simps) (simp add: upd_timer_def)
    moreover have "T u = timers s u" if "u \<notin> set (t # v # vs)" for u
      using IH(4) [of u] that by simp
    moreover have "t_proc (T u) = t_proc (timers s u)" for u
      using IH(5) [of u] by simp
    ultimately show ?thesis
      using IH(1) by - (rule exI [of _ "v # vs1"], rule exI [of _ vs2], rule exI [of _ T],
          simp add: comp_def del: deadlines.simps insert_deadline.simps)
  qed
qed

lemma add_timer_refines:
  assumes q: "timer_queue s ts" and t: "t \<notin> set ts" "0 < expires s t" "t_proc (timers s t) \<noteq> None"
  obtains s' ts' where "add_timer t s = Some s'" and "timer_queue s' ts'"
    and "deadlines (expires s') 0 ts' = insert_deadline t (expires s t) (deadlines (expires s) 0 ts)"
    and "\<exists>T h. s' = s\<lparr>timers := T, timer_links := h\<rparr>"
    and "\<And>u. t_proc (timers s' u) = t_proc (timers s u)"
proof -
  have r: "ring (timer_links s) None (map Some ([] @ ts))" using q by (simp add: timer_queue_def)
  have e: "list_empty (timer_links s) (Some t)" using q t by (simp add: timer_queue_empty_iff)
  have n: "list_next (timer_links s) None = hd (map Some ts @ [None])"
    using clist.next_head [of "timer_links s" None "map Some ts"] r by simp
  from add_timer_loop_correct [OF r] t(1) obtain vs1 vs2 T where
    L: "ts = vs1 @ vs2"
      "add_timer_loop t (hd (map Some ts @ [None])) s = Some (hd (map Some vs2 @ [None]), s\<lparr>timers := T\<rparr>)"
      "deadlines (t_expires \<circ> T) 0 (vs1 @ t # vs2) =
        insert_deadline t (expires s t) (deadlines (expires s) 0 ts)"
      "\<And>u. t_proc (T u) = t_proc (timers s u)"
    by (metis add_0 append_Nil)
  let ?h = "list_add_before (hd (map Some vs2 @ [None])) (Some t) (timer_links s)"
  let ?s' = "s\<lparr>timers := T, timer_links := ?h\<rparr>"
  have r2: "ring (timer_links s) None (map Some vs1 @ map Some vs2)" using r L(1) by simp
  have "ring ?h None (map Some (vs1 @ t # vs2))"
    using ring_add_before [OF r2, of "Some t"] t(1) L(1) by auto
  moreover have "list_empty ?h (Some u)" if "u \<notin> set (vs1 @ t # vs2)" for u
    using list_empty_add_between [OF r2, of "Some u" "Some t"] that q L(1)
    by (auto simp: timer_queue_def)
  ultimately have "timer_queue ?s' (vs1 @ t # vs2)"
    using q L(1,4) t(3) by (auto simp: timer_queue_def)
  moreover have "add_timer t s = Some ?s'"
    using e t n L(2) by (simp add: add_timer_def)
  ultimately show ?thesis using L(3,4) by (intro that [of ?s' "vs1 @ t # vs2"]) (auto simp: comp_def)
qed

section \<open>del\_timer removes one deadline\<close>

lemma list_empty_del_between:
  assumes "ring h c (us @ y # vs)" and "x \<notin> set (c # us @ vs)"
  shows "list_empty (list_del_init y h) x = (x = y \<or> list_empty h x)"
  using list_empty_del_other [OF assms(1), of x] assms(2) clist.lempty_del_init [of y h]
  by (cases "x = y") auto

lemma del_timer_refines:
  assumes q: "timer_queue s ts"
  obtains ts' where "timer_queue (del_timer t s) ts'"
    and "deadlines (expires (del_timer t s)) 0 ts' = filter (\<lambda>(u, d). u \<noteq> t) (deadlines (expires s) 0 ts)"
    and "\<exists>T h. del_timer t s = s\<lparr>timers := T, timer_links := h\<rparr>"
    and "\<And>u. t_proc (timers (del_timer t s) u) = t_proc (timers s u)"
proof (cases "t \<in> set ts")
  case False
  then have "del_timer t s = s" using q by (simp add: del_timer_def timer_queue_empty_iff)
  moreover have "\<exists>T h. s = s\<lparr>timers := T, timer_links := h\<rparr>"
    by (rule exI [of _ "timers s"], rule exI [of _ "timer_links s"]) simp
  ultimately show ?thesis
    using False q by (intro that [of ts]) (simp_all add: deadlines_fst_notin)
next
  case True
  then obtain us vs where ts: "ts = us @ t # vs" by (auto simp: in_set_conv_decomp)
  have d: "distinct ts" using q by (rule timer_queue_distinct)
  have r: "ring (timer_links s) None (map Some us @ Some t # map Some vs)"
    using q ts by (simp add: timer_queue_def)
  have n: "list_next (timer_links s) (Some t) = hd (map Some vs @ [None])"
    using clist.next_cell [OF r] .
  define T where "T = (if expires s t \<noteq> 0 \<and> vs \<noteq> []
    then (timers s)(hd vs := timers s (hd vs)\<lparr>t_expires := expires s (hd vs) + expires s t\<rparr>) else timers s)"
  let ?h = "list_del_init (Some t) (timer_links s)"
  have eq: "del_timer t s = s\<lparr>timers := T, timer_links := ?h\<rparr>"
    using True q n
    by (cases vs) (auto simp: del_timer_def timer_queue_empty_iff upd_timer_def Let_def T_def)
  have "ring ?h None (map Some (us @ vs))" using ring_del_init [OF r] by simp
  moreover have "list_empty ?h (Some u)" if "u \<notin> set (us @ vs)" for u
    using list_empty_del_between [OF r, of "Some u"] that q ts by (auto simp: timer_queue_def)
  moreover have p: "t_proc (T u) = t_proc (timers s u)" for u by (auto simp: T_def)
  ultimately have q': "timer_queue (del_timer t s) (us @ vs)"
    using q ts p unfolding eq by (simp add: timer_queue_def)
  have "deadlines (t_expires \<circ> T) acc vs = deadlines (expires s) (acc + expires s t) vs" for acc
    using d ts by (cases vs) (auto simp: ac_simps T_def intro!: deadlines_cong)
  moreover have us: "t_expires (T u) = expires s u" if "u \<in> set us" for u
    using d ts that by (cases vs) (auto simp: T_def)
  then have "deadlines (t_expires \<circ> T) 0 us = deadlines (expires s) 0 us"
    "sum_list (map (t_expires \<circ> T) us) = sum_list (map (expires s) us)"
    by (auto intro!: deadlines_cong arg_cong [where f = sum_list])
  ultimately have "deadlines (t_expires \<circ> T) 0 (us @ vs) =
      filter (\<lambda>(u, d). u \<noteq> t) (deadlines (expires s) 0 ts)"
    using d ts by (simp add: deadlines_append deadlines_fst_notin)
  moreover have "\<exists>T' h'. del_timer t s = s\<lparr>timers := T', timer_links := h'\<rparr>" using eq by blast
  ultimately show ?thesis
    using p by (intro that [OF q']) (simp_all add: eq comp_def)
qed

section \<open>A clock tick\<close>

text \<open>
  What a sleeping process must satisfy for its timer to fire without a panic: it is not a
  zombie, and if it waits, it waits interruptibly. \<^verbatim>\<open>do_sleep\<close> sets \<open>WT_TIMER\<close>.
\<close>

definition timer_proc_ok :: "'z kern_scheme \<Rightarrow> tptr \<Rightarrow> bool" where
  "timer_proc_ok s t \<longleftrightarrow>
     (\<forall>p. t_proc (timers s t) = Some p \<longrightarrow>
        p_state (procs s p) \<noteq> PROC_ZOMBIE \<and>
        (p_wait_state (procs s p) = 0 \<or> p_wait_state (procs s p) AND WT_INTERRUPTED \<noteq> 0))"

lemma run_queue_timer_upd:
  "run_queue (s\<lparr>timers := T, timer_links := h\<rparr>) xs = run_queue s xs"
  by (simp add: run_queue_def)

lemma sched_inv_timer_upd:
  "sched_inv (s\<lparr>timers := T, timer_links := h\<rparr>) xs = sched_inv s xs"
  by (simp add: sched_inv_def run_queue_timer_upd)

lemma timer_proc_ok_mono:
  assumes "timer_proc_ok s u" and "t_proc (timers s' u) = t_proc (timers s u)"
    and "\<And>p. p_state (procs s' p) = p_state (procs s p) \<or> p_state (procs s' p) = PROC_RUNNABLE"
    and "\<And>p. p_wait_state (procs s' p) = p_wait_state (procs s p) \<or> p_wait_state (procs s' p) = 0"
  shows "timer_proc_ok s' u"
  unfolding timer_proc_ok_def
proof (intro allI impI)
  fix p
  assume "t_proc (timers s' u) = Some p"
  with assms(1,2) have "p_state (procs s p) \<noteq> PROC_ZOMBIE"
    "p_wait_state (procs s p) = 0 \<or> p_wait_state (procs s p) AND WT_INTERRUPTED \<noteq> 0"
    by (simp_all add: timer_proc_ok_def)
  with assms(3) [of p] assms(4) [of p]
  show "p_state (procs s' p) \<noteq> PROC_ZOMBIE \<and>
    (p_wait_state (procs s' p) = 0 \<or> p_wait_state (procs s' p) AND WT_INTERRUPTED \<noteq> 0)"
    by auto
qed

text \<open>
  One turn of the loop: the process of the head timer wakes up and the timer goes.
  \<open>woken s t s2\<close> collects what the rest of the loop and its callers need to know of it.
\<close>

definition proc_mono :: "'z kern_scheme \<Rightarrow> 'z kern_scheme \<Rightarrow> bool" where
  "proc_mono s s' \<longleftrightarrow>
     (\<forall>p. p_state (procs s' p) = p_state (procs s p) \<or> p_state (procs s' p) = PROC_RUNNABLE) \<and>
     (\<forall>p. p_wait_state (procs s' p) = p_wait_state (procs s p) \<or> p_wait_state (procs s' p) = 0) \<and>
     (\<forall>u. t_proc (timers s' u) = t_proc (timers s u)) \<and>
     current s' = current s \<and> idleproc s' = idleproc s"

lemma proc_mono_refl: "proc_mono s s"
  by (simp add: proc_mono_def)

lemma proc_mono_trans: "proc_mono s s2 \<Longrightarrow> proc_mono s2 s' \<Longrightarrow> proc_mono s s'"
  unfolding proc_mono_def by metis

lemma proc_mono_runnable: "proc_mono s s' \<Longrightarrow> p_state (procs s p) = PROC_RUNNABLE \<Longrightarrow> p_state (procs s' p) = PROC_RUNNABLE"
  unfolding proc_mono_def by metis

lemma proc_mono_ok: "proc_mono s s' \<Longrightarrow> timer_proc_ok s u \<Longrightarrow> timer_proc_ok s' u"
  unfolding proc_mono_def by (rule timer_proc_ok_mono) auto

definition woken :: "'z kern_scheme \<Rightarrow> tptr list \<Rightarrow> 'z kern_scheme \<Rightarrow> bool" where
  "woken s ts s' \<longleftrightarrow>
     (\<forall>u p. (u, 0) \<in> set (deadlines (expires s) 0 ts) \<longrightarrow> t_proc (timers s u) = Some p \<longrightarrow>
        p_state (procs s' p) = PROC_RUNNABLE)"

lemma fire_head:
  assumes q: "timer_queue s (t # vs)" and inv: "sched_inv s xs" and ok: "timer_proc_ok s t"
    and z: "expires s t = 0" and p: "t_proc (timers s t) = Some p"
  obtains s1 xs' where "wakeup_proc p s = Some s1" and "sched_inv (del_timer t s1) xs'"
    and "timer_queue (del_timer t s1) vs"
    and "deadlines (expires (del_timer t s1)) 0 vs = deadlines (expires s) 0 vs"
    and "p_state (procs (del_timer t s1) p) = PROC_RUNNABLE"
    and "proc_mono s (del_timer t s1)"
proof -
  have "p_state (procs s p) \<noteq> PROC_ZOMBIE" using ok p by (simp add: timer_proc_ok_def)
  from wakeup_proc_inv [OF inv this] obtain s1 where w: "wakeup_proc p s = Some s1"
    and i1: "sched_inv s1 (if p_state (procs s p) = PROC_RUNNABLE \<or> p = current s \<or> p = idleproc s
                           then xs else xs @ [p])"
    and st: "p_state (procs s1 p) = PROC_RUNNABLE"
      "\<And>x. x \<noteq> p \<Longrightarrow> p_state (procs s1 x) = p_state (procs s x)"
      "\<And>x. p_wait_state (procs s1 x) =
        (if x = p \<and> p_state (procs s p) \<noteq> PROC_RUNNABLE then 0 else p_wait_state (procs s x))"
    and fr: "current s1 = current s" "idleproc s1 = idleproc s" "timers s1 = timers s"
      "timer_links s1 = timer_links s"
    by metis
  have st': "p_state (procs s1 x) = p_state (procs s x) \<or> p_state (procs s1 x) = PROC_RUNNABLE" for x
    using st(1,2) by (cases "x = p") auto
  have q1: "timer_queue s1 (t # vs)" using q fr by (simp add: timer_queue_def)
  from del_timer_refines [OF q1, of t] obtain ts' T h where
    D: "timer_queue (del_timer t s1) ts'"
      "deadlines (expires (del_timer t s1)) 0 ts' =
        filter (\<lambda>(u, d). u \<noteq> t) (deadlines (expires s1) 0 (t # vs))"
      "del_timer t s1 = s1\<lparr>timers := T, timer_links := h\<rparr>"
      "\<And>u. t_proc (timers (del_timer t s1) u) = t_proc (timers s1 u)"
    by metis
  have "t \<notin> set vs" using timer_queue_distinct [OF q] by simp
  then have dl: "deadlines (expires (del_timer t s1)) 0 ts' = deadlines (expires s) 0 vs"
    using D(2) fr(3) z by (simp add: deadlines_fst_notin)
  then have "map fst (deadlines (expires (del_timer t s1)) 0 ts') = map fst (deadlines (expires s) 0 vs)"
    by simp
  then have ts': "ts' = vs" by (simp only: map_fst_deadlines)
  show ?thesis
    by (rule that [OF w])
      (use D dl ts' i1 st st' fr in \<open>auto simp: D(3) sched_inv_timer_upd proc_mono_def\<close>)
qed

text \<open>
  The loop of \<^verbatim>\<open>run_timer_list\<close> entered at the head of a list \<open>ts\<close> of timers: those whose
  deadline is reached leave the list and their processes are runnable afterwards.
\<close>

lemma pending_filter:
  assumes "expires s t \<noteq> 0"
  shows "filter (\<lambda>(u, d). 0 < d) (deadlines (expires s) 0 (t # vs)) = deadlines (expires s) 0 (t # vs)"
    and "woken s (t # vs) s"
proof -
  have "0 < d" if "(u, d) \<in> set (deadlines (expires s) 0 (t # vs))" for u d
    using deadlines_ge [of u d "expires s" "expires s t" vs] that assms by auto
  then show "filter (\<lambda>(u, d). 0 < d) (deadlines (expires s) 0 (t # vs)) = deadlines (expires s) 0 (t # vs)"
    and "woken s (t # vs) s"
    by (auto intro!: filter_True simp: woken_def simp del: deadlines.simps)
qed

lemma run_timer_loop_fires:
  assumes "timer_queue s ts" and "sched_inv s xs" and "\<And>u. u \<in> set ts \<Longrightarrow> timer_proc_ok s u"
  shows "\<exists>s' ts' xs'.
    (case hd (map Some ts @ [None]) of None \<Rightarrow> Some s | Some t \<Rightarrow> run_timer_loop t s) = Some s' \<and>
    timer_queue s' ts' \<and> sched_inv s' xs' \<and>
    deadlines (expires s') 0 ts' = filter (\<lambda>(u, d). 0 < d) (deadlines (expires s) 0 ts) \<and>
    woken s ts s' \<and> proc_mono s s'"
  using assms
proof (induction ts arbitrary: s xs)
  case Nil
  then show ?case
    by (intro exI [of _ s] exI [of _ "[]"] exI [of _ xs]) (simp add: woken_def proc_mono_refl)
next
  case (Cons t vs)
  show ?case
  proof (cases "expires s t = 0")
    case False
    then have "run_timer_loop t s = Some s" by (simp add: run_timer_loop.simps)
    with Cons.prems pending_filter [OF False, of vs] show ?thesis
      by (intro exI [of _ s] exI [of _ "t # vs"] exI [of _ xs]) (simp add: proc_mono_refl)
  next
    case True
    from Cons.prems(1) obtain p where p: "t_proc (timers s t) = Some p" by (auto simp: timer_queue_def)
    have ok: "timer_proc_ok s t" using Cons.prems(3) by simp
    have le: "list_next (timer_links s) (Some t) = hd (map Some vs @ [None])"
      using clist.next_cell [of "timer_links s" None "[]" "Some t" "map Some vs"] Cons.prems(1)
      by (simp add: timer_queue_def)
    from fire_head [OF Cons.prems(1,2) ok True p] obtain s1 ys where
      w: "wakeup_proc p s = Some s1" and i: "sched_inv (del_timer t s1) ys"
      and q2: "timer_queue (del_timer t s1) vs"
      and dl: "deadlines (expires (del_timer t s1)) 0 vs = deadlines (expires s) 0 vs"
      and run: "p_state (procs (del_timer t s1) p) = PROC_RUNNABLE"
      and mono: "proc_mono s (del_timer t s1)" .
    have "timer_proc_ok (del_timer t s1) u" if "u \<in> set vs" for u
      using Cons.prems(3) [of u] that mono by (auto intro: proc_mono_ok)
    from Cons.IH [OF q2 i this] obtain s' ts' xs' where
      L: "(case hd (map Some vs @ [None]) of None \<Rightarrow> Some (del_timer t s1)
           | Some u \<Rightarrow> run_timer_loop u (del_timer t s1)) = Some s'"
        "timer_queue s' ts'" "sched_inv s' xs'"
        "deadlines (expires s') 0 ts' = filter (\<lambda>(u, d). 0 < d) (deadlines (expires (del_timer t s1)) 0 vs)"
        "woken (del_timer t s1) vs s'" "proc_mono (del_timer t s1) s'"
      by blast
    have "run_timer_loop t s = Some s'"
      using True p w le L(1) ok by (subst run_timer_loop.simps) (auto simp: timer_proc_ok_def)
    moreover have "woken s (t # vs) s'"
      using L(5) dl True p mono proc_mono_runnable [OF L(6) run]
      by (auto simp: woken_def proc_mono_def)
    ultimately show ?thesis
      using L(2-4) dl True proc_mono_trans [OF mono L(6)]
      by (intro exI [of _ s'] exI [of _ ts'] exI [of _ xs']) simp
  qed
qed

section \<open>Ticks on deadlines\<close>

definition tick_deadlines :: "nat \<Rightarrow> (tptr \<times> nat) list \<Rightarrow> (tptr \<times> nat) list" where
  "tick_deadlines n ds = filter (\<lambda>(u, d). 0 < d) (map (\<lambda>(u, d). (u, d - n)) ds)"

lemma set_tick_deadlines:
  "(u, d) \<in> set (tick_deadlines n ds) \<longleftrightarrow> 0 < d \<and> (u, d + n) \<in> set ds"
  by (force simp: tick_deadlines_def)

lemma tick_deadlines_Suc: "tick_deadlines n (tick_deadlines 1 ds) = tick_deadlines (Suc n) ds"
  by (induction ds) (auto simp: tick_deadlines_def)

lemma deadlines_Suc: "map (\<lambda>(u, d). (u, d - 1)) (deadlines ex (Suc acc) ts) = deadlines ex acc ts"
  by (induction ts arbitrary: acc) simp_all

lemma deadlines_decrement_head:
  assumes "t \<notin> set vs" and "expires s t \<noteq> 0"
  shows "deadlines (expires (upd_timer t (\<lambda>x. x\<lparr>t_expires := t_expires x - 1\<rparr>) s)) 0 (t # vs) =
    map (\<lambda>(u, d). (u, d - 1)) (deadlines (expires s) 0 (t # vs))"
proof -
  obtain n where n: "expires s t = Suc n" using assms(2) by (cases "expires s t") auto
  have "deadlines (expires (upd_timer t (\<lambda>x. x\<lparr>t_expires := t_expires x - 1\<rparr>) s)) n vs =
      deadlines (expires s) n vs"
    using assms(1) by (intro deadlines_cong) auto
  then show ?thesis using n deadlines_Suc [of "expires s" n vs] by simp
qed

text \<open>The state between two clock interrupts in which timers can fire safely.\<close>

definition clock_inv :: "'z kern_scheme \<Rightarrow> tptr list \<Rightarrow> bool" where
  "clock_inv s ts \<longleftrightarrow>
     timer_inv s ts \<and> (\<exists>xs. sched_inv s xs) \<and> (\<forall>t \<in> set ts. timer_proc_ok s t)"

lemma proc_tick_mono: "proc_mono s (sched_class_proc_tick p s)"
  by (auto simp: sched_class_proc_tick_def proc_mono_def RR_proc_tick_def Let_def)

lemma proc_tick_inv:
  "sched_inv (sched_class_proc_tick p s) xs = sched_inv s xs"
  "timer_queue (sched_class_proc_tick p s) ts = timer_queue s ts"
  "timers (sched_class_proc_tick p s) = timers s"
proof -
  have "run_queue (sched_class_proc_tick p s) xs = run_queue s xs"
    by (rule run_queue_cong) (auto simp: sched_class_proc_tick_def RR_proc_tick_def Let_def)
  then show "sched_inv (sched_class_proc_tick p s) xs = sched_inv s xs"
    by (auto simp: sched_inv_def sched_class_proc_tick_def RR_proc_tick_def Let_def)
  show "timer_queue (sched_class_proc_tick p s) ts = timer_queue s ts"
    "timers (sched_class_proc_tick p s) = timers s"
    by (auto simp: timer_queue_def sched_class_proc_tick_def RR_proc_tick_def Let_def)
qed

lemma run_timer_list_refines:
  assumes inv: "clock_inv s ts"
  obtains s' ts' where "run_timer_list s = Some s'" and "clock_inv s' ts'"
    and "deadlines (expires s') 0 ts' = tick_deadlines 1 (deadlines (expires s) 0 ts)"
    and "\<And>u p. (u, 1) \<in> set (deadlines (expires s) 0 ts) \<Longrightarrow> t_proc (timers s u) = Some p \<Longrightarrow>
           p_state (procs s' p) = PROC_RUNNABLE"
    and "proc_mono s s'"
proof -
  from inv obtain xs where q: "timer_queue s ts" and i: "sched_inv s xs"
    and ok: "\<And>t. t \<in> set ts \<Longrightarrow> timer_proc_ok s t"
    and pos: "\<And>u d. (u, d) \<in> set (deadlines (expires s) 0 ts) \<Longrightarrow> 0 < d"
    by (auto simp: clock_inv_def timer_inv_def)
  define s0 where "s0 = (case ts of [] \<Rightarrow> s
    | t # _ \<Rightarrow> upd_timer t (\<lambda>x. x\<lparr>t_expires := t_expires x - 1\<rparr>) s)"
  have q0: "timer_queue s0 ts" using q by (auto simp: s0_def timer_queue_def split: list.splits)
  have i0: "sched_inv s0 xs"
    using i sched_inv_timer_upd [where s = s and h = "timer_links s"]
    by (auto simp: s0_def upd_timer_def split: list.splits)
  have m0: "proc_mono s s0" by (auto simp: s0_def proc_mono_def split: list.splits)
  have head: "expires s t \<noteq> 0" if "ts = t # vs" for t vs using pos [of t "expires s t"] that by simp
  have d0: "deadlines (expires s0) 0 ts = map (\<lambda>(u, d). (u, d - 1)) (deadlines (expires s) 0 ts)"
  proof (cases ts)
    case (Cons t vs)
    then show ?thesis
      using deadlines_decrement_head [of t vs s] timer_queue_distinct [OF q] head
      unfolding s0_def Cons list.case by simp
  qed simp
  have ok0: "timer_proc_ok s0 t" if "t \<in> set ts" for t
    using ok [OF that] m0 by (rule proc_mono_ok [rotated])
  from run_timer_loop_fires [OF q0 i0 ok0] obtain s1 ts' xs' where
    L: "(case hd (map Some ts @ [None]) of None \<Rightarrow> Some s0 | Some t \<Rightarrow> run_timer_loop t s0) = Some s1"
      "timer_queue s1 ts'" "sched_inv s1 xs'"
      "deadlines (expires s1) 0 ts' = filter (\<lambda>(u, d). 0 < d) (deadlines (expires s0) 0 ts)"
      "woken s0 ts s1" "proc_mono s0 s1"
    by blast
  let ?s' = "sched_class_proc_tick (current s1) s1"
  have run: "run_timer_list s = Some ?s'"
    using L(1) head clist.next_head [of "timer_links s" None "map Some ts"] q
    by (cases ts) (simp_all add: run_timer_list_def timer_queue_def s0_def)
  have dl: "deadlines (expires ?s') 0 ts' = tick_deadlines 1 (deadlines (expires s) 0 ts)"
    using L(4) d0 by (simp add: proc_tick_inv tick_deadlines_def)
  have mono: "proc_mono s ?s'"
    using proc_mono_trans [OF proc_mono_trans [OF m0 L(6)] proc_tick_mono] .
  have sub: "set ts' \<subseteq> set ts"
    unfolding set_deadlines [of "expires s1" 0 ts', symmetric]
      set_deadlines [of "expires s0" 0 ts, symmetric] L(4)
    by auto
  have "clock_inv ?s' ts'"
    using L(2,3) sub ok mono dl
    by (auto simp: clock_inv_def timer_inv_def proc_tick_inv set_tick_deadlines intro: proc_mono_ok)
  moreover have "p_state (procs ?s' p) = PROC_RUNNABLE"
    if "(u, 1) \<in> set (deadlines (expires s) 0 ts)" "t_proc (timers s u) = Some p" for u p
  proof -
    have "(u, 0) \<in> set (deadlines (expires s0) 0 ts)" using that(1) d0 by force
    then have "p_state (procs s1 p) = PROC_RUNNABLE"
      using L(5) m0 that(2) by (auto simp: woken_def proc_mono_def)
    then show ?thesis using proc_tick_mono by (rule proc_mono_runnable [rotated])
  qed
  ultimately show ?thesis using run dl mono by (intro that)
qed

fun ticks_n :: "nat \<Rightarrow> 'z kern_scheme \<Rightarrow> 'z kern_scheme kernel" where
  "ticks_n 0 s = Some s"
| "ticks_n (Suc n) s = run_timer_list s \<bind> ticks_n n"

lemma ticks_n_refines:
  assumes "clock_inv s ts"
  shows "\<exists>s' ts'. ticks_n n s = Some s' \<and> clock_inv s' ts' \<and>
    deadlines (expires s') 0 ts' = tick_deadlines n (deadlines (expires s) 0 ts) \<and>
    (\<forall>u d p. (u, d) \<in> set (deadlines (expires s) 0 ts) \<longrightarrow> d \<le> n \<longrightarrow> t_proc (timers s u) = Some p \<longrightarrow>
       p_state (procs s' p) = PROC_RUNNABLE) \<and> proc_mono s s'"
  using assms
proof (induction n arbitrary: s ts)
  case 0
  then have pos: "\<And>u d. (u, d) \<in> set (deadlines (expires s) 0 ts) \<Longrightarrow> 0 < d"
    by (auto simp: clock_inv_def timer_inv_def)
  then have "tick_deadlines 0 (deadlines (expires s) 0 ts) = deadlines (expires s) 0 ts"
    by (auto simp: tick_deadlines_def intro!: filter_True)
  with 0 pos proc_mono_refl show ?case by fastforce
next
  case (Suc n)
  from run_timer_list_refines [OF Suc.prems] obtain s1 ts1 where
    A: "run_timer_list s = Some s1" "clock_inv s1 ts1"
      "deadlines (expires s1) 0 ts1 = tick_deadlines 1 (deadlines (expires s) 0 ts)"
      "\<And>u p. (u, 1) \<in> set (deadlines (expires s) 0 ts) \<Longrightarrow> t_proc (timers s u) = Some p \<Longrightarrow>
           p_state (procs s1 p) = PROC_RUNNABLE"
      "proc_mono s s1" by blast
  from Suc.IH [OF A(2)] obtain s' ts' where
    B: "ticks_n n s1 = Some s'" "clock_inv s' ts'"
      "deadlines (expires s') 0 ts' = tick_deadlines n (deadlines (expires s1) 0 ts1)"
      "\<And>u d p. (u, d) \<in> set (deadlines (expires s1) 0 ts1) \<Longrightarrow> d \<le> n \<Longrightarrow> t_proc (timers s1 u) = Some p \<Longrightarrow>
         p_state (procs s' p) = PROC_RUNNABLE" "proc_mono s1 s'" by blast
  have "p_state (procs s' p) = PROC_RUNNABLE"
    if ud: "(u, d) \<in> set (deadlines (expires s) 0 ts)" "d \<le> Suc n" "t_proc (timers s u) = Some p" for u d p
  proof (cases "d \<le> 1")
    case True
    have "0 < d" using ud(1) Suc.prems by (auto simp: clock_inv_def timer_inv_def)
    with True ud A(4) B(5) show ?thesis by (metis One_nat_def Suc_leI le_antisym proc_mono_runnable)
  next
    case False
    then have "(u, d - 1) \<in> set (deadlines (expires s1) 0 ts1)"
      using ud(1) by (simp add: A(3) set_tick_deadlines)
    with B(4) [of u "d - 1" p] ud A(5) show ?thesis by (auto simp: proc_mono_def)
  qed
  then show ?case
    using A B(1-3) tick_deadlines_Suc proc_mono_trans [OF A(5) B(5)] by auto
qed

section \<open>Properties\<close>

text \<open>A state with one pending timer, for closed instances.\<close>

definition demo_timers :: kern where
  "demo_timers = demo_kern\<lparr>
     procs := (procs demo_kern)(5 := (blank_proc PROC_SLEEPING)\<lparr>p_wait_state := WT_TIMER\<rparr>),
     timer_links := list_add_before None (Some 9) self_links,
     timers := (\<lambda>t. \<lparr>t_expires = (if t = 9 then 3 else 2), t_proc = Some 5\<rparr>)\<rparr>"

lemma demo_timers_queue: "timer_queue demo_timers [9]"
  by (auto simp: timer_queue_def demo_timers_def ring_def linked_def self_links_def
      list_add_before_def list_add_raw_def list_empty_def Let_def)

lemma demo_timers_inv: "clock_inv demo_timers [9]"
proof -
  have "run_queue demo_timers [1, 2] = run_queue demo_kern [1, 2]"
    by (rule run_queue_cong) (auto simp: demo_timers_def)
  then have "sched_inv demo_timers [1, 2]"
    using demo_kern_inv by (auto simp: sched_inv_def demo_timers_def)
  moreover have "timer_proc_ok demo_timers 9"
    by (simp add: timer_proc_ok_def demo_timers_def blank_proc_def WT_defs)
  ultimately show ?thesis
    using demo_timers_queue by (auto simp: clock_inv_def timer_inv_def demo_timers_def)
qed

text \<open>
  \<^verbatim>\<open>add_timer\<close> on the difference list is a sorted insertion of an absolute
  deadline. It never panics for an unlinked timer with a positive expiry and a process,
  it ends, the new timer expires after exactly the requested number of ticks, behind
  the timers with the same or an earlier deadline, and no other deadline moves.
\<close>

theorem add_timer_sorted_insert:
  assumes "timer_inv s ts" and "t \<notin> set ts" and "0 < expires s t" and "t_proc (timers s t) \<noteq> None"
  shows "\<exists>s' ts'. add_timer t s = Some s' \<and> timer_inv s' ts' \<and>
    deadlines (expires s') 0 ts' = insert_deadline t (expires s t) (deadlines (expires s) 0 ts)"
proof -
  from assms(1) have q: "timer_queue s ts" by (simp add: timer_inv_def)
  from add_timer_refines [OF q assms(2-4)] obtain s' ts' where
    A: "add_timer t s = Some s'" "timer_queue s' ts'"
      "deadlines (expires s') 0 ts' = insert_deadline t (expires s t) (deadlines (expires s) 0 ts)" .
  have "timer_inv s' ts'"
    using assms(1,3) A(2,3) by (auto simp: timer_inv_def set_insert_deadline)
  with A show ?thesis by blast
qed

theorem add_timer_sorted_insert_witness:
  "\<exists>s' ts'. add_timer 8 demo_timers = Some s' \<and> timer_inv s' ts' \<and>
     deadlines (expires s') 0 ts' = [(8, 2), (9, 3)]"
proof -
  have "timer_inv demo_timers [9]" using demo_timers_inv by (simp add: clock_inv_def)
  from add_timer_sorted_insert [OF this, of 8] show ?thesis by (simp add: demo_timers_def)
qed

text \<open>
  \<^verbatim>\<open>del_timer\<close> removes exactly one deadline: the timer leaves the list (if it
  was on it) and every other timer keeps its absolute deadline and its place in the order.
\<close>

theorem del_timer_removes:
  assumes "timer_inv s ts"
  shows "\<exists>ts'. timer_inv (del_timer t s) ts' \<and>
    deadlines (expires (del_timer t s)) 0 ts' = filter (\<lambda>(u, d). u \<noteq> t) (deadlines (expires s) 0 ts)"
proof -
  from assms have q: "timer_queue s ts" by (simp add: timer_inv_def)
  from del_timer_refines [OF q, of t] obtain ts' where
    A: "timer_queue (del_timer t s) ts'"
      "deadlines (expires (del_timer t s)) 0 ts' = filter (\<lambda>(u, d). u \<noteq> t) (deadlines (expires s) 0 ts)" .
  then have "timer_inv (del_timer t s) ts'" using assms by (auto simp: timer_inv_def)
  with A show ?thesis by blast
qed

theorem del_timer_removes_witness:
  "\<exists>ts'. timer_inv (del_timer 9 demo_timers) ts' \<and> deadlines (expires (del_timer 9 demo_timers)) 0 ts' = []"
proof -
  have "timer_inv demo_timers [9]" using demo_timers_inv by (simp add: clock_inv_def)
  from del_timer_removes [OF this, of 9] show ?thesis by simp
qed

text \<open>
  C29: a timer fires on time. After \<open>n\<close> clock ticks (\<^verbatim>\<open>run_timer_list\<close> ends and never
  panics) the list holds exactly the timers with a deadline beyond \<open>n\<close>, their deadlines
  reduced by \<open>n\<close>, and the process of every timer that was due at or before tick \<open>n\<close> is
  runnable.
\<close>

theorem timers_fire_on_time:
  assumes "clock_inv s ts"
  shows "\<exists>s' ts'. ticks_n n s = Some s' \<and> clock_inv s' ts' \<and>
    deadlines (expires s') 0 ts' = tick_deadlines n (deadlines (expires s) 0 ts) \<and>
    (\<forall>u d p. (u, d) \<in> set (deadlines (expires s) 0 ts) \<longrightarrow> d \<le> n \<longrightarrow> t_proc (timers s u) = Some p \<longrightarrow>
       p_state (procs s' p) = PROC_RUNNABLE)"
  using ticks_n_refines [OF assms, of n] by blast

theorem timers_fire_on_time_witness:
  "\<exists>s' ts'. ticks_n 3 demo_timers = Some s' \<and> clock_inv s' ts' \<and> deadlines (expires s') 0 ts' = [] \<and>
     p_state (procs s' 5) = PROC_RUNNABLE"
  using timers_fire_on_time [OF demo_timers_inv, of 3] by (simp add: demo_timers_def tick_deadlines_def)

end
