(* ===== verification/Proc.thy ===== *)
theory Proc
  imports ProcTable Timer
begin

text \<open>
  The process system calls of \<^verbatim>\<open>kern/process/proc.c\<close>: fork, exit, wait, kill, sleep and yield.

  Memory and file system are seen from here through what they hand out. \<open>held\<close> is a ledger
  of what process management owns: descriptors, kernel stacks, page directories,
  \<^verbatim>\<open>mm_struct\<close>s and \<^verbatim>\<open>fs_struct\<close>s; an allocation enters its result there and a release
  strikes it out. Whether an allocation succeeds, and with what address, is the answer of the
  allocator, an argument (\<open>fork_answers\<close>) of the operation. \<open>mm_cnt\<close> and \<open>fs_cnt\<close> are the
  reference counts. The semaphore that \<^verbatim>\<open>copy_mm\<close> holds around \<^verbatim>\<open>dup_mmap\<close> is uncontended.

  \<^verbatim>\<open>do_wait\<close> and \<^verbatim>\<open>do_sleep\<close> give the processor away in the middle, and are split at the
  call of \<^verbatim>\<open>schedule\<close>.
\<close>

section \<open>State\<close>

datatype resource = R_proc pptr | R_kstack u32 | R_pgdir u32 | R_mm nat | R_fs nat

record trapframe =
  tf_vaddr :: u32
  tf_status :: u32
  tf_cause :: u32
  tf_lo :: u32
  tf_hi :: u32
  tf_ra :: u32
  tf_regs :: "nat \<Rightarrow> u32"
  tf_epc :: u32

definition MIPS_REG_V0 :: nat where "MIPS_REG_V0 = 1"
definition MIPS_REG_A0 :: nat where "MIPS_REG_A0 = 3"
definition MIPS_REG_A1 :: nat where "MIPS_REG_A1 = 4"
definition MIPS_REG_GP :: nat where "MIPS_REG_GP = 27"
definition MIPS_REG_SP :: nat where "MIPS_REG_SP = 28"

record fkern = pkern +
  held :: "resource set"
  mm_cnt :: "nat \<Rightarrow> int"
  mm_pgd :: "nat \<Rightarrow> u32"
  fs_cnt :: "nat \<Rightarrow> int"
  boot_cr3 :: u32
  forkret_pc :: u32
  tfs :: "u32 \<Rightarrow> trapframe"

record fork_answers =
  a_proc :: "pptr option"
  a_kstack :: "u32 option"
  a_fs :: "nat option"
  a_dup_fs :: int
  a_mm :: "nat option"
  a_pgdir :: "u32 option"
  a_dup_mmap :: int

definition CLONE_VM :: u32 where "CLONE_VM = 0x100"
definition CLONE_FS :: u32 where "CLONE_FS = 0x800"
definition KSTACKSIZE :: u32 where "KSTACKSIZE = 2 * 4096"

definition acquire :: "resource \<Rightarrow> 'z fkern_scheme \<Rightarrow> 'z fkern_scheme" where
  "acquire r s = s\<lparr>held := insert r (held s)\<rparr>"

definition release :: "resource \<Rightarrow> 'z fkern_scheme \<Rightarrow> 'z fkern_scheme" where
  "release r s = s\<lparr>held := held s - {r}\<rparr>"

abbreviation neg_errno :: "errno \<Rightarrow> int" where
  "neg_errno e \<equiv> - errno_of e"

section \<open>Building a process\<close>

text \<open>
  \<^verbatim>\<open>alloc_proc\<close> leaves \<^verbatim>\<open>rq\<close>, \<^verbatim>\<open>hash_link\<close> and the last byte of the name as the allocator
  returned them.
\<close>

definition alloc_proc :: "pptr option \<Rightarrow> 'z fkern_scheme \<Rightarrow> pptr option \<times> 'z fkern_scheme" where
  "alloc_proc kp s =
     (case kp of
        None \<Rightarrow> (None, s)
      | Some p \<Rightarrow>
          let s1 = acquire (R_proc p) s;
              s2 = upd_proc p (\<lambda>x. x\<lparr>p_state := PROC_UNINIT, p_pid := -1, p_runs := 0, p_kstack := 0,
                     p_need_resched := False, p_parent := None, p_mm := None, p_tf := 0, p_flags := 0,
                     p_cr3 := boot_cr3 s,
                     p_context := \<lparr>sf_s0 = 0, sf_s1 = 0, sf_s2 = 0, sf_s3 = 0, sf_s4 = 0, sf_s5 = 0,
                       sf_s6 = 0, sf_s7 = 0, sf_s8 = 0, sf_gp = 0, sf_ra = 0, sf_sp = 0\<rparr>,
                     p_name := replicate 30 0 @ drop 30 (p_name x), p_exit_code := 0, p_wait_state := 0,
                     p_cptr := None, p_yptr := None, p_optr := None, p_time_slice := 0,
                     p_fs_struct := None\<rparr>) s1;
              s3 = s2\<lparr>run_links := list_init (Some p) (run_links s2)\<rparr>;
              s4 = s3\<lparr>proc_links := list_init (PLink p) (proc_links s3)\<rparr>
          in (Some p, s4))"

text \<open>Names are arrays of 31 bytes; \<open>name\<close> is the memory the argument points to.\<close>

definition set_proc_name :: "pptr \<Rightarrow> (nat \<Rightarrow> u8) \<Rightarrow> 'z fkern_scheme \<Rightarrow> 'z fkern_scheme" where
  "set_proc_name p name s = upd_proc p (\<lambda>x. x\<lparr>p_name := map name [0..<30] @ [0]\<rparr>) s"

definition get_proc_name :: "pptr \<Rightarrow> 'z fkern_scheme \<Rightarrow> u8 list" where
  "get_proc_name p s = take 30 (p_name (procs s p)) @ [0]"

definition setup_kstack :: "u32 option \<Rightarrow> pptr \<Rightarrow> 'z fkern_scheme \<Rightarrow> int \<times> 'z fkern_scheme" where
  "setup_kstack ks p s =
     (case ks of
        Some a \<Rightarrow> (0, upd_proc p (\<lambda>x. x\<lparr>p_kstack := a\<rparr>) (acquire (R_kstack a) s))
      | None \<Rightarrow> (neg_errno E_NO_MEM, s))"

definition put_kstack :: "pptr \<Rightarrow> 'z fkern_scheme \<Rightarrow> 'z fkern_scheme" where
  "put_kstack p s = release (R_kstack (p_kstack (procs s p))) s"

definition setup_pgdir :: "u32 option \<Rightarrow> nat \<Rightarrow> 'z fkern_scheme \<Rightarrow> int \<times> 'z fkern_scheme" where
  "setup_pgdir pg mm s =
     (case pg of
        None \<Rightarrow> (neg_errno E_NO_MEM, s)
      | Some a \<Rightarrow> (0, (acquire (R_pgdir a) s)\<lparr>mm_pgd := (mm_pgd s)(mm := a)\<rparr>))"

definition put_pgdir :: "nat \<Rightarrow> 'z fkern_scheme \<Rightarrow> 'z fkern_scheme" where
  "put_pgdir mm s = release (R_pgdir (mm_pgd s mm)) s"

text \<open>\<^verbatim>\<open>exit_mmap\<close>, \<^verbatim>\<open>put_pgdir\<close> and \<^verbatim>\<open>mm_destroy\<close> in a row: both ends assert that nobody uses the \<open>mm\<close>.\<close>

definition mm_release :: "nat \<Rightarrow> 'z fkern_scheme \<Rightarrow> 'z fkern_scheme kernel" where
  "mm_release mm s = do {
     kassert (mm_cnt s mm = 0);
     Some (release (R_mm mm) (put_pgdir mm s))
   }"

definition copy_mm_good :: "nat \<Rightarrow> pptr \<Rightarrow> 'z fkern_scheme \<Rightarrow> (int \<times> 'z fkern_scheme) kernel" where
  "copy_mm_good mm p s = do {
     let s1 = s\<lparr>mm_cnt := (mm_cnt s)(mm := mm_cnt s mm + 1)\<rparr>;
     kassert (KERNBASE \<le> mm_pgd s1 mm);
     Some (0, upd_proc p (\<lambda>x. x\<lparr>p_mm := Some mm, p_cr3 := mm_pgd s1 mm\<rparr>) s1)
   }"

definition copy_mm :: "u32 \<Rightarrow> fork_answers \<Rightarrow> pptr \<Rightarrow> 'z fkern_scheme \<Rightarrow> (int \<times> 'z fkern_scheme) kernel" where
  "copy_mm clone_flags ans p s =
     (case p_mm (procs s (current s)) of
        None \<Rightarrow> Some (0, s)
      | Some oldmm \<Rightarrow>
          if clone_flags AND CLONE_VM \<noteq> 0 then copy_mm_good oldmm p s
          else (case a_mm ans of
                  None \<Rightarrow> Some (neg_errno E_NO_MEM, s)
                | Some mm \<Rightarrow>
                    let s1 = (acquire (R_mm mm) s)\<lparr>mm_cnt := (mm_cnt s)(mm := 0)\<rparr>
                    in (case setup_pgdir (a_pgdir ans) mm s1 of
                          (r, s2) \<Rightarrow>
                            if r \<noteq> 0 then do { kassert (mm_cnt s2 mm = 0); Some (neg_errno E_NO_MEM, release (R_mm mm) s2) }
                            else if a_dup_mmap ans \<noteq> 0
                                 then do { s3 \<leftarrow> mm_release mm s2; Some (a_dup_mmap ans, s3) }
                                 else copy_mm_good mm p s2)))"

definition copy_thread :: "pptr \<Rightarrow> u32 \<Rightarrow> trapframe \<Rightarrow> 'z fkern_scheme \<Rightarrow> 'z fkern_scheme" where
  "copy_thread p esp tf s =
     (let tfa = p_kstack (procs s p) + KSTACKSIZE - 148;
          s1 = upd_proc p (\<lambda>x. x\<lparr>p_tf := tfa\<rparr>) s;
          esp' = (if esp = 0 then tfa - 32 else esp);
          tf' = tf\<lparr>tf_regs := (tf_regs tf)(MIPS_REG_V0 := 0, MIPS_REG_SP := esp')\<rparr>;
          s2 = s1\<lparr>tfs := (tfs s1)(tfa := tf')\<rparr>
      in upd_proc p (\<lambda>x. x\<lparr>p_context := (p_context x)\<lparr>sf_ra := forkret_pc s, sf_sp := tfa - 32\<rparr>\<rparr>) s2)"

definition copy_fs :: "u32 \<Rightarrow> fork_answers \<Rightarrow> pptr \<Rightarrow> 'z fkern_scheme \<Rightarrow> (int \<times> 'z fkern_scheme) kernel" where
  "copy_fs clone_flags ans p s =
     (case p_fs_struct (procs s (current s)) of
        None \<Rightarrow> panic
      | Some old \<Rightarrow>
          let good = (\<lambda>f s. Some (0, upd_proc p (\<lambda>x. x\<lparr>p_fs_struct := Some f\<rparr>)
                        (s\<lparr>fs_cnt := (fs_cnt s)(f := fs_cnt s f + 1)\<rparr>)))
          in if clone_flags AND CLONE_FS \<noteq> 0 then good old s
             else (case a_fs ans of
                     None \<Rightarrow> Some (neg_errno E_NO_MEM, s)
                   | Some f \<Rightarrow>
                       let s1 = (acquire (R_fs f) s)\<lparr>fs_cnt := (fs_cnt s)(f := 0)\<rparr>
                       in if a_dup_fs ans \<noteq> 0
                          then do { kassert (fs_cnt s1 f = 0); Some (a_dup_fs ans, release (R_fs f) s1) }
                          else do { kassert (fs_cnt s1 f = 0 \<and> 0 < fs_cnt s1 old); good f s1 }))"

definition put_fs :: "pptr \<Rightarrow> 'z fkern_scheme \<Rightarrow> 'z fkern_scheme" where
  "put_fs p s =
     (case p_fs_struct (procs s p) of
        None \<Rightarrow> s
      | Some f \<Rightarrow>
          let s1 = s\<lparr>fs_cnt := (fs_cnt s)(f := fs_cnt s f - 1)\<rparr>
          in if fs_cnt s1 f = 0 then release (R_fs f) s1 else s1)"

text \<open>
  \<^verbatim>\<open>do_fork\<close> up to the label-free end of its resource part: the prepared child, or the value it
  returns after the clean-up code.
\<close>

definition fork_setup :: "u32 \<Rightarrow> fork_answers \<Rightarrow> 'z fkern_scheme \<Rightarrow> (pptr option \<times> int \<times> 'z fkern_scheme) kernel" where
  "fork_setup clone_flags ans s =
     (case alloc_proc (a_proc ans) s of
        (None, s1) \<Rightarrow> Some (None, neg_errno E_NO_MEM, s1)
      | (Some p, s1) \<Rightarrow>
          let s2 = upd_proc p (\<lambda>x. x\<lparr>p_parent := Some (current s1)\<rparr>) s1
          in case setup_kstack (a_kstack ans) p s2 of (r, s3) \<Rightarrow>
             if r \<noteq> 0 then Some (None, neg_errno E_NO_MEM, release (R_proc p) s3)
             else do {
               (r, s4) \<leftarrow> copy_fs clone_flags ans p s3;
               if r \<noteq> 0 then Some (None, neg_errno E_NO_MEM, release (R_proc p) (put_kstack p s4))
               else do {
                 (r, s5) \<leftarrow> copy_mm clone_flags ans p s4;
                 if r \<noteq> 0 then Some (None, neg_errno E_NO_MEM, release (R_proc p) (put_kstack p (put_fs p s5)))
                 else Some (Some p, 0, s5)
               }
             })"

definition fork_commit :: "pptr \<Rightarrow> u32 \<Rightarrow> trapframe \<Rightarrow> 'z fkern_scheme \<Rightarrow> (int \<times> 'z fkern_scheme) kernel" where
  "fork_commit p stack tf s = do {
     let s1 = copy_thread p stack tf s;
     (pid, s2) \<leftarrow> get_pid s1;
     let s3 = upd_proc p (\<lambda>x. x\<lparr>p_pid := pid\<rparr>) s2;
     let s4 = hash_proc p s3;
     s5 \<leftarrow> set_links p s4;
     s6 \<leftarrow> wakeup_proc p s5;
     Some (p_pid (procs s6 p), s6)
   }"

definition do_fork :: "u32 \<Rightarrow> u32 \<Rightarrow> trapframe \<Rightarrow> fork_answers \<Rightarrow> 'z fkern_scheme \<Rightarrow> (int \<times> 'z fkern_scheme) kernel" where
  "do_fork clone_flags stack tf ans s =
     (if nr_process s \<ge> MAX_PROCESS then Some (neg_errno E_NO_FREE_PROC, s)
      else do {
        (child, r, s1) \<leftarrow> fork_setup clone_flags ans s;
        case child of
          None \<Rightarrow> Some (r, s1)
        | Some p \<Rightarrow> fork_commit p stack tf s1
      })"

definition kernel_thread :: "u32 \<Rightarrow> u32 \<Rightarrow> u32 \<Rightarrow> u32 \<Rightarrow> u32 \<Rightarrow> u32 \<Rightarrow> fork_answers \<Rightarrow> 'z fkern_scheme \<Rightarrow>
    (int \<times> 'z fkern_scheme) kernel" where
  "kernel_thread fn arg clone_flags c0_status gp entry ans s =
     (let tf = \<lparr>tf_vaddr = 0, tf_status = ((c0_status AND NOT 0x18) OR 1) OR 2, tf_cause = 0, tf_lo = 0,
                tf_hi = 0, tf_ra = 0,
                tf_regs = (\<lambda>_. 0)(MIPS_REG_A0 := arg, MIPS_REG_A1 := fn, MIPS_REG_V0 := 0, MIPS_REG_GP := gp),
                tf_epc = entry\<rparr>
      in do_fork (clone_flags OR CLONE_VM) 0 tf ans s)"

section \<open>Exit\<close>

definition adopt :: "pptr \<Rightarrow> pptr \<Rightarrow> 'z fkern_scheme \<Rightarrow> 'z fkern_scheme" where
  "adopt i c s =
     (let s1 = upd_proc (current s) (\<lambda>x. x\<lparr>p_cptr := p_optr (procs s c)\<rparr>) s;
          s2 = upd_proc c (\<lambda>x. x\<lparr>p_yptr := None\<rparr>) s1;
          s3 = upd_proc c (\<lambda>x. x\<lparr>p_optr := p_cptr (procs s2 i)\<rparr>) s2;
          s4 = (case p_cptr (procs s3 i) of
                  None \<Rightarrow> s3 | Some q \<Rightarrow> upd_proc q (\<lambda>x. x\<lparr>p_yptr := Some c\<rparr>) s3);
          s5 = upd_proc c (\<lambda>x. x\<lparr>p_parent := Some i\<rparr>) s4
      in upd_proc i (\<lambda>x. x\<lparr>p_cptr := Some c\<rparr>) s5)"

partial_function (option) reparent_loop :: "pptr \<Rightarrow> 'z fkern_scheme \<Rightarrow> 'z fkern_scheme kernel" where
  "reparent_loop i s =
     (case p_cptr (procs s (current s)) of
        None \<Rightarrow> Some s
      | Some c \<Rightarrow> do {
          let s1 = adopt i c s;
          s2 \<leftarrow> (if p_state (procs s1 c) = PROC_ZOMBIE \<and> p_wait_state (procs s1 i) = WT_CHILD
                 then wakeup_proc i s1 else Some s1);
          reparent_loop i s2
        })"

definition exit_release :: "'z fkern_scheme \<Rightarrow> 'z fkern_scheme kernel" where
  "exit_release s =
     (case p_mm (procs s (current s)) of
        None \<Rightarrow> Some s
      | Some mm \<Rightarrow> do {
          let s1 = lcr3 (boot_cr3 s) s;
          let s2 = s1\<lparr>mm_cnt := (mm_cnt s1)(mm := mm_cnt s1 mm - 1)\<rparr>;
          s3 \<leftarrow> (if mm_cnt s2 mm = 0 then mm_release mm s2 else Some s2);
          Some (upd_proc (current s3) (\<lambda>x. x\<lparr>p_mm := None\<rparr>) s3)
        })"

text \<open>\<^verbatim>\<open>do_exit\<close> up to the switch to another process; what follows the call of \<^verbatim>\<open>schedule\<close> never runs.\<close>

definition do_exit :: "int \<Rightarrow> 'z fkern_scheme \<Rightarrow> 'z fkern_scheme kernel" where
  "do_exit error_code s = do {
     kassert (current s \<noteq> idleproc s);
     kassert (Some (current s) \<noteq> initproc s);
     s1 \<leftarrow> exit_release s;
     let s2 = put_fs (current s1) s1;
     let s3 = upd_proc (current s2) (\<lambda>x. x\<lparr>p_state := PROC_ZOMBIE, p_exit_code := error_code\<rparr>) s2;
     par \<leftarrow> p_parent (procs s3 (current s3));
     s4 \<leftarrow> (if p_wait_state (procs s3 par) = WT_CHILD then wakeup_proc par s3 else Some s3);
     i \<leftarrow> initproc s4;
     s5 \<leftarrow> reparent_loop i s4;
     schedule s5
   }"

section \<open>Wait\<close>

text \<open>The loop over the children: the first zombie, and whether there is a child at all.\<close>

partial_function (option) wait_scan :: "(pptr \<Rightarrow> proc_struct) \<Rightarrow> pptr option \<Rightarrow> bool \<Rightarrow> (pptr option \<times> bool) option" where
  "wait_scan f proc haskid =
     (case proc of
        None \<Rightarrow> Some (None, haskid)
      | Some p \<Rightarrow> if p_state (f p) = PROC_ZOMBIE then Some (Some p, True)
                  else wait_scan f (p_optr (f p)) True)"

datatype wait_result = Wait_return int "int option" | Wait_blocked

definition wait_find :: "int \<Rightarrow> 'z fkern_scheme \<Rightarrow> (pptr option \<times> bool) option" where
  "wait_find pid s =
     (if pid \<noteq> 0 then do {
        r \<leftarrow> find_proc pid s;
        Some (case r of
                Some p \<Rightarrow> if p_parent (procs s p) = Some (current s)
                          then (if p_state (procs s p) = PROC_ZOMBIE then Some p else None, True)
                          else (None, False)
              | None \<Rightarrow> (None, False))
      }
      else wait_scan (procs s) (p_cptr (procs s (current s))) False)"

definition wait_reap :: "pptr \<Rightarrow> 'z fkern_scheme \<Rightarrow> 'z fkern_scheme kernel" where
  "wait_reap p s = do {
     kassert (\<not> (p = idleproc s \<or> Some p = initproc s));
     let s1 = unhash_proc p s;
     s2 \<leftarrow> remove_links p s1;
     Some (release (R_proc p) (put_kstack p s2))
   }"

text \<open>
  One pass from the label \<^verbatim>\<open>repeat\<close>; \<open>store\<close> says that \<^verbatim>\<open>code_store\<close> is not null, and the second
  component of \<open>Wait_return\<close> is what is written there. In \<open>do_wait\<close> a null \<^verbatim>\<open>code_store\<close> is
  \<open>None\<close>, and otherwise \<open>mem_ok\<close> is the answer of \<^verbatim>\<open>user_mem_check\<close>.
\<close>

definition wait_pass :: "int \<Rightarrow> bool \<Rightarrow> 'z fkern_scheme \<Rightarrow> (wait_result \<times> 'z fkern_scheme) kernel" where
  "wait_pass pid store s = do {
     (found, haskid) \<leftarrow> wait_find pid s;
     case found of
       Some p \<Rightarrow> do {
         s1 \<leftarrow> wait_reap p s;
         Some (Wait_return 0 (if store then Some (p_exit_code (procs s p)) else None), s1)
       }
     | None \<Rightarrow>
         if haskid then do {
           s1 \<leftarrow> schedule (upd_proc (current s) (\<lambda>x. x\<lparr>p_state := PROC_SLEEPING, p_wait_state := WT_CHILD\<rparr>) s);
           Some (Wait_blocked, s1)
         }
         else Some (Wait_return (neg_errno E_BAD_PROC) None, s)
   }"

definition do_wait :: "int \<Rightarrow> bool option \<Rightarrow> 'z fkern_scheme \<Rightarrow> (wait_result \<times> 'z fkern_scheme) kernel" where
  "do_wait pid mem_ok s =
     (if mem_ok = Some False then Some (Wait_return (neg_errno E_INVAL) None, s) else wait_pass pid (mem_ok = Some True) s)"

text \<open>What a process does when it is scheduled again inside \<^verbatim>\<open>do_wait\<close>.\<close>

definition do_wait_resume :: "int \<Rightarrow> bool \<Rightarrow> 'z fkern_scheme \<Rightarrow> (wait_result \<times> 'z fkern_scheme) kernel" where
  "do_wait_resume pid store s =
     (if p_flags (procs s (current s)) AND PF_EXITING \<noteq> 0
      then do { s1 \<leftarrow> do_exit (neg_errno E_KILLED) s; Some (Wait_blocked, s1) }
      else wait_pass pid store s)"

section \<open>Kill, yield, sleep\<close>

definition do_kill :: "int \<Rightarrow> 'z fkern_scheme \<Rightarrow> (int \<times> 'z fkern_scheme) kernel" where
  "do_kill pid s = do {
     r \<leftarrow> find_proc pid s;
     case r of
       None \<Rightarrow> Some (neg_errno E_INVAL, s)
     | Some p \<Rightarrow>
         if p_flags (procs s p) AND PF_EXITING = 0 then do {
           let s1 = upd_proc p (\<lambda>x. x\<lparr>p_flags := p_flags x OR PF_EXITING\<rparr>) s;
           s2 \<leftarrow> (if p_wait_state (procs s1 p) AND WT_INTERRUPTED \<noteq> 0 then wakeup_proc p s1 else Some s1);
           Some (0, s2)
         }
         else Some (neg_errno E_KILLED, s)
   }"

definition do_yield :: "'z fkern_scheme \<Rightarrow> int \<times> 'z fkern_scheme" where
  "do_yield s = (0, upd_proc (current s) (\<lambda>x. x\<lparr>p_need_resched := True\<rparr>) s)"

text \<open>\<open>t\<close> is the \<^verbatim>\<open>timer_t\<close> on the caller's stack; the flag says that the caller sleeps.\<close>

definition do_sleep :: "tptr \<Rightarrow> nat \<Rightarrow> 'z fkern_scheme \<Rightarrow> (bool \<times> 'z fkern_scheme) kernel" where
  "do_sleep t time s =
     (if time = 0 then Some (False, s)
      else do {
        let s1 = timer_init t (current s) time s;
        let s2 = upd_proc (current s1) (\<lambda>x. x\<lparr>p_state := PROC_SLEEPING, p_wait_state := WT_TIMER\<rparr>) s1;
        s3 \<leftarrow> add_timer t s2;
        s4 \<leftarrow> schedule s3;
        Some (True, s4)
      })"

definition do_sleep_resume :: "tptr \<Rightarrow> 'z fkern_scheme \<Rightarrow> int \<times> 'z fkern_scheme" where
  "do_sleep_resume t s = (0, del_timer t s)"

text \<open>One round of \<^verbatim>\<open>cpu_idle\<close>.\<close>

definition cpu_idle_round :: "'z fkern_scheme \<Rightarrow> 'z fkern_scheme kernel" where
  "cpu_idle_round s = (if p_need_resched (procs s (current s)) then schedule s else Some s)"

section \<open>The ledger of a fork\<close>

lemma upd_proc_fkern [simp]:
  "held (upd_proc p f s) = held s" "mm_cnt (upd_proc p f s) = mm_cnt s" "mm_pgd (upd_proc p f s) = mm_pgd s"
  "fs_cnt (upd_proc p f s) = fs_cnt s" "boot_cr3 (upd_proc p f s) = boot_cr3 s"
  "forkret_pc (upd_proc p f s) = forkret_pc s" "tfs (upd_proc p f s) = tfs s"
  by (simp_all add: upd_proc_def)

text \<open>What the setup part of a fork leaves alone.\<close>

definition table_same :: "'z fkern_scheme \<Rightarrow> 'z fkern_scheme \<Rightarrow> bool" where
  "table_same s s' \<longleftrightarrow>
     current s' = current s \<and> idleproc s' = idleproc s \<and> initproc s' = initproc s \<and> rq s' = rq s \<and>
     proc_num s' = proc_num s \<and> max_time_slice s' = max_time_slice s \<and> hash_links s' = hash_links s \<and>
     nr_process s' = nr_process s \<and> next_safe s' = next_safe s \<and> last_pid s' = last_pid s"

definition fresh_answers :: "fork_answers \<Rightarrow> 'z fkern_scheme \<Rightarrow> bool" where
  "fresh_answers ans s \<longleftrightarrow>
     (\<forall>p. a_proc ans = Some p \<longrightarrow> R_proc p \<notin> held s \<and> p \<noteq> current s) \<and>
     (\<forall>a. a_kstack ans = Some a \<longrightarrow> R_kstack a \<notin> held s) \<and>
     (\<forall>f. a_fs ans = Some f \<longrightarrow> R_fs f \<notin> held s \<and> p_fs_struct (procs s (current s)) \<noteq> Some f) \<and>
     (\<forall>m. a_mm ans = Some m \<longrightarrow> R_mm m \<notin> held s) \<and>
     (\<forall>g. a_pgdir ans = Some g \<longrightarrow> R_pgdir g \<notin> held s \<and> KERNBASE \<le> g)"

text \<open>The current process can be copied: it has files, and its memory is well placed.\<close>

definition forkable :: "'z fkern_scheme \<Rightarrow> bool" where
  "forkable s \<longleftrightarrow>
     (\<exists>f. p_fs_struct (procs s (current s)) = Some f \<and> 0 < fs_cnt s f) \<and>
     (\<forall>m. p_mm (procs s (current s)) = Some m \<longrightarrow> KERNBASE \<le> mm_pgd s m)"

lemmas fork_defs = alloc_proc_def setup_kstack_def put_kstack_def setup_pgdir_def put_pgdir_def
  mm_release_def copy_mm_good_def put_fs_def acquire_def release_def

lemma copy_fs_result:
  assumes old: "p_fs_struct (procs s (current s)) = Some old" "0 < fs_cnt s old" and p: "p \<noteq> current s"
    and fresh: "\<And>f. a_fs ans = Some f \<Longrightarrow> R_fs f \<notin> held s \<and> f \<noteq> old"
  obtains r s' where "copy_fs cf ans p s = Some (r, s')"
    and "s' = s\<lparr>procs := procs s', held := held s', fs_cnt := fs_cnt s'\<rparr>"
    and "r \<noteq> 0 \<longrightarrow> held s' = held s \<and> procs s' = procs s \<and> (\<forall>g. a_fs ans \<noteq> Some g \<longrightarrow> fs_cnt s' g = fs_cnt s g)"
    and "r = 0 \<longrightarrow> (\<exists>f. procs s' = (procs s)(p := (procs s p)\<lparr>p_fs_struct := Some f\<rparr>) \<and>
      (if fs_cnt s' f = 1 then a_fs ans = Some f \<and> held s' = insert (R_fs f) (held s) \<and> (\<forall>g. g \<noteq> f \<longrightarrow> fs_cnt s' g = fs_cnt s g)
       else 1 < fs_cnt s' f \<and> held s' = held s \<and> fs_cnt s' = (fs_cnt s)(f := fs_cnt s f + 1)))"
proof (cases "cf AND CLONE_FS \<noteq> 0")
  case True
  show ?thesis
    by (rule that [of 0 "upd_proc p (\<lambda>x. x\<lparr>p_fs_struct := Some old\<rparr>) (s\<lparr>fs_cnt := (fs_cnt s)(old := fs_cnt s old + 1)\<rparr>)"])
      (use True old in \<open>auto simp: copy_fs_def upd_proc_def\<close>)
next
  case no: False
  show ?thesis
  proof (cases "a_fs ans")
    case None
    show ?thesis by (rule that [of "neg_errno E_NO_MEM" s]) (use no old None in \<open>auto simp: copy_fs_def\<close>)
  next
    case (Some f)
    let ?s1 = "(acquire (R_fs f) s)\<lparr>fs_cnt := (fs_cnt s)(f := 0)\<rparr>"
    show ?thesis
    proof (cases "a_dup_fs ans = 0")
      case True
      show ?thesis
        by (rule that [of 0 "upd_proc p (\<lambda>x. x\<lparr>p_fs_struct := Some f\<rparr>) (?s1\<lparr>fs_cnt := (fs_cnt ?s1)(f := fs_cnt ?s1 f + 1)\<rparr>)"])
          (use no old Some True fresh [OF Some] in \<open>auto simp: copy_fs_def upd_proc_def acquire_def\<close>)
    next
      case False
      show ?thesis
        by (rule that [of "a_dup_fs ans" "release (R_fs f) ?s1"])
          (use no old Some False fresh [OF Some] in \<open>auto simp: copy_fs_def acquire_def release_def\<close>)
    qed
  qed
qed

lemma copy_mm_result:
  assumes mm: "\<And>m. p_mm (procs s (current s)) = Some m \<Longrightarrow> KERNBASE \<le> mm_pgd s m"
    and fresh: "\<And>m. a_mm ans = Some m \<Longrightarrow> R_mm m \<notin> held s"
      "\<And>g. a_pgdir ans = Some g \<Longrightarrow> R_pgdir g \<notin> held s \<and> KERNBASE \<le> g"
  obtains r s' where "copy_mm cf ans p s = Some (r, s')"
    and "s' = s\<lparr>procs := procs s', held := held s', mm_cnt := mm_cnt s', mm_pgd := mm_pgd s'\<rparr>"
    and "r \<noteq> 0 \<longrightarrow> held s' = held s \<and> procs s' = procs s"
    and "r = 0 \<longrightarrow> held s \<subseteq> held s' \<and>
      (\<exists>m cr. procs s' = (procs s)(p := (procs s p)\<lparr>p_mm := m, p_cr3 := cr\<rparr>))"
proof (cases "p_mm (procs s (current s))")
  case None
  have "procs s = (procs s)(p := (procs s p)\<lparr>p_mm := p_mm (procs s p), p_cr3 := p_cr3 (procs s p)\<rparr>)" by simp
  then have "\<exists>m cr. procs s = (procs s)(p := (procs s p)\<lparr>p_mm := m, p_cr3 := cr\<rparr>)" by blast
  with None show ?thesis by (intro that [of 0 s]) (simp_all add: copy_mm_def)
next
  case (Some oldmm)
  show ?thesis
  proof (cases "cf AND CLONE_VM \<noteq> 0")
    case True
    show ?thesis
      by (rule that [of 0 "snd (the (copy_mm_good oldmm p s))"])
        (use Some True mm [OF Some] in \<open>auto simp: copy_mm_def copy_mm_good_def upd_proc_def\<close>)
  next
    case no: False
    show ?thesis
    proof (cases "a_mm ans")
      case None
      then show ?thesis by (intro that [of "neg_errno E_NO_MEM" s]) (use Some no in \<open>auto simp: copy_mm_def\<close>)
    next
      case m: (Some m)
      let ?s1 = "(acquire (R_mm m) s)\<lparr>mm_cnt := (mm_cnt s)(m := 0)\<rparr>"
      show ?thesis
      proof (cases "a_pgdir ans")
        case None
        show ?thesis
          by (rule that [of "neg_errno E_NO_MEM" "release (R_mm m) ?s1"])
            (use Some no m None fresh(1) [OF m] in \<open>auto simp: copy_mm_def setup_pgdir_def acquire_def release_def\<close>)
      next
        case g: (Some g)
        let ?s2 = "(acquire (R_pgdir g) ?s1)\<lparr>mm_pgd := (mm_pgd s)(m := g)\<rparr>"
        show ?thesis
        proof (cases "a_dup_mmap ans = 0")
          case True
          show ?thesis
            by (rule that [of 0 "snd (the (copy_mm_good m p ?s2))"])
              (use Some no m g True fresh(2) [OF g] in
                \<open>auto simp: copy_mm_def setup_pgdir_def acquire_def copy_mm_good_def upd_proc_def\<close>)
        next
          case False
          show ?thesis
            by (rule that [of "a_dup_mmap ans" "release (R_mm m) (put_pgdir m ?s2)"])
              (use Some no m g False fresh(1) [OF m] fresh(2) [OF g] in
                \<open>auto simp: copy_mm_def setup_pgdir_def acquire_def release_def mm_release_def put_pgdir_def\<close>)
        qed
      qed
    qed
  qed
qed

text \<open>The descriptor a fork starts from, before the copies fill it in.\<close>

definition prepared :: "'z fkern_scheme \<Rightarrow> pptr \<Rightarrow> proc_struct \<Rightarrow> bool" where
  "prepared s p x \<longleftrightarrow> p_state x = PROC_UNINIT \<and> p_parent x = Some (current s) \<and> p_cptr x = None \<and>
     p_yptr x = None \<and> p_optr x = None \<and> p_wait_state x = 0 \<and> p_flags x = 0 \<and> p_exit_code x = 0 \<and>
     p_time_slice x = 0"

lemma fork_setup_result:
  assumes fk: "forkable s" and fr: "fresh_answers ans s"
  obtains child r s' where "fork_setup cf ans s = Some (child, r, s')" and "table_same s s'"
    and "\<forall>q. a_proc ans \<noteq> Some q \<longrightarrow> procs s' q = procs s q"
    and "child = None \<longrightarrow> r = neg_errno E_NO_MEM \<and> held s' = held s \<and>
      (\<forall>g. a_fs ans \<noteq> Some g \<longrightarrow> fs_cnt s' g = fs_cnt s g)"
    and "\<forall>p. child = Some p \<longrightarrow> a_proc ans = Some p \<and> held s \<subseteq> held s' \<and> R_proc p \<in> held s' \<and>
      R_kstack (p_kstack (procs s' p)) \<in> held s'"
    and "case a_proc ans of None \<Rightarrow> s' = s | Some p \<Rightarrow> prepared s p (procs s' p) \<and>
      run_links s' = list_init (Some p) (run_links s) \<and> proc_links s' = list_init (PLink p) (proc_links s)"
proof (cases "a_proc ans")
  case None
  show ?thesis
    by (rule that [of None "neg_errno E_NO_MEM" s])
      (use None in \<open>auto simp: fork_setup_def alloc_proc_def table_same_def\<close>)
next
  case (Some p)
  have pc: "p \<noteq> current s" and pf: "R_proc p \<notin> held s" using fr Some by (auto simp: fresh_answers_def)
  obtain old where old: "p_fs_struct (procs s (current s)) = Some old" "0 < fs_cnt s old"
    using fk by (auto simp: forkable_def)
  define s2 where "s2 = upd_proc p (\<lambda>x. x\<lparr>p_parent := Some (current s)\<rparr>) (snd (alloc_proc (Some p) s))"
  have s2: "held s2 = insert (R_proc p) (held s)" "current s2 = current s" "\<And>q. q \<noteq> p \<Longrightarrow> procs s2 q = procs s q"
    "fs_cnt s2 = fs_cnt s" "mm_cnt s2 = mm_cnt s" "mm_pgd s2 = mm_pgd s" "prepared s p (procs s2 p)"
    "p_mm (procs s2 p) = None" "p_fs_struct (procs s2 p) = None"
    "run_links s2 = list_init (Some p) (run_links s)" "proc_links s2 = list_init (PLink p) (proc_links s)"
    "table_same s s2"
    by (simp_all add: s2_def alloc_proc_def acquire_def prepared_def table_same_def)
  have a: "alloc_proc (Some p) s = (Some p, snd (alloc_proc (Some p) s))" "current (snd (alloc_proc (Some p) s)) = current s"
    by (simp_all add: alloc_proc_def acquire_def)
  show ?thesis
  proof (cases "a_kstack ans")
    case None
    have un0: "fork_setup cf ans s = Some (None, neg_errno E_NO_MEM, release (R_proc p) s2)"
      unfolding fork_setup_def Some using None by (subst a(1)) (simp add: setup_kstack_def s2_def a(2))
    show ?thesis
      by (rule that [of None "neg_errno E_NO_MEM" "release (R_proc p) s2"])
        (use Some s2 pf un0 in \<open>auto simp: release_def table_same_def\<close>)
  next
    case ks: (Some ka)
    have kf: "R_kstack ka \<notin> held s" using fr ks by (simp add: fresh_answers_def)
    define s3 where "s3 = upd_proc p (\<lambda>x. x\<lparr>p_kstack := ka\<rparr>) (acquire (R_kstack ka) s2)"
    have s3: "held s3 = {R_kstack ka, R_proc p} \<union> held s" "current s3 = current s" "\<And>q. q \<noteq> p \<Longrightarrow> procs s3 q = procs s q"
      "fs_cnt s3 = fs_cnt s" "mm_cnt s3 = mm_cnt s" "mm_pgd s3 = mm_pgd s" "prepared s p (procs s3 p)"
      "p_kstack (procs s3 p) = ka" "p_mm (procs s3 p) = None"
      "run_links s3 = list_init (Some p) (run_links s)" "proc_links s3 = list_init (PLink p) (proc_links s)"
      "table_same s s3"
      using s2 by (simp_all add: s3_def acquire_def prepared_def table_same_def)
    have un: "fork_setup cf ans s = do {
        (r, s4) \<leftarrow> copy_fs cf ans p s3;
        if r \<noteq> 0 then Some (None, neg_errno E_NO_MEM, release (R_proc p) (put_kstack p s4))
        else do {
          (r, s5) \<leftarrow> copy_mm cf ans p s4;
          if r \<noteq> 0 then Some (None, neg_errno E_NO_MEM, release (R_proc p) (put_kstack p (put_fs p s5)))
          else Some (Some p, 0, s5) } }"
      unfolding fork_setup_def Some using ks by (subst a(1)) (simp add: setup_kstack_def s3_def s2_def a(2))
    have old3: "p_fs_struct (procs s3 (current s3)) = Some old" "0 < fs_cnt s3 old" "p \<noteq> current s3"
      using old s3 pc by auto
    have ff: "\<And>f. a_fs ans = Some f \<Longrightarrow> R_fs f \<notin> held s3 \<and> f \<noteq> old"
      using fr old(1) s3(1) by (auto simp: fresh_answers_def)
    obtain r4 s4 where c4: "copy_fs cf ans p s3 = Some (r4, s4)"
      and e4: "s4 = s3\<lparr>procs := procs s4, held := held s4, fs_cnt := fs_cnt s4\<rparr>"
      and bad4: "r4 \<noteq> 0 \<longrightarrow> held s4 = held s3 \<and> procs s4 = procs s3 \<and> (\<forall>g. a_fs ans \<noteq> Some g \<longrightarrow> fs_cnt s4 g = fs_cnt s3 g)"
      and good4: "r4 = 0 \<longrightarrow> (\<exists>f. procs s4 = (procs s3)(p := (procs s3 p)\<lparr>p_fs_struct := Some f\<rparr>) \<and>
        (if fs_cnt s4 f = 1 then a_fs ans = Some f \<and> held s4 = insert (R_fs f) (held s3) \<and> (\<forall>g. g \<noteq> f \<longrightarrow> fs_cnt s4 g = fs_cnt s3 g)
         else 1 < fs_cnt s4 f \<and> held s4 = held s3 \<and> fs_cnt s4 = (fs_cnt s3)(f := fs_cnt s3 f + 1)))"
      by (rule copy_fs_result [where cf = cf, OF old3 ff])
    note k4 = arg_cong [OF e4, of current] arg_cong [OF e4, of run_links] arg_cong [OF e4, of proc_links]
      arg_cong [OF e4, of mm_cnt] arg_cong [OF e4, of mm_pgd]
    have t4: "table_same s s4" using s3(12) by (subst e4) (simp add: table_same_def)
    show ?thesis
    proof (cases "r4 = 0")
      case False
      with bad4 have b: "held s4 = held s3" "procs s4 = procs s3" "\<forall>g. a_fs ans \<noteq> Some g \<longrightarrow> fs_cnt s4 g = fs_cnt s3 g" by auto
      show ?thesis
        by (rule that [of None "neg_errno E_NO_MEM" "release (R_proc p) (put_kstack p s4)"])
          (use un c4 False b t4 s3 pf kf Some k4 in \<open>auto simp: release_def put_kstack_def table_same_def\<close>)
    next
      case True
      with good4 obtain f where p4: "procs s4 = (procs s3)(p := (procs s3 p)\<lparr>p_fs_struct := Some f\<rparr>)"
        and f4: "if fs_cnt s4 f = 1 then a_fs ans = Some f \<and> held s4 = insert (R_fs f) (held s3) \<and> (\<forall>g. g \<noteq> f \<longrightarrow> fs_cnt s4 g = fs_cnt s3 g)
         else 1 < fs_cnt s4 f \<and> held s4 = held s3 \<and> fs_cnt s4 = (fs_cnt s3)(f := fs_cnt s3 f + 1)" by blast
      have h4: "held s3 \<subseteq> held s4" "held s4 \<subseteq> insert (R_fs f) (held s3)" using f4 by (auto split: if_splits)
      have mm4: "\<And>m. p_mm (procs s4 (current s4)) = Some m \<Longrightarrow> KERNBASE \<le> mm_pgd s4 m"
        using fk k4 s3(2,3,6) pc by (auto simp: forkable_def p4)
      have fm4: "\<And>m. a_mm ans = Some m \<Longrightarrow> R_mm m \<notin> held s4" "\<And>g. a_pgdir ans = Some g \<Longrightarrow> R_pgdir g \<notin> held s4 \<and> KERNBASE \<le> g"
        using fr h4(2) s3(1) by (auto simp: fresh_answers_def)
      obtain r5 s5 where c5: "copy_mm cf ans p s4 = Some (r5, s5)"
        and e5: "s5 = s4\<lparr>procs := procs s5, held := held s5, mm_cnt := mm_cnt s5, mm_pgd := mm_pgd s5\<rparr>"
        and bad5: "r5 \<noteq> 0 \<longrightarrow> held s5 = held s4 \<and> procs s5 = procs s4"
        and good5: "r5 = 0 \<longrightarrow> held s4 \<subseteq> held s5 \<and> (\<exists>m cr. procs s5 = (procs s4)(p := (procs s4 p)\<lparr>p_mm := m, p_cr3 := cr\<rparr>))"
        by (rule copy_mm_result [where cf = cf and p = p, OF mm4 fm4])
      note k5 = arg_cong [OF e5, of fs_cnt] arg_cong [OF e5, of run_links] arg_cong [OF e5, of proc_links]
      have t5: "table_same s s5" using t4 by (subst e5) (simp add: table_same_def)
      show ?thesis
      proof (cases "r5 = 0")
        case r5: True
        with good5 obtain m cr where p5: "procs s5 = (procs s4)(p := (procs s4 p)\<lparr>p_mm := m, p_cr3 := cr\<rparr>)"
          and h5: "held s4 \<subseteq> held s5" by blast
        show ?thesis
          by (rule that [of "Some p" 0 s5])
            (use un c4 c5 True r5 t5 p5 p4 h5 h4 s3 k4 k5 Some in \<open>auto simp: prepared_def\<close>)
      next
        case r5: False
        with bad5 have b5: "held s5 = held s4" "procs s5 = procs s4" by auto
        let ?s' = "release (R_proc p) (put_kstack p (put_fs p s5))"
        have pf5: "p_fs_struct (procs s5 p) = Some f" by (simp add: b5 p4)
        have "held ?s' = held s" "\<forall>g. a_fs ans \<noteq> Some g \<longrightarrow> fs_cnt ?s' g = fs_cnt s g"
          using f4 pf kf ff s3(1,4,8) k5(1) b5 fr
          by (auto simp: release_def put_kstack_def put_fs_def pf5 p4 fresh_answers_def Let_def split: if_splits)
        moreover have "procs ?s' = procs s5" "table_same s ?s'" "run_links ?s' = run_links s5" "proc_links ?s' = proc_links s5"
          using t5 by (auto simp: release_def put_kstack_def put_fs_def pf5 table_same_def Let_def)
        ultimately show ?thesis
          by (intro that [of None "neg_errno E_NO_MEM" ?s'])
            (use un c4 c5 True r5 b5 p4 s3(3,7,10,11) k4 k5 Some in \<open>auto simp: prepared_def\<close>)
      qed
    qed
  qed
qed

end
