(* ===== verification/ProcLife.thy ===== *)
theory ProcLife
  imports Proc
begin

text \<open>
  What the process system calls keep of the tables of \<^verbatim>\<open>proc.c\<close>. \<open>proc_inv\<close> ties together the
  process list, the pid hash table, the family links and the run queue; fork, exit, wait and
  kill never panic on a state that satisfies it and keep it.
\<close>

section \<open>The invariant of the process tables\<close>

definition proc_inv :: "'z fkern_scheme \<Rightarrow> pptr list \<Rightarrow> (pptr \<Rightarrow> pptr list) \<Rightarrow> pptr list \<Rightarrow> bool" where
  "proc_inv s ps C xs \<longleftrightarrow>
     pid_state s ps \<and> (\<exists>B. hash_table s (set ps) B) \<and> family s C \<and> sched_inv s xs \<and>
     inj_on (\<lambda>p. p_pid (procs s p)) (set ps) \<and> int (length ps) \<le> nr_process s \<and>
     (\<forall>q. set (C q) = {p \<in> set ps. p_parent (procs s p) = Some q}) \<and>
     (\<forall>p \<in> set ps. 1 \<le> p_pid (procs s p) \<and> p_pid (procs s p) < MAX_PID)"

text \<open>The fields of a descriptor that scheduling does not touch.\<close>

definition pkeep :: "proc_struct \<Rightarrow> proc_struct" where
  "pkeep x = x\<lparr>p_state := PROC_UNINIT, p_wait_state := 0, p_rq := None, p_time_slice := 0,
     p_need_resched := False, p_runs := 0, p_context := idle_context\<rparr>"

lemma pkeepD:
  assumes "pkeep x = pkeep y"
  shows "p_pid x = p_pid y" "p_parent x = p_parent y" "p_cptr x = p_cptr y" "p_yptr x = p_yptr y"
    "p_optr x = p_optr y" "p_exit_code x = p_exit_code y" "p_mm x = p_mm y" "p_kstack x = p_kstack y"
    "p_fs_struct x = p_fs_struct y" "p_flags x = p_flags y" "p_tf x = p_tf y" "p_cr3 x = p_cr3 y"
  using arg_cong [OF assms, of p_pid] arg_cong [OF assms, of p_parent] arg_cong [OF assms, of p_cptr]
    arg_cong [OF assms, of p_yptr] arg_cong [OF assms, of p_optr] arg_cong [OF assms, of p_exit_code]
    arg_cong [OF assms, of p_mm] arg_cong [OF assms, of p_kstack] arg_cong [OF assms, of p_fs_struct]
    arg_cong [OF assms, of p_flags] arg_cong [OF assms, of p_tf] arg_cong [OF assms, of p_cr3]
  by (simp_all add: pkeep_def)

lemma pkeep_upd: "pkeep (f (procs s p)) = pkeep (procs s p) \<Longrightarrow> pkeep (procs (upd_proc p f s) q) = pkeep (procs s q)"
  by simp

lemma RR_enqueue_keep: "RR_enqueue p s = Some s' \<Longrightarrow> pkeep (procs s' q) = pkeep (procs s q)"
  by (auto simp: RR_enqueue_def Let_def pkeep_def split: if_splits)

lemma RR_dequeue_keep: "RR_dequeue p s = Some s' \<Longrightarrow> pkeep (procs s' q) = pkeep (procs s q)"
  by (auto simp: RR_dequeue_def Let_def split: if_splits)

lemma pkeep_runs [simp]: "pkeep (x\<lparr>p_runs := n\<rparr>) = pkeep x"
  and pkeep_resched [simp]: "pkeep (x\<lparr>p_need_resched := b\<rparr>) = pkeep x"
  and pkeep_context [simp]: "pkeep (x\<lparr>p_context := c\<rparr>) = pkeep x"
  and pkeep_state [simp]: "pkeep (x\<lparr>p_state := st\<rparr>) = pkeep x"
  and pkeep_wait [simp]: "pkeep (x\<lparr>p_wait_state := w\<rparr>) = pkeep x"
  by (simp_all add: pkeep_def)

lemma wakeup_proc_keep: "wakeup_proc p s = Some s' \<Longrightarrow> pkeep (procs s' q) = pkeep (procs s q)"
  by (auto simp: wakeup_proc_def sched_class_enqueue_def Let_def
      dest!: RR_enqueue_keep [of _ _ _ q] split: if_splits)

lemma proc_run_keep [simp]: "pkeep (procs (proc_run p s) q) = pkeep (procs s q)"
  by (simp add: proc_run_def switch_to_def lcr3_def Let_def)

lemma schedule_keep:
  assumes "schedule s = Some s'"
  shows "pkeep (procs s' q) = pkeep (procs s q)"
proof -
  let ?s1 = "upd_proc (current s) (\<lambda>x. x\<lparr>p_need_resched := False\<rparr>) s"
  from assms obtain s2 s3 n where
    e: "(if p_state (procs ?s1 (current ?s1)) = PROC_RUNNABLE then sched_class_enqueue (current ?s1) ?s1 else Some ?s1) = Some s2"
    and d: "(case sched_class_pick_next s2 of Some p \<Rightarrow> sched_class_dequeue p s2 | None \<Rightarrow> Some s2) = Some s3"
    and s': "s' = (let s4 = upd_proc n (\<lambda>x. x\<lparr>p_runs := p_runs x + 1\<rparr>) s3 in if n \<noteq> current s4 then proc_run n s4 else s4)"
    unfolding schedule_def Let_def Option.bind_eq_Some_conv by blast
  have "pkeep (procs s2 q) = pkeep (procs ?s1 q)"
    using e by (auto simp: sched_class_enqueue_def dest!: RR_enqueue_keep [of _ _ _ q] split: if_splits)
  moreover have "pkeep (procs s3 q) = pkeep (procs s2 q)"
    using d by (auto simp: sched_class_dequeue_def dest!: RR_dequeue_keep [of _ _ _ q] split: if_splits option.splits)
  ultimately show ?thesis by (auto simp: s' Let_def split: if_splits)
qed

lemma family_keep:
  assumes "\<And>q. pkeep (procs s' q) = pkeep (procs s q)"
  shows "family s' C = family s C"
  by (rule family_cong) (use pkeepD [OF assms] in auto)

lemma pid_state_cong:
  assumes "proc_links s' = proc_links s" "last_pid s' = last_pid s" "next_safe s' = next_safe s"
    "\<And>q. q \<in> set ps \<Longrightarrow> p_pid (procs s' q) = p_pid (procs s q)"
  shows "pid_state s' ps = pid_state s ps"
proof -
  have "proc_pids s' ps = proc_pids s ps" by (auto simp: proc_pids_def assms(4) image_iff)
  then show ?thesis by (simp add: pid_state_def assms)
qed

lemma pkern_more:
  fixes s s' :: "'z fkern_scheme"
  assumes "kern.more s' = kern.more s"
  shows "proc_links s' = proc_links s" "hash_links s' = hash_links s" "nr_process s' = nr_process s"
    "next_safe s' = next_safe s" "last_pid s' = last_pid s" "held s' = held s" "tfs s' = tfs s"
    "fs_cnt s' = fs_cnt s" "mm_cnt s' = mm_cnt s" "mm_pgd s' = mm_pgd s"
  using assms by (cases s; cases s'; simp)+

text \<open>Scheduling moves a process between current, queue and sleep and keeps everything else.\<close>

lemma proc_inv_sched:
  fixes s s' :: "'z fkern_scheme"
  assumes inv: "proc_inv s ps C xs" and "sched_inv s' ys"
    and keep: "\<And>q. pkeep (procs s' q) = pkeep (procs s q)" and more: "kern.more s' = kern.more s"
  shows "proc_inv s' ps C ys"
proof -
  note pid = pkeepD(1,2) [OF keep] and m = pkern_more [OF more]
  have "hash_table s' (set ps) B = hash_table s (set ps) B" for B by (rule hash_table_cong) (simp_all add: m pid)
  moreover have "pid_state s' ps = pid_state s ps" by (rule pid_state_cong) (simp_all add: m pid)
  ultimately show ?thesis
    using inv assms(2) family_keep [OF keep, of C] by (simp add: proc_inv_def m pid)
qed

section \<open>Fork\<close>

text \<open>A descriptor that no table refers to.\<close>

definition unlisted :: "'z fkern_scheme \<Rightarrow> pptr list \<Rightarrow> (pptr \<Rightarrow> pptr list) \<Rightarrow> pptr \<Rightarrow> bool" where
  "unlisted s ps C p \<longleftrightarrow> p \<notin> set ps \<and> (\<forall>q. p \<notin> set (C q)) \<and> C p = [] \<and> p \<noteq> idleproc s \<and> p \<noteq> current s"

lemma family_unlisted:
  assumes f: "family s C" and u: "unlisted s ps C p" and o: "\<And>q. q \<noteq> p \<Longrightarrow> procs s' q = procs s q"
    and c: "p_cptr (procs s' p) = None"
  shows "family s' C"
proof -
  have oc: "procs s' c = procs s c" if "c \<in> set (C q)" for c q
    by (rule o) (use u that in \<open>auto simp: unlisted_def\<close>)
  have "sib_chain (procs s') None (C q) = sib_chain (procs s) None (C q)" for q
    by (rule sib_chain_cong) (simp add: oc)
  moreover have "p_parent (procs s' c) = p_parent (procs s c)" if "c \<in> set (C q)" for c q
    using oc that by simp
  moreover have "p_cptr (procs s' q) = first_of (C q)" for q
    using f o [of q] u c by (cases "q = p") (auto simp: family_def unlisted_def)
  ultimately show ?thesis using f by (auto simp: family_def)
qed

lemma run_queue_fresh:
  assumes "run_queue s xs" "p \<notin> set xs" "run_links s' = list_init (Some p) (run_links s) \<or> run_links s' = run_links s"
    "proc_num s' = proc_num s" "rq s' = rq s" "\<And>q. q \<noteq> p \<Longrightarrow> procs s' q = procs s q"
  shows "run_queue s' xs"
proof -
  have "ring (run_links s') None (map Some xs)"
    using assms(1-3) by (auto simp: run_queue_def intro!: ring_init_other)
  moreover have "list_empty (run_links s') (Some q)" if "q \<notin> set xs" for q
    using assms(1,3) that by (auto simp: run_queue_def list_empty_def list_init_def)
  moreover have "p_rq (procs s' q) = Some (rq s)" if "q \<in> set xs" for q
  proof -
    have "q \<noteq> p" using that assms(2) by blast
    with assms(1) assms(6) [of q] that show ?thesis by (simp add: run_queue_def)
  qed
  ultimately show ?thesis using assms(1,4,5) by (simp add: run_queue_def)
qed

lemma proc_inv_fresh:
  assumes inv: "proc_inv s ps C xs" and u: "unlisted s ps C p" and x: "p \<notin> set xs"
    and o: "\<And>q. q \<noteq> p \<Longrightarrow> procs s' q = procs s q" and c: "p_cptr (procs s' p) = None"
    and l: "run_links s' = list_init (Some p) (run_links s) \<or> run_links s' = run_links s"
      "proc_links s' = list_init (PLink p) (proc_links s) \<or> proc_links s' = proc_links s"
    and t: "table_same s s'"
  shows "proc_inv s' ps C xs"
proof -
  have np: "p \<notin> set ps" "p \<noteq> idleproc s" "p \<noteq> current s" using u by (auto simp: unlisted_def)
  have o': "procs s' q = procs s q" if "q \<in> set ps" for q using o [of q] that np by auto
  have ox: "procs s' q = procs s q" if "q \<in> set xs" for q using o [of q] that x by auto
  have ps: "ring (proc_links s') PHead (map PLink ps)"
    using inv np l(2) by (auto simp: proc_inv_def pid_state_def intro!: ring_init_other)
  have pids: "proc_pids s' ps = proc_pids s ps" by (auto simp: proc_pids_def o' image_iff)
  have "pid_state s' ps" using inv ps pids t by (simp add: proc_inv_def pid_state_def table_same_def)
  moreover have "hash_table s' (set ps) B = hash_table s (set ps) B" for B
    by (rule hash_table_cong) (use t o' in \<open>auto simp: table_same_def\<close>)
  moreover have "family s' C" using inv family_unlisted [OF _ u o c] by (auto simp: proc_inv_def)
  moreover have "run_queue s' xs"
    by (rule run_queue_fresh [OF _ x l(1)]) (use inv t o in \<open>auto simp: proc_inv_def sched_inv_def table_same_def\<close>)
  then have "sched_inv s' xs" using inv ox t by (simp add: proc_inv_def sched_inv_def table_same_def)
  moreover have "inj_on (\<lambda>p. p_pid (procs s' p)) (set ps) = inj_on (\<lambda>p. p_pid (procs s p)) (set ps)"
    by (rule inj_on_cong) (simp add: o')
  moreover have "{p \<in> set ps. p_parent (procs s' p) = Some q} = {p \<in> set ps. p_parent (procs s p) = Some q}" for q
    using o' by auto
  ultimately show ?thesis using inv t o' by (simp add: proc_inv_def table_same_def)
qed

lemma fork_commit_correct:
  fixes s :: "'z fkern_scheme"
  assumes inv: "proc_inv s ps C xs" and u: "unlisted s ps C p" and x: "p \<notin> set xs"
    and pr: "prepared s p (procs s p)" and nr: "nr_process s < MAX_PROCESS"
  obtains pid s' where "fork_commit p stack tf s = Some (pid, s')"
    and "proc_inv s' (p # ps) (C(current s := p # C (current s))) (xs @ [p])"
    and "1 \<le> pid" "pid < MAX_PID" "pid \<notin> proc_pids s ps" "p_pid (procs s' p) = pid"
    and "p_state (procs s' p) = PROC_RUNNABLE" "current s' = current s" "held s' = held s"
    and "tf_regs (tfs s' (p_tf (procs s' p))) MIPS_REG_V0 = 0" "nr_process s' = nr_process s + 1"
proof -
  have np: "p \<notin> set ps" "p \<noteq> idleproc s" "p \<noteq> current s" "\<forall>q. p \<notin> set (C q)" "C p = []"
    using u by (auto simp: unlisted_def)
  define s1 where "s1 = copy_thread p stack tf s"
  have s1: "procs s1 = (procs s)(p := procs s1 p)" "pkeep (procs s1 p) = pkeep ((procs s p)\<lparr>p_tf := p_tf (procs s1 p)\<rparr>)"
    "p_state (procs s1 p) = p_state (procs s p)"
    "table_same s s1" "run_links s1 = run_links s" "proc_links s1 = proc_links s" "held s1 = held s"
    "tf_regs (tfs s1 (p_tf (procs s1 p))) MIPS_REG_V0 = 0"
    by (simp_all add: s1_def copy_thread_def Let_def table_same_def pkeep_def MIPS_REG_V0_def MIPS_REG_SP_def)
  note k1 = pkeepD [OF s1(2)]
  have o1: "\<And>q. q \<noteq> p \<Longrightarrow> procs s1 q = procs s q" by (subst s1(1)) simp
  have inv1: "proc_inv s1 ps C xs"
    by (rule proc_inv_fresh [OF inv u x o1]) (use pr k1 s1 in \<open>auto simp: prepared_def\<close>)
  have len: "int (length ps) < MAX_PID - 1"
    using inv nr by (simp add: proc_inv_def MAX_PID_def MAX_PROCESS_def)
  have st1: "pid_state s1 ps" using inv1 by (simp add: proc_inv_def)
  obtain pid s2 where g: "get_pid s1 = Some (pid, s2)" and new: "pid \<notin> proc_pids s1 ps" "1 \<le> pid" "pid < MAX_PID"
    and lp: "last_pid s2 = pid" "next_safe s2 \<le> MAX_PID" "pid_safe (insert pid (proc_pids s1 ps)) (last_pid s2) (next_safe s2)"
    and e2: "s2 = s1\<lparr>last_pid := last_pid s2, next_safe := next_safe s2\<rparr>"
    by (rule get_pid_correct [OF st1 len])
  note f2 = arg_cong [OF e2, of procs] arg_cong [OF e2, of hash_links] arg_cong [OF e2, of proc_links]
    arg_cong [OF e2, of run_links] arg_cong [OF e2, of proc_num] arg_cong [OF e2, of rq] arg_cong [OF e2, of current]
    arg_cong [OF e2, of idleproc] arg_cong [OF e2, of nr_process] arg_cong [OF e2, of held] arg_cong [OF e2, of tfs]
  define s3 where "s3 = upd_proc p (\<lambda>x. x\<lparr>p_pid := pid\<rparr>) s2"
  have o3: "\<And>q. q \<noteq> p \<Longrightarrow> procs s3 q = procs s q" using o1 f2 by (simp add: s3_def cong: if_cong)
  have ops: "\<And>q. q \<in> set ps \<Longrightarrow> procs s3 q = procs s q" "\<And>q. q \<in> set xs \<Longrightarrow> procs s3 q = procs s q"
    by (rule o3, use np(1) x in blast)+
  have pids1: "proc_pids s1 ps = proc_pids s ps" unfolding proc_pids_def by (rule image_cong) (use o1 np in \<open>metis+\<close>)
  obtain B where "hash_table s (set ps) B" using inv by (auto simp: proc_inv_def)
  then have "hash_table s3 (set ps) B"
    by (subst hash_table_cong [of _ s]) (use f2 s1(4) ops in \<open>auto simp: s3_def table_same_def\<close>)
  then obtain B' where h4: "hash_table (hash_proc p s3) (insert p (set ps)) B'" using hash_proc_table np(1) by blast
  define s4 where "s4 = hash_proc p s3"
  have s4: "procs s4 = procs s3" "proc_links s4 = proc_links s" "run_links s4 = run_links s" "proc_num s4 = proc_num s"
    "rq s4 = rq s" "current s4 = current s" "idleproc s4 = idleproc s" "nr_process s4 = nr_process s"
    "held s4 = held s" "last_pid s4 = last_pid s2" "next_safe s4 = next_safe s2" "tfs s4 = tfs s1"
    using f2 s1(4-7) by (simp_all add: s4_def hash_proc_def s3_def table_same_def)
  have p4: "p_parent (procs s4 p) = Some (current s)" "p_state (procs s4 p) = PROC_UNINIT" "p_pid (procs s4 p) = pid"
    "p_tf (procs s4 p) = p_tf (procs s1 p)" "p_cptr (procs s4 p) = None"
    using pr k1 s1(3) f2(1) by (simp_all add: s4(1) s3_def prepared_def)
  have fam4: "family s4 C"
    by (rule family_unlisted [OF _ u]) (use inv o3 p4 s4 in \<open>auto simp: proc_inv_def\<close>)
  obtain s5 where l5: "set_links p s4 = Some s5" and pu: "pushed (current s) p (procs s4) (procs s5)"
    and pl5: "proc_links s5 = list_add PHead (PLink p) (proc_links s4)" and f5: "nr_process s5 = nr_process s4 + 1"
      "hash_links s5 = hash_links s4" "last_pid s5 = last_pid s4" "next_safe s5 = next_safe s4" "run_links s5 = run_links s4"
      "proc_num s5 = proc_num s4" "rq s5 = rq s4" "current s5 = current s4" "idleproc s5 = idleproc s4"
    and m5: "held s5 = held s4" "tfs s5 = tfs s4" "p_tf (procs s5 p) = p_tf (procs s4 p)"
    by (rule set_links_pushed [OF p4(1) np(3) [symmetric]]) (auto simp: set_links_def Let_def p4(1) split: option.splits)
  note k5 = pushedD [OF pu]
  have fam5: "family s5 (C(current s := p # C (current s)))" by (rule family_pushed [OF fam4 _ pu]) (use np in auto)
  have pp: "p_pid (procs s5 q) = p_pid (procs s q)" if "q \<in> set ps" for q using ops that by (simp add: k5 s4)
  have pids5: "proc_pids s5 (p # ps) = insert pid (proc_pids s ps)"
    using pp p4(3) by (auto simp: proc_pids_def k5 image_iff)
  have "ring (proc_links s) PHead (map PLink ps)" using inv by (simp add: proc_inv_def pid_state_def)
  from ring_push [OF this, of "PLink p"] np(1) have "ring (proc_links s5) PHead (map PLink (p # ps))"
    by (auto simp: pl5 s4)
  then have ps5: "pid_state s5 (p # ps)" using lp new by (simp add: pid_state_def pids5 f5 s4 pids1)
  have h5: "hash_table s5 (set (p # ps)) B'"
    using h4 hash_table_cong [of s5 s4 "set (p # ps)" B'] by (simp add: s4_def [symmetric] f5 k5)
  have "inj_on (\<lambda>q. p_pid (procs s5 q)) (set ps) = inj_on (\<lambda>q. p_pid (procs s q)) (set ps)"
    by (rule inj_on_cong) (simp add: pp)
  moreover have "p_pid (procs s5 p) \<notin> (\<lambda>q. p_pid (procs s5 q)) ` set ps"
    using new(1) pids1 pp p4(3) by (auto simp: k5 proc_pids_def)
  ultimately have inj5: "inj_on (\<lambda>q. p_pid (procs s5 q)) (set (p # ps))" using inv np(1) by (simp add: proc_inv_def)
  have "run_queue s5 xs = run_queue s xs"
    by (rule run_queue_cong) (use f5 s4 ops k5 in auto)
  then have sch5: "sched_inv s5 xs" using inv ops by (simp add: proc_inv_def sched_inv_def f5 s4 k5)
  have kid5: "set ((C(current s := p # C (current s))) q) = {x \<in> set (p # ps). p_parent (procs s5 x) = Some q}" for q
    using inv np(1) ops by (auto simp: proc_inv_def k5 s4)
  have inv5: "proc_inv s5 (p # ps) (C(current s := p # C (current s))) xs"
    using ps5 h5 fam5 sch5 inj5 kid5 inv new(2,3) pp p4(3) k5(5) [of p]
    unfolding proc_inv_def by (auto simp: f5 s4)
  have st5: "p_state (procs s5 p) = PROC_UNINIT" by (simp add: k5 p4)
  obtain s6 where w: "wakeup_proc p s5 = Some s6" and sch6: "sched_inv s6 (xs @ [p])"
    and f6: "p_state (procs s6 p) = PROC_RUNNABLE" "current s6 = current s5" "kern.more s6 = kern.more s5"
    by (rule wakeup_proc_inv [OF sch5, of p]) (use st5 np f5 s4 in auto)
  note k6 = pkeepD [OF wakeup_proc_keep [OF w]] and m6 = pkern_more [OF f6(3)]
  have fc: "fork_commit p stack tf s = Some (pid, s6)"
    using g l5 w p4(3) by (simp add: fork_commit_def s1_def [symmetric] s3_def [symmetric] s4_def [symmetric] k6 k5)
  show ?thesis
    by (rule that [OF fc proc_inv_sched [OF inv5 sch6 wakeup_proc_keep [OF w] f6(3)]])
      (use new pids1 f6 f5 s4 p4 m5 m6 k5 k6 s1(8) in simp_all)
qed

section \<open>Exit\<close>

lemma family_y_keep:
  assumes "\<And>q. pkeep (procs s' q) = pkeep (procs s q)"
  shows "family_y s' C Y = family_y s C Y"
proof -
  note k = pkeepD [OF assms]
  have "sib_chain (procs s') (Y par) (C par) = sib_chain (procs s) (Y par) (C par)" for par
    by (rule sib_chain_cong) (simp add: k)
  then show ?thesis by (simp add: family_y_def k)
qed

lemma adopt_family:
  assumes f: "family_y s C Y" and c: "C (current s) = c # cs" and i: "i \<noteq> current s" "Y i = None"
    and nc: "c \<noteq> current s" and ic: "i \<noteq> c" and o: "\<And>q. q \<noteq> current s \<Longrightarrow> c \<notin> set (C q)"
  shows "family_y (adopt i c s) (C(current s := cs, i := c # C i)) (Y(current s := Some c))"
    and "pushed i c (procs (upd_proc (current s) (\<lambda>x. x\<lparr>p_cptr := p_optr (procs s c)\<rparr>) s)) (procs (adopt i c s))"
proof -
  let ?s1 = "upd_proc (current s) (\<lambda>x. x\<lparr>p_cptr := p_optr (procs s c)\<rparr>) s"
  have ch: "sib_chain (procs s) (Y (current s)) (c # cs)" "distinct (c # cs)"
    using f c unfolding family_y_def by metis+
  have "family_y ?s1 (C(current s := cs)) (Y(current s := Some c))"
  proof -
    have "sib_chain (procs ?s1) y xs = sib_chain (procs s) y xs" for y xs by (rule sib_chain_cong) simp
    with f c ch show ?thesis by (auto simp: family_y_def)
  qed
  moreover show pu: "pushed i c (procs ?s1) (procs (adopt i c s))"
    by (cases "p_cptr (procs s i)")
      (use i nc ic in \<open>auto simp: pushed_def adopt_def Let_def cong: if_cong\<close>)
  moreover have "c \<notin> set ((C(current s := cs)) q)" for q using ch(2) o [of q] by auto
  ultimately show "family_y (adopt i c s) (C(current s := cs, i := c # C i)) (Y(current s := Some c))"
    using family_y_pushed [of ?s1 "C(current s := cs)" "Y(current s := Some c)" c i "adopt i c s"] i by simp
qed

lemma adopt_simps [simp]:
  "current (adopt i c s) = current s" "idleproc (adopt i c s) = idleproc s" "initproc (adopt i c s) = initproc s"
  "run_links (adopt i c s) = run_links s" "proc_num (adopt i c s) = proc_num s" "rq (adopt i c s) = rq s"
  "kern.more (adopt i c s) = kern.more s"
  by (simp_all add: adopt_def Let_def split: option.splits)

text \<open>What the loop keeps of the descriptors: only the parent of the adopted children changes.\<close>

definition exit_frame :: "pptr \<Rightarrow> pptr set \<Rightarrow> 'z fkern_scheme \<Rightarrow> 'z fkern_scheme \<Rightarrow> bool" where
  "exit_frame i cs s s' \<longleftrightarrow>
     current s' = current s \<and> idleproc s' = idleproc s \<and> initproc s' = initproc s \<and> kern.more s' = kern.more s \<and>
     (\<forall>q. p_pid (procs s' q) = p_pid (procs s q) \<and> p_exit_code (procs s' q) = p_exit_code (procs s q) \<and>
          p_parent (procs s' q) = (if q \<in> cs then Some i else p_parent (procs s q)) \<and>
          (q \<noteq> i \<longrightarrow> p_state (procs s' q) = p_state (procs s q)))"

lemma exit_frame_trans:
  "exit_frame i A s s1 \<Longrightarrow> exit_frame i B s1 s' \<Longrightarrow> exit_frame i (A \<union> B) s s'"
  by (auto simp: exit_frame_def)

lemma adopt_step:
  fixes s :: "'z fkern_scheme"
  assumes f: "family_y s C Y" and c: "C (current s) = c # cs" and i: "i \<noteq> current s" "Y i = None" "i \<noteq> c"
    and nc: "c \<noteq> current s" and inv: "sched_inv s xs" and z: "p_state (procs s i) \<noteq> PROC_ZOMBIE"
  obtains s2 ys where "(if p_state (procs (adopt i c s) c) = PROC_ZOMBIE \<and> p_wait_state (procs (adopt i c s) i) = WT_CHILD
      then wakeup_proc i (adopt i c s) else Some (adopt i c s)) = Some s2"
    and "family_y s2 (C(current s := cs, i := c # C i)) (Y(current s := Some c))"
    and "sched_inv s2 ys" "set xs \<subseteq> set ys" "set ys \<subseteq> insert i (set xs)" "exit_frame i {c} s s2"
    and "p_state (procs s2 i) \<noteq> PROC_ZOMBIE"
proof -
  have o: "\<And>q. q \<noteq> current s \<Longrightarrow> c \<notin> set (C q)"
    using family_y_disjoint [OF f] c by (metis disjoint_iff list.set_intros(1))
  note a = adopt_family [OF f c i(1,2) nc i(3) o]
  note pu = pushedD [OF a(2)]
  have st: "p_state (procs (adopt i c s) q) = p_state (procs s q)" for q by (simp add: pu)
  have "run_queue (adopt i c s) xs = run_queue s xs" by (rule run_queue_cong) (simp_all add: pu)
  then have inv1: "sched_inv (adopt i c s) xs" using inv by (simp add: sched_inv_def st)
  have fr: "exit_frame i {c} s (adopt i c s)" by (simp add: exit_frame_def pu)
  show ?thesis
  proof (cases "p_state (procs (adopt i c s) c) = PROC_ZOMBIE \<and> p_wait_state (procs (adopt i c s) i) = WT_CHILD")
    case False
    show ?thesis by (rule that [of "adopt i c s" xs]) (use False a(1) inv1 fr z st in auto)
  next
    case True
    obtain s2 where w: "wakeup_proc i (adopt i c s) = Some s2"
      and sc: "sched_inv s2 (if p_state (procs (adopt i c s) i) = PROC_RUNNABLE \<or> i = current (adopt i c s) \<or>
        i = idleproc (adopt i c s) then xs else xs @ [i])"
      and r: "p_state (procs s2 i) = PROC_RUNNABLE" "\<forall>q. q \<noteq> i \<longrightarrow> p_state (procs s2 q) = p_state (procs (adopt i c s) q)"
        "current s2 = current (adopt i c s)" "idleproc s2 = idleproc (adopt i c s)" "initproc s2 = initproc (adopt i c s)"
        "kern.more s2 = kern.more (adopt i c s)"
      by (rule wakeup_proc_inv [OF inv1, of i]) (use z st in auto)
    note k = pkeepD [OF wakeup_proc_keep [OF w]]
    have "exit_frame i {} (adopt i c s) s2" using r by (simp add: exit_frame_def k)
    from exit_frame_trans [OF fr this] have "exit_frame i {c} s s2" by simp
    moreover have "family_y s2 (C(current s := cs, i := c # C i)) (Y(current s := Some c))"
      using a(1) family_y_keep [OF wakeup_proc_keep [OF w]] by blast
    ultimately show ?thesis by (intro that [OF _ _ sc]) (use True w r(1) in auto)
  qed
qed

lemma reparent_loop_correct:
  fixes s :: "'z fkern_scheme"
  assumes "family_y s C Y" "C (current s) = cs" "i \<noteq> current s" "Y i = None" "i \<notin> set cs" "current s \<notin> set cs"
    "sched_inv s xs" "p_state (procs s i) \<noteq> PROC_ZOMBIE" "\<forall>q. q \<noteq> current s \<longrightarrow> Y q = None"
  shows "\<exists>s' ys. reparent_loop i s = Some s' \<and> family s' (C(current s := [], i := rev cs @ C i)) \<and>
    sched_inv s' ys \<and> set xs \<subseteq> set ys \<and> set ys \<subseteq> insert i (set xs) \<and> exit_frame i (set cs) s s' \<and>
    p_state (procs s' i) \<noteq> PROC_ZOMBIE"
  using assms
proof (induction cs arbitrary: s C Y xs)
  case Nil
  have "p_cptr (procs s (current s)) = None" using Nil(1,2) by (simp add: family_y_def)
  then have r: "reparent_loop i s = Some s" by (simp add: reparent_loop.simps)
  have "sib_chain (procs s) None (C q)" for q
  proof (cases "q = current s")
    case False
    with Nil(9) have "Y q = None" by blast
    moreover have "sib_chain (procs s) (Y q) (C q)" using Nil(1) by (simp add: family_y_def)
    ultimately show ?thesis by simp
  qed (simp add: Nil(2))
  then have "family s C" using Nil(1) by (simp add: family_def family_y_def)
  moreover have "C(current s := [], i := rev [] @ C i) = C" using Nil(2) by auto
  ultimately have "family s (C(current s := [], i := rev [] @ C i))" by (simp only:)
  moreover have "exit_frame i (set []) s s" by (simp add: exit_frame_def)
  ultimately show ?case using r Nil(7,8) by blast
next
  case (Cons c cs)
  have nc: "i \<noteq> c" "c \<noteq> current s" using Cons.prems(5,6) by auto
  obtain s2 ys where w: "(if p_state (procs (adopt i c s) c) = PROC_ZOMBIE \<and> p_wait_state (procs (adopt i c s) i) = WT_CHILD
      then wakeup_proc i (adopt i c s) else Some (adopt i c s)) = Some s2"
    and f2: "family_y s2 (C(current s := cs, i := c # C i)) (Y(current s := Some c))"
    and inv2: "sched_inv s2 ys" and ys: "set xs \<subseteq> set ys" "set ys \<subseteq> insert i (set xs)"
    and fr: "exit_frame i {c} s s2" and z2: "p_state (procs s2 i) \<noteq> PROC_ZOMBIE"
    by (rule adopt_step [OF Cons.prems(1-4) nc Cons.prems(7,8)])
  have cur: "current s2 = current s" using fr by (simp add: exit_frame_def)
  have un: "reparent_loop i s = reparent_loop i s2"
    using Cons.prems(1,2) w by (subst reparent_loop.simps) (simp add: family_y_def Let_def)
  have C2: "(C(current s := cs, i := c # C i)) (current s2) = cs" using Cons.prems(3) cur by simp
  have hyps: "i \<noteq> current s2" "(Y(current s := Some c)) i = None" "i \<notin> set cs" "current s2 \<notin> set cs"
    "\<forall>q. q \<noteq> current s2 \<longrightarrow> (Y(current s := Some c)) q = None"
    using Cons.prems(3-6,9) cur by simp_all
  obtain s' zs where r: "reparent_loop i s2 = Some s'"
    and fam: "family s' ((C(current s := cs, i := c # C i))(current s2 := [], i := rev cs @ (C(current s := cs, i := c # C i)) i))"
    and rest: "sched_inv s' zs" "set ys \<subseteq> set zs" "set zs \<subseteq> insert i (set ys)" "exit_frame i (set cs) s2 s'"
      "p_state (procs s' i) \<noteq> PROC_ZOMBIE"
    using Cons.IH [OF f2 C2 hyps(1-4) inv2 z2 hyps(5)] by blast
  have "(C(current s := cs, i := c # C i))(current s2 := [], i := rev cs @ (C(current s := cs, i := c # C i)) i)
      = C(current s := [], i := rev (c # cs) @ C i)" using cur Cons.prems(3) by auto
  moreover have "exit_frame i (set (c # cs)) s s'" using exit_frame_trans [OF fr rest(4)] by simp
  ultimately have "family s' (C(current s := [], i := rev (c # cs) @ C i))" "exit_frame i (set (c # cs)) s s'"
    using fam by (simp_all only:)
  moreover have "set xs \<subseteq> set zs" "set zs \<subseteq> insert i (set xs)" using rest(2,3) ys by blast+
  ultimately show ?case using un r rest(1,5) by (metis (no_types))
qed

lemma exit_release_total:
  fixes s :: "'z fkern_scheme"
  obtains s' where "exit_release s = Some s'" and "p_mm (procs s' (current s)) = None"
    and "\<And>q. procs s' q = (if q = current s then (procs s q)\<lparr>p_mm := None\<rparr> else procs s q)"
    and "current s' = current s" "idleproc s' = idleproc s" "initproc s' = initproc s" "run_links s' = run_links s"
    "proc_num s' = proc_num s" "rq s' = rq s" "proc_links s' = proc_links s" "hash_links s' = hash_links s"
    "nr_process s' = nr_process s" "next_safe s' = next_safe s" "last_pid s' = last_pid s"
    and "\<And>m. p_mm (procs s (current s)) = Some m \<Longrightarrow> mm_cnt s m = 1 \<Longrightarrow>
      held s' = held s - {R_mm m, R_pgdir (mm_pgd s m)}"
    and "\<And>m. p_mm (procs s (current s)) = Some m \<Longrightarrow> mm_cnt s m \<noteq> 1 \<Longrightarrow> held s' = held s"
proof (cases "p_mm (procs s (current s))")
  case None
  then have "(procs s (current s))\<lparr>p_mm := None\<rparr> = procs s (current s)" by (cases "procs s (current s)") simp
  with None show ?thesis by (intro that [of s]) (auto simp: exit_release_def)
next
  case (Some m)
  show ?thesis
  proof (cases "mm_cnt s m = 1")
    case True
    show ?thesis
      by (rule that [of "the (exit_release s)"])
        (simp_all add: exit_release_def Some True mm_release_def put_pgdir_def release_def lcr3_def Let_def, auto)
  next
    case False
    show ?thesis
      by (rule that [of "the (exit_release s)"])
        (simp_all add: exit_release_def Some False lcr3_def Let_def)
  qed
qed

lemma put_fs_simps [simp]:
  "procs (put_fs p s) = procs s" "current (put_fs p s) = current s" "idleproc (put_fs p s) = idleproc s"
  "initproc (put_fs p s) = initproc s" "run_links (put_fs p s) = run_links s" "proc_num (put_fs p s) = proc_num s"
  "rq (put_fs p s) = rq s" "proc_links (put_fs p s) = proc_links s" "hash_links (put_fs p s) = hash_links s"
  "nr_process (put_fs p s) = nr_process s" "next_safe (put_fs p s) = next_safe s" "last_pid (put_fs p s) = last_pid s"
  by (simp_all add: put_fs_def Let_def release_def split: option.splits)

text \<open>Changes of a descriptor that the tables do not see.\<close>

lemma proc_inv_cong:
  assumes inv: "proc_inv s ps C xs" and cx: "current s \<notin> set xs \<longrightarrow> current s' \<notin> set xs"
    and f: "\<And>q. p_pid (procs s' q) = p_pid (procs s q)" "\<And>q. p_parent (procs s' q) = p_parent (procs s q)"
      "\<And>q. p_cptr (procs s' q) = p_cptr (procs s q)" "\<And>q. p_yptr (procs s' q) = p_yptr (procs s q)"
      "\<And>q. p_optr (procs s' q) = p_optr (procs s q)" "\<And>q. p_rq (procs s' q) = p_rq (procs s q)"
      "\<And>q. q \<in> set xs \<Longrightarrow> p_state (procs s' q) = p_state (procs s q)"
    and g: "idleproc s' = idleproc s" "run_links s' = run_links s" "proc_num s' = proc_num s" "rq s' = rq s"
      "proc_links s' = proc_links s" "hash_links s' = hash_links s" "nr_process s' = nr_process s"
      "next_safe s' = next_safe s" "last_pid s' = last_pid s"
  shows "proc_inv s' ps C xs"
proof -
  have "hash_table s' (set ps) B = hash_table s (set ps) B" for B by (rule hash_table_cong) (simp_all add: f g)
  moreover have "pid_state s' ps = pid_state s ps" by (rule pid_state_cong) (simp_all add: f g)
  moreover have "family s' C = family s C" by (rule family_cong) (simp_all add: f)
  moreover have "run_queue s' xs = run_queue s xs" by (rule run_queue_cong) (simp_all add: f g)
  then have "sched_inv s' xs" using inv cx f(7) by (simp add: proc_inv_def sched_inv_def g)
  ultimately show ?thesis using inv by (simp add: proc_inv_def f g)
qed

lemma proc_inv_exit:
  fixes s s' :: "'z fkern_scheme"
  assumes inv: "proc_inv s ps C xs" and fam: "family s' (C(current s := [], i := rev (C (current s)) @ C i))"
    and sc: "sched_inv s' ys" and fr: "exit_frame i (set (C (current s))) s s'" and i: "i \<noteq> current s"
  shows "proc_inv s' ps (C(current s := [], i := rev (C (current s)) @ C i)) ys"
proof -
  have m: "kern.more s' = kern.more s" and f: "\<And>q. p_pid (procs s' q) = p_pid (procs s q)"
    "\<And>q. p_parent (procs s' q) = (if q \<in> set (C (current s)) then Some i else p_parent (procs s q))"
    using fr by (simp_all add: exit_frame_def)
  note m = pkern_more [OF m]
  have "hash_table s' (set ps) B = hash_table s (set ps) B" for B by (rule hash_table_cong) (simp_all add: f m)
  moreover have "pid_state s' ps = pid_state s ps" by (rule pid_state_cong) (simp_all add: f m)
  moreover have "set ((C(current s := [], i := rev (C (current s)) @ C i)) q) = {p \<in> set ps. p_parent (procs s' p) = Some q}" for q
    using inv i by (auto simp: proc_inv_def f)
  ultimately show ?thesis using inv fam sc by (simp add: proc_inv_def f m)
qed

text \<open>The process that exits is neither idle nor init, has a live parent, and init lives.\<close>

definition can_exit :: "'z fkern_scheme \<Rightarrow> pptr \<Rightarrow> pptr \<Rightarrow> bool" where
  "can_exit s i par \<longleftrightarrow>
     current s \<noteq> idleproc s \<and> initproc s = Some i \<and> i \<noteq> current s \<and> p_parent (procs s i) \<noteq> Some (current s) \<and>
     p_parent (procs s (current s)) = Some par \<and> par \<noteq> current s \<and>
     p_state (procs s i) \<noteq> PROC_ZOMBIE \<and> p_state (procs s par) \<noteq> PROC_ZOMBIE"

lemma maybe_wakeup:
  fixes s :: "'z fkern_scheme"
  assumes inv: "sched_inv s xs" and z: "p_state (procs s p) \<noteq> PROC_ZOMBIE"
  obtains s' ys where "(if b then wakeup_proc p s else Some s) = Some s'" and "sched_inv s' ys" "set ys \<subseteq> insert p (set xs)"
    and "\<And>q. pkeep (procs s' q) = pkeep (procs s q)" "kern.more s' = kern.more s" "current s' = current s"
    "idleproc s' = idleproc s" "initproc s' = initproc s" "p_state (procs s' p) \<noteq> PROC_ZOMBIE"
    and "\<And>q. q \<noteq> p \<Longrightarrow> p_state (procs s' q) = p_state (procs s q)" "b \<Longrightarrow> p_state (procs s' p) = PROC_RUNNABLE"
proof (cases b)
  case False
  then show ?thesis using that [of s xs] inv z by auto
next
  case True
  show ?thesis
  proof (rule wakeup_proc_inv [OF inv z])
    fix s' assume w: "wakeup_proc p s = Some s'"
      "sched_inv s' (if p_state (procs s p) = PROC_RUNNABLE \<or> p = current s \<or> p = idleproc s then xs else xs @ [p])"
      "p_state (procs s' p) = PROC_RUNNABLE" "\<And>q. q \<noteq> p \<Longrightarrow> p_state (procs s' q) = p_state (procs s q)"
      "current s' = current s" "idleproc s' = idleproc s" "initproc s' = initproc s" "kern.more s' = kern.more s"
    show thesis by (rule that [OF _ w(2) _ wakeup_proc_keep [OF w(1)]]) (use True w in \<open>auto split: if_splits\<close>)
  qed
qed

lemma proc_inv_maybe_wakeup:
  fixes s :: "'z fkern_scheme"
  assumes inv: "proc_inv s ps C xs" and z: "b \<longrightarrow> p_state (procs s p) \<noteq> PROC_ZOMBIE"
  shows "\<exists>s' ys. (if b then wakeup_proc p s else Some s) = Some s' \<and> proc_inv s' ps C ys \<and>
    p_flags (procs s' p) = p_flags (procs s p) \<and> (b \<longrightarrow> p_state (procs s' p) = PROC_RUNNABLE)"
proof (cases b)
  case True
  with z have z: "p_state (procs s p) \<noteq> PROC_ZOMBIE" by simp
  have sc: "sched_inv s xs" using inv by (simp add: proc_inv_def)
  obtain s' ys where s': "(if b then wakeup_proc p s else Some s) = Some s'" "sched_inv s' ys"
    "\<forall>q. pkeep (procs s' q) = pkeep (procs s q)" "kern.more s' = kern.more s" "b \<longrightarrow> p_state (procs s' p) = PROC_RUNNABLE"
    by (rule maybe_wakeup [OF sc z, of b]) blast
  have "proc_inv s' ps C ys" by (rule proc_inv_sched [OF inv s'(2)]) (use s' in auto)
  moreover have "p_flags (procs s' p) = p_flags (procs s p)" using pkeepD(10) s'(3) by blast
  ultimately show ?thesis using s'(1,5) by blast
next
  case False
  with inv show ?thesis by (intro exI [of _ s] exI [of _ xs]) simp
qed

lemma do_exit_correct:
  fixes s :: "'z fkern_scheme"
  assumes inv: "proc_inv s ps C xs" and ok: "can_exit s i par"
  defines "C' \<equiv> C(current s := [], i := rev (C (current s)) @ C i)"
  shows "\<exists>s' ys. do_exit code s = Some s' \<and> proc_inv s' ps C' ys \<and>
    p_state (procs s' (current s)) = PROC_ZOMBIE \<and> p_exit_code (procs s' (current s)) = code \<and> current s' \<noteq> current s \<and>
    (p_wait_state (procs s par) = WT_CHILD \<longrightarrow> p_state (procs s' par) = PROC_RUNNABLE \<or> par = i)"
proof -
  let ?c = "current s"
  have ok': "?c \<noteq> idleproc s" "initproc s = Some i" "i \<noteq> ?c" "p_parent (procs s i) \<noteq> Some ?c"
    "p_parent (procs s ?c) = Some par" "par \<noteq> ?c" "p_state (procs s i) \<noteq> PROC_ZOMBIE" "p_state (procs s par) \<noteq> PROC_ZOMBIE"
    using ok by (auto simp: can_exit_def)
  obtain s1 where e1: "exit_release s = Some s1"
    and p1: "\<forall>q. procs s1 q = (if q = ?c then (procs s q)\<lparr>p_mm := None\<rparr> else procs s q)"
    and f1: "current s1 = ?c" "idleproc s1 = idleproc s" "initproc s1 = initproc s" "run_links s1 = run_links s"
    "proc_num s1 = proc_num s" "rq s1 = rq s" "proc_links s1 = proc_links s" "hash_links s1 = hash_links s"
    "nr_process s1 = nr_process s" "next_safe s1 = next_safe s" "last_pid s1 = last_pid s"
    by (rule exit_release_total [of s]) blast
  note p1 = p1 [rule_format]
  define s3 where "s3 = upd_proc (current (put_fs (current s1) s1)) (\<lambda>x. x\<lparr>p_state := PROC_ZOMBIE, p_exit_code := code\<rparr>) (put_fs (current s1) s1)"
  have inv3: "proc_inv s3 ps C xs"
    by (rule proc_inv_cong [OF inv])
      (use inv in \<open>auto simp: s3_def f1 p1 proc_inv_def sched_inv_def\<close>)
  have p3: "p_parent (procs s3 ?c) = Some par" "p_state (procs s3 ?c) = PROC_ZOMBIE" "p_exit_code (procs s3 ?c) = code"
    "p_state (procs s3 par) \<noteq> PROC_ZOMBIE" "p_state (procs s3 i) \<noteq> PROC_ZOMBIE" "p_wait_state (procs s3 par) = p_wait_state (procs s par)"
    "current s3 = ?c" "initproc s3 = Some i" "idleproc s3 = idleproc s"
    using ok' by (simp_all add: s3_def f1 p1)
  have sc3: "sched_inv s3 xs" using inv3 by (simp add: proc_inv_def)
  obtain s4 zs where w: "(if p_wait_state (procs s3 par) = WT_CHILD then wakeup_proc par s3 else Some s3) = Some s4"
    and sc4: "sched_inv s4 zs" and f4: "\<forall>q. pkeep (procs s4 q) = pkeep (procs s3 q)" "kern.more s4 = kern.more s3"
      "current s4 = current s3" "idleproc s4 = idleproc s3" "initproc s4 = initproc s3" "p_state (procs s4 par) \<noteq> PROC_ZOMBIE"
      "\<forall>q. q \<noteq> par \<longrightarrow> p_state (procs s4 q) = p_state (procs s3 q)"
      "p_wait_state (procs s3 par) = WT_CHILD \<longrightarrow> p_state (procs s4 par) = PROC_RUNNABLE"
    by (rule maybe_wakeup [OF sc3 p3(4), of "p_wait_state (procs s3 par) = WT_CHILD"]) blast
  have inv4: "proc_inv s4 ps C zs" by (rule proc_inv_sched [OF inv3 sc4]) (use f4 in auto)
  have k4: "\<And>q. p_parent (procs s4 q) = p_parent (procs s3 q)" "\<And>q. p_exit_code (procs s4 q) = p_exit_code (procs s3 q)"
    using pkeepD(2,6) f4(1) by blast+
  have cur4: "current s4 = ?c" using f4(3) p3(7) by simp
  have kids: "i \<notin> set (C ?c)" "?c \<notin> set (C ?c)"
    using inv ok'(4-6) by (auto simp: proc_inv_def)
  have zi: "p_state (procs s4 i) \<noteq> PROC_ZOMBIE" using f4(6,7) p3(5) by metis
  have fam4: "family_y s4 C (\<lambda>_. None)" using inv4 by (simp add: proc_inv_def family_iff_y)
  obtain s5 ys where r: "reparent_loop i s4 = Some s5" and fam5: "family s5 (C(?c := [], i := rev (C ?c) @ C i))"
    and sc5: "sched_inv s5 ys" and fr: "exit_frame i (set (C ?c)) s4 s5"
    using reparent_loop_correct [OF fam4 refl _ _ _ _ sc4 zi] kids ok'(3) cur4 by auto
  have inv5: "proc_inv s5 ps C' ys"
    using proc_inv_exit [OF inv4, of s5 i ys] fam5 sc5 fr ok'(3) by (simp add: cur4 C'_def)
  have p5: "p_state (procs s5 ?c) = PROC_ZOMBIE" "p_exit_code (procs s5 ?c) = code" "current s5 = ?c" "idleproc s5 = idleproc s"
    "par \<noteq> i \<longrightarrow> p_state (procs s5 par) = p_state (procs s4 par)"
    using fr f4(4,7) p3 ok'(3,6) k4 cur4 by (auto simp: exit_frame_def)
  obtain s6 where s6: "schedule s5 = Some s6" "current s6 = sched_next s5 ys" "sched_inv s6 (tl (sched_candidates s5 ys))"
    "\<forall>q. p_state (procs s6 q) = p_state (procs s5 q)" "kern.more s6 = kern.more s5"
    by (rule schedule_inv [OF sc5]) blast
  have "sched_candidates s5 ys = ys" by (simp add: sched_candidates_def p5)
  then have "current s6 \<in> insert (idleproc s5) (set ys)" by (simp add: s6(2) sched_next_def split: list.splits)
  moreover have "?c \<notin> insert (idleproc s5) (set ys)" using sc5 ok'(1) p5 by (auto simp: sched_inv_def)
  ultimately have "current s6 \<noteq> ?c" by metis
  moreover have "do_exit code s = Some s6"
  proof -
    have "do_exit code s = do {
        par \<leftarrow> p_parent (procs s3 (current s3));
        s4 \<leftarrow> (if p_wait_state (procs s3 par) = WT_CHILD then wakeup_proc par s3 else Some s3);
        i \<leftarrow> initproc s4;
        s5 \<leftarrow> reparent_loop i s4;
        schedule s5 }"
      unfolding do_exit_def Let_def using e1 ok'(1,2,3) by (simp add: s3_def cong: if_cong)
    with w r s6(1) p3(1,7,8) f4(5) show ?thesis by simp
  qed
  moreover have "proc_inv s6 ps C' (tl (sched_candidates s5 ys))"
    by (rule proc_inv_sched [OF inv5 s6(3) schedule_keep [OF s6(1)] s6(5)])
  moreover have "p_exit_code (procs s6 ?c) = code" using pkeepD(6) [OF schedule_keep [OF s6(1)]] p5 by simp
  ultimately show ?thesis using s6(4) p5 f4(8) p3(6) by metis
qed

section \<open>The outcome of fork\<close>

lemma do_fork_correct:
  fixes s :: "'z fkern_scheme"
  assumes inv: "proc_inv s ps C xs" and fk: "forkable s" and fr: "fresh_answers ans s"
    and un: "\<forall>p. a_proc ans = Some p \<longrightarrow> unlisted s ps C p \<and> p \<notin> set xs"
  shows "\<exists>r s'. do_fork cf stack tf ans s = Some (r, s') \<and>
    (if r < 0 then (r = neg_errno E_NO_FREE_PROC \<and> s' = s \<or> r = neg_errno E_NO_MEM) \<and>
        held s' = held s \<and> proc_inv s' ps C xs
     else (\<exists>p. a_proc ans = Some p \<and> proc_inv s' (p # ps) (C(current s := p # C (current s))) (xs @ [p]) \<and>
        1 \<le> r \<and> r < MAX_PID \<and> r \<notin> proc_pids s ps \<and> p_pid (procs s' p) = r \<and>
        p_state (procs s' p) = PROC_RUNNABLE \<and> tf_regs (tfs s' (p_tf (procs s' p))) MIPS_REG_V0 = 0 \<and>
        current s' = current s \<and> held s \<subseteq> held s' \<and> R_proc p \<in> held s'))"
proof (cases "nr_process s \<ge> MAX_PROCESS")
  case True
  then show ?thesis using inv by (simp add: do_fork_def errno_of_def)
next
  case False
  obtain child r s1 where fs: "fork_setup cf ans s = Some (child, r, s1)" and t: "table_same s s1"
    and o: "\<forall>q. a_proc ans \<noteq> Some q \<longrightarrow> procs s1 q = procs s q"
    and bad: "child = None \<longrightarrow> r = neg_errno E_NO_MEM \<and> held s1 = held s \<and>
      (\<forall>g. a_fs ans \<noteq> Some g \<longrightarrow> fs_cnt s1 g = fs_cnt s g)"
    and good: "\<forall>p. child = Some p \<longrightarrow> a_proc ans = Some p \<and> held s \<subseteq> held s1 \<and> R_proc p \<in> held s1 \<and>
      R_kstack (p_kstack (procs s1 p)) \<in> held s1"
    and pr: "case a_proc ans of None \<Rightarrow> s1 = s | Some p \<Rightarrow> prepared s p (procs s1 p) \<and>
      run_links s1 = list_init (Some p) (run_links s) \<and> proc_links s1 = list_init (PLink p) (proc_links s)"
    by (rule fork_setup_result [OF fk fr])
  have inv1: "proc_inv s1 ps C xs"
  proof (cases "a_proc ans")
    case None
    with pr inv show ?thesis by simp
  next
    case (Some p)
    show ?thesis
      by (rule proc_inv_fresh [OF inv, of p]) (use Some un o pr t in \<open>auto simp: prepared_def\<close>)
  qed
  show ?thesis
  proof (cases child)
    case None
    with fs False bad inv1 show ?thesis by (simp add: do_fork_def errno_of_def)
  next
    case (Some p)
    with good have a: "a_proc ans = Some p" by blast
    with un t have u: "unlisted s1 ps C p" "p \<notin> set xs" by (auto simp: unlisted_def table_same_def)
    have cur: "current s1 = current s" "nr_process s1 = nr_process s" using t by (simp_all add: table_same_def)
    have p1: "prepared s1 p (procs s1 p)" using pr a cur by (simp add: prepared_def)
    have pids: "proc_pids s1 ps = proc_pids s ps"
      unfolding proc_pids_def by (rule image_cong) (use o a u in \<open>auto simp: unlisted_def\<close>)
    have nr1: "nr_process s1 < MAX_PROCESS" using False cur by simp
    obtain pid s' where fc: "fork_commit p stack tf s1 = Some (pid, s')"
      "proc_inv s' (p # ps) (C(current s1 := p # C (current s1))) (xs @ [p])"
      "1 \<le> pid" "pid < MAX_PID" "pid \<notin> proc_pids s1 ps" "p_pid (procs s' p) = pid"
      "p_state (procs s' p) = PROC_RUNNABLE" "current s' = current s1" "held s' = held s1"
      "tf_regs (tfs s' (p_tf (procs s' p))) MIPS_REG_V0 = 0"
      by (rule fork_commit_correct [OF inv1 u p1 nr1, of stack tf]) blast
    have "do_fork cf stack tf ans s = Some (pid, s')" using False fs Some fc(1) by (simp add: do_fork_def)
    with fc a good Some cur pids show ?thesis by auto
  qed
qed

section \<open>Wait\<close>

lemma wait_scan_correct:
  "sib_chain f y cs \<Longrightarrow>
   wait_scan f (first_of cs) hk = Some (find (\<lambda>p. p_state (f p) = PROC_ZOMBIE) cs, hk \<or> cs \<noteq> [])"
proof (induction cs arbitrary: y hk)
  case Nil
  then show ?case by (simp add: wait_scan.simps)
next
  case (Cons c cs)
  then show ?case by (subst wait_scan.simps) auto
qed

text \<open>The children a call of \<^verbatim>\<open>do_wait\<close> asks for: all, or the one with a pid.\<close>

definition waited :: "int \<Rightarrow> 'z fkern_scheme \<Rightarrow> pptr list \<Rightarrow> pptr set" where
  "waited pid s cs = {p \<in> set cs. pid = 0 \<or> p_pid (procs s p) = pid}"

lemma wait_find_correct:
  fixes s :: "'z fkern_scheme"
  assumes inv: "proc_inv s ps C xs"
  shows "\<exists>r. wait_find pid s = Some (r, waited pid s (C (current s)) \<noteq> {}) \<and>
    (case r of Some p \<Rightarrow> p \<in> waited pid s (C (current s)) \<and> p_state (procs s p) = PROC_ZOMBIE
             | None \<Rightarrow> \<forall>p \<in> waited pid s (C (current s)). p_state (procs s p) \<noteq> PROC_ZOMBIE)"
proof (cases "pid = 0")
  case True
  have "sib_chain (procs s) None (C (current s))" "p_cptr (procs s (current s)) = first_of (C (current s))"
    using inv by (auto simp: proc_inv_def family_def)
  then have w: "wait_find pid s = Some (find (\<lambda>p. p_state (procs s p) = PROC_ZOMBIE) (C (current s)), C (current s) \<noteq> [])"
    using True by (simp add: wait_find_def wait_scan_correct)
  show ?thesis
    by (rule exI [of _ "find (\<lambda>p. p_state (procs s p) = PROC_ZOMBIE) (C (current s))"])
      (use w True in \<open>auto simp: waited_def find_None_iff find_Some_iff split: option.splits\<close>)
next
  case False
  obtain B where h: "hash_table s (set ps) B" using inv by (auto simp: proc_inv_def)
  have kids: "p \<in> set (C (current s)) \<longleftrightarrow> p \<in> set ps \<and> p_parent (procs s p) = Some (current s)" for p
    using inv by (auto simp: proc_inv_def)
  have rng: "1 \<le> p_pid (procs s p) \<and> p_pid (procs s p) < MAX_PID" if "p \<in> set ps" for p
    using inv that by (auto simp: proc_inv_def)
  obtain r where r: "find_proc pid s = Some r"
    "case r of Some p \<Rightarrow> p \<in> set ps \<and> p_pid (procs s p) = pid \<and> 0 < pid \<and> pid < MAX_PID
             | None \<Rightarrow> 0 < pid \<and> pid < MAX_PID \<longrightarrow> (\<forall>p \<in> set ps. p_pid (procs s p) \<noteq> pid)"
    using find_proc_spec [OF h] by blast
  show ?thesis
  proof (cases r)
    case None
    have "p_pid (procs s p) \<noteq> pid" if "p \<in> set ps" for p using r(2) None rng [OF that] that by auto
    then have "waited pid s (C (current s)) = {}" using False kids by (auto simp: waited_def)
    with r(1) None False show ?thesis by (intro exI [of _ None]) (simp add: wait_find_def)
  next
    case (Some p)
    have "waited pid s (C (current s)) = (if p_parent (procs s p) = Some (current s) then {p} else {})"
      using inv r(2) Some False kids by (auto simp: waited_def proc_inv_def inj_on_def)
    with r(1) Some False show ?thesis
      by (intro exI [of _ "if p_parent (procs s p) = Some (current s) \<and> p_state (procs s p) = PROC_ZOMBIE then Some p else None"])
        (simp add: wait_find_def)
  qed
qed

lemma remove_links_frame:
  fixes s :: "'z fkern_scheme"
  assumes "remove_links p s = Some s'"
  shows "p_state (procs s' q) = p_state (procs s q)" "p_parent (procs s' q) = p_parent (procs s q)"
    "p_rq (procs s' q) = p_rq (procs s q)" "p_kstack (procs s' q) = p_kstack (procs s q)"
    "current s' = current s" "idleproc s' = idleproc s" "initproc s' = initproc s" "run_links s' = run_links s"
    "proc_num s' = proc_num s" "rq s' = rq s" "held s' = held s"
  using assms by (auto simp: remove_links_def Let_def split: option.splits)

lemma wait_reap_correct:
  fixes s :: "'z fkern_scheme"
  assumes inv: "proc_inv s ps C xs" and p: "p \<in> set (C (current s))" "p_state (procs s p) = PROC_ZOMBIE"
    and np: "p \<noteq> idleproc s" "Some p \<noteq> initproc s"
  obtains s' where "wait_reap p s = Some s'"
    and "proc_inv s' (remove1 p ps) (C(current s := remove1 p (C (current s)))) xs"
    and "held s' = held s - {R_proc p, R_kstack (p_kstack (procs s p))}" "current s' = current s"
proof -
  have mem: "p \<in> set ps" using inv p(1) by (auto simp: proc_inv_def)
  have r: "ring (proc_links s) PHead (map PLink ps)" using inv by (simp add: proc_inv_def pid_state_def)
  then have dps: "distinct ps" using ring_distinct by (fastforce simp: distinct_map)
  obtain us vs where ps: "ps = us @ p # vs" "p \<notin> set us" using split_list_first [OF mem] by blast
  have rps: "remove1 p ps = us @ vs" using ps by (simp add: remove1_append)
  have dC: "distinct (C (current s))" using inv by (auto simp: proc_inv_def family_def)
  obtain a b where C: "C (current s) = a @ p # b" "p \<notin> set a" using split_list_first [OF p(1)] by blast
  have rC: "remove1 p (C (current s)) = a @ b" using C by (simp add: remove1_append)
  obtain B where h: "hash_table s (set ps) B" using inv by (auto simp: proc_inv_def)
  obtain B' where h1: "hash_table (unhash_proc p s) (set ps - {p}) B'" by (rule unhash_proc_table [OF h mem])
  have u1: "procs (unhash_proc p s) = procs s" "proc_links (unhash_proc p s) = proc_links s"
    "nr_process (unhash_proc p s) = nr_process s" "last_pid (unhash_proc p s) = last_pid s"
    "next_safe (unhash_proc p s) = next_safe s" "current (unhash_proc p s) = current s" "idleproc (unhash_proc p s) = idleproc s"
    "run_links (unhash_proc p s) = run_links s" "proc_num (unhash_proc p s) = proc_num s" "rq (unhash_proc p s) = rq s"
    "held (unhash_proc p s) = held s"
    by (simp_all add: unhash_proc_def)
  have f1: "family (unhash_proc p s) C" using inv family_cong [of "unhash_proc p s" s C] by (simp add: proc_inv_def u1)
  obtain s2 where rl: "remove_links p (unhash_proc p s) = Some s2" and f2: "family s2 (C(current s := a @ b))"
    and pl: "proc_links s2 = list_del (PLink p) (proc_links (unhash_proc p s))" and nr: "nr_process s2 = nr_process s - 1"
    and pid: "\<forall>q. p_pid (procs s2 q) = p_pid (procs (unhash_proc p s) q)" and hl: "hash_links s2 = hash_links (unhash_proc p s)"
    and lp: "last_pid s2 = last_pid (unhash_proc p s)" "next_safe s2 = next_safe (unhash_proc p s)"
    by (rule remove_links_family [OF f1 C(1)]) (use u1 in simp)
  note fr = remove_links_frame [OF rl]
  let ?s' = "release (R_proc p) (put_kstack p s2)"
  have s': "procs ?s' = procs s2" "proc_links ?s' = proc_links s2" "hash_links ?s' = hash_links s2" "nr_process ?s' = nr_process s2"
    "last_pid ?s' = last_pid s2" "next_safe ?s' = next_safe s2" "current ?s' = current s" "idleproc ?s' = idleproc s"
    "run_links ?s' = run_links s" "proc_num ?s' = proc_num s" "rq ?s' = rq s"
    by (simp_all add: release_def put_kstack_def fr u1)
  have "ring (proc_links ?s') PHead (map PLink (us @ vs))"
    using ring_del [of "proc_links s" PHead "map PLink us" "PLink p" "map PLink vs"] r ps pl by (simp add: s' u1)
  moreover have "proc_pids ?s' (us @ vs) \<subseteq> proc_pids s ps" using pid ps by (auto simp: proc_pids_def s' u1)
  ultimately have "pid_state ?s' (us @ vs)"
    using inv unfolding proc_inv_def pid_state_def pid_safe_def by (auto simp: s' lp u1)
  moreover have "hash_table ?s' (set (us @ vs)) B'"
    using h1 hash_table_cong [of ?s' "unhash_proc p s" "set (us @ vs)" B'] pid ps dps by (simp add: s' hl)
  moreover have "family ?s' (C(current s := a @ b))" using f2 family_cong [of ?s' s2] by (simp add: s')
  moreover have "run_queue ?s' xs = run_queue s xs" by (rule run_queue_cong) (simp_all add: s' fr u1)
  then have "sched_inv ?s' xs" using inv by (simp add: proc_inv_def sched_inv_def s' fr u1)
  moreover have "inj_on (\<lambda>q. p_pid (procs ?s' q)) (set (us @ vs))"
    using inv ps pid by (auto simp: proc_inv_def s' u1 inj_on_def)
  moreover have "set ((C(current s := a @ b)) q) = {x \<in> set (us @ vs). p_parent (procs ?s' x) = Some q}" for q
  proof -
    have k: "set (C q) = {x \<in> set ps. p_parent (procs s x) = Some q}" and kc: "set (a @ p # b) = {x \<in> set ps. p_parent (procs s x) = Some (current s)}"
      using inv C(1) unfolding proc_inv_def by metis+
    have "p_parent (procs s p) = Some (current s)" using kc by auto
    then show ?thesis using k kc ps dps dC C by (auto simp: s' fr u1)
  qed
  moreover have "\<forall>q \<in> set (us @ vs). 1 \<le> p_pid (procs ?s' q) \<and> p_pid (procs ?s' q) < MAX_PID"
    using inv ps pid by (auto simp: proc_inv_def s' u1)
  ultimately have "proc_inv ?s' (us @ vs) (C(current s := a @ b)) xs"
    using inv ps nr unfolding proc_inv_def by (auto simp: s')
  moreover have "held ?s' = held s - {R_proc p, R_kstack (p_kstack (procs s p))}"
    by (auto simp: release_def put_kstack_def fr u1)
  moreover have "wait_reap p s = Some ?s'" using np rl by (simp add: wait_reap_def Let_def)
  ultimately show ?thesis using that s'(7) rps rC by metis
qed

section \<open>A concrete process table\<close>

text \<open>Process 3 runs and is a child of init (1); its children are 6, asleep, and 5, a zombie.\<close>

definition life_proc :: "pptr \<Rightarrow> proc_struct" where
  "life_proc = demo_proc(3 := (demo_proc 3)\<lparr>p_parent := Some 1, p_fs_struct := Some 0\<rparr>,
     5 := (demo_proc 5)\<lparr>p_state := PROC_ZOMBIE, p_exit_code := 7\<rparr>)"

definition demo_life :: fkern where
  "demo_life = (pkern.extend demo_table \<lparr>held = {R_proc 5, R_kstack 0}, mm_cnt = (\<lambda>_. 0), mm_pgd = (\<lambda>_. 0), fs_cnt = (\<lambda>_. 1),
     boot_cr3 = 0, forkret_pc = 0, tfs = (\<lambda>_. \<lparr>tf_vaddr = 0, tf_status = 0, tf_cause = 0, tf_lo = 0, tf_hi = 0,
       tf_ra = 0, tf_regs = (\<lambda>_. 0), tf_epc = 0\<rparr>)\<rparr>)\<lparr>procs := life_proc\<rparr>"

abbreviation life_kids :: "pptr \<Rightarrow> pptr list" where
  "life_kids \<equiv> \<lambda>p. if p = 3 then [6, 5] else []"

lemma demo_life_simps [simp]:
  "procs demo_life = life_proc" "current demo_life = 3" "idleproc demo_life = 0" "initproc demo_life = Some 1"
  "proc_links demo_life = proc_links demo_table" "hash_links demo_life = hash_links demo_table"
  "next_safe demo_life = 5" "last_pid demo_life = 4" "nr_process demo_life = 3" "run_links demo_life = run_links demo_kern"
  "proc_num demo_life = proc_num demo_kern" "rq demo_life = rq demo_kern" "held demo_life = {R_proc 5, R_kstack 0}"
  "fs_cnt demo_life = (\<lambda>_. 1)"
  by (simp_all add: demo_life_def pkern.defs demo_table_def wkern.defs demo_wait_def kern.defs demo_kern_def)

lemma life_proc_fields:
  "p_pid (life_proc p) = int p" "p_rq (life_proc p) = p_rq (procs demo_kern p)"
  "p_state (life_proc p) = (if p = 5 then PROC_ZOMBIE else if p \<le> 3 then PROC_RUNNABLE else PROC_SLEEPING)"
  "p_parent (life_proc p) = (if p = 5 \<or> p = 6 then Some 3 else if p = 3 then Some 1 else None)"
  "p_cptr (life_proc p) = (if p = 3 then Some 6 else None)" "p_optr (life_proc p) = (if p = 6 then Some 5 else None)"
  "p_yptr (life_proc p) = (if p = 5 then Some 6 else None)" "p_wait_state (life_proc p) = 0" "p_flags (life_proc p) = 0"
  "p_mm (life_proc p) = None" "p_fs_struct (life_proc 3) = Some 0" "p_exit_code (life_proc 5) = 7" "p_kstack (life_proc p) = 0"
  by (simp_all add: life_proc_def demo_proc_def demo_kern_def blank_proc_def)

lemma demo_life_inv: "proc_inv demo_life [6, 5] life_kids [1, 2]"
proof -
  have "pid_state demo_life [6, 5]"
    using demo_table_pids by (simp add: pid_state_def proc_pids_def life_proc_fields demo_proc_def)
  moreover obtain B where "hash_table demo_table {5, 6} B" using demo_table_hash by blast
  then have "hash_table demo_life (set [6, 5]) B"
    by (simp add: hash_table_def life_proc_fields demo_proc_def insert_commute)
  moreover have "family demo_life life_kids" by (simp add: family_def life_proc_fields)
  moreover have "run_queue demo_kern [1, 2]" using demo_kern_inv by (simp add: sched_inv_def)
  then have "sched_inv demo_life [1, 2]" by (simp add: sched_inv_def run_queue_def life_proc_fields)
  moreover have "inj_on (\<lambda>p. p_pid (procs demo_life p)) (set [6, 5])" by (simp add: life_proc_fields)
  moreover have "set (life_kids q) = {p \<in> set [6, 5]. p_parent (procs demo_life p) = Some q}" for q
    by (auto simp: life_proc_fields)
  ultimately show ?thesis by (auto simp: proc_inv_def life_proc_fields MAX_PID_def MAX_PROCESS_def)
qed

definition demo_answers :: fork_answers where
  "demo_answers = \<lparr>a_proc = Some 9, a_kstack = Some 0x1000, a_fs = Some 4, a_dup_fs = 0, a_mm = Some 2,
     a_pgdir = Some 0x80001000, a_dup_mmap = 0\<rparr>"

section \<open>Properties\<close>





text \<open>
  C26: \<^verbatim>\<open>do_wait\<close> does exactly what is due. With a bad result address it returns
  \<^verbatim>\<open>-E_INVAL\<close>; when the caller has no child it asked for, \<^verbatim>\<open>-E_BAD_PROC\<close>; when one of them is a zombie, it
  returns 0 with the exit code of such a zombie (unless the result address is null), whose descriptor and kernel stack are released and
  which is gone from all tables; otherwise the caller sleeps for a child. It never panics and the
  tables stay consistent.\<close>
theorem do_wait_reaps:
  fixes s :: "'z fkern_scheme"
  assumes inv: "proc_inv s ps C xs" and np: "\<forall>p \<in> set (C (current s)). p \<noteq> idleproc s \<and> Some p \<noteq> initproc s"
  shows "\<exists>res s'. do_wait pid mem_ok s = Some (res, s') \<and>
    (if mem_ok = Some False then res = Wait_return (neg_errno E_INVAL) None \<and> s' = s
     else if waited pid s (C (current s)) = {} then res = Wait_return (neg_errno E_BAD_PROC) None \<and> s' = s
     else if \<exists>p \<in> waited pid s (C (current s)). p_state (procs s p) = PROC_ZOMBIE
     then \<exists>p \<in> waited pid s (C (current s)). p_state (procs s p) = PROC_ZOMBIE \<and>
       res = Wait_return 0 (if mem_ok = None then None else Some (p_exit_code (procs s p))) \<and>
       proc_inv s' (remove1 p ps) (C(current s := remove1 p (C (current s)))) xs \<and>
       held s' = held s - {R_proc p, R_kstack (p_kstack (procs s p))}
     else res = Wait_blocked \<and> (\<exists>ys. proc_inv s' ps C ys) \<and>
       p_state (procs s' (current s)) = PROC_SLEEPING \<and> p_wait_state (procs s' (current s)) = WT_CHILD)"
proof (cases "mem_ok = Some False")
  case True
  then show ?thesis by (simp add: do_wait_def)
next
  case ok: False
  let ?W = "waited pid s (C (current s))"
  obtain r where f: "wait_find pid s = Some (r, ?W \<noteq> {})"
    and r: "case r of Some p \<Rightarrow> p \<in> ?W \<and> p_state (procs s p) = PROC_ZOMBIE
      | None \<Rightarrow> \<forall>p \<in> ?W. p_state (procs s p) \<noteq> PROC_ZOMBIE"
    using wait_find_correct [OF inv] by blast
  show ?thesis
  proof (cases r)
    case (Some p)
    with r have p: "p \<in> ?W" "p \<in> set (C (current s))" "p_state (procs s p) = PROC_ZOMBIE" by (auto simp: waited_def)
    obtain s' where "wait_reap p s = Some s'" "proc_inv s' (remove1 p ps) (C(current s := remove1 p (C (current s)))) xs"
      "held s' = held s - {R_proc p, R_kstack (p_kstack (procs s p))}"
      using wait_reap_correct [OF inv p(2,3)] np p(2) by metis
    with f Some p ok show ?thesis
      by (intro exI [of _ "Wait_return 0 (if mem_ok = None then None else Some (p_exit_code (procs s p)))"] exI [of _ s'])
        (auto simp: do_wait_def wait_pass_def)
  next
    case None
    show ?thesis
    proof (cases "?W = {}")
      case True
      with f None ok show ?thesis by (simp add: do_wait_def wait_pass_def)
    next
      case False
      let ?s1 = "upd_proc (current s) (\<lambda>x. x\<lparr>p_state := PROC_SLEEPING, p_wait_state := WT_CHILD\<rparr>) s"
      have inv1: "proc_inv ?s1 ps C xs"
        by (rule proc_inv_cong [OF inv]) (use inv in \<open>auto simp: proc_inv_def sched_inv_def\<close>)
      then have sc: "sched_inv ?s1 xs" by (simp add: proc_inv_def)
      obtain s' where s': "schedule ?s1 = Some s'" "sched_inv s' (tl (sched_candidates ?s1 xs))"
        "\<forall>q. p_state (procs s' q) = p_state (procs ?s1 q)" "\<forall>q. p_wait_state (procs s' q) = p_wait_state (procs ?s1 q)"
        "kern.more s' = kern.more ?s1"
        by (rule schedule_inv [OF sc]) blast
      have "proc_inv s' ps C (tl (sched_candidates ?s1 xs))"
        by (rule proc_inv_sched [OF inv1 s'(2) schedule_keep [OF s'(1)] s'(5)])
      with f None ok False r s' show ?thesis
        by (intro exI [of _ Wait_blocked] exI [of _ s']) (auto simp: do_wait_def wait_pass_def)
    qed
  qed
qed

theorem do_wait_reaps_witness:
  "\<exists>s'. do_wait 0 (Some True) demo_life = Some (Wait_return 0 (Some 7), s') \<and>
     proc_inv s' [6] (life_kids(3 := [6])) [1, 2] \<and> held s' = {}"
proof -
  have "\<forall>p \<in> set (life_kids (current demo_life)). p \<noteq> idleproc demo_life \<and> Some p \<noteq> initproc demo_life" by simp
  moreover have "waited 0 demo_life (life_kids (current demo_life)) = {6, 5}" by (auto simp: waited_def)
  moreover have "(\<exists>p \<in> {6, 5}. p_state (procs demo_life p) = PROC_ZOMBIE)" by (simp add: life_proc_fields)
  ultimately show ?thesis using do_wait_reaps [OF demo_life_inv, of 0 "Some True"] by (auto simp: life_proc_fields)
qed

text \<open>
  \<^verbatim>\<open>do_kill\<close> marks exactly the process with the pid. An unknown pid gives \<^verbatim>\<open>-E_INVAL\<close> and a
  process already marked \<^verbatim>\<open>-E_KILLED\<close>, both without any effect; otherwise the process is marked
  as exiting, and if it sleeps interruptibly it is made runnable.\<close>
theorem do_kill_marks:
  fixes s :: "'z fkern_scheme"
  assumes inv: "proc_inv s ps C xs"
    and zw: "\<forall>p \<in> set ps. p_wait_state (procs s p) AND WT_INTERRUPTED \<noteq> 0 \<longrightarrow> p_state (procs s p) \<noteq> PROC_ZOMBIE"
  shows "\<exists>r s'. do_kill pid s = Some (r, s') \<and>
    (if \<forall>p \<in> set ps. p_pid (procs s p) \<noteq> pid then r = neg_errno E_INVAL \<and> s' = s
     else \<exists>p \<in> set ps. p_pid (procs s p) = pid \<and>
       (if p_flags (procs s p) AND PF_EXITING \<noteq> 0 then r = neg_errno E_KILLED \<and> s' = s
        else r = 0 \<and> p_flags (procs s' p) = p_flags (procs s p) OR PF_EXITING \<and> (\<exists>ys. proc_inv s' ps C ys) \<and>
          (p_wait_state (procs s p) AND WT_INTERRUPTED \<noteq> 0 \<longrightarrow> p_state (procs s' p) = PROC_RUNNABLE)))"
proof -
  obtain B where h: "hash_table s (set ps) B" using inv by (auto simp: proc_inv_def)
  have rng: "1 \<le> p_pid (procs s p) \<and> p_pid (procs s p) < MAX_PID" if "p \<in> set ps" for p
    using inv that by (auto simp: proc_inv_def)
  obtain r where r: "find_proc pid s = Some r"
    "case r of Some p \<Rightarrow> p \<in> set ps \<and> p_pid (procs s p) = pid \<and> 0 < pid \<and> pid < MAX_PID
             | None \<Rightarrow> 0 < pid \<and> pid < MAX_PID \<longrightarrow> (\<forall>p \<in> set ps. p_pid (procs s p) \<noteq> pid)"
    using find_proc_spec [OF h] by blast
  show ?thesis
  proof (cases r)
    case None
    then have "\<forall>p \<in> set ps. p_pid (procs s p) \<noteq> pid" using r(2) rng by fastforce
    with r(1) None show ?thesis by (simp add: do_kill_def)
  next
    case (Some p)
    with r(2) have p: "p \<in> set ps" "p_pid (procs s p) = pid" by auto
    show ?thesis
    proof (cases "p_flags (procs s p) AND PF_EXITING = 0")
      case False
      with r(1) Some p show ?thesis by (auto simp: do_kill_def)
    next
      case True
      let ?s1 = "upd_proc p (\<lambda>x. x\<lparr>p_flags := p_flags x OR PF_EXITING\<rparr>) s"
      let ?b = "p_wait_state (procs ?s1 p) AND WT_INTERRUPTED \<noteq> 0"
      have inv1: "proc_inv ?s1 ps C xs"
        by (rule proc_inv_cong [OF inv]) (use inv in \<open>auto simp: proc_inv_def sched_inv_def\<close>)
      have z: "?b \<longrightarrow> p_state (procs ?s1 p) \<noteq> PROC_ZOMBIE" using zw p(1) by simp
      note proc_inv_maybe_wakeup [OF inv1 z]
      then obtain s' ys where s': "(if ?b then wakeup_proc p ?s1 else Some ?s1) = Some s'" "proc_inv s' ps C ys"
        "p_flags (procs s' p) = p_flags (procs ?s1 p)" "?b \<longrightarrow> p_state (procs s' p) = PROC_RUNNABLE" by blast
      then have "do_kill pid s = Some (0, s')" using r(1) Some True by (simp add: do_kill_def Let_def)
      with s' p True show ?thesis by (intro exI [of _ 0] exI [of _ s']) auto
    qed
  qed
qed

theorem do_kill_marks_witness:
  "\<exists>s'. do_kill 6 demo_life = Some (0, s') \<and> p_flags (procs s' 6) = 1"
  using do_kill_marks [OF demo_life_inv, of 6] by (auto simp: life_proc_fields PF_EXITING_def)

end
