(* ===== verification/Buddy.thy ===== *)
theory Buddy
  imports Clist
begin

text \<open>
  The page descriptors of \<^verbatim>\<open>kern/mm/memlayout.h\<close> and the buddy allocator
  \<^verbatim>\<open>kern/mm/buddy_pmm.c\<close>, which \<^verbatim>\<open>pmm.c\<close> installs as the physical page manager.
  A \<^verbatim>\<open>struct Page *\<close> is the index of the descriptor in the array \<^verbatim>\<open>pages\<close>, which is also the
  physical page number. The free lists are the pointer lists of \<open>Clist\<close> with one head cell
  per order. \<^verbatim>\<open>property\<close> and the page indices are naturals: they are bounded by the number of
  pages. The free counters are 32-bit words.
\<close>

section \<open>Page descriptors\<close>

datatype fcell = FHead nat | FPage nat

record page =
  pg_ref :: int
  pg_flags :: u32
  pg_property :: nat
  pg_zone_num :: nat

definition PG_reserved :: nat where "PG_reserved = 0"
definition PG_property :: nat where "PG_property = 1"

record pmm =
  pages :: "nat \<Rightarrow> page"
  npage :: nat
  free_links :: "fcell links"
  nr_free :: "nat \<Rightarrow> u32"
  zones :: "nat \<Rightarrow> nat"
  zone_num :: nat

definition upd_page :: "nat \<Rightarrow> (page \<Rightarrow> page) \<Rightarrow> 'z pmm_scheme \<Rightarrow> 'z pmm_scheme" where
  "upd_page p f s = s\<lparr>pages := (pages s)(p := f (pages s p))\<rparr>"

definition SetPageReserved :: "nat \<Rightarrow> 'z pmm_scheme \<Rightarrow> 'z pmm_scheme" where
  "SetPageReserved p = upd_page p (\<lambda>x. x\<lparr>pg_flags := set_bit PG_reserved (pg_flags x)\<rparr>)"

definition PageReserved :: "'z pmm_scheme \<Rightarrow> nat \<Rightarrow> bool" where
  "PageReserved s p = bit (pg_flags (pages s p)) PG_reserved"

definition SetPageProperty :: "nat \<Rightarrow> 'z pmm_scheme \<Rightarrow> 'z pmm_scheme" where
  "SetPageProperty p = upd_page p (\<lambda>x. x\<lparr>pg_flags := set_bit PG_property (pg_flags x)\<rparr>)"

definition ClearPageProperty :: "nat \<Rightarrow> 'z pmm_scheme \<Rightarrow> 'z pmm_scheme" where
  "ClearPageProperty p = upd_page p (\<lambda>x. x\<lparr>pg_flags := unset_bit PG_property (pg_flags x)\<rparr>)"

definition PageProperty :: "'z pmm_scheme \<Rightarrow> nat \<Rightarrow> bool" where
  "PageProperty s p = bit (pg_flags (pages s p)) PG_property"

definition set_page_ref :: "nat \<Rightarrow> int \<Rightarrow> 'z pmm_scheme \<Rightarrow> 'z pmm_scheme" where
  "set_page_ref p v = upd_page p (\<lambda>x. x\<lparr>pg_ref := v\<rparr>)"

section \<open>buddy_pmm.c\<close>

definition MAX_ORDER :: nat where "MAX_ORDER = 10"
definition MAX_ZONE_NUM :: nat where "MAX_ZONE_NUM = 10"

definition upd_nr_free :: "nat \<Rightarrow> (u32 \<Rightarrow> u32) \<Rightarrow> 'z pmm_scheme \<Rightarrow> 'z pmm_scheme" where
  "upd_nr_free i f s = s\<lparr>nr_free := (nr_free s)(i := f (nr_free s i))\<rparr>"

definition buddy_init :: "'z pmm_scheme \<Rightarrow> 'z pmm_scheme" where
  "buddy_init s =
     fold (\<lambda>i s. upd_nr_free i (\<lambda>_. 0) (s\<lparr>free_links := list_init (FHead i) (free_links s)\<rparr>))
       [0..<MAX_ORDER + 1] s"

text \<open>The three statements that put the block at \<open>p\<close> on the free list of an order.\<close>

definition free_list_add :: "nat \<Rightarrow> nat \<Rightarrow> 'z pmm_scheme \<Rightarrow> 'z pmm_scheme" where
  "free_list_add order p s =
     (let s1 = upd_page p (\<lambda>x. x\<lparr>pg_property := order\<rparr>) s;
          s2 = SetPageProperty p s1;
          s3 = s2\<lparr>free_links := list_add (FHead order) (FPage p) (free_links s2)\<rparr>
      in upd_nr_free order (\<lambda>c. c + 1) s3)"

fun memmap_init_pages :: "nat \<Rightarrow> nat \<Rightarrow> 'z pmm_scheme \<Rightarrow> 'z pmm_scheme kernel" where
  "memmap_init_pages p 0 s = Some s"
| "memmap_init_pages p (Suc n) s = do {
     kassert (PageReserved s p);
     let s1 = upd_page p (\<lambda>x. x\<lparr>pg_flags := 0, pg_property := 0, pg_zone_num := zone_num s\<rparr>) s;
     memmap_init_pages (p + 1) n (set_page_ref p 0 s1)
   }"

function memmap_fill :: "nat \<Rightarrow> nat \<Rightarrow> nat \<Rightarrow> 'z pmm_scheme \<Rightarrow> 'z pmm_scheme kernel" where
  "memmap_fill n order p s =
     (if n = 0 then Some s
      else if n \<ge> 2 ^ order then memmap_fill (n - 2 ^ order) order (p + 2 ^ order) (free_list_add order p s)
      else if order = 0 then None
      else memmap_fill n (order - 1) p s)"
  by pat_completeness auto
termination
  by (relation "measures [\<lambda>(n, order, _). order, \<lambda>(n, order, _). n]") auto

declare memmap_fill.simps [simp del]

definition buddy_init_memmap :: "nat \<Rightarrow> nat \<Rightarrow> 'z pmm_scheme \<Rightarrow> 'z pmm_scheme kernel" where
  "buddy_init_memmap base n s = do {
     kassert (0 < n \<and> zone_num s < MAX_ZONE_NUM);
     s1 \<leftarrow> memmap_init_pages base n s;
     let s2 = s1\<lparr>zones := (zones s1)(zone_num s1 := base), zone_num := zone_num s1 + 1\<rparr>;
     memmap_fill n MAX_ORDER base s2
   }"

function getorder_loop :: "nat \<Rightarrow> nat \<Rightarrow> nat \<Rightarrow> nat kernel" where
  "getorder_loop n order order_size =
     (if order \<le> MAX_ORDER
      then if n \<le> order_size then Some order else getorder_loop n (order + 1) (2 * order_size)
      else panic)"
  by pat_completeness auto
termination
  by (relation "measure (\<lambda>(n, order, size). MAX_ORDER + 1 - order)") auto

declare getorder_loop.simps [simp del]

definition getorder :: "nat \<Rightarrow> nat kernel" where
  "getorder n = getorder_loop n 0 1"

text \<open>\<^verbatim>\<open>while (cur_order > order)\<close>: the upper half goes back to the free list.\<close>

fun buddy_split :: "nat \<Rightarrow> nat \<Rightarrow> nat \<Rightarrow> 'z pmm_scheme \<Rightarrow> 'z pmm_scheme" where
  "buddy_split order 0 pg s = s"
| "buddy_split order (Suc cur_order) pg s =
     (if Suc cur_order > order
      then buddy_split order cur_order pg (free_list_add cur_order (pg + 2 ^ cur_order) s)
      else s)"

function buddy_alloc_search :: "nat \<Rightarrow> nat \<Rightarrow> 'z pmm_scheme \<Rightarrow> (nat option \<times> 'z pmm_scheme) kernel" where
  "buddy_alloc_search order cur_order s =
     (if cur_order \<le> MAX_ORDER then
        if \<not> list_empty (free_links s) (FHead cur_order) then
          (case list_next (free_links s) (FHead cur_order) of
             FHead _ \<Rightarrow> None
           | FPage pg \<Rightarrow>
               let s1 = upd_nr_free cur_order (\<lambda>c. c - 1) s;
                   s2 = s1\<lparr>free_links := list_del (FPage pg) (free_links s1)\<rparr>;
                   s3 = buddy_split order cur_order pg s2
               in Some (Some pg, ClearPageProperty pg s3))
        else buddy_alloc_search order (cur_order + 1) s
      else Some (None, s))"
  by pat_completeness auto
termination
  by (relation "measure (\<lambda>(order, cur, s). MAX_ORDER + 1 - cur)") auto

declare buddy_alloc_search.simps [simp del]

definition buddy_alloc_pages_sub :: "nat \<Rightarrow> 'z pmm_scheme \<Rightarrow> (nat option \<times> 'z pmm_scheme) kernel" where
  "buddy_alloc_pages_sub order s = do {
     kassert (order \<le> MAX_ORDER);
     buddy_alloc_search order order s
   }"

definition page_is_buddy :: "'z pmm_scheme \<Rightarrow> nat \<Rightarrow> nat \<Rightarrow> nat \<Rightarrow> bool" where
  "page_is_buddy s pg order zn \<longleftrightarrow>
     pg < npage s \<and> pg_zone_num (pages s pg) = zn \<and>
     \<not> PageReserved s pg \<and> PageProperty s pg \<and> pg_property (pages s pg) = order"

definition page2idx :: "'z pmm_scheme \<Rightarrow> nat \<Rightarrow> nat" where
  "page2idx s pg = pg - zones s (pg_zone_num (pages s pg))"

definition idx2page :: "'z pmm_scheme \<Rightarrow> nat \<Rightarrow> nat \<Rightarrow> nat" where
  "idx2page s zn idx = zones s zn + idx"

fun free_clear_pages :: "nat \<Rightarrow> nat \<Rightarrow> 'z pmm_scheme \<Rightarrow> 'z pmm_scheme kernel" where
  "free_clear_pages p 0 s = Some s"
| "free_clear_pages p (Suc n) s = do {
     kassert (\<not> PageReserved s p \<and> \<not> PageProperty s p);
     free_clear_pages (p + 1) n (set_page_ref p 0 (upd_page p (\<lambda>x. x\<lparr>pg_flags := 0\<rparr>) s))
   }"

function buddy_merge :: "nat \<Rightarrow> nat \<Rightarrow> nat \<Rightarrow> 'z pmm_scheme \<Rightarrow> nat \<times> nat \<times> 'z pmm_scheme" where
  "buddy_merge zn order page_idx s =
     (if order < MAX_ORDER then
        let buddy_idx = page_idx XOR 2 ^ order;
            buddy = idx2page s zn buddy_idx
        in if \<not> page_is_buddy s buddy order zn then (order, page_idx, s)
           else let s1 = upd_nr_free order (\<lambda>c. c - 1) s;
                    s2 = s1\<lparr>free_links := list_del (FPage buddy) (free_links s1)\<rparr>;
                    s3 = ClearPageProperty buddy s2
                in buddy_merge zn (order + 1) (page_idx AND buddy_idx) s3
      else (order, page_idx, s))"
  by pat_completeness auto
termination
  by (relation "measure (\<lambda>(zn, order, idx, s). MAX_ORDER - order)") auto

declare buddy_merge.simps [simp del]

definition buddy_free_pages_sub :: "nat \<Rightarrow> nat \<Rightarrow> 'z pmm_scheme \<Rightarrow> 'z pmm_scheme kernel" where
  "buddy_free_pages_sub base order s = do {
     let page_idx = page2idx s base;
     kassert (page_idx AND (2 ^ order - 1) = 0);
     s1 \<leftarrow> free_clear_pages base (2 ^ order) s;
     let zn = pg_zone_num (pages s1 base);
     let (order', idx', s2) = buddy_merge zn order page_idx s1;
     Some (free_list_add order' (idx2page s2 zn idx') s2)
   }"

text \<open>
  \<^verbatim>\<open>buddy_free_pages\<close>: first blocks of growing order up to the alignment of the base, then
  blocks of shrinking order. The loops carry \<open>order\<close> and \<open>order_size\<close> as the code does.
\<close>

partial_function (option) free_up_loop :: "nat \<Rightarrow> nat \<Rightarrow> nat \<Rightarrow> nat \<Rightarrow> 'z pmm_scheme \<Rightarrow>
    (nat \<times> nat \<times> nat \<times> nat \<times> 'z pmm_scheme) kernel" where
  "free_up_loop base n order order_size s =
     (if n \<ge> order_size then do {
        kassert (order \<le> MAX_ORDER);
        if page2idx s base AND order_size \<noteq> 0 then do {
          s1 \<leftarrow> buddy_free_pages_sub base order s;
          free_up_loop (base + order_size) (n - order_size) (order + 1) (2 * order_size) s1
        }
        else free_up_loop base n (order + 1) (2 * order_size) s
      }
      else Some (base, n, order, order_size, s))"

fun shrink_order :: "nat \<Rightarrow> nat \<Rightarrow> nat \<times> nat" where
  "shrink_order n 0 = (0, 1)"
| "shrink_order n (Suc order) =
     (if n < 2 ^ Suc order then shrink_order n order else (Suc order, 2 ^ Suc order))"

partial_function (option) free_down_loop :: "nat \<Rightarrow> nat \<Rightarrow> nat \<Rightarrow> 'z pmm_scheme \<Rightarrow> 'z pmm_scheme kernel" where
  "free_down_loop base n order s =
     (if n \<noteq> 0 then
        let (order', order_size) = shrink_order n order
        in do {
          s1 \<leftarrow> buddy_free_pages_sub base order' s;
          free_down_loop (base + order_size) (n - order_size) order' s1
        }
      else Some s)"

definition buddy_free_pages :: "nat \<Rightarrow> nat \<Rightarrow> 'z pmm_scheme \<Rightarrow> 'z pmm_scheme kernel" where
  "buddy_free_pages base n s = do {
     kassert (0 < n);
     if n = 1 then buddy_free_pages_sub base 0 s
     else do {
       (base', n', order, order_size, s1) \<leftarrow> free_up_loop base n 0 1 s;
       free_down_loop base' n' order s1
     }
   }"

definition buddy_alloc_pages :: "nat \<Rightarrow> 'z pmm_scheme \<Rightarrow> (nat option \<times> 'z pmm_scheme) kernel" where
  "buddy_alloc_pages n s = do {
     kassert (0 < n);
     order \<leftarrow> getorder n;
     (pg, s1) \<leftarrow> buddy_alloc_pages_sub order s;
     case pg of
       None \<Rightarrow> Some (None, s1)
     | Some p \<Rightarrow>
         if n \<noteq> 2 ^ order then do {
           s2 \<leftarrow> buddy_free_pages (p + n) (2 ^ order - n) s1;
           Some (Some p, s2)
         }
         else Some (Some p, s1)
   }"

definition buddy_nr_free_pages :: "'z pmm_scheme \<Rightarrow> u32" where
  "buddy_nr_free_pages s = sum_list (map (\<lambda>order. nr_free s order * 2 ^ order) [0..<MAX_ORDER + 1])"

section \<open>Free lists\<close>

lemmas page_ops = upd_page_def SetPageReserved_def PageReserved_def SetPageProperty_def
  ClearPageProperty_def PageProperty_def set_page_ref_def upd_nr_free_def

definition free_lists :: "'z pmm_scheme \<Rightarrow> (nat \<Rightarrow> nat list) \<Rightarrow> bool" where
  "free_lists s L \<longleftrightarrow>
     (\<forall>i \<le> MAX_ORDER. ring (free_links s) (FHead i) (map FPage (L i)) \<and>
        nr_free s i = of_nat (length (L i))) \<and>
     (\<forall>i \<le> MAX_ORDER. \<forall>j \<le> MAX_ORDER. i \<noteq> j \<longrightarrow> set (L i) \<inter> set (L j) = {})"

lemma free_lists_cong:
  "free_links s' = free_links s \<Longrightarrow> nr_free s' = nr_free s \<Longrightarrow> free_lists s' L = free_lists s L"
  by (simp add: free_lists_def)

lemma free_lists_push:
  assumes f: "free_lists s L" and i: "i \<le> MAX_ORDER" and p: "\<And>j. j \<le> MAX_ORDER \<Longrightarrow> p \<notin> set (L j)"
    and s': "free_links s' = list_add (FHead i) (FPage p) (free_links s)"
    "nr_free s' = (nr_free s)(i := nr_free s i + 1)"
  shows "free_lists s' (L(i := p # L i))"
proof -
  have r: "ring (free_links s) (FHead i) (map FPage (L i))" using f i by (simp add: free_lists_def)
  have 1: "ring (free_links s') (FHead i) (map FPage (p # L i))"
    unfolding s' using ring_push [OF r, of "FPage p"] p [OF i] by auto
  have 2: "ring (free_links s') (FHead j) (map FPage (L j))" if "j \<le> MAX_ORDER" "j \<noteq> i" for j
    unfolding s' using ring_push_other [OF r, of "FHead j" "map FPage (L j)" "FPage p"] f i that p [of j]
    by (auto simp: free_lists_def)
  show ?thesis using f i p 1 2 unfolding free_lists_def s' by auto
qed

lemma free_lists_del:
  assumes f: "free_lists s L" and i: "i \<le> MAX_ORDER" and Li: "L i = us @ p # vs"
    and s': "free_links s' = list_del (FPage p) (free_links s)"
    "nr_free s' = (nr_free s)(i := nr_free s i - 1)"
  shows "free_lists s' (L(i := us @ vs))"
proof -
  have r: "ring (free_links s) (FHead i) (map FPage us @ FPage p # map FPage vs)"
    using f i Li by (auto simp: free_lists_def)
  have 1: "ring (free_links s') (FHead i) (map FPage (us @ vs))"
    unfolding s' using ring_del [OF r] by simp
  have d: "set (L j) \<inter> set (us @ p # vs) = {}" if "j \<le> MAX_ORDER" "j \<noteq> i" for j
    using f i Li that unfolding free_lists_def by metis
  have 2: "ring (free_links s') (FHead j) (map FPage (L j))" if "j \<le> MAX_ORDER" "j \<noteq> i" for j
    unfolding s' using ring_del_other [OF r, of "FHead j" "map FPage (L j)"] f d [OF that] that
    by (auto simp: free_lists_def)
  show ?thesis using f i Li d 1 2 unfolding free_lists_def s' by auto
qed

section \<open>The invariant\<close>

text \<open>
  \<open>L\<close> gives the free blocks of each order. Zone \<open>z\<close> holds \<open>n\<close> pages from
  \<open>zones s z\<close> on. \<open>X\<close> are pages whose property flag is not yet settled inside an operation; it
  is empty between operations.
\<close>

definition block :: "nat \<Rightarrow> nat \<Rightarrow> nat set" where
  "block i p = {p..<p + 2 ^ i}"

definition free_set :: "(nat \<Rightarrow> nat list) \<Rightarrow> nat set" where
  "free_set L = (\<Union>i \<in> {..MAX_ORDER}. \<Union>p \<in> set (L i). block i p)"

definition zone_ok :: "'z pmm_scheme \<Rightarrow> nat \<Rightarrow> nat \<Rightarrow> bool" where
  "zone_ok s z n \<longleftrightarrow>
     zones s z + n \<le> npage s \<and>
     (\<forall>p. zones s z \<le> p \<and> p < zones s z + n \<longrightarrow> pg_zone_num (pages s p) = z \<and> \<not> PageReserved s p) \<and>
     (\<forall>p < npage s. \<not> (zones s z \<le> p \<and> p < zones s z + n) \<longrightarrow> PageReserved s p)"

definition in_zone :: "'z pmm_scheme \<Rightarrow> nat \<Rightarrow> nat \<Rightarrow> nat \<Rightarrow> nat \<Rightarrow> bool" where
  "in_zone s z n i p \<longleftrightarrow>
     zones s z \<le> p \<and> p + 2 ^ i \<le> zones s z + n \<and> 2 ^ i dvd p - zones s z"

definition buddy_inv :: "'z pmm_scheme \<Rightarrow> nat \<Rightarrow> nat \<Rightarrow> nat set \<Rightarrow> (nat \<Rightarrow> nat list) \<Rightarrow> bool" where
  "buddy_inv s z n X L \<longleftrightarrow>
     zone_ok s z n \<and> free_lists s L \<and>
     (\<forall>i \<le> MAX_ORDER. \<forall>p \<in> set (L i). in_zone s z n i p \<and> pg_property (pages s p) = i) \<and>
     (\<forall>i \<le> MAX_ORDER. \<forall>p \<in> set (L i). \<forall>j \<le> MAX_ORDER. \<forall>q \<in> set (L j).
        block i p \<inter> block j q \<noteq> {} \<longrightarrow> i = j \<and> p = q) \<and>
     (\<forall>p. zones s z \<le> p \<and> p < zones s z + n \<and> p \<notin> X \<longrightarrow>
        (PageProperty s p \<longleftrightarrow> (\<exists>i \<le> MAX_ORDER. p \<in> set (L i))))"

lemma block_first [simp]: "p \<in> block i p"
  by (simp add: block_def)

lemma free_set_blockI: "i \<le> MAX_ORDER \<Longrightarrow> p \<in> set (L i) \<Longrightarrow> block i p \<subseteq> free_set L"
  by (auto simp: free_set_def)

lemma not_free_notin: "q \<notin> free_set L \<Longrightarrow> j \<le> MAX_ORDER \<Longrightarrow> q \<notin> set (L j)"
  using free_set_blockI [of j q L] block_first [of q j] by blast

lemma free_set_push: "i \<le> MAX_ORDER \<Longrightarrow> free_set (L(i := p # L i)) = free_set L \<union> block i p"
  by (auto simp: free_set_def split: if_splits) (metis atMost_iff)+

lemma free_list_add_fields:
  "zones (free_list_add i p s) = zones s" "npage (free_list_add i p s) = npage s"
  "zone_num (free_list_add i p s) = zone_num s"
  "pg_zone_num (pages (free_list_add i p s) q) = pg_zone_num (pages s q)"
  "pg_ref (pages (free_list_add i p s) q) = pg_ref (pages s q)"
  "pg_property (pages (free_list_add i p s) q) = (if q = p then i else pg_property (pages s q))"
  "PageReserved (free_list_add i p s) q = PageReserved s q"
  "PageProperty (free_list_add i p s) q \<longleftrightarrow> q = p \<or> PageProperty s q"
  "free_links (free_list_add i p s) = list_add (FHead i) (FPage p) (free_links s)"
  "nr_free (free_list_add i p s) = (nr_free s)(i := nr_free s i + 1)"
  by (auto simp: free_list_add_def page_ops Let_def PG_reserved_def PG_property_def bit_simps)

lemma buddy_inv_add:
  assumes inv: "buddy_inv s z n X L" and i: "i \<le> MAX_ORDER" and p: "in_zone s z n i p"
    and dis: "block i p \<inter> free_set L = {}"
  shows "buddy_inv (free_list_add i p s) z n X (L(i := p # L i))"
proof -
  have np: "p \<notin> set (L j)" if "j \<le> MAX_ORDER" for j
    using dis not_free_notin [of p L j] that block_first [of p i] by blast
  have db: "block i p \<inter> block j q = {}" if "j \<le> MAX_ORDER" "q \<in> set (L j)" for j q
    using dis free_set_blockI [of j q L] that by blast
  let ?s = "free_list_add i p s" and ?L = "L(i := p # L i)"
  have "zone_ok ?s z n" using inv by (simp add: buddy_inv_def zone_ok_def free_list_add_fields)
  moreover have "free_lists ?s ?L"
    by (rule free_lists_push [of s]) (use inv i np in \<open>auto simp: buddy_inv_def free_list_add_fields\<close>)
  moreover have "\<forall>j \<le> MAX_ORDER. \<forall>q \<in> set (?L j). in_zone ?s z n j q \<and> pg_property (pages ?s q) = j"
    using inv p np by (auto simp: buddy_inv_def in_zone_def free_list_add_fields)
  moreover have "j = k \<and> q = r" if "j \<le> MAX_ORDER" "q \<in> set (?L j)" "k \<le> MAX_ORDER" "r \<in> set (?L k)"
    "block j q \<inter> block k r \<noteq> {}" for j q k r
  proof -
    have old: "j = k \<and> q = r" if "q \<in> set (L j)" "r \<in> set (L k)"
      using inv \<open>j \<le> MAX_ORDER\<close> \<open>k \<le> MAX_ORDER\<close> that \<open>block j q \<inter> block k r \<noteq> {}\<close>
      unfolding buddy_inv_def by blast
    have dis2: "block i p \<inter> block k r \<noteq> {} \<Longrightarrow> r \<notin> set (L k)" "block j q \<inter> block i p \<noteq> {} \<Longrightarrow> q \<notin> set (L j)"
      using db that(1,3) by blast+
    show ?thesis using that old dis2 by (auto split: if_splits)
  qed
  moreover have "PageProperty ?s q \<longleftrightarrow> (\<exists>j \<le> MAX_ORDER. q \<in> set (?L j))"
    if "zones ?s z \<le> q \<and> q < zones ?s z + n \<and> q \<notin> X" for q
    using inv that i by (auto simp: buddy_inv_def free_list_add_fields)
  ultimately show ?thesis unfolding buddy_inv_def by blast
qed

text \<open>Taking a block off its list, and clearing the flag of a page that is on no list.\<close>

definition free_list_take :: "nat \<Rightarrow> nat \<Rightarrow> 'z pmm_scheme \<Rightarrow> 'z pmm_scheme" where
  "free_list_take i p s =
     (let s1 = upd_nr_free i (\<lambda>c. c - 1) s
      in s1\<lparr>free_links := list_del (FPage p) (free_links s1)\<rparr>)"

lemma free_list_take_fields:
  "zones (free_list_take i p s) = zones s" "npage (free_list_take i p s) = npage s"
  "zone_num (free_list_take i p s) = zone_num s" "pages (free_list_take i p s) = pages s"
  "free_links (free_list_take i p s) = list_del (FPage p) (free_links s)"
  "nr_free (free_list_take i p s) = (nr_free s)(i := nr_free s i - 1)"
  by (simp_all add: free_list_take_def upd_nr_free_def Let_def)

lemma buddy_inv_take:
  assumes inv: "buddy_inv s z n X L" and i: "i \<le> MAX_ORDER" and Li: "L i = us @ p # vs"
  shows "buddy_inv (free_list_take i p s) z n (insert p X) (L(i := us @ vs))"
    and "free_set (L(i := us @ vs)) = free_set L - block i p" and "block i p \<subseteq> free_set L"
proof -
  let ?s = "free_list_take i p s" and ?L = "L(i := us @ vs)"
  have pi: "p \<in> set (L i)" using Li by simp
  have sub: "set (?L j) \<subseteq> set (L j)" for j using Li by auto
  have fl: "free_lists s L" using inv by (simp add: buddy_inv_def)
  have "distinct (L i)"
    using fl i ring_distinct [of "free_links s" "FHead i" "map FPage (L i)"]
    by (auto simp: free_lists_def distinct_map)
  then have np: "p \<notin> set us" "p \<notin> set vs" using Li by auto
  have uniq: "j = i \<and> q = p" if "j \<le> MAX_ORDER" "q \<in> set (L j)" "block j q \<inter> block i p \<noteq> {}" for j q
    using inv i pi that unfolding buddy_inv_def by blast
  have "zone_ok ?s z n"
    using inv by (simp add: buddy_inv_def zone_ok_def free_list_take_fields PageReserved_def)
  moreover have "free_lists ?s ?L"
    by (rule free_lists_del [of s]) (use fl i Li in \<open>auto simp: free_list_take_fields\<close>)
  moreover have "\<forall>j \<le> MAX_ORDER. \<forall>q \<in> set (?L j). in_zone ?s z n j q \<and> pg_property (pages ?s q) = j"
  proof (intro allI impI ballI)
    fix j q assume "j \<le> MAX_ORDER" "q \<in> set (?L j)"
    with sub [of j] have "q \<in> set (L j)" by blast
    with \<open>j \<le> MAX_ORDER\<close> inv show "in_zone ?s z n j q \<and> pg_property (pages ?s q) = j"
      by (simp add: buddy_inv_def in_zone_def free_list_take_fields)
  qed
  moreover have "\<forall>j \<le> MAX_ORDER. \<forall>q \<in> set (?L j). \<forall>k \<le> MAX_ORDER. \<forall>r \<in> set (?L k).
      block j q \<inter> block k r \<noteq> {} \<longrightarrow> j = k \<and> q = r"
    using inv sub unfolding buddy_inv_def by blast
  moreover have "PageProperty ?s q \<longleftrightarrow> (\<exists>j \<le> MAX_ORDER. q \<in> set (?L j))"
    if q: "zones ?s z \<le> q \<and> q < zones ?s z + n \<and> q \<notin> insert p X" for q
  proof -
    have "q \<in> set (?L j) \<longleftrightarrow> q \<in> set (L j)" for j using q Li by auto
    then show ?thesis using inv q by (simp add: buddy_inv_def free_list_take_fields PageProperty_def)
  qed
  ultimately show "buddy_inv ?s z n (insert p X) ?L" unfolding buddy_inv_def by blast
  have np': "p \<notin> set (?L i)" using np by simp
  show "free_set ?L = free_set L - block i p"
  proof (intro equalityI subsetI)
    fix x assume "x \<in> free_set ?L"
    then obtain j q where j: "j \<le> MAX_ORDER" "q \<in> set (?L j)" "x \<in> block j q"
      by (auto simp: free_set_def simp del: fun_upd_apply)
    with sub have "q \<in> set (L j)" by blast
    moreover have "x \<notin> block i p"
      using uniq [of j q] j \<open>q \<in> set (L j)\<close> np' by blast
    ultimately show "x \<in> free_set L - block i p"
      using free_set_blockI [OF j(1), of q L] j by blast
  next
    fix x assume "x \<in> free_set L - block i p"
    then obtain j q where j: "j \<le> MAX_ORDER" "q \<in> set (L j)" "x \<in> block j q" "x \<notin> block i p"
      by (auto simp: free_set_def)
    then have "q \<in> set (?L j)" using Li by auto
    with free_set_blockI [OF j(1), of q ?L] j show "x \<in> free_set ?L" by blast
  qed
  show "block i p \<subseteq> free_set L" using free_set_blockI [of i p L] i pi by blast
qed

lemma ClearPageProperty_fields:
  "zones (ClearPageProperty p s) = zones s" "npage (ClearPageProperty p s) = npage s"
  "zone_num (ClearPageProperty p s) = zone_num s"
  "free_links (ClearPageProperty p s) = free_links s" "nr_free (ClearPageProperty p s) = nr_free s"
  "pg_zone_num (pages (ClearPageProperty p s) q) = pg_zone_num (pages s q)"
  "pg_ref (pages (ClearPageProperty p s) q) = pg_ref (pages s q)"
  "pg_property (pages (ClearPageProperty p s) q) = pg_property (pages s q)"
  "PageReserved (ClearPageProperty p s) q = PageReserved s q"
  "PageProperty (ClearPageProperty p s) q \<longleftrightarrow> q \<noteq> p \<and> PageProperty s q"
  by (auto simp: page_ops PG_reserved_def PG_property_def bit_simps)

lemma buddy_inv_clear:
  assumes inv: "buddy_inv s z n X L" and p: "\<And>j. j \<le> MAX_ORDER \<Longrightarrow> p \<notin> set (L j)"
  shows "buddy_inv (ClearPageProperty p s) z n (X - {p}) L"
proof -
  let ?s = "ClearPageProperty p s"
  have "free_lists ?s L = free_lists s L"
    by (rule free_lists_cong) (simp_all add: ClearPageProperty_fields)
  with inv p show ?thesis
    unfolding buddy_inv_def zone_ok_def in_zone_def by (auto simp: ClearPageProperty_fields)
qed

section \<open>Allocation\<close>

lemma block_halves: "block (Suc i) p = block i p \<union> block i (p + 2 ^ i)"
  by (auto simp: block_def)

lemma block_halves_disjoint: "block i p \<inter> block i (p + 2 ^ i) = {}"
  by (auto simp: block_def)

lemma in_zone_halves:
  assumes "in_zone s z n (Suc i) p"
  shows "in_zone s z n i p" and "in_zone s z n i (p + 2 ^ i)"
proof -
  have d: "2 ^ i dvd p - zones s z"
    using assms by (auto simp: in_zone_def intro: dvd_trans [of _ "2 ^ Suc i"])
  with assms show "in_zone s z n i p" by (auto simp: in_zone_def)
  have "p + 2 ^ i - zones s z = (p - zones s z) + 2 ^ i" using assms by (auto simp: in_zone_def)
  with d have "2 ^ i dvd p + 2 ^ i - zones s z" by simp
  with assms show "in_zone s z n i (p + 2 ^ i)" by (auto simp: in_zone_def)
qed

lemma in_zone_cong: "zones s' = zones s \<Longrightarrow> in_zone s' z n i p = in_zone s z n i p"
  by (simp add: in_zone_def)

lemma block_subset: "i \<le> j \<Longrightarrow> block i p \<subseteq> block j p"
proof -
  assume "i \<le> j"
  then have "(2::nat) ^ i \<le> 2 ^ j" by simp
  then show ?thesis by (auto simp: block_def)
qed

lemma buddy_split_fields:
  "zones (buddy_split order c pg s) = zones s" "npage (buddy_split order c pg s) = npage s"
  "pg_ref (pages (buddy_split order c pg s) q) = pg_ref (pages s q)"
  by (induction c arbitrary: s) (simp_all add: free_list_add_fields)

lemma buddy_split_inv:
  assumes "buddy_inv s z n X L" and "in_zone s z n c pg" and "block c pg \<inter> free_set L = {}"
    and "order \<le> c" and "c \<le> MAX_ORDER"
  shows "\<exists>L'. buddy_inv (buddy_split order c pg s) z n X L' \<and>
    free_set L' = free_set L \<union> (block c pg - block order pg)"
  using assms
proof (induction c arbitrary: s L)
  case 0
  then show ?case by auto
next
  case (Suc c)
  show ?case
  proof (cases "Suc c > order")
    case False
    with Suc.prems show ?thesis by (intro exI [of _ L]) auto
  next
    case True
    let ?b = "pg + 2 ^ c"
    let ?s = "free_list_add c ?b s" and ?L = "L(c := ?b # L c)"
    have h: "in_zone s z n c pg" "in_zone s z n c ?b" using in_zone_halves [OF Suc.prems(2)] .
    have dis: "block c ?b \<inter> free_set L = {}" "block c pg \<inter> free_set L = {}"
      using Suc.prems(3) unfolding block_halves by auto
    have i1: "buddy_inv ?s z n X ?L"
      using buddy_inv_add [OF Suc.prems(1) _ h(2) dis(1)] Suc.prems(5) by simp
    have f1: "free_set ?L = free_set L \<union> block c ?b"
      using Suc.prems(5) by (intro free_set_push) simp
    have d1: "block c pg \<inter> free_set ?L = {}"
      unfolding f1 using dis(2) block_halves_disjoint [of c pg] by blast
    have "in_zone ?s z n c pg" using h(1) by (simp add: in_zone_def free_list_add_fields)
    moreover have "order \<le> c" using True by simp
    ultimately obtain L' where
      L': "buddy_inv (buddy_split order c pg ?s) z n X L'"
      "free_set L' = free_set ?L \<union> (block c pg - block order pg)"
      using Suc.IH [OF i1 _ d1] Suc.prems(5) by (metis Suc_leD)
    from \<open>order \<le> c\<close>
    have "block c ?b \<inter> block order pg = {}"
      using block_subset [of order c pg] block_halves_disjoint [of c pg] by blast
    then have "free_set L' = free_set L \<union> (block (Suc c) pg - block order pg)"
      unfolding L'(2) f1 block_halves by blast
    with L'(1) True show ?thesis by auto
  qed
qed

lemma list_empty_free_list:
  assumes "free_lists s L" and "i \<le> MAX_ORDER"
  shows "list_empty (free_links s) (FHead i) \<longleftrightarrow> L i = []"
    and "L i = p # ps \<Longrightarrow> list_next (free_links s) (FHead i) = FPage p"
  using assms clist.lempty_head [of "free_links s" "FHead i" "map FPage (L i)"]
    clist.next_head [of "free_links s" "FHead i" "map FPage (L i)"]
  by (auto simp: free_lists_def)

lemma buddy_alloc_search_inv:
  assumes "buddy_inv s z n {} L" and "order \<le> c" and "c \<le> MAX_ORDER + 1"
  shows "(\<exists>pg s' L'. buddy_alloc_search order c s = Some (Some pg, s') \<and> buddy_inv s' z n {} L' \<and>
       in_zone s z n order pg \<and> block order pg \<subseteq> free_set L \<and>
       free_set L' = free_set L - block order pg \<and> zones s' = zones s \<and> npage s' = npage s \<and>
       (\<forall>q. pg_ref (pages s' q) = pg_ref (pages s q))) \<or>
     buddy_alloc_search order c s = Some (None, s) \<and> (\<forall>i. c \<le> i \<and> i \<le> MAX_ORDER \<longrightarrow> L i = [])"
  using assms
proof (induction order c s rule: buddy_alloc_search.induct)
  case (1 order c s)
  show ?case
  proof (cases "c \<le> MAX_ORDER")
    case False
    then have "buddy_alloc_search order c s = Some (None, s)" by (simp add: buddy_alloc_search.simps)
    with False show ?thesis by auto
  next
    case le: True
    have fl: "free_lists s L" using "1.prems" by (simp add: buddy_inv_def)
    show ?thesis
    proof (cases "L c")
      case Nil
      then have e: "list_empty (free_links s) (FHead c)" using list_empty_free_list [OF fl le] by simp
      then have r: "buddy_alloc_search order c s = buddy_alloc_search order (c + 1) s"
        using le by (subst buddy_alloc_search.simps) simp
      have "(\<forall>i. c \<le> i \<and> i \<le> MAX_ORDER \<longrightarrow> L i = []) \<longleftrightarrow> (\<forall>i. c + 1 \<le> i \<and> i \<le> MAX_ORDER \<longrightarrow> L i = [])"
      proof -
        have "c \<le> i \<longleftrightarrow> i = c \<or> c + 1 \<le> i" for i by auto
        then show ?thesis using Nil by auto
      qed
      moreover have "order \<le> c + 1" "c + 1 \<le> MAX_ORDER + 1" using "1.prems"(2) le by simp_all
      moreover have "\<not> \<not> list_empty (free_links s) (FHead c)" using e by simp
      ultimately show ?thesis unfolding r using "1.IH" [OF le _ "1.prems"(1)] by presburger
    next
      case (Cons p ps)
      have ne: "\<not> list_empty (free_links s) (FHead c)" "list_next (free_links s) (FHead c) = FPage p"
        using list_empty_free_list [OF fl le] Cons by auto
      let ?s2 = "free_list_take c p s" and ?L2 = "L(c := ps)"
      let ?s' = "ClearPageProperty p (buddy_split order c p ?s2)"
      have res: "buddy_alloc_search order c s = Some (Some p, ?s')"
        using ne le by (subst buddy_alloc_search.simps)
          (simp add: free_list_take_def upd_nr_free_def Let_def)
      note t = buddy_inv_take [OF "1.prems"(1) le, of "[]" p ps, simplified append_Nil, OF Cons]
      have zp: "in_zone s z n c p" using "1.prems"(1) le Cons unfolding buddy_inv_def by simp
      have zp2: "in_zone ?s2 z n c p" using zp by (simp add: in_zone_def free_list_take_fields)
      have d2: "block c p \<inter> free_set ?L2 = {}" using t(2) by blast
      from buddy_split_inv [OF t(1) zp2 d2 "1.prems"(2) le] obtain L' where
        L': "buddy_inv (buddy_split order c p ?s2) z n {p} L'"
        "free_set L' = free_set ?L2 \<union> (block c p - block order p)" by auto
      have sub: "block order p \<subseteq> block c p" using "1.prems"(2) by (rule block_subset)
      have f': "free_set L' = free_set L - block order p"
        using L'(2) t(2,3) sub by blast
      have "p \<notin> free_set L'" unfolding f' using block_first [of p order] by blast
      then have "buddy_inv ?s' z n {} L'"
        using buddy_inv_clear [OF L'(1), of p] not_free_notin [of p L'] by simp
      moreover have "in_zone s z n order p"
        using zp sub "1.prems"(2) unfolding in_zone_def
        by (auto intro: dvd_trans [OF le_imp_power_dvd [of order c]] order.trans [OF add_left_mono [OF power_increasing]])
      moreover have "block order p \<subseteq> free_set L" using t(3) sub by blast
      ultimately show ?thesis using res f'
        by (intro disjI1 exI [of _ p] exI [of _ ?s'] exI [of _ L'])
          (simp add: ClearPageProperty_fields buddy_split_fields free_list_take_fields)
    qed
  qed
qed

lemma getorder_loop_eq:
  "n \<le> 2 ^ MAX_ORDER \<Longrightarrow> i \<le> MAX_ORDER \<Longrightarrow> (\<forall>j < i. 2 ^ j < n) \<Longrightarrow>
   \<exists>k \<le> MAX_ORDER. getorder_loop n i (2 ^ i) = Some k \<and> n \<le> 2 ^ k \<and> (\<forall>j < k. 2 ^ j < n)"
proof (induction "MAX_ORDER - i" arbitrary: i)
  case 0
  then have "i = MAX_ORDER" by simp
  with 0 show ?case by (intro exI [of _ i]) (simp add: getorder_loop.simps)
next
  case (Suc d)
  show ?case
  proof (cases "n \<le> 2 ^ i")
    case True
    with Suc.prems show ?thesis by (intro exI [of _ i]) (simp add: getorder_loop.simps)
  next
    case False
    have "\<exists>k \<le> MAX_ORDER. getorder_loop n (i + 1) (2 ^ (i + 1)) = Some k \<and> n \<le> 2 ^ k \<and> (\<forall>j < k. 2 ^ j < n)"
      by (rule Suc.hyps(1)) (use Suc.hyps(2) Suc.prems False in \<open>auto simp: less_Suc_eq\<close>)
    with False Suc.prems(2) show ?thesis by (subst getorder_loop.simps) simp
  qed
qed

lemma getorder_eq:
  assumes "n \<le> 2 ^ MAX_ORDER"
  obtains k where "k \<le> MAX_ORDER" and "getorder n = Some k" and "n \<le> 2 ^ k" and "\<And>j. j < k \<Longrightarrow> 2 ^ j < n"
  using getorder_loop_eq [OF assms, of 0] by (auto simp: getorder_def)

section \<open>Freeing\<close>

lemma xor_pow_aligned:
  fixes k :: nat
  shows "(2 ^ i * k) XOR 2 ^ i = 2 ^ i * (if even k then k + 1 else k - 1)"
    and "(2 ^ i * k) AND ((2 ^ i * k) XOR 2 ^ i) = 2 ^ i * (if even k then k else k - 1)"
proof -
  have x: "k XOR 1 = (if even k then k + 1 else k - 1)"
    using xor_Suc_0_eq [of k] by (simp add: One_nat_def [symmetric] del: One_nat_def)
  have a: "k AND (k XOR 1) = (if even k then k else k - 1)"
  proof -
    have "k AND (k XOR 1) = 2 * (k div 2)"
      by (rule bit_eqI) (auto simp: bit_simps bit_double_iff bit_Suc [symmetric] bit_0 possible_bit_def
          Suc_diff_1 bit_1_iff)
    then show ?thesis by (cases "even k") (auto elim!: evenE oddE)
  qed
  have p: "2 ^ i * m = push_bit i m" for m :: nat by (simp add: push_bit_eq_mult mult.commute)
  have p1: "2 ^ i = push_bit i (1 :: nat)" by (simp add: push_bit_eq_mult)
  have X: "push_bit i k XOR push_bit i 1 = push_bit i (k XOR 1)" by simp
  then show "(2 ^ i * k) XOR 2 ^ i = 2 ^ i * (if even k then k + 1 else k - 1)"
    using x p [of k] p1 p by metis
  have "push_bit i k AND push_bit i (k XOR 1) = push_bit i (k AND (k XOR 1))" by simp
  then show "(2 ^ i * k) AND ((2 ^ i * k) XOR 2 ^ i) = 2 ^ i * (if even k then k else k - 1)"
    using X a p [of k] p1 p by metis
qed

text \<open>The buddy of an aligned block and the block both halves form.\<close>

lemma buddy_geometry:
  assumes z: "in_zone s z n i (b + idx)" and b: "b = zones s z"
    and buddy: "b + (idx XOR 2 ^ i) + 2 ^ i \<le> b + n"
  shows "block (Suc i) (b + (idx AND (idx XOR 2 ^ i))) = block i (b + idx) \<union> block i (b + (idx XOR 2 ^ i))"
    and "block i (b + idx) \<inter> block i (b + (idx XOR 2 ^ i)) = {}"
    and "in_zone s z n (Suc i) (b + (idx AND (idx XOR 2 ^ i)))"
proof -
  from z b obtain k where k: "idx = 2 ^ i * k" by (auto simp: in_zone_def)
  define B where "B = idx XOR 2 ^ i"
  define M where "M = idx AND (idx XOR 2 ^ i)"
  have x: "B = 2 ^ i * (if even k then k + 1 else k - 1)" "M = 2 ^ i * (if even k then k else k - 1)"
    unfolding B_def M_def k by (rule xor_pow_aligned)+
  have e: "B = (if even k then idx + 2 ^ i else idx - 2 ^ i)" "M = (if even k then idx else idx - 2 ^ i)"
    unfolding x k by (auto simp: algebra_simps right_diff_distrib')
  have ge: "odd k \<Longrightarrow> 2 ^ i \<le> idx" using k by (cases k) auto
  have "block (Suc i) (b + M) = block i (b + idx) \<union> block i (b + B)"
    unfolding e using ge by (cases "even k") (auto simp: block_def)
  then show "block (Suc i) (b + (idx AND (idx XOR 2 ^ i))) = block i (b + idx) \<union> block i (b + (idx XOR 2 ^ i))"
    by (simp add: B_def M_def)
  have "block i (b + idx) \<inter> block i (b + B) = {}"
    unfolding e using ge by (cases "even k") (auto simp: block_def)
  then show "block i (b + idx) \<inter> block i (b + (idx XOR 2 ^ i)) = {}" by (simp add: B_def)
  have "2 ^ Suc i dvd M"
    unfolding x by (cases "even k") (auto elim!: evenE oddE)
  moreover have "b + M + 2 ^ Suc i \<le> b + n"
    using z buddy [folded B_def] b ge unfolding e by (cases "even k") (auto simp: in_zone_def)
  ultimately show "in_zone s z n (Suc i) (b + (idx AND (idx XOR 2 ^ i)))"
    using b by (auto simp: in_zone_def M_def [symmetric])
qed

lemma page_is_buddy_listed:
  assumes inv: "buddy_inv s z n {} L" and b: "page_is_buddy s q i z"
  shows "q \<in> set (L i)" and "in_zone s z n i q"
proof -
  have q: "zones s z \<le> q \<and> q < zones s z + n"
    using inv b unfolding buddy_inv_def zone_ok_def page_is_buddy_def by blast
  then obtain j where j: "j \<le> MAX_ORDER" "q \<in> set (L j)"
    using inv b unfolding buddy_inv_def page_is_buddy_def by blast
  then have "in_zone s z n j q" "pg_property (pages s q) = j"
    using inv unfolding buddy_inv_def by blast+
  moreover from this(2) b have "j = i" by (simp add: page_is_buddy_def)
  ultimately show "q \<in> set (L i)" "in_zone s z n i q" using j(2) by simp_all
qed

lemma buddy_merge_inv:
  assumes "buddy_inv s z n {} L" and "i \<le> MAX_ORDER" and "in_zone s z n i (zones s z + idx)"
    and "block i (zones s z + idx) \<inter> free_set L = {}"
  shows "\<exists>i' idx' s' L'. buddy_merge z i idx s = (i', idx', s') \<and> i' \<le> MAX_ORDER \<and>
    buddy_inv s' z n {} L' \<and> in_zone s' z n i' (zones s z + idx') \<and>
    block i' (zones s z + idx') \<inter> free_set L' = {} \<and>
    free_set L' \<union> block i' (zones s z + idx') = free_set L \<union> block i (zones s z + idx) \<and>
    zones s' = zones s \<and> npage s' = npage s \<and> (\<forall>q. pg_ref (pages s' q) = pg_ref (pages s q))"
  using assms
proof (induction z i idx s arbitrary: L rule: buddy_merge.induct)
  case (1 z i idx s)
  let ?b = "zones s z" and ?bi = "idx XOR 2 ^ i"
  show ?case
  proof (cases "i < MAX_ORDER \<and> page_is_buddy s (?b + ?bi) i z")
    case False
    then have "buddy_merge z i idx s = (i, idx, s)"
      by (subst buddy_merge.simps) (auto simp: idx2page_def Let_def)
    with "1.prems" show ?thesis by auto
  next
    case True
    note listed = page_is_buddy_listed [OF "1.prems"(1) conjunct2 [OF True]]
    obtain us vs where Li: "L i = us @ (?b + ?bi) # vs" using listed(1) by (meson split_list)
    note t = buddy_inv_take [OF "1.prems"(1,2) Li]
    let ?s2 = "free_list_take i (?b + ?bi) s" and ?L2 = "L(i := us @ vs)"
    let ?s3 = "ClearPageProperty (?b + ?bi) ?s2"
    have step: "buddy_merge z i idx s = buddy_merge z (i + 1) (idx AND ?bi) ?s3"
      using True by (subst buddy_merge.simps) (simp add: idx2page_def Let_def free_list_take_def upd_nr_free_def)
    have "?b + ?bi \<notin> free_set ?L2" unfolding t(2) by simp
    then have inv3: "buddy_inv ?s3 z n {} ?L2"
      using buddy_inv_clear [OF t(1), of "?b + ?bi"] not_free_notin [of "?b + ?bi" ?L2] by simp
    have fits: "?b + ?bi + 2 ^ i \<le> ?b + n" using listed(2) by (simp add: in_zone_def)
    note geo = buddy_geometry [OF "1.prems"(3) refl fits]
    have z3: "zones ?s3 = zones s" "npage ?s3 = npage s" "\<forall>q. pg_ref (pages ?s3 q) = pg_ref (pages s q)"
      by (simp_all add: ClearPageProperty_fields free_list_take_fields)
    have in3: "in_zone ?s3 z n (i + 1) (zones ?s3 z + (idx AND ?bi))"
      using geo(3) by (simp add: z3 in_zone_def)
    have dis3: "block (i + 1) (zones ?s3 z + (idx AND ?bi)) \<inter> free_set ?L2 = {}"
      using geo(1) t(2) "1.prems"(4) by (auto simp: z3)
    have le: "i + 1 \<le> MAX_ORDER" using True by simp
    have un: "free_set ?L2 \<union> block (i + 1) (?b + (idx AND ?bi)) = free_set L \<union> block i (?b + idx)"
      using geo(1) t(2,3) by auto
    have c: "i < MAX_ORDER" "\<not> \<not> page_is_buddy s (idx2page s z ?bi) i z"
      using True by (simp_all add: idx2page_def)
    have "?s3 = ClearPageProperty (idx2page s z ?bi)
        ((upd_nr_free i (\<lambda>c. c - 1) s)\<lparr>free_links := list_del (FPage (idx2page s z ?bi)) (free_links (upd_nr_free i (\<lambda>c. c - 1) s))\<rparr>)"
      by (simp add: free_list_take_def idx2page_def Let_def)
    from "1.IH" [OF c(1) refl refl c(2) refl refl refl, folded this, OF inv3 le in3 dis3]
    obtain i' idx' s' L' where r: "buddy_merge z (i + 1) (idx AND ?bi) ?s3 = (i', idx', s')" "i' \<le> MAX_ORDER"
      "buddy_inv s' z n {} L'" "in_zone s' z n i' (?b + idx')" "block i' (?b + idx') \<inter> free_set L' = {}"
      "free_set L' \<union> block i' (?b + idx') = free_set ?L2 \<union> block (i + 1) (?b + (idx AND ?bi))"
      "zones s' = zones s" "npage s' = npage s" "\<forall>q. pg_ref (pages s' q) = pg_ref (pages s q)"
      unfolding z3 by (auto simp only: z3(3))
    show ?thesis using r(1,2) r(3-5) r(6)[unfolded un] r(7-9) unfolding step by blast
  qed
qed

lemma free_clear_pages_eq:
  "(\<And>q. p \<le> q \<Longrightarrow> q < p + m \<Longrightarrow> \<not> PageReserved s q \<and> \<not> PageProperty s q) \<Longrightarrow>
   free_clear_pages p m s = Some (s\<lparr>pages := (\<lambda>q. if p \<le> q \<and> q < p + m
     then (pages s q)\<lparr>pg_flags := 0, pg_ref := 0\<rparr> else pages s q)\<rparr>)"
proof (induction m arbitrary: p s)
  case 0
  have "(\<lambda>q. if p \<le> q \<and> q < p + 0 then (pages s q)\<lparr>pg_flags := 0, pg_ref := 0\<rparr> else pages s q) = pages s"
    by (auto intro!: ext)
  then show ?case by simp
next
  case (Suc m)
  let ?s = "set_page_ref p 0 (upd_page p (\<lambda>x. x\<lparr>pg_flags := 0\<rparr>) s)"
  have c: "\<not> PageReserved s p \<and> \<not> PageProperty s p" using Suc.prems [of p] by simp
  have "free_clear_pages (p + 1) m ?s = Some (?s\<lparr>pages := (\<lambda>q. if p + 1 \<le> q \<and> q < p + 1 + m
     then (pages ?s q)\<lparr>pg_flags := 0, pg_ref := 0\<rparr> else pages ?s q)\<rparr>)"
    by (rule Suc.IH) (use Suc.prems in \<open>auto simp: page_ops\<close>)
  moreover have "(\<lambda>q. if p + 1 \<le> q \<and> q < p + 1 + m then (pages ?s q)\<lparr>pg_flags := 0, pg_ref := 0\<rparr> else pages ?s q) =
     (\<lambda>q. if p \<le> q \<and> q < p + Suc m then (pages s q)\<lparr>pg_flags := 0, pg_ref := 0\<rparr> else pages s q)"
    by (auto simp: fun_eq_iff page_ops)
  ultimately show ?case using c by (simp add: page_ops)
qed

lemma buddy_inv_not_property:
  assumes "buddy_inv s z n {} L" and "zones s z \<le> q" and "q < zones s z + n" and "q \<notin> free_set L"
  shows "\<not> PageReserved s q \<and> \<not> PageProperty s q"
  using assms not_free_notin [OF assms(4)] unfolding buddy_inv_def zone_ok_def by blast

text \<open>What an operation keeps: the zones and the reference counts outside a set of pages.\<close>

definition pmm_frame :: "nat set \<Rightarrow> 'z pmm_scheme \<Rightarrow> 'z pmm_scheme \<Rightarrow> bool" where
  "pmm_frame R s s' \<longleftrightarrow> zones s' = zones s \<and> npage s' = npage s \<and>
     (\<forall>q. pg_ref (pages s' q) = (if q \<in> R then 0 else pg_ref (pages s q)))"

lemma pmm_frame_trans: "pmm_frame R s s1 \<Longrightarrow> pmm_frame R' s1 s2 \<Longrightarrow> pmm_frame (R \<union> R') s s2"
  by (auto simp: pmm_frame_def)

lemma pmm_frame_zone: "pmm_frame R s s' \<Longrightarrow> in_zone s' z n i p = in_zone s z n i p"
  by (simp add: pmm_frame_def in_zone_def)

lemma aligned_and_mask: "2 ^ i dvd (x :: nat) \<Longrightarrow> x AND (2 ^ i - 1) = 0"
proof -
  assume "2 ^ i dvd x"
  moreover have "x AND mask i = x mod 2 ^ i" by (simp add: take_bit_eq_mask [symmetric] take_bit_eq_mod)
  ultimately show ?thesis by (simp add: mask_nat_def)
qed

lemma buddy_free_sub_inv:
  assumes inv: "buddy_inv s z n {} L" and i: "i \<le> MAX_ORDER" and zp: "in_zone s z n i p"
    and dis: "block i p \<inter> free_set L = {}"
  obtains s' L' where "buddy_free_pages_sub p i s = Some s'" and "buddy_inv s' z n {} L'"
    and "free_set L' = free_set L \<union> block i p" and "pmm_frame (block i p) s s'"
proof -
  define idx where "idx = p - zones s z"
  have p: "p = zones s z + idx" using zp by (simp add: idx_def in_zone_def)
  have inz: "zones s z \<le> q \<and> q < zones s z + n" if "q \<in> block i p" for q
    using that zp by (auto simp: block_def in_zone_def)
  have zn: "pg_zone_num (pages s q) = z" if "q \<in> block i p" for q
    using inv inz [OF that] unfolding buddy_inv_def zone_ok_def by blast
  have idx2: "page2idx s p = idx" using zn [of p] by (simp add: page2idx_def idx_def)
  let ?pgs = "\<lambda>q. if p \<le> q \<and> q < p + 2 ^ i then (pages s q)\<lparr>pg_flags := 0, pg_ref := 0\<rparr> else pages s q"
  define s1 where "s1 = s\<lparr>pages := ?pgs\<rparr>"
  have clr: "\<not> PageReserved s q \<and> \<not> PageProperty s q" if "p \<le> q" "q < p + 2 ^ i" for q
  proof -
    have "q \<in> block i p" using that by (simp add: block_def)
    with buddy_inv_not_property [OF inv, of q] inz [of q] dis show ?thesis by blast
  qed
  have c1: "free_clear_pages p (2 ^ i) s = Some s1"
    unfolding s1_def by (rule free_clear_pages_eq) (rule clr)
  have f1: "zones s1 = zones s" "npage s1 = npage s" "free_links s1 = free_links s" "nr_free s1 = nr_free s"
    "\<And>q. pg_zone_num (pages s1 q) = pg_zone_num (pages s q)"
    "\<And>q. pg_property (pages s1 q) = pg_property (pages s q)"
    by (simp_all add: s1_def)
  have g1: "PageReserved s1 q = PageReserved s q" "PageProperty s1 q = PageProperty s q" for q
    using clr [of q] by (auto simp: s1_def PageReserved_def PageProperty_def)
  have inv1: "buddy_inv s1 z n {} L"
    using inv free_lists_cong [OF f1(3,4), of L]
    unfolding buddy_inv_def zone_ok_def in_zone_def by (simp add: f1(1,2,5,6) g1)
  have zp1: "in_zone s1 z n i (zones s1 z + idx)" using zp p by (simp add: in_zone_def f1)
  have "block i (zones s1 z + idx) \<inter> free_set L = {}" using dis p by (simp add: f1)
  from buddy_merge_inv [OF inv1 i zp1 this] obtain i' idx' s2 L2 where
    m: "buddy_merge z i idx s1 = (i', idx', s2)" "i' \<le> MAX_ORDER" "buddy_inv s2 z n {} L2"
      "in_zone s2 z n i' (zones s z + idx')" "block i' (zones s z + idx') \<inter> free_set L2 = {}"
      "free_set L2 \<union> block i' (zones s z + idx') = free_set L \<union> block i p"
      "zones s2 = zones s" "npage s2 = npage s" "\<forall>q. pg_ref (pages s2 q) = pg_ref (pages s1 q)"
    unfolding f1(1,2) p [symmetric] by blast
  let ?p' = "zones s z + idx'"
  have "2 ^ i dvd idx" using zp by (simp add: in_zone_def idx_def)
  then have "buddy_free_pages_sub p i s = Some (free_list_add i' ?p' s2)"
    using c1 m(1,7) zn [of p] f1(5) aligned_and_mask [of i idx]
    by (simp add: buddy_free_pages_sub_def idx2 idx2page_def Let_def)
  moreover have "buddy_inv (free_list_add i' ?p' s2) z n {} (L2(i' := ?p' # L2 i'))"
    by (rule buddy_inv_add [OF m(3,2,4,5)])
  moreover have "free_set (L2(i' := ?p' # L2 i')) = free_set L \<union> block i p"
    using free_set_push [OF m(2)] m(6) by simp
  moreover have "pmm_frame (block i p) s (free_list_add i' ?p' s2)"
    using m(7-9) by (auto simp: pmm_frame_def free_list_add_fields s1_def block_def)
  ultimately show ?thesis using that by blast
qed

lemma in_zoneI:
  "zones s z \<le> p \<Longrightarrow> p + 2 ^ i \<le> zones s z + n \<Longrightarrow> 2 ^ i dvd p - zones s z \<Longrightarrow> in_zone s z n i p"
  by (simp add: in_zone_def)

lemma pow_le_11: "(2::nat) ^ i \<le> m \<Longrightarrow> m < 2 ^ Suc MAX_ORDER \<Longrightarrow> i \<le> MAX_ORDER"
proof -
  assume "(2::nat) ^ i \<le> m" "m < 2 ^ Suc MAX_ORDER"
  then have "(2::nat) ^ i < 2 ^ Suc MAX_ORDER" by linarith
  then show ?thesis by (simp only: power_strict_increasing_iff less_Suc_eq_le)
qed

lemma free_up_loop_inv:
  assumes "buddy_inv s z n {} L" and "m < 2 ^ Suc MAX_ORDER" and "i \<le> Suc MAX_ORDER"
    and "zones s z \<le> p" and "p + m \<le> zones s z + n" and "2 ^ i dvd p - zones s z"
    and "{p..<p + m} \<inter> free_set L = {}"
  shows "\<exists>p' m' i' s' L'. free_up_loop p m i (2 ^ i) s = Some (p', m', i', 2 ^ i', s') \<and>
    buddy_inv s' z n {} L' \<and> m' < 2 ^ i' \<and> m' \<le> m \<and> p \<le> p' \<and> p' + m' = p + m \<and> 2 ^ i' dvd p' - zones s z \<and>
    free_set L' = free_set L \<union> {p..<p'} \<and> pmm_frame {p..<p'} s s'"
  using assms
proof (induction "Suc MAX_ORDER - i" arbitrary: i p m s L)
  case 0
  then have "i = Suc MAX_ORDER" by simp
  with "0.prems" have "free_up_loop p m i (2 ^ i) s = Some (p, m, i, 2 ^ i, s)"
    by (subst free_up_loop.simps) simp
  with 0 \<open>i = _\<close> show ?case by (auto simp: pmm_frame_def)
next
  case (Suc d)
  show ?case
  proof (cases "2 ^ i \<le> m")
    case False
    then have "free_up_loop p m i (2 ^ i) s = Some (p, m, i, 2 ^ i, s)"
      by (subst free_up_loop.simps) simp
    with Suc.prems False show ?thesis by (auto simp: pmm_frame_def)
  next
    case True
    have le: "i \<le> MAX_ORDER" using pow_le_11 [OF True Suc.prems(2)] .
    have d: "d = Suc MAX_ORDER - (i + 1)" using Suc.hyps(2) by simp
    define idx where "idx = p - zones s z"
    have zn: "pg_zone_num (pages s p) = z"
    proof -
      have "p < zones s z + n" using Suc.prems(5) True by (auto intro: less_le_trans [of _ "p + 2 ^ i"])
      with Suc.prems(1,4) show ?thesis unfolding buddy_inv_def zone_ok_def by blast
    qed
    have idx: "page2idx s p = idx" by (simp add: page2idx_def idx_def zn)
    obtain k where k: "idx = 2 ^ i * k" using Suc.prems(6) by (auto simp: idx_def)
    have bit: "idx AND 2 ^ i \<noteq> 0 \<longleftrightarrow> odd k"
      using k by (simp add: and_exp_eq_0_iff_not_bit bit_iff_odd)
    show ?thesis
    proof (cases "odd k")
      case False
      then have st: "free_up_loop p m i (2 ^ i) s = free_up_loop p m (i + 1) (2 ^ (i + 1)) s"
        using True le bit by (subst free_up_loop.simps) (simp add: idx)
      have "2 ^ (i + 1) dvd p - zones s z" using False k by (auto simp: idx_def elim!: evenE)
      from Suc.hyps(1) [OF d Suc.prems(1,2) _ Suc.prems(4,5) this Suc.prems(7)] le
      show ?thesis unfolding st by simp
    next
      case odd: True
      have zp: "in_zone s z n i p" using Suc.prems True by (intro in_zoneI) auto
      have bl: "block i p \<subseteq> {p..<p + m}" using True by (auto simp: block_def)
      obtain s1 L1 where s1: "buddy_free_pages_sub p i s = Some s1" "buddy_inv s1 z n {} L1"
        "free_set L1 = free_set L \<union> block i p" "pmm_frame (block i p) s s1"
        by (rule buddy_free_sub_inv [OF Suc.prems(1) le zp]) (use Suc.prems(7) bl in blast)
      have z1: "zones s1 = zones s" using s1(4) by (simp add: pmm_frame_def)
      have st: "free_up_loop p m i (2 ^ i) s = free_up_loop (p + 2 ^ i) (m - 2 ^ i) (i + 1) (2 ^ (i + 1)) s1"
        using True le bit odd s1(1) by (subst free_up_loop.simps) (simp add: idx)
      have "p + 2 ^ i - zones s1 z = 2 ^ i * (k + 1)"
        using k Suc.prems(4) by (simp add: z1 idx_def)
      then have dv: "2 ^ (i + 1) dvd p + 2 ^ i - zones s1 z" using odd by (auto elim!: oddE)
      have dis: "{p + 2 ^ i..<p + 2 ^ i + (m - 2 ^ i)} \<inter> free_set L1 = {}"
      proof -
        have "{p + 2 ^ i..<p + 2 ^ i + (m - 2 ^ i)} \<subseteq> {p..<p + m}"
          "{p + 2 ^ i..<p + 2 ^ i + (m - 2 ^ i)} \<inter> block i p = {}" using True by (auto simp: block_def)
        then show ?thesis using Suc.prems(7) unfolding s1(3) by blast
      qed
      obtain p' m' i' s' L' where r: "free_up_loop (p + 2 ^ i) (m - 2 ^ i) (i + 1) (2 ^ (i + 1)) s1 = Some (p', m', i', 2 ^ i', s')"
        "buddy_inv s' z n {} L'" "m' < 2 ^ i'" "m' \<le> m - 2 ^ i" "p + 2 ^ i \<le> p'" "p' + m' = p + 2 ^ i + (m - 2 ^ i)"
        "2 ^ i' dvd p' - zones s1 z" "free_set L' = free_set L1 \<union> {p + 2 ^ i..<p'}" "pmm_frame {p + 2 ^ i..<p'} s1 s'"
      proof -
        have "m - 2 ^ i < 2 ^ Suc MAX_ORDER" "i + 1 \<le> Suc MAX_ORDER" "zones s1 z \<le> p + 2 ^ i"
          "p + 2 ^ i + (m - 2 ^ i) \<le> zones s1 z + n"
          using Suc.prems(2,4,5) le True by (auto simp: z1 simp del: power_Suc)
        from Suc.hyps(1) [OF d s1(2) this dv dis] that show ?thesis by blast
      qed
      have un: "block i p \<union> {p + 2 ^ i..<p'} = {p..<p'}" using r(5) by (auto simp: block_def)
      have "pmm_frame {p..<p'} s s'" using pmm_frame_trans [OF s1(4) r(9)] unfolding un .
      moreover have "free_set L' = free_set L \<union> {p..<p'}" unfolding r(8) s1(3) un [symmetric] by blast
      ultimately show ?thesis unfolding st using r True by (auto simp: z1)
    qed
  qed
qed

lemma shrink_order_eq:
  "0 < m \<Longrightarrow> \<exists>j. shrink_order m i = (j, 2 ^ j) \<and> j \<le> i \<and> 2 ^ j \<le> m \<and> (j < i \<longrightarrow> m < 2 ^ Suc j)"
proof (induction i)
  case (Suc i)
  then show ?case by (cases "m < 2 ^ Suc i") (fastforce simp: le_Suc_eq)+
qed simp

lemma free_down_loop_inv:
  assumes "buddy_inv s z n {} L" and "m < 2 ^ Suc MAX_ORDER"
    and "zones s z \<le> p" and "p + m \<le> zones s z + n" and "2 ^ i dvd p - zones s z"
    and "{p..<p + m} \<inter> free_set L = {}"
  shows "\<exists>s' L'. free_down_loop p m i s = Some s' \<and> buddy_inv s' z n {} L' \<and>
    free_set L' = free_set L \<union> {p..<p + m} \<and> pmm_frame {p..<p + m} s s'"
  using assms
proof (induction m arbitrary: i p s L rule: less_induct)
  case (less m)
  show ?case
  proof (cases "m = 0")
    case True
    then show ?thesis using less.prems by (subst free_down_loop.simps) (auto simp: pmm_frame_def)
  next
    case False
    then obtain j where j: "shrink_order m i = (j, 2 ^ j)" "j \<le> i" "2 ^ j \<le> m"
      using shrink_order_eq [of m i] by auto
    have le: "j \<le> MAX_ORDER" using pow_le_11 [OF j(3) less.prems(2)] .
    have dv: "2 ^ j dvd p - zones s z"
      using less.prems(5) j(2) by (meson dvd_trans le_imp_power_dvd)
    have zp: "in_zone s z n j p" using less.prems j dv by (intro in_zoneI) auto
    have bl: "block j p \<subseteq> {p..<p + m}" using j by (auto simp: block_def)
    obtain s1 L1 where s1: "buddy_free_pages_sub p j s = Some s1" "buddy_inv s1 z n {} L1"
      "free_set L1 = free_set L \<union> block j p" "pmm_frame (block j p) s s1"
      by (rule buddy_free_sub_inv [OF less.prems(1) le zp]) (use less.prems(6) bl in blast)
    have z1: "zones s1 = zones s" using s1(4) by (simp add: pmm_frame_def)
    have st: "free_down_loop p m i s = free_down_loop (p + 2 ^ j) (m - 2 ^ j) j s1"
      using False j(1) s1(1) by (subst free_down_loop.simps) simp
    have "p + 2 ^ j - zones s z = (p - zones s z) + 2 ^ j" using less.prems(3) by simp
    then have dv1: "2 ^ j dvd p + 2 ^ j - zones s1 z" using dv by (simp add: z1)
    have e: "p + 2 ^ j + (m - 2 ^ j) = p + m" using j(3) by simp
    have "{p + 2 ^ j..<p + m} \<subseteq> {p..<p + m}" "{p + 2 ^ j..<p + m} \<inter> block j p = {}"
      by (auto simp: block_def)
    then have dis: "{p + 2 ^ j..<p + 2 ^ j + (m - 2 ^ j)} \<inter> free_set L1 = {}"
      using less.prems(6) unfolding s1(3) e by blast
    have sm: "m - 2 ^ j < m" using False by simp
    obtain s' L' where r: "free_down_loop (p + 2 ^ j) (m - 2 ^ j) j s1 = Some s'" "buddy_inv s' z n {} L'"
      "free_set L' = free_set L1 \<union> {p + 2 ^ j..<p + m}" "pmm_frame {p + 2 ^ j..<p + m} s1 s'"
      using less.IH [OF sm s1(2) _ _ _ dv1 dis] less.prems(2,3,4) e by (auto simp: z1)
    have un: "block j p \<union> {p + 2 ^ j..<p + m} = {p..<p + m}" using j(3) by (auto simp: block_def)
    have "pmm_frame {p..<p + m} s s'" using pmm_frame_trans [OF s1(4) r(4)] unfolding un .
    moreover have "free_set L' = free_set L \<union> {p..<p + m}" unfolding r(3) s1(3) un [symmetric] by blast
    ultimately show ?thesis unfolding st using r by blast
  qed
qed

lemma buddy_free_pages_inv:
  assumes inv: "buddy_inv s z n {} L" and m: "0 < m" "m < 2 ^ Suc MAX_ORDER"
    and z: "zones s z \<le> p" "p + m \<le> zones s z + n" and dis: "{p..<p + m} \<inter> free_set L = {}"
  obtains s' L' where "buddy_free_pages p m s = Some s'" and "buddy_inv s' z n {} L'"
    and "free_set L' = free_set L \<union> {p..<p + m}" and "pmm_frame {p..<p + m} s s'"
proof (cases "m = 1")
  case True
  have b: "block 0 p = {p..<p + m}" using True by (simp add: block_def)
  have "in_zone s z n 0 p" using z True by (intro in_zoneI) auto
  then obtain s' L' where "buddy_free_pages_sub p 0 s = Some s'" "buddy_inv s' z n {} L'"
    "free_set L' = free_set L \<union> block 0 p" "pmm_frame (block 0 p) s s'"
    by (rule buddy_free_sub_inv [OF inv _ _ dis [folded b], rotated]) simp_all
  with True that show ?thesis unfolding b by (simp add: buddy_free_pages_def)
next
  case False
  obtain p' m' i' s1 L1 where up: "free_up_loop p m 0 1 s = Some (p', m', i', 2 ^ i', s1)"
    "buddy_inv s1 z n {} L1" "m' \<le> m" "p \<le> p'" "p' + m' = p + m" "2 ^ i' dvd p' - zones s z"
    "free_set L1 = free_set L \<union> {p..<p'}" "pmm_frame {p..<p'} s s1"
    using free_up_loop_inv [OF inv m(2) _ z _ dis, of 0] by auto
  have z1: "zones s1 = zones s" using up(8) by (simp add: pmm_frame_def)
  have sub: "{p'..<p' + m'} \<subseteq> {p..<p + m}" "{p'..<p' + m'} \<inter> {p..<p'} = {}" using up(4,5) by auto
  have "{p'..<p' + m'} \<inter> free_set L1 = {}" using sub dis unfolding up(7) by blast
  then obtain s' L' where dn: "free_down_loop p' m' i' s1 = Some s'" "buddy_inv s' z n {} L'"
    "free_set L' = free_set L1 \<union> {p'..<p' + m'}" "pmm_frame {p'..<p' + m'} s1 s'"
    using free_down_loop_inv [OF up(2), of m' p' i'] up(3-6) m(2) z by (auto simp: z1)
  have un: "{p..<p'} \<union> {p'..<p' + m'} = {p..<p + m}" using up(4,5) by auto
  show ?thesis
  proof (rule that)
    show "buddy_free_pages p m s = Some s'" using False m(1) up(1) dn(1) by (simp add: buddy_free_pages_def)
    show "free_set L' = free_set L \<union> {p..<p + m}" unfolding dn(3) up(7) un [symmetric] by blast
    show "pmm_frame {p..<p + m} s s'" using pmm_frame_trans [OF up(8) dn(4)] unfolding un .
  qed (rule dn(2))
qed

lemma buddy_alloc_pages_inv:
  assumes inv: "buddy_inv s z n {} L" and m: "0 < m" "m \<le> 2 ^ MAX_ORDER"
  shows "(\<exists>p s' L'. buddy_alloc_pages m s = Some (Some p, s') \<and> buddy_inv s' z n {} L' \<and>
       {p..<p + m} \<subseteq> free_set L \<and> free_set L' = free_set L - {p..<p + m} \<and>
       zones s' = zones s \<and> npage s' = npage s \<and> (\<forall>q. q \<notin> free_set L \<or> q \<in> {p..<p + m} \<longrightarrow> pg_ref (pages s' q) = pg_ref (pages s q))) \<or>
     buddy_alloc_pages m s = Some (None, s) \<and> (\<forall>i \<le> MAX_ORDER. m \<le> 2 ^ i \<longrightarrow> L i = [])"
proof -
  obtain k where k: "k \<le> MAX_ORDER" "getorder m = Some k" "m \<le> 2 ^ k" "\<forall>j < k. 2 ^ j < m"
    by (rule getorder_eq [OF m(2)]) blast
  have un: "buddy_alloc_pages m s = do {
      (pg, s1) \<leftarrow> buddy_alloc_search k k s;
      case pg of None \<Rightarrow> Some (None, s1)
      | Some p \<Rightarrow> if m \<noteq> 2 ^ k then do { s2 \<leftarrow> buddy_free_pages (p + m) (2 ^ k - m) s1; Some (Some p, s2) }
                  else Some (Some p, s1) }"
    using m(1) k(1,2) by (simp add: buddy_alloc_pages_def buddy_alloc_pages_sub_def)
  consider (fail) "buddy_alloc_search k k s = Some (None, s)" "\<forall>i. k \<le> i \<and> i \<le> MAX_ORDER \<longrightarrow> L i = []"
    | (ok) p s1 L1 where "buddy_alloc_search k k s = Some (Some p, s1)" "buddy_inv s1 z n {} L1"
       "in_zone s z n k p" "block k p \<subseteq> free_set L" "free_set L1 = free_set L - block k p"
       "zones s1 = zones s" "npage s1 = npage s" "\<forall>q. pg_ref (pages s1 q) = pg_ref (pages s q)"
    using buddy_alloc_search_inv [OF inv order_refl, of k] k(1) by auto
  then show ?thesis
  proof cases
    case fail
    have "L i = []" if "i \<le> MAX_ORDER" "m \<le> 2 ^ i" for i
      using fail(2) k(4) that by (meson leD not_less)
    with fail(1) show ?thesis by (simp add: un)
  next
    case ok
    have sub: "{p..<p + m} \<subseteq> block k p" using k(3) by (auto simp: block_def)
    show ?thesis
    proof (cases "m = 2 ^ k")
      case True
      then have b: "block k p = {p..<p + m}" by (simp add: block_def)
      have "buddy_alloc_pages m s = Some (Some p, s1)" unfolding un using ok(1) True by simp
      with ok(2,4-8) show ?thesis unfolding b
        by (intro disjI1 exI [of _ p] exI [of _ s1] exI [of _ L1]) simp
    next
      case False
      let ?r = "{p + m..<p + m + (2 ^ k - m)}"
      have e: "p + m + (2 ^ k - m) = p + 2 ^ k" using k(3) by simp
      have r: "?r = block k p - {p..<p + m}" unfolding e by (auto simp: block_def)
      have lt: "2 ^ k - m < 2 ^ Suc MAX_ORDER"
      proof -
        have "(2::nat) ^ k < 2 ^ Suc MAX_ORDER" using k(1) by (intro power_strict_increasing) auto
        then show ?thesis by linarith
      qed
      have pos: "0 < 2 ^ k - m" using False k(3) by simp
      have z1: "zones s1 z \<le> p + m" "p + m + (2 ^ k - m) \<le> zones s1 z + n"
        using ok(3,6) unfolding e by (auto simp: in_zone_def)
      have "?r \<inter> free_set L1 = {}" unfolding r ok(5) by blast
      then obtain s2 L2 where f: "buddy_free_pages (p + m) (2 ^ k - m) s1 = Some s2" "buddy_inv s2 z n {} L2"
        "free_set L2 = free_set L1 \<union> ?r" "pmm_frame ?r s1 s2"
        by (rule buddy_free_pages_inv [OF ok(2) pos lt z1])
      have rs: "?r \<subseteq> free_set L" "?r \<inter> {p..<p + m} = {}" using ok(4) unfolding r by auto
      have "buddy_alloc_pages m s = Some (Some p, s2)" using ok(1) False f(1) by (simp add: un)
      moreover have "free_set L2 = free_set L - {p..<p + m}"
        unfolding f(3) ok(5) r using sub ok(4) by blast
      moreover have "\<forall>q. q \<notin> free_set L \<or> q \<in> {p..<p + m} \<longrightarrow> pg_ref (pages s2 q) = pg_ref (pages s q)"
      proof (intro allI impI)
        fix q assume "q \<notin> free_set L \<or> q \<in> {p..<p + m}"
        then have "q \<notin> ?r" using rs by blast
        then show "pg_ref (pages s2 q) = pg_ref (pages s q)" using f(4) ok(8) unfolding pmm_frame_def by auto
      qed
      moreover have "zones s2 = zones s" "npage s2 = npage s"
        using f(4) ok(6,7) by (simp_all add: pmm_frame_def)
      moreover have "{p..<p + m} \<subseteq> free_set L" using sub ok(4) by blast
      ultimately show ?thesis using f(2) by blast
    qed
  qed
qed

section \<open>The initial free lists\<close>

lemma memmap_init_pages_eq:
  "(\<And>q. p \<le> q \<Longrightarrow> q < p + m \<Longrightarrow> PageReserved s q) \<Longrightarrow>
   memmap_init_pages p m s = Some (s\<lparr>pages := (\<lambda>q. if p \<le> q \<and> q < p + m
     then (pages s q)\<lparr>pg_flags := 0, pg_property := 0, pg_zone_num := zone_num s, pg_ref := 0\<rparr> else pages s q)\<rparr>)"
proof (induction m arbitrary: p s)
  case 0
  have "(\<lambda>q. if p \<le> q \<and> q < p + 0 then (pages s q)\<lparr>pg_flags := 0, pg_property := 0, pg_zone_num := zone_num s, pg_ref := 0\<rparr>
      else pages s q) = pages s"
    by (auto intro!: ext)
  then show ?case by simp
next
  case (Suc m)
  let ?f = "\<lambda>x. x\<lparr>pg_flags := 0, pg_property := 0, pg_zone_num := zone_num s, pg_ref := 0\<rparr>"
  let ?s = "set_page_ref p 0 (upd_page p (\<lambda>x. x\<lparr>pg_flags := 0, pg_property := 0, pg_zone_num := zone_num s\<rparr>) s)"
  have c: "PageReserved s p" using Suc.prems [of p] by simp
  have z: "zone_num ?s = zone_num s" by (simp add: page_ops)
  have "PageReserved ?s q" if "p + 1 \<le> q" "q < p + 1 + m" for q
    using Suc.prems [of q] that by (simp add: page_ops)
  note Suc.IH [of "p + 1" ?s, OF this, unfolded z]
  moreover have "(\<lambda>q. if p + 1 \<le> q \<and> q < p + 1 + m then ?f (pages ?s q) else pages ?s q) =
     (\<lambda>q. if p \<le> q \<and> q < p + Suc m then ?f (pages s q) else pages s q)"
    by (auto simp: fun_eq_iff page_ops)
  ultimately show ?case using c by (simp add: page_ops)
qed

lemma memmap_fill_inv:
  assumes "buddy_inv s z n {} L" and "i \<le> MAX_ORDER"
    and "zones s z \<le> p" and "p + m = zones s z + n" and "2 ^ i dvd p - zones s z"
    and "free_set L = {zones s z..<p}"
  shows "\<exists>s' L'. memmap_fill m i p s = Some s' \<and> buddy_inv s' z n {} L' \<and>
    free_set L' = {zones s z..<zones s z + n} \<and> zones s' = zones s \<and> npage s' = npage s"
  using assms
proof (induction m i p s arbitrary: L rule: memmap_fill.induct)
  case (1 m i p s)
  show ?case
  proof (cases "m = 0")
    case True
    with "1.prems" show ?thesis by (subst memmap_fill.simps) auto
  next
    case m: False
    show ?thesis
    proof (cases "m \<ge> 2 ^ i")
      case True
      let ?s = "free_list_add i p s" and ?L = "L(i := p # L i)"
      have zp: "in_zone s z n i p" using "1.prems" True by (intro in_zoneI) auto
      have "block i p \<inter> free_set L = {}" unfolding "1.prems"(6) by (auto simp: block_def)
      from buddy_inv_add [OF "1.prems"(1,2) zp this] have inv: "buddy_inv ?s z n {} ?L" .
      have z': "zones ?s = zones s" "npage ?s = npage s" by (simp_all add: free_list_add_fields)
      have f: "free_set ?L = {zones ?s z..<p + 2 ^ i}"
        using free_set_push [OF "1.prems"(2)] "1.prems"(3,6) by (auto simp: block_def z')
      have "p + 2 ^ i - zones s z = (p - zones s z) + 2 ^ i" using "1.prems"(3) by simp
      then have d: "2 ^ i dvd p + 2 ^ i - zones ?s z" using "1.prems"(5) by (simp add: z')
      have st: "memmap_fill m i p s = memmap_fill (m - 2 ^ i) i (p + 2 ^ i) ?s"
        using m True by (subst memmap_fill.simps) simp
      show ?thesis unfolding st
        using "1.IH"(1) [OF m True inv "1.prems"(2) _ _ d f] "1.prems"(3,4) True by (simp add: z')
    next
      case False
      then have i: "i \<noteq> 0" using m by (cases i) auto
      have st: "memmap_fill m i p s = memmap_fill m (i - 1) p s"
        using m False i by (subst memmap_fill.simps) simp
      have "2 ^ (i - 1) dvd p - zones s z"
        using "1.prems"(5) by (meson diff_le_self dvd_trans le_imp_power_dvd)
      then show ?thesis unfolding st
        using "1.IH"(2) [OF m False i "1.prems"(1) _ "1.prems"(3,4)] "1.prems"(2,6) by simp
    qed
  qed
qed

lemma buddy_init_fold:
  "k \<le> Suc MAX_ORDER \<Longrightarrow>
   (let s' = fold (\<lambda>i s. upd_nr_free i (\<lambda>_. 0) (s\<lparr>free_links := list_init (FHead i) (free_links s)\<rparr>)) [0..<k] s
    in (\<forall>i < k. ring (free_links s') (FHead i) [] \<and> nr_free s' i = 0) \<and>
       pages s' = pages s \<and> npage s' = npage s \<and> zones s' = zones s \<and> zone_num s' = zone_num s)"
proof (induction k)
  case (Suc k)
  then show ?case
    using ring_init [of "FHead k"] ring_init_other [of _ _ "[]" "FHead k"]
    by (auto simp: Let_def upd_nr_free_def less_Suc_eq)
qed simp

lemma buddy_init_lists:
  "free_lists (buddy_init s) (\<lambda>_. [])" "pages (buddy_init s) = pages s" "npage (buddy_init s) = npage s"
  "zone_num (buddy_init s) = zone_num s"
  using buddy_init_fold [of "Suc MAX_ORDER" s]
  by (auto simp: buddy_init_def free_lists_def Let_def less_Suc_eq_le)

lemma buddy_init_memmap_inv:
  assumes res: "\<And>q. q < npage s \<Longrightarrow> PageReserved s q" and n: "0 < n" "base + n \<le> npage s"
    and zn: "zone_num s < MAX_ZONE_NUM"
  obtains s' L where "buddy_init_memmap base n (buddy_init s) = Some s'"
    and "buddy_inv s' (zone_num s) n {} L" and "free_set L = {base..<base + n}"
    and "zones s' (zone_num s) = base" and "npage s' = npage s"
proof -
  let ?z = "zone_num s"
  define s1 where "s1 = (buddy_init s)\<lparr>pages := (\<lambda>q. if base \<le> q \<and> q < base + n
     then (pages s q)\<lparr>pg_flags := 0, pg_property := 0, pg_zone_num := ?z, pg_ref := 0\<rparr> else pages s q)\<rparr>"
  define s2 where "s2 = s1\<lparr>zones := (zones s1)(?z := base), zone_num := ?z + 1\<rparr>"
  have i1: "memmap_init_pages base n (buddy_init s) = Some s1"
    using memmap_init_pages_eq [of base n "buddy_init s"] res n
    by (simp add: s1_def buddy_init_lists PageReserved_def cong: if_cong)
  have fl: "free_lists s2 (\<lambda>_. [])"
    using free_lists_cong [of s2 "buddy_init s" "\<lambda>_. []"] buddy_init_lists by (simp add: s2_def s1_def)
  have "zone_ok s2 ?z n"
    using res n by (auto simp: zone_ok_def s2_def s1_def buddy_init_lists PageReserved_def)
  with fl have inv: "buddy_inv s2 ?z n {} (\<lambda>_. [])"
    by (auto simp: buddy_inv_def s2_def s1_def PageProperty_def)
  have z2: "zones s2 ?z = base" "npage s2 = npage s" by (simp_all add: s2_def s1_def buddy_init_lists)
  have "\<exists>s' L'. memmap_fill n MAX_ORDER base s2 = Some s' \<and> buddy_inv s' ?z n {} L' \<and>
    free_set L' = {zones s2 ?z..<zones s2 ?z + n} \<and> zones s' = zones s2 \<and> npage s' = npage s2"
    by (rule memmap_fill_inv [OF inv]) (simp_all add: z2 free_set_def)
  moreover have "buddy_init_memmap base n (buddy_init s) = memmap_fill n MAX_ORDER base s2"
    using n zn i1 by (simp add: buddy_init_memmap_def buddy_init_lists s2_def) (simp add: s1_def buddy_init_lists)
  ultimately show ?thesis using that z2 by metis
qed

section \<open>The number of free pages\<close>

lemma card_free_set:
  assumes inv: "buddy_inv s z n X L"
  shows "card (free_set L) = (\<Sum>i \<le> MAX_ORDER. length (L i) * 2 ^ i)"
proof -
  have dist: "distinct (L i)" if "i \<le> MAX_ORDER" for i
    using inv that ring_distinct [of "free_links s" "FHead i" "map FPage (L i)"]
    by (auto simp: buddy_inv_def free_lists_def distinct_map)
  have sep: "i = j \<and> p = q" if "i \<le> MAX_ORDER" "p \<in> set (L i)" "j \<le> MAX_ORDER" "q \<in> set (L j)"
    "block i p \<inter> block j q \<noteq> {}" for i p j q
    using inv that unfolding buddy_inv_def by blast
  have c: "card (\<Union>p \<in> set (L i). block i p) = length (L i) * 2 ^ i" if i: "i \<le> MAX_ORDER" for i
  proof -
    have "card (\<Union>p \<in> set (L i). block i p) = (\<Sum>p \<in> set (L i). card (block i p))"
      by (rule card_UN_disjoint) (use sep [OF i _ i] in \<open>auto simp: block_def\<close>)
    also have "\<dots> = card (set (L i)) * 2 ^ i" by (simp add: block_def)
    finally show ?thesis using distinct_card [OF dist [OF i]] by simp
  qed
  have "card (free_set L) = (\<Sum>i \<le> MAX_ORDER. card (\<Union>p \<in> set (L i). block i p))"
    unfolding free_set_def
  proof (rule card_UN_disjoint)
    show "\<forall>i \<in> {..MAX_ORDER}. \<forall>j \<in> {..MAX_ORDER}. i \<noteq> j \<longrightarrow>
        (\<Union>p \<in> set (L i). block i p) \<inter> (\<Union>p \<in> set (L j). block j p) = {}"
      using sep by blast
  qed (auto simp: block_def)
  with c show ?thesis by simp
qed

lemma buddy_inv_free_subset: "buddy_inv s z n X L \<Longrightarrow> free_set L \<subseteq> {zones s z..<zones s z + n}"
  by (fastforce simp: buddy_inv_def free_set_def in_zone_def block_def)

lemma sum_list_of_nat: "(\<Sum>i \<leftarrow> xs. of_nat (f i)) = (of_nat (\<Sum>i \<leftarrow> xs. f i) :: 'a::semiring_1)"
  by (induction xs) simp_all

lemma nr_free_pages_eq:
  assumes inv: "buddy_inv s z n X L" and small: "n < 2 ^ 32"
  shows "unat (buddy_nr_free_pages s) = card (free_set L)"
proof -
  have "buddy_nr_free_pages s = (\<Sum>i \<leftarrow> [0..<MAX_ORDER + 1]. of_nat (length (L i) * 2 ^ i))"
    using inv unfolding buddy_nr_free_pages_def buddy_inv_def free_lists_def
    by (intro arg_cong [where f = sum_list] map_cong) auto
  also have "\<dots> = of_nat (\<Sum>i \<leftarrow> [0..<MAX_ORDER + 1]. length (L i) * 2 ^ i)"
    by (rule sum_list_of_nat)
  also have "(\<Sum>i \<leftarrow> [0..<MAX_ORDER + 1]. length (L i) * 2 ^ i) = card (free_set L)"
    unfolding card_free_set [OF inv] by (simp add: interv_sum_list_conv_sum_set_nat atLeast0LessThan lessThan_Suc_atMost [symmetric])
  finally have "buddy_nr_free_pages s = of_nat (card (free_set L))" .
  moreover have "card (free_set L) < 2 ^ 32"
    using card_mono [OF _ buddy_inv_free_subset [OF inv]] small by auto
  ultimately show ?thesis by (simp add: unat_of_nat)
qed

section \<open>The contract of a page manager\<close>

text \<open>
  What \<^verbatim>\<open>struct pmm_manager\<close> promises its clients: there is a set of free pages inside
  an arena; allocation of \<open>m\<close> pages takes a contiguous run out of it or leaves everything as it is,
  freeing a run that is not free puts exactly that run back, and neither fails.
\<close>

locale page_manager =
  fixes free_pages_are :: "'s \<Rightarrow> nat set \<Rightarrow> bool"
    and arena :: "nat set"
    and max_request :: nat
    and alloc :: "nat \<Rightarrow> 's \<Rightarrow> (nat option \<times> 's) option"
    and release :: "nat \<Rightarrow> nat \<Rightarrow> 's \<Rightarrow> 's option"
  assumes in_arena: "free_pages_are s F \<Longrightarrow> F \<subseteq> arena"
    and alloc_spec: "free_pages_are s F \<Longrightarrow> 0 < m \<Longrightarrow> m \<le> max_request \<Longrightarrow>
      (\<exists>p s'. alloc m s = Some (Some p, s') \<and> {p..<p + m} \<subseteq> F \<and> free_pages_are s' (F - {p..<p + m})) \<or>
      alloc m s = Some (None, s)"
    and release_spec: "free_pages_are s F \<Longrightarrow> 0 < m \<Longrightarrow> m \<le> max_request \<Longrightarrow>
      {p..<p + m} \<subseteq> arena - F \<Longrightarrow>
      \<exists>s'. release p m s = Some s' \<and> free_pages_are s' (F \<union> {p..<p + m})"
begin

lemma alloc_release:
  assumes "free_pages_are s F" and "0 < m" and "m \<le> max_request" and "alloc m s = Some (Some p, s')"
  shows "\<exists>s''. release p m s' = Some s'' \<and> free_pages_are s'' F"
proof -
  from alloc_spec [OF assms(1-3)] assms(4)
  have p: "{p..<p + m} \<subseteq> F" "free_pages_are s' (F - {p..<p + m})" by auto
  then have "{p..<p + m} \<subseteq> arena - (F - {p..<p + m})" using in_arena [OF assms(1)] by blast
  from release_spec [OF p(2) assms(2,3) this] p(1) show ?thesis
    by (simp add: Un_absorb2)
qed

text \<open>Live allocations: disjoint, and together with the free pages they are the arena.\<close>

definition accounted :: "'s \<Rightarrow> (nat \<times> nat) list \<Rightarrow> bool" where
  "accounted s live \<longleftrightarrow> (\<exists>F. free_pages_are s F \<and> (\<forall>(p, m) \<in> set live. 0 < m \<and> m \<le> max_request) \<and>
     sorted_wrt (\<lambda>(p, m) (q, k). {p..<p + m} \<inter> {q..<q + k} = {}) live \<and>
     F \<inter> (\<Union>(p, m) \<in> set live. {p..<p + m}) = {} \<and>
     F \<union> (\<Union>(p, m) \<in> set live. {p..<p + m}) = arena)"

lemma accounted_alloc:
  assumes "accounted s live" and "0 < m" and "m \<le> max_request" and "alloc m s = Some (Some p, s')"
  shows "accounted s' ((p, m) # live)"
proof -
  let ?U = "\<Union>(p, m) \<in> set live. {p..<p + m}"
  from assms(1) obtain F where F: "free_pages_are s F" "F \<inter> ?U = {}" "F \<union> ?U = arena"
    "sorted_wrt (\<lambda>(p, m) (q, k). {p..<p + m} \<inter> {q..<q + k} = {}) live"
    "\<forall>(p, m) \<in> set live. 0 < m \<and> m \<le> max_request" unfolding accounted_def by blast
  from alloc_spec [OF F(1) assms(2,3)] assms(4)
  have p: "{p..<p + m} \<subseteq> F" "free_pages_are s' (F - {p..<p + m})" by auto
  have "{p..<p + m} \<inter> {q..<q + k} = {}" if "(q, k) \<in> set live" for q k
    using p(1) F(2) that by blast
  then show ?thesis
    unfolding accounted_def using p F assms(2,3)
    by (intro exI [of _ "F - {p..<p + m}"]) auto
qed

lemma accounted_release:
  assumes acc: "accounted s (us @ (p, m) # vs)"
  shows "\<exists>s'. release p m s = Some s' \<and> accounted s' (us @ vs)"
proof -
  let ?U = "\<lambda>xs. \<Union>(p, m) \<in> set xs. {p..<p + m}"
  from acc obtain F where F: "free_pages_are s F" "F \<inter> ?U (us @ (p, m) # vs) = {}"
    "F \<union> ?U (us @ (p, m) # vs) = arena"
    "sorted_wrt (\<lambda>(p, m) (q, k). {p..<p + m} \<inter> {q..<q + k} = {}) (us @ (p, m) # vs)"
    "\<forall>(p, m) \<in> set (us @ (p, m) # vs). 0 < m \<and> m \<le> max_request" unfolding accounted_def by blast
  have m: "0 < m" "m \<le> max_request" using F(5) by auto
  have "{p..<p + m} \<subseteq> arena - F" using F(2,3) by auto
  from release_spec [OF F(1) m this] obtain s' where
    s': "release p m s = Some s'" "free_pages_are s' (F \<union> {p..<p + m})" by blast
  have d: "{p..<p + m} \<inter> ?U (us @ vs) = {}"
    using F(4) by (fastforce simp: sorted_wrt_append)
  have "accounted s' (us @ vs)"
    unfolding accounted_def
  proof (intro exI [of _ "F \<union> {p..<p + m}"] conjI)
    show "(F \<union> {p..<p + m}) \<inter> ?U (us @ vs) = {}" using d F(2) by auto
    show "F \<union> {p..<p + m} \<union> ?U (us @ vs) = arena" unfolding F(3) [symmetric] by auto
  qed (use s'(2) F(4,5) in \<open>auto simp: sorted_wrt_append\<close>)
  with s'(1) show ?thesis by blast
qed

end

text \<open>The buddy allocator keeps the contract for requests of up to 1024 pages.\<close>

definition buddy_free_is :: "nat \<Rightarrow> nat \<Rightarrow> nat \<Rightarrow> 'z pmm_scheme \<Rightarrow> nat set \<Rightarrow> bool" where
  "buddy_free_is z b n s F \<longleftrightarrow> (\<exists>L. buddy_inv s z n {} L \<and> free_set L = F \<and> zones s z = b)"

interpretation buddy: page_manager "buddy_free_is z b n" "{b..<b + n}" "2 ^ MAX_ORDER"
  buddy_alloc_pages buddy_free_pages for z b n
proof unfold_locales
  show "F \<subseteq> {b..<b + n}" if "buddy_free_is z b n s F" for s :: "'a pmm_scheme" and F
    using that buddy_inv_free_subset by (force simp: buddy_free_is_def)
  show "(\<exists>p s'. buddy_alloc_pages m s = Some (Some p, s') \<and> {p..<p + m} \<subseteq> F \<and>
      buddy_free_is z b n s' (F - {p..<p + m})) \<or> buddy_alloc_pages m s = Some (None, s)"
    if "buddy_free_is z b n s F" "0 < m" "m \<le> 2 ^ MAX_ORDER" for s :: "'a pmm_scheme" and F m
    using that buddy_alloc_pages_inv [of s z n _ m] unfolding buddy_free_is_def by (metis (no_types, lifting))
  show "\<exists>s'. buddy_free_pages p m s = Some s' \<and> buddy_free_is z b n s' (F \<union> {p..<p + m})"
    if F: "buddy_free_is z b n s F" and m: "0 < m" "m \<le> 2 ^ MAX_ORDER" and p: "{p..<p + m} \<subseteq> {b..<b + n} - F"
    for s :: "'a pmm_scheme" and F m p
  proof -
    from F obtain L where L: "buddy_inv s z n {} L" "free_set L = F" "zones s z = b"
      unfolding buddy_free_is_def by blast
    have "p \<in> {p..<p + m}" "p + m - 1 \<in> {p..<p + m}" using m(1) by auto
    then have z: "zones s z \<le> p" "p + m \<le> zones s z + n" using p L(3) m(1) by (force, force)
    have lt: "m < 2 ^ Suc MAX_ORDER" using m(2) by (simp add: MAX_ORDER_def)
    have "{p..<p + m} \<inter> free_set L = {}" using p L(2) by blast
    then obtain s' L' where "buddy_free_pages p m s = Some s'" "buddy_inv s' z n {} L'"
      "free_set L' = free_set L \<union> {p..<p + m}" "pmm_frame {p..<p + m} s s'"
      by (rule buddy_free_pages_inv [OF L(1) m(1) lt z])
    with L show ?thesis by (auto simp: buddy_free_is_def pmm_frame_def)
  qed
qed

section \<open>Runs of the allocator\<close>

text \<open>
  Any sequence of allocations of up to 1024 pages and of releases of live allocations,
  from a state \<open>s0\<close> on. \<open>live\<close> lists the runs of pages handed out.
\<close>

inductive buddy_run :: "pmm \<Rightarrow> (nat \<times> nat) list \<Rightarrow> pmm \<Rightarrow> bool" for s0 :: pmm where
  boot: "buddy_run s0 [] s0"
| alloc_ok: "buddy_run s0 live s \<Longrightarrow> 0 < m \<Longrightarrow> m \<le> 2 ^ MAX_ORDER \<Longrightarrow>
    buddy_alloc_pages m s = Some (Some p, s') \<Longrightarrow> buddy_run s0 ((p, m) # live) s'"
| alloc_fail: "buddy_run s0 live s \<Longrightarrow> 0 < m \<Longrightarrow> m \<le> 2 ^ MAX_ORDER \<Longrightarrow>
    buddy_alloc_pages m s = Some (None, s') \<Longrightarrow> buddy_run s0 live s'"
| release: "buddy_run s0 (us @ (p, m) # vs) s \<Longrightarrow> buddy_free_pages p m s = Some s' \<Longrightarrow>
    buddy_run s0 (us @ vs) s'"

lemma buddy_run_accounted:
  assumes "buddy_run s0 live s" and "buddy_free_is z b n s0 {b..<b + n}"
  shows "buddy.accounted z b n s live"
  using assms
proof (induction rule: buddy_run.induct)
  case boot
  then show ?case by (auto simp: buddy.accounted_def)
next
  case (alloc_ok live s m p s')
  then show ?case by (intro buddy.accounted_alloc) auto
next
  case (alloc_fail live s m s')
  then have "buddy.accounted z b n s live" by simp
  then obtain F where "buddy_free_is z b n s F" unfolding buddy.accounted_def by blast
  from buddy.alloc_spec [OF this alloc_fail.hyps(2,3)] alloc_fail have "s' = s" by auto
  with alloc_fail show ?case by simp
next
  case (release us p m vs s s')
  then show ?case using buddy.accounted_release [of z b n s us p m vs] by auto
qed

definition demo_pmm :: pmm where
  "demo_pmm = \<lparr>pages = (\<lambda>_. \<lparr>pg_ref = 0, pg_flags = 1, pg_property = 0, pg_zone_num = 0\<rparr>), npage = 8192,
     free_links = \<lparr>le_prev = (\<lambda>x. x), le_next = (\<lambda>x. x)\<rparr>, nr_free = (\<lambda>_. 0), zones = (\<lambda>_. 0), zone_num = 0\<rparr>"

section \<open>Properties\<close>

text \<open>
  C33: From boot on, the buddy allocator hands out disjoint runs of pages: after
  \<^verbatim>\<open>buddy_init\<close> and \<^verbatim>\<open>buddy_init_memmap\<close> on a range of reserved pages, which always
  succeed, in every state that allocations and releases of live runs reach, the live runs are
  pairwise disjoint, and the free pages and the live runs together are exactly the range.\<close>
theorem buddy_no_overlap:
  assumes "\<forall>q < npage s. PageReserved s q" and "0 < n" and "base + n \<le> npage s"
    and "zone_num s < MAX_ZONE_NUM"
  shows "\<exists>s0. buddy_init_memmap base n (buddy_init s) = Some s0 \<and>
    (\<forall>live s1. buddy_run s0 live s1 \<longrightarrow>
       (\<exists>F. buddy_free_is (zone_num s) base n s1 F \<and>
          sorted_wrt (\<lambda>(p, m) (q, k). {p..<p + m} \<inter> {q..<q + k} = {}) live \<and>
          F \<inter> (\<Union>(p, m) \<in> set live. {p..<p + m}) = {} \<and>
          F \<union> (\<Union>(p, m) \<in> set live. {p..<p + m}) = {base..<base + n}))"
proof -
  obtain s0 L where s0: "buddy_init_memmap base n (buddy_init s) = Some s0"
    "buddy_inv s0 (zone_num s) n {} L" "free_set L = {base..<base + n}" "zones s0 (zone_num s) = base"
    by (rule buddy_init_memmap_inv [of s n base]) (use assms in auto)
  then have "buddy_free_is (zone_num s) base n s0 {base..<base + n}" by (auto simp: buddy_free_is_def)
  from buddy_run_accounted [OF _ this]
  have "\<exists>F. buddy_free_is (zone_num s) base n s1 F \<and>
      sorted_wrt (\<lambda>(p, m) (q, k). {p..<p + m} \<inter> {q..<q + k} = {}) live \<and>
      F \<inter> (\<Union>(p, m) \<in> set live. {p..<p + m}) = {} \<and>
      F \<union> (\<Union>(p, m) \<in> set live. {p..<p + m}) = {base..<base + n}" if "buddy_run s0 live s1" for live s1
    using that unfolding buddy.accounted_def by blast
  with s0(1) show ?thesis by (intro exI [of _ s0] conjI allI impI)
qed

theorem buddy_no_overlap_witness:
  "\<exists>s0. buddy_init_memmap 300 7892 (buddy_init demo_pmm) = Some s0 \<and> buddy_free_is 0 300 7892 s0 {300..<8192}"
proof -
  have "\<forall>q < npage demo_pmm. PageReserved demo_pmm q" "300 + 7892 \<le> npage demo_pmm" "zone_num demo_pmm < MAX_ZONE_NUM"
    by (simp_all add: demo_pmm_def PageReserved_def PG_reserved_def MAX_ZONE_NUM_def)
  from buddy_no_overlap [OF this(1) _ this(2,3)] obtain s0 F where
    "buddy_init_memmap 300 7892 (buddy_init demo_pmm) = Some s0"
    "buddy_free_is (zone_num demo_pmm) 300 7892 s0 F" "F = {300..<300 + 7892}"
    using buddy_run.boot by fastforce
  then show ?thesis by (auto simp: demo_pmm_def)
qed

text \<open>
  \<^verbatim>\<open>buddy_alloc_pages\<close> of up to 1024 pages never panics. It returns a run of exactly the
  requested length out of the free pages, gives the rest of the block back, and changes the
  reference count of no page in use; it returns \<^verbatim>\<open>NULL\<close> and changes nothing only when no free
  block is large enough.\<close>
theorem buddy_alloc_pages_correct:
  assumes "buddy_inv s z n {} L" and "0 < m" and "m \<le> 1024"
  shows "(\<exists>p s' L'. buddy_alloc_pages m s = Some (Some p, s') \<and> buddy_inv s' z n {} L' \<and>
       {p..<p + m} \<subseteq> free_set L \<and> free_set L' = free_set L - {p..<p + m} \<and>
       (\<forall>q. q \<notin> free_set L \<longrightarrow> pg_ref (pages s' q) = pg_ref (pages s q))) \<or>
     buddy_alloc_pages m s = Some (None, s) \<and> (\<forall>i \<le> MAX_ORDER. m \<le> 2 ^ i \<longrightarrow> L i = [])"
proof -
  have "m \<le> 2 ^ MAX_ORDER" using assms(3) by (simp add: MAX_ORDER_def)
  from buddy_alloc_pages_inv [OF assms(1,2) this] show ?thesis by blast
qed

lemma demo_pmm_booted:
  "\<exists>s0 L. buddy_init_memmap 300 7892 (buddy_init demo_pmm) = Some s0 \<and> buddy_inv s0 0 7892 {} L \<and>
     free_set L = {300..<8192} \<and> zones s0 0 = 300"
  by (rule buddy_init_memmap_inv [of demo_pmm 7892 300])
    (auto simp: demo_pmm_def PageReserved_def PG_reserved_def MAX_ZONE_NUM_def)

theorem buddy_alloc_pages_correct_witness:
  "\<exists>(s :: pmm) L. buddy_inv s 0 7892 {} L \<and> free_set L = {300..<8192} \<and>
     ((\<exists>p s' L'. buddy_alloc_pages 5 s = Some (Some p, s') \<and> buddy_inv s' 0 7892 {} L' \<and>
       {p..<p + 5} \<subseteq> free_set L \<and> free_set L' = free_set L - {p..<p + 5}) \<or>
     buddy_alloc_pages 5 s = Some (None, s) \<and> L 3 = [])"
proof -
  obtain s :: pmm and L where "buddy_inv s 0 7892 {} L" "free_set L = {300..<8192}" using demo_pmm_booted by blast
  moreover from this(1) have "(\<exists>p s' L'. buddy_alloc_pages 5 s = Some (Some p, s') \<and> buddy_inv s' 0 7892 {} L' \<and>
       {p..<p + 5} \<subseteq> free_set L \<and> free_set L' = free_set L - {p..<p + 5} \<and>
       (\<forall>q. q \<notin> free_set L \<longrightarrow> pg_ref (pages s' q) = pg_ref (pages s q))) \<or>
     buddy_alloc_pages 5 s = Some (None, s) \<and> (\<forall>i \<le> MAX_ORDER. (5 :: nat) \<le> 2 ^ i \<longrightarrow> L i = [])"
    by (rule buddy_alloc_pages_correct) simp_all
  moreover have "3 \<le> MAX_ORDER" "(5 :: nat) \<le> 2 ^ 3" by (simp_all add: MAX_ORDER_def)
  ultimately show ?thesis by blast
qed

text \<open>
  \<^verbatim>\<open>buddy_free_pages\<close> on any run of fewer than 2048 pages of the zone that are not free
  never trips an assertion, whatever its alignment: exactly that run becomes free, merged
  with its buddies so that the free blocks stay aligned and disjoint, and
  \<^verbatim>\<open>buddy_nr_free_pages\<close> counts the free pages.\<close>
theorem buddy_free_pages_correct:
  assumes "buddy_inv s z n {} L" and "0 < m" and "m < 2048" and "zones s z \<le> p"
    and "p + m \<le> zones s z + n" and "{p..<p + m} \<inter> free_set L = {}" and "n < 2 ^ 32"
  shows "\<exists>s' L'. buddy_free_pages p m s = Some s' \<and> buddy_inv s' z n {} L' \<and>
    free_set L' = free_set L \<union> {p..<p + m} \<and>
    unat (buddy_nr_free_pages s') = unat (buddy_nr_free_pages s) + m"
proof -
  have "m < 2 ^ Suc MAX_ORDER" using assms(3) by (simp add: MAX_ORDER_def)
  then obtain s' L' where s': "buddy_free_pages p m s = Some s'" "buddy_inv s' z n {} L'"
    "free_set L' = free_set L \<union> {p..<p + m}"
    by (rule buddy_free_pages_inv [OF assms(1,2) _ assms(4-6)])
  have "finite (free_set L)" by (simp add: free_set_def block_def)
  then have "card (free_set L') = card (free_set L) + m"
    unfolding s'(3) using card_Un_disjoint [of "free_set L" "{p..<p + m}"] assms(6) by (simp add: Int_commute)
  then show ?thesis
    using s' nr_free_pages_eq [OF s'(2) assms(7)] nr_free_pages_eq [OF assms(1,7)] by auto
qed

theorem buddy_free_pages_correct_witness:
  "\<exists>(s :: pmm) L. \<exists>s' L'. buddy_free_pages 301 6 s = Some s' \<and> buddy_inv s' 0 7892 {} L' \<and>
    free_set L' = free_set L \<union> {301..<301 + 6} \<and>
    unat (buddy_nr_free_pages s') = unat (buddy_nr_free_pages s) + 6"
proof -
  define s where "s = demo_pmm\<lparr>pages := (\<lambda>p. \<lparr>pg_ref = 0, pg_flags = of_bool (p < 300), pg_property = 0, pg_zone_num = 0\<rparr>),
    zones := (\<lambda>_. 300)\<rparr>"
  have "buddy_inv s 0 7892 {} (\<lambda>_. [])"
    by (auto simp: buddy_inv_def zone_ok_def free_lists_def s_def demo_pmm_def ring_def linked_def
        PageReserved_def PageProperty_def PG_reserved_def PG_property_def)
  from buddy_free_pages_correct [OF this, of 6 301] show ?thesis
    by - (rule exI [of _ s], rule exI [of _ "\<lambda>_. []"], simp add: s_def free_set_def)
qed

end
