(* ===== verification/Pmm.thy ===== *)
theory Pmm
  imports Buddy Paging
begin

text \<open>
  The page tables of \<^verbatim>\<open>kern/mm/pmm.c\<close> and the address conversions of \<^verbatim>\<open>kern/mm/pmm.h\<close>, on top of the
  buddy allocator. Kernel memory is \<open>kmem v p i\<close>, the \<open>i\<close>-th word of physical page \<open>p\<close>; a pointer
  to a table entry is a 32-bit kernel address, and \<open>kread\<close> and \<open>kwrite\<close> access the word it points
  to. A \<^verbatim>\<open>memset\<close> or \<^verbatim>\<open>memcpy\<close> of \<^verbatim>\<open>PGSIZE\<close> bytes at a page address replaces the whole page.
\<close>

section \<open>Memory and addresses\<close>

record vmem = pmm +
  kmem :: "nat \<Rightarrow> nat \<Rightarrow> u32"
  vtlb :: tlb

definition kread :: "'z vmem_scheme \<Rightarrow> u32 \<Rightarrow> u32" where
  "kread v a = kmem v (unat (PPN a)) (unat (PGOFF a) div 4)"

definition kwrite :: "u32 \<Rightarrow> u32 \<Rightarrow> 'z vmem_scheme \<Rightarrow> 'z vmem_scheme" where
  "kwrite a x v = v\<lparr>kmem := (kmem v)(unat (PPN a) := (kmem v (unat (PPN a)))(unat (PGOFF a) div 4 := x))\<rparr>"

definition page_fill :: "nat \<Rightarrow> (nat \<Rightarrow> u32) \<Rightarrow> 'z vmem_scheme \<Rightarrow> 'z vmem_scheme" where
  "page_fill p f v = v\<lparr>kmem := (kmem v)(p := f)\<rparr>"

definition tlb_flush :: "'z vmem_scheme \<Rightarrow> 'z vmem_scheme" where
  "tlb_flush v = v\<lparr>vtlb := tlb_invalidate_all (vtlb v)\<rparr>"

abbreviation (input) PTSIZE :: u32 where "PTSIZE \<equiv> 0x400000"
abbreviation (input) USERBASE :: u32 where "USERBASE \<equiv> 0x10000000"
abbreviation (input) USERTOP :: u32 where "USERTOP \<equiv> 0x80000000"

definition USER_ACCESS :: "u32 \<Rightarrow> u32 \<Rightarrow> bool" where
  "USER_ACCESS start fin \<longleftrightarrow> USERBASE \<le> start \<and> start < fin \<and> fin \<le> USERTOP"

definition PADDR :: "u32 \<Rightarrow> u32 kernel" where
  "PADDR kva = (if kva < KERNBASE then panic else Some kva)"

definition KADDR :: "'z pmm_scheme \<Rightarrow> u32 \<Rightarrow> u32 kernel" where
  "KADDR v pa = (if unat (PPN pa) \<ge> npage v then panic else Some pa)"

definition page2pa :: "nat \<Rightarrow> u32" where
  "page2pa p = KERNBASE + push_bit 12 (of_nat p)"

definition pa2page :: "'z pmm_scheme \<Rightarrow> u32 \<Rightarrow> nat kernel" where
  "pa2page v pa = (if unat (PPN pa) \<ge> npage v then panic else Some (unat (PPN pa)))"

definition page2kva :: "'z pmm_scheme \<Rightarrow> nat \<Rightarrow> u32 kernel" where
  "page2kva v p = KADDR v (page2pa p)"

definition kva2page :: "'z pmm_scheme \<Rightarrow> u32 \<Rightarrow> nat kernel" where
  "kva2page v kva = do { pa \<leftarrow> PADDR kva; pa2page v pa }"

definition pte2page :: "'z pmm_scheme \<Rightarrow> u32 \<Rightarrow> nat kernel" where
  "pte2page v pte = (if pte AND PTE_P = 0 then panic else pa2page v (PTE_ADDR pte))"

definition pde2page :: "'z pmm_scheme \<Rightarrow> u32 \<Rightarrow> nat kernel" where
  "pde2page v pde = pa2page v (PTE_ADDR pde)"

definition page_ref_inc :: "nat \<Rightarrow> 'z pmm_scheme \<Rightarrow> 'z pmm_scheme" where
  "page_ref_inc p = upd_page p (\<lambda>x. x\<lparr>pg_ref := pg_ref x + 1\<rparr>)"

definition page_ref_dec :: "nat \<Rightarrow> 'z pmm_scheme \<Rightarrow> 'z pmm_scheme" where
  "page_ref_dec p = upd_page p (\<lambda>x. x\<lparr>pg_ref := pg_ref x - 1\<rparr>)"

definition alloc_pages :: "nat \<Rightarrow> 'z pmm_scheme \<Rightarrow> (nat option \<times> 'z pmm_scheme) kernel" where
  "alloc_pages n v = buddy_alloc_pages n v"

definition free_pages :: "nat \<Rightarrow> nat \<Rightarrow> 'z pmm_scheme \<Rightarrow> 'z pmm_scheme kernel" where
  "free_pages p n v = buddy_free_pages p n v"

definition nr_free_pages :: "'z pmm_scheme \<Rightarrow> u32" where
  "nr_free_pages v = buddy_nr_free_pages v"

section \<open>Boot\<close>

text \<open>
  \<^verbatim>\<open>page_init\<close>: \<open>kmemsize\<close> is the build's \<^verbatim>\<open>KMEMSIZE\<close> and \<open>fin\<close> the end of the kernel image; a
  \<^verbatim>\<open>struct Page\<close> takes 32 bytes.
\<close>

definition page_init :: "u32 \<Rightarrow> u32 \<Rightarrow> 'z pmm_scheme \<Rightarrow> 'z pmm_scheme kernel" where
  "page_init kmemsize fin s = do {
     let kerntop = KERNBASE + kmemsize;
     let np = drop_bit 12 kmemsize;
     let pages_at = ROUNDUP_2N fin 12;
     let s1 = fold SetPageReserved [0..<unat np] (s\<lparr>npage := unat np\<rparr>);
     freemem \<leftarrow> PADDR (pages_at + 32 * np);
     let mbegin = ROUNDUP_2N freemem 12;
     let mend = ROUNDDOWN_2N kerntop 12;
     kassert (mbegin < mend);
     base \<leftarrow> pa2page s1 mbegin;
     buddy_init_memmap base (unat (drop_bit 12 (mend - mbegin))) s1
   }"

section \<open>Page tables\<close>

definition get_pte :: "u32 \<Rightarrow> u32 \<Rightarrow> bool \<Rightarrow> 'z vmem_scheme \<Rightarrow> (u32 option \<times> 'z vmem_scheme) kernel" where
  "get_pte pgdir la create v =
     (let pdep = pgdir + 4 * PDX la;
          ret = (\<lambda>v. do {
            a \<leftarrow> KADDR v (PTE_ADDR (kread v pdep) + 4 * PTX la);
            Some (Some a, v)
          })
      in if kread v pdep AND PTE_P = 0 then
           if \<not> create then Some (None, v)
           else do {
             (r, v1) \<leftarrow> alloc_pages 1 v;
             case r of
               None \<Rightarrow> Some (None, v1)
             | Some p \<Rightarrow> do {
                 let v2 = page_ref_inc p v1;
                 pa \<leftarrow> page2kva v2 p;
                 let v3 = page_fill (unat (PPN pa)) (\<lambda>_. 0) v2;
                 d \<leftarrow> PADDR pa;
                 let v4 = kwrite pdep d v3;
                 ret (kwrite pdep (kread v4 pdep OR (PTE_U OR PTE_P OR PTE_W)) v4)
               }
           }
         else ret v)"

text \<open>The result and the entry address that is stored through \<^verbatim>\<open>ptep_store\<close>.\<close>

definition get_page :: "u32 \<Rightarrow> u32 \<Rightarrow> 'z vmem_scheme \<Rightarrow> (nat option \<times> u32 option) kernel" where
  "get_page pgdir la v = do {
     (ptep, _) \<leftarrow> get_pte pgdir la False v;
     case ptep of
       Some a \<Rightarrow> if kread v a AND PTE_P \<noteq> 0 then do { p \<leftarrow> pa2page v (kread v a); Some (Some p, ptep) }
                  else Some (None, ptep)
     | None \<Rightarrow> Some (None, ptep)
   }"

definition page_remove_pte :: "u32 \<Rightarrow> u32 option \<Rightarrow> 'z vmem_scheme \<Rightarrow> 'z vmem_scheme kernel" where
  "page_remove_pte la ptep v = do {
     v' \<leftarrow> (case ptep of
              Some a \<Rightarrow>
                if kread v a AND PTE_P \<noteq> 0 then do {
                  p \<leftarrow> pte2page v (kread v a);
                  let v1 = page_ref_dec p v;
                  v2 \<leftarrow> (if pg_ref (pages v1 p) = 0 then free_pages p 1 v1 else Some v1);
                  Some (kwrite a 0 v2)
                }
                else Some v
            | None \<Rightarrow> Some v);
     Some (tlb_flush v')
   }"

definition page_remove :: "u32 \<Rightarrow> u32 \<Rightarrow> 'z vmem_scheme \<Rightarrow> 'z vmem_scheme kernel" where
  "page_remove pgdir la v = do {
     (ptep, v1) \<leftarrow> get_pte pgdir la False v;
     if ptep \<noteq> None then page_remove_pte la ptep v1 else Some v1
   }"

definition page_insert :: "u32 \<Rightarrow> nat \<Rightarrow> u32 \<Rightarrow> u32 \<Rightarrow> 'z vmem_scheme \<Rightarrow> (int \<times> 'z vmem_scheme) kernel" where
  "page_insert pgdir p la perm v = do {
     (ptep, v1) \<leftarrow> get_pte pgdir la True v;
     case ptep of
       None \<Rightarrow> Some (- errno_of E_NO_MEM, v1)
     | Some a \<Rightarrow> do {
         let v2 = page_ref_inc p v1;
         v3 \<leftarrow> (if kread v2 a AND PTE_P \<noteq> 0 then do {
                   q \<leftarrow> pte2page v2 (kread v2 a);
                   if q = p then Some (page_ref_dec p v2) else page_remove_pte la (Some a) v2
                 }
                 else Some v2);
         let v4 = kwrite a (page2pa p OR PTE_P OR perm) v3;
         Some (0, tlb_flush v4)
       }
   }"

definition pgdir_alloc_page :: "bool \<Rightarrow> u32 \<Rightarrow> u32 \<Rightarrow> u32 \<Rightarrow> 'z vmem_scheme \<Rightarrow> (nat option \<times> 'z vmem_scheme) kernel" where
  "pgdir_alloc_page swap_init_ok pgdir la perm v = do {
     (r, v1) \<leftarrow> alloc_pages 1 v;
     case r of
       None \<Rightarrow> Some (None, v1)
     | Some p \<Rightarrow> do {
         (ret, v2) \<leftarrow> page_insert pgdir p la perm v1;
         if ret \<noteq> 0 then do { v3 \<leftarrow> free_pages p 1 v2; Some (None, v3) }
         else do { kassert (\<not> swap_init_ok); Some (Some p, v2) }
       }
   }"

fun boot_map_loop :: "u32 \<Rightarrow> nat \<Rightarrow> u32 \<Rightarrow> u32 \<Rightarrow> u32 \<Rightarrow> 'z vmem_scheme \<Rightarrow> 'z vmem_scheme kernel" where
  "boot_map_loop pgdir 0 la pa perm v = Some v"
| "boot_map_loop pgdir (Suc n) la pa perm v = do {
     (ptep, v1) \<leftarrow> get_pte pgdir la True v;
     a \<leftarrow> ptep;
     boot_map_loop pgdir n (la + PGSIZE) (pa + PGSIZE) perm (kwrite a (pa OR PTE_P OR perm) v1)
   }"

definition boot_map_segment :: "u32 \<Rightarrow> u32 \<Rightarrow> u32 \<Rightarrow> u32 \<Rightarrow> u32 \<Rightarrow> 'z vmem_scheme \<Rightarrow> 'z vmem_scheme kernel" where
  "boot_map_segment pgdir la sz pa perm v = do {
     kassert (PGOFF la = PGOFF pa);
     boot_map_loop pgdir (unat (drop_bit 12 (ROUNDUP_2N (sz + PGOFF la) 12)))
       (ROUNDDOWN_2N la 12) (ROUNDDOWN_2N pa 12) perm v
   }"

definition boot_alloc_page :: "'z pmm_scheme \<Rightarrow> (u32 \<times> 'z pmm_scheme) kernel" where
  "boot_alloc_page v = do {
     (r, v1) \<leftarrow> alloc_pages 1 v;
     p \<leftarrow> r;
     a \<leftarrow> page2kva v1 p;
     Some (a, v1)
   }"

section \<open>Ranges of a user address space\<close>

partial_function (option) unmap_loop :: "u32 \<Rightarrow> u32 \<Rightarrow> u32 \<Rightarrow> 'z vmem_scheme \<Rightarrow> 'z vmem_scheme kernel" where
  "unmap_loop pgdir start fin v = do {
     (ptep, v1) \<leftarrow> get_pte pgdir start False v;
     (start', v2) \<leftarrow> (case ptep of
         None \<Rightarrow> Some (ROUNDDOWN_2N (start + PTSIZE) 22, v1)
       | Some a \<Rightarrow> do {
           v2 \<leftarrow> (if kread v1 a \<noteq> 0 then page_remove_pte start ptep v1 else Some v1);
           Some (start + PGSIZE, v2)
         });
     if start' \<noteq> 0 \<and> start' < fin then unmap_loop pgdir start' fin v2 else Some v2
   }"

definition unmap_range :: "u32 \<Rightarrow> u32 \<Rightarrow> u32 \<Rightarrow> 'z vmem_scheme \<Rightarrow> 'z vmem_scheme kernel" where
  "unmap_range pgdir start fin v = do {
     kassert (start mod PGSIZE = 0 \<and> fin mod PGSIZE = 0);
     kassert (USER_ACCESS start fin);
     unmap_loop pgdir start fin v
   }"

partial_function (option) exit_loop :: "u32 \<Rightarrow> u32 \<Rightarrow> u32 \<Rightarrow> 'z vmem_scheme \<Rightarrow> 'z vmem_scheme kernel" where
  "exit_loop pgdir start fin v = do {
     let pdep = pgdir + 4 * PDX start;
     v1 \<leftarrow> (if kread v pdep AND PTE_P \<noteq> 0 then do {
               p \<leftarrow> pde2page v (kread v pdep);
               v1 \<leftarrow> free_pages p 1 v;
               Some (kwrite pdep 0 v1)
             }
             else Some v);
     let start' = start + PTSIZE;
     if start' \<noteq> 0 \<and> start' < fin then exit_loop pgdir start' fin v1 else Some v1
   }"

definition exit_range :: "u32 \<Rightarrow> u32 \<Rightarrow> u32 \<Rightarrow> 'z vmem_scheme \<Rightarrow> 'z vmem_scheme kernel" where
  "exit_range pgdir start fin v = do {
     kassert (start mod PGSIZE = 0 \<and> fin mod PGSIZE = 0);
     kassert (USER_ACCESS start fin);
     exit_loop pgdir (ROUNDDOWN_2N start 22) fin v
   }"

text \<open>
  One page of \<^verbatim>\<open>copy_range\<close>; \<open>Some e\<close> is an early return. The result of \<^verbatim>\<open>page_insert\<close> is dropped,
  as in the code.
\<close>

definition copy_page :: "u32 \<Rightarrow> u32 \<Rightarrow> u32 \<Rightarrow> 'z vmem_scheme \<Rightarrow> (int option \<times> 'z vmem_scheme) kernel" where
  "copy_page to pte start v = do {
     (nptep, v1) \<leftarrow> get_pte to start True v;
     case nptep of
       None \<Rightarrow> Some (Some (- errno_of E_NO_MEM), v1)
     | Some _ \<Rightarrow> do {
         let perm = pte AND PTE_USER;
         p \<leftarrow> pte2page v1 pte;
         (r, v2) \<leftarrow> alloc_pages 1 v1;
         np \<leftarrow> r;
         dst \<leftarrow> page2kva v2 np;
         src \<leftarrow> page2kva v2 p;
         let v3 = page_fill (unat (PPN dst)) (kmem v2 (unat (PPN src))) v2;
         (_, v4) \<leftarrow> page_insert to np start perm v3;
         Some (None, v4)
       }
   }"

partial_function (option) copy_loop :: "u32 \<Rightarrow> u32 \<Rightarrow> u32 \<Rightarrow> u32 \<Rightarrow> 'z vmem_scheme \<Rightarrow> (int \<times> 'z vmem_scheme) kernel" where
  "copy_loop to from start fin v = do {
     (ptep, v1) \<leftarrow> get_pte from start False v;
     (r, start', v2) \<leftarrow> (case ptep of
         None \<Rightarrow> Some (None, ROUNDDOWN_2N (start + PTSIZE) 12, v1)
       | Some a \<Rightarrow>
           if kread v1 a AND PTE_P \<noteq> 0
           then do { (r, v2) \<leftarrow> copy_page to (kread v1 a) start v1; Some (r, start + PGSIZE, v2) }
           else Some (None, start + PGSIZE, v1));
     case r of
       Some e \<Rightarrow> Some (e, v2)
     | None \<Rightarrow> if start' \<noteq> 0 \<and> start' < fin then copy_loop to from start' fin v2 else Some (0, v2)
   }"

definition copy_range :: "u32 \<Rightarrow> u32 \<Rightarrow> u32 \<Rightarrow> u32 \<Rightarrow> 'z vmem_scheme \<Rightarrow> (int \<times> 'z vmem_scheme) kernel" where
  "copy_range to from start fin v = do {
     kassert (start mod PGSIZE = 0 \<and> fin mod PGSIZE = 0);
     kassert (USER_ACCESS start fin);
     copy_loop to from start fin v
   }"

section \<open>Printing the tables\<close>

definition perm2str :: "u32 \<Rightarrow> string" where
  "perm2str perm = [if perm AND PTE_U \<noteq> 0 then CHR ''u'' else CHR ''-'', CHR ''r'',
     if perm AND PTE_W \<noteq> 0 then CHR ''w'' else CHR ''-'']"

function skip_while :: "nat \<Rightarrow> (nat \<Rightarrow> bool) \<Rightarrow> nat \<Rightarrow> nat" where
  "skip_while right P start = (if start < right \<and> P start then skip_while right P (start + 1) else start)"
  by pat_completeness auto
termination
  by (relation "measure (\<lambda>(right, _, start). right - start)") auto

declare skip_while.simps [simp del]

text \<open>The result: the permission, and the values stored in \<^verbatim>\<open>left_store\<close> and \<^verbatim>\<open>right_store\<close> if any.\<close>

definition get_pgtable_items :: "nat \<Rightarrow> nat \<Rightarrow> (nat \<Rightarrow> u32) \<Rightarrow> u32 \<times> (nat \<times> nat) option" where
  "get_pgtable_items right start table =
     (if start \<ge> right then (0, None)
      else let l = skip_while right (\<lambda>i. table i AND PTE_P = 0) start
           in if l < right
              then let perm = table l AND PTE_USER
                   in (perm, Some (l, skip_while right (\<lambda>i. table i AND PTE_USER = perm) (l + 1)))
              else (0, None))"

end
