(* ===== verification/PageTable.thy ===== *)
theory PageTable
  imports Pmm
begin

text \<open>
  What the page table operations of \<^verbatim>\<open>pmm.c\<close> guarantee. \<open>ent v d la\<close> is the entry the tables of
  the page directory in physical page \<open>d\<close> hold for the address \<open>la\<close> (0 when there is no table).
  \<open>vinv\<close> is the invariant of a directory: its tables are distinct pages that the allocator has
  given out, the entries point to pages in use that are no tables, and the reference count of
  every page is at least the number of entries that point to it.
\<close>

section \<open>Addresses\<close>

lemma unat_page2pa:
  assumes "p < 2 ^ 19"
  shows "unat (page2pa p) = 2 ^ 31 + p * 4096"
proof -
  have 1: "unat (push_bit 12 (of_nat p :: u32)) = p * 4096"
    using assms by (simp add: push_bit_eq_mult unat_mult_u32 unat_of_nat take_bit_nat_eq_self mult.commute)
  show ?thesis unfolding page2pa_def
    by (subst unat_add_u32) (use 1 assms in simp_all)
qed

lemma table_addr:
  assumes "p < 2 ^ 19" and "unat i < 1024"
  shows "unat (PPN (page2pa p + 4 * i)) = p" and "unat (PGOFF (page2pa p + 4 * i)) div 4 = unat i"
proof -
  have 4: "unat (4 * i) = 4 * unat i" using assms(2) by (subst unat_mult_u32) simp_all
  have 1: "unat (push_bit 12 (of_nat p :: u32)) = p * 4096"
    using assms by (simp add: push_bit_eq_mult unat_mult_u32 unat_of_nat take_bit_nat_eq_self mult.commute)
  have "page2pa p + 4 * i - KERNBASE = push_bit 12 (of_nat p) + 4 * i" by (simp add: page2pa_def)
  moreover have "unat (push_bit 12 (of_nat p) + 4 * i) = p * 4096 + 4 * unat i"
    by (subst unat_add_u32) (use 1 4 assms in simp_all)
  ultimately show "unat (PPN (page2pa p + 4 * i)) = p"
    using assms(2) by (simp only: PPN_def unat_drop_bit_eq) simp
  have "unat (page2pa p + 4 * i) = 2 ^ 31 + p * 4096 + 4 * unat i"
    by (subst unat_add_u32) (use unat_page2pa [OF assms(1)] 4 assms in simp_all)
  moreover have "(2 ^ 31 + p * 4096 + 4 * unat i) mod 4096 = 4 * unat i"
    using assms(2) by (simp add: mod_add_eq [symmetric] mod_simps)
  ultimately show "unat (PGOFF (page2pa p + 4 * i)) div 4 = unat i"
    by (simp add: PGOFF_def and_FFF take_bit_eq_mod unat_mod)
qed

lemma PPN_page2pa: "p < 2 ^ 19 \<Longrightarrow> unat (PPN (page2pa p)) = p"
  using table_addr(1) [of p 0] by simp

lemma not_FFF: "NOT (0xFFF :: u32) = NOT (mask 12)"
  by (simp add: mask_eq_exp_minus_1)

lemma page2pa_push: "page2pa p = push_bit 12 (0x80000 + of_nat p)"
  by (simp add: page2pa_def push_bit_eq_mult algebra_simps)

lemma PTE_ADDR_flags:
  assumes "perm AND NOT 0xFFF = 0"
  shows "PTE_ADDR (page2pa p OR perm) = page2pa p"
proof (rule bit_eqI)
  fix k assume k: "possible_bit TYPE(32 word) k"
  have "\<not> bit (perm AND NOT (mask 12)) k" unfolding assms [unfolded not_FFF] by simp
  then have "12 \<le> k \<Longrightarrow> \<not> bit perm k" using k by (auto simp: bit_simps possible_bit_def)
  then show "bit (PTE_ADDR (page2pa p OR perm)) k = bit (page2pa p) k"
    using k unfolding PTE_ADDR_def not_FFF page2pa_push by (auto simp: bit_simps possible_bit_def)
qed

lemma PTE_P_flags: "(x OR (PTE_P OR perm)) AND PTE_P \<noteq> 0"
  using and_flag_bit [of "x OR (PTE_P OR perm)" 0] by (simp add: PTE_P_def bit_simps)

section \<open>The allocator leaves memory alone\<close>

lemma page_op_more [simp]:
  "pmm.more (upd_page p f s) = pmm.more s" "pmm.more (upd_nr_free i g s) = pmm.more s"
  "pmm.more (free_list_add i p s) = pmm.more s" "pmm.more (ClearPageProperty p s) = pmm.more s"
  "pmm.more (set_page_ref p r s) = pmm.more s"
  by (simp_all add: page_ops free_list_add_def Let_def)

lemma buddy_split_more [simp]: "pmm.more (buddy_split order c pg s) = pmm.more s"
  by (induction c arbitrary: s) simp_all

lemma buddy_alloc_search_more: "buddy_alloc_search order c s = Some (r, s') \<Longrightarrow> pmm.more s' = pmm.more s"
proof (induction order c s rule: buddy_alloc_search.induct)
  case (1 order c s)
  show ?case
    using 1(2) 1(1) by (subst (asm) buddy_alloc_search.simps) (auto simp: Let_def split: if_splits fcell.splits)
qed

lemma buddy_merge_more: "pmm.more (snd (snd (buddy_merge z i idx s))) = pmm.more s"
proof (induction z i idx s rule: buddy_merge.induct)
  case (1 z i idx s)
  show ?case by (subst buddy_merge.simps) (use 1 in \<open>auto simp: Let_def\<close>)
qed

lemma free_one_more:
  assumes "buddy_free_pages p 1 s = Some s'"
  shows "pmm.more s' = pmm.more s"
proof -
  let ?s1 = "set_page_ref p 0 (upd_page p (\<lambda>x. x\<lparr>pg_flags := 0\<rparr>) s)"
  let ?z = "pg_zone_num (pages ?s1 p)"
  obtain ord idx s2 where m: "buddy_merge ?z 0 (page2idx s p) ?s1 = (ord, idx, s2)" by (metis prod_cases3)
  have "s' = free_list_add ord (idx2page s2 ?z idx) s2"
    using assms m by (auto simp: buddy_free_pages_def buddy_free_pages_sub_def Let_def split: if_splits)
  then show ?thesis using buddy_merge_more [of ?z 0 "page2idx s p" ?s1] m by simp
qed

lemma vmem_more:
  fixes v v' :: "'z vmem_scheme"
  assumes "pmm.more v' = pmm.more v"
  shows "kmem v' = kmem v" "vtlb v' = vtlb v"
  using assms by (cases v; cases v'; simp)+

lemma alloc_page_spec:
  fixes v :: "'z vmem_scheme"
  assumes "buddy_free_is z b n v F"
  shows "(\<exists>p v'. alloc_pages 1 v = Some (Some p, v') \<and> p \<in> F \<and> buddy_free_is z b n v' (F - {p}) \<and> npage v' = npage v \<and>
      (\<forall>q. pg_ref (pages v' q) = pg_ref (pages v q)) \<and> kmem v' = kmem v) \<or> alloc_pages 1 v = Some (None, v)"
proof -
  obtain L where L: "buddy_inv v z n {} L" "free_set L = F" "zones v z = b" using assms by (auto simp: buddy_free_is_def)
  have g: "getorder 1 = Some 0" by (simp add: getorder_def getorder_loop.simps)
  have e: "alloc_pages 1 v = do { (pg, s1) \<leftarrow> buddy_alloc_search 0 0 v; Some (pg, s1) }"
  proof (cases "buddy_alloc_search 0 0 v")
    case (Some x)
    obtain r s1 where "x = (r, s1)" by (cases x)
    with Some show ?thesis by (cases r) (simp_all add: alloc_pages_def buddy_alloc_pages_def g [simplified] buddy_alloc_pages_sub_def)
  qed (simp add: alloc_pages_def buddy_alloc_pages_def g [simplified] buddy_alloc_pages_sub_def)
  have bl: "block 0 p = {p}" for p by (auto simp: block_def)
  show ?thesis
    using buddy_alloc_search_inv [OF L(1) le_refl le0]
  proof (elim disjE exE conjE)
    fix p v' L' assume a: "buddy_alloc_search 0 0 v = Some (Some p, v')" "buddy_inv v' z n {} L'" "block 0 p \<subseteq> free_set L"
      "free_set L' = free_set L - block 0 p" "zones v' = zones v" "npage v' = npage v" "\<forall>q. pg_ref (pages v' q) = pg_ref (pages v q)"
    have "kmem v' = kmem v" by (rule vmem_more) (rule buddy_alloc_search_more [OF a(1)])
    moreover have "alloc_pages 1 v = Some (Some p, v')" unfolding e a(1) by simp
    moreover have "buddy_free_is z b n v' (F - {p})" "p \<in> F" using a L by (auto simp: bl buddy_free_is_def)
    ultimately show ?thesis using a(6,7) by blast
  qed (simp add: e [simplified])
qed

lemma free_page_spec:
  fixes v :: "'z vmem_scheme"
  assumes "buddy_free_is z b n v F" and "p \<in> {b..<b + n} - F"
  shows "\<exists>v'. free_pages p 1 v = Some v' \<and> buddy_free_is z b n v' (insert p F) \<and> npage v' = npage v \<and>
    (\<forall>q. pg_ref (pages v' q) = (if q = p then 0 else pg_ref (pages v q))) \<and> kmem v' = kmem v"
proof -
  obtain L where L: "buddy_inv v z n {} L" "free_set L = F" "zones v z = b" using assms by (auto simp: buddy_free_is_def)
  have d: "{p..<p + 1} \<inter> free_set L = {}" using assms(2) L by auto
  obtain v' L' where f: "buddy_free_pages p 1 v = Some v'" "buddy_inv v' z n {} L'" "free_set L' = free_set L \<union> {p..<p + 1}"
    "pmm_frame {p..<p + 1} v v'"
    by (rule buddy_free_pages_inv [OF L(1), of 1 p]) (use assms(2) L d in \<open>auto simp: MAX_ORDER_def\<close>)
  have "kmem v' = kmem v" by (rule vmem_more) (rule free_one_more [OF f(1)])
  moreover have "buddy_free_is z b n v' (insert p F)"
    using f L by (auto simp: buddy_free_is_def pmm_frame_def intro!: exI [of _ L'])
  ultimately show ?thesis using f(1,4) by (auto simp: free_pages_def pmm_frame_def)
qed

lemma buddy_free_is_cong:
  assumes "zones v' = zones v" "npage v' = npage v" "free_links v' = free_links v" "nr_free v' = nr_free v"
    "\<And>q. pg_flags (pages v' q) = pg_flags (pages v q)" "\<And>q. pg_property (pages v' q) = pg_property (pages v q)"
    "\<And>q. pg_zone_num (pages v' q) = pg_zone_num (pages v q)"
  shows "buddy_free_is z b n v' F = buddy_free_is z b n v F"
proof -
  have "buddy_inv v' z n {} L = buddy_inv v z n {} L" for L
    using free_lists_cong [of v' v L]
    by (simp add: buddy_inv_def zone_ok_def in_zone_def PageReserved_def PageProperty_def assms)
  then show ?thesis by (simp add: buddy_free_is_def assms)
qed

section \<open>The tables of a directory\<close>

definition pde_on :: "'z vmem_scheme \<Rightarrow> nat \<Rightarrow> nat \<Rightarrow> bool" where
  "pde_on v d i \<longleftrightarrow> i < 1024 \<and> kmem v d i AND PTE_P \<noteq> 0"

definition tgt :: "u32 \<Rightarrow> nat" where
  "tgt x = unat (PPN (PTE_ADDR x))"

definition tab :: "'z vmem_scheme \<Rightarrow> nat \<Rightarrow> nat \<Rightarrow> nat" where
  "tab v d i = tgt (kmem v d i)"

definition ent_at :: "'z vmem_scheme \<Rightarrow> nat \<Rightarrow> nat \<Rightarrow> nat \<Rightarrow> u32" where
  "ent_at v d i j = (if pde_on v d i then kmem v (tab v d i) j else 0)"

definition ent :: "'z vmem_scheme \<Rightarrow> nat \<Rightarrow> u32 \<Rightarrow> u32" where
  "ent v d la = ent_at v d (unat (PDX la)) (unat (PTX la))"

text \<open>The entries that point to page \<open>q\<close>.\<close>

definition maps :: "'z vmem_scheme \<Rightarrow> nat \<Rightarrow> nat \<Rightarrow> (nat \<times> nat) set" where
  "maps v d q = {(i, j). i < 1024 \<and> j < 1024 \<and> ent_at v d i j AND PTE_P \<noteq> 0 \<and> tgt (ent_at v d i j) = q}"

definition vinv :: "nat \<Rightarrow> nat \<Rightarrow> nat \<Rightarrow> nat set \<Rightarrow> nat \<Rightarrow> 'z vmem_scheme \<Rightarrow> bool" where
  "vinv z b n F d v \<longleftrightarrow>
     buddy_free_is z b n v F \<and> npage v \<le> 2 ^ 19 \<and> b + n \<le> npage v \<and> F \<subseteq> {b..<b + n} \<and>
     (\<forall>q \<in> F. pg_ref (pages v q) = 0) \<and> d \<in> {b..<b + n} - F \<and>
     (\<forall>i. pde_on v d i \<longrightarrow> tab v d i \<in> {b..<b + n} - F - {d} \<and> PTE_ADDR (kmem v d i) = page2pa (tab v d i)) \<and>
     inj_on (tab v d) {i. pde_on v d i} \<and>
     (\<forall>q. maps v d q \<noteq> {} \<longrightarrow> q \<in> {b..<b + n} - {d} - tab v d ` {i. pde_on v d i}) \<and>
     (\<forall>q. \<forall>(i, j) \<in> maps v d q. PTE_ADDR (ent_at v d i j) = page2pa q) \<and>
     (\<forall>q. int (card (maps v d q)) \<le> pg_ref (pages v q))"

lemma finite_maps [simp]: "finite (maps v d q)"
  by (rule finite_subset [of _ "{..<1024} \<times> {..<1024}"]) (auto simp: maps_def)

lemma maps_disjoint: "x \<in> maps v d q \<Longrightarrow> x \<in> maps v d q' \<Longrightarrow> q = q'"
  by (auto simp: maps_def)

lemma vinv_free_unmapped:
  assumes "vinv z b n F d v" and "q \<in> F"
  shows "maps v d q = {}"
proof -
  have "int (card (maps v d q)) \<le> 0" using assms unfolding vinv_def by metis
  then show ?thesis by simp
qed

text \<open>One entry changes, and the allocator's state and the reference counts with it.\<close>

lemma entry_update:
  assumes k: "kmem v' = (kmem v)(tab v d i := (kmem v (tab v d i))(j := x))" and i: "pde_on v d i"
    and d: "\<And>k. pde_on v d k \<Longrightarrow> tab v d k \<noteq> d" and inj: "inj_on (tab v d) {i. pde_on v d i}"
  shows "pde_on v' d = pde_on v d" and "tab v' d = tab v d"
    and "ent_at v' d k l = (if k = i \<and> l = j then x else ent_at v d k l)"
proof -
  have "kmem v' d = kmem v d" using d [OF i] by (simp add: k)
  then show 1: "pde_on v' d = pde_on v d" and 2: "tab v' d = tab v d"
    by (auto simp: pde_on_def tab_def intro!: ext)
  show "ent_at v' d k l = (if k = i \<and> l = j then x else ent_at v d k l)"
    using i inj by (auto simp: ent_at_def 1 2 k inj_on_def)
qed

lemma vinv_entry:
  assumes inv: "vinv z b n F d v" and i: "pde_on v d i" "j < 1024"
    and k: "kmem v' = (kmem v)(tab v d i := (kmem v (tab v d i))(j := x))"
    and al: "buddy_free_is z b n v' F'" "npage v' = npage v" "F' \<subseteq> {b..<b + n}" "\<forall>q \<in> F'. pg_ref (pages v' q) = 0"
    and out: "d \<notin> F'" "\<forall>i. pde_on v d i \<longrightarrow> tab v d i \<notin> F'"
    and x: "x AND PTE_P \<noteq> 0 \<longrightarrow> tgt x \<in> {b..<b + n} - {d} - tab v d ` {i. pde_on v d i} \<and> PTE_ADDR x = page2pa (tgt x)"
    and ref: "\<forall>q. int (card (maps v d q - {(i, j)} \<union> (if x AND PTE_P \<noteq> 0 \<and> tgt x = q then {(i, j)} else {}))) \<le> pg_ref (pages v' q)"
  shows "vinv z b n F' d v'"
proof -
  have d: "\<And>k. pde_on v d k \<Longrightarrow> tab v d k \<noteq> d" and inj: "inj_on (tab v d) {i. pde_on v d i}"
    using inv by (auto simp: vinv_def)
  note e = entry_update [OF k i(1) d inj]
  have i': "i < 1024" using i(1) by (simp add: pde_on_def)
  have m: "maps v' d q = maps v d q - {(i, j)} \<union> (if x AND PTE_P \<noteq> 0 \<and> tgt x = q then {(i, j)} else {})" for q
    using i' i(2) by (auto simp: maps_def e split: if_splits)
  have kd: "kmem v' d = kmem v d" using d [OF i(1)] by (simp add: k)
  have f1: "\<forall>i. pde_on v' d i \<longrightarrow> tab v' d i \<in> {b..<b + n} - F' - {d} \<and> PTE_ADDR (kmem v' d i) = page2pa (tab v' d i)"
    using inv out(2) by (auto simp: vinv_def e(1,2) kd)
  have old: "maps v d q \<noteq> {} \<Longrightarrow> q \<in> {b..<b + n} - {d} - tab v d ` {i. pde_on v d i}"
    "(k, l) \<in> maps v d q \<Longrightarrow> PTE_ADDR (ent_at v d k l) = page2pa q" for q k l
    using inv unfolding vinv_def by blast+
  have f2: "\<forall>q. maps v' d q \<noteq> {} \<longrightarrow> q \<in> {b..<b + n} - {d} - tab v' d ` {i. pde_on v' d i}"
  proof (intro allI impI)
    fix q assume "maps v' d q \<noteq> {}"
    then consider "maps v d q \<noteq> {}" | "x AND PTE_P \<noteq> 0 \<and> tgt x = q" unfolding m by (auto split: if_splits)
    then have "q \<in> {b..<b + n} - {d} - tab v d ` {i. pde_on v d i}"
    proof cases
      case 1
      then show ?thesis by (rule old(1))
    next
      case 2
      with x show ?thesis by metis
    qed
    then show "q \<in> {b..<b + n} - {d} - tab v' d ` {i. pde_on v' d i}" by (simp only: e(1,2))
  qed
  have f3: "\<forall>q. \<forall>(k, l) \<in> maps v' d q. PTE_ADDR (ent_at v' d k l) = page2pa q"
    using x old(2) by (auto simp: m e(3) split: if_splits)
  have f4: "\<forall>q. int (card (maps v' d q)) \<le> pg_ref (pages v' q)" unfolding m by (rule ref)
  have f5: "npage v' \<le> 2 ^ 19" "b + n \<le> npage v'" "d \<in> {b..<b + n} - F'" "inj_on (tab v' d) {i. pde_on v' d i}"
    using inv al(2) out(1) inj by (auto simp: vinv_def e(1,2))
  show ?thesis unfolding vinv_def using f1 f2 f3 f4 f5 al by (intro conjI)
qed

section \<open>get\_pte\<close>

lemma kread_table: "p < 2 ^ 19 \<Longrightarrow> unat i < 1024 \<Longrightarrow> kread v (page2pa p + 4 * i) = kmem v p (unat i)"
  by (simp add: kread_def table_addr)

lemma kwrite_table:
  "p < 2 ^ 19 \<Longrightarrow> unat i < 1024 \<Longrightarrow>
   kwrite (page2pa p + 4 * i) x v = v\<lparr>kmem := (kmem v)(p := (kmem v p)(unat i := x))\<rparr>"
  by (simp add: kwrite_def table_addr)

lemma vinv_bounds:
  assumes "vinv z b n F d v"
  shows "d < 2 ^ 19" "d < npage v" "q \<in> {b..<b + n} \<Longrightarrow> q < 2 ^ 19" "q \<in> {b..<b + n} \<Longrightarrow> q < npage v"
  using assms by (auto simp: vinv_def)

lemma vinv_tab:
  assumes "vinv z b n F d v" and "pde_on v d i"
  shows "tab v d i < 2 ^ 19" "tab v d i < npage v" "tab v d i \<noteq> d" "tab v d i \<notin> F"
    "PTE_ADDR (kmem v d i) = page2pa (tab v d i)"
proof -
  have "tab v d i \<in> {b..<b + n} - F - {d}" and "PTE_ADDR (kmem v d i) = page2pa (tab v d i)"
    using assms by (auto simp: vinv_def)
  with assms(1) show "tab v d i < 2 ^ 19" "tab v d i < npage v" "tab v d i \<noteq> d" "tab v d i \<notin> F"
    "PTE_ADDR (kmem v d i) = page2pa (tab v d i)"
    by (auto simp: vinv_def)
qed

lemma pde_on_read:
  assumes "vinv z b n F d v"
  shows "kread v (page2pa d + 4 * PDX la) = kmem v d (unat (PDX la))"
    and "kread v (page2pa d + 4 * PDX la) AND PTE_P \<noteq> 0 \<longleftrightarrow> pde_on v d (unat (PDX la))"
  using vinv_bounds(1) [OF assms] PDX_bound [of la] by (simp_all add: kread_table pde_on_def)

lemma get_pte_on:
  assumes inv: "vinv z b n F d v" and on: "pde_on v d (unat (PDX la))"
  shows "get_pte (page2pa d) la c v = Some (Some (page2pa (tab v d (unat (PDX la))) + 4 * PTX la), v)"
  using pde_on_read [OF inv, of la] on vinv_tab [OF inv on] table_addr(1) [OF vinv_tab(1) [OF inv on] PTX_bound [of la]]
  by (simp add: get_pte_def Let_def KADDR_def)

lemma get_pte_off:
  assumes inv: "vinv z b n F d v" and "\<not> pde_on v d (unat (PDX la))"
  shows "get_pte (page2pa d) la False v = Some (None, v)"
  using pde_on_read [OF inv, of la] assms(2) by (simp add: get_pte_def Let_def)

lemma new_table_vinv:
  fixes v v' :: "'z vmem_scheme"
  assumes inv: "vinv z b n F d v" and off: "\<not> pde_on v d i" "i < 1024" and p: "p \<in> F"
    and k: "kmem v' = (kmem v)(p := (\<lambda>_. 0), d := (kmem v d)(i := page2pa p OR (PTE_U OR PTE_P OR PTE_W)))"
    and al: "buddy_free_is z b n v' (F - {p})" "npage v' = npage v"
    and ref: "\<forall>q. pg_ref (pages v' q) = pg_ref (pages v q) + (if q = p then 1 else 0)"
  shows "vinv z b n (F - {p}) d v'" and "ent_at v' d = ent_at v d" and "pde_on v' d i" and "tab v' d i = p"
    and "\<And>k. pde_on v' d k \<longleftrightarrow> k = i \<or> pde_on v d k" and "\<And>k. tab v' d k = (if k = i then p else tab v d k)"
proof -
  have pa: "p \<in> {b..<b + n}" "p \<noteq> d" using inv p by (auto simp: vinv_def)
  have x: "PTE_ADDR (page2pa p OR (PTE_U OR PTE_P OR PTE_W)) = page2pa p"
    by (rule PTE_ADDR_flags) (simp add: PTE_bits)
  have xp: "(page2pa p OR (PTE_U OR PTE_P OR PTE_W)) AND PTE_P \<noteq> 0"
    using PTE_P_flags [of "page2pa p" "PTE_U OR PTE_W"] by (simp add: or.left_commute or.commute)
  have tx: "tgt (page2pa p OR (PTE_U OR PTE_P OR PTE_W)) = p"
    unfolding tgt_def x using vinv_bounds(3) [OF inv pa(1)] by (rule PPN_page2pa)
  show on: "\<And>k. pde_on v' d k \<longleftrightarrow> k = i \<or> pde_on v d k" using off xp pa by (auto simp: pde_on_def k)
  then show "pde_on v' d i" by simp
  show tb: "\<And>k. tab v' d k = (if k = i then p else tab v d k)" by (simp add: tab_def k tx)
  then show "tab v' d i = p" by simp
  have e: "ent_at v' d k l = ent_at v d k l" for k l
    using off vinv_tab(3,4) [OF inv, of k] p pa(2) by (auto simp: ent_at_def on tb k)
  then show "ent_at v' d = ent_at v d" by (intro ext)
  have m: "maps v' d q = maps v d q" for q by (simp add: maps_def e)
  have t: "tab v d k \<noteq> p" if "pde_on v d k" for k using vinv_tab(4) [OF inv that] p by blast
  have kd: "kmem v' d k = (if k = i then page2pa p OR (PTE_U OR PTE_P OR PTE_W) else kmem v d k)" for k by (simp add: k)
  have f1: "\<forall>k. pde_on v' d k \<longrightarrow> tab v' d k \<in> {b..<b + n} - (F - {p}) - {d} \<and> PTE_ADDR (kmem v' d k) = page2pa (tab v' d k)"
    using inv pa x by (auto simp: vinv_def on tb kd)
  have f2: "inj_on (tab v' d) {i. pde_on v' d i}"
    using inv t off unfolding inj_on_def on tb vinv_def by auto
  have f3: "\<forall>q. maps v' d q \<noteq> {} \<longrightarrow> q \<in> {b..<b + n} - {d} - tab v' d ` {i. pde_on v' d i}"
  proof (intro allI impI)
    fix q assume "maps v' d q \<noteq> {}"
    then have q: "maps v d q \<noteq> {}" by (simp add: m)
    then have "q \<noteq> p" using vinv_free_unmapped [OF inv p] by blast
    moreover have "q \<in> {b..<b + n} - {d} - tab v d ` {i. pde_on v d i}" using inv q unfolding vinv_def by blast
    ultimately show "q \<in> {b..<b + n} - {d} - tab v' d ` {i. pde_on v' d i}" using off by (auto simp: on tb)
  qed
  have f4: "\<forall>q. \<forall>(i, j) \<in> maps v' d q. PTE_ADDR (ent_at v' d i j) = page2pa q"
    using inv unfolding m e vinv_def by blast
  have f5: "\<forall>q. int (card (maps v' d q)) \<le> pg_ref (pages v' q)"
  proof
    fix q
    have "int (card (maps v d q)) \<le> pg_ref (pages v q)" using inv unfolding vinv_def by blast
    then show "int (card (maps v' d q)) \<le> pg_ref (pages v' q)"
      using spec [OF ref, of q] by (cases "q = p") (simp_all add: m)
  qed
  have f6: "npage v' \<le> 2 ^ 19" "b + n \<le> npage v'" "F - {p} \<subseteq> {b..<b + n}" "\<forall>q \<in> F - {p}. pg_ref (pages v' q) = 0"
    "d \<in> {b..<b + n} - (F - {p})"
    using inv al(2) ref by (auto simp: vinv_def)
  show "vinv z b n (F - {p}) d v'" unfolding vinv_def using f1 f2 f3 f4 f5 f6 al(1) by (intro conjI)
qed

lemma get_pte_create:
  fixes v :: "'z vmem_scheme"
  assumes inv: "vinv z b n F d v" and off: "\<not> pde_on v d (unat (PDX la))"
  shows "get_pte (page2pa d) la True v = Some (None, v) \<or>
    (\<exists>p v'. get_pte (page2pa d) la True v = Some (Some (page2pa p + 4 * PTX la), v') \<and> p \<in> F \<and>
      vinv z b n (F - {p}) d v' \<and> ent_at v' d = ent_at v d \<and> pde_on v' d (unat (PDX la)) \<and>
      tab v' d (unat (PDX la)) = p \<and> tab v' d ` {i. pde_on v' d i} \<subseteq> insert p (tab v d ` {i. pde_on v d i}) \<and>
      (\<forall>q. q \<noteq> p \<longrightarrow> pg_ref (pages v' q) = pg_ref (pages v q)))"
proof -
  let ?i = "unat (PDX la)" and ?fl = "PTE_U OR PTE_P OR PTE_W"
  have al: "buddy_free_is z b n v F" using inv by (simp add: vinv_def)
  have "d < 2 ^ 19" by (rule vinv_bounds(1) [OF inv])
  note wd = kwrite_table [OF this PDX_bound] kread_table [OF this PDX_bound]
  consider "alloc_pages 1 v = Some (None, v)"
    | p v1 where "alloc_pages 1 v = Some (Some p, v1)" "p \<in> F" "buddy_free_is z b n v1 (F - {p})" "npage v1 = npage v"
      "\<forall>q. pg_ref (pages v1 q) = pg_ref (pages v q)" "kmem v1 = kmem v"
    using alloc_page_spec [OF al] by blast
  then show ?thesis
  proof cases
    case 1
    then have "get_pte (page2pa d) la True v = Some (None, v)"
      using pde_on_read [OF inv, of la] off by (simp add: get_pte_def Let_def)
    then show ?thesis ..
  next
    case (2 p v1)
    have pa: "p < 2 ^ 19" "p < npage v" "p \<noteq> d"
      using vinv_bounds(3,4) [OF inv, of p] inv 2(2) by (auto simp: vinv_def)
    let ?v2 = "page_fill p (\<lambda>_. 0) (page_ref_inc p v1)"
    let ?v' = "kwrite (page2pa d + 4 * PDX la) (kread (kwrite (page2pa d + 4 * PDX la) (page2pa p) ?v2) (page2pa d + 4 * PDX la) OR ?fl)
      (kwrite (page2pa d + 4 * PDX la) (page2pa p) ?v2)"
    have km: "kmem ?v' = (kmem v)(p := (\<lambda>_. 0), d := (kmem v d)(?i := page2pa p OR ?fl))"
      using 2(6) pa(3) by (simp add: wd page_fill_def page_ref_inc_def upd_page_def)
    have al': "buddy_free_is z b n ?v' (F - {p})"
      by (subst buddy_free_is_cong [of _ v1]) (use 2(3) in \<open>simp_all add: wd page_fill_def page_ref_inc_def upd_page_def\<close>)
    have np: "npage ?v' = npage v" using 2(4) by (simp add: wd page_fill_def page_ref_inc_def upd_page_def)
    have rf: "\<forall>q. pg_ref (pages ?v' q) = pg_ref (pages v q) + (if q = p then 1 else 0)"
      using 2(5) by (simp add: wd page_fill_def page_ref_inc_def upd_page_def)
    note t = new_table_vinv [OF inv off PDX_bound 2(2) km al' np rf]
    have rd: "kread ?v' (page2pa d + 4 * PDX la) = page2pa p OR ?fl" using km by (simp add: wd(2))
    have "PTE_ADDR (page2pa p OR ?fl) = page2pa p" by (rule PTE_ADDR_flags) (simp add: PTE_bits)
    then have "KADDR ?v' (PTE_ADDR (kread ?v' (page2pa d + 4 * PDX la)) + 4 * PTX la) = Some (page2pa p + 4 * PTX la)"
      using table_addr(1) [OF pa(1) PTX_bound [of la]] pa(2) np by (simp add: KADDR_def rd)
    moreover have "page2kva (page_ref_inc p v1) p = Some (page2pa p)" "PADDR (page2pa p) = Some (page2pa p)"
      using pa 2(4) unat_page2pa [OF pa(1)]
      by (simp_all add: page2kva_def KADDR_def PADDR_def PPN_page2pa page_ref_inc_def upd_page_def word_less_nat_alt)
    ultimately have "get_pte (page2pa d) la True v = Some (Some (page2pa p + 4 * PTX la), ?v')"
      using pde_on_read [OF inv, of la] off 2(1) pa(1)
      by (simp add: get_pte_def Let_def PPN_page2pa del: fun_upd_apply)
    moreover have "tab ?v' d ` {i. pde_on ?v' d i} \<subseteq> insert p (tab v d ` {i. pde_on v d i})"
      by (auto simp: t(5,6) split: if_splits)
    ultimately show ?thesis using t(1-4) rf 2(2) by (intro disjI2 exI [of _ p] exI [of _ ?v']) simp
  qed
qed

section \<open>Removing and inserting pages\<close>

lemma tlb_flush_simps [simp]:
  "kmem (tlb_flush v) = kmem v" "pages (tlb_flush v) = pages v" "npage (tlb_flush v) = npage v"
  "buddy_free_is z b n (tlb_flush v) F = buddy_free_is z b n v F" "vinv z b n F d (tlb_flush v) = vinv z b n F d v"
  "ent_at (tlb_flush v) = ent_at v" "pde_on (tlb_flush v) = pde_on v" "tab (tlb_flush v) = tab v"
proof -
  show 1: "kmem (tlb_flush v) = kmem v" "pages (tlb_flush v) = pages v" "npage (tlb_flush v) = npage v"
    by (simp_all add: tlb_flush_def)
  show 2: "pde_on (tlb_flush v) = pde_on v" "tab (tlb_flush v) = tab v"
    by (intro ext, simp add: pde_on_def tab_def 1)+
  show 3: "ent_at (tlb_flush v) = ent_at v" by (intro ext) (simp add: ent_at_def 1 2)
  show 4: "buddy_free_is z b n (tlb_flush v) F = buddy_free_is z b n v F"
    by (rule buddy_free_is_cong) (simp_all add: tlb_flush_def)
  show "vinv z b n F d (tlb_flush v) = vinv z b n F d v"
    by (simp add: vinv_def maps_def 1 2 3 4)
qed

text \<open>The entry \<open>(i, j)\<close> as a pointer.\<close>

abbreviation entp :: "'z vmem_scheme \<Rightarrow> nat \<Rightarrow> u32 \<Rightarrow> u32" where
  "entp v d la \<equiv> page2pa (tab v d (unat (PDX la))) + 4 * PTX la"

lemma entp_access:
  assumes "vinv z b n F d v" and "pde_on v d (unat (PDX la))"
  shows "kread v' (entp v d la) = kmem v' (tab v d (unat (PDX la))) (unat (PTX la))"
    and "kwrite (entp v d la) x v' = v'\<lparr>kmem := (kmem v')(tab v d (unat (PDX la)) :=
      (kmem v' (tab v d (unat (PDX la))))(unat (PTX la) := x))\<rparr>"
    and "kread v (entp v d la) = ent v d la"
  using vinv_tab(1) [OF assms] assms(2) by (simp_all add: kread_table kwrite_table PTX_bound ent_def ent_at_def)

lemma ent_maps:
  assumes "ent v d la AND PTE_P \<noteq> 0"
  shows "(unat (PDX la), unat (PTX la)) \<in> maps v d (tgt (ent v d la))"
  using assms PDX_bound [of la] PTX_bound [of la] by (simp add: maps_def ent_def)

lemma page_remove_pte_spec:
  fixes v :: "'z vmem_scheme"
  assumes inv: "vinv z b n F d v" and on: "pde_on v d (unat (PDX la))" and P: "ent v d la AND PTE_P \<noteq> 0"
  defines "q \<equiv> tgt (ent v d la)"
  shows "\<exists>v' F'. page_remove_pte la (Some (entp v d la)) v = Some v' \<and> vinv z b n F' d v' \<and>
    ent_at v' d = (ent_at v d)(unat (PDX la) := (ent_at v d (unat (PDX la)))(unat (PTX la) := 0)) \<and>
    pde_on v' d = pde_on v d \<and> tab v' d = tab v d \<and>
    (\<forall>r. pg_ref (pages v' r) = pg_ref (pages v r) - (if r = q then 1 else 0)) \<and>
    F' = (if pg_ref (pages v q) = 1 then insert q F else F)"
proof -
  let ?i = "unat (PDX la)" and ?j = "unat (PTX la)"
  have mq: "(?i, ?j) \<in> maps v d q" using ent_maps [OF P] by (simp add: q_def)
  have qa: "q \<in> {b..<b + n} - {d} - tab v d ` {i. pde_on v d i}" using inv mq unfolding vinv_def by blast
  have cq: "int (card (maps v d r)) \<le> pg_ref (pages v r)" for r using inv unfolding vinv_def by blast
  have "card (maps v d q) \<ge> 1" using mq by (metis One_nat_def Suc_leI card_gt_0_iff empty_iff finite_maps)
  then have rq: "pg_ref (pages v q) \<ge> 1" using cq [of q] by linarith
  then have qF: "q \<notin> F" using inv unfolding vinv_def by force
  have addr: "PTE_ADDR (ent v d la) = page2pa q"
    using inv mq unfolding vinv_def ent_def by blast
  have p2: "pte2page v (kread v (entp v d la)) = Some q"
    using P addr vinv_bounds(3,4) [OF inv, of q] qa
    by (simp add: entp_access(3) [OF inv on] pte2page_def pa2page_def PPN_page2pa)
  let ?v1 = "page_ref_dec q v"
  have al1: "buddy_free_is z b n ?v1 F"
    by (subst buddy_free_is_cong [of _ v]) (use inv in \<open>auto simp: vinv_def page_ref_dec_def upd_page_def\<close>)
  have v1: "kmem ?v1 = kmem v" "npage ?v1 = npage v" "\<And>r. pg_ref (pages ?v1 r) = pg_ref (pages v r) - (if r = q then 1 else 0)"
    by (simp_all add: page_ref_dec_def upd_page_def)
  let ?F' = "if pg_ref (pages v q) = 1 then insert q F else F"
  have "\<exists>v2. (if pg_ref (pages ?v1 q) = 0 then free_pages q 1 ?v1 else Some ?v1) = Some v2 \<and>
    buddy_free_is z b n v2 ?F' \<and> npage v2 = npage v \<and> kmem v2 = kmem v \<and>
    (\<forall>r. pg_ref (pages v2 r) = pg_ref (pages v r) - (if r = q then 1 else 0))"
  proof (cases "pg_ref (pages v q) = 1")
    case True
    then show ?thesis using free_page_spec [OF al1, of q] qa qF v1 by auto
  qed (use al1 v1 in simp)
  then obtain v2 where v2: "(if pg_ref (pages ?v1 q) = 0 then free_pages q 1 ?v1 else Some ?v1) = Some v2"
    "buddy_free_is z b n v2 ?F'" "npage v2 = npage v" "kmem v2 = kmem v"
    "\<forall>r. pg_ref (pages v2 r) = pg_ref (pages v r) - (if r = q then 1 else 0)" by blast
  let ?v3 = "kwrite (entp v d la) 0 v2"
  have k3: "kmem ?v3 = (kmem v)(tab v d ?i := (kmem v (tab v d ?i))(?j := 0))"
    "npage ?v3 = npage v" "pages ?v3 = pages v2" "buddy_free_is z b n ?v3 ?F'"
    using v2 buddy_free_is_cong [of ?v3 v2 z b n ?F'] by (simp_all add: entp_access(2) [OF inv on])
  have c: "card (maps v d r - {(?i, ?j)}) = card (maps v d r) - (if r = q then 1 else 0)" for r
  proof (cases "r = q")
    case True
    with mq show ?thesis by (simp add: card_Diff_singleton)
  next
    case False
    then have "(?i, ?j) \<notin> maps v d r" using maps_disjoint [OF mq] by blast
    with False show ?thesis by simp
  qed
  have inv3: "vinv z b n ?F' d ?v3"
  proof (rule vinv_entry [OF inv on PTX_bound k3(1,4,2)])
    show "?F' \<subseteq> {b..<b + n}" using inv qa by (auto simp: vinv_def)
    show "\<forall>r \<in> ?F'. pg_ref (pages ?v3 r) = 0" using inv v2(5) qF by (auto simp: k3 vinv_def)
    show "d \<notin> ?F'" "\<forall>i. pde_on v d i \<longrightarrow> tab v d i \<notin> ?F'" using inv qa by (auto simp: vinv_def)
    show "\<forall>r. int (card (maps v d r - {(?i, ?j)} \<union> (if 0 AND PTE_P \<noteq> 0 \<and> tgt 0 = r then {(?i, ?j)} else {}))) \<le> pg_ref (pages ?v3 r)"
    proof
      fix r
      have "int (card (maps v d r - {(?i, ?j)})) \<le> pg_ref (pages v r) - (if r = q then 1 else 0)"
        using cq [of r] c [of r] \<open>card (maps v d q) \<ge> 1\<close> by (cases "r = q") auto
      then show "int (card (maps v d r - {(?i, ?j)} \<union> (if 0 AND PTE_P \<noteq> 0 \<and> tgt 0 = r then {(?i, ?j)} else {}))) \<le> pg_ref (pages ?v3 r)"
        using v2(5) by (simp add: k3)
    qed
  qed simp
  have d: "\<And>k. pde_on v d k \<Longrightarrow> tab v d k \<noteq> d" and inj: "inj_on (tab v d) {i. pde_on v d i}"
    using inv by (auto simp: vinv_def)
  note e = entry_update [OF k3(1) on d inj]
  have "page_remove_pte la (Some (entp v d la)) v = Some (tlb_flush ?v3)"
    using P p2 v2(1) by (simp add: page_remove_pte_def entp_access(3) [OF inv on] Let_def)
  moreover have "ent_at ?v3 d = (ent_at v d)(?i := (ent_at v d ?i)(?j := 0))" by (intro ext) (simp add: e(3))
  ultimately show ?thesis using inv3 e(1,2) v2(5) k3(3) by (intro exI [of _ "tlb_flush ?v3"] exI [of _ ?F']) simp
qed

text \<open>The pages a page may be mapped to: in use, and no table of this directory.\<close>

definition user_page :: "nat \<Rightarrow> nat \<Rightarrow> nat set \<Rightarrow> nat \<Rightarrow> 'z vmem_scheme \<Rightarrow> nat \<Rightarrow> bool" where
  "user_page b n F d v p \<longleftrightarrow> p \<in> {b..<b + n} - F - {d} - tab v d ` {i. pde_on v d i}"

lemma get_pte_any:
  fixes v :: "'z vmem_scheme"
  assumes inv: "vinv z b n F d v"
  shows "get_pte (page2pa d) la True v = Some (None, v) \<or>
    (\<exists>v1 F1. get_pte (page2pa d) la True v = Some (Some (entp v1 d la), v1) \<and> vinv z b n F1 d v1 \<and> F1 \<subseteq> F \<and>
      ent_at v1 d = ent_at v d \<and> pde_on v1 d (unat (PDX la)) \<and>
      (\<forall>p. user_page b n F d v p \<longrightarrow> user_page b n F1 d v1 p) \<and> (\<forall>q. q \<notin> F \<longrightarrow> pg_ref (pages v1 q) = pg_ref (pages v q)))"
proof (cases "pde_on v d (unat (PDX la))")
  case True
  with get_pte_on [OF inv True] inv show ?thesis by blast
next
  case off: False
  show ?thesis
    using get_pte_create [OF inv off]
  proof (elim disjE exE conjE)
    fix p v1 assume c: "get_pte (page2pa d) la True v = Some (Some (page2pa p + 4 * PTX la), v1)" "p \<in> F"
      "vinv z b n (F - {p}) d v1" "ent_at v1 d = ent_at v d" "pde_on v1 d (unat (PDX la))"
      "tab v1 d (unat (PDX la)) = p" "tab v1 d ` {i. pde_on v1 d i} \<subseteq> insert p (tab v d ` {i. pde_on v d i})"
      "\<forall>q. q \<noteq> p \<longrightarrow> pg_ref (pages v1 q) = pg_ref (pages v q)"
    have "user_page b n (F - {p}) d v1 r" if "user_page b n F d v r" for r
      using that c(2,7) by (auto simp: user_page_def)
    moreover have "\<forall>q. q \<notin> F \<longrightarrow> pg_ref (pages v1 q) = pg_ref (pages v q)" using c(2,8) by metis
    ultimately show ?thesis using c(1,3-6) by (intro disjI2 exI [of _ v1] exI [of _ "F - {p}"]) auto
  qed simp
qed

lemma ref_change_view:
  assumes "kmem v' = kmem v"
  shows "pde_on v' = pde_on v" "tab v' = tab v" "ent_at v' = ent_at v" "maps v' = maps v"
proof -
  show 1: "pde_on v' = pde_on v" "tab v' = tab v" by (intro ext, simp add: pde_on_def tab_def assms)+
  show 2: "ent_at v' = ent_at v" by (intro ext) (simp add: ent_at_def 1 assms)
  show "maps v' = maps v" by (intro ext) (simp add: maps_def 2)
qed

lemma page_ref_inc_fields:
  fixes v :: "'z vmem_scheme"
  shows "kmem (page_ref_inc p v) = kmem v" "npage (page_ref_inc p v) = npage v"
    "pg_ref (pages (page_ref_inc p v) r) = pg_ref (pages v r) + (if r = p then 1 else 0)"
    "buddy_free_is z b n (page_ref_inc p v) F = buddy_free_is z b n v F"
proof -
  show "buddy_free_is z b n (page_ref_inc p v) F = buddy_free_is z b n v F"
    by (rule buddy_free_is_cong) (simp_all add: page_ref_inc_def upd_page_def)
qed (simp_all add: page_ref_inc_def upd_page_def)

lemma page_ref_inc_dec [simp]: "page_ref_dec p (page_ref_inc p v) = v"
  by (simp add: page_ref_inc_def page_ref_dec_def upd_page_def)

lemma vinv_ref_inc:
  fixes v :: "'z vmem_scheme"
  assumes inv: "vinv z b n F d v" and p: "p \<notin> F"
  shows "vinv z b n F d (page_ref_inc p v)"
proof -
  note f = page_ref_inc_fields and w = ref_change_view [OF page_ref_inc_fields(1) [of p v]]
  have "int (card (maps v d q)) \<le> pg_ref (pages (page_ref_inc p v) q)" for q
  proof -
    have "int (card (maps v d q)) \<le> pg_ref (pages v q)" using inv unfolding vinv_def by blast
    then show ?thesis by (cases "q = p") (simp_all add: f)
  qed
  moreover have "\<forall>q \<in> F. pg_ref (pages (page_ref_inc p v) q) = 0" using inv p by (auto simp: vinv_def f)
  ultimately show ?thesis using inv unfolding vinv_def w by (simp add: f)
qed

lemma insert_write:
  fixes v :: "'z vmem_scheme"
  assumes inv: "vinv z b n F d v" and on: "pde_on v d (unat (PDX la))" and p: "user_page b n F d v p"
    and perm: "perm AND NOT 0xFFF = 0"
    and ref: "ent v d la AND PTE_P \<noteq> 0 \<and> tgt (ent v d la) = p \<or>
      ent v d la AND PTE_P = 0 \<and> int (card (maps v d p)) + 1 \<le> pg_ref (pages v p)"
  defines "x \<equiv> page2pa p OR PTE_P OR perm"
  defines "v' \<equiv> kwrite (entp v d la) x v"
  shows "vinv z b n F d v'"
    and "ent_at v' d = (ent_at v d)(unat (PDX la) := (ent_at v d (unat (PDX la)))(unat (PTX la) := x))"
proof -
  let ?i = "unat (PDX la)" and ?j = "unat (PTX la)"
  have pa: "p \<in> {b..<b + n} - {d} - tab v d ` {i. pde_on v d i}" using p by (simp add: user_page_def)
  have fl: "(PTE_P OR perm) AND NOT 0xFFF = 0"
    using perm by (simp add: bit.conj_disj_distrib2 PTE_P_def)
  have x: "PTE_ADDR x = page2pa p" unfolding x_def or.assoc by (rule PTE_ADDR_flags [OF fl])
  have tx: "tgt x = p" unfolding tgt_def x by (rule PPN_page2pa) (use vinv_bounds(3) [OF inv] pa in blast)
  have k: "kmem v' = (kmem v)(tab v d ?i := (kmem v (tab v d ?i))(?j := x))"
    "npage v' = npage v" "pages v' = pages v" "buddy_free_is z b n v' F"
  proof -
    show "buddy_free_is z b n v' F"
      unfolding v'_def by (subst buddy_free_is_cong [of _ v]) (use inv in \<open>simp_all add: vinv_def entp_access(2) [OF inv on]\<close>)
  qed (simp_all add: v'_def entp_access(2) [OF inv on])
  have cq: "int (card (maps v d r)) \<le> pg_ref (pages v r)" for r using inv unfolding vinv_def by blast
  have fin: "\<forall>r. int (card (maps v d r - {(?i, ?j)} \<union> (if x AND PTE_P \<noteq> 0 \<and> tgt x = r then {(?i, ?j)} else {}))) \<le> pg_ref (pages v' r)"
  proof
    fix r
    have le: "int (card (maps v d r - {(?i, ?j)})) \<le> pg_ref (pages v r)"
      using cq [of r] card_mono [of "maps v d r" "maps v d r - {(?i, ?j)}"] by fastforce
    show "int (card (maps v d r - {(?i, ?j)} \<union> (if x AND PTE_P \<noteq> 0 \<and> tgt x = r then {(?i, ?j)} else {}))) \<le> pg_ref (pages v' r)"
    proof (cases "r = p")
      case False
      with le show ?thesis by (simp add: tx k)
    next
      case True
      from ref show ?thesis
      proof
        assume "ent v d la AND PTE_P \<noteq> 0 \<and> tgt (ent v d la) = p"
        then have "(?i, ?j) \<in> maps v d p" using ent_maps by blast
        then have "maps v d p - {(?i, ?j)} \<union> {(?i, ?j)} = maps v d p" by blast
        with cq [of p] le True show ?thesis by (auto simp: tx k)
      next
        assume a: "ent v d la AND PTE_P = 0 \<and> int (card (maps v d p)) + 1 \<le> pg_ref (pages v p)"
        then have "(?i, ?j) \<notin> maps v d p" by (simp add: maps_def ent_def)
        with a True le show ?thesis by (auto simp: tx k)
      qed
    qed
  qed
  show "vinv z b n F d v'"
    by (rule vinv_entry [OF inv on PTX_bound k(1,4,2)])
      (use inv pa x tx fin in \<open>auto simp: vinv_def k\<close>)
  have d: "\<And>k. pde_on v d k \<Longrightarrow> tab v d k \<noteq> d" and inj: "inj_on (tab v d) {i. pde_on v d i}"
    using inv by (auto simp: vinv_def)
  show "ent_at v' d = (ent_at v d)(?i := (ent_at v d ?i)(?j := x))"
    by (intro ext) (simp add: entry_update(3) [OF k(1) on d inj])
qed

lemma page_insert_correct:
  fixes v :: "'z vmem_scheme"
  assumes inv: "vinv z b n F d v" and p: "user_page b n F d v p" and perm: "perm AND NOT 0xFFF = 0"
  shows "page_insert (page2pa d) p la perm v = Some (- errno_of E_NO_MEM, v) \<or>
    (\<exists>v' F'. page_insert (page2pa d) p la perm v = Some (0, v') \<and> vinv z b n F' d v' \<and>
      ent_at v' d = (ent_at v d)(unat (PDX la) := (ent_at v d (unat (PDX la)))(unat (PTX la) := page2pa p OR PTE_P OR perm)) \<and>
      pg_ref (pages v' p) = pg_ref (pages v p) + (if ent v d la AND PTE_P \<noteq> 0 \<and> tgt (ent v d la) = p then 0 else 1))"
  using get_pte_any [OF inv, of la]
proof (elim disjE exE conjE)
  assume "get_pte (page2pa d) la True v = Some (None, v)"
  then show ?thesis by (simp add: page_insert_def)
next
  let ?i = "unat (PDX la)" and ?j = "unat (PTX la)" and ?x = "page2pa p OR PTE_P OR perm"
  fix v1 F1 assume g: "get_pte (page2pa d) la True v = Some (Some (entp v1 d la), v1)" and inv1: "vinv z b n F1 d v1"
    and F1: "F1 \<subseteq> F" and e1: "ent_at v1 d = ent_at v d" and on: "pde_on v1 d ?i"
    and up: "\<forall>p. user_page b n F d v p \<longrightarrow> user_page b n F1 d v1 p" and rf: "\<forall>q. q \<notin> F \<longrightarrow> pg_ref (pages v1 q) = pg_ref (pages v q)"
  have p1: "user_page b n F1 d v1 p" using up p by blast
  have pF: "p \<notin> F1" "pg_ref (pages v1 p) = pg_ref (pages v p)" using p p1 rf by (auto simp: user_page_def)
  have ent1: "ent v1 d la = ent v d la" by (simp add: ent_def e1)
  let ?v2 = "page_ref_inc p v1"
  note w = ref_change_view [OF page_ref_inc_fields(1) [of p v1]]
  have inv2: "vinv z b n F1 d ?v2" by (rule vinv_ref_inc [OF inv1 pF(1)])
  have on2: "pde_on ?v2 d ?i" "ent ?v2 d la = ent v d la" "user_page b n F1 d ?v2 p" "entp ?v2 d la = entp v1 d la"
    using on p1 by (simp_all add: w ent_def e1 user_page_def)
  have kr: "kread ?v2 (entp v1 d la) = ent v d la" using entp_access(3) [OF inv2 on2(1)] on2(2,4) by simp
  have c1: "int (card (maps v1 d p)) \<le> pg_ref (pages v1 p)" using inv1 unfolding vinv_def by blast
  have fin: "\<exists>v' F'. page_insert (page2pa d) p la perm v = Some (0, v') \<and> vinv z b n F' d v' \<and>
      ent_at v' d = (ent_at v d)(?i := (ent_at v d ?i)(?j := ?x)) \<and> pg_ref (pages v' p) = pg_ref (pages v3 p)"
    if s3: "(if kread ?v2 (entp v1 d la) AND PTE_P \<noteq> 0 then do {
        q \<leftarrow> pte2page ?v2 (kread ?v2 (entp v1 d la));
        if q = p then Some (page_ref_dec p ?v2) else page_remove_pte la (Some (entp v1 d la)) ?v2 }
        else Some ?v2) = Some v3"
      and inv3: "vinv z b n F3 d v3" and on3: "pde_on v3 d ?i" and ep: "entp v3 d la = entp v1 d la" and u3: "user_page b n F3 d v3 p"
      and r3: "ent v3 d la AND PTE_P \<noteq> 0 \<and> tgt (ent v3 d la) = p \<or>
        ent v3 d la AND PTE_P = 0 \<and> int (card (maps v3 d p)) + 1 \<le> pg_ref (pages v3 p)"
      and e3: "(ent_at v3 d)(?i := (ent_at v3 d ?i)(?j := ?x)) = (ent_at v d)(?i := (ent_at v d ?i)(?j := ?x))" for v3 F3
  proof -
    note iw = insert_write [OF inv3 on3 u3 perm r3]
    have "page_insert (page2pa d) p la perm v = Some (0, tlb_flush (kwrite (entp v3 d la) ?x v3))"
      using g s3 by (simp add: page_insert_def ep Let_def cong: if_cong)
    moreover have "pages (kwrite (entp v3 d la) ?x v3) = pages v3" by (simp add: kwrite_def)
    ultimately show ?thesis using iw e3 by (intro exI [of _ "tlb_flush (kwrite (entp v3 d la) ?x v3)"] exI [of _ F3]) simp
  qed
  show ?thesis
  proof (cases "ent v d la AND PTE_P \<noteq> 0")
    case False
    have "maps ?v2 d p = maps v1 d p" by (simp add: w)
    then have "int (card (maps ?v2 d p)) + 1 \<le> pg_ref (pages ?v2 p)" using c1 by (simp add: page_ref_inc_fields)
    with fin [of ?v2 F1] show ?thesis
      using False kr inv2 on2 pF(2) by (simp add: w e1 page_ref_inc_fields)
  next
    case P: True
    let ?q = "tgt (ent v d la)"
    have addr: "PTE_ADDR (ent v d la) = page2pa ?q" and qa: "?q \<in> {b..<b + n}"
      using ent_maps [of v1 d la] P inv1 unfolding vinv_def ent1 by (fastforce simp: ent_def e1)+
    have p2: "pte2page ?v2 (ent v d la) = Some ?q"
      using P addr vinv_bounds(3,4) [OF inv1 qa] by (simp add: pte2page_def pa2page_def PPN_page2pa page_ref_inc_fields)
    show ?thesis
    proof (cases "?q = p")
      case True
      with fin [of v1 F1] show ?thesis using P kr p2 inv1 on p1 ent1 pF(2) by (simp add: e1)
    next
      case False
      have P2: "ent ?v2 d la AND PTE_P \<noteq> 0" using P on2(2) by simp
      obtain v3 F3 where s3: "page_remove_pte la (Some (entp v1 d la)) ?v2 = Some v3" "vinv z b n F3 d v3"
        "ent_at v3 d = (ent_at v d)(?i := (ent_at v d ?i)(?j := 0))" "pde_on v3 d = pde_on v1 d" "tab v3 d = tab v1 d"
        "\<forall>r. pg_ref (pages v3 r) = pg_ref (pages ?v2 r) - (if r = ?q then 1 else 0)"
        "F3 = (if pg_ref (pages ?v2 ?q) = 1 then insert ?q F1 else F1)"
        using page_remove_pte_spec [OF inv2 on2(1) P2] unfolding on2(2,4) w e1 by blast
      have m3: "maps v3 d p \<subseteq> maps v1 d p" by (auto simp: maps_def s3(3) e1 split: if_splits)
      have "int (card (maps v3 d p)) + 1 \<le> pg_ref (pages v3 p)"
        using card_mono [OF finite_maps m3] c1 s3(6) False by (simp add: page_ref_inc_fields)
      moreover have "ent v3 d la = 0" by (simp add: ent_def s3(3))
      moreover have "user_page b n F3 d v3 p" using p1 False by (simp add: user_page_def s3(4,5,7))
      ultimately show ?thesis
        using fin [of v3 F3] P kr p2 False s3 on pF(2) by (simp add: page_ref_inc_fields)
    qed
  qed
qed

section \<open>Page numbers and ranges\<close>

abbreviation pn :: "u32 \<Rightarrow> nat" where
  "pn la \<equiv> unat la div 4096"

lemma page_range:
  fixes x st :: nat
  assumes "st mod 4096 = 0"
  shows "st \<le> x \<and> x < st + 4096 \<longleftrightarrow> x div 4096 = st div 4096"
proof -
  from assms obtain k where k: "st = 4096 * k" by blast
  have "x = 4096 * (x div 4096) + x mod 4096" "x mod 4096 < 4096" by simp_all
  then have "x div 4096 = k \<Longrightarrow> 4096 * k \<le> x \<and> x < 4096 * k + 4096" by linarith
  moreover have "4096 * k \<le> x \<and> x < 4096 * k + 4096 \<Longrightarrow> x div 4096 = k" by (intro div_nat_eqI) simp_all
  moreover have "st div 4096 = k" by (simp add: k)
  ultimately show ?thesis using k by metis
qed

lemma page_step: "(st :: nat) mod 4096 = 0 \<Longrightarrow> fin mod 4096 = 0 \<Longrightarrow> st < fin \<Longrightarrow> st + 4096 \<le> fin"
  by (auto simp: mod_eq_0_iff_dvd elim!: dvdE)

lemma unat_PDX: "unat (PDX la) = unat la div 4194304"
proof -
  have "unat la div 4194304 < 1024" using unat_u32_bound [of la] by (simp add: div_less_iff_less_mult)
  then show ?thesis
    unfolding PDX_def and_3FF by (simp add: take_bit_eq_mod unat_mod unat_drop_bit_eq)
qed

lemma same_page: "unat (PDX la) = unat (PDX la') \<and> unat (PTX la) = unat (PTX la') \<longleftrightarrow> pn la = pn la'"
proof -
  have s: "x div 4194304 = x div 4096 div 1024" for x :: nat by (simp add: div_mult2_eq [symmetric])
  show ?thesis unfolding unat_PDX unat_PTX s by (metis div_mult_mod_eq)
qed

lemma ent_same_page: "pn la = pn la' \<Longrightarrow> ent v d la = ent v d la'"
  using same_page [of la la'] by (auto simp: ent_def)

lemma ent_update:
  assumes "ent_at v' d = (ent_at v d)(unat (PDX la) := (ent_at v d (unat (PDX la)))(unat (PTX la) := x))"
  shows "ent v' d la' = (if pn la' = pn la then x else ent v d la')"
  using same_page [of la' la] by (auto simp: ent_def assms)

lemma page_remove_pte_any:
  fixes v :: "'z vmem_scheme"
  assumes inv: "vinv z b n F d v" and on: "pde_on v d (unat (PDX la))"
  shows "\<exists>v' F'. page_remove_pte la (Some (entp v d la)) v = Some v' \<and> vinv z b n F' d v' \<and>
    ent v' d la AND PTE_P = 0 \<and> (\<forall>la'. pn la' \<noteq> pn la \<longrightarrow> ent v' d la' = ent v d la')"
proof (cases "ent v d la AND PTE_P \<noteq> 0")
  case True
  obtain v' F' where "page_remove_pte la (Some (entp v d la)) v = Some v'" "vinv z b n F' d v'"
    "ent_at v' d = (ent_at v d)(unat (PDX la) := (ent_at v d (unat (PDX la)))(unat (PTX la) := 0))"
    using page_remove_pte_spec [OF inv on True] by blast
  with ent_update [OF this(3)] show ?thesis by (intro exI [of _ v'] exI [of _ F']) auto
next
  case False
  then have "page_remove_pte la (Some (entp v d la)) v = Some (tlb_flush v)"
    by (simp add: page_remove_pte_def entp_access(3) [OF inv on])
  moreover have "ent (tlb_flush v) = ent v" by (intro ext) (simp add: ent_def)
  ultimately show ?thesis using inv False by (intro exI [of _ "tlb_flush v"] exI [of _ F]) auto
qed

lemma page_remove_correct:
  fixes v :: "'z vmem_scheme"
  assumes inv: "vinv z b n F d v"
  shows "\<exists>v' F'. page_remove (page2pa d) la v = Some v' \<and> vinv z b n F' d v' \<and>
    ent v' d la AND PTE_P = 0 \<and> (\<forall>la'. pn la' \<noteq> pn la \<longrightarrow> ent v' d la' = ent v d la')"
proof (cases "pde_on v d (unat (PDX la))")
  case True
  with get_pte_on [OF inv True] page_remove_pte_any [OF inv True] show ?thesis by (auto simp: page_remove_def)
next
  case False
  moreover have "ent v d la = 0" using False by (simp add: ent_def ent_at_def)
  ultimately show ?thesis using get_pte_off [OF inv] inv by (auto simp: page_remove_def)
qed

definition unmap_step :: "u32 \<Rightarrow> u32 \<Rightarrow> 'z vmem_scheme \<Rightarrow> (u32 \<times> 'z vmem_scheme) kernel" where
  "unmap_step pgdir start v = do {
     (ptep, v1) \<leftarrow> get_pte pgdir start False v;
     case ptep of
       None \<Rightarrow> Some (ROUNDDOWN_2N (start + PTSIZE) 22, v1)
     | Some a \<Rightarrow> do {
         v2 \<leftarrow> (if kread v1 a \<noteq> 0 then page_remove_pte start ptep v1 else Some v1);
         Some (start + PGSIZE, v2)
       }
   }"

lemma unmap_loop_step:
  "unmap_loop pgdir start fin v = do {
     (start', v2) \<leftarrow> unmap_step pgdir start v;
     if start' \<noteq> 0 \<and> start' < fin then unmap_loop pgdir start' fin v2 else Some v2 }"
proof (cases "get_pte pgdir start False v")
  case (Some x)
  then show ?thesis by (subst unmap_loop.simps) (simp add: unmap_step_def split: prod.splits)
qed (simp add: unmap_loop.simps unmap_step_def)

lemma unmap_step_correct:
  fixes v :: "'z vmem_scheme"
  assumes inv: "vinv z b n F d v" and st: "unat start < 2 ^ 31" "unat start mod 4096 = 0"
  shows "\<exists>start' v' F'. unmap_step (page2pa d) start v = Some (start', v') \<and> vinv z b n F' d v' \<and>
    unat start < unat start' \<and> unat start' mod 4096 = 0 \<and>
    (\<forall>la. unat start \<le> unat la \<and> unat la < unat start' \<longrightarrow> ent v' d la AND PTE_P = 0) \<and>
    (\<forall>la. pn la \<noteq> pn start \<longrightarrow> ent v' d la = ent v d la)"
proof (cases "pde_on v d (unat (PDX start))")
  case off: False
  let ?s = "ROUNDDOWN_2N (start + PTSIZE) 22"
  have "unat (start + PTSIZE) = unat start + 4194304" using st(1) by (subst unat_add_u32) simp_all
  then have s: "unat ?s = (unat start div 4194304 + 1) * 4194304"
    using div_add_self2 [of 4194304 "unat start"] by (simp add: unat_ROUNDDOWN_2N)
  have lt: "unat start < unat ?s" unfolding s by (metis Suc_eq_plus1 dividend_less_div_times mult.commute mult_Suc zero_less_numeral add.commute)
  have al: "unat ?s mod 4096 = 0"
  proof -
    have "(4096::nat) dvd 4194304" by simp
    then have "4096 dvd unat ?s" unfolding s by (rule dvd_mult)
    then show ?thesis by presburger
  qed
  have zero: "ent v d la = 0" if "unat start \<le> unat la" "unat la < unat ?s" for la
  proof -
    have "unat la div 4194304 = unat start div 4194304"
      using that div_le_mono [OF that(1), of 4194304] less_mult_imp_div_less [of "unat la" "unat start div 4194304 + 1" 4194304]
      unfolding s by simp
    then show ?thesis using off by (simp add: ent_def ent_at_def unat_PDX)
  qed
  show ?thesis
    by (rule exI [of _ ?s], rule exI [of _ v], rule exI [of _ F])
      (use inv lt al zero get_pte_off [OF inv off] in \<open>auto simp: unmap_step_def\<close>)
next
  case on: True
  have s: "unat (start + PGSIZE) = unat start + 4096" using st(1) by (subst unat_add_u32) simp_all
  have rng: "unat start \<le> unat la \<and> unat la < unat start + 4096 \<longleftrightarrow> pn la = pn start" for la
    by (rule page_range [OF st(2)])
  have *: "\<exists>v' F'. (if kread v (entp v d start) \<noteq> 0 then page_remove_pte start (Some (entp v d start)) v else Some v) = Some v' \<and>
    vinv z b n F' d v' \<and> (\<forall>la. pn la = pn start \<longrightarrow> ent v' d la AND PTE_P = 0) \<and>
    (\<forall>la. pn la \<noteq> pn start \<longrightarrow> ent v' d la = ent v d la)"
  proof (cases "kread v (entp v d start) = 0")
    case True
    then have "ent v d start = 0" by (simp add: entp_access(3) [OF inv on])
    then have "\<forall>la. pn la = pn start \<longrightarrow> ent v d la AND PTE_P = 0" using ent_same_page [of _ start v d] by (metis and_zero_eq bit.conj_zero_left)
    then show ?thesis using True inv by (intro exI [of _ v] exI [of _ F]) simp
  next
    case False
    obtain v' F' where r: "page_remove_pte start (Some (entp v d start)) v = Some v'" "vinv z b n F' d v'"
      "ent v' d start AND PTE_P = 0" "\<forall>la'. pn la' \<noteq> pn start \<longrightarrow> ent v' d la' = ent v d la'"
      using page_remove_pte_any [OF inv on] by blast
    moreover have "\<forall>la. pn la = pn start \<longrightarrow> ent v' d la AND PTE_P = 0" using r(3) ent_same_page [of _ start v' d] by metis
    ultimately show ?thesis using False by (intro exI [of _ v'] exI [of _ F']) simp
  qed
  then obtain v' F' where v': "(if kread v (entp v d start) \<noteq> 0 then page_remove_pte start (Some (entp v d start)) v else Some v) = Some v'"
    "vinv z b n F' d v'" "\<forall>la. pn la = pn start \<longrightarrow> ent v' d la AND PTE_P = 0"
    "\<forall>la. pn la \<noteq> pn start \<longrightarrow> ent v' d la = ent v d la" by blast
  have "unmap_step (page2pa d) start v = Some (start + PGSIZE, v')"
    using get_pte_on [OF inv on, of False] v'(1) by (simp add: unmap_step_def cong: if_cong)
  moreover have "(unat start + 4096) mod 4096 = 0" using st(2) by simp
  ultimately show ?thesis using v'
    by (intro exI [of _ "start + PGSIZE"] exI [of _ v'] exI [of _ F']) (simp add: s rng)
qed

lemma unmap_loop_correct:
  fixes v :: "'z vmem_scheme"
  assumes "vinv z b n F d v" "unat start < unat fin" "unat fin \<le> 2 ^ 31" "unat start mod 4096 = 0" "unat fin mod 4096 = 0"
  shows "\<exists>v' F'. unmap_loop (page2pa d) start fin v = Some v' \<and> vinv z b n F' d v' \<and>
    (\<forall>la. unat start \<le> unat la \<and> unat la < unat fin \<longrightarrow> ent v' d la AND PTE_P = 0) \<and>
    (\<forall>la. unat la < unat start \<or> unat fin \<le> unat la \<longrightarrow> ent v' d la = ent v d la)"
  using assms
proof (induction "unat fin - unat start" arbitrary: start v F rule: less_induct)
  case less
  obtain start' v1 F1 where st: "unmap_step (page2pa d) start v = Some (start', v1)" "vinv z b n F1 d v1"
    "unat start < unat start'" "unat start' mod 4096 = 0"
    "\<forall>la. unat start \<le> unat la \<and> unat la < unat start' \<longrightarrow> ent v1 d la AND PTE_P = 0"
    "\<forall>la. pn la \<noteq> pn start \<longrightarrow> ent v1 d la = ent v d la"
    using unmap_step_correct [OF less.prems(1), of start] less.prems(2-4) by auto
  have out: "unat la < unat start \<or> unat fin \<le> unat la \<Longrightarrow> pn la \<noteq> pn start" for la
    using page_range [OF less.prems(4), of "unat la"] page_step [OF less.prems(4,5,2)] by auto
  show ?case
  proof (cases "start' \<noteq> 0 \<and> start' < fin")
    case False
    then have "unat fin \<le> unat start'" using st(3) by (auto simp: word_less_nat_alt)
    moreover have "unmap_loop (page2pa d) start fin v = Some v1" using False st(1) by (subst unmap_loop_step) auto
    ultimately show ?thesis using st out by (intro exI [of _ v1] exI [of _ F1]) auto
  next
    case True
    then have lt: "unat start' < unat fin" by (simp add: word_less_nat_alt)
    then have dec: "unat fin - unat start' < unat fin - unat start" using st(3) by linarith
    obtain v2 F2 where v2: "unmap_loop (page2pa d) start' fin v1 = Some v2" "vinv z b n F2 d v2"
      "\<forall>la. unat start' \<le> unat la \<and> unat la < unat fin \<longrightarrow> ent v2 d la AND PTE_P = 0"
      "\<forall>la. unat la < unat start' \<or> unat fin \<le> unat la \<longrightarrow> ent v2 d la = ent v1 d la"
      using less.hyps [of start' F1 v1, OF dec st(2) lt less.prems(3) st(4) less.prems(5)] by blast
    have "ent v2 d la AND PTE_P = 0" if "unat start \<le> unat la \<and> unat la < unat fin" for la
      using v2(3,4) st(5) that by (cases "unat la < unat start'") auto
    moreover have "ent v2 d la = ent v d la" if "unat la < unat start \<or> unat fin \<le> unat la" for la
      using v2(4) st(3,6) out [OF that] that by auto
    moreover have "unmap_loop (page2pa d) start fin v = Some v2" using True st(1) v2(1) by (subst unmap_loop_step) simp
    ultimately show ?thesis using v2(2) by blast
  qed
qed

section \<open>A directory with one mapped page\<close>

text \<open>
  Pages 300 to 8191 are managed and all in use. Page 300 is a directory whose entry 65 is the
  table in page 301, which maps the address \<^verbatim>\<open>0x10400000\<close> to page 303.
\<close>

definition demo_vm :: vmem where
  "demo_vm = pmm.extend (demo_pmm\<lparr>pages := (\<lambda>p. \<lparr>pg_ref = 1, pg_flags = of_bool (p < 300), pg_property = 0, pg_zone_num = 0\<rparr>),
      zones := (\<lambda>_. 300)\<rparr>)
    \<lparr>kmem = (\<lambda>p i. if p = 300 \<and> i = 65 then page2pa 301 OR 7 else if p = 301 \<and> i = 0 then page2pa 303 OR 7 else 0),
     vtlb = (\<lambda>_. \<lparr>e_pagemask = 0, e_hi = 0, e_lo0 = 0, e_lo1 = 0\<rparr>)\<rparr>"

lemma demo_vm_entry: "PTE_ADDR (page2pa p OR 7) = page2pa p" "(page2pa p OR 7) AND PTE_P \<noteq> 0" "p < 2 ^ 19 \<Longrightarrow> tgt (page2pa p OR 7) = p"
proof -
  show a: "PTE_ADDR (page2pa p OR 7) = page2pa p" by (rule PTE_ADDR_flags) simp
  show "(page2pa p OR 7) AND PTE_P \<noteq> 0" using PTE_P_flags [of "page2pa p" 6] by (simp add: PTE_P_def)
  show "p < 2 ^ 19 \<Longrightarrow> tgt (page2pa p OR 7) = p" unfolding tgt_def a by (rule PPN_page2pa)
qed

lemma demo_vm_views:
  "pde_on demo_vm 300 i \<longleftrightarrow> i = 65" "tab demo_vm 300 65 = 301"
  "ent_at demo_vm 300 i j = (if i = 65 \<and> j = 0 then page2pa 303 OR 7 else 0)"
  "maps demo_vm 300 q = (if q = 303 then {(65, 0)} else {})"
proof -
  show on: "pde_on demo_vm 300 i \<longleftrightarrow> i = 65" for i
    by (simp add: pde_on_def demo_vm_def pmm.defs demo_vm_entry(2))
  show t: "tab demo_vm 300 65 = 301" by (simp add: tab_def demo_vm_def pmm.defs demo_vm_entry(3))
  show e: "ent_at demo_vm 300 i j = (if i = 65 \<and> j = 0 then page2pa 303 OR 7 else 0)" for i j
    using t by (auto simp: ent_at_def on) (simp_all add: demo_vm_def pmm.defs)
  show "maps demo_vm 300 q = (if q = 303 then {(65, 0)} else {})"
    using demo_vm_entry(2,3) [of 303] by (auto simp: maps_def e)
qed

lemma demo_vm_inv: "vinv 0 300 7892 {} 300 demo_vm"
proof -
  have "buddy_inv demo_vm 0 7892 {} (\<lambda>_. [])"
    by (auto simp: buddy_inv_def zone_ok_def free_lists_def demo_vm_def pmm.defs demo_pmm_def ring_def linked_def
        PageReserved_def PageProperty_def PG_reserved_def PG_property_def)
  then have "buddy_free_is 0 300 7892 demo_vm {}"
    unfolding buddy_free_is_def
    by (intro exI [of _ "\<lambda>_. []"]) (simp add: free_set_def demo_vm_def pmm.defs)
  moreover have "npage demo_vm = 8192" "\<forall>q. pg_ref (pages demo_vm q) = 1" "PTE_ADDR (kmem demo_vm 300 65) = page2pa 301"
    by (simp_all add: demo_vm_def pmm.defs demo_pmm_def demo_vm_entry(1))
  ultimately show ?thesis by (auto simp: vinv_def demo_vm_views demo_vm_entry(1))
qed

section \<open>Properties\<close>



text \<open>
  C23: \<^verbatim>\<open>unmap_range\<close> ends and unmaps exactly the range. On any page-aligned range of user
  addresses it never panics; afterwards no page of the range is present, every entry outside is as before, and
  the directory stays well formed: each unmapped page lost one reference and is free when that was the last.\<close>
theorem unmap_range_clears:
  fixes v :: "'z vmem_scheme"
  assumes "vinv z b n F d v" and "start mod PGSIZE = 0" and "fin mod PGSIZE = 0" and "USER_ACCESS start fin"
  shows "\<exists>v' F'. unmap_range (page2pa d) start fin v = Some v' \<and> vinv z b n F' d v' \<and>
    (\<forall>la. if start \<le> la \<and> la < fin then ent v' d la AND PTE_P = 0 else ent v' d la = ent v d la)"
proof -
  have "unat start < unat fin" "unat fin \<le> 2 ^ 31"
    using assms(4) by (simp_all add: USER_ACCESS_def word_less_nat_alt word_le_nat_alt)
  moreover have "unat start mod 4096 = 0" "unat fin mod 4096 = 0"
    using assms(2,3) unat_mod [of start 4096] unat_mod [of fin 4096] by simp_all
  ultimately obtain v' F' where "unmap_loop (page2pa d) start fin v = Some v'" "vinv z b n F' d v'"
    "\<forall>la. unat start \<le> unat la \<and> unat la < unat fin \<longrightarrow> ent v' d la AND PTE_P = 0"
    "\<forall>la. unat la < unat start \<or> unat fin \<le> unat la \<longrightarrow> ent v' d la = ent v d la"
    using unmap_loop_correct [OF assms(1), of start fin] by auto
  then show ?thesis
    using assms(2-4) by (intro exI [of _ v'] exI [of _ F'])
      (simp add: unmap_range_def word_less_nat_alt word_le_nat_alt not_le not_less)
qed

theorem unmap_range_clears_witness:
  "\<exists>v' F'. unmap_range (page2pa 300) 0x10400000 0x10402000 demo_vm = Some v' \<and> vinv 0 300 7892 F' 300 v' \<and>
     ent v' 300 0x10400000 AND PTE_P = 0"
proof -
  obtain v' F' where v': "unmap_range (page2pa 300) 0x10400000 0x10402000 demo_vm = Some v'" "vinv 0 300 7892 F' 300 v'"
    "\<forall>la. if 0x10400000 \<le> la \<and> la < 0x10402000 then ent v' 300 la AND PTE_P = 0 else ent v' 300 la = ent demo_vm 300 la"
    using unmap_range_clears [OF demo_vm_inv, of "0x10400000" "0x10402000"] by (auto simp: USER_ACCESS_def)
  from spec [OF v'(3), of "0x10400000"] v'(1,2) show ?thesis by auto
qed

text \<open>
  \<^verbatim>\<open>copy_range\<close> skips a whole table size after a missing table, without rounding down to the table
  boundary. When the source directory has no table for the start of the range and the range ends
  within the next 4 MB, it returns 0 at once and copies nothing, even where the second part of
  the range lies in the next table and its pages are present.\<close>
theorem copy_range_skips:
  fixes v :: "'z vmem_scheme"
  assumes "vinv z b n F d v" and "\<not> pde_on v d (unat (PDX start))" and "start mod PGSIZE = 0" and "fin mod PGSIZE = 0"
    and "USER_ACCESS start fin" and "unat fin \<le> unat start + 4194304"
  shows "copy_range to (page2pa d) start fin v = Some (0, v)"
proof -
  have st: "unat start < 2 ^ 31" using assms(5) by (simp add: USER_ACCESS_def word_less_nat_alt word_le_nat_alt)
  have s: "unat (start + PTSIZE) = unat start + 4194304" using st by (subst unat_add_u32) simp_all
  have al: "unat start mod 4096 = 0" using assms(3) unat_mod [of start 4096] by simp
  have "unat (ROUNDDOWN_2N (start + PTSIZE) 12) = unat start + 4194304"
    using al by (simp add: unat_ROUNDDOWN_2N s mod_eq_0_iff_dvd)
  then have "\<not> ROUNDDOWN_2N (start + PTSIZE) 12 < fin" using assms(6) by (simp add: word_less_nat_alt)
  then have "copy_loop to (page2pa d) start fin v = Some (0, v)"
    using get_pte_off [OF assms(1,2)] by (subst copy_loop.simps) simp
  then show ?thesis using assms(3-5) by (simp add: copy_range_def)
qed

theorem copy_range_skips_witness:
  "copy_range 0 (page2pa 300) 0x103FF000 0x10401000 demo_vm = Some (0, demo_vm) \<and>
   ent demo_vm 300 0x10400000 = page2pa 303 OR 7"
proof -
  have "\<not> pde_on demo_vm 300 (unat (PDX 0x103FF000))" by (simp add: demo_vm_views unat_PDX)
  from copy_range_skips [OF demo_vm_inv this, of "0x10401000" 0] show ?thesis
    by (simp add: USER_ACCESS_def ent_def demo_vm_views unat_PDX unat_PTX)
qed

end
