(* ===== verification/CString.thy ===== *)
theory CString
  imports Prelude
begin

text \<open>
  \<^verbatim>\<open>kern/libs/string.c\<close>: the string and memory routines. Memory is a function from
  addresses to bytes; addresses are naturals, since an object never crosses the end of
  the address space. A loop that runs to the terminating zero byte is a
  \<^theory_text>\<open>partial_function\<close>: without a zero byte it does not return. \<open>cstr m s xs\<close> says that
  at \<open>s\<close> stands the C string with the bytes \<open>xs\<close>.
\<close>

type_synonym mem = "nat \<Rightarrow> u8"

section \<open>Strings\<close>

partial_function (option) strlen_loop :: "mem \<Rightarrow> nat \<Rightarrow> nat \<Rightarrow> nat option" where
  "strlen_loop m s cnt = (if m s \<noteq> 0 then strlen_loop m (s + 1) (cnt + 1) else Some cnt)"

definition strlen :: "mem \<Rightarrow> nat \<Rightarrow> nat option" where
  "strlen m s = strlen_loop m s 0"

function strnlen_loop :: "mem \<Rightarrow> nat \<Rightarrow> nat \<Rightarrow> nat \<Rightarrow> nat" where
  "strnlen_loop m s len cnt =
     (if cnt < len \<and> m s \<noteq> 0 then strnlen_loop m (s + 1) len (cnt + 1) else cnt)"
  by pat_completeness auto
termination
  by (relation "measure (\<lambda>(m, s, len, cnt). len - cnt)") auto

declare strnlen_loop.simps [simp del]

definition strnlen :: "mem \<Rightarrow> nat \<Rightarrow> nat \<Rightarrow> nat" where
  "strnlen m s len = strnlen_loop m s len 0"

partial_function (option) strcpy_loop :: "nat \<Rightarrow> nat \<Rightarrow> mem \<Rightarrow> mem option" where
  "strcpy_loop p src m =
     (let m' = m(p := m src)
      in if m src \<noteq> 0 then strcpy_loop (p + 1) (src + 1) m' else Some m')"

definition strcpy :: "nat \<Rightarrow> nat \<Rightarrow> mem \<Rightarrow> (nat \<times> mem) option" where
  "strcpy dst src m = map_option (Pair dst) (strcpy_loop dst src m)"

fun strncpy_loop :: "nat \<Rightarrow> nat \<Rightarrow> nat \<Rightarrow> mem \<Rightarrow> mem" where
  "strncpy_loop p src 0 m = m"
| "strncpy_loop p src (Suc len) m =
     (let c = m src; m' = m(p := c)
      in strncpy_loop (p + 1) (if c \<noteq> 0 then src + 1 else src) len m')"

definition strncpy :: "nat \<Rightarrow> nat \<Rightarrow> nat \<Rightarrow> mem \<Rightarrow> nat \<times> mem" where
  "strncpy dst src len m = (dst, strncpy_loop dst src len m)"

definition uchar_diff :: "u8 \<Rightarrow> u8 \<Rightarrow> int" where
  "uchar_diff a b = uint a - uint b"

partial_function (option) strcmp :: "mem \<Rightarrow> nat \<Rightarrow> nat \<Rightarrow> int option" where
  "strcmp m s1 s2 =
     (if m s1 \<noteq> 0 \<and> m s1 = m s2 then strcmp m (s1 + 1) (s2 + 1)
      else Some (uchar_diff (m s1) (m s2)))"

fun strncmp :: "mem \<Rightarrow> nat \<Rightarrow> nat \<Rightarrow> nat \<Rightarrow> int" where
  "strncmp m s1 s2 0 = 0"
| "strncmp m s1 s2 (Suc n) =
     (if m s1 \<noteq> 0 \<and> m s1 = m s2 then strncmp m (s1 + 1) (s2 + 1) n
      else uchar_diff (m s1) (m s2))"

text \<open>\<open>Some None\<close> is the returned null pointer.\<close>

partial_function (option) strchr :: "mem \<Rightarrow> nat \<Rightarrow> u8 \<Rightarrow> nat option option" where
  "strchr m s c =
     (if m s \<noteq> 0 then if m s = c then Some (Some s) else strchr m (s + 1) c
      else Some None)"

partial_function (option) strfind :: "mem \<Rightarrow> nat \<Rightarrow> u8 \<Rightarrow> nat option" where
  "strfind m s c =
     (if m s \<noteq> 0 then if m s = c then Some s else strfind m (s + 1) c
      else Some s)"

section \<open>Memory blocks\<close>

fun memset_loop :: "nat \<Rightarrow> u8 \<Rightarrow> nat \<Rightarrow> mem \<Rightarrow> mem" where
  "memset_loop p c 0 m = m"
| "memset_loop p c (Suc n) m = memset_loop (p + 1) c n (m(p := c))"

definition memset :: "nat \<Rightarrow> u8 \<Rightarrow> nat \<Rightarrow> mem \<Rightarrow> nat \<times> mem" where
  "memset s c n m = (s, memset_loop s c n m)"

fun copy_up :: "nat \<Rightarrow> nat \<Rightarrow> nat \<Rightarrow> mem \<Rightarrow> mem" where
  "copy_up d s 0 m = m"
| "copy_up d s (Suc n) m = copy_up (d + 1) (s + 1) n (m(d := m s))"

definition memcpy :: "nat \<Rightarrow> nat \<Rightarrow> nat \<Rightarrow> mem \<Rightarrow> nat \<times> mem" where
  "memcpy dst src n m = (dst, copy_up dst src n m)"

text \<open>The loop \<^verbatim>\<open>while (n -- > 0) *-- d = *-- s;\<close> from the ends of both blocks.\<close>

fun copy_down :: "nat \<Rightarrow> nat \<Rightarrow> nat \<Rightarrow> mem \<Rightarrow> mem" where
  "copy_down d s 0 m = m"
| "copy_down d s (Suc n) m = copy_down (d - 1) (s - 1) n (m(d - 1 := m (s - 1)))"

definition memmove :: "nat \<Rightarrow> nat \<Rightarrow> nat \<Rightarrow> mem \<Rightarrow> nat \<times> mem" where
  "memmove dst src n m =
     (dst, if src < dst \<and> src + n > dst then copy_down (dst + n) (src + n) n m
           else copy_up dst src n m)"

fun memcmp :: "mem \<Rightarrow> nat \<Rightarrow> nat \<Rightarrow> nat \<Rightarrow> int" where
  "memcmp m s1 s2 0 = 0"
| "memcmp m s1 s2 (Suc n) =
     (if m s1 \<noteq> m s2 then uchar_diff (m s1) (m s2) else memcmp m (s1 + 1) (s2 + 1) n)"

section \<open>Copies in fresh memory\<close>

text \<open>\<open>kmalloc\<close> is the allocator's answer to the request: an address, or \<^verbatim>\<open>NULL\<close>.\<close>

definition strdup :: "(nat \<Rightarrow> nat option) \<Rightarrow> nat \<Rightarrow> mem \<Rightarrow> (nat option \<times> mem) option" where
  "strdup kmalloc src m = do {
     len \<leftarrow> strlen m src;
     case kmalloc (len + 1) of
       None \<Rightarrow> Some (None, m)
     | Some dst \<Rightarrow> do {
         let (_, m1) = memcpy dst src len m;
         Some (Some dst, m1(dst + len := 0))
       }
   }"

definition stradd :: "(nat \<Rightarrow> nat option) \<Rightarrow> nat \<Rightarrow> nat \<Rightarrow> mem \<Rightarrow> (nat option \<times> mem) option" where
  "stradd kmalloc src1 src2 m = do {
     len1 \<leftarrow> strlen m src1;
     len2 \<leftarrow> strlen m src2;
     case kmalloc (len1 + len2 + 1) of
       None \<Rightarrow> Some (None, m)
     | Some ret \<Rightarrow> do {
         let (_, m1) = memcpy ret src1 len1 m;
         let (_, m2) = memcpy (ret + len1) src2 len2 m1;
         Some (Some ret, m2(ret + len1 + len2 := 0))
       }
   }"

section \<open>What is at an address\<close>

fun cstr :: "mem \<Rightarrow> nat \<Rightarrow> u8 list \<Rightarrow> bool" where
  "cstr m s [] \<longleftrightarrow> m s = 0"
| "cstr m s (x # xs) \<longleftrightarrow> m s = x \<and> x \<noteq> 0 \<and> cstr m (s + 1) xs"

lemma cstr_iff:
  "cstr m s xs \<longleftrightarrow> (\<forall>i < length xs. m (s + i) = xs ! i \<and> xs ! i \<noteq> 0) \<and> m (s + length xs) = 0"
proof (induction xs arbitrary: s)
  case Nil
  then show ?case by simp
next
  case (Cons x xs)
  show ?case by (auto simp: Cons.IH less_Suc_eq_0_disj)
qed

lemma cstr_cong: "(\<And>i. i \<le> length xs \<Longrightarrow> m' (s + i) = m (s + i)) \<Longrightarrow> cstr m' s xs = cstr m s xs"
  by (simp add: cstr_iff)

lemma cstr_unique: "cstr m s xs \<Longrightarrow> cstr m s ys \<Longrightarrow> xs = ys"
proof (induction xs arbitrary: s ys)
  case Nil
  then show ?case by (cases ys) auto
next
  case (Cons x xs)
  then show ?case by (cases ys) auto
qed

lemma cstr_nonzero: "cstr m s xs \<Longrightarrow> 0 \<notin> set xs"
  by (induction xs arbitrary: s) auto

lemma strlen_loop_cstr: "cstr m s xs \<Longrightarrow> strlen_loop m s cnt = Some (cnt + length xs)"
  by (induction xs arbitrary: s cnt) (simp_all add: strlen_loop.simps)

lemma strlen_cstr: "cstr m s xs \<Longrightarrow> strlen m s = Some (length xs)"
  by (simp add: strlen_def strlen_loop_cstr)

lemma strnlen_loop_cstr:
  "cstr m s xs \<Longrightarrow> cnt \<le> len \<Longrightarrow> strnlen_loop m s len cnt = min len (cnt + length xs)"
proof (induction xs arbitrary: s cnt)
  case Nil
  then show ?case by (simp add: strnlen_loop.simps)
next
  case (Cons x xs)
  then show ?case by (cases "cnt < len") (simp_all add: strnlen_loop.simps [of m s])
qed

lemma shift_Suc: "Suc d \<le> a \<Longrightarrow> Suc (s + a - Suc d) = s + a - d"
  by simp

lemma copy_up_eq:
  assumes "\<not> (s < d \<and> s + n > d)"
  shows "copy_up d s n m = (\<lambda>a. if d \<le> a \<and> a < d + n then m (s + (a - d)) else m a)"
  using assms
proof (induction n arbitrary: d s m)
  case 0
  then show ?case by (auto simp: fun_eq_iff)
next
  case (Suc n)
  then have "copy_up (d + 1) (s + 1) n (m(d := m s)) =
      (\<lambda>a. if d + 1 \<le> a \<and> a < d + 1 + n then (m(d := m s)) (s + 1 + (a - (d + 1))) else (m(d := m s)) a)"
    by (intro Suc.IH) auto
  with Suc.prems show ?case by (auto simp: fun_eq_iff shift_Suc)
qed

lemma copy_down_eq:
  assumes "s < d"
  shows "copy_down (d + n) (s + n) n m = (\<lambda>a. if d \<le> a \<and> a < d + n then m (s + (a - d)) else m a)"
  using assms
proof (induction n arbitrary: m)
  case 0
  then show ?case by (auto simp: fun_eq_iff)
next
  case (Suc n)
  let ?m = "m(d + n := m (s + n))"
  have "copy_down (d + n) (s + n) n ?m = (\<lambda>a. if d \<le> a \<and> a < d + n then ?m (s + (a - d)) else ?m a)"
    by (rule Suc.IH [OF Suc.prems])
  with Suc.prems show ?case by (auto intro!: ext)
qed

lemma memset_loop_eq: "memset_loop p c n m = (\<lambda>a. if p \<le> a \<and> a < p + n then c else m a)"
  by (induction n arbitrary: p m) (auto simp: fun_eq_iff)

lemma strcpy_loop_cstr:
  assumes "cstr m src xs" and "p + length xs < src \<or> src + length xs < p"
  shows "strcpy_loop p src m = Some (\<lambda>a. if p \<le> a \<and> a \<le> p + length xs then m (src + (a - p)) else m a)"
  using assms
proof (induction xs arbitrary: p src m)
  case Nil
  then show ?case by (auto simp: strcpy_loop.simps fun_eq_iff)
next
  case (Cons x xs)
  let ?m = "m(p := m src)"
  have "cstr ?m (src + 1) xs"
    using Cons.prems by (subst cstr_cong [of xs _ _ m]) auto
  from Cons.IH [OF this, of "p + 1"] Cons.prems
  have "strcpy_loop (p + 1) (src + 1) ?m =
      Some (\<lambda>a. if p + 1 \<le> a \<and> a \<le> p + 1 + length xs then ?m (src + 1 + (a - (p + 1))) else ?m a)"
    by fastforce
  with Cons.prems show ?case
    by (subst strcpy_loop.simps) (auto simp: Let_def fun_eq_iff shift_Suc)
qed

lemma uchar_diff_simps [simp]:
  "uchar_diff a b = 0 \<longleftrightarrow> a = b"
  "uchar_diff a b < 0 \<longleftrightarrow> a < b"
  "0 < uchar_diff a b \<longleftrightarrow> b < a"
  by (auto simp: uchar_diff_def word_less_def word_uint_eq_iff)

text \<open>The order \<^verbatim>\<open>strcmp\<close> decides: lexicographic on unsigned bytes.\<close>

fun bytes_less :: "u8 list \<Rightarrow> u8 list \<Rightarrow> bool" where
  "bytes_less xs [] \<longleftrightarrow> False"
| "bytes_less [] (y # ys) \<longleftrightarrow> True"
| "bytes_less (x # xs) (y # ys) \<longleftrightarrow> x < y \<or> x = y \<and> bytes_less xs ys"

lemma bytes_less_lexord: "bytes_less xs ys \<longleftrightarrow> (xs, ys) \<in> lexord {(a, b). a < b}"
  by (induction xs ys rule: bytes_less.induct) auto

lemma strcmp_cstr:
  "cstr m s1 xs \<Longrightarrow> cstr m s2 ys \<Longrightarrow>
   \<exists>d. strcmp m s1 s2 = Some d \<and> (d = 0 \<longleftrightarrow> xs = ys) \<and> (d < 0 \<longleftrightarrow> bytes_less xs ys)"
proof (induction xs ys arbitrary: s1 s2 rule: bytes_less.induct)
  case (1 xs)
  then show ?case by (cases xs) (auto simp: strcmp.simps [of m s1 s2])
next
  case (2 y ys)
  then show ?case by (auto simp: strcmp.simps [of m s1 s2] word_neq_0_conv)
next
  case (3 x xs y ys)
  then show ?case by (cases "x = y") (auto simp: strcmp.simps [of m s1 s2])
qed

lemma strchr_cstr:
  "cstr m s xs \<Longrightarrow> strchr m s c =
     Some (if c \<in> set xs then Some (s + length (takeWhile (\<lambda>x. x \<noteq> c) xs)) else None)"
proof (induction xs arbitrary: s)
  case Nil
  then show ?case by (simp add: strchr.simps)
next
  case (Cons x xs)
  from Cons.prems Cons.IH [of "s + 1"] show ?case by (subst strchr.simps) auto
qed

lemma strfind_cstr:
  "cstr m s xs \<Longrightarrow> strfind m s c = Some (s + length (takeWhile (\<lambda>x. x \<noteq> c) xs))"
proof (induction xs arbitrary: s)
  case Nil
  then show ?case by (simp add: strfind.simps)
next
  case (Cons x xs)
  from Cons.prems Cons.IH [of "s + 1"] show ?case by (subst strfind.simps) auto
qed

lemma strncpy_loop_cstr:
  assumes "cstr m src xs" and "p + len \<le> src \<or> src + length xs < p"
  shows "strncpy_loop p src len m = (\<lambda>a. if p \<le> a \<and> a < p + len
      then if a - p < length xs then xs ! (a - p) else 0 else m a)"
  using assms
proof (induction len arbitrary: p src xs m)
  case 0
  then show ?case by (auto simp: fun_eq_iff)
next
  case (Suc len)
  let ?m = "m(p := m src)"
  show ?case
  proof (cases xs)
    case Nil
    have "cstr ?m src []" using Suc.prems Nil by auto
    moreover have "p + 1 + len \<le> src \<or> src + length ([] :: u8 list) < p + 1"
      using Suc.prems(2) Nil by auto
    ultimately have "strncpy_loop (p + 1) src len ?m = (\<lambda>a. if p + 1 \<le> a \<and> a < p + 1 + len
        then if a - (p + 1) < length ([] :: u8 list) then [] ! (a - (p + 1)) else 0 else ?m a)"
      by (rule Suc.IH)
    with Suc.prems(1) Nil show ?thesis by (auto intro!: ext simp: Let_def)
  next
    case (Cons x ys)
    have "cstr ?m (src + 1) ys"
      using Suc.prems Cons by (subst cstr_cong [of ys _ _ m]) auto
    moreover have "p + 1 + len \<le> src + 1 \<or> src + 1 + length ys < p + 1"
      using Suc.prems(2) Cons by auto
    ultimately have "strncpy_loop (p + 1) (src + 1) len ?m = (\<lambda>a. if p + 1 \<le> a \<and> a < p + 1 + len
        then if a - (p + 1) < length ys then ys ! (a - (p + 1)) else 0 else ?m a)"
      by (rule Suc.IH)
    with Suc.prems(1) Cons show ?thesis
      by (auto simp: fun_eq_iff Let_def nth_Cons' Suc_diff_Suc)
  qed
qed

lemma memcmp_zero_iff: "memcmp m s1 s2 n = 0 \<longleftrightarrow> (\<forall>i<n. m (s1 + i) = m (s2 + i))"
  by (induction n arbitrary: s1 s2) (auto simp: less_Suc_eq_0_disj)

section \<open>Properties\<close>

text \<open>
  C38: \<^verbatim>\<open>memmove\<close> copies any block, however source and destination overlap:
  afterwards the destination holds the bytes the source held before the call, every other
  byte is unchanged, and the destination address is returned.\<close>
theorem memmove_any_overlap:
  "memmove dst src n m =
     (dst, \<lambda>a. if dst \<le> a \<and> a < dst + n then m (src + (a - dst)) else m a)"
  by (cases "src < dst \<and> src + n > dst") (auto simp: memmove_def copy_down_eq copy_up_eq)

text \<open>
  \<^verbatim>\<open>strcmp\<close> ends on every pair of C strings; its result is zero exactly when
  the strings are equal and negative exactly when the first precedes the second in the
  lexicographic order of unsigned bytes.\<close>
theorem strcmp_orders:
  assumes "cstr m s1 xs" and "cstr m s2 ys"
  shows "\<exists>d. strcmp m s1 s2 = Some d \<and> (d = 0 \<longleftrightarrow> xs = ys) \<and>
     (d < 0 \<longleftrightarrow> (xs, ys) \<in> lexord {(a, b). a < b})"
  using strcmp_cstr [OF assms] by (simp add: bytes_less_lexord)

definition demo_mem :: mem where
  "demo_mem a = ([97, 98, 0, 97, 200, 0] :: u8 list) ! (a mod 6)"

theorem strcmp_orders_witness:
  "\<exists>d. strcmp demo_mem 0 3 = Some d \<and> (d = 0 \<longleftrightarrow> [97, 98 :: u8] = [97, 200]) \<and>
     (d < 0 \<longleftrightarrow> ([97, 98 :: u8], [97, 200]) \<in> lexord {(a, b). a < b})"
proof (rule strcmp_orders)
  show "cstr demo_mem 0 [97, 98]" "cstr demo_mem 3 [97, 200]"
    by (simp_all add: demo_mem_def)
qed

text \<open>
  \<^verbatim>\<open>stradd\<close> on two C strings and a block the allocator returns that
  overlaps neither of them: it ends, returns the block, the block holds the concatenation as
  a C string, and no byte outside the block changes.\<close>
theorem stradd_concatenates:
  assumes "cstr m s1 xs" and "cstr m s2 ys"
    and "kmalloc (length xs + length ys + 1) = Some p"
    and "s1 + length xs < p \<or> p + length xs + length ys < s1"
    and "s2 + length ys < p \<or> p + length xs + length ys < s2"
  shows "\<exists>m'. stradd kmalloc s1 s2 m = Some (Some p, m') \<and> cstr m' p (xs @ ys) \<and>
     (\<forall>a. a < p \<or> p + length xs + length ys < a \<longrightarrow> m' a = m a)"
proof -
  define m1 where "m1 = copy_up p s1 (length xs) m"
  define m2 where "m2 = copy_up (p + length xs) s2 (length ys) m1"
  define m3 where "m3 = m2(p + length xs + length ys := 0)"
  have m1: "m1 = (\<lambda>a. if p \<le> a \<and> a < p + length xs then m (s1 + (a - p)) else m a)"
    unfolding m1_def using assms(4) by (intro copy_up_eq) auto
  have m2: "m2 = (\<lambda>a. if p + length xs \<le> a \<and> a < p + length xs + length ys
      then m1 (s2 + (a - (p + length xs))) else m1 a)"
    unfolding m2_def using assms(5) by (intro copy_up_eq) auto
  have "stradd kmalloc s1 s2 m = Some (Some p, m3)"
    using assms(3) by (simp add: stradd_def strlen_cstr [OF assms(1)] strlen_cstr [OF assms(2)]
        memcpy_def m1_def m2_def m3_def)
  moreover have "m (s2 + i - length xs) = ys ! (i - length xs) \<and> ys ! (i - length xs) \<noteq> 0"
    if "length xs \<le> i" "i < length xs + length ys" for i
  proof -
    from that obtain j where "i = length xs + j" "j < length ys"
      by (metis add_less_cancel_left le_Suc_ex)
    with assms(2) show ?thesis by (simp add: cstr_iff)
  qed
  then have "cstr m3 p (xs @ ys)"
    using assms(1,2,4,5) unfolding cstr_iff m3_def m2 m1 by (auto simp: nth_append)
  moreover have "\<forall>a. a < p \<or> p + length xs + length ys < a \<longrightarrow> m3 a = m a"
    by (auto simp: m3_def m2 m1)
  ultimately show ?thesis by blast
qed

theorem stradd_concatenates_witness:
  "\<exists>m'. stradd (\<lambda>_. Some 10) 0 3 demo_mem = Some (Some 10, m') \<and> cstr m' 10 [97, 98, 97, 200] \<and>
     m' 9 = demo_mem 9"
proof -
  have c: "cstr demo_mem 0 [97, 98]" "cstr demo_mem 3 [97, 200]" by (simp_all add: demo_mem_def)
  from stradd_concatenates [OF c, of "\<lambda>_. Some 10" 10] obtain m' where
    "stradd (\<lambda>_. Some 10) 0 3 demo_mem = Some (Some 10, m')" "cstr m' 10 ([97, 98] @ [97, 200])"
    "\<forall>a. a < 10 \<or> 10 + length [97, 98 :: u8] + length [97, 200 :: u8] < a \<longrightarrow> m' a = demo_mem a"
    by auto
  then show ?thesis by (intro exI [of _ m']) simp
qed

text \<open>
  \<^verbatim>\<open>strncpy\<close> into a block that does not overlap the string writes exactly
  \<open>len\<close> bytes, the string cut at \<open>len\<close> and then zero bytes, and nothing else: a longer
  string leaves the block without a terminating zero byte.\<close>
theorem strncpy_pads:
  assumes "cstr m src xs" and "dst + len \<le> src \<or> src + length xs < dst"
  shows "strncpy dst src len m = (dst, \<lambda>a. if dst \<le> a \<and> a < dst + len
      then if a - dst < length xs then xs ! (a - dst) else 0 else m a)"
  by (simp add: strncpy_def strncpy_loop_cstr [OF assms])

theorem strncpy_pads_witness:
  "strncpy 10 0 4 demo_mem = (10, \<lambda>a. if 10 \<le> a \<and> a < 10 + 4
      then if a - 10 < length [97, 98 :: u8] then [97, 98] ! (a - 10) else 0 else demo_mem a)"
  by (rule strncpy_pads) (simp_all add: demo_mem_def)

end
