(* ===== verification/Vmm.thy ===== *)
theory Vmm
  imports PageTable CString
begin

text \<open>
  The memory areas of an address space: \<^verbatim>\<open>kern/mm/vmm.c\<close> and \<^verbatim>\<open>kern/mm/vmm.h\<close>. An \<^verbatim>\<open>mm_struct\<close> and a
  \<^verbatim>\<open>vma_struct\<close> are known by their address, a natural number; the sorted list of areas is a pointer
  list with one head cell per \<^verbatim>\<open>mm_struct\<close>. The answers of \<^verbatim>\<open>kmalloc\<close> to the successive requests
  are the stream \<open>kmalloc_ans\<close>, of which \<open>kmalloc_pos\<close> have been used; \<open>kfreed\<close> lists what was
  given back. The user's bytes that the copy routines move are a memory of \<open>CString\<close>.
\<close>

section \<open>State\<close>

datatype mcell = MHead nat | MVma nat

record vma_struct =
  vm_mm :: "nat option"
  vm_start :: u32
  vm_end :: u32
  vm_flags :: u32

record mm_struct =
  mmap_cache :: "nat option"
  pgdir :: u32
  map_count :: int
  mm_count :: int
  mm_sem :: int

record mstate = vmem +
  vmas :: "nat \<Rightarrow> vma_struct"
  mms :: "nat \<Rightarrow> mm_struct"
  mm_links :: "mcell links"
  kmalloc_ans :: "nat \<Rightarrow> nat option"
  kmalloc_pos :: nat
  kfreed :: "nat list"
  kmemsize :: u32
  pgfault_num :: u32

definition VM_READ :: u32 where "VM_READ = 0x00000001"
definition VM_WRITE :: u32 where "VM_WRITE = 0x00000002"
definition VM_EXEC :: u32 where "VM_EXEC = 0x00000004"
definition VM_STACK :: u32 where "VM_STACK = 0x00000008"

definition kmalloc_next :: "'z mstate_scheme \<Rightarrow> nat option \<times> 'z mstate_scheme" where
  "kmalloc_next s = (kmalloc_ans s (kmalloc_pos s), s\<lparr>kmalloc_pos := kmalloc_pos s + 1\<rparr>)"

definition kfree_ptr :: "nat \<Rightarrow> 'z mstate_scheme \<Rightarrow> 'z mstate_scheme" where
  "kfree_ptr p s = s\<lparr>kfreed := p # kfreed s\<rparr>"

definition upd_mm :: "nat \<Rightarrow> (mm_struct \<Rightarrow> mm_struct) \<Rightarrow> 'z mstate_scheme \<Rightarrow> 'z mstate_scheme" where
  "upd_mm m f s = s\<lparr>mms := (mms s)(m := f (mms s m))\<rparr>"

definition upd_vma :: "nat \<Rightarrow> (vma_struct \<Rightarrow> vma_struct) \<Rightarrow> 'z mstate_scheme \<Rightarrow> 'z mstate_scheme" where
  "upd_vma p f s = s\<lparr>vmas := (vmas s)(p := f (vmas s p))\<rparr>"

definition KERN_ACCESS :: "u32 \<Rightarrow> u32 \<Rightarrow> u32 \<Rightarrow> bool" where
  "KERN_ACCESS ksize start fin \<longleftrightarrow> KERNBASE \<le> start \<and> start < fin \<and> fin \<le> KERNBASE + ksize"

section \<open>Operations\<close>

definition set_mm_count :: "nat \<Rightarrow> int \<Rightarrow> 'z mstate_scheme \<Rightarrow> 'z mstate_scheme" where
  "set_mm_count m n = upd_mm m (\<lambda>x. x\<lparr>mm_count := n\<rparr>)"

definition mm_count_inc :: "nat \<Rightarrow> 'z mstate_scheme \<Rightarrow> int \<times> 'z mstate_scheme" where
  "mm_count_inc m s = (mm_count (mms s m) + 1, upd_mm m (\<lambda>x. x\<lparr>mm_count := mm_count x + 1\<rparr>) s)"

definition mm_count_dec :: "nat \<Rightarrow> 'z mstate_scheme \<Rightarrow> int \<times> 'z mstate_scheme" where
  "mm_count_dec m s = (mm_count (mms s m) - 1, upd_mm m (\<lambda>x. x\<lparr>mm_count := mm_count x - 1\<rparr>) s)"

definition mm_create :: "'z mstate_scheme \<Rightarrow> nat option \<times> 'z mstate_scheme" where
  "mm_create s =
     (case kmalloc_next s of
        (None, s1) \<Rightarrow> (None, s1)
      | (Some m, s1) \<Rightarrow>
          let s2 = s1\<lparr>mm_links := list_init (MHead m) (mm_links s1)\<rparr>;
              s3 = upd_mm m (\<lambda>x. x\<lparr>mmap_cache := None, pgdir := 0, map_count := 0\<rparr>) s2;
              s4 = set_mm_count m 0 s3
          in (Some m, upd_mm m (\<lambda>x. x\<lparr>mm_sem := 1\<rparr>) s4))"

definition vma_create :: "u32 \<Rightarrow> u32 \<Rightarrow> u32 \<Rightarrow> 'z mstate_scheme \<Rightarrow> nat option \<times> 'z mstate_scheme" where
  "vma_create st fin flags s =
     (case kmalloc_next s of
        (None, s1) \<Rightarrow> (None, s1)
      | (Some p, s1) \<Rightarrow> (Some p, upd_vma p (\<lambda>x. x\<lparr>vm_start := st, vm_end := fin, vm_flags := flags\<rparr>) s1))"

partial_function (option) find_vma_loop :: "mcell links \<Rightarrow> (nat \<Rightarrow> u32) \<Rightarrow> u32 \<Rightarrow> mcell \<Rightarrow> nat option option" where
  "find_vma_loop h fin addr le =
     (case list_next h le of
        MHead _ \<Rightarrow> Some None
      | MVma p \<Rightarrow> if addr < fin p then Some (Some p) else find_vma_loop h fin addr (MVma p))"

text \<open>The outer option: \<open>None\<close> would be a loop that never ends. A null \<open>mm\<close> is \<open>None\<close>.\<close>

definition find_vma :: "nat option \<Rightarrow> u32 \<Rightarrow> 'z mstate_scheme \<Rightarrow> (nat option \<times> 'z mstate_scheme) option" where
  "find_vma mm addr s =
     (case mm of
        None \<Rightarrow> Some (None, s)
      | Some m \<Rightarrow> do {
          vma \<leftarrow> (case mmap_cache (mms s m) of
                    Some c \<Rightarrow>
                      if vm_start (vmas s c) \<le> addr \<and> vm_end (vmas s c) > addr then Some (Some c)
                      else find_vma_loop (mm_links s) (\<lambda>p. vm_end (vmas s p)) addr (MHead m)
                  | None \<Rightarrow> find_vma_loop (mm_links s) (\<lambda>p. vm_end (vmas s p)) addr (MHead m));
          case vma of
            Some p \<Rightarrow> Some (vma, upd_mm m (\<lambda>x. x\<lparr>mmap_cache := Some p\<rparr>) s)
          | None \<Rightarrow> Some (None, s)
        })"

definition check_vma_overlap :: "vma_struct \<Rightarrow> vma_struct \<Rightarrow> unit kernel" where
  "check_vma_overlap prv nxt = do {
     kassert (vm_start prv < vm_end prv);
     kassert (vm_end prv \<le> vm_start nxt);
     kassert (vm_start nxt < vm_end nxt)
   }"

text \<open>The cell the scan of \<^verbatim>\<open>insert_vma_struct\<close> ends with in \<^verbatim>\<open>le_prev\<close>.\<close>

partial_function (option) insert_scan :: "mcell links \<Rightarrow> (nat \<Rightarrow> u32) \<Rightarrow> u32 \<Rightarrow> mcell \<Rightarrow> mcell option" where
  "insert_scan h st key le =
     (case list_next h le of
        MHead _ \<Rightarrow> Some le
      | MVma p \<Rightarrow> if st p > key then Some le else insert_scan h st key (MVma p))"

definition insert_vma_struct :: "nat \<Rightarrow> nat \<Rightarrow> 'z mstate_scheme \<Rightarrow> 'z mstate_scheme kernel" where
  "insert_vma_struct m p s = do {
     kassert (vm_start (vmas s p) < vm_end (vmas s p));
     prv \<leftarrow> insert_scan (mm_links s) (\<lambda>q. vm_start (vmas s q)) (vm_start (vmas s p)) (MHead m);
     let nxt = list_next (mm_links s) prv;
     (case prv of MVma q \<Rightarrow> check_vma_overlap (vmas s q) (vmas s p) | MHead _ \<Rightarrow> Some ());
     (case nxt of MVma q \<Rightarrow> check_vma_overlap (vmas s p) (vmas s q) | MHead _ \<Rightarrow> Some ());
     let s1 = upd_vma p (\<lambda>x. x\<lparr>vm_mm := Some m\<rparr>) s;
     let s2 = s1\<lparr>mm_links := list_add_after prv (MVma p) (mm_links s1)\<rparr>;
     Some (upd_mm m (\<lambda>x. x\<lparr>map_count := map_count x + 1\<rparr>) s2)
   }"

partial_function (option) mm_destroy_loop :: "nat \<Rightarrow> 'z mstate_scheme \<Rightarrow> 'z mstate_scheme option" where
  "mm_destroy_loop m s =
     (case list_next (mm_links s) (MHead m) of
        MHead _ \<Rightarrow> Some s
      | MVma p \<Rightarrow> mm_destroy_loop m (kfree_ptr p (s\<lparr>mm_links := list_del (MVma p) (mm_links s)\<rparr>)))"

definition mm_destroy :: "nat \<Rightarrow> 'z mstate_scheme \<Rightarrow> 'z mstate_scheme kernel" where
  "mm_destroy m s = do {
     kassert (mm_count (mms s m) = 0);
     s1 \<leftarrow> mm_destroy_loop m s;
     Some (kfree_ptr m s1)
   }"

text \<open>The returned code, and the area that is stored through \<^verbatim>\<open>vma_store\<close>.\<close>

definition mm_map :: "nat option \<Rightarrow> u32 \<Rightarrow> u32 \<Rightarrow> u32 \<Rightarrow> 'z mstate_scheme \<Rightarrow> (int \<times> nat option \<times> 'z mstate_scheme) kernel" where
  "mm_map mm addr len flags s =
     (let st = ROUNDDOWN_2N addr 12; fin = ROUNDUP_2N (addr + len) 12
      in if \<not> USER_ACCESS st fin then Some (- errno_of E_INVAL, None, s)
         else do {
           m \<leftarrow> mm;
           (vma, s1) \<leftarrow> find_vma (Some m) st s;
           if (case vma of Some p \<Rightarrow> fin > vm_start (vmas s1 p) | None \<Rightarrow> False)
           then Some (- errno_of E_INVAL, None, s1)
           else (case vma_create st fin flags s1 of
                   (None, s2) \<Rightarrow> Some (- errno_of E_NO_MEM, None, s2)
                 | (Some p, s2) \<Rightarrow> do {
                     s3 \<leftarrow> insert_vma_struct m p s2;
                     Some (0, Some p, s3)
                   })
         })"

partial_function (option) dup_mmap_loop :: "nat \<Rightarrow> nat \<Rightarrow> mcell \<Rightarrow> 'z mstate_scheme \<Rightarrow> (int \<times> 'z mstate_scheme) kernel" where
  "dup_mmap_loop to from le s =
     (case list_prev (mm_links s) le of
        MHead _ \<Rightarrow> Some (0, s)
      | MVma p \<Rightarrow>
          (case vma_create (vm_start (vmas s p)) (vm_end (vmas s p)) (vm_flags (vmas s p)) s of
             (None, s1) \<Rightarrow> Some (- errno_of E_NO_MEM, s1)
           | (Some q, s1) \<Rightarrow> do {
               s2 \<leftarrow> insert_vma_struct to q s1;
               (r, s3) \<leftarrow> copy_range (pgdir (mms s2 to)) (pgdir (mms s2 from)) (vm_start (vmas s2 p)) (vm_end (vmas s2 p)) s2;
               if r \<noteq> 0 then Some (- errno_of E_NO_MEM, s3) else dup_mmap_loop to from (MVma p) s3
             }))"

definition dup_mmap :: "nat \<Rightarrow> nat \<Rightarrow> 'z mstate_scheme \<Rightarrow> (int \<times> 'z mstate_scheme) kernel" where
  "dup_mmap to from s = dup_mmap_loop to from (MHead from) s"

partial_function (option) exit_unmap_loop :: "u32 \<Rightarrow> mcell \<Rightarrow> 'z mstate_scheme \<Rightarrow> 'z mstate_scheme kernel" where
  "exit_unmap_loop pd le s =
     (case list_next (mm_links s) le of
        MHead _ \<Rightarrow> Some s
      | MVma p \<Rightarrow> do {
          s1 \<leftarrow> unmap_range pd (vm_start (vmas s p)) (vm_end (vmas s p)) s;
          exit_unmap_loop pd (MVma p) s1
        })"

partial_function (option) exit_tables_loop :: "u32 \<Rightarrow> mcell \<Rightarrow> 'z mstate_scheme \<Rightarrow> 'z mstate_scheme kernel" where
  "exit_tables_loop pd le s =
     (case list_next (mm_links s) le of
        MHead _ \<Rightarrow> Some s
      | MVma p \<Rightarrow> do {
          s1 \<leftarrow> exit_range pd (vm_start (vmas s p)) (vm_end (vmas s p)) s;
          exit_tables_loop pd (MVma p) s1
        })"

definition exit_mmap :: "nat \<Rightarrow> 'z mstate_scheme \<Rightarrow> 'z mstate_scheme kernel" where
  "exit_mmap m s = do {
     kassert (mm_count (mms s m) = 0);
     s1 \<leftarrow> exit_unmap_loop (pgdir (mms s m)) (MHead m) s;
     exit_tables_loop (pgdir (mms s m)) (MHead m) s1
   }"

partial_function (option) user_mem_loop :: "nat \<Rightarrow> bool \<Rightarrow> u32 \<Rightarrow> u32 \<Rightarrow> 'z mstate_scheme \<Rightarrow> (bool \<times> 'z mstate_scheme) option" where
  "user_mem_loop m write start fin s =
     (if start < fin then do {
        (vma, s1) \<leftarrow> find_vma (Some m) start s;
        case vma of
          None \<Rightarrow> Some (False, s1)
        | Some p \<Rightarrow>
            if start < vm_start (vmas s1 p) then Some (False, s1)
            else if vm_flags (vmas s1 p) AND (if write then VM_WRITE else VM_READ) = 0 then Some (False, s1)
            else if write \<and> vm_flags (vmas s1 p) AND VM_STACK \<noteq> 0 \<and> start < vm_start (vmas s1 p) + PGSIZE
            then Some (False, s1)
            else user_mem_loop m write (vm_end (vmas s1 p)) fin s1
      }
      else Some (True, s))"

definition user_mem_check :: "nat option \<Rightarrow> u32 \<Rightarrow> u32 \<Rightarrow> bool \<Rightarrow> 'z mstate_scheme \<Rightarrow> (bool \<times> 'z mstate_scheme) option" where
  "user_mem_check mm addr len write s =
     (case mm of
        Some m \<Rightarrow>
          if \<not> USER_ACCESS addr (addr + len) then Some (False, s)
          else user_mem_loop m write addr (addr + len) s
      | None \<Rightarrow> Some (KERN_ACCESS (kmemsize s) addr (addr + len), s))"

definition copy_from_user :: "nat option \<Rightarrow> u32 \<Rightarrow> u32 \<Rightarrow> u32 \<Rightarrow> bool \<Rightarrow> mem \<Rightarrow> 'z mstate_scheme \<Rightarrow>
    (bool \<times> mem \<times> 'z mstate_scheme) option" where
  "copy_from_user mm dst src len writable u s = do {
     (ok, s1) \<leftarrow> user_mem_check mm src len writable s;
     Some (if ok then (True, snd (memcpy (unat dst) (unat src) (unat len) u), s1) else (False, u, s1))
   }"

definition copy_to_user :: "nat option \<Rightarrow> u32 \<Rightarrow> u32 \<Rightarrow> u32 \<Rightarrow> mem \<Rightarrow> 'z mstate_scheme \<Rightarrow>
    (bool \<times> mem \<times> 'z mstate_scheme) option" where
  "copy_to_user mm dst src len u s = do {
     (ok, s1) \<leftarrow> user_mem_check mm dst len True s;
     Some (if ok then (True, snd (memcpy (unat dst) (unat src) (unat len) u), s1) else (False, u, s1))
   }"

partial_function (option) copy_string_loop :: "nat option \<Rightarrow> u32 \<Rightarrow> u32 \<Rightarrow> u32 \<Rightarrow> u32 \<Rightarrow> mem \<Rightarrow> 'z mstate_scheme \<Rightarrow>
    (bool \<times> mem \<times> 'z mstate_scheme) option" where
  "copy_string_loop mm dst src part0 maxn u s =
     (let part = (if part0 > maxn then maxn else part0) in do {
        (ok, s1) \<leftarrow> user_mem_check mm src part False s;
        if \<not> ok then Some (False, u, s1)
        else let alen = strnlen u (unat src) (unat part)
             in if alen < unat part then Some (True, snd (memcpy (unat dst) (unat src) (alen + 1) u), s1)
                else if part = maxn then Some (False, u, s1)
                else copy_string_loop mm (dst + part) (src + part) PGSIZE (maxn - part)
                       (snd (memcpy (unat dst) (unat src) (unat part) u)) s1
      })"

definition copy_string :: "nat option \<Rightarrow> u32 \<Rightarrow> u32 \<Rightarrow> u32 \<Rightarrow> mem \<Rightarrow> 'z mstate_scheme \<Rightarrow>
    (bool \<times> mem \<times> 'z mstate_scheme) option" where
  "copy_string mm dst src maxn u s =
     copy_string_loop mm dst src (ROUNDDOWN_2N (src + PGSIZE) 12 - src) maxn u s"

definition do_pgfault :: "bool \<Rightarrow> nat option \<Rightarrow> u32 \<Rightarrow> u32 \<Rightarrow> 'z mstate_scheme \<Rightarrow> (int \<times> 'z mstate_scheme) kernel" where
  "do_pgfault swap_init_ok mm error_code addr s = do {
     (vma, s1) \<leftarrow> find_vma mm addr s;
     let s2 = s1\<lparr>pgfault_num := pgfault_num s1 + 1\<rparr>;
     case vma of
       None \<Rightarrow> Some (- errno_of E_INVAL, s2)
     | Some p \<Rightarrow>
         let flags = vm_flags (vmas s2 p) in
         if vm_start (vmas s2 p) > addr then Some (- errno_of E_INVAL, s2)
         else if error_code AND 3 = 1 then Some (- errno_of E_INVAL, s2)
         else if error_code AND 3 = 0 \<and> flags AND (VM_READ OR VM_EXEC) = 0 then Some (- errno_of E_INVAL, s2)
         else if error_code AND 3 \<noteq> 0 \<and> flags AND VM_WRITE = 0 then Some (- errno_of E_INVAL, s2)
         else do {
           m \<leftarrow> mm;
           let perm = (if flags AND VM_WRITE \<noteq> 0 then PTE_U OR PTE_W else PTE_U);
           let la = ROUNDDOWN_2N addr 12;
           (ptep, s3) \<leftarrow> get_pte (pgdir (mms s2 m)) la True s2;
           case ptep of
             None \<Rightarrow> Some (- errno_of E_NO_MEM, s3)
           | Some a \<Rightarrow>
               if kread s3 a = 0 then do {
                 (r, s4) \<leftarrow> pgdir_alloc_page swap_init_ok (pgdir (mms s3 m)) la perm s3;
                 Some (if r = None then (- errno_of E_NO_MEM, s4) else (0, s4))
               }
               else do { kassert (\<not> swap_init_ok); Some (- errno_of E_NO_MEM, s3) }
         }
   }"

end
