(* ===== verification/VmArea.thy ===== *)
theory VmArea
  imports Vmm
begin

text \<open>
  What the memory areas guarantee: the list of an \<^verbatim>\<open>mm_struct\<close> is always sorted and free of overlaps,
  the lookup with its one-entry cache is a search in that list, the access check of the system
  calls is exact, and a page fault inside an area maps exactly the faulting page.
\<close>

section \<open>The area list\<close>

definition areas :: "'z mstate_scheme \<Rightarrow> nat \<Rightarrow> nat list \<Rightarrow> bool" where
  "areas s m vs \<longleftrightarrow>
     ring (mm_links s) (MHead m) (map MVma vs) \<and>
     (\<forall>p \<in> set vs. vm_start (vmas s p) < vm_end (vmas s p)) \<and>
     sorted_wrt (\<lambda>p q. vm_end (vmas s p) \<le> vm_start (vmas s q)) vs \<and>
     (\<forall>c. mmap_cache (mms s m) = Some c \<longrightarrow> c \<in> set vs) \<and> map_count (mms s m) = int (length vs)"

definition in_area :: "vma_struct \<Rightarrow> u32 \<Rightarrow> bool" where
  "in_area x a \<longleftrightarrow> vm_start x \<le> a \<and> a < vm_end x"

lemma upd_mm_simps [simp]:
  "mms (upd_mm m f s) = (mms s)(m := f (mms s m))" "vmas (upd_mm m f s) = vmas s" "mm_links (upd_mm m f s) = mm_links s"
  "kmalloc_ans (upd_mm m f s) = kmalloc_ans s" "kmalloc_pos (upd_mm m f s) = kmalloc_pos s" "kmem (upd_mm m f s) = kmem s"
  by (simp_all add: upd_mm_def)

lemma upd_vma_simps [simp]:
  "vmas (upd_vma p g s) = (vmas s)(p := g (vmas s p))" "mms (upd_vma p g s) = mms s" "mm_links (upd_vma p g s) = mm_links s"
  "kmalloc_ans (upd_vma p g s) = kmalloc_ans s" "kmalloc_pos (upd_vma p g s) = kmalloc_pos s" "kmem (upd_vma p g s) = kmem s"
  by (simp_all add: upd_vma_def)

lemma find_vma_loop_suffix:
  "ring h (MHead m) (map MVma (us @ vs)) \<Longrightarrow>
   find_vma_loop h f addr (last (MHead m # map MVma us)) = Some (find (\<lambda>p. addr < f p) vs)"
proof (induction vs arbitrary: us)
  case Nil
  have "list_next h (last (MHead m # map MVma us)) = MHead m"
    using ring_next [of h "MHead m" "map MVma us" "[]"] Nil by simp
  then show ?case by (subst find_vma_loop.simps) simp
next
  case (Cons p vs)
  have n: "list_next h (last (MHead m # map MVma us)) = MVma p"
    using ring_next [of h "MHead m" "map MVma us" "map MVma (p # vs)"] Cons.prems by simp
  have "find_vma_loop h f addr (MVma p) = Some (find (\<lambda>p. addr < f p) vs)"
    using Cons.IH [of "us @ [p]"] Cons.prems by simp
  with n show ?case by (subst find_vma_loop.simps) simp
qed

lemma insert_scan_suffix:
  "ring h (MHead m) (map MVma (us @ vs)) \<Longrightarrow>
   insert_scan h st key (last (MHead m # map MVma us)) =
     Some (last (MHead m # map MVma (us @ takeWhile (\<lambda>p. st p \<le> key) vs)))"
proof (induction vs arbitrary: us)
  case Nil
  have "list_next h (last (MHead m # map MVma us)) = MHead m"
    using ring_next [of h "MHead m" "map MVma us" "[]"] Nil by simp
  then show ?case by (subst insert_scan.simps) simp
next
  case (Cons p vs)
  have n: "list_next h (last (MHead m # map MVma us)) = MVma p"
    using ring_next [of h "MHead m" "map MVma us" "map MVma (p # vs)"] Cons.prems by simp
  have "insert_scan h st key (MVma p) = Some (last (MHead m # map MVma ((us @ [p]) @ takeWhile (\<lambda>p. st p \<le> key) vs)))"
    using Cons.IH [of "us @ [p]"] Cons.prems by simp
  with n show ?case by (subst insert_scan.simps) (auto simp: not_less)
qed

text \<open>In a sorted list of disjoint areas at most one contains an address, and it is the first that ends after it.\<close>

lemma areas_find:
  assumes "areas s m vs" and "p \<in> set vs" and "in_area (vmas s p) a"
  shows "find (\<lambda>p. a < vm_end (vmas s p)) vs = Some p"
proof -
  obtain us ws where vs: "vs = us @ p # ws" using split_list [OF assms(2)] by blast
  have "\<forall>q \<in> set us. vm_end (vmas s q) \<le> vm_start (vmas s p)"
    using assms(1) by (simp add: areas_def vs sorted_wrt_append)
  then have "\<forall>q \<in> set us. \<not> a < vm_end (vmas s q)" using assms(3) by (fastforce simp: in_area_def)
  then have "find (\<lambda>p. a < vm_end (vmas s p)) us = None" by (simp add: find_None_iff)
  then show ?thesis using assms(3) unfolding vs by (induction us) (auto simp: in_area_def split: if_splits)
qed

lemma areas_find_start:
  assumes "areas s m vs" and "find (\<lambda>p. a < vm_end (vmas s p)) vs = Some p" and "q \<in> set vs" and "in_area (vmas s q) a"
  shows "q = p"
  using areas_find [OF assms(1,3,4)] assms(2) by simp

lemma find_vma_correct:
  fixes s :: "'z mstate_scheme"
  assumes a: "areas s m vs"
  shows "\<exists>s'. find_vma (Some m) addr s = Some (find (\<lambda>p. addr < vm_end (vmas s p)) vs, s') \<and> areas s' m vs \<and>
    s' = s\<lparr>mms := mms s'\<rparr> \<and> pgdir (mms s' m) = pgdir (mms s m) \<and> (\<forall>k. k \<noteq> m \<longrightarrow> mms s' k = mms s k)"
proof -
  let ?f = "find (\<lambda>p. addr < vm_end (vmas s p)) vs"
  have loop: "find_vma_loop (mm_links s) (\<lambda>p. vm_end (vmas s p)) addr (MHead m) = Some ?f"
    using find_vma_loop_suffix [of "mm_links s" m "[]" vs] a by (simp add: areas_def)
  have "(case mmap_cache (mms s m) of
      Some c \<Rightarrow> if vm_start (vmas s c) \<le> addr \<and> vm_end (vmas s c) > addr then Some (Some c)
                 else find_vma_loop (mm_links s) (\<lambda>p. vm_end (vmas s p)) addr (MHead m)
    | None \<Rightarrow> find_vma_loop (mm_links s) (\<lambda>p. vm_end (vmas s p)) addr (MHead m)) = Some ?f"
  proof (cases "mmap_cache (mms s m)")
    case (Some c)
    then have "c \<in> set vs" using a by (simp add: areas_def)
    with areas_find [OF a this, of addr] Some loop show ?thesis by (simp add: in_area_def)
  qed (simp add: loop)
  then have e: "find_vma (Some m) addr s = (case ?f of
      Some p \<Rightarrow> Some (?f, upd_mm m (\<lambda>x. x\<lparr>mmap_cache := Some p\<rparr>) s) | None \<Rightarrow> Some (None, s))"
    by (simp add: find_vma_def split: option.splits)
  show ?thesis
  proof (cases ?f)
    case None
    with e a show ?thesis by (intro exI [of _ s]) simp
  next
    case (Some p)
    then have "p \<in> set vs" by (auto simp: find_Some_iff)
    then have "areas (upd_mm m (\<lambda>x. x\<lparr>mmap_cache := Some p\<rparr>) s) m vs" using a by (simp add: areas_def)
    with e Some show ?thesis
      by (intro exI [of _ "upd_mm m (\<lambda>x. x\<lparr>mmap_cache := Some p\<rparr>) s"]) (simp add: upd_mm_def)
  qed
qed

section \<open>Insertion\<close>

definition apart :: "vma_struct \<Rightarrow> vma_struct \<Rightarrow> bool" where
  "apart x y \<longleftrightarrow> vm_end x \<le> vm_start y \<or> vm_end y \<le> vm_start x"

lemma sorted_starts:
  assumes "\<forall>p \<in> set vs. vm_start (f p) < vm_end (f p)" and "sorted_wrt (\<lambda>p q. vm_end (f p) \<le> vm_start (f q)) vs"
  shows "sorted_wrt (\<lambda>p q. vm_start (f p) < vm_start (f q)) vs"
  using assms by (induction vs) (auto intro: less_le_trans)

lemma insert_vma_correct:
  fixes s :: "'z mstate_scheme"
  assumes a: "areas s m vs" and p: "p \<notin> set vs" "vm_start (vmas s p) < vm_end (vmas s p)"
    and dis: "\<forall>q \<in> set vs. apart (vmas s q) (vmas s p)"
  obtains s' us ws where "insert_vma_struct m p s = Some s'" and "vs = us @ ws" and "areas s' m (us @ p # ws)"
    and "\<And>q. q \<noteq> p \<Longrightarrow> vmas s' q = vmas s q" and "vm_start (vmas s' p) = vm_start (vmas s p)"
    and "vm_end (vmas s' p) = vm_end (vmas s p)" and "vm_flags (vmas s' p) = vm_flags (vmas s p)"
    and "pgdir (mms s' m) = pgdir (mms s m)" and "s' = s\<lparr>vmas := vmas s', mms := mms s', mm_links := mm_links s'\<rparr>"
proof -
  let ?A = "vmas s"
  define us where "us = takeWhile (\<lambda>q. vm_start (?A q) \<le> vm_start (?A p)) vs"
  define ws where "ws = dropWhile (\<lambda>q. vm_start (?A q) \<le> vm_start (?A p)) vs"
  have vs: "vs = us @ ws" by (simp add: us_def ws_def)
  have ne: "vm_start (?A q) < vm_end (?A q)" if "q \<in> set vs" for q using a that by (simp add: areas_def)
  have so: "sorted_wrt (\<lambda>p q. vm_end (?A p) \<le> vm_start (?A q)) (us @ ws)" using a by (simp add: areas_def vs)
  have st: "sorted_wrt (\<lambda>p q. vm_start (?A p) < vm_start (?A q)) (us @ ws)"
    using sorted_starts [of vs ?A] a by (simp add: areas_def vs)
  have lo: "vm_end (?A q) \<le> vm_start (?A p)" if "q \<in> set us" for q
  proof -
    have "vm_start (?A q) \<le> vm_start (?A p)" using that set_takeWhileD by (fastforce simp: us_def)
    moreover have "q \<in> set vs" using that vs by simp
    ultimately show ?thesis using dis p(2) by (fastforce simp: apart_def)
  qed
  have hi: "vm_end (?A p) \<le> vm_start (?A q)" if q: "q \<in> set ws" for q
  proof -
    obtain r rs where ws: "ws = r # rs" using q by (cases ws) auto
    have "\<not> vm_start (?A r) \<le> vm_start (?A p)" using ws hd_dropWhile [of "\<lambda>q. vm_start (?A q) \<le> vm_start (?A p)" vs]
      by (simp add: ws_def)
    moreover have "q = r \<or> vm_start (?A r) < vm_start (?A q)" using st q by (auto simp: ws sorted_wrt_append)
    ultimately have "vm_start (?A p) < vm_start (?A q)" by auto
    moreover have "q \<in> set vs" using q vs by simp
    ultimately show ?thesis using dis ne [of q] by (fastforce simp: apart_def)
  qed
  define prv where "prv = last (MHead m # map MVma us)"
  have r: "ring (mm_links s) (MHead m) (map MVma us @ map MVma ws)" using a by (simp add: areas_def vs)
  have sc: "insert_scan (mm_links s) (\<lambda>q. vm_start (?A q)) (vm_start (?A p)) (MHead m) = Some prv"
    using insert_scan_suffix [of "mm_links s" m "[]" vs "\<lambda>q. vm_start (?A q)" "vm_start (?A p)"] a
    by (simp add: areas_def us_def [symmetric] prv_def)
  have nx: "list_next (mm_links s) prv = hd (map MVma ws @ [MHead m])" unfolding prv_def by (rule ring_next [OF r])
  have c1: "(case prv of MVma q \<Rightarrow> check_vma_overlap (?A q) (?A p) | MHead _ \<Rightarrow> Some ()) = Some ()"
  proof (cases us rule: rev_cases)
    case (snoc us' q)
    then have "q \<in> set us" by simp
    with lo [of q] ne [of q] p(2) vs snoc show ?thesis by (simp add: prv_def check_vma_overlap_def kassert_def)
  qed (simp add: prv_def)
  have c2: "(case hd (map MVma ws @ [MHead m]) of MVma q \<Rightarrow> check_vma_overlap (?A p) (?A q) | MHead _ \<Rightarrow> Some ()) = Some ()"
  proof (cases ws)
    case (Cons q ws')
    with hi [of q] ne [of q] p(2) vs show ?thesis by (simp add: check_vma_overlap_def kassert_def)
  qed simp
  let ?s' = "upd_mm m (\<lambda>x. x\<lparr>map_count := map_count x + 1\<rparr>)
    ((upd_vma p (\<lambda>x. x\<lparr>vm_mm := Some m\<rparr>) s)\<lparr>mm_links := list_add_after prv (MVma p) (mm_links s)\<rparr>)"
  have ins: "insert_vma_struct m p s = Some ?s'"
    unfolding insert_vma_struct_def sc using p(2) c1 c2 by (simp add: nx Let_def)
  have eq: "vm_start (vmas ?s' q) = vm_start (?A q)" "vm_end (vmas ?s' q) = vm_end (?A q)" for q by simp_all
  have "ring (mm_links ?s') (MHead m) (map MVma (us @ p # ws))"
  proof -
    have "MVma p \<notin> set (MHead m # map MVma us @ map MVma ws)" using p(1) vs by auto
    from ring_add_after [OF r this] show ?thesis by (simp add: prv_def)
  qed
  moreover have "sorted_wrt (\<lambda>p q. vm_end (?A p) \<le> vm_start (?A q)) (us @ p # ws)"
    using so lo hi by (simp add: sorted_wrt_append)
  moreover have "\<forall>q \<in> set (us @ p # ws). vm_start (?A q) < vm_end (?A q)" using ne p(2) vs by auto
  moreover have "\<forall>c. mmap_cache (mms ?s' m) = Some c \<longrightarrow> c \<in> set (us @ p # ws)" using a vs by (auto simp: areas_def)
  moreover have "map_count (mms ?s' m) = int (length (us @ p # ws))" using a vs by (simp add: areas_def)
  ultimately have ar: "areas ?s' m (us @ p # ws)" unfolding areas_def eq by blast
  show ?thesis by (rule that [OF ins vs ar]) (simp_all add: upd_mm_def upd_vma_def)
qed

section \<open>Mapping an area\<close>

text \<open>\<^verbatim>\<open>kmalloc\<close> never returns the address of a live area.\<close>

definition fresh_vmas :: "'z mstate_scheme \<Rightarrow> nat list \<Rightarrow> bool" where
  "fresh_vmas s vs \<longleftrightarrow> (\<forall>p. kmalloc_ans s (kmalloc_pos s) = Some p \<longrightarrow> p \<notin> set vs)"

lemma areas_cong:
  assumes "mm_links s' = mm_links s" "mms s' m = mms s m"
    "\<And>p. p \<in> set vs \<Longrightarrow> vm_start (vmas s' p) = vm_start (vmas s p) \<and> vm_end (vmas s' p) = vm_end (vmas s p)"
  shows "areas s' m vs = areas s m vs"
proof -
  have "sorted_wrt (\<lambda>p q. vm_end (vmas s' p) \<le> vm_start (vmas s' q)) vs =
    sorted_wrt (\<lambda>p q. vm_end (vmas s p) \<le> vm_start (vmas s q)) vs"
    by (intro iffI; erule sorted_wrt_mono_rel [rotated]) (simp_all add: assms(3))
  then show ?thesis using assms by (auto simp: areas_def)
qed

lemma no_overlap_found:
  assumes a: "areas s m vs" and "st < fin"
    and f: "case find (\<lambda>p. st < vm_end (vmas s p)) vs of Some p \<Rightarrow> fin \<le> vm_start (vmas s p) | None \<Rightarrow> True"
    and q: "q \<in> set vs"
  shows "vm_end (vmas s q) \<le> st \<or> fin \<le> vm_start (vmas s q)"
proof (cases "find (\<lambda>p. st < vm_end (vmas s p)) vs")
  case None
  with q show ?thesis by (auto simp: find_None_iff not_less)
next
  case (Some p)
  then obtain i where i: "i < length vs" "st < vm_end (vmas s (vs ! i))" "p = vs ! i"
    "\<forall>j < i. \<not> st < vm_end (vmas s (vs ! j))" by (auto simp: find_Some_iff)
  obtain j where j: "j < length vs" "q = vs ! j" using q by (auto simp: in_set_conv_nth)
  consider "j < i" | "j = i" | "i < j" by linarith
  then show ?thesis
  proof cases
    case 1
    then show ?thesis using i(4) j by (auto simp: not_less)
  next
    case 2
    then show ?thesis using f Some i(3) j by simp
  next
    case 3
    have "vm_end (vmas s (vs ! i)) \<le> vm_start (vmas s (vs ! j))"
      using a 3 j(1) by (simp add: areas_def sorted_wrt_iff_nth_less)
    moreover have "vm_start (vmas s p) < vm_end (vmas s p)" using a i by (auto simp: areas_def)
    ultimately show ?thesis using f Some i(3) j(2) by auto
  qed
qed

lemma mm_map_correct:
  fixes s :: "'z mstate_scheme"
  assumes a: "areas s m vs" and fr: "fresh_vmas s vs"
  defines "st addr \<equiv> ROUNDDOWN_2N addr 12" and "fin addr len \<equiv> ROUNDUP_2N (addr + len) 12"
  shows "\<exists>r p s'. mm_map (Some m) addr len flags s = Some (r, p, s') \<and>
    (if \<not> USER_ACCESS (st addr) (fin addr len) \<or>
        (\<exists>q \<in> set vs. vm_start (vmas s q) < fin addr len \<and> st addr < vm_end (vmas s q))
     then r = - errno_of E_INVAL \<and> p = None \<and> areas s' m vs \<and> vmas s' = vmas s
     else if kmalloc_ans s (kmalloc_pos s) = None then r = - errno_of E_NO_MEM \<and> p = None \<and> areas s' m vs \<and> vmas s' = vmas s
     else r = 0 \<and> (\<exists>q us ws. p = Some q \<and> vs = us @ ws \<and> areas s' m (us @ q # ws) \<and>
       vm_start (vmas s' q) = st addr \<and> vm_end (vmas s' q) = fin addr len \<and> vm_flags (vmas s' q) = flags \<and>
       (\<forall>k. k \<noteq> q \<longrightarrow> vmas s' k = vmas s k)))"
proof (cases "USER_ACCESS (st addr) (fin addr len)")
  case False
  then show ?thesis using a by (simp add: mm_map_def st_def fin_def Let_def)
next
  case ua: True
  let ?S = "st addr" and ?F = "fin addr len"
  let ?f = "find (\<lambda>p. ?S < vm_end (vmas s p)) vs"
  have sf: "?S < ?F" using ua by (simp add: USER_ACCESS_def)
  obtain s1 where f: "find_vma (Some m) ?S s = Some (?f, s1)" "areas s1 m vs" "s1 = s\<lparr>mms := mms s1\<rparr>"
    using find_vma_correct [OF a] by blast
  have v1: "vmas s1 = vmas s" "kmalloc_ans s1 = kmalloc_ans s" "kmalloc_pos s1 = kmalloc_pos s"
    using arg_cong [OF f(3), of vmas] arg_cong [OF f(3), of kmalloc_ans] arg_cong [OF f(3), of kmalloc_pos] by simp_all
  let ?ov = "case ?f of Some p \<Rightarrow> ?F > vm_start (vmas s1 p) | None \<Rightarrow> False"
  have ov: "?ov \<longleftrightarrow> (\<exists>q \<in> set vs. vm_start (vmas s q) < ?F \<and> ?S < vm_end (vmas s q))"
  proof
    assume ?ov
    then show "\<exists>q \<in> set vs. vm_start (vmas s q) < ?F \<and> ?S < vm_end (vmas s q)"
      by (auto simp: v1 find_Some_iff split: option.splits)
  next
    assume h: "\<exists>q \<in> set vs. vm_start (vmas s q) < ?F \<and> ?S < vm_end (vmas s q)"
    show ?ov
    proof (rule ccontr)
      assume "\<not> ?ov"
      then have "case ?f of Some p \<Rightarrow> ?F \<le> vm_start (vmas s p) | None \<Rightarrow> True" by (auto simp: v1 not_less split: option.splits)
      from no_overlap_found [OF a sf this] h show False by fastforce
    qed
  qed
  have un: "mm_map (Some m) addr len flags s = (if ?ov then Some (- errno_of E_INVAL, None, s1)
     else (case vma_create ?S ?F flags s1 of
             (None, s2) \<Rightarrow> Some (- errno_of E_NO_MEM, None, s2)
           | (Some p, s2) \<Rightarrow> do { s3 \<leftarrow> insert_vma_struct m p s2; Some (0, Some p, s3) }))"
    unfolding mm_map_def Let_def st_def [symmetric] fin_def [symmetric] using ua f(1) by simp
  show ?thesis
  proof (cases ?ov)
    case True
    with un ov ua f(2) v1 show ?thesis by simp
  next
    case no: False
    have kn: "kmalloc_next s1 = (kmalloc_ans s (kmalloc_pos s), s1\<lparr>kmalloc_pos := kmalloc_pos s1 + 1\<rparr>)"
      by (simp add: kmalloc_next_def v1)
    show ?thesis
    proof (cases "kmalloc_ans s (kmalloc_pos s)")
      case None
      have "areas (s1\<lparr>kmalloc_pos := kmalloc_pos s1 + 1\<rparr>) m vs" using f(2) by (subst areas_cong [of _ s1]) simp_all
      with un no ov ua None kn v1 show ?thesis by (simp add: vma_create_def)
    next
      case (Some p)
      let ?s2 = "upd_vma p (\<lambda>x. x\<lparr>vm_start := ?S, vm_end := ?F, vm_flags := flags\<rparr>) (s1\<lparr>kmalloc_pos := kmalloc_pos s1 + 1\<rparr>)"
      have p: "p \<notin> set vs" using fr Some by (simp add: fresh_vmas_def)
      have a2: "areas ?s2 m vs" using f(2) p by (subst areas_cong [of _ s1]) auto
      have ap: "\<forall>q \<in> set vs. apart (vmas ?s2 q) (vmas ?s2 p)"
        using no ov p by (auto simp: apart_def v1 not_less)
      obtain s' us ws where i: "insert_vma_struct m p ?s2 = Some s'" "vs = us @ ws" "areas s' m (us @ p # ws)"
        "\<forall>q. q \<noteq> p \<longrightarrow> vmas s' q = vmas ?s2 q" "vm_start (vmas s' p) = vm_start (vmas ?s2 p)"
        "vm_end (vmas s' p) = vm_end (vmas ?s2 p)" "vm_flags (vmas s' p) = vm_flags (vmas ?s2 p)"
        by (rule insert_vma_correct [OF a2 p _ ap]) (use sf in auto)
      have "mm_map (Some m) addr len flags s = Some (0, Some p, s')"
        using un no Some kn i(1) by (simp add: vma_create_def)
      with i no ov ua Some show ?thesis
        by (intro exI [of _ 0] exI [of _ "Some p"] exI [of _ s']) (simp add: v1, blast)
    qed
  qed
qed

section \<open>The access check\<close>

text \<open>What the code requires of a single address: it lies in an area with the right permission, and a write does not
  touch the lowest page of a stack.\<close>

definition user_ok :: "bool \<Rightarrow> vma_struct \<Rightarrow> u32 \<Rightarrow> bool" where
  "user_ok write x a \<longleftrightarrow> in_area x a \<and> vm_flags x AND (if write then VM_WRITE else VM_READ) \<noteq> 0 \<and>
     \<not> (write \<and> vm_flags x AND VM_STACK \<noteq> 0 \<and> a < vm_start x + PGSIZE)"

lemma user_ok_later: "user_ok w x a \<Longrightarrow> a \<le> a' \<Longrightarrow> a' < vm_end x \<Longrightarrow> user_ok w x a'"
  unfolding user_ok_def in_area_def by (meson le_less_trans order_trans)

lemma user_mem_loop_correct:
  fixes s :: "'z mstate_scheme"
  assumes "areas s m vs"
  shows "\<exists>s'. user_mem_loop m write start fin s =
      Some (\<forall>a. start \<le> a \<and> a < fin \<longrightarrow> (\<exists>p \<in> set vs. user_ok write (vmas s p) a), s') \<and>
    areas s' m vs \<and> s' = s\<lparr>mms := mms s'\<rparr>"
  using assms
proof (induction "unat fin - unat start" arbitrary: start s rule: less_induct)
  case less
  show ?case
  proof (cases "start < fin")
    case False
    then have "\<forall>a. \<not> (start \<le> a \<and> a < fin)" using le_less_trans by blast
    with False less.prems show ?thesis by (subst user_mem_loop.simps) auto
  next
    case True
    let ?f = "find (\<lambda>p. start < vm_end (vmas s p)) vs"
    obtain s1 where f: "find_vma (Some m) start s = Some (?f, s1)" "areas s1 m vs" "s1 = s\<lparr>mms := mms s1\<rparr>"
      using find_vma_correct [OF less.prems] by blast
    have v1: "vmas s1 = vmas s" using arg_cong [OF f(3), of vmas] by simp
    have bad: "\<not> (\<forall>a. start \<le> a \<and> a < fin \<longrightarrow> (\<exists>p \<in> set vs. user_ok write (vmas s p) a))"
      if "\<forall>p \<in> set vs. \<not> user_ok write (vmas s p) start" using that True by blast
    show ?thesis
    proof (cases ?f)
      case None
      have "\<forall>p \<in> set vs. \<not> user_ok write (vmas s p) start" using None by (auto simp: find_None_iff user_ok_def in_area_def)
      from bad [OF this] show ?thesis using True f None by (subst user_mem_loop.simps) auto
    next
      case (Some p)
      then have p: "p \<in> set vs" "start < vm_end (vmas s p)" by (auto simp: find_Some_iff)
      have only: "q = p" if "q \<in> set vs" "user_ok write (vmas s q) start" for q
        using areas_find_start [OF less.prems Some that(1)] that(2) by (simp add: user_ok_def)
      show ?thesis
      proof (cases "user_ok write (vmas s p) start")
        case False
        then have "\<forall>q \<in> set vs. \<not> user_ok write (vmas s q) start" using only by blast
        from bad [OF this] show ?thesis using True f Some False p(2) v1
          by (subst user_mem_loop.simps) (auto simp: user_ok_def in_area_def not_le)
      next
        case ok: True
        have "unat fin - unat (vm_end (vmas s p)) < unat fin - unat start"
          using True p(2) by (simp add: word_less_nat_alt)
        from less.hyps [OF this f(2)] v1 obtain s2 where s2:
          "user_mem_loop m write (vm_end (vmas s p)) fin s1 = Some (\<forall>a. vm_end (vmas s p) \<le> a \<and> a < fin \<longrightarrow>
             (\<exists>p \<in> set vs. user_ok write (vmas s p) a), s2)" "areas s2 m vs" "s2 = s1\<lparr>mms := mms s2\<rparr>" by auto
        have "user_mem_loop m write start fin s = user_mem_loop m write (vm_end (vmas s p)) fin s1"
          using True f(1) Some ok v1 by (subst user_mem_loop.simps) (auto simp: user_ok_def in_area_def not_less)
        moreover have "(\<forall>a. vm_end (vmas s p) \<le> a \<and> a < fin \<longrightarrow> (\<exists>p \<in> set vs. user_ok write (vmas s p) a)) \<longleftrightarrow>
          (\<forall>a. start \<le> a \<and> a < fin \<longrightarrow> (\<exists>p \<in> set vs. user_ok write (vmas s p) a))"
        proof (intro iffI allI impI)
          fix a assume h: "\<forall>a. vm_end (vmas s p) \<le> a \<and> a < fin \<longrightarrow> (\<exists>p \<in> set vs. user_ok write (vmas s p) a)" "start \<le> a \<and> a < fin"
          show "\<exists>p \<in> set vs. user_ok write (vmas s p) a"
            using h user_ok_later [OF ok, of a] p(1) by (cases "a < vm_end (vmas s p)") (auto simp: not_less)
        next
          fix a assume h: "\<forall>a. start \<le> a \<and> a < fin \<longrightarrow> (\<exists>p \<in> set vs. user_ok write (vmas s p) a)" "vm_end (vmas s p) \<le> a \<and> a < fin"
          have "start \<le> a" using h(2) p(2) by auto
          with h show "\<exists>p \<in> set vs. user_ok write (vmas s p) a" by blast
        qed
        moreover have "s2 = s\<lparr>mms := mms s2\<rparr>" using s2(3) f(3) by (metis mstate.surjective mstate.update_convs(2))
        ultimately show ?thesis using s2(1,2) by (intro exI [of _ s2]) simp
      qed
    qed
  qed
qed

section \<open>Page faults\<close>

text \<open>The page table operations leave the records of the areas alone.\<close>

lemma pmm_vmem_more:
  fixes v v' :: "'z vmem_scheme"
  shows "pmm.more v' = pmm.more v \<Longrightarrow> vmem.more v' = vmem.more v"
  by (cases v; cases v'; simp)

lemma vmem_mstate_more:
  fixes s s' :: "'z mstate_scheme"
  assumes "vmem.more s' = vmem.more s"
  shows "vmas s' = vmas s" "mms s' = mms s" "mm_links s' = mm_links s" "kmalloc_ans s' = kmalloc_ans s" "kmalloc_pos s' = kmalloc_pos s"
  using assms by (cases s; cases s'; simp)+

lemma vmem_op_more [simp]:
  "vmem.more (kwrite a x v) = vmem.more v" "vmem.more (page_fill p f v) = vmem.more v" "vmem.more (tlb_flush v) = vmem.more v"
  by (simp_all add: kwrite_def page_fill_def tlb_flush_def)

lemma page_ref_more [simp]:
  "vmem.more (page_ref_inc p v) = vmem.more v" "vmem.more (page_ref_dec p v) = vmem.more v"
  by (rule pmm_vmem_more; simp add: page_ref_inc_def page_ref_dec_def)+

lemma alloc_one_more:
  assumes "alloc_pages 1 v = Some (r, v')"
  shows "vmem.more v' = vmem.more v"
proof -
  have g: "getorder 1 = Some 0" by (simp add: getorder_def getorder_loop.simps)
  obtain s1 where "buddy_alloc_search 0 0 v = Some (r, s1)" "v' = s1"
    using assms by (auto simp: alloc_pages_def buddy_alloc_pages_def g [simplified] buddy_alloc_pages_sub_def
        split: Option.bind_splits option.splits)
  then show ?thesis using buddy_alloc_search_more pmm_vmem_more by metis
qed

lemma get_pte_more:
  assumes "get_pte pd la c v = Some (r, v')"
  shows "vmem.more v' = vmem.more v"
  using assms
  by (auto simp: get_pte_def Let_def split: if_splits Option.bind_splits option.splits dest!: alloc_one_more [simplified])

lemma free_page_more: "free_pages p 1 v = Some v' \<Longrightarrow> vmem.more v' = vmem.more v"
  unfolding free_pages_def by (rule pmm_vmem_more) (rule free_one_more)

lemma page_remove_pte_more:
  assumes "page_remove_pte la r v = Some v'"
  shows "vmem.more v' = vmem.more v"
  using assms
  by (auto simp: page_remove_pte_def Let_def split: if_splits Option.bind_splits option.splits dest!: free_page_more [simplified])

lemma page_insert_more:
  assumes "page_insert pd p la perm v = Some (r, v')"
  shows "vmem.more v' = vmem.more v"
  using assms
  by (auto simp: page_insert_def Let_def split: if_splits Option.bind_splits option.splits
      dest!: get_pte_more page_remove_pte_more)

lemma vinv_alloc:
  fixes v v' :: "'z vmem_scheme"
  assumes inv: "vinv z b n F d v" and p: "p \<in> F" and v': "buddy_free_is z b n v' (F - {p})" "npage v' = npage v"
    "\<forall>q. pg_ref (pages v' q) = pg_ref (pages v q)" "kmem v' = kmem v"
  shows "vinv z b n (F - {p}) d v'" and "user_page b n (F - {p}) d v' p"
proof -
  note w = ref_change_view [OF v'(4)]
  have "b + n \<le> npage v \<and> npage v \<le> 2 ^ 19 \<and> d \<in> {b..<b + n} - F \<and> F \<subseteq> {b..<b + n} \<and> (\<forall>q \<in> F. pg_ref (pages v q) = 0)"
    using inv by (simp add: vinv_def)
  moreover have "\<forall>i. pde_on v d i \<longrightarrow> tab v d i \<in> {b..<b + n} - F - {d} \<and> PTE_ADDR (kmem v d i) = page2pa (tab v d i)"
    using inv by (simp add: vinv_def)
  ultimately show "vinv z b n (F - {p}) d v'" "user_page b n (F - {p}) d v' p"
    using inv v' p unfolding vinv_def user_page_def w v'(4) by auto
qed

lemma pgdir_alloc_page_correct:
  fixes v :: "'z vmem_scheme"
  assumes inv: "vinv z b n F d v" and on: "pde_on v d (unat (PDX la))" and z: "ent v d la = 0" and perm: "perm AND NOT 0xFFF = 0"
  shows "pgdir_alloc_page False (page2pa d) la perm v = Some (None, v) \<or>
    (\<exists>p v' F'. pgdir_alloc_page False (page2pa d) la perm v = Some (Some p, v') \<and> p \<in> F \<and> vinv z b n F' d v' \<and>
      (\<forall>la'. ent v' d la' = (if pn la' = pn la then page2pa p OR PTE_P OR perm else ent v d la')) \<and>
      pg_ref (pages v' p) = 1 \<and> vmem.more v' = vmem.more v)"
proof -
  have al: "buddy_free_is z b n v F" using inv by (simp add: vinv_def)
  show ?thesis
    using alloc_page_spec [OF al]
  proof (elim disjE exE conjE)
    assume "alloc_pages 1 v = Some (None, v)"
    then show ?thesis by (simp add: pgdir_alloc_page_def)
  next
    fix p v1 assume a: "alloc_pages 1 v = Some (Some p, v1)" "p \<in> F" and v1: "buddy_free_is z b n v1 (F - {p})" "npage v1 = npage v"
      "\<forall>q. pg_ref (pages v1 q) = pg_ref (pages v q)" "kmem v1 = kmem v"
    note i1 = vinv_alloc [OF inv a(2) v1] and w = ref_change_view [OF v1(4)]
    have on1: "pde_on v1 d (unat (PDX la))" and z1: "ent v1 d la = 0" and e1: "\<And>la. ent v1 d la = ent v d la"
      using on z by (simp_all add: w ent_def)
    have r1: "pg_ref (pages v1 p) = 0" using inv a(2) v1(3) by (auto simp: vinv_def)
    have m1: "vmem.more v1 = vmem.more v" by (rule alloc_one_more [OF a(1)])
    have "page_insert (page2pa d) p la perm v1 \<noteq> Some (- errno_of E_NO_MEM, v1)"
      using get_pte_on [OF i1(1) on1, of True] by (auto simp: page_insert_def errno_of_def Let_def split: if_splits Option.bind_splits)
    with page_insert_correct [OF i1 perm, of la] obtain v' F' where v': "page_insert (page2pa d) p la perm v1 = Some (0, v')" "vinv z b n F' d v'"
      "ent_at v' d = (ent_at v1 d)(unat (PDX la) := (ent_at v1 d (unat (PDX la)))(unat (PTX la) := page2pa p OR PTE_P OR perm))"
      "pg_ref (pages v' p) = pg_ref (pages v1 p) + (if ent v1 d la AND PTE_P \<noteq> 0 \<and> tgt (ent v1 d la) = p then 0 else 1)" by blast
    have "pgdir_alloc_page False (page2pa d) la perm v = Some (Some p, v')"
      using a(1) v'(1) by (simp add: pgdir_alloc_page_def kassert_def)
    moreover have "ent v' d la' = (if pn la' = pn la then page2pa p OR PTE_P OR perm else ent v d la')" for la'
      using ent_update [OF v'(3)] e1 by simp
    moreover have "vmem.more v' = vmem.more v" using page_insert_more [OF v'(1)] m1 by simp
    ultimately show ?thesis using a(2) v' r1 z1 by (intro disjI2 exI [of _ p] exI [of _ v'] exI [of _ F']) simp
  qed
qed

definition fault_allowed :: "u32 \<Rightarrow> vma_struct \<Rightarrow> u32 \<Rightarrow> bool" where
  "fault_allowed code x a \<longleftrightarrow> in_area x a \<and> code AND 3 \<noteq> 1 \<and>
     vm_flags x AND (if code AND 3 = 0 then VM_READ OR VM_EXEC else VM_WRITE) \<noteq> 0"

definition fault_perm :: "vma_struct \<Rightarrow> u32" where
  "fault_perm x = (if vm_flags x AND VM_WRITE \<noteq> 0 then PTE_U OR PTE_W else PTE_U)"

lemma vinv_same:
  fixes s :: "'y vmem_scheme" and s' :: "'z vmem_scheme"
  assumes "kmem s' = kmem s" "pages s' = pages s" "npage s' = npage s" "zones s' = zones s" "free_links s' = free_links s" "nr_free s' = nr_free s"
  shows "vinv z b n F d s' = vinv z b n F d s" "ent s' = ent s"
proof -
  note w = ref_change_view [OF assms(1)]
  have "buddy_free_is z b n s' F = buddy_free_is z b n s F" by (rule buddy_free_is_cong) (simp_all add: assms)
  then show "vinv z b n F d s' = vinv z b n F d s" unfolding vinv_def w assms by simp
  show "ent s' = ent s" by (intro ext) (simp add: ent_def w)
qed

lemma pn_ROUNDDOWN: "pn (ROUNDDOWN_2N a 12) = pn a"
  by (simp add: unat_ROUNDDOWN_2N)

lemma do_pgfault_correct:
  fixes s :: "'z mstate_scheme"
  assumes a: "areas s m vs" and inv: "vinv z b n F d s" and d: "pgdir (mms s m) = page2pa d"
  shows "\<exists>r s' F'. do_pgfault False (Some m) code addr s = Some (r, s') \<and> areas s' m vs \<and> vmas s' = vmas s \<and> vinv z b n F' d s' \<and>
    (if \<not> (\<exists>p \<in> set vs. fault_allowed code (vmas s p) addr) then r = - errno_of E_INVAL \<and> ent s' d = ent s d
     else r = - errno_of E_NO_MEM \<and> ent s' d = ent s d \<or>
       r = 0 \<and> ent s d addr = 0 \<and> (\<exists>p \<in> set vs. \<exists>q \<in> F. fault_allowed code (vmas s p) addr \<and> pg_ref (pages s' q) = 1 \<and>
         (\<forall>la. ent s' d la = (if pn la = pn addr then page2pa q OR PTE_P OR fault_perm (vmas s p) else ent s d la))))"
proof -
  let ?f = "find (\<lambda>p. addr < vm_end (vmas s p)) vs"
  obtain s1 where f: "find_vma (Some m) addr s = Some (?f, s1)" "areas s1 m vs" "s1 = s\<lparr>mms := mms s1\<rparr>" "pgdir (mms s1 m) = page2pa d"
    using find_vma_correct [OF a, of addr] d by auto
  define s2 where "s2 = s1\<lparr>pgfault_num := pgfault_num s1 + 1\<rparr>"
  have s2: "s2 = s\<lparr>mms := mms s1, pgfault_num := pgfault_num s1 + 1\<rparr>" unfolding s2_def by (subst f(3)) simp
  have v2: "vmas s2 = vmas s" "ent s2 = ent s" "vinv z b n F d s2" "pgdir (mms s2 m) = page2pa d"
    using vinv_same [of s2 s] inv f(4) by (simp_all add: s2)
  have a2: "areas s2 m vs" using f(2) by (subst areas_cong [of _ s1]) (simp_all add: s2_def)
  have v1: "vmas s1 = vmas s" "mms s2 = mms s1" using arg_cong [OF f(3), of vmas] by (simp_all add: s2_def)
  show ?thesis
  proof (cases "\<exists>p \<in> set vs. fault_allowed code (vmas s p) addr")
    case no: False
    have "do_pgfault False (Some m) code addr s = Some (- errno_of E_INVAL, s2)"
    proof (cases ?f)
      case None
      with f(1) show ?thesis by (simp add: do_pgfault_def s2_def)
    next
      case (Some p)
      then have "p \<in> set vs" "addr < vm_end (vmas s p)" by (auto simp: find_Some_iff)
      with no have "\<not> fault_allowed code (vmas s p) addr" by blast
      with Some f(1) \<open>addr < vm_end (vmas s p)\<close> v1 show ?thesis
        by (auto simp: do_pgfault_def s2_def [symmetric] Let_def fault_allowed_def in_area_def not_le split: if_splits)
    qed
    with no a2 v2 show ?thesis by auto
  next
    case yes: True
    then obtain p where p: "p \<in> set vs" "fault_allowed code (vmas s p) addr" by blast
    then have fp: "?f = Some p" using areas_find [OF a] by (simp add: fault_allowed_def)
    let ?la = "ROUNDDOWN_2N addr 12" and ?perm = "fault_perm (vmas s p)"
    have un: "do_pgfault False (Some m) code addr s = do {
        (ptep, s3) \<leftarrow> get_pte (page2pa d) ?la True s2;
        case ptep of
          None \<Rightarrow> Some (- errno_of E_NO_MEM, s3)
        | Some a \<Rightarrow>
            if kread s3 a = 0 then do {
              (r, s4) \<leftarrow> pgdir_alloc_page False (pgdir (mms s3 m)) ?la ?perm s3;
              Some (if r = None then (- errno_of E_NO_MEM, s4) else (0, s4)) }
            else Some (- errno_of E_NO_MEM, s3) }"
      using f(1,4) fp p(2) v1 v2(1)
      by (cases "code AND 3 = 0"; cases "vm_flags (vmas s p) AND VM_WRITE = 0")
        (simp_all add: do_pgfault_def s2_def [symmetric] Let_def fault_allowed_def in_area_def fault_perm_def kassert_def
          not_less [symmetric] cong: option.case_cong if_cong)
    show ?thesis
      using get_pte_any [OF v2(3), of ?la]
    proof (elim disjE exE conjE)
      assume "get_pte (page2pa d) ?la True s2 = Some (None, s2)"
      with un yes a2 v2 show ?thesis by auto
    next
      fix s3 F3 assume g: "get_pte (page2pa d) ?la True s2 = Some (Some (entp s3 d ?la), s3)" and i3: "vinv z b n F3 d s3"
        and F3: "F3 \<subseteq> F" and e3: "ent_at s3 d = ent_at s2 d" and on: "pde_on s3 d (unat (PDX ?la))"
      note m3 = vmem_mstate_more [OF get_pte_more [OF g]]
      have a3: "areas s3 m vs" using a2 by (subst areas_cong [of _ s2]) (simp_all add: m3)
      have ent3: "ent s3 d la = ent s d la" for la using v2(2) by (simp add: ent_def e3 fun_eq_iff)
      have k: "kread s3 (entp s3 d ?la) = ent s d addr"
        using entp_access(3) [OF i3 on] ent_same_page [OF pn_ROUNDDOWN] ent3 by metis
      have pd: "pgdir (mms s3 m) = page2pa d" using v2(4) by (simp add: m3)
      show ?thesis
      proof (cases "ent s d addr = 0")
        case False
        with un g k have "do_pgfault False (Some m) code addr s = Some (- errno_of E_NO_MEM, s3)" by simp
        with a3 i3 yes ent3 v2(1) m3 show ?thesis by (auto simp: fun_eq_iff)
      next
        case z: True
        have z3: "ent s3 d ?la = 0" using z ent3 ent_same_page [OF pn_ROUNDDOWN] by metis
        have perm: "?perm AND NOT 0xFFF = 0" by (simp add: fault_perm_def PTE_bits)
        show ?thesis
          using pgdir_alloc_page_correct [OF i3 on z3 perm]
        proof (elim disjE exE conjE)
          assume "pgdir_alloc_page False (page2pa d) ?la ?perm s3 = Some (None, s3)"
          then have "do_pgfault False (Some m) code addr s = Some (- errno_of E_NO_MEM, s3)" using un g k z pd by simp
          with a3 i3 yes ent3 v2(1) m3 show ?thesis by (auto simp: fun_eq_iff)
        next
          fix q s4 F4 assume q: "pgdir_alloc_page False (page2pa d) ?la ?perm s3 = Some (Some q, s4)" "q \<in> F3" "vinv z b n F4 d s4"
            "\<forall>la'. ent s4 d la' = (if pn la' = pn ?la then page2pa q OR PTE_P OR ?perm else ent s3 d la')"
            "pg_ref (pages s4 q) = 1" "vmem.more s4 = vmem.more s3"
          note m4 = vmem_mstate_more [OF q(6)]
          have "do_pgfault False (Some m) code addr s = Some (0, s4)" using un g k z pd q(1) by simp
          moreover have "areas s4 m vs" using a3 by (subst areas_cong [of _ s3]) (simp_all add: m4)
          moreover have "\<forall>la. ent s4 d la = (if pn la = pn addr then page2pa q OR PTE_P OR ?perm else ent s d la)"
            using q(4) unfolding pn_ROUNDDOWN ent3 .
          ultimately show ?thesis
            using q(2,3,5) F3 p z yes v2(1) m3(1) m4(1) by (intro exI [of _ 0] exI [of _ s4] exI [of _ F4]) (simp, blast)
        qed
      qed
    qed
  qed
qed

section \<open>Properties\<close>

definition demo_ms :: mstate where
  "demo_ms = vmem.extend demo_vm
     \<lparr>vmas = (\<lambda>_. \<lparr>vm_mm = Some 1, vm_start = 0x10400000, vm_end = 0x10402000, vm_flags = 3\<rparr>),
      mms = (\<lambda>_. \<lparr>mmap_cache = None, pgdir = page2pa 300, map_count = 1, mm_count = 1, mm_sem = 1\<rparr>),
      mm_links = \<lparr>le_prev = (\<lambda>c. if c = MHead 1 then MVma 5 else MHead 1), le_next = (\<lambda>c. if c = MHead 1 then MVma 5 else MHead 1)\<rparr>,
      kmalloc_ans = (\<lambda>_. Some 6), kmalloc_pos = 0, kfreed = [], kmemsize = 0x2000000, pgfault_num = 0\<rparr>"

lemma demo_ms_areas: "areas demo_ms 1 [5]"
  by (simp add: areas_def demo_ms_def vmem.defs ring_def linked_def)

lemma demo_ms_inv: "vinv 0 300 7892 {} 300 demo_ms" "pgdir (mms demo_ms 1) = page2pa 300"
  using demo_vm_inv vinv_same(1) [of demo_ms demo_vm] by (simp_all add: demo_ms_def vmem.defs)

text \<open>
  C21: \<^verbatim>\<open>mm_map\<close> keeps the areas of an address space sorted, non-empty and disjoint, and never
  panics. It refuses with \<^verbatim>\<open>-E_INVAL\<close> exactly the ranges that leave the user half or overlap an
  area, with \<^verbatim>\<open>-E_NO_MEM\<close> when no record can be allocated, and in both cases no area changes;
  otherwise it returns 0 and the page-aligned range is one area more, with the given flags.\<close>

theorem mm_map_disjoint:
  fixes s :: "'z mstate_scheme"
  assumes "areas s m vs" and "fresh_vmas s vs"
  shows "\<exists>r p s'. mm_map (Some m) addr len flags s = Some (r, p, s') \<and>
    (if \<not> USER_ACCESS (ROUNDDOWN_2N addr 12) (ROUNDUP_2N (addr + len) 12) \<or>
        (\<exists>q \<in> set vs. vm_start (vmas s q) < ROUNDUP_2N (addr + len) 12 \<and> ROUNDDOWN_2N addr 12 < vm_end (vmas s q))
     then r = - errno_of E_INVAL \<and> p = None \<and> areas s' m vs \<and> vmas s' = vmas s
     else if kmalloc_ans s (kmalloc_pos s) = None then r = - errno_of E_NO_MEM \<and> p = None \<and> areas s' m vs \<and> vmas s' = vmas s
     else r = 0 \<and> (\<exists>q us ws. p = Some q \<and> vs = us @ ws \<and> areas s' m (us @ q # ws) \<and>
       vm_start (vmas s' q) = ROUNDDOWN_2N addr 12 \<and> vm_end (vmas s' q) = ROUNDUP_2N (addr + len) 12 \<and>
       vm_flags (vmas s' q) = flags \<and> (\<forall>k. k \<noteq> q \<longrightarrow> vmas s' k = vmas s k)))"
  by (rule mm_map_correct [OF assms])

theorem mm_map_disjoint_witness:
  "\<exists>p s'. mm_map (Some 1) 0x10402004 0x10 2 demo_ms = Some (0, p, s')"
proof -
  have "fresh_vmas demo_ms [5]" by (simp add: fresh_vmas_def demo_ms_def vmem.defs)
  from mm_map_disjoint [OF demo_ms_areas this, of "0x10402004" "0x10" 2] show ?thesis
    by (auto simp: USER_ACCESS_def demo_ms_def vmem.defs word_less_nat_alt word_le_nat_alt unat_ROUNDDOWN_2N unat_ROUNDUP_2N)
qed

text \<open>
  C20: the check the kernel runs before it touches a user buffer is exact. For a process it always
  returns, and accepts the range of \<open>len\<close> bytes if and only if the range is non-empty, lies in the
  user half without wrapping around, and every single byte of it lies in an area with the wanted
  permission (and, for a write, above the guard page of a stack). The areas are unchanged.\<close>

theorem user_mem_check_exact:
  fixes s :: "'z mstate_scheme"
  assumes "areas s m vs"
  shows "\<exists>s'. user_mem_check (Some m) addr len write s =
      Some (USER_ACCESS addr (addr + len) \<and>
        (\<forall>a. addr \<le> a \<and> a < addr + len \<longrightarrow> (\<exists>p \<in> set vs. user_ok write (vmas s p) a)), s') \<and>
    areas s' m vs \<and> vmas s' = vmas s"
proof -
  obtain s' where s': "user_mem_loop m write addr (addr + len) s =
      Some (\<forall>a. addr \<le> a \<and> a < addr + len \<longrightarrow> (\<exists>p \<in> set vs. user_ok write (vmas s p) a), s')"
    "areas s' m vs" "s' = s\<lparr>mms := mms s'\<rparr>"
    using user_mem_loop_correct [OF assms] by blast
  moreover have "vmas s' = vmas s" using arg_cong [OF s'(3), of vmas] by simp
  ultimately show ?thesis using assms by (cases "USER_ACCESS addr (addr + len)") (auto simp: user_mem_check_def)
qed

theorem user_mem_check_exact_witness:
  "\<exists>s'. user_mem_check (Some 1) 0x10401FFF 2 True demo_ms = Some (False, s')"
proof -
  have "\<not> user_ok True (vmas demo_ms 5) 0x10402000" by (simp add: user_ok_def in_area_def demo_ms_def vmem.defs)
  then have "\<not> (\<forall>a. 0x10401FFF \<le> a \<and> a < 0x10401FFF + 2 \<longrightarrow> (\<exists>p \<in> set [5]. user_ok True (vmas demo_ms p) a))"
    by (auto intro: exI [of _ "0x10402000"])
  then have "(USER_ACCESS 0x10401FFF (0x10401FFF + 2) \<and>
      (\<forall>a. 0x10401FFF \<le> a \<and> a < 0x10401FFF + 2 \<longrightarrow> (\<exists>p \<in> set [5]. user_ok True (vmas demo_ms p) a))) = False" by blast
  then show ?thesis using user_mem_check_exact [OF demo_ms_areas, of "0x10401FFF" 2 True] by (simp only:) blast
qed

text \<open>
  C17: a page fault maps exactly the faulting page, and only where the areas allow it. With well
  formed areas and tables \<^verbatim>\<open>do_pgfault\<close> never panics and keeps both well formed. If no area allows
  the access, it returns \<^verbatim>\<open>-E_INVAL\<close> and no entry changes. Otherwise it returns \<^verbatim>\<open>-E_NO_MEM\<close> with no
  entry changed, or it returns 0: the entry of the faulting page was empty, it is now a page that
  was free, with the permission of the area and a reference count of one, and all other entries are
  as before.\<close>

theorem do_pgfault_maps:
  fixes s :: "'z mstate_scheme"
  assumes "areas s m vs" and "vinv z b n F d s" and "pgdir (mms s m) = page2pa d"
  shows "\<exists>r s' F'. do_pgfault False (Some m) code addr s = Some (r, s') \<and> areas s' m vs \<and> vmas s' = vmas s \<and> vinv z b n F' d s' \<and>
    (if \<not> (\<exists>p \<in> set vs. fault_allowed code (vmas s p) addr) then r = - errno_of E_INVAL \<and> ent s' d = ent s d
     else r = - errno_of E_NO_MEM \<and> ent s' d = ent s d \<or>
       r = 0 \<and> ent s d addr = 0 \<and> (\<exists>p \<in> set vs. \<exists>q \<in> F. fault_allowed code (vmas s p) addr \<and> pg_ref (pages s' q) = 1 \<and>
         (\<forall>la. ent s' d la = (if pn la = pn addr then page2pa q OR PTE_P OR fault_perm (vmas s p) else ent s d la))))"
  by (rule do_pgfault_correct [OF assms])

theorem do_pgfault_maps_witness:
  "\<exists>s' F'. do_pgfault False (Some 1) 2 0x10403000 demo_ms = Some (- errno_of E_INVAL, s') \<and> vinv 0 300 7892 F' 300 s' \<and>
     ent s' 300 = ent demo_ms 300"
proof -
  have "\<not> (\<exists>p \<in> set [5]. fault_allowed 2 (vmas demo_ms p) 0x10403000)"
    by (simp add: fault_allowed_def in_area_def demo_ms_def vmem.defs)
  with do_pgfault_maps [OF demo_ms_areas demo_ms_inv, of 2 "0x10403000"] show ?thesis by metis
qed

end
