(* ===== verification/Disk.thy ===== *)
theory Disk
  imports Klib CString "HOL-Library.Signed_Division"
begin

text \<open>
  The path from a block request to the disk: the transfer buffers of \<^verbatim>\<open>kern/fs/iobuf.c\<close>, the RAM
  disk (\<^verbatim>\<open>kern/driver/ramdisk.c\<close>) behind the device table of \<^verbatim>\<open>kern/driver/ide.c\<close>, and the block
  device \<^verbatim>\<open>disk0\<close> (\<^verbatim>\<open>kern/fs/devs/dev_disk0.c\<close>). The caller's buffer, the bounce buffer
  \<^verbatim>\<open>disk0_buffer\<close> and the disk image are separate allocations, so each is a memory of its own and
  a pointer into it is an offset; \<open>obj_copy\<close> is \<^verbatim>\<open>memcpy\<close> and \<^verbatim>\<open>memmove\<close> between two of them.
  Offsets of type \<^verbatim>\<open>off_t\<close> are 32-bit words read as signed numbers.
\<close>

section \<open>Buffers\<close>

text \<open>Signed division and remainder of C, which round towards zero.\<close>

definition c_div :: "u32 \<Rightarrow> u32 \<Rightarrow> u32" where
  "c_div a b = word_of_int (sint a sdiv sint b)"

definition c_mod :: "u32 \<Rightarrow> u32 \<Rightarrow> u32" where
  "c_mod a b = word_of_int (sint a smod sint b)"

definition obj_copy :: "nat \<Rightarrow> nat \<Rightarrow> nat \<Rightarrow> mem \<Rightarrow> mem \<Rightarrow> mem" where
  "obj_copy d s n src dst = (\<lambda>a. if d \<le> a \<and> a < d + n then src (s + (a - d)) else dst a)"

record iobuf =
  io_base :: nat
  io_offset :: u32
  io_len :: u32
  io_resid :: u32

definition iobuf_used :: "iobuf \<Rightarrow> u32" where
  "iobuf_used iob = io_len iob - io_resid iob"

definition iobuf_init :: "nat \<Rightarrow> u32 \<Rightarrow> u32 \<Rightarrow> iobuf" where
  "iobuf_init base len offset = \<lparr>io_base = base, io_offset = offset, io_len = len, io_resid = len\<rparr>"

definition iobuf_skip :: "u32 \<Rightarrow> iobuf \<Rightarrow> iobuf kernel" where
  "iobuf_skip n iob = do {
     kassert (io_resid iob \<ge> n);
     Some (iob\<lparr>io_base := io_base iob + unat n, io_offset := io_offset iob + n, io_resid := io_resid iob - n\<rparr>)
   }"

text \<open>
  \<open>m\<close> is the memory the buffer points into, \<open>data\<close> the other object. The result is the return
  value, the count stored through \<^verbatim>\<open>copiedp\<close>, and the new buffer and memories.
\<close>

definition iobuf_move :: "u32 \<Rightarrow> bool \<Rightarrow> iobuf \<Rightarrow> mem \<Rightarrow> mem \<Rightarrow> (int \<times> u32 \<times> iobuf \<times> mem \<times> mem) kernel" where
  "iobuf_move len m2b iob m data =
     (let alen = (if io_resid iob > len then len else io_resid iob)
      in do {
        (iob', m', data') \<leftarrow>
          (if alen > 0 then do {
             iob' \<leftarrow> iobuf_skip alen iob;
             Some (if m2b then (iob', obj_copy (io_base iob) 0 (unat alen) data m, data)
                   else (iob', m, obj_copy 0 (io_base iob) (unat alen) m data))
           }
           else Some (iob, m, data));
        Some (if len - alen = 0 then 0 else - errno_of E_NO_MEM, alen, iob', m', data')
      })"

definition iobuf_move_zeros :: "u32 \<Rightarrow> iobuf \<Rightarrow> mem \<Rightarrow> (int \<times> u32 \<times> iobuf \<times> mem) kernel" where
  "iobuf_move_zeros len iob m =
     (let alen = (if io_resid iob > len then len else io_resid iob)
      in do {
        (iob', m') \<leftarrow>
          (if alen > 0 then do {
             iob' \<leftarrow> iobuf_skip alen iob;
             Some (iob', snd (memset (io_base iob) 0 (unat alen) m))
           }
           else Some (iob, m));
        Some (if len - alen = 0 then 0 else - errno_of E_NO_MEM, alen, iob', m')
      })"

section \<open>The RAM disk\<close>

record disk =
  ide_valid :: bool
  rd_size :: u32
  rd :: mem
  d_blocks :: u32
  disk0_buffer :: mem
  disk0_sem :: int

abbreviation (input) SECTSIZE :: u32 where "SECTSIZE \<equiv> 512"

text \<open>Both transfer between offset 0 of the given object and the image; the test \<^verbatim>\<open>nsecs < 0\<close> is on
  an unsigned number.\<close>

definition ramdisk_read :: "u32 \<Rightarrow> u32 \<Rightarrow> mem \<Rightarrow> 'z disk_scheme \<Rightarrow> int \<times> mem" where
  "ramdisk_read secno nsecs dst d =
     (let nsecs' = (if nsecs < rd_size d - secno then nsecs else rd_size d - secno)
      in (0, obj_copy 0 (unat (secno * SECTSIZE)) (unat (nsecs' * SECTSIZE)) (rd d) dst))"

definition ramdisk_write :: "u32 \<Rightarrow> u32 \<Rightarrow> mem \<Rightarrow> 'z disk_scheme \<Rightarrow> int \<times> 'z disk_scheme" where
  "ramdisk_write secno nsecs src d =
     (let nsecs' = (if nsecs < rd_size d - secno then nsecs else rd_size d - secno)
      in (0, d\<lparr>rd := obj_copy (unat (secno * SECTSIZE)) 0 (unat (nsecs' * SECTSIZE)) src (rd d)\<rparr>))"

definition ide_device_valid :: "'z disk_scheme \<Rightarrow> bool" where
  "ide_device_valid d = ide_valid d"

definition ide_device_size :: "'z disk_scheme \<Rightarrow> u32" where
  "ide_device_size d = (if ide_device_valid d then rd_size d else 0)"

definition ide_read_secs :: "u32 \<Rightarrow> u32 \<Rightarrow> mem \<Rightarrow> 'z disk_scheme \<Rightarrow> int \<times> mem" where
  "ide_read_secs secno nsecs dst d = (if ide_valid d then ramdisk_read secno nsecs dst d else (0, dst))"

definition ide_write_secs :: "u32 \<Rightarrow> u32 \<Rightarrow> mem \<Rightarrow> 'z disk_scheme \<Rightarrow> int \<times> 'z disk_scheme" where
  "ide_write_secs secno nsecs src d = (if ide_valid d then ramdisk_write secno nsecs src d else (0, d))"

section \<open>The device disk0\<close>

text \<open>\<open>None\<close> is a panic, or a thread that waits for a lock it holds itself.\<close>

definition sem_take :: "int \<Rightarrow> int kernel" where
  "sem_take v = (if v > 0 then Some (v - 1) else None)"

definition lock_disk0 :: "'z disk_scheme \<Rightarrow> 'z disk_scheme kernel" where
  "lock_disk0 d = do { v \<leftarrow> sem_take (disk0_sem d); Some (d\<lparr>disk0_sem := v\<rparr>) }"

definition unlock_disk0 :: "'z disk_scheme \<Rightarrow> 'z disk_scheme" where
  "unlock_disk0 d = d\<lparr>disk0_sem := disk0_sem d + 1\<rparr>"

definition disk0_read_blks_nolock :: "u32 \<Rightarrow> u32 \<Rightarrow> 'z disk_scheme \<Rightarrow> 'z disk_scheme kernel" where
  "disk0_read_blks_nolock blkno nblks d =
     (let (ret, buf) = ide_read_secs (blkno * 8) (nblks * 8) (disk0_buffer d) d
      in if ret \<noteq> 0 then panic else Some (d\<lparr>disk0_buffer := buf\<rparr>))"

definition disk0_write_blks_nolock :: "u32 \<Rightarrow> u32 \<Rightarrow> 'z disk_scheme \<Rightarrow> 'z disk_scheme kernel" where
  "disk0_write_blks_nolock blkno nblks d =
     (let (ret, d') = ide_write_secs (blkno * 8) (nblks * 8) (disk0_buffer d) d
      in if ret \<noteq> 0 then panic else Some d')"

abbreviation (input) DISK0_BLKSIZE :: u32 where "DISK0_BLKSIZE \<equiv> 4096"
abbreviation (input) DISK0_BUFSIZE :: u32 where "DISK0_BUFSIZE \<equiv> 16384"

partial_function (option) disk0_loop :: "bool \<Rightarrow> u32 \<Rightarrow> u32 \<Rightarrow> iobuf \<Rightarrow> mem \<Rightarrow> 'z disk_scheme \<Rightarrow> (iobuf \<times> mem \<times> 'z disk_scheme) kernel" where
  "disk0_loop write resid blkno iob m d =
     (if resid = 0 then Some (iob, m, d)
      else if write then do {
        (_, copied, iob1, m1, buf) \<leftarrow> iobuf_move DISK0_BUFSIZE False iob m (disk0_buffer d);
        kassert (copied \<noteq> 0 \<and> copied \<le> resid \<and> copied mod DISK0_BLKSIZE = 0);
        let nblks = copied div DISK0_BLKSIZE;
        d1 \<leftarrow> disk0_write_blks_nolock blkno nblks (d\<lparr>disk0_buffer := buf\<rparr>);
        disk0_loop write (resid - copied) (blkno + nblks) iob1 m1 d1
      }
      else do {
        let alen = (if DISK0_BUFSIZE > resid then resid else DISK0_BUFSIZE);
        let nblks = alen div DISK0_BLKSIZE;
        d1 \<leftarrow> disk0_read_blks_nolock blkno nblks d;
        (_, copied, iob1, m1, buf) \<leftarrow> iobuf_move alen True iob m (disk0_buffer d1);
        kassert (copied = alen \<and> copied mod DISK0_BLKSIZE = 0);
        disk0_loop write (resid - copied) (blkno + nblks) iob1 m1 (d1\<lparr>disk0_buffer := buf\<rparr>)
      })"

definition disk0_io :: "bool \<Rightarrow> iobuf \<Rightarrow> mem \<Rightarrow> 'z disk_scheme \<Rightarrow> (int \<times> iobuf \<times> mem \<times> 'z disk_scheme) kernel" where
  "disk0_io write iob m d =
     (let offset = io_offset iob; resid = io_resid iob; blkno = c_div offset DISK0_BLKSIZE; nblks = resid div DISK0_BLKSIZE
      in if c_mod offset DISK0_BLKSIZE \<noteq> 0 \<or> resid mod DISK0_BLKSIZE \<noteq> 0 then Some (- errno_of E_INVAL, iob, m, d)
         else if blkno + nblks > d_blocks d then Some (- errno_of E_INVAL, iob, m, d)
         else if nblks = 0 then Some (0, iob, m, d)
         else do {
           d1 \<leftarrow> lock_disk0 d;
           (iob', m', d2) \<leftarrow> disk0_loop write resid blkno iob m d1;
           Some (0, iob', m', unlock_disk0 d2)
         })"

definition disk0_open :: "u32 \<Rightarrow> int" where
  "disk0_open open_flags = 0"

definition disk0_close :: "int" where
  "disk0_close = 0"

definition disk0_ioctl :: "int \<Rightarrow> int" where
  "disk0_ioctl op = - errno_of E_UNIMP"

text \<open>The part of \<^verbatim>\<open>disk0_device_init\<close> that sets up the device; \<open>buf\<close> is the answer of \<^verbatim>\<open>kmalloc\<close>.\<close>

definition disk0_device_init :: "mem option \<Rightarrow> 'z disk_scheme \<Rightarrow> 'z disk_scheme kernel" where
  "disk0_device_init buf d =
     (if \<not> ide_device_valid d then panic
      else do { b \<leftarrow> buf; Some (d\<lparr>d_blocks := ide_device_size d div 8, disk0_sem := 1, disk0_buffer := b\<rparr>) })"

section \<open>What the device does\<close>

lemma sint_small:
  fixes x :: u32
  assumes "unat x < 2 ^ 31"
  shows "sint x = uint x"
proof -
  have "uint x < 2 ^ 31" using assms by (simp add: uint_nat del: of_nat_unat)
  moreover have "- (2 ^ 31) \<le> uint x" by (rule order_trans [of _ 0]) simp_all
  ultimately show ?thesis by (simp add: sint_uint signed_take_bit_int_eq_self)
qed

lemma c_div_mod_nonneg:
  assumes "unat a < 2 ^ 31" and "unat b < 2 ^ 31"
  shows "c_div a b = a div b" and "c_mod a b = a mod b"
  using assms
  by (simp_all add: c_div_def c_mod_def sint_small signed_divide_int_def signed_modulo_int_def word_div_def word_mod_def)

lemma obj_copy_append:
  "obj_copy (d + k) (s + k) n src (obj_copy d s k src dst) = obj_copy d s (k + n) src dst"
  by (rule ext) (auto simp: obj_copy_def)

lemma obj_copy_trans:
  "n \<le> k \<Longrightarrow> obj_copy d 0 n (obj_copy 0 s k src buf) dst = obj_copy d s n src dst"
  by (rule ext) (auto simp: obj_copy_def)

lemma obj_copy_0 [simp]: "obj_copy d s 0 src dst = dst"
  by (rule ext) (auto simp: obj_copy_def)

text \<open>A disk whose size in blocks is the one announced, and small enough for signed offsets.\<close>

definition disk_ok :: "'z disk_scheme \<Rightarrow> bool" where
  "disk_ok d \<longleftrightarrow> ide_valid d \<and> 8 * unat (d_blocks d) \<le> unat (rd_size d) \<and> unat (d_blocks d) < 2 ^ 19 \<and> disk0_sem d = 1"

lemma block_sectors:
  assumes b: "8 * unat (d_blocks d) \<le> unat (rd_size d)" "unat (d_blocks d) < 2 ^ 19"
    and assms: "unat blkno + unat n \<le> unat (d_blocks d)" "0 < unat n"
  shows "unat (blkno * 8 * 512) = unat blkno * 4096"
    and "unat ((if n * 8 < rd_size d - blkno * 8 then n * 8 else rd_size d - blkno * 8) * 512) = unat n * 4096"
proof -
  have 1: "unat (blkno * 8) = unat blkno * 8" "unat (n * 8) = unat n * 8" using assms b by (subst unat_mult_u32; simp)+
  then show "unat (blkno * 8 * 512) = unat blkno * 4096" using assms b by (subst unat_mult_u32) simp_all
  have "unat (rd_size d - blkno * 8) = unat (rd_size d) - unat blkno * 8" using 1 assms b by (subst unat_sub) (simp_all add: word_le_nat_alt)
  then have "unat (if n * 8 < rd_size d - blkno * 8 then n * 8 else rd_size d - blkno * 8) = unat n * 8"
    using 1 assms b by (auto simp: word_less_nat_alt)
  then show "unat ((if n * 8 < rd_size d - blkno * 8 then n * 8 else rd_size d - blkno * 8) * 512) = unat n * 4096"
    using assms b by (subst unat_mult_u32) simp_all
qed

lemma disk0_blks:
  assumes "ide_valid d" "8 * unat (d_blocks d) \<le> unat (rd_size d)" "unat (d_blocks d) < 2 ^ 19"
    and "unat blkno + unat n \<le> unat (d_blocks d)" and "0 < unat n"
  shows "disk0_read_blks_nolock blkno n d =
      Some (d\<lparr>disk0_buffer := obj_copy 0 (unat blkno * 4096) (unat n * 4096) (rd d) (disk0_buffer d)\<rparr>)"
    and "disk0_write_blks_nolock blkno n d =
      Some (d\<lparr>rd := obj_copy (unat blkno * 4096) 0 (unat n * 4096) (disk0_buffer d) (rd d)\<rparr>)"
  unfolding disk0_read_blks_nolock_def disk0_write_blks_nolock_def ide_read_secs_def ide_write_secs_def
    ramdisk_read_def ramdisk_write_def Let_def block_sectors [OF assms(2-5)]
  using assms(1) by simp_all

definition iob_after :: "u32 \<Rightarrow> iobuf \<Rightarrow> iobuf" where
  "iob_after n iob = iob\<lparr>io_base := io_base iob + unat n, io_offset := io_offset iob + n, io_resid := io_resid iob - n\<rparr>"

lemma iob_after_step:
  assumes "unat a + unat b < 2 ^ 32"
  shows "iob_after b (iob_after a iob) = iob_after (a + b) iob"
  using assms unat_add_u32 [of a b] by (simp add: iob_after_def algebra_simps)

lemma iobuf_move_block:
  assumes "n \<noteq> 0" and "n \<le> len" and "io_resid iob \<ge> n" and "io_resid iob = n \<or> len = n"
  shows "iobuf_move len False iob m data = Some (if len = n then 0 else - errno_of E_NO_MEM, n, iob_after n iob, m, obj_copy 0 (io_base iob) (unat n) m data)"
    and "iobuf_move len True iob m data = Some (if len = n then 0 else - errno_of E_NO_MEM, n, iob_after n iob, obj_copy (io_base iob) 0 (unat n) data m, data)"
proof -
  have "(if io_resid iob > len then len else io_resid iob) = n" using assms(2-4) by auto
  moreover have "n > 0" using assms(1) by (simp add: word_greater_zero_iff)
  ultimately show "iobuf_move len False iob m data = Some (if len = n then 0 else - errno_of E_NO_MEM, n, iob_after n iob, m, obj_copy 0 (io_base iob) (unat n) m data)"
    "iobuf_move len True iob m data = Some (if len = n then 0 else - errno_of E_NO_MEM, n, iob_after n iob, obj_copy (io_base iob) 0 (unat n) data m, data)"
    unfolding iobuf_move_def Let_def iobuf_skip_def iob_after_def using assms(3) by simp_all
qed

text \<open>The piece of a request that one round of the loop moves.\<close>

lemma loop_piece:
  fixes resid :: u32
  assumes "unat resid mod 4096 = 0" and "resid \<noteq> 0"
  defines "n \<equiv> (if DISK0_BUFSIZE > resid then resid else DISK0_BUFSIZE)"
  shows "n \<noteq> 0" "n \<le> resid" "n \<le> DISK0_BUFSIZE" "n mod DISK0_BLKSIZE = 0" "resid = n \<or> DISK0_BUFSIZE = n"
    and "unat (resid - n) = unat resid - unat n" "unat (resid - n) mod 4096 = 0" "unat (n div DISK0_BLKSIZE) * 4096 = unat n"
    "0 < unat (n div DISK0_BLKSIZE)" "unat (n div DISK0_BLKSIZE) + unat (resid - n) div 4096 = unat resid div 4096"
proof -
  have un: "unat n = (if unat resid < 16384 then unat resid else 16384)" by (simp add: n_def word_less_nat_alt)
  show 1: "n \<noteq> 0" "n \<le> resid" "n \<le> DISK0_BUFSIZE" "resid = n \<or> DISK0_BUFSIZE = n"
    using assms(2) by (auto simp: n_def not_less)
  have d: "unat n mod 4096 = 0" using assms(1) un by simp
  then show "n mod DISK0_BLKSIZE = 0" by (simp add: word_unat_eq_iff unat_mod)
  show s: "unat (resid - n) = unat resid - unat n" by (rule unat_sub [OF 1(2)])
  show "unat (resid - n) mod 4096 = 0" using s d assms(1) 1(2) by (simp add: mod_eq_0_iff_dvd word_le_nat_alt)
  have q: "unat (n div DISK0_BLKSIZE) = unat n div 4096" by (simp add: unat_div)
  then show m: "unat (n div DISK0_BLKSIZE) * 4096 = unat n" using d by (simp add: mod_eq_0_iff_dvd)
  have "0 < unat n" using 1(1) by (simp add: unat_gt_0)
  then show "0 < unat (n div DISK0_BLKSIZE)" using m by (cases "unat (n div DISK0_BLKSIZE)") simp_all
  have "unat resid = unat n + unat (resid - n)" using s 1(2) by (simp add: word_le_nat_alt)
  then show "unat (n div DISK0_BLKSIZE) + unat (resid - n) div 4096 = unat resid div 4096"
    using d by (simp add: q div_plus_div_distrib_dvd_left mod_eq_0_iff_dvd)
qed

lemma disk0_loop_correct:
  assumes "ide_valid d" "8 * unat (d_blocks d) \<le> unat (rd_size d)" "unat (d_blocks d) < 2 ^ 19"
    and "unat resid mod 4096 = 0" and "unat blkno + unat resid div 4096 \<le> unat (d_blocks d)" and "io_resid iob = resid"
  shows "\<exists>d'. disk0_loop write resid blkno iob m d =
      Some (iob_after resid iob, if write then m else obj_copy (io_base iob) (unat blkno * 4096) (unat resid) (rd d) m, d') \<and>
    d' = d\<lparr>disk0_buffer := disk0_buffer d', rd := rd d'\<rparr> \<and>
    rd d' = (if write then obj_copy (unat blkno * 4096) (io_base iob) (unat resid) m (rd d) else rd d)"
  using assms
proof (induction "unat resid" arbitrary: resid blkno iob m d rule: less_induct)
  case less
  show ?case
  proof (cases "resid = 0")
    case True
    then show ?thesis using less.prems(6) by (subst disk0_loop.simps) (simp add: iob_after_def)
  next
    case False
    let ?n = "if DISK0_BUFSIZE > resid then resid else DISK0_BUFSIZE"
    define n where "n = ?n"
    note p = loop_piece [OF less.prems(4) False, folded n_def]
    let ?q = "n div DISK0_BLKSIZE"
    have q: "unat blkno + unat ?q \<le> unat (d_blocks d)" using p(10) less.prems(5) by simp
    have qs: "unat (blkno + ?q) = unat blkno + unat ?q" using q less.prems(3) by (subst unat_add_u32) simp_all
    have q': "unat (blkno + ?q) + unat (resid - n) div 4096 \<le> unat (d_blocks d)" using qs p(10) less.prems(5) by simp
    have "0 < unat n" using p(1) by (simp add: unat_gt_0)
    then have lt: "unat (resid - n) < unat resid" using p(2,6) by (simp add: word_le_nat_alt)
    have ab: "io_base (iob_after n iob) = io_base iob + unat n" "io_resid (iob_after n iob) = resid - n"
      "iob_after (resid - n) (iob_after n iob) = iob_after resid iob"
      using less.prems(6) iob_after_step [of n "resid - n" iob] p(2,6) unat_u32_bound [of resid]
      by (simp_all add: iob_after_def word_le_nat_alt)
    have sz: "unat n + unat (resid - n) = unat resid" using p(2,6) by (simp add: word_le_nat_alt)
    have bn: "unat (blkno + ?q) * 4096 = unat blkno * 4096 + unat n" using qs p(8) by (simp add: algebra_simps)
    show ?thesis
    proof (cases "write")
      case True
      let ?d1 = "d\<lparr>disk0_buffer := obj_copy 0 (io_base iob) (unat n) m (disk0_buffer d)\<rparr>"
      let ?d2 = "?d1\<lparr>rd := obj_copy (unat blkno * 4096) (io_base iob) (unat n) m (rd d)\<rparr>"
      have "disk0_write_blks_nolock blkno ?q ?d1 = Some ?d2"
        using disk0_blks(2) [of ?d1 blkno ?q] less.prems(1-3) q p(9) by (simp add: p(8) obj_copy_trans)
      moreover have "iobuf_move DISK0_BUFSIZE False iob m (disk0_buffer d) =
          Some (if DISK0_BUFSIZE = n then 0 else - errno_of E_NO_MEM, n, iob_after n iob, m, obj_copy 0 (io_base iob) (unat n) m (disk0_buffer d))"
        by (rule iobuf_move_block(1)) (use p less.prems(6) in simp_all)
      ultimately have "disk0_loop write resid blkno iob m d = disk0_loop write (resid - n) (blkno + ?q) (iob_after n iob) m ?d2"
        using False True p(1,2,4) by (subst disk0_loop.simps) simp
      moreover obtain d' where "disk0_loop write (resid - n) (blkno + ?q) (iob_after n iob) m ?d2 = Some (iob_after resid iob, m, d')"
        "d' = ?d2\<lparr>disk0_buffer := disk0_buffer d', rd := rd d'\<rparr>"
        "rd d' = obj_copy (unat (blkno + ?q) * 4096) (io_base iob + unat n) (unat (resid - n)) m (rd ?d2)"
        using less.hyps [OF lt, of ?d2 "blkno + ?q" "iob_after n iob" m] less.prems(1-3) p(7) q' ab True by auto
      ultimately show ?thesis using True bn sz obj_copy_append [of "unat blkno * 4096" "unat n" "io_base iob" "unat (resid - n)" m "rd d"]
        by (intro exI [of _ d']) simp
    next
      case rd: False
      let ?d1 = "d\<lparr>disk0_buffer := obj_copy 0 (unat blkno * 4096) (unat n) (rd d) (disk0_buffer d)\<rparr>"
      have "disk0_read_blks_nolock blkno ?q d = Some ?d1"
        using disk0_blks(1) [of d blkno ?q] less.prems(1-3) q p(9) by (simp add: p(8))
      moreover have "iobuf_move n True iob m (disk0_buffer ?d1) =
          Some (0, n, iob_after n iob, obj_copy (io_base iob) (unat blkno * 4096) (unat n) (rd d) m, disk0_buffer ?d1)"
        using iobuf_move_block(2) [of n n iob m "disk0_buffer ?d1"] p less.prems(6) by (simp add: obj_copy_trans)
      ultimately have "disk0_loop write resid blkno iob m d = disk0_loop write (resid - n) (blkno + ?q) (iob_after n iob)
          (obj_copy (io_base iob) (unat blkno * 4096) (unat n) (rd d) m) ?d1"
        using False rd p(4) by (subst disk0_loop.simps) (simp add: n_def [symmetric])
      moreover obtain d' where "disk0_loop write (resid - n) (blkno + ?q) (iob_after n iob)
          (obj_copy (io_base iob) (unat blkno * 4096) (unat n) (rd d) m) ?d1 = Some (iob_after resid iob,
           obj_copy (io_base iob + unat n) (unat (blkno + ?q) * 4096) (unat (resid - n)) (rd d) (obj_copy (io_base iob) (unat blkno * 4096) (unat n) (rd d) m), d')"
        "d' = ?d1\<lparr>disk0_buffer := disk0_buffer d', rd := rd d'\<rparr>" "rd d' = rd d"
        using less.hyps [OF lt, of ?d1 "blkno + ?q" "iob_after n iob" "obj_copy (io_base iob) (unat blkno * 4096) (unat n) (rd d) m"]
          less.prems(1-3) p(7) q' ab rd by auto
      ultimately show ?thesis using rd bn sz obj_copy_append [of "io_base iob" "unat n" "unat blkno * 4096" "unat (resid - n)" "rd d" m]
        by (intro exI [of _ d']) simp
    qed
  qed
qed

lemma disk0_io_cases:
  fixes d :: "'z disk_scheme"
  assumes ok: "disk_ok d" and off: "unat (io_offset iob) < 2 ^ 31"
  defines "blk \<equiv> unat (io_offset iob) div 4096"
  shows "if unat (io_offset iob) mod 4096 \<noteq> 0 \<or> unat (io_resid iob) mod 4096 \<noteq> 0 \<or>
        blk + unat (io_resid iob) div 4096 > unat (d_blocks d)
    then disk0_io write iob m d = Some (- errno_of E_INVAL, iob, m, d)
    else \<exists>d'. disk0_io write iob m d = Some (0, iob_after (io_resid iob) iob,
        if write then m else obj_copy (io_base iob) (blk * 4096) (unat (io_resid iob)) (rd d) m, d') \<and>
      disk_ok d' \<and> d' = d\<lparr>disk0_buffer := disk0_buffer d', rd := rd d'\<rparr> \<and>
      rd d' = (if write then obj_copy (blk * 4096) (io_base iob) (unat (io_resid iob)) m (rd d) else rd d)"
proof -
  let ?o = "io_offset iob" and ?r = "io_resid iob"
  have cd: "c_div ?o DISK0_BLKSIZE = ?o div DISK0_BLKSIZE" "c_mod ?o DISK0_BLKSIZE = ?o mod DISK0_BLKSIZE"
    using c_div_mod_nonneg [OF off, of DISK0_BLKSIZE] by simp_all
  have ub: "unat (?o div DISK0_BLKSIZE) = blk" "unat (?r div DISK0_BLKSIZE) = unat ?r div 4096"
    by (simp_all add: blk_def unat_div)
  have um: "?o mod DISK0_BLKSIZE \<noteq> 0 \<longleftrightarrow> unat ?o mod 4096 \<noteq> 0" "?r mod DISK0_BLKSIZE \<noteq> 0 \<longleftrightarrow> unat ?r mod 4096 \<noteq> 0"
    by (simp_all add: word_unat_eq_iff unat_mod)
  have us: "unat (?o div DISK0_BLKSIZE + ?r div DISK0_BLKSIZE) = blk + unat ?r div 4096"
    using off unat_u32_bound [of ?r] ub by (subst unat_add_u32) (auto simp: blk_def)
  have gt: "?o div DISK0_BLKSIZE + ?r div DISK0_BLKSIZE > d_blocks d \<longleftrightarrow> blk + unat ?r div 4096 > unat (d_blocks d)"
    using us by (simp add: word_less_nat_alt)
  show ?thesis
  proof (cases "unat ?o mod 4096 \<noteq> 0 \<or> unat ?r mod 4096 \<noteq> 0 \<or> blk + unat ?r div 4096 > unat (d_blocks d)")
    case True
    then show ?thesis unfolding disk0_io_def Let_def cd um gt by auto
  next
    case False
    have d: "ide_valid d" "8 * unat (d_blocks d) \<le> unat (rd_size d)" "unat (d_blocks d) < 2 ^ 19" "disk0_sem d = 1"
      using ok by (simp_all add: disk_ok_def)
    show ?thesis
    proof (cases "?r div DISK0_BLKSIZE = 0")
      case True
      then have "unat ?r div 4096 = 0" using ub(2) by simp
      then have "unat ?r = 0" using False by (metis div_mult_mod_eq add.right_neutral mult_zero_left)
      then have "?r = 0" by (simp add: unat_eq_0)
      moreover have "disk0_io write iob m d = Some (0, iob, m, d)"
        unfolding disk0_io_def Let_def cd um gt using False True by auto
      ultimately show ?thesis using False ok by (auto simp: iob_after_def)
    next
      case ne: False
      let ?d1 = "d\<lparr>disk0_sem := 0\<rparr>"
      have lk: "lock_disk0 d = Some ?d1" by (simp add: lock_disk0_def sem_take_def d(4))
      obtain d2 where d2: "disk0_loop write ?r (?o div DISK0_BLKSIZE) iob m ?d1 =
          Some (iob_after ?r iob, if write then m else obj_copy (io_base iob) (blk * 4096) (unat ?r) (rd d) m, d2)"
        "d2 = ?d1\<lparr>disk0_buffer := disk0_buffer d2, rd := rd d2\<rparr>"
        "rd d2 = (if write then obj_copy (blk * 4096) (io_base iob) (unat ?r) m (rd d) else rd d)"
      proof -
        have r1: "rd ?d1 = rd d" by simp
        have "ide_valid ?d1" "8 * unat (d_blocks ?d1) \<le> unat (rd_size ?d1)" "unat (d_blocks ?d1) < 2 ^ 19" "unat ?r mod 4096 = 0"
          "unat (?o div DISK0_BLKSIZE) + unat ?r div 4096 \<le> unat (d_blocks ?d1)" using d False ub(1) by simp_all
        from disk0_loop_correct [OF this refl, of "write" m] that show thesis unfolding r1 ub(1) by blast
      qed
      let ?d3 = "unlock_disk0 d2"
      have d3: "?d3 = d\<lparr>disk0_buffer := disk0_buffer d2, rd := rd d2\<rparr>"
        unfolding unlock_disk0_def by (subst d2(2), subst (2) d2(2)) (simp add: d(4))
      have "disk0_io write iob m d = Some (0, iob_after ?r iob,
          if write then m else obj_copy (io_base iob) (blk * 4096) (unat ?r) (rd d) m, ?d3)"
        unfolding disk0_io_def Let_def cd um gt using False ne lk d2(1) by simp
      moreover have "disk_ok ?d3" using ok unfolding d3 by (simp add: disk_ok_def)
      moreover have "rd ?d3 = (if write then obj_copy (blk * 4096) (io_base iob) (unat ?r) m (rd d) else rd d)"
        using d2(3) unfolding d3 by simp
      ultimately show ?thesis using False by (intro if_not_P [THEN iffD2]) (auto simp: d3)
    qed
  qed
qed

section \<open>Properties\<close>

text \<open>
  C19: \<^verbatim>\<open>disk0_io\<close> transfers a request of any length exactly, through its four-block bounce
  buffer. A request that is not block aligned or reaches past the end of the disk returns
  \<^verbatim>\<open>-E_INVAL\<close> and changes nothing; every other request returns 0 without a panic, consumes the whole
  buffer, and the bytes written to the disk (or read from it) are exactly those of the request: all
  other bytes of the disk image and of memory are as before, and the device lock is free again.\<close>

theorem disk0_io_exact:
  fixes d :: "'z disk_scheme"
  assumes "disk_ok d" and "unat (io_offset iob) < 2 ^ 31"
  shows "if unat (io_offset iob) mod 4096 \<noteq> 0 \<or> unat (io_resid iob) mod 4096 \<noteq> 0 \<or>
        unat (io_offset iob) div 4096 + unat (io_resid iob) div 4096 > unat (d_blocks d)
    then disk0_io write iob m d = Some (- errno_of E_INVAL, iob, m, d)
    else \<exists>d'. disk0_io write iob m d = Some (0, iob_after (io_resid iob) iob,
        if write then m else obj_copy (io_base iob) (unat (io_offset iob) div 4096 * 4096) (unat (io_resid iob)) (rd d) m, d') \<and>
      disk_ok d' \<and> d' = d\<lparr>disk0_buffer := disk0_buffer d', rd := rd d'\<rparr> \<and>
      rd d' = (if write then obj_copy (unat (io_offset iob) div 4096 * 4096) (io_base iob) (unat (io_resid iob)) m (rd d) else rd d)"
  by (rule disk0_io_cases [OF assms])

definition demo_disk :: disk where
  "demo_disk = \<lparr>ide_valid = True, rd_size = 80, rd = (\<lambda>a. of_nat a), d_blocks = 10, disk0_buffer = (\<lambda>_. 0), disk0_sem = 1\<rparr>"

theorem disk0_io_exact_witness:
  "(\<exists>iob' m' d'. disk0_io False (iobuf_init 7 20480 8192) (\<lambda>_. 0) demo_disk = Some (0, iob', m', d') \<and> m' 8 = 1) \<and>
   disk0_io True (iobuf_init 0 20480 24576) (\<lambda>_. 0) demo_disk = Some (- errno_of E_INVAL, iobuf_init 0 20480 24576, \<lambda>_. 0, demo_disk)"
proof -
  have ok: "disk_ok demo_disk" by (simp add: demo_disk_def disk_ok_def)
  have "\<exists>d'. disk0_io False (iobuf_init 7 20480 8192) (\<lambda>_. 0) demo_disk =
      Some (0, iob_after 20480 (iobuf_init 7 20480 8192), obj_copy 7 8192 20480 (rd demo_disk) (\<lambda>_. 0), d')"
    using disk0_io_exact [OF ok, of "iobuf_init 7 20480 8192" False "\<lambda>_. 0"] by (auto simp: iobuf_init_def demo_disk_def)
  moreover have "obj_copy 7 8192 20480 (rd demo_disk) (\<lambda>_. 0) 8 = 1" by (simp add: obj_copy_def demo_disk_def)
  moreover have "disk0_io True (iobuf_init 0 20480 24576) (\<lambda>_. 0) demo_disk = Some (- errno_of E_INVAL, iobuf_init 0 20480 24576, \<lambda>_. 0, demo_disk)"
    using disk0_io_exact [OF ok, of "iobuf_init 0 20480 24576" True "\<lambda>_. 0"] by (simp add: iobuf_init_def demo_disk_def)
  ultimately show ?thesis by blast
qed

end
