(* ===== verification/Bitmap.thy ===== *)
theory Bitmap
  imports Klib
begin

text \<open>
  The bitmaps of \<^verbatim>\<open>kern/fs/sfs/bitmap.c\<close>: a set bit is a free index. The array of words is a
  list, the answers of the two \<^verbatim>\<open>kmalloc\<close> calls of \<^verbatim>\<open>bitmap_create\<close> are arguments. The
  locale \<open>free_map\<close> states what the file system relies on, as operations on the set of free
  indices, and is interpreted on the bitmap.
\<close>

section \<open>The operations of bitmap.c\<close>

record bitmap =
  nbits :: u32
  nwords :: u32
  bmap :: "u32 list"

abbreviation (input) WORD_BITS :: nat where "WORD_BITS \<equiv> 32"

text \<open>The loop that marks the bits from \<open>overbits\<close> on as used.\<close>

function clear_over :: "nat \<Rightarrow> u32 \<Rightarrow> u32" where
  "clear_over overbits w = (if overbits < WORD_BITS then clear_over (overbits + 1) (w XOR push_bit overbits 1) else w)"
  by pat_completeness auto
termination
  by (relation "measure (\<lambda>(k, _). 32 - k)") auto

declare clear_over.simps [simp del]

definition bitmap_create :: "bool \<Rightarrow> bool \<Rightarrow> u32 \<Rightarrow> bitmap option kernel" where
  "bitmap_create ok1 ok2 n = do {
     kassert (n \<noteq> 0 \<and> n + 32 > n);
     if \<not> ok1 then Some None
     else let nw = ROUNDUP_DIV_2N n 5 in
       if \<not> ok2 then Some None
       else let map = replicate (unat nw) 0xFFFFFFFF in
         if n \<noteq> nw * 32 then do {
           let ix = nw - 1;
           let overbits = n - ix * 32;
           kassert (n div 32 = ix);
           kassert (overbits > 0 \<and> overbits < 32);
           Some (Some \<lparr>nbits = n, nwords = nw, bmap = map[unat ix := clear_over (unat overbits) (map ! unat ix)]\<rparr>)
         }
         else Some (Some \<lparr>nbits = n, nwords = nw, bmap = map\<rparr>)
   }"

text \<open>The inner loop of \<^verbatim>\<open>bitmap_alloc\<close>: the offset at which it finds a set bit.\<close>

function first_bit :: "nat \<Rightarrow> u32 \<Rightarrow> nat option" where
  "first_bit offset w =
     (if offset < WORD_BITS then
        let mask = push_bit offset 1 in if w AND mask \<noteq> 0 then Some offset else first_bit (offset + 1) w
      else None)"
  by pat_completeness auto
termination
  by (relation "measure (\<lambda>(k, _). 32 - k)") auto

declare first_bit.simps [simp del]

text \<open>The outer loop: the word and the offset; running out of the inner loop is the \<^verbatim>\<open>assert(0)\<close>.\<close>

fun alloc_scan :: "nat \<Rightarrow> u32 list \<Rightarrow> (nat \<times> nat) option kernel" where
  "alloc_scan ix [] = Some None"
| "alloc_scan ix (w # ws) =
     (if w \<noteq> 0 then do { offset \<leftarrow> first_bit 0 w; Some (Some (ix, offset)) } else alloc_scan (ix + 1) ws)"

definition bitmap_alloc :: "bitmap \<Rightarrow> (int \<times> u32 \<times> bitmap) kernel" where
  "bitmap_alloc b = do {
     r \<leftarrow> alloc_scan 0 (take (unat (nwords b)) (bmap b));
     case r of
       None \<Rightarrow> Some (- errno_of E_NO_MEM, 0, b)
     | Some (ix, offset) \<Rightarrow>
         Some (0, of_nat ix * 32 + of_nat offset, b\<lparr>bmap := (bmap b)[ix := bmap b ! ix XOR push_bit offset 1]\<rparr>)
   }"

definition bitmap_translate :: "bitmap \<Rightarrow> u32 \<Rightarrow> (nat \<times> u32) kernel" where
  "bitmap_translate b index = do {
     kassert (index < nbits b);
     Some (unat (index div 32), push_bit (unat (index mod 32)) 1)
   }"

definition bitmap_test :: "bitmap \<Rightarrow> u32 \<Rightarrow> bool kernel" where
  "bitmap_test b index = do {
     (word, mask) \<leftarrow> bitmap_translate b index;
     Some (bmap b ! word AND mask \<noteq> 0)
   }"

definition bitmap_free :: "bitmap \<Rightarrow> u32 \<Rightarrow> bitmap kernel" where
  "bitmap_free b index = do {
     (word, mask) \<leftarrow> bitmap_translate b index;
     kassert (bmap b ! word AND mask = 0);
     Some (b\<lparr>bmap := (bmap b)[word := bmap b ! word OR mask]\<rparr>)
   }"

definition bitmap_getdata :: "bitmap \<Rightarrow> u32 list \<times> u32" where
  "bitmap_getdata b = (bmap b, 4 * nwords b)"

section \<open>The set of free indices\<close>

definition bitmap_ok :: "bitmap \<Rightarrow> bool" where
  "bitmap_ok b \<longleftrightarrow> length (bmap b) = unat (nwords b) \<and> unat (nbits b) \<le> 32 * length (bmap b) \<and>
     32 * length (bmap b) < 2 ^ 32"

definition free_bits :: "bitmap \<Rightarrow> nat set" where
  "free_bits b = {i. i < 32 * length (bmap b) \<and> bit (bmap b ! (i div 32)) (i mod 32)}"

lemma and_mask_bit [simp]: "(w :: u32) AND 2 ^ k = 0 \<longleftrightarrow> \<not> bit w k"
  by (rule and_exp_eq_0_iff_not_bit)

lemma first_bit_correct:
  assumes "\<exists>k. offset \<le> k \<and> k < 32 \<and> bit w k"
  shows "\<exists>k. first_bit offset w = Some k \<and> offset \<le> k \<and> k < 32 \<and> bit w k \<and> (\<forall>j. offset \<le> j \<and> j < k \<longrightarrow> \<not> bit w j)"
  using assms
proof (induction "32 - offset" arbitrary: offset rule: less_induct)
  case less
  then have o: "offset < 32" by auto
  show ?case
  proof (cases "bit w offset")
    case True
    with o show ?thesis by (subst first_bit.simps) (auto simp: Let_def)
  next
    case False
    then have e: "first_bit offset w = first_bit (offset + 1) w"
      using o by (subst first_bit.simps) (simp add: Let_def)
    obtain k where k: "offset \<le> k" "k < 32" "bit w k" using less.prems by blast
    with False have "offset + 1 \<le> k" by (cases "k = offset") auto
    with k have ex: "\<exists>k. offset + 1 \<le> k \<and> k < 32 \<and> bit w k" by blast
    have "32 - (offset + 1) < 32 - offset" using o by simp
    from less.hyps [OF this ex] obtain k' where k': "first_bit (offset + 1) w = Some k'" "offset + 1 \<le> k'" "k' < 32" "bit w k'"
      "\<forall>j. offset + 1 \<le> j \<and> j < k' \<longrightarrow> \<not> bit w j" by blast
    have "\<not> bit w j" if "offset \<le> j" "j < k'" for j using k'(5) False that by (cases "j = offset") auto
    with e k' show ?thesis by auto
  qed
qed

lemma word_nonzero_bit: "(w :: u32) \<noteq> 0 \<longleftrightarrow> (\<exists>k < 32. bit w k)"
  by (auto simp: bit_eq_iff bit_simps)

lemma alloc_scan_correct:
  "(\<exists>i k. alloc_scan ix ws = Some (Some (ix + i, k)) \<and> i < length ws \<and> k < 32 \<and> bit (ws ! i) k \<and>
      (\<forall>j < i. ws ! j = 0) \<and> (\<forall>l < k. \<not> bit (ws ! i) l)) \<or>
   alloc_scan ix ws = Some None \<and> (\<forall>i < length ws. ws ! i = 0)"
proof (induction ws arbitrary: ix)
  case (Cons w ws)
  show ?case
  proof (cases "w = 0")
    case False
    then obtain k where "first_bit 0 w = Some k" "k < 32" "bit w k" "\<forall>j < k. \<not> bit w j"
      using first_bit_correct [of 0 w] by (auto simp: word_nonzero_bit)
    with False show ?thesis by (intro disjI1 exI [of _ 0] exI [of _ k]) simp
  next
    case True
    from Cons.IH [of "ix + 1"] show ?thesis
    proof (elim disjE exE conjE)
      fix i k assume h: "alloc_scan (ix + 1) ws = Some (Some (ix + 1 + i, k))" "i < length ws" "k < 32" "bit (ws ! i) k"
        "\<forall>j < i. ws ! j = 0" "\<forall>l < k. \<not> bit (ws ! i) l"
      have "\<forall>j < Suc i. (w # ws) ! j = 0" using True h(5) by (auto simp: nth_Cons split: nat.split)
      with h True show ?thesis by (intro disjI1 exI [of _ "Suc i"] exI [of _ k]) simp
    next
      assume h: "alloc_scan (ix + 1) ws = Some None" "\<forall>i < length ws. ws ! i = 0"
      have "\<forall>i < length (w # ws). (w # ws) ! i = 0" using True h(2) by (auto simp: nth_Cons split: nat.split)
      with h True show ?thesis by simp
    qed
  qed
qed simp

lemma free_bits_update:
  assumes "ix < length (bmap b)" and "k < 32"
  shows "free_bits (b\<lparr>bmap := (bmap b)[ix := bmap b ! ix XOR 2 ^ k]\<rparr>) =
      (if bit (bmap b ! ix) k then free_bits b - {ix * 32 + k} else insert (ix * 32 + k) (free_bits b))"
    and "free_bits (b\<lparr>bmap := (bmap b)[ix := bmap b ! ix OR 2 ^ k]\<rparr>) = insert (ix * 32 + k) (free_bits b)"
proof -
  have d: "i = ix * 32 + k \<longleftrightarrow> i div 32 = ix \<and> i mod 32 = k" for i using assms(2) by auto
  have r: "ix * 32 + k < 32 * length (bmap b)" using assms by simp
  have m: "i mod 32 < 32" for i :: nat by simp
  show "free_bits (b\<lparr>bmap := (bmap b)[ix := bmap b ! ix XOR 2 ^ k]\<rparr>) =
      (if bit (bmap b ! ix) k then free_bits b - {ix * 32 + k} else insert (ix * 32 + k) (free_bits b))"
    using assms r unfolding free_bits_def by (intro set_eqI) (auto simp: nth_list_update bit_simps d)
  show "free_bits (b\<lparr>bmap := (bmap b)[ix := bmap b ! ix OR 2 ^ k]\<rparr>) = insert (ix * 32 + k) (free_bits b)"
    using assms r unfolding free_bits_def by (intro set_eqI) (auto simp: nth_list_update bit_simps d)
qed

lemma bitmap_alloc_correct:
  assumes ok: "bitmap_ok b"
  shows "if free_bits b = {} then bitmap_alloc b = Some (- errno_of E_NO_MEM, 0, b)
    else \<exists>b'. bitmap_alloc b = Some (0, of_nat (Min (free_bits b)), b') \<and> bitmap_ok b' \<and> nbits b' = nbits b \<and>
      free_bits b' = free_bits b - {Min (free_bits b)}"
proof -
  let ?ws = "bmap b"
  have t: "take (unat (nwords b)) ?ws = ?ws" and len: "length ?ws = unat (nwords b)" using ok by (simp_all add: bitmap_ok_def)
  show ?thesis
    using alloc_scan_correct [of 0 ?ws]
  proof (elim disjE exE conjE)
    fix i k assume h: "alloc_scan 0 ?ws = Some (Some (0 + i, k))" "i < length ?ws" "k < 32" "bit (?ws ! i) k" "\<forall>j < i. ?ws ! j = 0"
      "\<forall>l < k. \<not> bit (?ws ! i) l"
    have mem: "i * 32 + k \<in> free_bits b" using h by (simp add: free_bits_def)
    have le: "i * 32 + k \<le> j" if "j \<in> free_bits b" for j
    proof -
      have j: "j div 32 < length ?ws" "bit (?ws ! (j div 32)) (j mod 32)" using that by (auto simp: free_bits_def)
      have "i \<le> j div 32" using h(5) j(2) by (cases "j div 32 < i") (auto simp: bit_simps)
      moreover have "k \<le> j mod 32" if "j div 32 = i" using h(6) j(2) that by (cases "j mod 32 < k") auto
      moreover have "j = j div 32 * 32 + j mod 32" by simp
      moreover have "(i + 1) * 32 \<le> j" if "i + 1 \<le> j div 32" using mult_le_mono1 [OF that, of 32] by (simp add: less_eq_div_iff_mult_less_eq)
      ultimately show ?thesis using h(3) by (cases "j div 32 = i") (auto simp: not_le)
    qed
    have fin: "finite (free_bits b)" by (rule finite_subset [of _ "{..<32 * length ?ws}"]) (auto simp: free_bits_def)
    have min: "Min (free_bits b) = i * 32 + k" by (rule Min_eqI [OF fin le mem])
    have al: "bitmap_alloc b = Some (0, of_nat (i * 32 + k), b\<lparr>bmap := ?ws[i := ?ws ! i XOR 2 ^ k]\<rparr>)"
      using h(1) t by (simp add: bitmap_alloc_def)
    have "free_bits b \<noteq> {}" using mem by auto
    moreover have "bitmap_ok (b\<lparr>bmap := ?ws[i := ?ws ! i XOR 2 ^ k]\<rparr>)" using ok by (simp add: bitmap_ok_def)
    ultimately show ?thesis
      unfolding min al using free_bits_update(1) [OF h(2,3)] h(4) by simp
  next
    assume h: "alloc_scan 0 ?ws = Some None" "\<forall>i < length ?ws. ?ws ! i = 0"
    have "free_bits b = {}" using h(2) by (auto simp: free_bits_def)
    with h(1) t show ?thesis by (simp add: bitmap_alloc_def)
  qed
qed

lemma unat_div_mod_32: "unat ((x :: u32) div 32) = unat x div 32" "unat (x mod 32) = unat x mod 32"
  by (simp_all add: unat_div unat_mod)

lemma bitmap_index:
  assumes "bitmap_ok b" and "index < nbits b"
  shows "unat index div 32 < length (bmap b)" "bit (bmap b ! (unat index div 32)) (unat index mod 32) \<longleftrightarrow> unat index \<in> free_bits b"
proof -
  have "unat index < 32 * length (bmap b)" using assms by (simp add: bitmap_ok_def word_less_nat_alt)
  then show "unat index div 32 < length (bmap b)"
    "bit (bmap b ! (unat index div 32)) (unat index mod 32) \<longleftrightarrow> unat index \<in> free_bits b"
    by (auto simp: free_bits_def)
qed

lemma bitmap_test_correct:
  assumes "bitmap_ok b" and "index < nbits b"
  shows "bitmap_test b index = Some (unat index \<in> free_bits b)"
  using bitmap_index [OF assms] assms(2) by (simp add: bitmap_test_def bitmap_translate_def unat_div_mod_32)

lemma bitmap_free_correct:
  assumes ok: "bitmap_ok b" and i: "index < nbits b" and used: "unat index \<notin> free_bits b"
  shows "\<exists>b'. bitmap_free b index = Some b' \<and> bitmap_ok b' \<and> nbits b' = nbits b \<and> free_bits b' = insert (unat index) (free_bits b)"
proof -
  let ?w = "unat index div 32" and ?k = "unat index mod 32"
  have "bitmap_free b index = Some (b\<lparr>bmap := (bmap b)[?w := bmap b ! ?w OR 2 ^ ?k]\<rparr>)"
    using bitmap_index [OF ok i] used i by (simp add: bitmap_free_def bitmap_translate_def unat_div_mod_32)
  moreover have "free_bits (b\<lparr>bmap := (bmap b)[?w := bmap b ! ?w OR 2 ^ ?k]\<rparr>) = insert (unat index) (free_bits b)"
    using free_bits_update(2) [of ?w b ?k] bitmap_index(1) [OF ok i] by simp
  ultimately show ?thesis using ok by (simp add: bitmap_ok_def)
qed

lemma bit_clear_over: "overbits \<le> 32 \<Longrightarrow> bit (clear_over overbits w) k \<longleftrightarrow> bit w k \<noteq> (overbits \<le> k \<and> k < 32)"
proof (induction "32 - overbits" arbitrary: overbits w)
  case 0
  then show ?case by (subst clear_over.simps) simp
next
  case (Suc n)
  have o: "overbits < 32" using Suc.hyps(2) by simp
  have "n = 32 - (overbits + 1)" "overbits + 1 \<le> 32" using Suc.hyps(2) by simp_all
  from Suc.hyps(1) [OF this] have "bit (clear_over (overbits + 1) (w XOR 2 ^ overbits)) k \<longleftrightarrow>
      bit (w XOR 2 ^ overbits) k \<noteq> (overbits + 1 \<le> k \<and> k < 32)" .
  moreover have "clear_over overbits w = clear_over (overbits + 1) (w XOR 2 ^ overbits)"
    using o by (subst clear_over.simps) simp
  ultimately show ?case using o by (auto simp: bit_simps)
qed

lemma words_of_bits:
  fixes a :: nat
  shows "a mod 32 = 0 \<Longrightarrow> (a + 31) div 32 * 32 = a" "a mod 32 \<noteq> 0 \<Longrightarrow> (a + 31) div 32 = a div 32 + 1"
    "i < 32 * (a div 32 + 1) \<and> (i div 32 \<noteq> a div 32 \<or> i mod 32 < a mod 32) \<longleftrightarrow> i < a"
    "a < 2 ^ 32 - 32 \<Longrightarrow> 32 * (a div 32 + 1) < 2 ^ 32" "a \<le> 32 * (a div 32 + 1)"
proof -
  have a: "a = 32 * (a div 32) + a mod 32" "a mod 32 < 32" by simp_all
  show "(a + 31) div 32 * 32 = a" if z: "a mod 32 = 0"
  proof -
    obtain q where q: "a = 32 * q" using z by (auto simp: mod_eq_0_iff_dvd elim: dvdE)
    have "(a + 31) div 32 = q" by (rule div_nat_eqI) (simp_all add: q)
    then show ?thesis using q by simp
  qed
  show "(a + 31) div 32 = a div 32 + 1" if z: "a mod 32 \<noteq> 0"
  proof -
    define q r where "q = a div 32" and "r = a mod 32"
    have "a = 32 * q + r" "0 < r" "r < 32" using a z by (simp_all add: q_def r_def)
    then have "(a + 31) div 32 = q + 1" by (intro div_nat_eqI) simp_all
    then show ?thesis by (simp add: q_def)
  qed
  have i: "i = 32 * (i div 32) + i mod 32" "i mod 32 < 32" by simp_all
  have "32 * p + s < 32 * (q + 1) \<and> (p \<noteq> q \<or> s < r) \<longleftrightarrow> 32 * p + s < 32 * q + r" if "s < 32" "r < 32" for p q r s :: nat
    using that by (cases p q rule: linorder_cases) auto
  from this [of "i mod 32" "a mod 32" "i div 32" "a div 32"]
  show "i < 32 * (a div 32 + 1) \<and> (i div 32 \<noteq> a div 32 \<or> i mod 32 < a mod 32) \<longleftrightarrow> i < a" by simp
  have m: "32 * (a div 32) \<le> a" by simp
  show "a < 2 ^ 32 - 32 \<Longrightarrow> 32 * (a div 32 + 1) < 2 ^ 32" using m by simp
  show "a \<le> 32 * (a div 32 + 1)" using dividend_less_times_div [of 32 a] by simp
qed

lemma bitmap_create_correct:
  assumes n: "n \<noteq> 0" "unat n < 2 ^ 32 - 32"
  shows "\<exists>b. bitmap_create True True n = Some (Some b) \<and> bitmap_ok b \<and> nbits b = n \<and> free_bits b = {..<unat n}"
proof -
  let ?nw = "ROUNDUP_DIV_2N n 5"
  have nw: "unat ?nw = (unat n + 31) div 32" using unat_ROUNDUP_DIV_2N [of 5 n] n by simp
  have wrap: "n + 32 > n" using n(2) unat_add_u32 [of n 32] by (simp add: word_less_nat_alt)
  have pos: "0 < unat n" using n(1) by (simp add: unat_gt_0)
  have m32: "unat (?nw * 32) = ((unat n + 31) div 32) * 32" using n(2) nw by (subst unat_mult_u32) simp_all
  let ?map = "replicate (unat ?nw) (0xFFFFFFFF :: u32)"
  have ones: "bit (0xFFFFFFFF :: u32) k \<longleftrightarrow> k < 32" for k
  proof -
    have "(0xFFFFFFFF :: u32) = mask 32" by (simp add: mask_eq_exp_minus_1)
    then show ?thesis by (simp only: bit_mask_iff) (auto simp: possible_bit_def)
  qed
  show ?thesis
  proof (cases "n = ?nw * 32")
    case True
    let ?b = "\<lparr>nbits = n, nwords = ?nw, bmap = ?map\<rparr>"
    have u: "unat n = 32 * unat ?nw" using arg_cong [OF True, of unat] m32 nw by simp
    have "bitmap_create True True n = Some (Some ?b)" using True n(1) wrap by (simp add: bitmap_create_def Let_def)
    moreover have "bitmap_ok ?b" using u n(2) by (simp add: bitmap_ok_def)
    moreover have "free_bits ?b = {..<unat n}"
    proof (intro set_eqI)
      fix i
      have "bit (?map ! (i div 32)) (i mod 32)" if "i < 32 * unat ?nw"
      proof -
        have "i div 32 < unat ?nw" using that by (simp add: div_less_iff_less_mult mult.commute)
        then have "?map ! (i div 32) = 0xFFFFFFFF" by simp
        then show ?thesis by (simp only: ones)
      qed
      then show "i \<in> free_bits ?b \<longleftrightarrow> i \<in> {..<unat n}" unfolding free_bits_def u by auto
    qed
    ultimately show ?thesis by auto
  next
    case False
    let ?ix = "?nw - 1" and ?q = "unat n div 32" and ?r = "unat n mod 32"
    have r: "?r \<noteq> 0"
    proof
      assume "?r = 0"
      then have "unat (?nw * 32) = unat n" unfolding m32 by (rule words_of_bits(1))
      then show False using False word_unat_eq_iff by metis
    qed
    then have q: "(unat n + 31) div 32 = ?q + 1" by (rule words_of_bits(2))
    have ix: "unat ?ix = ?q" using nw q by (subst unat_sub) (simp_all add: word_le_nat_alt)
    have ov: "unat (n - ?ix * 32) = ?r"
    proof -
      have "unat (?ix * 32) = ?q * 32" using ix n(2) by (subst unat_mult_u32) simp_all
      then show ?thesis by (subst unat_sub) (simp_all add: word_le_nat_alt minus_div_mult_eq_mod)
    qed
    have dv: "n div 32 = ?ix" using ix unat_div_mod_32(1) [of n] by (simp add: word_unat_eq_iff)
    have rng: "n - ?ix * 32 > 0" "n - ?ix * 32 < 32" using ov r by (simp_all add: word_less_nat_alt)
    let ?b = "\<lparr>nbits = n, nwords = ?nw, bmap = ?map[?q := clear_over ?r 0xFFFFFFFF]\<rparr>"
    have "?map ! ?q = 0xFFFFFFFF" by (rule nth_replicate) (simp add: nw q)
    then have cr: "bitmap_create True True n = Some (Some ?b)"
      unfolding bitmap_create_def Let_def ix ov using False n(1) wrap dv rng by simp
    have l: "length (bmap ?b) = ?q + 1" using nw q by (simp del: replicate_Suc)
    then have "bitmap_ok ?b" using words_of_bits(4) [OF n(2)] words_of_bits(5) [of "unat n"] nw q by (simp add: bitmap_ok_def del: replicate_Suc)
    moreover have "free_bits ?b = {..<unat n}"
    proof (intro set_eqI)
      fix i
      have b: "bit (bmap ?b ! (i div 32)) (i mod 32) \<longleftrightarrow> i div 32 \<noteq> ?q \<or> i mod 32 < ?r" if "i < 32 * (?q + 1)"
      proof (cases "i div 32 = ?q")
        case True
        then have "bmap ?b ! (i div 32) = clear_over ?r 0xFFFFFFFF" using nw q by (simp del: replicate_Suc)
        moreover have "bit (0xFFFFFFFF :: u32) (i mod 32)" unfolding ones by simp
        ultimately show ?thesis using True bit_clear_over [of ?r "0xFFFFFFFF" "i mod 32"] by auto
      next
        case False
        have "i div 32 < unat ?nw" using that nw q by (simp add: div_less_iff_less_mult mult.commute)
        with False have "bmap ?b ! (i div 32) = 0xFFFFFFFF" by (simp del: replicate_Suc)
        moreover have "bit (0xFFFFFFFF :: u32) (i mod 32)" unfolding ones by simp
        ultimately show ?thesis using False by simp
      qed
      from words_of_bits(3) [of i "unat n"] b show "i \<in> free_bits ?b \<longleftrightarrow> i \<in> {..<unat n}" unfolding free_bits_def mem_Collect_eq l lessThan_iff by blast
    qed
    ultimately show ?thesis using cr by auto
  qed
qed

section \<open>The interface\<close>

locale free_map =
  fixes ok :: "'b \<Rightarrow> bool" and cap :: "'b \<Rightarrow> nat" and free :: "'b \<Rightarrow> nat set"
    and alloc :: "'b \<Rightarrow> (int \<times> u32 \<times> 'b) kernel" and release :: "'b \<Rightarrow> u32 \<Rightarrow> 'b kernel" and test :: "'b \<Rightarrow> u32 \<Rightarrow> bool kernel"
  assumes finite_free: "ok b \<Longrightarrow> finite (free b)" and small: "ok b \<Longrightarrow> free b \<subseteq> {..<2 ^ 32}"
    and alloc_none: "ok b \<Longrightarrow> free b = {} \<Longrightarrow> alloc b = Some (- errno_of E_NO_MEM, 0, b)"
    and alloc_some: "ok b \<Longrightarrow> free b \<noteq> {} \<Longrightarrow>
      \<exists>b'. alloc b = Some (0, of_nat (Min (free b)), b') \<and> ok b' \<and> cap b' = cap b \<and> free b' = free b - {Min (free b)}"
    and release_used: "ok b \<Longrightarrow> unat i < cap b \<Longrightarrow> unat i \<notin> free b \<Longrightarrow>
      \<exists>b'. release b i = Some b' \<and> ok b' \<and> cap b' = cap b \<and> free b' = insert (unat i) (free b)"
    and test_in: "ok b \<Longrightarrow> unat i < cap b \<Longrightarrow> test b i = Some (unat i \<in> free b)"
begin

text \<open>What is allocated can be given back, and then the same indices are free again.\<close>

lemma alloc_release:
  assumes "ok b" and "free b \<subseteq> {..<cap b}" and "alloc b = Some (0, i, b1)"
  shows "unat i \<in> free b \<and> test b1 i = Some False \<and> (\<exists>b2. release b1 i = Some b2 \<and> ok b2 \<and> free b2 = free b \<and> test b2 i = Some True)"
proof -
  have ne: "free b \<noteq> {}" using alloc_none [OF assms(1)] assms(3) by auto
  then have m: "Min (free b) \<in> free b" using finite_free [OF assms(1)] by simp
  obtain b' where b': "alloc b = Some (0, of_nat (Min (free b)), b')" "ok b'" "cap b' = cap b" "free b' = free b - {Min (free b)}"
    using alloc_some [OF assms(1) ne] by blast
  have i: "unat i = Min (free b)" and b1: "b1 = b'"
    using b'(1) assms(3) small [OF assms(1)] m by (auto simp: unat_of_nat take_bit_nat_eq_self)
  have c: "unat i < cap b1" "unat i \<notin> free b1" using assms(2) m i b1 b' by auto
  obtain b2 where "release b1 i = Some b2" "ok b2" "cap b2 = cap b1" "free b2 = insert (unat i) (free b1)"
    using release_used c b'(2) b1 by blast
  moreover have "free b2 = free b" using calculation(4) b1 b'(4) i m by auto
  ultimately show ?thesis
    using i m c test_in [of b1 i] test_in [of b2 i] b1 b'(2) by auto
qed

end

lemma free_bits_bound:
  assumes "bitmap_ok b"
  shows "finite (free_bits b)" "free_bits b \<subseteq> {..<2 ^ 32}"
proof -
  show "free_bits b \<subseteq> {..<2 ^ 32}" using assms by (auto simp: free_bits_def bitmap_ok_def)
  then show "finite (free_bits b)" by (rule finite_subset) simp
qed

interpretation bm: free_map bitmap_ok "\<lambda>b. unat (nbits b)" free_bits bitmap_alloc bitmap_free bitmap_test
proof unfold_locales
  fix b i assume "bitmap_ok b"
  then show "finite (free_bits b)" "free_bits b \<subseteq> {..<2 ^ 32}"
    "free_bits b = {} \<Longrightarrow> bitmap_alloc b = Some (- errno_of E_NO_MEM, 0, b)"
    "free_bits b \<noteq> {} \<Longrightarrow> \<exists>b'. bitmap_alloc b = Some (0, of_nat (Min (free_bits b)), b') \<and> bitmap_ok b' \<and>
      unat (nbits b') = unat (nbits b) \<and> free_bits b' = free_bits b - {Min (free_bits b)}"
    using free_bits_bound bitmap_alloc_correct [of b] by (auto split: if_splits)
  show "unat i < unat (nbits b) \<Longrightarrow> unat i \<notin> free_bits b \<Longrightarrow> \<exists>b'. bitmap_free b i = Some b' \<and> bitmap_ok b' \<and>
      unat (nbits b') = unat (nbits b) \<and> free_bits b' = insert (unat i) (free_bits b)"
    using bitmap_free_correct [OF \<open>bitmap_ok b\<close>, of i] by (auto simp: word_less_nat_alt)
  show "unat i < unat (nbits b) \<Longrightarrow> bitmap_test b i = Some (unat i \<in> free_bits b)"
    using bitmap_test_correct [OF \<open>bitmap_ok b\<close>, of i] by (simp add: word_less_nat_alt)
qed

section \<open>Properties\<close>

text \<open>The bitmaps of \<open>n\<close> bits the kernel can come to: a created one, after allocations and frees.\<close>

inductive bitmap_reach :: "u32 \<Rightarrow> bitmap \<Rightarrow> bool" for n where
  created: "bitmap_create a a' n = Some (Some b) \<Longrightarrow> bitmap_reach n b"
| allocated: "bitmap_reach n b \<Longrightarrow> bitmap_alloc b = Some (ret, i, b') \<Longrightarrow> bitmap_reach n b'"
| freed: "bitmap_reach n b \<Longrightarrow> bitmap_free b i = Some b' \<Longrightarrow> bitmap_reach n b'"

lemma bitmap_create_NULL: "bitmap_create a a' n = Some (Some b) \<Longrightarrow> a \<and> a'"
  by (auto simp: bitmap_create_def Let_def split: if_splits bind_splits)

lemma bitmap_free_used:
  assumes "bitmap_ok b" and "bitmap_free b i = Some b'"
  shows "unat i < unat (nbits b) \<and> unat i \<notin> free_bits b"
proof -
  have i: "i < nbits b" using assms(2) by (auto simp: bitmap_free_def bitmap_translate_def split: bind_splits if_splits)
  have "unat i \<notin> free_bits b"
    using bitmap_index [OF assms(1) i] assms(2) i by (auto simp: bitmap_free_def bitmap_translate_def unat_div_mod_32 split: bind_splits if_splits)
  with i show ?thesis by (simp add: word_less_nat_alt)
qed

lemma bitmap_reach_inv:
  assumes "bitmap_reach n b" and n: "n \<noteq> 0" "unat n < 2 ^ 32 - 32"
  shows "bitmap_ok b \<and> nbits b = n \<and> free_bits b \<subseteq> {..<unat n}"
  using assms(1)
proof induction
  case (created a a' b)
  then show ?case using bitmap_create_correct [OF n] bitmap_create_NULL [OF created] by auto
next
  case (allocated b ret i b')
  then show ?case using bm.alloc_none [of b] bm.alloc_some [of b] by (cases "free_bits b = {}") (auto simp: word_unat_eq_iff)
next
  case (freed b i b')
  then have "unat i < unat (nbits b) \<and> unat i \<notin> free_bits b" using bitmap_free_used by blast
  then show ?case using freed bm.release_used [of b i] by (auto simp: word_unat_eq_iff)
qed

lemma bitmap_reach_spec:
  assumes n: "n \<noteq> 0" "unat n < 2 ^ 32 - 32"
  shows "\<exists>b. bitmap_create True True n = Some (Some b) \<and> free_bits b = {..<unat n}"
    and "bitmap_reach n b \<Longrightarrow> free_bits b = {} \<Longrightarrow> bitmap_alloc b = Some (- errno_of E_NO_MEM, 0, b)"
    and "bitmap_reach n b \<Longrightarrow> free_bits b \<noteq> {} \<Longrightarrow>
      \<exists>i b1 b2. bitmap_alloc b = Some (0, i, b1) \<and> unat i = Min (free_bits b) \<and> unat i < unat n \<and>
        free_bits b1 = free_bits b - {unat i} \<and> bitmap_test b1 i = Some False \<and>
        bitmap_free b1 i = Some b2 \<and> free_bits b2 = free_bits b \<and> bitmap_test b2 i = Some True"
proof -
  show "\<exists>b. bitmap_create True True n = Some (Some b) \<and> free_bits b = {..<unat n}"
    using bitmap_create_correct [OF n] by blast
  show "bitmap_reach n b \<Longrightarrow> free_bits b = {} \<Longrightarrow> bitmap_alloc b = Some (- errno_of E_NO_MEM, 0, b)"
    using bitmap_reach_inv [OF _ n] bm.alloc_none by blast
  assume r: "bitmap_reach n b" and ne: "free_bits b \<noteq> {}"
  note inv = bitmap_reach_inv [OF r n]
  from bm.alloc_some [OF _ ne] inv obtain b1 where
    b1: "bitmap_alloc b = Some (0, of_nat (Min (free_bits b)), b1)" "free_bits b1 = free_bits b - {Min (free_bits b)}" by blast
  have "Min (free_bits b) \<in> free_bits b" using ne bm.finite_free inv by simp
  moreover have "free_bits b \<subseteq> {..<2 ^ 32}" using bm.small inv by blast
  ultimately have "unat (of_nat (Min (free_bits b)) :: u32) = Min (free_bits b)" "Min (free_bits b) \<in> free_bits b"
    by (auto simp: unat_of_nat take_bit_nat_eq_self)
  then show "\<exists>i b1 b2. bitmap_alloc b = Some (0, i, b1) \<and> unat i = Min (free_bits b) \<and> unat i < unat n \<and>
        free_bits b1 = free_bits b - {unat i} \<and> bitmap_test b1 i = Some False \<and>
        bitmap_free b1 i = Some b2 \<and> free_bits b2 = free_bits b \<and> bitmap_test b2 i = Some True"
    using bm.alloc_release [of b, OF _ _ b1(1)] inv b1 by auto
qed

text \<open>
  C18: a created bitmap has all indices below its size free and no other. Whatever allocations and
  frees came before, \<^verbatim>\<open>bitmap_alloc\<close> fails only when no index is free, and then changes nothing;
  otherwise it returns the least free index, marks it and no other used, and \<^verbatim>\<open>bitmap_free\<close> of that
  index restores the same free set.\<close>

theorem bitmap_roundtrip:
  assumes "n \<noteq> 0" and "unat n < 2 ^ 32 - 32"
  shows "(\<exists>b. bitmap_create True True n = Some (Some b) \<and> free_bits b = {..<unat n}) \<and>
    (\<forall>b. bitmap_reach n b \<longrightarrow>
      (if free_bits b = {} then bitmap_alloc b = Some (- errno_of E_NO_MEM, 0, b)
       else \<exists>i b1 b2. bitmap_alloc b = Some (0, i, b1) \<and> unat i = Min (free_bits b) \<and> unat i < unat n \<and>
         free_bits b1 = free_bits b - {unat i} \<and> bitmap_test b1 i = Some False \<and>
         bitmap_free b1 i = Some b2 \<and> free_bits b2 = free_bits b \<and> bitmap_test b2 i = Some True))"
  using bitmap_reach_spec [OF assms] by simp

theorem bitmap_roundtrip_witness:
  "\<exists>b i b1. bitmap_create True True 40 = Some (Some b) \<and> bitmap_alloc b = Some (0, i, b1) \<and> unat i = 0 \<and> free_bits b1 = {..<40} - {0}"
proof -
  note rt = bitmap_roundtrip [of 40, simplified]
  obtain b where b: "bitmap_create True True 40 = Some (Some b)" "free_bits b = {..<40}" using rt by blast
  have "Min {..<40 :: nat} = 0" by (intro Min_eqI) auto
  moreover have "{..<40 :: nat} \<noteq> {}" by (simp add: lessThan_empty_iff)
  ultimately show ?thesis using conjunct2 [OF rt, rule_format, OF created [OF b(1)]] b by auto
qed

end
