(* ===== verification/Sfs.thy ===== *)
theory Sfs
  imports Disk Bitmap Clist
begin

text \<open>
  The file system: block access (\<^verbatim>\<open>kern/fs/sfs/sfs_io.c\<close>, \<^verbatim>\<open>sfs_lock.c\<close>), and the inodes, block maps,
  files and directories of \<^verbatim>\<open>sfs_inode.c\<close> with the reference counts of \<^verbatim>\<open>kern/fs/vfs/inode.c\<close>.
  A \<^verbatim>\<open>struct inode\<close> is known by its address, a natural number; it holds the \<^verbatim>\<open>sfs_inode\<close> and the
  counters. A memory object (a caller's buffer, a local variable, a kmalloc'ed structure) is a
  memory of its own; \<open>din_at\<close> is the address of the disk inode's copy. A semaphore is its value: \<open>None\<close> is a panic or a thread that waits for a lock it
  holds itself. The value an uninitialised local variable happens to have is the field \<open>uninit\<close>.
\<close>

section \<open>Bytes and words\<close>

definition word_byte :: "u32 \<Rightarrow> nat \<Rightarrow> u8" where
  "word_byte w k = ucast (drop_bit (8 * k) w)"

definition load32 :: "mem \<Rightarrow> nat \<Rightarrow> u32" where
  "load32 m a = ucast (m a) OR push_bit 8 (ucast (m (a + 1))) OR push_bit 16 (ucast (m (a + 2))) OR push_bit 24 (ucast (m (a + 3)))"

definition store32 :: "nat \<Rightarrow> u32 \<Rightarrow> mem \<Rightarrow> mem" where
  "store32 a w m = (\<lambda>x. if a \<le> x \<and> x < a + 4 then word_byte w (x - a) else m x)"

section \<open>State\<close>

record sfs_disk_inode =
  din_size :: u32
  din_type :: u32
  din_nlinks :: u32
  din_blocks :: u32
  direct :: "nat \<Rightarrow> u32"
  indirect :: u32

record sfs_inode =
  din :: sfs_disk_inode
  din_at :: nat
  sin_ino :: u32
  sin_dirty :: bool
  reclaim_count :: int
  sin_sem :: int

datatype node_ops = DirOps | FileOps

record inode = sfs_inode +
  ref_count :: int
  open_count :: int
  in_ops :: node_ops

datatype scell = InodeList | HashList nat | InodeLink nat | HashLink nat

record sfs_fs = disk +
  super_blocks :: u32
  unused_blocks :: u32
  super_info :: mem
  super_dirty :: bool
  freemap :: bitmap
  sfs_buffer :: mem
  sfs_fs_sem :: int
  sfs_io_sem :: int
  sfs_mutex_sem :: int
  nodes :: "nat \<Rightarrow> inode"
  node_links :: "scell links"
  fs_kmalloc :: "nat \<Rightarrow> nat option"
  fs_kmalloc_pos :: nat
  fs_kfreed :: "nat list"
  uninit :: u32

abbreviation (input) SFS_BLKSIZE :: u32 where "SFS_BLKSIZE \<equiv> 4096"
abbreviation (input) SFS_NDIRECT :: u32 where "SFS_NDIRECT \<equiv> 12"
abbreviation (input) SFS_BLK_NENTRY :: u32 where "SFS_BLK_NENTRY \<equiv> 1024"
abbreviation (input) SFS_MAX_FILE_SIZE :: u32 where "SFS_MAX_FILE_SIZE \<equiv> 134217728"
abbreviation (input) SFS_TYPE_FILE :: u32 where "SFS_TYPE_FILE \<equiv> 1"
abbreviation (input) SFS_TYPE_DIR :: u32 where "SFS_TYPE_DIR \<equiv> 2"
abbreviation (input) SFS_TYPE_LINK :: u32 where "SFS_TYPE_LINK \<equiv> 3"

definition upd_node :: "nat \<Rightarrow> (inode \<Rightarrow> inode) \<Rightarrow> 'z sfs_fs_scheme \<Rightarrow> 'z sfs_fs_scheme" where
  "upd_node p f s = s\<lparr>nodes := (nodes s)(p := f (nodes s p))\<rparr>"

definition upd_din :: "nat \<Rightarrow> (sfs_disk_inode \<Rightarrow> sfs_disk_inode) \<Rightarrow> 'z sfs_fs_scheme \<Rightarrow> 'z sfs_fs_scheme" where
  "upd_din p f = upd_node p (\<lambda>x. x\<lparr>din := f (din x)\<rparr>)"

definition set_dirty :: "nat \<Rightarrow> 'z sfs_fs_scheme \<Rightarrow> 'z sfs_fs_scheme" where
  "set_dirty p = upd_node p (\<lambda>x. x\<lparr>sin_dirty := True\<rparr>)"

text \<open>\<^verbatim>\<open>kmalloc\<close> and \<^verbatim>\<open>kfree\<close>: the answers to the successive requests are the stream \<open>fs_kmalloc\<close>.\<close>

definition fs_alloc :: "'z sfs_fs_scheme \<Rightarrow> nat option \<times> 'z sfs_fs_scheme" where
  "fs_alloc s = (fs_kmalloc s (fs_kmalloc_pos s), s\<lparr>fs_kmalloc_pos := fs_kmalloc_pos s + 1\<rparr>)"

definition fs_free :: "nat \<Rightarrow> 'z sfs_fs_scheme \<Rightarrow> 'z sfs_fs_scheme" where
  "fs_free p s = s\<lparr>fs_kfreed := p # fs_kfreed s\<rparr>"

section \<open>Locks\<close>

definition lock_sfs_fs :: "'z sfs_fs_scheme \<Rightarrow> 'z sfs_fs_scheme kernel" where
  "lock_sfs_fs s = do { v \<leftarrow> sem_take (sfs_fs_sem s); Some (s\<lparr>sfs_fs_sem := v\<rparr>) }"

definition lock_sfs_io :: "'z sfs_fs_scheme \<Rightarrow> 'z sfs_fs_scheme kernel" where
  "lock_sfs_io s = do { v \<leftarrow> sem_take (sfs_io_sem s); Some (s\<lparr>sfs_io_sem := v\<rparr>) }"

definition lock_sfs_mutex :: "'z sfs_fs_scheme \<Rightarrow> 'z sfs_fs_scheme kernel" where
  "lock_sfs_mutex s = do { v \<leftarrow> sem_take (sfs_mutex_sem s); Some (s\<lparr>sfs_mutex_sem := v\<rparr>) }"

definition unlock_sfs_fs :: "'z sfs_fs_scheme \<Rightarrow> 'z sfs_fs_scheme" where
  "unlock_sfs_fs s = s\<lparr>sfs_fs_sem := sfs_fs_sem s + 1\<rparr>"

definition unlock_sfs_io :: "'z sfs_fs_scheme \<Rightarrow> 'z sfs_fs_scheme" where
  "unlock_sfs_io s = s\<lparr>sfs_io_sem := sfs_io_sem s + 1\<rparr>"

definition unlock_sfs_mutex :: "'z sfs_fs_scheme \<Rightarrow> 'z sfs_fs_scheme" where
  "unlock_sfs_mutex s = s\<lparr>sfs_mutex_sem := sfs_mutex_sem s + 1\<rparr>"

definition lock_sin :: "nat \<Rightarrow> 'z sfs_fs_scheme \<Rightarrow> 'z sfs_fs_scheme kernel" where
  "lock_sin p s = do { v \<leftarrow> sem_take (sin_sem (nodes s p)); Some (upd_node p (\<lambda>x. x\<lparr>sin_sem := v\<rparr>) s) }"

definition unlock_sin :: "nat \<Rightarrow> 'z sfs_fs_scheme \<Rightarrow> 'z sfs_fs_scheme" where
  "unlock_sin p = upd_node p (\<lambda>x. x\<lparr>sin_sem := sin_sem x + 1\<rparr>)"

section \<open>Block access: sfs\_io.c\<close>

text \<open>A buffer is an object \<open>m\<close> and the offset \<open>base\<close> the pointer has in it; the new object is returned.\<close>

definition sfs_rwblock_nolock :: "nat \<Rightarrow> u32 \<Rightarrow> bool \<Rightarrow> bool \<Rightarrow> mem \<Rightarrow> 'z sfs_fs_scheme \<Rightarrow> (int \<times> mem \<times> 'z sfs_fs_scheme) kernel" where
  "sfs_rwblock_nolock base blkno write check m s = do {
     kassert ((blkno \<noteq> 0 \<or> \<not> check) \<and> blkno < super_blocks s);
     (ret, _, m', s') \<leftarrow> disk0_io write (iobuf_init base SFS_BLKSIZE (blkno * SFS_BLKSIZE)) m s;
     Some (ret, m', s')
   }"

fun rwblock_loop :: "bool \<Rightarrow> nat \<Rightarrow> nat \<Rightarrow> u32 \<Rightarrow> mem \<Rightarrow> 'z sfs_fs_scheme \<Rightarrow> (int \<times> mem \<times> 'z sfs_fs_scheme) kernel" where
  "rwblock_loop write 0 base blkno m s = Some (0, m, s)"
| "rwblock_loop write (Suc n) base blkno m s = do {
     (ret, m1, s1) \<leftarrow> sfs_rwblock_nolock base blkno write True m s;
     if ret \<noteq> 0 then Some (ret, m1, s1) else rwblock_loop write n (base + 4096) (blkno + 1) m1 s1
   }"

definition sfs_rwblock :: "nat \<Rightarrow> u32 \<Rightarrow> u32 \<Rightarrow> bool \<Rightarrow> mem \<Rightarrow> 'z sfs_fs_scheme \<Rightarrow> (int \<times> mem \<times> 'z sfs_fs_scheme) kernel" where
  "sfs_rwblock base blkno nblks write m s = do {
     s1 \<leftarrow> lock_sfs_io s;
     (ret, m', s2) \<leftarrow> rwblock_loop write (unat nblks) base blkno m s1;
     Some (ret, m', unlock_sfs_io s2)
   }"

definition sfs_rblock :: "nat \<Rightarrow> u32 \<Rightarrow> u32 \<Rightarrow> mem \<Rightarrow> 'z sfs_fs_scheme \<Rightarrow> (int \<times> mem \<times> 'z sfs_fs_scheme) kernel" where
  "sfs_rblock base blkno nblks = sfs_rwblock base blkno nblks False"

definition sfs_wblock :: "nat \<Rightarrow> u32 \<Rightarrow> u32 \<Rightarrow> mem \<Rightarrow> 'z sfs_fs_scheme \<Rightarrow> (int \<times> mem \<times> 'z sfs_fs_scheme) kernel" where
  "sfs_wblock base blkno nblks = sfs_rwblock base blkno nblks True"

definition sfs_rbuf :: "nat \<Rightarrow> u32 \<Rightarrow> u32 \<Rightarrow> u32 \<Rightarrow> mem \<Rightarrow> 'z sfs_fs_scheme \<Rightarrow> (int \<times> mem \<times> 'z sfs_fs_scheme) kernel" where
  "sfs_rbuf base len blkno offset m s = do {
     kassert (sint offset \<ge> 0 \<and> sint offset < 4096 \<and> offset + len \<le> SFS_BLKSIZE);
     s1 \<leftarrow> lock_sfs_io s;
     (ret, buf, s2) \<leftarrow> sfs_rwblock_nolock 0 blkno False True (sfs_buffer s1) s1;
     let m' = (if ret = 0 then obj_copy base (unat offset) (unat len) buf m else m);
     Some (ret, m', unlock_sfs_io (s2\<lparr>sfs_buffer := buf\<rparr>))
   }"

definition sfs_wbuf :: "nat \<Rightarrow> u32 \<Rightarrow> u32 \<Rightarrow> u32 \<Rightarrow> mem \<Rightarrow> 'z sfs_fs_scheme \<Rightarrow> (int \<times> mem \<times> 'z sfs_fs_scheme) kernel" where
  "sfs_wbuf base len blkno offset m s = do {
     kassert (sint offset \<ge> 0 \<and> sint offset < 4096 \<and> offset + len \<le> SFS_BLKSIZE);
     s1 \<leftarrow> lock_sfs_io s;
     (ret, buf, s2) \<leftarrow> sfs_rwblock_nolock 0 blkno False True (sfs_buffer s1) s1;
     (ret', s4) \<leftarrow> (if ret = 0 then do {
         let buf' = obj_copy (unat offset) base (unat len) m buf;
         (r, buf'', s3) \<leftarrow> sfs_rwblock_nolock 0 blkno True True buf' s2;
         Some (r, s3\<lparr>sfs_buffer := buf''\<rparr>)
       }
       else Some (ret, s2\<lparr>sfs_buffer := buf\<rparr>));
     Some (ret', m, unlock_sfs_io s4)
   }"

definition SFS_MAGIC :: u32 where "SFS_MAGIC = 0x2f8dbe2a"

definition super_object :: "'z sfs_fs_scheme \<Rightarrow> mem" where
  "super_object s = store32 0 SFS_MAGIC (store32 4 (super_blocks s) (store32 8 (unused_blocks s)
     (obj_copy 12 0 32 (super_info s) (\<lambda>_. 0))))"

definition sfs_sync_super :: "'z sfs_fs_scheme \<Rightarrow> (int \<times> 'z sfs_fs_scheme) kernel" where
  "sfs_sync_super s = do {
     s1 \<leftarrow> lock_sfs_io s;
     let buf = obj_copy 0 0 44 (super_object s1) (snd (memset 0 0 4096 (sfs_buffer s1)));
     (ret, buf', s2) \<leftarrow> sfs_rwblock_nolock 0 0 True False buf s1;
     Some (ret, unlock_sfs_io (s2\<lparr>sfs_buffer := buf'\<rparr>))
   }"

definition words_object :: "u32 list \<Rightarrow> mem" where
  "words_object ws = (\<lambda>a. if a div 4 < length ws then word_byte (ws ! (a div 4)) (a mod 4) else 0)"

definition sfs_sync_freemap :: "'z sfs_fs_scheme \<Rightarrow> (int \<times> 'z sfs_fs_scheme) kernel" where
  "sfs_sync_freemap s = do {
     let nblks = ROUNDUP_DIV_2N (super_blocks s) 15;
     (ret, _, s') \<leftarrow> sfs_wblock 0 2 nblks (words_object (fst (bitmap_getdata (freemap s)))) s;
     Some (ret, s')
   }"

fun clear_loop :: "nat \<Rightarrow> u32 \<Rightarrow> int \<Rightarrow> 'z sfs_fs_scheme \<Rightarrow> (int \<times> 'z sfs_fs_scheme) kernel" where
  "clear_loop 0 blkno ret s = Some (ret, s)"
| "clear_loop (Suc n) blkno ret s = do {
     (ret', buf, s1) \<leftarrow> sfs_rwblock_nolock 0 blkno True True (sfs_buffer s) s;
     let s2 = s1\<lparr>sfs_buffer := buf\<rparr>;
     if ret' \<noteq> 0 then Some (ret', s2) else clear_loop n (blkno + 1) ret' s2
   }"

definition sfs_clear_block :: "u32 \<Rightarrow> u32 \<Rightarrow> 'z sfs_fs_scheme \<Rightarrow> (int \<times> 'z sfs_fs_scheme) kernel" where
  "sfs_clear_block blkno nblks s = do {
     s1 \<leftarrow> lock_sfs_io s;
     let s2 = s1\<lparr>sfs_buffer := snd (memset 0 0 4096 (sfs_buffer s1))\<rparr>;
     (ret, s3) \<leftarrow> clear_loop (unat nblks) blkno (sint (uninit s)) s2;
     Some (ret, unlock_sfs_io s3)
   }"

section \<open>Blocks and block maps: sfs\_inode.c\<close>

definition sfs_block_inuse :: "u32 \<Rightarrow> 'z sfs_fs_scheme \<Rightarrow> bool kernel" where
  "sfs_block_inuse b s =
     (if b \<noteq> 0 \<and> b < super_blocks s then do { t \<leftarrow> bitmap_test (freemap s) b; Some (\<not> t) } else panic)"

text \<open>The result, the number stored through \<^verbatim>\<open>ino_store\<close>, and the state.\<close>

definition sfs_block_alloc :: "'z sfs_fs_scheme \<Rightarrow> (int \<times> u32 \<times> 'z sfs_fs_scheme) kernel" where
  "sfs_block_alloc s = do {
     (ret, b, fm) \<leftarrow> bitmap_alloc (freemap s);
     if ret \<noteq> 0 then Some (ret, 0, s)
     else do {
       kassert (unused_blocks s > 0);
       let s1 = s\<lparr>freemap := fm, unused_blocks := unused_blocks s - 1, super_dirty := True\<rparr>;
       used \<leftarrow> sfs_block_inuse b s1;
       kassert used;
       (ret', s2) \<leftarrow> sfs_clear_block b 1 s1;
       Some (ret', b, s2)
     }
   }"

definition sfs_block_free :: "u32 \<Rightarrow> 'z sfs_fs_scheme \<Rightarrow> 'z sfs_fs_scheme kernel" where
  "sfs_block_free b s = do {
     used \<leftarrow> sfs_block_inuse b s;
     kassert used;
     fm \<leftarrow> bitmap_free (freemap s) b;
     Some (s\<lparr>freemap := fm, unused_blocks := unused_blocks s + 1, super_dirty := True\<rparr>)
   }"

text \<open>
  \<^verbatim>\<open>sfs_bmap_get_sub_nolock\<close>: \<open>entp\<close> is the value the pointer argument points to at first. The result
  is the return value, the value stored through it at the end and the block found.
\<close>

definition sub_cleanup :: "u32 \<Rightarrow> u32 \<Rightarrow> int \<Rightarrow> 'z sfs_fs_scheme \<Rightarrow> (int \<times> u32 \<times> u32 \<times> 'z sfs_fs_scheme) kernel" where
  "sub_cleanup entp ent ret s =
     (if ent \<noteq> entp then do { s' \<leftarrow> sfs_block_free ent s; Some (ret, entp, 0, s') } else Some (ret, entp, 0, s))"

definition sub_create :: "u32 \<Rightarrow> u32 \<Rightarrow> u32 \<Rightarrow> 'z sfs_fs_scheme \<Rightarrow> (int \<times> u32 \<times> u32 \<times> 'z sfs_fs_scheme) kernel" where
  "sub_create entp ent offset s = do {
     (ret, b, s1) \<leftarrow> sfs_block_alloc s;
     if ret \<noteq> 0 then sub_cleanup entp ent ret s1
     else do {
       (ret', _, s2) \<leftarrow> sfs_wbuf 0 4 ent offset (store32 0 b (\<lambda>_. 0)) s1;
       if ret' \<noteq> 0 then do { s3 \<leftarrow> sfs_block_free b s2; sub_cleanup entp ent ret' s3 }
       else Some (0, ent, b, s2)
     }
   }"

definition sfs_bmap_get_sub_nolock :: "u32 \<Rightarrow> u32 \<Rightarrow> bool \<Rightarrow> 'z sfs_fs_scheme \<Rightarrow> (int \<times> u32 \<times> u32 \<times> 'z sfs_fs_scheme) kernel" where
  "sfs_bmap_get_sub_nolock entp index create s = do {
     kassert (index < SFS_BLK_NENTRY);
     let offset = index * 4;
     if entp \<noteq> 0 then do {
       (ret, m, s1) \<leftarrow> sfs_rbuf 0 4 entp offset (\<lambda>_. 0) s;
       if ret \<noteq> 0 then Some (ret, entp, 0, s1)
       else if load32 m 0 \<noteq> 0 \<or> \<not> create then Some (0, entp, load32 m 0, s1)
       else sub_create entp entp offset s1
     }
     else if \<not> create then Some (0, entp, 0, s)
     else do {
       (ret, ent, s1) \<leftarrow> sfs_block_alloc s;
       if ret \<noteq> 0 then Some (ret, entp, 0, s1) else sub_create entp ent offset s1
     }
   }"

text \<open>The check at \<^verbatim>\<open>out\<close>.\<close>

definition bmap_out :: "u32 \<Rightarrow> 'z sfs_fs_scheme \<Rightarrow> (int \<times> u32 \<times> 'z sfs_fs_scheme) kernel" where
  "bmap_out b s =
     (if b = 0 then Some (0, b, s) else do { used \<leftarrow> sfs_block_inuse b s; kassert used; Some (0, b, s) })"

definition sfs_bmap_get_nolock :: "nat \<Rightarrow> u32 \<Rightarrow> bool \<Rightarrow> 'z sfs_fs_scheme \<Rightarrow> (int \<times> u32 \<times> 'z sfs_fs_scheme) kernel" where
  "sfs_bmap_get_nolock p index create s =
     (if index < SFS_NDIRECT then
        let b = direct (din (nodes s p)) (unat index) in
        if b = 0 \<and> create then do {
          (ret, b', s1) \<leftarrow> sfs_block_alloc s;
          if ret \<noteq> 0 then Some (ret, 0, s1)
          else bmap_out b' (set_dirty p (upd_din p (\<lambda>x. x\<lparr>direct := (direct x)(unat index := b')\<rparr>) s1))
        }
        else bmap_out b s
      else let index1 = index - SFS_NDIRECT in
      if index1 < SFS_BLK_NENTRY then do {
        (ret, ent, b, s1) \<leftarrow> sfs_bmap_get_sub_nolock (indirect (din (nodes s p))) index1 create s;
        if ret \<noteq> 0 then Some (ret, 0, s1)
        else if ent \<noteq> indirect (din (nodes s1 p)) then do {
          kassert (indirect (din (nodes s1 p)) = 0);
          bmap_out b (set_dirty p (upd_din p (\<lambda>x. x\<lparr>indirect := ent\<rparr>) s1))
        }
        else bmap_out b s1
      }
      else let index2 = index1 - SFS_BLK_NENTRY in
      if uninit s \<noteq> 0 then do {
        (ret, _, b, s1) \<leftarrow> sfs_bmap_get_sub_nolock (uninit s) (index2 mod SFS_BLK_NENTRY) create s;
        if ret \<noteq> 0 then Some (ret, 0, s1) else bmap_out b s1
      }
      else bmap_out (uninit s) s)"

definition sfs_bmap_free_sub_nolock :: "u32 \<Rightarrow> u32 \<Rightarrow> 'z sfs_fs_scheme \<Rightarrow> (int \<times> 'z sfs_fs_scheme) kernel" where
  "sfs_bmap_free_sub_nolock ent index s = do {
     used \<leftarrow> sfs_block_inuse ent s;
     kassert (used \<and> index < SFS_BLK_NENTRY);
     let offset = index * 4;
     (ret, m, s1) \<leftarrow> sfs_rbuf 0 4 ent offset (\<lambda>_. 0) s;
     if ret \<noteq> 0 then Some (ret, s1)
     else if load32 m 0 \<noteq> 0 then do {
       (ret', _, s2) \<leftarrow> sfs_wbuf 0 4 ent offset (\<lambda>_. 0) s1;
       if ret' \<noteq> 0 then Some (ret', s2)
       else do { s3 \<leftarrow> sfs_block_free (load32 m 0) s2; Some (0, s3) }
     }
     else Some (0, s1)
   }"

definition sfs_bmap_free_nolock :: "nat \<Rightarrow> u32 \<Rightarrow> 'z sfs_fs_scheme \<Rightarrow> (int \<times> 'z sfs_fs_scheme) kernel" where
  "sfs_bmap_free_nolock p index s =
     (if index < SFS_NDIRECT then
        let b = direct (din (nodes s p)) (unat index) in
        if b \<noteq> 0 then do {
          s1 \<leftarrow> sfs_block_free b s;
          Some (0, set_dirty p (upd_din p (\<lambda>x. x\<lparr>direct := (direct x)(unat index := 0)\<rparr>) s1))
        }
        else Some (0, s)
      else let index1 = index - SFS_NDIRECT in
      if index1 < SFS_BLK_NENTRY then
        let ent = indirect (din (nodes s p)) in
        if ent \<noteq> 0 then do {
          (ret, s1) \<leftarrow> sfs_bmap_free_sub_nolock ent index1 s;
          if ret \<noteq> 0 then Some (ret, s1) else Some (0, s1)
        }
        else Some (0, s)
      else Some (0, s))"

definition sfs_bmap_load_nolock :: "nat \<Rightarrow> u32 \<Rightarrow> 'z sfs_fs_scheme \<Rightarrow> (int \<times> u32 \<times> 'z sfs_fs_scheme) kernel" where
  "sfs_bmap_load_nolock p index s = do {
     kassert (index \<le> din_blocks (din (nodes s p)));
     let create = (index = din_blocks (din (nodes s p)));
     (ret, b, s1) \<leftarrow> sfs_bmap_get_nolock p index create s;
     if ret \<noteq> 0 then Some (ret, 0, s1)
     else do {
       used \<leftarrow> sfs_block_inuse b s1;
       kassert used;
       Some (0, b, if create then upd_din p (\<lambda>x. x\<lparr>din_blocks := din_blocks x + 1\<rparr>) s1 else s1)
     }
   }"

definition sfs_bmap_truncate_nolock :: "nat \<Rightarrow> 'z sfs_fs_scheme \<Rightarrow> (int \<times> 'z sfs_fs_scheme) kernel" where
  "sfs_bmap_truncate_nolock p s = do {
     kassert (din_blocks (din (nodes s p)) \<noteq> 0);
     (ret, s1) \<leftarrow> sfs_bmap_free_nolock p (din_blocks (din (nodes s p)) - 1) s;
     if ret \<noteq> 0 then Some (ret, s1)
     else Some (0, set_dirty p (upd_din p (\<lambda>x. x\<lparr>din_blocks := din_blocks x - 1\<rparr>) s1))
   }"

section \<open>Reading and writing files\<close>

definition sfs_buf_op :: "bool \<Rightarrow> nat \<Rightarrow> u32 \<Rightarrow> u32 \<Rightarrow> u32 \<Rightarrow> mem \<Rightarrow> 'z sfs_fs_scheme \<Rightarrow> (int \<times> mem \<times> 'z sfs_fs_scheme) kernel" where
  "sfs_buf_op write = (if write then sfs_wbuf else sfs_rbuf)"

definition sfs_block_op :: "bool \<Rightarrow> nat \<Rightarrow> u32 \<Rightarrow> u32 \<Rightarrow> mem \<Rightarrow> 'z sfs_fs_scheme \<Rightarrow> (int \<times> mem \<times> 'z sfs_fs_scheme) kernel" where
  "sfs_block_op write = (if write then sfs_wblock else sfs_rblock)"

text \<open>
  One partial block of \<^verbatim>\<open>sfs_io_nolock\<close>, the loop over the whole blocks, and the three steps in
  order. The results are the return value (non-zero is the jump to \<^verbatim>\<open>out\<close>), the bytes moved so far,
  the buffer and the state.
\<close>

definition io_part :: "bool \<Rightarrow> nat \<Rightarrow> nat \<Rightarrow> u32 \<Rightarrow> u32 \<Rightarrow> u32 \<Rightarrow> mem \<Rightarrow> 'z sfs_fs_scheme \<Rightarrow> (int \<times> mem \<times> 'z sfs_fs_scheme) kernel" where
  "io_part write p base sz blkno blkoff m s = do {
     (ret, b, s1) \<leftarrow> sfs_bmap_load_nolock p blkno s;
     if ret \<noteq> 0 then Some (ret, m, s1) else sfs_buf_op write base sz b blkoff m s1
   }"

fun io_loop :: "bool \<Rightarrow> nat \<Rightarrow> nat \<Rightarrow> nat \<Rightarrow> u32 \<Rightarrow> u32 \<Rightarrow> mem \<Rightarrow> 'z sfs_fs_scheme \<Rightarrow>
    (int \<times> u32 \<times> nat \<times> u32 \<times> mem \<times> 'z sfs_fs_scheme) kernel" where
  "io_loop write p 0 base blkno alen m s = Some (0, alen, base, blkno, m, s)"
| "io_loop write p (Suc n) base blkno alen m s = do {
     (ret, b, s1) \<leftarrow> sfs_bmap_load_nolock p blkno s;
     if ret \<noteq> 0 then Some (ret, alen, base, blkno, m, s1)
     else do {
       (ret', m', s2) \<leftarrow> sfs_block_op write base b 1 m s1;
       if ret' \<noteq> 0 then Some (ret', alen, base, blkno, m', s2)
       else io_loop write p n (base + 4096) (blkno + 1) (alen + SFS_BLKSIZE) m' s2
     }
   }"

definition io_rest :: "bool \<Rightarrow> nat \<Rightarrow> nat \<Rightarrow> u32 \<Rightarrow> u32 \<Rightarrow> u32 \<Rightarrow> u32 \<Rightarrow> mem \<Rightarrow> 'z sfs_fs_scheme \<Rightarrow> (int \<times> u32 \<times> mem \<times> 'z sfs_fs_scheme) kernel" where
  "io_rest write p base endpos blkno nblks alen m s = do {
     (ret, alen1, base1, blkno1, m1, s1) \<leftarrow> io_loop write p (unat nblks) base blkno alen m s;
     if ret \<noteq> 0 then Some (ret, alen1, m1, s1)
     else let sz = c_mod endpos SFS_BLKSIZE in
       if sz \<noteq> 0 then do {
         (ret', m2, s2) \<leftarrow> io_part write p base1 sz blkno1 0 m1 s1;
         Some (ret', if ret' \<noteq> 0 then alen1 else alen1 + sz, m2, s2)
       }
       else Some (0, alen1, m1, s1)
   }"

definition io_body :: "bool \<Rightarrow> nat \<Rightarrow> nat \<Rightarrow> u32 \<Rightarrow> u32 \<Rightarrow> mem \<Rightarrow> 'z sfs_fs_scheme \<Rightarrow> (int \<times> u32 \<times> mem \<times> 'z sfs_fs_scheme) kernel" where
  "io_body write p base offset endpos m s =
     (let blkno = c_div offset SFS_BLKSIZE; nblks = c_div endpos SFS_BLKSIZE - blkno; blkoff = c_mod offset SFS_BLKSIZE
      in if blkoff \<noteq> 0 then
           let sz = (if nblks \<noteq> 0 then SFS_BLKSIZE - blkoff else endpos - offset) in do {
             (ret, m1, s1) \<leftarrow> io_part write p base sz blkno blkoff m s;
             if ret \<noteq> 0 then Some (ret, 0, m1, s1)
             else if nblks = 0 then Some (0, sz, m1, s1)
             else io_rest write p (base + unat sz) endpos (blkno + 1) (nblks - 1) sz m1 s1
           }
         else io_rest write p base endpos blkno nblks 0 m s)"

definition sfs_io_nolock :: "bool \<Rightarrow> nat \<Rightarrow> nat \<Rightarrow> u32 \<Rightarrow> u32 \<Rightarrow> mem \<Rightarrow> 'z sfs_fs_scheme \<Rightarrow> (int \<times> u32 \<times> mem \<times> 'z sfs_fs_scheme) kernel" where
  "sfs_io_nolock write p base offset len m s = do {
     kassert (din_type (din (nodes s p)) \<noteq> SFS_TYPE_DIR);
     let endpos = offset + len;
     if sint offset < 0 \<or> offset \<ge> SFS_MAX_FILE_SIZE \<or> sint offset > sint endpos then Some (- errno_of E_INVAL, 0, m, s)
     else if offset = endpos then Some (0, 0, m, s)
     else let endpos1 = (if endpos > SFS_MAX_FILE_SIZE then SFS_MAX_FILE_SIZE else endpos);
              fsize = din_size (din (nodes s p)) in
     if \<not> write \<and> offset \<ge> fsize then Some (0, 0, m, s)
     else let endpos2 = (if \<not> write \<and> endpos1 > fsize then fsize else endpos1) in do {
       (ret, alen, m', s') \<leftarrow> io_body write p base offset endpos2 m s;
       Some (ret, alen, m',
         if offset + alen > din_size (din (nodes s' p))
         then set_dirty p (upd_din p (\<lambda>x. x\<lparr>din_size := offset + alen\<rparr>) s') else s')
     }
   }"

definition sfs_io :: "bool \<Rightarrow> nat \<Rightarrow> iobuf \<Rightarrow> mem \<Rightarrow> 'z sfs_fs_scheme \<Rightarrow> (int \<times> iobuf \<times> mem \<times> 'z sfs_fs_scheme) kernel" where
  "sfs_io write p iob m s = do {
     s1 \<leftarrow> lock_sin p s;
     (ret, alen, m', s2) \<leftarrow> sfs_io_nolock write p (io_base iob) (io_offset iob) (io_resid iob) m s1;
     iob' \<leftarrow> (if alen \<noteq> 0 then iobuf_skip alen iob else Some iob);
     Some (ret, iob', m', unlock_sin p s2)
   }"

definition sfs_read :: "nat \<Rightarrow> iobuf \<Rightarrow> mem \<Rightarrow> 'z sfs_fs_scheme \<Rightarrow> (int \<times> iobuf \<times> mem \<times> 'z sfs_fs_scheme) kernel" where
  "sfs_read = sfs_io False"

definition sfs_write :: "nat \<Rightarrow> iobuf \<Rightarrow> mem \<Rightarrow> 'z sfs_fs_scheme \<Rightarrow> (int \<times> iobuf \<times> mem \<times> 'z sfs_fs_scheme) kernel" where
  "sfs_write = sfs_io True"

section \<open>The other file operations\<close>

record stat =
  st_mode :: u32
  st_nlinks :: u32
  st_blocks :: u32
  st_size :: u32

abbreviation (input) S_IFREG :: u32 where "S_IFREG \<equiv> 4096"
abbreviation (input) S_IFDIR :: u32 where "S_IFDIR \<equiv> 8192"
abbreviation (input) S_IFLNK :: u32 where "S_IFLNK \<equiv> 12288"
abbreviation (input) O_ACCMODE :: u32 where "O_ACCMODE \<equiv> 3"
abbreviation (input) O_RDONLY :: u32 where "O_RDONLY \<equiv> 0"
abbreviation (input) O_APPEND :: u32 where "O_APPEND \<equiv> 32"

definition sfs_opendir :: "u32 \<Rightarrow> int" where
  "sfs_opendir open_flags =
     (if open_flags AND O_ACCMODE \<noteq> O_RDONLY then - errno_of E_ISDIR
      else if open_flags AND O_APPEND \<noteq> 0 then - errno_of E_ISDIR else 0)"

definition sfs_openfile :: "u32 \<Rightarrow> int" where
  "sfs_openfile open_flags = 0"

definition sfs_gettype :: "nat \<Rightarrow> 'z sfs_fs_scheme \<Rightarrow> (int \<times> u32) kernel" where
  "sfs_gettype p s =
     (let t = din_type (din (nodes s p))
      in if t = SFS_TYPE_DIR then Some (0, S_IFDIR)
         else if t = SFS_TYPE_FILE then Some (0, S_IFREG)
         else if t = SFS_TYPE_LINK then Some (0, S_IFLNK) else panic)"

text \<open>The consistency check every \<^verbatim>\<open>vop_*\<close> call makes first.\<close>

definition inode_check :: "nat \<Rightarrow> 'z sfs_fs_scheme \<Rightarrow> unit kernel" where
  "inode_check p s = do {
     kassert (ref_count (nodes s p) \<ge> open_count (nodes s p) \<and> open_count (nodes s p) \<ge> 0);
     kassert (ref_count (nodes s p) < 0x10000 \<and> open_count (nodes s p) < 0x10000)
   }"

definition sfs_fstat :: "nat \<Rightarrow> 'z sfs_fs_scheme \<Rightarrow> (int \<times> stat) kernel" where
  "sfs_fstat p s = do {
     inode_check p s;
     (ret, mode) \<leftarrow> sfs_gettype p s;
     if ret \<noteq> 0 then Some (ret, \<lparr>st_mode = mode, st_nlinks = 0, st_blocks = 0, st_size = 0\<rparr>)
     else Some (0, \<lparr>st_mode = mode, st_nlinks = din_nlinks (din (nodes s p)), st_blocks = din_blocks (din (nodes s p)),
                    st_size = din_size (din (nodes s p))\<rparr>)
   }"

definition din_object :: "sfs_disk_inode \<Rightarrow> mem" where
  "din_object x = store32 0 (din_size x) (store32 4 (din_type x AND 0xFFFF OR push_bit 16 (din_nlinks x)) (store32 8 (din_blocks x)
     (fold (\<lambda>i. store32 (12 + 4 * i) (direct x i)) [0..<12] (store32 60 (indirect x) (\<lambda>_. 0)))))"

definition load_din :: "mem \<Rightarrow> sfs_disk_inode" where
  "load_din m = \<lparr>din_size = load32 m 0, din_type = load32 m 4 AND 0xFFFF, din_nlinks = drop_bit 16 (load32 m 4),
     din_blocks = load32 m 8, direct = (\<lambda>i. if i < 12 then load32 m (12 + 4 * i) else 0), indirect = load32 m 60\<rparr>"

definition sfs_fsync :: "nat \<Rightarrow> 'z sfs_fs_scheme \<Rightarrow> (int \<times> 'z sfs_fs_scheme) kernel" where
  "sfs_fsync p s =
     (if sin_dirty (nodes s p) then do {
        s1 \<leftarrow> lock_sin p s;
        (ret, s3) \<leftarrow> (if sin_dirty (nodes s1 p) then do {
            let s2 = upd_node p (\<lambda>x. x\<lparr>sin_dirty := False\<rparr>) s1;
            (ret, _, s3) \<leftarrow> sfs_wbuf 0 64 (sin_ino (nodes s2 p)) 0 (din_object (din (nodes s2 p))) s2;
            Some (ret, if ret \<noteq> 0 then set_dirty p s3 else s3)
          }
          else Some (0, s1));
        Some (ret, unlock_sin p s3)
      }
      else Some (0, s))"

definition vop_fsync :: "nat \<Rightarrow> 'z sfs_fs_scheme \<Rightarrow> (int \<times> 'z sfs_fs_scheme) kernel" where
  "vop_fsync p s = do { inode_check p s; sfs_fsync p s }"

definition sfs_close :: "nat \<Rightarrow> 'z sfs_fs_scheme \<Rightarrow> (int \<times> 'z sfs_fs_scheme) kernel" where
  "sfs_close p s = vop_fsync p s"

fun grow_loop :: "nat \<Rightarrow> nat \<Rightarrow> u32 \<Rightarrow> 'z sfs_fs_scheme \<Rightarrow> (int \<times> 'z sfs_fs_scheme) kernel" where
  "grow_loop p 0 nblks s = Some (0, s)"
| "grow_loop p (Suc n) nblks s = do {
     (ret, _, s1) \<leftarrow> sfs_bmap_load_nolock p nblks s;
     if ret \<noteq> 0 then Some (ret, s1) else grow_loop p n (nblks + 1) s1
   }"

fun shrink_loop :: "nat \<Rightarrow> nat \<Rightarrow> 'z sfs_fs_scheme \<Rightarrow> (int \<times> 'z sfs_fs_scheme) kernel" where
  "shrink_loop p 0 s = Some (0, s)"
| "shrink_loop p (Suc n) s = do {
     (ret, s1) \<leftarrow> sfs_bmap_truncate_nolock p s;
     if ret \<noteq> 0 then Some (ret, s1) else shrink_loop p n s1
   }"

definition sfs_truncfile :: "nat \<Rightarrow> u32 \<Rightarrow> 'z sfs_fs_scheme \<Rightarrow> (int \<times> 'z sfs_fs_scheme) kernel" where
  "sfs_truncfile p len s =
     (if sint len < 0 \<or> len > SFS_MAX_FILE_SIZE then Some (- errno_of E_INVAL, s)
      else let tblks = ROUNDUP_DIV_2N len 12 in
      if din_size (din (nodes s p)) = len then do { kassert (tblks = din_blocks (din (nodes s p))); Some (0, s) }
      else do {
        s1 \<leftarrow> lock_sin p s;
        let nblks = din_blocks (din (nodes s1 p));
        (ret, s2) \<leftarrow> (if nblks < tblks then grow_loop p (unat (tblks - nblks)) nblks s1
                      else if tblks < nblks then shrink_loop p (unat (nblks - tblks)) s1
                      else Some (0, s1));
        if ret \<noteq> 0 then Some (ret, unlock_sin p s2)
        else do {
          kassert (din_blocks (din (nodes s2 p)) = tblks);
          Some (0, unlock_sin p (set_dirty p (upd_din p (\<lambda>x. x\<lparr>din_size := len\<rparr>) s2)))
        }
      })"

text \<open>Directories have no truncate operation: calling it there fails the assertion of the call macro.\<close>

definition vop_truncate :: "nat \<Rightarrow> u32 \<Rightarrow> 'z sfs_fs_scheme \<Rightarrow> (int \<times> 'z sfs_fs_scheme) kernel" where
  "vop_truncate p len s = do {
     kassert (in_ops (nodes s p) = FileOps);
     inode_check p s;
     sfs_truncfile p len s
   }"

definition sfs_tryseek :: "nat \<Rightarrow> u32 \<Rightarrow> 'z sfs_fs_scheme \<Rightarrow> (int \<times> 'z sfs_fs_scheme) kernel" where
  "sfs_tryseek p pos s =
     (if sint pos < 0 \<or> pos \<ge> SFS_MAX_FILE_SIZE then Some (- errno_of E_INVAL, s)
      else if pos > din_size (din (nodes s p)) then vop_truncate p pos s
      else Some (0, s))"

end
