(* ===== verification/SfsBlock.thy ===== *)
theory SfsBlock
  imports Sfs
begin

text \<open>
  Block access of the file system proved correct on the RAM disk: a block read or written through
  \<^verbatim>\<open>sfs_rbuf\<close>, \<^verbatim>\<open>sfs_wbuf\<close>, \<^verbatim>\<open>sfs_rblock\<close> and \<^verbatim>\<open>sfs_wblock\<close> is the transfer of those bytes of the disk
  image, blocks are allocated and freed exactly, and the block map of an inode is a finite injective
  sequence of blocks that \<^verbatim>\<open>sfs_bmap_load_nolock\<close> extends at its end.
\<close>

section \<open>Words in bytes\<close>

lemma bit_load32: "bit (load32 m a) k \<longleftrightarrow> k < 32 \<and> bit (m (a + k div 8)) (k mod 8)"
proof (cases "k < 32")
  case True
  then consider "k < 8" | "8 \<le> k" "k < 16" | "16 \<le> k" "k < 24" | "24 \<le> k" "k < 32" by linarith
  then show ?thesis
  proof cases
    case 1
    then have "k div 8 = 0" "k mod 8 = k" by simp_all
    with 1 show ?thesis by (auto simp: load32_def bit_simps)
  next
    case 2
    then have d: "k div 8 = 1" by (simp add: div_nat_eqI)
    then have e: "k mod 8 = k - 8" by (simp add: modulo_nat_def)
    from 2 show ?thesis unfolding d e by (auto simp: load32_def bit_simps dest: bit_imp_possible_bit)
  next
    case 3
    then have d: "k div 8 = 2" by (simp add: div_nat_eqI)
    then have e: "k mod 8 = k - 16" by (simp add: modulo_nat_def)
    from 3 show ?thesis unfolding d e by (auto simp: load32_def bit_simps dest: bit_imp_possible_bit)
  next
    case 4
    then have d: "k div 8 = 3" by (simp add: div_nat_eqI)
    then have e: "k mod 8 = k - 24" by (simp add: modulo_nat_def)
    from 4 show ?thesis unfolding d e by (auto simp: load32_def bit_simps dest: bit_imp_possible_bit)
  qed
next
  case False
  then show ?thesis using bit_imp_possible_bit [of "load32 m a" k] by (auto simp: possible_bit_def)
qed

lemma load32_bytes: "(\<And>k. k < 4 \<Longrightarrow> m (a + k) = word_byte w k) \<Longrightarrow> load32 m a = w"
proof (rule bit_eqI)
  fix k assume b: "\<And>k. k < 4 \<Longrightarrow> m (a + k) = word_byte w k" and "possible_bit TYPE(32 word) k"
  then have k: "k < 32" by (simp add: possible_bit_def)
  then have "k div 8 < 4" by (simp add: div_less_iff_less_mult)
  then have "m (a + k div 8) = word_byte w (k div 8)" by (rule b)
  then show "bit (load32 m a) k = bit w k" using k by (simp add: bit_load32 word_byte_def bit_simps)
qed

lemma load32_cong: "(\<And>k. k < 4 \<Longrightarrow> m (a + k) = m' (a' + k)) \<Longrightarrow> load32 m a = load32 m' a'"
proof (rule bit_eqI)
  fix k assume b: "\<And>k. k < 4 \<Longrightarrow> m (a + k) = m' (a' + k)" and "possible_bit TYPE(32 word) k"
  then have "k div 8 < 4" by (simp add: possible_bit_def div_less_iff_less_mult)
  then show "bit (load32 m a) k = bit (load32 m' a') k" by (simp add: bit_load32 b)
qed

lemma load32_store32 [simp]: "load32 (store32 a w m) a = w"
  by (rule load32_bytes) (simp add: store32_def)

lemma load32_0 [simp]: "load32 (\<lambda>_. 0) a = 0"
  by (rule load32_bytes) (simp add: word_byte_def)

section \<open>Blocks on the disk\<close>

definition fs_free_blocks :: "'z sfs_fs_scheme \<Rightarrow> nat set" where
  "fs_free_blocks s = free_bits (freemap s)"

definition sfs_ok :: "'z sfs_fs_scheme \<Rightarrow> bool" where
  "sfs_ok s \<longleftrightarrow> disk_ok s \<and> sfs_io_sem s = 1 \<and> unat (super_blocks s) \<le> unat (d_blocks s) \<and> bitmap_ok (freemap s) \<and>
     unat (super_blocks s) \<le> unat (nbits (freemap s)) \<and> fs_free_blocks s \<subseteq> {1..<unat (super_blocks s)} \<and>
     unat (unused_blocks s) = card (fs_free_blocks s)"

text \<open>What the block operations may change.\<close>

definition keeps :: "'z sfs_fs_scheme \<Rightarrow> 'z sfs_fs_scheme \<Rightarrow> bool" where
  "keeps s s' \<longleftrightarrow> (\<exists>a b c d e f g. s' = s\<lparr>disk0_buffer := a, rd := b, sfs_buffer := c, freemap := d,
     unused_blocks := e, super_dirty := f, nodes := g\<rparr>)"

lemma keepsI: "s' = s\<lparr>disk0_buffer := a, rd := b, sfs_buffer := c, freemap := d, unused_blocks := e, super_dirty := f, nodes := g\<rparr> \<Longrightarrow> keeps s s'"
  unfolding keeps_def by blast

lemma keeps_refl [simp]: "keeps s s"
  by (rule keepsI [where a = "disk0_buffer s" and b = "rd s" and c = "sfs_buffer s" and d = "freemap s" and e = "unused_blocks s"
        and f = "super_dirty s" and g = "nodes s"]) simp

lemma keepsD:
  assumes "keeps s s'"
  shows "sfs_io_sem s' = sfs_io_sem s" "super_blocks s' = super_blocks s" "d_blocks s' = d_blocks s" "ide_valid s' = ide_valid s"
    "rd_size s' = rd_size s" "disk0_sem s' = disk0_sem s" "uninit s' = uninit s" "sfs_fs_sem s' = sfs_fs_sem s"
    "node_links s' = node_links s" "fs_kmalloc s' = fs_kmalloc s" "fs_kmalloc_pos s' = fs_kmalloc_pos s"
  using assms by (auto simp: keeps_def)

lemma keeps_trans: "keeps s s1 \<Longrightarrow> keeps s1 s2 \<Longrightarrow> keeps s s2"
  unfolding keeps_def [of s s1] keeps_def [of s1 s2] by clarsimp (rule keepsI, rule refl)

text \<open>Only buffers and the disk image change.\<close>

definition io_only :: "'z sfs_fs_scheme \<Rightarrow> 'z sfs_fs_scheme \<Rightarrow> bool" where
  "io_only s s' \<longleftrightarrow> keeps s s' \<and> freemap s' = freemap s \<and> unused_blocks s' = unused_blocks s \<and> super_dirty s' = super_dirty s \<and> nodes s' = nodes s"

lemma io_only_trans: "io_only s s1 \<Longrightarrow> io_only s1 s2 \<Longrightarrow> io_only s s2"
  by (auto simp: io_only_def intro: keeps_trans)

lemma io_only_refl [simp]: "io_only s s"
  by (simp add: io_only_def)

lemma io_only_ok: "io_only s s' \<Longrightarrow> sfs_ok s' = sfs_ok s"
  using keepsD [of s s'] by (simp add: io_only_def sfs_ok_def disk_ok_def fs_free_blocks_def)

lemma rwblock_spec:
  fixes s :: "'z sfs_fs_scheme"
  assumes ok: "disk_ok s" "unat (super_blocks s) \<le> unat (d_blocks s)" and b: "b \<noteq> 0 \<or> \<not> check" "b < super_blocks s"
  shows "\<exists>s'. sfs_rwblock_nolock base b write check m s =
      Some (0, if write then m else obj_copy base (unat b * 4096) 4096 (rd s) m, s') \<and>
    s' = s\<lparr>disk0_buffer := disk0_buffer s', rd := rd s'\<rparr> \<and>
    rd s' = (if write then obj_copy (unat b * 4096) base 4096 m (rd s) else rd s)"
proof -
  have bb: "unat b < unat (d_blocks s)" "unat (d_blocks s) < 2 ^ 19" using ok b by (simp_all add: word_less_nat_alt disk_ok_def)
  then have u: "unat (b * 4096) = unat b * 4096" by (subst unat_mult_u32) simp_all
  let ?iob = "iobuf_init base 4096 (b * 4096)"
  have o: "unat (io_offset ?iob) < 2 ^ 31" using bb u by (simp add: iobuf_init_def)
  have "\<not> (unat (io_offset ?iob) mod 4096 \<noteq> 0 \<or> unat (io_resid ?iob) mod 4096 \<noteq> 0 \<or>
      unat (io_offset ?iob) div 4096 + unat (io_resid ?iob) div 4096 > unat (d_blocks s))" using bb u by (simp add: iobuf_init_def)
  with disk0_io_cases [OF ok(1) o, of "write" m] obtain s' where
    "disk0_io write ?iob m s = Some (0, iob_after (io_resid ?iob) ?iob,
        if write then m else obj_copy (io_base ?iob) (unat (io_offset ?iob) div 4096 * 4096) (unat (io_resid ?iob)) (rd s) m, s')"
    "s' = s\<lparr>disk0_buffer := disk0_buffer s', rd := rd s'\<rparr>"
    "rd s' = (if write then obj_copy (unat (io_offset ?iob) div 4096 * 4096) (io_base ?iob) (unat (io_resid ?iob)) m (rd s) else rd s)"
    by (auto split: if_splits)
  with u b show ?thesis by (intro exI [of _ s']) (simp add: sfs_rwblock_nolock_def iobuf_init_def)
qed

lemma sfs_ok_disk: "sfs_ok s \<Longrightarrow> disk_ok s" "sfs_ok s \<Longrightarrow> unat (super_blocks s) \<le> unat (d_blocks s)" "sfs_ok s \<Longrightarrow> sfs_io_sem s = 1"
  by (simp_all add: sfs_ok_def)

text \<open>A buffer operation under the I/O lock.\<close>

lemma lock_io: "sfs_io_sem s = 1 \<Longrightarrow> lock_sfs_io s = Some (s\<lparr>sfs_io_sem := 0\<rparr>)"
  by (simp add: lock_sfs_io_def sem_take_def)

lemma unlock_io_frame:
  "t = s\<lparr>sfs_io_sem := 0, disk0_buffer := a, rd := r\<rparr> \<Longrightarrow> sfs_io_sem s = 1 \<Longrightarrow>
   unlock_sfs_io (t\<lparr>sfs_buffer := x\<rparr>) = s\<lparr>disk0_buffer := a, rd := r, sfs_buffer := x\<rparr>"
  by (simp add: unlock_sfs_io_def)

lemma buf_range: "off < 4096 \<Longrightarrow> unat off + unat len \<le> 4096 \<Longrightarrow> sint (off :: u32) \<ge> 0 \<and> sint off < 4096 \<and> off + len \<le> 4096"
proof -
  assume a: "off < 4096" "unat off + unat len \<le> 4096"
  then have o: "unat off < 4096" by (simp add: word_less_nat_alt)
  then have u: "uint off < 4096" by (simp add: uint_nat del: of_nat_unat)
  have s: "sint off = uint off" by (rule sint_small) (use o in simp)
  have "unat (off + len) \<le> 4096" using a(2) by (subst unat_add_u32) simp_all
  then show ?thesis using s u by (simp add: word_le_nat_alt)
qed

lemma sfs_rbuf_spec:
  fixes s :: "'z sfs_fs_scheme"
  assumes ok: "sfs_ok s" and b: "b \<noteq> 0" "b < super_blocks s" and off: "off < 4096" "unat off + unat len \<le> 4096"
  shows "\<exists>s'. sfs_rbuf base len b off m s = Some (0, obj_copy base (unat b * 4096 + unat off) (unat len) (rd s) m, s') \<and>
    io_only s s' \<and> rd s' = rd s"
proof -
  let ?s1 = "s\<lparr>sfs_io_sem := 0\<rparr>"
  obtain s2 where s2: "sfs_rwblock_nolock 0 b False True (sfs_buffer ?s1) ?s1 = Some (0, obj_copy 0 (unat b * 4096) 4096 (rd s) (sfs_buffer s), s2)"
    "s2 = ?s1\<lparr>disk0_buffer := disk0_buffer s2, rd := rd s2\<rparr>" "rd s2 = rd s"
    using rwblock_spec [of ?s1 b True 0 False "sfs_buffer s"] sfs_ok_disk [OF ok] b by (auto simp: disk_ok_def)
  let ?buf = "obj_copy 0 (unat b * 4096) 4096 (rd s) (sfs_buffer s)"
  let ?s' = "s\<lparr>disk0_buffer := disk0_buffer s2, sfs_buffer := ?buf\<rparr>"
  have e: "unlock_sfs_io (s2\<lparr>sfs_buffer := ?buf\<rparr>) = ?s'"
    using unlock_io_frame [OF s2(2) sfs_ok_disk(3) [OF ok]] by (simp add: s2(3))
  have c: "obj_copy base (unat off) (unat len) ?buf m = obj_copy base (unat b * 4096 + unat off) (unat len) (rd s) m"
    using off(2) by (intro ext) (auto simp: obj_copy_def add.assoc)
  have "sfs_rbuf base len b off m s = Some (0, obj_copy base (unat b * 4096 + unat off) (unat len) (rd s) m, ?s')"
    unfolding sfs_rbuf_def lock_io [OF sfs_ok_disk(3) [OF ok]] using buf_range [OF off] s2(1) e c by (simp add: Let_def)
  moreover have "io_only s ?s'"
    unfolding io_only_def by (auto intro!: keepsI [where b = "rd s" and d = "freemap s" and e = "unused_blocks s" and f = "super_dirty s" and g = "nodes s"])
  ultimately show ?thesis by (intro exI [of _ ?s']) simp
qed

lemma sfs_wbuf_spec:
  fixes s :: "'z sfs_fs_scheme"
  assumes ok: "sfs_ok s" and b: "b \<noteq> 0" "b < super_blocks s" and off: "off < 4096" "unat off + unat len \<le> 4096"
  shows "\<exists>s'. sfs_wbuf base len b off m s = Some (0, m, s') \<and> io_only s s' \<and>
    rd s' = obj_copy (unat b * 4096 + unat off) base (unat len) m (rd s)"
proof -
  let ?s1 = "s\<lparr>sfs_io_sem := 0\<rparr>"
  let ?buf = "obj_copy 0 (unat b * 4096) 4096 (rd s) (sfs_buffer s)"
  let ?buf' = "obj_copy (unat off) base (unat len) m ?buf"
  obtain s2 where s2: "sfs_rwblock_nolock 0 b False True (sfs_buffer ?s1) ?s1 = Some (0, ?buf, s2)"
    "s2 = ?s1\<lparr>disk0_buffer := disk0_buffer s2, rd := rd s2\<rparr>" "rd s2 = rd s"
    using rwblock_spec [of ?s1 b True 0 False "sfs_buffer s"] sfs_ok_disk [OF ok] b by (auto simp: disk_ok_def)
  have f2: "disk_ok s2 = disk_ok s" "super_blocks s2 = super_blocks s" "d_blocks s2 = d_blocks s" "sfs_io_sem s2 = 0"
    by (subst s2(2), simp add: disk_ok_def)+
  obtain s3 where s3: "sfs_rwblock_nolock 0 b True True ?buf' s2 = Some (0, ?buf', s3)"
    "s3 = s2\<lparr>disk0_buffer := disk0_buffer s3, rd := rd s3\<rparr>" "rd s3 = obj_copy (unat b * 4096) 0 4096 ?buf' (rd s)"
    using rwblock_spec [of s2 b True 0 True ?buf'] sfs_ok_disk [OF ok] b f2 s2(3) by auto
  let ?s' = "s\<lparr>disk0_buffer := disk0_buffer s3, rd := rd s3, sfs_buffer := ?buf'\<rparr>"
  have "s3 = ?s1\<lparr>disk0_buffer := disk0_buffer s3, rd := rd s3\<rparr>" by (subst s3(2), subst s2(2)) simp
  then have e: "unlock_sfs_io (s3\<lparr>sfs_buffer := ?buf'\<rparr>) = ?s'" by (rule unlock_io_frame) (rule sfs_ok_disk(3) [OF ok])
  have c: "rd s3 = obj_copy (unat b * 4096 + unat off) base (unat len) m (rd s)"
    unfolding s3(3) using off(2) by (intro ext) (auto simp: obj_copy_def)
  have "sfs_wbuf base len b off m s = Some (0, m, ?s')"
    unfolding sfs_wbuf_def lock_io [OF sfs_ok_disk(3) [OF ok]] using buf_range [OF off] s2(1) s3(1) e by (simp add: Let_def)
  moreover have "io_only s ?s'"
    unfolding io_only_def by (auto intro!: keepsI [where d = "freemap s" and e = "unused_blocks s" and f = "super_dirty s" and g = "nodes s"])
  ultimately show ?thesis using c by (intro exI [of _ ?s']) simp
qed

lemma sfs_block_spec:
  fixes s :: "'z sfs_fs_scheme"
  assumes ok: "sfs_ok s" and b: "b \<noteq> 0" "b < super_blocks s"
  shows "\<exists>s'. sfs_rwblock base b 1 write m s = Some (0, if write then m else obj_copy base (unat b * 4096) 4096 (rd s) m, s') \<and>
    io_only s s' \<and> rd s' = (if write then obj_copy (unat b * 4096) base 4096 m (rd s) else rd s)"
proof -
  let ?s1 = "s\<lparr>sfs_io_sem := 0\<rparr>"
  obtain s2 where s2: "sfs_rwblock_nolock base b write True m ?s1 = Some (0, if write then m else obj_copy base (unat b * 4096) 4096 (rd s) m, s2)"
    "s2 = ?s1\<lparr>disk0_buffer := disk0_buffer s2, rd := rd s2\<rparr>" "rd s2 = (if write then obj_copy (unat b * 4096) base 4096 m (rd s) else rd s)"
  proof -
    have "disk_ok ?s1" "unat (super_blocks ?s1) \<le> unat (d_blocks ?s1)" "b \<noteq> 0 \<or> \<not> True" "b < super_blocks ?s1" and r1: "rd ?s1 = rd s"
      using sfs_ok_disk [OF ok] b by (simp_all add: disk_ok_def)
    from rwblock_spec [OF this(1-4), of base "write" m] that show thesis unfolding r1 by blast
  qed
  let ?s' = "s\<lparr>disk0_buffer := disk0_buffer s2, rd := rd s2\<rparr>"
  have "unlock_sfs_io s2 = ?s'"
    unfolding unlock_sfs_io_def by (subst s2(2), subst (2) s2(2)) (simp add: sfs_ok_disk(3) [OF ok])
  then have "sfs_rwblock base b 1 write m s = Some (0, if write then m else obj_copy base (unat b * 4096) 4096 (rd s) m, ?s')"
    unfolding sfs_rwblock_def lock_io [OF sfs_ok_disk(3) [OF ok]] using s2(1) by simp
  moreover have "io_only s ?s'"
    unfolding io_only_def by (auto intro!: keepsI [where c = "sfs_buffer s" and d = "freemap s" and e = "unused_blocks s" and f = "super_dirty s" and g = "nodes s"])
  ultimately show ?thesis using s2(3) by (intro exI [of _ ?s']) simp
qed

lemma sfs_clear_spec:
  fixes s :: "'z sfs_fs_scheme"
  assumes ok: "disk_ok s" "unat (super_blocks s) \<le> unat (d_blocks s)" "sfs_io_sem s = 1" and b: "b \<noteq> 0" "b < super_blocks s"
  shows "\<exists>s'. sfs_clear_block b 1 s = Some (0, s') \<and> io_only s s' \<and> rd s' = obj_copy (unat b * 4096) 0 4096 (\<lambda>_. 0) (rd s)"
proof -
  let ?z = "snd (memset 0 0 4096 (sfs_buffer s))"
  let ?s2 = "s\<lparr>sfs_io_sem := 0, sfs_buffer := ?z\<rparr>"
  have z: "obj_copy d 0 4096 ?z m = obj_copy d 0 4096 (\<lambda>_. 0) m" for d m
    by (rule ext) (auto simp: obj_copy_def memset_def memset_loop_eq)
  obtain s3 where s3: "sfs_rwblock_nolock 0 b True True ?z ?s2 = Some (0, ?z, s3)"
    "s3 = ?s2\<lparr>disk0_buffer := disk0_buffer s3, rd := rd s3\<rparr>" "rd s3 = obj_copy (unat b * 4096) 0 4096 ?z (rd s)"
    using rwblock_spec [of ?s2 b True 0 True ?z] ok b by (auto simp: disk_ok_def)
  let ?s' = "s\<lparr>disk0_buffer := disk0_buffer s3, rd := rd s3, sfs_buffer := ?z\<rparr>"
  have "s3\<lparr>sfs_buffer := ?z\<rparr> = s3" by (subst s3(2), subst (2) s3(2)) simp
  moreover have "unlock_sfs_io s3 = ?s'"
    unfolding unlock_sfs_io_def by (subst s3(2), subst (2) s3(2)) (simp add: ok(3))
  ultimately have "sfs_clear_block b 1 s = Some (0, ?s')"
    unfolding sfs_clear_block_def lock_io [OF ok(3)] using s3(1) by (simp add: Let_def)
  moreover have "io_only s ?s'"
    unfolding io_only_def by (auto intro!: keepsI [where d = "freemap s" and e = "unused_blocks s" and f = "super_dirty s" and g = "nodes s"])
  ultimately show ?thesis using s3(3) z by (intro exI [of _ ?s']) simp
qed

lemma sfs_inuse_spec:
  assumes "sfs_ok s" and "b \<noteq> 0" and "b < super_blocks s"
  shows "sfs_block_inuse b s = Some (unat b \<notin> fs_free_blocks s)"
  using assms bitmap_test_correct [of "freemap s" b] by (simp add: sfs_block_inuse_def sfs_ok_def fs_free_blocks_def word_less_nat_alt)

lemma free_block_word:
  assumes ok: "sfs_ok s" and "n \<in> fs_free_blocks s"
  shows "unat (of_nat n :: u32) = n" "(of_nat n :: u32) \<noteq> 0" "(of_nat n :: u32) < super_blocks s"
proof -
  have n: "0 < n" "n < unat (super_blocks s)" using assms by (auto simp: sfs_ok_def)
  then show u: "unat (of_nat n :: u32) = n" using unat_u32_bound [of "super_blocks s"] by (simp add: unat_of_nat take_bit_nat_eq_self)
  show "(of_nat n :: u32) \<noteq> 0" using n(1) u by (metis unat_0 less_irrefl)
  show "(of_nat n :: u32) < super_blocks s" using n(2) u by (simp add: word_less_nat_alt)
qed

lemma sfs_block_alloc_spec:
  fixes s :: "'z sfs_fs_scheme"
  assumes ok: "sfs_ok s"
  shows "sfs_block_alloc s = Some (- errno_of E_NO_MEM, 0, s) \<and> fs_free_blocks s = {} \<or>
    (\<exists>b s'. sfs_block_alloc s = Some (0, b, s') \<and> b \<noteq> 0 \<and> b < super_blocks s \<and> unat b \<in> fs_free_blocks s \<and> sfs_ok s' \<and> keeps s s' \<and>
      nodes s' = nodes s \<and> fs_free_blocks s' = fs_free_blocks s - {unat b} \<and>
      rd s' = obj_copy (unat b * 4096) 0 4096 (\<lambda>_. 0) (rd s))"
proof (cases "fs_free_blocks s = {}")
  case True
  then show ?thesis using bitmap_alloc_correct [of "freemap s"] ok by (simp add: sfs_block_alloc_def sfs_ok_def fs_free_blocks_def)
next
  case False
  let ?n = "Min (fs_free_blocks s)" and ?b = "of_nat (Min (fs_free_blocks s)) :: u32"
  have bo: "bitmap_ok (freemap s)" using ok by (simp add: sfs_ok_def)
  have fin: "finite (fs_free_blocks s)" unfolding fs_free_blocks_def by (rule free_bits_bound(1) [OF bo])
  have mem: "?n \<in> fs_free_blocks s" using fin False by simp
  note w = free_block_word [OF ok mem]
  obtain fm where fm: "bitmap_alloc (freemap s) = Some (0, ?b, fm)" "bitmap_ok fm" "nbits fm = nbits (freemap s)"
    "free_bits fm = fs_free_blocks s - {?n}"
    using bitmap_alloc_correct [OF bo] False unfolding fs_free_blocks_def by auto
  have un: "unat (unused_blocks s) = card (fs_free_blocks s)" using ok by (simp add: sfs_ok_def)
  have pos: "unused_blocks s > 0" using un fin False by (simp add: word_less_nat_alt card_gt_0_iff)
  let ?s1 = "s\<lparr>freemap := fm, unused_blocks := unused_blocks s - 1, super_dirty := True\<rparr>"
  have "unat (unused_blocks s - 1) = card (fs_free_blocks s) - 1" using pos un by (subst unat_sub) (simp_all add: word_le_nat_alt word_less_nat_alt)
  then have ok1: "sfs_ok ?s1" using ok fm(2-4) fin mem by (auto simp: sfs_ok_def fs_free_blocks_def [of ?s1] disk_ok_def)
  have "sfs_block_inuse ?b ?s1 = Some True"
    using sfs_inuse_spec [OF ok1, of ?b] w fm(4) by (simp add: fs_free_blocks_def [of ?s1])
  moreover obtain s2 where s2: "sfs_clear_block ?b 1 ?s1 = Some (0, s2)" "io_only ?s1 s2"
    "rd s2 = obj_copy (unat ?b * 4096) 0 4096 (\<lambda>_. 0) (rd ?s1)"
    using sfs_clear_spec [of ?s1 ?b] sfs_ok_disk [OF ok1] w by auto
  ultimately have al: "sfs_block_alloc s = Some (0, ?b, s2)"
    unfolding sfs_block_alloc_def fm(1) using pos by (simp add: Let_def)
  have k1: "keeps s ?s1"
    by (rule keepsI [where a = "disk0_buffer s" and b = "rd s" and c = "sfs_buffer s" and g = "nodes s"]) simp
  have "keeps s s2" using keeps_trans [OF k1] s2(2) by (simp add: io_only_def)
  moreover have "sfs_ok s2" using io_only_ok [OF s2(2)] ok1 by simp
  moreover have "fs_free_blocks s2 = fs_free_blocks s - {unat ?b}" "nodes s2 = nodes s"
    using s2(2) fm(4) w(1) by (simp_all add: io_only_def fs_free_blocks_def)
  ultimately show ?thesis using al w mem s2(3) by (intro disjI2 exI [of _ ?b] exI [of _ s2]) simp
qed

lemma sfs_block_free_spec:
  fixes s :: "'z sfs_fs_scheme"
  assumes ok: "sfs_ok s" and b: "b \<noteq> 0" "b < super_blocks s" "unat b \<notin> fs_free_blocks s"
  shows "\<exists>s'. sfs_block_free b s = Some s' \<and> sfs_ok s' \<and> keeps s s' \<and> nodes s' = nodes s \<and>
    fs_free_blocks s' = insert (unat b) (fs_free_blocks s) \<and> rd s' = rd s"
proof -
  have bo: "bitmap_ok (freemap s)" using ok by (simp add: sfs_ok_def)
  have fin: "finite (fs_free_blocks s)" unfolding fs_free_blocks_def by (rule free_bits_bound(1) [OF bo])
  have "b < nbits (freemap s)" using ok b(2) by (simp add: sfs_ok_def word_less_nat_alt)
  then obtain fm where fm: "bitmap_free (freemap s) b = Some fm" "bitmap_ok fm" "nbits fm = nbits (freemap s)"
    "free_bits fm = insert (unat b) (fs_free_blocks s)"
    using bitmap_free_correct [OF bo] b(3) unfolding fs_free_blocks_def by auto
  let ?s' = "s\<lparr>freemap := fm, unused_blocks := unused_blocks s + 1, super_dirty := True\<rparr>"
  have "card (fs_free_blocks s) < unat (super_blocks s)"
  proof -
    have "fs_free_blocks s \<subseteq> {1..<unat (super_blocks s)}" using ok by (simp add: sfs_ok_def)
    then have "card (fs_free_blocks s) \<le> unat (super_blocks s) - 1" using card_mono [of "{1..<unat (super_blocks s)}"] by fastforce
    then show ?thesis using b(2) by (simp add: word_less_nat_alt)
  qed
  then have "unat (unused_blocks s + 1) = card (fs_free_blocks s) + 1"
    using ok unat_u32_bound [of "super_blocks s"] by (subst unat_add_u32) (simp_all add: sfs_ok_def)
  moreover have "0 < unat b" using b(1) by (simp add: unat_gt_0)
  ultimately have "sfs_ok ?s'" using ok fm(2-4) b fin by (simp add: sfs_ok_def fs_free_blocks_def [of ?s'] disk_ok_def word_less_nat_alt)
  moreover have "sfs_block_free b s = Some ?s'"
    unfolding sfs_block_free_def sfs_inuse_spec [OF ok b(1,2)] using b(3) fm(1) by simp
  moreover have "keeps s ?s'"
    by (rule keepsI [where a = "disk0_buffer s" and b = "rd s" and c = "sfs_buffer s" and g = "nodes s"]) simp
  ultimately show ?thesis using fm(4) by (intro exI [of _ ?s']) (simp add: fs_free_blocks_def [of ?s'])
qed

section \<open>Block maps\<close>

text \<open>The block the inode \<open>x\<close> has for index \<open>i\<close>, with the disk image \<open>r\<close>.\<close>

definition bmw :: "mem \<Rightarrow> sfs_disk_inode \<Rightarrow> nat \<Rightarrow> u32" where
  "bmw r x i = (if i < 12 then direct x i
     else if indirect x = 0 then 0 else load32 r (unat (indirect x) * 4096 + 4 * (i - 12)))"

text \<open>
  A well formed block map on a file system of \<open>N\<close> blocks, of which those in \<open>F\<close> are free and those in
  \<open>R\<close> belong to somebody else.
\<close>

definition fmap_ok :: "mem \<Rightarrow> nat set \<Rightarrow> u32 \<Rightarrow> nat set \<Rightarrow> sfs_disk_inode \<Rightarrow> bool" where
  "fmap_ok r F N R x \<longleftrightarrow> unat (din_blocks x) \<le> 1036 \<and> R \<inter> F = {} \<and>
     (\<forall>i < unat (din_blocks x). bmw r x i \<noteq> 0 \<and> bmw r x i < N \<and> unat (bmw r x i) \<notin> F \<union> R) \<and>
     (\<forall>i. unat (din_blocks x) \<le> i \<and> i < 1036 \<longrightarrow> bmw r x i = 0) \<and> inj_on (bmw r x) {..<unat (din_blocks x)} \<and>
     (indirect x \<noteq> 0 \<longrightarrow> indirect x < N \<and> unat (indirect x) \<notin> F \<union> R \<and> (\<forall>i < unat (din_blocks x). bmw r x i \<noteq> indirect x))"

lemma fmapD:
  assumes "fmap_ok r F N R x"
  shows "unat (din_blocks x) \<le> 1036" "R \<inter> F = {}"
    "i < unat (din_blocks x) \<Longrightarrow> bmw r x i \<noteq> 0 \<and> bmw r x i < N \<and> unat (bmw r x i) \<notin> F \<and> unat (bmw r x i) \<notin> R"
    "unat (din_blocks x) \<le> i \<Longrightarrow> i < 1036 \<Longrightarrow> bmw r x i = 0" "inj_on (bmw r x) {..<unat (din_blocks x)}"
    "indirect x \<noteq> 0 \<Longrightarrow> indirect x < N \<and> unat (indirect x) \<notin> F \<and> unat (indirect x) \<notin> R"
    "indirect x \<noteq> 0 \<Longrightarrow> i < unat (din_blocks x) \<Longrightarrow> bmw r x i \<noteq> indirect x"
  using assms unfolding fmap_ok_def by auto

text \<open>The map depends on the image only through the indirect block.\<close>

lemma bmw_cong:
  assumes "indirect x \<noteq> 0 \<longrightarrow> (\<forall>a. a div 4096 = unat (indirect x) \<longrightarrow> r' a = r a)" and "i < 1036"
  shows "bmw r' x i = bmw r x i"
proof -
  have "load32 r' (unat (indirect x) * 4096 + 4 * (i - 12)) = load32 r (unat (indirect x) * 4096 + 4 * (i - 12))"
    if "indirect x \<noteq> 0" "\<not> i < 12"
  proof (rule load32_cong)
    fix k :: nat assume "k < 4"
    then have "4 * (i - 12) + k < 4096" using assms(2) by simp
    then have "(unat (indirect x) * 4096 + 4 * (i - 12) + k) div 4096 = unat (indirect x)" by (intro div_nat_eqI) simp_all
    then show "r' (unat (indirect x) * 4096 + 4 * (i - 12) + k) = r (unat (indirect x) * 4096 + 4 * (i - 12) + k)"
      using assms(1) that(1) by blast
  qed
  then show ?thesis by (simp add: bmw_def)
qed

lemma fmap_cong:
  assumes f: "fmap_ok r F N R x" and r: "indirect x \<noteq> 0 \<longrightarrow> (\<forall>a. a div 4096 = unat (indirect x) \<longrightarrow> r' a = r a)"
  shows "fmap_ok r' F N R x"
proof -
  have e: "bmw r' x i = bmw r x i" if "i < 1036" for i by (rule bmw_cong [OF r that])
  have n: "unat (din_blocks x) \<le> 1036" by (rule fmapD(1) [OF f])
  have "inj_on (bmw r' x) {..<unat (din_blocks x)} = inj_on (bmw r x) {..<unat (din_blocks x)}"
    by (rule inj_on_cong) (use e n in simp)
  then have "inj_on (bmw r' x) {..<unat (din_blocks x)}" using fmapD(5) [OF f] by blast
  moreover have "\<forall>i < unat (din_blocks x). bmw r' x i \<noteq> 0 \<and> bmw r' x i < N \<and> unat (bmw r' x i) \<notin> F \<union> R"
    using fmapD(3) [OF f] e n by simp
  moreover have "\<forall>i. unat (din_blocks x) \<le> i \<and> i < 1036 \<longrightarrow> bmw r' x i = 0" using fmapD(4) [OF f] e by simp
  moreover have "\<forall>i < unat (din_blocks x). bmw r' x i \<noteq> indirect x" if "indirect x \<noteq> 0" using fmapD(7) [OF f that] e n by simp
  ultimately show ?thesis using n fmapD(2,6) [OF f] unfolding fmap_ok_def by blast
qed

text \<open>The map with one block more.\<close>

lemma fmap_append:
  assumes f: "fmap_ok r F N R x" and n: "unat (din_blocks x) < 1036" and b: "b \<noteq> 0" "b < N" "unat b \<in> F"
    and m: "\<And>i. i < 1036 \<Longrightarrow> bmw r' x' i = (if i = unat (din_blocks x) then b else bmw r x i)"
    and blk: "din_blocks x' = din_blocks x + 1"
    and ind: "indirect x' = indirect x \<or> indirect x = 0 \<and> unat (indirect x') \<in> F \<and> indirect x' \<noteq> b \<and> indirect x' < N"
    and F': "F' \<subseteq> F - {unat b}" "unat (indirect x') \<notin> F'"
  shows "fmap_ok r' F' N R x'"
proof -
  let ?n = "unat (din_blocks x)"
  have u: "unat (din_blocks x') = ?n + 1" using n unfolding blk by (subst unat_add_u32) simp_all
  have old: "bmw r x i \<noteq> b \<and> bmw r x i \<noteq> 0 \<and> bmw r x i < N \<and> unat (bmw r x i) \<notin> F \<and> unat (bmw r x i) \<notin> R" if "i < ?n" for i
    using fmapD(3) [OF f that] b(3) by auto
  have m': "bmw r' x' i = (if i = ?n then b else bmw r x i)" if "i < ?n + 1" for i using m [of i] n that by simp
  have R: "unat b \<notin> R" "R \<inter> F = {}" using fmapD(2) [OF f] b(3) by auto
  have "inj_on (bmw r' x') {..<?n + 1}"
  proof (rule inj_onI)
    fix i j assume h: "i \<in> {..<?n + 1}" "j \<in> {..<?n + 1}" "bmw r' x' i = bmw r' x' j"
    show "i = j"
      using h m' [of i] m' [of j] old [of i] old [of j] inj_onD [OF fmapD(5) [OF f], of i j]
      by (cases "i = ?n"; cases "j = ?n") (auto simp: less_Suc_eq)
  qed
  moreover have "\<forall>i < ?n + 1. bmw r' x' i \<noteq> 0 \<and> bmw r' x' i < N \<and> unat (bmw r' x' i) \<notin> F' \<union> R"
    using m' old b R F' by (auto simp: less_Suc_eq)
  moreover have "\<forall>i. ?n + 1 \<le> i \<and> i < 1036 \<longrightarrow> bmw r' x' i = 0" using m fmapD(4) [OF f] by auto
  moreover have "indirect x' \<noteq> 0 \<longrightarrow> indirect x' < N \<and> unat (indirect x') \<notin> F' \<union> R \<and> (\<forall>i < ?n + 1. bmw r' x' i \<noteq> indirect x')"
    using ind
  proof
    assume e: "indirect x' = indirect x"
    show ?thesis
    proof
      assume "indirect x' \<noteq> 0"
      then have i: "indirect x < N" "unat (indirect x) \<notin> F" "unat (indirect x) \<notin> R" "\<And>i. i < ?n \<Longrightarrow> bmw r x i \<noteq> indirect x"
        using fmapD(6,7) [OF f] e by auto
      then show "indirect x' < N \<and> unat (indirect x') \<notin> F' \<union> R \<and> (\<forall>i < ?n + 1. bmw r' x' i \<noteq> indirect x')"
        using e m' F' b(3) by (auto simp: less_Suc_eq)
    qed
  next
    assume e: "indirect x = 0 \<and> unat (indirect x') \<in> F \<and> indirect x' \<noteq> b \<and> indirect x' < N"
    moreover have "bmw r' x' i \<noteq> indirect x'" if "i < ?n + 1" for i
      using e m' [OF that] old [of i] that by (cases "i = ?n") auto
    ultimately show ?thesis using F' R by auto
  qed
  ultimately show ?thesis unfolding fmap_ok_def u using n R F' by auto
qed

lemma entry_offset:
  assumes "unat (i :: u32) < 1024"
  shows "unat (i * 4) = 4 * unat i" "i * 4 < 4096" "unat (i * 4) + unat (4 :: u32) \<le> 4096"
proof -
  show u: "unat (i * 4) = 4 * unat i" using assms by (subst unat_mult_u32) simp_all
  show "i * 4 < 4096" "unat (i * 4) + unat (4 :: u32) \<le> 4096" using assms u by (simp_all add: word_less_nat_alt)
qed

lemma rbuf_word:
  fixes s :: "'z sfs_fs_scheme"
  assumes ok: "sfs_ok s" and e: "e \<noteq> 0" "e < super_blocks s" and i: "unat i < 1024"
  shows "\<exists>m' s'. sfs_rbuf 0 4 e (i * 4) m s = Some (0, m', s') \<and> load32 m' 0 = load32 (rd s) (unat e * 4096 + 4 * unat i) \<and>
    io_only s s' \<and> rd s' = rd s"
proof -
  note o = entry_offset [OF i]
  obtain s' where "sfs_rbuf 0 4 e (i * 4) m s = Some (0, obj_copy 0 (unat e * 4096 + unat (i * 4)) (unat (4 :: u32)) (rd s) m, s')"
    "io_only s s'" "rd s' = rd s"
    using sfs_rbuf_spec [OF ok e o(2,3)] by blast
  moreover have "load32 (obj_copy 0 (unat e * 4096 + unat (i * 4)) (unat (4 :: u32)) (rd s) m) 0 = load32 (rd s) (unat e * 4096 + 4 * unat i)"
    by (rule load32_cong) (simp add: obj_copy_def o(1) add.assoc)
  ultimately show ?thesis by blast
qed

definition put_entry :: "u32 \<Rightarrow> nat \<Rightarrow> u32 \<Rightarrow> mem \<Rightarrow> mem" where
  "put_entry e i b r = obj_copy (unat e * 4096 + 4 * i) 0 4 (store32 0 b (\<lambda>_. 0)) r"

lemma put_entry_load:
  "load32 (put_entry e i b r) (unat e * 4096 + 4 * j) = (if j = i then b else load32 r (unat e * 4096 + 4 * j))"
proof (cases "j = i")
  case True
  then show ?thesis by (auto intro!: load32_bytes simp: put_entry_def obj_copy_def store32_def)
next
  case False
  then have "load32 (put_entry e i b r) (unat e * 4096 + 4 * j) = load32 r (unat e * 4096 + 4 * j)"
    by (intro load32_cong) (auto simp: put_entry_def obj_copy_def)
  with False show ?thesis by simp
qed

lemma put_entry_other: "i < 1024 \<Longrightarrow> a div 4096 \<noteq> unat e \<Longrightarrow> put_entry e i b r a = r a"
proof -
  assume i: "i < 1024" and a: "a div 4096 \<noteq> unat e"
  have "a div 4096 = unat e" if "unat e * 4096 + 4 * i \<le> a" "a < unat e * 4096 + 4 * i + 4"
    by (rule div_nat_eqI) (use that i in simp_all)
  with a show ?thesis by (auto simp: put_entry_def obj_copy_def)
qed

lemma wbuf_word:
  fixes s :: "'z sfs_fs_scheme"
  assumes ok: "sfs_ok s" and e: "e \<noteq> 0" "e < super_blocks s" and i: "unat i < 1024"
  shows "\<exists>s'. sfs_wbuf 0 4 e (i * 4) (store32 0 b (\<lambda>_. 0)) s = Some (0, store32 0 b (\<lambda>_. 0), s') \<and> io_only s s' \<and>
    rd s' = put_entry e (unat i) b (rd s)"
  using sfs_wbuf_spec [OF ok e entry_offset(2,3) [OF i], of 0 "store32 0 b (\<lambda>_. 0)"] by (simp add: put_entry_def entry_offset(1) [OF i])

lemma index_split:
  assumes "unat (idx :: u32) < 1036" and "\<not> idx < 12"
  shows "unat (idx - 12) = unat idx - 12" "unat (idx - 12) < 1024" "idx - 12 < 1024" "12 \<le> unat idx"
proof -
  have ge: "12 \<le> unat idx" using assms(2) by (simp add: word_less_nat_alt)
  then show "unat (idx - 12) = unat idx - 12" by (subst unat_sub) (simp_all add: word_le_nat_alt)
  then show "unat (idx - 12) < 1024" "idx - 12 < 1024" using assms(1) ge by (simp_all add: word_less_nat_alt)
  show "12 \<le> unat idx" by (rule ge)
qed

lemma bmap_out_spec: "sfs_ok s \<Longrightarrow> b \<noteq> 0 \<Longrightarrow> b < super_blocks s \<Longrightarrow> unat b \<notin> fs_free_blocks s \<Longrightarrow> bmap_out b s = Some (0, b, s)"
  by (simp add: bmap_out_def sfs_inuse_spec)

lemma bmap_get_old:
  fixes s :: "'z sfs_fs_scheme"
  assumes ok: "sfs_ok s" and f: "fmap_ok (rd s) (fs_free_blocks s) (super_blocks s) R (din (nodes s p))"
    and i: "unat idx < unat (din_blocks (din (nodes s p)))"
  shows "\<exists>s'. sfs_bmap_get_nolock p idx c s = Some (0, bmw (rd s) (din (nodes s p)) (unat idx), s') \<and> io_only s s' \<and> rd s' = rd s"
proof -
  let ?x = "din (nodes s p)" and ?b = "bmw (rd s) (din (nodes s p)) (unat idx)"
  have b: "?b \<noteq> 0" "?b < super_blocks s" "unat ?b \<notin> fs_free_blocks s" using fmapD(3) [OF f i] by auto
  show ?thesis
  proof (cases "idx < 12")
    case True
    then have "?b = direct ?x (unat idx)" by (simp add: bmw_def word_less_nat_alt)
    then have "sfs_bmap_get_nolock p idx c s = Some (0, ?b, s)"
      using True b bmap_out_spec [OF ok b] by (simp add: sfs_bmap_get_nolock_def Let_def)
    then show ?thesis by simp
  next
    case False
    have n: "unat idx < 1036" using i fmapD(1) [OF f] by simp
    note j = index_split [OF n False]
    have bv: "?b = (if indirect ?x = 0 then 0 else load32 (rd s) (unat (indirect ?x) * 4096 + 4 * unat (idx - 12)))"
      using j by (simp add: bmw_def)
    then have e: "indirect ?x \<noteq> 0" using b(1) by auto
    then have e': "indirect ?x < super_blocks s" using fmapD(6) [OF f] by blast
    obtain m' s' where r: "sfs_rbuf 0 4 (indirect ?x) ((idx - 12) * 4) (\<lambda>_. 0) s = Some (0, m', s')" "load32 m' 0 = ?b" "io_only s s'" "rd s' = rd s"
      using rbuf_word [OF ok e e' j(2), of "\<lambda>_. 0"] bv e by auto
    have "sfs_bmap_get_sub_nolock (indirect ?x) (idx - 12) c s = Some (0, indirect ?x, ?b, s')"
      unfolding sfs_bmap_get_sub_nolock_def Let_def r(1) using j(3) e b(1) r(2) by simp
    moreover have nd: "nodes s' = nodes s" using r(3) by (simp add: io_only_def)
    moreover have "bmap_out ?b s' = Some (0, ?b, s')"
      using bmap_out_spec [of s' ?b] io_only_ok [OF r(3)] ok b r(3) keepsD(2) [of s s'] by (simp add: io_only_def fs_free_blocks_def)
    ultimately have "sfs_bmap_get_nolock p idx c s = Some (0, ?b, s')"
      unfolding sfs_bmap_get_nolock_def Let_def using False j(3) by simp
    then show ?thesis using r by blast
  qed
qed

definition zero_block :: "u32 \<Rightarrow> mem \<Rightarrow> mem" where
  "zero_block b r = obj_copy (unat b * 4096) 0 4096 (\<lambda>_. 0) r"

lemma zero_block_at: "zero_block b r a = (if a div 4096 = unat b then 0 else r a)"
proof -
  have "unat b * 4096 \<le> a \<and> a < unat b * 4096 + 4096 \<longleftrightarrow> a div 4096 = unat b"
    using div_nat_eqI [of "unat b" 4096 a] by (auto simp: algebra_simps)
  then show ?thesis by (simp add: zero_block_def obj_copy_def)
qed

lemma sub_create_spec:
  fixes s :: "'z sfs_fs_scheme"
  assumes ok: "sfs_ok s" and e: "ent \<noteq> 0" "ent < super_blocks s" "unat ent \<notin> fs_free_blocks s" and i: "unat i < 1024"
  shows "sub_create entp ent (i * 4) s = sub_cleanup entp ent (- errno_of E_NO_MEM) s \<and> fs_free_blocks s = {} \<or>
    (\<exists>b s'. sub_create entp ent (i * 4) s = Some (0, ent, b, s') \<and> b \<noteq> 0 \<and> b < super_blocks s \<and> unat b \<in> fs_free_blocks s \<and>
      sfs_ok s' \<and> keeps s s' \<and> nodes s' = nodes s \<and> fs_free_blocks s' = fs_free_blocks s - {unat b} \<and>
      rd s' = put_entry ent (unat i) b (zero_block b (rd s)))"
  using sfs_block_alloc_spec [OF ok]
proof (elim disjE exE conjE)
  assume "sfs_block_alloc s = Some (- errno_of E_NO_MEM, 0, s)" "fs_free_blocks s = {}"
  then show ?thesis by (simp add: sub_create_def)
next
  fix b s1 assume b: "sfs_block_alloc s = Some (0, b, s1)" "b \<noteq> 0" "b < super_blocks s" "unat b \<in> fs_free_blocks s"
    and s1: "sfs_ok s1" "keeps s s1" "nodes s1 = nodes s" "fs_free_blocks s1 = fs_free_blocks s - {unat b}"
      "rd s1 = obj_copy (unat b * 4096) 0 4096 (\<lambda>_. 0) (rd s)"
  have "ent < super_blocks s1" using e keepsD(2) [OF s1(2)] by simp
  from wbuf_word [OF s1(1) e(1) this i, of b] obtain s2 where s2: "sfs_wbuf 0 4 ent (i * 4) (store32 0 b (\<lambda>_. 0)) s1 = Some (0, store32 0 b (\<lambda>_. 0), s2)"
    "io_only s1 s2" "rd s2 = put_entry ent (unat i) b (rd s1)" by blast
  have "sub_create entp ent (i * 4) s = Some (0, ent, b, s2)" unfolding sub_create_def b(1) using s2(1) by simp
  moreover have "sfs_ok s2" using io_only_ok [OF s2(2)] s1(1) by simp
  moreover have "keeps s s2" "nodes s2 = nodes s" "fs_free_blocks s2 = fs_free_blocks s - {unat b}"
    using keeps_trans [OF s1(2)] s2(2) s1 by (simp_all add: io_only_def fs_free_blocks_def)
  ultimately show ?thesis using b s1(5) s2(3) by (intro disjI2 exI [of _ b] exI [of _ s2]) (simp add: zero_block_def)
qed

definition grown :: "nat \<Rightarrow> u32 \<Rightarrow> 'z sfs_fs_scheme \<Rightarrow> 'z sfs_fs_scheme \<Rightarrow> bool" where
  "grown p b s s' \<longleftrightarrow> sfs_ok s' \<and> keeps s s' \<and> b \<noteq> 0 \<and> b < super_blocks s \<and> unat b \<in> fs_free_blocks s \<and>
     (\<exists>x' d. nodes s' = (nodes s)(p := (nodes s p)\<lparr>din := x', sin_dirty := d\<rparr>) \<and>
       x' = (din (nodes s p))\<lparr>direct := direct x', indirect := indirect x'\<rparr> \<and>
       (indirect x' = indirect (din (nodes s p)) \<or> indirect (din (nodes s p)) = 0 \<and> unat (indirect x') \<in> fs_free_blocks s \<and>
         indirect x' \<noteq> b \<and> indirect x' < super_blocks s) \<and>
       (\<forall>i < 1036. bmw (rd s') x' i = (if i = unat (din_blocks (din (nodes s p))) then b else bmw (rd s) (din (nodes s p)) i)) \<and>
       fs_free_blocks s' = fs_free_blocks s - {unat b, unat (indirect x')}) \<and>
     (\<forall>a. a div 4096 = unat b \<longrightarrow> rd s' a = 0) \<and>
     (\<forall>a. a div 4096 \<notin> fs_free_blocks s \<and> (indirect (din (nodes s p)) = 0 \<or> a div 4096 \<noteq> unat (indirect (din (nodes s p)))) \<longrightarrow> rd s' a = rd s a)"

definition unchanged :: "'z sfs_fs_scheme \<Rightarrow> 'z sfs_fs_scheme \<Rightarrow> bool" where
  "unchanged s s' \<longleftrightarrow> sfs_ok s' \<and> keeps s s' \<and> nodes s' = nodes s \<and> fs_free_blocks s' = fs_free_blocks s \<and>
     (\<forall>a. a div 4096 \<notin> fs_free_blocks s \<longrightarrow> rd s' a = rd s a)"

text \<open>No block was to be had: at most one is free, too few for a block and its table.\<close>

definition refused :: "'z sfs_fs_scheme \<Rightarrow> 'z sfs_fs_scheme \<Rightarrow> bool" where
  "refused s s' \<longleftrightarrow> unchanged s s' \<and> card (fs_free_blocks s') \<le> 1"

lemma refused_refl: "sfs_ok s \<Longrightarrow> fs_free_blocks s = {} \<Longrightarrow> refused s s"
  by (simp add: refused_def unchanged_def)

lemma io_only_unchanged: "sfs_ok s \<Longrightarrow> io_only s s' \<Longrightarrow> rd s' = rd s \<Longrightarrow> unchanged s s'"
  using io_only_ok [of s s'] by (simp add: unchanged_def io_only_def fs_free_blocks_def)

lemma zero_not_free: "sfs_ok s \<Longrightarrow> 0 \<notin> fs_free_blocks s"
  by (auto simp: sfs_ok_def)

lemma sfs_ok_nodes: "sfs_ok (s\<lparr>nodes := g\<rparr>) = sfs_ok s"
  by (simp add: sfs_ok_def disk_ok_def fs_free_blocks_def)

lemma node_upd_simps [simp]:
  "nodes (upd_node p h s) = (nodes s)(p := h (nodes s p))" "rd (upd_node p h s) = rd s" "fs_free_blocks (upd_node p h s) = fs_free_blocks s"
  "sfs_ok (upd_node p h s) = sfs_ok s" "super_blocks (upd_node p h s) = super_blocks s"
  by (simp_all add: upd_node_def fs_free_blocks_def sfs_ok_nodes)

lemma keeps_upd_node: "keeps s s' \<Longrightarrow> keeps s (upd_node p h s')"
  unfolding keeps_def [of s s'] upd_node_def by clarsimp (rule keepsI, rule refl)

lemma bmap_new_direct:
  fixes s :: "'z sfs_fs_scheme"
  assumes ok: "sfs_ok s" and f: "fmap_ok (rd s) (fs_free_blocks s) (super_blocks s) R (din (nodes s p))"
    and i: "unat idx = unat (din_blocks (din (nodes s p)))" "idx < 12"
  shows "sfs_bmap_get_nolock p idx True s = Some (- errno_of E_NO_MEM, 0, s) \<and> fs_free_blocks s = {} \<or>
    (\<exists>b s'. sfs_bmap_get_nolock p idx True s = Some (0, b, s') \<and> grown p b s s')"
proof -
  let ?x = "din (nodes s p)" and ?F = "fs_free_blocks s"
  have i12: "unat idx < 12" using i(2) by (simp add: word_less_nat_alt)
  have z: "direct ?x (unat idx) = 0" using fmapD(4) [OF f, of "unat idx"] i12 i(1) by (simp add: bmw_def)
  show ?thesis
    using sfs_block_alloc_spec [OF ok]
  proof (elim disjE exE conjE)
    assume "sfs_block_alloc s = Some (- errno_of E_NO_MEM, 0, s)" "?F = {}"
    then show ?thesis using i(2) z by (simp add: sfs_bmap_get_nolock_def Let_def)
  next
    fix b s1 assume b: "sfs_block_alloc s = Some (0, b, s1)" "b \<noteq> 0" "b < super_blocks s" "unat b \<in> ?F"
      and s1: "sfs_ok s1" "keeps s s1" "nodes s1 = nodes s" "fs_free_blocks s1 = ?F - {unat b}"
        "rd s1 = obj_copy (unat b * 4096) 0 4096 (\<lambda>_. 0) (rd s)"
    let ?x' = "?x\<lparr>direct := (direct ?x)(unat idx := b)\<rparr>"
    let ?s' = "set_dirty p (upd_din p (\<lambda>x. x\<lparr>direct := (direct x)(unat idx := b)\<rparr>) s1)"
    have r: "rd ?s' = zero_block b (rd s)" using s1(5) by (simp add: set_dirty_def upd_din_def zero_block_def)
    have nd: "nodes ?s' = (nodes s)(p := (nodes s p)\<lparr>din := ?x', sin_dirty := True\<rparr>)" by (simp add: set_dirty_def upd_din_def s1(3))
    have o: "bmap_out b ?s' = Some (0, b, ?s')"
      by (rule bmap_out_spec) (use b s1 keepsD(2) [OF s1(2)] in \<open>simp_all add: set_dirty_def upd_din_def\<close>)
    have m: "bmw (rd ?s') ?x' j = (if j = unat (din_blocks ?x) then b else bmw (rd s) ?x j)" if "j < 1036" for j
    proof -
      have "bmw (zero_block b (rd s)) ?x j = bmw (rd s) ?x j"
        by (rule bmw_cong [OF _ that]) (use fmapD(6) [OF f] b(4) in \<open>auto simp: zero_block_at\<close>)
      then show ?thesis unfolding r using i(1) i12 by (auto simp: bmw_def)
    qed
    have un: "unat (indirect ?x) \<notin> ?F" using fmapD(6) [OF f] zero_not_free [OF ok] by (cases "indirect ?x = 0") auto
    have "grown p b s ?s'"
      unfolding grown_def
    proof (intro conjI)
      show "sfs_ok ?s'" "keeps s ?s'" using s1(1,2) by (simp_all add: set_dirty_def upd_din_def keeps_upd_node)
      show "b \<noteq> 0" "b < super_blocks s" "unat b \<in> ?F" by (rule b)+
      show "\<forall>a. a div 4096 = unat b \<longrightarrow> rd ?s' a = 0" by (simp add: r zero_block_at)
      show "\<forall>a. a div 4096 \<notin> ?F \<and> (indirect ?x = 0 \<or> a div 4096 \<noteq> unat (indirect ?x)) \<longrightarrow> rd ?s' a = rd s a"
        using b(4) by (auto simp: r zero_block_at)
      have "fs_free_blocks ?s' = ?F - {unat b}" using s1(4) by (simp add: set_dirty_def upd_din_def)
      also have "\<dots> = ?F - {unat b, unat (indirect ?x)}" using un by auto
      finally have "fs_free_blocks ?s' = ?F - {unat b, unat (indirect ?x)}" .
      then show "\<exists>x' d. nodes ?s' = (nodes s)(p := (nodes s p)\<lparr>din := x', sin_dirty := d\<rparr>) \<and>
          x' = ?x\<lparr>direct := direct x', indirect := indirect x'\<rparr> \<and>
          (indirect x' = indirect ?x \<or> indirect ?x = 0 \<and> unat (indirect x') \<in> ?F \<and> indirect x' \<noteq> b \<and> indirect x' < super_blocks s) \<and>
          (\<forall>i < 1036. bmw (rd ?s') x' i = (if i = unat (din_blocks ?x) then b else bmw (rd s) ?x i)) \<and>
          fs_free_blocks ?s' = ?F - {unat b, unat (indirect x')}"
        using nd m un by (intro exI [of _ ?x'] exI [of _ True]) simp
    qed
    moreover have "sfs_bmap_get_nolock p idx True s = Some (0, b, ?s')"
      unfolding sfs_bmap_get_nolock_def Let_def using i(2) z b(1) o by simp
    ultimately show ?thesis by blast
  qed
qed

text \<open>The inode gets a new entry in its indirect block \<open>e\<close>, which it had before or which is new.\<close>

lemma grown_indirect:
  fixes s :: "'z sfs_fs_scheme"
  assumes ok: "sfs_ok s" and f: "fmap_ok (rd s) (fs_free_blocks s) (super_blocks s) R (din (nodes s p))"
    and n: "12 \<le> unat (din_blocks (din (nodes s p)))" "unat (din_blocks (din (nodes s p))) < 1036"
    and e: "e \<noteq> 0" "e = indirect (din (nodes s p)) \<or> indirect (din (nodes s p)) = 0 \<and> unat e \<in> fs_free_blocks s \<and> e \<noteq> b \<and> e < super_blocks s"
    and b: "b \<noteq> 0" "b < super_blocks s" "unat b \<in> fs_free_blocks s"
    and s': "sfs_ok s'" "keeps s s'" "fs_free_blocks s' = fs_free_blocks s - {unat b, unat e}"
      "nodes s' = (nodes s)(p := (nodes s p)\<lparr>din := (din (nodes s p))\<lparr>indirect := e\<rparr>, sin_dirty := d\<rparr>)"
      "rd s' = put_entry e (unat (din_blocks (din (nodes s p))) - 12) b (zero_block b r)"
    and r: "r = (if e = indirect (din (nodes s p)) then rd s else zero_block e (rd s))"
  shows "grown p b s s'"
proof -
  let ?x = "din (nodes s p)" and ?F = "fs_free_blocks s" and ?j = "unat (din_blocks (din (nodes s p))) - 12"
  have j: "?j < 1024" using n by simp
  have eb: "unat e \<noteq> unat b" using e(2) b(3) fmapD(6) [OF f] e(1) by (auto dest: iffD2 [OF word_unat_eq_iff])
  have off: "rd s' a = (if a div 4096 = unat b then 0 else r a)" if "a div 4096 \<noteq> unat e" for a
    using put_entry_other [OF j that] by (simp add: s'(5) zero_block_at)
  have "load32 (zero_block b r) (unat e * 4096 + 4 * k) = load32 r (unat e * 4096 + 4 * k)" if "k < 1024" for k
  proof (rule load32_cong)
    fix l :: nat assume "l < 4"
    then have "(unat e * 4096 + 4 * k + l) div 4096 = unat e" using that by (intro div_nat_eqI) simp_all
    then show "zero_block b r (unat e * 4096 + 4 * k + l) = r (unat e * 4096 + 4 * k + l)" using eb by (simp add: zero_block_at)
  qed
  then have ld: "load32 (rd s') (unat e * 4096 + 4 * k) = (if k = ?j then b else load32 r (unat e * 4096 + 4 * k))" if "k < 1024" for k
    using that by (simp add: s'(5) put_entry_load)
  have m: "bmw (rd s') (?x\<lparr>indirect := e\<rparr>) k = (if k = unat (din_blocks ?x) then b else bmw (rd s) ?x k)" if k: "k < 1036" for k
  proof (cases "k < 12")
    case True
    then show ?thesis using n(1) by (simp add: bmw_def)
  next
    case False
    have "load32 r (unat e * 4096 + 4 * (k - 12)) = (if indirect ?x = 0 then 0 else load32 (rd s) (unat (indirect ?x) * 4096 + 4 * (k - 12)))"
    proof (cases "e = indirect ?x")
      case True
      then show ?thesis using r e(1) by simp
    next
      case new: False
      then have "indirect ?x = 0" using e(2) by blast
      moreover have "load32 r (unat e * 4096 + 4 * (k - 12)) = load32 (\<lambda>_. 0) 0"
      proof (rule load32_cong)
        fix l :: nat assume "l < 4"
        then have "(unat e * 4096 + 4 * (k - 12) + l) div 4096 = unat e" using k by (intro div_nat_eqI) simp_all
        then show "r (unat e * 4096 + 4 * (k - 12) + l) = 0" using r new by (simp add: zero_block_at)
      qed
      ultimately show ?thesis by simp
    qed
    then show ?thesis using ld [of "k - 12"] k False e(1) n(1) by (auto simp: bmw_def)
  qed
  show ?thesis
    unfolding grown_def
  proof (intro conjI)
    show "sfs_ok s'" "keeps s s'" "b \<noteq> 0" "b < super_blocks s" "unat b \<in> ?F" by (rule s' b)+
    show "\<forall>a. a div 4096 = unat b \<longrightarrow> rd s' a = 0" using off eb by metis
    show "\<forall>a. a div 4096 \<notin> ?F \<and> (indirect ?x = 0 \<or> a div 4096 \<noteq> unat (indirect ?x)) \<longrightarrow> rd s' a = rd s a"
    proof (intro allI impI)
      fix a assume a: "a div 4096 \<notin> ?F \<and> (indirect ?x = 0 \<or> a div 4096 \<noteq> unat (indirect ?x))"
      then have "a div 4096 \<noteq> unat e" "a div 4096 \<noteq> unat b" using e b(3) by auto
      then show "rd s' a = rd s a" using off [of a] r by (simp add: zero_block_at)
    qed
    show "\<exists>x' d. nodes s' = (nodes s)(p := (nodes s p)\<lparr>din := x', sin_dirty := d\<rparr>) \<and>
        x' = ?x\<lparr>direct := direct x', indirect := indirect x'\<rparr> \<and>
        (indirect x' = indirect ?x \<or> indirect ?x = 0 \<and> unat (indirect x') \<in> ?F \<and> indirect x' \<noteq> b \<and> indirect x' < super_blocks s) \<and>
        (\<forall>i < 1036. bmw (rd s') x' i = (if i = unat (din_blocks ?x) then b else bmw (rd s) ?x i)) \<and>
        fs_free_blocks s' = ?F - {unat b, unat (indirect x')}"
      using s'(3,4) m e by (intro exI [of _ "?x\<lparr>indirect := e\<rparr>"] exI [of _ d]) auto
  qed
qed

lemma bmap_new_indirect:
  fixes s :: "'z sfs_fs_scheme"
  assumes ok: "sfs_ok s" and f: "fmap_ok (rd s) (fs_free_blocks s) (super_blocks s) R (din (nodes s p))"
    and i: "unat idx = unat (din_blocks (din (nodes s p)))" "\<not> idx < 12" "unat idx < 1036" and e: "indirect (din (nodes s p)) \<noteq> 0"
  shows "(\<exists>s'. sfs_bmap_get_nolock p idx True s = Some (- errno_of E_NO_MEM, 0, s') \<and> refused s s') \<or>
    (\<exists>b s'. sfs_bmap_get_nolock p idx True s = Some (0, b, s') \<and> grown p b s s')"
proof -
  let ?x = "din (nodes s p)" and ?F = "fs_free_blocks s" and ?e = "indirect (din (nodes s p))"
  note j = index_split [OF i(3,2)]
  have e': "?e < super_blocks s" "unat ?e \<notin> ?F" using fmapD(6) [OF f e] by auto
  have "load32 (rd s) (unat ?e * 4096 + 4 * unat (idx - 12)) = 0"
    using fmapD(4) [OF f, of "unat idx"] i j e by (simp add: bmw_def)
  with rbuf_word [OF ok e e'(1) j(2), of "\<lambda>_. 0"] obtain m s1 where
    s1: "sfs_rbuf 0 4 ?e ((idx - 12) * 4) (\<lambda>_. 0) s = Some (0, m, s1)" "load32 m 0 = 0" "io_only s s1" "rd s1 = rd s" by auto
  have ok1: "sfs_ok s1" using io_only_ok [OF s1(3)] ok by simp
  have k1: "keeps s s1" "nodes s1 = nodes s" "fs_free_blocks s1 = ?F" "super_blocks s1 = super_blocks s"
    using s1(3) keepsD(2) [of s s1] by (simp_all add: io_only_def fs_free_blocks_def)
  have sub: "sfs_bmap_get_sub_nolock ?e (idx - 12) True s = sub_create ?e ?e ((idx - 12) * 4) s1"
    unfolding sfs_bmap_get_sub_nolock_def Let_def s1(1) using j(3) e s1(2) by simp
  have pre: "?e < super_blocks s1" "unat ?e \<notin> fs_free_blocks s1" using e' k1 by simp_all
  show ?thesis
    using sub_create_spec [OF ok1 e pre j(2), of ?e]
  proof (elim disjE exE conjE)
    assume c: "sub_create ?e ?e ((idx - 12) * 4) s1 = sub_cleanup ?e ?e (- errno_of E_NO_MEM) s1" "fs_free_blocks s1 = {}"
    then have "sfs_bmap_get_nolock p idx True s = Some (- errno_of E_NO_MEM, 0, s1)"
      unfolding sfs_bmap_get_nolock_def Let_def sub using i(2) j(3) by (simp add: sub_cleanup_def)
    moreover have "refused s s1" using io_only_unchanged [OF ok s1(3,4)] c(2) by (simp add: refused_def)
    ultimately show ?thesis by blast
  next
    fix b s2 assume c: "sub_create ?e ?e ((idx - 12) * 4) s1 = Some (0, ?e, b, s2)" and b: "b \<noteq> 0" "b < super_blocks s1" "unat b \<in> fs_free_blocks s1"
      and s2: "sfs_ok s2" "keeps s1 s2" "nodes s2 = nodes s1" "fs_free_blocks s2 = fs_free_blocks s1 - {unat b}"
        "rd s2 = put_entry ?e (unat (idx - 12)) b (zero_block b (rd s1))"
    have b': "b < super_blocks s" "unat b \<in> ?F" using b k1 by simp_all
    have fr: "fs_free_blocks s2 = ?F - {unat b, unat ?e}" using s2(4) k1(3) e'(2) by auto
    have "grown p b s s2"
    proof (rule grown_indirect [OF ok f _ _ e _ b(1) b' s2(1) keeps_trans [OF k1(1) s2(2)] fr, where d = "sin_dirty (nodes s p)"])
      show "12 \<le> unat (din_blocks ?x)" "unat (din_blocks ?x) < 1036" using i j by simp_all
      show "nodes s2 = (nodes s)(p := (nodes s p)\<lparr>din := ?x\<lparr>indirect := ?e\<rparr>, sin_dirty := sin_dirty (nodes s p)\<rparr>)"
        using s2(3) k1(2) by simp
      show "rd s2 = put_entry ?e (unat (din_blocks ?x) - 12) b (zero_block b (rd s))" using s2(5) s1(4) j(1) i(1) by simp
    qed simp_all
    moreover have "bmap_out b s2 = Some (0, b, s2)"
      by (rule bmap_out_spec) (use b b' s2 k1 keepsD(2) [OF s2(2)] in simp_all)
    then have "sfs_bmap_get_nolock p idx True s = Some (0, b, s2)"
      unfolding sfs_bmap_get_nolock_def Let_def sub c using i(2) j(3) s2(3) k1(2) by simp
    ultimately show ?thesis by blast
  qed
qed

lemma bmap_new_table:
  fixes s :: "'z sfs_fs_scheme"
  assumes ok: "sfs_ok s" and f: "fmap_ok (rd s) (fs_free_blocks s) (super_blocks s) R (din (nodes s p))"
    and i: "unat idx = unat (din_blocks (din (nodes s p)))" "\<not> idx < 12" "unat idx < 1036" and z: "indirect (din (nodes s p)) = 0"
  shows "(\<exists>s'. sfs_bmap_get_nolock p idx True s = Some (- errno_of E_NO_MEM, 0, s') \<and> refused s s') \<or>
    (\<exists>b s'. sfs_bmap_get_nolock p idx True s = Some (0, b, s') \<and> grown p b s s')"
proof -
  let ?x = "din (nodes s p)" and ?F = "fs_free_blocks s"
  note j = index_split [OF i(3,2)]
  show ?thesis
    using sfs_block_alloc_spec [OF ok]
  proof (elim disjE exE conjE)
    assume c: "sfs_block_alloc s = Some (- errno_of E_NO_MEM, 0, s)" "?F = {}"
    then have "sfs_bmap_get_nolock p idx True s = Some (- errno_of E_NO_MEM, 0, s)"
      unfolding sfs_bmap_get_nolock_def sfs_bmap_get_sub_nolock_def Let_def using i(2) j(3) z by simp
    moreover have "refused s s" by (rule refused_refl [OF ok c(2)])
    ultimately show ?thesis by blast
  next
    fix e s1 assume al: "sfs_block_alloc s = Some (0, e, s1)" and e: "e \<noteq> 0" "e < super_blocks s" "unat e \<in> ?F"
      and s1: "sfs_ok s1" "keeps s s1" "nodes s1 = nodes s" "fs_free_blocks s1 = ?F - {unat e}"
        "rd s1 = obj_copy (unat e * 4096) 0 4096 (\<lambda>_. 0) (rd s)"
    have sb: "super_blocks s1 = super_blocks s" by (rule keepsD(2) [OF s1(2)])
    have sub: "sfs_bmap_get_sub_nolock 0 (idx - 12) True s = sub_create 0 e ((idx - 12) * 4) s1"
      unfolding sfs_bmap_get_sub_nolock_def Let_def al using j(3) by simp
    have pre: "e < super_blocks s1" "unat e \<notin> fs_free_blocks s1" using e s1(4) sb by simp_all
    show ?thesis
      using sub_create_spec [OF s1(1) e(1) pre j(2), of 0]
    proof (elim disjE exE conjE)
      assume c: "sub_create 0 e ((idx - 12) * 4) s1 = sub_cleanup 0 e (- errno_of E_NO_MEM) s1" "fs_free_blocks s1 = {}"
      obtain s2 where s2: "sfs_block_free e s1 = Some s2" "sfs_ok s2" "keeps s1 s2" "nodes s2 = nodes s1"
        "fs_free_blocks s2 = insert (unat e) (fs_free_blocks s1)" "rd s2 = rd s1"
        using sfs_block_free_spec [OF s1(1) e(1)] e(2) sb s1(4) by auto
      have "sfs_bmap_get_nolock p idx True s = Some (- errno_of E_NO_MEM, 0, s2)"
        unfolding sfs_bmap_get_nolock_def Let_def z sub c(1) using i(2) j(3) e(1) s2(1) by (simp add: sub_cleanup_def)
      moreover have "unchanged s s2"
        using s2 s1 e(3) keeps_trans [OF s1(2) s2(3)] zero_block_at [of e "rd s"]
        unfolding unchanged_def zero_block_def by (auto simp: insert_absorb)
      ultimately show ?thesis using s2(5) c(2) by (auto simp: refused_def)
    next
      fix b s2 assume c: "sub_create 0 e ((idx - 12) * 4) s1 = Some (0, e, b, s2)" and b: "b \<noteq> 0" "b < super_blocks s1" "unat b \<in> fs_free_blocks s1"
        and s2: "sfs_ok s2" "keeps s1 s2" "nodes s2 = nodes s1" "fs_free_blocks s2 = fs_free_blocks s1 - {unat b}"
          "rd s2 = put_entry e (unat (idx - 12)) b (zero_block b (rd s1))"
      let ?s' = "set_dirty p (upd_din p (\<lambda>x. x\<lparr>indirect := e\<rparr>) s2)"
      have b': "b < super_blocks s" "unat b \<in> ?F" "e \<noteq> b" using b sb s1(4) by auto
      have s': "sfs_ok ?s'" "keeps s ?s'" "fs_free_blocks ?s' = ?F - {unat b, unat e}"
        using s2 s1(4) keeps_trans [OF s1(2) s2(2)] by (auto simp: set_dirty_def upd_din_def keeps_upd_node)
      have "grown p b s ?s'"
      proof (rule grown_indirect [OF ok f _ _ e(1) _ b(1) b'(1,2) s', where d = True])
        show "12 \<le> unat (din_blocks ?x)" "unat (din_blocks ?x) < 1036" using i j by simp_all
        show "e = indirect ?x \<or> indirect ?x = 0 \<and> unat e \<in> ?F \<and> e \<noteq> b \<and> e < super_blocks s" using z e b' by blast
        show "nodes ?s' = (nodes s)(p := (nodes s p)\<lparr>din := ?x\<lparr>indirect := e\<rparr>, sin_dirty := True\<rparr>)"
          using s2(3) s1(3) by (simp add: set_dirty_def upd_din_def)
        show "rd ?s' = put_entry e (unat (din_blocks ?x) - 12) b (zero_block b (zero_block e (rd s)))"
          using s2(5) s1(5) j(1) i(1) by (simp add: set_dirty_def upd_din_def zero_block_def)
        show "zero_block e (rd s) = (if e = indirect ?x then rd s else zero_block e (rd s))" using z e(1) by simp
      qed
      moreover have "bmap_out b ?s' = Some (0, b, ?s')"
        by (rule bmap_out_spec) (use b b' s2 sb keepsD(2) [OF s2(2)] in \<open>simp_all add: set_dirty_def upd_din_def\<close>)
      then have "sfs_bmap_get_nolock p idx True s = Some (0, b, ?s')"
        unfolding sfs_bmap_get_nolock_def Let_def z sub c using i(2) j(3) s2(3) s1(3) e(1) z by simp
      ultimately show ?thesis by blast
    qed
  qed
qed

lemma bmap_load_old:
  fixes s :: "'z sfs_fs_scheme"
  assumes ok: "sfs_ok s" and f: "fmap_ok (rd s) (fs_free_blocks s) (super_blocks s) R (din (nodes s p))"
    and i: "unat idx < unat (din_blocks (din (nodes s p)))"
  shows "\<exists>s'. sfs_bmap_load_nolock p idx s = Some (0, bmw (rd s) (din (nodes s p)) (unat idx), s') \<and> io_only s s' \<and> rd s' = rd s"
proof -
  let ?x = "din (nodes s p)" and ?b = "bmw (rd s) (din (nodes s p)) (unat idx)"
  have b: "?b \<noteq> 0" "?b < super_blocks s" "unat ?b \<notin> fs_free_blocks s" using fmapD(3) [OF f i] by auto
  have c: "idx \<le> din_blocks ?x" "(idx = din_blocks ?x) = False" using i by (auto simp: word_le_nat_alt)
  obtain s' where s': "sfs_bmap_get_nolock p idx False s = Some (0, ?b, s')" "io_only s s'" "rd s' = rd s"
    using bmap_get_old [OF ok f i] by blast
  have "sfs_block_inuse ?b s' = Some True"
    using sfs_inuse_spec [of s' ?b] io_only_ok [OF s'(2)] ok b s'(2) keepsD(2) [of s s'] by (simp add: io_only_def fs_free_blocks_def)
  then have "sfs_bmap_load_nolock p idx s = Some (0, ?b, s')"
    unfolding sfs_bmap_load_nolock_def Let_def c(2) using c(1) s'(1) by simp
  then show ?thesis using s' by blast
qed

text \<open>The blocks an inode holds: those of the file and the indirect block.\<close>

definition held :: "sfs_disk_inode \<Rightarrow> nat" where
  "held x = unat (din_blocks x) + (if indirect x = 0 then 0 else 1)"

definition appended :: "nat \<Rightarrow> u32 \<Rightarrow> 'z sfs_fs_scheme \<Rightarrow> 'z sfs_fs_scheme \<Rightarrow> bool" where
  "appended p b s s' \<longleftrightarrow> sfs_ok s' \<and> keeps s s' \<and> fs_free_blocks s' \<subseteq> fs_free_blocks s - {unat b} \<and> unat b \<in> fs_free_blocks s \<and>
     b \<noteq> 0 \<and> b < super_blocks s \<and>
     (\<exists>x' d. nodes s' = (nodes s)(p := (nodes s p)\<lparr>din := x', sin_dirty := d\<rparr>) \<and>
       x' = (din (nodes s p))\<lparr>direct := direct x', indirect := indirect x', din_blocks := din_blocks (din (nodes s p)) + 1\<rparr> \<and>
       (\<forall>R. fmap_ok (rd s) (fs_free_blocks s) (super_blocks s) R (din (nodes s p)) \<longrightarrow>
         fmap_ok (rd s') (fs_free_blocks s') (super_blocks s) R x' \<and>
         card (fs_free_blocks s') + held x' = card (fs_free_blocks s) + held (din (nodes s p))) \<and>
       (\<forall>i < 1036. bmw (rd s') x' i = (if i = unat (din_blocks (din (nodes s p))) then b else bmw (rd s) (din (nodes s p)) i))) \<and>
     (\<forall>a. a div 4096 = unat b \<longrightarrow> rd s' a = 0) \<and>
     (\<forall>a. a div 4096 \<notin> fs_free_blocks s \<and> (indirect (din (nodes s p)) = 0 \<or> a div 4096 \<noteq> unat (indirect (din (nodes s p)))) \<longrightarrow> rd s' a = rd s a)"

lemma grown_held:
  assumes "finite F" and "unat b \<in> F" and "0 \<notin> F" and "indirect x \<noteq> 0 \<Longrightarrow> unat (indirect x) \<notin> F"
    and "indirect x' = indirect x \<or> indirect x = 0 \<and> unat (indirect x') \<in> F \<and> indirect x' \<noteq> b"
    and "unat (din_blocks x') = unat (din_blocks x) + 1"
  shows "card (F - {unat b, unat (indirect x')}) + held x' = card F + held x"
proof (cases "indirect x' = indirect x")
  case True
  have nf: "unat (indirect x) \<notin> F"
  proof (cases "indirect x = 0")
    case True
    then show ?thesis using assms(3) by simp
  qed (use assms(4) in simp)
  have "F - {unat b, unat (indirect x')} = F - {unat b}" using nf True by auto
  moreover have "card F = Suc (card (F - {unat b}))" using assms(1,2) by (metis card_Suc_Diff1)
  ultimately show ?thesis using True assms(6) by (simp add: held_def)
next
  case False
  then have x: "indirect x = 0" "unat (indirect x') \<in> F" "unat (indirect x') \<noteq> unat b" "indirect x' \<noteq> 0"
    using assms(5) by (auto dest: iffD2 [OF word_unat_eq_iff])
  have d: "F - {unat b, unat (indirect x')} = F - {unat b} - {unat (indirect x')}" by auto
  have "Suc (card (F - {unat b})) = card F" using assms(1,2) by (rule card_Suc_Diff1)
  moreover have "Suc (card (F - {unat b} - {unat (indirect x')})) = card (F - {unat b})" using assms(1) x by (intro card_Suc_Diff1) simp_all
  moreover have "held x' = held x + 2" using x(1,4) assms(6) by (simp add: held_def)
  ultimately show ?thesis unfolding d by linarith
qed

lemma grown_appended:
  fixes s :: "'z sfs_fs_scheme"
  assumes ok: "sfs_ok s" and g: "grown p b s s'" and n: "unat (din_blocks (din (nodes s p))) < 1036"
  shows "appended p b s (upd_din p (\<lambda>x. x\<lparr>din_blocks := din_blocks x + 1\<rparr>) s')"
proof -
  let ?x = "din (nodes s p)" and ?F = "fs_free_blocks s" and ?N = "super_blocks s"
  from g obtain x' d where x': "nodes s' = (nodes s)(p := (nodes s p)\<lparr>din := x', sin_dirty := d\<rparr>)"
    "x' = ?x\<lparr>direct := direct x', indirect := indirect x'\<rparr>"
    "indirect x' = indirect ?x \<or> indirect ?x = 0 \<and> unat (indirect x') \<in> ?F \<and> indirect x' \<noteq> b \<and> indirect x' < ?N"
    "\<forall>i < 1036. bmw (rd s') x' i = (if i = unat (din_blocks ?x) then b else bmw (rd s) ?x i)"
    "fs_free_blocks s' = ?F - {unat b, unat (indirect x')}"
    unfolding grown_def by blast
  have g': "sfs_ok s'" "keeps s s'" "b \<noteq> 0" "b < ?N" "unat b \<in> ?F" "\<forall>a. a div 4096 = unat b \<longrightarrow> rd s' a = 0"
    "\<forall>a. a div 4096 \<notin> ?F \<and> (indirect ?x = 0 \<or> a div 4096 \<noteq> unat (indirect ?x)) \<longrightarrow> rd s' a = rd s a"
    using g unfolding grown_def by blast+
  let ?x2 = "x'\<lparr>din_blocks := din_blocks x' + 1\<rparr>"
  have bl: "din_blocks x' = din_blocks ?x" by (subst x'(2)) simp
  have bm: "bmw r ?x2 i = bmw r x' i" for r i by (simp add: bmw_def)
  have hd: "card (fs_free_blocks s') + held ?x2 = card ?F + held ?x" if f: "fmap_ok (rd s) ?F ?N R ?x" for R
  proof -
    have fin: "finite ?F" by (rule finite_subset [of _ "{1..<unat (super_blocks s)}"]) (use ok in \<open>auto simp: sfs_ok_def\<close>)
    have "unat (din_blocks ?x2) = unat (din_blocks ?x) + 1" using n by (simp add: bl unat_add_u32)
    then have "card (?F - {unat b, unat (indirect ?x2)}) + held ?x2 = card ?F + held ?x"
      using fmapD(6) [OF f] x'(3) by (intro grown_held [OF fin g'(5) zero_not_free [OF ok]]) auto
    then show ?thesis using x'(5) by simp
  qed
  have fm: "fmap_ok (rd s') (fs_free_blocks s') ?N R ?x2" if f: "fmap_ok (rd s) ?F ?N R ?x" for R
  proof (rule fmap_append [OF f n g'(3,4,5)])
    show "bmw (rd s') ?x2 i = (if i = unat (din_blocks ?x) then b else bmw (rd s) ?x i)" if "i < 1036" for i
      unfolding bm using x'(4) that by blast
    show "din_blocks ?x2 = din_blocks ?x + 1" using bl by simp
    show "indirect ?x2 = indirect ?x \<or> indirect ?x = 0 \<and> unat (indirect ?x2) \<in> ?F \<and> indirect ?x2 \<noteq> b \<and> indirect ?x2 < ?N" using x'(3) by simp
    show "fs_free_blocks s' \<subseteq> ?F - {unat b}" "unat (indirect ?x2) \<notin> fs_free_blocks s'" using x'(5) by auto
  qed
  show ?thesis
    unfolding appended_def
  proof (intro conjI)
    show "\<exists>x2 d. nodes (upd_din p (\<lambda>x. x\<lparr>din_blocks := din_blocks x + 1\<rparr>) s') = (nodes s)(p := (nodes s p)\<lparr>din := x2, sin_dirty := d\<rparr>) \<and>
       x2 = ?x\<lparr>direct := direct x2, indirect := indirect x2, din_blocks := din_blocks ?x + 1\<rparr> \<and>
       (\<forall>R. fmap_ok (rd s) ?F ?N R ?x \<longrightarrow>
         fmap_ok (rd (upd_din p (\<lambda>x. x\<lparr>din_blocks := din_blocks x + 1\<rparr>) s')) (fs_free_blocks (upd_din p (\<lambda>x. x\<lparr>din_blocks := din_blocks x + 1\<rparr>) s')) ?N R x2 \<and>
         card (fs_free_blocks (upd_din p (\<lambda>x. x\<lparr>din_blocks := din_blocks x + 1\<rparr>) s')) + held x2 = card ?F + held ?x) \<and>
       (\<forall>i < 1036. bmw (rd (upd_din p (\<lambda>x. x\<lparr>din_blocks := din_blocks x + 1\<rparr>) s')) x2 i = (if i = unat (din_blocks ?x) then b else bmw (rd s) ?x i))"
    proof (intro exI [of _ ?x2] exI [of _ d] conjI)
      show "nodes (upd_din p (\<lambda>x. x\<lparr>din_blocks := din_blocks x + 1\<rparr>) s') = (nodes s)(p := (nodes s p)\<lparr>din := ?x2, sin_dirty := d\<rparr>)"
        using x'(1) by (simp add: upd_din_def) (cases "nodes s p", simp)
      show "?x2 = ?x\<lparr>direct := direct ?x2, indirect := indirect ?x2, din_blocks := din_blocks ?x + 1\<rparr>"
        using arg_cong [OF x'(2), of "\<lambda>z. z\<lparr>din_blocks := din_blocks ?x + 1\<rparr>"] bl by simp
    qed (use fm hd x'(4) bm in \<open>simp_all add: upd_din_def\<close>)
    show "fs_free_blocks (upd_din p (\<lambda>x. x\<lparr>din_blocks := din_blocks x + 1\<rparr>) s') \<subseteq> ?F - {unat b}"
      using x'(5) by (auto simp: upd_din_def)
  qed (use g' in \<open>simp_all add: upd_din_def keeps_upd_node\<close>)
qed

lemma bmap_load_new:
  fixes s :: "'z sfs_fs_scheme"
  assumes ok: "sfs_ok s" and f: "fmap_ok (rd s) (fs_free_blocks s) (super_blocks s) R (din (nodes s p))"
    and i: "idx = din_blocks (din (nodes s p))" "unat idx < 1036"
  shows "(\<exists>s'. sfs_bmap_load_nolock p idx s = Some (- errno_of E_NO_MEM, 0, s') \<and> refused s s') \<or>
    (\<exists>b s'. sfs_bmap_load_nolock p idx s = Some (0, b, s') \<and> appended p b s s')"
proof -
  let ?x = "din (nodes s p)"
  have u: "unat idx = unat (din_blocks ?x)" using i(1) by simp
  have "(\<exists>s'. sfs_bmap_get_nolock p idx True s = Some (- errno_of E_NO_MEM, 0, s') \<and> refused s s') \<or>
    (\<exists>b s'. sfs_bmap_get_nolock p idx True s = Some (0, b, s') \<and> grown p b s s')"
  proof (cases "idx < 12")
    case True
    with bmap_new_direct [OF ok f u True] refused_refl [OF ok] show ?thesis by blast
  next
    case False
    with bmap_new_table [OF ok f u False i(2)] bmap_new_indirect [OF ok f u False i(2)] show ?thesis
      by (cases "indirect ?x = 0") blast+
  qed
  then show ?thesis
  proof (elim disjE exE conjE)
    fix s' assume g: "sfs_bmap_get_nolock p idx True s = Some (- errno_of E_NO_MEM, 0, s')" "refused s s'"
    have "sfs_bmap_load_nolock p idx s = Some (- errno_of E_NO_MEM, 0, s')"
      using g(1) i(1) by (simp add: sfs_bmap_load_nolock_def Let_def)
    with g(2) show ?thesis by blast
  next
    fix b s' assume g: "sfs_bmap_get_nolock p idx True s = Some (0, b, s')" "grown p b s s'"
    have g': "sfs_ok s'" "keeps s s'" "b \<noteq> 0" "b < super_blocks s" "fs_free_blocks s' \<subseteq> fs_free_blocks s - {unat b}" using g(2) by (auto simp: grown_def)
    then have "sfs_block_inuse b s' = Some True" using sfs_inuse_spec [of s' b] keepsD(2) [of s s'] by auto
    then have "sfs_bmap_load_nolock p idx s = Some (0, b, upd_din p (\<lambda>x. x\<lparr>din_blocks := din_blocks x + 1\<rparr>) s')"
      using g(1) i(1) by (simp add: sfs_bmap_load_nolock_def Let_def)
    with grown_appended [OF ok g(2)] u i(2) show ?thesis by auto
  qed
qed

end
