(* ===== verification/SfsFile.thy ===== *)
theory SfsFile
  imports SfsBlock
begin

text \<open>
  Reading and writing files. \<open>fv s p k\<close> is byte \<open>k\<close> of the file of inode \<open>p\<close>, found through its block
  map; \<open>moved\<close> says what a transfer of \<open>len\<close> bytes at position \<open>pos\<close> does to the file and to the
  caller's buffer. Transfers compose, so the loop of \<^verbatim>\<open>sfs_io_nolock\<close> over partial and whole blocks is
  one transfer.
\<close>

section \<open>The bytes of a file\<close>

definition nb :: "'z sfs_fs_scheme \<Rightarrow> nat \<Rightarrow> nat" where
  "nb s p = unat (din_blocks (din (nodes s p)))"

definition fv :: "'z sfs_fs_scheme \<Rightarrow> nat \<Rightarrow> nat \<Rightarrow> u8" where
  "fv s p k = rd s (unat (bmw (rd s) (din (nodes s p)) (k div 4096)) * 4096 + k mod 4096)"

text \<open>The file system is well formed, and the file's block map is; \<open>R\<close> are the blocks of all others.\<close>

definition finv :: "'z sfs_fs_scheme \<Rightarrow> nat \<Rightarrow> nat set \<Rightarrow> bool" where
  "finv s p R \<longleftrightarrow> sfs_ok s \<and> fmap_ok (rd s) (fs_free_blocks s) (super_blocks s) R (din (nodes s p))"

text \<open>
  Nothing but the block map of \<open>p\<close> changes, and no block of the others; every block that is no longer
  free is held by \<open>p\<close>.
\<close>

definition stable :: "nat \<Rightarrow> nat set \<Rightarrow> 'z sfs_fs_scheme \<Rightarrow> 'z sfs_fs_scheme \<Rightarrow> bool" where
  "stable p R s s' \<longleftrightarrow> keeps s s' \<and> fs_free_blocks s' \<subseteq> fs_free_blocks s \<and> (\<forall>a. a div 4096 \<in> R \<longrightarrow> rd s' a = rd s a) \<and>
     (\<exists>x' d. nodes s' = (nodes s)(p := (nodes s p)\<lparr>din := x', sin_dirty := d\<rparr>) \<and>
       x' = (din (nodes s p))\<lparr>direct := direct x', indirect := indirect x', din_blocks := din_blocks x'\<rparr> \<and>
       card (fs_free_blocks s') + held x' = card (fs_free_blocks s) + held (din (nodes s p)))"

definition moved :: "bool \<Rightarrow> nat \<Rightarrow> nat set \<Rightarrow> nat \<Rightarrow> nat \<Rightarrow> nat \<Rightarrow> mem \<Rightarrow> 'z sfs_fs_scheme \<Rightarrow> mem \<Rightarrow> 'z sfs_fs_scheme \<Rightarrow> bool" where
  "moved write p R pos len base m s m' s' \<longleftrightarrow> finv s' p R \<and> stable p R s s' \<and>
     (if write then m' = m \<and> nb s' p = max (nb s p) (if len = 0 then 0 else (pos + len + 4095) div 4096) \<and>
        (\<forall>k < 4096 * nb s' p. fv s' p k =
          (if pos \<le> k \<and> k < pos + len then m (base + (k - pos)) else if k < 4096 * nb s p then fv s p k else 0))
      else m' = (\<lambda>a. if base \<le> a \<and> a < base + len then fv s p (pos + (a - base)) else m a) \<and>
        nb s' p = nb s p \<and> (\<forall>k < 4096 * nb s p. fv s' p k = fv s p k))"

lemma stable_refl [simp]: "stable p R s s"
  unfolding stable_def by (intro conjI exI [of _ "din (nodes s p)"] exI [of _ "sin_dirty (nodes s p)"]) simp_all

lemma stable_trans:
  assumes "stable p R s s1" and "stable p R s1 s2"
  shows "stable p R s s2"
proof -
  obtain x1 d1 where 1: "nodes s1 = (nodes s)(p := (nodes s p)\<lparr>din := x1, sin_dirty := d1\<rparr>)"
    "x1 = (din (nodes s p))\<lparr>direct := direct x1, indirect := indirect x1, din_blocks := din_blocks x1\<rparr>"
    "card (fs_free_blocks s1) + held x1 = card (fs_free_blocks s) + held (din (nodes s p))"
    using assms(1) unfolding stable_def by blast
  obtain x2 d2 where 2: "nodes s2 = (nodes s1)(p := (nodes s1 p)\<lparr>din := x2, sin_dirty := d2\<rparr>)"
    "x2 = (din (nodes s1 p))\<lparr>direct := direct x2, indirect := indirect x2, din_blocks := din_blocks x2\<rparr>"
    "card (fs_free_blocks s2) + held x2 = card (fs_free_blocks s1) + held (din (nodes s1 p))"
    using assms(2) unfolding stable_def by blast
  have n: "nodes s2 = (nodes s)(p := (nodes s p)\<lparr>din := x2, sin_dirty := d2\<rparr>)"
    using 1(1) 2(1) by simp
  have x1: "din (nodes s1 p) = x1" using 1(1) by simp
  then have "x2 = x1\<lparr>direct := direct x2, indirect := indirect x2, din_blocks := din_blocks x2\<rparr>" using 2(2) by simp
  moreover have "x1\<lparr>direct := a, indirect := b, din_blocks := c\<rparr> = (din (nodes s p))\<lparr>direct := a, indirect := b, din_blocks := c\<rparr>" for a b c
    by (subst 1(2)) simp
  ultimately have "x2 = (din (nodes s p))\<lparr>direct := direct x2, indirect := indirect x2, din_blocks := din_blocks x2\<rparr>" by simp
  moreover have "keeps s s2" "fs_free_blocks s2 \<subseteq> fs_free_blocks s" "\<forall>a. a div 4096 \<in> R \<longrightarrow> rd s2 a = rd s a"
    using assms keeps_trans [of s s1 s2] by (auto simp: stable_def)
  moreover have "card (fs_free_blocks s2) + held x2 = card (fs_free_blocks s) + held (din (nodes s p))" using 1(3) 2(3) x1 by simp
  ultimately show ?thesis unfolding stable_def using n by blast
qed

lemma moved_trans:
  assumes 1: "moved write p R pos l1 base m s m1 s1" and 2: "moved write p R (pos + l1) l2 (base + l1) m1 s1 m2 s2"
    and r: "write \<or> pos + l1 + l2 \<le> 4096 * nb s p"
  shows "moved write p R pos (l1 + l2) base m s m2 s2"
proof (cases "write")
  case True
  have a: "m1 = m" "nb s1 p = max (nb s p) (if l1 = 0 then 0 else (pos + l1 + 4095) div 4096)" "stable p R s s1"
    "\<forall>k < 4096 * nb s1 p. fv s1 p k = (if pos \<le> k \<and> k < pos + l1 then m (base + (k - pos)) else if k < 4096 * nb s p then fv s p k else 0)"
    using 1 True by (auto simp: moved_def)
  have b: "m2 = m1" "nb s2 p = max (nb s1 p) (if l2 = 0 then 0 else (pos + l1 + l2 + 4095) div 4096)" "stable p R s1 s2" "finv s2 p R"
    "\<forall>k < 4096 * nb s2 p. fv s2 p k = (if pos + l1 \<le> k \<and> k < pos + l1 + l2 then m1 (base + l1 + (k - (pos + l1)))
       else if k < 4096 * nb s1 p then fv s1 p k else 0)"
    using 2 True by (auto simp: moved_def)
  have n: "nb s2 p = max (nb s p) (if l1 + l2 = 0 then 0 else (pos + (l1 + l2) + 4095) div 4096)"
  proof -
    have "(pos + l1 + 4095) div 4096 \<le> (pos + l1 + l2 + 4095) div 4096" by (rule div_le_mono) simp
    then have le: "(pos + l1 + 4095) div 4096 \<le> (pos + (l1 + l2) + 4095) div 4096" by (simp only: add.assoc)
    show ?thesis
    proof (cases "l2 = 0")
      case True
      then show ?thesis using a(2) b(2) by simp
    next
      case False
      then have "nb s2 p = max (nb s1 p) ((pos + (l1 + l2) + 4095) div 4096)" using b(2) by (simp only: add.assoc if_False)
      with False a(2) le show ?thesis by (cases "l1 = 0") (simp_all only: if_True if_False add_is_0 max.assoc max.absorb2 max_0R simp_thms)
    qed
  qed
  have n1: "nb s p \<le> nb s1 p" "pos + l1 \<le> 4096 * nb s1 p \<or> l1 = 0" using a(2) dividend_less_times_div [of 4096 "pos + l1 + 4095"] by auto
  have "fv s2 p k = (if pos \<le> k \<and> k < pos + (l1 + l2) then m (base + (k - pos)) else if k < 4096 * nb s p then fv s p k else 0)"
    if "k < 4096 * nb s2 p" for k
  proof (cases "pos + l1 \<le> k \<and> k < pos + l1 + l2")
    case True
    then have "base + l1 + (k - (pos + l1)) = base + (k - pos)" by simp
    then show ?thesis using b(5) that True a(1) by simp
  next
    case False
    then show ?thesis using b(5) a(4) that n1 by (cases "k < 4096 * nb s1 p") auto
  qed
  with n True b stable_trans [OF a(3) b(3)] a(1) show ?thesis by (simp add: moved_def)
next
  case False
  have a: "m1 = (\<lambda>a. if base \<le> a \<and> a < base + l1 then fv s p (pos + (a - base)) else m a)" "nb s1 p = nb s p" "stable p R s s1"
    "\<forall>k < 4096 * nb s p. fv s1 p k = fv s p k" using 1 False by (auto simp: moved_def)
  have b: "m2 = (\<lambda>a. if base + l1 \<le> a \<and> a < base + l1 + l2 then fv s1 p (pos + l1 + (a - (base + l1))) else m1 a)" "nb s2 p = nb s1 p"
    "stable p R s1 s2" "\<forall>k < 4096 * nb s1 p. fv s2 p k = fv s1 p k" "finv s2 p R" using 2 False by (auto simp: moved_def)
  have "m2 x = (if base \<le> x \<and> x < base + (l1 + l2) then fv s p (pos + (x - base)) else m x)" for x
  proof (cases "base + l1 \<le> x \<and> x < base + l1 + l2")
    case True
    then have "pos + l1 + (x - (base + l1)) = pos + (x - base)" "pos + (x - base) < 4096 * nb s p" using r False by auto
    then show ?thesis using True a(4) b(1) by simp
  next
    case False
    then show ?thesis using a(1) b(1) by auto
  qed
  then have "m2 = (\<lambda>x. if base \<le> x \<and> x < base + (l1 + l2) then fv s p (pos + (x - base)) else m x)" by (rule ext)
  moreover have "nb s2 p = nb s p" "\<forall>k < 4096 * nb s p. fv s2 p k = fv s p k" using a(2,4) b(2,4) by simp_all
  ultimately show ?thesis using False b(5) stable_trans [OF a(3) b(3)] by (simp add: moved_def)
qed

section \<open>One block\<close>

text \<open>What a buffer or block operation does: \<open>len\<close> bytes at offset \<open>off\<close> of block \<open>b\<close>.\<close>

definition xfer :: "bool \<Rightarrow> u32 \<Rightarrow> nat \<Rightarrow> nat \<Rightarrow> nat \<Rightarrow> mem \<Rightarrow> 'z sfs_fs_scheme \<Rightarrow> mem \<Rightarrow> 'z sfs_fs_scheme \<Rightarrow> bool" where
  "xfer write b off len base m s m' s' \<longleftrightarrow> io_only s s' \<and>
     m' = (if write then m else obj_copy base (unat b * 4096 + off) len (rd s) m) \<and>
     rd s' = (if write then obj_copy (unat b * 4096 + off) base len m (rd s) else rd s)"

lemma block_copy:
  assumes "q < 4096" and "off + len \<le> 4096"
  shows "obj_copy (b * 4096 + off) base len m r (c * 4096 + q) =
    (if c = b \<and> off \<le> q \<and> q < off + len then m (base + (q - off)) else r (c * 4096 + q))"
proof (cases "c = b")
  case True
  then show ?thesis by (auto simp: obj_copy_def)
next
  case False
  then have "c + 1 \<le> b \<or> b + 1 \<le> c" by linarith
  then have "(c + 1) * 4096 \<le> b * 4096 \<or> (b + 1) * 4096 \<le> c * 4096" by (meson mult_le_mono1)
  then show ?thesis using assms False by (auto simp: obj_copy_def)
qed

lemma block_copy_other:
  assumes "off + len \<le> 4096" and "a div 4096 \<noteq> b"
  shows "obj_copy (b * 4096 + off) base len m r a = r a"
  using block_copy [of "a mod 4096" off len b base m r "a div 4096"] assms by simp

text \<open>The position of a byte in its file, and in its block.\<close>

lemma pos_in_block:
  fixes k :: nat
  assumes "off + len \<le> 4096"
  shows "i * 4096 + off \<le> k \<and> k < i * 4096 + off + len \<longleftrightarrow> k div 4096 = i \<and> off \<le> k mod 4096 \<and> k mod 4096 < off + len"
    and "k div 4096 = i \<Longrightarrow> k - (i * 4096 + off) = k mod 4096 - off"
proof -
  have k: "k = k div 4096 * 4096 + k mod 4096" by simp
  have "i * 4096 + off \<le> q * 4096 + r \<and> q * 4096 + r < i * 4096 + off + len \<longleftrightarrow> q = i \<and> off \<le> r \<and> r < off + len"
    if "r < 4096" for q r using assms that by (cases q i rule: linorder_cases) auto
  from this [of "k mod 4096" "k div 4096"]
  show "i * 4096 + off \<le> k \<and> k < i * 4096 + off + len \<longleftrightarrow> k div 4096 = i \<and> off \<le> k mod 4096 \<and> k mod 4096 < off + len" by simp
  show "k div 4096 = i \<Longrightarrow> k - (i * 4096 + off) = k mod 4096 - off" using k by (metis diff_diff_left diff_add_inverse)
qed

lemma write_block:
  fixes s s' :: "'z sfs_fs_scheme"
  assumes f: "finv s p R" and i: "i < nb s p" and b: "b = bmw (rd s) (din (nodes s p)) i" and l: "off + len \<le> 4096"
    and x: "io_only s s'" "rd s' = obj_copy (unat b * 4096 + off) base len m (rd s)"
  shows "finv s' p R" "stable p R s s'" "nb s' p = nb s p"
    "k < 4096 * nb s p \<Longrightarrow> fv s' p k = (if i * 4096 + off \<le> k \<and> k < i * 4096 + off + len then m (base + (k - (i * 4096 + off))) else fv s p k)"
proof -
  let ?x = "din (nodes s p)"
  have ok: "sfs_ok s" and fm: "fmap_ok (rd s) (fs_free_blocks s) (super_blocks s) R ?x" using f by (simp_all add: finv_def)
  have nd: "nodes s' = nodes s" "fs_free_blocks s' = fs_free_blocks s" "super_blocks s' = super_blocks s" "keeps s s'"
    using x(1) keepsD(2) [of s s'] by (simp_all add: io_only_def fs_free_blocks_def)
  have i': "i < unat (din_blocks ?x)" using i by (simp add: nb_def)
  have bu: "unat b \<notin> R" "indirect ?x \<noteq> 0 \<Longrightarrow> unat (indirect ?x) \<noteq> unat b"
    using fmapD(3,7) [OF fm, of i] i' b by (auto dest: iffD2 [OF word_unat_eq_iff])
  have ind: "indirect ?x \<noteq> 0 \<longrightarrow> (\<forall>a. a div 4096 = unat (indirect ?x) \<longrightarrow> rd s' a = rd s a)"
    using bu(2) block_copy_other [OF l] by (simp add: x(2))
  show "finv s' p R" using io_only_ok [OF x(1)] ok fmap_cong [OF fm ind] nd by (simp add: finv_def)
  show "nb s' p = nb s p" by (simp add: nb_def nd)
  show "stable p R s s'"
  proof -
    have "rd s' a = rd s a" if "a div 4096 \<in> R" for a
      unfolding x(2) by (rule block_copy_other [OF l]) (use bu(1) that in metis)
    then show ?thesis unfolding stable_def using nd
      by (intro conjI exI [of _ ?x] exI [of _ "sin_dirty (nodes s p)"]) auto
  qed
  assume k: "k < 4096 * nb s p"
  then have kd: "k div 4096 < nb s p" by (simp add: div_less_iff_less_mult mult.commute)
  then have kn: "k div 4096 < unat (din_blocks ?x)" "k div 4096 < 1036" using fmapD(1) [OF fm] by (simp_all add: nb_def)
  have bm: "bmw (rd s') ?x (k div 4096) = bmw (rd s) ?x (k div 4096)" by (rule bmw_cong [OF ind kn(2)])
  have eq: "unat (bmw (rd s) ?x (k div 4096)) = unat b \<longleftrightarrow> k div 4096 = i"
  proof -
    have "bmw (rd s) ?x (k div 4096) = bmw (rd s) ?x i \<longleftrightarrow> k div 4096 = i"
      using inj_on_eq_iff [OF fmapD(5) [OF fm]] kn(1) i' by simp
    then show ?thesis using b by (simp add: word_unat_eq_iff [symmetric])
  qed
  have km: "k mod 4096 < 4096" by simp
  have fv': "fv s' p k = rd s' (unat (bmw (rd s) ?x (k div 4096)) * 4096 + k mod 4096)" by (simp add: fv_def nd bm)
  show "fv s' p k = (if i * 4096 + off \<le> k \<and> k < i * 4096 + off + len then m (base + (k - (i * 4096 + off))) else fv s p k)"
    unfolding fv' x(2) block_copy [OF km l] eq pos_in_block(1) [OF l]
    using pos_in_block(2) [OF l, of k i] by (auto simp: fv_def)
qed

lemma moved_old:
  fixes s :: "'z sfs_fs_scheme"
  assumes f: "finv s p R" and i: "i < nb s p" and b: "b = bmw (rd s) (din (nodes s p)) i" and l: "off + len \<le> 4096" "0 < len"
    and s1: "io_only s s1" "rd s1 = rd s" and x: "xfer write b off len base m s1 m' s2"
  shows "moved write p R (i * 4096 + off) len base m s m' s2"
proof -
  have io: "io_only s s2" using io_only_trans [OF s1(1)] x by (simp add: xfer_def)
  show ?thesis
  proof (cases "write")
    case True
    have r: "rd s2 = obj_copy (unat b * 4096 + off) base len m (rd s)" "m' = m" using x True s1(2) by (simp_all add: xfer_def)
    note w = write_block [OF f i b l(1) io r(1)]
    have "(i * 4096 + off + len + 4095) div 4096 \<le> nb s p"
    proof -
      have "(i * 4096 + off + len + 4095) div 4096 \<le> i + 1" using l by (intro less_Suc_eq_le [THEN iffD1] ) (simp add: div_less_iff_less_mult)
      with i show ?thesis by simp
    qed
    then have "nb s2 p = max (nb s p) (if len = 0 then 0 else (i * 4096 + off + len + 4095) div 4096)" using w(3) by simp
    then show ?thesis unfolding moved_def using True w r(2) by simp
  next
    case False
    have r: "rd s2 = rd s" "m' = obj_copy base (unat b * 4096 + off) len (rd s) m" using x False s1(2) by (simp_all add: xfer_def)
    have z: "rd s2 = obj_copy (unat b * 4096 + off) base 0 m (rd s)" using r(1) by simp
    have l0: "off + 0 \<le> 4096" using l by simp
    note w = write_block [OF f i b l0 io z]
    have "fv s p (i * 4096 + off + (a - base)) = rd s (unat b * 4096 + off + (a - base))" if "base \<le> a" "a < base + len" for a
    proof -
      have "off + (a - base) < 4096" using that l by simp
      then have d: "(i * 4096 + (off + (a - base))) div 4096 = i" "(i * 4096 + (off + (a - base))) mod 4096 = off + (a - base)"
        by (simp_all del: Nat.add_diff_assoc Nat.add_diff_assoc2)
      show ?thesis unfolding fv_def add.assoc d b ..
    qed
    then have "m' = (\<lambda>a. if base \<le> a \<and> a < base + len then fv s p (i * 4096 + off + (a - base)) else m a)"
      unfolding r(2) obj_copy_def by (intro ext) simp
    moreover have "fv s2 p k = fv s p k" if "k < 4096 * nb s p" for k using w(4) [OF that] by (auto split: if_splits)
    ultimately show ?thesis unfolding moved_def using False w(1-3) by simp
  qed
qed

lemma moved_new:
  fixes s :: "'z sfs_fs_scheme"
  assumes f: "finv s p R" and n: "nb s p < 1036" and ap: "appended p b s s1" and l: "off + len \<le> 4096" "0 < len"
    and x: "xfer True b off len base m s1 m' s2"
  shows "moved True p R (nb s p * 4096 + off) len base m s m' s2"
proof -
  let ?x = "din (nodes s p)" and ?n = "nb s p"
  from ap obtain x' d where x': "nodes s1 = (nodes s)(p := (nodes s p)\<lparr>din := x', sin_dirty := d\<rparr>)"
    "x' = ?x\<lparr>direct := direct x', indirect := indirect x', din_blocks := din_blocks ?x + 1\<rparr>"
    "\<forall>R. fmap_ok (rd s) (fs_free_blocks s) (super_blocks s) R ?x \<longrightarrow> fmap_ok (rd s1) (fs_free_blocks s1) (super_blocks s) R x' \<and>
      card (fs_free_blocks s1) + held x' = card (fs_free_blocks s) + held ?x"
    "\<forall>i < 1036. bmw (rd s1) x' i = (if i = unat (din_blocks ?x) then b else bmw (rd s) ?x i)"
    unfolding appended_def by blast
  have a: "sfs_ok s1" "keeps s s1" "fs_free_blocks s1 \<subseteq> fs_free_blocks s - {unat b}" "unat b \<in> fs_free_blocks s"
    "\<forall>a. a div 4096 = unat b \<longrightarrow> rd s1 a = 0"
    "\<forall>a. a div 4096 \<notin> fs_free_blocks s \<and> (indirect ?x = 0 \<or> a div 4096 \<noteq> unat (indirect ?x)) \<longrightarrow> rd s1 a = rd s a"
    using ap unfolding appended_def by blast+
  have fm: "fmap_ok (rd s) (fs_free_blocks s) (super_blocks s) R ?x" using f by (simp add: finv_def)
  have p1: "din (nodes s1 p) = x'" using x'(1) by simp
  have bl: "din_blocks x' = din_blocks ?x + 1" by (subst x'(2)) simp
  then have nb1: "nb s1 p = ?n + 1" using n unfolding nb_def p1 by (simp add: unat_add_u32)
  have f1: "finv s1 p R" using a(1) x'(3) fm keepsD(2) [OF a(2)] p1 by (simp add: finv_def)
  have st1: "stable p R s s1"
  proof -
    have "rd s1 r = rd s r" if r: "r div 4096 \<in> R" for r
    proof -
      have "r div 4096 \<notin> fs_free_blocks s" "indirect ?x = 0 \<or> r div 4096 \<noteq> unat (indirect ?x)"
        using r fmapD(2,6) [OF fm] by auto
      then show ?thesis using a(6) by blast
    qed
    moreover have "x' = ?x\<lparr>direct := direct x', indirect := indirect x', din_blocks := din_blocks x'\<rparr>"
      using x'(2) bl by simp
    moreover have "card (fs_free_blocks s1) + held x' = card (fs_free_blocks s) + held ?x" using x'(3) fm by blast
    ultimately show ?thesis unfolding stable_def using a(2,3) x'(1) by blast
  qed
  have old: "fv s1 p k = (if k < 4096 * ?n then fv s p k else 0)" if "k < 4096 * (?n + 1)" for k
  proof (cases "k < 4096 * ?n")
    case True
    then have kd: "k div 4096 < ?n" by (simp add: div_less_iff_less_mult mult.commute)
    then have bm: "bmw (rd s1) x' (k div 4096) = bmw (rd s) ?x (k div 4096)" using x'(4) n by (simp add: nb_def)
    let ?c = "bmw (rd s) ?x (k div 4096)"
    have "unat ?c \<notin> fs_free_blocks s" "indirect ?x = 0 \<or> unat ?c \<noteq> unat (indirect ?x)"
      using fmapD(3,7) [OF fm, of "k div 4096"] kd by (auto simp: nb_def dest: iffD2 [OF word_unat_eq_iff])
    then have "rd s1 (unat ?c * 4096 + k mod 4096) = rd s (unat ?c * 4096 + k mod 4096)" using a(6) by simp
    then show ?thesis using True by (simp add: fv_def p1 bm)
  next
    case False
    then have "k div 4096 = ?n" using that by (intro div_nat_eqI) simp_all
    then have "bmw (rd s1) x' (k div 4096) = b" using x'(4) n by (simp add: nb_def)
    then show ?thesis using False a(5) by (simp add: fv_def p1)
  qed
  have "b = bmw (rd s1) (din (nodes s1 p)) ?n" using x'(4) n by (simp add: p1 nb_def)
  from moved_old [OF f1 _ this l io_only_refl refl x] nb1
  have mv: "moved True p R (?n * 4096 + off) len base m s1 m' s2" by simp
  have "(?n * 4096 + off + len + 4095) div 4096 = ?n + 1" using l by (intro div_nat_eqI) simp_all
  then have "nb s2 p = max ?n (if len = 0 then 0 else (?n * 4096 + off + len + 4095) div 4096)" using mv l nb1 by (simp add: moved_def)
  moreover have "fv s2 p k = (if ?n * 4096 + off \<le> k \<and> k < ?n * 4096 + off + len then m (base + (k - (?n * 4096 + off)))
      else if k < 4096 * ?n then fv s p k else 0)" if "k < 4096 * nb s2 p" for k
    using mv that old [of k] nb1 by (auto simp: moved_def)
  ultimately show ?thesis using mv stable_trans [OF st1] by (simp add: moved_def)
qed

section \<open>The steps of sfs\_io\_nolock\<close>

lemma unchanged_moved:
  fixes s :: "'z sfs_fs_scheme"
  assumes f: "finv s p R" and u: "unchanged s s'"
  shows "moved True p R pos 0 base m s m s'"
proof -
  let ?x = "din (nodes s p)"
  have fm: "fmap_ok (rd s) (fs_free_blocks s) (super_blocks s) R ?x" using f by (simp add: finv_def)
  have n: "nodes s' = nodes s" "fs_free_blocks s' = fs_free_blocks s" "keeps s s'" "sfs_ok s'" and sb: "super_blocks s' = super_blocks s"
    and r: "\<forall>a. a div 4096 \<notin> fs_free_blocks s \<longrightarrow> rd s' a = rd s a"
    using u keepsD(2) [of s s'] by (auto simp: unchanged_def)
  have ind: "indirect ?x \<noteq> 0 \<longrightarrow> (\<forall>a. a div 4096 = unat (indirect ?x) \<longrightarrow> rd s' a = rd s a)" using r fmapD(6) [OF fm] by auto
  have "fv s' p k = fv s p k" if "k < 4096 * nb s p" for k
  proof -
    have kd: "k div 4096 < unat (din_blocks ?x)" using that by (simp add: nb_def div_less_iff_less_mult mult.commute)
    have "bmw (rd s') ?x (k div 4096) = bmw (rd s) ?x (k div 4096)" by (rule bmw_cong [OF ind]) (use kd fmapD(1) [OF fm] in simp)
    then show ?thesis using r fmapD(3) [OF fm kd] by (simp add: fv_def n)
  qed
  moreover have "finv s' p R" using fmap_cong [OF fm ind] n sb by (simp add: finv_def)
  moreover have "stable p R s s'"
    unfolding stable_def using n r fmapD(2) [OF fm] by (intro conjI exI [of _ ?x] exI [of _ "sin_dirty (nodes s p)"]) auto
  ultimately show ?thesis by (auto simp: moved_def nb_def n)
qed

text \<open>
  Loading a block and then transferring part of it. The operation \<open>f\<close> is any that transfers at
  offset \<open>off\<close> of the block it is given.
\<close>

lemma load_transfer:
  fixes s :: "'z sfs_fs_scheme"
  assumes inv: "finv s p R" and i: "unat idx < 1036" "if write then unat idx \<le> nb s p else unat idx < nb s p" and l: "off + len \<le> 4096" "0 < len"
    and f: "\<And>b s1. sfs_ok s1 \<Longrightarrow> b \<noteq> 0 \<Longrightarrow> b < super_blocks s1 \<Longrightarrow> \<exists>m' s2. f b s1 = Some (0, m', s2) \<and> xfer write b off len base m s1 m' s2"
  shows "(\<exists>s'. do { (ret, b, s1) \<leftarrow> sfs_bmap_load_nolock p idx s; if ret \<noteq> 0 then Some (ret, m, s1) else f b s1 } =
        Some (- errno_of E_NO_MEM, m, s') \<and> write \<and> card (fs_free_blocks s') \<le> 1 \<and>
        moved write p R (unat idx * 4096 + off) 0 base m s m s') \<or>
    (\<exists>m' s'. do { (ret, b, s1) \<leftarrow> sfs_bmap_load_nolock p idx s; if ret \<noteq> 0 then Some (ret, m, s1) else f b s1 } = Some (0, m', s') \<and>
      moved write p R (unat idx * 4096 + off) len base m s m' s')"
proof -
  let ?x = "din (nodes s p)"
  have ok: "sfs_ok s" and fm: "fmap_ok (rd s) (fs_free_blocks s) (super_blocks s) R ?x" using inv by (simp_all add: finv_def)
  show ?thesis
  proof (cases "unat idx < nb s p")
    case True
    let ?b = "bmw (rd s) ?x (unat idx)"
    obtain s1 where s1: "sfs_bmap_load_nolock p idx s = Some (0, ?b, s1)" "io_only s s1" "rd s1 = rd s"
      using bmap_load_old [OF ok fm] True by (auto simp: nb_def)
    have "?b \<noteq> 0" "?b < super_blocks s1" using fmapD(3) [OF fm, of "unat idx"] True s1(2) keepsD(2) [of s s1] by (auto simp: nb_def io_only_def)
    then obtain m' s2 where "f ?b s1 = Some (0, m', s2)" "xfer write ?b off len base m s1 m' s2"
      using f io_only_ok [OF s1(2)] ok by blast
    with moved_old [OF inv True refl l s1(2,3)] s1(1) show ?thesis by auto
  next
    case False
    then have w: "write" and idx: "idx = din_blocks ?x" using i(2) by (auto simp: nb_def word_unat_eq_iff split: if_splits)
    show ?thesis
      using bmap_load_new [OF ok fm idx i(1)]
    proof (elim disjE exE conjE)
      fix s' assume "sfs_bmap_load_nolock p idx s = Some (- errno_of E_NO_MEM, 0, s')" "refused s s'"
      with unchanged_moved [OF inv] w show ?thesis by (auto simp: refused_def)
    next
      fix b s1 assume b: "sfs_bmap_load_nolock p idx s = Some (0, b, s1)" "appended p b s s1"
      have "sfs_ok s1" "b \<noteq> 0" "b < super_blocks s1" using b(2) keepsD(2) [of s s1] by (auto simp: appended_def)
      then obtain m' s2 where x: "f b s1 = Some (0, m', s2)" "xfer write b off len base m s1 m' s2" using f by blast
      have "nb s p < 1036" "unat idx = nb s p" using i(1) idx by (simp_all add: nb_def)
      with moved_new [OF inv _ b(2) l] x w b(1) show ?thesis by auto
    qed
  qed
qed

section \<open>The transfer operations\<close>

lemma buf_op_xfer:
  fixes s :: "'z sfs_fs_scheme"
  assumes "sfs_ok s" and "b \<noteq> 0" and "b < super_blocks s" and "unat off + unat len \<le> 4096" and "off < 4096"
  shows "\<exists>m' s2. sfs_buf_op write base len b off m s = Some (0, m', s2) \<and> xfer write b (unat off) (unat len) base m s m' s2"
  using sfs_wbuf_spec [OF assms(1-3,5,4), of base m] sfs_rbuf_spec [OF assms(1-3,5,4), of base m]
  by (cases "write") (auto simp: sfs_buf_op_def xfer_def)

lemma block_op_xfer:
  fixes s :: "'z sfs_fs_scheme"
  assumes "sfs_ok s" and "b \<noteq> 0" and "b < super_blocks s"
  shows "\<exists>m' s2. sfs_block_op write base b 1 m s = Some (0, m', s2) \<and> xfer write b 0 4096 base m s m' s2"
  using sfs_block_spec [OF assms, of base "write" m]
  by (cases "write") (auto simp: sfs_block_op_def sfs_wblock_def sfs_rblock_def xfer_def)

lemma moved_refl: "finv s p R \<Longrightarrow> moved write p R pos 0 base m s m s"
  by (auto simp: moved_def intro!: ext)

text \<open>
  The outcome of a transfer of \<open>len\<close> bytes: all of them moved, or a write that ran out of free
  blocks after \<open>n\<close> bytes, with at most one block left.
\<close>

definition outcome :: "bool \<Rightarrow> int \<Rightarrow> nat \<Rightarrow> nat \<Rightarrow> 'z sfs_fs_scheme \<Rightarrow> bool" where
  "outcome write ret n len s \<longleftrightarrow> ret = 0 \<and> n = len \<or> write \<and> ret = - errno_of E_NO_MEM \<and> n < len \<and> card (fs_free_blocks s) \<le> 1"

definition room :: "bool \<Rightarrow> nat \<Rightarrow> nat \<Rightarrow> nat \<Rightarrow> bool" where
  "room write lo hi blocks \<longleftrightarrow> hi \<le> 1036 \<and> (if write then lo \<le> blocks else hi \<le> blocks)"

lemma io_part_spec:
  fixes s :: "'z sfs_fs_scheme"
  assumes inv: "finv s p R" and r: "room write (unat idx) (unat idx + 1) (nb s p)"
    and l: "unat off + unat len \<le> 4096" "0 < unat len" "off < 4096"
  shows "\<exists>ret n m' s'. io_part write p base len idx off m s = Some (ret, m', s') \<and> outcome write ret n (unat len) s' \<and>
    (n = (if ret = 0 then unat len else 0)) \<and> moved write p R (unat idx * 4096 + unat off) n base m s m' s'"
proof -
  have i: "unat idx < 1036" "if write then unat idx \<le> nb s p else unat idx < nb s p" using r by (auto simp: room_def split: if_splits)
  from load_transfer [OF inv i l(1,2), where f = "\<lambda>b. sfs_buf_op write base len b off m" and base = base and m = m] buf_op_xfer l
  have "(\<exists>s'. io_part write p base len idx off m s = Some (- errno_of E_NO_MEM, m, s') \<and> write \<and> card (fs_free_blocks s') \<le> 1 \<and> moved write p R (unat idx * 4096 + unat off) 0 base m s m s') \<or>
    (\<exists>m' s'. io_part write p base len idx off m s = Some (0, m', s') \<and> moved write p R (unat idx * 4096 + unat off) (unat len) base m s m' s')"
    unfolding io_part_def by blast
  then show ?thesis using l(2) by (elim disjE exE conjE) (force simp: outcome_def)+
qed

lemma io_loop_spec:
  fixes s :: "'z sfs_fs_scheme"
  assumes "finv s p R" and "n \<noteq> 0 \<longrightarrow> room write (unat blkno) (unat blkno + n) (nb s p)"
  shows "\<exists>ret k m' s'. io_loop write p n base blkno alen m s = Some (ret, alen + of_nat k * 4096, base + k * 4096, blkno + of_nat k, m', s') \<and>
    outcome write ret k n s' \<and> moved write p R (unat blkno * 4096) (k * 4096) base m s m' s'"
  using assms
proof (induction n arbitrary: base blkno alen m s)
  case 0
  then show ?case using moved_refl by (force simp: outcome_def)
next
  case (Suc n)
  then have r: "room write (unat blkno) (unat blkno + Suc n) (nb s p)" by simp
  then have i: "unat blkno < 1036" "if write then unat blkno \<le> nb s p else unat blkno < nb s p" by (auto simp: room_def split: if_splits)
  have l: "0 + 4096 \<le> (4096 :: nat)" "0 < (4096 :: nat)" by simp_all
  note lt = load_transfer [OF Suc.prems(1) i l block_op_xfer [of _ _ "write" base m], unfolded add_0_right]
  consider (nomem) s' where "sfs_bmap_load_nolock p blkno s \<bind> (\<lambda>(ret, b, s1). if ret \<noteq> 0 then Some (ret, m, s1) else sfs_block_op write base b 1 m s1) =
        Some (- errno_of E_NO_MEM, m, s')" "write" "card (fs_free_blocks s') \<le> 1" "moved write p R (unat blkno * 4096) 0 base m s m s'"
    | (ok) m' s' where "sfs_bmap_load_nolock p blkno s \<bind> (\<lambda>(ret, b, s1). if ret \<noteq> 0 then Some (ret, m, s1) else sfs_block_op write base b 1 m s1) =
        Some (0, m', s')" "moved write p R (unat blkno * 4096) 4096 base m s m' s'"
    using lt by blast
  then show ?case
  proof cases
    case nomem
    then have "io_loop write p (Suc n) base blkno alen m s = Some (- errno_of E_NO_MEM, alen, base, blkno, m, s')"
      by (auto split: bind_splits if_splits)
    with nomem show ?thesis by (intro exI [of _ "- errno_of E_NO_MEM"] exI [of _ 0]) (simp add: outcome_def)
  next
    case ok
    then have e: "io_loop write p (Suc n) base blkno alen m s = io_loop write p n (base + 4096) (blkno + 1) (alen + 4096) m' s'"
      by (auto split: bind_splits if_splits)
    have b1: "unat (blkno + 1) = unat blkno + 1" using i(1) by (subst unat_add_u32) simp_all
    have f': "finv s' p R" using ok(2) by (simp add: moved_def)
    have d: "(unat blkno * 4096 + 4096 + 4095) div 4096 = unat blkno + 1" by (rule div_nat_eqI) simp_all
    have r': "n \<noteq> 0 \<longrightarrow> room write (unat (blkno + 1)) (unat (blkno + 1) + n) (nb s' p)"
      using r ok(2) d unfolding b1 by (auto simp: room_def moved_def)
    from Suc.IH [OF f' r'] obtain ret k m2 s2 where k:
      "io_loop write p n (base + 4096) (blkno + 1) (alen + 4096) m' s' =
         Some (ret, alen + 4096 + of_nat k * 4096, base + 4096 + k * 4096, blkno + 1 + of_nat k, m2, s2)"
      "outcome write ret k n s2" "moved write p R (unat (blkno + 1) * 4096) (k * 4096) (base + 4096) m' s' m2 s2" by blast
    have k': "k \<le> n" using k(2) by (auto simp: outcome_def)
    have e1: "unat (blkno + 1) * 4096 = unat blkno * 4096 + 4096" unfolding b1 by simp
    have "write \<or> unat blkno * 4096 + 4096 + k * 4096 \<le> 4096 * nb s p" using r k' by (auto simp: room_def split: if_splits)
    then have "moved write p R (unat blkno * 4096) (4096 + k * 4096) base m s m2 s2"
      by (rule moved_trans [OF ok(2) k(3) [unfolded e1]])
    moreover have "4096 + k * 4096 = Suc k * 4096" by simp
    moreover have "outcome write ret (Suc k) (Suc n) s2" using k(2) by (auto simp: outcome_def)
    moreover have "alen + 4096 + of_nat k * 4096 = alen + of_nat (Suc k) * 4096" "base + 4096 + k * 4096 = base + Suc k * 4096"
      "blkno + 1 + of_nat k = blkno + of_nat (Suc k)" by (simp_all only: of_nat_Suc distrib_right mult_1 mult_Suc add.assoc)
    ultimately show ?thesis using e k(1) by (intro exI [of _ ret] exI [of _ "Suc k"] exI [of _ m2] exI [of _ s2]) (simp only: simp_thms)
  qed
qed

lemma block_ceil: "z < 4096 \<Longrightarrow> (q * 4096 + z + 4095) div 4096 = (if z = 0 then q else q + 1)" for q z :: nat
  by (rule div_nat_eqI) (simp_all split: if_splits)

lemma moved_nb:
  "moved write p R pos len base m s m' s' \<Longrightarrow> nb s' p = (if write \<and> len \<noteq> 0 then max (nb s p) ((pos + len + 4095) div 4096) else nb s p)"
  by (simp add: moved_def split: if_splits)

text \<open>The whole blocks and the last partial block; \<open>pos\<close> is on a block boundary.\<close>

lemma outcome_add:
  assumes "outcome write ret n2 l2 s"
  shows "outcome write ret (n1 + n2) (n1 + l2) s"
  using assms by (auto simp: outcome_def)

lemma io_rest_spec:
  fixes s :: "'z sfs_fs_scheme"
  assumes inv: "finv s p R" and e: "unat endpos < 2 ^ 31" "unat blkno + unat nblks = unat endpos div 4096"
    and r: "unat blkno * 4096 < unat endpos \<longrightarrow> room write (unat blkno) ((unat endpos + 4095) div 4096) (nb s p)"
  shows "\<exists>ret n m' s'. io_rest write p base endpos blkno nblks alen m s = Some (ret, alen + of_nat n, m', s') \<and>
    outcome write ret n (unat endpos - unat blkno * 4096) s' \<and> moved write p R (unat blkno * 4096) n base m s m' s'"
proof -
  let ?q = "unat endpos div 4096" and ?z = "unat endpos mod 4096"
  have eq: "unat endpos = ?q * 4096 + ?z" by simp
  have q: "?q \<le> (unat endpos + 4095) div 4096" by (rule div_le_mono) simp
  have nl: "unat nblks \<noteq> 0 \<longrightarrow> room write (unat blkno) (unat blkno + unat nblks) (nb s p)"
  proof
    assume "unat nblks \<noteq> 0"
    then have "unat blkno + 1 \<le> ?q" using e(2) by linarith
    then have "unat blkno * 4096 < unat endpos" by (subst eq) linarith
    then show "room write (unat blkno) (unat blkno + unat nblks) (nb s p)" using r q unfolding e(2) by (auto simp: room_def)
  qed
  have cm: "c_mod endpos 4096 = endpos mod 4096" using c_div_mod_nonneg [OF e(1), of 4096] by simp
  have um: "unat (endpos mod 4096) = ?z" by (simp add: unat_mod)
  obtain ret k m1 s1 where k: "io_loop write p (unat nblks) base blkno alen m s = Some (ret, alen + of_nat k * 4096, base + k * 4096, blkno + of_nat k, m1, s1)"
    "outcome write ret k (unat nblks) s1" "moved write p R (unat blkno * 4096) (k * 4096) base m s m1 s1"
    using io_loop_spec [OF inv nl] by blast
  have f1: "finv s1 p R" using k(3) by (simp add: moved_def)
  show ?thesis
  proof (cases "ret = 0 \<and> ?z \<noteq> 0")
    case False
    have "io_rest write p base endpos blkno nblks alen m s = Some (ret, alen + of_nat (k * 4096), m1, s1)"
      using k(1) False um cm by (auto simp: io_rest_def Let_def unat_eq_0)
    moreover have "outcome write ret (k * 4096) (unat endpos - unat blkno * 4096) s1"
      using k(2) False e(2) by (subst eq) (auto simp: outcome_def)
    ultimately show ?thesis using k(3) by blast
  next
    case True
    then have kn: "k = unat nblks" using k(2) by (auto simp: outcome_def)
    have bk: "unat (blkno + of_nat k) = ?q" unfolding kn using e by (simp add: unat_add_u32)
    have lt: "unat blkno * 4096 < unat endpos" using True e(2) by (subst eq) linarith
    have up: "(unat endpos + 4095) div 4096 = ?q + 1" using block_ceil [of ?z ?q] True eq by simp
    have r1: "room write (unat (blkno + of_nat k)) (unat (blkno + of_nat k) + 1) (nb s1 p)"
    proof -
      have "unat blkno * 4096 + k * 4096 = ?q * 4096" unfolding kn using e(2) by (simp only: distrib_right [symmetric])
      then have "nb s1 p = (if write \<and> k \<noteq> 0 then max (nb s p) ?q else nb s p)" using moved_nb [OF k(3)] block_ceil [of 0 ?q] by simp
      moreover have "k = 0 \<Longrightarrow> unat blkno = ?q" using e(2) kn by simp
      ultimately show ?thesis using r lt unfolding up bk by (auto simp: room_def)
    qed
    have z: "unat (endpos mod 4096) > 0" "unat (0 :: u32) + unat (endpos mod 4096) \<le> 4096" "(0 :: u32) < 4096"
      using True um by (simp_all add: less_imp_le)
    obtain ret' n m2 s2 where n: "io_part write p (base + k * 4096) (endpos mod 4096) (blkno + of_nat k) 0 m1 s1 = Some (ret', m2, s2)"
      "outcome write ret' n ?z s2" "n = (if ret' = 0 then ?z else 0)" "moved write p R (?q * 4096) n (base + k * 4096) m1 s1 m2 s2"
      using io_part_spec [OF f1 r1 z(2,1,3), of "base + k * 4096" m1] unfolding um bk unat_0 add_0_right by blast
    have mz: "endpos mod 4096 \<noteq> 0" using z(1) by (metis unat_0 less_irrefl)
    have zz: "of_nat ?z = endpos mod 4096" unfolding um [symmetric] by simp
    have "io_rest write p base endpos blkno nblks alen m s = Some (ret', alen + of_nat (k * 4096 + n), m2, s2)"
      using k(1) True n(1,3) cm mz zz by (simp add: io_rest_def Let_def add.assoc)
    moreover have "outcome write ret' (k * 4096 + n) (unat endpos - unat blkno * 4096) s2"
    proof -
      have "unat endpos = (unat blkno + k) * 4096 + ?z" using eq e(2) kn by simp
      then have "unat endpos - unat blkno * 4096 = k * 4096 + ?z" by (simp add: distrib_right)
      with outcome_add [OF n(2)] show ?thesis by simp
    qed
    moreover have "moved write p R (unat blkno * 4096) (k * 4096 + n) base m s m2 s2"
    proof (rule moved_trans [OF k(3)])
      have "?q * 4096 = unat blkno * 4096 + k * 4096" using e(2) kn by simp
      with n(4) show "moved write p R (unat blkno * 4096 + k * 4096) n (base + k * 4096) m1 s1 m2 s2" by simp
      have "n < 4096" using n(3) by simp
      moreover have "unat blkno * 4096 + k * 4096 = ?q * 4096" using e(2) kn by simp
      moreover have "write \<or> ?q + 1 \<le> nb s p" using r lt up by (auto simp: room_def split: if_splits)
      ultimately show "write \<or> unat blkno * 4096 + k * 4096 + n \<le> 4096 * nb s p" by auto
    qed
    ultimately show ?thesis by blast
  qed
qed

lemma block_rest:
  assumes "o' < (4096 :: nat)"
  shows "z < 4096 \<Longrightarrow> o' + (z - o') \<le> 4096" and "q * 4096 + o' + (4096 - o') = (q + 1) * 4096"
  using assms by simp_all

text \<open>The numbers \<^verbatim>\<open>sfs_io_nolock\<close> computes from the two positions.\<close>

lemma pos_words:
  assumes "unat offset < unat endpos" and "unat endpos < 2 ^ 31"
  shows "c_div offset 4096 = offset div 4096" "c_mod offset 4096 = offset mod 4096" "c_div endpos 4096 = endpos div 4096"
    "unat (offset div 4096) = unat offset div 4096" "unat (offset mod 4096) = unat offset mod 4096"
    "unat (endpos div 4096 - offset div 4096) = unat endpos div 4096 - unat offset div 4096"
    "unat offset div 4096 \<le> unat endpos div 4096"
    "endpos div 4096 - offset div 4096 = 0 \<longleftrightarrow> unat offset div 4096 = unat endpos div 4096"
proof -
  show "c_div offset 4096 = offset div 4096" "c_mod offset 4096 = offset mod 4096" "c_div endpos 4096 = endpos div 4096"
    using c_div_mod_nonneg [of offset 4096] c_div_mod_nonneg [of endpos 4096] assms by simp_all
  show u: "unat (offset div 4096) = unat offset div 4096" "unat (offset mod 4096) = unat offset mod 4096" by (simp_all add: unat_div unat_mod)
  show le: "unat offset div 4096 \<le> unat endpos div 4096" by (rule div_le_mono) (use assms in simp)
  then show nn: "unat (endpos div 4096 - offset div 4096) = unat endpos div 4096 - unat offset div 4096"
    using u by (subst unat_sub) (simp_all add: word_le_nat_alt unat_div)
  show "endpos div 4096 - offset div 4096 = 0 \<longleftrightarrow> unat offset div 4096 = unat endpos div 4096"
    unfolding unat_eq_0 [symmetric] nn using le by linarith
qed

definition first_size :: "u32 \<Rightarrow> u32 \<Rightarrow> u32" where
  "first_size offset endpos = (if endpos div 4096 - offset div 4096 \<noteq> 0 then 4096 - offset mod 4096 else endpos - offset)"

lemma first_size:
  assumes e: "unat offset < unat endpos" "unat endpos < 2 ^ 31" and o: "unat offset mod 4096 \<noteq> 0"
  shows "unat (first_size offset endpos) =
      (if unat offset div 4096 = unat endpos div 4096 then unat endpos - unat offset else 4096 - unat offset mod 4096)"
    and "0 < unat (first_size offset endpos)" and "unat offset mod 4096 + unat (first_size offset endpos) \<le> 4096"
    and "unat offset div 4096 + 1 \<le> (unat endpos + 4095) div 4096"
proof -
  let ?b = "unat offset div 4096" and ?o = "unat offset mod 4096" and ?q = "unat endpos div 4096" and ?z = "unat endpos mod 4096"
  note w = pos_words [OF e]
  have ob: "?o < 4096" by simp
  show sz: "unat (first_size offset endpos) = (if ?b = ?q then unat endpos - unat offset else 4096 - ?o)"
  proof (cases "?b = ?q")
    case True
    then show ?thesis using w(8) e(1) by (simp add: first_size_def unat_sub word_le_nat_alt)
  next
    case False
    have "unat (4096 - offset mod 4096) = 4096 - ?o" using w(5) ob by (subst unat_sub) (simp_all add: word_le_nat_alt less_imp_le)
    with False w(8) show ?thesis unfolding first_size_def by simp
  qed
  show "0 < unat (first_size offset endpos)" using sz e(1) ob by simp
  show "?o + unat (first_size offset endpos) \<le> 4096"
  proof (cases "?b = ?q")
    case True
    have "unat offset = ?b * 4096 + ?o" "unat endpos = ?q * 4096 + ?z" by simp_all
    then have "unat endpos - unat offset = ?z - ?o" using True by (metis diff_cancel2 add.commute)
    then show ?thesis using sz True block_rest(1) [OF ob, of ?z] by simp
  qed (use sz ob in simp)
  have "(unat offset + 4095) div 4096 = ?b + 1" using block_ceil [OF ob, of ?b] o by simp
  moreover have "(unat offset + 4095) div 4096 \<le> (unat endpos + 4095) div 4096" using e(1) by (intro div_le_mono) simp
  ultimately show "?b + 1 \<le> (unat endpos + 4095) div 4096" by simp
qed

lemma io_body_aligned:
  fixes s :: "'z sfs_fs_scheme"
  assumes inv: "finv s p R" and e: "unat offset < unat endpos" "unat endpos < 2 ^ 31" and o: "unat offset mod 4096 = 0"
    and r: "room write (unat offset div 4096) ((unat endpos + 4095) div 4096) (nb s p)"
  shows "\<exists>ret n m' s'. io_body write p base offset endpos m s = Some (ret, of_nat n, m', s') \<and>
    outcome write ret n (unat endpos - unat offset) s' \<and> moved write p R (unat offset) n base m s m' s'"
proof -
  note w = pos_words [OF e]
  have oz: "offset mod 4096 = 0" using o w(5) by (simp add: unat_eq_0)
  have bo: "unat offset div 4096 * 4096 = unat offset" using o by auto
  have body: "io_body write p base offset endpos m s = io_rest write p base endpos (offset div 4096) (endpos div 4096 - offset div 4096) 0 m s"
    by (simp add: io_body_def Let_def w(1-3) oz)
  have "\<exists>ret n m' s'. io_rest write p base endpos (offset div 4096) (endpos div 4096 - offset div 4096) 0 m s = Some (ret, 0 + of_nat n, m', s') \<and>
    outcome write ret n (unat endpos - unat (offset div 4096) * 4096) s' \<and> moved write p R (unat (offset div 4096) * 4096) n base m s m' s'"
    by (rule io_rest_spec [OF inv e(2)]) (use r w(4,6,7) e in simp_all)
  then show ?thesis unfolding body w(4) bo add_0 .
qed

text \<open>After a first partial block that is not the last one.\<close>

lemma io_body_continue:
  fixes s1 :: "'z sfs_fs_scheme"
  assumes e: "unat offset < unat endpos" "unat endpos < 2 ^ 31" and o: "unat offset mod 4096 \<noteq> 0"
    and b: "unat offset div 4096 \<noteq> unat endpos div 4096"
    and r: "room write (unat offset div 4096) ((unat endpos + 4095) div 4096) (nb s p)"
    and mv: "moved write p R (unat offset) (unat (first_size offset endpos)) base m s m1 s1"
  shows "\<exists>ret n m' s'. io_rest write p (base + unat (first_size offset endpos)) endpos (offset div 4096 + 1)
        (endpos div 4096 - offset div 4096 - 1) (first_size offset endpos) m1 s1 = Some (ret, of_nat n, m', s') \<and>
    outcome write ret n (unat endpos - unat offset) s' \<and> moved write p R (unat offset) n base m s m' s'"
proof -
  let ?b = "unat offset div 4096" and ?q = "unat endpos div 4096" and ?sz = "first_size offset endpos" and ?B = "(unat endpos + 4095) div 4096"
  note w = pos_words [OF e] and f = first_size [OF e o]
  have b1: "unat (offset div 4096 + 1) = ?b + 1" using w(4) e by (subst unat_add_u32) simp_all
  have n1: "unat (endpos div 4096 - offset div 4096 - 1) = ?q - ?b - 1" using w(6,8) b by (simp add: unat_minus_one)
  have f1: "finv s1 p R" using mv by (simp add: moved_def)
  have pos: "(?b + 1) * 4096 = unat offset + unat ?sz" 
    using f(1) b block_rest(2) [of "unat offset mod 4096" ?b] by simp
  have lt: "unat offset + unat ?sz \<le> unat endpos"
  proof -
    have "(?b + 1) * 4096 \<le> ?q * 4096" using w(7) b by (intro mult_le_mono1) linarith
    then show ?thesis using pos times_div_less_eq_dividend [of 4096 "unat endpos"] by linarith
  qed
  have r1: "room write (?b + 1) ?B (nb s1 p)"
  proof -
    have "nb s1 p = (if write then max (nb s p) (?b + 1) else nb s p)"
      using moved_nb [OF mv] f(2) pos block_ceil [of 0 "?b + 1"] by simp
    then show ?thesis using r by (auto simp: room_def)
  qed
  have "\<exists>ret n m' s'. io_rest write p (base + unat ?sz) endpos (offset div 4096 + 1) (endpos div 4096 - offset div 4096 - 1) ?sz m1 s1 =
      Some (ret, ?sz + of_nat n, m', s') \<and> outcome write ret n (unat endpos - unat (offset div 4096 + 1) * 4096) s' \<and>
      moved write p R (unat (offset div 4096 + 1) * 4096) n (base + unat ?sz) m1 s1 m' s'"
    by (rule io_rest_spec [OF f1 e(2)]) (use r1 b1 n1 w(7) b f e in simp_all)
  then obtain ret n m2 s2 where n: "io_rest write p (base + unat ?sz) endpos (offset div 4096 + 1) (endpos div 4096 - offset div 4096 - 1) ?sz m1 s1 =
      Some (ret, ?sz + of_nat n, m2, s2)" "outcome write ret n (unat endpos - (unat offset + unat ?sz)) s2"
      "moved write p R (unat offset + unat ?sz) n (base + unat ?sz) m1 s1 m2 s2"
    unfolding b1 pos by blast
  have "n \<le> unat endpos - (unat offset + unat ?sz)" using n(2) by (auto simp: outcome_def)
  moreover have "unat endpos \<le> 4096 * ?B" using dividend_less_times_div [of 4096 "unat endpos + 4095"] by simp
  ultimately have "write \<or> unat offset + unat ?sz + n \<le> 4096 * nb s p" using r lt by (auto simp: room_def split: if_splits)
  then have "moved write p R (unat offset) (unat ?sz + n) base m s m2 s2" by (rule moved_trans [OF mv n(3)])
  moreover have "outcome write ret (unat ?sz + n) (unat endpos - unat offset) s2" using outcome_add [OF n(2), of "unat ?sz"] lt by simp
  moreover have "?sz + of_nat n = of_nat (unat ?sz + n)" by simp
  ultimately show ?thesis using n(1) by metis
qed

lemma io_body_spec:
  fixes s :: "'z sfs_fs_scheme"
  assumes inv: "finv s p R" and e: "unat offset < unat endpos" "unat endpos < 2 ^ 31"
    and r: "room write (unat offset div 4096) ((unat endpos + 4095) div 4096) (nb s p)"
  shows "\<exists>ret n m' s'. io_body write p base offset endpos m s = Some (ret, of_nat n, m', s') \<and>
    outcome write ret n (unat endpos - unat offset) s' \<and> moved write p R (unat offset) n base m s m' s'"
proof (cases "unat offset mod 4096 = 0")
  case True
  then show ?thesis by (rule io_body_aligned [OF inv e _ r])
next
  case False
  let ?b = "unat offset div 4096" and ?q = "unat endpos div 4096" and ?sz = "first_size offset endpos"
  note w = pos_words [OF e] and f = first_size [OF e False]
  have r0: "room write (unat (offset div 4096)) (unat (offset div 4096) + 1) (nb s p)"
    using r f(4) unfolding w(4) by (auto simp: room_def split: if_splits)
  have ol: "unat (offset mod 4096) + unat ?sz \<le> 4096" "offset mod 4096 < 4096" using f(3) w(5) by (simp_all add: word_less_nat_alt)
  have off: "?b * 4096 + unat offset mod 4096 = unat offset" by simp
  obtain ret n m1 s1 where n: "io_part write p base ?sz (offset div 4096) (offset mod 4096) m s = Some (ret, m1, s1)"
    "outcome write ret n (unat ?sz) s1" "n = (if ret = 0 then unat ?sz else 0)" "moved write p R (unat offset) n base m s m1 s1"
    using io_part_spec [OF inv r0 ol(1) f(2) ol(2), of base m] unfolding w(4,5) off by blast
  have oz: "offset mod 4096 \<noteq> 0" using False w(5) by (metis unat_0)
  show ?thesis
  proof (cases "ret = 0 \<and> ?b \<noteq> ?q")
    case True
    then have "io_body write p base offset endpos m s =
        io_rest write p (base + unat ?sz) endpos (offset div 4096 + 1) (endpos div 4096 - offset div 4096 - 1) ?sz m1 s1"
      unfolding io_body_def Let_def w(1-3) first_size_def [symmetric] using n(1) w(8) oz by simp
    then show ?thesis using io_body_continue [OF e False _ r] n(3,4) True by simp
  next
    case False
    have "io_body write p base offset endpos m s = Some (ret, of_nat n, m1, s1)"
      unfolding io_body_def Let_def w(1-3) first_size_def [symmetric] using n(1,3) False w(8) oz by auto
    moreover have "outcome write ret n (unat endpos - unat offset) s1"
      using n(2,3) False f(1) e(1) by (auto simp: outcome_def)
    ultimately show ?thesis using n(4) by blast
  qed
qed

end
