(* ===== verification/SfsRw.thy ===== *)
theory SfsRw
  imports SfsFile
begin

text \<open>
  Reading and writing as operations on a list of bytes: \<open>file_bytes s p\<close> is the content of the file of
  inode \<open>p\<close>. A write replaces a slice of it (and extends it), a read returns a slice, and neither
  touches another inode or a block that belongs to somebody else.
\<close>

section \<open>Files as lists of bytes\<close>

definition fsize :: "'z sfs_fs_scheme \<Rightarrow> nat \<Rightarrow> nat" where
  "fsize s p = unat (din_size (din (nodes s p)))"

definition file_bytes :: "'z sfs_fs_scheme \<Rightarrow> nat \<Rightarrow> u8 list" where
  "file_bytes s p = map (fv s p) [0..<fsize s p]"

definition bytes_at :: "mem \<Rightarrow> nat \<Rightarrow> nat \<Rightarrow> u8 list" where
  "bytes_at m a n = map (\<lambda>i. m (a + i)) [0..<n]"

definition file_ok :: "'z sfs_fs_scheme \<Rightarrow> nat \<Rightarrow> nat set \<Rightarrow> bool" where
  "file_ok s p R \<longleftrightarrow> finv s p R \<and> nb s p = (fsize s p + 4095) div 4096 \<and> din_type (din (nodes s p)) \<noteq> SFS_TYPE_DIR"

definition only_file :: "nat \<Rightarrow> nat set \<Rightarrow> 'z sfs_fs_scheme \<Rightarrow> 'z sfs_fs_scheme \<Rightarrow> bool" where
  "only_file p R s s' \<longleftrightarrow> keeps s s' \<and> (\<forall>a. a div 4096 \<in> R \<longrightarrow> rd s' a = rd s a) \<and>
     (\<exists>x d. nodes s' = (nodes s)(p := (nodes s p)\<lparr>din := x, sin_dirty := d\<rparr>)) \<and>
     card (fs_free_blocks s') + held (din (nodes s' p)) = card (fs_free_blocks s) + held (din (nodes s p))"

lemma length_file_bytes [simp]: "length (file_bytes s p) = fsize s p"
  by (simp add: file_bytes_def)

lemma length_bytes_at [simp]: "length (bytes_at m a n) = n"
  by (simp add: bytes_at_def)

lemma splice_map:
  assumes "off \<le> sz" and "\<And>i. i < max sz (off + n) \<Longrightarrow> g i = (if off \<le> i \<and> i < off + n then h (i - off) else f i)"
  shows "map g [0..<max sz (off + n)] = take off (map f [0..<sz]) @ map h [0..<n] @ drop (off + n) (map f [0..<sz])"
proof (rule nth_equalityI)
  show "length (map g [0..<max sz (off + n)]) = length (take off (map f [0..<sz]) @ map h [0..<n] @ drop (off + n) (map f [0..<sz]))"
    using assms(1) by simp
  fix i assume "i < length (map g [0..<max sz (off + n)])"
  then have i: "i < max sz (off + n)" by simp
  consider "i < off" | "off \<le> i" "i < off + n" | "off + n \<le> i" by linarith
  then show "map g [0..<max sz (off + n)] ! i = (take off (map f [0..<sz]) @ map h [0..<n] @ drop (off + n) (map f [0..<sz])) ! i"
    using i assms(1) by cases (auto simp: assms(2) nth_append min_absorb2)
qed

lemma file_size_bounds:
  assumes "file_ok s p R"
  shows "fsize s p \<le> 4096 * nb s p" "nb s p \<le> 1036" "fsize s p \<le> 1036 * 4096"
proof -
  show 1: "fsize s p \<le> 4096 * nb s p"
    using assms dividend_less_times_div [of 4096 "fsize s p + 4095"] by (simp add: file_ok_def)
  show 2: "nb s p \<le> 1036" using assms fmapD(1) unfolding file_ok_def finv_def nb_def by blast
  show "fsize s p \<le> 1036 * 4096" using 1 2 by linarith
qed

text \<open>Setting the size, and marking the inode, changes no byte of the block map.\<close>

lemma fmap_size: "fmap_ok r F N R (x\<lparr>din_size := z\<rparr>) = fmap_ok r F N R x"
proof -
  have "bmw r (x\<lparr>din_size := z\<rparr>) = bmw r x" by (simp add: bmw_def fun_eq_iff)
  then show ?thesis by (simp add: fmap_ok_def)
qed

definition resize :: "nat \<Rightarrow> u32 \<Rightarrow> 'z sfs_fs_scheme \<Rightarrow> 'z sfs_fs_scheme" where
  "resize p z s = set_dirty p (upd_din p (\<lambda>x. x\<lparr>din_size := z\<rparr>) s)"

lemma resize_simps [simp]:
  "finv (resize p z s) p R = finv s p R" "nb (resize p z s) p = nb s p" "fv (resize p z s) p = fv s p"
  "fsize (resize p z s) p = unat z" "din_type (din (nodes (resize p z s) p)) = din_type (din (nodes s p))" "rd (resize p z s) = rd s"
  by (auto simp: resize_def set_dirty_def upd_din_def finv_def fmap_size nb_def fv_def bmw_def fsize_def fun_eq_iff)

lemma stable_only_file:
  assumes "stable p R s s'"
  shows "only_file p R s s'" "only_file p R s (resize p z s')" "fsize s' p = fsize s p" "din_type (din (nodes s' p)) = din_type (din (nodes s p))"
proof -
  obtain x d where x: "nodes s' = (nodes s)(p := (nodes s p)\<lparr>din := x, sin_dirty := d\<rparr>)"
    "x = (din (nodes s p))\<lparr>direct := direct x, indirect := indirect x, din_blocks := din_blocks x\<rparr>"
    "card (fs_free_blocks s') + held x = card (fs_free_blocks s) + held (din (nodes s p))"
    using assms unfolding stable_def by blast
  have k: "keeps s s'" "\<forall>a. a div 4096 \<in> R \<longrightarrow> rd s' a = rd s a" using assms by (simp_all add: stable_def)
  show "only_file p R s s'" unfolding only_file_def using x(1,3) k by auto
  have "nodes (resize p z s') = (nodes s)(p := (nodes s p)\<lparr>din := x\<lparr>din_size := z\<rparr>, sin_dirty := True\<rparr>)"
    using x(1) by (simp add: resize_def set_dirty_def upd_din_def)
  moreover have "keeps s (resize p z s')" using k(1) by (simp add: resize_def set_dirty_def upd_din_def keeps_upd_node)
  moreover have "fs_free_blocks (resize p z s') = fs_free_blocks s'" by (simp add: resize_def set_dirty_def upd_din_def)
  moreover have "held (x\<lparr>din_size := z\<rparr>) = held x" by (simp add: held_def)
  ultimately show "only_file p R s (resize p z s')" unfolding only_file_def using k(2) x(3) by auto
  have "din (nodes s' p) = (din (nodes s p))\<lparr>direct := direct x, indirect := indirect x, din_blocks := din_blocks x\<rparr>"
    using x by simp
  then show "fsize s' p = fsize s p" "din_type (din (nodes s' p)) = din_type (din (nodes s p))" by (simp_all add: fsize_def)
qed

section \<open>sfs\_io\_nolock\<close>

lemma write_moved:
  assumes f: "file_ok s p R" and off: "off \<le> fsize s p" "off + n < 2 ^ 32" and mv: "moved True p R off n base m s m' s1"
    and s': "s' = (if off + n > fsize s p then resize p (of_nat (off + n)) s1 else s1)"
  shows "file_ok s' p R" "only_file p R s s'" "file_bytes s' p = take off (file_bytes s p) @ bytes_at m base n @ drop (off + n) (file_bytes s p)"
proof -
  have m: "finv s1 p R" "stable p R s s1" "nb s1 p = max (nb s p) (if n = 0 then 0 else (off + n + 4095) div 4096)"
    and v: "\<And>k. k < 4096 * nb s1 p \<Longrightarrow> fv s1 p k =
      (if off \<le> k \<and> k < off + n then m (base + (k - off)) else if k < 4096 * nb s p then fv s p k else 0)"
    using mv by (auto simp: moved_def)
  note st = stable_only_file [OF m(2)] and b = file_size_bounds [OF f]
  have nbs: "nb s p = (fsize s p + 4095) div 4096" and ty: "din_type (din (nodes s p)) \<noteq> SFS_TYPE_DIR" using f by (simp_all add: file_ok_def)
  have sz: "fsize s' p = max (fsize s p) (off + n)"
    using off(2) st(3) unfolding s' by (simp add: unat_of_nat take_bit_nat_eq_self del: of_nat_add)
  have nb1: "nb s1 p = (max (fsize s p) (off + n) + 4095) div 4096"
  proof (cases "off + n > fsize s p")
    case True
    then have "(fsize s p + 4095) div 4096 \<le> (off + n + 4095) div 4096" by (intro div_le_mono) simp
    then show ?thesis using True off(1) m(3) nbs by simp
  next
    case False
    then have "(off + n + 4095) div 4096 \<le> (fsize s p + 4095) div 4096" by (intro div_le_mono) simp
    then show ?thesis using False m(3) nbs by simp
  qed
  have fv': "fv s' p = fv s1 p" "nb s' p = nb s1 p" "finv s' p R" "din_type (din (nodes s' p)) = din_type (din (nodes s p))"
    using m(1) st(4) by (simp_all add: s')
  show "file_ok s' p R" using fv' sz nb1 ty by (simp add: file_ok_def)
  show "only_file p R s s'" using st(1,2) by (simp add: s')
  have "map (fv s' p) [0..<max (fsize s p) (off + n)] =
    take off (map (fv s p) [0..<fsize s p]) @ map (\<lambda>i. m (base + i)) [0..<n] @ drop (off + n) (map (fv s p) [0..<fsize s p])"
  proof (rule splice_map [OF off(1)])
    fix i assume i: "i < max (fsize s p) (off + n)"
    have "max (fsize s p) (off + n) \<le> 4096 * nb s1 p"
      unfolding nb1 using dividend_less_times_div [of 4096 "max (fsize s p) (off + n) + 4095"] by simp
    then show "fv s' p i = (if off \<le> i \<and> i < off + n then m (base + (i - off)) else fv s p i)"
      using v [of i] i off(1) b(1) unfolding fv'(1) by auto
  qed
  then show "file_bytes s' p = take off (file_bytes s p) @ bytes_at m base n @ drop (off + n) (file_bytes s p)"
    unfolding file_bytes_def sz bytes_at_def .
qed

lemma read_moved:
  assumes f: "file_ok s p R" and mv: "moved False p R off n base m s m' s'" and off: "off + n \<le> fsize s p"
  shows "file_ok s' p R" "only_file p R s s'" "file_bytes s' p = file_bytes s p"
    "m' = (\<lambda>a. if base \<le> a \<and> a < base + n then file_bytes s p ! (off + (a - base)) else m a)"
proof -
  have m: "finv s' p R" "stable p R s s'" "nb s' p = nb s p" "\<And>k. k < 4096 * nb s p \<Longrightarrow> fv s' p k = fv s p k"
    and m': "m' = (\<lambda>a. if base \<le> a \<and> a < base + n then fv s p (off + (a - base)) else m a)"
    using mv by (auto simp: moved_def)
  note st = stable_only_file [OF m(2)] and b = file_size_bounds [OF f]
  show "file_ok s' p R" using f m st by (simp add: file_ok_def)
  show "only_file p R s s'" by (rule st(1))
  show "file_bytes s' p = file_bytes s p" using m(4) b(1) by (simp add: file_bytes_def st(3))
  show "m' = (\<lambda>a. if base \<le> a \<and> a < base + n then file_bytes s p ! (off + (a - base)) else m a)"
    unfolding m' using off by (intro ext) (auto simp: file_bytes_def)
qed

text \<open>The bytes a request for \<open>len\<close> bytes at \<open>off\<close> is about.\<close>

definition span :: "bool \<Rightarrow> nat \<Rightarrow> nat \<Rightarrow> nat \<Rightarrow> nat" where
  "span write sz off len = (if write then len else min len (sz - off))"

lemma io_nolock_body:
  assumes f: "file_ok s p R" and off: "unat offset < 2 ^ 27" "unat offset + unat len < 2 ^ 31"
    and w: "write \<longrightarrow> unat offset + unat len \<le> 2 ^ 27"
  shows "span write (fsize s p) (unat offset) (unat len) = 0 \<Longrightarrow> sfs_io_nolock write p base offset len m s = Some (0, 0, m, s)"
    and "0 < span write (fsize s p) (unat offset) (unat len) \<Longrightarrow> \<exists>endpos.
      unat endpos = unat offset + span write (fsize s p) (unat offset) (unat len) \<and>
      sfs_io_nolock write p base offset len m s = do {
        (ret, alen, m', s') \<leftarrow> io_body write p base offset endpos m s;
        Some (ret, alen, m', if offset + alen > din_size (din (nodes s' p)) then resize p (offset + alen) s' else s') }"
proof -
  let ?sz = "fsize s p" and ?o = "unat offset" and ?l = "unat len"
  have e: "unat (offset + len) = ?o + ?l" using off by (subst unat_add_u32) simp_all
  have szb: "?sz \<le> 2 ^ 27" using file_size_bounds(3) [OF f] by simp
  have ty: "din_type (din (nodes s p)) \<noteq> SFS_TYPE_DIR" using f by (simp add: file_ok_def)
  have pos: "\<not> sint offset < 0" "\<not> offset \<ge> SFS_MAX_FILE_SIZE" "\<not> sint offset > sint (offset + len)"
    using off e sint_small [of offset] sint_small [of "offset + len"] by (simp_all add: word_le_nat_alt uint_nat del: of_nat_unat)
  have eq: "offset = offset + len \<longleftrightarrow> ?l = 0" using e by (simp add: unat_eq_0)
  have fs: "unat (din_size (din (nodes s p))) = ?sz" by (simp add: fsize_def)
  show "span write ?sz ?o ?l = 0 \<Longrightarrow> sfs_io_nolock write p base offset len m s = Some (0, 0, m, s)"
    using pos eq ty fs by (auto simp: sfs_io_nolock_def span_def Let_def word_le_nat_alt split: if_splits)
  assume n: "0 < span write ?sz ?o ?l"
  let ?e1 = "if offset + len > SFS_MAX_FILE_SIZE then SFS_MAX_FILE_SIZE else offset + len"
  let ?e = "if \<not> write \<and> ?e1 > din_size (din (nodes s p)) then din_size (din (nodes s p)) else ?e1"
  have ue: "unat ?e = ?o + span write ?sz ?o ?l"
    using n szb w e fs by (auto simp: span_def word_less_nat_alt)
  have nz: "\<not> (\<not> write \<and> offset \<ge> din_size (din (nodes s p)))" "\<not> offset = offset + len"
    using n eq fs by (auto simp: span_def word_le_nat_alt split: if_splits)
  have "sfs_io_nolock write p base offset len m s = do {
        (ret, alen, m', s') \<leftarrow> io_body write p base offset ?e m s;
        Some (ret, alen, m', if offset + alen > din_size (din (nodes s' p)) then resize p (offset + alen) s' else s') }"
    unfolding sfs_io_nolock_def Let_def resize_def using pos nz ty by (simp only: bind_kassert if_True if_False simp_thms)
  with ue show "\<exists>endpos. unat endpos = ?o + span write ?sz ?o ?l \<and> sfs_io_nolock write p base offset len m s = do {
        (ret, alen, m', s') \<leftarrow> io_body write p base offset endpos m s;
        Some (ret, alen, m', if offset + alen > din_size (din (nodes s' p)) then resize p (offset + alen) s' else s') }" by blast
qed

text \<open>What a request does: to the caller's buffer, and to the content of the file.\<close>

definition io_effect :: "bool \<Rightarrow> nat \<Rightarrow> nat \<Rightarrow> nat \<Rightarrow> mem \<Rightarrow> mem \<Rightarrow> u8 list \<Rightarrow> u8 list \<Rightarrow> bool" where
  "io_effect write off n base m m' fb fb' \<longleftrightarrow>
     (if write then m' = m \<and> fb' = take off fb @ bytes_at m base n @ drop (off + n) fb
      else fb' = fb \<and> m' = (\<lambda>a. if base \<le> a \<and> a < base + n then fb ! (off + (a - base)) else m a))"

lemma io_effect_0: "io_effect write off 0 base m m fb fb"
  by (auto simp: io_effect_def bytes_at_def intro!: ext)

lemma io_nolock_spec:
  fixes s :: "'z sfs_fs_scheme"
  assumes f: "file_ok s p R" and off: "unat offset < 2 ^ 27" "unat offset + unat len < 2 ^ 31"
    and w: "write \<longrightarrow> unat offset \<le> fsize s p \<and> unat offset + unat len \<le> 1036 * 4096"
  shows "\<exists>ret n m' s'. sfs_io_nolock write p base offset len m s = Some (ret, of_nat n, m', s') \<and>
    outcome write ret n (span write (fsize s p) (unat offset) (unat len)) s' \<and> file_ok s' p R \<and> only_file p R s s' \<and>
    io_effect write (unat offset) n base m m' (file_bytes s p) (file_bytes s' p)"
proof -
  let ?N = "span write (fsize s p) (unat offset) (unat len)" and ?o = "unat offset"
  have w': "write \<longrightarrow> ?o + unat len \<le> 2 ^ 27" using w by auto
  note body = io_nolock_body [OF f off w']
  note b = file_size_bounds [OF f]
  show ?thesis
  proof (cases "?N = 0")
    case True
    have "only_file p R s s" using stable_only_file(1) [OF stable_refl] .
    with True body(1) [OF True, of base m] f io_effect_0 show ?thesis
      by (intro exI [of _ 0] exI [of _ "0 :: nat"] exI [of _ m] exI [of _ s]) (simp add: outcome_def)
  next
    case False
    then obtain endpos where e: "unat endpos = ?o + ?N" and io: "sfs_io_nolock write p base offset len m s = do {
        (ret, alen, m', s') \<leftarrow> io_body write p base offset endpos m s;
        Some (ret, alen, m', if offset + alen > din_size (din (nodes s' p)) then resize p (offset + alen) s' else s') }"
      using body(2) by blast
    have ep: "unat offset < unat endpos" "unat endpos < 2 ^ 31" using e False off by (auto simp: span_def)
    have up: "unat endpos \<le> (if write then 1036 * 4096 else fsize s p)" using e False w by (auto simp: span_def)
    have "room write (?o div 4096) ((unat endpos + 4095) div 4096) (nb s p)"
    proof (cases "write")
      case True
      have "?o div 4096 \<le> 4096 * nb s p div 4096" using b(1) w True by (intro div_le_mono) simp
      moreover have "(unat endpos + 4095) div 4096 \<le> (1036 * 4096 + 4095) div 4096" using up True by (intro div_le_mono) simp
      ultimately show ?thesis using True by (simp add: room_def)
    next
      case False
      have "(unat endpos + 4095) div 4096 \<le> (fsize s p + 4095) div 4096" using up False by (intro div_le_mono) simp
      then show ?thesis using False b(2) f by (simp add: room_def file_ok_def)
    qed
    moreover have "finv s p R" using f by (simp add: file_ok_def)
    ultimately obtain ret n m' s1 where n: "io_body write p base offset endpos m s = Some (ret, of_nat n, m', s1)"
      "outcome write ret n (unat endpos - ?o) s1" "moved write p R ?o n base m s m' s1"
      using io_body_spec [OF _ ep] by blast
    have nN: "n \<le> ?N" "outcome write ret n ?N s1" using n(2) e by (auto simp: outcome_def)
    then have lim: "?o + n < 2 ^ 31" using e ep by linarith
    then have u: "unat (offset + of_nat n) = ?o + n" by (simp add: unat_add_u32 unat_of_nat take_bit_nat_eq_self)
    have wn: "offset + of_nat n = of_nat (?o + n)" by simp
    have st: "stable p R s s1" using n(3) by (simp add: moved_def split: if_splits)
    have gt: "offset + of_nat n > din_size (din (nodes s1 p)) \<longleftrightarrow> ?o + n > fsize s p"
      using stable_only_file(3) [OF st] u by (simp add: word_less_nat_alt fsize_def)
    have fr: "fs_free_blocks (resize p z s1) = fs_free_blocks s1" for z by (simp add: resize_def set_dirty_def upd_din_def)
    define s' where "s' = (if ?o + n > fsize s p then resize p (offset + of_nat n) s1 else s1)"
    have s'_eq: "s' = (if ?o + n > fsize s p then resize p (of_nat (?o + n)) s1 else s1)" unfolding s'_def wn ..
    have res: "sfs_io_nolock write p base offset len m s = Some (ret, of_nat n, m', s')"
      unfolding io n(1) s'_def by (simp only: Option.bind.simps prod.case gt)
    have out: "outcome write ret n ?N s'" using nN(2) fr by (simp add: outcome_def s'_def)
    show ?thesis
    proof (cases "write")
      case True
      have o': "?o \<le> fsize s p" "?o + n < 2 ^ 32" using w True lim by auto
      have mv: "moved True p R ?o n base m s m' s1" using n(3) True by simp
      have "m' = m" using mv by (simp add: moved_def)
      then show ?thesis using res out write_moved [OF f o' mv s'_eq] True by (auto simp: io_effect_def)
    next
      case False
      have o': "?o + n \<le> fsize s p" using nN(1) e up False by simp
      have mv: "moved False p R ?o n base m s m' s1" using n(3) False by simp
      have "s' = s1" using o' by (simp add: s'_def)
      then show ?thesis using res out read_moved [OF f mv o'] False by (auto simp: io_effect_def)
    qed
  qed
qed

section \<open>sfs\_io\<close>

lemma file_lock [simp]:
  "file_ok (upd_node p (\<lambda>x. x\<lparr>sin_sem := v x\<rparr>) s) p R = file_ok s p R"
  "file_bytes (upd_node p (\<lambda>x. x\<lparr>sin_sem := v x\<rparr>) s) p = file_bytes s p"
  "fsize (upd_node p (\<lambda>x. x\<lparr>sin_sem := v x\<rparr>) s) p = fsize s p"
proof -
  have "fv (upd_node p (\<lambda>x. x\<lparr>sin_sem := v x\<rparr>) s) p = fv s p" by (simp add: fv_def fun_eq_iff)
  moreover show "fsize (upd_node p (\<lambda>x. x\<lparr>sin_sem := v x\<rparr>) s) p = fsize s p" by (simp add: fsize_def)
  ultimately show "file_bytes (upd_node p (\<lambda>x. x\<lparr>sin_sem := v x\<rparr>) s) p = file_bytes s p" by (simp add: file_bytes_def)
  show "file_ok (upd_node p (\<lambda>x. x\<lparr>sin_sem := v x\<rparr>) s) p R = file_ok s p R"
    by (simp add: file_ok_def finv_def nb_def fsize_def)
qed

lemma skip_after: "n \<le> io_resid iob \<Longrightarrow> (if n \<noteq> 0 then iobuf_skip n iob else Some iob) = Some (iob_after n iob)"
  by (auto simp: iobuf_skip_def iob_after_def)

lemma only_file_locked:
  assumes "sin_sem (nodes s p) = 1" and "only_file p R (upd_node p (\<lambda>x. x\<lparr>sin_sem := 0\<rparr>) s) s'"
  shows "only_file p R s (unlock_sin p s') \<and> sin_sem (nodes (unlock_sin p s') p) = 1"
proof -
  obtain x d where x: "nodes s' = (nodes s)(p := (nodes s p)\<lparr>sin_sem := 0, din := x, sin_dirty := d\<rparr>)"
    using assms(2) by (auto simp: only_file_def)
  have "(nodes s p)\<lparr>sin_sem := 0, din := x, sin_dirty := d\<rparr>\<lparr>sin_sem := 1\<rparr> = (nodes s p)\<lparr>din := x, sin_dirty := d\<rparr>"
    using assms(1) by (cases "nodes s p") simp
  then have n: "nodes (unlock_sin p s') = (nodes s)(p := (nodes s p)\<lparr>din := x, sin_dirty := d\<rparr>)"
    using x by (simp add: unlock_sin_def)
  have "keeps s (upd_node p (\<lambda>x. x\<lparr>sin_sem := 0\<rparr>) s)" by (rule keeps_upd_node) simp
  then have "keeps s (unlock_sin p s')" using keeps_trans assms(2) by (auto simp: only_file_def unlock_sin_def intro!: keeps_upd_node)
  moreover have "\<forall>a. a div 4096 \<in> R \<longrightarrow> rd (unlock_sin p s') a = rd s a" using assms(2) by (simp add: only_file_def unlock_sin_def)
  moreover have "card (fs_free_blocks (unlock_sin p s')) + held (din (nodes (unlock_sin p s') p)) = card (fs_free_blocks s) + held (din (nodes s p))"
    using assms(2) by (simp add: only_file_def unlock_sin_def)
  ultimately show ?thesis using n assms(1) unfolding only_file_def by auto
qed

lemma sfs_io_spec:
  fixes s :: "'z sfs_fs_scheme"
  assumes f: "file_ok s p R" and l: "sin_sem (nodes s p) = 1"
    and off: "unat (io_offset iob) < 2 ^ 27" "unat (io_offset iob) + unat (io_resid iob) < 2 ^ 31"
    and w: "write \<longrightarrow> unat (io_offset iob) \<le> fsize s p \<and> unat (io_offset iob) + unat (io_resid iob) \<le> 1036 * 4096"
  shows "\<exists>ret n m' s'. sfs_io write p iob m s = Some (ret, iob_after (of_nat n) iob, m', s') \<and>
    outcome write ret n (span write (fsize s p) (unat (io_offset iob)) (unat (io_resid iob))) s' \<and> file_ok s' p R \<and>
    only_file p R s s' \<and> sin_sem (nodes s' p) = 1 \<and>
    io_effect write (unat (io_offset iob)) n (io_base iob) m m' (file_bytes s p) (file_bytes s' p)"
proof -
  let ?s1 = "upd_node p (\<lambda>x. x\<lparr>sin_sem := 0\<rparr>) s" and ?N = "span write (fsize s p) (unat (io_offset iob)) (unat (io_resid iob))"
  have lock: "lock_sin p s = Some ?s1" using l by (simp add: lock_sin_def sem_take_def)
  obtain ret n m' s2 where n: "sfs_io_nolock write p (io_base iob) (io_offset iob) (io_resid iob) m ?s1 = Some (ret, of_nat n, m', s2)"
    "outcome write ret n ?N s2" "file_ok s2 p R" "only_file p R ?s1 s2"
    "io_effect write (unat (io_offset iob)) n (io_base iob) m m' (file_bytes s p) (file_bytes s2 p)"
    using io_nolock_spec [of ?s1 p R "io_offset iob" "io_resid iob" "write" "io_base iob" m] f off w by auto
  have "n \<le> unat (io_resid iob)" using n(2) by (auto simp: outcome_def span_def split: if_splits)
  then have "of_nat n \<le> io_resid iob"
    using unat_u32_bound [of "io_resid iob"] by (simp add: word_le_nat_alt unat_of_nat take_bit_nat_eq_self)
  then have "sfs_io write p iob m s = Some (ret, iob_after (of_nat n) iob, m', unlock_sin p s2)"
    using lock n(1) skip_after [of "of_nat n" iob] by (simp add: sfs_io_def)
  moreover have "outcome write ret n ?N (unlock_sin p s2)" using n(2) by (simp add: outcome_def unlock_sin_def)
  moreover have "file_ok (unlock_sin p s2) p R" "file_bytes (unlock_sin p s2) p = file_bytes s2 p" using n(3) by (simp_all add: unlock_sin_def)
  ultimately show ?thesis using n(5) only_file_locked [OF l n(4)] by auto
qed

text \<open>A write that fails had too few free blocks.\<close>

lemma write_refused:
  assumes "file_ok s' p R" and "only_file p R s s'" and "card (fs_free_blocks s') \<le> 1" and "fsize s' p \<le> z"
  shows "card (fs_free_blocks s) + held (din (nodes s p)) \<le> (z + 4095) div 4096 + 2"
proof -
  have "held (din (nodes s' p)) \<le> nb s' p + 1" by (simp add: held_def nb_def)
  moreover have "nb s' p \<le> (z + 4095) div 4096" using assms(1,4) by (auto simp: file_ok_def intro: div_le_mono)
  moreover have "card (fs_free_blocks s') + held (din (nodes s' p)) = card (fs_free_blocks s) + held (din (nodes s p))"
    using assms(2) by (simp add: only_file_def)
  ultimately show ?thesis using assms(3) by linarith
qed

section \<open>A file system of 32 blocks with an empty file\<close>

definition demo_din :: sfs_disk_inode where
  "demo_din = \<lparr>din_size = 0, din_type = 1, din_nlinks = 1, din_blocks = 0, direct = (\<lambda>_. 0), indirect = 0\<rparr>"

definition demo_node :: inode where
  "demo_node = \<lparr>din = demo_din, din_at = 0, sin_ino = 2, sin_dirty = False, reclaim_count = 1, sin_sem = 1,
     ref_count = 1, open_count = 1, in_ops = FileOps\<rparr>"

definition demo_fs :: sfs_fs where
  "demo_fs = \<lparr>ide_valid = True, rd_size = 256, rd = (\<lambda>_. 0), d_blocks = 32, disk0_buffer = (\<lambda>_. 0), disk0_sem = 1,
     super_blocks = 32, unused_blocks = 29, super_info = (\<lambda>_. 0), super_dirty = False,
     freemap = \<lparr>nbits = 32, nwords = 1, bmap = [0xFFFFFFF8]\<rparr>, sfs_buffer = (\<lambda>_. 0), sfs_fs_sem = 1, sfs_io_sem = 1,
     sfs_mutex_sem = 1, nodes = (\<lambda>_. demo_node), node_links = \<lparr>le_prev = (\<lambda>x. x), le_next = (\<lambda>x. x)\<rparr>,
     fs_kmalloc = Some, fs_kmalloc_pos = 0, fs_kfreed = [], uninit = 0\<rparr>"

lemma demo_free: "fs_free_blocks demo_fs = {3..<32}"
proof -
  have e: "(0xFFFFFFF8 :: u32) = NOT (mask 3)" by (simp add: mask_eq_exp_minus_1)
  have b: "bit (0xFFFFFFF8 :: u32) i \<longleftrightarrow> 3 \<le> i \<and> i < 32" for i unfolding e by (auto simp: bit_simps)
  have m: "bmap (freemap demo_fs) = [0xFFFFFFF8]" by (simp add: demo_fs_def)
  have "i \<in> fs_free_blocks demo_fs \<longleftrightarrow> i \<in> {3..<32}" for i
  proof (cases "i < 32")
    case True
    then have "[0xFFFFFFF8 :: u32] ! (i div 32) = 0xFFFFFFF8" "i mod 32 = i" by simp_all
    with True show ?thesis unfolding fs_free_blocks_def free_bits_def m mem_Collect_eq by (simp only: b) simp
  qed (simp add: fs_free_blocks_def free_bits_def m)
  then show ?thesis by blast
qed

lemma demo_ok: "file_ok demo_fs p {0, 1, 2}" "sin_sem (nodes demo_fs p) = 1" "fsize demo_fs p = 0" "file_bytes demo_fs p = []"
  "card (fs_free_blocks demo_fs) + held (din (nodes demo_fs p)) = 29"
proof -
  show "card (fs_free_blocks demo_fs) + held (din (nodes demo_fs p)) = 29"
    unfolding demo_free by (simp add: demo_fs_def demo_node_def demo_din_def held_def)
  have "sfs_ok demo_fs"
    unfolding sfs_ok_def demo_free by (auto simp: demo_fs_def disk_ok_def bitmap_ok_def)
  moreover have "fmap_ok (rd demo_fs) (fs_free_blocks demo_fs) (super_blocks demo_fs) {0, 1, 2} (din (nodes demo_fs p))"
    unfolding fmap_ok_def demo_free by (auto simp: demo_fs_def demo_node_def demo_din_def bmw_def)
  ultimately show "file_ok demo_fs p {0, 1, 2}"
    by (simp add: file_ok_def finv_def nb_def fsize_def demo_fs_def demo_node_def demo_din_def)
  show "sin_sem (nodes demo_fs p) = 1" "fsize demo_fs p = 0" "file_bytes demo_fs p = []"
    by (simp_all add: demo_fs_def demo_node_def demo_din_def fsize_def file_bytes_def)
qed

section \<open>Properties\<close>

lemma demo_write: "\<exists>iob1 m1 s1. sfs_write 7 (iobuf_init 100 5000 0) of_nat demo_fs = Some (0, iob1, m1, s1)"
proof -
  have z: "held (din (nodes demo_fs 7)) = 0" by (simp add: demo_fs_def demo_node_def demo_din_def held_def)
  from sfs_io_spec [OF demo_ok(1,2) [of 7], of "iobuf_init 100 5000 0" True of_nat] obtain ret n m' s' where
    r: "sfs_write 7 (iobuf_init 100 5000 0) of_nat demo_fs = Some (ret, iob_after (of_nat n) (iobuf_init 100 5000 0), m', s')"
      "file_ok s' 7 {0, 1, 2}" "only_file 7 {0, 1, 2} demo_fs s'" "file_bytes s' 7 = bytes_at of_nat 100 n"
      "ret = 0 \<and> n = 5000 \<or> n < 5000 \<and> card (fs_free_blocks s') \<le> 1"
    by (auto simp: sfs_write_def outcome_def span_def io_effect_def demo_ok(3,4) iobuf_init_def)
  have "fsize s' 7 = n" using arg_cong [OF r(4), of length] by simp
  with write_refused [OF r(2,3), of 5000] r(1,5) demo_ok(5) [of 7] show ?thesis by auto
qed

text \<open>
  C1: \<^verbatim>\<open>sfs_write\<close> of a request at an offset within the file, up to the largest size the block map can
  hold, ends and returns. It replaces exactly the bytes of the file at the offset by the bytes of
  the buffer it wrote, keeps the rest, and extends the file when needed: all of the request, or,
  with \<^verbatim>\<open>-E_NO_MEM\<close>, a prefix of it, and then the free blocks are fewer than it needs (a block and the
  indirect block in reserve). The buffer descriptor is
  advanced by the bytes written, the block map stays well formed, the inode's lock is free again,
  and no other inode and no block of another owner changes.\<close>

theorem sfs_write_splices:
  fixes s :: "'z sfs_fs_scheme"
  assumes "file_ok s p R" and "sin_sem (nodes s p) = 1" and "off = unat (io_offset iob)" and "len = unat (io_resid iob)"
    and "off \<le> fsize s p" and "off + len \<le> 1036 * 4096"
  shows "\<exists>ret n s'. sfs_write p iob m s = Some (ret, iob_after (of_nat n) iob, m, s') \<and>
    (ret = 0 \<and> n = len \<or> ret = - errno_of E_NO_MEM \<and> n < len \<and>
      card (fs_free_blocks s) + held (din (nodes s p)) \<le> (max (fsize s p) (off + len) + 4095) div 4096 + 2) \<and>
    file_bytes s' p = take off (file_bytes s p) @ bytes_at m (io_base iob) n @ drop (off + n) (file_bytes s p) \<and>
    file_ok s' p R \<and> only_file p R s s' \<and> sin_sem (nodes s' p) = 1"
proof -
  have b: "fsize s p \<le> 1036 * 4096" by (rule file_size_bounds(3) [OF assms(1)])
  have o: "unat (io_offset iob) < 2 ^ 27" "unat (io_offset iob) + unat (io_resid iob) < 2 ^ 31"
    "True \<longrightarrow> unat (io_offset iob) \<le> fsize s p \<and> unat (io_offset iob) + unat (io_resid iob) \<le> 1036 * 4096"
    using assms(3-6) b by simp_all
  from sfs_io_spec [OF assms(1,2) o, of m] obtain ret n s' where
    r: "sfs_write p iob m s = Some (ret, iob_after (of_nat n) iob, m, s')" "file_ok s' p R" "only_file p R s s'" "sin_sem (nodes s' p) = 1"
      "file_bytes s' p = take off (file_bytes s p) @ bytes_at m (io_base iob) n @ drop (off + n) (file_bytes s p)"
    and out: "ret = 0 \<and> n = len \<or> ret = - errno_of E_NO_MEM \<and> n < len \<and> card (fs_free_blocks s') \<le> 1"
    unfolding sfs_write_def outcome_def io_effect_def span_def assms(3,4) by auto
  have "fsize s' p = length (file_bytes s' p)" by simp
  also have "\<dots> \<le> max (fsize s p) (off + n)" unfolding r(5) using assms(5) by simp
  finally have z: "fsize s' p \<le> max (fsize s p) (off + n)" .
  have "card (fs_free_blocks s) + held (din (nodes s p)) \<le> (max (fsize s p) (off + len) + 4095) div 4096 + 2"
    if "card (fs_free_blocks s') \<le> 1" "n < len"
    by (rule write_refused [OF r(2,3) that(1)]) (use z that(2) in linarith)
  then show ?thesis using r out by blast
qed

theorem sfs_write_splices_witness:
  "\<exists>s'. sfs_write 7 (iobuf_init 100 5000 0) of_nat demo_fs = Some (0, iob_after 5000 (iobuf_init 100 5000 0), of_nat, s') \<and>
    file_bytes s' 7 = bytes_at of_nat 100 5000 \<and> file_ok s' 7 {0, 1, 2}"
  using sfs_write_splices [OF demo_ok(1) [of 7] demo_ok(2) refl refl, of "iobuf_init 100 5000 0" of_nat]
  by (auto simp: demo_ok(3,4,5) iobuf_init_def)

text \<open>
  C2: \<^verbatim>\<open>sfs_read\<close> ends and returns 0: it copies the bytes of the file from the offset on into the
  buffer, as many as were asked for or as the file has, changes no other byte of the caller's
  memory, advances the descriptor by that number, and leaves the content of the file as it is.\<close>

theorem sfs_read_slice:
  fixes s :: "'z sfs_fs_scheme"
  assumes "file_ok s p R" and "sin_sem (nodes s p) = 1" and "off = unat (io_offset iob)" and "len = unat (io_resid iob)"
    and "off < 2 ^ 27" and "off + len < 2 ^ 31" and "n = min len (fsize s p - off)"
  shows "\<exists>m' s'. sfs_read p iob m s = Some (0, iob_after (of_nat n) iob, m', s') \<and>
    bytes_at m' (io_base iob) n = take n (drop off (file_bytes s p)) \<and>
    (\<forall>a. a < io_base iob \<or> io_base iob + n \<le> a \<longrightarrow> m' a = m a) \<and>
    file_bytes s' p = file_bytes s p \<and> file_ok s' p R \<and> only_file p R s s' \<and> sin_sem (nodes s' p) = 1"
proof -
  have o: "unat (io_offset iob) < 2 ^ 27" "unat (io_offset iob) + unat (io_resid iob) < 2 ^ 31"
    "False \<longrightarrow> unat (io_offset iob) \<le> fsize s p \<and> unat (io_offset iob) + unat (io_resid iob) \<le> 1036 * 4096"
    using assms(3-6) by simp_all
  from sfs_io_spec [OF assms(1,2) o, of m] obtain m' s' where
    r: "sfs_read p iob m s = Some (0, iob_after (of_nat n) iob, m', s')" "file_ok s' p R" "only_file p R s s'" "sin_sem (nodes s' p) = 1"
      "file_bytes s' p = file_bytes s p"
    and m': "m' = (\<lambda>a. if io_base iob \<le> a \<and> a < io_base iob + n then file_bytes s p ! (off + (a - io_base iob)) else m a)"
    unfolding sfs_read_def outcome_def io_effect_def span_def assms(3,4,7) by auto
  have "bytes_at m' (io_base iob) n = take n (drop off (file_bytes s p))"
    using assms(7) by (intro nth_equalityI) (auto simp: bytes_at_def m')
  then show ?thesis using r m' by auto
qed

theorem sfs_read_slice_witness:
  "\<exists>m' s'. sfs_read 7 (iobuf_init 100 5000 0) of_nat demo_fs = Some (0, iob_after 0 (iobuf_init 100 5000 0), m', s') \<and> file_bytes s' 7 = []"
  using sfs_read_slice [OF demo_ok(1) [of 7] demo_ok(2) refl refl _ _ refl, of "iobuf_init 100 5000 0" of_nat]
  by (auto simp: demo_ok(3,4) iobuf_init_def)

text \<open>
  C3: what a successful \<^verbatim>\<open>sfs_write\<close> put into the file, \<^verbatim>\<open>sfs_read\<close> of the same range reads back, byte for
  byte, into any buffer.\<close>

theorem sfs_write_read:
  fixes s :: "'z sfs_fs_scheme"
  assumes "file_ok s p R" and "sin_sem (nodes s p) = 1" and "off = unat (io_offset iob)" and "len = unat (io_resid iob)"
    and "off \<le> fsize s p" and "off + len \<le> 1036 * 4096"
    and "sfs_write p iob m s = Some (0, iob1, m1, s1)"
  shows "\<exists>iob2 m' s'. sfs_read p (iobuf_init base (io_resid iob) (io_offset iob)) m2 s1 = Some (0, iob2, m', s') \<and> io_resid iob2 = 0 \<and>
    bytes_at m' base len = bytes_at m (io_base iob) len \<and> file_bytes s' p = file_bytes s1 p"
proof -
  have b: "fsize s p \<le> 1036 * 4096" by (rule file_size_bounds(3) [OF assms(1)])
  have o: "unat (io_offset iob) < 2 ^ 27" "unat (io_offset iob) + unat (io_resid iob) < 2 ^ 31"
    "True \<longrightarrow> unat (io_offset iob) \<le> fsize s p \<and> unat (io_offset iob) + unat (io_resid iob) \<le> 1036 * 4096"
    using assms(3-6) b by simp_all
  have w: "file_bytes s1 p = take off (file_bytes s p) @ bytes_at m (io_base iob) len @ drop (off + len) (file_bytes s p)"
    "file_ok s1 p R" "sin_sem (nodes s1 p) = 1"
    using sfs_io_spec [OF assms(1,2) o, of m] assms(7)
    unfolding sfs_write_def outcome_def io_effect_def span_def assms(3,4) by auto
  have sz: "off + len \<le> fsize s1 p"
    using arg_cong [OF w(1), of length] assms(5) by simp
  let ?i = "iobuf_init base (io_resid iob) (io_offset iob)"
  have i: "io_offset ?i = io_offset iob" "io_resid ?i = io_resid iob" "io_base ?i = base" by (simp_all add: iobuf_init_def)
  have o': "unat (io_offset ?i) < 2 ^ 27" "unat (io_offset ?i) + unat (io_resid ?i) < 2 ^ 31"
    "False \<longrightarrow> unat (io_offset ?i) \<le> fsize s1 p \<and> unat (io_offset ?i) + unat (io_resid ?i) \<le> 1036 * 4096"
    using o i by simp_all
  have n: "min (unat (io_resid iob)) (fsize s1 p - unat (io_offset iob)) = len" using sz assms(3,4) by simp
  from sfs_io_spec [OF w(2,3) o', of m2] obtain m' s' where
    r: "sfs_read p ?i m2 s1 = Some (0, iob_after (of_nat len) ?i, m', s')" "file_bytes s' p = file_bytes s1 p"
      "m' = (\<lambda>a. if base \<le> a \<and> a < base + len then file_bytes s1 p ! (off + (a - base)) else m2 a)"
    unfolding sfs_read_def outcome_def io_effect_def span_def i n assms(3) by auto
  have "bytes_at m' base len = take len (drop off (file_bytes s1 p))"
    using sz by (intro nth_equalityI) (auto simp: bytes_at_def r(3))
  also have "\<dots> = bytes_at m (io_base iob) len" using assms(5) by (simp add: w(1))
  finally have "bytes_at m' base len = bytes_at m (io_base iob) len" .
  moreover have "io_resid (iob_after (of_nat len) ?i) = 0" using i(2) assms(4) by (simp add: iob_after_def)
  ultimately show ?thesis using r(1,2) by blast
qed

theorem sfs_write_read_witness:
  "\<exists>iob1 m1 s1 iob2 m' s'. sfs_write 7 (iobuf_init 100 5000 0) of_nat demo_fs = Some (0, iob1, m1, s1) \<and>
    sfs_read 7 (iobuf_init 9000 5000 0) (\<lambda>_. 0) s1 = Some (0, iob2, m', s') \<and> bytes_at m' 9000 5000 = bytes_at of_nat 100 5000"
proof -
  obtain iob1 m1 s1 where w: "sfs_write 7 (iobuf_init 100 5000 0) of_nat demo_fs = Some (0, iob1, m1, s1)"
    using demo_write by blast
  from sfs_write_read [OF demo_ok(1) [of 7] demo_ok(2) refl refl _ _ w, of 9000 "\<lambda>_. 0"] w show ?thesis
    by (auto simp: demo_ok(3) iobuf_init_def)
qed

end
