(* ===== verification/SfsDir.thy ===== *)
theory SfsDir
  imports Sfs
begin

text \<open>
  The rest of \<^verbatim>\<open>kern/fs/sfs/sfs_inode.c\<close>: the table of inodes in memory with their reference counts,
  reclaiming them, and directories. A name is the list of its bytes before the terminating zero.
\<close>

section \<open>Inodes in memory\<close>

definition sfs_get_ops :: "u32 \<Rightarrow> node_ops kernel" where
  "sfs_get_ops t = (if t = SFS_TYPE_DIR then Some DirOps else if t = SFS_TYPE_FILE then Some FileOps else panic)"

definition sfs_hash_list :: "u32 \<Rightarrow> scell" where
  "sfs_hash_list n = HashList (unat (hash32 n 10))"

definition sfs_set_links :: "nat \<Rightarrow> 'z sfs_fs_scheme \<Rightarrow> 'z sfs_fs_scheme" where
  "sfs_set_links p s =
     (let s1 = s\<lparr>node_links := list_add InodeList (InodeLink p) (node_links s)\<rparr>
      in s1\<lparr>node_links := list_add (sfs_hash_list (sin_ino (nodes s p))) (HashLink p) (node_links s1)\<rparr>)"

definition sfs_remove_links :: "nat \<Rightarrow> 'z sfs_fs_scheme \<Rightarrow> 'z sfs_fs_scheme" where
  "sfs_remove_links p s =
     (let s1 = s\<lparr>node_links := list_del (InodeLink p) (node_links s)\<rparr>
      in s1\<lparr>node_links := list_del (HashLink p) (node_links s1)\<rparr>)"

definition inode_ref_inc :: "nat \<Rightarrow> 'z sfs_fs_scheme \<Rightarrow> int \<times> 'z sfs_fs_scheme" where
  "inode_ref_inc p s = (ref_count (nodes s p) + 1, upd_node p (\<lambda>x. x\<lparr>ref_count := ref_count x + 1\<rparr>) s)"

definition inode_open_inc :: "nat \<Rightarrow> 'z sfs_fs_scheme \<Rightarrow> int \<times> 'z sfs_fs_scheme" where
  "inode_open_inc p s = (open_count (nodes s p) + 1, upd_node p (\<lambda>x. x\<lparr>open_count := open_count x + 1\<rparr>) s)"

text \<open>\<^verbatim>\<open>alloc_inode\<close>, \<^verbatim>\<open>vop_init\<close> and the fields of the \<^verbatim>\<open>sfs_inode\<close>.\<close>

definition inode_init :: "nat \<Rightarrow> node_ops \<Rightarrow> 'z sfs_fs_scheme \<Rightarrow> 'z sfs_fs_scheme" where
  "inode_init p ops s =
     snd (inode_ref_inc p (upd_node p (\<lambda>x. x\<lparr>ref_count := 0, open_count := 0, in_ops := ops\<rparr>) s))"

definition sfs_create_inode :: "sfs_disk_inode \<Rightarrow> nat \<Rightarrow> u32 \<Rightarrow> 'z sfs_fs_scheme \<Rightarrow> (int \<times> nat \<times> 'z sfs_fs_scheme) kernel" where
  "sfs_create_inode x at n s =
     (case fs_alloc s of
        (None, s1) \<Rightarrow> Some (- errno_of E_NO_MEM, 0, s1)
      | (Some p, s1) \<Rightarrow> do {
          ops \<leftarrow> sfs_get_ops (din_type x);
          let s2 = inode_init p ops s1;
          Some (0, p, upd_node p (\<lambda>y. y\<lparr>din := x, din_at := at, sin_ino := n, sin_dirty := False, reclaim_count := 1, sin_sem := 1\<rparr>) s2)
        })"

text \<open>The walk along a hash list; a cell that is no hash link cannot be read as one.\<close>

partial_function (option) lookup_loop :: "scell links \<Rightarrow> (nat \<Rightarrow> u32) \<Rightarrow> u32 \<Rightarrow> scell \<Rightarrow> scell \<Rightarrow> nat option option" where
  "lookup_loop h num n lst le =
     (if list_next h le = lst then Some None
      else (case list_next h le of
              HashLink p \<Rightarrow> if num p = n then Some (Some p) else lookup_loop h num n lst (HashLink p)
            | _ \<Rightarrow> None))"

definition lookup_sfs_nolock :: "u32 \<Rightarrow> 'z sfs_fs_scheme \<Rightarrow> (nat option \<times> 'z sfs_fs_scheme) kernel" where
  "lookup_sfs_nolock n s = do {
     r \<leftarrow> lookup_loop (node_links s) (\<lambda>p. sin_ino (nodes s p)) n (sfs_hash_list n) (sfs_hash_list n);
     case r of
       None \<Rightarrow> Some (None, s)
     | Some p \<Rightarrow>
         let (c, s1) = inode_ref_inc p s
         in Some (Some p, if c = 1 then upd_node p (\<lambda>x. x\<lparr>reclaim_count := reclaim_count x + 1\<rparr>) s1 else s1)
   }"

definition sfs_load_inode :: "u32 \<Rightarrow> 'z sfs_fs_scheme \<Rightarrow> (int \<times> nat \<times> 'z sfs_fs_scheme) kernel" where
  "sfs_load_inode n s = do {
     s0 \<leftarrow> lock_sfs_fs s;
     (r, s1) \<leftarrow> lookup_sfs_nolock n s0;
     case r of
       Some p \<Rightarrow> Some (0, p, unlock_sfs_fs s1)
     | None \<Rightarrow>
         (case fs_alloc s1 of
            (None, s2) \<Rightarrow> Some (- errno_of E_NO_MEM, 0, unlock_sfs_fs s2)
          | (Some at, s2) \<Rightarrow> do {
              used \<leftarrow> sfs_block_inuse n s2;
              kassert used;
              (ret, m, s3) \<leftarrow> sfs_rbuf 0 64 n 0 (\<lambda>_. 0) s2;
              if ret \<noteq> 0 then Some (ret, 0, unlock_sfs_fs (fs_free at s3))
              else do {
                kassert (din_nlinks (load_din m) \<noteq> 0);
                (ret', p, s4) \<leftarrow> sfs_create_inode (load_din m) at n s3;
                if ret' \<noteq> 0 then Some (ret', 0, unlock_sfs_fs (fs_free at s4))
                else Some (0, p, unlock_sfs_fs (sfs_set_links p s4))
              }
            })
   }"

definition inode_kill :: "nat \<Rightarrow> 'z sfs_fs_scheme \<Rightarrow> 'z sfs_fs_scheme kernel" where
  "inode_kill p s = do {
     kassert (ref_count (nodes s p) = 0);
     kassert (open_count (nodes s p) = 0);
     Some (fs_free p s)
   }"

definition sfs_reclaim :: "nat \<Rightarrow> 'z sfs_fs_scheme \<Rightarrow> (int \<times> 'z sfs_fs_scheme) kernel" where
  "sfs_reclaim p s = do {
     s1 \<leftarrow> lock_sfs_fs s;
     kassert (reclaim_count (nodes s1 p) > 0);
     let s2 = upd_node p (\<lambda>x. x\<lparr>reclaim_count := reclaim_count x - 1\<rparr>) s1;
     if reclaim_count (nodes s2 p) \<noteq> 0 \<or> ref_count (nodes s2 p) \<noteq> 0 then Some (- errno_of E_BUSY, unlock_sfs_fs s2)
     else do {
       (ret, s3) \<leftarrow> (if din_nlinks (din (nodes s2 p)) = 0 then vop_truncate p 0 s2 else Some (0, s2));
       if ret \<noteq> 0 then Some (ret, unlock_sfs_fs s3)
       else do {
         (ret', s4) \<leftarrow> (if sin_dirty (nodes s3 p) then vop_fsync p s3 else Some (0, s3));
         if ret' \<noteq> 0 then Some (ret', unlock_sfs_fs s4)
         else do {
           let s5 = unlock_sfs_fs (sfs_remove_links p s4);
           s7 \<leftarrow> (if din_nlinks (din (nodes s5 p)) = 0 then do {
               s6 \<leftarrow> sfs_block_free (sin_ino (nodes s5 p)) s5;
               if indirect (din (nodes s6 p)) \<noteq> 0 then sfs_block_free (indirect (din (nodes s6 p))) s6 else Some s6
             }
             else Some s5);
           s8 \<leftarrow> inode_kill p (fs_free (din_at (nodes s7 p)) s7);
           Some (0, s8)
         }
       }
     }
   }"

definition inode_ref_dec :: "nat \<Rightarrow> 'z sfs_fs_scheme \<Rightarrow> (int \<times> 'z sfs_fs_scheme) kernel" where
  "inode_ref_dec p s = do {
     kassert (ref_count (nodes s p) > 0);
     let c = ref_count (nodes s p) - 1;
     let s1 = upd_node p (\<lambda>x. x\<lparr>ref_count := c\<rparr>) s;
     if c = 0 then do { inode_check p s1; (_, s2) \<leftarrow> sfs_reclaim p s1; Some (c, s2) } else Some (c, s1)
   }"

definition inode_open_dec :: "nat \<Rightarrow> 'z sfs_fs_scheme \<Rightarrow> (int \<times> 'z sfs_fs_scheme) kernel" where
  "inode_open_dec p s = do {
     kassert (open_count (nodes s p) > 0);
     let c = open_count (nodes s p) - 1;
     let s1 = upd_node p (\<lambda>x. x\<lparr>open_count := c\<rparr>) s;
     if c = 0 then do { inode_check p s1; (_, s2) \<leftarrow> sfs_close p s1; Some (c, s2) } else Some (c, s1)
   }"

section \<open>Directories\<close>

record sfs_disk_entry =
  de_ino :: u32
  de_name :: mem

abbreviation (input) SFS_MAX_FNAME_LEN :: nat where "SFS_MAX_FNAME_LEN \<equiv> 255"

definition cname :: "mem \<Rightarrow> u8 list" where
  "cname m = takeWhile (\<lambda>c. c \<noteq> 0) (map m [0..<256])"

text \<open>The entry is meaningful when the return value is 0.\<close>

definition sfs_dirent_read_nolock :: "nat \<Rightarrow> u32 \<Rightarrow> 'z sfs_fs_scheme \<Rightarrow> (int \<times> sfs_disk_entry \<times> 'z sfs_fs_scheme) kernel" where
  "sfs_dirent_read_nolock p slot s = do {
     kassert (din_type (din (nodes s p)) = SFS_TYPE_DIR \<and> sint slot \<ge> 0 \<and> slot < din_blocks (din (nodes s p)));
     (ret, b, s1) \<leftarrow> sfs_bmap_load_nolock p slot s;
     if ret \<noteq> 0 then Some (ret, \<lparr>de_ino = 0, de_name = (\<lambda>_. 0)\<rparr>, s1)
     else do {
       used \<leftarrow> sfs_block_inuse b s1;
       kassert used;
       (ret', m, s2) \<leftarrow> sfs_rbuf 0 260 b 0 (\<lambda>_. 0) s1;
       Some (ret', \<lparr>de_ino = load32 m 0, de_name = (\<lambda>a. m (4 + a))(SFS_MAX_FNAME_LEN := 0)\<rparr>, s2)
     }
   }"

text \<open>The number of slots, an \<^verbatim>\<open>int\<close>.\<close>

definition nslots :: "nat \<Rightarrow> 'z sfs_fs_scheme \<Rightarrow> nat" where
  "nslots p s = nat (sint (din_blocks (din (nodes s p))))"

text \<open>
  The loop of \<^verbatim>\<open>sfs_dirent_search_nolock\<close>, with \<open>n\<close> slots to go: the return value, the slot and the
  inode number of the entry found, the last empty slot seen.
\<close>

fun search_loop :: "nat \<Rightarrow> u8 list \<Rightarrow> nat \<Rightarrow> u32 \<Rightarrow> u32 \<Rightarrow> 'z sfs_fs_scheme \<Rightarrow> (int \<times> (u32 \<times> u32) option \<times> u32 \<times> 'z sfs_fs_scheme) kernel" where
  "search_loop p name 0 i vacant s = Some (- errno_of E_NOENT, None, vacant, s)"
| "search_loop p name (Suc n) i vacant s = do {
     (ret, e, s1) \<leftarrow> sfs_dirent_read_nolock p i s;
     if ret \<noteq> 0 then Some (ret, None, vacant, s1)
     else if de_ino e = 0 then search_loop p name n (i + 1) i s1
     else if name = cname (de_name e) then Some (0, Some (i, de_ino e), vacant, s1)
     else search_loop p name n (i + 1) vacant s1
   }"

definition sfs_dirent_search_nolock :: "nat \<Rightarrow> u8 list \<Rightarrow> 'z sfs_fs_scheme \<Rightarrow> (int \<times> (u32 \<times> u32) option \<times> u32 \<times> 'z sfs_fs_scheme) kernel" where
  "sfs_dirent_search_nolock p name s = do {
     kassert (length name \<le> SFS_MAX_FNAME_LEN);
     case fs_alloc s of
       (None, s1) \<Rightarrow> Some (- errno_of E_NO_MEM, None, 0, s1)
     | (Some at, s1) \<Rightarrow> do {
         (ret, found, vacant, s2) \<leftarrow> search_loop p name (nslots p s1) 0 (din_blocks (din (nodes s1 p))) s1;
         Some (ret, found, vacant, fs_free at s2)
       }
   }"

fun findino_loop :: "nat \<Rightarrow> u32 \<Rightarrow> nat \<Rightarrow> u32 \<Rightarrow> sfs_disk_entry \<Rightarrow> 'z sfs_fs_scheme \<Rightarrow> (int \<times> sfs_disk_entry \<times> 'z sfs_fs_scheme) kernel" where
  "findino_loop p num 0 i e s = Some (- errno_of E_NOENT, e, s)"
| "findino_loop p num (Suc n) i e s = do {
     (ret, e', s1) \<leftarrow> sfs_dirent_read_nolock p i s;
     if ret \<noteq> 0 then Some (ret, e', s1)
     else if de_ino e' = num then Some (0, e', s1)
     else findino_loop p num n (i + 1) e' s1
   }"

definition sfs_dirent_findino_nolock :: "nat \<Rightarrow> u32 \<Rightarrow> sfs_disk_entry \<Rightarrow> 'z sfs_fs_scheme \<Rightarrow> (int \<times> sfs_disk_entry \<times> 'z sfs_fs_scheme) kernel" where
  "sfs_dirent_findino_nolock p num e s = findino_loop p num (nslots p s) 0 e s"

definition sfs_lookup_once :: "nat \<Rightarrow> u8 list \<Rightarrow> 'z sfs_fs_scheme \<Rightarrow> (int \<times> nat \<times> 'z sfs_fs_scheme) kernel" where
  "sfs_lookup_once p name s = do {
     s1 \<leftarrow> lock_sin p s;
     (ret, found, _, s2) \<leftarrow> sfs_dirent_search_nolock p name s1;
     let s3 = unlock_sin p s2;
     case found of
       Some (_, num) \<Rightarrow> if ret = 0 then sfs_load_inode num s3 else Some (ret, 0, s3)
     | None \<Rightarrow> Some (ret, 0, s3)
   }"

definition sfs_lookup :: "nat \<Rightarrow> u8 list \<Rightarrow> 'z sfs_fs_scheme \<Rightarrow> (int \<times> nat \<times> 'z sfs_fs_scheme) kernel" where
  "sfs_lookup p path s = do {
     kassert (path \<noteq> [] \<and> hd path \<noteq> 47);
     let s1 = snd (inode_ref_inc p s);
     if din_type (din (nodes s1 p)) \<noteq> SFS_TYPE_DIR then do {
       (_, s2) \<leftarrow> inode_ref_dec p s1;
       Some (- errno_of E_NOTDIR, 0, s2)
     }
     else do {
       (ret, q, s2) \<leftarrow> sfs_lookup_once p path s1;
       (_, s3) \<leftarrow> inode_ref_dec p s2;
       if ret \<noteq> 0 then Some (ret, 0, s3) else Some (0, q, s3)
     }
   }"

fun dirsub_loop :: "nat \<Rightarrow> nat \<Rightarrow> u32 \<Rightarrow> u32 \<Rightarrow> sfs_disk_entry \<Rightarrow> 'z sfs_fs_scheme \<Rightarrow> (int \<times> sfs_disk_entry \<times> 'z sfs_fs_scheme) kernel" where
  "dirsub_loop p 0 i slot e s = Some (- errno_of E_NOENT, e, s)"
| "dirsub_loop p (Suc n) i slot e s = do {
     (ret, e', s1) \<leftarrow> sfs_dirent_read_nolock p i s;
     if ret \<noteq> 0 then Some (ret, e', s1)
     else if de_ino e' \<noteq> 0 then
       if slot = 0 then Some (0, e', s1) else dirsub_loop p n (i + 1) (slot - 1) e' s1
     else dirsub_loop p n (i + 1) slot e' s1
   }"

definition sfs_getdirentry_sub_nolock :: "nat \<Rightarrow> u32 \<Rightarrow> sfs_disk_entry \<Rightarrow> 'z sfs_fs_scheme \<Rightarrow> (int \<times> sfs_disk_entry \<times> 'z sfs_fs_scheme) kernel" where
  "sfs_getdirentry_sub_nolock p slot e s = dirsub_loop p (nslots p s) 0 slot e s"

text \<open>The offset is divided by the size of a name, an unsigned number.\<close>

definition sfs_getdirentry :: "nat \<Rightarrow> iobuf \<Rightarrow> mem \<Rightarrow> 'z sfs_fs_scheme \<Rightarrow> (int \<times> iobuf \<times> mem \<times> 'z sfs_fs_scheme) kernel" where
  "sfs_getdirentry p iob m s =
     (case fs_alloc s of
        (None, s1) \<Rightarrow> Some (- errno_of E_NO_MEM, iob, m, s1)
      | (Some at, s1) \<Rightarrow>
          if sint (io_offset iob) < 0 \<or> io_offset iob mod 256 \<noteq> 0 then Some (- errno_of E_INVAL, iob, m, fs_free at s1)
          else if io_offset iob div 256 > din_blocks (din (nodes s1 p)) then Some (- errno_of E_NOENT, iob, m, fs_free at s1)
          else do {
            s2 \<leftarrow> lock_sin p s1;
            (ret, e, s3) \<leftarrow> sfs_getdirentry_sub_nolock p (io_offset iob div 256) \<lparr>de_ino = 0, de_name = (\<lambda>_. 0)\<rparr> s2;
            let s4 = unlock_sin p s3;
            if ret \<noteq> 0 then Some (ret, iob, m, fs_free at s4)
            else do {
              (ret', _, iob', m', _) \<leftarrow> iobuf_move 256 True iob m (de_name e);
              Some (ret', iob', m', fs_free at s4)
            }
          })"

section \<open>The path of a directory\<close>

text \<open>
  The loop of \<^verbatim>\<open>sfs_namefile\<close>: it ends at the root, or with an error. The result is the return value,
  the node it holds a reference to (after an error), the position and the room left, and the buffer.
\<close>

partial_function (option) namefile_loop :: "nat \<Rightarrow> nat \<Rightarrow> u32 \<Rightarrow> sfs_disk_entry \<Rightarrow> mem \<Rightarrow> 'z sfs_fs_scheme \<Rightarrow>
    (int \<times> nat \<times> nat \<times> u32 \<times> mem \<times> 'z sfs_fs_scheme) kernel" where
  "namefile_loop p ptr resid e m s = do {
     (ret, parent, s1) \<leftarrow> sfs_lookup_once p [46, 46] s;
     if ret \<noteq> 0 then Some (ret, p, ptr, resid, m, s1)
     else do {
       let num = sin_ino (nodes s1 p);
       (_, s2) \<leftarrow> inode_ref_dec p s1;
       if p = parent then do { (_, s3) \<leftarrow> inode_ref_dec p s2; Some (0, p, ptr, resid, m, s3) }
       else do {
         kassert (num \<noteq> sin_ino (nodes s2 parent) \<and> din_type (din (nodes s2 parent)) = SFS_TYPE_DIR);
         s3 \<leftarrow> lock_sin parent s2;
         (ret', e', s4) \<leftarrow> sfs_dirent_findino_nolock parent num e s3;
         let s5 = unlock_sin parent s4;
         if ret' \<noteq> 0 then Some (ret', parent, ptr, resid, m, s5)
         else let alen = length (cname (de_name e')) + 1 in
           if alen > unat resid then Some (- errno_of E_NO_MEM, parent, ptr, resid, m, s5)
           else let ptr' = ptr - alen;
                    m' = (obj_copy ptr' 0 (alen - 1) (de_name e') m)(ptr' + alen - 1 := 47)
             in namefile_loop parent ptr' (resid - of_nat alen) e' m' s5
       }
     }
   }"

definition sfs_namefile :: "nat \<Rightarrow> iobuf \<Rightarrow> mem \<Rightarrow> 'z sfs_fs_scheme \<Rightarrow> (int \<times> iobuf \<times> mem \<times> 'z sfs_fs_scheme) kernel" where
  "sfs_namefile p iob m s =
     (if io_resid iob \<le> 2 then Some (- errno_of E_NO_MEM, iob, m, s)
      else case fs_alloc s of
        (None, s1) \<Rightarrow> Some (- errno_of E_NO_MEM, iob, m, s1)
      | (Some at, s1) \<Rightarrow> do {
          let s2 = snd (inode_ref_inc p s1);
          (ret, q, ptr, resid, m1, s3) \<leftarrow>
            namefile_loop p (io_base iob + unat (io_resid iob)) (io_resid iob - 2) \<lparr>de_ino = 0, de_name = (\<lambda>_. 0)\<rparr> m s2;
          if ret \<noteq> 0 then do { (_, s4) \<leftarrow> inode_ref_dec q s3; Some (ret, iob, m1, fs_free at s4) }
          else do {
            let alen = io_resid iob - resid - 2;
            let m2 = snd (memmove (io_base iob + 1) ptr (unat alen) m1);
            iob' \<leftarrow> iobuf_skip alen iob;
            Some (0, iob', m2(io_base iob := 47, io_base iob + 1 + unat alen := 0), fs_free at s3)
          }
        })"

end
