(* ===== verification/SfsNames.thy ===== *)
theory SfsNames
  imports SfsRw SfsDir
begin

text \<open>
  Directories: slot \<open>i\<close> of a directory is its block \<open>i\<close>, an inode number and a name. The searches of
  \<^verbatim>\<open>sfs_inode.c\<close> find exactly the first slot with the name, and the listing returns the names of the
  slots in use one after the other.
\<close>

section \<open>The slots of a directory\<close>

definition slot_at :: "'z sfs_fs_scheme \<Rightarrow> nat \<Rightarrow> nat \<Rightarrow> nat" where
  "slot_at s p i = unat (bmw (rd s) (din (nodes s p)) i) * 4096"

definition slot_ino :: "'z sfs_fs_scheme \<Rightarrow> nat \<Rightarrow> nat \<Rightarrow> u32" where
  "slot_ino s p i = load32 (rd s) (slot_at s p i)"

definition slot_name :: "'z sfs_fs_scheme \<Rightarrow> nat \<Rightarrow> nat \<Rightarrow> u8 list" where
  "slot_name s p i = takeWhile (\<lambda>c. c \<noteq> 0) (map (\<lambda>k. rd s (slot_at s p i + 4 + k)) [0..<255])"

definition dir_ok :: "'z sfs_fs_scheme \<Rightarrow> nat \<Rightarrow> nat set \<Rightarrow> bool" where
  "dir_ok s p R \<longleftrightarrow> finv s p R \<and> din_type (din (nodes s p)) = SFS_TYPE_DIR"

text \<open>Only buffers change.\<close>

definition quiet :: "'z sfs_fs_scheme \<Rightarrow> 'z sfs_fs_scheme \<Rightarrow> bool" where
  "quiet s s' \<longleftrightarrow> io_only s s' \<and> rd s' = rd s"

lemma quiet_refl [simp]: "quiet s s"
  by (simp add: quiet_def)

lemma quiet_trans: "quiet s s1 \<Longrightarrow> quiet s1 s2 \<Longrightarrow> quiet s s2"
  by (auto simp: quiet_def intro: io_only_trans)

lemma quiet_slots:
  assumes "quiet s s'"
  shows "dir_ok s' p R = dir_ok s p R" "nb s' p = nb s p" "slot_ino s' p = slot_ino s p" "slot_name s' p = slot_name s p" "nodes s' = nodes s"
proof -
  have q: "nodes s' = nodes s" "rd s' = rd s" "fs_free_blocks s' = fs_free_blocks s" "super_blocks s' = super_blocks s" "sfs_ok s' = sfs_ok s"
    using assms io_only_ok [of s s'] keepsD(2) [of s s'] by (auto simp: quiet_def io_only_def fs_free_blocks_def)
  show "dir_ok s' p R = dir_ok s p R" "nb s' p = nb s p" "nodes s' = nodes s" by (simp_all add: dir_ok_def finv_def nb_def q)
  show "slot_ino s' p = slot_ino s p" "slot_name s' p = slot_name s p" by (simp_all add: slot_ino_def slot_name_def slot_at_def q fun_eq_iff)
qed

lemma cname_slot: "cname ((\<lambda>a. m (4 + a))(SFS_MAX_FNAME_LEN := 0)) = takeWhile (\<lambda>c. c \<noteq> 0) (map (\<lambda>k. m (4 + k)) [0..<255])"
proof -
  let ?f = "(\<lambda>a. m (4 + a))(SFS_MAX_FNAME_LEN := 0)"
  have "[0..<256] = [0..<255] @ [255]" using upt_Suc_append [of 0 255] by simp
  moreover have "map ?f [0..<255] = map (\<lambda>k. m (4 + k)) [0..<255]" by (rule map_cong) auto
  moreover have "takeWhile (\<lambda>c. c \<noteq> 0) (xs @ [0]) = takeWhile (\<lambda>c. c \<noteq> 0) xs" for xs :: "u8 list" by (induction xs) auto
  ultimately show ?thesis unfolding cname_def by simp
qed

lemma dirent_read_spec:
  fixes s :: "'z sfs_fs_scheme"
  assumes d: "dir_ok s p R" and i: "unat slot < nb s p"
  shows "\<exists>e s'. sfs_dirent_read_nolock p slot s = Some (0, e, s') \<and> quiet s s' \<and>
    de_ino e = slot_ino s p (unat slot) \<and> cname (de_name e) = slot_name s p (unat slot)"
proof -
  let ?x = "din (nodes s p)" and ?b = "bmw (rd s) (din (nodes s p)) (unat slot)"
  have ok: "sfs_ok s" and fm: "fmap_ok (rd s) (fs_free_blocks s) (super_blocks s) R ?x" and ty: "din_type ?x = SFS_TYPE_DIR"
    using d by (simp_all add: dir_ok_def finv_def)
  have i': "unat slot < unat (din_blocks ?x)" using i by (simp add: nb_def)
  have lim: "unat slot < 1036" using i' fmapD(1) [OF fm] by simp
  have si: "sint slot \<ge> 0" using sint_small [of slot] lim by simp
  have b: "?b \<noteq> 0" "?b < super_blocks s" "unat ?b \<notin> fs_free_blocks s" using fmapD(3) [OF fm i'] by auto
  obtain s1 where s1: "sfs_bmap_load_nolock p slot s = Some (0, ?b, s1)" "io_only s s1" "rd s1 = rd s"
    using bmap_load_old [OF ok fm i'] by blast
  have ok1: "sfs_ok s1" and k1: "super_blocks s1 = super_blocks s" "fs_free_blocks s1 = fs_free_blocks s"
    using io_only_ok [OF s1(2)] ok s1(2) keepsD(2) [of s s1] by (simp_all add: io_only_def fs_free_blocks_def)
  have use: "sfs_block_inuse ?b s1 = Some True" using sfs_inuse_spec [OF ok1 b(1)] b k1 by simp
  obtain s2 where s2: "sfs_rbuf 0 260 ?b 0 (\<lambda>_. 0) s1 = Some (0, obj_copy 0 (unat ?b * 4096) 260 (rd s) (\<lambda>_. 0), s2)" "io_only s1 s2" "rd s2 = rd s1"
    using sfs_rbuf_spec [OF ok1 b(1), of 0 260 0 "\<lambda>_. 0"] b(2) k1 s1(3) by auto
  let ?m = "obj_copy 0 (unat ?b * 4096) 260 (rd s) (\<lambda>_. 0)"
  let ?e = "\<lparr>de_ino = load32 ?m 0, de_name = (\<lambda>a. ?m (4 + a))(SFS_MAX_FNAME_LEN := 0)\<rparr>"
  have "sfs_dirent_read_nolock p slot s = Some (0, ?e, s2)"
    using ty si i' s1(1) use s2(1) by (simp add: sfs_dirent_read_nolock_def word_less_nat_alt)
  moreover have "quiet s s2" using io_only_trans [OF s1(2) s2(2)] s1(3) s2(3) by (simp add: quiet_def)
  moreover have "load32 ?m 0 = slot_ino s p (unat slot)"
    unfolding slot_ino_def slot_at_def by (rule load32_cong) (simp add: obj_copy_def)
  moreover have "cname (de_name ?e) = slot_name s p (unat slot)"
  proof -
    have "map (\<lambda>k. ?m (4 + k)) [0..<255] = map (\<lambda>k. rd s (slot_at s p (unat slot) + 4 + k)) [0..<255]"
      by (rule map_cong) (auto simp: obj_copy_def slot_at_def add.assoc)
    then show ?thesis by (simp only: sfs_disk_entry.select_convs cname_slot slot_name_def)
  qed
  ultimately show ?thesis by auto
qed

definition used_slots :: "'z sfs_fs_scheme \<Rightarrow> nat \<Rightarrow> nat list" where
  "used_slots s p = filter (\<lambda>j. slot_ino s p j \<noteq> 0) [0..<nb s p]"

section \<open>A directory with one entry\<close>

definition demo_dir :: sfs_fs where
  "demo_dir = demo_fs\<lparr>rd := store32 4096 5 ((\<lambda>_. 0)(4100 := 97)),
     nodes := (\<lambda>_. demo_node\<lparr>din := demo_din\<lparr>din_type := 2, din_blocks := 2, direct := (\<lambda>i. if i = 0 then 1 else if i = 1 then 2 else 0)\<rparr>\<rparr>)\<rparr>"

lemma demo_dir_free: "fs_free_blocks demo_dir = {3..<32}"
  using demo_free by (simp add: demo_dir_def fs_free_blocks_def)

lemma demo_dir_ok: "dir_ok demo_dir p {0}" "nb demo_dir p = 2" "sin_sem (nodes demo_dir p) = 1" "fs_kmalloc demo_dir (fs_kmalloc_pos demo_dir) = Some 0"
proof -
  have "sfs_ok demo_dir" unfolding sfs_ok_def demo_dir_free by (auto simp: demo_dir_def demo_fs_def disk_ok_def bitmap_ok_def)
  moreover have "fmap_ok (rd demo_dir) (fs_free_blocks demo_dir) (super_blocks demo_dir) {0} (din (nodes demo_dir p))"
    unfolding fmap_ok_def demo_dir_free
    by (auto simp: demo_dir_def demo_fs_def demo_node_def demo_din_def bmw_def inj_on_def less_2_cases_iff)
  ultimately show "dir_ok demo_dir p {0}" by (simp add: dir_ok_def finv_def) (simp add: demo_dir_def demo_node_def demo_din_def)
  show "nb demo_dir p = 2" "sin_sem (nodes demo_dir p) = 1" "fs_kmalloc demo_dir (fs_kmalloc_pos demo_dir) = Some 0"
    by (simp_all add: nb_def demo_dir_def demo_fs_def demo_node_def demo_din_def)
qed

lemma demo_dir_slots:
  "slot_ino demo_dir p 0 = 5" "slot_name demo_dir p 0 = [97]" "slot_ino demo_dir p 1 = 0" "used_slots demo_dir p = [0]"
proof -
  have at: "slot_at demo_dir p 0 = 4096" "slot_at demo_dir p 1 = 8192"
    by (simp_all add: slot_at_def bmw_def demo_dir_def demo_node_def demo_din_def)
  have rd: "rd demo_dir = store32 4096 5 ((\<lambda>_. 0)(4100 := 97))" by (simp add: demo_dir_def)
  show 0: "slot_ino demo_dir p 0 = 5" unfolding slot_ino_def at rd by simp
  have "load32 (rd demo_dir) 8192 = load32 (\<lambda>_. 0) 0" by (rule load32_cong) (simp add: rd store32_def)
  then show 1: "slot_ino demo_dir p 1 = 0" unfolding slot_ino_def at by simp
  have "[0..<255 :: nat] = 0 # 1 # [2..<255]" by (simp add: upt_rec)
  then show "slot_name demo_dir p 0 = [97]" unfolding slot_name_def at rd by (simp add: store32_def)
  have "[0..<2] = [0, 1 :: nat]" by (simp add: upt_rec)
  then show "used_slots demo_dir p = [0]" unfolding used_slots_def demo_dir_ok(2) using 0 1 by simp
qed

section \<open>Searching\<close>

abbreviation (input) slot_match :: "'z sfs_fs_scheme \<Rightarrow> nat \<Rightarrow> u8 list \<Rightarrow> nat \<Rightarrow> bool" where
  "slot_match s p name j \<equiv> slot_ino s p j \<noteq> 0 \<and> slot_name s p j = name"

lemma unat_Suc_slot: "unat (i :: u32) + Suc n \<le> 1036 \<Longrightarrow> unat (i + 1) = unat i + 1"
  by (subst unat_add_u32) simp_all

lemma search_loop_spec:
  fixes s :: "'z sfs_fs_scheme"
  assumes "dir_ok s p R" and "unat i + n \<le> nb s p"
  shows "\<exists>vac s'. quiet s s' \<and> search_loop p name n i vacant s =
    Some (case find (slot_match s p name) [unat i..<unat i + n] of
            Some j \<Rightarrow> (0, Some (of_nat j, slot_ino s p j), vac, s') | None \<Rightarrow> (- errno_of E_NOENT, None, vac, s'))"
  using assms
proof (induction n arbitrary: i vacant s)
  case 0
  then show ?case by (auto intro: exI [of _ s])
next
  case (Suc n)
  have lim: "nb s p \<le> 1036" using Suc.prems(1) fmapD(1) by (auto simp: dir_ok_def finv_def nb_def)
  have i1: "unat (i + 1) = unat i + 1" using Suc.prems(2) lim by (intro unat_Suc_slot [of _ n]) simp
  have up: "[unat i..<unat i + Suc n] = unat i # [unat (i + 1)..<unat (i + 1) + n]" unfolding i1 by (simp add: upt_rec)
  obtain e s1 where e: "sfs_dirent_read_nolock p i s = Some (0, e, s1)" "quiet s s1" "de_ino e = slot_ino s p (unat i)"
    "cname (de_name e) = slot_name s p (unat i)"
    using dirent_read_spec [OF Suc.prems(1), of i] Suc.prems(2) by auto
  note q = quiet_slots [OF e(2)]
  have "dir_ok s1 p R" "unat (i + 1) + n \<le> nb s1 p" using Suc.prems q(1,2) i1 by simp_all
  note IH = Suc.IH [OF this, unfolded q(3,4)]
  show ?case
  proof (cases "slot_match s p name (unat i)")
    case True
    then have "search_loop p name (Suc n) i vacant s = Some (0, Some (i, slot_ino s p (unat i)), vacant, s1)" using e by simp
    with True e(2) show ?thesis unfolding up by (intro exI [of _ vacant] exI [of _ s1]) simp
  next
    case False
    then have "search_loop p name (Suc n) i vacant s = search_loop p name n (i + 1) (if slot_ino s p (unat i) = 0 then i else vacant) s1"
      using e by auto
    moreover obtain vac s' where "quiet s1 s'" "search_loop p name n (i + 1) (if slot_ino s p (unat i) = 0 then i else vacant) s1 =
      Some (case find (slot_match s p name) [unat (i + 1)..<unat (i + 1) + n] of
            Some j \<Rightarrow> (0, Some (of_nat j, slot_ino s p j), vac, s') | None \<Rightarrow> (- errno_of E_NOENT, None, vac, s'))"
      using IH by blast
    ultimately show ?thesis using False quiet_trans [OF e(2)] unfolding up by (intro exI [of _ vac] exI [of _ s']) auto
  qed
qed

lemma nslots_nb: "dir_ok s p R \<Longrightarrow> nslots p s = nb s p"
proof -
  assume d: "dir_ok s p R"
  then have "unat (din_blocks (din (nodes s p))) < 2 ^ 31" using fmapD(1) [of "rd s"] by (force simp: dir_ok_def finv_def)
  then show ?thesis using sint_small [of "din_blocks (din (nodes s p))"] by (simp add: nslots_def nb_def)
qed

lemma slots_kmalloc:
  "dir_ok (s\<lparr>fs_kmalloc_pos := k\<rparr>) p R = dir_ok s p R" "nb (s\<lparr>fs_kmalloc_pos := k\<rparr>) p = nb s p"
  "slot_ino (s\<lparr>fs_kmalloc_pos := k\<rparr>) = slot_ino s" "slot_name (s\<lparr>fs_kmalloc_pos := k\<rparr>) = slot_name s"
  by (simp_all add: dir_ok_def finv_def nb_def slot_ino_def slot_name_def slot_at_def sfs_ok_def disk_ok_def fs_free_blocks_def fun_eq_iff)

text \<open>
  C11: in a well formed directory, with memory for the entry buffer, the search for a name of at most
  255 bytes ends without a panic and is exact: it returns the number and the slot of the first slot
  in use that has the name, and \<^verbatim>\<open>-E_NOENT\<close> when none has; the entry buffer is freed, and neither the
  disk nor an inode changes.\<close>

theorem sfs_dirent_search_exact:
  fixes s :: "'z sfs_fs_scheme"
  assumes d: "dir_ok s p R" and l: "length name \<le> 255" and k: "fs_kmalloc s (fs_kmalloc_pos s) = Some at"
  shows "\<exists>vac s'. sfs_dirent_search_nolock p name s =
      Some (case find (\<lambda>j. slot_ino s p j \<noteq> 0 \<and> slot_name s p j = name) [0..<nb s p] of
              Some j \<Rightarrow> (0, Some (of_nat j, slot_ino s p j), vac, s') | None \<Rightarrow> (- errno_of E_NOENT, None, vac, s')) \<and>
    rd s' = rd s \<and> nodes s' = nodes s \<and> fs_free_blocks s' = fs_free_blocks s \<and> fs_kfreed s' = at # fs_kfreed s"
proof -
  let ?s1 = "s\<lparr>fs_kmalloc_pos := fs_kmalloc_pos s + 1\<rparr>"
  have d1: "dir_ok ?s1 p R" using d by (simp add: slots_kmalloc)
  have n: "nslots p ?s1 = nb s p" using nslots_nb [OF d1] by (simp add: slots_kmalloc)
  have le: "unat (0 :: u32) + nb s p \<le> nb ?s1 p" by (simp add: slots_kmalloc)
  obtain vac s2 where s2: "quiet ?s1 s2" "search_loop p name (nb s p) 0 (din_blocks (din (nodes ?s1 p))) ?s1 =
    Some (case find (slot_match s p name) [0..<nb s p] of
            Some j \<Rightarrow> (0, Some (of_nat j, slot_ino s p j), vac, s2) | None \<Rightarrow> (- errno_of E_NOENT, None, vac, s2))"
    using search_loop_spec [OF d1 le, of name "din_blocks (din (nodes ?s1 p))"] unfolding slots_kmalloc by auto
  have "sfs_dirent_search_nolock p name s =
      Some (case find (slot_match s p name) [0..<nb s p] of
              Some j \<Rightarrow> (0, Some (of_nat j, slot_ino s p j), vac, fs_free at s2) | None \<Rightarrow> (- errno_of E_NOENT, None, vac, fs_free at s2))"
    unfolding sfs_dirent_search_nolock_def fs_alloc_def k using l n s2(2) by (simp split: option.split)
  moreover have "rd (fs_free at s2) = rd s" "nodes (fs_free at s2) = nodes s" "fs_free_blocks (fs_free at s2) = fs_free_blocks s"
    "fs_kfreed (fs_free at s2) = at # fs_kfreed s"
    using s2(1) by (auto simp: quiet_def io_only_def keeps_def fs_free_def fs_free_blocks_def)
  ultimately show ?thesis by blast
qed

theorem sfs_dirent_search_exact_witness:
  "\<exists>vac s' vac2 s2. sfs_dirent_search_nolock 7 [97] demo_dir = Some (0, Some (0, 5), vac, s') \<and>
     sfs_dirent_search_nolock 7 [98] demo_dir = Some (- errno_of E_NOENT, None, vac2, s2)"
proof -
  have u: "[0..<2] = [0, 1 :: nat]" by (simp add: upt_rec)
  have "\<exists>vac s'. sfs_dirent_search_nolock 7 [97] demo_dir = Some (0, Some (0, 5), vac, s')"
    using sfs_dirent_search_exact [OF demo_dir_ok(1) _ demo_dir_ok(4), of "[97]" 7] by (auto simp: demo_dir_ok(2) u demo_dir_slots demo_dir_slots(3) [simplified])
  moreover have "\<exists>vac s'. sfs_dirent_search_nolock 7 [98] demo_dir = Some (- errno_of E_NOENT, None, vac, s')"
    using sfs_dirent_search_exact [OF demo_dir_ok(1) _ demo_dir_ok(4), of "[98]" 7] by (auto simp: demo_dir_ok(2) u demo_dir_slots demo_dir_slots(3) [simplified])
  ultimately show ?thesis by blast
qed

section \<open>Listing\<close>

lemma dirsub_loop_spec:
  fixes s :: "'z sfs_fs_scheme"
  assumes "dir_ok s p R" and "unat i + n \<le> nb s p" and "js = filter (\<lambda>j. slot_ino s p j \<noteq> 0) [unat i..<unat i + n]"
  shows "\<exists>e' s'. quiet s s' \<and> dirsub_loop p n i slot e s = Some (if unat slot < length js then 0 else - errno_of E_NOENT, e', s') \<and>
    (unat slot < length js \<longrightarrow> cname (de_name e') = slot_name s p (js ! unat slot))"
  using assms
proof (induction n arbitrary: i slot e s js)
  case 0
  then show ?case by (auto intro: exI [of _ s])
next
  case (Suc n)
  have lim: "nb s p \<le> 1036" using Suc.prems(1) fmapD(1) by (auto simp: dir_ok_def finv_def nb_def)
  have i1: "unat (i + 1) = unat i + 1" using Suc.prems(2) lim by (intro unat_Suc_slot [of _ n]) simp
  have up: "[unat i..<unat i + Suc n] = unat i # [unat (i + 1)..<unat (i + 1) + n]" unfolding i1 by (simp add: upt_rec)
  let ?js = "filter (\<lambda>j. slot_ino s p j \<noteq> 0) [unat (i + 1)..<unat (i + 1) + n]"
  obtain e1 s1 where e: "sfs_dirent_read_nolock p i s = Some (0, e1, s1)" "quiet s s1" "de_ino e1 = slot_ino s p (unat i)"
    "cname (de_name e1) = slot_name s p (unat i)"
    using dirent_read_spec [OF Suc.prems(1), of i] Suc.prems(2) by auto
  note q = quiet_slots [OF e(2)]
  have "dir_ok s1 p R" "unat (i + 1) + n \<le> nb s1 p" using Suc.prems q(1,2) i1 by simp_all
  note IH = Suc.IH [OF this, unfolded q(3,4), OF refl]
  show ?case
  proof (cases "slot_ino s p (unat i) \<noteq> 0")
    case True
    then have js: "js = unat i # ?js" using Suc.prems(3) unfolding up by simp
    show ?thesis
    proof (cases "slot = 0")
      case True
      then have "dirsub_loop p (Suc n) i slot e s = Some (0, e1, s1)" using e \<open>slot_ino s p (unat i) \<noteq> 0\<close> by simp
      with True e js show ?thesis by (intro exI [of _ e1] exI [of _ s1]) simp
    next
      case False
      then have "unat slot \<noteq> 0" by (simp add: unat_eq_0)
      then have u: "unat slot = Suc (unat (slot - 1))" using unat_minus_one [OF False] by simp
      have "dirsub_loop p (Suc n) i slot e s = dirsub_loop p n (i + 1) (slot - 1) e1 s1" using e False \<open>slot_ino s p (unat i) \<noteq> 0\<close> by simp
      with IH [of "slot - 1" e1] quiet_trans [OF e(2)] show ?thesis unfolding js u by auto
    qed
  next
    case False
    then have "js = ?js" using Suc.prems(3) unfolding up by simp
    moreover have "dirsub_loop p (Suc n) i slot e s = dirsub_loop p n (i + 1) slot e1 s1" using e False by simp
    ultimately show ?thesis using IH [of slot e1] quiet_trans [OF e(2)] by auto
  qed
qed

lemma slots_node:
  "dir_ok (upd_node p (\<lambda>x. x\<lparr>sin_sem := v x\<rparr>) s) p R = dir_ok s p R" "nb (upd_node p (\<lambda>x. x\<lparr>sin_sem := v x\<rparr>) s) p = nb s p"
  "slot_ino (upd_node p (\<lambda>x. x\<lparr>sin_sem := v x\<rparr>) s) p = slot_ino s p" "slot_name (upd_node p (\<lambda>x. x\<lparr>sin_sem := v x\<rparr>) s) p = slot_name s p"
  by (simp_all add: dir_ok_def finv_def nb_def slot_ino_def slot_name_def slot_at_def fun_eq_iff)

lemma cname_at: "cname (\<lambda>a. obj_copy base 0 256 d m (base + a)) = cname d"
  unfolding cname_def by (rule arg_cong [of _ _ "takeWhile _"], rule map_cong) (auto simp: obj_copy_def)

text \<open>
  C12: \<^verbatim>\<open>sfs_getdirentry\<close> with the offset of entry \<open>k\<close> returns the name of the \<open>k\<close>th slot in use of a
  directory and moves the offset to the next entry, so repeated calls list every name once and in
  order; after the last one it returns \<^verbatim>\<open>-E_NOENT\<close>. The lock is free again and nothing on the disk
  and no inode has changed.\<close>

theorem sfs_getdirentry_lists:
  fixes s :: "'z sfs_fs_scheme"
  assumes d: "dir_ok s p R" and sem: "sin_sem (nodes s p) = 1" and k: "fs_kmalloc s (fs_kmalloc_pos s) = Some at"
    and iob: "io_resid iob = 256" "unat (io_offset iob) = 256 * n" "n \<le> nb s p"
  shows "\<exists>ret iob' m' s'. sfs_getdirentry p iob m s = Some (ret, iob', m', s') \<and>
    (if n < length (used_slots s p)
     then ret = 0 \<and> unat (io_offset iob') = 256 * (n + 1) \<and> cname (\<lambda>a. m' (io_base iob + a)) = slot_name s p (used_slots s p ! n)
     else ret = - errno_of E_NOENT \<and> iob' = iob \<and> m' = m) \<and>
    rd s' = rd s \<and> nodes s' = nodes s \<and> fs_free_blocks s' = fs_free_blocks s \<and> fs_kfreed s' = at # fs_kfreed s"
proof -
  let ?s1 = "s\<lparr>fs_kmalloc_pos := fs_kmalloc_pos s + 1\<rparr>"
  let ?s2 = "upd_node p (\<lambda>x. x\<lparr>sin_sem := 0\<rparr>) ?s1" and ?k = "io_offset iob div 256"
  let ?z = "\<lparr>de_ino = 0, de_name = (\<lambda>_. 0)\<rparr>"
  have lim: "nb s p \<le> 1036" using d fmapD(1) by (auto simp: dir_ok_def finv_def nb_def)
  have d2: "dir_ok ?s2 p R" using d by (simp add: slots_kmalloc slots_node)
  have n2: "nslots p ?s2 = nb s p" using nslots_nb [OF d2] by (simp add: slots_kmalloc slots_node)
  have uk: "unat ?k = n" using iob(2) by (simp add: unat_div)
  have o: "\<not> sint (io_offset iob) < 0" "io_offset iob mod 256 = 0"
    using sint_small [of "io_offset iob"] iob lim by (simp_all add: word_unat_eq_iff unat_mod)
  have nk: "\<not> ?k > din_blocks (din (nodes ?s1 p))" using uk iob(3) by (simp add: word_less_nat_alt nb_def)
  have lock: "lock_sin p ?s1 = Some ?s2" using sem by (simp add: lock_sin_def sem_take_def)
  have le: "unat (0 :: u32) + nb s p \<le> nb ?s2 p" by (simp add: slots_kmalloc slots_node)
  obtain e s3 where q: "quiet ?s2 s3" and sub: "sfs_getdirentry_sub_nolock p ?k ?z ?s2 =
      Some (if n < length (used_slots s p) then 0 else - errno_of E_NOENT, e, s3)"
    "n < length (used_slots s p) \<longrightarrow> cname (de_name e) = slot_name s p (used_slots s p ! n)"
    using dirsub_loop_spec [OF d2 le refl, of ?k ?z] n2 uk
    unfolding slots_kmalloc slots_node sfs_getdirentry_sub_nolock_def used_slots_def by auto
  let ?s' = "fs_free at (unlock_sin p s3)"
  have nd: "nodes ?s' = nodes s" "rd ?s' = rd s" "fs_free_blocks ?s' = fs_free_blocks s" "fs_kfreed ?s' = at # fs_kfreed s"
  proof -
    have "nodes s3 = nodes ?s2" by (rule quiet_slots(5) [OF q])
    moreover have "(nodes s p)\<lparr>sin_sem := 1\<rparr> = nodes s p" using sem by (cases "nodes s p") simp
    ultimately show "nodes ?s' = nodes s" by (simp add: unlock_sin_def fs_free_def fs_free_blocks_def)
    show "rd ?s' = rd s" "fs_free_blocks ?s' = fs_free_blocks s" "fs_kfreed ?s' = at # fs_kfreed s"
      using q by (auto simp: quiet_def io_only_def keeps_def fs_free_def fs_free_blocks_def unlock_sin_def upd_node_def)
  qed
  show ?thesis
  proof (cases "n < length (used_slots s p)")
    case True
    have mv: "iobuf_move 256 True iob m (de_name e) = Some (0, 256, iob_after 256 iob, obj_copy (io_base iob) 0 256 (de_name e) m, de_name e)"
      using iobuf_move_block(2) [of 256 256 iob m "de_name e"] iob(1) by simp
    have "sfs_getdirentry p iob m s = Some (0, iob_after 256 iob, obj_copy (io_base iob) 0 256 (de_name e) m, ?s')"
      unfolding sfs_getdirentry_def fs_alloc_def k using o nk lock sub True mv by simp
    moreover have "unat (io_offset (iob_after 256 iob)) = 256 * (n + 1)" using iob lim by (simp add: iob_after_def unat_add_u32)
    ultimately show ?thesis using True nd sub(2) cname_at by auto
  next
    case False
    then have "sfs_getdirentry p iob m s = Some (- errno_of E_NOENT, iob, m, ?s')"
      unfolding sfs_getdirentry_def fs_alloc_def k using o nk lock sub(1) by simp
    then show ?thesis using False nd by auto
  qed
qed

theorem sfs_getdirentry_lists_witness:
  "\<exists>iob' m' s'. sfs_getdirentry 7 (iobuf_init 100 256 0) (\<lambda>_. 0) demo_dir = Some (0, iob', m', s') \<and>
     unat (io_offset iob') = 256 \<and> cname (\<lambda>a. m' (100 + a)) = [97]"
  using sfs_getdirentry_lists [OF demo_dir_ok(1,3,4), of "iobuf_init 100 256 0" 0 7 "\<lambda>_. 0"]
  by (auto simp: iobuf_init_def demo_dir_slots demo_dir_ok(2))

end
