(* ===== verification/SfsCache.thy ===== *)
theory SfsCache
  imports SfsNames
begin

text \<open>
  The inodes in memory. \<open>cache s L\<close>: the nodes \<open>L\<close> are on the list of all inodes and, by the hash of
  their number, on the hash lists, and no two have the same number. \<^verbatim>\<open>sfs_load_inode\<close> keeps it, and
  what the last release of a node writes back is what the next load reads.
\<close>

section \<open>The disk inode as bytes\<close>

lemma load32_store32_other: "a + 4 \<le> b \<or> b + 4 \<le> a \<Longrightarrow> load32 (store32 a w m) b = load32 m b"
  by (rule load32_cong) (auto simp: store32_def)

lemma load32_direct:
  "load32 (fold (\<lambda>i. store32 (12 + 4 * i) (f i)) [0..<n] m) (12 + 4 * j) = (if j < n then f j else load32 m (12 + 4 * j))"
  by (induction n) (auto simp: load32_store32_other less_Suc_eq)

lemma load32_direct_other:
  "a + 4 \<le> 12 \<or> 12 + 4 * n \<le> a \<Longrightarrow> load32 (fold (\<lambda>i. store32 (12 + 4 * i) (f i)) [0..<n] m) a = load32 m a"
  by (induction n) (auto simp: load32_store32_other)

definition din_wf :: "sfs_disk_inode \<Rightarrow> bool" where
  "din_wf x \<longleftrightarrow> unat (din_type x) < 2 ^ 16 \<and> unat (din_nlinks x) < 2 ^ 16 \<and> (\<forall>i \<ge> 12. direct x i = 0)"

lemma halves:
  fixes t n :: u32
  assumes "unat t < 2 ^ 16" and "unat n < 2 ^ 16"
  shows "(t AND 0xFFFF OR push_bit 16 n) AND 0xFFFF = t" "drop_bit 16 (t AND 0xFFFF OR push_bit 16 n) = n"
proof -
  have hi: "\<not> bit w k" if "unat w < 2 ^ 16" "16 \<le> k" for w :: u32 and k
  proof -
    have "unat w < 2 ^ k" using that by (meson less_le_trans one_le_numeral power_increasing)
    then have "unat (drop_bit k w) = 0" unfolding unat_drop_bit_eq by (simp add: drop_bit_eq_div)
    then have "drop_bit k w = 0" by (simp add: unat_eq_0)
    then have "\<not> bit (drop_bit k w) 0" by simp
    then show ?thesis by (simp add: bit_drop_bit_eq)
  qed
  have lo: "k < 16" if "unat w < 2 ^ 16" "bit w k" for w :: u32 and k using hi [OF that(1), of k] that(2) by linarith
  have m: "(0xFFFF :: u32) = mask 16" by (simp add: mask_eq_exp_minus_1)
  show "(t AND 0xFFFF OR push_bit 16 n) AND 0xFFFF = t"
    unfolding m by (intro bit_eqI) (auto simp: bit_simps dest: lo [OF assms(1)])
  show "drop_bit 16 (t AND 0xFFFF OR push_bit 16 n) = n"
    unfolding m by (intro bit_eqI) (auto simp: bit_simps dest: lo [OF assms(2)])
qed

lemma load_din_object: "din_wf x \<Longrightarrow> load_din (din_object x) = x"
proof -
  assume wf: "din_wf x"
  let ?F = "fold (\<lambda>i. store32 (12 + 4 * i) (direct x i)) [0..<12] (store32 60 (indirect x) (\<lambda>_. 0))"
  have ld: "load32 (din_object x) 0 = din_size x" "load32 (din_object x) 8 = din_blocks x" "load32 (din_object x) 60 = indirect x"
    "load32 (din_object x) 4 = din_type x AND 0xFFFF OR push_bit 16 (din_nlinks x)"
    unfolding din_object_def by (simp_all add: load32_store32_other load32_direct_other del: upt_Suc fold_simps)
  have "load32 (din_object x) (12 + 4 * i) = direct x i" if "i < 12" for i
    unfolding din_object_def using that load32_direct [of "direct x" 12 _ i] by (simp add: load32_store32_other del: upt_Suc fold_simps)
  then have "(\<lambda>i. if i < 12 then load32 (din_object x) (12 + 4 * i) else 0) = direct x" using wf by (auto simp: din_wf_def fun_eq_iff)
  then show ?thesis using wf halves [of "din_type x" "din_nlinks x"] unfolding load_din_def ld din_wf_def by simp
qed

lemma load_din_cong: "(\<And>a. a < 64 \<Longrightarrow> m a = m' a) \<Longrightarrow> load_din m = load_din m'"
proof -
  assume e: "\<And>a. a < 64 \<Longrightarrow> m a = m' a"
  have "load32 m a = load32 m' a" if "a + 4 \<le> 64" for a by (rule load32_cong) (use e that in simp)
  then show ?thesis by (simp add: load_din_def fun_eq_iff)
qed

section \<open>The table of inodes\<close>

definition bucket :: "'z sfs_fs_scheme \<Rightarrow> nat list \<Rightarrow> nat \<Rightarrow> nat list" where
  "bucket s L b = filter (\<lambda>p. unat (hash32 (sin_ino (nodes s p)) 10) = b) L"

definition cache :: "'z sfs_fs_scheme \<Rightarrow> nat list \<Rightarrow> bool" where
  "cache s L \<longleftrightarrow> ring (node_links s) InodeList (map InodeLink L) \<and>
     (\<forall>b < 1024. ring (node_links s) (HashList b) (map HashLink (bucket s L b))) \<and>
     distinct L \<and> distinct (map (\<lambda>p. sin_ino (nodes s p)) L)"

lemma cache_cong:
  assumes "node_links s' = node_links s" and "\<And>p. p \<in> set L \<Longrightarrow> sin_ino (nodes s' p) = sin_ino (nodes s p)"
  shows "cache s' L = cache s L"
proof -
  have "bucket s' L = bucket s L" unfolding bucket_def using assms(2) by (intro ext filter_cong) auto
  moreover have "map (\<lambda>p. sin_ino (nodes s' p)) L = map (\<lambda>p. sin_ino (nodes s p)) L" using assms(2) by simp
  ultimately show ?thesis by (simp only: cache_def assms(1))
qed

lemma lookup_loop_suffix:
  "ring h (HashList b) (map HashLink (us @ vs)) \<Longrightarrow>
   lookup_loop h num n (HashList b) (last (HashList b # map HashLink us)) = Some (find (\<lambda>p. num p = n) vs)"
proof (induction vs arbitrary: us)
  case Nil
  then show ?case
    using ring_next [of h "HashList b" "map HashLink us" "[]"] by (subst lookup_loop.simps) (simp del: last.simps)
next
  case (Cons v vs)
  have nx: "list_next h (last (HashList b # map HashLink us)) = HashLink v"
    using ring_next [of h "HashList b" "map HashLink us" "HashLink v # map HashLink vs"] Cons.prems by (simp del: last.simps)
  have "lookup_loop h num n (HashList b) (last (HashList b # map HashLink (us @ [v]))) = Some (find (\<lambda>p. num p = n) vs)"
    using Cons.prems by (intro Cons.IH) simp
  then have "lookup_loop h num n (HashList b) (HashLink v) = Some (find (\<lambda>p. num p = n) vs)" by simp
  with nx show ?case by (subst lookup_loop.simps) simp
qed

lemma find_bucket:
  "find (\<lambda>p. sin_ino (nodes s p) = n) (bucket s L (unat (hash32 n 10))) = find (\<lambda>p. sin_ino (nodes s p) = n) L"
  by (induction L) (auto simp: bucket_def)

lemma lookup_cache:
  assumes "cache s L"
  shows "lookup_loop (node_links s) (\<lambda>p. sin_ino (nodes s p)) n (sfs_hash_list n) (sfs_hash_list n) =
    Some (find (\<lambda>p. sin_ino (nodes s p) = n) L)"
  using lookup_loop_suffix [of "node_links s" "unat (hash32 n 10)" "[]" "bucket s L (unat (hash32 n 10))"] assms hash32_bound [of 10 n]
  by (simp add: cache_def sfs_hash_list_def find_bucket)

lemma cache_set_links:
  assumes c: "cache s L" and p: "p \<notin> set L" "sin_ino (nodes s p) \<notin> (\<lambda>q. sin_ino (nodes s q)) ` set L"
  shows "cache (sfs_set_links p s) (p # L)"
proof -
  let ?h = "node_links s" and ?b = "unat (hash32 (sin_ino (nodes s p)) 10)"
  let ?h1 = "list_add InodeList (InodeLink p) ?h"
  let ?h2 = "list_add (HashList ?b) (HashLink p) ?h1"
  have r: "ring ?h InodeList (map InodeLink L)" "\<And>b. b < 1024 \<Longrightarrow> ring ?h (HashList b) (map HashLink (bucket s L b))"
    using c by (auto simp: cache_def)
  have b: "?b < 1024" using hash32_bound [of 10 "sin_ino (nodes s p)"] by simp
  have r1: "ring ?h1 InodeList (map InodeLink (p # L))" using ring_push [OF r(1), of "InodeLink p"] p(1) by auto
  have h1: "ring ?h1 (HashList c) (map HashLink (bucket s L c))" if "c < 1024" for c
    by (rule ring_push_other [OF r(1) r(2) [OF that]]) auto
  have "ring ?h2 (HashList ?b) (HashLink p # map HashLink (bucket s L ?b))"
    by (rule ring_push [OF h1 [OF b]]) (use p(1) in \<open>auto simp: bucket_def\<close>)
  moreover have "ring ?h2 InodeList (map InodeLink (p # L))" by (rule ring_push_other [OF h1 [OF b] r1]) auto
  moreover have "ring ?h2 (HashList c) (map HashLink (bucket s L c))" if "c < 1024" "c \<noteq> ?b" for c
    by (rule ring_push_other [OF h1 [OF b] h1 [OF that(1)]]) (use p(1) that(2) in \<open>auto simp: bucket_def\<close>)
  moreover have "bucket s (p # L) c = (if c = ?b then p # bucket s L c else bucket s L c)" for c by (auto simp: bucket_def)
  ultimately have "ring ?h2 InodeList (map InodeLink (p # L)) \<and> (\<forall>c < 1024. ring ?h2 (HashList c) (map HashLink (bucket s (p # L) c)))"
    by auto
  moreover have "node_links (sfs_set_links p s) = ?h2" "nodes (sfs_set_links p s) = nodes s" by (simp_all add: sfs_set_links_def sfs_hash_list_def)
  moreover have "distinct (p # L)" "distinct (map (\<lambda>q. sin_ino (nodes s q)) (p # L))" using c p by (auto simp: cache_def)
  ultimately show ?thesis by (auto simp only: cache_def bucket_def)
qed

lemma cache_remove_links:
  assumes c: "cache s (us @ p # vs)"
  shows "cache (sfs_remove_links p s) (us @ vs)"
proof -
  let ?h = "node_links s" and ?b = "unat (hash32 (sin_ino (nodes s p)) 10)" and ?L = "us @ p # vs"
  let ?h1 = "list_del (InodeLink p) ?h"
  let ?h2 = "list_del (HashLink p) ?h1"
  have r: "ring ?h InodeList (map InodeLink us @ InodeLink p # map InodeLink vs)" and d: "distinct ?L"
    and rb: "\<And>b. b < 1024 \<Longrightarrow> ring ?h (HashList b) (map HashLink (bucket s ?L b))"
    using c by (auto simp: cache_def)
  have b: "?b < 1024" using hash32_bound [of 10 "sin_ino (nodes s p)"] by simp
  have bs: "bucket s ?L ?b = bucket s us ?b @ p # bucket s vs ?b" by (simp add: bucket_def)
  have r1: "ring ?h1 InodeList (map InodeLink (us @ vs))" using ring_del [OF r] by simp
  have h1: "ring ?h1 (HashList c) (map HashLink (bucket s ?L c))" if "c < 1024" for c
    by (rule ring_del_other [OF r rb [OF that]]) auto
  have hb: "ring ?h1 (HashList ?b) (map HashLink (bucket s us ?b) @ HashLink p # map HashLink (bucket s vs ?b))"
    using h1 [OF b] unfolding bs by simp
  have "ring ?h2 (HashList ?b) (map HashLink (bucket s (us @ vs) ?b))" using ring_del [OF hb] by (simp add: bucket_def)
  moreover have "ring ?h2 InodeList (map InodeLink (us @ vs))" by (rule ring_del_other [OF hb r1]) auto
  moreover have "ring ?h2 (HashList c) (map HashLink (bucket s (us @ vs) c))" if "c < 1024" "c \<noteq> ?b" for c
  proof -
    have "bucket s ?L c = bucket s (us @ vs) c" using that(2) by (auto simp: bucket_def)
    with h1 [OF that(1)] have k: "ring ?h1 (HashList c) (map HashLink (bucket s (us @ vs) c))" by simp
    show ?thesis by (rule ring_del_other [OF hb k]) (use d that(2) in \<open>auto simp: bucket_def\<close>)
  qed
  ultimately have "ring ?h2 InodeList (map InodeLink (us @ vs)) \<and> (\<forall>c < 1024. ring ?h2 (HashList c) (map HashLink (bucket s (us @ vs) c)))"
    by metis
  moreover have "node_links (sfs_remove_links p s) = ?h2" "nodes (sfs_remove_links p s) = nodes s" by (simp_all add: sfs_remove_links_def)
  moreover have "distinct (us @ vs)" "distinct (map (\<lambda>q. sin_ino (nodes s q)) (us @ vs))" using c by (auto simp: cache_def)
  ultimately show ?thesis by (auto simp only: cache_def bucket_def)
qed

section \<open>Loading an inode\<close>

definition disk_din :: "'z sfs_fs_scheme \<Rightarrow> u32 \<Rightarrow> sfs_disk_inode" where
  "disk_din s n = load_din (\<lambda>a. rd s (unat n * 4096 + a))"

text \<open>Block \<open>n\<close> is in use and holds an inode.\<close>

definition inode_block :: "'z sfs_fs_scheme \<Rightarrow> u32 \<Rightarrow> bool" where
  "inode_block s n \<longleftrightarrow> n \<noteq> 0 \<and> n < super_blocks s \<and> unat n \<notin> fs_free_blocks s \<and> din_nlinks (disk_din s n) \<noteq> 0 \<and>
     (din_type (disk_din s n) = SFS_TYPE_DIR \<or> din_type (disk_din s n) = SFS_TYPE_FILE)"

lemma load_hit:
  assumes c: "cache s L" and sem: "sfs_fs_sem s = 1" and f: "find (\<lambda>p. sin_ino (nodes s p) = n) L = Some p"
  shows "\<exists>s'. sfs_load_inode n s = Some (0, p, s') \<and>
    s' = s\<lparr>nodes := (nodes s)(p := (nodes s p)\<lparr>ref_count := ref_count (nodes s p) + 1,
      reclaim_count := reclaim_count (nodes s p) + (if ref_count (nodes s p) = 0 then 1 else 0)\<rparr>)\<rparr>"
proof -
  let ?s0 = "s\<lparr>sfs_fs_sem := 0\<rparr>"
  have c0: "cache ?s0 L" using c by (subst cache_cong [of _ s]) simp_all
  have lk: "lookup_loop (node_links s) (\<lambda>p. sin_ino (nodes s p)) n (sfs_hash_list n) (sfs_hash_list n) = Some (Some p)"
    using lookup_cache [OF c, of n] f by simp
  have "sfs_load_inode n s = Some (0, p, unlock_sfs_fs (upd_node p (\<lambda>x. x\<lparr>ref_count := ref_count x + 1,
      reclaim_count := reclaim_count x + (if ref_count x = 0 then 1 else 0)\<rparr>) ?s0))"
    using sem lk
    by (simp add: sfs_load_inode_def lock_sfs_fs_def sem_take_def lookup_sfs_nolock_def inode_ref_inc_def upd_node_def)
  then show ?thesis using sem by (simp add: unlock_sfs_fs_def upd_node_def)
qed

text \<open>Not in the table: the block is read.\<close>

lemma load_read:
  assumes c: "cache s L" and sem: "sfs_fs_sem s = 1" and ok: "sfs_ok s" and f: "find (\<lambda>p. sin_ino (nodes s p) = n) L = None"
    and b: "inode_block s n" and at: "fs_kmalloc s (fs_kmalloc_pos s) = Some at"
  shows "\<exists>s2. sfs_load_inode n s = do {
      (ret', p, s4) \<leftarrow> sfs_create_inode (disk_din s n) at n s2;
      if ret' \<noteq> 0 then Some (ret', 0, unlock_sfs_fs (fs_free at s4)) else Some (0, p, unlock_sfs_fs (sfs_set_links p s4)) } \<and>
    nodes s2 = nodes s \<and> node_links s2 = node_links s \<and> fs_kmalloc s2 = fs_kmalloc s \<and> fs_kmalloc_pos s2 = fs_kmalloc_pos s + 1 \<and>
    sfs_fs_sem s2 = 0 \<and> sfs_ok s2 \<and> rd s2 = rd s"
proof -
  let ?s1 = "s\<lparr>sfs_fs_sem := 0, fs_kmalloc_pos := fs_kmalloc_pos s + 1\<rparr>"
  have lk: "lookup_loop (node_links s) (\<lambda>p. sin_ino (nodes s p)) n (sfs_hash_list n) (sfs_hash_list n) = Some None"
    using lookup_cache [OF c, of n] f by simp
  have ok1: "sfs_ok ?s1" using ok by (simp add: sfs_ok_def disk_ok_def fs_free_blocks_def)
  have bl: "n \<noteq> 0" "n < super_blocks ?s1" "unat n \<notin> fs_free_blocks ?s1" using b by (simp_all add: inode_block_def fs_free_blocks_def)
  have use: "sfs_block_inuse n ?s1 = Some True" using sfs_inuse_spec [OF ok1 bl(1,2)] bl(3) by simp
  obtain s2 where s2: "sfs_rbuf 0 64 n 0 (\<lambda>_. 0) ?s1 = Some (0, obj_copy 0 (unat n * 4096) 64 (rd s) (\<lambda>_. 0), s2)" "io_only ?s1 s2" "rd s2 = rd s"
    using sfs_rbuf_spec [OF ok1 bl(1,2), of 0 64 0 "\<lambda>_. 0"] by auto
  have ld: "load_din (obj_copy 0 (unat n * 4096) 64 (rd s) (\<lambda>_. 0)) = disk_din s n"
    unfolding disk_din_def by (rule load_din_cong) (simp add: obj_copy_def)
  have "nodes s2 = nodes s" "node_links s2 = node_links s" "fs_kmalloc s2 = fs_kmalloc s" "fs_kmalloc_pos s2 = fs_kmalloc_pos s + 1"
    "sfs_fs_sem s2 = 0" "sfs_ok s2"
    using s2(2) keepsD [of ?s1 s2] io_only_ok [OF s2(2)] ok1 by (auto simp: io_only_def)
  moreover have "sfs_load_inode n s = do {
      (ret', p, s4) \<leftarrow> sfs_create_inode (disk_din s n) at n s2;
      if ret' \<noteq> 0 then Some (ret', 0, unlock_sfs_fs (fs_free at s4)) else Some (0, p, unlock_sfs_fs (sfs_set_links p s4)) }"
    using sem lk at use s2(1) ld b
    by (simp add: sfs_load_inode_def lock_sfs_fs_def sem_take_def lookup_sfs_nolock_def fs_alloc_def inode_block_def)
  ultimately show ?thesis using s2(3) by blast
qed

text \<open>A new node is created and linked.\<close>

lemma create_linked:
  assumes c: "cache s L" and f: "find (\<lambda>p. sin_ino (nodes s p) = n) L = None" and b: "inode_block s n" and ql: "q \<notin> set L"
    and s2: "nodes s2 = nodes s" "node_links s2 = node_links s" "fs_kmalloc s2 (fs_kmalloc_pos s2) = Some q" "sfs_fs_sem s2 = 0" "sfs_ok s2" "rd s2 = rd s"
  shows "\<exists>s4 s'. sfs_create_inode (disk_din s n) at n s2 = Some (0, q, s4) \<and> s' = unlock_sfs_fs (sfs_set_links q s4) \<and>
    sfs_ok s' \<and> sfs_fs_sem s' = 1 \<and> rd s' = rd s \<and> (\<forall>r. r \<noteq> q \<longrightarrow> nodes s' r = nodes s r) \<and> cache s' (q # L) \<and>
    sin_ino (nodes s' q) = n \<and> ref_count (nodes s' q) = 1 \<and> din (nodes s' q) = disk_din s n"
proof -
  obtain ops where ops: "sfs_get_ops (din_type (disk_din s n)) = Some ops" using b by (auto simp: sfs_get_ops_def inode_block_def)
  define s3 where "s3 = s2\<lparr>fs_kmalloc_pos := fs_kmalloc_pos s2 + 1\<rparr>"
  define s4 where "s4 = upd_node q (\<lambda>y. y\<lparr>din := disk_din s n, din_at := at, sin_ino := n, sin_dirty := False, reclaim_count := 1, sin_sem := 1\<rparr>)
      (inode_init q ops s3)"
  have al: "fs_alloc s2 = (Some q, s3)" using s2(3) by (simp add: fs_alloc_def s3_def)
  have cr: "sfs_create_inode (disk_din s n) at n s2 = Some (0, q, s4)" by (simp add: sfs_create_inode_def al ops s4_def)
  let ?s' = "unlock_sfs_fs (sfs_set_links q s4)"
  have n4: "\<And>r. r \<noteq> q \<Longrightarrow> nodes s4 r = nodes s r" "node_links s4 = node_links s" "sin_ino (nodes s4 q) = n" "ref_count (nodes s4 q) = 1"
    "din (nodes s4 q) = disk_din s n" "rd s4 = rd s" "sfs_fs_sem s4 = 0"
    using s2 by (simp_all add: s4_def s3_def inode_init_def inode_ref_inc_def upd_node_def)
  have ne: "r \<noteq> q" if "r \<in> set L" for r using that ql by blast
  have "cache s4 L" using c n4(2) by (subst cache_cong [of _ s]) (simp_all add: n4(1) ne)
  moreover have "n \<notin> (\<lambda>r. sin_ino (nodes s4 r)) ` set L" using f unfolding find_None_iff by (auto simp: n4(1) ne)
  ultimately have "cache (sfs_set_links q s4) (q # L)" using ql n4(3) by (intro cache_set_links) auto
  then have "cache ?s' (q # L)" by (subst cache_cong [of _ "sfs_set_links q s4"]) (simp_all add: unlock_sfs_fs_def)
  moreover have "sfs_ok ?s'"
    using s2(5) by (simp add: sfs_ok_def disk_ok_def fs_free_blocks_def unlock_sfs_fs_def sfs_set_links_def s4_def s3_def
        inode_init_def inode_ref_inc_def upd_node_def)
  moreover have "nodes ?s' = nodes s4" "rd ?s' = rd s" "sfs_fs_sem ?s' = 1" using n4 by (simp_all add: unlock_sfs_fs_def sfs_set_links_def)
  ultimately show ?thesis using cr n4(1,3-5) by (intro exI [of _ s4] exI [of _ ?s']) simp
qed

lemma load_miss:
  assumes c: "cache s L" and sem: "sfs_fs_sem s = 1" and ok: "sfs_ok s" and f: "find (\<lambda>p. sin_ino (nodes s p) = n) L = None"
    and b: "inode_block s n" and fresh: "\<And>k q. fs_kmalloc s k = Some q \<Longrightarrow> q \<notin> set L"
  shows "\<exists>ret q s'. sfs_load_inode n s = Some (ret, q, s') \<and> sfs_ok s' \<and> sfs_fs_sem s' = 1 \<and> rd s' = rd s \<and>
    (\<forall>r. r \<noteq> q \<or> ret \<noteq> 0 \<longrightarrow> nodes s' r = nodes s r) \<and>
    (ret = - errno_of E_NO_MEM \<and> (fs_kmalloc s (fs_kmalloc_pos s) = None \<or> fs_kmalloc s (fs_kmalloc_pos s + 1) = None) \<and> cache s' L \<or>
     ret = 0 \<and> q \<notin> set L \<and> cache s' (q # L) \<and> sin_ino (nodes s' q) = n \<and> ref_count (nodes s' q) = 1 \<and>
       din (nodes s' q) = disk_din s n)"
proof (cases "fs_kmalloc s (fs_kmalloc_pos s)")
  case None
  let ?s' = "s\<lparr>fs_kmalloc_pos := fs_kmalloc_pos s + 1\<rparr>"
  have "lookup_loop (node_links s) (\<lambda>p. sin_ino (nodes s p)) n (sfs_hash_list n) (sfs_hash_list n) = Some None"
    using lookup_cache [OF c, of n] f by simp
  then have "sfs_load_inode n s = Some (- errno_of E_NO_MEM, 0, ?s')"
    using sem None by (simp add: sfs_load_inode_def lock_sfs_fs_def sem_take_def lookup_sfs_nolock_def fs_alloc_def unlock_sfs_fs_def)
  moreover have "cache ?s' L" using c by (subst cache_cong [of _ s]) simp_all
  moreover have "sfs_ok ?s'" using ok by (simp add: sfs_ok_def disk_ok_def fs_free_blocks_def)
  ultimately show ?thesis using None sem by auto
next
  case (Some at)
  then obtain s2 where io: "sfs_load_inode n s = do {
      (ret', p, s4) \<leftarrow> sfs_create_inode (disk_din s n) at n s2;
      if ret' \<noteq> 0 then Some (ret', 0, unlock_sfs_fs (fs_free at s4)) else Some (0, p, unlock_sfs_fs (sfs_set_links p s4)) }"
    and k2: "nodes s2 = nodes s" "node_links s2 = node_links s" "fs_kmalloc s2 = fs_kmalloc s" "fs_kmalloc_pos s2 = fs_kmalloc_pos s + 1"
      "sfs_fs_sem s2 = 0" "sfs_ok s2" "rd s2 = rd s"
    using load_read [OF c sem ok f b] by blast
  show ?thesis
  proof (cases "fs_kmalloc s (fs_kmalloc_pos s + 1)")
    case None
    let ?s' = "unlock_sfs_fs (fs_free at (s2\<lparr>fs_kmalloc_pos := fs_kmalloc_pos s + 2\<rparr>))"
    have "sfs_load_inode n s = Some (- errno_of E_NO_MEM, 0, ?s')" unfolding io using None k2 by (simp add: sfs_create_inode_def fs_alloc_def)
    moreover have "cache ?s' L" using c k2 by (subst cache_cong [of _ s]) (simp_all add: unlock_sfs_fs_def fs_free_def)
    moreover have "sfs_ok ?s'" using k2(6) by (simp add: sfs_ok_def disk_ok_def fs_free_blocks_def unlock_sfs_fs_def fs_free_def)
    ultimately show ?thesis using None k2 by (auto simp: unlock_sfs_fs_def fs_free_def)
  next
    case q: (Some q)
    have ql: "q \<notin> set L" by (rule fresh [OF q])
    obtain s4 s' where r: "sfs_create_inode (disk_din s n) at n s2 = Some (0, q, s4)" "s' = unlock_sfs_fs (sfs_set_links q s4)"
      "sfs_ok s'" "sfs_fs_sem s' = 1" "rd s' = rd s" "\<forall>r. r \<noteq> q \<longrightarrow> nodes s' r = nodes s r" "cache s' (q # L)"
      "sin_ino (nodes s' q) = n" "ref_count (nodes s' q) = 1" "din (nodes s' q) = disk_din s n"
      using create_linked [OF c f b ql k2(1,2), of at] q k2(3-7) by auto
    have "sfs_load_inode n s = Some (0, q, s')" unfolding io using r(1,2) by simp
    then show ?thesis using ql r(3-10) by (intro exI [of _ 0] exI [of _ q] exI [of _ s']) simp
  qed
qed

section \<open>Writing an inode back\<close>

lemma fsync_spec:
  fixes s :: "'z sfs_fs_scheme"
  assumes ok: "sfs_ok s" and sem: "sin_sem (nodes s p) = 1" and n: "sin_ino (nodes s p) \<noteq> 0" "sin_ino (nodes s p) < super_blocks s"
  shows "\<exists>s'. sfs_fsync p s = Some (0, s') \<and> keeps s s' \<and> sfs_ok s' \<and> fs_free_blocks s' = fs_free_blocks s \<and> fs_kfreed s' = fs_kfreed s \<and>
    freemap s' = freemap s \<and> unused_blocks s' = unused_blocks s \<and> super_dirty s' = super_dirty s \<and>
    nodes s' = (nodes s)(p := (nodes s p)\<lparr>sin_dirty := False\<rparr>) \<and>
    rd s' = (if sin_dirty (nodes s p) then obj_copy (unat (sin_ino (nodes s p)) * 4096) 0 64 (din_object (din (nodes s p))) (rd s) else rd s)"
proof (cases "sin_dirty (nodes s p)")
  case False
  then have "(nodes s p)\<lparr>sin_dirty := False\<rparr> = nodes s p" by (cases "nodes s p") simp
  then have "nodes s = (nodes s)(p := (nodes s p)\<lparr>sin_dirty := False\<rparr>)" by (simp only: fun_upd_triv)
  then show ?thesis using False ok by (intro exI [of _ s]) (simp add: sfs_fsync_def)
next
  case True
  let ?n = "sin_ino (nodes s p)" and ?x = "din (nodes s p)"
  let ?s1 = "upd_node p (\<lambda>x. x\<lparr>sin_sem := 0\<rparr>) s"
  let ?s2 = "upd_node p (\<lambda>x. x\<lparr>sin_dirty := False\<rparr>) ?s1"
  have lock: "lock_sin p s = Some ?s1" using sem by (simp add: lock_sin_def sem_take_def)
  obtain s3 where s3: "sfs_wbuf 0 64 ?n 0 (din_object ?x) ?s2 = Some (0, din_object ?x, s3)" "io_only ?s2 s3"
    "rd s3 = obj_copy (unat ?n * 4096) 0 64 (din_object ?x) (rd s)"
    using sfs_wbuf_spec [of ?s2 ?n 0 64 0 "din_object ?x"] ok n by auto
  have r: "sfs_fsync p s = Some (0, unlock_sin p s3)"
    unfolding sfs_fsync_def lock using True s3(1) by simp
  have k: "keeps s s3" using keeps_trans [of s ?s2 s3] s3(2) by (simp add: io_only_def keeps_upd_node)
  have "nodes s3 = nodes ?s2" "freemap s3 = freemap s" using s3(2) by (simp_all add: io_only_def upd_node_def)
  moreover have "(nodes s p)\<lparr>sin_sem := 0, sin_dirty := False\<rparr>\<lparr>sin_sem := 1\<rparr> = (nodes s p)\<lparr>sin_dirty := False\<rparr>" using sem by (cases "nodes s p") simp
  ultimately have "nodes (unlock_sin p s3) = (nodes s)(p := (nodes s p)\<lparr>sin_dirty := False\<rparr>)" "fs_free_blocks (unlock_sin p s3) = fs_free_blocks s"
    by (simp_all add: unlock_sin_def fs_free_blocks_def upd_node_def)
  moreover have "keeps s (unlock_sin p s3)" "sfs_ok (unlock_sin p s3)" "rd (unlock_sin p s3) = rd s3"
    using k ok io_only_ok [OF s3(2)] by (simp_all add: unlock_sin_def keeps_upd_node)
  moreover have "freemap (unlock_sin p s3) = freemap s" "unused_blocks (unlock_sin p s3) = unused_blocks s" "super_dirty (unlock_sin p s3) = super_dirty s"
    using s3(2) by (simp_all add: io_only_def upd_node_def unlock_sin_def)
  moreover have "fs_kfreed (unlock_sin p s3) = fs_kfreed s" using calculation(3) by (auto simp: keeps_def)
  ultimately show ?thesis using r True s3(3) by simp
qed

text \<open>The last reference to an inode that is still linked in a directory.\<close>

lemma release_last:
  fixes s :: "'z sfs_fs_scheme"
  assumes c: "cache s (us @ p # vs)" and ok: "sfs_ok s" and sems: "sfs_fs_sem s = 1" "sin_sem (nodes s p) = 1"
    and cnt: "ref_count (nodes s p) = 1" "open_count (nodes s p) = 0" "reclaim_count (nodes s p) = 1" "din_nlinks (din (nodes s p)) \<noteq> 0"
    and n: "sin_ino (nodes s p) \<noteq> 0" "sin_ino (nodes s p) < super_blocks s"
  shows "\<exists>s'. inode_ref_dec p s = Some (0, s') \<and> cache s' (us @ vs) \<and> sfs_ok s' \<and> sfs_fs_sem s' = 1 \<and> fs_free_blocks s' = fs_free_blocks s \<and>
    super_blocks s' = super_blocks s \<and> fs_kmalloc s' = fs_kmalloc s \<and>
    fs_kfreed s' = p # din_at (nodes s p) # fs_kfreed s \<and> (\<forall>q. q \<noteq> p \<longrightarrow> nodes s' q = nodes s q) \<and>
    rd s' = (if sin_dirty (nodes s p) then obj_copy (unat (sin_ino (nodes s p)) * 4096) 0 64 (din_object (din (nodes s p))) (rd s) else rd s)"
proof -
  let ?s1 = "upd_node p (\<lambda>x. x\<lparr>ref_count := 0\<rparr>) s"
  let ?s2 = "upd_node p (\<lambda>x. x\<lparr>reclaim_count := reclaim_count x - 1\<rparr>) (?s1\<lparr>sfs_fs_sem := 0\<rparr>)"
  have ok2: "sfs_ok ?s2" using ok by (simp add: upd_node_def sfs_ok_def disk_ok_def fs_free_blocks_def)
  have n2: "sin_sem (nodes ?s2 p) = 1" "sin_ino (nodes ?s2 p) = sin_ino (nodes s p)" "super_blocks ?s2 = super_blocks s"
    "din (nodes ?s2 p) = din (nodes s p)" "sin_dirty (nodes ?s2 p) = sin_dirty (nodes s p)" "rd ?s2 = rd s" "fs_kfreed ?s2 = fs_kfreed s"
    "fs_free_blocks ?s2 = fs_free_blocks s" "din_at (nodes ?s2 p) = din_at (nodes s p)"
    using sems(2) by (simp_all add: upd_node_def fs_free_blocks_def)
  obtain s4 where s4: "sfs_fsync p ?s2 = Some (0, s4)" "keeps ?s2 s4" "sfs_ok s4" "fs_free_blocks s4 = fs_free_blocks s" "fs_kfreed s4 = fs_kfreed s"
    "nodes s4 = (nodes ?s2)(p := (nodes ?s2 p)\<lparr>sin_dirty := False\<rparr>)"
    "rd s4 = (if sin_dirty (nodes s p) then obj_copy (unat (sin_ino (nodes s p)) * 4096) 0 64 (din_object (din (nodes s p))) (rd s) else rd s)"
    using fsync_spec [of ?s2 p] ok2 n n2 by auto
  have f0: "\<not> sin_dirty (nodes s p) \<Longrightarrow> sfs_fsync p ?s2 = Some (0, ?s2)" by (simp add: sfs_fsync_def n2)
  have sync: "(if sin_dirty (nodes ?s2 p) then vop_fsync p ?s2 else Some (0, ?s2)) = Some (0, s4)"
    using s4(1) f0 cnt by (auto simp: vop_fsync_def inode_check_def n2(5) kassert_def)
  define s5 where "s5 = unlock_sfs_fs (sfs_remove_links p s4)"
  define s' where "s' = fs_free p (fs_free (din_at (nodes s p)) s5)"
  have p4: "nodes s4 p = (nodes ?s2 p)\<lparr>sin_dirty := False\<rparr>" using s4(6) by simp
  have p5: "nodes s5 = nodes s4" by (simp add: s5_def unlock_sfs_fs_def sfs_remove_links_def)
  have kill: "inode_kill p (fs_free (din_at (nodes s p)) s5) = Some s'"
    using cnt(2) by (simp add: inode_kill_def s'_def fs_free_def p5 p4)
  have "sfs_reclaim p ?s1 = Some (0, s')"
  proof -
    have "lock_sfs_fs ?s1 = Some (?s1\<lparr>sfs_fs_sem := 0\<rparr>)" using sems(1) by (simp add: lock_sfs_fs_def sem_take_def upd_node_def)
    then show ?thesis
      unfolding sfs_reclaim_def Let_def using cnt sync kill p4 p5 n2
      by (simp add: s5_def [symmetric])
  qed
  then have r: "inode_ref_dec p s = Some (0, s')" using cnt by (simp add: inode_ref_dec_def inode_check_def kassert_def)
  have "cache s4 (us @ p # vs)"
    using c s4(6) keepsD(9) [OF s4(2)] by (subst cache_cong [of _ s]) (auto simp: upd_node_def)
  then have "cache (sfs_remove_links p s4) (us @ vs)" by (rule cache_remove_links)
  then have "cache s' (us @ vs)" by (subst cache_cong [of _ "sfs_remove_links p s4"]) (simp_all add: s'_def s5_def unlock_sfs_fs_def fs_free_def)
  moreover have "sfs_ok s'" "fs_free_blocks s' = fs_free_blocks s" "rd s' = rd s4" "fs_kfreed s' = p # din_at (nodes s p) # fs_kfreed s"
    "sfs_fs_sem s' = 1" "super_blocks s' = super_blocks s" "fs_kmalloc s' = fs_kmalloc s" "\<forall>q. q \<noteq> p \<longrightarrow> nodes s' q = nodes s q"
    using s4(3-6) keepsD(2,8,10) [OF s4(2)]
    by (simp_all add: s'_def s5_def unlock_sfs_fs_def sfs_remove_links_def fs_free_def fs_free_blocks_def sfs_ok_def disk_ok_def upd_node_def)
  ultimately show ?thesis using r s4(7) by (intro exI [of _ s']) (simp only: simp_thms)
qed

section \<open>Properties\<close>

text \<open>
  C7: at most one inode is in memory per inode number. \<^verbatim>\<open>sfs_load_inode\<close> of a number that is in the
  table returns that node with one more reference; otherwise it returns a new node with one
  reference, filled from the block on the disk and entered into both lists, or \<^verbatim>\<open>-E_NO_MEM\<close> exactly when
  an allocation fails, with the table as before. In every case the lists stay consistent, the
  disk and the other nodes do not change, and the lock is free again.\<close>

theorem sfs_load_inode_unique:
  fixes s :: "'z sfs_fs_scheme"
  assumes "cache s L" and "sfs_fs_sem s = 1" and "sfs_ok s" and "\<forall>k q. fs_kmalloc s k = Some q \<longrightarrow> q \<notin> set L"
    and "n \<in> (\<lambda>p. sin_ino (nodes s p)) ` set L \<or> inode_block s n"
  shows "\<exists>ret q s'. sfs_load_inode n s = Some (ret, q, s') \<and> sfs_ok s' \<and> sfs_fs_sem s' = 1 \<and> rd s' = rd s \<and>
    (\<forall>r. r \<noteq> q \<or> ret \<noteq> 0 \<longrightarrow> nodes s' r = nodes s r) \<and>
    (if n \<in> (\<lambda>p. sin_ino (nodes s p)) ` set L
     then ret = 0 \<and> q \<in> set L \<and> cache s' L \<and> sin_ino (nodes s q) = n \<and> ref_count (nodes s' q) = ref_count (nodes s q) + 1 \<and>
       din (nodes s' q) = din (nodes s q)
     else ret = - errno_of E_NO_MEM \<and> (fs_kmalloc s (fs_kmalloc_pos s) = None \<or> fs_kmalloc s (fs_kmalloc_pos s + 1) = None) \<and> cache s' L \<or>
       ret = 0 \<and> q \<notin> set L \<and> cache s' (q # L) \<and> sin_ino (nodes s' q) = n \<and> ref_count (nodes s' q) = 1 \<and> din (nodes s' q) = disk_din s n)"
proof (cases "find (\<lambda>p. sin_ino (nodes s p) = n) L")
  case None
  then have "n \<notin> (\<lambda>p. sin_ino (nodes s p)) ` set L" by (auto simp: find_None_iff)
  with load_miss [OF assms(1-3) None] assms(4,5) show ?thesis by simp
next
  case (Some p)
  then have p: "p \<in> set L" "sin_ino (nodes s p) = n" by (auto simp: find_Some_iff)
  obtain s' where s': "sfs_load_inode n s = Some (0, p, s')" "s' = s\<lparr>nodes := (nodes s)(p := (nodes s p)\<lparr>ref_count := ref_count (nodes s p) + 1,
      reclaim_count := reclaim_count (nodes s p) + (if ref_count (nodes s p) = 0 then 1 else 0)\<rparr>)\<rparr>"
    using load_hit [OF assms(1,2) Some] by blast
  have "cache s' L" using assms(1) by (subst cache_cong [of _ s]) (simp_all add: s'(2))
  moreover have "sfs_ok s'" "sfs_fs_sem s' = 1" "rd s' = rd s" "\<forall>r. r \<noteq> p \<longrightarrow> nodes s' r = nodes s r"
    "ref_count (nodes s' p) = ref_count (nodes s p) + 1" "din (nodes s' p) = din (nodes s p)"
    using assms(2,3) by (simp_all add: s'(2) sfs_ok_nodes)
  moreover have "n \<in> (\<lambda>p. sin_ino (nodes s p)) ` set L" using p by blast
  ultimately show ?thesis using s'(1) p by (intro exI [of _ 0] exI [of _ p] exI [of _ s']) simp
qed

section \<open>Instances\<close>

definition demo_disk_inode :: sfs_fs where
  "demo_disk_inode = demo_fs\<lparr>rd := store32 8196 0x10001 (\<lambda>_. 0)\<rparr>"

definition demo_cached :: sfs_fs where
  "demo_cached = sfs_set_links 7 (demo_fs\<lparr>nodes := (\<lambda>_. demo_node\<lparr>open_count := 0, sin_dirty := True\<rparr>)\<rparr>)"

lemma demo_empty_cache: "node_links s = \<lparr>le_prev = (\<lambda>x. x), le_next = (\<lambda>x. x)\<rparr> \<Longrightarrow> cache s []"
  by (simp add: cache_def bucket_def ring_def linked_def)

lemma demo_sfs_ok: "sfs_ok demo_fs"
  using demo_ok(1) [of 7] by (simp add: file_ok_def finv_def)

lemma demo_disk_inode_ok:
  "cache demo_disk_inode []" "sfs_fs_sem demo_disk_inode = 1" "sfs_ok demo_disk_inode" "inode_block demo_disk_inode 2"
  "din_size (disk_din demo_disk_inode 2) = 0" "fs_kmalloc demo_disk_inode k = Some k"
proof -
  show "cache demo_disk_inode []" by (rule demo_empty_cache) (simp add: demo_disk_inode_def demo_fs_def)
  show "sfs_fs_sem demo_disk_inode = 1" "fs_kmalloc demo_disk_inode k = Some k" by (simp_all add: demo_disk_inode_def demo_fs_def)
  show "sfs_ok demo_disk_inode" using demo_sfs_ok by (simp add: demo_disk_inode_def sfs_ok_def disk_ok_def fs_free_blocks_def)
  have "load32 (\<lambda>a. rd demo_disk_inode (8192 + a)) 4 = load32 (store32 8196 0x10001 (\<lambda>_. 0)) 8196"
    by (rule load32_cong) (simp add: demo_disk_inode_def)
  then have w: "load32 (\<lambda>a. rd demo_disk_inode (8192 + a)) 4 = 0x10001" by simp
  have "load32 (\<lambda>a. rd demo_disk_inode (8192 + a)) 0 = load32 (\<lambda>_. 0) 0"
    by (rule load32_cong) (simp add: demo_disk_inode_def store32_def)
  then show "din_size (disk_din demo_disk_inode 2) = 0" by (simp add: disk_din_def load_din_def)
  have "fs_free_blocks demo_disk_inode = {3..<32}" using demo_free by (simp add: demo_disk_inode_def fs_free_blocks_def)
  moreover have "din_nlinks (disk_din demo_disk_inode 2) = 1" "din_type (disk_din demo_disk_inode 2) = 1"
    using w by (simp_all add: disk_din_def load_din_def drop_bit_eq_div)
  ultimately show "inode_block demo_disk_inode 2" by (simp add: inode_block_def) (simp add: demo_disk_inode_def demo_fs_def)
qed

lemma demo_cached_ok:
  "cache demo_cached ([] @ 7 # [])" "sfs_ok demo_cached" "sfs_fs_sem demo_cached = 1" "sin_sem (nodes demo_cached 7) = 1"
  "ref_count (nodes demo_cached 7) = 1" "open_count (nodes demo_cached 7) = 0" "reclaim_count (nodes demo_cached 7) = 1"
  "din (nodes demo_cached 7) = demo_din" "sin_ino (nodes demo_cached 7) = 2" "super_blocks demo_cached = 32" "sin_dirty (nodes demo_cached 7)"
  "fs_free_blocks demo_cached = {3..<32}" "din_wf demo_din" "fs_kmalloc demo_cached k = Some k"
proof -
  let ?s = "demo_fs\<lparr>nodes := (\<lambda>_. demo_node\<lparr>open_count := 0, sin_dirty := True\<rparr>)\<rparr>"
  have "cache ?s []" by (rule demo_empty_cache) (simp add: demo_fs_def)
  then show "cache demo_cached ([] @ 7 # [])" unfolding demo_cached_def using cache_set_links [of ?s "[]" 7] by simp
  show "sfs_ok demo_cached" using demo_sfs_ok by (simp add: demo_cached_def sfs_set_links_def sfs_ok_def disk_ok_def fs_free_blocks_def)
  show "fs_free_blocks demo_cached = {3..<32}" using demo_free by (simp add: demo_cached_def sfs_set_links_def fs_free_blocks_def)
  show "din_wf demo_din" by (simp add: din_wf_def demo_din_def)
qed (simp_all add: demo_cached_def sfs_set_links_def demo_fs_def demo_node_def)

theorem sfs_load_inode_unique_witness:
  "\<exists>q s'. sfs_load_inode 2 demo_disk_inode = Some (0, q, s') \<and> cache s' [q] \<and> sin_ino (nodes s' q) = 2"
  using sfs_load_inode_unique [OF demo_disk_inode_ok(1-3), of 2] demo_disk_inode_ok(4,6) by simp blast

text \<open>
  C8: when the last reference to an inode goes away, the inode is written back if it was changed,
  removed from both lists and freed; no other block changes. What a later \<^verbatim>\<open>sfs_load_inode\<close> of its
  number then reads from the disk is the same disk inode: size, type, links, block count, direct
  blocks and indirect block.\<close>

theorem sfs_inode_persists:
  fixes s :: "'z sfs_fs_scheme"
  assumes c: "cache s (us @ p # vs)" and ok: "sfs_ok s" and sems: "sfs_fs_sem s = 1" "sin_sem (nodes s p) = 1"
    and cnt: "ref_count (nodes s p) = 1" "open_count (nodes s p) = 0" "reclaim_count (nodes s p) = 1"
    and x: "din (nodes s p) = x" "din_wf x" "din_nlinks x \<noteq> 0" "din_type x = SFS_TYPE_DIR \<or> din_type x = SFS_TYPE_FILE"
    and n: "sin_ino (nodes s p) = n" "n \<noteq> 0" "n < super_blocks s" "unat n \<notin> fs_free_blocks s"
    and d: "sin_dirty (nodes s p) \<or> disk_din s n = x"
    and fresh: "\<forall>k q. fs_kmalloc s k = Some q \<longrightarrow> q \<notin> set (us @ vs)"
  shows "\<exists>s1 ret q s2. inode_ref_dec p s = Some (0, s1) \<and> cache s1 (us @ vs) \<and> fs_kfreed s1 = p # din_at (nodes s p) # fs_kfreed s \<and>
    (\<forall>a. a div 4096 \<noteq> unat n \<longrightarrow> rd s1 a = rd s a) \<and> sfs_load_inode n s1 = Some (ret, q, s2) \<and>
    (ret = - errno_of E_NO_MEM \<and> (\<exists>k. fs_kmalloc s k = None) \<or>
     ret = 0 \<and> cache s2 (q # us @ vs) \<and> sin_ino (nodes s2 q) = n \<and> ref_count (nodes s2 q) = 1 \<and> din (nodes s2 q) = x)"
proof -
  obtain s1 where s1: "inode_ref_dec p s = Some (0, s1)" "cache s1 (us @ vs)" "sfs_ok s1" "sfs_fs_sem s1 = 1" "fs_free_blocks s1 = fs_free_blocks s"
    "super_blocks s1 = super_blocks s" "fs_kmalloc s1 = fs_kmalloc s" "fs_kfreed s1 = p # din_at (nodes s p) # fs_kfreed s"
    "\<forall>q. q \<noteq> p \<longrightarrow> nodes s1 q = nodes s q"
    "rd s1 = (if sin_dirty (nodes s p) then obj_copy (unat n * 4096) 0 64 (din_object x) (rd s) else rd s)"
    using release_last [OF c ok sems cnt] x(1,3) n by auto
  have din: "disk_din s1 n = x"
  proof (cases "sin_dirty (nodes s p)")
    case True
    have "disk_din s1 n = load_din (din_object x)"
      unfolding disk_din_def by (rule load_din_cong) (simp add: s1(10) True obj_copy_def)
    then show ?thesis using load_din_object [OF x(2)] by simp
  next
    case False
    then show ?thesis using d s1(10) by (simp add: disk_din_def)
  qed
  have blk: "inode_block s1 n" using din x n s1 by (simp add: inode_block_def)
  have q: "q \<noteq> p" "sin_ino (nodes s1 q) = sin_ino (nodes s q)" if "q \<in> set (us @ vs)" for q
    using that c s1(9) by (auto simp: cache_def)
  have "distinct (map (\<lambda>q. sin_ino (nodes s q)) (us @ p # vs))" using c by (simp add: cache_def)
  then have "n \<notin> (\<lambda>q. sin_ino (nodes s q)) ` set (us @ vs)" using n(1) by auto
  then have "\<not> (\<exists>q. q \<in> set (us @ vs) \<and> sin_ino (nodes s1 q) = n)" using q(2) by (metis imageI)
  then have "find (\<lambda>q. sin_ino (nodes s1 q) = n) (us @ vs) = None" unfolding find_None_iff .
  from load_miss [OF s1(2,4,3) this blk] fresh s1(7) din obtain ret q s2 where "sfs_load_inode n s1 = Some (ret, q, s2)"
    "ret = - errno_of E_NO_MEM \<and> (\<exists>k. fs_kmalloc s k = None) \<or>
     ret = 0 \<and> cache s2 (q # us @ vs) \<and> sin_ino (nodes s2 q) = n \<and> ref_count (nodes s2 q) = 1 \<and> din (nodes s2 q) = x"
    by auto
  moreover have "\<forall>a. a div 4096 \<noteq> unat n \<longrightarrow> rd s1 a = rd s a"

  proof (intro allI impI)
    fix a assume "a div 4096 \<noteq> unat n"
    then show "rd s1 a = rd s a" using block_copy_other [of 0 64 a "unat n" 0 "din_object x" "rd s"] s1(10) by simp
  qed
  ultimately show ?thesis using s1(1,2,8) by blast
qed

theorem sfs_inode_persists_witness:
  "\<exists>s1 q s2. inode_ref_dec 7 demo_cached = Some (0, s1) \<and> cache s1 [] \<and> sfs_load_inode 2 s1 = Some (0, q, s2) \<and> din (nodes s2 q) = demo_din"
proof -
  have l: "din_nlinks demo_din \<noteq> 0" "din_type demo_din = SFS_TYPE_DIR \<or> din_type demo_din = SFS_TYPE_FILE" by (simp_all add: demo_din_def)
  have b: "(2 :: u32) \<noteq> 0" "2 < super_blocks demo_cached" "unat (2 :: u32) \<notin> fs_free_blocks demo_cached" using demo_cached_ok(10,12) by simp_all
  have d: "sin_dirty (nodes demo_cached 7) \<or> disk_din demo_cached 2 = demo_din" using demo_cached_ok(11) by blast
  show ?thesis
    using sfs_inode_persists [OF demo_cached_ok(1-8,13) l demo_cached_ok(9) b d] by (auto simp: demo_cached_ok(14))
qed

end
