(* ===== verification/Stdin.thy ===== *)
theory Stdin
  imports Sem Disk
begin

text \<open>
  \<^verbatim>\<open>kern/fs/devs/dev_stdin.c\<close>: the console input device. The interrupt handler puts characters
  into a ring buffer, readers take them out and sleep on a wait queue while there are none. The
  kernel state is extended by the buffer, its two positions and the address of the wait queue. A
  read may give the processor away in the middle: \<open>dev_stdin_read\<close> is the call up to its end or up
  to the switch, \<open>dev_stdin_resume\<close> the code that runs when the reader is scheduled again. The
  lemmas show that the device is a FIFO queue of at most 2048 characters.
\<close>

record stdin = wkern +
  stdin_buffer :: "nat \<Rightarrow> u8"
  p_rpos :: u32
  p_wpos :: u32
  stdin_wq :: qptr

abbreviation (input) STDIN_BUFSIZE :: u32 where "STDIN_BUFSIZE \<equiv> 2048"

section \<open>Operations\<close>

text \<open>The positions are signed; a negative remainder is no index of the buffer.\<close>

definition stdin_index :: "u32 \<Rightarrow> nat kernel" where
  "stdin_index pos = (let i = c_mod pos STDIN_BUFSIZE in if sint i < 0 then panic else Some (unat i))"

definition dev_stdin_write :: "u8 \<Rightarrow> 'z stdin_scheme \<Rightarrow> 'z stdin_scheme kernel" where
  "dev_stdin_write c s =
     (if c \<noteq> 0 then do {
        i \<leftarrow> stdin_index (p_wpos s);
        let s1 = s\<lparr>stdin_buffer := (stdin_buffer s)(i := c)\<rparr>;
        let s2 = (if sint (p_wpos s1 - p_rpos s1) < sint STDIN_BUFSIZE then s1\<lparr>p_wpos := p_wpos s1 + 1\<rparr> else s1);
        if \<not> wait_queue_empty (stdin_wq s2) s2 then wakeup_queue (stdin_wq s2) WT_KBD True s2 else Some s2
      }
      else Some s)"

text \<open>
  The loop of \<^verbatim>\<open>dev_stdin_read\<close>; \<open>n\<close> is \<^verbatim>\<open>len - ret\<close>. The flag says whether the call is finished;
  if not, the caller sleeps with its \<^verbatim>\<open>wait_t\<close> at \<open>w\<close> in the queue.
\<close>

fun stdin_loop :: "wptr \<Rightarrow> nat \<Rightarrow> nat \<Rightarrow> u32 \<Rightarrow> mem \<Rightarrow> 'z stdin_scheme \<Rightarrow> (bool \<times> nat \<times> nat \<times> u32 \<times> mem \<times> 'z stdin_scheme) kernel" where
  "stdin_loop w 0 buf ret m s = Some (True, 0, buf, ret, m, s)"
| "stdin_loop w (Suc n) buf ret m s =
     (if sint (p_rpos s) < sint (p_wpos s) then do {
        i \<leftarrow> stdin_index (p_rpos s);
        stdin_loop w n (buf + 1) (ret + 1) (m(buf := stdin_buffer s i)) (s\<lparr>p_rpos := p_rpos s + 1\<rparr>)
      }
      else do {
        s1 \<leftarrow> wait_current_set (stdin_wq s) w WT_KBD s;
        s2 \<leftarrow> schedule s1;
        Some (False, Suc n, buf, ret, m, s2)
      })"

definition dev_stdin_read :: "wptr \<Rightarrow> nat \<Rightarrow> u32 \<Rightarrow> mem \<Rightarrow> 'z stdin_scheme \<Rightarrow> (bool \<times> nat \<times> nat \<times> u32 \<times> mem \<times> 'z stdin_scheme) kernel" where
  "dev_stdin_read w buf len m s = stdin_loop w (unat len) buf 0 m s"

definition dev_stdin_resume :: "wptr \<Rightarrow> nat \<Rightarrow> nat \<Rightarrow> u32 \<Rightarrow> mem \<Rightarrow> 'z stdin_scheme \<Rightarrow> (bool \<times> nat \<times> nat \<times> u32 \<times> mem \<times> 'z stdin_scheme) kernel" where
  "dev_stdin_resume w n buf ret m s = do {
     s1 \<leftarrow> wait_current_del (stdin_wq s) w s;
     if w_wakeup_flags (waits s1 w) = WT_KBD then stdin_loop w n buf ret m s1
     else Some (True, n, buf, ret, m, s1)
   }"

definition stdin_open :: "u32 \<Rightarrow> int" where
  "stdin_open open_flags = (if open_flags \<noteq> 0 then - errno_of E_INVAL else 0)"

definition stdin_close :: int where
  "stdin_close = 0"

text \<open>The end of \<^verbatim>\<open>stdin_io\<close> for a read that is finished with \<open>ret\<close> characters.\<close>

definition stdin_io_end :: "u32 \<Rightarrow> iobuf \<Rightarrow> int \<times> iobuf" where
  "stdin_io_end ret iob = (sint ret, if 0 < sint ret then iob\<lparr>io_resid := io_resid iob - ret\<rparr> else iob)"

definition stdin_ioctl :: "int \<Rightarrow> int" where
  "stdin_ioctl op = - errno_of E_INVAL"

definition stdin_device_init :: "'z stdin_scheme \<Rightarrow> 'z stdin_scheme" where
  "stdin_device_init s = wait_queue_init (stdin_wq s) (s\<lparr>p_rpos := 0, p_wpos := 0\<rparr>)"

section \<open>Frames\<close>

definition same_stdin :: "'z stdin_scheme \<Rightarrow> 'z stdin_scheme \<Rightarrow> bool" where
  "same_stdin s s' \<longleftrightarrow> stdin_buffer s' = stdin_buffer s \<and> p_rpos s' = p_rpos s \<and> p_wpos s' = p_wpos s \<and> stdin_wq s' = stdin_wq s"

lemma same_stdin_more: "wkern.more (s' :: 'z stdin_scheme) = wkern.more s \<Longrightarrow> same_stdin s s'"
  by (cases s; cases s') (simp add: same_stdin_def)

lemma same_stdin_kern: "kern.more (s' :: 'z stdin_scheme) = kern.more s \<Longrightarrow> same_stdin s s'"
  by (intro same_stdin_more) (cases s; cases s'; simp)

lemma same_stdin_trans: "same_stdin s s1 \<Longrightarrow> same_stdin s1 s2 \<Longrightarrow> same_stdin s s2"
  by (simp add: same_stdin_def)

lemma enqueue_more: "RR_enqueue p s = Some s' \<Longrightarrow> kern.more s' = kern.more s"
  by (auto simp: RR_enqueue_def Let_def split: if_splits bind_splits)

lemma dequeue_more: "RR_dequeue p s = Some s' \<Longrightarrow> kern.more s' = kern.more s"
  by (auto simp: RR_dequeue_def Let_def split: if_splits bind_splits)

lemma wakeup_proc_more: "wakeup_proc p s = Some s' \<Longrightarrow> kern.more s' = kern.more s"
  by (auto simp: wakeup_proc_def Let_def sched_class_enqueue_def split: if_splits bind_splits dest!: enqueue_more)

lemma schedule_more: "schedule s = Some s' \<Longrightarrow> kern.more s' = kern.more s"
  by (auto simp: schedule_def Let_def sched_class_enqueue_def sched_class_dequeue_def split: if_splits bind_splits option.splits dest!: enqueue_more dequeue_more)

lemma wakeup_wait_same: "wakeup_wait q w f d (s :: 'z stdin_scheme) = Some s' \<Longrightarrow> same_stdin s s'"
  by (auto simp: wakeup_wait_def wait_queue_del_def kassert_def same_stdin_def Let_def split: if_splits bind_splits option.splits
      dest!: wakeup_proc_more same_stdin_kern)

lemma wakeup_del_loop_same: "wakeup_del_loop q f w (s :: 'z stdin_scheme) = Some s' \<Longrightarrow> same_stdin s s'"
proof (rule wakeup_del_loop.raw_induct [of "\<lambda>q f w s s'. same_stdin s s'"])
  fix loop q f w and s s' :: "'z stdin_scheme"
  assume step: "\<And>q f w s s'. loop q f w s = Some s' \<Longrightarrow> same_stdin s s'"
    "do { s1 \<leftarrow> wakeup_wait q w f True s; case wait_queue_first q s1 of None \<Rightarrow> Some s1 | Some w' \<Rightarrow> loop q f w' s1 } = Some s'"
  then obtain s1 where s1: "wakeup_wait q w f True s = Some s1" by (auto split: bind_splits)
  show "same_stdin s s'"
  proof (cases "wait_queue_first q s1")
    case None
    with step s1 wakeup_wait_same [OF s1] show ?thesis by simp
  next
    case (Some w')
    with step(2) s1 have "loop q f w' s1 = Some s'" by simp
    from same_stdin_trans [OF wakeup_wait_same [OF s1] step(1) [OF this]] show ?thesis .
  qed
qed

lemma wakeup_queue_same: "wakeup_queue q f True (s :: 'z stdin_scheme) = Some s' \<Longrightarrow> same_stdin s s'"
  by (auto simp: wakeup_queue_def same_stdin_def split: option.splits dest!: wakeup_del_loop_same)

lemma wait_current_set_same: "wait_current_set q w f (s :: 'z stdin_scheme) = Some s' \<Longrightarrow> same_stdin s s'"
  by (auto simp: wait_current_set_def wait_queue_add_def wait_init_def upd_proc_def kassert_def same_stdin_def Let_def split: if_splits)

lemma wait_current_del_same: "wait_current_del q w (s :: 'z stdin_scheme) = Some s' \<Longrightarrow> same_stdin s s'"
  by (auto simp: wait_current_del_def wait_queue_del_def kassert_def same_stdin_def split: if_splits)

section \<open>The buffer as a queue\<close>

text \<open>The characters typed and not yet read. The positions stay below \<open>2 ^ 31\<close>: the driver never resets
  them, so this bounds the number of characters in the life of the kernel.\<close>

definition unread :: "'z stdin_scheme \<Rightarrow> u8 list" where
  "unread s = map (\<lambda>i. stdin_buffer s (i mod 2048)) [unat (p_rpos s)..<unat (p_wpos s)]"

definition stdin_inv :: "'z stdin_scheme \<Rightarrow> bool" where
  "stdin_inv s \<longleftrightarrow> p_rpos s \<le> p_wpos s \<and> unat (p_wpos s) \<le> unat (p_rpos s) + 2048 \<and> unat (p_wpos s) < 2 ^ 31"

lemma unread_same: "same_stdin s s' \<Longrightarrow> unread s' = unread s" "same_stdin s s' \<Longrightarrow> stdin_inv s' = stdin_inv s"
  by (simp_all add: same_stdin_def unread_def stdin_inv_def)

lemma length_unread: "stdin_inv s \<Longrightarrow> length (unread s) \<le> 2048"
  by (auto simp: unread_def stdin_inv_def)

lemma sint_nat: "unat (x :: u32) < 2 ^ 31 \<Longrightarrow> sint x = int (unat x)"
  using sint_small [of x] by simp

lemma stdin_index_small: "unat pos < 2 ^ 31 \<Longrightarrow> stdin_index pos = Some (unat pos mod 2048)"
proof -
  assume a: "unat pos < 2 ^ 31"
  then have "sint pos = int (unat pos)" by (rule sint_nat)
  then have e: "c_mod pos 2048 = word_of_int (int (unat pos mod 2048))"
    by (simp add: c_mod_def signed_modulo_int_def zmod_int)
  have u: "unat (word_of_int (int (unat pos mod 2048)) :: u32) = unat pos mod 2048"
    by (simp add: take_bit_nat_eq_self unat_of_nat)
  show ?thesis
    using sint_small [of "c_mod pos 2048"] u by (simp add: stdin_index_def Let_def e)
qed

lemma stdin_write_buffer:
  assumes i: "stdin_inv s" "unat (p_wpos s) < 2 ^ 31 - 1" and c: "c \<noteq> 0"
  obtains s1 where "stdin_inv s1" and "unread s1 = (if length (unread s) < 2048 then unread s @ [c] else c # tl (unread s))"
    and "dev_stdin_write c s = (if \<not> wait_queue_empty (stdin_wq s) s then wakeup_queue (stdin_wq s) WT_KBD True s1 else Some s1)"
    and "kern.truncate s1 = kern.truncate s" and "wq_links s1 = wq_links s" and "waits s1 = waits s" and "stdin_wq s1 = stdin_wq s"
proof -
  let ?r = "unat (p_rpos s)" and ?w = "unat (p_wpos s)"
  define b where "b = (stdin_buffer s)(?w mod 2048 := c)"
  define s1 where "s1 = (if ?w - ?r < 2048 then s\<lparr>stdin_buffer := b, p_wpos := p_wpos s + 1\<rparr> else s\<lparr>stdin_buffer := b\<rparr>)"
  have le: "?r \<le> ?w" "?w \<le> ?r + 2048" "?w < 2 ^ 31" using i by (simp_all add: stdin_inv_def word_le_nat_alt)
  have d: "unat (p_wpos s - p_rpos s) = ?w - ?r" using le(1) by (simp add: unat_sub word_le_nat_alt)
  have "sint (p_wpos s - p_rpos s) = int (?w - ?r)" using sint_nat [of "p_wpos s - p_rpos s"] d le by (simp del: of_nat_unat)
  then have cond: "sint (p_wpos s - p_rpos s) < sint (2048 :: u32) \<longleftrightarrow> ?w - ?r < 2048" by simp
  have suc: "unat (p_wpos s + 1) = Suc ?w" using i(2) by (simp add: unat_plus_simple word_le_nat_alt unat_word_ariths)
  have old: "b (j mod 2048) = stdin_buffer s (j mod 2048)" if "?r \<le> j" "j < ?w" "?w - ?r < 2048 \<or> ?r < j" for j
    using that le mod_eq_dvd_iff_nat [of j ?w 2048] by (auto simp: b_def dest!: dvd_imp_le)
  have u: "unread s1 = (if length (unread s) < 2048 then unread s @ [c] else c # tl (unread s))"
  proof (cases "?w - ?r < 2048")
    case True
    then show ?thesis using old le by (simp add: unread_def s1_def suc b_def [symmetric]) (simp add: b_def)
  next
    case False
    then have w: "?w = ?r + 2048" using le by simp
    then have "?r mod 2048 = ?w mod 2048" by (simp only: mod_add_self2)
    moreover have cons: "[?r..<?w] = ?r # [Suc ?r..<?w]" using False by (intro upt_conv_Cons) simp
    moreover have "map (\<lambda>j. b (j mod 2048)) [Suc ?r..<?w] = map (\<lambda>j. stdin_buffer s (j mod 2048)) [Suc ?r..<?w]"
      using old by (intro map_cong) auto
    moreover have "unread s1 = map (\<lambda>j. b (j mod 2048)) [?r..<?w]" using False by (simp add: unread_def s1_def)
    moreover have "\<not> length (unread s) < 2048" using False by (simp add: unread_def)
    ultimately show ?thesis unfolding unread_def [of s] by (simp add: b_def)
  qed
  show ?thesis
  proof (rule that [OF _ u])
    show "stdin_inv s1" using le i(2) suc by (auto simp: stdin_inv_def s1_def word_le_nat_alt)
    show "dev_stdin_write c s = (if \<not> wait_queue_empty (stdin_wq s) s then wakeup_queue (stdin_wq s) WT_KBD True s1 else Some s1)"
      using c cond by (simp add: dev_stdin_write_def stdin_index_small [OF le(3)] s1_def b_def wait_queue_empty_def Let_def)
  qed (simp_all add: s1_def kern.defs)
qed

lemma stdin_loop_fifo:
  "stdin_loop w n buf ret m s = Some (fin, k, buf', ret', m', s') \<Longrightarrow> stdin_inv s \<Longrightarrow>
   (let d = min n (length (unread s)) in k = n - d \<and> fin = (k = 0) \<and> buf' = buf + d \<and> ret' = ret + of_nat d \<and>
      map m' [buf..<buf'] = take d (unread s) \<and> (\<forall>a. a < buf \<or> buf' \<le> a \<longrightarrow> m' a = m a) \<and>
      unread s' = drop d (unread s) \<and> stdin_inv s')"
proof (induction w n buf ret m s rule: stdin_loop.induct)
  case (1 w buf ret m s)
  then show ?case by simp
next
  case (2 w n buf ret m s)
  have le: "unat (p_rpos s) \<le> unat (p_wpos s)" "unat (p_wpos s) < 2 ^ 31" using 2(3) by (simp_all add: stdin_inv_def word_le_nat_alt)
  then have lt: "sint (p_rpos s) < sint (p_wpos s) \<longleftrightarrow> unat (p_rpos s) < unat (p_wpos s)"
    using sint_small [of "p_rpos s"] sint_small [of "p_wpos s"] by (simp add: word_less_def [symmetric] word_less_nat_alt)
  show ?case
  proof (cases "unat (p_rpos s) < unat (p_wpos s)")
    case True
    let ?i = "unat (p_rpos s) mod 2048" and ?s = "s\<lparr>p_rpos := p_rpos s + 1\<rparr>"
    have suc: "unat (p_rpos s + 1) = Suc (unat (p_rpos s))" using True le by (simp add: unat_word_ariths)
    have u: "unread s = stdin_buffer s ?i # unread ?s" using True by (simp add: unread_def suc upt_conv_Cons)
    have inv: "stdin_inv ?s" using 2(3) True suc by (auto simp: stdin_inv_def word_le_nat_alt)
    have ix: "stdin_index (p_rpos s) = Some ?i" using True le by (intro stdin_index_small) simp
    have l: "stdin_loop w n (buf + 1) (ret + 1) (m(buf := stdin_buffer s ?i)) ?s = Some (fin, k, buf', ret', m', s')"
      using 2(2) True lt ix by simp
    have "sint (p_rpos s) < sint (p_wpos s)" using True lt by simp
    note ih = 2(1) [OF this ix l inv, unfolded Let_def]
    let ?d = "min n (length (unread ?s))"
    have ih: "k = n - ?d" "fin = (k = 0)" "buf' = buf + 1 + ?d" "ret' = ret + 1 + of_nat ?d"
      "map m' [buf + 1..<buf'] = take ?d (unread ?s)" "\<forall>a. a < buf + 1 \<or> buf' \<le> a \<longrightarrow> m' a = (m(buf := stdin_buffer s ?i)) a"
      "unread s' = drop ?d (unread ?s)" "stdin_inv s'"
      using ih by blast+
    have "buf < buf'" using ih(3) by simp
    then have "[buf..<buf'] = buf # [buf + 1..<buf']" by (simp only: upt_conv_Cons Suc_eq_plus1)
    moreover have "m' buf = stdin_buffer s ?i" using ih(6) by simp
    ultimately have "map m' [buf..<buf'] = stdin_buffer s ?i # take ?d (unread ?s)" using ih(5) by simp
    then show ?thesis unfolding u Let_def using ih by auto
  next
    case False
    then obtain s1 where "wait_current_set (stdin_wq s) w WT_KBD s = Some s1" "schedule s1 = Some s'"
      "fin = False" "k = Suc n" "buf' = buf" "ret' = ret" "m' = m"
      using 2(2) lt by (auto split: bind_splits)
    moreover from this(1,2) have "same_stdin s s'"
      by (blast intro: same_stdin_trans wait_current_set_same same_stdin_kern schedule_more)
    moreover have "unread s = []" using False by (simp add: unread_def)
    ultimately show ?thesis using unread_same [of s s'] 2(3) by (simp add: Let_def)
  qed
qed

section \<open>Runs of the device\<close>

text \<open>
  A run of the device: keys, reads and resumed reads of any processes, in any order, and between
  them any other activity of the kernel that leaves the device alone. The second and the third argument
  collect the characters typed and the characters delivered to readers.
\<close>

inductive stdin_run :: "'z stdin_scheme \<Rightarrow> u8 list \<Rightarrow> u8 list \<Rightarrow> 'z stdin_scheme \<Rightarrow> bool" where
  start: "stdin_run s [] [] s"
| key: "stdin_run s ts ds s1 \<Longrightarrow> c \<noteq> 0 \<Longrightarrow> length (unread s1) < 2048 \<Longrightarrow> unat (p_wpos s1) < 2 ^ 31 - 1 \<Longrightarrow>
    dev_stdin_write c s1 = Some s2 \<Longrightarrow> stdin_run s (ts @ [c]) ds s2"
| read: "stdin_run s ts ds s1 \<Longrightarrow> dev_stdin_read w buf len m s1 = Some (fin, n, buf', ret, m', s2) \<Longrightarrow>
    stdin_run s ts (ds @ map m' [buf..<buf']) s2"
| resume: "stdin_run s ts ds s1 \<Longrightarrow> dev_stdin_resume w n buf ret m s1 = Some (fin, n', buf', ret', m', s2) \<Longrightarrow>
    stdin_run s ts (ds @ map m' [buf..<buf']) s2"
| other: "stdin_run s ts ds s1 \<Longrightarrow> same_stdin s1 s2 \<Longrightarrow> stdin_run s ts ds s2"

lemma stdin_write_fifo:
  assumes "stdin_inv s" "unat (p_wpos s) < 2 ^ 31 - 1" "c \<noteq> 0" "length (unread s) < 2048" "dev_stdin_write c s = Some s'"
  shows "unread s' = unread s @ [c]" and "stdin_inv s'"
proof -
  obtain s1 where s1: "stdin_inv s1" "unread s1 = unread s @ [c]"
    "dev_stdin_write c s = (if \<not> wait_queue_empty (stdin_wq s) s then wakeup_queue (stdin_wq s) WT_KBD True s1 else Some s1)"
    using assms(4) by (rule_tac stdin_write_buffer [OF assms(1-3)]) auto
  have "same_stdin s1 s'"
    using s1(3) assms(5) wakeup_queue_same [of "stdin_wq s" WT_KBD s1 s']
    by (cases "wait_queue_empty (stdin_wq s) s") (simp_all add: same_stdin_def)
  with s1 show "unread s' = unread s @ [c]" "stdin_inv s'" using unread_same [of s1 s'] by simp_all
qed

lemma stdin_resume_fifo:
  assumes "dev_stdin_resume w n buf ret m s = Some (fin, n', buf', ret', m', s')" "stdin_inv s"
  shows "map m' [buf..<buf'] @ unread s' = unread s" and "stdin_inv s'"
proof -
  obtain s1 where s1: "wait_current_del (stdin_wq s) w s = Some s1"
    using assms(1) by (auto simp: dev_stdin_resume_def split: bind_splits)
  then have u: "unread s1 = unread s" "stdin_inv s1"
    using unread_same [OF wait_current_del_same [OF s1]] assms(2) by simp_all
  have "map m' [buf..<buf'] @ unread s' = unread s \<and> stdin_inv s'"
  proof (cases "w_wakeup_flags (waits s1 w) = WT_KBD")
    case True
    with assms(1) s1 have "stdin_loop w n buf ret m s1 = Some (fin, n', buf', ret', m', s')" by (simp add: dev_stdin_resume_def)
    from stdin_loop_fifo [OF this u(2)] have
      "map m' [buf..<buf'] = take (min n (length (unread s))) (unread s)"
      "unread s' = drop (min n (length (unread s))) (unread s)" "stdin_inv s'"
      unfolding Let_def u(1) by blast+
    then show ?thesis by (simp only: append_take_drop_id simp_thms)
  qed (use assms(1) s1 u in \<open>simp add: dev_stdin_resume_def\<close>)
  then show "map m' [buf..<buf'] @ unread s' = unread s" "stdin_inv s'" by simp_all
qed

lemma stdin_run_fifo:
  "stdin_run s ts ds s' \<Longrightarrow> stdin_inv s \<Longrightarrow> ds @ unread s' = unread s @ ts \<and> stdin_inv s'"
proof (induction rule: stdin_run.induct)
  case (key s ts ds s1 c s2)
  then show ?case using stdin_write_fifo [of s1 c s2] by (metis append_assoc)
next
  case (read s ts ds s1 w buf len m fin n buf' ret m' s2)
  then have "map m' [buf..<buf'] = take (min (unat len) (length (unread s1))) (unread s1)"
    "unread s2 = drop (min (unat len) (length (unread s1))) (unread s1)" "stdin_inv s2"
    using stdin_loop_fifo [of w "unat len" buf 0 m s1] unfolding dev_stdin_read_def Let_def by blast+
  then have "map m' [buf..<buf'] @ unread s2 = unread s1" "stdin_inv s2" by (simp_all only: append_take_drop_id)
  with read show ?case by simp
next
  case (resume s ts ds s1 w n buf ret m fin n' buf' ret' m' s2)
  then show ?case using stdin_resume_fifo [OF resume(2)] by simp
next
  case (other s ts ds s1 s2)
  then show ?case using unread_same [of s1 s2] by simp
qed simp

section \<open>Properties\<close>

text \<open>Two readers sleep on the queue of the device and one character waits.\<close>

definition demo_stdin :: stdin where
  "demo_stdin = wkern.extend demo_wait \<lparr>stdin_buffer = (\<lambda>_. 97), p_rpos = 4, p_wpos = 5, stdin_wq = 0\<rparr>"

lemma demo_stdin_ok: "stdin_inv demo_stdin" "unread demo_stdin = [97]" "unat (p_wpos demo_stdin) = 5" "stdin_wq demo_stdin = 0"
  by (simp_all add: demo_stdin_def wkern.defs stdin_inv_def unread_def)

lemma demo_stdin_kern: "sched_inv demo_stdin [1, 2]" "wqueue demo_stdin 0 [1, 2]" "wakeable demo_stdin [1, 2]"
proof -
  have p: "procs demo_stdin = procs demo_wait" "waits demo_stdin = waits demo_wait" "wq_links demo_stdin = wq_links demo_wait"
    "current demo_stdin = current demo_wait" "idleproc demo_stdin = idleproc demo_wait"
    by (simp_all add: demo_stdin_def wkern.defs)
  have "run_queue demo_stdin [1, 2] = run_queue demo_wait [1, 2]" by (simp add: run_queue_def demo_stdin_def wkern.defs)
  then show "sched_inv demo_stdin [1, 2]" using demo_wait_sched unfolding sched_inv_def p by simp
  show "wqueue demo_stdin 0 [1, 2]" using demo_wait_queue unfolding wqueue_def p .
  show "wakeable demo_stdin [1, 2]" using demo_wait_wakeable unfolding wakeable_def p .
qed

text \<open>
  C16: the console input device is a FIFO queue. In every run of keys, reads and resumed reads of any
  processes, interleaved with any other activity of the kernel, in which no key arrives while 2048
  characters are unread, the characters delivered to the readers followed by the characters
  still unread are exactly the characters that were unread at the start followed by those typed: none is lost,
  duplicated or reordered.\<close>

theorem stdin_fifo:
  assumes "stdin_run s ts ds s'" and "stdin_inv s"
  shows "ds @ unread s' = unread s @ ts"
  using stdin_run_fifo [OF assms] by simp

text \<open>
  a key never stops the kernel and wakes every reader that waits: it is appended to the unread
  characters if there is room, replaces the oldest unread character if 2048 are unread, and is ignored if it
  is the zero character; afterwards the wait queue is empty and all its processes are runnable with
  the wake-up reason of the keyboard.\<close>

theorem dev_stdin_write_wakes:
  assumes "sched_inv s xs" and "wqueue s (stdin_wq s) ws" and "wakeable s ws" and "stdin_inv s" and "unat (p_wpos s) < 2 ^ 31 - 1"
  shows "\<exists>s' ys. dev_stdin_write c s = Some s' \<and> sched_inv s' ys \<and> stdin_inv s' \<and>
    unread s' = (if c = 0 then unread s else if length (unread s) < 2048 then unread s @ [c] else c # tl (unread s)) \<and>
    (c \<noteq> 0 \<longrightarrow> wqueue s' (stdin_wq s) [] \<and> (\<forall>p. p \<in> waiter_procs s ws \<longrightarrow> p_state (procs s' p) = PROC_RUNNABLE) \<and>
      (\<forall>w. w \<in> set ws \<longrightarrow> w_wakeup_flags (waits s' w) = WT_KBD))"
proof (cases "c = 0")
  case True
  with assms show ?thesis by (intro exI [of _ s] exI [of _ xs]) (simp add: dev_stdin_write_def)
next
  case False
  obtain s1 where s1: "stdin_inv s1" "unread s1 = (if length (unread s) < 2048 then unread s @ [c] else c # tl (unread s))"
    "dev_stdin_write c s = (if \<not> wait_queue_empty (stdin_wq s) s then wakeup_queue (stdin_wq s) WT_KBD True s1 else Some s1)"
    "kern.truncate s1 = kern.truncate s" "wq_links s1 = wq_links s" "waits s1 = waits s" "stdin_wq s1 = stdin_wq s"
    by (rule stdin_write_buffer [OF assms(4,5) False])
  have p: "procs s1 = procs s" "current s1 = current s" "idleproc s1 = idleproc s"
    using s1(4) by (simp_all add: kern.defs)
  have "run_queue s1 xs = run_queue s xs" using s1(4) by (intro run_queue_cong) (simp_all add: kern.defs)
  then have i: "sched_inv s1 xs" "wqueue s1 (stdin_wq s) ws" "wakeable s1 ws" "waiter_procs s1 ws = waiter_procs s ws"
    using assms by (simp_all add: sched_inv_def wqueue_def wakeable_def waiter_procs_def s1(5,6) p)
  show ?thesis
  proof (cases ws)
    case Nil
    then have "dev_stdin_write c s = Some s1" using s1(3) wqueue_empty [OF assms(2)] by simp
    with i s1(1,2) False Nil show ?thesis by (intro exI [of _ s1] exI [of _ xs]) (simp add: waiter_procs_def)
  next
    case (Cons w vs)
    obtain s' ys where s': "wakeup_del_loop (stdin_wq s) WT_KBD w s1 = Some s'" "sched_inv s' ys" "wqueue s' (stdin_wq s) []"
      "wake_frame (waiter_procs s1 ws) s1 s'" "\<forall>v. w_wakeup_flags (waits s' v) = (if v \<in> set ws then WT_KBD else w_wakeup_flags (waits s1 v))"
      using wakeup_del_loop_all [of s1 xs "stdin_wq s" w vs WT_KBD] i Cons by blast
    have "dev_stdin_write c s = Some s'"
      using s1(3) s'(1) wqueue_empty [OF assms(2)] Cons wqueue_first [OF i(2)] by (simp add: wakeup_queue_def)
    moreover have "same_stdin s1 s'" using s'(4) by (intro same_stdin_more) (simp add: wake_frame_def)
    ultimately show ?thesis
      using s' s1(1,2) False unread_same [of s1 s'] i(4) by (intro exI [of _ s'] exI [of _ ys]) (auto simp: wake_frame_def)
  qed
qed

theorem dev_stdin_write_wakes_witness:
  "\<exists>s'. dev_stdin_write 98 demo_stdin = Some s' \<and> unread s' = [97, 98] \<and>
     p_state (procs s' 5) = PROC_RUNNABLE \<and> p_state (procs s' 6) = PROC_RUNNABLE \<and> w_wakeup_flags (waits s' 1) = WT_KBD"
proof -
  have q: "wqueue demo_stdin (stdin_wq demo_stdin) [1, 2]" using demo_stdin_kern(2) by (simp add: demo_stdin_ok)
  have w: "5 \<in> waiter_procs demo_stdin [1, 2]" "6 \<in> waiter_procs demo_stdin [1, 2]"
    by (auto simp: waiter_procs_def demo_stdin_def wkern.defs demo_wait_def kern.defs)
  from dev_stdin_write_wakes [OF demo_stdin_kern(1) q demo_stdin_kern(3) demo_stdin_ok(1), of 98] w
  show ?thesis by (auto simp: demo_stdin_ok)
qed

theorem stdin_fifo_witness:
  "\<exists>s' m'. dev_stdin_read 7 100 2 (\<lambda>_. 0) demo_stdin = Some (False, 1, 101, 1, m', s') \<and> [m' 100] @ unread s' = [97]"
proof -
  have f: "7 \<notin> set [1 :: nat, 2]" by simp
  let ?d = "demo_stdin\<lparr>p_rpos := 5\<rparr>"
  have k: "sched_inv ?d [1, 2]" "wqueue ?d 0 [1, 2]"
  proof -
    have "run_queue ?d [1, 2] = run_queue demo_stdin [1, 2]" by (rule run_queue_cong) auto
    then show "sched_inv ?d [1, 2]" using demo_stdin_kern(1) by (simp add: sched_inv_def)
    show "wqueue ?d 0 [1, 2]" using demo_stdin_kern(2) by (simp add: wqueue_def)
  qed
  obtain s1 s' where s': "wait_current_set 0 7 WT_KBD ?d = Some s1" "schedule s1 = Some s'"
    by (rule sleep_current [OF k f, of WT_KBD]) blast
  have loop: "dev_stdin_read 7 100 2 (\<lambda>_. 0) demo_stdin = Some (False, 1, 101, 1, (\<lambda>_. 0)(100 := 97), s')"
  proof -
    have pos: "p_rpos demo_stdin = 4" "p_wpos demo_stdin = 5" "stdin_buffer demo_stdin 4 = 97"
      by (simp_all add: demo_stdin_def wkern.defs)
    have two: "unat (2 :: u32) = Suc (Suc 0)" by simp
    show ?thesis unfolding dev_stdin_read_def two using s' stdin_index_small [of 4] demo_stdin_ok(4) by (simp add: pos)
  qed
  from stdin_run.read [OF stdin_run.start loop]
  have "stdin_run demo_stdin [] ([] @ map ((\<lambda>_. 0)(100 := 97)) [100..<101]) s'" .
  from stdin_fifo [OF this demo_stdin_ok(1)] loop show ?thesis by (simp add: demo_stdin_ok upt_rec)
qed

end
