(* ===== verification/Vfs.thy ===== *)
theory Vfs
  imports SfsCache Stdin
begin

text \<open>
  The virtual file system: \<^verbatim>\<open>kern/fs/vfs\<close> and \<^verbatim>\<open>kern/fs/devs/dev.c\<close>, \<^verbatim>\<open>dev_stdout.c\<close>. A node pointer is
  a node of the mounted simple file system or a device node; the tables of operations that
  \<^verbatim>\<open>in_ops\<close> points to become the case distinctions of \<open>vop_read\<close> and the other call macros,
  and an operation that a table does not have is the failed assertion of the macro. The state holds
  the file system, the console with the kernel state its wait queue needs, the device nodes, the
  list of named devices, the boot file system and the \<^verbatim>\<open>fs_struct\<close> of each process.

  \<open>None\<close> is a panic, a thread that waits for a lock it holds itself, or a read from the
  console that has to wait for a key: reads that wait are covered by the theory of the device.
\<close>

datatype vnode = SfsNode nat | DevNode nat

datatype devkind = DevStdin | DevStdout | DevDisk0

record dev_node =
  dn_kind :: devkind
  dn_ref :: int
  dn_open :: int

record vfs_dev =
  vd_devname :: "u8 list"
  vd_devnode :: "vnode option"
  vd_fs :: bool
  vd_mountable :: bool

datatype fd_status = FD_NONE | FD_INIT | FD_OPENED | FD_CLOSED

record file_t =
  f_status :: fd_status
  f_readable :: bool
  f_writable :: bool
  f_fd :: int
  f_pos :: u32
  f_node :: "vnode option"
  f_open_count :: int

record fs_struct =
  pwd :: "vnode option"
  filemap :: "nat \<Rightarrow> file_t"
  fs_count :: int
  fs_sem :: int

text \<open>One file system can be mounted; \<open>vd_fs\<close> says whether the pointer \<^verbatim>\<open>fs\<close> of a device refers to it.\<close>

record vfs =
  sfs :: sfs_fs
  console :: stdin
  con_out :: "u8 list"
  dev_nodes :: "nat \<Rightarrow> dev_node"
  vdevs :: "nat \<Rightarrow> vfs_dev"
  vdev_links :: "nat option links"
  vdev_list_sem :: int
  bootfs_node :: "vnode option"
  bootfs_sem :: int
  fs_structs :: "nat \<Rightarrow> fs_struct"
  cur_fs :: nat

abbreviation (input) O_WRONLY :: u32 where "O_WRONLY \<equiv> 1"
abbreviation (input) O_RDWR :: u32 where "O_RDWR \<equiv> 2"
abbreviation (input) O_CREAT :: u32 where "O_CREAT \<equiv> 4"
abbreviation (input) O_EXCL :: u32 where "O_EXCL \<equiv> 8"
abbreviation (input) O_TRUNC :: u32 where "O_TRUNC \<equiv> 16"
abbreviation (input) S_IFMT :: u32 where "S_IFMT \<equiv> 28672"
abbreviation (input) S_IFCHR :: u32 where "S_IFCHR \<equiv> 16384"
abbreviation (input) S_IFBLK :: u32 where "S_IFBLK \<equiv> 20480"

definition upd_dev :: "nat \<Rightarrow> (dev_node \<Rightarrow> dev_node) \<Rightarrow> 'z vfs_scheme \<Rightarrow> 'z vfs_scheme" where
  "upd_dev d f s = s\<lparr>dev_nodes := (dev_nodes s)(d := f (dev_nodes s d))\<rparr>"

definition upd_fs :: "nat \<Rightarrow> (fs_struct \<Rightarrow> fs_struct) \<Rightarrow> 'z vfs_scheme \<Rightarrow> 'z vfs_scheme" where
  "upd_fs a f s = s\<lparr>fs_structs := (fs_structs s)(a := f (fs_structs s a))\<rparr>"

section \<open>Devices\<close>

definition dev_blocks :: "devkind \<Rightarrow> 'z vfs_scheme \<Rightarrow> u32" where
  "dev_blocks k s = (case k of DevDisk0 \<Rightarrow> d_blocks (sfs s) | _ \<Rightarrow> 0)"

definition dev_blocksize :: "devkind \<Rightarrow> u32" where
  "dev_blocksize k = (case k of DevDisk0 \<Rightarrow> DISK0_BLKSIZE | _ \<Rightarrow> 1)"

definition stdout_open :: "u32 \<Rightarrow> int" where
  "stdout_open open_flags = (if open_flags \<noteq> O_WRONLY then - errno_of E_INVAL else 0)"

definition stdout_close :: int where
  "stdout_close = 0"

definition stdout_io :: "bool \<Rightarrow> iobuf \<Rightarrow> mem \<Rightarrow> 'z vfs_scheme \<Rightarrow> int \<times> iobuf \<times> mem \<times> 'z vfs_scheme" where
  "stdout_io write iob m s =
     (if write then (0, iob\<lparr>io_resid := 0\<rparr>, m, s\<lparr>con_out := con_out s @ map m [io_base iob..<io_base iob + unat (io_resid iob)]\<rparr>)
      else (- errno_of E_INVAL, iob, m, s))"

definition stdout_ioctl :: "int \<Rightarrow> int" where
  "stdout_ioctl op = - errno_of E_INVAL"

definition stdin_io :: "bool \<Rightarrow> iobuf \<Rightarrow> mem \<Rightarrow> 'z vfs_scheme \<Rightarrow> (int \<times> iobuf \<times> mem \<times> 'z vfs_scheme) kernel" where
  "stdin_io write iob m s =
     (if \<not> write then do {
        (fin, _, _, ret, m', k) \<leftarrow> dev_stdin_read 0 (io_base iob) (io_resid iob) m (console s);
        if fin then let (r, iob') = stdin_io_end ret iob in Some (r, iob', m', s\<lparr>console := k\<rparr>) else None
      }
      else Some (- errno_of E_INVAL, iob, m, s))"

definition dop_open :: "devkind \<Rightarrow> u32 \<Rightarrow> int" where
  "dop_open k open_flags =
     (case k of DevStdin \<Rightarrow> stdin_open open_flags | DevStdout \<Rightarrow> stdout_open open_flags | DevDisk0 \<Rightarrow> disk0_open open_flags)"

definition dop_close :: "devkind \<Rightarrow> int" where
  "dop_close k = (case k of DevStdin \<Rightarrow> stdin_close | DevStdout \<Rightarrow> stdout_close | DevDisk0 \<Rightarrow> disk0_close)"

definition dop_io :: "devkind \<Rightarrow> iobuf \<Rightarrow> bool \<Rightarrow> mem \<Rightarrow> 'z vfs_scheme \<Rightarrow> (int \<times> iobuf \<times> mem \<times> 'z vfs_scheme) kernel" where
  "dop_io k iob write m s =
     (case k of
        DevStdin \<Rightarrow> stdin_io write iob m s
      | DevStdout \<Rightarrow> Some (stdout_io write iob m s)
      | DevDisk0 \<Rightarrow> do { (r, iob', m', d) \<leftarrow> disk0_io write iob m (sfs s); Some (r, iob', m', s\<lparr>sfs := d\<rparr>) })"

definition dop_ioctl :: "devkind \<Rightarrow> int \<Rightarrow> int" where
  "dop_ioctl k op = (case k of DevStdin \<Rightarrow> stdin_ioctl op | DevStdout \<Rightarrow> stdout_ioctl op | DevDisk0 \<Rightarrow> disk0_ioctl op)"

definition dev_open :: "nat \<Rightarrow> u32 \<Rightarrow> 'z vfs_scheme \<Rightarrow> int" where
  "dev_open d open_flags s =
     (if open_flags AND (O_CREAT OR O_TRUNC OR O_EXCL OR O_APPEND) \<noteq> 0 then - errno_of E_INVAL
      else dop_open (dn_kind (dev_nodes s d)) open_flags)"

definition dev_close :: "nat \<Rightarrow> 'z vfs_scheme \<Rightarrow> int" where
  "dev_close d s = dop_close (dn_kind (dev_nodes s d))"

definition dev_read :: "nat \<Rightarrow> iobuf \<Rightarrow> mem \<Rightarrow> 'z vfs_scheme \<Rightarrow> (int \<times> iobuf \<times> mem \<times> 'z vfs_scheme) kernel" where
  "dev_read d iob m s = dop_io (dn_kind (dev_nodes s d)) iob False m s"

definition dev_write :: "nat \<Rightarrow> iobuf \<Rightarrow> mem \<Rightarrow> 'z vfs_scheme \<Rightarrow> (int \<times> iobuf \<times> mem \<times> 'z vfs_scheme) kernel" where
  "dev_write d iob m s = dop_io (dn_kind (dev_nodes s d)) iob True m s"

definition dev_ioctl :: "nat \<Rightarrow> int \<Rightarrow> 'z vfs_scheme \<Rightarrow> int" where
  "dev_ioctl d op s = dop_ioctl (dn_kind (dev_nodes s d)) op"

definition dev_gettype :: "nat \<Rightarrow> 'z vfs_scheme \<Rightarrow> int \<times> u32" where
  "dev_gettype d s = (0, if dev_blocks (dn_kind (dev_nodes s d)) s > 0 then S_IFBLK else S_IFCHR)"

text \<open>\<^verbatim>\<open>pos\<close> is signed; the remainder and the comparison with the size are unsigned.\<close>

definition dev_tryseek :: "nat \<Rightarrow> u32 \<Rightarrow> 'z vfs_scheme \<Rightarrow> int" where
  "dev_tryseek d pos s =
     (let k = dn_kind (dev_nodes s d)
      in if dev_blocks k s > 0 \<and> pos mod dev_blocksize k = 0 \<and> sint pos \<ge> 0 \<and> pos < dev_blocks k s * dev_blocksize k
         then 0 else - errno_of E_INVAL)"

section \<open>Reference counts and the call macros\<close>

text \<open>\<^verbatim>\<open>inode_check\<close> on a device node.\<close>

definition node_check :: "vnode \<Rightarrow> 'z vfs_scheme \<Rightarrow> unit kernel" where
  "node_check v s =
     (case v of
        SfsNode p \<Rightarrow> inode_check p (sfs s)
      | DevNode d \<Rightarrow> do {
          kassert (dn_ref (dev_nodes s d) \<ge> dn_open (dev_nodes s d) \<and> dn_open (dev_nodes s d) \<ge> 0);
          kassert (dn_ref (dev_nodes s d) < 0x10000 \<and> dn_open (dev_nodes s d) < 0x10000)
        })"

definition vop_ref_inc :: "vnode \<Rightarrow> 'z vfs_scheme \<Rightarrow> 'z vfs_scheme" where
  "vop_ref_inc v s =
     (case v of
        SfsNode p \<Rightarrow> s\<lparr>sfs := snd (inode_ref_inc p (sfs s))\<rparr>
      | DevNode d \<Rightarrow> upd_dev d (\<lambda>x. x\<lparr>dn_ref := dn_ref x + 1\<rparr>) s)"

definition vop_open_inc :: "vnode \<Rightarrow> 'z vfs_scheme \<Rightarrow> 'z vfs_scheme" where
  "vop_open_inc v s =
     (case v of
        SfsNode p \<Rightarrow> s\<lparr>sfs := snd (inode_open_inc p (sfs s))\<rparr>
      | DevNode d \<Rightarrow> upd_dev d (\<lambda>x. x\<lparr>dn_open := dn_open x + 1\<rparr>) s)"

text \<open>The table of the device operations has no \<^verbatim>\<open>vop_reclaim\<close>.\<close>

definition vop_ref_dec :: "vnode \<Rightarrow> 'z vfs_scheme \<Rightarrow> 'z vfs_scheme kernel" where
  "vop_ref_dec v s =
     (case v of
        SfsNode p \<Rightarrow> do { (_, f) \<leftarrow> inode_ref_dec p (sfs s); Some (s\<lparr>sfs := f\<rparr>) }
      | DevNode d \<Rightarrow> do {
          kassert (dn_ref (dev_nodes s d) > 0);
          let s1 = upd_dev d (\<lambda>x. x\<lparr>dn_ref := dn_ref x - 1\<rparr>) s;
          kassert (dn_ref (dev_nodes s1 d) \<noteq> 0);
          Some s1
        })"

definition vop_open_dec :: "vnode \<Rightarrow> 'z vfs_scheme \<Rightarrow> 'z vfs_scheme kernel" where
  "vop_open_dec v s =
     (case v of
        SfsNode p \<Rightarrow> do { (_, f) \<leftarrow> inode_open_dec p (sfs s); Some (s\<lparr>sfs := f\<rparr>) }
      | DevNode d \<Rightarrow> do {
          kassert (dn_open (dev_nodes s d) > 0);
          let s1 = upd_dev d (\<lambda>x. x\<lparr>dn_open := dn_open x - 1\<rparr>) s;
          if dn_open (dev_nodes s1 d) = 0 then do { node_check v s1; let r = dev_close d s1; Some s1 } else Some s1
        })"

definition is_file :: "nat \<Rightarrow> 'z vfs_scheme \<Rightarrow> bool" where
  "is_file p s \<longleftrightarrow> in_ops (nodes (sfs s) p) = FileOps"

definition vop_open :: "vnode \<Rightarrow> u32 \<Rightarrow> 'z vfs_scheme \<Rightarrow> int kernel" where
  "vop_open v open_flags s = do {
     node_check v s;
     Some (case v of
        SfsNode p \<Rightarrow> if is_file p s then sfs_openfile open_flags else sfs_opendir open_flags
      | DevNode d \<Rightarrow> dev_open d open_flags s)
   }"

definition vop_read :: "vnode \<Rightarrow> iobuf \<Rightarrow> mem \<Rightarrow> 'z vfs_scheme \<Rightarrow> (int \<times> iobuf \<times> mem \<times> 'z vfs_scheme) kernel" where
  "vop_read v iob m s =
     (case v of
        SfsNode p \<Rightarrow> do {
          kassert (is_file p s); node_check v s;
          (r, iob', m', f) \<leftarrow> sfs_read p iob m (sfs s);
          Some (r, iob', m', s\<lparr>sfs := f\<rparr>)
        }
      | DevNode d \<Rightarrow> do { node_check v s; dev_read d iob m s })"

definition vop_write :: "vnode \<Rightarrow> iobuf \<Rightarrow> mem \<Rightarrow> 'z vfs_scheme \<Rightarrow> (int \<times> iobuf \<times> mem \<times> 'z vfs_scheme) kernel" where
  "vop_write v iob m s =
     (case v of
        SfsNode p \<Rightarrow> do {
          kassert (is_file p s); node_check v s;
          (r, iob', m', f) \<leftarrow> sfs_write p iob m (sfs s);
          Some (r, iob', m', s\<lparr>sfs := f\<rparr>)
        }
      | DevNode d \<Rightarrow> do { node_check v s; dev_write d iob m s })"

definition vop_gettype :: "vnode \<Rightarrow> 'z vfs_scheme \<Rightarrow> (int \<times> u32) kernel" where
  "vop_gettype v s = do {
     node_check v s;
     case v of SfsNode p \<Rightarrow> sfs_gettype p (sfs s) | DevNode d \<Rightarrow> Some (dev_gettype d s)
   }"

definition dev_fstat :: "nat \<Rightarrow> 'z vfs_scheme \<Rightarrow> (int \<times> stat) kernel" where
  "dev_fstat d s = do {
     (ret, mode) \<leftarrow> vop_gettype (DevNode d) s;
     let k = dn_kind (dev_nodes s d);
     if ret \<noteq> 0 then Some (ret, \<lparr>st_mode = mode, st_nlinks = 0, st_blocks = 0, st_size = 0\<rparr>)
     else Some (0, \<lparr>st_mode = mode, st_nlinks = 1, st_blocks = dev_blocks k s, st_size = dev_blocks k s * dev_blocksize k\<rparr>)
   }"

definition vop_fstat :: "vnode \<Rightarrow> 'z vfs_scheme \<Rightarrow> (int \<times> stat) kernel" where
  "vop_fstat v s = do {
     node_check v s;
     case v of SfsNode p \<Rightarrow> sfs_fstat p (sfs s) | DevNode d \<Rightarrow> dev_fstat d s
   }"

text \<open>The macros \<^verbatim>\<open>vop_fsync\<close> and \<^verbatim>\<open>vop_truncate\<close> on any node; devices have neither operation.\<close>

definition node_fsync :: "vnode \<Rightarrow> 'z vfs_scheme \<Rightarrow> (int \<times> 'z vfs_scheme) kernel" where
  "node_fsync v s =
     (case v of
        SfsNode p \<Rightarrow> do { (r, f) \<leftarrow> vop_fsync p (sfs s); Some (r, s\<lparr>sfs := f\<rparr>) }
      | DevNode d \<Rightarrow> panic)"

definition node_truncate :: "vnode \<Rightarrow> u32 \<Rightarrow> 'z vfs_scheme \<Rightarrow> (int \<times> 'z vfs_scheme) kernel" where
  "node_truncate v len s =
     (case v of
        SfsNode p \<Rightarrow> do { (r, f) \<leftarrow> vop_truncate p len (sfs s); Some (r, s\<lparr>sfs := f\<rparr>) }
      | DevNode d \<Rightarrow> panic)"

definition vop_tryseek :: "vnode \<Rightarrow> u32 \<Rightarrow> 'z vfs_scheme \<Rightarrow> (int \<times> 'z vfs_scheme) kernel" where
  "vop_tryseek v pos s =
     (case v of
        SfsNode p \<Rightarrow> do {
          kassert (is_file p s); node_check v s;
          (r, f) \<leftarrow> sfs_tryseek p pos (sfs s);
          Some (r, s\<lparr>sfs := f\<rparr>)
        }
      | DevNode d \<Rightarrow> do { node_check v s; Some (dev_tryseek d pos s, s) })"

definition vop_getdirentry :: "vnode \<Rightarrow> iobuf \<Rightarrow> mem \<Rightarrow> 'z vfs_scheme \<Rightarrow> (int \<times> iobuf \<times> mem \<times> 'z vfs_scheme) kernel" where
  "vop_getdirentry v iob m s =
     (case v of
        SfsNode p \<Rightarrow> do {
          kassert (\<not> is_file p s); node_check v s;
          (r, iob', m', f) \<leftarrow> sfs_getdirentry p iob m (sfs s);
          Some (r, iob', m', s\<lparr>sfs := f\<rparr>)
        }
      | DevNode d \<Rightarrow> panic)"

definition vop_namefile :: "vnode \<Rightarrow> iobuf \<Rightarrow> mem \<Rightarrow> 'z vfs_scheme \<Rightarrow> (int \<times> iobuf \<times> mem \<times> 'z vfs_scheme) kernel" where
  "vop_namefile v iob m s =
     (case v of
        SfsNode p \<Rightarrow> do {
          kassert (\<not> is_file p s); node_check v s;
          (r, iob', m', f) \<leftarrow> sfs_namefile p iob m (sfs s);
          Some (r, iob', m', s\<lparr>sfs := f\<rparr>)
        }
      | DevNode d \<Rightarrow> panic)"

definition dev_lookup :: "nat \<Rightarrow> u8 list \<Rightarrow> 'z vfs_scheme \<Rightarrow> int \<times> vnode option \<times> 'z vfs_scheme" where
  "dev_lookup d path s =
     (if path \<noteq> [] then (- errno_of E_NOENT, None, s) else (0, Some (DevNode d), vop_ref_inc (DevNode d) s))"

definition vop_lookup :: "vnode \<Rightarrow> u8 list \<Rightarrow> 'z vfs_scheme \<Rightarrow> (int \<times> vnode option \<times> 'z vfs_scheme) kernel" where
  "vop_lookup v path s =
     (case v of
        SfsNode p \<Rightarrow> do {
          kassert (\<not> is_file p s); node_check v s;
          (r, q, f) \<leftarrow> sfs_lookup p path (sfs s);
          Some (r, if r = 0 then Some (SfsNode q) else None, s\<lparr>sfs := f\<rparr>)
        }
      | DevNode d \<Rightarrow> do { node_check v s; Some (dev_lookup d path s) })"

text \<open>No table has a \<^verbatim>\<open>vop_create\<close>.\<close>

definition vop_create :: "vnode \<Rightarrow> u8 list \<Rightarrow> bool \<Rightarrow> 'z vfs_scheme \<Rightarrow> (int \<times> vnode option \<times> 'z vfs_scheme) kernel" where
  "vop_create v name excl s = panic"

section \<open>The mounted file system\<close>

definition sfs_get_root :: "'z vfs_scheme \<Rightarrow> (vnode \<times> 'z vfs_scheme) kernel" where
  "sfs_get_root s = do {
     (ret, q, f) \<leftarrow> sfs_load_inode 1 (sfs s);
     kassert (ret = 0);
     Some (SfsNode q, s\<lparr>sfs := f\<rparr>)
   }"

section \<open>Named devices\<close>

definition lock_vdev_list :: "'z vfs_scheme \<Rightarrow> 'z vfs_scheme kernel" where
  "lock_vdev_list s = do { v \<leftarrow> sem_take (vdev_list_sem s); Some (s\<lparr>vdev_list_sem := v\<rparr>) }"

definition unlock_vdev_list :: "'z vfs_scheme \<Rightarrow> 'z vfs_scheme" where
  "unlock_vdev_list s = s\<lparr>vdev_list_sem := vdev_list_sem s + 1\<rparr>"

definition vfs_devlist_init :: "'z vfs_scheme \<Rightarrow> 'z vfs_scheme" where
  "vfs_devlist_init s = s\<lparr>vdev_links := list_init None (vdev_links s), vdev_list_sem := 1\<rparr>"

text \<open>The walk along the list that all loops of the file share: the first device with a given property. The head
  of the list is \<open>None\<close>.\<close>

partial_function (option) vdev_walk :: "nat option links \<Rightarrow> (nat \<Rightarrow> bool) \<Rightarrow> nat option \<Rightarrow> nat option kernel" where
  "vdev_walk h P le =
     (case list_next h le of
        None \<Rightarrow> Some None
      | Some d \<Rightarrow> if P d then Some (Some d) else vdev_walk h P (Some d))"

definition vfs_get_root :: "u8 list \<Rightarrow> 'z vfs_scheme \<Rightarrow> (int \<times> vnode option \<times> 'z vfs_scheme) kernel" where
  "vfs_get_root devname s =
     (if \<not> list_empty (vdev_links s) None then do {
        s1 \<leftarrow> lock_vdev_list s;
        w \<leftarrow> vdev_walk (vdev_links s1) (\<lambda>d. vd_devname (vdevs s1 d) = devname) None;
        (case w of
           None \<Rightarrow> Some (- errno_of E_NO_DEV, None, unlock_vdev_list s1)
         | Some d \<Rightarrow>
             if vd_fs (vdevs s1 d) then do {
               (v, s2) \<leftarrow> sfs_get_root s1;
               Some (0, Some v, unlock_vdev_list s2)
             }
             else if \<not> vd_mountable (vdevs s1 d) then
               (case vd_devnode (vdevs s1 d) of
                  Some v \<Rightarrow> Some (0, Some v, unlock_vdev_list (vop_ref_inc v s1))
                | None \<Rightarrow> panic)
             else Some (- errno_of E_NA_DEV, None, unlock_vdev_list s1))
      }
      else Some (- errno_of E_NO_DEV, None, s))"

definition vfs_get_devname :: "'z vfs_scheme \<Rightarrow> u8 list option kernel" where
  "vfs_get_devname s = do {
     w \<leftarrow> vdev_walk (vdev_links s) (\<lambda>d. vd_fs (vdevs s d)) None;
     Some (case w of Some d \<Rightarrow> Some (vd_devname (vdevs s d)) | None \<Rightarrow> None)
   }"

definition check_devname_conflict :: "u8 list \<Rightarrow> 'z vfs_scheme \<Rightarrow> bool kernel" where
  "check_devname_conflict devname s = do {
     w \<leftarrow> vdev_walk (vdev_links s) (\<lambda>d. vd_devname (vdevs s d) = devname) None;
     Some (w = None)
   }"

text \<open>\<^verbatim>\<open>vfs_do_add\<close>: \<open>dup\<close> says whether \<^verbatim>\<open>strdup\<close> found memory, \<open>vd\<close> is the answer of \<^verbatim>\<open>kmalloc\<close>.\<close>

definition vfs_do_add :: "bool \<Rightarrow> nat option \<Rightarrow> u8 list \<Rightarrow> vnode option \<Rightarrow> bool \<Rightarrow> bool \<Rightarrow> 'z vfs_scheme \<Rightarrow> (int \<times> 'z vfs_scheme) kernel" where
  "vfs_do_add dup vd devname devnode fs mountable s = do {
     kassert (case devnode of None \<Rightarrow> \<not> mountable | Some (DevNode _) \<Rightarrow> True | Some (SfsNode _) \<Rightarrow> False);
     if length devname > 31 then Some (- errno_of E_TOO_BIG, s)
     else if \<not> dup then Some (- errno_of E_NO_MEM, s)
     else case vd of
       None \<Rightarrow> Some (- errno_of E_NO_MEM, s)
     | Some d \<Rightarrow> do {
         s1 \<leftarrow> lock_vdev_list s;
         free \<leftarrow> check_devname_conflict devname s1;
         if \<not> free then Some (- errno_of E_EXISTS, unlock_vdev_list s1)
         else do {
           let s2 = s1\<lparr>vdevs := (vdevs s1)(d := \<lparr>vd_devname = devname, vd_devnode = devnode, vd_fs = fs, vd_mountable = mountable\<rparr>)\<rparr>;
           let s3 = s2\<lparr>vdev_links := list_add None (Some d) (vdev_links s2)\<rparr>;
           Some (0, unlock_vdev_list s3)
         }
       }
   }"

definition vfs_add_fs :: "bool \<Rightarrow> nat option \<Rightarrow> u8 list \<Rightarrow> bool \<Rightarrow> 'z vfs_scheme \<Rightarrow> (int \<times> 'z vfs_scheme) kernel" where
  "vfs_add_fs dup vd devname fs s = vfs_do_add dup vd devname None fs False s"

definition vfs_add_dev :: "bool \<Rightarrow> nat option \<Rightarrow> u8 list \<Rightarrow> vnode \<Rightarrow> bool \<Rightarrow> 'z vfs_scheme \<Rightarrow> (int \<times> 'z vfs_scheme) kernel" where
  "vfs_add_dev dup vd devname devnode mountable s = vfs_do_add dup vd devname (Some devnode) False mountable s"

definition find_mount :: "u8 list \<Rightarrow> 'z vfs_scheme \<Rightarrow> nat option kernel" where
  "find_mount devname s = vdev_walk (vdev_links s) (\<lambda>d. vd_mountable (vdevs s d) \<and> vd_devname (vdevs s d) = devname) None"

section \<open>The current directory and the boot file system\<close>

definition vfs_get_curdir :: "'z vfs_scheme \<Rightarrow> int \<times> vnode option \<times> 'z vfs_scheme" where
  "vfs_get_curdir s =
     (case pwd (fs_structs s (cur_fs s)) of
        Some v \<Rightarrow> (0, Some v, vop_ref_inc v s)
      | None \<Rightarrow> (- errno_of E_NOENT, None, s))"

definition lock_fs :: "nat \<Rightarrow> 'z vfs_scheme \<Rightarrow> 'z vfs_scheme kernel" where
  "lock_fs a s = do { v \<leftarrow> sem_take (fs_sem (fs_structs s a)); Some (upd_fs a (\<lambda>x. x\<lparr>fs_sem := v\<rparr>) s) }"

definition unlock_fs :: "nat \<Rightarrow> 'z vfs_scheme \<Rightarrow> 'z vfs_scheme" where
  "unlock_fs a s = upd_fs a (\<lambda>x. x\<lparr>fs_sem := fs_sem x + 1\<rparr>) s"

definition vfs_set_curdir :: "vnode option \<Rightarrow> 'z vfs_scheme \<Rightarrow> (int \<times> 'z vfs_scheme) kernel" where
  "vfs_set_curdir dir s = do {
     s1 \<leftarrow> lock_fs (cur_fs s) s;
     let old_dir = pwd (fs_structs s1 (cur_fs s1));
     (ret, s4) \<leftarrow>
       (if old_dir \<noteq> dir then do {
          (ret, s2) \<leftarrow>
            (case dir of
               None \<Rightarrow> Some (0, s1)
             | Some v \<Rightarrow> do {
                 (ret, type) \<leftarrow> vop_gettype v s1;
                 if ret \<noteq> 0 then Some (ret, s1)
                 else if type AND S_IFMT \<noteq> S_IFDIR then Some (- errno_of E_NOTDIR, s1)
                 else Some (0, vop_ref_inc v s1)
               });
          if ret \<noteq> 0 then Some (ret, s2)
          else do {
            let s3 = upd_fs (cur_fs s2) (\<lambda>x. x\<lparr>pwd := dir\<rparr>) s2;
            s4 \<leftarrow> (case old_dir of Some v \<Rightarrow> vop_ref_dec v s3 | None \<Rightarrow> Some s3);
            Some (0, s4)
          }
        }
        else Some (0, s1));
     Some (ret, unlock_fs (cur_fs s4) s4)
   }"

definition vfs_get_bootfs :: "'z vfs_scheme \<Rightarrow> (int \<times> vnode option \<times> 'z vfs_scheme) kernel" where
  "vfs_get_bootfs s =
     (case bootfs_node s of
        None \<Rightarrow> Some (- errno_of E_NOENT, None, s)
      | Some v \<Rightarrow> do { _ \<leftarrow> sem_take (bootfs_sem s); Some (0, Some v, vop_ref_inc v s) })"

definition change_bootfs :: "vnode option \<Rightarrow> 'z vfs_scheme \<Rightarrow> 'z vfs_scheme kernel" where
  "change_bootfs v s = do {
     _ \<leftarrow> sem_take (bootfs_sem s);
     let s1 = s\<lparr>bootfs_node := v\<rparr>;
     case bootfs_node s of Some old \<Rightarrow> vop_ref_dec old s1 | None \<Rightarrow> Some s1
   }"

section \<open>Path names\<close>

text \<open>The positions of the first colon or slash; \<open>-1\<close> where there is none.\<close>

fun scan_path :: "u8 list \<Rightarrow> int \<Rightarrow> int \<times> int" where
  "scan_path [] i = (-1, -1)"
| "scan_path (c # cs) i = (if c = 58 then (-1, i) else if c = 47 then (i, -1) else scan_path cs (i + 1))"

text \<open>
  The answer holds the rest of the path, the node to start from, and the string that is left in the caller's
  buffer: the colon after a device name is overwritten with a zero byte.
\<close>

definition get_device :: "u8 list \<Rightarrow> 'z vfs_scheme \<Rightarrow> (int \<times> u8 list \<times> vnode option \<times> u8 list \<times> 'z vfs_scheme) kernel" where
  "get_device path s =
     (let (slash, colon) = scan_path path 0
      in if colon < 0 \<and> slash \<noteq> 0 then let (r, v, s1) = vfs_get_curdir s in Some (r, path, v, path, s1)
         else if colon > 0 then do {
           let dev = take (nat colon) path;
           (r, v, s1) \<leftarrow> vfs_get_root dev s;
           Some (r, dropWhile (\<lambda>c. c = 47) (drop (nat colon + 1) path), v, dev, s1)
         }
         else do {
           (r, v, s1) \<leftarrow>
             (if hd path = 47 then vfs_get_bootfs s
              else do {
                kassert (hd path = 58);
                let (r, v, s1) = vfs_get_curdir s;
                if r \<noteq> 0 then Some (r, None, s1)
                else case v of
                  Some (SfsNode p) \<Rightarrow> do { (w, s2) \<leftarrow> sfs_get_root s1; s3 \<leftarrow> vop_ref_dec (SfsNode p) s2; Some (0, Some w, s3) }
                | _ \<Rightarrow> panic
              });
           Some (r, dropWhile (\<lambda>c. c = 47) (tl path), v, path, s1)
         })"

definition vfs_lookup :: "u8 list \<Rightarrow> 'z vfs_scheme \<Rightarrow> (int \<times> vnode option \<times> u8 list \<times> 'z vfs_scheme) kernel" where
  "vfs_lookup path s = do {
     (ret, sub, v, path', s1) \<leftarrow> get_device path s;
     if ret \<noteq> 0 then Some (ret, None, path', s1)
     else case v of
       None \<Rightarrow> panic
     | Some v \<Rightarrow>
         if sub \<noteq> [] then do {
           (ret, w, s2) \<leftarrow> vop_lookup v sub s1;
           s3 \<leftarrow> vop_ref_dec v s2;
           Some (ret, w, path', s3)
         }
         else Some (0, Some v, path', s1)
   }"

definition vfs_lookup_parent :: "u8 list \<Rightarrow> 'z vfs_scheme \<Rightarrow> (int \<times> vnode option \<times> u8 list \<times> 'z vfs_scheme) kernel" where
  "vfs_lookup_parent path s = do {
     (ret, sub, v, _, s1) \<leftarrow> get_device path s;
     if ret \<noteq> 0 then Some (ret, None, [], s1) else Some (0, v, sub, s1)
   }"

definition vfs_chdir :: "u8 list \<Rightarrow> 'z vfs_scheme \<Rightarrow> (int \<times> 'z vfs_scheme) kernel" where
  "vfs_chdir path s = do {
     (ret, v, _, s1) \<leftarrow> vfs_lookup path s;
     if ret = 0 then do {
       (ret', s2) \<leftarrow> vfs_set_curdir v s1;
       s3 \<leftarrow> (case v of Some w \<Rightarrow> vop_ref_dec w s2 | None \<Rightarrow> panic);
       Some (ret', s3)
     }
     else Some (ret, s1)
   }"

definition vfs_set_bootfs :: "u8 list option \<Rightarrow> 'z vfs_scheme \<Rightarrow> (int \<times> 'z vfs_scheme) kernel" where
  "vfs_set_bootfs fsname s =
     (case fsname of
        None \<Rightarrow> do { s1 \<leftarrow> change_bootfs None s; Some (0, s1) }
      | Some n \<Rightarrow>
          if dropWhile (\<lambda>c. c \<noteq> 58) n \<noteq> [58] then Some (- errno_of E_INVAL, s)
          else do {
            (ret, s1) \<leftarrow> vfs_chdir n s;
            if ret \<noteq> 0 then Some (ret, s1)
            else let (ret', v, s2) = vfs_get_curdir s1
                 in if ret' \<noteq> 0 then Some (ret', s2)
                    else do { s3 \<leftarrow> change_bootfs v s2; Some (0, s3) }
          })"

text \<open>The device name is copied with its length, without a zero byte, then a colon and the path.\<close>

definition vfs_getcwd :: "iobuf \<Rightarrow> mem \<Rightarrow> 'z vfs_scheme \<Rightarrow> (int \<times> iobuf \<times> mem \<times> 'z vfs_scheme) kernel" where
  "vfs_getcwd iob m s =
     (let (ret, v, s1) = vfs_get_curdir s
      in if ret \<noteq> 0 then Some (ret, iob, m, s1)
         else case v of
           Some (SfsNode p) \<Rightarrow> do {
             n \<leftarrow> vfs_get_devname s1;
             name \<leftarrow> n;
             (r, _, iob1, m1, _) \<leftarrow> iobuf_move (of_nat (length name)) True iob m (\<lambda>i. if i < length name then name ! i else 0);
             (r', iob3, m3, s3) \<leftarrow>
               (if r \<noteq> 0 then Some (r, iob1, m1, s1)
                else do {
                  (r1, _, iob2, m2, _) \<leftarrow> iobuf_move 1 True iob1 m1 (\<lambda>_. 58);
                  if r1 \<noteq> 0 then Some (r1, iob2, m2, s1) else vop_namefile (SfsNode p) iob2 m2 s1
                });
             s4 \<leftarrow> vop_ref_dec (SfsNode p) s3;
             Some (r', iob3, m3, s4)
           }
         | _ \<Rightarrow> panic)"

section \<open>Opening and closing\<close>

definition vfs_open :: "u8 list \<Rightarrow> u32 \<Rightarrow> 'z vfs_scheme \<Rightarrow> (int \<times> vnode option \<times> 'z vfs_scheme) kernel" where
  "vfs_open path open_flags s =
     (let mode = open_flags AND O_ACCMODE; can_write = (mode = O_WRONLY \<or> mode = O_RDWR);
          excl = (open_flags AND O_EXCL \<noteq> 0); create = (open_flags AND O_CREAT \<noteq> 0)
      in if mode \<noteq> O_RDONLY \<and> mode \<noteq> O_WRONLY \<and> mode \<noteq> O_RDWR then Some (- errno_of E_INVAL, None, s)
         else if open_flags AND O_TRUNC \<noteq> 0 \<and> \<not> can_write then Some (- errno_of E_INVAL, None, s)
         else do {
           (ret, v, path', s1) \<leftarrow> vfs_lookup path s;
           if ret \<noteq> 0 \<and> \<not> (ret = -16 \<and> create) then Some (ret, None, s1)
           else if ret = 0 \<and> excl \<and> create then Some (- errno_of E_EXISTS, None, s1)
           else do {
             (fail, v, s2) \<leftarrow>
               (if ret \<noteq> 0 then do {
                  (ret', dir, name, s2) \<leftarrow> vfs_lookup_parent path' s1;
                  if ret' \<noteq> 0 then Some (ret', None, s2)
                  else do {
                    d \<leftarrow> dir;
                    (_, v, s3) \<leftarrow> vop_create d name excl s2;
                    Some (0, v, s3)
                  }
                }
                else Some (0, v, s1));
             if fail \<noteq> 0 then Some (fail, None, s2)
             else case v of
               None \<Rightarrow> panic
             | Some w \<Rightarrow> do {
                 ret \<leftarrow> vop_open w open_flags s2;
                 if ret \<noteq> 0 then do { s3 \<leftarrow> vop_ref_dec w s2; Some (ret, None, s3) }
                 else do {
                   let s3 = vop_open_inc w s2;
                   (ret, s4) \<leftarrow> (if open_flags AND O_TRUNC \<noteq> 0 \<or> create then node_truncate w 0 s3 else Some (0, s3));
                   if ret \<noteq> 0 then do { s5 \<leftarrow> vop_open_dec w s4; s6 \<leftarrow> vop_ref_dec w s5; Some (ret, None, s6) }
                   else Some (0, Some w, s4)
                 }
               }
           }
         })"

definition vfs_close :: "vnode \<Rightarrow> 'z vfs_scheme \<Rightarrow> 'z vfs_scheme kernel" where
  "vfs_close v s = do { s1 \<leftarrow> vop_open_dec v s; vop_ref_dec v s1 }"

text \<open>\<^verbatim>\<open>vfs_unlink\<close>, \<^verbatim>\<open>vfs_rename\<close>, \<^verbatim>\<open>vfs_link\<close>, \<^verbatim>\<open>vfs_symlink\<close>, \<^verbatim>\<open>vfs_readlink\<close> and \<^verbatim>\<open>vfs_mkdir\<close>.\<close>

definition vfs_unimplemented :: int where
  "vfs_unimplemented = - errno_of E_UNIMP"

end
