(* ===== verification/File.thy ===== *)
theory File
  imports Vfs
begin

text \<open>
  File descriptors: \<^verbatim>\<open>kern/fs/file.c\<close> and \<^verbatim>\<open>kern/fs/fs.c\<close>. A \<^verbatim>\<open>struct file *\<close> is the \<^verbatim>\<open>fs_struct\<close> it lies
  in and its index there; each table has 145 entries, what fits into a page after the
  \<^verbatim>\<open>fs_struct\<close>. Every process has an \<^verbatim>\<open>fs_struct\<close>: \<^verbatim>\<open>proc_init\<close> gives one to the idle process and
  \<^verbatim>\<open>copy_fs\<close> to every child. \<open>fds_inv\<close> is the invariant of the tables between calls; it counts the
  descriptors that hold each node.
\<close>

abbreviation (input) FS_STRUCT_NENTRY :: nat where "FS_STRUCT_NENTRY \<equiv> 145"
abbreviation (input) NO_FD :: int where "NO_FD \<equiv> - 0x9527"

section \<open>Operations on table entries\<close>

definition upd_file :: "nat \<Rightarrow> nat \<Rightarrow> (file_t \<Rightarrow> file_t) \<Rightarrow> 'z vfs_scheme \<Rightarrow> 'z vfs_scheme" where
  "upd_file a i f s = upd_fs a (\<lambda>x. x\<lparr>filemap := (filemap x)(i := f (filemap x i))\<rparr>) s"

abbreviation fil :: "'z vfs_scheme \<Rightarrow> nat \<Rightarrow> nat \<Rightarrow> file_t" where
  "fil s a i \<equiv> filemap (fs_structs s a) i"

definition testfd :: "int \<Rightarrow> bool" where
  "testfd fd \<longleftrightarrow> fd \<ge> 0 \<and> fd < int FS_STRUCT_NENTRY"

definition get_filemap :: "'z vfs_scheme \<Rightarrow> nat kernel" where
  "get_filemap s = do { kassert (fs_count (fs_structs s (cur_fs s)) > 0); Some (cur_fs s) }"

definition filemap_init :: "nat \<Rightarrow> 'z vfs_scheme \<Rightarrow> 'z vfs_scheme" where
  "filemap_init a s =
     fold (\<lambda>i. upd_file a i (\<lambda>x. x\<lparr>f_open_count := 0, f_status := FD_NONE, f_fd := int i\<rparr>)) [0..<FS_STRUCT_NENTRY] s"

fun fd_scan :: "nat \<Rightarrow> nat \<Rightarrow> (nat \<Rightarrow> file_t) \<Rightarrow> nat option" where
  "fd_scan 0 fd fm = None"
| "fd_scan (Suc n) fd fm = (if f_status (fm fd) = FD_NONE then Some fd else fd_scan n (fd + 1) fm)"

definition alloc_found :: "nat \<Rightarrow> nat \<Rightarrow> 'z vfs_scheme \<Rightarrow> (int \<times> nat \<times> 'z vfs_scheme) kernel" where
  "alloc_found a i s = do {
     kassert (f_open_count (fil s a i) = 0);
     Some (0, i, upd_file a i (\<lambda>x. x\<lparr>f_status := FD_INIT, f_node := None\<rparr>) s)
   }"

definition filemap_alloc :: "int \<Rightarrow> 'z vfs_scheme \<Rightarrow> (int \<times> nat \<times> 'z vfs_scheme) kernel" where
  "filemap_alloc fd s = do {
     a \<leftarrow> get_filemap s;
     if fd = NO_FD then
       (case fd_scan FS_STRUCT_NENTRY 0 (filemap (fs_structs s a)) of
          Some i \<Rightarrow> alloc_found a i s
        | None \<Rightarrow> Some (- errno_of E_MAX_OPEN, 0, s))
     else if testfd fd then
       if f_status (fil s a (nat fd)) = FD_NONE then alloc_found a (nat fd) s
       else Some (- errno_of E_BUSY, 0, s)
     else Some (- errno_of E_INVAL, 0, s)
   }"

definition filemap_free :: "nat \<Rightarrow> nat \<Rightarrow> 'z vfs_scheme \<Rightarrow> 'z vfs_scheme kernel" where
  "filemap_free a i s = do {
     kassert (f_status (fil s a i) = FD_INIT \<or> f_status (fil s a i) = FD_CLOSED);
     kassert (f_open_count (fil s a i) = 0);
     s1 \<leftarrow> (if f_status (fil s a i) = FD_CLOSED then do { v \<leftarrow> f_node (fil s a i); vfs_close v s } else Some s);
     Some (upd_file a i (\<lambda>x. x\<lparr>f_status := FD_NONE\<rparr>) s1)
   }"

definition filemap_acquire :: "nat \<Rightarrow> nat \<Rightarrow> 'z vfs_scheme \<Rightarrow> 'z vfs_scheme kernel" where
  "filemap_acquire a i s = do {
     kassert (f_status (fil s a i) = FD_OPENED);
     Some (upd_file a i (\<lambda>x. x\<lparr>f_open_count := f_open_count x + 1\<rparr>) s)
   }"

definition filemap_release :: "nat \<Rightarrow> nat \<Rightarrow> 'z vfs_scheme \<Rightarrow> 'z vfs_scheme kernel" where
  "filemap_release a i s = do {
     kassert (f_status (fil s a i) = FD_OPENED \<or> f_status (fil s a i) = FD_CLOSED);
     kassert (f_open_count (fil s a i) > 0);
     let s1 = upd_file a i (\<lambda>x. x\<lparr>f_open_count := f_open_count x - 1\<rparr>) s;
     if f_open_count (fil s1 a i) = 0 then filemap_free a i s1 else Some s1
   }"

definition filemap_open :: "nat \<Rightarrow> nat \<Rightarrow> 'z vfs_scheme \<Rightarrow> 'z vfs_scheme kernel" where
  "filemap_open a i s = do {
     kassert (f_status (fil s a i) = FD_INIT \<and> f_node (fil s a i) \<noteq> None);
     Some (upd_file a i (\<lambda>x. x\<lparr>f_status := FD_OPENED, f_open_count := f_open_count x + 1\<rparr>) s)
   }"

definition filemap_close :: "nat \<Rightarrow> nat \<Rightarrow> 'z vfs_scheme \<Rightarrow> 'z vfs_scheme kernel" where
  "filemap_close a i s = do {
     kassert (f_status (fil s a i) = FD_OPENED);
     kassert (f_open_count (fil s a i) > 0);
     let s1 = upd_file a i (\<lambda>x. x\<lparr>f_status := FD_CLOSED, f_open_count := f_open_count x - 1\<rparr>) s;
     if f_open_count (fil s1 a i) = 0 then filemap_free a i s1 else Some s1
   }"

text \<open>The entry at \<open>(b, j)\<close> becomes a copy of the entry at \<open>(a, i)\<close>.\<close>

definition filemap_dup :: "nat \<Rightarrow> nat \<Rightarrow> nat \<Rightarrow> nat \<Rightarrow> 'z vfs_scheme \<Rightarrow> 'z vfs_scheme kernel" where
  "filemap_dup b j a i s = do {
     kassert (f_status (fil s b j) = FD_INIT \<and> f_status (fil s a i) = FD_OPENED);
     v \<leftarrow> f_node (fil s a i);
     let from = fil s a i;
     let s1 = upd_file b j (\<lambda>x. x\<lparr>f_pos := f_pos from, f_readable := f_readable from, f_writable := f_writable from\<rparr>) s;
     let s2 = vop_open_inc v (vop_ref_inc v s1);
     filemap_open b j (upd_file b j (\<lambda>x. x\<lparr>f_node := Some v\<rparr>) s2)
   }"

definition fd2file :: "int \<Rightarrow> 'z vfs_scheme \<Rightarrow> (int \<times> nat) kernel" where
  "fd2file fd s =
     (if testfd fd then do {
        a \<leftarrow> get_filemap s;
        Some (if f_status (fil s a (nat fd)) = FD_OPENED \<and> f_fd (fil s a (nat fd)) = fd then (0, nat fd) else (- errno_of E_INVAL, 0))
      }
      else Some (- errno_of E_INVAL, 0))"

section \<open>Operations on descriptors\<close>

definition file_testfd :: "int \<Rightarrow> bool \<Rightarrow> bool \<Rightarrow> 'z vfs_scheme \<Rightarrow> bool kernel" where
  "file_testfd fd readable writable s = do {
     (ret, i) \<leftarrow> fd2file fd s;
     let x = fil s (cur_fs s) i;
     Some (ret = 0 \<and> \<not> (readable \<and> \<not> f_readable x) \<and> \<not> (writable \<and> \<not> f_writable x))
   }"

text \<open>The first position of an opened file.\<close>

definition open_pos :: "vnode \<Rightarrow> u32 \<Rightarrow> 'z vfs_scheme \<Rightarrow> (int \<times> u32) kernel" where
  "open_pos v open_flags s =
     (if open_flags AND O_APPEND \<noteq> 0 then do { (ret, st) \<leftarrow> vop_fstat v s; Some (ret, st_size st) } else Some (0, 0))"

definition file_open :: "u8 list \<Rightarrow> u32 \<Rightarrow> 'z vfs_scheme \<Rightarrow> (int \<times> 'z vfs_scheme) kernel" where
  "file_open path open_flags s =
     (let mode = open_flags AND O_ACCMODE; a = cur_fs s
      in if mode \<noteq> O_RDONLY \<and> mode \<noteq> O_WRONLY \<and> mode \<noteq> O_RDWR then Some (- errno_of E_INVAL, s)
         else do {
           (ret, i, s1) \<leftarrow> filemap_alloc NO_FD s;
           if ret \<noteq> 0 then Some (ret, s1)
           else do {
             (ret, v, s2) \<leftarrow> vfs_open path open_flags s1;
             if ret \<noteq> 0 then do { s3 \<leftarrow> filemap_free a i s2; Some (ret, s3) }
             else do {
               w \<leftarrow> v;
               (ret, pos) \<leftarrow> open_pos w open_flags s2;
               if ret \<noteq> 0 then do { s3 \<leftarrow> vfs_close w s2; s4 \<leftarrow> filemap_free a i s3; Some (ret, s4) }
               else do {
                 let s3 = upd_file a i (\<lambda>x. x\<lparr>f_pos := pos, f_node := Some w, f_readable := (mode = O_RDONLY \<or> mode = O_RDWR),
                   f_writable := (mode = O_WRONLY \<or> mode = O_RDWR)\<rparr>) s2;
                 s4 \<leftarrow> filemap_open a i s3;
                 Some (f_fd (fil s4 a i), s4)
               }
             }
           }
         })"

definition file_close :: "int \<Rightarrow> 'z vfs_scheme \<Rightarrow> (int \<times> 'z vfs_scheme) kernel" where
  "file_close fd s = do {
     (ret, i) \<leftarrow> fd2file fd s;
     if ret \<noteq> 0 then Some (ret, s)
     else do { s1 \<leftarrow> filemap_close (cur_fs s) i s; Some (0, s1) }
   }"

text \<open>The common text of \<^verbatim>\<open>file_read\<close> and \<^verbatim>\<open>file_write\<close> after the checks; \<open>op\<close> is \<^verbatim>\<open>vop_read\<close> or \<^verbatim>\<open>vop_write\<close>.\<close>

definition file_io :: "(vnode \<Rightarrow> iobuf \<Rightarrow> mem \<Rightarrow> 'z vfs_scheme \<Rightarrow> (int \<times> iobuf \<times> mem \<times> 'z vfs_scheme) kernel) \<Rightarrow>
    nat \<Rightarrow> nat \<Rightarrow> u32 \<Rightarrow> mem \<Rightarrow> 'z vfs_scheme \<Rightarrow> (int \<times> u32 \<times> mem \<times> 'z vfs_scheme) kernel" where
  "file_io op i base len m s = do {
     let a = cur_fs s;
     s1 \<leftarrow> filemap_acquire a i s;
     v \<leftarrow> f_node (fil s1 a i);
     (ret, iob, m', s2) \<leftarrow> op v (iobuf_init base len (f_pos (fil s1 a i))) m s1;
     let copied = iobuf_used iob;
     let s3 = (if f_status (fil s2 a i) = FD_OPENED then upd_file a i (\<lambda>x. x\<lparr>f_pos := f_pos x + copied\<rparr>) s2 else s2);
     s4 \<leftarrow> filemap_release a i s3;
     Some (ret, copied, m', s4)
   }"

definition file_read :: "int \<Rightarrow> nat \<Rightarrow> u32 \<Rightarrow> mem \<Rightarrow> 'z vfs_scheme \<Rightarrow> (int \<times> u32 \<times> mem \<times> 'z vfs_scheme) kernel" where
  "file_read fd base len m s = do {
     (ret, i) \<leftarrow> fd2file fd s;
     if ret \<noteq> 0 then Some (ret, 0, m, s)
     else if \<not> f_readable (fil s (cur_fs s) i) then Some (- errno_of E_INVAL, 0, m, s)
     else file_io vop_read i base len m s
   }"

definition file_write :: "int \<Rightarrow> nat \<Rightarrow> u32 \<Rightarrow> mem \<Rightarrow> 'z vfs_scheme \<Rightarrow> (int \<times> u32 \<times> mem \<times> 'z vfs_scheme) kernel" where
  "file_write fd base len m s = do {
     (ret, i) \<leftarrow> fd2file fd s;
     if ret \<noteq> 0 then Some (ret, 0, m, s)
     else if \<not> f_writable (fil s (cur_fs s) i) then Some (- errno_of E_INVAL, 0, m, s)
     else file_io vop_write i base len m s
   }"

text \<open>The switch of \<^verbatim>\<open>file_seek\<close>, and the move that follows it.\<close>

definition seek_target :: "nat \<Rightarrow> nat \<Rightarrow> vnode \<Rightarrow> u32 \<Rightarrow> int \<Rightarrow> 'z vfs_scheme \<Rightarrow> (int \<times> u32) kernel" where
  "seek_target a i v pos whence s =
     (if whence = 0 then Some (0, pos)
      else if whence = 1 then Some (0, pos + f_pos (fil s a i))
      else if whence = 2 then do { (ret, st) \<leftarrow> vop_fstat v s; Some (ret, if ret = 0 then pos + st_size st else pos) }
      else Some (- errno_of E_INVAL, pos))"

definition seek_move :: "nat \<Rightarrow> nat \<Rightarrow> vnode \<Rightarrow> int \<Rightarrow> u32 \<Rightarrow> 'z vfs_scheme \<Rightarrow> (int \<times> 'z vfs_scheme) kernel" where
  "seek_move a i v ret pos s =
     (if ret = 0 then do {
        (ret, s1) \<leftarrow> vop_tryseek v pos s;
        Some (ret, if ret = 0 then upd_file a i (\<lambda>x. x\<lparr>f_pos := pos\<rparr>) s1 else s1)
      }
      else Some (ret, s))"

definition file_seek :: "int \<Rightarrow> u32 \<Rightarrow> int \<Rightarrow> 'z vfs_scheme \<Rightarrow> (int \<times> 'z vfs_scheme) kernel" where
  "file_seek fd pos whence s = do {
     (ret, i) \<leftarrow> fd2file fd s;
     if ret \<noteq> 0 then Some (ret, s)
     else do {
       let a = cur_fs s;
       s1 \<leftarrow> filemap_acquire a i s;
       v \<leftarrow> f_node (fil s1 a i);
       (ret, pos') \<leftarrow> seek_target a i v pos whence s1;
       (ret, s3) \<leftarrow> seek_move a i v ret pos' s1;
       s4 \<leftarrow> filemap_release a i s3;
       Some (ret, s4)
     }
   }"

definition file_fstat :: "int \<Rightarrow> 'z vfs_scheme \<Rightarrow> (int \<times> stat option \<times> 'z vfs_scheme) kernel" where
  "file_fstat fd s = do {
     (ret, i) \<leftarrow> fd2file fd s;
     if ret \<noteq> 0 then Some (ret, None, s)
     else do {
       let a = cur_fs s;
       s1 \<leftarrow> filemap_acquire a i s;
       v \<leftarrow> f_node (fil s1 a i);
       (ret, st) \<leftarrow> vop_fstat v s1;
       s2 \<leftarrow> filemap_release a i s1;
       Some (ret, Some st, s2)
     }
   }"

definition file_fsync :: "int \<Rightarrow> 'z vfs_scheme \<Rightarrow> (int \<times> 'z vfs_scheme) kernel" where
  "file_fsync fd s = do {
     (ret, i) \<leftarrow> fd2file fd s;
     if ret \<noteq> 0 then Some (ret, s)
     else do {
       let a = cur_fs s;
       s1 \<leftarrow> filemap_acquire a i s;
       v \<leftarrow> f_node (fil s1 a i);
       (ret, s2) \<leftarrow> node_fsync v s1;
       s3 \<leftarrow> filemap_release a i s2;
       Some (ret, s3)
     }
   }"

text \<open>\<open>base\<close> is the address of the name in the \<^verbatim>\<open>struct dirent\<close>, \<open>offset\<close> its offset field, which is returned.\<close>

definition file_getdirentry :: "int \<Rightarrow> nat \<Rightarrow> u32 \<Rightarrow> mem \<Rightarrow> 'z vfs_scheme \<Rightarrow> (int \<times> u32 \<times> mem \<times> 'z vfs_scheme) kernel" where
  "file_getdirentry fd base offset m s = do {
     (ret, i) \<leftarrow> fd2file fd s;
     if ret \<noteq> 0 then Some (ret, offset, m, s)
     else do {
       let a = cur_fs s;
       s1 \<leftarrow> filemap_acquire a i s;
       v \<leftarrow> f_node (fil s1 a i);
       (ret, iob, m', s2) \<leftarrow> vop_getdirentry v (iobuf_init base 256 offset) m s1;
       s3 \<leftarrow> filemap_release a i s2;
       Some (ret, if ret = 0 then offset + iobuf_used iob else offset, m', s3)
     }
   }"

definition file_dup :: "int \<Rightarrow> int \<Rightarrow> 'z vfs_scheme \<Rightarrow> (int \<times> 'z vfs_scheme) kernel" where
  "file_dup fd1 fd2 s = do {
     (ret, i) \<leftarrow> fd2file fd1 s;
     if ret \<noteq> 0 then Some (ret, s)
     else do {
       (ret, j, s1) \<leftarrow> filemap_alloc fd2 s;
       if ret \<noteq> 0 then Some (ret, s1)
       else do {
         let a = cur_fs s;
         s2 \<leftarrow> filemap_dup a j a i s1;
         Some (f_fd (fil s2 a j), s2)
       }
     }
   }"

section \<open>The tables of processes\<close>

text \<open>\<open>a\<close> is the answer of \<^verbatim>\<open>kmalloc\<close>.\<close>

definition fs_create :: "nat option \<Rightarrow> 'z vfs_scheme \<Rightarrow> nat option \<times> 'z vfs_scheme" where
  "fs_create a s =
     (case a of
        None \<Rightarrow> (None, s)
      | Some p \<Rightarrow> (Some p, filemap_init p (upd_fs p (\<lambda>x. x\<lparr>pwd := None, fs_count := 0, fs_sem := 1\<rparr>) s)))"

fun close_loop :: "bool \<Rightarrow> nat \<Rightarrow> nat \<Rightarrow> nat \<Rightarrow> 'z vfs_scheme \<Rightarrow> 'z vfs_scheme kernel" where
  "close_loop strict 0 i a s = Some s"
| "close_loop strict (Suc n) i a s = do {
     s1 \<leftarrow> (if f_status (fil s a i) = FD_OPENED then filemap_close a i s else Some s);
     kassert (strict \<longrightarrow> f_status (fil s1 a i) = FD_NONE);
     close_loop strict n (i + 1) a s1
   }"

definition fs_destroy :: "nat \<Rightarrow> 'z vfs_scheme \<Rightarrow> 'z vfs_scheme kernel" where
  "fs_destroy a s = do {
     kassert (fs_count (fs_structs s a) = 0);
     s1 \<leftarrow> (case pwd (fs_structs s a) of Some v \<Rightarrow> vop_ref_dec v s | None \<Rightarrow> Some s);
     close_loop True FS_STRUCT_NENTRY 0 a s1
   }"

definition fs_closeall :: "nat \<Rightarrow> 'z vfs_scheme \<Rightarrow> 'z vfs_scheme kernel" where
  "fs_closeall a s = do {
     kassert (fs_count (fs_structs s a) > 0);
     close_loop False (FS_STRUCT_NENTRY - 2) 2 a s
   }"

fun dup_loop :: "nat \<Rightarrow> nat \<Rightarrow> nat \<Rightarrow> nat \<Rightarrow> 'z vfs_scheme \<Rightarrow> 'z vfs_scheme kernel" where
  "dup_loop 0 i b a s = Some s"
| "dup_loop (Suc n) i b a s = do {
     s1 \<leftarrow> (if f_status (fil s a i) = FD_OPENED
            then filemap_dup b i a i (upd_file b i (\<lambda>x. x\<lparr>f_status := FD_INIT\<rparr>) s) else Some s);
     dup_loop n (i + 1) b a s1
   }"

definition dup_fs :: "nat \<Rightarrow> nat \<Rightarrow> 'z vfs_scheme \<Rightarrow> 'z vfs_scheme kernel" where
  "dup_fs b a s = do {
     kassert (fs_count (fs_structs s b) = 0 \<and> fs_count (fs_structs s a) > 0);
     let s1 = upd_fs b (\<lambda>x. x\<lparr>pwd := pwd (fs_structs s a)\<rparr>) s;
     let s2 = (case pwd (fs_structs s1 b) of Some v \<Rightarrow> vop_ref_inc v s1 | None \<Rightarrow> s1);
     dup_loop FS_STRUCT_NENTRY 0 b a s2
   }"

end
