(* ===== verification/FdTable.thy ===== *)
theory FdTable
  imports File
begin

text \<open>
  The tables of file descriptors. The first part states what the node layer leaves alone and the
  invariant \<open>fds_ok\<close> of a table between calls; the second shows what copying a table for a child
  process and destroying it do to the tables and to the reference counts of the nodes.
\<close>

section \<open>Counts of nodes\<close>

definition nopen :: "'z vfs_scheme \<Rightarrow> vnode \<Rightarrow> int" where
  "nopen s v = (case v of SfsNode p \<Rightarrow> open_count (nodes (sfs s) p) | DevNode d \<Rightarrow> dn_open (dev_nodes s d))"

definition nref :: "'z vfs_scheme \<Rightarrow> vnode \<Rightarrow> int" where
  "nref s v = (case v of SfsNode p \<Rightarrow> ref_count (nodes (sfs s) p) | DevNode d \<Rightarrow> dn_ref (dev_nodes s d))"

lemma upd_file_simps [simp]:
  "sfs (upd_file a i f s) = sfs s" "dev_nodes (upd_file a i f s) = dev_nodes s" "console (upd_file a i f s) = console s"
  "cur_fs (upd_file a i f s) = cur_fs s" "con_out (upd_file a i f s) = con_out s"
  "fs_structs (upd_file a i f s) c = (if c = a then (fs_structs s a)\<lparr>filemap := (filemap (fs_structs s a))(i := f (fil s a i))\<rparr> else fs_structs s c)"
  "nopen (upd_file a i f s) = nopen s" "nref (upd_file a i f s) = nref s"
  by (simp_all add: upd_file_def upd_fs_def nopen_def nref_def fun_eq_iff split: vnode.split)

lemma upd_fs_simps [simp]:
  "sfs (upd_fs a f s) = sfs s" "dev_nodes (upd_fs a f s) = dev_nodes s" "cur_fs (upd_fs a f s) = cur_fs s"
  "fs_structs (upd_fs a f s) = (fs_structs s)(a := f (fs_structs s a))"
  "nopen (upd_fs a f s) = nopen s" "nref (upd_fs a f s) = nref s"
  by (simp_all add: upd_fs_def nopen_def nref_def fun_eq_iff split: vnode.split)

lemma vop_inc_simps [simp]:
  "fs_structs (vop_ref_inc v s) = fs_structs s" "cur_fs (vop_ref_inc v s) = cur_fs s"
  "fs_structs (vop_open_inc v s) = fs_structs s" "cur_fs (vop_open_inc v s) = cur_fs s"
  "nref (vop_ref_inc v s) w = nref s w + (if w = v then 1 else 0)" "nopen (vop_ref_inc v s) w = nopen s w"
  "nopen (vop_open_inc v s) w = nopen s w + (if w = v then 1 else 0)" "nref (vop_open_inc v s) w = nref s w"
  by (auto simp: vop_ref_inc_def vop_open_inc_def nref_def nopen_def upd_dev_def inode_ref_inc_def inode_open_inc_def upd_node_def
      split: vnode.splits)

text \<open>While another holder remains, dropping a reference only counts.\<close>

lemma vop_ref_dec_shared:
  assumes "nref s v > 1"
  shows "\<exists>s'. vop_ref_dec v s = Some s' \<and> fs_structs s' = fs_structs s \<and> cur_fs s' = cur_fs s \<and>
    (\<forall>w. nref s' w = nref s w - (if w = v then 1 else 0) \<and> nopen s' w = nopen s w)"
  using assms by (cases v) (auto simp: vop_ref_dec_def inode_ref_dec_def nref_def nopen_def upd_node_def upd_dev_def kassert_def Let_def split: vnode.splits)

lemma vop_open_dec_shared:
  assumes "nopen s v > 1"
  shows "\<exists>s'. vop_open_dec v s = Some s' \<and> fs_structs s' = fs_structs s \<and> cur_fs s' = cur_fs s \<and>
    (\<forall>w. nopen s' w = nopen s w - (if w = v then 1 else 0) \<and> nref s' w = nref s w)"
  using assms by (cases v) (auto simp: vop_open_dec_def inode_open_dec_def nref_def nopen_def upd_node_def upd_dev_def kassert_def Let_def split: vnode.splits)

lemma vfs_close_shared:
  assumes "nopen s v > 1" and "nref s v > 1"
  shows "\<exists>s'. vfs_close v s = Some s' \<and> fs_structs s' = fs_structs s \<and> cur_fs s' = cur_fs s \<and>
    (\<forall>w. nopen s' w = nopen s w - (if w = v then 1 else 0) \<and> nref s' w = nref s w - (if w = v then 1 else 0))"
proof -
  obtain s1 where s1: "vop_open_dec v s = Some s1" "fs_structs s1 = fs_structs s" "cur_fs s1 = cur_fs s"
    "\<forall>w. nopen s1 w = nopen s w - (if w = v then 1 else 0) \<and> nref s1 w = nref s w"
    using vop_open_dec_shared [OF assms(1)] by blast
  obtain s2 where s2: "vop_ref_dec v s1 = Some s2" "fs_structs s2 = fs_structs s1" "cur_fs s2 = cur_fs s1"
    "\<forall>w. nref s2 w = nref s1 w - (if w = v then 1 else 0) \<and> nopen s2 w = nopen s1 w"
    using vop_ref_dec_shared [of s1 v] assms(2) s1(4) by auto
  with s1 show ?thesis by (intro exI [of _ s2]) (simp add: vfs_close_def)
qed

section \<open>The invariant of a table\<close>

definition entry_ok :: "nat \<Rightarrow> file_t \<Rightarrow> bool" where
  "entry_ok i x \<longleftrightarrow> f_fd x = int i \<and>
     (f_status x = FD_NONE \<and> f_open_count x = 0 \<or> f_status x = FD_OPENED \<and> f_open_count x = 1 \<and> f_node x \<noteq> None)"

definition fds_ok :: "'z vfs_scheme \<Rightarrow> nat \<Rightarrow> bool" where
  "fds_ok s a \<longleftrightarrow> (\<forall>i < 145. entry_ok i (fil s a i))"

definition opened :: "'z vfs_scheme \<Rightarrow> nat \<Rightarrow> nat \<Rightarrow> bool" where
  "opened s a i \<longleftrightarrow> f_status (fil s a i) = FD_OPENED"

text \<open>The number of open descriptors, from \<open>i\<close> on, that refer to a node.\<close>

definition holders :: "'z vfs_scheme \<Rightarrow> nat \<Rightarrow> nat \<Rightarrow> nat \<Rightarrow> vnode \<Rightarrow> int" where
  "holders s a i n v = int (length (filter (\<lambda>j. opened s a j \<and> f_node (fil s a j) = Some v) [i..<i + n]))"

lemma holders_0 [simp]: "holders s a i 0 v = 0"
  by (simp add: holders_def)

lemma holders_Suc: "holders s a i (Suc n) v = (if opened s a i \<and> f_node (fil s a i) = Some v then 1 else 0) + holders s a (Suc i) n v"
proof -
  have "[i..<i + Suc n] = i # [Suc i..<Suc i + n]" by (simp add: upt_conv_Cons del: upt_Suc)
  then show ?thesis unfolding holders_def by (simp del: upt_Suc)
qed

lemma holders_nonneg [simp]: "0 \<le> holders s a i n v"
  by (simp add: holders_def)

lemma holders_cong: "(\<And>j. i \<le> j \<Longrightarrow> j < i + n \<Longrightarrow> fil s' a j = fil s a j) \<Longrightarrow> holders s' a i n v = holders s a i n v"
  unfolding holders_def opened_def by (intro arg_cong [of _ _ "\<lambda>x. int (length x)"] filter_cong) auto

section \<open>Copying a table\<close>

definition copied :: "file_t \<Rightarrow> file_t \<Rightarrow> file_t" where
  "copied y x = x\<lparr>f_pos := f_pos y, f_readable := f_readable y, f_writable := f_writable y, f_node := f_node y,
     f_status := FD_OPENED, f_open_count := f_open_count x + 1\<rparr>"

lemma upd_file_upd_file: "upd_file b i g (upd_file b i f s) = upd_file b i (\<lambda>x. g (f x)) s"
  by (simp add: upd_file_def upd_fs_def)

lemma upd_file_inc:
  "vop_open_inc v (upd_file b i f s) = upd_file b i f (vop_open_inc v s)" "vop_ref_inc v (upd_file b i f s) = upd_file b i f (vop_ref_inc v s)"
  by (cases v; simp add: upd_file_def upd_fs_def vop_open_inc_def vop_ref_inc_def upd_dev_def)+

lemma dup_entry:
  assumes "a \<noteq> b" and "opened s a i" and "f_node (fil s a i) = Some v"
  shows "filemap_dup b i a i (upd_file b i (\<lambda>x. x\<lparr>f_status := FD_INIT\<rparr>) s) =
    Some (upd_file b i (copied (fil s a i)) (vop_open_inc v (vop_ref_inc v s)))"
  using assms
  by (simp add: filemap_dup_def filemap_open_def kassert_def opened_def copied_def [abs_def] Let_def upd_file_inc upd_file_upd_file)

lemma dup_loop_spec:
  assumes "a \<noteq> b" and "\<And>j. i \<le> j \<Longrightarrow> j < i + n \<Longrightarrow> opened s a j \<Longrightarrow> f_node (fil s a j) \<noteq> None"
  shows "\<exists>s'. dup_loop n i b a s = Some s' \<and> cur_fs s' = cur_fs s \<and> (\<forall>c. c \<noteq> b \<longrightarrow> fs_structs s' c = fs_structs s c) \<and>
    fs_structs s' b = (fs_structs s b)\<lparr>filemap := (\<lambda>j. if i \<le> j \<and> j < i + n \<and> opened s a j then copied (fil s a j) (fil s b j) else fil s b j)\<rparr> \<and>
    (\<forall>v. nopen s' v = nopen s v + holders s a i n v \<and> nref s' v = nref s v + holders s a i n v)"
  using assms(2)
proof (induction n arbitrary: i s)
  case 0
  then show ?case by (auto intro!: fs_struct.equality simp: fun_eq_iff)
next
  case (Suc n)
  define s1 where "s1 = (case f_node (fil s a i) of Some v \<Rightarrow> if opened s a i then upd_file b i (copied (fil s a i)) (vop_open_inc v (vop_ref_inc v s)) else s | None \<Rightarrow> s)"
  have step: "(if f_status (fil s a i) = FD_OPENED then filemap_dup b i a i (upd_file b i (\<lambda>x. x\<lparr>f_status := FD_INIT\<rparr>) s) else Some s) = Some s1"
    using dup_entry [OF assms(1), of s i] Suc.prems [of i] by (auto simp: s1_def opened_def split: option.splits)
  have f1: "fs_structs s1 c = fs_structs s c" if "c \<noteq> b" for c using that by (simp add: s1_def split: option.splits)
  have o1: "opened s1 a = opened s a" "fil s1 a = fil s a" using f1 [OF assms(1)] by (simp_all add: opened_def fun_eq_iff)
  have b1: "fs_structs s1 b = (fs_structs s b)\<lparr>filemap := (\<lambda>j. if j = i \<and> opened s a i then copied (fil s a i) (fil s b j) else fil s b j)\<rparr>"
    using Suc.prems [of i] by (cases "f_node (fil s a i)") (auto simp: s1_def fun_eq_iff intro!: fs_struct.equality)
  have n1: "nopen s1 v = nopen s v + (if opened s a i \<and> f_node (fil s a i) = Some v then 1 else 0)"
    "nref s1 v = nref s v + (if opened s a i \<and> f_node (fil s a i) = Some v then 1 else 0)" for v
    by (auto simp: s1_def split: option.splits)
  obtain s' where s': "dup_loop n (Suc i) b a s1 = Some s'" "cur_fs s' = cur_fs s1" "\<forall>c. c \<noteq> b \<longrightarrow> fs_structs s' c = fs_structs s1 c"
    "fs_structs s' b = (fs_structs s1 b)\<lparr>filemap := (\<lambda>j. if Suc i \<le> j \<and> j < Suc i + n \<and> opened s1 a j then copied (fil s1 a j) (fil s1 b j) else fil s1 b j)\<rparr>"
    "\<forall>v. nopen s' v = nopen s1 v + holders s1 a (Suc i) n v \<and> nref s' v = nref s1 v + holders s1 a (Suc i) n v"
    using Suc.IH [of "Suc i" s1] Suc.prems o1 by auto
  have h: "holders s1 a (Suc i) n v = holders s a (Suc i) n v" for v by (rule holders_cong) (simp add: o1)
  have "dup_loop (Suc n) i b a s = Some s'" using step s'(1) by simp
  moreover have "cur_fs s' = cur_fs s" using s'(2) by (simp add: s1_def split: option.splits)
  moreover have "fs_structs s' b = (fs_structs s b)\<lparr>filemap := (\<lambda>j. if i \<le> j \<and> j < i + Suc n \<and> opened s a j then copied (fil s a j) (fil s b j) else fil s b j)\<rparr>"
    unfolding s'(4) b1 o1 by (auto simp: fun_eq_iff le_eq_less_or_eq intro: fs_struct.equality)
  ultimately show ?case using s'(3,5) f1 n1 h by (intro exI [of _ s']) (simp add: holders_Suc)
qed

section \<open>Destroying a table\<close>

lemma close_entry:
  assumes "entry_ok i (fil s a i)" and "opened s a i" and "f_node (fil s a i) = Some v" and "nopen s v > 1" and "nref s v > 1"
  shows "\<exists>s'. filemap_close a i s = Some s' \<and> cur_fs s' = cur_fs s \<and> (\<forall>c. c \<noteq> a \<longrightarrow> fs_structs s' c = fs_structs s c) \<and>
    fs_structs s' a = (fs_structs s a)\<lparr>filemap := (filemap (fs_structs s a))(i := (fil s a i)\<lparr>f_open_count := 0, f_status := FD_NONE\<rparr>)\<rparr> \<and>
    (\<forall>w. nopen s' w = nopen s w - (if w = v then 1 else 0) \<and> nref s' w = nref s w - (if w = v then 1 else 0))"
proof -
  let ?s = "upd_file a i (\<lambda>x. x\<lparr>f_status := FD_CLOSED, f_open_count := f_open_count x - 1\<rparr>) s"
  obtain t where t: "vfs_close v ?s = Some t" "fs_structs t = fs_structs ?s" "cur_fs t = cur_fs ?s"
    "\<forall>w. nopen t w = nopen ?s w - (if w = v then 1 else 0) \<and> nref t w = nref ?s w - (if w = v then 1 else 0)"
    using vfs_close_shared [of ?s v] assms(4,5) by auto
  have c: "f_open_count (fil s a i) = 1" "f_status (fil s a i) = FD_OPENED" using assms(1,2) by (auto simp: entry_ok_def opened_def)
  have "filemap_close a i s = Some (upd_file a i (\<lambda>x. x\<lparr>f_status := FD_NONE\<rparr>) t)"
    using t(1) c assms(3) by (simp add: filemap_close_def filemap_free_def kassert_def Let_def)
  then show ?thesis using t(2-4) c by (intro exI [of _ "upd_file a i (\<lambda>x. x\<lparr>f_status := FD_NONE\<rparr>) t"]) simp
qed

lemma close_loop_spec:
  assumes "\<forall>j < 145. entry_ok j (fil s a j)" and "i + n \<le> 145"
    and "\<And>v. holders s a i n v > 0 \<Longrightarrow> nopen s v > holders s a i n v \<and> nref s v > holders s a i n v"
  shows "\<exists>s'. close_loop strict n i a s = Some s' \<and> cur_fs s' = cur_fs s \<and> (\<forall>c. c \<noteq> a \<longrightarrow> fs_structs s' c = fs_structs s c) \<and>
    fs_structs s' a = (fs_structs s a)\<lparr>filemap := (\<lambda>j. if i \<le> j \<and> j < i + n \<and> opened s a j then (fil s a j)\<lparr>f_open_count := 0, f_status := FD_NONE\<rparr> else fil s a j)\<rparr> \<and>
    (\<forall>v. nopen s' v = nopen s v - holders s a i n v \<and> nref s' v = nref s v - holders s a i n v)"
  using assms
proof (induction n arbitrary: i s)
  case 0
  then show ?case by (auto intro!: fs_struct.equality simp: fun_eq_iff)
next
  case (Suc n)
  let ?x = "fil s a i"
  have e: "entry_ok i ?x" using Suc.prems(1,2) by simp
  obtain s1 where s1: "(if f_status ?x = FD_OPENED then filemap_close a i s else Some s) = Some s1" "cur_fs s1 = cur_fs s"
    "\<forall>c. c \<noteq> a \<longrightarrow> fs_structs s1 c = fs_structs s c"
    "fs_structs s1 a = (fs_structs s a)\<lparr>filemap := (filemap (fs_structs s a))(i := if opened s a i then ?x\<lparr>f_open_count := 0, f_status := FD_NONE\<rparr> else ?x)\<rparr>"
    "\<forall>w. nopen s1 w = nopen s w - (if opened s a i \<and> f_node ?x = Some w then 1 else 0) \<and>
      nref s1 w = nref s w - (if opened s a i \<and> f_node ?x = Some w then 1 else 0)"
  proof (cases "opened s a i")
    case True
    then obtain v where v: "f_node ?x = Some v" using e by (auto simp: entry_ok_def opened_def)
    have "holders s a i (Suc n) v \<ge> 1" using True v by (simp add: holders_Suc)
    then have "nopen s v > 1" "nref s v > 1" using Suc.prems(3) [of v] by simp_all
    from close_entry [OF e True v this] show ?thesis
      by (elim exE conjE, intro that) (use True v in \<open>auto simp: opened_def\<close>)
  next
    case False
    then show ?thesis by (intro that [of s]) (auto simp: opened_def intro!: fs_struct.equality)
  qed
  have st: "f_status (fil s1 a i) = FD_NONE" using e s1(4) by (auto simp: entry_ok_def opened_def)
  have f1: "fil s1 a j = fil s a j" "opened s1 a j = opened s a j" if "j \<noteq> i" for j using that s1(4) by (simp_all add: opened_def)
  have h: "holders s1 a (Suc i) n v = holders s a (Suc i) n v" for v by (rule holders_cong) (simp add: f1)
  have "entry_ok j (fil s1 a j)" if "j < 145" for j
    using that Suc.prems(1) e f1 [of j] s1(4) by (cases "j = i") (auto simp: entry_ok_def)
  moreover have "nopen s1 v > holders s1 a (Suc i) n v \<and> nref s1 v > holders s1 a (Suc i) n v" if "holders s1 a (Suc i) n v > 0" for v
    using that Suc.prems(3) [of v] s1(5) by (auto simp: h holders_Suc)
  ultimately obtain s' where s': "close_loop strict n (Suc i) a s1 = Some s'" "cur_fs s' = cur_fs s1" "\<forall>c. c \<noteq> a \<longrightarrow> fs_structs s' c = fs_structs s1 c"
    "fs_structs s' a = (fs_structs s1 a)\<lparr>filemap := (\<lambda>j. if Suc i \<le> j \<and> j < Suc i + n \<and> opened s1 a j then (fil s1 a j)\<lparr>f_open_count := 0, f_status := FD_NONE\<rparr> else fil s1 a j)\<rparr>"
    "\<forall>v. nopen s' v = nopen s1 v - holders s1 a (Suc i) n v \<and> nref s' v = nref s1 v - holders s1 a (Suc i) n v"
    using Suc.IH [of s1 "Suc i"] Suc.prems(2) by auto
  have "close_loop strict (Suc n) i a s = Some s'" using s1(1) st s'(1) by (simp add: kassert_def)
  moreover have "fs_structs s' a = (fs_structs s a)\<lparr>filemap := (\<lambda>j. if i \<le> j \<and> j < i + Suc n \<and> opened s a j then (fil s a j)\<lparr>f_open_count := 0, f_status := FD_NONE\<rparr> else fil s a j)\<rparr>"
    unfolding s'(4) s1(4) using f1(2) s1(4) by (auto simp: fun_eq_iff le_eq_less_or_eq opened_def intro!: fs_struct.equality)
  ultimately show ?case using s'(2,3,5) s1(2,3,5) h by (intro exI [of _ s']) (simp add: holders_Suc)
qed

section \<open>Fork and exit\<close>

definition fresh_table :: "'z vfs_scheme \<Rightarrow> nat \<Rightarrow> bool" where
  "fresh_table s b \<longleftrightarrow> fs_count (fs_structs s b) = 0 \<and> (\<forall>i < 145. entry_ok i (fil s b i) \<and> f_status (fil s b i) = FD_NONE)"

lemma dup_fs_spec:
  assumes "a \<noteq> b" and "fresh_table s b" and "fs_count (fs_structs s a) > 0" and "fds_ok s a"
  shows "\<exists>s'. dup_fs b a s = Some s' \<and> cur_fs s' = cur_fs s \<and> (\<forall>c. c \<noteq> b \<longrightarrow> fs_structs s' c = fs_structs s c) \<and>
    fs_structs s' b = (fs_structs s b)\<lparr>pwd := pwd (fs_structs s a),
      filemap := (\<lambda>j. if j < 145 \<and> opened s a j then copied (fil s a j) (fil s b j) else fil s b j)\<rparr> \<and>
    (\<forall>v. nopen s' v = nopen s v + holders s a 0 145 v \<and>
      nref s' v = nref s v + holders s a 0 145 v + (if pwd (fs_structs s a) = Some v then 1 else 0))"
proof -
  define s1 where "s1 = upd_fs b (\<lambda>x. x\<lparr>pwd := pwd (fs_structs s a)\<rparr>) s"
  define s2 where "s2 = (case pwd (fs_structs s a) of Some v \<Rightarrow> vop_ref_inc v s1 | None \<Rightarrow> s1)"
  have s2: "fs_structs s2 = (fs_structs s)(b := (fs_structs s b)\<lparr>pwd := pwd (fs_structs s a)\<rparr>)" "cur_fs s2 = cur_fs s"
    "nopen s2 = nopen s" "\<And>v. nref s2 v = nref s v + (if pwd (fs_structs s a) = Some v then 1 else 0)"
    by (auto simp: s2_def s1_def fun_eq_iff split: option.splits)
  have a2: "fil s2 a = fil s a" "opened s2 a = opened s a" using s2(1) assms(1) by (simp_all add: opened_def fun_eq_iff)
  have "f_node (fil s2 a j) \<noteq> None" if "0 \<le> j" "j < 0 + 145" "opened s2 a j" for j
    using assms(4) that a2 by (auto simp: fds_ok_def entry_ok_def opened_def)
  from dup_loop_spec [OF assms(1) this] obtain s' where s': "dup_loop 145 0 b a s2 = Some s'" "cur_fs s' = cur_fs s2"
    "\<forall>c. c \<noteq> b \<longrightarrow> fs_structs s' c = fs_structs s2 c"
    "fs_structs s' b = (fs_structs s2 b)\<lparr>filemap := (\<lambda>j. if 0 \<le> j \<and> j < 0 + 145 \<and> opened s2 a j then copied (fil s2 a j) (fil s2 b j) else fil s2 b j)\<rparr>"
    "\<forall>v. nopen s' v = nopen s2 v + holders s2 a 0 145 v \<and> nref s' v = nref s2 v + holders s2 a 0 145 v"
    by blast
  have h: "holders s2 a 0 145 v = holders s a 0 145 v" for v by (rule holders_cong) (simp add: a2)
  have "dup_fs b a s = Some s'"
    using assms(2,3) s'(1) unfolding s2_def s1_def by (simp add: dup_fs_def fresh_table_def kassert_def Let_def)
  moreover have "fs_structs s' b = (fs_structs s b)\<lparr>pwd := pwd (fs_structs s a),
      filemap := (\<lambda>j. if j < 145 \<and> opened s a j then copied (fil s a j) (fil s b j) else fil s b j)\<rparr>"
  proof -
    have b2: "fil s2 b = fil s b" by (simp add: s2(1))
    show ?thesis unfolding s'(4) a2 b2 by (simp add: s2(1))
  qed
  ultimately show ?thesis using s'(2,3,5) s2 h by (intro exI [of _ s']) simp
qed

lemma fs_destroy_spec:
  assumes "fds_ok s b" and "fs_count (fs_structs s b) = 0"
    and n: "\<And>v. holders s b 0 145 v > 0 \<Longrightarrow> nopen s v > holders s b 0 145 v"
    and r: "\<And>v. holders s b 0 145 v > 0 \<or> pwd (fs_structs s b) = Some v \<Longrightarrow>
      nref s v > holders s b 0 145 v + (if pwd (fs_structs s b) = Some v then 1 else 0)"
  shows "\<exists>s'. fs_destroy b s = Some s' \<and> cur_fs s' = cur_fs s \<and> (\<forall>c. c \<noteq> b \<longrightarrow> fs_structs s' c = fs_structs s c) \<and>
    (\<forall>j < 145. f_status (fil s' b j) = FD_NONE) \<and>
    (\<forall>v. nopen s' v = nopen s v - holders s b 0 145 v \<and>
      nref s' v = nref s v - holders s b 0 145 v - (if pwd (fs_structs s b) = Some v then 1 else 0))"
proof -
  obtain s1 where s1: "(case pwd (fs_structs s b) of Some v \<Rightarrow> vop_ref_dec v s | None \<Rightarrow> Some s) = Some s1"
    "fs_structs s1 = fs_structs s" "cur_fs s1 = cur_fs s"
    "\<forall>v. nref s1 v = nref s v - (if pwd (fs_structs s b) = Some v then 1 else 0) \<and> nopen s1 v = nopen s v"
  proof (cases "pwd (fs_structs s b)")
    case (Some v)
    then have "nref s v > holders s b 0 145 v + 1" using r [of v] by simp
    with holders_nonneg [of s b 0 145 v] have "nref s v > 1" by linarith
    then obtain s1 where "vop_ref_dec v s = Some s1" "fs_structs s1 = fs_structs s" "cur_fs s1 = cur_fs s"
      "\<forall>w. nref s1 w = nref s w - (if w = v then 1 else 0) \<and> nopen s1 w = nopen s w"
      using vop_ref_dec_shared by blast
    with Some show ?thesis by (intro that [of s1]) auto
  qed (auto intro: that [of s])
  have h: "holders s1 b 0 145 v = holders s b 0 145 v" for v by (rule holders_cong) (simp add: s1(2))
  have e: "\<forall>j < 145. entry_ok j (fil s1 b j)" using assms(1) by (simp add: fds_ok_def s1(2))
  have "nopen s1 v > holders s1 b 0 145 v \<and> nref s1 v > holders s1 b 0 145 v" if "holders s1 b 0 145 v > 0" for v
    using that n [of v] r [of v] s1(4) by (simp add: h)
  from close_loop_spec [OF e _ this, of True] obtain s' where s': "close_loop True 145 0 b s1 = Some s'" "cur_fs s' = cur_fs s1"
    "\<forall>c. c \<noteq> b \<longrightarrow> fs_structs s' c = fs_structs s1 c"
    "fs_structs s' b = (fs_structs s1 b)\<lparr>filemap := (\<lambda>j. if 0 \<le> j \<and> j < 0 + 145 \<and> opened s1 b j then (fil s1 b j)\<lparr>f_open_count := 0, f_status := FD_NONE\<rparr> else fil s1 b j)\<rparr>"
    "\<forall>v. nopen s' v = nopen s1 v - holders s1 b 0 145 v \<and> nref s' v = nref s1 v - holders s1 b 0 145 v"
    by auto
  have "fs_destroy b s = Some s'" using assms(2) s1(1) s'(1) by (simp add: fs_destroy_def kassert_def)
  moreover have "f_status (fil s' b j) = FD_NONE" if "j < 145" for j
    using that e s'(4) by (auto simp: entry_ok_def opened_def s1(2))
  ultimately show ?thesis using s'(2,3,5) s1 h by (intro exI [of _ s']) simp
qed

lemma holders_copied:
  assumes "fs_structs s' b = (fs_structs s b)\<lparr>pwd := q, filemap := (\<lambda>j. if j < 145 \<and> opened s a j then copied (fil s a j) (fil s b j) else fil s b j)\<rparr>"
    and "fresh_table s b"
  shows "holders s' b 0 145 v = holders s a 0 145 v"
  unfolding holders_def using assms
  by (intro arg_cong [of _ _ "\<lambda>x. int (length x)"] filter_cong) (auto simp: opened_def copied_def fresh_table_def)

section \<open>What the node layer leaves alone\<close>

definition same_fs :: "'z vfs_scheme \<Rightarrow> 'z vfs_scheme \<Rightarrow> bool" where
  "same_fs s s' \<longleftrightarrow> fs_structs s' = fs_structs s \<and> cur_fs s' = cur_fs s"

lemma same_fs_trans: "same_fs s s1 \<Longrightarrow> same_fs s1 s2 \<Longrightarrow> same_fs s s2"
  by (simp add: same_fs_def)

named_theorems same_fs

lemma ref_dec_same [same_fs]: "vop_ref_dec v s = Some s' \<Longrightarrow> same_fs s s'"
  by (auto simp: vop_ref_dec_def same_fs_def upd_dev_def kassert_def Let_def split: vnode.splits bind_splits if_splits)

lemma open_dec_same [same_fs]: "vop_open_dec v s = Some s' \<Longrightarrow> same_fs s s'"
  by (auto simp: vop_open_dec_def same_fs_def upd_dev_def kassert_def Let_def split: vnode.splits bind_splits if_splits)

lemma vfs_close_same [same_fs]: "vfs_close v s = Some s' \<Longrightarrow> same_fs s s'"
  by (auto simp: vfs_close_def split: bind_splits dest!: open_dec_same ref_dec_same intro: same_fs_trans)

lemma dop_io_same [same_fs]: "dop_io k iob w m s = Some (r, iob', m', s') \<Longrightarrow> same_fs s s'"
  by (auto simp: dop_io_def stdin_io_def stdout_io_def same_fs_def Let_def split: devkind.splits bind_splits if_splits prod.splits)

lemma vop_read_same [same_fs]: "vop_read v iob m s = Some (r, iob', m', s') \<Longrightarrow> same_fs s s'"
  by (auto simp: vop_read_def dev_read_def kassert_def split: vnode.splits bind_splits if_splits dest!: dop_io_same) (simp add: same_fs_def)

lemma vop_write_same [same_fs]: "vop_write v iob m s = Some (r, iob', m', s') \<Longrightarrow> same_fs s s'"
  by (auto simp: vop_write_def dev_write_def kassert_def split: vnode.splits bind_splits if_splits dest!: dop_io_same) (simp add: same_fs_def)

lemma getdirentry_same [same_fs]: "vop_getdirentry v iob m s = Some (r, iob', m', s') \<Longrightarrow> same_fs s s'"
  by (auto simp: vop_getdirentry_def same_fs_def split: vnode.splits bind_splits if_splits)

lemma tryseek_same [same_fs]: "vop_tryseek v pos s = Some (r, s') \<Longrightarrow> same_fs s s'"
  by (auto simp: vop_tryseek_def same_fs_def split: vnode.splits bind_splits if_splits)

lemma fsync_same [same_fs]: "node_fsync v s = Some (r, s') \<Longrightarrow> same_fs s s'"
  by (auto simp: node_fsync_def same_fs_def split: vnode.splits bind_splits)

lemma truncate_same [same_fs]: "node_truncate v l s = Some (r, s') \<Longrightarrow> same_fs s s'"
  by (auto simp: node_truncate_def same_fs_def split: vnode.splits bind_splits)

lemma lookup_same [same_fs]: "vop_lookup v path s = Some (r, w, s') \<Longrightarrow> same_fs s s'"
  by (auto simp: vop_lookup_def dev_lookup_def same_fs_def split: vnode.splits bind_splits if_splits)

lemma get_root_same [same_fs]: "sfs_get_root s = Some (v, s') \<Longrightarrow> same_fs s s'"
  by (auto simp: sfs_get_root_def same_fs_def split: bind_splits if_splits)

lemma curdir_same [same_fs]: "vfs_get_curdir s = (r, v, s') \<Longrightarrow> same_fs s s'"
  by (auto simp: vfs_get_curdir_def same_fs_def split: option.splits)

lemma vfs_get_root_same [same_fs]: "vfs_get_root n s = Some (r, v, s') \<Longrightarrow> same_fs s s'"
  by (auto simp: vfs_get_root_def lock_vdev_list_def unlock_vdev_list_def same_fs_def
      split: if_splits bind_splits option.splits dest!: get_root_same [unfolded same_fs_def])

lemma bootfs_same [same_fs]: "vfs_get_bootfs s = Some (r, v, s') \<Longrightarrow> same_fs s s'"
  by (auto simp: vfs_get_bootfs_def same_fs_def split: bind_splits option.splits)

lemma get_device_same [same_fs]: "get_device path s = Some (r, sub, v, path', s') \<Longrightarrow> same_fs s s'"
  by (auto simp: get_device_def Let_def kassert_def split: if_splits bind_splits option.splits prod.splits vnode.splits
      dest!: curdir_same vfs_get_root_same bootfs_same get_root_same ref_dec_same intro: same_fs_trans)

lemma vfs_lookup_same [same_fs]: "vfs_lookup path s = Some (r, v, path', s') \<Longrightarrow> same_fs s s'"
  by (auto simp: vfs_lookup_def same_fs_def split: if_splits bind_splits option.splits
      dest!: get_device_same [unfolded same_fs_def] lookup_same [unfolded same_fs_def] ref_dec_same [unfolded same_fs_def])

lemma lookup_parent_same [same_fs]: "vfs_lookup_parent path s = Some (r, v, n, s') \<Longrightarrow> same_fs s s'"
  by (auto simp: vfs_lookup_parent_def split: if_splits bind_splits dest!: get_device_same)

lemma vfs_open_same [same_fs]: "vfs_open path flags s = Some (r, v, s') \<Longrightarrow> same_fs s s'"
  by (auto simp: vfs_open_def Let_def vop_create_def same_fs_def split: if_splits bind_splits option.splits
      dest!: vfs_lookup_same [unfolded same_fs_def] lookup_parent_same [unfolded same_fs_def] ref_dec_same [unfolded same_fs_def]
        open_dec_same [unfolded same_fs_def] truncate_same [unfolded same_fs_def])

section \<open>Calls keep the tables consistent\<close>

definition set_entry :: "nat \<Rightarrow> nat \<Rightarrow> file_t \<Rightarrow> (nat \<Rightarrow> fs_struct) \<Rightarrow> nat \<Rightarrow> fs_struct" where
  "set_entry a i x F = F(a := (F a)\<lparr>filemap := (filemap (F a))(i := x)\<rparr>)"

lemma upd_file_set_entry: "fs_structs (upd_file a i f s) = set_entry a i (f (fil s a i)) (fs_structs s)"
  by (simp add: upd_file_def upd_fs_def set_entry_def)

lemma set_entry_simps [simp]:
  "filemap (set_entry a i x F c) j = (if c = a \<and> j = i then x else filemap (F c) j)" "set_entry a i x (set_entry a i y F) = set_entry a i x F"
  "set_entry a i (filemap (F a) i) F = F" "pwd (set_entry a i x F c) = pwd (F c)" "fs_count (set_entry a i x F c) = fs_count (F c)"
  by (auto simp: set_entry_def)

lemma fds_ok_set_entry:
  "fds_ok s c \<Longrightarrow> fs_structs s' = set_entry a i x (fs_structs s) \<Longrightarrow> entry_ok i x \<Longrightarrow> fds_ok s' c"
  by (simp add: fds_ok_def)

lemma fd2file_opened:
  assumes "fd2file fd s = Some (0, i)"
  shows "opened s (cur_fs s) i" "i < 145" "fd = int i"
  using assms by (auto simp: fd2file_def testfd_def get_filemap_def kassert_def opened_def split: if_splits)

text \<open>The bracket of \<^verbatim>\<open>filemap_acquire\<close> and \<^verbatim>\<open>filemap_release\<close> around a call of the node layer.\<close>

lemma acquired:
  assumes "filemap_acquire a i s = Some s1"
  shows "fs_structs s1 = set_entry a i ((fil s a i)\<lparr>f_open_count := f_open_count (fil s a i) + 1\<rparr>) (fs_structs s)" "cur_fs s1 = cur_fs s"
  using assms by (auto simp: filemap_acquire_def kassert_def upd_file_set_entry split: if_splits)

lemma released:
  assumes "filemap_release a i s = Some s'" and "f_open_count (fil s a i) > 1"
  shows "fs_structs s' = set_entry a i ((fil s a i)\<lparr>f_open_count := f_open_count (fil s a i) - 1\<rparr>) (fs_structs s)" "cur_fs s' = cur_fs s"
  using assms by (auto simp: filemap_release_def kassert_def Let_def upd_file_set_entry split: if_splits)

lemma bracket:
  assumes "filemap_acquire a i s = Some s1" and "same_fs s1 s2" and "s3 = s2 \<or> s3 = upd_file a i (\<lambda>x. x\<lparr>f_pos := z x\<rparr>) s2"
    and "filemap_release a i s3 = Some s'" and "entry_ok i (fil s a i)" and "opened s a i"
  obtains q where "fs_structs s' = set_entry a i ((fil s a i)\<lparr>f_pos := q\<rparr>) (fs_structs s)" and "cur_fs s' = cur_fs s"
    and "q = (if s3 = s2 then f_pos (fil s a i) else z ((fil s a i)\<lparr>f_open_count := 2\<rparr>))"
proof -
  let ?x = "fil s a i"
  have c: "f_open_count ?x = 1" using assms(5,6) by (auto simp: entry_ok_def opened_def)
  note s1 = acquired [OF assms(1)]
  have f2: "fs_structs s2 = set_entry a i (?x\<lparr>f_open_count := 2\<rparr>) (fs_structs s)" "cur_fs s2 = cur_fs s"
    using assms(2) s1 c by (simp_all add: same_fs_def)
  define q where "q = (if s3 = s2 then f_pos ?x else z (?x\<lparr>f_open_count := 2\<rparr>))"
  have f3: "fs_structs s3 = set_entry a i (?x\<lparr>f_open_count := 2, f_pos := q\<rparr>) (fs_structs s)" "cur_fs s3 = cur_fs s"
    using assms(3) f2 by (auto simp: q_def upd_file_set_entry)
  have "f_open_count (fil s3 a i) > 1" by (simp add: f3)
  note r = released [OF assms(4) this]
  have "?x\<lparr>f_open_count := 2, f_pos := q, f_open_count := 1\<rparr> = ?x\<lparr>f_pos := q\<rparr>" using c by (cases ?x) simp
  then show ?thesis using r f3 q_def by (intro that [of q]) simp_all
qed

lemma entry_ok_pos [simp]: "entry_ok i (x\<lparr>f_pos := q\<rparr>) = entry_ok i x"
  by (simp add: entry_ok_def)

text \<open>Only the position of one entry changes.\<close>

definition moves :: "'z vfs_scheme \<Rightarrow> 'z vfs_scheme \<Rightarrow> bool" where
  "moves s s' \<longleftrightarrow> cur_fs s' = cur_fs s \<and> (\<exists>a i q. i < 145 \<and> fs_structs s' = set_entry a i ((fil s a i)\<lparr>f_pos := q\<rparr>) (fs_structs s))"

lemma movesI:
  "cur_fs s' = cur_fs s \<Longrightarrow> i < 145 \<Longrightarrow> fs_structs s' = set_entry a i ((fil s a i)\<lparr>f_pos := q\<rparr>) (fs_structs s) \<Longrightarrow> moves s s'"
  unfolding moves_def by blast

lemma moves_refl: "moves s s"
proof -
  have "fs_structs s = set_entry 0 0 ((fil s 0 0)\<lparr>f_pos := f_pos (fil s 0 0)\<rparr>) (fs_structs s)" by simp
  then show ?thesis unfolding moves_def by (intro conjI exI [of _ 0] exI [of _ "f_pos (fil s 0 0)"]) simp_all
qed

lemma moves_fds_ok: "moves s s' \<Longrightarrow> fds_ok s c \<Longrightarrow> fds_ok s' c"
  by (auto simp: moves_def fds_ok_def)

lemma file_io_moves:
  assumes op: "\<And>v iob m t r iob' m' t'. op v iob m t = Some (r, iob', m', t') \<Longrightarrow> same_fs t t'"
    and io: "file_io op i base len m s = Some (ret, k, m', s')" and i: "i < 145" "opened s (cur_fs s) i" "fds_ok s (cur_fs s)"
  shows "moves s s'"
proof -
  let ?a = "cur_fs s"
  obtain s1 v r iob s2 where s1: "filemap_acquire ?a i s = Some s1" "op v (iobuf_init base len (f_pos (fil s1 ?a i))) m s1 = Some (r, iob, m', s2)"
    and rel: "filemap_release ?a i (if f_status (fil s2 ?a i) = FD_OPENED then upd_file ?a i (\<lambda>x. x\<lparr>f_pos := f_pos x + iobuf_used iob\<rparr>) s2 else s2) = Some s'"
    using io by (auto simp: file_io_def Let_def split: bind_splits)
  have e: "entry_ok i (fil s ?a i)" using i by (simp add: fds_ok_def)
  show ?thesis
    by (rule bracket [OF s1(1) op [OF s1(2)] _ rel e i(2)]) (auto intro: movesI [OF _ i(1)])
qed

lemma file_read_moves: "file_read fd base len m s = Some (ret, k, m', s') \<Longrightarrow> fds_ok s (cur_fs s) \<Longrightarrow> moves s s'"
  by (auto simp: file_read_def moves_refl split: bind_splits if_splits)
    (rule file_io_moves [OF vop_read_same], auto dest: fd2file_opened)

lemma file_write_moves: "file_write fd base len m s = Some (ret, k, m', s') \<Longrightarrow> fds_ok s (cur_fs s) \<Longrightarrow> moves s s'"
  by (auto simp: file_write_def moves_refl split: bind_splits if_splits)
    (rule file_io_moves [OF vop_write_same], auto dest: fd2file_opened)

text \<open>The other calls, which have the bracket in their text.\<close>

lemma bracket_moves:
  assumes "fd2file fd s = Some (0, i)" and "fds_ok s (cur_fs s)" and "filemap_acquire (cur_fs s) i s = Some s1" and "same_fs s1 s2"
    and "s3 = s2 \<or> s3 = upd_file (cur_fs s) i (\<lambda>x. x\<lparr>f_pos := z x\<rparr>) s2" and "filemap_release (cur_fs s) i s3 = Some s'"
  shows "moves s s'"
proof -
  note o = fd2file_opened [OF assms(1)]
  have e: "entry_ok i (fil s (cur_fs s) i)" using o assms(2) by (simp add: fds_ok_def)
  show ?thesis by (rule bracket [OF assms(3-6) e o(1)]) (rule movesI [OF _ o(2)])
qed

lemma same_fs_refl [simp]: "same_fs s s"
  by (simp add: same_fs_def)

lemma seek_move_table:
  assumes "seek_move a i v r q s1 = Some (ret, s3)"
  obtains s2 where "same_fs s1 s2" and "s3 = s2 \<or> s3 = upd_file a i (\<lambda>x. x\<lparr>f_pos := q\<rparr>) s2"
  using assms by (auto simp: seek_move_def split: if_splits bind_splits dest!: tryseek_same intro: that same_fs_refl)

lemma file_seek_moves:
  assumes "file_seek fd pos whence s = Some (ret, s')" and ok: "fds_ok s (cur_fs s)"
  shows "moves s s'"
proof -
  obtain r i where fd: "fd2file fd s = Some (r, i)" using assms(1) by (auto simp: file_seek_def split: bind_splits)
  show ?thesis
  proof (cases "r = 0")
    case True
    with assms(1) fd obtain s1 v r1 q r2 s3 where s: "filemap_acquire (cur_fs s) i s = Some s1" "filemap_release (cur_fs s) i s3 = Some s'"
      and q: "seek_move (cur_fs s) i v r1 q s1 = Some (r2, s3)"
      by (auto simp: file_seek_def Let_def split: bind_splits)
    from q obtain s2 where "same_fs s1 s2" "s3 = s2 \<or> s3 = upd_file (cur_fs s) i (\<lambda>x. x\<lparr>f_pos := q\<rparr>) s2" by (rule seek_move_table)
    from bracket_moves [OF _ ok s(1) this s(2)] fd True show ?thesis by simp
  qed (use assms(1) fd in \<open>simp add: file_seek_def moves_refl\<close>)
qed

lemma file_fstat_moves: "file_fstat fd s = Some (ret, st, s') \<Longrightarrow> fds_ok s (cur_fs s) \<Longrightarrow> moves s s'"
  by (auto simp: file_fstat_def moves_refl Let_def split: bind_splits if_splits)
    (rule bracket_moves [OF _ _ _ same_fs_refl disjI1 [OF refl]], assumption+)

lemma file_fsync_moves: "file_fsync fd s = Some (ret, s') \<Longrightarrow> fds_ok s (cur_fs s) \<Longrightarrow> moves s s'"
  by (auto simp: file_fsync_def moves_refl Let_def split: bind_splits if_splits)
    (rule bracket_moves [OF _ _ _ fsync_same disjI1 [OF refl]], assumption+)

lemma file_getdirentry_moves: "file_getdirentry fd base off m s = Some (ret, off', m', s') \<Longrightarrow> fds_ok s (cur_fs s) \<Longrightarrow> moves s s'"
  by (auto simp: file_getdirentry_def moves_refl Let_def split: bind_splits if_splits;
      rule bracket_moves [OF _ _ _ getdirentry_same disjI1 [OF refl]]; assumption)

lemma file_close_table:
  assumes "file_close fd s = Some (ret, s')" and ok: "fds_ok s (cur_fs s)"
  shows "cur_fs s' = cur_fs s \<and> (fs_structs s' = fs_structs s \<or> (\<exists>i. fd = int i \<and> i < 145 \<and> opened s (cur_fs s) i \<and>
    fs_structs s' = set_entry (cur_fs s) i ((fil s (cur_fs s) i)\<lparr>f_open_count := 0, f_status := FD_NONE\<rparr>) (fs_structs s)))"
proof -
  let ?a = "cur_fs s"
  obtain r i where fd: "fd2file fd s = Some (r, i)" using assms(1) by (auto simp: file_close_def split: bind_splits)
  show ?thesis
  proof (cases "r = 0")
    case True
    with fd have fd0: "fd2file fd s = Some (0, i)" by simp
    note o = fd2file_opened [OF fd0]
    let ?s1 = "upd_file ?a i (\<lambda>x. x\<lparr>f_status := FD_CLOSED, f_open_count := f_open_count x - 1\<rparr>) s"
    have c: "f_open_count (fil s ?a i) = 1" "f_status (fil s ?a i) = FD_OPENED"
      using o ok by (auto simp: fds_ok_def entry_ok_def opened_def)
    obtain v t where t: "vfs_close v ?s1 = Some t" "s' = upd_file ?a i (\<lambda>x. x\<lparr>f_status := FD_NONE\<rparr>) t"
      using assms(1) fd0 c by (auto simp: file_close_def filemap_close_def filemap_free_def kassert_def Let_def split: bind_splits)
    have "same_fs ?s1 t" using t(1) by (rule vfs_close_same)
    then show ?thesis using o c by (auto simp: same_fs_def t(2) upd_file_set_entry)
  qed (use assms(1) fd in \<open>simp add: file_close_def\<close>)
qed

lemma fd_scan_spec:
  "fd_scan n i fm = (if \<exists>j. i \<le> j \<and> j < i + n \<and> f_status (fm j) = FD_NONE
     then Some (LEAST j. i \<le> j \<and> f_status (fm j) = FD_NONE) else None)"
proof (induction n arbitrary: i)
  case (Suc n)
  show ?case
  proof (cases "f_status (fm i) = FD_NONE")
    case True
    then have "(LEAST j. i \<le> j \<and> f_status (fm j) = FD_NONE) = i" by (intro Least_equality) auto
    with True show ?thesis by (auto intro: exI [of _ i])
  next
    case False
    then have "(i \<le> j \<and> f_status (fm j) = FD_NONE) = (i + 1 \<le> j \<and> f_status (fm j) = FD_NONE)" for j
      by (cases "j = i") auto
    moreover from this have "(\<exists>j. i \<le> j \<and> j < i + Suc n \<and> f_status (fm j) = FD_NONE) = (\<exists>j. i + 1 \<le> j \<and> j < i + 1 + n \<and> f_status (fm j) = FD_NONE)"
      by (metis add_Suc_right add.commute plus_1_eq_Suc)
    ultimately show ?thesis using False Suc by auto
  qed
qed simp

text \<open>An allocated entry is unused and, if any descriptor will do, the first such one.\<close>

definition lowest_free :: "'z vfs_scheme \<Rightarrow> nat \<Rightarrow> nat \<Rightarrow> bool" where
  "lowest_free s a i \<longleftrightarrow> i < 145 \<and> f_status (fil s a i) = FD_NONE \<and> (\<forall>j < i. f_status (fil s a j) \<noteq> FD_NONE)"

lemma filemap_alloc_table:
  assumes "filemap_alloc fd s = Some (ret, i, s1)"
  shows "(ret \<noteq> 0 \<longrightarrow> s1 = s) \<and> (ret = 0 \<longrightarrow> i < 145 \<and> f_status (fil s (cur_fs s) i) = FD_NONE \<and>
      s1 = upd_file (cur_fs s) i (\<lambda>x. x\<lparr>f_status := FD_INIT, f_node := None\<rparr>) s) \<and>
    (fd = NO_FD \<and> ret = 0 \<longrightarrow> lowest_free s (cur_fs s) i) \<and>
    (fd = NO_FD \<and> ret \<noteq> 0 \<longrightarrow> ret = - errno_of E_MAX_OPEN \<and> (\<forall>j < 145. f_status (fil s (cur_fs s) j) \<noteq> FD_NONE))"
proof -
  let ?fm = "filemap (fs_structs s (cur_fs s))" and ?L = "LEAST j. 0 \<le> j \<and> f_status (filemap (fs_structs s (cur_fs s)) j) = FD_NONE"
  have e: "errno_of E_MAX_OPEN \<noteq> 0" "errno_of E_BUSY \<noteq> 0" "errno_of E_INVAL \<noteq> 0" by (simp_all add: errno_of_def)
  have L: "?L < 145 \<and> f_status (?fm ?L) = FD_NONE \<and> (\<forall>j < ?L. f_status (?fm j) \<noteq> FD_NONE)" if "j < 145" "f_status (?fm j) = FD_NONE" for j
  proof (intro conjI allI impI)
    have "?L \<le> j" using that by (intro Least_le) simp
    then show "?L < 145" using that by simp
    show "f_status (?fm ?L) = FD_NONE" using LeastI [of "\<lambda>j. 0 \<le> j \<and> f_status (?fm j) = FD_NONE" j] that by simp
    show "f_status (?fm k) \<noteq> FD_NONE" if "k < ?L" for k using not_less_Least [OF that] by simp
  qed
  show ?thesis
  proof (cases "fd = NO_FD")
    case True
    have scan: "fd_scan 145 0 ?fm = (if \<exists>j. j < 145 \<and> f_status (?fm j) = FD_NONE then Some ?L else None)"
      by (subst fd_scan_spec) simp
    show ?thesis
    proof (cases "\<exists>j. j < 145 \<and> f_status (?fm j) = FD_NONE")
      case ex: True
      then have l: "lowest_free s (cur_fs s) ?L" using L unfolding lowest_free_def by blast
      have "filemap_alloc NO_FD s = (if fs_count (fs_structs s (cur_fs s)) > 0 then alloc_found (cur_fs s) ?L s else None)"
        using scan ex by (simp add: filemap_alloc_def get_filemap_def kassert_def)
      then have "alloc_found (cur_fs s) ?L s = Some (ret, i, s1)" using assms True by (simp split: if_splits)
      then have r: "ret = 0" "i = ?L" "s1 = upd_file (cur_fs s) i (\<lambda>x. x\<lparr>f_status := FD_INIT, f_node := None\<rparr>) s"
        by (auto simp: alloc_found_def kassert_def split: if_splits)
      have "lowest_free s (cur_fs s) i" unfolding r(2) by (rule l)
      then show ?thesis using r(1,3) by (simp add: lowest_free_def)
    next
      case False
      then have "fd_scan 145 0 ?fm = None" using scan by simp
      then have "ret = - errno_of E_MAX_OPEN" "s1 = s"
        using assms True by (auto simp: filemap_alloc_def get_filemap_def kassert_def split: if_splits)
      then show ?thesis using False e by auto
    qed
  next
    case False
    with assms e show ?thesis
      by (auto simp: filemap_alloc_def get_filemap_def alloc_found_def kassert_def testfd_def split: if_splits)
  qed
qed

lemma file_dup_table:
  assumes "file_dup fd1 fd2 s = Some (ret, s')" and ok: "fds_ok s (cur_fs s)"
  shows "cur_fs s' = cur_fs s \<and> (fs_structs s' = fs_structs s \<or>
    (\<exists>i j. fd1 = int i \<and> i < 145 \<and> ret = int j \<and> j < 145 \<and> f_status (fil s (cur_fs s) j) = FD_NONE \<and> (fd2 = NO_FD \<longrightarrow> lowest_free s (cur_fs s) j) \<and>
       fs_structs s' = set_entry (cur_fs s) j (copied (fil s (cur_fs s) i) (fil s (cur_fs s) j)) (fs_structs s) \<and> opened s (cur_fs s) i))"
proof -
  let ?a = "cur_fs s"
  obtain r i where fd: "fd2file fd1 s = Some (r, i)" using assms(1) by (auto simp: file_dup_def split: bind_splits)
  show ?thesis
  proof (cases "r = 0")
    case True
    with fd have fd0: "fd2file fd1 s = Some (0, i)" by simp
    note o = fd2file_opened [OF fd0]
    obtain r1 j s1 where al: "filemap_alloc fd2 s = Some (r1, j, s1)" using assms(1) fd0 by (auto simp: file_dup_def split: bind_splits)
    note t = filemap_alloc_table [OF al]
    show ?thesis
    proof (cases "r1 = 0")
      case True
      then have j: "j < 145" "f_status (fil s ?a j) = FD_NONE" "s1 = upd_file ?a j (\<lambda>x. x\<lparr>f_status := FD_INIT, f_node := None\<rparr>) s"
        "fd2 = NO_FD \<longrightarrow> lowest_free s ?a j" using t by auto
      have ij: "i \<noteq> j" using o(1) j(2) by (auto simp: opened_def)
      have e: "entry_ok j (fil s ?a j)" using ok j(1) by (simp add: fds_ok_def)
      obtain v where v: "f_node (fil s ?a i) = Some v" using ok o by (auto simp: fds_ok_def entry_ok_def opened_def)
      have "filemap_dup ?a j ?a i s1 = Some (upd_file ?a j (copied (fil s ?a i)) (vop_open_inc v (vop_ref_inc v s)))"
        using o(1) v ij by (simp add: j(3) filemap_dup_def filemap_open_def kassert_def opened_def copied_def [abs_def] Let_def upd_file_inc upd_file_upd_file)
      then have s': "s' = upd_file ?a j (copied (fil s ?a i)) (vop_open_inc v (vop_ref_inc v s))" "ret = f_fd (fil s' ?a j)"
        using assms(1) fd0 al True by (simp_all add: file_dup_def Let_def) auto
      have "ret = int j" using s' e by (simp add: copied_def entry_ok_def)
      moreover have "fs_structs s' = set_entry ?a j (copied (fil s ?a i) (fil s ?a j)) (fs_structs s)" "cur_fs s' = ?a"
        by (simp_all add: s'(1) upd_file_set_entry)
      ultimately show ?thesis using o j by blast
    next
      case False
      then show ?thesis using t assms(1) fd0 al by (simp add: file_dup_def)
    qed
  qed (use assms(1) fd in \<open>simp add: file_dup_def\<close>)
qed

text \<open>A failed \<^verbatim>\<open>file_open\<close> gives its entry back; only the node of the unused entry is overwritten.\<close>

definition given_back :: "nat \<Rightarrow> nat \<Rightarrow> 'z vfs_scheme \<Rightarrow> 'z vfs_scheme \<Rightarrow> bool" where
  "given_back a i s s' \<longleftrightarrow> fs_structs s' = set_entry a i ((fil s a i)\<lparr>f_node := None\<rparr>) (fs_structs s)"

lemma free_init:
  assumes "filemap_free a i s2 = Some s3" and "fs_structs s2 = set_entry a i ((fil s a i)\<lparr>f_status := FD_INIT, f_node := None\<rparr>) (fs_structs s)"
    and "f_status (fil s a i) = FD_NONE"
  shows "given_back a i s s3" "cur_fs s3 = cur_fs s2"
proof -
  have s3: "s3 = upd_file a i (\<lambda>x. x\<lparr>f_status := FD_NONE\<rparr>) s2"
    using assms(1,2) by (auto simp: filemap_free_def kassert_def split: if_splits)
  have "(fil s a i)\<lparr>f_status := FD_INIT, f_node := None, f_status := FD_NONE\<rparr> = (fil s a i)\<lparr>f_node := None\<rparr>"
    using assms(3) by (cases "fil s a i") simp
  then show "given_back a i s s3" "cur_fs s3 = cur_fs s2"
    using assms(2) by (simp_all add: s3 given_back_def upd_file_set_entry)
qed

lemma file_open_table:
  assumes "file_open path flags s = Some (ret, s')" and ok: "fds_ok s (cur_fs s)"
  shows "cur_fs s' = cur_fs s \<and>
    (fs_structs s' = fs_structs s \<or> (\<exists>i. lowest_free s (cur_fs s) i \<and> given_back (cur_fs s) i s s') \<or>
     (\<exists>i v q. lowest_free s (cur_fs s) i \<and> ret = int i \<and>
       fs_structs s' = set_entry (cur_fs s) i \<lparr>f_status = FD_OPENED, f_readable = (flags AND 3 \<noteq> 1), f_writable = (flags AND 3 \<noteq> 0),
         f_fd = int i, f_pos = q, f_node = Some v, f_open_count = 1\<rparr> (fs_structs s)))"
proof (cases "flags AND 3 = 0 \<or> flags AND 3 = 1 \<or> flags AND 3 = 2")
  case mode: True
  let ?a = "cur_fs s"
  obtain r1 i s1 where al: "filemap_alloc NO_FD s = Some (r1, i, s1)"
    using assms(1) mode by (auto simp: file_open_def Let_def split: bind_splits)
  note t = filemap_alloc_table [OF al]
  show ?thesis
  proof (cases "r1 = 0")
    case True
    then have i: "lowest_free s ?a i" "f_status (fil s ?a i) = FD_NONE" "i < 145"
      and s1: "fs_structs s1 = set_entry ?a i ((fil s ?a i)\<lparr>f_status := FD_INIT, f_node := None\<rparr>) (fs_structs s)" "cur_fs s1 = ?a"
      using t by (simp_all add: upd_file_set_entry)
    have e: "entry_ok i (fil s ?a i)" using ok i(3) by (simp add: fds_ok_def)
    obtain r2 v s2 where op: "vfs_open path flags s1 = Some (r2, v, s2)"
      using assms(1) mode al True by (auto simp: file_open_def Let_def split: bind_splits)
    then have s2: "fs_structs s2 = fs_structs s1" "cur_fs s2 = ?a" using vfs_open_same [OF op] s1(2) by (simp_all add: same_fs_def)
    show ?thesis
    proof (cases "r2 = 0")
      case r2: True
      obtain w r3 q where w: "v = Some w" "open_pos w flags s2 = Some (r3, q)"
        using assms(1) mode al True op r2 by (auto simp: file_open_def Let_def split: bind_splits)
      show ?thesis
      proof (cases "r3 = 0")
        case r3: True
        have "filemap_open ?a i (upd_file ?a i (\<lambda>x. x\<lparr>f_pos := q, f_node := Some w, f_readable := (flags AND 3 = 0 \<or> flags AND 3 = 2),
            f_writable := (flags AND 3 = 1 \<or> flags AND 3 = 2)\<rparr>) s2) = Some s'" "ret = f_fd (fil s' ?a i)"
          using assms(1) mode al True op r2 w r3 by (auto simp: file_open_def Let_def split: bind_splits)
        moreover from this(1) have "fs_structs s' = set_entry ?a i \<lparr>f_status = FD_OPENED, f_readable = (flags AND 3 \<noteq> 1), f_writable = (flags AND 3 \<noteq> 0),
            f_fd = int i, f_pos = q, f_node = Some w, f_open_count = 1\<rparr> (fs_structs s)" "cur_fs s' = ?a"
          using e i(2) mode s2 s1 by (cases "fil s ?a i"; auto simp: filemap_open_def kassert_def upd_file_set_entry entry_ok_def split: if_splits)+
        ultimately show ?thesis using i(1) by auto
      next
        case False
        then obtain s3 where "vfs_close w s2 = Some s3" "filemap_free ?a i s3 = Some s'"
          using assms(1) mode al True op r2 w by (auto simp: file_open_def Let_def split: bind_splits)
        moreover from this(1) have "fs_structs s3 = fs_structs s2" "cur_fs s3 = cur_fs s2" using vfs_close_same by (auto simp: same_fs_def)
        ultimately show ?thesis using free_init [of ?a i s3 s' s] s1 s2 i by auto
      qed
    next
      case False
      then have "filemap_free ?a i s2 = Some s'"
        using assms(1) mode al True op by (auto simp: file_open_def Let_def split: bind_splits)
      from free_init [OF this] show ?thesis using s1 s2 i by auto
    qed
  next
    case False
    with t have "s1 = s" by simp
    with assms(1) mode al False show ?thesis by (auto simp: file_open_def Let_def)
  qed
next
  case False
  with assms(1) show ?thesis by (simp add: file_open_def)
qed

section \<open>Runs of system calls\<close>

text \<open>
  A run of the processes whose tables are \<open>A\<close>: calls of the current process, switches between the
  processes, forks into a new table and exits. The calls return; what they return is arbitrary.
\<close>

inductive fd_call :: "'z vfs_scheme \<Rightarrow> 'z vfs_scheme \<Rightarrow> bool" where
  "file_open path flags s = Some (ret, s') \<Longrightarrow> fd_call s s'"
| "file_close fd s = Some (ret, s') \<Longrightarrow> fd_call s s'"
| "file_read fd base len m s = Some (ret, k, m', s') \<Longrightarrow> fd_call s s'"
| "file_write fd base len m s = Some (ret, k, m', s') \<Longrightarrow> fd_call s s'"
| "file_seek fd pos whence s = Some (ret, s') \<Longrightarrow> fd_call s s'"
| "file_fstat fd s = Some (ret, st, s') \<Longrightarrow> fd_call s s'"
| "file_fsync fd s = Some (ret, s') \<Longrightarrow> fd_call s s'"
| "file_getdirentry fd base off m s = Some (ret, off', m', s') \<Longrightarrow> fd_call s s'"
| "file_dup fd1 fd2 s = Some (ret, s') \<Longrightarrow> fd_call s s'"

inductive fd_run :: "'z vfs_scheme \<Rightarrow> nat set \<Rightarrow> 'z vfs_scheme \<Rightarrow> nat set \<Rightarrow> bool" where
  init: "fd_run s A s A"
| call: "fd_run s A s1 B \<Longrightarrow> fd_call s1 s2 \<Longrightarrow> fd_run s A s2 B"
| switch: "fd_run s A s1 B \<Longrightarrow> c \<in> B \<Longrightarrow> fd_run s A (s1\<lparr>cur_fs := c\<rparr>) B"
| fork: "fd_run s A s1 B \<Longrightarrow> fresh_table s1 b \<Longrightarrow> b \<notin> B \<Longrightarrow> dup_fs b (cur_fs s1) s1 = Some s2 \<Longrightarrow> fd_run s A s2 (insert b B)"
| exit: "fd_run s A s1 B \<Longrightarrow> b \<noteq> cur_fs s1 \<Longrightarrow> fs_destroy b s1 = Some s2 \<Longrightarrow> fd_run s A s2 (B - {b})"

lemma fd_call_ok:
  assumes "fd_call s s'" and "fds_ok s (cur_fs s)"
  shows "cur_fs s' = cur_fs s" and "fds_ok s c \<Longrightarrow> fds_ok s' c"
proof -
  have *: "cur_fs s' = cur_fs s \<and> (fds_ok s c \<longrightarrow> fds_ok s' c)" for c
    using assms
  proof cases
    case (1 path flags ret)
    from file_open_table [OF this assms(2)] show ?thesis
    proof (elim conjE disjE exE)
      fix i assume o: "cur_fs s' = cur_fs s" "lowest_free s (cur_fs s) i" "given_back (cur_fs s) i s s'"
      have "entry_ok i ((fil s (cur_fs s) i)\<lparr>f_node := None\<rparr>)"
        using assms(2) o(2) by (auto simp: fds_ok_def lowest_free_def entry_ok_def)
      then show ?thesis using o(1) fds_ok_set_entry [OF _ o(3) [unfolded given_back_def]] by blast
    next
      fix i v q assume o: "cur_fs s' = cur_fs s" "lowest_free s (cur_fs s) i"
        "fs_structs s' = set_entry (cur_fs s) i \<lparr>f_status = FD_OPENED, f_readable = (flags AND 3 \<noteq> 1), f_writable = (flags AND 3 \<noteq> 0),
           f_fd = int i, f_pos = q, f_node = Some v, f_open_count = 1\<rparr> (fs_structs s)"
      then show ?thesis using fds_ok_set_entry [OF _ o(3)] by (simp add: entry_ok_def)
    qed (simp add: fds_ok_def)
  next
    case (2 fd ret)
    from file_close_table [OF this assms(2)] show ?thesis
    proof (elim conjE disjE exE)
      fix i assume o: "cur_fs s' = cur_fs s" "i < 145"
        "fs_structs s' = set_entry (cur_fs s) i ((fil s (cur_fs s) i)\<lparr>f_open_count := 0, f_status := FD_NONE\<rparr>) (fs_structs s)"
      then show ?thesis using fds_ok_set_entry [OF _ o(3)] assms(2) by (simp add: entry_ok_def fds_ok_def)
    qed (simp add: fds_ok_def)
  next
    case (9 fd1 fd2 ret)
    from file_dup_table [OF this assms(2)] show ?thesis
    proof (elim conjE disjE exE)
      fix i j assume o: "cur_fs s' = cur_fs s" "i < 145" "f_status (fil s (cur_fs s) j) = FD_NONE" "opened s (cur_fs s) i" "fd1 = int i"
        "fs_structs s' = set_entry (cur_fs s) j (copied (fil s (cur_fs s) i) (fil s (cur_fs s) j)) (fs_structs s)"
        "j < 145"
      then have "entry_ok j (copied (fil s (cur_fs s) i) (fil s (cur_fs s) j))"
        using assms(2) by (auto simp: fds_ok_def entry_ok_def copied_def opened_def)
      then show ?thesis using o(1,6) fds_ok_set_entry by blast
    qed (simp add: fds_ok_def)
  qed (use assms(2) in \<open>auto dest!: file_read_moves file_write_moves file_seek_moves file_fstat_moves file_fsync_moves file_getdirentry_moves
        intro: moves_fds_ok simp: moves_def\<close>)
  then show "cur_fs s' = cur_fs s" "fds_ok s c \<Longrightarrow> fds_ok s' c" by blast+
qed

lemma close_loop_others:
  "close_loop strict n i a s = Some s' \<Longrightarrow> c \<noteq> a \<Longrightarrow> fs_structs s' c = fs_structs s c \<and> cur_fs s' = cur_fs s"
proof (induction n arbitrary: i s)
  case (Suc n)
  obtain s1 where s1: "(if f_status (fil s a i) = FD_OPENED then filemap_close a i s else Some s) = Some s1" "close_loop strict n (Suc i) a s1 = Some s'"
    using Suc.prems(1) by (auto simp: kassert_def split: bind_splits if_splits)
  have "fs_structs s1 c = fs_structs s c \<and> cur_fs s1 = cur_fs s"
  proof (cases "f_status (fil s a i) = FD_OPENED")
    case True
    let ?t = "upd_file a i (\<lambda>x. x\<lparr>f_status := FD_CLOSED, f_open_count := f_open_count x - 1\<rparr>) s"
    from True s1(1) have "s1 = ?t \<or> (\<exists>v t'. vfs_close v ?t = Some t' \<and> s1 = upd_file a i (\<lambda>x. x\<lparr>f_status := FD_NONE\<rparr>) t')"
      by (auto simp: filemap_close_def filemap_free_def kassert_def Let_def split: bind_splits if_splits)
    then show ?thesis using Suc.prems(2) by (auto dest!: vfs_close_same simp: same_fs_def)
  qed (use s1(1) in simp)
  with Suc.IH [OF s1(2) Suc.prems(2)] show ?case by simp
qed simp

lemma fs_destroy_others:
  assumes "fs_destroy a s = Some s'" and "c \<noteq> a"
  shows "fs_structs s' c = fs_structs s c" "cur_fs s' = cur_fs s"
proof -
  obtain s1 where "(case pwd (fs_structs s a) of Some v \<Rightarrow> vop_ref_dec v s | None \<Rightarrow> Some s) = Some s1" "close_loop True 145 0 a s1 = Some s'"
    using assms(1) by (auto simp: fs_destroy_def kassert_def split: bind_splits if_splits)
  moreover from this(1) have "same_fs s s1" by (auto simp: ref_dec_same split: option.splits)
  ultimately show "fs_structs s' c = fs_structs s c" "cur_fs s' = cur_fs s"
    using close_loop_others [of True 145 0 a s1 s' c] assms(2) by (simp_all add: same_fs_def)
qed

lemma fd_run_ok:
  "fd_run s A s' B \<Longrightarrow> \<forall>a \<in> A. fds_ok s a \<Longrightarrow> cur_fs s \<in> A \<Longrightarrow> cur_fs s' \<in> B \<and> (\<forall>a \<in> B. fds_ok s' a)"
proof (induction rule: fd_run.induct)
  case (call s A s1 B s2)
  then have "fds_ok s1 (cur_fs s1)" by blast
  from fd_call_ok [OF call(2) this] call show ?case by simp
next
  case (switch s A s1 B c)
  then show ?case by (simp add: fds_ok_def)
next
  case (fork s A s1 B b s2)
  then have o: "fds_ok s1 (cur_fs s1)" "cur_fs s1 \<noteq> b" "fs_count (fs_structs s1 (cur_fs s1)) > 0"
    by (auto simp: dup_fs_def kassert_def split: if_splits)
  from dup_fs_spec [OF o(2) fork(2) o(3,1)] fork(4) have
    s2: "cur_fs s2 = cur_fs s1" "\<forall>c. c \<noteq> b \<longrightarrow> fs_structs s2 c = fs_structs s1 c"
      "fs_structs s2 b = (fs_structs s1 b)\<lparr>pwd := pwd (fs_structs s1 (cur_fs s1)),
        filemap := (\<lambda>j. if j < 145 \<and> opened s1 (cur_fs s1) j then copied (fil s1 (cur_fs s1) j) (fil s1 b j) else fil s1 b j)\<rparr>" by auto
  have "fds_ok s2 b"
    using fork(2) o(1) by (auto simp: fds_ok_def s2(3) copied_def fresh_table_def entry_ok_def opened_def)
  moreover have "fds_ok s2 a" if "a \<in> B" for a using fork that s2(2) by (metis fds_ok_def)
  ultimately show ?case using fork s2(1) by auto
next
  case (exit s A s1 B b s2)
  have "fs_structs s2 a = fs_structs s1 a" if "a \<noteq> b" for a using fs_destroy_others(1) [OF exit(3) that] .
  moreover have "cur_fs s2 = cur_fs s1" using fs_destroy_others(2) [OF exit(3), of "cur_fs s1"] exit(2) by simp
  ultimately show ?case using exit by (auto simp: fds_ok_def)
qed simp

section \<open>Properties\<close>

text \<open>
  Two processes: the table 0 has the console input open as descriptor 0, the table 1 is new. The console
  devices are in the list of devices.\<close>

definition demo_vfs :: vfs where
  "demo_vfs = \<lparr>sfs = demo_fs, console = demo_stdin, con_out = [],
     dev_nodes = (\<lambda>d. \<lparr>dn_kind = (if d = 0 then DevStdin else DevStdout), dn_ref = 2, dn_open = 1\<rparr>),
     vdevs = (\<lambda>d. \<lparr>vd_devname = (if d = 0 then [105] else [111]), vd_devnode = Some (DevNode d), vd_fs = False, vd_mountable = False\<rparr>),
     vdev_links = list_add None (Some 1) (list_add None (Some 0) self_links), vdev_list_sem = 1, bootfs_node = None, bootfs_sem = 1,
     fs_structs = (\<lambda>a. \<lparr>pwd = None, filemap = (\<lambda>i. \<lparr>f_status = (if a = 0 \<and> i = 0 then FD_OPENED else FD_NONE), f_readable = True, f_writable = False,
       f_fd = int i, f_pos = 0, f_node = (if a = 0 \<and> i = 0 then Some (DevNode 0) else None), f_open_count = (if a = 0 \<and> i = 0 then 1 else 0)\<rparr>),
       fs_count = (if a = 0 then 1 else 0), fs_sem = 1\<rparr>), cur_fs = 0\<rparr>"

lemma demo_vfs_ok: "fds_ok demo_vfs 0" "fresh_table demo_vfs 1" "fs_count (fs_structs demo_vfs 0) = 1" "cur_fs demo_vfs = 0"
  by (simp_all add: demo_vfs_def fds_ok_def entry_ok_def fresh_table_def)

lemma lock_round: "vdev_list_sem s = 1 \<Longrightarrow> unlock_vdev_list (vop_ref_inc v (s\<lparr>vdev_list_sem := 0\<rparr>)) = vop_ref_inc v s"
  by (cases v) (auto simp: unlock_vdev_list_def vop_ref_inc_def upd_dev_def intro!: vfs.equality)

lemma demo_open: "\<exists>s'. file_open [111, 58] 1 demo_vfs = Some (1, s') \<and> opened s' 0 1"
proof -
  have links: "list_next (vdev_links demo_vfs) None = Some 1" "\<not> list_empty (vdev_links demo_vfs) None"
    by (simp_all add: demo_vfs_def list_add_def list_add_after_def list_add_raw_def self_links_def list_next_def list_empty_def Let_def)
  have walk: "vdev_walk (vdev_links demo_vfs) P None = Some (Some 1)" if "P 1" for P
    using that links by (subst vdev_walk.simps) simp
  have scan: "fd_scan 145 0 (filemap (fs_structs demo_vfs 0)) = Some 1"
    by (simp add: demo_vfs_def numeral_eq_Suc)
  let ?s1 = "upd_file 0 1 (\<lambda>x. x\<lparr>f_status := FD_INIT, f_node := None\<rparr>) demo_vfs"
  have al: "filemap_alloc NO_FD demo_vfs = Some (0, 1, ?s1)"
    using scan by (simp add: filemap_alloc_def get_filemap_def kassert_def demo_vfs_ok alloc_found_def) (simp add: demo_vfs_def)
  have v: "vdev_links ?s1 = vdev_links demo_vfs" "vdevs ?s1 = vdevs demo_vfs" "vdev_list_sem ?s1 = 1"
    by (simp_all add: upd_file_def upd_fs_def) (simp add: demo_vfs_def)
  have d: "dev_nodes ?s1 1 = \<lparr>dn_kind = DevStdout, dn_ref = 2, dn_open = 1\<rparr>" "vdevs demo_vfs 1 = \<lparr>vd_devname = [111], vd_devnode = Some (DevNode 1), vd_fs = False, vd_mountable = False\<rparr>"
    by simp_all (simp_all add: demo_vfs_def)
  have "vfs_get_root [111] ?s1 = Some (0, Some (DevNode 1), vop_ref_inc (DevNode 1) ?s1)"
    using walk [of "\<lambda>d. vd_devname (vdevs demo_vfs d) = [111]"] links(2) v d(2) lock_round [OF v(3)]
    by (simp add: vfs_get_root_def lock_vdev_list_def sem_take_def)
  moreover have "vop_open (DevNode 1) 1 (vop_ref_inc (DevNode 1) ?s1) = Some 0"
    using d(1) by (simp add: vop_open_def dev_open_def dop_open_def stdout_open_def node_check_def kassert_def vop_ref_inc_def upd_dev_def)
  ultimately have "vfs_open [111, 58] 1 ?s1 = Some (0, Some (DevNode 1), vop_open_inc (DevNode 1) (vop_ref_inc (DevNode 1) ?s1))"
    by (simp add: vfs_open_def vfs_lookup_def get_device_def Let_def)
  then show ?thesis
    using al by (simp add: file_open_def open_pos_def filemap_open_def kassert_def demo_vfs_ok opened_def Let_def) (simp add: demo_vfs_def)
qed

text \<open>
  C14: \<^verbatim>\<open>file_open\<close> hands out the lowest free descriptor. Whenever it returns, either no descriptor was
  opened (every entry of every table has its old status, and every open entry is unchanged), or the
  result is the first free entry of the caller's table, which is now open with the access the flags ask
  for, and no other entry of any table has changed. With a full table the result is \<^verbatim>\<open>-E_MAX_OPEN\<close> and nothing
  changes at all.\<close>

lemma flags_mode: "flags AND 3 = 0 \<or> flags AND 3 = 1 \<or> flags AND 3 = 2 \<or> flags AND 3 = (3 :: u32)"
proof -
  have "flags AND 3 = take_bit 2 flags" by (simp add: take_bit_eq_mask mask_numeral)
  then have "unat (flags AND 3) < 4" using take_bit_nat_less_exp [of 2 "unat flags"] by (simp add: unsigned_take_bit_eq)
  then have "unat (flags AND 3) \<in> {0, 1, 2, 3}" by auto
  then show ?thesis by (auto simp: word_unat_eq_iff)
qed

theorem file_open_lowest:
  assumes "file_open path flags s = Some (ret, s')" and "fds_ok s (cur_fs s)"
  shows "((\<forall>c j. f_status (fil s' c j) = f_status (fil s c j) \<and> (opened s c j \<longrightarrow> fil s' c j = fil s c j)) \<or>
      (\<exists>i. lowest_free s (cur_fs s) i \<and> ret = int i \<and> opened s' (cur_fs s) i \<and> f_open_count (fil s' (cur_fs s) i) = 1 \<and>
        f_readable (fil s' (cur_fs s) i) = (flags AND 3 \<noteq> 1) \<and> f_writable (fil s' (cur_fs s) i) = (flags AND 3 \<noteq> 0) \<and>
        (\<forall>c j. c \<noteq> cur_fs s \<or> j \<noteq> i \<longrightarrow> fil s' c j = fil s c j))) \<and>
    ((\<forall>j. j < 145 \<longrightarrow> f_status (fil s (cur_fs s) j) \<noteq> FD_NONE) \<and> flags AND 3 \<noteq> 3 \<longrightarrow> ret = - errno_of E_MAX_OPEN \<and> s' = s)"
proof (rule conjI)
  let ?a = "cur_fs s"
  show "(\<forall>c j. f_status (fil s' c j) = f_status (fil s c j) \<and> (opened s c j \<longrightarrow> fil s' c j = fil s c j)) \<or>
      (\<exists>i. lowest_free s ?a i \<and> ret = int i \<and> opened s' ?a i \<and> f_open_count (fil s' ?a i) = 1 \<and>
        f_readable (fil s' ?a i) = (flags AND 3 \<noteq> 1) \<and> f_writable (fil s' ?a i) = (flags AND 3 \<noteq> 0) \<and>
        (\<forall>c j. c \<noteq> ?a \<or> j \<noteq> i \<longrightarrow> fil s' c j = fil s c j))"
    using file_open_table [OF assms]
  proof (elim conjE disjE exE)
    fix i v q assume "lowest_free s ?a i" "ret = int i" "fs_structs s' = set_entry ?a i \<lparr>f_status = FD_OPENED, f_readable = (flags AND 3 \<noteq> 1),
      f_writable = (flags AND 3 \<noteq> 0), f_fd = int i, f_pos = q, f_node = Some v, f_open_count = 1\<rparr> (fs_structs s)"
    then show ?thesis by (intro disjI2 exI [of _ i]) (simp add: opened_def)
  qed (auto simp: given_back_def lowest_free_def opened_def)
  show "(\<forall>j. j < 145 \<longrightarrow> f_status (fil s ?a j) \<noteq> FD_NONE) \<and> flags AND 3 \<noteq> 3 \<longrightarrow> ret = - errno_of E_MAX_OPEN \<and> s' = s"
  proof
    assume full: "(\<forall>j. j < 145 \<longrightarrow> f_status (fil s ?a j) \<noteq> FD_NONE) \<and> flags AND 3 \<noteq> 3"
    have mode: "flags AND 3 = 0 \<or> flags AND 3 = 1 \<or> flags AND 3 = 2" using full flags_mode [of flags] by auto
    then obtain r i s1 where al: "filemap_alloc NO_FD s = Some (r, i, s1)"
      using assms(1) by (auto simp: file_open_def Let_def split: bind_splits)
    have "r \<noteq> 0" "r = - errno_of E_MAX_OPEN" "s1 = s" using filemap_alloc_table [OF al] full by (auto simp: lowest_free_def)
    with assms(1) al mode show "ret = - errno_of E_MAX_OPEN \<and> s' = s" by (auto simp: file_open_def Let_def)
  qed
qed

theorem file_open_lowest_witness:
  "\<exists>s'. file_open [111, 58] 1 demo_vfs = Some (1, s') \<and> opened s' 0 1 \<and> \<not> f_readable (fil s' 0 1) \<and> fil s' 0 0 = fil demo_vfs 0 0"
proof -
  obtain s' where s': "file_open [111, 58] 1 demo_vfs = Some (1, s')" "opened s' 0 1" using demo_open by blast
  have ok: "fds_ok demo_vfs (cur_fs demo_vfs)" using demo_vfs_ok by simp
  have none: "f_status (fil demo_vfs 0 1) = FD_NONE" by (simp add: demo_vfs_def)
  from file_open_lowest [OF s'(1) ok] show ?thesis
  proof (elim conjE disjE exE)
    assume "\<forall>c j. f_status (fil s' c j) = f_status (fil demo_vfs c j) \<and> (opened demo_vfs c j \<longrightarrow> fil s' c j = fil demo_vfs c j)"
    then show ?thesis using none s'(2) by (simp add: opened_def)
  qed (use s' in \<open>auto simp: demo_vfs_ok\<close>)
qed


text \<open>
  A fork shares the open files. \<^verbatim>\<open>dup_fs\<close> into a new table never fails and copies exactly the open
  descriptors, with position, access and node, and the current directory; every node gets one more reference
  and one more opener for each descriptor that refers to it, and one more reference for being
  the current directory; no other table changes.\<close>

theorem dup_fs_shares:
  assumes "a \<noteq> b" and "fresh_table s b" and "fs_count (fs_structs s a) > 0" and "fds_ok s a"
  shows "\<exists>s'. dup_fs b a s = Some s' \<and> fds_ok s' b \<and> pwd (fs_structs s' b) = pwd (fs_structs s a) \<and>
    (\<forall>j. j < 145 \<longrightarrow> opened s' b j = opened s a j \<and> (opened s a j \<longrightarrow> f_pos (fil s' b j) = f_pos (fil s a j) \<and>
      f_node (fil s' b j) = f_node (fil s a j) \<and> f_readable (fil s' b j) = f_readable (fil s a j) \<and> f_writable (fil s' b j) = f_writable (fil s a j))) \<and>
    (\<forall>v. nopen s' v = nopen s v + holders s a 0 145 v \<and>
      nref s' v = nref s v + holders s a 0 145 v + (if pwd (fs_structs s a) = Some v then 1 else 0)) \<and>
    (\<forall>c. c \<noteq> b \<longrightarrow> fs_structs s' c = fs_structs s c)"
proof -
  obtain s' where s': "dup_fs b a s = Some s'" "\<forall>c. c \<noteq> b \<longrightarrow> fs_structs s' c = fs_structs s c"
    "fs_structs s' b = (fs_structs s b)\<lparr>pwd := pwd (fs_structs s a),
      filemap := (\<lambda>j. if j < 145 \<and> opened s a j then copied (fil s a j) (fil s b j) else fil s b j)\<rparr>"
    "\<forall>v. nopen s' v = nopen s v + holders s a 0 145 v \<and> nref s' v = nref s v + holders s a 0 145 v + (if pwd (fs_structs s a) = Some v then 1 else 0)"
    using dup_fs_spec [OF assms] by blast
  have "fds_ok s' b"
    using assms(2,4) by (auto simp: fds_ok_def s'(3) copied_def fresh_table_def entry_ok_def opened_def)
  moreover have "pwd (fs_structs s' b) = pwd (fs_structs s a)" by (simp add: s'(3))
  moreover have "opened s' b j = opened s a j \<and> (opened s a j \<longrightarrow> f_pos (fil s' b j) = f_pos (fil s a j) \<and>
      f_node (fil s' b j) = f_node (fil s a j) \<and> f_readable (fil s' b j) = f_readable (fil s a j) \<and> f_writable (fil s' b j) = f_writable (fil s a j))" if "j < 145" for j
    using that assms(2) by (auto simp: opened_def s'(3) copied_def fresh_table_def)
  ultimately show ?thesis using s'(1,2,4) by (intro exI [of _ s']) blast
qed

theorem dup_fs_shares_witness:
  "\<exists>s'. dup_fs 1 0 demo_vfs = Some s' \<and> opened s' 1 0 \<and> f_node (fil s' 1 0) = Some (DevNode 0)"
proof -
  have o: "opened demo_vfs 0 0" "f_node (fil demo_vfs 0 0) = Some (DevNode 0)" by (simp_all add: opened_def demo_vfs_def)
  have "fs_count (fs_structs demo_vfs 0) > 0" by (simp add: demo_vfs_ok)
  from dup_fs_shares [OF _ demo_vfs_ok(2) this demo_vfs_ok(1)] obtain s' where "dup_fs 1 0 demo_vfs = Some s'"
    "\<forall>j. j < 145 \<longrightarrow> opened s' 1 j = opened demo_vfs 0 j \<and> (opened demo_vfs 0 j \<longrightarrow> f_pos (fil s' 1 j) = f_pos (fil demo_vfs 0 j) \<and>
      f_node (fil s' 1 j) = f_node (fil demo_vfs 0 j) \<and> f_readable (fil s' 1 j) = f_readable (fil demo_vfs 0 j) \<and> f_writable (fil s' 1 j) = f_writable (fil demo_vfs 0 j))"
    by (metis zero_neq_one)
  with o show ?thesis by auto
qed

text \<open>
  C15: a fork followed by the exit of the child restores every count. When the counts of the nodes cover
  the descriptors and the current directory of the parent, destroying the copied table never fails and
  closes no file of the parent: afterwards every node has the references and openers it had before the fork, and the tables of all
  other processes are untouched.\<close>

theorem fork_exit_restores:
  assumes "a \<noteq> b" and "fresh_table s b" and "fs_count (fs_structs s a) > 0" and "fds_ok s a"
    and "\<And>v. holders s a 0 145 v \<le> nopen s v"
    and "\<And>v. holders s a 0 145 v + (if pwd (fs_structs s a) = Some v then 1 else 0) \<le> nref s v"
  shows "\<exists>s1 s2. dup_fs b a s = Some s1 \<and> fs_destroy b s1 = Some s2 \<and> nopen s2 = nopen s \<and> nref s2 = nref s \<and>
    (\<forall>c. c \<noteq> b \<longrightarrow> fs_structs s2 c = fs_structs s c) \<and> (\<forall>j. j < 145 \<longrightarrow> f_status (fil s2 b j) = FD_NONE)"
proof -
  obtain s1 where s1: "dup_fs b a s = Some s1" "\<forall>c. c \<noteq> b \<longrightarrow> fs_structs s1 c = fs_structs s c"
    "fs_structs s1 b = (fs_structs s b)\<lparr>pwd := pwd (fs_structs s a),
      filemap := (\<lambda>j. if j < 145 \<and> opened s a j then copied (fil s a j) (fil s b j) else fil s b j)\<rparr>"
    "\<forall>v. nopen s1 v = nopen s v + holders s a 0 145 v \<and> nref s1 v = nref s v + holders s a 0 145 v + (if pwd (fs_structs s a) = Some v then 1 else 0)"
    using dup_fs_spec [OF assms(1-4)] by blast
  have ok: "fds_ok s1 b" using assms(2,4) by (auto simp: fds_ok_def s1(3) copied_def fresh_table_def entry_ok_def opened_def)
  have h: "holders s1 b 0 145 v = holders s a 0 145 v" for v by (rule holders_copied [OF s1(3) assms(2)])
  have p: "pwd (fs_structs s1 b) = pwd (fs_structs s a)" "fs_count (fs_structs s1 b) = 0" using assms(2) by (simp_all add: s1(3) fresh_table_def)
  have n: "nopen s1 v > holders s1 b 0 145 v" if "holders s1 b 0 145 v > 0" for v
    using that assms(5) [of v] s1(4) by (simp add: h)
  have r: "nref s1 v > holders s1 b 0 145 v + (if pwd (fs_structs s1 b) = Some v then 1 else 0)"
    if "holders s1 b 0 145 v > 0 \<or> pwd (fs_structs s1 b) = Some v" for v
  proof -
    define H where "H = holders s a 0 145 v"
    have "0 \<le> H" by (simp add: H_def)
    moreover have "H > 0 \<or> pwd (fs_structs s a) = Some v" using that by (simp only: h p H_def)
    moreover have "H + (if pwd (fs_structs s a) = Some v then 1 else 0) \<le> nref s v" using assms(6) [of v] by (simp only: H_def)
    ultimately have "nref s v > 0" by (auto split: if_splits)
    then show ?thesis using s1(4) by (simp add: h p)
  qed
  obtain s2 where s2: "fs_destroy b s1 = Some s2" "\<forall>c. c \<noteq> b \<longrightarrow> fs_structs s2 c = fs_structs s1 c" "\<forall>j < 145. f_status (fil s2 b j) = FD_NONE"
    "\<forall>v. nopen s2 v = nopen s1 v - holders s1 b 0 145 v \<and> nref s2 v = nref s1 v - holders s1 b 0 145 v - (if pwd (fs_structs s1 b) = Some v then 1 else 0)"
    using fs_destroy_spec [OF ok p(2) n r] by blast
  have "nopen s2 = nopen s" "nref s2 = nref s" using s1(4) s2(4) by (simp_all add: fun_eq_iff h p)
  then show ?thesis using s1(1,2) s2(1-3) by (intro exI [of _ s1] exI [of _ s2]) simp
qed

theorem fork_exit_restores_witness:
  "\<exists>s1 s2. dup_fs 1 0 demo_vfs = Some s1 \<and> fs_destroy 1 s1 = Some s2 \<and> nopen s2 (DevNode 0) = 1 \<and> nref s2 (DevNode 0) = 2"
proof -
  have c: "fs_count (fs_structs demo_vfs 0) > 0" by (simp add: demo_vfs_ok)
  have e: "(opened demo_vfs 0 j \<and> f_node (fil demo_vfs 0 j) = Some v) = (v = DevNode 0 \<and> j = 0)" for j v
    by (auto simp: opened_def demo_vfs_def)
  have h: "holders demo_vfs 0 0 145 v = (if v = DevNode 0 then 1 else 0)" for v
    unfolding holders_def e by (simp add: upt_rec)
  have n: "nopen demo_vfs (DevNode 0) = 1" "nref demo_vfs (DevNode 0) = 2" "pwd (fs_structs demo_vfs 0) = None"
    by (simp_all add: nopen_def nref_def demo_vfs_def)
  have "nopen demo_vfs v \<ge> 0" "nref demo_vfs v \<ge> 0" for v
    by (cases v; simp add: nopen_def nref_def demo_vfs_def demo_fs_def demo_node_def)+
  then have "holders demo_vfs 0 0 145 v \<le> nopen demo_vfs v" "holders demo_vfs 0 0 145 v + (if pwd (fs_structs demo_vfs 0) = Some v then 1 else 0) \<le> nref demo_vfs v" for v
    using n by (simp_all add: h)
  from fork_exit_restores [OF _ demo_vfs_ok(2) c demo_vfs_ok(1) this] n show ?thesis by (metis zero_neq_one)
qed


end
