(* ===== verification/FdStream.thy ===== *)
theory FdStream
  imports FdTable
begin

text \<open>
  A descriptor of a regular file as a byte stream: what reading, writing and seeking through
  \<^verbatim>\<open>file_read\<close>, \<^verbatim>\<open>file_write\<close> and \<^verbatim>\<open>file_seek\<close> do to the content of the file and to the position. The contract is
  the locale \<open>byte_stream\<close>; its clients are proved once, and the descriptor operations on the simple file
  system, down to the blocks of the disk, are its interpretation.
\<close>

section \<open>The contract\<close>

locale byte_stream =
  fixes ok :: "'s \<Rightarrow> bool" and content :: "'s \<Rightarrow> u8 list" and pos :: "'s \<Rightarrow> nat" and limit :: nat
    and wr :: "nat \<Rightarrow> nat \<Rightarrow> mem \<Rightarrow> 's \<Rightarrow> (int \<times> nat \<times> 's) option"
    and rd :: "nat \<Rightarrow> nat \<Rightarrow> mem \<Rightarrow> 's \<Rightarrow> (int \<times> nat \<times> mem \<times> 's) option"
    and sk :: "nat \<Rightarrow> 's \<Rightarrow> (int \<times> 's) option"
  assumes content_limit: "ok s \<Longrightarrow> length (content s) \<le> limit"
    and write_law: "ok s \<Longrightarrow> pos s \<le> length (content s) \<Longrightarrow> pos s + n \<le> limit \<Longrightarrow> \<exists>r k s'. wr base n m s = Some (r, k, s') \<and>
      (r = 0 \<and> k = n \<or> r < 0 \<and> k < n) \<and> ok s' \<and> pos s' = pos s + k \<and>
      content s' = take (pos s) (content s) @ bytes_at m base k @ drop (pos s + k) (content s)"
    and read_law: "ok s \<Longrightarrow> pos s \<le> limit \<Longrightarrow> n \<le> limit \<Longrightarrow> \<exists>m' s'. rd base n m s = Some (0, min n (length (content s) - pos s), m', s') \<and>
      bytes_at m' base (min n (length (content s) - pos s)) = take n (drop (pos s) (content s)) \<and>
      ok s' \<and> content s' = content s \<and> pos s' = pos s + min n (length (content s) - pos s)"
    and seek_law: "ok s \<Longrightarrow> q \<le> length (content s) \<Longrightarrow> \<exists>s'. sk q s = Some (0, s') \<and> ok s' \<and> content s' = content s \<and> pos s' = q"
begin

lemma write_seek_read:
  assumes s: "ok s" "pos s \<le> length (content s)" "pos s + n \<le> limit" and w: "wr base n m s = Some (0, k, s1)"
  shows "\<exists>s2 m' s3. sk (pos s) s1 = Some (0, s2) \<and> rd base' n m2 s2 = Some (0, n, m', s3) \<and>
    bytes_at m' base' n = bytes_at m base n \<and> content s3 = content s1"
proof -
  have s1: "ok s1" "content s1 = take (pos s) (content s) @ bytes_at m base n @ drop (pos s + n) (content s)"
    using write_law [OF s, of base m] w by auto
  have len: "pos s + n \<le> length (content s1)" using s(2) by (simp add: s1(2))
  obtain s2 where s2: "sk (pos s) s1 = Some (0, s2)" "ok s2" "content s2 = content s1" "pos s2 = pos s"
    using seek_law [OF s1(1), of "pos s"] len by auto
  have "min n (length (content s2) - pos s2) = n" using len by (simp add: s2)
  then obtain m' s3 where s3: "rd base' n m2 s2 = Some (0, n, m', s3)" "bytes_at m' base' n = take n (drop (pos s2) (content s2))" "content s3 = content s2"
    using read_law [OF s2(2), of n base' m2] s(3) by (auto simp: s2(4))
  have "take n (drop (pos s) (content s1)) = bytes_at m base n" using s(2) by (simp add: s1(2))
  with s2 s3 show ?thesis by auto
qed

text \<open>Writing a buffer in pieces writes the same bytes.\<close>

fun write_pieces :: "nat \<Rightarrow> nat list \<Rightarrow> mem \<Rightarrow> 's \<Rightarrow> 's option" where
  "write_pieces base [] m s = Some s"
| "write_pieces base (n # ns) m s = (case wr base n m s of Some (r, k, s') \<Rightarrow> if r = 0 then write_pieces (base + n) ns m s' else None | None \<Rightarrow> None)"

lemma write_pieces_whole:
  "ok s \<Longrightarrow> pos s \<le> length (content s) \<Longrightarrow> pos s + sum_list ns \<le> limit \<Longrightarrow> write_pieces base ns m s = Some s' \<Longrightarrow>
   content s' = take (pos s) (content s) @ bytes_at m base (sum_list ns) @ drop (pos s + sum_list ns) (content s) \<and> ok s' \<and> pos s' = pos s + sum_list ns"
proof (induction ns arbitrary: base s)
  case Nil
  then show ?case by (simp add: bytes_at_def)
next
  case (Cons n ns)
  obtain r k s1 where s1: "wr base n m s = Some (r, k, s1)" "r = 0 \<and> k = n \<or> r < 0 \<and> k < n" "ok s1" "pos s1 = pos s + k"
    "content s1 = take (pos s) (content s) @ bytes_at m base k @ drop (pos s + k) (content s)"
    using write_law [of s n base m] Cons.prems by auto
  then have r: "r = 0" "k = n" using Cons.prems(4) by (auto split: if_splits)
  have ih: "content s' = take (pos s1) (content s1) @ bytes_at m (base + n) (sum_list ns) @ drop (pos s1 + sum_list ns) (content s1) \<and> ok s' \<and> pos s' = pos s1 + sum_list ns"
    using s1 r Cons.prems by (intro Cons.IH) (auto simp: bytes_at_def)
  have b: "bytes_at m base (n + k) = bytes_at m base n @ bytes_at m (base + n) k" for k
    by (rule nth_equalityI) (auto simp: bytes_at_def nth_append)
  have "take (pos s1) (content s1) = take (pos s) (content s) @ bytes_at m base n"
    "drop (pos s1 + sum_list ns) (content s1) = drop (pos s + n + sum_list ns) (content s)"
    using Cons.prems(2) by (simp_all add: s1(4,5) r(2) add.commute add.left_commute)
  then show ?case using ih b [of "sum_list ns"] by (simp add: s1(4) r(2) add.assoc)
qed

end

section \<open>Descriptors of regular files\<close>

definition stream_ok :: "nat \<Rightarrow> nat \<Rightarrow> nat set \<Rightarrow> 'z vfs_scheme \<Rightarrow> bool" where
  "stream_ok i p R s \<longleftrightarrow> i < 145 \<and> fs_count (fs_structs s (cur_fs s)) > 0 \<and> entry_ok i (fil s (cur_fs s) i) \<and> opened s (cur_fs s) i \<and>
     f_node (fil s (cur_fs s) i) = Some (SfsNode p) \<and> f_readable (fil s (cur_fs s) i) \<and> f_writable (fil s (cur_fs s) i) \<and>
     is_file p s \<and> inode_check p (sfs s) = Some () \<and> file_ok (sfs s) p R \<and> sin_sem (nodes (sfs s) p) = 1"

definition stream_pos :: "nat \<Rightarrow> 'z vfs_scheme \<Rightarrow> nat" where
  "stream_pos i s = unat (f_pos (fil s (cur_fs s) i))"

definition stream_content :: "nat \<Rightarrow> 'z vfs_scheme \<Rightarrow> u8 list" where
  "stream_content p s = file_bytes (sfs s) p"

lemma only_file_check:
  assumes "only_file p R f f'"
  shows "inode_check p f' = inode_check p f" "in_ops (nodes f' p) = in_ops (nodes f p)"
  using assms by (auto simp: only_file_def inode_check_def)

lemma only_file_refl: "only_file p R s s"
  by (rule stable_only_file(1) [OF stable_refl])

lemma fd2file_stream: "stream_ok i p R s \<Longrightarrow> fd2file (int i) s = Some (0, i)"
  by (auto simp: stream_ok_def fd2file_def testfd_def get_filemap_def kassert_def opened_def entry_ok_def)

text \<open>The bracket around a call that succeeds in the node layer.\<close>

lemma bracket_stream:
  assumes s: "stream_ok i p R s" and f: "file_ok f p R" "sin_sem (nodes f p) = 1" "only_file p R (sfs s) f"
  defines "s1 \<equiv> upd_file (cur_fs s) i (\<lambda>x. x\<lparr>f_open_count := f_open_count x + 1\<rparr>) s"
  shows "filemap_acquire (cur_fs s) i s = Some s1"
    and "\<exists>s'. filemap_release (cur_fs s) i (upd_file (cur_fs s) i (\<lambda>x. x\<lparr>f_pos := q\<rparr>) (s1\<lparr>sfs := f\<rparr>)) = Some s' \<and> sfs s' = f \<and>
      stream_ok i p R s' \<and> f_pos (fil s' (cur_fs s') i) = q"
proof -
  let ?a = "cur_fs s" and ?x = "fil s (cur_fs s) i"
  have c: "f_open_count ?x = 1" "f_status ?x = FD_OPENED" "i < 145" using s by (auto simp: stream_ok_def entry_ok_def opened_def)
  show "filemap_acquire ?a i s = Some s1" using c by (simp add: filemap_acquire_def kassert_def s1_def)
  let ?s2 = "upd_file ?a i (\<lambda>x. x\<lparr>f_pos := q\<rparr>) (s1\<lparr>sfs := f\<rparr>)"
  let ?s' = "upd_file ?a i (\<lambda>x. x\<lparr>f_open_count := f_open_count x - 1\<rparr>) ?s2"
  have x2: "fil ?s2 ?a i = ?x\<lparr>f_open_count := 2, f_pos := q\<rparr>" using c by (simp add: s1_def)
  have r: "filemap_release ?a i ?s2 = Some ?s'" using c x2 by (simp add: filemap_release_def kassert_def Let_def)
  have x': "fil ?s' ?a i = ?x\<lparr>f_pos := q\<rparr>" using c by (cases ?x) (simp add: s1_def)
  have "stream_ok i p R ?s'"
    using s f only_file_check [OF f(3)] x' c unfolding stream_ok_def by (simp add: s1_def opened_def is_file_def entry_ok_def)
  with r x' show "\<exists>s'. filemap_release ?a i ?s2 = Some s' \<and> sfs s' = f \<and> stream_ok i p R s' \<and> f_pos (fil s' (cur_fs s') i) = q"
    by (intro exI [of _ ?s']) (simp add: s1_def)
qed

section \<open>Reading and writing\<close>

lemma of_nat_u32: "n < 2 ^ 32 \<Longrightarrow> unat (of_nat n :: u32) = n"
  by (simp add: unat_of_nat take_bit_nat_eq_self)

lemma iobuf_used_after: "iobuf_used (iob_after k (iobuf_init base len off)) = k"
  by (simp add: iobuf_used_def iob_after_def iobuf_init_def)

lemma stream_io:
  fixes s :: "'z vfs_scheme"
  assumes s: "stream_ok i p R s" and pos: "stream_pos i s < 2 ^ 27" "stream_pos i s + n < 2 ^ 31"
    and w: "write \<longrightarrow> stream_pos i s \<le> length (stream_content p s) \<and> stream_pos i s + n \<le> 1036 * 4096"
  shows "\<exists>ret k m' s'. file_io (if write then vop_write else vop_read) i base (of_nat n) m s = Some (ret, of_nat k, m', s') \<and> k \<le> n \<and>
    outcome write ret k (span write (length (stream_content p s)) (stream_pos i s) n) (sfs s') \<and> stream_ok i p R s' \<and>
    stream_pos i s' = stream_pos i s + k \<and> io_effect write (stream_pos i s) k base m m' (stream_content p s) (stream_content p s')"
proof -
  let ?a = "cur_fs s" and ?x = "fil s (cur_fs s) i" and ?P = "stream_pos i s" and ?N = "span write (length (stream_content p s)) (stream_pos i s) n"
  let ?iob = "iobuf_init base (of_nat n) (f_pos ?x)"
  define s1 where "s1 = upd_file ?a i (\<lambda>x. x\<lparr>f_open_count := f_open_count x + 1\<rparr>) s"
  have n: "unat (of_nat n :: u32) = n" using pos by (intro of_nat_u32) simp
  have io: "io_base ?iob = base" "unat (io_offset ?iob) = ?P" "unat (io_resid ?iob) = n" by (simp_all add: iobuf_init_def stream_pos_def n)
  have ok: "file_ok (sfs s) p R" "sin_sem (nodes (sfs s) p) = 1" using s by (simp_all add: stream_ok_def)
  obtain ret k m' f where f: "sfs_io write p ?iob m (sfs s) = Some (ret, iob_after (of_nat k) ?iob, m', f)" "outcome write ret k ?N f"
    "file_ok f p R" "only_file p R (sfs s) f" "sin_sem (nodes f p) = 1" "io_effect write ?P k base m m' (stream_content p s) (file_bytes f p)"
    using sfs_io_spec [OF ok, of ?iob "write" m] pos w unfolding io stream_content_def by auto
  have k: "k \<le> n" using f(2) by (auto simp: outcome_def span_def split: if_splits)
  have P': "unat (f_pos ?x + of_nat k) = ?P + k"
  proof -
    have "?P + k < 2 ^ 32" "unat (of_nat k :: u32) = k" using pos k of_nat_u32 [of k] by simp_all
    then show ?thesis using unat_add_u32 [of "f_pos ?x" "of_nat k"] by (simp add: stream_pos_def)
  qed
  have acq: "filemap_acquire ?a i s = Some s1" unfolding s1_def by (rule bracket_stream(1) [OF s f(3,5,4)])
  obtain s' where s': "filemap_release ?a i (upd_file ?a i (\<lambda>x. x\<lparr>f_pos := f_pos ?x + of_nat k\<rparr>) (s1\<lparr>sfs := f\<rparr>)) = Some s'"
    "sfs s' = f" "stream_ok i p R s'" "f_pos (fil s' (cur_fs s') i) = f_pos ?x + of_nat k"
    using bracket_stream(2) [OF s f(3,5,4), of "f_pos ?x + of_nat k", folded s1_def] by blast
  have x: "f_node ?x = Some (SfsNode p)" "f_status ?x = FD_OPENED" "is_file p s" "inode_check p (sfs s) = Some ()"
    using s by (simp_all add: stream_ok_def opened_def)
  have sx: "f_node (fil s1 ?a i) = Some (SfsNode p)" "f_pos (fil s1 ?a i) = f_pos ?x" "f_status (fil s1 ?a i) = FD_OPENED" "sfs s1 = sfs s" "is_file p s1"
    using x by (simp_all add: s1_def is_file_def)
  have op: "(if write then vop_write else vop_read) (SfsNode p) ?iob m s1 = Some (ret, iob_after (of_nat k) ?iob, m', s1\<lparr>sfs := f\<rparr>)"
    using f(1) x(4) sx by (cases "write") (simp_all add: vop_write_def vop_read_def sfs_write_def sfs_read_def node_check_def kassert_def)
  have e: "upd_file ?a i (\<lambda>x. x\<lparr>f_pos := f_pos x + of_nat k\<rparr>) (s1\<lparr>sfs := f\<rparr>) = upd_file ?a i (\<lambda>x. x\<lparr>f_pos := f_pos ?x + of_nat k\<rparr>) (s1\<lparr>sfs := f\<rparr>)"
    using sx(2) by (auto simp: upd_file_def upd_fs_def fun_eq_iff intro!: vfs.equality)
  have "file_io (if write then vop_write else vop_read) i base (of_nat n) m s = Some (ret, of_nat k, m', s')"
    using acq op s'(1) sx e unfolding file_io_def by (simp add: iobuf_used_after)
  with f(2,6) s' k P' show ?thesis by (auto simp: stream_pos_def stream_content_def)
qed

definition fd_wr :: "nat \<Rightarrow> nat \<Rightarrow> nat \<Rightarrow> mem \<Rightarrow> 'z vfs_scheme \<Rightarrow> (int \<times> nat \<times> 'z vfs_scheme) option" where
  "fd_wr i base n m s = map_option (\<lambda>(r, k, m', s'). (r, unat k, s')) (file_write (int i) base (of_nat n) m s)"

definition fd_rd :: "nat \<Rightarrow> nat \<Rightarrow> nat \<Rightarrow> mem \<Rightarrow> 'z vfs_scheme \<Rightarrow> (int \<times> nat \<times> mem \<times> 'z vfs_scheme) option" where
  "fd_rd i base n m s = map_option (\<lambda>(r, k, m', s'). (r, unat k, m', s')) (file_read (int i) base (of_nat n) m s)"

definition fd_sk :: "nat \<Rightarrow> nat \<Rightarrow> 'z vfs_scheme \<Rightarrow> (int \<times> 'z vfs_scheme) option" where
  "fd_sk i q s = file_seek (int i) (of_nat q) 0 s"

lemma file_write_stream:
  assumes s: "stream_ok i p R s" and pos: "stream_pos i s \<le> length (stream_content p s)" "stream_pos i s + n \<le> 1036 * 4096"
  shows "\<exists>r k s'. file_write (int i) base (of_nat n) m s = Some (r, of_nat k, m, s') \<and>
    (r = 0 \<and> k = n \<or> r = - errno_of E_NO_MEM \<and> k < n \<and> card (fs_free_blocks (sfs s')) \<le> 1) \<and>
    stream_ok i p R s' \<and> stream_pos i s' = stream_pos i s + k \<and>
    stream_content p s' = take (stream_pos i s) (stream_content p s) @ bytes_at m base k @ drop (stream_pos i s + k) (stream_content p s)"
proof -
  have x: "fd2file (int i) s = Some (0, i)" "f_writable (fil s (cur_fs s) i)" using s fd2file_stream [OF s] by (simp_all add: stream_ok_def)
  show ?thesis
    using stream_io [OF s, of n True base m] pos x by (simp add: file_write_def outcome_def span_def io_effect_def) blast
qed

lemma file_read_stream:
  assumes s: "stream_ok i p R s" and pos: "stream_pos i s \<le> 1036 * 4096" "n \<le> 1036 * 4096" and k: "k = min n (length (stream_content p s) - stream_pos i s)"
  shows "\<exists>m' s'. file_read (int i) base (of_nat n) m s = Some (0, of_nat k, m', s') \<and> bytes_at m' base k = take n (drop (stream_pos i s) (stream_content p s)) \<and>
    (\<forall>a. a < base \<or> base + k \<le> a \<longrightarrow> m' a = m a) \<and>
    stream_ok i p R s' \<and> stream_pos i s' = stream_pos i s + k \<and> stream_content p s' = stream_content p s"
proof -
  have x: "fd2file (int i) s = Some (0, i)" "f_readable (fil s (cur_fs s) i)" using s fd2file_stream [OF s] by (simp_all add: stream_ok_def)
  obtain m' s' where r: "file_read (int i) base (of_nat n) m s = Some (0, of_nat k, m', s')" "stream_ok i p R s'" "stream_pos i s' = stream_pos i s + k"
    "stream_content p s' = stream_content p s"
    "m' = (\<lambda>a. if base \<le> a \<and> a < base + k then stream_content p s ! (stream_pos i s + (a - base)) else m a)"
    using stream_io [OF s, of n False base m] pos x by (simp add: file_read_def outcome_def span_def io_effect_def k) blast
  have "bytes_at m' base k = take n (drop (stream_pos i s) (stream_content p s))"
    by (rule nth_equalityI) (auto simp: bytes_at_def r(5) k)
  with r show ?thesis by auto
qed

lemma file_seek_stream:
  assumes s: "stream_ok i p R s" and q: "q \<le> length (stream_content p s)"
  shows "\<exists>s'. file_seek (int i) (of_nat q) 0 s = Some (0, s') \<and> stream_ok i p R s' \<and> stream_content p s' = stream_content p s \<and> stream_pos i s' = q"
proof -
  let ?a = "cur_fs s" and ?x = "fil s (cur_fs s) i"
  define s1 where "s1 = upd_file ?a i (\<lambda>x. x\<lparr>f_open_count := f_open_count x + 1\<rparr>) s"
  have ok: "file_ok (sfs s) p R" "sin_sem (nodes (sfs s) p) = 1" "is_file p s" "inode_check p (sfs s) = Some ()" "f_node ?x = Some (SfsNode p)"
    using s by (simp_all add: stream_ok_def)
  have own: "only_file p R (sfs s) (sfs s)" by (rule only_file_refl)
  have z: "q \<le> fsize (sfs s) p" "q \<le> 1036 * 4096" using q file_size_bounds(3) [OF ok(1)] by (simp_all add: stream_content_def)
  have u: "unat (of_nat q :: u32) = q" using z(2) by (intro of_nat_u32) simp
  have "sint (of_nat q :: u32) = int q" using sint_small [of "of_nat q :: u32"] u z(2) by (simp add: uint_nat del: of_nat_unat)
  then have tr: "sfs_tryseek p (of_nat q) (sfs s) = Some (0, sfs s)"
    using u z by (simp add: sfs_tryseek_def word_le_nat_alt word_less_nat_alt fsize_def)
  have acq: "filemap_acquire ?a i s = Some s1" unfolding s1_def by (rule bracket_stream(1) [OF s ok(1,2) own])
  obtain s' where s': "filemap_release ?a i (upd_file ?a i (\<lambda>x. x\<lparr>f_pos := of_nat q\<rparr>) (s1\<lparr>sfs := sfs s\<rparr>)) = Some s'"
    "sfs s' = sfs s" "stream_ok i p R s'" "f_pos (fil s' (cur_fs s') i) = of_nat q"
    using bracket_stream(2) [OF s ok(1,2) own, of "of_nat q", folded s1_def] by blast
  have sx: "f_node (fil s1 ?a i) = Some (SfsNode p)" "sfs s1 = sfs s" "is_file p s1" using ok by (simp_all add: s1_def is_file_def)
  have "file_seek (int i) (of_nat q) 0 s = Some (0, s')"
    using fd2file_stream [OF s] acq sx ok(4) tr s'(1)
    by (simp add: file_seek_def seek_target_def seek_move_def vop_tryseek_def node_check_def kassert_def)
  with s' u show ?thesis by (simp add: stream_content_def stream_pos_def)
qed

interpretation fds: byte_stream "stream_ok i p R" "stream_content p" "stream_pos i" "1036 * 4096" "fd_wr i" "fd_rd i" "fd_sk i" for i p R
proof (unfold_locales, goal_cases)
  case (1 s)
  then show ?case using file_size_bounds(3) [of "sfs s" p R] by (simp add: stream_ok_def stream_content_def)
next
  case (2 s n base m)
  from file_write_stream [OF this, of base m] obtain r k s' where
    w: "file_write (int i) base (of_nat n) m s = Some (r, of_nat k, m, s')" "r = 0 \<and> k = n \<or> r = - errno_of E_NO_MEM \<and> k < n \<and> card (fs_free_blocks (sfs s')) \<le> 1"
      "stream_ok i p R s'" "stream_pos i s' = stream_pos i s + k"
      "stream_content p s' = take (stream_pos i s) (stream_content p s) @ bytes_at m base k @ drop (stream_pos i s + k) (stream_content p s)"
    by blast
  moreover have "unat (of_nat k :: u32) = k" using w(2) 2(3) by (intro of_nat_u32) auto
  ultimately have "fd_wr i base n m s = Some (r, k, s')" "r = 0 \<and> k = n \<or> r < 0 \<and> k < n" by (auto simp: fd_wr_def)
  with w(3-5) show ?case by blast
next
  case (3 s n base m)
  from file_read_stream [OF this refl, of base m] obtain m' s' where
    r: "file_read (int i) base (of_nat n) m s = Some (0, of_nat (min n (length (stream_content p s) - stream_pos i s)), m', s')"
      "bytes_at m' base (min n (length (stream_content p s) - stream_pos i s)) = take n (drop (stream_pos i s) (stream_content p s))"
      "stream_ok i p R s'" "stream_pos i s' = stream_pos i s + min n (length (stream_content p s) - stream_pos i s)" "stream_content p s' = stream_content p s"
    by blast
  moreover have "unat (of_nat (min n (length (stream_content p s) - stream_pos i s)) :: u32) = min n (length (stream_content p s) - stream_pos i s)"
    using 3(3) by (intro of_nat_u32) simp
  ultimately show ?case by (auto simp: fd_rd_def)
next
  case (4 s q)
  then show ?case unfolding fd_sk_def by (rule file_seek_stream)
qed

section \<open>Property\<close>

text \<open>A descriptor of the demonstration file system: entry 3 of the table is an empty file, open for reading and writing.\<close>

definition demo_stream :: vfs where
  "demo_stream = upd_file 0 3 (\<lambda>x. x\<lparr>f_status := FD_OPENED, f_readable := True, f_writable := True, f_node := Some (SfsNode 7), f_open_count := 1\<rparr>) demo_vfs"

lemma demo_stream_ok: "stream_ok 3 7 {0, 1, 2} demo_stream" "stream_pos 3 demo_stream = 0" "stream_content 7 demo_stream = []"
proof -
  have "sfs demo_stream = demo_fs" "cur_fs demo_stream = 0" by (simp_all add: demo_stream_def demo_vfs_def)
  then show "stream_ok 3 7 {0, 1, 2} demo_stream" "stream_content 7 demo_stream = []"
    using demo_ok [of 7] unfolding stream_ok_def stream_content_def is_file_def
    by (simp_all add: inode_check_def kassert_def demo_fs_def demo_node_def)
      (simp_all add: demo_stream_def demo_vfs_def entry_ok_def opened_def)
  show "stream_pos 3 demo_stream = 0" by (simp add: stream_pos_def demo_stream_def demo_vfs_def)
qed

text \<open>
  C6: what was written through a descriptor is read back through it. If \<^verbatim>\<open>file_write\<close> on a descriptor of a
  regular file returns 0 for a request at a position within the file that fits the largest file, then
  \<^verbatim>\<open>file_seek\<close> back to the old position returns 0, and \<^verbatim>\<open>file_read\<close> of as many bytes then returns 0 with the full
  count and the bytes written, in any buffer, and does not change the file: through the descriptor table,
  the node operations, the block map and the disk.\<close>

theorem fd_write_seek_read:
  assumes "stream_ok i p R s" and "stream_pos i s \<le> length (stream_content p s)" and "stream_pos i s + n \<le> 1036 * 4096"
    and w: "file_write (int i) base (of_nat n) m s = Some (0, k, m1, s1)"
  shows "\<exists>s2 m' s3. file_seek (int i) (of_nat (stream_pos i s)) 0 s1 = Some (0, s2) \<and>
    file_read (int i) base' (of_nat n) m2 s2 = Some (0, of_nat n, m', s3) \<and> bytes_at m' base' n = bytes_at m base n \<and>
    stream_content p s3 = stream_content p s1"
proof -
  have "fd_wr i base n m s = Some (0, unat k, s1)" using w by (simp add: fd_wr_def)
  from fds.write_seek_read [OF assms(1-3) this, of base' m2] obtain s2 m' s3 where
    r: "file_seek (int i) (of_nat (stream_pos i s)) 0 s1 = Some (0, s2)" "fd_rd i base' n m2 s2 = Some (0, n, m', s3)"
      "bytes_at m' base' n = bytes_at m base n" "stream_content p s3 = stream_content p s1"
    unfolding fd_sk_def by blast
  from r(2) obtain k' where k': "file_read (int i) base' (of_nat n) m2 s2 = Some (0, k', m', s3)" "unat k' = n" by (auto simp: fd_rd_def)
  have "k' = of_nat n" by (simp flip: k'(2))
  with r k'(1) show ?thesis by auto
qed

theorem fd_write_seek_read_witness:
  "\<exists>k m1 s1 s2 m' s3. file_write 3 100 5000 of_nat demo_stream = Some (0, k, m1, s1) \<and> file_seek 3 0 0 s1 = Some (0, s2) \<and>
    file_read 3 9000 5000 (\<lambda>_. 0) s2 = Some (0, 5000, m', s3) \<and> bytes_at m' 9000 5000 = bytes_at of_nat 100 5000"
proof -
  obtain r k s1 where w: "file_write (int 3) 100 (of_nat 5000) of_nat demo_stream = Some (r, of_nat k, of_nat, s1)" "r = 0 \<or> k < 5000"
    using file_write_stream [OF demo_stream_ok(1), of 5000 100 of_nat] by (auto simp: demo_stream_ok)
  have d: "sfs demo_stream = demo_fs" "cur_fs demo_stream = 0" by (simp_all add: demo_stream_def demo_vfs_def)
  have x: "f_node (fil demo_stream 0 3) = Some (SfsNode 7)" "f_pos (fil demo_stream 0 3) = 0" "f_writable (fil demo_stream 0 3)"
    by (simp_all add: demo_stream_def demo_vfs_def)
  have ok: "is_file 7 demo_stream" "inode_check 7 demo_fs = Some ()" using demo_stream_ok(1) d(1) by (simp_all add: stream_ok_def)
  let ?s1 = "upd_file 0 3 (\<lambda>x. x\<lparr>f_open_count := f_open_count x + 1\<rparr>) demo_stream"
  have acq: "filemap_acquire 0 3 demo_stream = Some ?s1"
    using bracket_stream(1) [OF demo_stream_ok(1), of demo_fs] demo_ok(1,2) [of 7] by (simp add: d only_file_refl)
  have op: "\<exists>iob m' s'. vop_write (SfsNode 7) (iobuf_init 100 5000 0) of_nat ?s1 = Some (0, iob, m', s')"
    using demo_write ok d(1) by (auto simp: vop_write_def node_check_def kassert_def is_file_def)
  have "r = 0"
    using w(1) acq op x fd2file_stream [OF demo_stream_ok(1)] by (auto simp: file_write_def file_io_def d Let_def bind_eq_Some_conv)
  with w have "file_write (int 3) 100 (of_nat 5000) of_nat demo_stream = Some (0, of_nat k, of_nat, s1)" by simp
  from fd_write_seek_read [OF demo_stream_ok(1) _ _ this, of 9000 "\<lambda>_. 0"] this show ?thesis
    by (auto simp: demo_stream_ok)
qed

end
