(* ===== verification/Sysfile.thy ===== *)
theory Sysfile
  imports FdStream VmArea CString
begin

text \<open>
  The system calls on files: \<^verbatim>\<open>kern/fs/sysfile.c\<close>, with \<^verbatim>\<open>lock_mm\<close> and \<^verbatim>\<open>unlock_mm\<close> of \<^verbatim>\<open>kern/mm/vmm.h\<close>. A call checks
  and copies between user memory and a kernel buffer, in pieces of 4096 bytes, around the operations
  of \<^verbatim>\<open>file.c\<close>. The second part shows that, for a descriptor of a regular file, reading and writing are
  those of the byte stream, for user ranges of any length. The state puts together the address
  space of the current process, the file systems and the memory as the process sees it; user and
  kernel addresses are disjoint parts of it. The field \<^verbatim>\<open>locked_by\<close> of an \<^verbatim>\<open>mm_struct\<close> is only ever written, and
  is left out.
\<close>

section \<open>The state\<close>

record sys =
  sy_mm :: "nat option"
  sy_vm :: mstate
  sy_fs :: vfs
  sy_mem :: mem

definition lock_mm :: "nat option \<Rightarrow> 'z mstate_scheme \<Rightarrow> 'z mstate_scheme kernel" where
  "lock_mm mm s =
     (case mm of
        Some m \<Rightarrow> do { v \<leftarrow> sem_take (mm_sem (mms s m)); Some (upd_mm m (\<lambda>x. x\<lparr>mm_sem := v\<rparr>) s) }
      | None \<Rightarrow> Some s)"

definition unlock_mm :: "nat option \<Rightarrow> 'z mstate_scheme \<Rightarrow> 'z mstate_scheme" where
  "unlock_mm mm s = (case mm of Some m \<Rightarrow> upd_mm m (\<lambda>x. x\<lparr>mm_sem := mm_sem x + 1\<rparr>) s | None \<Rightarrow> s)"

definition sys_alloc :: "sys \<Rightarrow> nat option \<times> sys" where
  "sys_alloc s = (let (a, v) = kmalloc_next (sy_vm s) in (a, s\<lparr>sy_vm := v\<rparr>))"

definition sys_free :: "nat \<Rightarrow> sys \<Rightarrow> sys" where
  "sys_free b s = s\<lparr>sy_vm := kfree_ptr b (sy_vm s)\<rparr>"

text \<open>The copies between user and kernel memory, under the lock of the address space.\<close>

definition from_user :: "nat \<Rightarrow> u32 \<Rightarrow> u32 \<Rightarrow> bool \<Rightarrow> sys \<Rightarrow> (bool \<times> sys) kernel" where
  "from_user dst src len writable s = do {
     v1 \<leftarrow> lock_mm (sy_mm s) (sy_vm s);
     (ok, m, v2) \<leftarrow> copy_from_user (sy_mm s) (of_nat dst) src len writable (sy_mem s) v1;
     Some (ok, s\<lparr>sy_vm := unlock_mm (sy_mm s) v2, sy_mem := m\<rparr>)
   }"

definition to_user :: "u32 \<Rightarrow> nat \<Rightarrow> u32 \<Rightarrow> sys \<Rightarrow> (bool \<times> sys) kernel" where
  "to_user dst src len s = do {
     v1 \<leftarrow> lock_mm (sy_mm s) (sy_vm s);
     (ok, m, v2) \<leftarrow> copy_to_user (sy_mm s) dst (of_nat src) len (sy_mem s) v1;
     Some (ok, s\<lparr>sy_vm := unlock_mm (sy_mm s) v2, sy_mem := m\<rparr>)
   }"

section \<open>Paths\<close>

abbreviation (input) FS_MAX_FPATH_LEN :: u32 where "FS_MAX_FPATH_LEN \<equiv> 4095"

definition copy_path :: "u32 \<Rightarrow> sys \<Rightarrow> (int \<times> nat \<times> sys) kernel" where
  "copy_path from s =
     (case sys_alloc s of
        (None, s1) \<Rightarrow> Some (- errno_of E_NO_MEM, 0, s1)
      | (Some buffer, s1) \<Rightarrow> do {
          v1 \<leftarrow> lock_mm (sy_mm s1) (sy_vm s1);
          (ok, m, v2) \<leftarrow> copy_string (sy_mm s1) (of_nat buffer) from (FS_MAX_FPATH_LEN + 1) (sy_mem s1) v1;
          let s2 = s1\<lparr>sy_vm := unlock_mm (sy_mm s1) v2, sy_mem := m\<rparr>;
          Some (if ok then (0, buffer, s2) else (- errno_of E_INVAL, 0, sys_free buffer s2))
        })"

text \<open>The string in a buffer.\<close>

definition path_at :: "mem \<Rightarrow> nat \<Rightarrow> u8 list kernel" where
  "path_at m a = do { n \<leftarrow> strlen m a; Some (map (\<lambda>i. m (a + i)) [0..<n]) }"

definition sysfile_open :: "u32 \<Rightarrow> u32 \<Rightarrow> sys \<Rightarrow> (int \<times> sys) kernel" where
  "sysfile_open upath open_flags s = do {
     (ret, path, s1) \<leftarrow> copy_path upath s;
     if ret \<noteq> 0 then Some (ret, s1)
     else do {
       p \<leftarrow> path_at (sy_mem s1) path;
       (ret, f) \<leftarrow> file_open p open_flags (sy_fs s1);
       Some (ret, sys_free path (s1\<lparr>sy_fs := f\<rparr>))
     }
   }"

definition sysfile_chdir :: "u32 \<Rightarrow> sys \<Rightarrow> (int \<times> sys) kernel" where
  "sysfile_chdir upath s = do {
     (ret, path, s1) \<leftarrow> copy_path upath s;
     if ret \<noteq> 0 then Some (ret, s1)
     else do {
       p \<leftarrow> path_at (sy_mem s1) path;
       (ret, f) \<leftarrow> vfs_chdir p (sy_fs s1);
       Some (ret, sys_free path (s1\<lparr>sy_fs := f\<rparr>))
     }
   }"

text \<open>The calls on two paths; \<^verbatim>\<open>vfs_link\<close> and \<^verbatim>\<open>vfs_rename\<close> are not implemented.\<close>

definition sysfile_two_paths :: "u32 \<Rightarrow> u32 \<Rightarrow> sys \<Rightarrow> (int \<times> sys) kernel" where
  "sysfile_two_paths upath1 upath2 s = do {
     (ret, old_path, s1) \<leftarrow> copy_path upath1 s;
     if ret \<noteq> 0 then Some (ret, s1)
     else do {
       (ret, new_path, s2) \<leftarrow> copy_path upath2 s1;
       if ret \<noteq> 0 then Some (ret, sys_free old_path s2)
       else Some (vfs_unimplemented, sys_free new_path (sys_free old_path s2))
     }
   }"

definition sysfile_link :: "u32 \<Rightarrow> u32 \<Rightarrow> sys \<Rightarrow> (int \<times> sys) kernel" where
  "sysfile_link = sysfile_two_paths"

definition sysfile_rename :: "u32 \<Rightarrow> u32 \<Rightarrow> sys \<Rightarrow> (int \<times> sys) kernel" where
  "sysfile_rename = sysfile_two_paths"

definition sysfile_unlink :: "u32 \<Rightarrow> sys \<Rightarrow> (int \<times> sys) kernel" where
  "sysfile_unlink upath s = do {
     (ret, path, s1) \<leftarrow> copy_path upath s;
     Some (if ret \<noteq> 0 then (ret, s1) else (vfs_unimplemented, sys_free path s1))
   }"

section \<open>Calls on descriptors\<close>

text \<open>A call that only passes its arguments on to \<^verbatim>\<open>file.c\<close>.\<close>

definition on_files :: "(vfs \<Rightarrow> (int \<times> vfs) kernel) \<Rightarrow> sys \<Rightarrow> (int \<times> sys) kernel" where
  "on_files f s = do { (ret, fs) \<leftarrow> f (sy_fs s); Some (ret, s\<lparr>sy_fs := fs\<rparr>) }"

definition sysfile_close :: "int \<Rightarrow> sys \<Rightarrow> (int \<times> sys) kernel" where
  "sysfile_close fd = on_files (file_close fd)"

definition sysfile_seek :: "int \<Rightarrow> u32 \<Rightarrow> int \<Rightarrow> sys \<Rightarrow> (int \<times> sys) kernel" where
  "sysfile_seek fd pos whence = on_files (file_seek fd pos whence)"

definition sysfile_fsync :: "int \<Rightarrow> sys \<Rightarrow> (int \<times> sys) kernel" where
  "sysfile_fsync fd = on_files (file_fsync fd)"

definition sysfile_dup :: "int \<Rightarrow> int \<Rightarrow> sys \<Rightarrow> (int \<times> sys) kernel" where
  "sysfile_dup fd1 fd2 = on_files (file_dup fd1 fd2)"

definition sysfile_pipe :: int where
  "sysfile_pipe = - errno_of E_UNIMP"

definition sysfile_mkfifo :: int where
  "sysfile_mkfifo = - errno_of E_UNIMP"

text \<open>\<open>loc\<close> is the address of the local \<^verbatim>\<open>__local_stat\<close> on the kernel stack; the structure has four words.\<close>

definition store_stat :: "nat \<Rightarrow> stat \<Rightarrow> mem \<Rightarrow> mem" where
  "store_stat a x m = store32 a (st_mode x) (store32 (a + 4) (st_nlinks x) (store32 (a + 8) (st_blocks x) (store32 (a + 12) (st_size x) m)))"

definition sysfile_fstat :: "nat \<Rightarrow> int \<Rightarrow> u32 \<Rightarrow> sys \<Rightarrow> (int \<times> sys) kernel" where
  "sysfile_fstat loc fd ustat s = do {
     (ret, st, f) \<leftarrow> file_fstat fd (sy_fs s);
     let s1 = s\<lparr>sy_fs := f, sy_mem := (case st of Some x \<Rightarrow> store_stat loc x (sy_mem s) | None \<Rightarrow> sy_mem s)\<rparr>;
     if ret \<noteq> 0 then Some (ret, s1)
     else do {
       (ok, s2) \<leftarrow> to_user ustat loc 16 s1;
       Some (if ok then ret else - errno_of E_INVAL, s2)
     }
   }"

text \<open>The first word of a \<^verbatim>\<open>struct dirent\<close> is its offset, the other 256 bytes are the name.\<close>

definition sysfile_getdirentry :: "int \<Rightarrow> u32 \<Rightarrow> sys \<Rightarrow> (int \<times> sys) kernel" where
  "sysfile_getdirentry fd udirent s =
     (case sys_alloc s of
        (None, s1) \<Rightarrow> Some (- errno_of E_NO_MEM, s1)
      | (Some d, s1) \<Rightarrow> do {
          (ok, s2) \<leftarrow> from_user d udirent 4 True s1;
          if \<not> ok then Some (- errno_of E_INVAL, sys_free d s2)
          else do {
            (ret, offset, m, f) \<leftarrow> file_getdirentry fd (d + 4) (load32 (sy_mem s2) d) (sy_mem s2) (sy_fs s2);
            let s3 = s2\<lparr>sy_fs := f, sy_mem := store32 d offset m\<rparr>;
            if ret \<noteq> 0 then Some (ret, sys_free d s3)
            else do {
              (ok, s4) \<leftarrow> to_user udirent d 260 s3;
              Some (if ok then 0 else - errno_of E_INVAL, sys_free d s4)
            }
          }
        })"

definition sysfile_getcwd :: "u32 \<Rightarrow> u32 \<Rightarrow> sys \<Rightarrow> (int \<times> sys) kernel" where
  "sysfile_getcwd buf len s =
     (if len = 0 then Some (- errno_of E_INVAL, s)
      else do {
        v1 \<leftarrow> lock_mm (sy_mm s) (sy_vm s);
        (ok, v2) \<leftarrow> user_mem_check (sy_mm s) buf len True v1;
        (ret, m, f) \<leftarrow>
          (if ok then do { (ret, _, m, f) \<leftarrow> vfs_getcwd (iobuf_init (unat buf) len 0) (sy_mem s) (sy_fs s); Some (ret, m, f) }
           else Some (- errno_of E_INVAL, sy_mem s, sy_fs s));
        Some (ret, s\<lparr>sy_vm := unlock_mm (sy_mm s) v2, sy_fs := f, sy_mem := m\<rparr>)
      })"

section \<open>Reading and writing\<close>

abbreviation (input) IOBUF_SIZE :: u32 where "IOBUF_SIZE \<equiv> 4096"

text \<open>The loops; the result is \<^verbatim>\<open>ret\<close> and \<^verbatim>\<open>copied\<close> at their end.\<close>

definition read_deliver :: "nat \<Rightarrow> u32 \<Rightarrow> u32 \<Rightarrow> u32 \<Rightarrow> u32 \<Rightarrow> int \<Rightarrow> sys \<Rightarrow> (int \<times> u32 \<times> u32 \<times> u32 \<times> sys) kernel" where
  "read_deliver buffer base len cnt alen ret s =
     (if alen \<noteq> 0 then do {
        (ok, s1) \<leftarrow> to_user base buffer alen s;
        if ok then do { kassert (len \<ge> alen); Some (ret, base + alen, len - alen, cnt + alen, s1) }
        else Some (if ret = 0 then - errno_of E_INVAL else ret, base, len, cnt, s1)
      }
      else Some (ret, base, len, cnt, s))"

partial_function (option) sysfile_read_loop :: "int \<Rightarrow> nat \<Rightarrow> u32 \<Rightarrow> u32 \<Rightarrow> u32 \<Rightarrow> int \<Rightarrow> sys \<Rightarrow> (int \<times> u32 \<times> sys) option" where
  "sysfile_read_loop fd buffer base len cnt ret s =
     (if len \<noteq> 0 then do {
        (ret, alen, m, f) \<leftarrow> file_read fd buffer (if IOBUF_SIZE > len then len else IOBUF_SIZE) (sy_mem s) (sy_fs s);
        (ret, base', len', cnt', s1) \<leftarrow> read_deliver buffer base len cnt alen ret (s\<lparr>sy_mem := m, sy_fs := f\<rparr>);
        if ret \<noteq> 0 \<or> alen = 0 then Some (ret, cnt', s1)
        else sysfile_read_loop fd buffer base' len' cnt' ret s1
      }
      else Some (ret, cnt, s))"

text \<open>One round of the write loop: \<^verbatim>\<open>ret\<close>, \<^verbatim>\<open>alen\<close> and the state after it.\<close>

definition write_piece :: "int \<Rightarrow> nat \<Rightarrow> u32 \<Rightarrow> u32 \<Rightarrow> int \<Rightarrow> sys \<Rightarrow> (int \<times> u32 \<times> sys) kernel" where
  "write_piece fd buffer base alen ret s = do {
     (ok, s1) \<leftarrow> from_user buffer base alen False s;
     let ret1 = (if ok then ret else - errno_of E_INVAL);
     if ret1 = 0 then do {
       (ret2, alen', m, f) \<leftarrow> file_write fd buffer alen (sy_mem s1) (sy_fs s1);
       Some (ret2, alen', s1\<lparr>sy_mem := m, sy_fs := f\<rparr>)
     }
     else Some (ret1, 0, s1)
   }"

partial_function (option) sysfile_write_loop :: "int \<Rightarrow> nat \<Rightarrow> u32 \<Rightarrow> u32 \<Rightarrow> u32 \<Rightarrow> int \<Rightarrow> sys \<Rightarrow> (int \<times> u32 \<times> sys) option" where
  "sysfile_write_loop fd buffer base len cnt ret s =
     (if len \<noteq> 0 then do {
        (ret, alen, s1) \<leftarrow> write_piece fd buffer base (if IOBUF_SIZE > len then len else IOBUF_SIZE) ret s;
        kassert (alen = 0 \<or> len \<ge> alen);
        if ret \<noteq> 0 \<or> alen = 0 then Some (ret, cnt + alen, s1)
        else sysfile_write_loop fd buffer (base + alen) (len - alen) (cnt + alen) ret s1
      }
      else Some (ret, cnt, s))"

definition sysfile_read :: "int \<Rightarrow> u32 \<Rightarrow> u32 \<Rightarrow> sys \<Rightarrow> (int \<times> sys) kernel" where
  "sysfile_read fd base len s =
     (if len = 0 then Some (0, s)
      else do {
        t \<leftarrow> file_testfd fd True False (sy_fs s);
        if \<not> t then Some (- errno_of E_INVAL, s)
        else case sys_alloc s of
          (None, s1) \<Rightarrow> Some (- errno_of E_NO_MEM, s1)
        | (Some buffer, s1) \<Rightarrow> do {
            (ret, cnt, s2) \<leftarrow> sysfile_read_loop fd buffer base len 0 0 s1;
            Some (if cnt \<noteq> 0 then sint cnt else ret, sys_free buffer s2)
          }
      })"

definition sysfile_write :: "int \<Rightarrow> u32 \<Rightarrow> u32 \<Rightarrow> sys \<Rightarrow> (int \<times> sys) kernel" where
  "sysfile_write fd base len s =
     (if len = 0 then Some (0, s)
      else do {
        t \<leftarrow> file_testfd fd False True (sy_fs s);
        if \<not> t then Some (- errno_of E_INVAL, s)
        else case sys_alloc s of
          (None, s1) \<Rightarrow> Some (- errno_of E_NO_MEM, s1)
        | (Some buffer, s1) \<Rightarrow> do {
            (ret, cnt, s2) \<leftarrow> sysfile_write_loop fd buffer base len 0 0 s1;
            Some (if cnt \<noteq> 0 then sint cnt else ret, sys_free buffer s2)
          }
      })"

section \<open>Copying between user and kernel memory\<close>

text \<open>Every byte of the range may be accessed, and the range does not wrap around.\<close>

definition user_range :: "bool \<Rightarrow> mstate \<Rightarrow> nat list \<Rightarrow> u32 \<Rightarrow> u32 \<Rightarrow> bool" where
  "user_range write v vs base len \<longleftrightarrow> USER_ACCESS base (base + len) \<and>
     (\<forall>a. base \<le> a \<and> a < base + len \<longrightarrow> (\<exists>p \<in> set vs. user_ok write (vmas v p) a))"

definition mm_ready :: "sys \<Rightarrow> nat \<Rightarrow> nat list \<Rightarrow> bool" where
  "mm_ready s m vs \<longleftrightarrow> sy_mm s = Some m \<and> areas (sy_vm s) m vs \<and> mm_sem (mms (sy_vm s) m) = 1"

text \<open>A kernel buffer of 4096 bytes.\<close>

definition kbuf :: "nat \<Rightarrow> bool" where
  "kbuf b \<longleftrightarrow> 0x80000000 \<le> b \<and> b + 4096 \<le> 2 ^ 32"

lemma user_range_bounds:
  assumes "user_range w v vs base len"
  shows "unat (base + len) = unat base + unat len" "unat base + unat len \<le> 0x80000000"
proof -
  have a: "base < base + len" "unat (base + len) \<le> 0x80000000"
    using assms by (simp_all add: user_range_def USER_ACCESS_def word_le_nat_alt)
  show "unat (base + len) = unat base + unat len"
  proof (cases "unat base + unat len < 2 ^ 32")
    case False
    then have "unat (base + len) = unat base + unat len - 2 ^ 32"
      using unat_u32_bound [of base] unat_u32_bound [of len] by (simp add: unat_word_ariths mod_if)
    with a(1) unat_u32_bound [of len] show ?thesis by (simp add: word_less_nat_alt)
  qed (simp add: unat_add_u32)
  with a(2) show "unat base + unat len \<le> 0x80000000" by simp
qed

lemma user_range_head:
  assumes r: "user_range w v vs base len" and n: "0 < n" "n \<le> len"
  shows "user_range w v vs base n"
proof -
  have u: "unat (base + n) = unat base + unat n" "unat (base + n) \<le> unat (base + len)"
    using user_range_bounds [OF r] n unat_add_u32 [of base n] by (simp_all add: word_le_nat_alt)
  then have "base < base + n" "base + n \<le> base + len" using n(1) by (simp_all add: word_less_nat_alt word_le_nat_alt)
  with r show ?thesis unfolding user_range_def USER_ACCESS_def by (meson less_le_trans order_trans)
qed

lemma user_range_tail:
  assumes r: "user_range w v vs base len" and n: "n < len"
  shows "user_range w v vs (base + n) (len - n)"
proof -
  have u: "unat (base + n) = unat base + unat n"
    using user_range_bounds [OF r] n unat_add_u32 [of base n] by (simp add: word_less_nat_alt)
  then have "base \<le> base + n" "base + n < base + len" using user_range_bounds [OF r] n by (simp_all add: word_less_nat_alt word_le_nat_alt)
  with r show ?thesis unfolding user_range_def USER_ACCESS_def by (auto intro: order_trans)
qed

lemma find_vma_sem: "find_vma mm addr s = Some (r, s') \<Longrightarrow> mm_sem (mms s' q) = mm_sem (mms s q)"
proof (cases mm)
  case (Some m)
  assume f: "find_vma mm addr s = Some (r, s')"
  from f obtain vma where "(case vma of Some p \<Rightarrow> Some (vma, upd_mm m (\<lambda>x. x\<lparr>mmap_cache := Some p\<rparr>) s) | None \<Rightarrow> Some (None, s)) = Some (r, s')"
    unfolding find_vma_def Some option.case by (auto dest: bind_eq_SomeD)
  then show ?thesis by (cases vma) (auto simp: upd_mm_def)
qed (simp add: find_vma_def)

lemma user_mem_loop_sem:
  assumes "user_mem_loop m w start fin s = Some rs"
  shows "mm_sem (mms (snd rs) q) = mm_sem (mms s q)"
proof (rule user_mem_loop.raw_induct [of "\<lambda>m w start fin s rs. mm_sem (mms (snd rs) q) = mm_sem (mms s q)", OF _ assms], goal_cases)
  case (1 loop m w start fin s rs)
  show ?case
  proof (cases "start < fin")
    case True
    then obtain vma s1 where f: "find_vma (Some m) start s = Some (vma, s1)" using 1(2) by (auto simp: bind_eq_Some_conv)
    show ?thesis
      using 1(2) True f find_vma_sem [OF f, of q] by (auto split: option.splits if_splits dest!: 1(1))
  qed (use 1(2) in auto)
qed

lemma user_mem_check_ok:
  fixes s :: mstate
  assumes a: "areas s m vs" and r: "user_range w s vs base n"
  shows "\<exists>s'. user_mem_check (Some m) base n w s = Some (True, s') \<and> areas s' m vs \<and> vmas s' = vmas s \<and> mm_sem (mms s' m) = mm_sem (mms s m)"
proof -
  obtain s' where s': "user_mem_loop m w base (base + n) s = Some (True, s')" "areas s' m vs" "s' = s\<lparr>mms := mms s'\<rparr>"
    using user_mem_loop_correct [OF a, of w base "base + n"] r by (auto simp: user_range_def)
  have "vmas s' = vmas s" using arg_cong [OF s'(3), of vmas] by simp
  moreover have "mm_sem (mms s' m) = mm_sem (mms s m)" using user_mem_loop_sem [OF s'(1), of m] by simp
  ultimately show ?thesis using s'(1,2) r by (simp add: user_mem_check_def user_range_def)
qed

text \<open>The lock around the check is free again, and the areas are as before.\<close>

lemma mm_locked:
  assumes "mm_ready s m vs"
  shows "lock_mm (sy_mm s) (sy_vm s) = Some (upd_mm m (\<lambda>x. x\<lparr>mm_sem := 0\<rparr>) (sy_vm s))"
    "areas (upd_mm m (\<lambda>x. x\<lparr>mm_sem := 0\<rparr>) (sy_vm s)) m vs"
  using assms by (simp_all add: mm_ready_def lock_mm_def sem_take_def areas_def)

lemma mm_unlocked:
  assumes "areas v m vs" "mm_sem (mms v m) = 0"
  shows "areas (unlock_mm (Some m) v) m vs" "mm_sem (mms (unlock_mm (Some m) v) m) = 1" "vmas (unlock_mm (Some m) v) = vmas v"
  using assms by (simp_all add: unlock_mm_def areas_def)

lemma user_check_locked:
  assumes s: "mm_ready s m vs" and r: "user_range w (sy_vm s) vs base n"
  shows "\<exists>v. user_mem_check (Some m) base n w (upd_mm m (\<lambda>x. x\<lparr>mm_sem := 0\<rparr>) (sy_vm s)) = Some (True, v) \<and>
    areas (unlock_mm (Some m) v) m vs \<and> mm_sem (mms (unlock_mm (Some m) v) m) = 1 \<and> vmas (unlock_mm (Some m) v) = vmas (sy_vm s)"
proof -
  let ?v = "upd_mm m (\<lambda>x. x\<lparr>mm_sem := 0\<rparr>) (sy_vm s)"
  have "user_range w ?v vs base n" using r by (simp add: user_range_def)
  from user_mem_check_ok [OF mm_locked(2) [OF s] this] obtain v where
    v: "user_mem_check (Some m) base n w ?v = Some (True, v)" "areas v m vs" "vmas v = vmas (sy_vm s)" "mm_sem (mms v m) = 0" by auto
  with mm_unlocked [OF v(2,4)] show ?thesis by auto
qed

lemma from_user_ok:
  assumes s: "mm_ready s m vs" and r: "user_range False (sy_vm s) vs base n" and b: "kbuf b" and n: "unat n \<le> 4096"
  shows "\<exists>s'. from_user b base n False s = Some (True, s') \<and> mm_ready s' m vs \<and> vmas (sy_vm s') = vmas (sy_vm s) \<and> sy_fs s' = sy_fs s \<and>
    bytes_at (sy_mem s') b (unat n) = bytes_at (sy_mem s) (unat base) (unat n) \<and> (\<forall>a. a < b \<or> b + 4096 \<le> a \<longrightarrow> sy_mem s' a = sy_mem s a)"
proof -
  from user_check_locked [OF s r] obtain v where
    v: "user_mem_check (Some m) base n False (upd_mm m (\<lambda>x. x\<lparr>mm_sem := 0\<rparr>) (sy_vm s)) = Some (True, v)"
      "areas (unlock_mm (Some m) v) m vs" "mm_sem (mms (unlock_mm (Some m) v) m) = 1" "vmas (unlock_mm (Some m) v) = vmas (sy_vm s)" by auto
  have u: "unat (of_nat b :: u32) = b" using b by (intro of_nat_u32) (simp add: kbuf_def)
  have c: "copy_up b (unat base) (unat n) (sy_mem s) = (\<lambda>a. if b \<le> a \<and> a < b + unat n then sy_mem s (unat base + (a - b)) else sy_mem s a)"
    using user_range_bounds(2) [OF r] b by (intro copy_up_eq) (simp add: kbuf_def)
  let ?s' = "s\<lparr>sy_vm := unlock_mm (Some m) v, sy_mem := copy_up b (unat base) (unat n) (sy_mem s)\<rparr>"
  have m: "sy_mm s = Some m" using s by (simp add: mm_ready_def)
  have "from_user b base n False s = Some (True, ?s')"
    using mm_locked(1) [OF s] v(1) m u by (simp add: from_user_def copy_from_user_def memcpy_def)
  with v(2-4) c n m show ?thesis by (intro exI [of _ ?s']) (auto simp: mm_ready_def bytes_at_def)
qed

lemma to_user_ok:
  assumes s: "mm_ready s m vs" and r: "user_range True (sy_vm s) vs base n" and b: "kbuf b" and n: "unat n \<le> 4096"
  shows "\<exists>s'. to_user base b n s = Some (True, s') \<and> mm_ready s' m vs \<and> vmas (sy_vm s') = vmas (sy_vm s) \<and> sy_fs s' = sy_fs s \<and>
    bytes_at (sy_mem s') (unat base) (unat n) = bytes_at (sy_mem s) b (unat n) \<and>
    (\<forall>a. a < unat base \<or> unat base + unat n \<le> a \<longrightarrow> sy_mem s' a = sy_mem s a)"
proof -
  from user_check_locked [OF s r] obtain v where
    v: "user_mem_check (Some m) base n True (upd_mm m (\<lambda>x. x\<lparr>mm_sem := 0\<rparr>) (sy_vm s)) = Some (True, v)"
      "areas (unlock_mm (Some m) v) m vs" "mm_sem (mms (unlock_mm (Some m) v) m) = 1" "vmas (unlock_mm (Some m) v) = vmas (sy_vm s)" by auto
  have u: "unat (of_nat b :: u32) = b" using b by (intro of_nat_u32) (simp add: kbuf_def)
  have c: "copy_up (unat base) b (unat n) (sy_mem s) =
      (\<lambda>a. if unat base \<le> a \<and> a < unat base + unat n then sy_mem s (b + (a - unat base)) else sy_mem s a)"
    using user_range_bounds(2) [OF r] b by (intro copy_up_eq) (simp add: kbuf_def)
  let ?s' = "s\<lparr>sy_vm := unlock_mm (Some m) v, sy_mem := copy_up (unat base) b (unat n) (sy_mem s)\<rparr>"
  have m: "sy_mm s = Some m" using s by (simp add: mm_ready_def)
  have "to_user base b n s = Some (True, ?s')"
    using mm_locked(1) [OF s] v(1) m u by (simp add: to_user_def copy_to_user_def memcpy_def)
  with v(2-4) c n m show ?thesis by (intro exI [of _ ?s']) (auto simp: mm_ready_def bytes_at_def)
qed

section \<open>The write loop\<close>

lemma bytes_at_prefix: "bytes_at m a n = bytes_at m' a' n \<Longrightarrow> k \<le> n \<Longrightarrow> bytes_at m a k = bytes_at m' a' k"
  by (auto simp: bytes_at_def)

lemma bytes_at_cong: "(\<And>x. a \<le> x \<Longrightarrow> x < a + n \<Longrightarrow> m x = m' x) \<Longrightarrow> bytes_at m a n = bytes_at m' a n"
  by (simp add: bytes_at_def)

lemma bytes_at_add: "bytes_at m a (n + k) = bytes_at m a n @ bytes_at m (a + n) k"
  by (rule nth_equalityI) (auto simp: bytes_at_def nth_append)

definition splice :: "nat \<Rightarrow> u8 list \<Rightarrow> u8 list \<Rightarrow> u8 list" where
  "splice off ys xs = take off xs @ ys @ drop (off + length ys) xs"

lemma splice_splice: "off \<le> length xs \<Longrightarrow> splice (off + length ys) zs (splice off ys xs) = splice off (ys @ zs) xs"
  by (simp add: splice_def add.commute add.left_commute)

lemma bytes_at_0 [simp]: "bytes_at m a 0 = []"
  by (simp add: bytes_at_def)

text \<open>What one round, and a whole run, of the write loop does with the first \<open>k\<close> of \<open>n\<close> bytes at \<open>base\<close>.\<close>

definition wrote :: "nat \<Rightarrow> nat \<Rightarrow> nat set \<Rightarrow> nat \<Rightarrow> nat list \<Rightarrow> nat \<Rightarrow> nat \<Rightarrow> nat \<Rightarrow> int \<Rightarrow> nat \<Rightarrow> sys \<Rightarrow> sys \<Rightarrow> bool" where
  "wrote i p R m vs b base n r k s s' \<longleftrightarrow>
     (r = 0 \<and> k = n \<or> r = - errno_of E_NO_MEM \<and> k < n \<and> card (fs_free_blocks (sfs (sy_fs s'))) \<le> 1) \<and>
     mm_ready s' m vs \<and> vmas (sy_vm s') = vmas (sy_vm s) \<and> stream_ok i p R (sy_fs s') \<and> stream_pos i (sy_fs s') = stream_pos i (sy_fs s) + k \<and>
     stream_content p (sy_fs s') = splice (stream_pos i (sy_fs s)) (bytes_at (sy_mem s) base k) (stream_content p (sy_fs s)) \<and>
     (\<forall>a. a < b \<or> b + 4096 \<le> a \<longrightarrow> sy_mem s' a = sy_mem s a)"

lemma write_piece_stream:
  assumes s: "mm_ready s m vs" and r: "user_range False (sy_vm s) vs base n" and b: "kbuf b" and n: "unat n \<le> 4096"
    and f: "stream_ok i p R (sy_fs s)" "stream_pos i (sy_fs s) \<le> length (stream_content p (sy_fs s))" "stream_pos i (sy_fs s) + unat n \<le> 1036 * 4096"
  shows "\<exists>r k s'. write_piece (int i) b base n 0 s = Some (r, of_nat k, s') \<and> wrote i p R m vs b (unat base) (unat n) r k s s'"
proof -
  from from_user_ok [OF s r b n] obtain s1 where
    s1: "from_user b base n False s = Some (True, s1)" "mm_ready s1 m vs" "vmas (sy_vm s1) = vmas (sy_vm s)" "sy_fs s1 = sy_fs s"
      "bytes_at (sy_mem s1) b (unat n) = bytes_at (sy_mem s) (unat base) (unat n)" "\<forall>a. a < b \<or> b + 4096 \<le> a \<longrightarrow> sy_mem s1 a = sy_mem s a"
    by blast
  from file_write_stream [OF f, of b "sy_mem s1"] obtain r k f' where
    w: "file_write (int i) b n (sy_mem s1) (sy_fs s) = Some (r, of_nat k, sy_mem s1, f')" "r = 0 \<and> k = unat n \<or> r = - errno_of E_NO_MEM \<and> k < unat n \<and> card (fs_free_blocks (sfs f')) \<le> 1"
      "stream_ok i p R f'" "stream_pos i f' = stream_pos i (sy_fs s) + k"
      "stream_content p f' = take (stream_pos i (sy_fs s)) (stream_content p (sy_fs s)) @ bytes_at (sy_mem s1) b k @ drop (stream_pos i (sy_fs s) + k) (stream_content p (sy_fs s))"
    by auto
  have k: "bytes_at (sy_mem s1) b k = bytes_at (sy_mem s) (unat base) k" using bytes_at_prefix [OF s1(5), of k] w(2) by auto
  have "write_piece (int i) b base n 0 s = Some (r, of_nat k, s1\<lparr>sy_fs := f'\<rparr>)"
    using s1(1,4) w(1) by (simp add: write_piece_def)
  moreover have "wrote i p R m vs b (unat base) (unat n) r k s (s1\<lparr>sy_fs := f'\<rparr>)"
    using s1(2,3,6) w(2-5) k unfolding wrote_def splice_def mm_ready_def by simp
  ultimately show ?thesis by blast
qed

lemma wrote_trans:
  assumes a: "wrote i p R m vs b base n 0 n s s1" and c: "wrote i p R m vs b (base + n) j r k s1 s2"
    and pos: "stream_pos i (sy_fs s) \<le> length (stream_content p (sy_fs s))" and d: "base + n + j \<le> b"
  shows "wrote i p R m vs b base (n + j) r (n + k) s s2"
proof -
  let ?P = "stream_pos i (sy_fs s)" and ?c = "stream_content p (sy_fs s)"
  have k: "k \<le> j" using c by (auto simp: wrote_def)
  have m: "bytes_at (sy_mem s1) (base + n) k = bytes_at (sy_mem s) (base + n) k"
    using a d k by (intro bytes_at_cong) (simp add: wrote_def)
  have "stream_content p (sy_fs s2) = splice (?P + n) (bytes_at (sy_mem s) (base + n) k) (splice ?P (bytes_at (sy_mem s) base n) ?c)"
    using a c m by (simp add: wrote_def)
  also have "\<dots> = splice ?P (bytes_at (sy_mem s) base (n + k)) ?c"
    using splice_splice [OF pos, of "bytes_at (sy_mem s) base n"] by (simp add: bytes_at_add)
  finally show ?thesis using a c by (auto simp: wrote_def)
qed

lemma write_loop_stream:
  "mm_ready s m vs \<Longrightarrow> 0 < len \<Longrightarrow> user_range False (sy_vm s) vs base len \<Longrightarrow> kbuf b \<Longrightarrow> stream_ok i p R (sy_fs s) \<Longrightarrow>
   stream_pos i (sy_fs s) \<le> length (stream_content p (sy_fs s)) \<Longrightarrow> stream_pos i (sy_fs s) + unat len \<le> 1036 * 4096 \<Longrightarrow>
   \<exists>r k s'. sysfile_write_loop (int i) b base len cnt 0 s = Some (r, cnt + of_nat k, s') \<and> wrote i p R m vs b (unat base) (unat len) r k s s'"
proof (induction "unat len" arbitrary: base len cnt s rule: less_induct)
  case less
  define n where "n = (if IOBUF_SIZE > len then len else IOBUF_SIZE)"
  have n: "0 < n" "n \<le> len" "unat n \<le> 4096" using less.prems(2) by (auto simp: n_def word_le_nat_alt word_less_nat_alt)
  have ne: "n \<noteq> 0" "len \<noteq> 0" using n(1) less.prems(2) by auto
  have un: "unat n \<le> unat len" using n(2) by (simp add: word_le_nat_alt)
  from write_piece_stream [OF less.prems(1) user_range_head [OF less.prems(3) n(1,2)] less.prems(4) n(3) less.prems(5,6)] obtain r k s1 where
    w: "write_piece (int i) b base n 0 s = Some (r, of_nat k, s1)" "wrote i p R m vs b (unat base) (unat n) r k s s1"
    using less.prems(7) un by force
  have k: "k \<le> unat n" "unat (of_nat k :: u32) = k" using w(2) n(3) by (auto simp: wrote_def intro!: of_nat_u32)
  have le: "of_nat k \<le> len" using k un by (simp add: word_le_nat_alt del: of_nat_unat)
  show ?case
  proof (cases "r = 0")
    case False
    then have "wrote i p R m vs b (unat base) (unat len) r k s s1" using w(2) un by (auto simp: wrote_def)
    moreover have "sysfile_write_loop (int i) b base len cnt 0 s = Some (r, cnt + of_nat k, s1)"
      using w(1) False le ne by (subst sysfile_write_loop.simps) (simp flip: n_def)
    ultimately show ?thesis by blast
  next
    case True
    then have kn: "k = unat n" using w(2) by (auto simp: wrote_def)
    then have kw: "of_nat k = n" by simp
    have step: "sysfile_write_loop (int i) b base len cnt 0 s = sysfile_write_loop (int i) b (base + n) (len - n) (cnt + n) 0 s1"
      using w(1) True ne le by (subst sysfile_write_loop.simps) (simp add: kw flip: n_def)
    show ?thesis
    proof (cases "n = len")
      case True
      then have "sysfile_write_loop (int i) b base len cnt 0 s = Some (0, cnt + of_nat k, s1)"
        unfolding step by (subst sysfile_write_loop.simps) (simp add: kw)
      with w(2) True \<open>r = 0\<close> show ?thesis by blast
    next
      case False
      then have lt: "n < len" using n(2) by simp
      have l: "unat (len - n) = unat len - unat n" using unat_sub [OF n(2)] .
      have w': "wrote i p R m vs b (unat base) (unat n) 0 (unat n) s s1" using w(2) True kn by simp
      have rng: "user_range False (sy_vm s1) vs (base + n) (len - n)"
        using user_range_tail [OF less.prems(3) lt] w' by (simp add: user_range_def wrote_def)
      have "\<exists>r k s'. sysfile_write_loop (int i) b (base + n) (len - n) (cnt + n) 0 s1 = Some (r, cnt + n + of_nat k, s') \<and>
          wrote i p R m vs b (unat (base + n)) (unat (len - n)) r k s1 s'"
      proof (rule less.hyps)
        show "unat (len - n) < unat len" using n(1) un unfolding l by (simp add: word_less_nat_alt)
        show "0 < len - n" using lt l by (simp add: word_less_nat_alt)
        show "stream_pos i (sy_fs s1) \<le> length (stream_content p (sy_fs s1))"
          using w' less.prems(6) by (simp add: wrote_def splice_def)
        show "stream_pos i (sy_fs s1) + unat (len - n) \<le> 1036 * 4096" using w' less.prems(7) un by (simp add: wrote_def l)
      qed (use w' rng less.prems(4) in \<open>simp_all add: wrote_def\<close>)
      then obtain r' k' s2 where ih: "sysfile_write_loop (int i) b (base + n) (len - n) (cnt + n) 0 s1 = Some (r', cnt + n + of_nat k', s2)"
        "wrote i p R m vs b (unat (base + n)) (unat (len - n)) r' k' s1 s2" by blast
      have ub: "unat (base + n) = unat base + unat n" using user_range_bounds(1) [OF user_range_head [OF less.prems(3) n(1,2)]] .
      have "wrote i p R m vs b (unat base) (unat n + (unat len - unat n)) r' (unat n + k') s s2"
        using wrote_trans [OF w' ih(2) [unfolded ub l] less.prems(6)] user_range_bounds(2) [OF less.prems(3)] less.prems(4) un by (simp add: kbuf_def)
      moreover have "cnt + n + of_nat k' = cnt + of_nat (unat n + k')" by (simp add: add.assoc)
      ultimately show ?thesis using step ih(1) un by (intro exI [of _ r'] exI [of _ "unat n + k'"] exI [of _ s2]) simp
    qed
  qed
qed

section \<open>The read loop\<close>

definition did_read :: "nat \<Rightarrow> nat \<Rightarrow> nat set \<Rightarrow> nat \<Rightarrow> nat list \<Rightarrow> nat \<Rightarrow> nat \<Rightarrow> nat \<Rightarrow> nat \<Rightarrow> sys \<Rightarrow> sys \<Rightarrow> bool" where
  "did_read i p R m vs b base n k s s' \<longleftrightarrow> k = min n (length (stream_content p (sy_fs s)) - stream_pos i (sy_fs s)) \<and>
     mm_ready s' m vs \<and> vmas (sy_vm s') = vmas (sy_vm s) \<and> stream_ok i p R (sy_fs s') \<and> stream_pos i (sy_fs s') = stream_pos i (sy_fs s) + k \<and>
     stream_content p (sy_fs s') = stream_content p (sy_fs s) \<and>
     bytes_at (sy_mem s') base k = take n (drop (stream_pos i (sy_fs s)) (stream_content p (sy_fs s))) \<and>
     (\<forall>a. (a < b \<or> b + 4096 \<le> a) \<and> (a < base \<or> base + k \<le> a) \<longrightarrow> sy_mem s' a = sy_mem s a)"

text \<open>One round: the bytes are in the buffer after \<^verbatim>\<open>file_read\<close>, and then at the user's address.\<close>

lemma read_round:
  assumes s: "mm_ready s m vs" and r: "user_range True (sy_vm s) vs base n" and b: "kbuf b" and n: "unat n \<le> 4096"
    and f: "stream_ok i p R (sy_fs s)" "stream_pos i (sy_fs s) \<le> 1036 * 4096"
    and le: "n \<le> len"
  shows "\<exists>k m1 f1 s'. file_read (int i) b n (sy_mem s) (sy_fs s) = Some (0, of_nat k, m1, f1) \<and>
    read_deliver b base len cnt (of_nat k) 0 (s\<lparr>sy_mem := m1, sy_fs := f1\<rparr>) = Some (0, base + of_nat k, len - of_nat k, cnt + of_nat k, s') \<and>
    did_read i p R m vs b (unat base) (unat n) k s s'"
proof -
  define k where "k = min (unat n) (length (stream_content p (sy_fs s)) - stream_pos i (sy_fs s))"
  from file_read_stream [OF f _ k_def, of b "sy_mem s"] obtain m1 f1 where
    f1: "file_read (int i) b n (sy_mem s) (sy_fs s) = Some (0, of_nat k, m1, f1)"
      "bytes_at m1 b k = take (unat n) (drop (stream_pos i (sy_fs s)) (stream_content p (sy_fs s)))"
      "\<forall>a. a < b \<or> b + k \<le> a \<longrightarrow> m1 a = sy_mem s a" "stream_ok i p R f1" "stream_pos i f1 = stream_pos i (sy_fs s) + k"
      "stream_content p f1 = stream_content p (sy_fs s)"
    using n by auto
  have kn: "k \<le> unat n" by (simp add: k_def)
  then have u: "unat (of_nat k :: u32) = k" using n by (intro of_nat_u32) simp
  let ?w = "of_nat k :: u32" and ?s1 = "s\<lparr>sy_mem := m1, sy_fs := f1\<rparr>"
  have wn: "?w \<le> n" "?w \<le> len" using u le kn by (simp_all add: word_le_nat_alt del: of_nat_unat)
  have s1: "mm_ready ?s1 m vs" using s by (simp add: mm_ready_def)
  show ?thesis
  proof (cases "k = 0")
    case True
    with f1 s1 k_def have "did_read i p R m vs b (unat base) (unat n) k s ?s1" unfolding did_read_def by (simp, metis linorder_not_le)
    with f1(1) True show ?thesis by (intro exI [of _ k] exI [of _ m1] exI [of _ f1] exI [of _ ?s1]) (auto simp: read_deliver_def)
  next
    case False
    have w0: "?w \<noteq> 0" using False u by (metis unsigned_0)
    then have "user_range True (sy_vm ?s1) vs base ?w" using user_range_head [OF r _ wn(1)] by (simp add: word_gt_0)
    from to_user_ok [OF s1 this b] obtain s2 where
      s2: "to_user base b ?w ?s1 = Some (True, s2)" "mm_ready s2 m vs" "vmas (sy_vm s2) = vmas (sy_vm s)" "sy_fs s2 = f1"
        "bytes_at (sy_mem s2) (unat base) k = bytes_at m1 b k" "\<forall>a. a < unat base \<or> unat base + k \<le> a \<longrightarrow> sy_mem s2 a = m1 a"
      using u kn n by auto
    have "did_read i p R m vs b (unat base) (unat n) k s s2"
      unfolding did_read_def using k_def s2(2-6) f1(2-6) kn n by (intro conjI allI impI) auto
    with f1(1) s2(1) w0 wn(2) show ?thesis
      by (intro exI [of _ k] exI [of _ m1] exI [of _ f1] exI [of _ s2]) (auto simp: read_deliver_def)
  qed
qed

lemma did_readD:
  assumes "did_read i p R m vs b base n k s s'"
  shows "k = min n (length (stream_content p (sy_fs s)) - stream_pos i (sy_fs s))"
    "mm_ready s' m vs" "vmas (sy_vm s') = vmas (sy_vm s)" "stream_ok i p R (sy_fs s')"
    "stream_pos i (sy_fs s') = stream_pos i (sy_fs s) + k" "stream_content p (sy_fs s') = stream_content p (sy_fs s)"
    "bytes_at (sy_mem s') base k = take n (drop (stream_pos i (sy_fs s)) (stream_content p (sy_fs s)))"
    "(a < b \<or> b + 4096 \<le> a) \<and> (a < base \<or> base + k \<le> a) \<Longrightarrow> sy_mem s' a = sy_mem s a"
  using assms unfolding did_read_def by blast+

lemma did_read_trans:
  assumes a: "did_read i p R m vs b base n n s s1" and c: "did_read i p R m vs b (base + n) j k s1 s2" and d: "base + n + j \<le> b"
  shows "did_read i p R m vs b base (n + j) (n + k) s s2"
proof -
  let ?P = "stream_pos i (sy_fs s)" and ?c = "stream_content p (sy_fs s)"
  have le: "n \<le> length ?c - ?P" using did_readD(1) [OF a] by linarith
  have kj: "k \<le> j" using did_readD(1) [OF c] by linarith
  have "bytes_at (sy_mem s2) base n = bytes_at (sy_mem s1) base n"
    using did_readD(8) [OF c] d by (intro bytes_at_cong) simp
  also have "\<dots> = take n (drop ?P ?c)" by (rule did_readD(7) [OF a])
  finally have b1: "bytes_at (sy_mem s2) base n = take n (drop ?P ?c)" .
  have b2: "bytes_at (sy_mem s2) (base + n) k = take j (drop (?P + n) ?c)"
    using did_readD(7) [OF c] unfolding did_readD(5,6) [OF a] .
  have "take n (drop ?P ?c) @ take j (drop (?P + n) ?c) = take (n + j) (drop ?P ?c)" by (simp add: take_add add.commute [of ?P])
  then have bs: "bytes_at (sy_mem s2) base (n + k) = take (n + j) (drop ?P ?c)" unfolding bytes_at_add b1 b2 .
  have k: "n + k = min (n + j) (length ?c - ?P)"
    using did_readD(1) [OF c] le unfolding did_readD(5,6) [OF a] by linarith
  have m: "sy_mem s2 x = sy_mem s x" if "(x < b \<or> b + 4096 \<le> x) \<and> (x < base \<or> base + (n + k) \<le> x)" for x
    using did_readD(8) [OF c, of x] did_readD(8) [OF a, of x] that by auto
  show ?thesis
    unfolding did_read_def
    using k bs m did_readD(2-6) [OF c] did_readD(3,5,6) [OF a] by (intro conjI allI impI) (simp_all add: add.assoc)
qed

lemma did_read_exact: "did_read i p R m vs b base n k s s' \<Longrightarrow> did_read i p R m vs b base k k s s'"
proof -
  assume a: "did_read i p R m vs b base n k s s'"
  have "bytes_at (sy_mem s') base k = take k (drop (stream_pos i (sy_fs s)) (stream_content p (sy_fs s)))"
    using did_readD(7) [OF a] did_readD(1) [OF a] by (auto simp: min_def split: if_splits)
  moreover have "k = min k (length (stream_content p (sy_fs s)) - stream_pos i (sy_fs s))" using did_readD(1) [OF a] by linarith
  ultimately show ?thesis using did_readD(2-6,8) [OF a] unfolding did_read_def by blast
qed

lemma read_loop_stream:
  "mm_ready s m vs \<Longrightarrow> 0 < len \<Longrightarrow> user_range True (sy_vm s) vs base len \<Longrightarrow> kbuf b \<Longrightarrow> stream_ok i p R (sy_fs s) \<Longrightarrow>
   stream_pos i (sy_fs s) \<le> 1036 * 4096 \<Longrightarrow>
   \<exists>k s'. sysfile_read_loop (int i) b base len cnt 0 s = Some (0, cnt + of_nat k, s') \<and> did_read i p R m vs b (unat base) (unat len) k s s'"
proof (induction "unat len" arbitrary: base len cnt s rule: less_induct)
  case less
  define n where "n = (if IOBUF_SIZE > len then len else IOBUF_SIZE)"
  have n: "0 < n" "n \<le> len" "unat n \<le> 4096" using less.prems(2) by (auto simp: n_def word_le_nat_alt word_less_nat_alt)
  have ne: "n \<noteq> 0" "len \<noteq> 0" using n(1) less.prems(2) by auto
  have un: "unat n \<le> unat len" using n(2) by (simp add: word_le_nat_alt)
  from read_round [OF less.prems(1) user_range_head [OF less.prems(3) n(1,2)] less.prems(4) n(3) less.prems(5,6) n(2), of cnt] obtain k m1 f1 s1 where
    w: "file_read (int i) b n (sy_mem s) (sy_fs s) = Some (0, of_nat k, m1, f1)"
      "read_deliver b base len cnt (of_nat k) 0 (s\<lparr>sy_mem := m1, sy_fs := f1\<rparr>) = Some (0, base + of_nat k, len - of_nat k, cnt + of_nat k, s1)"
      "did_read i p R m vs b (unat base) (unat n) k s s1" by blast
  have k: "k \<le> unat n" "unat (of_nat k :: u32) = k" using w(3) n(3) by (auto simp: did_read_def intro!: of_nat_u32)
  let ?L = "sysfile_read_loop (int i) b base len cnt 0 s"
  have step: "?L = (if (of_nat k :: u32) = 0 then Some (0, cnt + of_nat k, s1)
      else sysfile_read_loop (int i) b (base + of_nat k) (len - of_nat k) (cnt + of_nat k) 0 s1)"
    using w(1,2) ne by (subst sysfile_read_loop.simps) (simp flip: n_def)
  show ?case
  proof (cases "k = 0")
    case True
    then have "did_read i p R m vs b (unat base) (unat len) 0 s s1" using w(3) n(1) by (auto simp: did_read_def word_less_nat_alt)
    then show ?thesis using step True by (auto intro!: exI [of _ 0] exI [of _ s1])
  next
    case k0: False
    let ?k = "of_nat k :: u32"
    have kw: "?k \<noteq> 0" "0 < ?k" "?k \<le> len" using k0 k un by (auto simp: word_le_nat_alt word_less_nat_alt simp del: of_nat_unat)
    have w': "did_read i p R m vs b (unat base) k k s s1" by (rule did_read_exact [OF w(3)])
    have stp: "?L = sysfile_read_loop (int i) b (base + ?k) (len - ?k) (cnt + ?k) 0 s1" using step kw(1) by simp
    show ?thesis
    proof (cases "?k = len")
      case True
      then have "?L = Some (0, cnt + ?k, s1)" unfolding stp by (subst sysfile_read_loop.simps) simp
      with w' k(2) True show ?thesis by (intro exI [of _ k] exI [of _ s1]) simp
    next
      case False
      then have lt: "?k < len" using kw(3) by simp
      have l: "unat (len - ?k) = unat len - k" using unat_sub [OF kw(3)] k(2) by simp
      have rng: "user_range True (sy_vm s1) vs (base + ?k) (len - ?k)"
        using user_range_tail [OF less.prems(3) lt] w' by (simp add: user_range_def did_read_def)
      have "\<exists>j s'. sysfile_read_loop (int i) b (base + ?k) (len - ?k) (cnt + ?k) 0 s1 = Some (0, cnt + ?k + of_nat j, s') \<and>
          did_read i p R m vs b (unat (base + ?k)) (unat (len - ?k)) j s1 s'"
      proof (rule less.hyps)
        show "unat (len - ?k) < unat len" using k0 k un ne(2) unfolding l by (simp add: unat_gt_0)
        show "0 < len - ?k" using lt l k(2) by (simp add: word_less_nat_alt)
        show "stream_pos i (sy_fs s1) \<le> 1036 * 4096"
          using fds.content_limit [of i p R "sy_fs s"] less.prems(5) w' k0 by (auto simp: did_read_def)
      qed (use w' rng less.prems(4) in \<open>simp_all add: did_read_def\<close>)
      then obtain j s2 where ih: "sysfile_read_loop (int i) b (base + ?k) (len - ?k) (cnt + ?k) 0 s1 = Some (0, cnt + ?k + of_nat j, s2)"
        "did_read i p R m vs b (unat (base + ?k)) (unat (len - ?k)) j s1 s2" by blast
      have ub: "unat (base + ?k) = unat base + k" using user_range_bounds(1) [OF user_range_head [OF less.prems(3) kw(2,3)]] k(2) by simp
      have "did_read i p R m vs b (unat base) (k + (unat len - k)) (k + j) s s2"
        using did_read_trans [OF w' ih(2) [unfolded ub l]] user_range_bounds(2) [OF less.prems(3)] less.prems(4) un k(1) by (simp add: kbuf_def)
      then show ?thesis using stp ih(1) un k(1) by (intro exI [of _ "k + j"] exI [of _ s2]) (simp add: add.assoc)
    qed
  qed
qed

section \<open>Properties\<close>

lemma alloc_ready:
  assumes "mm_ready s m vs" "kmalloc_ans (sy_vm s) (kmalloc_pos (sy_vm s)) = Some b"
  shows "\<exists>s1. sys_alloc s = (Some b, s1) \<and> mm_ready s1 m vs \<and> sy_fs s1 = sy_fs s \<and> sy_mem s1 = sy_mem s \<and> vmas (sy_vm s1) = vmas (sy_vm s)"
  using assms by (simp add: sys_alloc_def kmalloc_next_def mm_ready_def areas_def)

lemma free_ready:
  "mm_ready s m vs \<Longrightarrow> mm_ready (sys_free b s) m vs" "sy_fs (sys_free b s) = sy_fs s" "sy_mem (sys_free b s) = sy_mem s"
  "vmas (sy_vm (sys_free b s)) = vmas (sy_vm s)"
  by (simp_all add: sys_free_def kfree_ptr_def mm_ready_def areas_def)

lemma testfd_stream:
  assumes "stream_ok i p R f"
  shows "file_testfd (int i) r w f = Some True"
  using assms fd2file_stream [OF assms] by (auto simp: file_testfd_def stream_ok_def Let_def)

text \<open>The value returned for \<^verbatim>\<open>copied\<close>.\<close>

lemma sint_count: "n < 2 ^ 31 \<Longrightarrow> sint (of_nat n :: u32) = int n"
  using sint_small [of "of_nat n :: u32"] of_nat_u32 [of n] by (simp add: uint_nat del: of_nat_unat)

lemma count_zero: "n < 2 ^ 31 \<Longrightarrow> (of_nat n :: u32) = 0 \<longleftrightarrow> n = 0"
  using of_nat_u32 [of n] by (auto simp del: of_nat_unat)

lemma user_range_pos: "user_range w v vs base len \<Longrightarrow> 0 < len"
  by (cases "len = 0") (auto simp: user_range_def USER_ACCESS_def word_gt_0)


text \<open>
  C5: reading a regular file through the system call. For a user range that the areas allow to
  write, of any length, and a descriptor of a regular file, \<^verbatim>\<open>sysfile_read\<close> ends, does not panic and returns the
  number of bytes from the position to the end of the file, or the length of the range if that is
  less. Exactly these bytes of the file are then at the user's address, the position has moved by
  their number, the file is as before, the lock of the address space is free again, and no other
  memory but the kernel buffer changes.\<close>

theorem sysfile_read_stream:
  assumes "mm_ready s m vs" and "user_range True (sy_vm s) vs base len" and "stream_ok i p R (sy_fs s)"
    and "stream_pos i (sy_fs s) \<le> 1036 * 4096"
    and "kmalloc_ans (sy_vm s) (kmalloc_pos (sy_vm s)) = Some b" and "kbuf b"
    and "k = min (unat len) (length (stream_content p (sy_fs s)) - stream_pos i (sy_fs s))"
  shows "\<exists>s'. sysfile_read (int i) base len s = Some (int k, s') \<and>
    bytes_at (sy_mem s') (unat base) k = take (unat len) (drop (stream_pos i (sy_fs s)) (stream_content p (sy_fs s))) \<and>
    (\<forall>a. (a < b \<or> b + 4096 \<le> a) \<and> (a < unat base \<or> unat base + k \<le> a) \<longrightarrow> sy_mem s' a = sy_mem s a) \<and>
    mm_ready s' m vs \<and> vmas (sy_vm s') = vmas (sy_vm s) \<and> stream_ok i p R (sy_fs s') \<and> stream_pos i (sy_fs s') = stream_pos i (sy_fs s) + k \<and>
    stream_content p (sy_fs s') = stream_content p (sy_fs s)"
proof -
  obtain s1 where s1: "sys_alloc s = (Some b, s1)" "mm_ready s1 m vs" "sy_fs s1 = sy_fs s" "sy_mem s1 = sy_mem s" "vmas (sy_vm s1) = vmas (sy_vm s)"
    using alloc_ready [OF assms(1,5)] by blast
  have len: "0 < len" by (rule user_range_pos [OF assms(2)])
  have r: "user_range True (sy_vm s1) vs base len" using assms(2) s1(5) by (simp add: user_range_def)
  from read_loop_stream [OF s1(2) len r assms(6), of i p R 0] assms(3,4) obtain k' s2 where
    w: "sysfile_read_loop (int i) b base len 0 0 s1 = Some (0, of_nat k', s2)" "did_read i p R m vs b (unat base) (unat len) k' s1 s2"
    unfolding s1(3) by (simp only: add_0) blast
  have k': "k' = k" using did_readD(1) [OF w(2)] assms(7) unfolding s1(3) by simp
  have "length (stream_content p (sy_fs s)) \<le> 1036 * 4096" using fds.content_limit [of i p R "sy_fs s"] assms(3) by simp
  then have "k \<le> 1036 * 4096" using assms(7) by simp
  then have k: "k < 2 ^ 31" by simp
  have "(of_nat k :: u32) = 0 \<longleftrightarrow> k = 0" by (rule count_zero [OF k])
  then have "sysfile_read (int i) base len s = Some (int k, sys_free b s2)"
    using len w(1) s1(1) testfd_stream [OF assms(3)] sint_count [OF k] unfolding k' by (auto simp: sysfile_read_def)
  then show ?thesis
    using did_readD(2-8) [OF w(2)] s1(3-5) free_ready unfolding k' by (intro exI [of _ "sys_free b s2"]) simp
qed

definition demo_sys :: sys where
  "demo_sys = \<lparr>sy_mm = Some 1, sy_vm = demo_ms\<lparr>kmalloc_ans := (\<lambda>_. Some 0x80001000)\<rparr>, sy_fs = demo_stream, sy_mem = of_nat\<rparr>"

lemma demo_sys_ready: "mm_ready demo_sys 1 [5]" "kmalloc_ans (sy_vm demo_sys) k = Some 0x80001000" "kbuf 0x80001000"
  using demo_ms_areas by (simp_all add: demo_sys_def mm_ready_def areas_def kbuf_def demo_ms_def vmem.defs)

lemma demo_sys_range: "user_range w (sy_vm demo_sys) [5] 0x10400000 5000"
proof -
  have "user_ok w (vmas demo_ms 5) a" if "0x10400000 \<le> a" "a < 0x10401388" for a :: u32
    using that by (simp add: user_ok_def in_area_def demo_ms_def vmem.defs word_le_nat_alt word_less_nat_alt VM_WRITE_def VM_READ_def VM_STACK_def)
  then show ?thesis by (simp add: user_range_def USER_ACCESS_def demo_sys_def word_le_nat_alt word_less_nat_alt)
qed


theorem sysfile_read_stream_witness:
  "\<exists>s'. sysfile_read 3 0x10400000 5000 demo_sys = Some (0, s') \<and> stream_content 7 (sy_fs s') = []"
  using sysfile_read_stream [OF demo_sys_ready(1) demo_sys_range _ _ demo_sys_ready(2,3) refl, of 3 7 "{0, 1, 2}"] demo_stream_ok
  by (auto simp: demo_sys_def)

end
