(* ===== verification/Slab.thy ===== *)
theory Slab
  imports Pmm Klib
begin

text \<open>
  The slab allocator behind \<^verbatim>\<open>kmalloc\<close> and \<^verbatim>\<open>kfree\<close>: \<^verbatim>\<open>kern/mm/kmalloc.c\<close>, on top of the page allocator. A cache
  serves objects of one size from slabs, runs of pages whose free objects are chained by an
  array of indices; the descriptor of a slab lies at the start of its first page or, for large objects,
  in an object of a smaller cache. Caches are the indices of the array \<^verbatim>\<open>slab_cache\<close>, a descriptor is named by its
  address, and the index array behind it is the field \<open>bufctl\<close>. The pointers that \<^verbatim>\<open>SET_PAGE_CACHE\<close>
  and \<^verbatim>\<open>SET_PAGE_SLAB\<close> put over the list links of a page in use are \<open>pg_cache\<close> and \<open>pg_slabp\<close>; the flag \<^verbatim>\<open>PG_slab\<close>, a bit of its own
  that the page allocator never sets or reads and only clears in pages it is given back, is \<open>page_slab\<close>. The self
  check \<^verbatim>\<open>check_slab\<close> is left out.
\<close>

section \<open>The state\<close>

datatype scell = SFull nat | SNotFull nat | SLink u32

record slab_t =
  s_mem :: u32
  inuse :: u32
  s_offset :: u32
  s_free :: u32
  bufctl :: "nat \<Rightarrow> u32"

record kmem_cache =
  objsize :: u32
  objsize_shift :: nat
  c_num :: u32
  c_offset :: u32
  off_slab :: bool
  page_order :: nat
  slab_cachep :: nat

record slab_state =
  km_pmm :: pmm
  slab_cache :: "nat \<Rightarrow> kmem_cache"
  slab_links :: "scell links"
  slabs :: "u32 \<Rightarrow> slab_t"
  pg_cache :: "nat \<Rightarrow> nat"
  pg_slabp :: "nat \<Rightarrow> u32"
  page_slab :: "nat \<Rightarrow> bool"

abbreviation (input) BUFCTL_END :: u32 where "BUFCTL_END \<equiv> 0xFFFFFFFF"
abbreviation (input) SLAB_LIMIT :: u32 where "SLAB_LIMIT \<equiv> 0xFFFFFFFE"
abbreviation (input) MIN_SIZE_ORDER :: nat where "MIN_SIZE_ORDER \<equiv> 5"
abbreviation (input) MAX_SIZE_ORDER :: nat where "MAX_SIZE_ORDER \<equiv> 17"
abbreviation (input) SLAB_CACHE_NUM :: nat where "SLAB_CACHE_NUM \<equiv> 13"
abbreviation (input) KMALLOC_MAX_ORDER :: nat where "KMALLOC_MAX_ORDER \<equiv> 10"
abbreviation (input) SIZEOF_SLAB :: u32 where "SIZEOF_SLAB \<equiv> 24"

definition upd_cache :: "nat \<Rightarrow> (kmem_cache \<Rightarrow> kmem_cache) \<Rightarrow> slab_state \<Rightarrow> slab_state" where
  "upd_cache c f s = s\<lparr>slab_cache := (slab_cache s)(c := f (slab_cache s c))\<rparr>"

definition upd_slab :: "u32 \<Rightarrow> (slab_t \<Rightarrow> slab_t) \<Rightarrow> slab_state \<Rightarrow> slab_state" where
  "upd_slab p f s = s\<lparr>slabs := (slabs s)(p := f (slabs s p))\<rparr>"

section \<open>The sizes of the caches\<close>

definition slab_mgmt_size :: "u32 \<Rightarrow> u32" where
  "slab_mgmt_size num = ROUNDUP_2N (SIZEOF_SLAB + num * 4) 4"

text \<open>\<^verbatim>\<open>__slab_div_table\<close> has one row of eight columns, of which four are written out.\<close>

definition slab_div :: "nat \<Rightarrow> nat \<Rightarrow> u32 kernel" where
  "slab_div order i = (if order = 0 \<and> i < 8 then Some (if i < 4 then [113, 59, 30, 15] ! i else 0) else panic)"

partial_function (option) estimate_loop :: "u32 \<Rightarrow> u32 \<Rightarrow> u32 \<Rightarrow> u32 option" where
  "estimate_loop sz slab_size nr =
     (if slab_mgmt_size nr + nr * sz > slab_size then estimate_loop sz slab_size (nr - 1) else Some nr)"

text \<open>The remainder and the number of objects.\<close>

definition cache_estimate :: "nat \<Rightarrow> nat \<Rightarrow> bool \<Rightarrow> (u32 \<times> u32) kernel" where
  "cache_estimate order shift off =
     (let slab_size = push_bit order PGSIZE; sz = push_bit shift 1 in
      if off then
        let nr = drop_bit shift slab_size; nr' = (if nr > SLAB_LIMIT then SLAB_LIMIT else nr)
        in Some (slab_size - nr' * sz, nr')
      else do {
        nr0 \<leftarrow> slab_div order (shift - 5);
        nr \<leftarrow> estimate_loop sz slab_size nr0;
        let nr' = (if nr > SLAB_LIMIT then SLAB_LIMIT else nr);
        Some (slab_size - nr' * sz - slab_mgmt_size nr', nr')
      })"

text \<open>The number of objects, the order and the bytes left over; \<open>k\<close> orders are still to be tried.\<close>

fun calculate_slab_order :: "nat \<Rightarrow> nat \<Rightarrow> nat \<Rightarrow> bool \<Rightarrow> (u32 \<times> nat \<times> u32) kernel" where
  "calculate_slab_order 0 order shift off = panic"
| "calculate_slab_order (Suc k) order shift off = do {
     (remainder, num) \<leftarrow> cache_estimate order shift off;
     if num \<noteq> 0 then do {
       kassert (\<not> (off \<and> num > (push_bit shift 1 - SIZEOF_SLAB) div 4));
       if remainder * 8 \<le> push_bit order PGSIZE then Some (num, order, remainder)
       else calculate_slab_order k (order + 1) shift off
     }
     else calculate_slab_order k (order + 1) shift off
   }"

definition slab_getorder :: "u32 \<Rightarrow> nat kernel" where
  "slab_getorder n = find (\<lambda>order. n \<le> push_bit order 1) [MIN_SIZE_ORDER..<MAX_SIZE_ORDER + 1]"

definition init_kmem_cache :: "nat \<Rightarrow> u32 \<Rightarrow> slab_state \<Rightarrow> slab_state kernel" where
  "init_kmem_cache c size0 s = do {
     let s1 = s\<lparr>slab_links := list_init (SNotFull c) (list_init (SFull c) (slab_links s))\<rparr>;
     let size = ROUNDUP_2N size0 4;
     let off = (size \<ge> drop_bit 3 PGSIZE);
     shift \<leftarrow> slab_getorder size;
     (num, order, left_over) \<leftarrow> calculate_slab_order (KMALLOC_MAX_ORDER + 1) 0 shift off;
     kassert (num > 0);
     let mgmt_size = slab_mgmt_size num;
     let off' = (off \<and> \<not> left_over \<ge> mgmt_size);
     let s2 = upd_cache c (\<lambda>x. x\<lparr>objsize := size, objsize_shift := shift, c_num := num, off_slab := off', page_order := order\<rparr>) s1;
     if off' then do {
       o' \<leftarrow> slab_getorder mgmt_size;
       Some (upd_cache c (\<lambda>x. x\<lparr>c_offset := 0, slab_cachep := o' - MIN_SIZE_ORDER\<rparr>) s2)
     }
     else Some (upd_cache c (\<lambda>x. x\<lparr>c_offset := mgmt_size\<rparr>) s2)
   }"

fun slab_init_loop :: "nat \<Rightarrow> nat \<Rightarrow> slab_state \<Rightarrow> slab_state kernel" where
  "slab_init_loop 0 i s = Some s"
| "slab_init_loop (Suc k) i s = do {
     s1 \<leftarrow> init_kmem_cache i (push_bit (i + MIN_SIZE_ORDER) 1) s;
     slab_init_loop k (i + 1) s1
   }"

definition slab_init :: "slab_state \<Rightarrow> slab_state kernel" where
  "slab_init = slab_init_loop SLAB_CACHE_NUM 0"

section \<open>Allocation\<close>

text \<open>\<^verbatim>\<open>le2slab\<close>\<close>

definition le2slab :: "scell \<Rightarrow> u32 kernel" where
  "le2slab le = (case le of SLink p \<Rightarrow> Some p | _ \<Rightarrow> panic)"

text \<open>\<^verbatim>\<open>kmem_cache_slabmgmt\<close> once the descriptor has its memory; \<open>objp\<close> is the address of the first page.\<close>

definition slabmgmt_set :: "nat \<Rightarrow> u32 \<Rightarrow> u32 \<Rightarrow> slab_state \<Rightarrow> slab_state" where
  "slabmgmt_set c objp slabp s =
     upd_slab slabp (\<lambda>x. x\<lparr>inuse := 0, s_offset := c_offset (slab_cache s c), s_mem := objp + c_offset (slab_cache s c)\<rparr>) s"

fun set_pages :: "nat \<Rightarrow> nat \<Rightarrow> u32 \<Rightarrow> nat \<Rightarrow> slab_state \<Rightarrow> slab_state" where
  "set_pages 0 c slabp page s = s"
| "set_pages (Suc k) c slabp page s =
     set_pages k c slabp (page + 1)
       (s\<lparr>pg_cache := (pg_cache s)(page := c), pg_slabp := (pg_slabp s)(page := slabp), page_slab := (page_slab s)(page := True)\<rparr>)"

text \<open>\<^verbatim>\<open>kmem_cache_grow\<close> from the loop over the pages on.\<close>

definition grow_finish :: "nat \<Rightarrow> nat \<Rightarrow> u32 \<Rightarrow> slab_state \<Rightarrow> slab_state" where
  "grow_finish c page slabp s =
     (let s1 = set_pages (2 ^ page_order (slab_cache s c)) c slabp page s;
          num = c_num (slab_cache s1 c);
          s2 = upd_slab slabp (\<lambda>x. x\<lparr>bufctl := (\<lambda>i. if i = unat (num - 1) then BUFCTL_END
                                                 else if i < unat num then of_nat i + 1 else bufctl x i), s_free := 0\<rparr>) s1
      in s2\<lparr>slab_links := list_add (SNotFull c) (SLink slabp) (slab_links s2)\<rparr>)"

definition kmem_cache_alloc_one :: "nat \<Rightarrow> u32 \<Rightarrow> slab_state \<Rightarrow> u32 \<times> slab_state" where
  "kmem_cache_alloc_one c slabp s =
     (let s1 = upd_slab slabp (\<lambda>x. x\<lparr>inuse := inuse x + 1\<rparr>) s;
          objp = s_mem (slabs s1 slabp) + s_free (slabs s1 slabp) * objsize (slab_cache s1 c);
          s2 = upd_slab slabp (\<lambda>x. x\<lparr>s_free := bufctl x (unat (s_free x))\<rparr>) s1;
          s3 = (if s_free (slabs s2 slabp) = BUFCTL_END
                then s2\<lparr>slab_links := list_add (SFull c) (SLink slabp) (list_del (SLink slabp) (slab_links s2))\<rparr> else s2)
      in (objp, s3))"

text \<open>
  \<^verbatim>\<open>kmem_cache_alloc\<close> with \<^verbatim>\<open>kmem_cache_grow\<close> and \<^verbatim>\<open>kmem_cache_slabmgmt\<close>, which it calls and which call it for the
  descriptors of the large caches.
\<close>

partial_function (option) kmem_cache_alloc :: "nat \<Rightarrow> slab_state \<Rightarrow> (u32 option \<times> slab_state) option" where
  "kmem_cache_alloc c s =
     (if \<not> list_empty (slab_links s) (SNotFull c) then do {
        slabp \<leftarrow> le2slab (list_next (slab_links s) (SNotFull c));
        let (objp, s1) = kmem_cache_alloc_one c slabp s;
        Some (Some objp, s1)
      }
      else do {
        (page, v1) \<leftarrow> alloc_pages (2 ^ page_order (slab_cache s c)) (km_pmm s);
        let s1 = s\<lparr>km_pmm := v1\<rparr>;
        case page of
          None \<Rightarrow> Some (None, s1)
        | Some pg \<Rightarrow> do {
            objp \<leftarrow> page2kva v1 pg;
            (slabp, s2) \<leftarrow> (if off_slab (slab_cache s1 c) then kmem_cache_alloc (slab_cachep (slab_cache s1 c)) s1 else Some (Some objp, s1));
            case slabp of
              None \<Rightarrow> do { v3 \<leftarrow> free_pages pg (2 ^ page_order (slab_cache s2 c)) (km_pmm s2); Some (None, s2\<lparr>km_pmm := v3\<rparr>) }
            | Some p \<Rightarrow> kmem_cache_alloc c (grow_finish c pg p (slabmgmt_set c objp p s2))
          }
      })"

definition kmalloc :: "u32 \<Rightarrow> slab_state \<Rightarrow> (u32 option \<times> slab_state) kernel" where
  "kmalloc sz s = do {
     kassert (sz > 0);
     order \<leftarrow> slab_getorder sz;
     if order > MAX_SIZE_ORDER then Some (None, s)
     else kmem_cache_alloc (order - MIN_SIZE_ORDER) s
   }"

section \<open>Release\<close>

fun clear_pages :: "nat \<Rightarrow> nat \<Rightarrow> slab_state \<Rightarrow> slab_state kernel" where
  "clear_pages 0 p s = Some s"
| "clear_pages (Suc k) p s = do {
     kassert (page_slab s p);
     clear_pages k (p + 1) (s\<lparr>page_slab := (page_slab s)(p := False)\<rparr>)
   }"

text \<open>\<^verbatim>\<open>kmem_slab_destroy\<close> up to the release of the descriptor.\<close>

definition destroy_pages :: "nat \<Rightarrow> u32 \<Rightarrow> slab_state \<Rightarrow> slab_state kernel" where
  "destroy_pages c slabp s = do {
     page \<leftarrow> kva2page (km_pmm s) (s_mem (slabs s slabp) - s_offset (slabs s slabp));
     s1 \<leftarrow> clear_pages (2 ^ page_order (slab_cache s c)) page s;
     v \<leftarrow> free_pages page (2 ^ page_order (slab_cache s1 c)) (km_pmm s1);
     Some (s1\<lparr>km_pmm := v\<rparr>)
   }"

text \<open>The first statements of \<^verbatim>\<open>kmem_cache_free_one\<close>.\<close>

definition slab_put :: "nat \<Rightarrow> u32 \<Rightarrow> u32 \<Rightarrow> slab_state \<Rightarrow> slab_state" where
  "slab_put c slabp objp s =
     (let objnr = drop_bit (objsize_shift (slab_cache s c)) (objp - s_mem (slabs s slabp)) in
      upd_slab slabp (\<lambda>x. x\<lparr>bufctl := (bufctl x)(unat objnr := s_free x), s_free := objnr, inuse := inuse x - 1\<rparr>) s)"

definition slab_unlink :: "u32 \<Rightarrow> slab_state \<Rightarrow> slab_state" where
  "slab_unlink slabp s = s\<lparr>slab_links := list_del (SLink slabp) (slab_links s)\<rparr>"

text \<open>
  \<^verbatim>\<open>kmem_cache_free\<close> with \<^verbatim>\<open>kmem_cache_free_one\<close> and \<^verbatim>\<open>kmem_slab_destroy\<close>, which frees the descriptor of a slab of a
  large cache in turn.
\<close>

partial_function (option) kmem_cache_free :: "nat \<Rightarrow> u32 \<Rightarrow> slab_state \<Rightarrow> slab_state option" where
  "kmem_cache_free c objp s = do {
     page \<leftarrow> kva2page (km_pmm s) objp;
     kassert (page_slab s page);
     let slabp = pg_slabp s page;
     let s1 = slab_put c slabp objp s;
     if inuse (slabs s1 slabp) = 0 then do {
       s2 \<leftarrow> destroy_pages c slabp (slab_unlink slabp s1);
       if off_slab (slab_cache s2 c) then kmem_cache_free (slab_cachep (slab_cache s2 c)) slabp s2 else Some s2
     }
     else if inuse (slabs s1 slabp) = c_num (slab_cache s1 c) - 1 then
       let s2 = slab_unlink slabp s1
       in Some (s2\<lparr>slab_links := list_add (SNotFull c) (SLink slabp) (slab_links s2)\<rparr>)
     else Some s1
   }"

definition kfree :: "u32 \<Rightarrow> slab_state \<Rightarrow> slab_state kernel" where
  "kfree objp s = do {
     page \<leftarrow> kva2page (km_pmm s) objp;
     kmem_cache_free (pg_cache s page) objp s
   }"

end
