(* ===== verification/SlabInv.thy ===== *)
theory SlabInv
  imports Slab PageTable
begin

text \<open>
  What the slab allocator guarantees.
\<close>

section \<open>The caches after initialisation\<close>

lemma order_eval:
  "slab_getorder 32 = Some 5" "slab_getorder 64 = Some 6" "slab_getorder 128 = Some 7" "slab_getorder 256 = Some 8"
  "slab_getorder 512 = Some 9" "slab_getorder 1024 = Some 10" "slab_getorder 2048 = Some 11" "slab_getorder 4096 = Some 12"
  "slab_getorder 8192 = Some 13" "slab_getorder 16384 = Some 14" "slab_getorder 32768 = Some 15" "slab_getorder 65536 = Some 16"
  "slab_getorder 131072 = Some 17" "slab_getorder 48 = Some 6"
  by (simp_all add: slab_getorder_def upt_conv_Cons)

lemma estimate_eval:
  "estimate_loop 32 4096 113 = Some 113" "estimate_loop 64 4096 59 = Some 59" "estimate_loop 128 4096 30 = Some 30" "estimate_loop 256 4096 15 = Some 15"
  by (simp_all add: estimate_loop.simps slab_mgmt_size_def ROUNDUP_2N_def ROUNDDOWN_2N_def)

lemma slab_order_numeral:
  "calculate_slab_order (numeral k) order shift off = do {
     (remainder, num) \<leftarrow> cache_estimate order shift off;
     if num \<noteq> 0 then do {
       kassert (\<not> (off \<and> num > (push_bit shift 1 - SIZEOF_SLAB) div 4));
       if remainder * 8 \<le> push_bit order PGSIZE then Some (num, order, remainder)
       else calculate_slab_order (pred_numeral k) (order + 1) shift off
     }
     else calculate_slab_order (pred_numeral k) (order + 1) shift off
   }"
  by (simp only: numeral_eq_Suc calculate_slab_order.simps)

lemma estimate_on:
  "cache_estimate 0 5 False = Some (0, 113)" "cache_estimate 0 6 False = Some (48, 59)"
  "cache_estimate 0 7 False = Some (112, 30)" "cache_estimate 0 8 False = Some (160, 15)"
  by (simp_all add: cache_estimate_def slab_div_def estimate_eval slab_mgmt_size_def ROUNDUP_2N_def ROUNDDOWN_2N_def)

lemma estimate_off:
  "cache_estimate 0 9 True = Some (0, 8)"
  "cache_estimate 0 10 True = Some (0, 4)"
  "cache_estimate 0 11 True = Some (0, 2)"
  "cache_estimate 0 12 True = Some (0, 1)"
  "cache_estimate 0 13 True = Some (4096, 0)"
  "cache_estimate (Suc 0) 13 True = Some (0, 1)"
  "cache_estimate 0 14 True = Some (4096, 0)"
  "cache_estimate (Suc 0) 14 True = Some (8192, 0)"
  "cache_estimate (Suc (Suc 0)) 14 True = Some (0, 1)"
  "cache_estimate 0 15 True = Some (4096, 0)"
  "cache_estimate (Suc 0) 15 True = Some (8192, 0)"
  "cache_estimate (Suc (Suc 0)) 15 True = Some (16384, 0)"
  "cache_estimate (Suc (Suc (Suc 0))) 15 True = Some (0, 1)"
  "cache_estimate 0 16 True = Some (4096, 0)"
  "cache_estimate (Suc 0) 16 True = Some (8192, 0)"
  "cache_estimate (Suc (Suc 0)) 16 True = Some (16384, 0)"
  "cache_estimate (Suc (Suc (Suc 0))) 16 True = Some (32768, 0)"
  "cache_estimate (Suc (Suc (Suc (Suc 0)))) 16 True = Some (0, 1)"
  "cache_estimate 0 17 True = Some (4096, 0)"
  "cache_estimate (Suc 0) 17 True = Some (8192, 0)"
  "cache_estimate (Suc (Suc 0)) 17 True = Some (16384, 0)"
  "cache_estimate (Suc (Suc (Suc 0))) 17 True = Some (32768, 0)"
  "cache_estimate (Suc (Suc (Suc (Suc 0)))) 17 True = Some (65536, 0)"
  "cache_estimate (Suc (Suc (Suc (Suc (Suc 0))))) 17 True = Some (0, 1)"
  by (simp_all add: cache_estimate_def)

lemma size_eval:
  "calculate_slab_order 11 0 5 False = Some (113, 0, 0)" "calculate_slab_order 11 0 6 False = Some (59, 0, 48)"
  "calculate_slab_order 11 0 7 False = Some (30, 0, 112)" "calculate_slab_order 11 0 8 False = Some (15, 0, 160)"
  "calculate_slab_order 11 0 9 True = Some (8, 0, 0)" "calculate_slab_order 11 0 10 True = Some (4, 0, 0)"
  "calculate_slab_order 11 0 11 True = Some (2, 0, 0)" "calculate_slab_order 11 0 12 True = Some (1, 0, 0)"
  "calculate_slab_order 11 0 13 True = Some (1, 1, 0)" "calculate_slab_order 11 0 14 True = Some (1, 2, 0)"
  "calculate_slab_order 11 0 15 True = Some (1, 3, 0)" "calculate_slab_order 11 0 16 True = Some (1, 4, 0)"
  "calculate_slab_order 11 0 17 True = Some (1, 5, 0)"
  by (simp_all add: slab_order_numeral estimate_on estimate_off)

text \<open>What the code needs of the sizes it has computed.\<close>

definition cache_ok :: "kmem_cache \<Rightarrow> nat \<Rightarrow> bool" where
  "cache_ok k c \<longleftrightarrow> objsize k = push_bit (c + 5) 1 \<and> objsize_shift k = c + 5 \<and> 0 < unat (c_num k) \<and> unat (c_num k) \<le> 113 \<and>
     unat (c_offset k) + unat (c_num k) * 2 ^ (c + 5) \<le> 4096 * 2 ^ page_order k \<and> page_order k \<le> 5 \<and> (off_slab k \<longleftrightarrow> 4 \<le> c) \<and>
     (if 4 \<le> c then c_offset k = 0 \<and> slab_cachep k < 2 \<and> 24 + 4 * unat (c_num k) \<le> (2::nat) ^ (slab_cachep k + 5)
      else page_order k = 0 \<and> 24 + 4 * unat (c_num k) \<le> unat (c_offset k))"

lemma init_cache_spec:
  assumes "c < 13"
  shows "\<exists>k. cache_ok k c \<and> init_kmem_cache c (push_bit (c + 5) 1) s =
    Some (s\<lparr>slab_links := list_init (SNotFull c) (list_init (SFull c) (slab_links s)), slab_cache := (slab_cache s)(c := k)\<rparr>)"
proof -
  have ro: "ROUNDUP_2N 32 4 = 32" "ROUNDUP_2N 64 4 = 64" "ROUNDUP_2N 128 4 = 128" "ROUNDUP_2N 256 4 = 256" "ROUNDUP_2N 512 4 = 512"
    "ROUNDUP_2N 1024 4 = 1024" "ROUNDUP_2N 2048 4 = 2048" "ROUNDUP_2N 4096 4 = 4096" "ROUNDUP_2N 8192 4 = 8192" "ROUNDUP_2N 16384 4 = 16384"
    "ROUNDUP_2N 32768 4 = 32768" "ROUNDUP_2N 65536 4 = 65536" "ROUNDUP_2N 131072 4 = 131072"
    by (simp_all add: ROUNDUP_2N_def ROUNDDOWN_2N_def)
  have mg: "slab_mgmt_size 113 = 480" "slab_mgmt_size 59 = 272" "slab_mgmt_size 30 = 144" "slab_mgmt_size 15 = 96" "slab_mgmt_size 8 = 64"
    "slab_mgmt_size 4 = 48" "slab_mgmt_size 2 = 32" "slab_mgmt_size 1 = 32"
    by (simp_all add: slab_mgmt_size_def ROUNDUP_2N_def ROUNDDOWN_2N_def)
  let ?s = "\<lambda>k. s\<lparr>slab_links := list_init (SNotFull c) (list_init (SFull c) (slab_links s)), slab_cache := (slab_cache s)(c := k)\<rparr>"
  have "c \<in> set [0..<13]" using assms by simp
  then have "c \<in> {0, 1, 2, 3, 4, 5, 6, 7, 8, 9, 10, 11, 12}" by (simp add: upt_conv_Cons) (simp add: eval_nat_numeral)
  then consider "c = 0" | "c = 1" | "c = 2" | "c = 3" | "c = 4" | "c = 5" | "c = 6" | "c = 7" | "c = 8" | "c = 9" | "c = 10" | "c = 11" | "c = 12"
    by (elim insertE emptyE) blast+
  then have "case init_kmem_cache c (push_bit (c + 5) 1) s of Some s' \<Rightarrow> cache_ok (slab_cache s' c) c \<and> s' = ?s (slab_cache s' c) | None \<Rightarrow> False"
    by cases (simp_all add: init_kmem_cache_def ro mg order_eval size_eval upd_cache_def cache_ok_def)
  then show ?thesis by (auto split: option.splits)
qed

section \<open>The invariant\<close>

text \<open>The chain of the free objects of a slab.\<close>

fun chain :: "(nat \<Rightarrow> u32) \<Rightarrow> u32 \<Rightarrow> nat list \<Rightarrow> bool" where
  "chain f a [] \<longleftrightarrow> a = BUFCTL_END"
| "chain f a (i # js) \<longleftrightarrow> a = of_nat i \<and> chain f (f i) js"

text \<open>The slabs of each cache that are on its two lists, the free objects and the first page of each slab.\<close>

record slab_view =
  g_ls :: "scell \<Rightarrow> u32 list"
  g_fl :: "u32 \<Rightarrow> nat list"
  g_bs :: "u32 \<Rightarrow> nat"

definition slabs_of :: "slab_view \<Rightarrow> nat \<Rightarrow> u32 set" where
  "slabs_of g c = set (g_ls g (SNotFull c)) \<union> set (g_ls g (SFull c))"

definition slab_run :: "slab_state \<Rightarrow> slab_view \<Rightarrow> nat \<Rightarrow> u32 \<Rightarrow> nat set" where
  "slab_run s g c p = {g_bs g p..<g_bs g p + 2 ^ page_order (slab_cache s c)}"

definition obj_addr :: "slab_state \<Rightarrow> nat \<Rightarrow> u32 \<Rightarrow> nat \<Rightarrow> u32" where
  "obj_addr s c p i = s_mem (slabs s p) + of_nat i * objsize (slab_cache s c)"

text \<open>The objects of a cache that are handed out, and those of them that hold descriptors of slabs.\<close>

definition objs :: "slab_state \<Rightarrow> slab_view \<Rightarrow> nat \<Rightarrow> u32 set" where
  "objs s g c = {obj_addr s c p i |p i. p \<in> slabs_of g c \<and> i < unat (c_num (slab_cache s c)) \<and> i \<notin> set (g_fl g p)}"

definition descs :: "slab_state \<Rightarrow> slab_view \<Rightarrow> nat \<Rightarrow> u32 set" where
  "descs s g d = {p. \<exists>c < 13. off_slab (slab_cache s c) \<and> slab_cachep (slab_cache s c) = d \<and> p \<in> slabs_of g c}"

definition slab_wf :: "slab_state \<Rightarrow> slab_view \<Rightarrow> nat \<Rightarrow> u32 \<Rightarrow> bool" where
  "slab_wf s g c p \<longleftrightarrow> (let x = slabs s p; k = slab_cache s c; fl = g_fl g p in
     chain (bufctl x) (s_free x) fl \<and> distinct fl \<and> (\<forall>i \<in> set fl. i < unat (c_num k)) \<and> unat (inuse x) + length fl = unat (c_num k) \<and>
     s_mem x = page2pa (g_bs g p) + c_offset k \<and> s_offset x = c_offset k \<and> (\<not> off_slab k \<longrightarrow> p = page2pa (g_bs g p)) \<and>
     (\<forall>q \<in> slab_run s g c p. page_slab s q \<and> pg_cache s q = c \<and> pg_slabp s q = p))"

definition heads :: "scell set" where
  "heads = SNotFull ` {..<13} \<union> SFull ` {..<13}"

definition rings_wf :: "scell links \<Rightarrow> (scell \<Rightarrow> u32 list) \<Rightarrow> bool" where
  "rings_wf h G \<longleftrightarrow> (\<forall>k \<in> heads. ring h k (map SLink (G k))) \<and> (\<forall>k \<in> heads. \<forall>l \<in> heads. k \<noteq> l \<longrightarrow> set (G k) \<inter> set (G l) = {})"

definition slab_lists :: "slab_state \<Rightarrow> slab_view \<Rightarrow> bool" where
  "slab_lists s g \<longleftrightarrow> rings_wf (slab_links s) (g_ls g) \<and>
     (\<forall>c < 13. (\<forall>p \<in> set (g_ls g (SNotFull c)). g_fl g p \<noteq> []) \<and> (\<forall>p \<in> set (g_ls g (SFull c)). g_fl g p = []))"

text \<open>\<open>A\<close> are the free pages and those of the slabs; \<open>X\<close> are slabs that may be empty for the moment.\<close>

definition slab_inv :: "nat \<Rightarrow> nat \<Rightarrow> nat \<Rightarrow> nat set \<Rightarrow> u32 set \<Rightarrow> slab_state \<Rightarrow> slab_view \<Rightarrow> nat set \<Rightarrow> bool" where
  "slab_inv z b n A X s g F \<longleftrightarrow>
     buddy_free_is z b n (km_pmm s) F \<and> npage (km_pmm s) \<le> 2 ^ 19 \<and> b + n \<le> npage (km_pmm s) \<and>
     (\<forall>c < 13. cache_ok (slab_cache s c) c) \<and> slab_lists s g \<and>
     (\<forall>c < 13. \<forall>p \<in> slabs_of g c. slab_wf s g c p \<and> slab_run s g c p \<subseteq> {b..<b + n} - F \<and> (p \<notin> X \<longrightarrow> inuse (slabs s p) \<noteq> 0)) \<and>
     (\<forall>d < 13. descs s g d \<subseteq> objs s g d) \<and>
     A = F \<union> (\<Union>c < 13. \<Union>p \<in> slabs_of g c. slab_run s g c p)"

section \<open>Addresses\<close>

lemma unat_objsize: "cache_ok k c \<Longrightarrow> c < 13 \<Longrightarrow> unat (objsize k) = 2 ^ (c + 5)"
proof -
  assume k: "cache_ok k c" "c < 13"
  have "(2::nat) ^ (c + 5) < 2 ^ 32" using k(2) by (intro power_strict_increasing) simp_all
  then have "unat (of_nat (2 ^ (c + 5)) :: u32) = 2 ^ (c + 5)" by (simp only: unat_of_nat) (simp add: take_bit_nat_eq_self)
  with k(1) show ?thesis by (simp add: cache_ok_def push_bit_eq_mult)
qed

lemma unat_obj:
  assumes k: "cache_ok k c" "c < 13" and x: "m = page2pa B + c_offset k" "B + 2 ^ page_order k \<le> 2 ^ 19" and i: "i < unat (c_num k)"
  shows "unat (m + of_nat i * objsize k) = 2 ^ 31 + 4096 * B + (unat (c_offset k) + i * 2 ^ (c + 5))"
    "unat (c_offset k) + i * 2 ^ (c + 5) + 2 ^ (c + 5) \<le> 4096 * 2 ^ page_order k"
    "unat m = 2 ^ 31 + 4096 * B + unat (c_offset k)"
proof -
  have b: "unat (c_offset k) + unat (c_num k) * 2 ^ (c + 5) \<le> 4096 * 2 ^ page_order k" "unat (c_num k) \<le> 113" using k(1) by (simp_all add: cache_ok_def)
  have "(i + 1) * 2 ^ (c + 5) \<le> unat (c_num k) * (2::nat) ^ (c + 5)" using i by (intro mult_le_mono1) simp
  then show 1: "unat (c_offset k) + i * 2 ^ (c + 5) + 2 ^ (c + 5) \<le> 4096 * 2 ^ page_order k" using b(1) by simp
  have "0 < (2::nat) ^ (c + 5)" by simp
  then have "4096 * B + (unat (c_offset k) + i * 2 ^ (c + 5)) < 4096 * B + 4096 * 2 ^ page_order k" using 1 by linarith
  also have "\<dots> \<le> 2 ^ 31" using x(2) by simp
  finally have lt: "2 ^ 31 + 4096 * B + (unat (c_offset k) + i * 2 ^ (c + 5)) < 2 ^ 32" by simp
  have B: "B < 2 ^ 19" 
  proof -
    have "0 < (2::nat) ^ page_order k" by simp
    then have "B < B + 2 ^ page_order k" by simp
    also note x(2)
    finally show ?thesis .
  qed
  have m: "unat m = 2 ^ 31 + B * 4096 + unat (c_offset k)"
    unfolding x(1) using unat_page2pa [OF B] lt by (subst unat_add_u32) simp_all
  then show "unat m = 2 ^ 31 + 4096 * B + unat (c_offset k)" by simp
  have "i < 113" using i b(2) by simp
  then have ui: "unat (of_nat i :: u32) = i" by (simp add: unat_of_nat take_bit_nat_eq_self)
  then have io: "unat (of_nat i * objsize k) = i * 2 ^ (c + 5)"
    using unat_objsize [OF k] lt by (subst unat_mult_u32) simp_all
  show "unat (m + of_nat i * objsize k) = 2 ^ 31 + 4096 * B + (unat (c_offset k) + i * 2 ^ (c + 5))"
    using m io lt by (subst unat_add_u32) simp_all
qed

lemma kva2page_at:
  assumes "unat a = 2 ^ 31 + 4096 * B + y" and "B + y div 4096 < npage v"
  shows "kva2page v a = Some (B + y div 4096)"
proof -
  have k: "\<not> a < KERNBASE" using assms(1) by (simp add: word_less_nat_alt)
  then have "unat (a - KERNBASE) = 4096 * B + y" using assms(1) by (subst unat_sub) (simp_all add: not_less)
  then have "unat (PPN a) = B + y div 4096" by (simp add: PPN_def unat_drop_bit_eq)
  with k assms(2) show ?thesis by (simp add: kva2page_def PADDR_def pa2page_def)
qed

section \<open>Objects\<close>

lemma slab_invD:
  assumes "slab_inv z b n A X s g F"
  shows "buddy_free_is z b n (km_pmm s) F" "npage (km_pmm s) \<le> 2 ^ 19" "b + n \<le> npage (km_pmm s)" "slab_lists s g"
    "A = F \<union> (\<Union>c < 13. \<Union>p \<in> slabs_of g c. slab_run s g c p)"
    "c < 13 \<Longrightarrow> cache_ok (slab_cache s c) c" "c < 13 \<Longrightarrow> p \<in> slabs_of g c \<Longrightarrow> slab_wf s g c p"
    "c < 13 \<Longrightarrow> p \<in> slabs_of g c \<Longrightarrow> slab_run s g c p \<subseteq> {b..<b + n} - F"
    "c < 13 \<Longrightarrow> p \<in> slabs_of g c \<Longrightarrow> p \<notin> X \<Longrightarrow> inuse (slabs s p) \<noteq> 0" "d < 13 \<Longrightarrow> descs s g d \<subseteq> objs s g d"
  using assms unfolding slab_inv_def by blast+

lemma slab_wfD:
  assumes "slab_wf s g c p"
  shows "chain (bufctl (slabs s p)) (s_free (slabs s p)) (g_fl g p)" "distinct (g_fl g p)" "i \<in> set (g_fl g p) \<Longrightarrow> i < unat (c_num (slab_cache s c))"
    "unat (inuse (slabs s p)) + length (g_fl g p) = unat (c_num (slab_cache s c))"
    "s_mem (slabs s p) = page2pa (g_bs g p) + c_offset (slab_cache s c)" "s_offset (slabs s p) = c_offset (slab_cache s c)"
    "\<not> off_slab (slab_cache s c) \<Longrightarrow> p = page2pa (g_bs g p)"
    "q \<in> slab_run s g c p \<Longrightarrow> page_slab s q \<and> pg_cache s q = c \<and> pg_slabp s q = p"
  using assms unfolding slab_wf_def Let_def by blast+

lemma slab_base:
  assumes inv: "slab_inv z b n A X s g F" and c: "c < 13" "p \<in> slabs_of g c"
  shows "g_bs g p + 2 ^ page_order (slab_cache s c) \<le> npage (km_pmm s)" "g_bs g p \<in> slab_run s g c p"
    "g_bs g p + 2 ^ page_order (slab_cache s c) \<le> 2 ^ 19"
proof -
  let ?e = "g_bs g p + 2 ^ page_order (slab_cache s c) - 1"
  have "0 < (2::nat) ^ page_order (slab_cache s c)" by simp
  then have "?e \<in> slab_run s g c p" unfolding slab_run_def atLeastLessThan_iff by linarith
  then have "?e < b + n" using slab_invD(8) [OF inv c] by auto
  with slab_invD(2,3) [OF inv] show "g_bs g p + 2 ^ page_order (slab_cache s c) \<le> npage (km_pmm s)"
    "g_bs g p + 2 ^ page_order (slab_cache s c) \<le> 2 ^ 19" by linarith+
qed (simp add: slab_run_def)

lemma obj_at:
  assumes inv: "slab_inv z b n A X s g F" and c: "c < 13" "p \<in> slabs_of g c" and i: "i < unat (c_num (slab_cache s c))"
  shows "unat (obj_addr s c p i) = 2 ^ 31 + 4096 * g_bs g p + (unat (c_offset (slab_cache s c)) + i * 2 ^ (c + 5))"
    "unat (c_offset (slab_cache s c)) + i * 2 ^ (c + 5) + 2 ^ (c + 5) \<le> 4096 * 2 ^ page_order (slab_cache s c)"
    "\<exists>q. kva2page (km_pmm s) (obj_addr s c p i) = Some q \<and> q \<in> slab_run s g c p"
    "drop_bit (objsize_shift (slab_cache s c)) (obj_addr s c p i - s_mem (slabs s p)) = of_nat i"
proof -
  note k = slab_invD(6) [OF inv c(1)] and w = slab_invD(7) [OF inv c]
  note m = slab_wfD(5) [OF w] and u = unat_obj [OF k c(1) slab_wfD(5) [OF w] slab_base(3) [OF inv c] i]
  let ?y = "unat (c_offset (slab_cache s c)) + i * 2 ^ (c + 5)"
  show 1: "unat (obj_addr s c p i) = 2 ^ 31 + 4096 * g_bs g p + ?y" unfolding obj_addr_def by (rule u(1))
  show 2: "?y + 2 ^ (c + 5) \<le> 4096 * 2 ^ page_order (slab_cache s c)" by (rule u(2))
  have "0 < (2::nat) ^ (c + 5)" by simp
  then have "?y < 4096 * 2 ^ page_order (slab_cache s c)" using 2 by linarith
  then have q: "?y div 4096 < 2 ^ page_order (slab_cache s c)" by (simp add: less_mult_imp_div_less mult.commute)
  show "\<exists>q. kva2page (km_pmm s) (obj_addr s c p i) = Some q \<and> q \<in> slab_run s g c p"
    using kva2page_at [OF 1, of "km_pmm s"] q slab_base(1) [OF inv c] by (intro exI [of _ "g_bs g p + ?y div 4096"]) (auto simp: slab_run_def)
  have "s_mem (slabs s p) \<le> obj_addr s c p i" using 1 u(3) by (simp add: word_le_nat_alt)
  then have d: "unat (obj_addr s c p i - s_mem (slabs s p)) = i * 2 ^ (c + 5)" using 1 u(3) by (subst unat_sub) simp_all
  have "unat (drop_bit (c + 5) (obj_addr s c p i - s_mem (slabs s p))) = i" unfolding unat_drop_bit_eq d by (simp add: drop_bit_eq_div)
  then have "drop_bit (c + 5) (obj_addr s c p i - s_mem (slabs s p)) = of_nat i" by (metis of_nat_unat ucast_id)
  with k show "drop_bit (objsize_shift (slab_cache s c)) (obj_addr s c p i - s_mem (slabs s p)) = of_nat i" by (simp add: cache_ok_def)
qed

lemma run_owner:
  assumes inv: "slab_inv z b n A X s g F" and "c < 13" "p \<in> slabs_of g c" "d < 13" "q \<in> slabs_of g d"
    and "x \<in> slab_run s g c p" "x \<in> slab_run s g d q"
  shows "c = d \<and> p = q"
  using slab_wfD(8) [OF slab_invD(7) [OF inv assms(2,3)] assms(6)] slab_wfD(8) [OF slab_invD(7) [OF inv assms(4,5)] assms(7)] by auto

text \<open>The bytes of an object; objects do not overlap.\<close>

definition bytes_of :: "slab_state \<Rightarrow> nat \<Rightarrow> u32 \<Rightarrow> nat set" where
  "bytes_of s c a = {unat a..<unat a + 2 ^ (c + 5)}"

lemma obj_overlap:
  assumes inv: "slab_inv z b n A X s g F" and c: "c < 13" "p \<in> slabs_of g c" "i < unat (c_num (slab_cache s c))"
    and d: "d < 13" "q \<in> slabs_of g d" "j < unat (c_num (slab_cache s d))"
    and o: "bytes_of s c (obj_addr s c p i) \<inter> bytes_of s d (obj_addr s d q j) \<noteq> {}"
  shows "c = d \<and> p = q \<and> i = j"
proof -
  have page: "(x - 2 ^ 31) div 4096 \<in> slab_run s g c p"
    if c: "c < 13" "p \<in> slabs_of g c" "i < unat (c_num (slab_cache s c))" and x: "x \<in> bytes_of s c (obj_addr s c p i)" for c p i x
  proof -
    have "x - 2 ^ 31 < 4096 * (g_bs g p + 2 ^ page_order (slab_cache s c))" "4096 * g_bs g p \<le> x - 2 ^ 31"
      using x obj_at(1,2) [OF inv c] by (auto simp: bytes_of_def)
    then show ?thesis unfolding slab_run_def atLeastLessThan_iff by (metis div_le_mono less_mult_imp_div_less mult.commute nonzero_mult_div_cancel_left zero_neq_numeral)
  qed
  obtain x where x: "x \<in> bytes_of s c (obj_addr s c p i)" "x \<in> bytes_of s d (obj_addr s d q j)" using o by blast
  have e: "c = d \<and> p = q" by (rule run_owner [OF inv c(1,2) d(1,2) page [OF c x(1)] page [OF d x(2)]])
  have "unat (obj_addr s c p i) = 2 ^ 31 + 4096 * g_bs g p + unat (c_offset (slab_cache s c)) + i * 2 ^ (c + 5)"
    "unat (obj_addr s c p j) = 2 ^ 31 + 4096 * g_bs g p + unat (c_offset (slab_cache s c)) + j * 2 ^ (c + 5)"
    using obj_at(1) [OF inv c] obj_at(1) [OF inv d] e by simp_all
  with x e have "i * 2 ^ (c + 5) < j * 2 ^ (c + 5) + 2 ^ (c + 5)" "j * 2 ^ (c + 5) < i * 2 ^ (c + 5) + (2::nat) ^ (c + 5)"
    by (auto simp: bytes_of_def)
  then have "i * 2 ^ (c + 5) < (j + 1) * 2 ^ (c + 5)" "j * 2 ^ (c + 5) < (i + 1) * (2::nat) ^ (c + 5)" by simp_all
  then have "i < j + 1" "j < i + 1" unfolding mult_less_cancel2 by simp_all
  with e show ?thesis by simp
qed

lemma obj_inj:
  assumes inv: "slab_inv z b n A X s g F" and c: "c < 13" "p \<in> slabs_of g c" "i < unat (c_num (slab_cache s c))"
    and d: "d < 13" "q \<in> slabs_of g d" "j < unat (c_num (slab_cache s d))" and e: "obj_addr s c p i = obj_addr s d q j"
  shows "c = d \<and> p = q \<and> i = j"
  by (rule obj_overlap [OF inv c d]) (auto simp: bytes_of_def e)

section \<open>The lists of slabs\<close>

lemma head_not_link: "k \<in> heads \<Longrightarrow> SLink p \<noteq> k"
  by (auto simp: heads_def)

lemma rings_push:
  assumes r: "rings_wf h G" and k: "k \<in> heads" and p: "\<forall>l \<in> heads. p \<notin> set (G l)"
  shows "rings_wf (list_add k (SLink p) h) (G(k := p # G k))"
proof -
  have "ring (list_add k (SLink p) h) l (map SLink ((G(k := p # G k)) l))" if l: "l \<in> heads" for l
  proof (cases "l = k")
    case True
    have "SLink p \<notin> set (k # map SLink (G k))" using p k head_not_link [OF k, of p] by auto
    then show ?thesis using ring_push [of h k "map SLink (G k)"] r k True by (simp add: rings_wf_def)
  next
    case False
    have "set (G l) \<inter> set (G k) = {}" using False l k r unfolding rings_wf_def by blast
    then have "set (l # map SLink (G l)) \<inter> set (SLink p # k # map SLink (G k)) = {}"
      using False l p head_not_link [OF l] head_not_link [OF k] by (auto dest: sym)
    then show ?thesis using ring_push_other [of h k "map SLink (G k)" l] r k l False by (simp add: rings_wf_def)
  qed
  moreover have "set ((G(k := p # G k)) l) \<inter> set ((G(k := p # G k)) l') = {}" if "l \<in> heads" "l' \<in> heads" "l \<noteq> l'" for l l'
  proof -
    have "set (G l) \<inter> set (G l') = {}" using that r unfolding rings_wf_def by blast
    then show ?thesis using that p by auto
  qed
  ultimately show ?thesis unfolding rings_wf_def by blast
qed

lemma rings_del:
  assumes r: "rings_wf h G" and k: "k \<in> heads" and G: "G k = us @ p # vs"
  shows "rings_wf (list_del (SLink p) h) (G(k := us @ vs))" and "\<forall>l \<in> heads. p \<notin> set ((G(k := us @ vs)) l)"
proof -
  have rk: "ring h k (map SLink us @ SLink p # map SLink vs)" using r k G unfolding rings_wf_def by fastforce
  then have d: "p \<notin> set (us @ vs)" using ring_distinct [OF rk] by auto
  have "ring (list_del (SLink p) h) l (map SLink ((G(k := us @ vs)) l))" if l: "l \<in> heads" for l
  proof (cases "l = k")
    case True
    then show ?thesis using ring_del [OF rk] by simp
  next
    case False
    have "set (G l) \<inter> set (us @ p # vs) = {}" using r l k False G unfolding rings_wf_def by metis
    then have "set (l # map SLink (G l)) \<inter> set (k # map SLink us @ SLink p # map SLink vs) = {}"
      using False head_not_link [OF l] head_not_link [OF k] by (auto dest: sym)
    then show ?thesis using ring_del_other [OF rk, of l "map SLink (G l)"] r l False by (simp add: rings_wf_def)
  qed
  moreover have "set ((G(k := us @ vs)) l) \<inter> set ((G(k := us @ vs)) l') = {}" if "l \<in> heads" "l' \<in> heads" "l \<noteq> l'" for l l'
  proof -
    have "set ((G(k := us @ vs)) l) \<subseteq> set (G l)" "set ((G(k := us @ vs)) l') \<subseteq> set (G l')" using G by auto
    moreover have "set (G l) \<inter> set (G l') = {}" using that r unfolding rings_wf_def by blast
    ultimately show ?thesis by blast
  qed
  ultimately show "rings_wf (list_del (SLink p) h) (G(k := us @ vs))" unfolding rings_wf_def by blast
  show "\<forall>l \<in> heads. p \<notin> set ((G(k := us @ vs)) l)"
  proof
    fix l assume l: "l \<in> heads"
    have "l = k \<or> set (G l) \<inter> set (us @ p # vs) = {}" using r l k G unfolding rings_wf_def by metis
    then show "p \<notin> set ((G(k := us @ vs)) l)" using d by auto
  qed
qed

lemma rings_first:
  assumes r: "rings_wf h G" and k: "k \<in> heads"
  shows "list_empty h k \<longleftrightarrow> G k = []" "G k = p # ps \<Longrightarrow> list_next h k = SLink p"
proof -
  have rk: "ring h k (map SLink (G k))" using r k by (simp add: rings_wf_def)
  show "list_empty h k \<longleftrightarrow> G k = []" using clist.lempty_head [OF rk] by simp
  show "list_next h k = SLink p" if "G k = p # ps" using clist.next_head [OF rk] that by simp
qed

section \<open>Taking an object out of a slab\<close>

lemma heads_in [simp]: "c < 13 \<Longrightarrow> SNotFull c \<in> heads" "c < 13 \<Longrightarrow> SFull c \<in> heads"
  by (simp_all add: heads_def)

lemma upd_slab_fields [simp]:
  "slabs (upd_slab p f s) = (slabs s)(p := f (slabs s p))" "slab_cache (upd_slab p f s) = slab_cache s" "slab_links (upd_slab p f s) = slab_links s"
  "km_pmm (upd_slab p f s) = km_pmm s" "pg_cache (upd_slab p f s) = pg_cache s" "pg_slabp (upd_slab p f s) = pg_slabp s" "page_slab (upd_slab p f s) = page_slab s"
  by (simp_all add: upd_slab_def)

lemma slab_wf_same:
  assumes "slab_wf s g c p" and "slabs s' p = slabs s p" "slab_cache s' c = slab_cache s c" "g_fl g' p = g_fl g p" "g_bs g' p = g_bs g p"
    and "\<And>q. q \<in> slab_run s g c p \<Longrightarrow> page_slab s' q = page_slab s q \<and> pg_cache s' q = pg_cache s q \<and> pg_slabp s' q = pg_slabp s q"
  shows "slab_wf s' g' c p"
proof -
  have "slab_run s' g' c p = slab_run s g c p" by (simp add: slab_run_def assms)
  then show ?thesis using assms(1,6) unfolding slab_wf_def Let_def assms(2-5) by auto
qed

lemma slab_unique:
  assumes inv: "slab_inv z b n A X s g F" and "c < 13" "p \<in> slabs_of g c" "d < 13" "p \<in> slabs_of g d"
  shows "c = d"
  using run_owner [OF assms] slab_wfD(8) [OF slab_invD(7) [OF inv assms(2,3)] slab_base(2) [OF inv assms(2,3)]]
    slab_wfD(8) [OF slab_invD(7) [OF inv assms(4,5)] slab_base(2) [OF inv assms(4,5)]] by auto

text \<open>What an operation on objects of a cache leaves as it is.\<close>

definition same_heap :: "slab_state \<Rightarrow> slab_state \<Rightarrow> bool" where
  "same_heap s s' \<longleftrightarrow> km_pmm s' = km_pmm s \<and> slab_cache s' = slab_cache s \<and> pg_cache s' = pg_cache s \<and> pg_slabp s' = pg_slabp s \<and> page_slab s' = page_slab s"

lemma alloc_one_spec:
  assumes inv: "slab_inv z b n A X s g F" and c: "c < 13" and nf: "g_ls g (SNotFull c) = p # ps"
  shows "\<exists>a s' g'. kmem_cache_alloc_one c p s = (a, s') \<and> slab_inv z b n A (X - {p}) s' g' F \<and> same_heap s s' \<and>
    a \<in> objs s' g' c - objs s g c \<and> (\<forall>d < 13. slabs_of g' d = slabs_of g d \<and> objs s' g' d = (if d = c then insert a (objs s g c) else objs s g d))"
proof -
  have p: "p \<in> slabs_of g c" by (simp add: slabs_of_def nf)
  note k = slab_invD(6) [OF inv c] and w = slab_invD(7) [OF inv c p]
  obtain i fl where fl: "g_fl g p = i # fl" using slab_invD(4) [OF inv] c nf unfolding slab_lists_def by (cases "g_fl g p") auto
  have i: "i < unat (c_num (slab_cache s c))" "i < 113" using slab_wfD(3) [OF w, of i] fl k by (auto simp: cache_ok_def)
  have fr: "s_free (slabs s p) = of_nat i" "chain (bufctl (slabs s p)) (bufctl (slabs s p) i) fl" using slab_wfD(1) [OF w] fl by simp_all
  have ui: "unat (of_nat i :: u32) = i" using i(2) by (simp add: unat_of_nat take_bit_nat_eq_self)
  let ?a = "obj_addr s c p i" and ?f = "bufctl (slabs s p) i"
  define x where "x = (slabs s p)\<lparr>inuse := inuse (slabs s p) + 1, s_free := ?f\<rparr>"
  define l where "l = (if fl = [] then list_add (SFull c) (SLink p) (list_del (SLink p) (slab_links s)) else slab_links s)"
  define s' where "s' = s\<lparr>slabs := (slabs s)(p := x), slab_links := l\<rparr>"
  define g' where "g' = g\<lparr>g_fl := (g_fl g)(p := fl),
    g_ls := (if fl = [] then (g_ls g)(SNotFull c := ps, SFull c := p # g_ls g (SFull c)) else g_ls g)\<rparr>"
  have fend: "?f = BUFCTL_END \<longleftrightarrow> fl = []"
  proof (cases fl)
    case (Cons j js)
    then have "j < 113" using slab_wfD(3) [OF w, of j] fl k by (auto simp: cache_ok_def)
    then have "unat (of_nat j :: u32) = j" by (simp add: unat_of_nat take_bit_nat_eq_self)
    then have "(of_nat j :: u32) \<noteq> BUFCTL_END" using \<open>j < 113\<close> by (auto dest!: arg_cong [where f = unat])
    with Cons fr(2) show ?thesis by simp
  qed (use fr(2) in simp)
  have run: "kmem_cache_alloc_one c p s = (?a, s')"
    unfolding kmem_cache_alloc_one_def Let_def using fr(1) ui fend
    by (auto simp: s'_def x_def l_def obj_addr_def upd_slab_def)
  have same: "same_heap s s'" by (simp add: same_heap_def s'_def)
  have adr: "obj_addr s' d q j = obj_addr s d q j" for d q j by (simp add: obj_addr_def s'_def x_def)
  have sl: "slabs_of g' d = slabs_of g d" for d using nf by (auto simp: slabs_of_def g'_def)
  have rn: "slab_run s' g' d q = slab_run s g d q" for d q by (simp add: slab_run_def s'_def g'_def)
  have other: "q \<noteq> p \<Longrightarrow> slab_wf s g d q \<Longrightarrow> slab_wf s' g' d q" for d q by (rule slab_wf_same) (simp_all add: s'_def g'_def)
  have inu: "unat (inuse (slabs s p) + 1) = unat (inuse (slabs s p)) + 1"
    using slab_wfD(4) [OF w] k by (subst unat_add_u32) (simp_all add: cache_ok_def)
  have wp: "slab_wf s' g' c p"
    using w fr(2) fl inu unfolding slab_wf_def Let_def rn by (simp add: s'_def g'_def x_def)
  have wf': "slab_wf s' g' d q \<and> slab_run s' g' d q \<subseteq> {b..<b + n} - F \<and> (q \<notin> X - {p} \<longrightarrow> inuse (slabs s' q) \<noteq> 0)"
    if "d < 13" "q \<in> slabs_of g d" for d q
  proof (cases "q = p")
    case True
    then have "d = c" using slab_unique [OF inv c p that(1)] that(2) by simp
    with True show ?thesis using wp inu slab_invD(8) [OF inv c p] rn by (auto simp: s'_def x_def)
  next
    case False
    then show ?thesis using other slab_invD(7-9) [OF inv that] rn by (auto simp: s'_def)
  qed
  have ob: "objs s' g' d = (if d = c then insert ?a (objs s g c) else objs s g d)" if d: "d < 13" for d
  proof (cases "d = c")
    case True
    have "q \<in> slabs_of g c \<and> j < unat (c_num (slab_cache s c)) \<and> j \<notin> set (g_fl g' q) \<longleftrightarrow>
        q \<in> slabs_of g c \<and> j < unat (c_num (slab_cache s c)) \<and> j \<notin> set (g_fl g q) \<or> q = p \<and> j = i" for q j
      using p i(1) fl slab_wfD(2) [OF w] by (auto simp: g'_def)
    moreover have "slab_cache s' = slab_cache s" by (simp add: s'_def)
    ultimately show ?thesis unfolding objs_def adr sl True by auto
  next
    case False
    then have "p \<notin> slabs_of g d" using slab_unique [OF inv c p d] by blast
    then show ?thesis using False unfolding objs_def adr sl by (auto simp: s'_def g'_def)
  qed
  have new: "?a \<notin> objs s g c"
    using obj_inj [OF inv c p i(1) c] fl unfolding objs_def by fastforce
  have ls: "slab_lists s' g'"
  proof -
    have L: "rings_wf (slab_links s) (g_ls g)" "\<And>d q. d < 13 \<Longrightarrow> q \<in> set (g_ls g (SNotFull d)) \<Longrightarrow> g_fl g q \<noteq> []"
      "\<And>d q. d < 13 \<Longrightarrow> q \<in> set (g_ls g (SFull d)) \<Longrightarrow> g_fl g q = []"
      using slab_invD(4) [OF inv] by (auto simp: slab_lists_def)
    show ?thesis
    proof (cases "fl = []")
      case True
      have del: "rings_wf (list_del (SLink p) (slab_links s)) ((g_ls g)(SNotFull c := ps))" "\<forall>k \<in> heads. p \<notin> set (((g_ls g)(SNotFull c := ps)) k)"
        using rings_del [OF L(1) heads_in(1) [OF c], of "[]" p ps] nf by (simp_all del: fun_upd_apply)
      have "rings_wf l ((g_ls g)(SNotFull c := ps, SFull c := p # g_ls g (SFull c)))"
      proof -
        have "((g_ls g)(SNotFull c := ps)) (SFull c) = g_ls g (SFull c)" by simp
        with rings_push [OF del(1) heads_in(2) [OF c] del(2)] True show ?thesis by (simp only: l_def simp_thms if_True)
      qed
      moreover have "g_fl g' q \<noteq> []" if "d < 13" "q \<in> set (((g_ls g)(SNotFull c := ps)) (SNotFull d))" for d q
        using that L(2) [of d q] del(2) nf by (auto simp: g'_def split: if_splits)
      ultimately show ?thesis using True L(3) del(2) unfolding slab_lists_def by (auto simp: s'_def g'_def)
    next
      case False
      have "p \<notin> set (g_ls g (SFull d))" if "d < 13" for d using L(3) [OF that, of p] fl by auto
      with False L show ?thesis unfolding slab_lists_def by (auto simp: s'_def g'_def l_def)
    qed
  qed
  have "slab_inv z b n A (X - {p}) s' g' F"
    unfolding slab_inv_def
  proof (intro conjI)
    show "\<forall>d < 13. descs s' g' d \<subseteq> objs s' g' d"
      using slab_invD(10) [OF inv] ob unfolding descs_def sl by (auto simp: s'_def)
    show "A = F \<union> (\<Union>c < 13. \<Union>p \<in> slabs_of g' c. slab_run s' g' c p)" unfolding sl rn by (rule slab_invD(5) [OF inv])
  qed (use slab_invD(1-3,6) [OF inv] wf' ls sl in \<open>simp_all add: s'_def\<close>)
  then show ?thesis using run same ob new sl c by (intro exI [of _ ?a] exI [of _ s'] exI [of _ g']) simp
qed

section \<open>Putting an object back\<close>

lemma chain_upd: "chain f a fl \<Longrightarrow> i \<notin> set fl \<Longrightarrow> chain (f(i := x)) a fl"
  by (induction fl arbitrary: a) auto

text \<open>The descriptor after the first statements.\<close>

lemma put_wf:
  assumes inv: "slab_inv z b n A X s g F" and c: "c < 13" "p \<in> slabs_of g c"
    and i: "i < unat (c_num (slab_cache s c))" "i \<notin> set (g_fl g p)"
  defines "x \<equiv> (slabs s p)\<lparr>bufctl := (bufctl (slabs s p))(i := s_free (slabs s p)), s_free := of_nat i, inuse := inuse (slabs s p) - 1\<rparr>"
  shows "slab_put c p (obj_addr s c p i) s = upd_slab p (\<lambda>_. x) s" and "unat (inuse x) + 1 = unat (inuse (slabs s p))"
    and "slab_wf (upd_slab p (\<lambda>_. x) s) (g\<lparr>g_fl := (g_fl g)(p := i # g_fl g p)\<rparr>) c p"
    and "inuse x = c_num (slab_cache s c) - 1 \<longleftrightarrow> g_fl g p = []"
proof -
  note k = slab_invD(6) [OF inv c(1)] and w = slab_invD(7) [OF inv c]
  have "i < 113" using i(1) k by (simp add: cache_ok_def)
  then have ui: "unat (of_nat i :: u32) = i" by (simp add: unat_of_nat take_bit_nat_eq_self)
  show "slab_put c p (obj_addr s c p i) s = upd_slab p (\<lambda>_. x) s"
    using obj_at(4) [OF inv c i(1)] ui by (simp add: slab_put_def x_def upd_slab_def Let_def)
  have "insert i (set (g_fl g p)) \<subseteq> {..<unat (c_num (slab_cache s c))}" using slab_wfD(3) [OF w] i(1) by auto
  from card_mono [OF _ this] have "card (insert i (set (g_fl g p))) \<le> unat (c_num (slab_cache s c))" by simp
  then have len: "length (g_fl g p) + 1 \<le> unat (c_num (slab_cache s c))" using slab_wfD(2) [OF w] i(2) by (simp add: distinct_card)
  then have pos: "0 < unat (inuse (slabs s p))" using slab_wfD(4) [OF w] by linarith
  then have sub: "unat (inuse (slabs s p) - 1) = unat (inuse (slabs s p)) - 1"
    by (subst unat_sub) (simp_all add: word_le_nat_alt)
  then show dec: "unat (inuse x) + 1 = unat (inuse (slabs s p))" using pos by (simp add: x_def)
  have "chain ((bufctl (slabs s p))(i := s_free (slabs s p))) (of_nat i) (i # g_fl g p)"
    using chain_upd [OF slab_wfD(1) [OF w] i(2)] by simp
  then show "slab_wf (upd_slab p (\<lambda>_. x) s) (g\<lparr>g_fl := (g_fl g)(p := i # g_fl g p)\<rparr>) c p"
    using w i dec unfolding slab_wf_def Let_def by (simp add: x_def slab_run_def)
  have num: "unat (c_num (slab_cache s c) - 1) = unat (c_num (slab_cache s c)) - 1"
    using i(1) by (subst unat_sub) (simp_all add: word_le_nat_alt)
  have "inuse x = c_num (slab_cache s c) - 1 \<longleftrightarrow> unat (inuse x) = unat (c_num (slab_cache s c) - 1)" by (simp add: word_unat_eq_iff)
  also have "\<dots> \<longleftrightarrow> g_fl g p = []" unfolding num length_0_conv [symmetric] using dec slab_wfD(4) [OF w] len by linarith
  finally show "inuse x = c_num (slab_cache s c) - 1 \<longleftrightarrow> g_fl g p = []" .
qed

lemma free_found:
  assumes inv: "slab_inv z b n A X s g F" and c: "c < 13" "p \<in> slabs_of g c" and i: "i < unat (c_num (slab_cache s c))"
  shows "\<exists>q. kva2page (km_pmm s) (obj_addr s c p i) = Some q \<and> page_slab s q \<and> pg_slabp s q = p \<and> pg_cache s q = c"
  using obj_at(3) [OF inv c i] slab_wfD(8) [OF slab_invD(7) [OF inv c]] by blast

lemma free_keep:
  assumes inv: "slab_inv z b n A X s g F" and c: "c < 13" "p \<in> slabs_of g c"
    and i: "i < unat (c_num (slab_cache s c))" "i \<notin> set (g_fl g p)" and nd: "obj_addr s c p i \<notin> descs s g c" and two: "inuse (slabs s p) \<noteq> 1"
  shows "\<exists>s' g'. kmem_cache_free c (obj_addr s c p i) s = Some s' \<and> slab_inv z b n A X s' g' F \<and> same_heap s s' \<and>
    (\<forall>d < 13. slabs_of g' d = slabs_of g d \<and> objs s' g' d = (if d = c then objs s g c - {obj_addr s c p i} else objs s g d))"
proof -
  let ?a = "obj_addr s c p i" and ?N = "unat (c_num (slab_cache s c))"
  define x where "x = (slabs s p)\<lparr>bufctl := (bufctl (slabs s p))(i := s_free (slabs s p)), s_free := of_nat i, inuse := inuse (slabs s p) - 1\<rparr>"
  define fl where "fl = g_fl g p"
  note put = put_wf [OF inv c i, folded x_def]
  define l where "l = (if fl = [] then list_add (SNotFull c) (SLink p) (list_del (SLink p) (slab_links s)) else slab_links s)"
  define s' where "s' = s\<lparr>slabs := (slabs s)(p := x), slab_links := l\<rparr>"
  have x0: "inuse x \<noteq> 0" using two by (simp add: x_def)
  obtain q where q: "kva2page (km_pmm s) ?a = Some q" "page_slab s q" "pg_slabp s q = p" using free_found [OF inv c i(1)] by blast
  have run: "kmem_cache_free c ?a s = Some s'"
    using q x0 put(1,4) by (subst kmem_cache_free.simps) (auto simp: s'_def l_def fl_def slab_unlink_def upd_slab_def Let_def)
  obtain us vs where full: "fl = [] \<Longrightarrow> g_ls g (SFull c) = us @ p # vs"
  proof (cases "fl = []")
    case True
    then have "p \<in> set (g_ls g (SFull c))" using c slab_invD(4) [OF inv] by (auto simp: slabs_of_def slab_lists_def fl_def)
    then show ?thesis using that split_list by fastforce
  qed (use that in blast)
  define g' where "g' = g\<lparr>g_fl := (g_fl g)(p := i # fl),
    g_ls := (if fl = [] then (g_ls g)(SFull c := us @ vs, SNotFull c := p # g_ls g (SNotFull c)) else g_ls g)\<rparr>"
  have sl: "slabs_of g' d = slabs_of g d" for d using full by (auto simp: slabs_of_def g'_def)
  have adr: "obj_addr s' d q j = obj_addr s d q j" for d q j by (simp add: obj_addr_def s'_def x_def)
  have rn: "slab_run s' g' d q = slab_run s g d q" for d q by (simp add: slab_run_def s'_def g'_def)
  have ca: "slab_cache s' = slab_cache s" by (simp add: s'_def)
  have other: "q \<noteq> p \<Longrightarrow> slab_wf s g d q \<Longrightarrow> slab_wf s' g' d q" for d q by (rule slab_wf_same) (simp_all add: s'_def g'_def)
  have wp: "slab_wf s' g' c p" by (rule slab_wf_same [OF put(3)]) (simp_all add: s'_def g'_def fl_def)
  have wf': "slab_wf s' g' d q \<and> slab_run s' g' d q \<subseteq> {b..<b + n} - F \<and> (q \<notin> X \<longrightarrow> inuse (slabs s' q) \<noteq> 0)"
    if "d < 13" "q \<in> slabs_of g d" for d q
  proof (cases "q = p")
    case True
    then have "d = c" using slab_unique [OF inv c that(1)] that(2) by simp
    with True show ?thesis using wp x0 slab_invD(8) [OF inv c] rn by (auto simp: s'_def)
  next
    case False
    then show ?thesis using other slab_invD(7-9) [OF inv that] rn by (auto simp: s'_def)
  qed
  have ob: "objs s' g' d = (if d = c then objs s g c - {?a} else objs s g d)" if d: "d < 13" for d
  proof (cases "d = c")
    case True
    have lv: "q \<in> slabs_of g c \<and> j < ?N \<and> j \<notin> set (g_fl g' q) \<longleftrightarrow> (q \<in> slabs_of g c \<and> j < ?N \<and> j \<notin> set (g_fl g q)) \<and> \<not> (q = p \<and> j = i)" for q j
      by (auto simp: g'_def fl_def)
    have "obj_addr s c q j = ?a \<longleftrightarrow> q = p \<and> j = i" if "q \<in> slabs_of g c" "j < ?N" for q j
      using obj_inj [OF inv c(1) that c i(1)] by auto
    then show ?thesis unfolding objs_def adr sl True ca using lv by auto
  next
    case False
    then have "p \<notin> slabs_of g d" using slab_unique [OF inv c d] by blast
    then show ?thesis using False unfolding objs_def adr sl ca by (auto simp: g'_def)
  qed
  have ls: "slab_lists s' g'"
  proof -
    have L: "rings_wf (slab_links s) (g_ls g)" "\<And>d q. d < 13 \<Longrightarrow> q \<in> set (g_ls g (SNotFull d)) \<Longrightarrow> g_fl g q \<noteq> []"
      "\<And>d q. d < 13 \<Longrightarrow> q \<in> set (g_ls g (SFull d)) \<Longrightarrow> g_fl g q = []"
      using slab_invD(4) [OF inv] by (auto simp: slab_lists_def)
    show ?thesis
    proof (cases "fl = []")
      case True
      have del: "rings_wf (list_del (SLink p) (slab_links s)) ((g_ls g)(SFull c := us @ vs))" "\<forall>k \<in> heads. p \<notin> set (((g_ls g)(SFull c := us @ vs)) k)"
        using rings_del [OF L(1) heads_in(2) [OF c(1)] full [OF True]] by (simp_all del: fun_upd_apply)
      have "rings_wf l ((g_ls g)(SFull c := us @ vs, SNotFull c := p # g_ls g (SNotFull c)))"
      proof -
        have "((g_ls g)(SFull c := us @ vs)) (SNotFull c) = g_ls g (SNotFull c)" by simp
        with rings_push [OF del(1) heads_in(1) [OF c(1)] del(2)] True show ?thesis by (simp only: l_def simp_thms if_True)
      qed
      moreover have "g_fl g' q = []" if "d < 13" "q \<in> set (((g_ls g)(SFull c := us @ vs)) (SFull d))" for d q
        using that L(3) [of d q] del(2) full [OF True] by (auto simp: g'_def split: if_splits)
      ultimately show ?thesis using True L(2) unfolding slab_lists_def by (auto simp: s'_def g'_def)
    next
      case False
      have "p \<notin> set (g_ls g (SFull d))" if "d < 13" for d using L(3) [OF that, of p] False by (auto simp: fl_def)
      with False L show ?thesis unfolding slab_lists_def by (auto simp: s'_def g'_def l_def)
    qed
  qed
  have "slab_inv z b n A X s' g' F"
    unfolding slab_inv_def
  proof (intro conjI)
    have "descs s' g' d = descs s g d" for d by (simp add: descs_def sl ca)
    then show "\<forall>d < 13. descs s' g' d \<subseteq> objs s' g' d" using slab_invD(10) [OF inv] ob nd by auto
    show "A = F \<union> (\<Union>c < 13. \<Union>p \<in> slabs_of g' c. slab_run s' g' c p)" unfolding sl rn by (rule slab_invD(5) [OF inv])
  qed (use slab_invD(1-3,6) [OF inv] wf' ls sl in \<open>simp_all add: s'_def\<close>)
  moreover have "same_heap s s'" by (simp add: same_heap_def s'_def)
  ultimately show ?thesis using run ob sl by (intro exI [of _ s'] exI [of _ g']) simp
qed

section \<open>Destroying an empty slab\<close>

lemma pm_free:
  assumes "buddy_free_is z b n v F" and m: "0 < m" "m \<le> 2 ^ MAX_ORDER" and p: "{p..<p + m} \<subseteq> {b..<b + n} - F"
  shows "\<exists>v'. free_pages p m v = Some v' \<and> buddy_free_is z b n v' (F \<union> {p..<p + m}) \<and> npage v' = npage v"
proof -
  obtain L where L: "buddy_inv v z n {} L" "free_set L = F" "zones v z = b" using assms(1) by (auto simp: buddy_free_is_def)
  have "p \<in> {p..<p + m}" "p + m - 1 \<in> {p..<p + m}" using m(1) by auto
  then have r: "zones v z \<le> p" "p + m \<le> zones v z + n" using p L(3) m(1) by (force, force)
  have "m < 2 ^ Suc MAX_ORDER" "{p..<p + m} \<inter> free_set L = {}" using m(2) p L(2) by (auto simp: MAX_ORDER_def)
  then obtain v' L' where "buddy_free_pages p m v = Some v'" "buddy_inv v' z n {} L'" "free_set L' = free_set L \<union> {p..<p + m}" "pmm_frame {p..<p + m} v v'"
    by (rule buddy_free_pages_inv [OF L(1) m(1) _ r])
  with L show ?thesis by (auto simp: buddy_free_is_def pmm_frame_def free_pages_def)
qed

lemma pm_alloc:
  assumes "buddy_free_is z b n v F" and m: "0 < m" "m \<le> 2 ^ MAX_ORDER"
  shows "(\<exists>p v'. alloc_pages m v = Some (Some p, v') \<and> {p..<p + m} \<subseteq> F \<and> buddy_free_is z b n v' (F - {p..<p + m}) \<and> npage v' = npage v) \<or>
    alloc_pages m v = Some (None, v)"
proof -
  obtain L where L: "buddy_inv v z n {} L" "free_set L = F" "zones v z = b" using assms(1) by (auto simp: buddy_free_is_def)
  from buddy_alloc_pages_inv [OF L(1) m] show ?thesis
  proof
    assume "\<exists>p s' L'. buddy_alloc_pages m v = Some (Some p, s') \<and> buddy_inv s' z n {} L' \<and> {p..<p + m} \<subseteq> free_set L \<and>
      free_set L' = free_set L - {p..<p + m} \<and> zones s' = zones v \<and> npage s' = npage v \<and>
      (\<forall>q. q \<notin> free_set L \<or> q \<in> {p..<p + m} \<longrightarrow> pg_ref (pages s' q) = pg_ref (pages v q))"
    then obtain p s' L' where "buddy_alloc_pages m v = Some (Some p, s')" "buddy_inv s' z n {} L'" "{p..<p + m} \<subseteq> F"
      "free_set L' = F - {p..<p + m}" "zones s' z = b" "npage s' = npage v" unfolding L(2,3) [symmetric] by metis
    then show ?thesis unfolding alloc_pages_def buddy_free_is_def by blast
  qed (simp add: alloc_pages_def)
qed

lemma clear_pages_spec:
  "\<forall>q. p \<le> q \<and> q < p + k \<longrightarrow> page_slab s q \<Longrightarrow>
   clear_pages k p s = Some (s\<lparr>page_slab := (\<lambda>q. \<not> (p \<le> q \<and> q < p + k) \<and> page_slab s q)\<rparr>)"
proof (induction k arbitrary: p s)
  case 0
  then show ?case by (simp add: linorder_not_less [symmetric])
next
  case (Suc k)
  then have "clear_pages k (p + 1) (s\<lparr>page_slab := (page_slab s)(p := False)\<rparr>) =
      Some (s\<lparr>page_slab := (page_slab s)(p := False)\<rparr>\<lparr>page_slab := (\<lambda>q. \<not> (p + 1 \<le> q \<and> q < p + 1 + k) \<and> ((page_slab s)(p := False)) q)\<rparr>)"
    by (subst Suc.IH) auto
  with Suc.prems show ?case by (auto simp: fun_eq_iff intro!: slab_state.equality)
qed

lemma destroy_spec:
  assumes inv: "slab_inv z b n A X s g F" and c: "c < 13" "p \<in> slabs_of g c"
    and i: "i < unat (c_num (slab_cache s c))" "i \<notin> set (g_fl g p)" and nd: "obj_addr s c p i \<notin> descs s g c" and one: "inuse (slabs s p) = 1"
  shows "\<exists>s' g'. destroy_pages c p (slab_unlink p (slab_put c p (obj_addr s c p i) s)) = Some s' \<and>
    slab_inv z b n A X s' g' (F \<union> slab_run s g c p) \<and> slab_cache s' = slab_cache s \<and>
    (\<forall>d < 13. slabs_of g' d = slabs_of g d - (if d = c then {p} else {}) \<and> objs s' g' d = (if d = c then objs s g c - {obj_addr s c p i} else objs s g d))"
proof -
  let ?a = "obj_addr s c p i" and ?N = "unat (c_num (slab_cache s c))" and ?m = "2 ^ page_order (slab_cache s c)" and ?B = "g_bs g p"
  let ?R = "slab_run s g c p"
  note k = slab_invD(6) [OF inv c(1)] and w = slab_invD(7) [OF inv c]
  have R: "?R = {?B..<?B + ?m}" by (simp add: slab_run_def)
  define x where "x = (slabs s p)\<lparr>bufctl := (bufctl (slabs s p))(i := s_free (slabs s p)), s_free := of_nat i, inuse := inuse (slabs s p) - 1\<rparr>"
  note put = put_wf(1) [OF inv c i, folded x_def]
  define s2 where "s2 = slab_unlink p (slab_put c p ?a s)"
  have s2: "s2 = s\<lparr>slabs := (slabs s)(p := x), slab_links := list_del (SLink p) (slab_links s)\<rparr>"
    by (simp add: s2_def put slab_unlink_def upd_slab_def)
  have "(2::nat) ^ page_order (slab_cache s c) \<le> 2 ^ MAX_ORDER" using k by (intro power_increasing) (simp_all add: cache_ok_def MAX_ORDER_def)
  then obtain v where v: "free_pages ?B ?m (km_pmm s) = Some v" "buddy_free_is z b n v (F \<union> ?R)" "npage v = npage (km_pmm s)"
    using pm_free [OF slab_invD(1) [OF inv], of ?m ?B] slab_invD(8) [OF inv c] unfolding R by auto
  have "?B < 2 ^ 19" using slab_base(3) [OF inv c] by (simp add: less_le_trans [of _ "?B + ?m"])
  then have "kva2page (km_pmm s) (page2pa ?B) = Some ?B"
    using kva2page_at [of "page2pa ?B" ?B 0 "km_pmm s"] unat_page2pa [of ?B] slab_base(1) [OF inv c] by (simp add: less_le_trans [of _ "?B + ?m"])
  moreover have "s_mem x - s_offset x = page2pa ?B" using slab_wfD(5,6) [OF w] by (simp add: x_def)
  ultimately have pg: "kva2page (km_pmm s2) (s_mem (slabs s2 p) - s_offset (slabs s2 p)) = Some ?B" by (simp add: s2)
  have "\<forall>q. ?B \<le> q \<and> q < ?B + ?m \<longrightarrow> page_slab s2 q" using slab_wfD(8) [OF w] by (simp add: s2 R)
  note cl = clear_pages_spec [OF this]
  define s' where "s' = s2\<lparr>page_slab := (\<lambda>q. q \<notin> ?R \<and> page_slab s q), km_pmm := v\<rparr>"
  have run: "destroy_pages c p s2 = Some s'"
    using pg cl v(1) unfolding destroy_pages_def by (simp add: s'_def s2 R)
  obtain h us vs where h: "h \<in> {SNotFull c, SFull c}" "g_ls g h = us @ p # vs"
    using c(2) split_list [of p] unfolding slabs_of_def by blast
  have hh: "h \<in> heads" using h(1) c(1) by auto
  define g' where "g' = g\<lparr>g_ls := (g_ls g)(h := us @ vs)\<rparr>"
  have L: "rings_wf (slab_links s) (g_ls g)" "\<And>d q. d < 13 \<Longrightarrow> q \<in> set (g_ls g (SNotFull d)) \<Longrightarrow> g_fl g q \<noteq> []"
    "\<And>d q. d < 13 \<Longrightarrow> q \<in> set (g_ls g (SFull d)) \<Longrightarrow> g_fl g q = []"
    using slab_invD(4) [OF inv] by (auto simp: slab_lists_def)
  note del = rings_del [OF L(1) hh h(2)]
  have sub: "set ((g_ls g') l) = set (g_ls g l) - {p}" if "l \<in> heads" for l
    using del(2) that h(2) by (auto simp: g'_def split: if_splits)
  have sl: "slabs_of g' d = slabs_of g d - {p}" if "d < 13" for d
    using sub [of "SNotFull d"] sub [of "SFull d"] that by (auto simp: slabs_of_def)
  have pd: "p \<notin> slabs_of g d" if "d < 13" "d \<noteq> c" for d using slab_unique [OF inv c that(1)] that(2) by blast
  have adr: "obj_addr s' d q j = obj_addr s d q j" for d q j by (simp add: obj_addr_def s'_def s2 x_def)
  have ca: "slab_cache s' = slab_cache s" by (simp add: s'_def s2)
  have rn: "slab_run s' g' d q = slab_run s g d q" for d q by (simp add: slab_run_def s'_def g'_def s2)
  have wf': "slab_wf s' g' d q \<and> slab_run s' g' d q \<subseteq> {b..<b + n} - (F \<union> ?R) \<and> (q \<notin> X \<longrightarrow> inuse (slabs s' q) \<noteq> 0)"
    if d: "d < 13" "q \<in> slabs_of g d - {p}" for d q
  proof -
    have q: "q \<in> slabs_of g d" "q \<noteq> p" using d by auto
    have dj: "slab_run s g d q \<inter> ?R = {}" using run_owner [OF inv d(1) q(1) c] q(2) by blast
    have "slab_wf s' g' d q"
      by (rule slab_wf_same [OF slab_invD(7) [OF inv d(1) q(1)]]) (use q dj in \<open>auto simp: s'_def s2 g'_def\<close>)
    then show ?thesis using slab_invD(8,9) [OF inv d(1) q(1)] dj q(2) unfolding rn by (auto simp: s'_def s2)
  qed
  have only: "j = i" if "j < ?N" "j \<notin> set (g_fl g p)" for j
  proof (rule ccontr)
    assume "j \<noteq> i"
    then have "card {i, j} = 2" by simp
    moreover have "{i, j} \<subseteq> {..<?N} - set (g_fl g p)" using that i by auto
    moreover have "card ({..<?N} - set (g_fl g p)) = ?N - length (g_fl g p)"
      using slab_wfD(2,3) [OF w] by (subst card_Diff_subset) (auto simp: distinct_card)
    moreover have "?N - length (g_fl g p) = 1" using slab_wfD(4) [OF w] one by simp
    ultimately show False by (metis card_mono finite_Diff finite_lessThan numeral_le_one_iff semiring_norm(69))
  qed
  have ob: "objs s' g' d = (if d = c then objs s g c - {?a} else objs s g d)" if d: "d < 13" for d
  proof (cases "d = c")
    case True
    have "q \<in> slabs_of g c \<and> j < ?N \<and> j \<notin> set (g_fl g q) \<Longrightarrow> obj_addr s c q j = ?a \<longleftrightarrow> q = p" for q j
      using obj_inj [OF inv c(1) _ _ c i(1), of q j] only by auto
    moreover have "slabs_of g' c = slabs_of g c - {p}" "g_fl g' = g_fl g" using sl [OF c(1)] by (simp_all add: g'_def)
    ultimately show ?thesis unfolding objs_def True adr ca by auto blast
  next
    case False
    then show ?thesis using sl [OF d] pd [OF d False] unfolding objs_def adr ca by (auto simp: g'_def)
  qed
  have "slab_inv z b n A X s' g' (F \<union> ?R)"
    unfolding slab_inv_def
  proof (intro conjI)
    have "descs s' g' d \<subseteq> descs s g d" for d using sl unfolding descs_def ca by auto
    then show "\<forall>d < 13. descs s' g' d \<subseteq> objs s' g' d" using slab_invD(10) [OF inv] ob nd by auto
    have un: "(\<Union>d < 13. \<Union>q \<in> slabs_of g d. slab_run s g d q) = ?R \<union> (\<Union>d < 13. \<Union>q \<in> slabs_of g' d. slab_run s g d q)"
    proof -
      have e: "slabs_of g d = (if d = c then insert p (slabs_of g' d) else slabs_of g' d)" if "d < 13" for d
        using c pd [OF that] sl [OF that] by auto
      have "(\<Union>d < 13. \<Union>q \<in> slabs_of g d. slab_run s g d q) = (\<Union>d < 13. (if d = c then ?R else {}) \<union> (\<Union>q \<in> slabs_of g' d. slab_run s g d q))"
        by (intro SUP_cong refl) (simp add: e)
      also have "\<dots> = (\<Union>d < 13. if d = c then ?R else {}) \<union> (\<Union>d < 13. \<Union>q \<in> slabs_of g' d. slab_run s g d q)" by (rule UN_Un_distrib)
      also have "(\<Union>d < 13. if d = c then ?R else {}) = ?R" using c(1) by (auto split: if_splits)
      finally show ?thesis .
    qed
    have "A = F \<union> (?R \<union> (\<Union>d < 13. \<Union>q \<in> slabs_of g' d. slab_run s g d q))"
      using slab_invD(5) [OF inv] by (simp only: un)
    then show "A = F \<union> ?R \<union> (\<Union>d < 13. \<Union>q \<in> slabs_of g' d. slab_run s' g' d q)" by (simp only: rn Un_assoc)
    show "slab_lists s' g'"
      using del(1) L(2,3) sub unfolding slab_lists_def by (auto simp: s'_def s2 g'_def)
  qed (use slab_invD(2,3,6) [OF inv] wf' sl v in \<open>simp_all add: s'_def s2\<close>)
  then show ?thesis using run ob sl pd ca unfolding s2_def by (intro exI [of _ s'] exI [of _ g']) auto
qed

section \<open>\<^verbatim>\<open>kfree\<close>\<close>

text \<open>The objects that callers hold.\<close>

definition uobjs :: "slab_state \<Rightarrow> slab_view \<Rightarrow> nat \<Rightarrow> u32 set" where
  "uobjs s g c = objs s g c - descs s g c"

lemma objsE:
  assumes "a \<in> objs s g c"
  obtains p i where "a = obj_addr s c p i" "p \<in> slabs_of g c" "i < unat (c_num (slab_cache s c))" "i \<notin> set (g_fl g p)"
  using assms by (auto simp: objs_def)

lemma descs_cong:
  assumes "slab_cache s' = slab_cache s" and "\<And>c. c < 13 \<Longrightarrow> off_slab (slab_cache s c) \<Longrightarrow> slabs_of g' c = slabs_of g c"
  shows "descs s' g' d = descs s g d"
  unfolding descs_def assms(1) using assms(2) by blast

text \<open>A release up to the point where the descriptor of a large slab is released in turn.\<close>

lemma free_step:
  assumes inv: "slab_inv z b n A X s g F" and c: "c < 13" and a: "a \<in> uobjs s g c"
  shows "(\<exists>s' g'. kmem_cache_free c a s = Some s' \<and> slab_inv z b n A X s' g' F \<and> slab_cache s' = slab_cache s \<and>
      (\<forall>d < 13. slabs_of g' d = slabs_of g d \<and> objs s' g' d = (if d = c then objs s g c - {a} else objs s g d))) \<or>
    (\<exists>p s' g'. p \<in> slabs_of g c \<and>
      kmem_cache_free c a s = (if off_slab (slab_cache s c) then kmem_cache_free (slab_cachep (slab_cache s c)) p s' else Some s') \<and>
      slab_inv z b n A X s' g' (F \<union> slab_run s g c p) \<and> slab_cache s' = slab_cache s \<and>
      (\<forall>d < 13. slabs_of g' d = slabs_of g d - (if d = c then {p} else {}) \<and> objs s' g' d = (if d = c then objs s g c - {a} else objs s g d)))"
proof -
  obtain p i where p: "a = obj_addr s c p i" "p \<in> slabs_of g c" "i < unat (c_num (slab_cache s c))" "i \<notin> set (g_fl g p)"
    using a by (auto simp: uobjs_def elim: objsE)
  have nd: "obj_addr s c p i \<notin> descs s g c" using a p(1) by (simp add: uobjs_def)
  show ?thesis
  proof (cases "inuse (slabs s p) = 1")
    case False
    from free_keep [OF inv c p(2-4) nd False] show ?thesis unfolding p(1) same_heap_def by blast
  next
    case True
    obtain s' g' where d: "destroy_pages c p (slab_unlink p (slab_put c p a s)) = Some s'" "slab_inv z b n A X s' g' (F \<union> slab_run s g c p)"
      "slab_cache s' = slab_cache s"
      "\<forall>d < 13. slabs_of g' d = slabs_of g d - (if d = c then {p} else {}) \<and> objs s' g' d = (if d = c then objs s g c - {a} else objs s g d)"
      using destroy_spec [OF inv c p(2-4) nd True] unfolding p(1) by blast
    obtain q where q: "kva2page (km_pmm s) a = Some q" "page_slab s q" "pg_slabp s q = p" using free_found [OF inv c p(2,3)] p(1) by blast
    have "inuse (slabs (slab_put c p a s) p) = 0" using put_wf(1) [OF inv c p(2-4)] True p(1) by simp
    then have "kmem_cache_free c a s = (if off_slab (slab_cache s c) then kmem_cache_free (slab_cachep (slab_cache s c)) p s' else Some s')"
      using q d(1,3) by (subst kmem_cache_free.simps) (simp add: Let_def)
    with d p(2) show ?thesis by blast
  qed
qed

lemma descs_small: "slab_inv z b n A X s g F \<Longrightarrow> 2 \<le> d \<Longrightarrow> descs s g d = {}"
proof -
  assume inv: "slab_inv z b n A X s g F" and d: "2 \<le> d"
  have "slab_cachep (slab_cache s c) < 2" if "c < 13" "off_slab (slab_cache s c)" for c
    using slab_invD(6) [OF inv that(1)] that(2) by (auto simp: cache_ok_def split: if_splits)
  with d show ?thesis unfolding descs_def by fastforce
qed

lemma free_spec:
  assumes inv: "slab_inv z b n A X s g F" and c: "c < 13" and a: "a \<in> uobjs s g c"
  shows "\<exists>s' g' F'. kmem_cache_free c a s = Some s' \<and> slab_inv z b n A X s' g' F' \<and> slab_cache s' = slab_cache s \<and>
    (\<forall>d < 13. uobjs s' g' d = uobjs s g d - (if d = c then {a} else {}))"
proof -
  have small: "\<exists>s' g' F'. kmem_cache_free c a s = Some s' \<and> slab_inv z b n A X s' g' F' \<and> slab_cache s' = slab_cache s \<and>
      (\<forall>d < 13. objs s' g' d = objs s g d - (if d = c then {a} else {})) \<and> (\<forall>d. descs s' g' d = descs s g d)"
    if inv: "slab_inv z b n A X s g F" and c: "c < 4" and a: "a \<in> uobjs s g c" for s g F c a
  proof -
    have c13: "c < 13" using c by simp
    have off: "\<not> off_slab (slab_cache s c)" using slab_invD(6) [OF inv c13] c by (simp add: cache_ok_def)
    have ds: "descs s' g' d = descs s g d" if "slab_cache s' = slab_cache s" "\<forall>d < 13. d \<noteq> c \<longrightarrow> slabs_of g' d = slabs_of g d" for s' g' d
      by (rule descs_cong [OF that(1)]) (use that(2) off in metis)
    from free_step [OF inv c13 a] show ?thesis
    proof (elim disjE exE conjE)
      fix s' g'
      assume "kmem_cache_free c a s = Some s'" "slab_inv z b n A X s' g' F" "slab_cache s' = slab_cache s"
        "\<forall>d < 13. slabs_of g' d = slabs_of g d \<and> objs s' g' d = (if d = c then objs s g c - {a} else objs s g d)"
      then show ?thesis using ds [of s' g'] by (intro exI [of _ s'] exI [of _ g'] exI [of _ F]) simp
    next
      fix p s' g'
      assume "kmem_cache_free c a s = (if off_slab (slab_cache s c) then kmem_cache_free (slab_cachep (slab_cache s c)) p s' else Some s')"
        "slab_inv z b n A X s' g' (F \<union> slab_run s g c p)" "slab_cache s' = slab_cache s"
        "\<forall>d < 13. slabs_of g' d = slabs_of g d - (if d = c then {p} else {}) \<and> objs s' g' d = (if d = c then objs s g c - {a} else objs s g d)"
      then show ?thesis using off ds [of s' g'] by (intro exI [of _ s'] exI [of _ g'] exI [of _ "F \<union> slab_run s g c p"]) simp
    qed
  qed
  have dd: "descs s' g' d = descs s g d" if "slab_cache s' = slab_cache s" "\<forall>d < 13. slabs_of g' d = slabs_of g d" for s' g' d
    by (rule descs_cong [OF that(1)]) (use that(2) in blast)
  from free_step [OF inv c a] show ?thesis
  proof (elim disjE exE conjE)
    fix s' g'
    assume "kmem_cache_free c a s = Some s'" "slab_inv z b n A X s' g' F" "slab_cache s' = slab_cache s"
      "\<forall>d < 13. slabs_of g' d = slabs_of g d \<and> objs s' g' d = (if d = c then objs s g c - {a} else objs s g d)"
    moreover from this have "uobjs s' g' d = uobjs s g d - (if d = c then {a} else {})" if "d < 13" for d
      using dd [of s' g'] that unfolding uobjs_def by (cases "d = c") auto
    ultimately show ?thesis by (intro exI [of _ s'] exI [of _ g'] exI [of _ F]) simp
  next
    fix p s1 g1
    assume p: "p \<in> slabs_of g c"
      and r: "kmem_cache_free c a s = (if off_slab (slab_cache s c) then kmem_cache_free (slab_cachep (slab_cache s c)) p s1 else Some s1)"
      and inv1: "slab_inv z b n A X s1 g1 (F \<union> slab_run s g c p)" and ca: "slab_cache s1 = slab_cache s"
      and o: "\<forall>d < 13. slabs_of g1 d = slabs_of g d - (if d = c then {p} else {}) \<and> objs s1 g1 d = (if d = c then objs s g c - {a} else objs s g d)"
    show ?thesis
    proof (cases "off_slab (slab_cache s c)")
      case False
      have "descs s1 g1 d = descs s g d" for d by (rule descs_cong [OF ca]) (use o False in auto)
      then have "uobjs s1 g1 d = uobjs s g d - (if d = c then {a} else {})" if "d < 13" for d
        using o that unfolding uobjs_def by (cases "d = c") auto
      with r False inv1 ca show ?thesis by (intro exI [of _ s1] exI [of _ g1] exI [of _ "F \<union> slab_run s g c p"]) simp
    next
      case True
      let ?d = "slab_cachep (slab_cache s c)"
      have d: "?d < 2" "4 \<le> c" using slab_invD(6) [OF inv c] True by (auto simp: cache_ok_def split: if_splits)
      have pd: "p \<in> descs s g ?d" unfolding descs_def using p True c by blast
      have un: "p \<in> slabs_of g e \<Longrightarrow> e < 13 \<Longrightarrow> e = c" for e using slab_unique [OF inv c p] by blast
      have ds: "descs s1 g1 e = (if e = ?d then descs s g e - {p} else descs s g e)" for e
      proof -
        have ne: "p \<notin> descs s1 g1 e" unfolding descs_def ca mem_Collect_eq
        proof
          assume "\<exists>c' < 13. off_slab (slab_cache s c') \<and> slab_cachep (slab_cache s c') = e \<and> p \<in> slabs_of g1 c'"
          then obtain c' where c': "c' < 13" "p \<in> slabs_of g1 c'" by blast
          then have "p \<in> slabs_of g c'" "c' \<noteq> c" using o by (auto split: if_splits)
          then show False using un c'(1) by blast
        qed
        have eq: "x \<in> descs s1 g1 e \<longleftrightarrow> x \<in> descs s g e" if "x \<noteq> p" for x
        proof -
          have "x \<in> slabs_of g1 c' \<longleftrightarrow> x \<in> slabs_of g c'" if "c' < 13" for c' using o \<open>x \<noteq> p\<close> that by simp
          then show ?thesis unfolding descs_def ca mem_Collect_eq by blast
        qed
        have "e = ?d" if "p \<in> descs s g e" using that un unfolding descs_def by blast
        with ne eq show ?thesis by (auto; metis)
      qed
      have pu: "p \<in> uobjs s1 g1 ?d"
        using pd slab_invD(10) [OF inv, of ?d] d o unfolding uobjs_def ds by auto
      obtain s' g' F' where f: "kmem_cache_free ?d p s1 = Some s'" "slab_inv z b n A X s' g' F'" "slab_cache s' = slab_cache s1"
        "\<forall>e < 13. objs s' g' e = objs s1 g1 e - (if e = ?d then {p} else {})" "\<forall>e. descs s' g' e = descs s1 g1 e"
        using small [OF inv1 _ pu] d by auto
      have u: "uobjs s' g' e = uobjs s g e - (if e = c then {a} else {})" if e: "e < 13" for e
      proof -
        have dc: "?d \<noteq> c" "descs s g c = {}" using d descs_small [OF inv, of c] by auto
        have o': "objs s' g' e = (if e = c then objs s g c - {a} else objs s g e) - (if e = ?d then {p} else {})"
          using f(4) o e by simp
        have d': "descs s' g' e = (if e = ?d then descs s g e - {p} else descs s g e)" using f(5) ds by simp
        show ?thesis using dc pd unfolding uobjs_def o' d' by (cases "e = c"; cases "e = ?d") auto
      qed
      have "slab_cache s' = slab_cache s" using f(3) ca by simp
      with r True f(1,2) u show ?thesis by (intro exI [of _ s'] exI [of _ g'] exI [of _ F']) simp
    qed
  qed
qed

lemma kfree_spec:
  assumes inv: "slab_inv z b n A X s g F" and c: "c < 13" and a: "a \<in> uobjs s g c"
  shows "\<exists>s' g' F'. kfree a s = Some s' \<and> slab_inv z b n A X s' g' F' \<and> (\<forall>d < 13. uobjs s' g' d = uobjs s g d - (if d = c then {a} else {}))"
proof -
  obtain p i where p: "a = obj_addr s c p i" "p \<in> slabs_of g c" "i < unat (c_num (slab_cache s c))" using a by (auto simp: uobjs_def elim: objsE)
  obtain q where "kva2page (km_pmm s) a = Some q" "pg_cache s q = c" using free_found [OF inv c p(2,3)] p(1) by blast
  then have "kfree a s = kmem_cache_free c a s" by (simp add: kfree_def)
  with free_spec [OF inv c a] show ?thesis by metis
qed

section \<open>Growing a cache\<close>

lemma set_pages_spec:
  "set_pages k c p page s = s\<lparr>pg_cache := (\<lambda>q. if page \<le> q \<and> q < page + k then c else pg_cache s q),
     pg_slabp := (\<lambda>q. if page \<le> q \<and> q < page + k then p else pg_slabp s q),
     page_slab := (\<lambda>q. page \<le> q \<and> q < page + k \<or> page_slab s q)\<rparr>"
proof (induction k arbitrary: page s)
  case 0
  show ?case by (auto simp: fun_eq_iff intro!: slab_state.equality)
next
  case (Suc k)
  show ?case unfolding set_pages.simps Suc.IH by (auto simp: fun_eq_iff intro!: slab_state.equality)
qed

lemma chain_upt:
  assumes "\<And>i. i < n \<Longrightarrow> f i = (if i = n - 1 then BUFCTL_END else of_nat i + 1)" and "i < n"
  shows "chain f (of_nat i) [i..<n]"
  using assms(2)
proof (induction "n - i" arbitrary: i)
  case (Suc m)
  show ?case
  proof (cases "i = n - 1")
    case True
    then show ?thesis using assms(1) [OF Suc.prems] Suc.prems by (simp add: upt_conv_Cons)
  next
    case False
    then have "chain f (of_nat (Suc i)) [Suc i..<n]" using Suc by (intro Suc.hyps(1)) auto
    then show ?thesis using assms(1) [OF Suc.prems] False Suc.prems by (simp add: upt_conv_Cons add.commute)
  qed
qed simp

text \<open>The page of a descriptor: the first page of its slab, or a page of the slab of a small cache that holds it.\<close>

lemma desc_page:
  assumes inv: "slab_inv z b n A X s g F" and c: "c < 13" "p \<in> slabs_of g c"
  shows "\<exists>q d r. kva2page (km_pmm s) p = Some q \<and> d < 13 \<and> r \<in> slabs_of g d \<and> q \<in> slab_run s g d r \<and>
    (if off_slab (slab_cache s c) then p \<in> objs s g (slab_cachep (slab_cache s c)) else p = page2pa q \<and> d = c \<and> r = p)"
proof (cases "off_slab (slab_cache s c)")
  case False
  note w = slab_invD(7) [OF inv c]
  have p: "p = page2pa (g_bs g p)" by (rule slab_wfD(7) [OF w False])
  have B: "g_bs g p < g_bs g p + 2 ^ page_order (slab_cache s c)" by simp
  have "g_bs g p < 2 ^ 19" "g_bs g p < npage (km_pmm s)" using slab_base(1,3) [OF inv c] less_le_trans [OF B] by blast+
  then have "kva2page (km_pmm s) p = Some (g_bs g p)"
    using kva2page_at [of p "g_bs g p" 0 "km_pmm s"] unat_page2pa [of "g_bs g p"] p by simp
  then show ?thesis using False p c slab_base(2) [OF inv c] by auto
next
  case True
  let ?d = "slab_cachep (slab_cache s c)"
  have d: "?d < 13" using slab_invD(6) [OF inv c(1)] True by (auto simp: cache_ok_def split: if_splits)
  have "p \<in> descs s g ?d" using True c by (auto simp: descs_def)
  then have o: "p \<in> objs s g ?d" using slab_invD(10) [OF inv d] by blast
  then obtain r i where "p = obj_addr s ?d r i" "r \<in> slabs_of g ?d" "i < unat (c_num (slab_cache s ?d))" by (auto elim: objsE)
  then show ?thesis using obj_at(3) [OF inv d] True o d by metis
qed

text \<open>The memory a new descriptor is put at is no descriptor yet.\<close>

lemma desc_fresh:
  assumes inv: "slab_inv z b n A X s g F" and c: "c < 13" and pg: "pg \<notin> A" "pg < npage (km_pmm s)" "pg < 2 ^ 19"
    and p: "if off_slab (slab_cache s c) then p \<in> uobjs s g (slab_cachep (slab_cache s c)) else p = page2pa pg" and d: "d < 13"
  shows "p \<notin> slabs_of g d"
proof
  assume pd: "p \<in> slabs_of g d"
  obtain q e r where q: "kva2page (km_pmm s) p = Some q" "e < 13" "r \<in> slabs_of g e" "q \<in> slab_run s g e r"
    "if off_slab (slab_cache s d) then p \<in> objs s g (slab_cachep (slab_cache s d)) else p = page2pa q \<and> e = d \<and> r = p"
    using desc_page [OF inv d pd] by blast
  show False
  proof (cases "off_slab (slab_cache s c)")
    case False
    then have "kva2page (km_pmm s) p = Some pg"
      using p kva2page_at [of p pg 0 "km_pmm s"] unat_page2pa [OF pg(3)] pg(2) by simp
    with q pg(1) slab_invD(5) [OF inv] show False by auto
  next
    case True
    let ?d = "slab_cachep (slab_cache s c)"
    have d0: "?d < 13" "?d < 4" using slab_invD(6) [OF inv c] True by (auto simp: cache_ok_def split: if_splits)
    have o: "p \<in> objs s g ?d" "p \<notin> descs s g ?d" using p True by (auto simp: uobjs_def)
    obtain r' i where r': "p = obj_addr s ?d r' i" "r' \<in> slabs_of g ?d" "i < unat (c_num (slab_cache s ?d))" using o(1) by (auto elim: objsE)
    show False
    proof (cases "off_slab (slab_cache s d)")
      case True
      let ?e = "slab_cachep (slab_cache s d)"
      have e0: "?e < 13" using slab_invD(6) [OF inv d] True by (auto simp: cache_ok_def split: if_splits)
      have "p \<in> objs s g ?e" using q(5) True by simp
      then obtain r2 j where r2: "p = obj_addr s ?e r2 j" "r2 \<in> slabs_of g ?e" "j < unat (c_num (slab_cache s ?e))" by (auto elim: objsE)
      then have "?d = ?e" using obj_inj [OF inv d0(1) r'(2,3) e0 r2(2,3)] r'(1) by simp
      then have "p \<in> descs s g ?d" using pd d True by (auto simp: descs_def)
      with o(2) show False ..
    next
      case False
      then have pq: "p = page2pa q" "q \<in> slab_run s g d p" using q by auto
      obtain q' where "kva2page (km_pmm s) p = Some q'" "q' \<in> slab_run s g ?d r'" using obj_at(3) [OF inv d0(1) r'(2,3)] r'(1) by auto
      then have "q \<in> slab_run s g ?d r'" using q(1) by simp
      then have e: "?d = d" "r' = p" using run_owner [OF inv d0(1) r'(2) d pd _ pq(2)] by auto
      have B: "g_bs g p < 2 ^ 19" using slab_base(3) [OF inv d pd] less_le_trans [of "g_bs g p" "g_bs g p + 2 ^ page_order (slab_cache s d)"] by simp
      have "p = page2pa (g_bs g p)" by (rule slab_wfD(7) [OF slab_invD(7) [OF inv d pd] False])
      then have "unat p = 2 ^ 31 + g_bs g p * 4096" using unat_page2pa [OF B] by simp
      moreover have "unat p = 2 ^ 31 + 4096 * g_bs g p + (unat (c_offset (slab_cache s d)) + i * 2 ^ (d + 5))"
        using obj_at(1) [OF inv d0(1) r'(2,3)] unfolding r'(1) [symmetric] unfolding e .
      ultimately have "unat (c_offset (slab_cache s d)) = 0" by simp
      then show False using slab_invD(6) [OF inv d] e d0(2) by (simp add: cache_ok_def)
    qed
  qed
qed

lemma grow_spec:
  assumes inv: "slab_inv z b n A X s g F" and c: "c < 13" and R: "R = {pg..<pg + 2 ^ page_order (slab_cache s c)}" "R \<subseteq> {b..<b + n}" "R \<inter> A = {}"
    and p: "if off_slab (slab_cache s c) then p \<in> uobjs s g (slab_cachep (slab_cache s c)) else p = page2pa pg"
  shows "\<exists>g'. slab_inv z b n (A \<union> R) (insert p X) (grow_finish c pg p (slabmgmt_set c (page2pa pg) p s)) g' F \<and>
    slab_cache (grow_finish c pg p (slabmgmt_set c (page2pa pg) p s)) = slab_cache s \<and> g_ls g' (SNotFull c) = p # g_ls g (SNotFull c) \<and> p \<notin> slabs_of g c \<and>
    (\<forall>d < 13. slabs_of g' d = (if d = c then insert p (slabs_of g c) else slabs_of g d) \<and>
      objs (grow_finish c pg p (slabmgmt_set c (page2pa pg) p s)) g' d = objs s g d)"
proof -
  let ?m = "2 ^ page_order (slab_cache s c)" and ?N = "unat (c_num (slab_cache s c))"
  define s' where "s' = grow_finish c pg p (slabmgmt_set c (page2pa pg) p s)"
  note k = slab_invD(6) [OF inv c]
  have pgR: "pg \<in> R" "pg + ?m - 1 \<in> R" unfolding R(1) atLeastLessThan_iff using zero_less_power [of "2::nat" "page_order (slab_cache s c)"] by linarith+
  have pg: "pg \<notin> A" "pg < npage (km_pmm s)" "pg < 2 ^ 19" "pg + ?m \<le> b + n"
  proof -
    have "pg < b + n" "pg + ?m - 1 < b + n" using pgR R(2) by auto
    then show "pg < npage (km_pmm s)" "pg < 2 ^ 19" "pg + ?m \<le> b + n" using slab_invD(2,3) [OF inv] by linarith+
  qed (use pgR R(3) in auto)
  have fresh: "p \<notin> slabs_of g d" if "d < 13" for d by (rule desc_fresh [OF inv c pg(1-3) p that])
  have N: "0 < ?N" "?N \<le> 113" using k by (simp_all add: cache_ok_def)
  have un: "unat (c_num (slab_cache s c) - 1) = ?N - 1" using N by (subst unat_sub) (simp_all add: word_le_nat_alt)
  define x where "x = (slabs s p)\<lparr>inuse := 0, s_offset := c_offset (slab_cache s c), s_mem := page2pa pg + c_offset (slab_cache s c),
    bufctl := (\<lambda>i. if i = ?N - 1 then BUFCTL_END else if i < ?N then of_nat i + 1 else bufctl (slabs s p) i), s_free := 0\<rparr>"
  have s': "s' = s\<lparr>slabs := (slabs s)(p := x), slab_links := list_add (SNotFull c) (SLink p) (slab_links s),
      pg_cache := (\<lambda>q. if q \<in> R then c else pg_cache s q), pg_slabp := (\<lambda>q. if q \<in> R then p else pg_slabp s q),
      page_slab := (\<lambda>q. q \<in> R \<or> page_slab s q)\<rparr>"
    unfolding s'_def grow_finish_def slabmgmt_set_def set_pages_spec Let_def
    by (auto simp: upd_slab_def x_def un R(1) cong: if_cong intro!: slab_state.equality)
  define g' where "g' = g\<lparr>g_ls := (g_ls g)(SNotFull c := p # g_ls g (SNotFull c)), g_fl := (g_fl g)(p := [0..<?N]), g_bs := (g_bs g)(p := pg)\<rparr>"
  have ca: "slab_cache s' = slab_cache s" by (simp add: s')
  have sl: "slabs_of g' d = (if d = c then insert p (slabs_of g c) else slabs_of g d)" for d by (auto simp: slabs_of_def g'_def)
  have rp: "slab_run s' g' c p = R" by (simp add: slab_run_def ca g'_def R(1))
  have rn: "slab_run s' g' d q = slab_run s g d q" if "q \<noteq> p" for d q using that by (simp add: slab_run_def ca g'_def)
  have runA: "slab_run s g d q \<subseteq> A" if "d < 13" "q \<in> slabs_of g d" for d q using slab_invD(5) [OF inv] that by blast
  have FA: "F \<subseteq> A" using slab_invD(5) [OF inv] by blast
  have wp: "slab_wf s' g' c p"
  proof -
    have "chain (bufctl x) (of_nat 0) [0..<?N]" using N by (intro chain_upt) (auto simp: x_def)
    then show ?thesis using p unfolding slab_wf_def Let_def rp ca by (auto simp: s' g'_def x_def)
  qed
  have wf': "slab_wf s' g' d q \<and> slab_run s' g' d q \<subseteq> {b..<b + n} - F \<and> (q \<notin> insert p X \<longrightarrow> inuse (slabs s' q) \<noteq> 0)"
    if d: "d < 13" "q \<in> slabs_of g' d" for d q
  proof (cases "q = p")
    case True
    then have "d = c" using d fresh [OF d(1)] by (auto simp: sl split: if_splits)
    with True wp rp R(2,3) FA show ?thesis by auto
  next
    case False
    then have q: "q \<in> slabs_of g d" using d by (auto simp: sl split: if_splits)
    have "slab_run s g d q \<inter> R = {}" using runA [OF d(1) q] R(3) by blast
    then have "slab_wf s' g' d q" by (intro slab_wf_same [OF slab_invD(7) [OF inv d(1) q]]) (use False in \<open>auto simp: s' g'_def\<close>)
    then show ?thesis using slab_invD(8,9) [OF inv d(1) q] False rn [OF False] by (auto simp: s')
  qed
  have ob: "objs s' g' d = objs s g d" if d: "d < 13" for d
  proof -
    have e: "q \<in> slabs_of g' d \<and> j < unat (c_num (slab_cache s d)) \<and> j \<notin> set (g_fl g' q) \<longleftrightarrow>
        q \<in> slabs_of g d \<and> j < unat (c_num (slab_cache s d)) \<and> j \<notin> set (g_fl g q)" for q j
    proof -
      have "g_fl g' = (g_fl g)(p := [0..<?N])" by (simp add: g'_def)
      then show ?thesis using fresh [OF d] by (cases "q = p"; cases "d = c") (auto simp: sl)
    qed
    have "obj_addr s' d q j = obj_addr s d q j" if "q \<in> slabs_of g d" for q j
      using fresh [OF d] that by (auto simp: obj_addr_def s')
    then show ?thesis unfolding objs_def ca using e by (intro Collect_cong) metis
  qed
  have ls: "slab_lists s' g'"
  proof -
    have L: "rings_wf (slab_links s) (g_ls g)" "\<And>d q. d < 13 \<Longrightarrow> q \<in> set (g_ls g (SNotFull d)) \<Longrightarrow> g_fl g q \<noteq> []"
      "\<And>d q. d < 13 \<Longrightarrow> q \<in> set (g_ls g (SFull d)) \<Longrightarrow> g_fl g q = []"
      using slab_invD(4) [OF inv] by (auto simp: slab_lists_def)
    have "\<forall>l \<in> heads. p \<notin> set (g_ls g l)" using fresh by (auto simp: heads_def slabs_of_def)
    from rings_push [OF L(1) heads_in(1) [OF c] this] show ?thesis
      using L(2,3) N(1) fresh unfolding slab_lists_def by (auto simp: s' g'_def slabs_of_def)
  qed
  have "slab_inv z b n (A \<union> R) (insert p X) s' g' F"
    unfolding slab_inv_def
  proof (intro conjI)
    have "p \<in> objs s g (slab_cachep (slab_cache s c))" if "off_slab (slab_cache s c)" using p that by (simp add: uobjs_def)
    then have "descs s' g' d \<subseteq> objs s g d" if "d < 13" for d
      using slab_invD(10) [OF inv that] unfolding descs_def ca sl by (auto split: if_splits)
    then show "\<forall>d < 13. descs s' g' d \<subseteq> objs s' g' d" using ob by simp
    have "(\<Union>d < 13. \<Union>q \<in> slabs_of g' d. slab_run s' g' d q) = (\<Union>d < 13. (if d = c then R else {}) \<union> (\<Union>q \<in> slabs_of g d. slab_run s g d q))"
    proof (intro SUP_cong refl)
      fix d :: nat assume d: "d \<in> {..<13}"
      have "(\<Union>q \<in> slabs_of g d. slab_run s' g' d q) = (\<Union>q \<in> slabs_of g d. slab_run s g d q)"
        using fresh d by (intro SUP_cong refl rn) auto
      then show "(\<Union>q \<in> slabs_of g' d. slab_run s' g' d q) = (if d = c then R else {}) \<union> (\<Union>q \<in> slabs_of g d. slab_run s g d q)"
        using rp by (cases "d = c") (simp_all add: sl)
    qed
    also have "\<dots> = (\<Union>d < 13. if d = c then R else {}) \<union> (\<Union>d < 13. \<Union>q \<in> slabs_of g d. slab_run s g d q)" by (rule UN_Un_distrib)
    also have "(\<Union>d < 13. if d = c then R else {}) = R" using c by (auto split: if_splits)
    finally show "A \<union> R = F \<union> (\<Union>d < 13. \<Union>q \<in> slabs_of g' d. slab_run s' g' d q)" using slab_invD(5) [OF inv] by auto
  qed (use slab_invD(1-3,6) [OF inv] wf' ls in \<open>simp_all add: s'\<close>)
  then show ?thesis using ca ob sl fresh [OF c] unfolding s'_def [symmetric] by (intro exI [of _ g']) (simp add: g'_def)
qed

section \<open>\<^verbatim>\<open>kmalloc\<close>\<close>

lemma alloc_nonempty:
  assumes inv: "slab_inv z b n A X s g F" and c: "c < 13" and nf: "g_ls g (SNotFull c) = p # ps"
  shows "\<exists>a s' g'. kmem_cache_alloc c s = Some (Some a, s') \<and> slab_inv z b n A (X - {p}) s' g' F \<and> slab_cache s' = slab_cache s \<and> a \<notin> objs s g c \<and>
    (\<forall>d < 13. slabs_of g' d = slabs_of g d \<and> objs s' g' d = (if d = c then insert a (objs s g c) else objs s g d))"
proof -
  have r: "rings_wf (slab_links s) (g_ls g)" using slab_invD(4) [OF inv] by (simp add: slab_lists_def)
  have "\<not> list_empty (slab_links s) (SNotFull c)" "list_next (slab_links s) (SNotFull c) = SLink p"
    using rings_first [OF r heads_in(1) [OF c]] nf by simp_all
  moreover obtain a s' g' where "kmem_cache_alloc_one c p s = (a, s')" "slab_inv z b n A (X - {p}) s' g' F" "same_heap s s'"
    "a \<in> objs s' g' c - objs s g c" "\<forall>d < 13. slabs_of g' d = slabs_of g d \<and> objs s' g' d = (if d = c then insert a (objs s g c) else objs s g d)"
    using alloc_one_spec [OF inv c nf] by blast
  ultimately show ?thesis
    by (subst kmem_cache_alloc.simps) (auto simp: le2slab_def same_heap_def)
qed

text \<open>The page allocator's part of growing: the run leaves the pages of the allocator for a moment.\<close>

lemma take_pages:
  assumes inv: "slab_inv z b n A X s g F" and v: "buddy_free_is z b n v (F - R)" "npage v = npage (km_pmm s)" and R: "R \<subseteq> F"
  shows "slab_inv z b n (A - R) X (s\<lparr>km_pmm := v\<rparr>) g (F - R)"
proof -
  let ?s = "s\<lparr>km_pmm := v\<rparr>"
  have wf: "slab_wf ?s g c p = slab_wf s g c p" "slab_run ?s g c p = slab_run s g c p" for c p by (simp_all add: slab_wf_def slab_run_def)
  have o: "objs ?s g d = objs s g d" "descs ?s g d = descs s g d" for d by (simp_all add: objs_def obj_addr_def descs_def)
  have "slab_run s g c p \<inter> R = {}" if "c < 13" "p \<in> slabs_of g c" for c p using slab_invD(8) [OF inv that] R by blast
  then have u: "(\<Union>c < 13. \<Union>p \<in> slabs_of g c. slab_run s g c p) \<inter> R = {}" by blast
  show ?thesis
    unfolding slab_inv_def wf o
  proof (intro conjI)
    show "A - R = F - R \<union> (\<Union>c < 13. \<Union>p \<in> slabs_of g c. slab_run s g c p)" using slab_invD(5) [OF inv] u by blast
    show "slab_lists ?s g" using slab_invD(4) [OF inv] by (simp add: slab_lists_def)
    show "\<forall>c < 13. \<forall>p \<in> slabs_of g c. slab_wf s g c p \<and> slab_run s g c p \<subseteq> {b..<b + n} - (F - R) \<and> (p \<notin> X \<longrightarrow> inuse (slabs ?s p) \<noteq> 0)"
    proof (intro allI impI ballI)
      fix c p assume cp: "c < 13" "p \<in> slabs_of g c"
      show "slab_wf s g c p \<and> slab_run s g c p \<subseteq> {b..<b + n} - (F - R) \<and> (p \<notin> X \<longrightarrow> inuse (slabs ?s p) \<noteq> 0)"
        using slab_invD(7-9) [OF inv cp] by auto
    qed
  qed (use slab_invD(2,3,6,10) [OF inv] v in simp_all)
qed

lemma give_pages:
  assumes inv: "slab_inv z b n A X s g F" and v: "buddy_free_is z b n v (F \<union> R)" "npage v = npage (km_pmm s)" and R: "R \<inter> A = {}"
  shows "slab_inv z b n (A \<union> R) X (s\<lparr>km_pmm := v\<rparr>) g (F \<union> R)"
proof -
  let ?s = "s\<lparr>km_pmm := v\<rparr>"
  have wf: "slab_wf ?s g c p = slab_wf s g c p" "slab_run ?s g c p = slab_run s g c p" for c p by (simp_all add: slab_wf_def slab_run_def)
  have o: "objs ?s g d = objs s g d" "descs ?s g d = descs s g d" for d by (simp_all add: objs_def obj_addr_def descs_def)
  have u: "slab_run s g c p \<inter> R = {}" if "c < 13" "p \<in> slabs_of g c" for c p using slab_invD(5) [OF inv] that R by blast
  show ?thesis
    unfolding slab_inv_def wf o
  proof (intro conjI)
    show "A \<union> R = F \<union> R \<union> (\<Union>c < 13. \<Union>p \<in> slabs_of g c. slab_run s g c p)" using slab_invD(5) [OF inv] by blast
    show "slab_lists ?s g" using slab_invD(4) [OF inv] by (simp add: slab_lists_def)
    show "\<forall>c < 13. \<forall>p \<in> slabs_of g c. slab_wf s g c p \<and> slab_run s g c p \<subseteq> {b..<b + n} - (F \<union> R) \<and> (p \<notin> X \<longrightarrow> inuse (slabs ?s p) \<noteq> 0)"
    proof (intro allI impI ballI)
      fix c p assume cp: "c < 13" "p \<in> slabs_of g c"
      show "slab_wf s g c p \<and> slab_run s g c p \<subseteq> {b..<b + n} - (F \<union> R) \<and> (p \<notin> X \<longrightarrow> inuse (slabs ?s p) \<noteq> 0)"
        using slab_invD(7-9) [OF inv cp] u [OF cp] by auto
    qed
  qed (use slab_invD(2,3,6,10) [OF inv] v in simp_all)
qed

text \<open>Allocation when no slab has a free object: the run of pages and its address.\<close>

lemma alloc_empty:
  assumes inv: "slab_inv z b n A {} s g F" and c: "c < 13" and nf: "g_ls g (SNotFull c) = []"
  shows "kmem_cache_alloc c s = Some (None, s) \<or>
    (\<exists>pg v. {pg..<pg + 2 ^ page_order (slab_cache s c)} \<subseteq> F \<and> buddy_free_is z b n v (F - {pg..<pg + 2 ^ page_order (slab_cache s c)}) \<and> npage v = npage (km_pmm s) \<and>
      kmem_cache_alloc c s = do {
        (slabp, s2) \<leftarrow> (if off_slab (slab_cache s c) then kmem_cache_alloc (slab_cachep (slab_cache s c)) (s\<lparr>km_pmm := v\<rparr>)
                          else Some (Some (page2pa pg), s\<lparr>km_pmm := v\<rparr>));
        case slabp of
          None \<Rightarrow> do { v3 \<leftarrow> free_pages pg (2 ^ page_order (slab_cache s2 c)) (km_pmm s2); Some (None, s2\<lparr>km_pmm := v3\<rparr>) }
        | Some p \<Rightarrow> kmem_cache_alloc c (grow_finish c pg p (slabmgmt_set c (page2pa pg) p s2))
      })"
proof -
  let ?m = "2 ^ page_order (slab_cache s c)"
  have e: "list_empty (slab_links s) (SNotFull c)"
    using rings_first(1) [of "slab_links s" "g_ls g", OF _ heads_in(1) [OF c]] slab_invD(4) [OF inv] nf by (simp add: slab_lists_def)
  have m: "(?m :: nat) \<le> 2 ^ MAX_ORDER" using slab_invD(6) [OF inv c] by (intro power_increasing) (simp_all add: cache_ok_def MAX_ORDER_def)
  have "(\<exists>p v'. alloc_pages ?m (km_pmm s) = Some (Some p, v') \<and> {p..<p + ?m} \<subseteq> F \<and> buddy_free_is z b n v' (F - {p..<p + ?m}) \<and> npage v' = npage (km_pmm s)) \<or>
      alloc_pages ?m (km_pmm s) = Some (None, km_pmm s)"
    by (rule pm_alloc [OF slab_invD(1) [OF inv] _ m]) simp
  then show ?thesis
  proof (elim disjE exE conjE)
    assume "alloc_pages ?m (km_pmm s) = Some (None, km_pmm s)"
    then have "kmem_cache_alloc c s = Some (None, s)" using e by (subst kmem_cache_alloc.simps) simp
    then show ?thesis ..
  next
    fix pg :: nat and v
    assume v: "alloc_pages ?m (km_pmm s) = Some (Some pg, v)" "{pg..<pg + ?m} \<subseteq> F" "buddy_free_is z b n v (F - {pg..<pg + ?m})" "npage v = npage (km_pmm s)"
    have "pg \<in> {pg..<pg + ?m}" by simp
    then have "pg < b + n" using v(2) buddy.in_arena [OF slab_invD(1) [OF inv]] by fastforce
    then have "pg < npage v" "pg < 2 ^ 19" using slab_invD(2,3) [OF inv] v(4) by linarith+
    then have "page2kva v pg = Some (page2pa pg)" by (simp add: page2kva_def KADDR_def PPN_page2pa)
    then show ?thesis using v e by (intro disjI2 exI [of _ pg] exI [of _ v] conjI) (assumption | subst kmem_cache_alloc.simps, simp)+
  qed
qed

text \<open>Growing and then allocating from the new slab.\<close>

lemma grow_alloc:
  assumes inv: "slab_inv z b n A {} s g F" and c: "c < 13" and R: "R = {pg..<pg + 2 ^ page_order (slab_cache s c)}" "R \<subseteq> {b..<b + n}" "R \<inter> A = {}"
    and p: "if off_slab (slab_cache s c) then p \<in> uobjs s g (slab_cachep (slab_cache s c)) else p = page2pa pg"
  shows "\<exists>a s' g'. kmem_cache_alloc c (grow_finish c pg p (slabmgmt_set c (page2pa pg) p s)) = Some (Some a, s') \<and>
    slab_inv z b n (A \<union> R) {} s' g' F \<and> slab_cache s' = slab_cache s \<and> a \<notin> objs s g c \<and>
    (\<forall>d < 13. slabs_of g' d = (if d = c then insert p (slabs_of g c) else slabs_of g d) \<and> objs s' g' d = (if d = c then insert a (objs s g c) else objs s g d))"
proof -
  let ?s = "grow_finish c pg p (slabmgmt_set c (page2pa pg) p s)"
  obtain g1 where g1: "slab_inv z b n (A \<union> R) {p} ?s g1 F" "slab_cache ?s = slab_cache s" "g_ls g1 (SNotFull c) = p # g_ls g (SNotFull c)"
    "\<forall>d < 13. slabs_of g1 d = (if d = c then insert p (slabs_of g c) else slabs_of g d) \<and> objs ?s g1 d = objs s g d"
    using grow_spec [OF inv c R p] by blast
  from alloc_nonempty [OF g1(1) c g1(3)] obtain a s' g' where
    "kmem_cache_alloc c ?s = Some (Some a, s')" "slab_inv z b n (A \<union> R) {} s' g' F" "slab_cache s' = slab_cache ?s" "a \<notin> objs ?s g1 c"
    "\<forall>d < 13. slabs_of g' d = slabs_of g1 d \<and> objs s' g' d = (if d = c then insert a (objs ?s g1 c) else objs ?s g1 d)" by auto
  then show ?thesis using g1(2,4) c by (intro exI [of _ a] exI [of _ s'] exI [of _ g']) simp
qed

lemma alloc_small:
  assumes inv: "slab_inv z b n A {} s g F" and c: "c < 4"
  shows "\<exists>r s' g' F'. kmem_cache_alloc c s = Some (r, s') \<and> slab_inv z b n A {} s' g' F' \<and> slab_cache s' = slab_cache s \<and>
    (\<forall>d. descs s' g' d = descs s g d) \<and> (\<forall>a. r = Some a \<longrightarrow> a \<notin> objs s g c) \<and>
    (\<forall>d < 13. objs s' g' d = (if d = c then (case r of Some a \<Rightarrow> insert a (objs s g c) | None \<Rightarrow> objs s g c) else objs s g d))"
proof -
  have c13: "c < 13" using c by simp
  have off: "\<not> off_slab (slab_cache s c)" using slab_invD(6) [OF inv c13] c by (simp add: cache_ok_def)
  show ?thesis
  proof (cases "g_ls g (SNotFull c)")
    case (Cons p ps)
    from alloc_nonempty [OF inv c13 Cons] obtain a s' g' where
      "kmem_cache_alloc c s = Some (Some a, s')" "slab_inv z b n A {} s' g' F" "slab_cache s' = slab_cache s" "a \<notin> objs s g c"
      "\<forall>d < 13. slabs_of g' d = slabs_of g d \<and> objs s' g' d = (if d = c then insert a (objs s g c) else objs s g d)" by auto
    then show ?thesis using descs_cong [of s' s g' g] by (intro exI [of _ "Some a"] exI [of _ s'] exI [of _ g'] exI [of _ F]) simp
  next
    case Nil
    from alloc_empty [OF inv c13 Nil] show ?thesis
    proof (elim disjE exE conjE)
      assume "kmem_cache_alloc c s = Some (None, s)"
      then show ?thesis using inv by (intro exI [of _ None] exI [of _ s] exI [of _ g] exI [of _ F]) simp
    next
      fix pg :: nat and v
      let ?R = "{pg..<pg + 2 ^ page_order (slab_cache s c)}" and ?s1 = "s\<lparr>km_pmm := v\<rparr>"
      assume v: "?R \<subseteq> F" "buddy_free_is z b n v (F - ?R)" "npage v = npage (km_pmm s)"
        and r: "kmem_cache_alloc c s = do {
          (slabp, s2) \<leftarrow> (if off_slab (slab_cache s c) then kmem_cache_alloc (slab_cachep (slab_cache s c)) (s\<lparr>km_pmm := v\<rparr>)
                            else Some (Some (page2pa pg), s\<lparr>km_pmm := v\<rparr>));
          case slabp of
            None \<Rightarrow> do { v3 \<leftarrow> free_pages pg (2 ^ page_order (slab_cache s2 c)) (km_pmm s2); Some (None, s2\<lparr>km_pmm := v3\<rparr>) }
          | Some p \<Rightarrow> kmem_cache_alloc c (grow_finish c pg p (slabmgmt_set c (page2pa pg) p s2)) }"
      note inv1 = take_pages [OF inv v(2,3,1)]
      have A: "A - ?R \<union> ?R = A" using v(1) slab_invD(5) [OF inv] by auto
      have Ra: "?R \<subseteq> {b..<b + n}" using v(1) buddy.in_arena [OF slab_invD(1) [OF inv]] by blast
      have o: "objs ?s1 g d = objs s g d" "descs ?s1 g d = descs s g d" for d by (simp_all add: objs_def obj_addr_def descs_def)
      from grow_alloc [OF inv1 c13, of ?R pg "page2pa pg"] Ra off obtain a s' g' where
        a: "kmem_cache_alloc c (grow_finish c pg (page2pa pg) (slabmgmt_set c (page2pa pg) (page2pa pg) ?s1)) = Some (Some a, s')"
          "slab_inv z b n A {} s' g' (F - ?R)" "slab_cache s' = slab_cache s" "a \<notin> objs s g c"
          "\<forall>d < 13. slabs_of g' d = (if d = c then insert (page2pa pg) (slabs_of g c) else slabs_of g d) \<and> objs s' g' d = (if d = c then insert a (objs s g c) else objs s g d)"
        unfolding A o by auto
      have "descs s' g' d = descs s g d" for d by (rule descs_cong [OF a(3)]) (use a(5) off in auto)
      then show ?thesis using r off a by (intro exI [of _ "Some a"] exI [of _ s'] exI [of _ g'] exI [of _ "F - ?R"]) simp
    qed
  qed
qed

lemma objs_pmm: "objs (s\<lparr>km_pmm := v\<rparr>) g d = objs s g d" "descs (s\<lparr>km_pmm := v\<rparr>) g d = descs s g d"
  "uobjs (s\<lparr>km_pmm := v\<rparr>) g d = uobjs s g d"
  by (simp_all add: objs_def obj_addr_def descs_def uobjs_def)

lemma descs_grow:
  assumes ca: "slab_cache s' = slab_cache s" and c: "c < 13" "off_slab (slab_cache s c)"
    and o: "\<forall>d < 13. slabs_of g' d = (if d = c then insert p (slabs_of g c) else slabs_of g d)"
  shows "descs s' g' e = (if e = slab_cachep (slab_cache s c) then insert p (descs s g e) else descs s g e)"
proof (rule set_eqI)
  fix x
  have "x \<in> descs s' g' e \<longleftrightarrow> (\<exists>c' < 13. off_slab (slab_cache s c') \<and> slab_cachep (slab_cache s c') = e \<and> (x \<in> slabs_of g c' \<or> c' = c \<and> x = p))"
    unfolding descs_def ca mem_Collect_eq using o by (metis insert_iff)
  also have "\<dots> \<longleftrightarrow> x \<in> descs s g e \<or> (e = slab_cachep (slab_cache s c) \<and> x = p)" using c unfolding descs_def mem_Collect_eq by blast
  finally show "x \<in> descs s' g' e \<longleftrightarrow> x \<in> (if e = slab_cachep (slab_cache s c) then insert p (descs s g e) else descs s g e)" by auto
qed

text \<open>What an allocation promises: nothing else changes and the object is new.\<close>

definition alloc_post :: "nat \<Rightarrow> slab_state \<Rightarrow> slab_view \<Rightarrow> u32 option \<Rightarrow> slab_state \<Rightarrow> slab_view \<Rightarrow> bool" where
  "alloc_post c s g r s' g' \<longleftrightarrow> slab_cache s' = slab_cache s \<and> (\<forall>a. r = Some a \<longrightarrow> a \<notin> uobjs s g c) \<and>
    (\<forall>d < 13. uobjs s' g' d = uobjs s g d \<union> (if d = c then set_option r else {}))"

lemma alloc_post_some:
  assumes "slab_cache s' = slab_cache s" "a \<notin> objs s g c" "\<forall>d < 13. objs s' g' d = (if d = c then insert a (objs s g c) else objs s g d)"
    and "\<And>d. descs s' g' d = descs s g d" "descs s g c \<subseteq> objs s g c"
  shows "alloc_post c s g (Some a) s' g'"
  unfolding alloc_post_def uobjs_def assms(4)
proof (intro conjI allI impI)
  fix d :: nat assume d: "d < 13"
  show "objs s' g' d - descs s g d = objs s g d - descs s g d \<union> (if d = c then set_option (Some a) else {})"
    using assms(2,3,5) d by (cases "d = c") auto
qed (use assms(1,2) in auto)

lemma alloc_large:
  assumes inv: "slab_inv z b n A {} s g F" and c: "c < 13" "4 \<le> c" and nf: "g_ls g (SNotFull c) = []"
  shows "\<exists>r s' g' F'. kmem_cache_alloc c s = Some (r, s') \<and> slab_inv z b n A {} s' g' F' \<and> alloc_post c s g r s' g'"
proof -
  let ?d = "slab_cachep (slab_cache s c)"
  have off: "off_slab (slab_cache s c)" and d: "?d < 4" "?d < 13" "?d \<noteq> c" using slab_invD(6) [OF inv c(1)] c(2) by (auto simp: cache_ok_def)
  have dc: "descs s g c = {}" using descs_small [OF inv, of c] c(2) by simp
  from alloc_empty [OF inv c(1) nf] show ?thesis
  proof (elim disjE exE conjE)
    assume "kmem_cache_alloc c s = Some (None, s)"
    then show ?thesis using inv by (intro exI [of _ None] exI [of _ s] exI [of _ g] exI [of _ F]) (simp add: alloc_post_def)
  next
    fix pg :: nat and v
    let ?m = "2 ^ page_order (slab_cache s c)"
    let ?R = "{pg..<pg + ?m}" and ?s1 = "s\<lparr>km_pmm := v\<rparr>"
    assume v: "?R \<subseteq> F" "buddy_free_is z b n v (F - ?R)" "npage v = npage (km_pmm s)"
      and r: "kmem_cache_alloc c s = do {
        (slabp, s2) \<leftarrow> (if off_slab (slab_cache s c) then kmem_cache_alloc (slab_cachep (slab_cache s c)) (s\<lparr>km_pmm := v\<rparr>)
                          else Some (Some (page2pa pg), s\<lparr>km_pmm := v\<rparr>));
        case slabp of
          None \<Rightarrow> do { v3 \<leftarrow> free_pages pg (2 ^ page_order (slab_cache s2 c)) (km_pmm s2); Some (None, s2\<lparr>km_pmm := v3\<rparr>) }
        | Some p \<Rightarrow> kmem_cache_alloc c (grow_finish c pg p (slabmgmt_set c (page2pa pg) p s2)) }"
    note inv1 = take_pages [OF inv v(2,3,1)]
    have A: "A - ?R \<union> ?R = A" using v(1) slab_invD(5) [OF inv] by auto
    have Ra: "?R \<subseteq> {b..<b + n}" using v(1) buddy.in_arena [OF slab_invD(1) [OF inv]] by blast
    obtain q s2 g2 F2 where q: "kmem_cache_alloc ?d ?s1 = Some (q, s2)" "slab_inv z b n (A - ?R) {} s2 g2 F2" "slab_cache s2 = slab_cache s"
      "\<forall>d. descs s2 g2 d = descs s g d" "\<forall>a. q = Some a \<longrightarrow> a \<notin> objs s g ?d"
      "\<forall>e < 13. objs s2 g2 e = (if e = ?d then (case q of Some a \<Rightarrow> insert a (objs s g ?d) | None \<Rightarrow> objs s g ?d) else objs s g e)"
      using alloc_small [OF inv1 d(1)] unfolding objs_pmm by auto
    show ?thesis
    proof (cases q)
      case None
      have m: "(?m :: nat) \<le> 2 ^ MAX_ORDER" using slab_invD(6) [OF inv c(1)] by (intro power_increasing) (simp_all add: cache_ok_def MAX_ORDER_def)
      have "F2 \<subseteq> A - ?R" using slab_invD(5) [OF q(2)] by blast
      then have "?R \<subseteq> {b..<b + n} - F2" using Ra by blast
      from pm_free [OF slab_invD(1) [OF q(2)] _ m this] obtain v' where
        v': "free_pages pg ?m (km_pmm s2) = Some v'" "buddy_free_is z b n v' (F2 \<union> ?R)" "npage v' = npage (km_pmm s2)" by auto
      have inv3: "slab_inv z b n A {} (s2\<lparr>km_pmm := v'\<rparr>) g2 (F2 \<union> ?R)" using give_pages [OF q(2) v'(2,3)] unfolding A by blast
      have "alloc_post c s g None (s2\<lparr>km_pmm := v'\<rparr>) g2"
        unfolding alloc_post_def objs_pmm using q(3,4,6) None by (simp add: uobjs_def)
      moreover have "kmem_cache_alloc c s = Some (None, s2\<lparr>km_pmm := v'\<rparr>)" using r off q(1,3) None v'(1) by simp
      ultimately show ?thesis using inv3 by blast
    next
      case (Some p)
      have pn: "p \<notin> objs s g ?d" "p \<notin> descs s g ?d" using q(5) Some slab_invD(10) [OF inv d(2)] by auto
      have pu: "p \<in> uobjs s2 g2 ?d" using q(4,6) Some d(2) pn by (simp add: uobjs_def)
      from grow_alloc [OF q(2) c(1), of ?R pg p] Ra off pu q(3) obtain a s' g' where
        a: "kmem_cache_alloc c (grow_finish c pg p (slabmgmt_set c (page2pa pg) p s2)) = Some (Some a, s')"
          "slab_inv z b n A {} s' g' F2" "slab_cache s' = slab_cache s" "a \<notin> objs s2 g2 c"
          "\<forall>d < 13. slabs_of g' d = (if d = c then insert p (slabs_of g2 c) else slabs_of g2 d) \<and> objs s' g' d = (if d = c then insert a (objs s2 g2 c) else objs s2 g2 d)"
        unfolding A by auto
      have ds: "descs s' g' e = (if e = ?d then insert p (descs s g e) else descs s g e)" for e
        using descs_grow [of s' s2 c g' p g2 e] a(3,5) q(3,4) off c(1) by simp
      have "alloc_post c s g (Some a) s' g'"
        unfolding alloc_post_def
      proof (intro conjI allI impI)
        fix e :: nat assume e: "e < 13"
        show "uobjs s' g' e = uobjs s g e \<union> (if e = c then set_option (Some a) else {})"
          unfolding uobjs_def ds using a(5) q(6) Some e d(3) dc pn by (cases "e = c"; cases "e = ?d") auto
      qed (use a(3,4) q(6) d(3) c(1) in \<open>auto simp: uobjs_def\<close>)
      moreover have "kmem_cache_alloc c s = Some (Some a, s')" using r off q(1) Some a(1) by simp
      ultimately show ?thesis using a(2) by blast
    qed
  qed
qed

lemma alloc_spec:
  assumes inv: "slab_inv z b n A {} s g F" and c: "c < 13"
  shows "\<exists>r s' g' F'. kmem_cache_alloc c s = Some (r, s') \<and> slab_inv z b n A {} s' g' F' \<and> alloc_post c s g r s' g'"
proof (cases "c < 4")
  case True
  obtain r s' g' F' where r: "kmem_cache_alloc c s = Some (r, s')" "slab_inv z b n A {} s' g' F'" "slab_cache s' = slab_cache s"
    "\<forall>d. descs s' g' d = descs s g d" "\<forall>a. r = Some a \<longrightarrow> a \<notin> objs s g c"
    "\<forall>d < 13. objs s' g' d = (if d = c then (case r of Some a \<Rightarrow> insert a (objs s g c) | None \<Rightarrow> objs s g c) else objs s g d)"
    using alloc_small [OF inv True] by blast
  have "alloc_post c s g r s' g'"
  proof (cases r)
    case None
    then show ?thesis using r by (simp add: alloc_post_def uobjs_def)
  next
    case (Some a)
    show ?thesis unfolding Some by (rule alloc_post_some [OF r(3)]) (use r(4-6) Some slab_invD(10) [OF inv c] in simp_all)
  qed
  with r(1,2) show ?thesis by blast
next
  case False
  show ?thesis
  proof (cases "g_ls g (SNotFull c)")
    case (Cons p ps)
    from alloc_nonempty [OF inv c Cons] obtain a s' g' where
      a: "kmem_cache_alloc c s = Some (Some a, s')" "slab_inv z b n A {} s' g' F" "slab_cache s' = slab_cache s" "a \<notin> objs s g c"
      "\<forall>d < 13. slabs_of g' d = slabs_of g d \<and> objs s' g' d = (if d = c then insert a (objs s g c) else objs s g d)" by auto
    have "alloc_post c s g (Some a) s' g'"
      by (rule alloc_post_some [OF a(3,4)]) (use a(5) descs_cong [OF a(3)] slab_invD(10) [OF inv c] in simp_all)
    with a(1,2) show ?thesis by blast
  qed (use alloc_large [OF inv c] False in simp)
qed

end
