(* ===== verification/Kmalloc.thy ===== *)
theory Kmalloc
  imports SlabInv
begin

text \<open>
  \<^verbatim>\<open>kmalloc\<close> and \<^verbatim>\<open>kfree\<close> as a heap of blocks. The locale \<open>block_heap\<close> states what a client may rely on: a
  request is answered with a new block or with \<^verbatim>\<open>NULL\<close>, a release takes exactly its block, blocks are apart and lie in the
  memory managed, and nothing is held back when no block is in use. Its runs are every sequence of
  requests and releases; it is interpreted on the slab allocator over the buddy allocator.
\<close>

section \<open>The contract of a heap\<close>

text \<open>The bytes of a block, given by its address and its size.\<close>

definition block_bytes :: "u32 \<Rightarrow> nat \<Rightarrow> nat set" where
  "block_bytes a m = {unat a..<unat a + m}"

datatype heap_op = Request u32 | Release nat

text \<open>\<open>hs\<close> are the blocks held, each with the size that was asked for; a release gives back the block at an index.\<close>

fun heap_step :: "(u32 \<Rightarrow> 's \<Rightarrow> (u32 option \<times> 's) kernel) \<Rightarrow> (u32 \<Rightarrow> 's \<Rightarrow> 's kernel) \<Rightarrow> heap_op \<Rightarrow>
    's \<times> (u32 \<times> u32) list \<Rightarrow> ('s \<times> (u32 \<times> u32) list) kernel" where
  "heap_step get put (Request sz) (s, hs) = do {
     (r, s1) \<leftarrow> get sz s;
     Some (s1, case r of None \<Rightarrow> hs | Some a \<Rightarrow> (a, sz) # hs)
   }"
| "heap_step get put (Release i) (s, hs) =
     (if i < length hs then do {
        s1 \<leftarrow> put (fst (hs ! i)) s;
        Some (s1, take i hs @ drop (Suc i) hs)
      } else Some (s, hs))"

fun heap_run :: "(u32 \<Rightarrow> 's \<Rightarrow> (u32 option \<times> 's) kernel) \<Rightarrow> (u32 \<Rightarrow> 's \<Rightarrow> 's kernel) \<Rightarrow> heap_op list \<Rightarrow>
    's \<times> (u32 \<times> u32) list \<Rightarrow> ('s \<times> (u32 \<times> u32) list) kernel" where
  "heap_run get put [] x = Some x"
| "heap_run get put (p # ps) x = do { x1 \<leftarrow> heap_step get put p x; heap_run get put ps x1 }"

fun op_ok :: "nat \<Rightarrow> heap_op \<Rightarrow> bool" where
  "op_ok lim (Request sz) \<longleftrightarrow> 0 < sz \<and> unat sz \<le> lim"
| "op_ok lim (Release i) \<longleftrightarrow> True"

definition blocks_apart :: "nat set \<Rightarrow> (u32 \<times> u32) list \<Rightarrow> bool" where
  "blocks_apart mem hs \<longleftrightarrow>
     sorted_wrt (\<lambda>(a, x) (b, y). block_bytes a (unat x) \<inter> block_bytes b (unat y) = {}) hs \<and> (\<forall>(a, x) \<in> set hs. block_bytes a (unat x) \<subseteq> mem)"

locale block_heap =
  fixes good :: "'s \<Rightarrow> (u32 \<rightharpoonup> nat) \<Rightarrow> bool" and get :: "u32 \<Rightarrow> 's \<Rightarrow> (u32 option \<times> 's) kernel" and put :: "u32 \<Rightarrow> 's \<Rightarrow> 's kernel"
    and lim :: nat and mem :: "nat set" and idle :: "'s \<Rightarrow> bool"
  assumes get_ok: "good s L \<Longrightarrow> 0 < sz \<Longrightarrow> unat sz \<le> lim \<Longrightarrow>
      \<exists>r s1. get sz s = Some (r, s1) \<and> (case r of None \<Rightarrow> good s1 L | Some a \<Rightarrow> L a = None \<and> (\<exists>m \<ge> unat sz. good s1 (L(a \<mapsto> m))))"
    and put_ok: "good s L \<Longrightarrow> L a = Some m \<Longrightarrow> \<exists>s1. put a s = Some s1 \<and> good s1 (L(a := None))"
    and apart: "good s L \<Longrightarrow> L a = Some m \<Longrightarrow> L b = Some k \<Longrightarrow> a \<noteq> b \<Longrightarrow> block_bytes a m \<inter> block_bytes b k = {}"
    and inside: "good s L \<Longrightarrow> L a = Some m \<Longrightarrow> block_bytes a m \<subseteq> mem"
    and empty: "good s Map.empty \<Longrightarrow> idle s"
begin

text \<open>The blocks that a list of holders accounts for.\<close>

definition held :: "'s \<Rightarrow> (u32 \<times> u32) list \<Rightarrow> bool" where
  "held s hs \<longleftrightarrow> (\<exists>L. good s L \<and> distinct (map fst hs) \<and> dom L = fst ` set hs \<and> (\<forall>(a, x) \<in> set hs. \<exists>m \<ge> unat x. L a = Some m))"

lemma heap_step_ok:
  assumes h: "held s hs" and p: "op_ok lim p"
  shows "\<exists>s1 hs1. heap_step get put p (s, hs) = Some (s1, hs1) \<and> held s1 hs1"
proof -
  obtain L where L: "good s L" "distinct (map fst hs)" "dom L = fst ` set hs" "\<forall>(a, x) \<in> set hs. \<exists>m \<ge> unat x. L a = Some m"
    using h by (auto simp: held_def)
  show ?thesis
  proof (cases p)
    case (Request sz)
    then have "0 < sz" "unat sz \<le> lim" using p by simp_all
    from get_ok [OF L(1) this] obtain r s1 where g: "get sz s = Some (r, s1)"
      "case r of None \<Rightarrow> good s1 L | Some a \<Rightarrow> L a = None \<and> (\<exists>m \<ge> unat sz. good s1 (L(a \<mapsto> m)))" by blast
    show ?thesis
    proof (cases r)
      case None
      then have "held s1 hs" using g(2) L unfolding held_def by auto
      then show ?thesis using Request g(1) None by simp
    next
      case (Some a)
      then obtain m where m: "L a = None" "unat sz \<le> m" "good s1 (L(a \<mapsto> m))" using g(2) by auto
      have a: "a \<notin> fst ` set hs" using m(1) L(3) by (metis domIff)
      have "\<forall>(b, x) \<in> set ((a, sz) # hs). \<exists>k \<ge> unat x. (L(a \<mapsto> m)) b = Some k" using m(2) L(4) a by (auto simp: image_iff split: prod.splits)
      then have "held s1 ((a, sz) # hs)" unfolding held_def using m(3) L(2,3) a by (intro exI [of _ "L(a \<mapsto> m)"]) simp
      then show ?thesis using Request g(1) Some by simp
    qed
  next
    case (Release i)
    show ?thesis
    proof (cases "i < length hs")
      case True
      let ?a = "fst (hs ! i)" and ?hs = "take i hs @ drop (Suc i) hs"
      have hs: "hs = take i hs @ hs ! i # drop (Suc i) hs" using True by (simp add: id_take_nth_drop [symmetric])
      obtain m where m: "L ?a = Some m" using L(3) True by (metis domD image_eqI nth_mem)
      obtain s1 where s1: "put ?a s = Some s1" "good s1 (L(?a := None))" using put_ok [OF L(1) m] by blast
      have "distinct (map fst (take i hs @ hs ! i # drop (Suc i) hs))" using L(2) hs by simp
      then have d: "distinct (map fst ?hs)" "?a \<notin> fst ` set ?hs" by auto
      have st: "fst ` set hs = insert ?a (fst ` set ?hs)" "set ?hs \<subseteq> set hs"
        by (subst hs, auto) (auto dest: in_set_takeD in_set_dropD)
      have "dom (L(?a := None)) = fst ` set ?hs" using L(3) st(1) d(2) by auto
      moreover have "\<exists>k \<ge> unat x. (L(?a := None)) b = Some k" if y: "(b, x) \<in> set ?hs" for b x
      proof -
        have "(b, x) \<in> set hs" "b \<in> fst ` set ?hs" using st(2) y by (blast, force)
        then have "\<exists>m \<ge> unat x. L b = Some m" "b \<noteq> ?a" using L(4) d(2) by blast+
        then show ?thesis by (metis fun_upd_other)
      qed
      then have "\<forall>(b, x) \<in> set ?hs. \<exists>k \<ge> unat x. (L(?a := None)) b = Some k" by blast
      ultimately have "held s1 ?hs" unfolding held_def using s1(2) d(1) by blast
      then show ?thesis using Release True s1(1) by simp
    qed (use Release h in simp)
  qed
qed

lemma heap_run_ok:
  assumes "held s hs" and "list_all (op_ok lim) ps"
  shows "\<exists>s1 hs1. heap_run get put ps (s, hs) = Some (s1, hs1) \<and> held s1 hs1"
  using assms
proof (induction ps arbitrary: s hs)
  case (Cons p ps)
  from heap_step_ok [of s hs p] Cons.prems obtain s1 hs1 where "heap_step get put p (s, hs) = Some (s1, hs1)" "held s1 hs1" by auto
  with Cons.IH [OF this(2)] Cons.prems show ?case by simp
qed auto

lemma held_apart:
  assumes "held s hs"
  shows "blocks_apart mem hs"
proof -
  obtain L where L: "good s L" "distinct (map fst hs)" "\<forall>(a, x) \<in> set hs. \<exists>m \<ge> unat x. L a = Some m"
    using assms by (auto simp: held_def)
  have lt: "block_bytes a x \<subseteq> block_bytes a m" if "x \<le> m" for a x m using that by (auto simp: block_bytes_def)
  have "sorted_wrt (\<lambda>(a, x) (b, y). block_bytes a (unat x) \<inter> block_bytes b (unat y) = {}) hs"
    unfolding sorted_wrt_iff_nth_less
  proof (intro allI impI)
    fix i j assume ij: "i < j" "j < length hs"
    obtain a x b y where e: "hs ! i = (a, x)" "hs ! j = (b, y)" by fastforce
    have s: "(a, x) \<in> set hs" "(b, y) \<in> set hs" using ij e by (metis nth_mem order.strict_trans)+
    then obtain m k where m: "unat x \<le> m" "L a = Some m" "unat y \<le> k" "L b = Some k" using L(3) by blast
    have ne: "a \<noteq> b" using ij e nth_eq_iff_index_eq [OF L(2), of i j] by auto
    show "(case hs ! i of (a, x) \<Rightarrow> \<lambda>(b, y). block_bytes a (unat x) \<inter> block_bytes b (unat y) = {}) (hs ! j)"
      using apart [OF L(1) m(2,4) ne] lt [OF m(1), of a] lt [OF m(3), of b] by (simp add: e) blast
  qed
  moreover have "\<forall>(a, x) \<in> set hs. block_bytes a (unat x) \<subseteq> mem" using L(3) inside [OF L(1)] lt by (fastforce)
  ultimately show ?thesis by (simp add: blocks_apart_def)
qed

lemma held_nil: "held s [] \<Longrightarrow> idle s"
  by (auto simp: held_def intro: empty)

end

section \<open>The slab allocator keeps the contract\<close>

lemma slab_getorder_ok:
  assumes "unat sz \<le> 2 ^ 17"
  shows "\<exists>o'. slab_getorder sz = Some o' \<and> 5 \<le> o' \<and> o' \<le> 17 \<and> unat sz \<le> 2 ^ o'"
proof -
  have p: "sz \<le> push_bit k 1 \<longleftrightarrow> unat sz \<le> 2 ^ k" if "k \<le> 17" for k
  proof -
    have "(2::nat) ^ k \<le> 2 ^ 17" using that by (intro power_increasing) simp_all
    then have lt: "(2::nat) ^ k < 2 ^ 32" by simp
    have "unat (of_nat (2 ^ k) :: u32) = 2 ^ k" using lt by (simp only: unat_of_nat) (simp add: take_bit_nat_eq_self)
    then have "unat (push_bit k 1 :: u32) = 2 ^ k" by (simp add: push_bit_eq_mult)
    then show ?thesis by (simp add: word_le_nat_alt)
  qed
  have "17 \<in> set [5..<17 + 1]" unfolding set_upt atLeastLessThan_iff by (intro conjI) (simp, rule less_add_one)
  moreover have "sz \<le> push_bit 17 1" using p [OF order_refl] assms by (simp only:)
  ultimately have "slab_getorder sz \<noteq> None" unfolding slab_getorder_def find_None_iff by blast
  then obtain o' where o': "slab_getorder sz = Some o'" by blast
  then have "o' \<in> set [5..<17 + 1]" "sz \<le> push_bit o' 1" unfolding slab_getorder_def find_Some_iff using nth_mem by blast+
  then show ?thesis using p [of o'] o' by auto
qed

text \<open>The search for the cache panics, so that the test for requests that are too large is never reached.\<close>

lemma kmalloc_too_large:
  assumes "2 ^ 17 < unat sz"
  shows "kmalloc sz s = None"
proof -
  have "\<not> sz \<le> push_bit k 1" if "k \<le> 17" for k
  proof -
    have le: "(2::nat) ^ k \<le> 2 ^ 17" using that by (intro power_increasing) simp_all
    then have lt: "(2::nat) ^ k < 2 ^ 32" by simp
    have "unat (of_nat (2 ^ k) :: u32) = 2 ^ k" using lt by (simp only: unat_of_nat) (simp add: take_bit_nat_eq_self)
    then have "unat (push_bit k 1 :: u32) = 2 ^ k" by (simp add: push_bit_eq_mult)
    then show ?thesis using le assms by (simp add: word_le_nat_alt)
  qed
  moreover have "k \<le> 17" if "k < 17 + 1" for k :: nat using that by simp
  ultimately have "slab_getorder sz = None" unfolding slab_getorder_def find_None_iff set_upt atLeastLessThan_iff by blast
  then show ?thesis by (simp add: kmalloc_def)
qed

text \<open>\<open>A\<close> are the pages of the allocator; \<open>L\<close> are the blocks in use with the sizes of their caches.\<close>

definition slab_good :: "nat \<Rightarrow> nat \<Rightarrow> nat \<Rightarrow> nat set \<Rightarrow> slab_state \<Rightarrow> (u32 \<rightharpoonup> nat) \<Rightarrow> bool" where
  "slab_good z b n A s L \<longleftrightarrow> (\<exists>g F. slab_inv z b n A {} s g F \<and> (\<forall>a m. L a = Some m \<longleftrightarrow> (\<exists>c < 13. m = 2 ^ (c + 5) \<and> a \<in> uobjs s g c)))"

lemma slab_goodE:
  assumes "slab_good z b n A s L"
  obtains g F where "slab_inv z b n A {} s g F" "\<And>a m. L a = Some m \<longleftrightarrow> (\<exists>c < 13. m = 2 ^ (c + 5) \<and> a \<in> uobjs s g c)"
  using assms unfolding slab_good_def by blast

lemma uobj_at:
  assumes inv: "slab_inv z b n A X s g F" and c: "c < 13" "a \<in> uobjs s g c"
  obtains p i where "a = obj_addr s c p i" "p \<in> slabs_of g c" "i < unat (c_num (slab_cache s c))"
  using c(2) unfolding uobjs_def by (auto elim: objsE)

lemma uobj_class:
  assumes inv: "slab_inv z b n A X s g F" and c: "c < 13" "a \<in> uobjs s g c" and d: "d < 13" "a \<in> uobjs s g d"
  shows "c = d"
proof -
  obtain p i q j where p: "a = obj_addr s c p i" "p \<in> slabs_of g c" "i < unat (c_num (slab_cache s c))"
    and q: "a = obj_addr s d q j" "q \<in> slabs_of g d" "j < unat (c_num (slab_cache s d))"
    using uobj_at [OF inv c] uobj_at [OF inv d] by metis
  with obj_inj [OF inv c(1) p(2,3) d(1) q(2,3)] show ?thesis by simp
qed

lemma good_get:
  assumes g: "slab_good z b n A s L" and sz: "0 < sz" "unat sz \<le> 2 ^ 17"
  shows "\<exists>r s1. kmalloc sz s = Some (r, s1) \<and>
    (case r of None \<Rightarrow> slab_good z b n A s1 L | Some a \<Rightarrow> L a = None \<and> (\<exists>m \<ge> unat sz. slab_good z b n A s1 (L(a \<mapsto> m))))"
proof -
  obtain g F where g: "slab_inv z b n A {} s g F" "\<And>a m. L a = Some m \<longleftrightarrow> (\<exists>c < 13. m = 2 ^ (c + 5) \<and> a \<in> uobjs s g c)"
    by (rule slab_goodE [OF g]) blast
  obtain o' where o': "slab_getorder sz = Some o'" "5 \<le> o'" "o' \<le> 17" "unat sz \<le> 2 ^ o'" using slab_getorder_ok [OF sz(2)] by blast
  let ?c = "o' - 5"
  have c: "?c < 13" "?c + 5 = o'" using o'(2,3) by simp_all
  obtain r s' g' F' where r: "kmem_cache_alloc ?c s = Some (r, s')" "slab_inv z b n A {} s' g' F'" "alloc_post ?c s g r s' g'"
    using alloc_spec [OF g(1) c(1)] by blast
  have k: "kmalloc sz s = Some (r, s')" using sz(1) o' r(1) by (simp add: kmalloc_def)
  have post: "\<And>a. r = Some a \<Longrightarrow> a \<notin> uobjs s g ?c" "\<And>d. d < 13 \<Longrightarrow> uobjs s' g' d = uobjs s g d \<union> (if d = ?c then set_option r else {})"
    using r(3) by (simp_all add: alloc_post_def)
  show ?thesis
  proof (cases r)
    case None
    have "slab_good z b n A s' L" unfolding slab_good_def
      by (rule exI [of _ g'], rule exI [of _ F']) (use r(2) g(2) post(2) None in \<open>auto split: if_splits\<close>)
    with k None show ?thesis by simp
  next
    case (Some a)
    have ac: "a \<in> uobjs s' g' ?c" using post(2) [OF c(1)] Some by simp
    have an: "a \<notin> uobjs s g d" if "d < 13" for d
    proof
      assume a: "a \<in> uobjs s g d"
      then have "a \<in> uobjs s' g' d" using post(2) [OF that] by simp
      then have "d = ?c" using uobj_class [OF r(2) c(1) ac that] by simp
      with a post(1) Some show False by simp
    qed
    then have n: "L a = None" using g(2) [of a] by (cases "L a") auto
    have "slab_good z b n A s' (L(a \<mapsto> 2 ^ o'))" unfolding slab_good_def
    proof (intro exI [of _ g'] exI [of _ F'] conjI allI)
      fix x m
      show "((L(a \<mapsto> 2 ^ o')) x = Some m) = (\<exists>d < 13. m = 2 ^ (d + 5) \<and> x \<in> uobjs s' g' d)"
      proof (cases "x = a")
        case True
        have "(\<exists>d < 13. m = 2 ^ (d + 5) \<and> a \<in> uobjs s' g' d) \<longleftrightarrow> m = 2 ^ (?c + 5)"
          using uobj_class [OF r(2) c(1) ac] ac c(1) by blast
        with True c(2) show ?thesis by auto
      next
        case False
        have "x \<in> uobjs s' g' d \<longleftrightarrow> x \<in> uobjs s g d" if "d < 13" for d using post(2) [OF that] Some False by auto
        with False g(2) show ?thesis by auto
      qed
    qed (rule r(2))
    with k Some n o'(4) show ?thesis by auto
  qed
qed

lemma good_put:
  assumes g: "slab_good z b n A s L" and a: "L a = Some m"
  shows "\<exists>s1. kfree a s = Some s1 \<and> slab_good z b n A s1 (L(a := None))"
proof -
  obtain g F where g: "slab_inv z b n A {} s g F" "\<And>a m. L a = Some m \<longleftrightarrow> (\<exists>c < 13. m = 2 ^ (c + 5) \<and> a \<in> uobjs s g c)"
    by (rule slab_goodE [OF g]) blast
  obtain c where c: "c < 13" "a \<in> uobjs s g c" using a g(2) by blast
  obtain s' g' F' where f: "kfree a s = Some s'" "slab_inv z b n A {} s' g' F'" "\<forall>d < 13. uobjs s' g' d = uobjs s g d - (if d = c then {a} else {})"
    using kfree_spec [OF g(1) c] by blast
  have o: "x \<in> uobjs s' g' d \<longleftrightarrow> x \<in> uobjs s g d \<and> x \<noteq> a" if "d < 13" for x d
    using f(3) that uobj_class [OF g(1) c that] by (cases "d = c") auto
  have "slab_good z b n A s' (L(a := None))" unfolding slab_good_def
    by (rule exI [of _ g'], rule exI [of _ F']) (use f(2) g(2) o in auto)
  with f(1) show ?thesis by blast
qed

abbreviation (input) arena :: "nat \<Rightarrow> nat \<Rightarrow> nat set" where "arena b n \<equiv> {2 ^ 31 + 4096 * b..<2 ^ 31 + 4096 * (b + n)}"

lemma good_inside:
  assumes inv: "slab_inv z b n A X s g F" and c: "c < 13" "a \<in> uobjs s g c"
  shows "block_bytes a (2 ^ (c + 5)) \<subseteq> arena b n"
proof -
  obtain p i where p: "a = obj_addr s c p i" "p \<in> slabs_of g c" "i < unat (c_num (slab_cache s c))" by (rule uobj_at [OF inv c])
  let ?B = "g_bs g p" and ?m = "(2::nat) ^ page_order (slab_cache s c)"
  have "(0::nat) < ?m" by simp
  then have "?B \<in> slab_run s g c p" "?B + ?m - 1 \<in> slab_run s g c p" unfolding slab_run_def atLeastLessThan_iff by linarith+
  then have "b \<le> ?B" "?B + ?m - 1 < b + n" using slab_invD(8) [OF inv c(1) p(2)] by auto
  then have "4096 * b \<le> 4096 * ?B" "4096 * (?B + ?m) \<le> 4096 * (b + n)" by simp_all
  moreover have "4096 * (?B + ?m) = 4096 * ?B + 4096 * ?m" by simp
  ultimately show ?thesis using obj_at(1,2) [OF inv c(1) p(2,3)] p(1) by (auto simp: block_bytes_def)
qed

lemma good_idle:
  assumes g: "slab_good z b n A s Map.empty"
  shows "buddy_free_is z b n (km_pmm s) A"
proof -
  obtain g F where g: "slab_inv z b n A {} s g F" "\<And>a m. Map.empty a = Some (m :: nat) \<longleftrightarrow> (\<exists>c < 13. m = 2 ^ (c + 5) \<and> a \<in> uobjs s g c)"
    by (rule slab_goodE [OF g]) blast
  have u: "uobjs s g c = {}" if "c < 13" for c using g(2) that by auto
  have ne: "\<exists>a. a \<in> objs s g c" if c: "c < 13" and p: "p \<in> slabs_of g c" for c p
  proof -
    note w = slab_invD(7) [OF g(1) c p]
    have "0 < unat (inuse (slabs s p))" using slab_invD(9) [OF g(1) c p] by (simp add: unat_gt_0)
    then have l: "length (g_fl g p) < unat (c_num (slab_cache s c))" using slab_wfD(4) [OF w] by linarith
    have "\<not> {..<unat (c_num (slab_cache s c))} \<subseteq> set (g_fl g p)"
    proof
      assume "{..<unat (c_num (slab_cache s c))} \<subseteq> set (g_fl g p)"
      then have "card {..<unat (c_num (slab_cache s c))} \<le> card (set (g_fl g p))" by (intro card_mono) simp
      then have "unat (c_num (slab_cache s c)) \<le> card (set (g_fl g p))" by simp
      then show False using l card_length [of "g_fl g p"] by linarith
    qed
    then obtain i where "i < unat (c_num (slab_cache s c))" "i \<notin> set (g_fl g p)" by blast
    then show ?thesis using p unfolding objs_def by blast
  qed
  have none: "slabs_of g c = {}" if "c < 13" "descs s g c = {}" for c
  proof -
    have "objs s g c = {}" using u [OF that(1)] that(2) by (simp add: uobjs_def)
    then show ?thesis using ne [OF that(1)] by blast
  qed
  have "descs s g d = {}" for d
  proof -
    have "4 \<le> c" if "c < 13" "off_slab (slab_cache s c)" for c using slab_invD(6) [OF g(1) that(1)] that(2) by (simp add: cache_ok_def)
    then have "slabs_of g c = {}" if "c < 13" "off_slab (slab_cache s c)" for c
      using that none [OF that(1)] descs_small [OF g(1), of c] by fastforce
    then show ?thesis unfolding descs_def by blast
  qed
  then have "slabs_of g c = {}" if "c < 13" for c using none that by blast
  then have "A = F" using slab_invD(5) [OF g(1)] by simp
  with slab_invD(1) [OF g(1)] show ?thesis by simp
qed

interpretation slab: block_heap "slab_good z b n A" kmalloc kfree "2 ^ 17" "arena b n" "\<lambda>s. buddy_free_is z b n (km_pmm s) A" for z b n A
proof unfold_locales
  fix s L and a a' :: u32 and m k
  assume g: "slab_good z b n A s L" and a: "L a = Some m"
  obtain g F where i: "slab_inv z b n A {} s g F" and l: "\<And>a m. L a = Some m \<longleftrightarrow> (\<exists>c < 13. m = 2 ^ (c + 5) \<and> a \<in> uobjs s g c)"
    by (rule slab_goodE [OF g]) blast
  obtain c where c: "c < 13" "m = 2 ^ (c + 5)" "a \<in> uobjs s g c" using a l by blast
  show "block_bytes a m \<subseteq> arena b n" using good_inside [OF i c(1,3)] c(2) by simp
  assume b: "L a' = Some k" and ne: "a \<noteq> a'"
  obtain d where d: "d < 13" "k = 2 ^ (d + 5)" "a' \<in> uobjs s g d" using b l by blast
  obtain p i where p: "a = obj_addr s c p i" "p \<in> slabs_of g c" "i < unat (c_num (slab_cache s c))" by (rule uobj_at [OF i c(1,3)])
  obtain q j where q: "a' = obj_addr s d q j" "q \<in> slabs_of g d" "j < unat (c_num (slab_cache s d))" by (rule uobj_at [OF i d(1,3)])
  show "block_bytes a m \<inter> block_bytes a' k = {}"
    using obj_overlap [OF i c(1) p(2,3) d(1) q(2,3)] p(1) q(1) ne c(2) d(2) by (auto simp: block_bytes_def bytes_of_def)
qed (blast intro: good_get good_put good_idle)+

section \<open>Boot\<close>

definition caches_ready :: "nat \<Rightarrow> slab_state \<Rightarrow> bool" where
  "caches_ready i s \<longleftrightarrow> (\<forall>c < i. ring (slab_links s) (SNotFull c) [] \<and> ring (slab_links s) (SFull c) [] \<and> cache_ok (slab_cache s c) c)"

lemma ring_init_empty: "ring h k [] \<Longrightarrow> ring (list_init e h) k []"
  by (auto simp: ring_def linked_def list_init_def)

lemma slab_init_loop_spec:
  assumes "i + k \<le> 13" and "caches_ready i s"
  shows "\<exists>s1. slab_init_loop k i s = Some s1 \<and> caches_ready (i + k) s1 \<and> km_pmm s1 = km_pmm s"
  using assms
proof (induction k arbitrary: i s)
  case (Suc k)
  obtain x where x: "cache_ok x i" "init_kmem_cache i (push_bit (i + 5) 1) s =
      Some (s\<lparr>slab_links := list_init (SNotFull i) (list_init (SFull i) (slab_links s)), slab_cache := (slab_cache s)(i := x)\<rparr>)"
    using init_cache_spec [of i s] Suc.prems(1) by auto
  let ?s = "s\<lparr>slab_links := list_init (SNotFull i) (list_init (SFull i) (slab_links s)), slab_cache := (slab_cache s)(i := x)\<rparr>"
  have "caches_ready (i + 1) ?s"
    using Suc.prems(2) x(1) by (auto simp: caches_ready_def less_Suc_eq intro: ring_init ring_init_empty)
  from Suc.IH [OF _ this] Suc.prems(1) x(2) show ?case by simp
qed auto

lemma slab_init_spec:
  assumes v: "buddy_free_is z b n (km_pmm s) A" "npage (km_pmm s) \<le> 2 ^ 19" "b + n \<le> npage (km_pmm s)"
  shows "\<exists>s0. slab_init s = Some s0 \<and> slab_good z b n A s0 Map.empty"
proof -
  obtain s0 where s0: "slab_init s = Some s0" "caches_ready 13 s0" "km_pmm s0 = km_pmm s"
    using slab_init_loop_spec [of 0 13 s] unfolding slab_init_def by (auto simp: caches_ready_def)
  define g :: slab_view where "g = \<lparr>g_ls = (\<lambda>_. []), g_fl = (\<lambda>_. []), g_bs = (\<lambda>_. 0)\<rparr>"
  have e: "slabs_of g c = {}" "objs s0 g c = {}" "descs s0 g c = {}" for c by (simp_all add: slabs_of_def objs_def descs_def g_def)
  have "slab_lists s0 g" using s0(2) by (auto simp: slab_lists_def rings_wf_def heads_def g_def caches_ready_def)
  then have "slab_inv z b n A {} s0 g A" using v s0(2,3) by (auto simp: slab_inv_def e caches_ready_def)
  moreover have "uobjs s0 g c = {}" for c by (simp add: uobjs_def e)
  ultimately have "slab_good z b n A s0 Map.empty" unfolding slab_good_def by (intro exI [of _ g] exI [of _ A]) simp
  with s0(1) show ?thesis by blast
qed

section \<open>Properties\<close>

text \<open>
  C34: The kernel heap is safe from boot on. After \<^verbatim>\<open>buddy_init_memmap\<close> and \<^verbatim>\<open>slab_init\<close>, every sequence of \<^verbatim>\<open>kmalloc\<close> calls of
  1 byte to 128K and of \<^verbatim>\<open>kfree\<close> calls on blocks in use ends without a panic; at every moment the blocks in use, with the
  sizes asked for, are apart from each other and lie in the pages of the allocator; and when none is in use, all
  pages are free again.\<close>
theorem kmalloc_runs_safe:
  assumes "\<forall>q < npage v. PageReserved v q" and "0 < n" and "base + n \<le> npage v" and "npage v \<le> 2 ^ 19"
    and "zone_num v < MAX_ZONE_NUM"
  shows "\<exists>v0 s0. buddy_init_memmap base n (buddy_init v) = Some v0 \<and> slab_init (s\<lparr>km_pmm := v0\<rparr>) = Some s0 \<and>
    (\<forall>ps. list_all (op_ok (2 ^ 17)) ps \<longrightarrow>
       (\<exists>s1 hs. heap_run kmalloc kfree ps (s0, []) = Some (s1, hs) \<and> blocks_apart (arena base n) hs \<and>
          (hs = [] \<longrightarrow> buddy_free_is (zone_num v) base n (km_pmm s1) {base..<base + n})))"
proof -
  obtain v0 L where v0: "buddy_init_memmap base n (buddy_init v) = Some v0" "buddy_inv v0 (zone_num v) n {} L"
    "free_set L = {base..<base + n}" "zones v0 (zone_num v) = base" "npage v0 = npage v"
    by (rule buddy_init_memmap_inv [of v n base]) (use assms in auto)
  then have "buddy_free_is (zone_num v) base n v0 {base..<base + n}" by (auto simp: buddy_free_is_def)
  then obtain s0 where s0: "slab_init (s\<lparr>km_pmm := v0\<rparr>) = Some s0" "slab_good (zone_num v) base n {base..<base + n} s0 Map.empty"
    using slab_init_spec [of "zone_num v" base n "s\<lparr>km_pmm := v0\<rparr>"] assms(3,4) v0(5) by auto
  have "slab.held (zone_num v) base n {base..<base + n} s0 []" using s0(2) by (simp add: slab.held_def)
  note run = slab.heap_run_ok [OF this]
  show ?thesis
  proof (rule exI [of _ v0], rule exI [of _ s0], intro conjI allI impI)
    fix ps assume "list_all (op_ok (2 ^ 17)) ps"
    from run [OF this] obtain s1 hs where r: "heap_run kmalloc kfree ps (s0, []) = Some (s1, hs)"
      "slab.held (zone_num v) base n {base..<base + n} s1 hs" by blast
    have "hs = [] \<longrightarrow> buddy_free_is (zone_num v) base n (km_pmm s1) {base..<base + n}"
      using slab.held_nil [of "zone_num v" base n "{base..<base + n}" s1] r(2) by blast
    with slab.held_apart [OF r(2)] r(1) show "\<exists>s1 hs. heap_run kmalloc kfree ps (s0, []) = Some (s1, hs) \<and> blocks_apart (arena base n) hs \<and>
        (hs = [] \<longrightarrow> buddy_free_is (zone_num v) base n (km_pmm s1) {base..<base + n})" by blast
  qed (fact v0(1) s0(1))+
qed

definition demo_slab :: slab_state where
  "demo_slab = \<lparr>km_pmm = demo_pmm, slab_cache = (\<lambda>_. \<lparr>objsize = 0, objsize_shift = 0, c_num = 0, c_offset = 0, off_slab = False, page_order = 0, slab_cachep = 0\<rparr>),
     slab_links = \<lparr>le_prev = (\<lambda>x. x), le_next = (\<lambda>x. x)\<rparr>, slabs = (\<lambda>_. \<lparr>s_mem = 0, inuse = 0, s_offset = 0, s_free = 0, bufctl = (\<lambda>_. 0)\<rparr>),
     pg_cache = (\<lambda>_. 0), pg_slabp = (\<lambda>_. 0), page_slab = (\<lambda>_. False)\<rparr>"

lemma demo_pmm_ready:
  "\<forall>q < npage demo_pmm. PageReserved demo_pmm q" "300 + 7892 \<le> npage demo_pmm" "npage demo_pmm \<le> 2 ^ 19" "zone_num demo_pmm < MAX_ZONE_NUM"
  by (simp_all add: demo_pmm_def PageReserved_def PG_reserved_def MAX_ZONE_NUM_def)

theorem kmalloc_runs_safe_witness:
  "\<exists>v0 s0 s1 hs. buddy_init_memmap 300 7892 (buddy_init demo_pmm) = Some v0 \<and> slab_init (demo_slab\<lparr>km_pmm := v0\<rparr>) = Some s0 \<and>
    heap_run kmalloc kfree [Request 100, Request 5000, Request 1, Release 1, Request 100000] (s0, []) = Some (s1, hs) \<and>
    blocks_apart (arena 300 7892) hs"
proof -
  have "list_all (op_ok (2 ^ 17)) [Request 100, Request 5000, Request 1, Release 1, Request 100000]" by simp
  with kmalloc_runs_safe [OF demo_pmm_ready(1) _ demo_pmm_ready(2-4), of demo_slab] show ?thesis by (metis zero_less_numeral)
qed

text \<open>
  C35: \<^verbatim>\<open>kmalloc\<close> and \<^verbatim>\<open>kfree\<close> do exactly what they promise to one block: in every state of a
  run, a request of 1 byte to 128K returns \<^verbatim>\<open>NULL\<close> with the blocks as they were, or a new block of
  at least the size asked for; \<^verbatim>\<open>kfree\<close> of that block succeeds and leaves exactly the blocks from before.\<close>
theorem kmalloc_kfree_exact:
  assumes "slab_good z b n A s L" and "0 < sz" and "unat sz \<le> 2 ^ 17"
  shows "\<exists>r s1. kmalloc sz s = Some (r, s1) \<and>
    (case r of
       None \<Rightarrow> slab_good z b n A s1 L
     | Some a \<Rightarrow> L a = None \<and> (\<exists>m \<ge> unat sz. slab_good z b n A s1 (L(a \<mapsto> m)) \<and> block_bytes a m \<subseteq> arena b n \<and>
         (\<forall>c k. L c = Some k \<longrightarrow> block_bytes a m \<inter> block_bytes c k = {})) \<and>
         (\<exists>s2. kfree a s1 = Some s2 \<and> slab_good z b n A s2 L))"
proof -
  obtain r s1 where k: "kmalloc sz s = Some (r, s1)"
    "case r of None \<Rightarrow> slab_good z b n A s1 L | Some a \<Rightarrow> L a = None \<and> (\<exists>m \<ge> unat sz. slab_good z b n A s1 (L(a \<mapsto> m)))"
    using slab.get_ok [OF assms] by blast
  show ?thesis
  proof (cases r)
    case None
    with k show ?thesis by simp
  next
    case (Some a)
    then obtain m where m: "L a = None" "unat sz \<le> m" "slab_good z b n A s1 (L(a \<mapsto> m))" using k(2) by auto
    have a: "(L(a \<mapsto> m)) a = Some m" by simp
    obtain s2 where s2: "kfree a s1 = Some s2" "slab_good z b n A s2 ((L(a \<mapsto> m))(a := None))" using slab.put_ok [OF m(3) a] by blast
    have "(L(a \<mapsto> m))(a := None) = L" using m(1) by auto
    moreover have "block_bytes a m \<inter> block_bytes c k = {}" if "L c = Some k" for c k
    proof -
      have "c \<noteq> a" using that m(1) by auto
      then show ?thesis using slab.apart [OF m(3) a, of c k] that by simp
    qed
    ultimately show ?thesis using k(1) Some m s2 slab.inside [OF m(3) a] by (intro exI [of _ r] exI [of _ s1]) auto
  qed
qed

theorem kmalloc_kfree_exact_witness:
  "\<exists>v0 s0 r s1. buddy_init_memmap 300 7892 (buddy_init demo_pmm) = Some v0 \<and> slab_init (demo_slab\<lparr>km_pmm := v0\<rparr>) = Some s0 \<and>
    kmalloc 5000 s0 = Some (r, s1) \<and>
    (case r of None \<Rightarrow> slab_good 0 300 7892 {300..<8192} s1 Map.empty | Some a \<Rightarrow> \<exists>s2. kfree a s1 = Some s2 \<and> slab_good 0 300 7892 {300..<8192} s2 Map.empty)"
proof -
  obtain v0 L where v0: "buddy_init_memmap 300 7892 (buddy_init demo_pmm) = Some v0" "buddy_inv v0 (zone_num demo_pmm) 7892 {} L"
    "free_set L = {300..<300 + 7892}" "zones v0 (zone_num demo_pmm) = 300" "npage v0 = npage demo_pmm"
    by (rule buddy_init_memmap_inv [of demo_pmm 7892 300]) (use demo_pmm_ready in auto)
  then have "buddy_free_is 0 300 7892 v0 {300..<8192}" by (auto simp: buddy_free_is_def demo_pmm_def)
  then obtain s0 where s0: "slab_init (demo_slab\<lparr>km_pmm := v0\<rparr>) = Some s0" "slab_good 0 300 7892 {300..<8192} s0 Map.empty"
    using slab_init_spec [of 0 300 7892 "demo_slab\<lparr>km_pmm := v0\<rparr>"] demo_pmm_ready v0(5) by auto
  have "(0::u32) < 5000" "unat (5000::u32) \<le> 2 ^ 17" by simp_all
  from kmalloc_kfree_exact [OF s0(2) this] obtain r s1 where "kmalloc 5000 s0 = Some (r, s1)"
    "case r of None \<Rightarrow> slab_good 0 300 7892 {300..<8192} s1 Map.empty | Some a \<Rightarrow> \<exists>s2. kfree a s1 = Some s2 \<and> slab_good 0 300 7892 {300..<8192} s2 Map.empty"
    by (auto split: option.splits)
  with v0(1) s0(1) show ?thesis by blast
qed

end
