(* ===== verification/SfsMount.thy ===== *)
theory SfsMount
  imports SfsCache Vfs "HOL-Library.Multiset"
begin

text \<open>
  Mounting: \<^verbatim>\<open>kern/fs/sfs/sfs_fs.c\<close> and the mount operations of \<^verbatim>\<open>kern/fs/vfs/vfsdev.c\<close>. The fields of \<open>sfs_fs\<close>
  are the structure that \<^verbatim>\<open>sfs_do_mount\<close> fills in; the addresses of the objects it consists of are a \<open>mount_mem\<close>. The last
  property is durability: what \<^verbatim>\<open>sfs_sync\<close> leaves on the disk, a later mount reads back.
\<close>

section \<open>Writing back: sfs\_sync, sfs\_unmount, sfs\_cleanup\<close>

text \<open>The loop over the inode list ignores the results of \<^verbatim>\<open>vop_fsync\<close>.\<close>

partial_function (option) sync_loop :: "scell \<Rightarrow> 'z sfs_fs_scheme \<Rightarrow> 'z sfs_fs_scheme kernel" where
  "sync_loop le s =
     (case list_next (node_links s) le of
        InodeList \<Rightarrow> Some s
      | InodeLink p \<Rightarrow> do { (_, s1) \<leftarrow> vop_fsync p s; sync_loop (InodeLink p) s1 }
      | _ \<Rightarrow> panic)"

definition sfs_sync :: "'z sfs_fs_scheme \<Rightarrow> (int \<times> 'z sfs_fs_scheme) kernel" where
  "sfs_sync s = do {
     s1 \<leftarrow> lock_sfs_fs s;
     s2 \<leftarrow> sync_loop InodeList s1;
     let s3 = unlock_sfs_fs s2;
     if super_dirty s3 then do {
       (ret, s4) \<leftarrow> sfs_sync_super (s3\<lparr>super_dirty := False\<rparr>);
       if ret \<noteq> 0 then Some (ret, s4\<lparr>super_dirty := True\<rparr>)
       else do {
         (ret, s5) \<leftarrow> sfs_sync_freemap s4;
         if ret \<noteq> 0 then Some (ret, s5\<lparr>super_dirty := True\<rparr>) else Some (0, s5)
       }
     }
     else Some (0, s3)
   }"

record mount_mem =
  m_fs :: nat
  m_buffer :: nat
  m_hash :: nat
  m_bitmap :: nat
  m_map :: nat

definition bitmap_destroy :: "mount_mem \<Rightarrow> 'z sfs_fs_scheme \<Rightarrow> 'z sfs_fs_scheme" where
  "bitmap_destroy mm s = fs_free (m_bitmap mm) (fs_free (m_map mm) s)"

definition sfs_unmount :: "mount_mem \<Rightarrow> 'z sfs_fs_scheme \<Rightarrow> (int \<times> 'z sfs_fs_scheme) kernel" where
  "sfs_unmount mm s =
     (if \<not> list_empty (node_links s) InodeList then Some (- errno_of E_BUSY, s)
      else do {
        kassert (\<not> super_dirty s);
        Some (0, fs_free (m_fs mm) (fs_free (m_hash mm) (fs_free (m_buffer mm) (bitmap_destroy mm s))))
      })"

text \<open>\<^verbatim>\<open>sfs_cleanup\<close>; the warning after 32 failures is output.\<close>

fun cleanup_loop :: "nat \<Rightarrow> 'z sfs_fs_scheme \<Rightarrow> 'z sfs_fs_scheme kernel" where
  "cleanup_loop 0 s = Some s"
| "cleanup_loop (Suc n) s = do { (ret, s1) \<leftarrow> sfs_sync s; if ret = 0 then Some s1 else cleanup_loop n s1 }"

definition sfs_cleanup :: "'z sfs_fs_scheme \<Rightarrow> 'z sfs_fs_scheme kernel" where
  "sfs_cleanup = cleanup_loop 32"

section \<open>sfs\_do\_mount\<close>

abbreviation (input) SFS_HLIST_SIZE :: nat where "SFS_HLIST_SIZE \<equiv> 1024"
abbreviation (input) SFS_BLKBITS_SHIFT :: nat where "SFS_BLKBITS_SHIFT \<equiv> 15"

text \<open>The buffer is the object \<open>m\<close> with the offset \<open>base\<close>.\<close>

definition sfs_init_read :: "u32 \<Rightarrow> nat \<Rightarrow> mem \<Rightarrow> 'z sfs_fs_scheme \<Rightarrow> (int \<times> mem \<times> 'z sfs_fs_scheme) kernel" where
  "sfs_init_read blkno base m s = do {
     (ret, _, m', s') \<leftarrow> disk0_io False (iobuf_init base SFS_BLKSIZE (blkno * SFS_BLKSIZE)) m s;
     Some (ret, m', s')
   }"

fun init_freemap_loop :: "nat \<Rightarrow> u32 \<Rightarrow> nat \<Rightarrow> mem \<Rightarrow> 'z sfs_fs_scheme \<Rightarrow> (int \<times> mem \<times> 'z sfs_fs_scheme) kernel" where
  "init_freemap_loop 0 blkno base m s = Some (0, m, s)"
| "init_freemap_loop (Suc n) blkno base m s = do {
     (ret, m1, s1) \<leftarrow> sfs_init_read blkno base m s;
     if ret \<noteq> 0 then Some (ret, m1, s1) else init_freemap_loop n (blkno + 1) (base + 4096) m1 s1
   }"

definition sfs_init_freemap :: "bitmap \<Rightarrow> u32 \<Rightarrow> u32 \<Rightarrow> 'z sfs_fs_scheme \<Rightarrow> (int \<times> bitmap \<times> 'z sfs_fs_scheme) kernel" where
  "sfs_init_freemap fm blkno nblks s = do {
     let (data, len) = bitmap_getdata fm;
     kassert (len = nblks * SFS_BLKSIZE);
     (ret, m, s1) \<leftarrow> init_freemap_loop (unat nblks) blkno 0 (words_object data) s;
     Some (ret, fm\<lparr>bmap := map (\<lambda>i. load32 m (4 * i)) [0..<length data]\<rparr>, s1)
   }"

fun count_free :: "nat \<Rightarrow> u32 \<Rightarrow> bitmap \<Rightarrow> u32 \<Rightarrow> u32 kernel" where
  "count_free 0 i fm n = Some n"
| "count_free (Suc k) i fm n = do { t \<leftarrow> bitmap_test fm i; count_free k (i + 1) fm (if t then n + 1 else n) }"

text \<open>From the hash list on; \<open>fs\<close> and \<open>buf\<close> are already allocated.\<close>

definition mount_rest :: "nat \<Rightarrow> nat \<Rightarrow> 'z sfs_fs_scheme \<Rightarrow> (int \<times> mount_mem option \<times> 'z sfs_fs_scheme) kernel" where
  "mount_rest fs buf s =
     (let (h, s1) = fs_alloc s in
      case h of
        None \<Rightarrow> Some (- errno_of E_NO_MEM, None, fs_free fs (fs_free buf s1))
      | Some hash \<Rightarrow> do {
          let s2 = s1\<lparr>node_links := fold (\<lambda>i. list_init (HashList i)) [0..<SFS_HLIST_SIZE] (node_links s1)\<rparr>;
          let bits = ROUNDUP_2N (super_blocks s2) SFS_BLKBITS_SHIFT;
          let (b1, s3) = fs_alloc s2;
          let (b2, s4) = (if b1 = None then (None, s3) else fs_alloc s3);
          r \<leftarrow> bitmap_create (b1 \<noteq> None) (b2 \<noteq> None) bits;
          case r of
            None \<Rightarrow> Some (- errno_of E_NO_MEM, None, fs_free fs (fs_free buf (fs_free hash (case b1 of Some p \<Rightarrow> fs_free p s4 | None \<Rightarrow> s4))))
          | Some fm0 \<Rightarrow> do {
              let mm = \<lparr>m_fs = fs, m_buffer = buf, m_hash = hash, m_bitmap = the b1, m_map = the b2\<rparr>;
              let nblks = ROUNDUP_DIV_2N (super_blocks s4) SFS_BLKBITS_SHIFT;
              (ret, fm, s5) \<leftarrow> sfs_init_freemap fm0 2 nblks s4;
              let s6 = s5\<lparr>freemap := fm\<rparr>;
              if ret \<noteq> 0 then Some (ret, None, fs_free fs (fs_free buf (fs_free hash (bitmap_destroy mm s6))))
              else do {
                n \<leftarrow> count_free (unat bits) 0 fm 0;
                kassert (n = unused_blocks s6);
                Some (0, Some mm, s6\<lparr>super_dirty := False, sfs_fs_sem := 1, sfs_io_sem := 1, sfs_mutex_sem := 1,
                  node_links := list_init InodeList (node_links s6)\<rparr>)
              }
            }
        })"

definition sfs_do_mount :: "u32 \<Rightarrow> 'z sfs_fs_scheme \<Rightarrow> (int \<times> mount_mem option \<times> 'z sfs_fs_scheme) kernel" where
  "sfs_do_mount blocksize s =
     (if blocksize \<noteq> SFS_BLKSIZE then Some (- errno_of E_NA_DEV, None, s)
      else let (a, s1) = fs_alloc s in
      case a of
        None \<Rightarrow> Some (- errno_of E_NO_MEM, None, s1)
      | Some fs \<Rightarrow>
        (let (b, s2) = fs_alloc s1 in
         case b of
           None \<Rightarrow> Some (- errno_of E_NO_MEM, None, fs_free fs s2)
         | Some buf \<Rightarrow> do {
             (ret, m, s3) \<leftarrow> sfs_init_read 0 0 (sfs_buffer s2) s2;
             let s4 = s3\<lparr>sfs_buffer := m\<rparr>;
             if ret \<noteq> 0 then Some (ret, None, fs_free fs (fs_free buf s4))
             else if load32 m 0 \<noteq> SFS_MAGIC then Some (- errno_of E_INVAL, None, fs_free fs (fs_free buf s4))
             else if load32 m 4 > d_blocks s4 then Some (- errno_of E_INVAL, None, fs_free fs (fs_free buf s4))
             else let m1 = m(12 + 31 := 0)
               in mount_rest fs buf (s4\<lparr>sfs_buffer := m1, super_blocks := load32 m1 4, unused_blocks := load32 m1 8,
                    super_info := obj_copy 0 12 32 m1 (super_info s4)\<rparr>)
           }))"

section \<open>Mounting on a named device\<close>

text \<open>Only \<^verbatim>\<open>sfs_do_mount\<close> is ever passed as the mount function.\<close>

definition vfs_mount :: "u8 list \<Rightarrow> 'z vfs_scheme \<Rightarrow> (int \<times> mount_mem option \<times> 'z vfs_scheme) kernel" where
  "vfs_mount devname s = do {
     s1 \<leftarrow> lock_vdev_list s;
     w \<leftarrow> find_mount devname s1;
     case w of
       None \<Rightarrow> Some (- errno_of E_NO_DEV, None, unlock_vdev_list s1)
     | Some d \<Rightarrow>
         if vd_fs (vdevs s1 d) then Some (- errno_of E_BUSY, None, unlock_vdev_list s1)
         else do {
           kassert (vd_mountable (vdevs s1 d));
           case vd_devnode (vdevs s1 d) of
             Some (DevNode k) \<Rightarrow> do {
               (ret, mm, f) \<leftarrow> sfs_do_mount (dev_blocksize (dn_kind (dev_nodes s1 k))) (sfs s1);
               let s2 = s1\<lparr>sfs := f\<rparr>;
               let s3 = (if ret = 0 then s2\<lparr>vdevs := (vdevs s2)(d := (vdevs s2 d)\<lparr>vd_fs := True\<rparr>)\<rparr> else s2);
               Some (ret, mm, unlock_vdev_list s3)
             }
           | _ \<Rightarrow> panic
         }
   }"

definition sfs_mount :: "u8 list \<Rightarrow> 'z vfs_scheme \<Rightarrow> (int \<times> mount_mem option \<times> 'z vfs_scheme) kernel" where
  "sfs_mount devname s = vfs_mount devname s"

text \<open>\<open>mm\<close> are the objects of the file system mounted on the device.\<close>

definition vfs_unmount :: "mount_mem \<Rightarrow> u8 list \<Rightarrow> 'z vfs_scheme \<Rightarrow> (int \<times> 'z vfs_scheme) kernel" where
  "vfs_unmount mm devname s = do {
     s1 \<leftarrow> lock_vdev_list s;
     w \<leftarrow> find_mount devname s1;
     case w of
       None \<Rightarrow> Some (- errno_of E_NO_DEV, unlock_vdev_list s1)
     | Some d \<Rightarrow>
         if \<not> vd_fs (vdevs s1 d) then Some (- errno_of E_INVAL, unlock_vdev_list s1)
         else do {
           kassert (vd_mountable (vdevs s1 d));
           (ret, f) \<leftarrow> sfs_sync (sfs s1);
           let s2 = s1\<lparr>sfs := f\<rparr>;
           if ret \<noteq> 0 then Some (ret, unlock_vdev_list s2)
           else do {
             (ret, f) \<leftarrow> sfs_unmount mm (sfs s2);
             let s3 = s2\<lparr>sfs := f\<rparr>;
             Some (ret, unlock_vdev_list (if ret = 0 then s3\<lparr>vdevs := (vdevs s3)(d := (vdevs s3 d)\<lparr>vd_fs := False\<rparr>)\<rparr> else s3))
           }
         }
   }"

text \<open>The loop of \<^verbatim>\<open>vfs_unmount_all\<close>, which goes on to the next device after a failure.\<close>

partial_function (option) unmount_loop :: "mount_mem \<Rightarrow> nat option \<Rightarrow> 'z vfs_scheme \<Rightarrow> 'z vfs_scheme kernel" where
  "unmount_loop mm le s =
     (case list_next (vdev_links s) le of
        None \<Rightarrow> Some s
      | Some d \<Rightarrow>
          if vd_mountable (vdevs s d) \<and> vd_fs (vdevs s d) then do {
            (ret, f) \<leftarrow> sfs_sync (sfs s);
            let s1 = s\<lparr>sfs := f\<rparr>;
            if ret \<noteq> 0 then unmount_loop mm (Some d) s1
            else do {
              (ret, f) \<leftarrow> sfs_unmount mm (sfs s1);
              let s2 = s1\<lparr>sfs := f\<rparr>;
              if ret \<noteq> 0 then unmount_loop mm (Some d) s2
              else unmount_loop mm (Some d) (s2\<lparr>vdevs := (vdevs s2)(d := (vdevs s2 d)\<lparr>vd_fs := False\<rparr>)\<rparr>)
            }
          }
          else unmount_loop mm (Some d) s)"

definition vfs_unmount_all :: "mount_mem \<Rightarrow> 'z vfs_scheme \<Rightarrow> (int \<times> 'z vfs_scheme) kernel" where
  "vfs_unmount_all mm s =
     (if \<not> list_empty (vdev_links s) None then do {
        s1 \<leftarrow> lock_vdev_list s;
        s2 \<leftarrow> unmount_loop mm None s1;
        Some (0, unlock_vdev_list s2)
      }
      else Some (0, s))"

section \<open>Runs of blocks\<close>

lemma rwblock_loop_write:
  fixes s :: "'z sfs_fs_scheme"
  assumes "disk_ok s" and "unat (super_blocks s) \<le> unat (d_blocks s)" and "b \<noteq> 0" and "unat b + n \<le> unat (super_blocks s)"
  shows "\<exists>s'. rwblock_loop True n base b m s = Some (0, m, s') \<and> s' = s\<lparr>disk0_buffer := disk0_buffer s', rd := rd s'\<rparr> \<and>
    rd s' = obj_copy (unat b * 4096) base (n * 4096) m (rd s)"
  using assms
proof (induction n arbitrary: base b s)
  case 0
  have "obj_copy (unat b * 4096) base (0 * 4096) m (rd s) = rd s" by (rule ext) (auto simp: obj_copy_def)
  then show ?case by (intro exI [of _ s]) simp
next
  case (Suc n)
  have b: "b < super_blocks s" using Suc.prems(4) by (simp add: word_less_nat_alt)
  obtain s1 where s1: "sfs_rwblock_nolock base b True True m s = Some (0, m, s1)" "s1 = s\<lparr>disk0_buffer := disk0_buffer s1, rd := rd s1\<rparr>"
    "rd s1 = obj_copy (unat b * 4096) base 4096 m (rd s)"
    using rwblock_spec [OF Suc.prems(1,2) _ b, of True base True m] Suc.prems(3) by auto
  have f: "disk_ok s1" "super_blocks s1 = super_blocks s" "d_blocks s1 = d_blocks s"
    using Suc.prems(1) by (subst s1(2), simp add: disk_ok_def)+
  have lt: "unat b + 1 < 2 ^ 32" using Suc.prems(4) unat_u32_bound [of "super_blocks s"] by simp
  then have b1: "unat (b + 1) = unat b + 1" by (subst unat_add_u32) simp_all
  then have "b + 1 \<noteq> 0" by (metis Suc_eq_plus1 nat.simps(3) unat_0)
  then obtain s2 where s2: "rwblock_loop True n (base + 4096) (b + 1) m s1 = Some (0, m, s2)" "s2 = s1\<lparr>disk0_buffer := disk0_buffer s2, rd := rd s2\<rparr>"
    "rd s2 = obj_copy (unat (b + 1) * 4096) (base + 4096) (n * 4096) m (rd s1)"
    using Suc.IH [of s1 "b + 1" "base + 4096"] f Suc.prems(2,4) b1 by auto
  have "rd s2 = obj_copy (unat b * 4096) base (Suc n * 4096) m (rd s)" unfolding s2(3) s1(3) b1 by (rule ext) (auto simp: obj_copy_def)
  moreover have "s2 = s\<lparr>disk0_buffer := disk0_buffer s2, rd := rd s2\<rparr>" by (subst s2(2), subst s1(2)) simp
  ultimately show ?case using s1(1) s2(1) by (intro exI [of _ s2]) simp
qed

lemma init_read_spec:
  fixes s :: "'z sfs_fs_scheme"
  assumes ok: "disk_ok s" and b: "unat b < unat (d_blocks s)"
  shows "\<exists>s'. sfs_init_read b base m s = Some (0, obj_copy base (unat b * 4096) 4096 (rd s) m, s') \<and> s' = s\<lparr>disk0_buffer := disk0_buffer s'\<rparr>"
proof -
  have db: "unat (d_blocks s) < 2 ^ 19" using ok by (simp add: disk_ok_def)
  then have u: "unat (b * 4096) = unat b * 4096" using b by (subst unat_mult_u32) simp_all
  let ?iob = "iobuf_init base 4096 (b * 4096)"
  have o: "unat (io_offset ?iob) < 2 ^ 31" using b db u by (simp add: iobuf_init_def)
  have "\<not> (unat (io_offset ?iob) mod 4096 \<noteq> 0 \<or> unat (io_resid ?iob) mod 4096 \<noteq> 0 \<or>
      unat (io_offset ?iob) div 4096 + unat (io_resid ?iob) div 4096 > unat (d_blocks s))" using b u by (simp add: iobuf_init_def)
  with disk0_io_cases [OF ok o, of False m] obtain s' where
    "disk0_io False ?iob m s = Some (0, iob_after (io_resid ?iob) ?iob, obj_copy (io_base ?iob) (unat (io_offset ?iob) div 4096 * 4096) (unat (io_resid ?iob)) (rd s) m, s')"
    "s' = s\<lparr>disk0_buffer := disk0_buffer s', rd := rd s'\<rparr>" "rd s' = rd s"
    by (auto split: if_splits)
  then show ?thesis using u by (intro exI [of _ s']) (simp add: sfs_init_read_def iobuf_init_def)
qed

lemma init_freemap_loop_spec:
  fixes s :: "'z sfs_fs_scheme"
  assumes "disk_ok s" and "unat b + n \<le> unat (d_blocks s)"
  shows "\<exists>s'. init_freemap_loop n b base m s = Some (0, obj_copy base (unat b * 4096) (n * 4096) (rd s) m, s') \<and> s' = s\<lparr>disk0_buffer := disk0_buffer s'\<rparr>"
  using assms
proof (induction n arbitrary: base b m s)
  case 0
  have "obj_copy base (unat b * 4096) 0 (rd s) m = m" by (rule ext) (auto simp: obj_copy_def)
  then show ?case by (intro exI [of _ s]) simp
next
  case (Suc n)
  let ?m = "obj_copy base (unat b * 4096) 4096 (rd s) m"
  obtain s1 where s1: "sfs_init_read b base m s = Some (0, ?m, s1)" "s1 = s\<lparr>disk0_buffer := disk0_buffer s1\<rparr>"
    using init_read_spec [OF Suc.prems(1), of b base m] Suc.prems(2) by auto
  have f: "disk_ok s1" "d_blocks s1 = d_blocks s" "rd s1 = rd s" using Suc.prems(1) by (subst s1(2), simp add: disk_ok_def)+
  have "unat b + 1 < 2 ^ 32" using Suc.prems unat_u32_bound [of "d_blocks s"] by simp
  then have b1: "unat (b + 1) = unat b + 1" by (subst unat_add_u32) simp_all
  obtain s2 where s2: "init_freemap_loop n (b + 1) (base + 4096) ?m s1 = Some (0, obj_copy (base + 4096) (unat (b + 1) * 4096) (n * 4096) (rd s1) ?m, s2)"
    "s2 = s1\<lparr>disk0_buffer := disk0_buffer s2\<rparr>"
    using Suc.IH [of s1 "b + 1" "base + 4096" ?m] f Suc.prems(2) b1 by auto
  have "obj_copy (base + 4096) (unat (b + 1) * 4096) (n * 4096) (rd s1) ?m = obj_copy base (unat b * 4096) (Suc n * 4096) (rd s) m"
    unfolding b1 f(3) by (rule ext) (auto simp: obj_copy_def)
  moreover have "s2 = s\<lparr>disk0_buffer := disk0_buffer s2\<rparr>" by (subst s2(2), subst s1(2)) simp
  ultimately show ?case using s1(1) s2(1) by (intro exI [of _ s2]) simp
qed

lemma words_object_load: "i < length ws \<Longrightarrow> load32 (words_object ws) (4 * i) = ws ! i"
proof (rule load32_bytes)
  fix k :: nat assume i: "i < length ws" and k: "k < 4"
  have "(4 * i + k) div 4 = i" "(4 * i + k) mod 4 = k" using k by (simp_all add: div_mult_self4)
  with i show "words_object ws (4 * i + k) = word_byte (ws ! i) k" by (simp add: words_object_def)
qed

lemma words_object_read:
  assumes "\<And>a. a < 4 * length ws \<Longrightarrow> m a = words_object ws a" and "n = length ws"
  shows "map (\<lambda>i. load32 m (4 * i)) [0..<n] = ws"
proof (rule nth_equalityI)
  fix i assume i: "i < length (map (\<lambda>i. load32 m (4 * i)) [0..<n])"
  have "load32 m (4 * i) = load32 (words_object ws) (4 * i)" by (rule load32_cong) (use assms i in simp)
  with i assms(2) show "map (\<lambda>i. load32 m (4 * i)) [0..<n] ! i = ws ! i" by (simp add: words_object_load)
qed (use assms(2) in simp)

section \<open>The loop over the cached inodes\<close>

text \<open>What a consistent cache promises of the inodes in it.\<close>

definition synced_ok :: "'z sfs_fs_scheme \<Rightarrow> nat \<Rightarrow> bool" where
  "synced_ok s p \<longleftrightarrow> sin_sem (nodes s p) = 1 \<and> sin_ino (nodes s p) \<noteq> 0 \<and> sin_ino (nodes s p) < super_blocks s \<and>
     inode_check p s = Some () \<and> din_wf (din (nodes s p)) \<and>
     (\<not> sin_dirty (nodes s p) \<longrightarrow> disk_din s (sin_ino (nodes s p)) = din (nodes s p))"

text \<open>The frame of the loop: only dirty flags and the blocks of the inodes \<open>vs\<close> change.\<close>

definition sync_frame :: "nat list \<Rightarrow> 'z sfs_fs_scheme \<Rightarrow> 'z sfs_fs_scheme \<Rightarrow> bool" where
  "sync_frame vs s s' \<longleftrightarrow> keeps s s' \<and> freemap s' = freemap s \<and> unused_blocks s' = unused_blocks s \<and> super_dirty s' = super_dirty s \<and>
     fs_kfreed s' = fs_kfreed s \<and>
     nodes s' = (\<lambda>p. if p \<in> set vs then (nodes s p)\<lparr>sin_dirty := False\<rparr> else nodes s p) \<and>
     (\<forall>a. a div 4096 \<notin> (\<lambda>p. unat (sin_ino (nodes s p))) ` set vs \<longrightarrow> rd s' a = rd s a)"

lemma disk_din_block: "(\<And>a. a div 4096 = unat n \<Longrightarrow> rd s' a = rd s a) \<Longrightarrow> disk_din s' n = disk_din s n"
  unfolding disk_din_def by (rule load_din_cong) simp

lemma sync_loop_spec:
  fixes s :: "'z sfs_fs_scheme"
  assumes "sfs_ok s" and "ring (node_links s) InodeList (map InodeLink (us @ vs))" and "\<forall>p \<in> set vs. synced_ok s p"
    and "distinct vs" and "distinct (map (\<lambda>p. sin_ino (nodes s p)) vs)"
  shows "\<exists>s'. sync_loop (last (InodeList # map InodeLink us)) s = Some s' \<and> sfs_ok s' \<and> sync_frame vs s s' \<and>
    (\<forall>p \<in> set vs. disk_din s' (sin_ino (nodes s p)) = din (nodes s p))"
  using assms
proof (induction vs arbitrary: us s)
  case Nil
  have "list_next (node_links s) (last (InodeList # map InodeLink us)) = InodeList"
    using ring_next [of "node_links s" InodeList "map InodeLink us" "[]"] Nil.prems(2) by (simp del: last.simps)
  then have "sync_loop (last (InodeList # map InodeLink us)) s = Some s" by (subst sync_loop.simps) (simp del: last.simps)
  then show ?case using Nil.prems(1) by (intro exI [of _ s]) (simp add: sync_frame_def)
next
  case (Cons v vs)
  let ?n = "sin_ino (nodes s v)" and ?x = "din (nodes s v)"
  have nx: "list_next (node_links s) (last (InodeList # map InodeLink us)) = InodeLink v"
    using ring_next [of "node_links s" InodeList "map InodeLink us" "InodeLink v # map InodeLink vs"] Cons.prems(2) by (simp del: last.simps)
  have v: "sin_sem (nodes s v) = 1" "?n \<noteq> 0" "?n < super_blocks s" "inode_check v s = Some ()" "din_wf ?x"
    "\<not> sin_dirty (nodes s v) \<Longrightarrow> disk_din s ?n = ?x" using Cons.prems(3) by (auto simp: synced_ok_def)
  obtain s1 where s1: "sfs_fsync v s = Some (0, s1)" "keeps s s1" "sfs_ok s1" "fs_kfreed s1 = fs_kfreed s" "freemap s1 = freemap s"
    "unused_blocks s1 = unused_blocks s" "super_dirty s1 = super_dirty s" "nodes s1 = (nodes s)(v := (nodes s v)\<lparr>sin_dirty := False\<rparr>)"
    "rd s1 = (if sin_dirty (nodes s v) then obj_copy (unat ?n * 4096) 0 64 (din_object ?x) (rd s) else rd s)"
    using fsync_spec [OF Cons.prems(1) v(1-3)] by blast
  have off: "rd s1 a = rd s a" if "a div 4096 \<noteq> unat ?n" for a
    using s1(9) that by (auto simp: obj_copy_def)
  have here: "disk_din s1 ?n = ?x"
  proof (cases "sin_dirty (nodes s v)")
    case True
    have "disk_din s1 ?n = load_din (din_object ?x)" unfolding disk_din_def by (rule load_din_cong) (use s1(9) True in \<open>simp add: obj_copy_def\<close>)
    then show ?thesis using load_din_object [OF v(5)] by simp
  qed (use s1(9) v(6) in \<open>simp add: disk_din_def\<close>)
  have ino: "sin_ino (nodes s1 p) = sin_ino (nodes s p)" "din (nodes s1 p) = din (nodes s p)" for p by (simp_all add: s1(8))
  have other: "unat (sin_ino (nodes s p)) \<noteq> unat ?n" if "p \<in> set vs" for p
  proof -
    have "?n \<notin> (\<lambda>p. sin_ino (nodes s p)) ` set vs" using Cons.prems(5) by simp
    moreover have "sin_ino (nodes s p) \<in> (\<lambda>p. sin_ino (nodes s p)) ` set vs" using that by (rule imageI)
    ultimately have "sin_ino (nodes s p) \<noteq> ?n" by metis
    then show ?thesis by (simp add: word_unat_eq_iff)
  qed
  have nv: "v \<notin> set vs" "distinct vs" using Cons.prems(4) by simp_all
  have "\<forall>p \<in> set vs. synced_ok s1 p"
  proof
    fix p assume p: "p \<in> set vs"
    then have "p \<noteq> v" using nv by blast
    then have "nodes s1 p = nodes s p" by (simp add: s1(8))
    moreover have "disk_din s1 (sin_ino (nodes s p)) = disk_din s (sin_ino (nodes s p))"
      by (rule disk_din_block) (use off other [OF p] in simp)
    ultimately show "synced_ok s1 p" using Cons.prems(3) p keepsD(2) [OF s1(2)] by (simp add: synced_ok_def inode_check_def)
  qed
  moreover have "ring (node_links s1) InodeList (map InodeLink ((us @ [v]) @ vs))" using Cons.prems(2) keepsD(9) [OF s1(2)] by simp
  moreover have "distinct (map (\<lambda>p. sin_ino (nodes s1 p)) vs)" using Cons.prems(5) by (simp add: ino)
  ultimately obtain s2 where s2: "sync_loop (last (InodeList # map InodeLink (us @ [v]))) s1 = Some s2" "sfs_ok s2" "sync_frame vs s1 s2"
    "\<forall>p \<in> set vs. disk_din s2 (sin_ino (nodes s1 p)) = din (nodes s1 p)"
    using Cons.IH [OF s1(3)] nv(2) by blast
  have fr: "keeps s1 s2" "freemap s2 = freemap s1" "unused_blocks s2 = unused_blocks s1" "super_dirty s2 = super_dirty s1" "fs_kfreed s2 = fs_kfreed s1"
    "nodes s2 = (\<lambda>p. if p \<in> set vs then (nodes s1 p)\<lparr>sin_dirty := False\<rparr> else nodes s1 p)"
    "a div 4096 \<notin> (\<lambda>p. unat (sin_ino (nodes s1 p))) ` set vs \<Longrightarrow> rd s2 a = rd s1 a" for a
    using s2(3) unfolding sync_frame_def by blast+
  have "sync_loop (last (InodeList # map InodeLink us)) s = Some s2"
  proof -
    have "last (InodeList # map InodeLink (us @ [v])) = InodeLink v" by simp
    then have "sync_loop (InodeLink v) s1 = Some s2" using s2(1) by (simp only:)
    then show ?thesis using nx s1(1) v(4) by (subst sync_loop.simps) (simp add: vop_fsync_def del: last.simps)
  qed
  moreover have "sync_frame (v # vs) s s2"
    unfolding sync_frame_def
  proof (intro conjI allI impI)
    show "nodes s2 = (\<lambda>p. if p \<in> set (v # vs) then (nodes s p)\<lparr>sin_dirty := False\<rparr> else nodes s p)"
      by (rule ext) (use nv(1) in \<open>simp add: fr(6) s1(8)\<close>)
    fix a assume "a div 4096 \<notin> (\<lambda>p. unat (sin_ino (nodes s p))) ` set (v # vs)"
    then show "rd s2 a = rd s a" using fr(7) [of a] off [of a] by (simp add: ino)
  qed (use keeps_trans [OF s1(2) fr(1)] s1(4-7) fr(2-5) in simp_all)
  moreover have "disk_din s2 ?n = ?x"
  proof -
    have "disk_din s2 ?n = disk_din s1 ?n"
      by (rule disk_din_block) (rule fr(7), use other in \<open>force simp: ino\<close>)
    with here show ?thesis by simp
  qed
  ultimately show ?case using s2(2,4) by (intro exI [of _ s2]) (simp add: ino)
qed

section \<open>The super block and the free map on the disk\<close>

text \<open>The layout that the macros \<^verbatim>\<open>sfs_freemap_bits\<close> and \<^verbatim>\<open>sfs_freemap_blocks\<close> compute: the free map fills whole blocks from block 2 on.\<close>

definition layout_ok :: "'z sfs_fs_scheme \<Rightarrow> bool" where
  "layout_ok s \<longleftrightarrow> 0 < unat (super_blocks s) \<and> length (bmap (freemap s)) = 1024 * ((unat (super_blocks s) + 32767) div 32768) \<and>
     unat (nbits (freemap s)) = 32 * length (bmap (freemap s)) \<and> 2 + (unat (super_blocks s) + 32767) div 32768 \<le> unat (super_blocks s)"

abbreviation (input) nfm :: "u32 \<Rightarrow> nat" where "nfm blocks \<equiv> (unat blocks + 32767) div 32768"

text \<open>The disk \<open>r\<close> holds a super block with these fields and the words \<open>ws\<close> as free map.\<close>

definition super_on_disk :: "mem \<Rightarrow> u32 \<Rightarrow> u32 \<Rightarrow> u32 list \<Rightarrow> bool" where
  "super_on_disk r blocks unused ws \<longleftrightarrow> load32 r 0 = SFS_MAGIC \<and> load32 r 4 = blocks \<and> load32 r 8 = unused \<and>
     length ws = 1024 * nfm blocks \<and> (\<forall>a < 4096 * nfm blocks. r (8192 + a) = words_object ws a)"

lemma nfm_blocks: "unat blocks < 2 ^ 31 \<Longrightarrow> unat (ROUNDUP_DIV_2N blocks 15) = nfm blocks" "unat blocks < 2 ^ 31 \<Longrightarrow> unat (ROUNDUP_2N blocks 15) = 32768 * nfm blocks"
  using unat_ROUNDUP_DIV_2N [of 15 blocks] unat_ROUNDUP_2N [of 15 blocks] by simp_all

lemma super_object_loads: "load32 (super_object s) 0 = SFS_MAGIC" "load32 (super_object s) 4 = super_blocks s" "load32 (super_object s) 8 = unused_blocks s"
  "k < 32 \<Longrightarrow> super_object s (12 + k) = super_info s k"
  by (simp_all add: super_object_def load32_store32_other) (simp add: store32_def obj_copy_def)

lemma sync_super_spec:
  fixes s :: "'z sfs_fs_scheme"
  assumes ok: "sfs_ok s" and b: "0 < super_blocks s"
  shows "\<exists>s'. sfs_sync_super s = Some (0, s') \<and> s' = s\<lparr>disk0_buffer := disk0_buffer s', rd := rd s', sfs_buffer := sfs_buffer s'\<rparr> \<and>
    (\<forall>a < 44. rd s' a = super_object s a) \<and> (\<forall>a \<ge> 4096. rd s' a = rd s a)"
proof -
  let ?s1 = "s\<lparr>sfs_io_sem := 0\<rparr>"
  let ?buf = "obj_copy 0 0 44 (super_object ?s1) (snd (memset 0 0 4096 (sfs_buffer ?s1)))"
  have so: "super_object ?s1 = super_object s" by (simp add: super_object_def)
  obtain s2 where s2: "sfs_rwblock_nolock 0 0 True False ?buf ?s1 = Some (0, ?buf, s2)"
    "s2 = ?s1\<lparr>disk0_buffer := disk0_buffer s2, rd := rd s2\<rparr>" "rd s2 = obj_copy 0 0 4096 ?buf (rd s)"
    using rwblock_spec [of ?s1 0 False 0 True ?buf] sfs_ok_disk [OF ok] b by (auto simp: disk_ok_def)
  let ?s' = "s\<lparr>disk0_buffer := disk0_buffer s2, rd := rd s2, sfs_buffer := ?buf\<rparr>"
  have "unlock_sfs_io (s2\<lparr>sfs_buffer := ?buf\<rparr>) = ?s'" by (rule unlock_io_frame [OF s2(2) sfs_ok_disk(3) [OF ok]])
  then have "sfs_sync_super s = Some (0, ?s')"
    unfolding sfs_sync_super_def lock_io [OF sfs_ok_disk(3) [OF ok]] using s2(1) by (simp add: Let_def)
  then show ?thesis using s2(3) by (intro exI [of _ ?s']) (simp add: obj_copy_def so)
qed

lemma sync_freemap_spec:
  fixes s :: "'z sfs_fs_scheme"
  assumes ok: "sfs_ok s" and l: "layout_ok s"
  shows "\<exists>s'. sfs_sync_freemap s = Some (0, s') \<and> s' = s\<lparr>disk0_buffer := disk0_buffer s', rd := rd s'\<rparr> \<and>
    rd s' = obj_copy 8192 0 (4096 * nfm (super_blocks s)) (words_object (bmap (freemap s))) (rd s)"
proof -
  let ?s1 = "s\<lparr>sfs_io_sem := 0\<rparr>" and ?w = "words_object (bmap (freemap s))" and ?n = "nfm (super_blocks s)"
  have db: "unat (super_blocks s) < 2 ^ 31" using ok by (simp add: sfs_ok_def disk_ok_def)
  have "2 + ?n \<le> unat (super_blocks s)" using l by (simp add: layout_ok_def)
  then obtain s2 where s2: "rwblock_loop True ?n 0 2 ?w ?s1 = Some (0, ?w, s2)" "s2 = ?s1\<lparr>disk0_buffer := disk0_buffer s2, rd := rd s2\<rparr>"
    "rd s2 = obj_copy 8192 0 (?n * 4096) ?w (rd s)"
    using rwblock_loop_write [of ?s1 2 ?n 0 ?w] sfs_ok_disk [OF ok] by (auto simp: disk_ok_def)
  let ?s' = "s\<lparr>disk0_buffer := disk0_buffer s2, rd := rd s2\<rparr>"
  have "unlock_sfs_io s2 = ?s'" unfolding unlock_sfs_io_def by (subst s2(2), subst (2) s2(2)) (simp add: sfs_ok_disk(3) [OF ok])
  then have "sfs_sync_freemap s = Some (0, ?s')"
    unfolding sfs_sync_freemap_def sfs_wblock_def sfs_rwblock_def lock_io [OF sfs_ok_disk(3) [OF ok]]
    using s2(1) nfm_blocks(1) [OF db] by (simp add: Let_def bitmap_getdata_def)
  then show ?thesis using s2(3) by (intro exI [of _ ?s']) (simp add: mult.commute)
qed

lemma super_on_disk_cong:
  assumes "super_on_disk r blocks unused ws" and "\<And>a. a div 4096 = 0 \<or> 2 \<le> a div 4096 \<and> a div 4096 < 2 + nfm blocks \<Longrightarrow> r' a = r a"
  shows "super_on_disk r' blocks unused ws"
proof -
  have "load32 r' a = load32 r a" if "a < 12" for a by (rule load32_cong) (use assms(2) that in simp)
  moreover have "r' (8192 + a) = r (8192 + a)" if "a < 4096 * nfm blocks" for a
  proof (rule assms(2))
    have d: "(8192 + a) div 4096 = 2 + a div 4096" by (simp add: div_add1_eq)
    have "a div 4096 < nfm blocks" using that by (simp add: less_mult_imp_div_less mult.commute)
    with d show "(8192 + a) div 4096 = 0 \<or> 2 \<le> (8192 + a) div 4096 \<and> (8192 + a) div 4096 < 2 + nfm blocks" by simp
  qed
  ultimately show ?thesis using assms(1) by (simp add: super_on_disk_def)
qed

text \<open>Inodes do not lie in the blocks of the super block and the free map.\<close>

definition inode_place :: "'z sfs_fs_scheme \<Rightarrow> nat \<Rightarrow> bool" where
  "inode_place s p \<longleftrightarrow> \<not> (2 \<le> unat (sin_ino (nodes s p)) \<and> unat (sin_ino (nodes s p)) < 2 + nfm (super_blocks s))"

lemma sync_spec:
  fixes s :: "'z sfs_fs_scheme"
  assumes ok: "sfs_ok s" "layout_ok s" "sfs_fs_sem s = 1" and c: "cache s L" "\<forall>p \<in> set L. synced_ok s p \<and> inode_place s p"
    and d: "super_dirty s \<or> super_on_disk (rd s) (super_blocks s) (unused_blocks s) (bmap (freemap s))"
  shows "\<exists>s'. sfs_sync s = Some (0, s') \<and> sfs_ok s' \<and> layout_ok s' \<and> \<not> super_dirty s' \<and> freemap s' = freemap s \<and> super_blocks s' = super_blocks s \<and>
    unused_blocks s' = unused_blocks s \<and> super_on_disk (rd s') (super_blocks s) (unused_blocks s) (bmap (freemap s)) \<and>
    (\<forall>p \<in> set L. \<not> sin_dirty (nodes s' p) \<and> disk_din s' (sin_ino (nodes s p)) = din (nodes s p)) \<and> node_links s' = node_links s \<and> d_blocks s' = d_blocks s \<and>
    (\<forall>a. a div 4096 \<notin> (\<lambda>p. unat (sin_ino (nodes s p))) ` set L \<and> 1 \<le> a div 4096 \<and> \<not> (2 \<le> a div 4096 \<and> a div 4096 < 2 + nfm (super_blocks s)) \<longrightarrow> rd s' a = rd s a)"
proof -
  let ?s1 = "s\<lparr>sfs_fs_sem := 0\<rparr>"
  have r: "ring (node_links ?s1) InodeList (map InodeLink ([] @ L))" "distinct L" "distinct (map (\<lambda>p. sin_ino (nodes ?s1 p)) L)"
    using c(1) by (simp_all add: cache_def)
  have ok1: "sfs_ok ?s1" using ok(1) by (simp add: sfs_ok_def disk_ok_def fs_free_blocks_def)
  have "\<forall>p \<in> set L. synced_ok ?s1 p" using c(2) by (simp add: synced_ok_def inode_check_def disk_din_def)
  from sync_loop_spec [OF ok1 r(1) this r(2,3)] obtain s2 where s2: "sync_loop InodeList ?s1 = Some s2" "sfs_ok s2" "sync_frame L ?s1 s2"
    "\<forall>p \<in> set L. disk_din s2 (sin_ino (nodes s p)) = din (nodes s p)" by auto
  let ?s3 = "unlock_sfs_fs s2"
  have k: "keeps ?s1 s2" "freemap s2 = freemap s" "unused_blocks s2 = unused_blocks s" "super_dirty s2 = super_dirty s"
    "nodes s2 = (\<lambda>p. if p \<in> set L then (nodes s p)\<lparr>sin_dirty := False\<rparr> else nodes s p)"
    "\<forall>a. a div 4096 \<notin> (\<lambda>p. unat (sin_ino (nodes s p))) ` set L \<longrightarrow> rd s2 a = rd s a"
    using s2(3) by (simp_all add: sync_frame_def cong: if_cong)
  have sb: "super_blocks s2 = super_blocks s" "node_links s2 = node_links s" "d_blocks s2 = d_blocks s" using keepsD [OF k(1)] by simp_all
  have ok3: "sfs_ok ?s3" "layout_ok ?s3"
    using s2(2) ok(2) k(2) sb by (simp_all add: unlock_sfs_fs_def sfs_ok_def disk_ok_def fs_free_blocks_def layout_ok_def)
  have clean: "\<forall>p \<in> set L. \<not> sin_dirty (nodes s2 p)" by (simp add: k(5))
  have start: "sfs_sync s = (if super_dirty ?s3 then do {
       (ret, s4) \<leftarrow> sfs_sync_super (?s3\<lparr>super_dirty := False\<rparr>);
       if ret \<noteq> 0 then Some (ret, s4\<lparr>super_dirty := True\<rparr>)
       else do {
         (ret, s5) \<leftarrow> sfs_sync_freemap s4;
         if ret \<noteq> 0 then Some (ret, s5\<lparr>super_dirty := True\<rparr>) else Some (0, s5)
       }
     } else Some (0, ?s3))"
    unfolding sfs_sync_def using ok(3) s2(1) by (simp add: lock_sfs_fs_def sem_take_def)
  show ?thesis
  proof (cases "super_dirty s")
    case False
    then have "super_on_disk (rd s) (super_blocks s) (unused_blocks s) (bmap (freemap s))" using d by simp
    then have "super_on_disk (rd s2) (super_blocks s) (unused_blocks s) (bmap (freemap s))"
    proof (rule super_on_disk_cong)
      fix a assume a: "a div 4096 = 0 \<or> 2 \<le> a div 4096 \<and> a div 4096 < 2 + nfm (super_blocks s)"
      have "a div 4096 \<notin> (\<lambda>p. unat (sin_ino (nodes s p))) ` set L"
      proof
        assume "a div 4096 \<in> (\<lambda>p. unat (sin_ino (nodes s p))) ` set L"
        then obtain p where p: "p \<in> set L" "a div 4096 = unat (sin_ino (nodes s p))" by blast
        then have "sin_ino (nodes s p) \<noteq> 0" "inode_place s p" using c(2) by (auto simp: synced_ok_def)
        with p(2) a show False by (auto simp: inode_place_def unat_eq_0)
      qed
      then show "rd s2 a = rd s a" using k(6) by blast
    qed
    moreover have "sfs_sync s = Some (0, ?s3)" using start k(4) False by (simp add: unlock_sfs_fs_def)
    ultimately show ?thesis using ok3 k(2-4,6) sb s2(4) clean False by (intro exI [of _ ?s3]) (simp add: unlock_sfs_fs_def disk_din_def)
  next
    case True
    let ?s4 = "?s3\<lparr>super_dirty := False\<rparr>"
    have ok4: "sfs_ok ?s4" "layout_ok ?s4" using ok3 by (simp_all add: sfs_ok_def disk_ok_def fs_free_blocks_def layout_ok_def)
    have "0 < super_blocks ?s4" using ok(2) sb by (simp add: layout_ok_def unlock_sfs_fs_def word_less_nat_alt)
    from sync_super_spec [OF ok4(1) this] obtain s5 where s5: "sfs_sync_super ?s4 = Some (0, s5)"
      "s5 = ?s4\<lparr>disk0_buffer := disk0_buffer s5, rd := rd s5, sfs_buffer := sfs_buffer s5\<rparr>"
      "\<forall>a < 44. rd s5 a = super_object ?s4 a" "\<forall>a \<ge> 4096. rd s5 a = rd ?s4 a" by blast
    have ok5: "sfs_ok s5" "layout_ok s5" "super_blocks s5 = super_blocks s" "freemap s5 = freemap s" "unused_blocks s5 = unused_blocks s"
      "\<not> super_dirty s5" "nodes s5 = nodes s2" "node_links s5 = node_links s" "d_blocks s5 = d_blocks s"
      by (subst s5(2), use ok4 sb k in \<open>simp add: unlock_sfs_fs_def sfs_ok_def disk_ok_def fs_free_blocks_def layout_ok_def\<close>)+
    from sync_freemap_spec [OF ok5(1,2)] obtain s6 where s6: "sfs_sync_freemap s5 = Some (0, s6)" "s6 = s5\<lparr>disk0_buffer := disk0_buffer s6, rd := rd s6\<rparr>"
      "rd s6 = obj_copy 8192 0 (4096 * nfm (super_blocks s)) (words_object (bmap (freemap s))) (rd s5)" using ok5(3,4) by auto
    have ok6: "sfs_ok s6" "layout_ok s6" "super_blocks s6 = super_blocks s" "freemap s6 = freemap s" "unused_blocks s6 = unused_blocks s"
      "\<not> super_dirty s6" "nodes s6 = nodes s2" "node_links s6 = node_links s" "d_blocks s6 = d_blocks s"
      by (subst s6(2), use ok5 in \<open>simp add: sfs_ok_def disk_ok_def fs_free_blocks_def layout_ok_def\<close>)+
    have lo: "load32 (rd s6) a = load32 (super_object ?s4) a" if "a < 12" for a
      by (rule load32_cong) (use that s5(3) in \<open>simp add: s6(3) obj_copy_def\<close>)
    have so: "super_blocks ?s4 = super_blocks s" "unused_blocks ?s4 = unused_blocks s" using sb k by (simp_all add: unlock_sfs_fs_def)
    have "super_on_disk (rd s6) (super_blocks s) (unused_blocks s) (bmap (freemap s))"
      unfolding super_on_disk_def
    proof (intro conjI allI impI)
      show "load32 (rd s6) 0 = SFS_MAGIC" "load32 (rd s6) 4 = super_blocks s" "load32 (rd s6) 8 = unused_blocks s"
        by (simp_all add: lo super_object_loads so)
      show "length (bmap (freemap s)) = 1024 * nfm (super_blocks s)" using ok(2) by (simp add: layout_ok_def)
    qed (simp add: s6(3) obj_copy_def)
    moreover have "disk_din s6 (sin_ino (nodes s p)) = din (nodes s p)" if p: "p \<in> set L" for p
    proof -
      let ?n = "sin_ino (nodes s p)"
      have n: "?n \<noteq> 0" "inode_place s p" using c(2) p by (auto simp: synced_ok_def)
      have "disk_din s6 ?n = disk_din s2 ?n"
      proof (rule disk_din_block)
        fix a assume a: "a div 4096 = unat ?n"
        have "unat ?n \<noteq> 0" using n(1) by (simp add: unat_eq_0)
        then have lo: "4096 \<le> a" using a by (metis div_less not_le_imp_less)
        have "\<not> (8192 \<le> a \<and> a < 8192 + 4096 * nfm (super_blocks s))"
        proof
          assume "8192 \<le> a \<and> a < 8192 + 4096 * nfm (super_blocks s)"
          then have "2 \<le> a div 4096" "a div 4096 < 2 + nfm (super_blocks s)" by (simp_all add: less_eq_div_iff_mult_less_eq less_mult_imp_div_less)
          with n(2) a show False by (simp add: inode_place_def)
        qed
        then have "rd s6 a = rd s5 a" by (auto simp: s6(3) obj_copy_def)
        then show "rd s6 a = rd s2 a" using s5(4) lo by (simp add: unlock_sfs_fs_def)
      qed
      then show ?thesis using s2(4) p by simp
    qed
    moreover have "sfs_sync s = Some (0, s6)" using start k(4) True s5(1) s6(1) by (simp add: unlock_sfs_fs_def)
    moreover have "rd s6 a = rd s a" if "a div 4096 \<notin> (\<lambda>p. unat (sin_ino (nodes s p))) ` set L" "1 \<le> a div 4096"
        "\<not> (2 \<le> a div 4096 \<and> a div 4096 < 2 + nfm (super_blocks s))" for a
    proof -
      have "\<not> (8192 \<le> a \<and> a < 8192 + 4096 * nfm (super_blocks s))"
      proof
        assume "8192 \<le> a \<and> a < 8192 + 4096 * nfm (super_blocks s)"
        then have "2 \<le> a div 4096" "a div 4096 < 2 + nfm (super_blocks s)" by (simp_all add: less_eq_div_iff_mult_less_eq less_mult_imp_div_less)
        with that(3) show False by blast
      qed
      then have "rd s6 a = rd s5 a" by (auto simp: s6(3) obj_copy_def)
      moreover have "4096 \<le> a" using that(2) by (simp add: less_eq_div_iff_mult_less_eq)
      ultimately show ?thesis using s5(4) k(6) that(1) by (simp add: unlock_sfs_fs_def)
    qed
    ultimately show ?thesis using ok6 clean by (intro exI [of _ s6]) simp
  qed
qed

section \<open>Mounting\<close>

lemma bitmap_create_exact:
  assumes "unat n = 32 * k" and "0 < k" and "unat n < 2 ^ 32 - 32"
  shows "bitmap_create ok1 ok2 n = Some (if ok1 \<and> ok2 then Some \<lparr>nbits = n, nwords = of_nat k, bmap = replicate k 0xFFFFFFFF\<rparr> else None)"
proof -
  have u: "unat (ROUNDUP_DIV_2N n 5) = k" using unat_ROUNDUP_DIV_2N [of 5 n] assms by simp
  then have nw: "ROUNDUP_DIV_2N n 5 = of_nat k" by (metis of_nat_unat ucast_id)
  have k: "unat (of_nat k :: u32) = k" using u nw by simp
  have "unat (of_nat k * 32 :: u32) = 32 * k" using k assms by (subst unat_mult_u32) simp_all
  then have e: "n = of_nat k * 32" using assms(1) by (simp add: word_unat_eq_iff)
  have z: "n \<noteq> 0" using assms(1,2) by auto
  have "n + 32 > n" using assms(3) unat_add_u32 [of n 32] by (simp add: word_less_nat_alt)
  with z e k nw show ?thesis by (simp add: bitmap_create_def Let_def)
qed

text \<open>The free blocks that the bytes of the disk from block 2 on spell out.\<close>

definition disk_free :: "mem \<Rightarrow> u32 \<Rightarrow> nat set" where
  "disk_free r blocks = {i. i < 32768 * nfm blocks \<and> bit (r (8192 + i div 8)) (i mod 8)}"

definition disk_words :: "mem \<Rightarrow> nat \<Rightarrow> u32 list" where
  "disk_words r n = map (\<lambda>i. load32 r (8192 + 4 * i)) [0..<n]"

lemma free_bits_disk: "free_bits (\<lparr>nbits = x, nwords = y, bmap = disk_words r (1024 * nfm blocks)\<rparr>) = disk_free r blocks"
proof (rule set_eqI)
  fix i
  have l: "length (disk_words r (1024 * nfm blocks)) = 1024 * nfm blocks" by (simp add: disk_words_def)
  have "bit (disk_words r (1024 * nfm blocks) ! (i div 32)) (i mod 32) = bit (r (8192 + i div 8)) (i mod 8)" if i: "i < 32768 * nfm blocks"
  proof -
    have "i div 32 < 1024 * nfm blocks" using i by (intro less_mult_imp_div_less) simp
    then have "disk_words r (1024 * nfm blocks) ! (i div 32) = load32 r (8192 + 4 * (i div 32))" by (simp add: disk_words_def)
    moreover have "8192 + 4 * (i div 32) + i mod 32 div 8 = 8192 + i div 8"
    proof -
      have "i div 8 = (8 * (4 * (i div 32)) + i mod 32) div 8" by simp
      also have "\<dots> = 4 * (i div 32) + i mod 32 div 8" by (rule div_mult_self4) simp
      finally show ?thesis by simp
    qed
    moreover have "i mod 32 mod 8 = i mod 8" by (rule mod_mod_cancel) simp
    moreover have "i mod 32 < 32" by simp
    ultimately show ?thesis by (simp only: bit_load32 simp_thms)
  qed
  then show "i \<in> free_bits \<lparr>nbits = x, nwords = y, bmap = disk_words r (1024 * nfm blocks)\<rparr> \<longleftrightarrow> i \<in> disk_free r blocks"
    by (auto simp: free_bits_def disk_free_def l)
qed

lemma count_free_spec:
  assumes "bitmap_ok fm" and "unat i + k \<le> unat (nbits fm)"
  shows "count_free k i fm n = Some (n + of_nat (card {j \<in> free_bits fm. unat i \<le> j \<and> j < unat i + k}))"
  using assms(2)
proof (induction k arbitrary: i n)
  case 0
  have "{j \<in> free_bits fm. unat i \<le> j \<and> j < unat i + 0} = {}" by auto
  then show ?case by (simp only: card.empty) simp
next
  case (Suc k)
  let ?S = "\<lambda>a b. {j \<in> free_bits fm. a \<le> j \<and> j < b}"
  have lt: "i < nbits fm" using Suc.prems by (simp add: word_less_nat_alt)
  have "unat i + 1 < 2 ^ 32 \<or> k = 0 \<and> unat i + 1 = 2 ^ 32" using Suc.prems unat_u32_bound [of "nbits fm"] by auto
  then have b: "unat i + 1 < 2 ^ 32" using Suc.prems unat_u32_bound [of "nbits fm"] by auto
  then have i1: "unat (i + 1) = unat i + 1" by (subst unat_add_u32) simp_all
  have split: "?S (unat i) (unat i + Suc k) = (if unat i \<in> free_bits fm then {unat i} else {}) \<union> ?S (unat i + 1) (unat i + 1 + k)"
    by (auto simp: Suc_le_eq order.strict_iff_order)
  have fin: "finite (?S a b)" for a b by (rule finite_subset [of _ "{..<b}"]) auto
  have "card (?S (unat i) (unat i + Suc k)) = (if unat i \<in> free_bits fm then 1 else 0) + card (?S (unat i + 1) (unat i + 1 + k))"
    unfolding split using fin by simp
  then show ?case using Suc.IH [of "i + 1"] Suc.prems i1 bitmap_test_correct [OF assms(1) lt] by (simp add: add.assoc)
qed

lemma fs_alloc_eq: "fs_alloc s = (fs_kmalloc s (fs_kmalloc_pos s), s\<lparr>fs_kmalloc_pos := fs_kmalloc_pos s + 1\<rparr>)"
  by (simp add: fs_alloc_def)

lemma init_read_fail:
  fixes s :: "'z sfs_fs_scheme"
  assumes ok: "disk_ok s" and b: "unat b < 2 ^ 18" "\<not> unat b < unat (d_blocks s)"
  shows "sfs_init_read b base m s = Some (- errno_of E_INVAL, m, s)"
proof -
  have u: "unat (b * 4096) = unat b * 4096" using b by (subst unat_mult_u32) simp_all
  let ?iob = "iobuf_init base 4096 (b * 4096)"
  have o: "unat (io_offset ?iob) < 2 ^ 31" using b u by (simp add: iobuf_init_def)
  have "unat (io_offset ?iob) div 4096 + unat (io_resid ?iob) div 4096 > unat (d_blocks s)" using b u by (simp add: iobuf_init_def)
  with disk0_io_cases [OF ok o, of False m] show ?thesis by (simp add: sfs_init_read_def)
qed

lemma init_freemap_loop_frame:
  fixes s :: "'z sfs_fs_scheme"
  assumes "disk_ok s" and "unat b + n \<le> 2 ^ 18" and "\<not> unat b + n \<le> unat (d_blocks s)"
  shows "\<exists>m' s'. init_freemap_loop n b base m s = Some (- errno_of E_INVAL, m', s') \<and> s' = s\<lparr>disk0_buffer := disk0_buffer s'\<rparr> \<or> n = 0"
  using assms
proof (induction n arbitrary: base b m s)
  case (Suc n)
  show ?case
  proof (cases "unat b < unat (d_blocks s)")
    case False
    then have "sfs_init_read b base m s = Some (- errno_of E_INVAL, m, s)" using init_read_fail [OF Suc.prems(1), of b base m] Suc.prems(2) by simp
    then show ?thesis by (intro exI [of _ m] exI [of _ s]) (simp add: errno_of_pos less_imp_neq [symmetric])
  next
    case True
    let ?m = "obj_copy base (unat b * 4096) 4096 (rd s) m"
    obtain s1 where s1: "sfs_init_read b base m s = Some (0, ?m, s1)" "s1 = s\<lparr>disk0_buffer := disk0_buffer s1\<rparr>"
      using init_read_spec [OF Suc.prems(1) True] by blast
    have f: "disk_ok s1" "d_blocks s1 = d_blocks s" using Suc.prems(1) by (subst s1(2), simp add: disk_ok_def)+
    have b1: "unat (b + 1) = unat b + 1" using Suc.prems(2) by (subst unat_add_u32) simp_all
    have n: "n \<noteq> 0" using True Suc.prems(3) by (cases n) auto
    then obtain m' s2 where s2: "init_freemap_loop n (b + 1) (base + 4096) ?m s1 = Some (- errno_of E_INVAL, m', s2)" "s2 = s1\<lparr>disk0_buffer := disk0_buffer s2\<rparr>"
      using Suc.IH [of s1 "b + 1" "base + 4096" ?m] f Suc.prems(2,3) b1 by auto
    have "s2 = s\<lparr>disk0_buffer := disk0_buffer s2\<rparr>" by (subst s2(2), subst s1(2)) simp
    with s1(1) s2(1) show ?thesis by (intro exI [of _ m'] exI [of _ s2]) simp
  qed
qed simp

lemma init_freemap_spec:
  fixes s :: "'z sfs_fs_scheme"
  assumes ok: "disk_ok s" and b: "unat blocks \<le> unat (d_blocks s)" "0 < unat blocks"
    and fm: "fm = \<lparr>nbits = x, nwords = of_nat (1024 * nfm blocks), bmap = replicate (1024 * nfm blocks) 0xFFFFFFFF\<rparr>"
  shows "\<exists>ret fm' s'. sfs_init_freemap fm 2 (ROUNDUP_DIV_2N blocks 15) s = Some (ret, fm', s') \<and> s' = s\<lparr>disk0_buffer := disk0_buffer s'\<rparr> \<and>
    (if 2 + nfm blocks \<le> unat (d_blocks s) then ret = 0 \<and> fm' = fm\<lparr>bmap := disk_words (rd s) (1024 * nfm blocks)\<rparr> else ret = - errno_of E_INVAL)"
proof -
  let ?n = "nfm blocks" and ?w = "words_object (bmap fm)"
  have db: "unat blocks < 2 ^ 19" using ok b by (simp add: disk_ok_def)
  then have n: "?n \<le> 16" "0 < ?n" "unat (ROUNDUP_DIV_2N blocks 15) = ?n" using b(2) nfm_blocks(1) [of blocks] by simp_all
  have "unat (of_nat (1024 * ?n) :: u32) = 1024 * ?n" using n(1) by (simp only: unat_of_nat) (simp add: take_bit_nat_eq_self)
  then have "unat (4 * of_nat (1024 * ?n) :: u32) = 4096 * ?n" using n(1) by (subst unat_mult_u32) simp_all
  moreover have "unat (ROUNDUP_DIV_2N blocks 15 * 4096) = 4096 * ?n" using n by (subst unat_mult_u32) simp_all
  ultimately have len: "snd (bitmap_getdata fm) = ROUNDUP_DIV_2N blocks 15 * 4096" by (simp add: fm bitmap_getdata_def word_unat_eq_iff)
  have unfold: "sfs_init_freemap fm 2 (ROUNDUP_DIV_2N blocks 15) s = do {
      (ret, m, s1) \<leftarrow> init_freemap_loop ?n 2 0 ?w s;
      Some (ret, fm\<lparr>bmap := map (\<lambda>i. load32 m (4 * i)) [0..<1024 * ?n]\<rparr>, s1) }"
    unfolding sfs_init_freemap_def using len n(3) by (simp add: bitmap_getdata_def fm)
  show ?thesis
  proof (cases "2 + ?n \<le> unat (d_blocks s)")
    case True
    obtain s' where s': "init_freemap_loop ?n 2 0 ?w s = Some (0, obj_copy 0 (unat (2::u32) * 4096) (?n * 4096) (rd s) ?w, s')" "s' = s\<lparr>disk0_buffer := disk0_buffer s'\<rparr>"
      using init_freemap_loop_spec [OF ok, of 2 ?n 0 ?w] True by auto
    let ?m = "obj_copy 0 (unat (2::u32) * 4096) (?n * 4096) (rd s) ?w"
    have "map (\<lambda>i. load32 ?m (4 * i)) [0..<1024 * ?n] = disk_words (rd s) (1024 * ?n)"
      unfolding disk_words_def
    proof (rule map_cong [OF refl])
      fix i assume "i \<in> set [0..<1024 * ?n]"
      then have "i < 1024 * ?n" by simp
      then show "load32 ?m (4 * i) = load32 (rd s) (8192 + 4 * i)" by (intro load32_cong) (simp add: obj_copy_def add.assoc)
    qed
    then show ?thesis using True s' unfolding unfold by (intro exI [of _ 0] exI [of _ "fm\<lparr>bmap := disk_words (rd s) (1024 * ?n)\<rparr>"] exI [of _ s']) simp
  next
    case False
    then obtain m' s' where "init_freemap_loop ?n 2 0 ?w s = Some (- errno_of E_INVAL, m', s')" "s' = s\<lparr>disk0_buffer := disk0_buffer s'\<rparr>"
      using init_freemap_loop_frame [OF ok, of 2 ?n 0 ?w] n by auto
    then show ?thesis using False unfolding unfold
      by (intro exI [of _ "- errno_of E_INVAL"] exI [of _ "fm\<lparr>bmap := map (\<lambda>i. load32 m' (4 * i)) [0..<1024 * ?n]\<rparr>"] exI [of _ s']) simp
  qed
qed

section \<open>What a mount returns\<close>

text \<open>
  The ledger of the objects: the answers that \<^verbatim>\<open>kmalloc\<close> gave between two states, and the objects \<open>H\<close> that
  were allocated and are not yet freed.\<close>

definition granted :: "'z sfs_fs_scheme \<Rightarrow> 'z sfs_fs_scheme \<Rightarrow> nat multiset" where
  "granted t s = mset (List.map_filter (fs_kmalloc t) [fs_kmalloc_pos t..<fs_kmalloc_pos s])"

definition ledger :: "'z sfs_fs_scheme \<Rightarrow> 'z sfs_fs_scheme \<Rightarrow> nat multiset \<Rightarrow> bool" where
  "ledger t s H \<longleftrightarrow> fs_kmalloc s = fs_kmalloc t \<and> fs_kmalloc_pos t \<le> fs_kmalloc_pos s \<and> mset (fs_kfreed s) + H = mset (fs_kfreed t) + granted t s"

lemma ledger_refl: "ledger t t {#}"
  by (simp add: ledger_def granted_def map_filter_simps)

lemma ledger_alloc:
  assumes "ledger t s H"
  shows "ledger t (s\<lparr>fs_kmalloc_pos := fs_kmalloc_pos s + 1\<rparr>) (case fs_kmalloc s (fs_kmalloc_pos s) of None \<Rightarrow> H | Some a \<Rightarrow> add_mset a H)"
proof -
  have "[fs_kmalloc_pos t..<fs_kmalloc_pos s + 1] = [fs_kmalloc_pos t..<fs_kmalloc_pos s] @ [fs_kmalloc_pos s]" using assms by (simp add: ledger_def)
  then have "granted t (s\<lparr>fs_kmalloc_pos := fs_kmalloc_pos s + 1\<rparr>) =
      granted t s + (case fs_kmalloc t (fs_kmalloc_pos s) of None \<Rightarrow> {#} | Some a \<Rightarrow> {#a#})"
    by (simp add: granted_def map_filter_def split: option.split)
  with assms show ?thesis by (auto simp: ledger_def split: option.split)
qed

lemma ledger_free: "ledger t s (add_mset a H) \<Longrightarrow> ledger t (fs_free a s) H"
  by (simp add: ledger_def fs_free_def granted_def)

lemma ledger_cong:
  "ledger t s H \<Longrightarrow> fs_kmalloc s' = fs_kmalloc s \<Longrightarrow> fs_kmalloc_pos s' = fs_kmalloc_pos s \<Longrightarrow> fs_kfreed s' = fs_kfreed s \<Longrightarrow> ledger t s' H"
  by (simp add: ledger_def granted_def)

text \<open>The objects of a mounted file system, and the state a mount leaves.\<close>

definition mount_objs :: "mount_mem \<Rightarrow> nat multiset" where
  "mount_objs mm = {#m_map mm, m_bitmap mm, m_hash mm, m_buffer mm, m_fs mm#}"

definition mounted :: "mem \<Rightarrow> u32 \<Rightarrow> u32 \<Rightarrow> 'z sfs_fs_scheme \<Rightarrow> bool" where
  "mounted r blocks unused s \<longleftrightarrow> rd s = r \<and> super_blocks s = blocks \<and> unused_blocks s = unused \<and> \<not> super_dirty s \<and>
     sfs_fs_sem s = 1 \<and> sfs_io_sem s = 1 \<and> sfs_mutex_sem s = 1 \<and> cache s [] \<and> bitmap_ok (freemap s) \<and> (2 + nfm blocks \<le> unat blocks \<longrightarrow> layout_ok s) \<and> unat blocks \<le> unat (nbits (freemap s)) \<and>
     bmap (freemap s) = disk_words r (1024 * nfm blocks) \<and> fs_free_blocks s = disk_free r blocks \<and> of_nat (card (disk_free r blocks)) = unused"

lemma ring_init_all:
  assumes "distinct xs"
  shows "x \<in> set xs \<Longrightarrow> ring (fold (\<lambda>i. list_init (HashList i)) xs h) (HashList x) []"
  using assms
proof (induction xs rule: rev_induct)
  case (snoc y ys)
  show ?case
  proof (cases "x = y")
    case True
    then show ?thesis by (simp add: ring_init)
  next
    case False
    then show ?thesis using snoc by (auto intro: ring_init_other)
  qed
qed simp

lemma cache_ready: "cache (s\<lparr>node_links := list_init InodeList (fold (\<lambda>i. list_init (HashList i)) [0..<1024] h)\<rparr>) []"
  unfolding cache_def bucket_def
  by (auto simp: ring_init intro!: ring_init_other ring_init_all)

definition mount_result :: "'z sfs_fs_scheme \<Rightarrow> 'z sfs_fs_scheme \<Rightarrow> u32 \<Rightarrow> u32 \<Rightarrow> (int \<times> mount_mem option \<times> 'z sfs_fs_scheme) kernel \<Rightarrow> bool" where
  "mount_result t s blocks unused x \<longleftrightarrow>
     (case x of
        None \<Rightarrow> blocks = 0 \<or> of_nat (card (disk_free (rd s) blocks)) \<noteq> unused
      | Some (r, None, s') \<Rightarrow> r < 0 \<and> ledger t s' {#} \<and> rd s' = rd s
      | Some (r, Some mm, s') \<Rightarrow> r = 0 \<and> ledger t s' (mount_objs mm) \<and> mounted (rd s) blocks unused s' \<and> disk_ok s' = disk_ok s \<and> d_blocks s' = d_blocks s)"

lemma fs_free_fields: "rd (fs_free a s) = rd s" "disk_ok (fs_free a s) = disk_ok s"
  by (simp_all add: fs_free_def disk_ok_def)

lemma mount_rest_cases:
  fixes s :: "'z sfs_fs_scheme"
  assumes ok: "disk_ok s" and b: "unat (super_blocks s) \<le> unat (d_blocks s)" and l: "ledger t s {#buf, fs#}"
  shows "mount_result t s (super_blocks s) (unused_blocks s) (mount_rest fs buf s)"
    and "super_blocks s \<noteq> 0 \<Longrightarrow> (\<forall>k. fs_kmalloc s k \<noteq> None) \<Longrightarrow> 2 + nfm (super_blocks s) \<le> unat (d_blocks s) \<Longrightarrow>
      of_nat (card (disk_free (rd s) (super_blocks s))) = unused_blocks s \<Longrightarrow> \<exists>r mm s'. mount_rest fs buf s = Some (r, Some mm, s')"
proof -
  let ?k = "fs_kmalloc_pos s" and ?bl = "super_blocks s"
  let ?bits = "ROUNDUP_2N ?bl 15"
  have db: "unat ?bl < 2 ^ 19" using ok b by (simp add: disk_ok_def)
  have neg: "- errno_of E_NO_MEM < (0::int)" "- errno_of E_INVAL < (0::int)" by (simp_all add: errno_of_pos)
  have bits: "unat ?bits = 32 * (1024 * nfm ?bl)" using nfm_blocks(2) [of ?bl] db by simp
  have goal: "mount_result t s ?bl (unused_blocks s) (mount_rest fs buf s) \<and>
    (?bl \<noteq> 0 \<longrightarrow> (\<forall>k. fs_kmalloc s k \<noteq> None) \<longrightarrow> 2 + nfm ?bl \<le> unat (d_blocks s) \<longrightarrow>
      of_nat (card (disk_free (rd s) ?bl)) = unused_blocks s \<longrightarrow> (\<exists>r mm s'. mount_rest fs buf s = Some (r, Some mm, s')))"
  proof (cases "fs_kmalloc s ?k")
    case None
    let ?s1 = "s\<lparr>fs_kmalloc_pos := ?k + 1\<rparr>"
    have "ledger t ?s1 {#buf, fs#}" using ledger_alloc [OF l] None by simp
    then have "ledger t (fs_free fs (fs_free buf ?s1)) {#}" by (intro ledger_free)
    moreover have "mount_rest fs buf s = Some (- errno_of E_NO_MEM, None, fs_free fs (fs_free buf ?s1))" by (simp add: mount_rest_def fs_alloc_eq None)
    moreover have "\<not> (\<forall>k. fs_kmalloc s k \<noteq> None)" using None by blast
    ultimately show ?thesis using neg by (intro conjI impI; (blast | simp add: mount_result_def fs_free_fields))
  next
    case (Some hash)
    let ?s2 = "s\<lparr>fs_kmalloc_pos := ?k + 1, node_links := fold (\<lambda>i. list_init (HashList i)) [0..<1024] (node_links s)\<rparr>"
    have "ledger t (s\<lparr>fs_kmalloc_pos := ?k + 1\<rparr>) {#hash, buf, fs#}" using ledger_alloc [OF l] Some by simp
    then have l2: "ledger t ?s2 {#hash, buf, fs#}" by (rule ledger_cong) simp_all
    show ?thesis
    proof (cases "?bl = 0")
      case True
      then have "mount_rest fs buf s = None"
        by (simp add: mount_rest_def fs_alloc_eq Some bitmap_create_def ROUNDUP_2N_def ROUNDDOWN_2N_def Let_def)
      then show ?thesis using True by (simp add: mount_result_def)
    next
      case nz: False
      then have "0 < unat ?bl" by (simp add: unat_gt_0)
      then have pos: "0 < unat ?bl" "0 < nfm ?bl" by simp_all
      have bc: "bitmap_create ok1 ok2 ?bits = Some (if ok1 \<and> ok2 then Some \<lparr>nbits = ?bits, nwords = of_nat (1024 * nfm ?bl), bmap = replicate (1024 * nfm ?bl) 0xFFFFFFFF\<rparr> else None)" for ok1 ok2
        by (rule bitmap_create_exact [OF bits]) (use pos db bits in simp_all)
      let ?s3 = "?s2\<lparr>fs_kmalloc_pos := ?k + 2\<rparr>" and ?s4 = "?s2\<lparr>fs_kmalloc_pos := ?k + 3\<rparr>"
      have al: "fs_alloc ?s2 = (fs_kmalloc s (?k + 1), ?s3)" "fs_alloc ?s3 = (fs_kmalloc s (?k + 2), ?s4)" by (simp_all add: fs_alloc_eq)
      show ?thesis
      proof (cases "fs_kmalloc s (?k + 1)")
        case n1: None
        have "ledger t ?s3 {#hash, buf, fs#}" using ledger_alloc [OF l2] n1 by simp
        then have "ledger t (fs_free fs (fs_free buf (fs_free hash ?s3))) {#}" by (intro ledger_free)
        moreover have "mount_rest fs buf s = Some (- errno_of E_NO_MEM, None, fs_free fs (fs_free buf (fs_free hash ?s3)))"
          using n1 al by (simp add: mount_rest_def fs_alloc_eq [of s] Some bc Let_def)
        moreover have "\<not> (\<forall>k. fs_kmalloc s k \<noteq> None)" using n1 by blast
        ultimately show ?thesis using neg by (intro conjI impI; (blast | simp add: mount_result_def fs_free_fields))
      next
        case b1: (Some p1)
        have l3: "ledger t ?s3 {#p1, hash, buf, fs#}" using ledger_alloc [OF l2] b1 by simp
        show ?thesis
        proof (cases "fs_kmalloc s (?k + 2)")
          case n2: None
          have "ledger t ?s4 {#p1, hash, buf, fs#}" using ledger_alloc [OF l3] n2 by (simp add: numeral_3_eq_3)
          then have "ledger t (fs_free fs (fs_free buf (fs_free hash (fs_free p1 ?s4)))) {#}" by (intro ledger_free)
          moreover have "mount_rest fs buf s = Some (- errno_of E_NO_MEM, None, fs_free fs (fs_free buf (fs_free hash (fs_free p1 ?s4))))"
            using n2 b1 al by (simp add: mount_rest_def fs_alloc_eq [of s] Some bc Let_def)
          moreover have "\<not> (\<forall>k. fs_kmalloc s k \<noteq> None)" using n2 by blast
          ultimately show ?thesis using neg by (intro conjI impI; (blast | simp add: mount_result_def fs_free_fields))
        next
          case b2: (Some p2)
          have l4: "ledger t ?s4 {#p2, p1, hash, buf, fs#}" using ledger_alloc [OF l3] b2 by (simp add: numeral_3_eq_3)
          let ?mm = "\<lparr>m_fs = fs, m_buffer = buf, m_hash = hash, m_bitmap = p1, m_map = p2\<rparr>"
          define fm0 where "fm0 = \<lparr>nbits = ?bits, nwords = of_nat (1024 * nfm ?bl), bmap = replicate (1024 * nfm ?bl) (0xFFFFFFFF :: u32)\<rparr>"
          have bc': "bitmap_create True True ?bits = Some (Some fm0)" unfolding bc fm0_def by (simp only: simp_thms if_True)
          have ok4: "disk_ok ?s4" "unat ?bl \<le> unat (d_blocks ?s4)" using ok b by (simp_all add: disk_ok_def)
          obtain ret fm s5 where s5: "sfs_init_freemap fm0 2 (ROUNDUP_DIV_2N ?bl 15) ?s4 = Some (ret, fm, s5)" "s5 = ?s4\<lparr>disk0_buffer := disk0_buffer s5\<rparr>"
            "if 2 + nfm ?bl \<le> unat (d_blocks s) then ret = 0 \<and> fm = fm0\<lparr>bmap := disk_words (rd s) (1024 * nfm ?bl)\<rparr> else ret = - errno_of E_INVAL"
            using init_freemap_spec [OF ok4 pos(1) fm0_def] by auto
          have f5: "rd s5 = rd s" "unused_blocks s5 = unused_blocks s" "super_blocks s5 = ?bl" "d_blocks s5 = d_blocks s" "disk_ok s5"
            "node_links s5 = node_links ?s4" by (subst s5(2), use ok4 in \<open>simp add: disk_ok_def\<close>)+
          have l5: "ledger t (s5\<lparr>freemap := fm\<rparr>) {#p2, p1, hash, buf, fs#}" by (rule ledger_cong [OF l4]) (subst s5(2), simp)+
          have run: "mount_rest fs buf s = (if ret \<noteq> 0 then Some (ret, None, fs_free fs (fs_free buf (fs_free hash (bitmap_destroy ?mm (s5\<lparr>freemap := fm\<rparr>)))))
              else do {
                n \<leftarrow> count_free (unat ?bits) 0 fm 0;
                kassert (n = unused_blocks (s5\<lparr>freemap := fm\<rparr>));
                Some (0, Some ?mm, s5\<lparr>freemap := fm, super_dirty := False, sfs_fs_sem := 1, sfs_io_sem := 1, sfs_mutex_sem := 1,
                  node_links := list_init InodeList (node_links s5)\<rparr>)
              })"
            using b1 b2 al s5(1) by (simp add: mount_rest_def fs_alloc_eq [of s] Some bc' Let_def cong: if_cong)
          show ?thesis
          proof (cases "2 + nfm ?bl \<le> unat (d_blocks s)")
            case False
            then have "ret \<noteq> 0" "ret = - errno_of E_INVAL" using s5(3) neg by auto
            moreover have "ledger t (fs_free fs (fs_free buf (fs_free hash (bitmap_destroy ?mm (s5\<lparr>freemap := fm\<rparr>))))) {#}"
              unfolding bitmap_destroy_def by (intro ledger_free) (use l5 in simp)
            ultimately show ?thesis using run False neg by (simp add: mount_result_def fs_free_fields bitmap_destroy_def f5)
          next
            case True
            then have r: "ret = 0" "fm = \<lparr>nbits = ?bits, nwords = of_nat (1024 * nfm ?bl), bmap = disk_words (rd s) (1024 * nfm ?bl)\<rparr>"
              using s5(3) by (simp_all add: fm0_def)
            let ?s6 = "s5\<lparr>freemap := fm, super_dirty := False, sfs_fs_sem := 1, sfs_io_sem := 1, sfs_mutex_sem := 1,
                  node_links := list_init InodeList (node_links s5)\<rparr>"
            have fb: "free_bits fm = disk_free (rd s) ?bl" unfolding r(2) by (rule free_bits_disk)
            have len: "length (bmap fm) = 1024 * nfm ?bl" by (simp add: r(2) disk_words_def)
            have "nfm ?bl \<le> 16" using db by simp
            then have "unat (of_nat (1024 * nfm ?bl) :: u32) = 1024 * nfm ?bl" by (simp only: unat_of_nat) (simp add: take_bit_nat_eq_self)
            then have bo: "bitmap_ok fm" using len bits \<open>nfm ?bl \<le> 16\<close> unfolding bitmap_ok_def len by (simp add: r(2))
            have "{j \<in> free_bits fm. 0 \<le> j \<and> j < unat ?bits} = disk_free (rd s) ?bl"
              unfolding fb bits by (auto simp: disk_free_def)
            then have "count_free (unat ?bits) 0 fm 0 = Some (of_nat (card (disk_free (rd s) ?bl)))"
              using count_free_spec [OF bo, of 0 "unat ?bits" 0] by (simp add: r(2))
            then have run': "mount_rest fs buf s = (if of_nat (card (disk_free (rd s) ?bl)) = unused_blocks s then Some (0, Some ?mm, ?s6) else None)"
              using run r(1) by (simp add: f5)
            have "mounted (rd s) ?bl (unused_blocks s) ?s6" if "of_nat (card (disk_free (rd s) ?bl)) = unused_blocks s"
              unfolding mounted_def
            proof (intro conjI impI)
              show "cache ?s6 []" using cache_ready [where s = "s5\<lparr>freemap := fm, super_dirty := False, sfs_fs_sem := 1, sfs_io_sem := 1, sfs_mutex_sem := 1\<rparr>" and h = "node_links s"]
                by (simp add: f5)
              show "layout_ok ?s6" if "2 + nfm ?bl \<le> unat ?bl" using that pos bits len by (simp add: layout_ok_def f5 r(2))
              show "unat ?bl \<le> unat (nbits (freemap ?s6))" using bits by (simp add: r(2))
            qed (use bo fb that in \<open>simp_all add: f5 fs_free_blocks_def r(2)\<close>)
            moreover have "ledger t ?s6 (mount_objs ?mm)" unfolding mount_objs_def using ledger_cong [OF l5, of ?s6] by simp
            moreover have "disk_ok ?s6" using f5(5) by (simp add: disk_ok_def)
            ultimately show ?thesis using run' ok by (simp add: mount_result_def f5)
          qed
        qed
      qed
    qed
  qed
  then show "mount_result t s (super_blocks s) (unused_blocks s) (mount_rest fs buf s)"
    and "super_blocks s \<noteq> 0 \<Longrightarrow> (\<forall>k. fs_kmalloc s k \<noteq> None) \<Longrightarrow> 2 + nfm (super_blocks s) \<le> unat (d_blocks s) \<Longrightarrow>
      of_nat (card (disk_free (rd s) (super_blocks s))) = unused_blocks s \<Longrightarrow> \<exists>r mm s'. mount_rest fs buf s = Some (r, Some mm, s')" by blast+
qed

lemma mount_result_cong:
  "rd s' = rd s \<Longrightarrow> disk_ok s' = disk_ok s \<Longrightarrow> d_blocks s' = d_blocks s \<Longrightarrow> mount_result t s' blocks unused x = mount_result t s blocks unused x"
  by (simp only: mount_result_def)

lemma do_mount_cases:
  fixes t :: "'z sfs_fs_scheme"
  assumes ok: "disk_ok t"
  shows "mount_result t t (load32 (rd t) 4) (load32 (rd t) 8) (sfs_do_mount bs t)"
    and "bs = 4096 \<Longrightarrow> load32 (rd t) 0 = SFS_MAGIC \<Longrightarrow> load32 (rd t) 4 \<noteq> 0 \<Longrightarrow> unat (load32 (rd t) 4) \<le> unat (d_blocks t) \<Longrightarrow>
      (\<forall>k. fs_kmalloc t k \<noteq> None) \<Longrightarrow> 2 + nfm (load32 (rd t) 4) \<le> unat (d_blocks t) \<Longrightarrow>
      of_nat (card (disk_free (rd t) (load32 (rd t) 4))) = load32 (rd t) 8 \<Longrightarrow> \<exists>r mm s'. sfs_do_mount bs t = Some (r, Some mm, s')"
    and "bs \<noteq> 4096 \<or> load32 (rd t) 0 \<noteq> SFS_MAGIC \<or> load32 (rd t) 4 > d_blocks t \<Longrightarrow> \<exists>r t'. sfs_do_mount bs t = Some (r, None, t')"
proof -
  let ?k = "fs_kmalloc_pos t" and ?bl = "load32 (rd t) 4" and ?un = "load32 (rd t) 8"
  have neg: "- errno_of E_NO_MEM < (0::int)" "- errno_of E_INVAL < (0::int)" "- errno_of E_NA_DEV < (0::int)" by (simp_all add: errno_of_pos)
  have "mount_result t t ?bl ?un (sfs_do_mount bs t) \<and>
    (bs = 4096 \<longrightarrow> load32 (rd t) 0 = SFS_MAGIC \<longrightarrow> ?bl \<noteq> 0 \<longrightarrow> unat ?bl \<le> unat (d_blocks t) \<longrightarrow> (\<forall>k. fs_kmalloc t k \<noteq> None) \<longrightarrow>
      2 + nfm ?bl \<le> unat (d_blocks t) \<longrightarrow> of_nat (card (disk_free (rd t) ?bl)) = ?un \<longrightarrow> (\<exists>r mm s'. sfs_do_mount bs t = Some (r, Some mm, s'))) \<and>
    (bs \<noteq> 4096 \<or> load32 (rd t) 0 \<noteq> SFS_MAGIC \<or> ?bl > d_blocks t \<longrightarrow> (\<exists>r t'. sfs_do_mount bs t = Some (r, None, t')))"
  proof (cases "bs = 4096")
    case False
    then have "sfs_do_mount bs t = Some (- errno_of E_NA_DEV, None, t)" by (simp add: sfs_do_mount_def)
    then show ?thesis using False neg ledger_refl by (simp add: mount_result_def)
  next
    case bs: True
    let ?t1 = "t\<lparr>fs_kmalloc_pos := ?k + 1\<rparr>" and ?t2 = "t\<lparr>fs_kmalloc_pos := ?k + 2\<rparr>"
    show ?thesis
    proof (cases "fs_kmalloc t ?k")
      case None
      have "ledger t ?t1 {#}" using ledger_alloc [OF ledger_refl [of t]] None by simp
      moreover have "\<not> (\<forall>k. fs_kmalloc t k \<noteq> None)" using None by blast
      moreover have "sfs_do_mount bs t = Some (- errno_of E_NO_MEM, None, ?t1)" using None bs by (simp add: sfs_do_mount_def fs_alloc_eq)
      ultimately show ?thesis using neg by (intro conjI impI; (blast | simp add: mount_result_def))
    next
      case fs: (Some fs)
      have l1: "ledger t ?t1 {#fs#}" using ledger_alloc [OF ledger_refl [of t]] fs by simp
      have al: "fs_alloc ?t1 = (fs_kmalloc t (?k + 1), ?t2)" by (simp add: fs_alloc_eq)
      show ?thesis
      proof (cases "fs_kmalloc t (?k + 1)")
        case None
        have "ledger t ?t2 {#fs#}" using ledger_alloc [OF l1] None by simp
        then have "ledger t (fs_free fs ?t2) {#}" by (intro ledger_free)
        moreover have "\<not> (\<forall>k. fs_kmalloc t k \<noteq> None)" using None by blast
        moreover have "sfs_do_mount bs t = Some (- errno_of E_NO_MEM, None, fs_free fs ?t2)"
          using None fs bs al by (simp add: sfs_do_mount_def fs_alloc_eq [of t])
        ultimately show ?thesis using neg by (intro conjI impI; (blast | simp add: mount_result_def fs_free_fields))
      next
        case buf: (Some buf)
        have l2: "ledger t ?t2 {#buf, fs#}" using ledger_alloc [OF l1] buf by simp
        have ok2: "disk_ok ?t2" using ok by (simp add: disk_ok_def)
        show ?thesis
        proof (cases "unat (0::u32) < unat (d_blocks t)")
          case False
          then have "sfs_init_read 0 0 (sfs_buffer t) ?t2 = Some (- errno_of E_INVAL, sfs_buffer t, ?t2)"
            using init_read_fail [OF ok2, of 0 0 "sfs_buffer t"] by simp
          then have "sfs_do_mount bs t = Some (- errno_of E_INVAL, None, fs_free fs (fs_free buf ?t2))"
            using fs buf bs al neg by (simp add: sfs_do_mount_def fs_alloc_eq [of t])
          moreover have "ledger t (fs_free fs (fs_free buf ?t2)) {#}" using l2 by (intro ledger_free)
          ultimately show ?thesis using neg False by (simp add: mount_result_def fs_free_fields)
        next
          case d: True
          let ?m = "obj_copy 0 0 4096 (rd t) (sfs_buffer t)"
          obtain s3 where s3: "sfs_init_read 0 0 (sfs_buffer t) ?t2 = Some (0, ?m, s3)" "s3 = ?t2\<lparr>disk0_buffer := disk0_buffer s3\<rparr>"
            using init_read_spec [OF ok2, of 0 0 "sfs_buffer t"] d by auto
          let ?s4 = "s3\<lparr>sfs_buffer := ?m\<rparr>" and ?m1 = "?m(43 := 0)"
          let ?s5 = "?s4\<lparr>sfs_buffer := ?m1, super_blocks := load32 ?m1 4, unused_blocks := load32 ?m1 8, super_info := obj_copy 0 12 32 ?m1 (super_info ?s4)\<rparr>"
          have lo: "load32 ?m a = load32 (rd t) a" "load32 ?m1 a = load32 (rd t) a" if "a \<le> 8" for a
            using that by (intro load32_cong; simp add: obj_copy_def)+
          have f: "disk_ok ?s5" "d_blocks ?s5 = d_blocks t" "rd ?s5 = rd t" "super_blocks ?s5 = ?bl" "unused_blocks ?s5 = ?un" "fs_kmalloc ?s5 = fs_kmalloc t"
            "d_blocks ?s4 = d_blocks t" "rd ?s4 = rd t"
            by (subst s3(2), use ok lo in \<open>simp add: disk_ok_def\<close>)+
          have l4: "ledger t ?s4 {#buf, fs#}" by (rule ledger_cong [OF l2]) (subst s3(2), simp)+
          have run: "sfs_do_mount bs t = (if load32 (rd t) 0 \<noteq> SFS_MAGIC then Some (- errno_of E_INVAL, None, fs_free fs (fs_free buf ?s4))
              else if ?bl > d_blocks t then Some (- errno_of E_INVAL, None, fs_free fs (fs_free buf ?s4)) else mount_rest fs buf ?s5)"
            using fs buf bs al s3(1) lo [of 0] lo [of 4] lo [of 8] f(7) by (simp add: sfs_do_mount_def fs_alloc_eq [of t] Let_def cong: if_cong)
          have lf: "ledger t (fs_free fs (fs_free buf ?s4)) {#}" using l4 by (intro ledger_free)
          show ?thesis
          proof (cases "load32 (rd t) 0 \<noteq> SFS_MAGIC \<or> ?bl > d_blocks t")
            case True
            then have "sfs_do_mount bs t = Some (- errno_of E_INVAL, None, fs_free fs (fs_free buf ?s4))" using run by auto
            then show ?thesis using True lf neg f(8) by (auto simp: mount_result_def fs_free_fields word_less_nat_alt)
          next
            case False
            then have r: "sfs_do_mount bs t = mount_rest fs buf ?s5" using run by simp
            have le: "unat (super_blocks ?s5) \<le> unat (d_blocks ?s5)" using False f(2,4) by (simp add: not_less word_le_nat_alt)
            have l5: "ledger t ?s5 {#buf, fs#}" by (rule ledger_cong [OF l4]) simp_all
            note c = mount_rest_cases [OF f(1) le l5]
            have "disk_ok ?s5 = disk_ok t" using f(1) ok by simp
            then have "mount_result t t ?bl ?un (mount_rest fs buf ?s5)"
              using c(1) unfolding f(4,5) by (simp only: mount_result_cong [OF f(3) _ f(2)])
            then show ?thesis unfolding r using c(2) False bs unfolding f(2-6) by blast
          qed
        qed
      qed
    qed
  qed
  then show "mount_result t t (load32 (rd t) 4) (load32 (rd t) 8) (sfs_do_mount bs t)"
    and "bs = 4096 \<Longrightarrow> load32 (rd t) 0 = SFS_MAGIC \<Longrightarrow> load32 (rd t) 4 \<noteq> 0 \<Longrightarrow> unat (load32 (rd t) 4) \<le> unat (d_blocks t) \<Longrightarrow>
      (\<forall>k. fs_kmalloc t k \<noteq> None) \<Longrightarrow> 2 + nfm (load32 (rd t) 4) \<le> unat (d_blocks t) \<Longrightarrow>
      of_nat (card (disk_free (rd t) (load32 (rd t) 4))) = load32 (rd t) 8 \<Longrightarrow> \<exists>r mm s'. sfs_do_mount bs t = Some (r, Some mm, s')"
    and "bs \<noteq> 4096 \<or> load32 (rd t) 0 \<noteq> SFS_MAGIC \<or> load32 (rd t) 4 > d_blocks t \<Longrightarrow> \<exists>r t'. sfs_do_mount bs t = Some (r, None, t')" by blast+
qed

section \<open>Properties\<close>

text \<open>
  C10: \<^verbatim>\<open>sfs_do_mount\<close> on any disk. It changes no byte of the disk. An unsuitable device, a wrong magic number or more
  blocks than the device has give an error; after any error, whatever requests for memory were refused, everything allocated is freed. On success
  exactly the five objects of the file system stay allocated, the free blocks are those the free map on the disk spells out, their number is
  the one in the super block, no lock is held and no inode is cached. It panics only on an image without blocks or with a wrong count of free blocks.\<close>
theorem sfs_do_mount_checked:
  fixes t :: "'z sfs_fs_scheme"
  assumes "disk_ok t"
  shows "(case sfs_do_mount bs t of
      None \<Rightarrow> load32 (rd t) 4 = 0 \<or> of_nat (card (disk_free (rd t) (load32 (rd t) 4))) \<noteq> load32 (rd t) 8
    | Some (r, None, t') \<Rightarrow> r < 0 \<and> ledger t t' {#} \<and> rd t' = rd t
    | Some (r, Some mm, t') \<Rightarrow> r = 0 \<and> ledger t t' (mount_objs mm) \<and> mounted (rd t) (load32 (rd t) 4) (load32 (rd t) 8) t' \<and>
        disk_ok t' = disk_ok t \<and> d_blocks t' = d_blocks t) \<and>
    (bs \<noteq> 4096 \<or> load32 (rd t) 0 \<noteq> SFS_MAGIC \<or> load32 (rd t) 4 > d_blocks t \<longrightarrow> (\<exists>r t'. sfs_do_mount bs t = Some (r, None, t')))"
  using do_mount_cases(1) [OF assms, of bs] do_mount_cases(3) [OF assms, of bs] unfolding mount_result_def by blast

theorem sfs_do_mount_checked_witness:
  "\<exists>r t'. sfs_do_mount 4096 demo_fs = Some (r, None, t') \<and> r < 0 \<and> ledger demo_fs t' {#}"
proof -
  have "disk_ok demo_fs" using demo_sfs_ok by (simp add: sfs_ok_def)
  moreover have "load32 (rd demo_fs) 0 \<noteq> SFS_MAGIC" by (simp add: demo_fs_def SFS_MAGIC_def)
  ultimately show ?thesis using sfs_do_mount_checked [of demo_fs 4096] by fastforce
qed

lemma disk_words_super:
  assumes "super_on_disk r blocks unused ws"
  shows "disk_words r (1024 * nfm blocks) = ws"
proof (rule nth_equalityI)
  have l: "length ws = 1024 * nfm blocks" using assms by (simp add: super_on_disk_def)
  then show "length (disk_words r (1024 * nfm blocks)) = length ws" by (simp add: disk_words_def)
  fix i assume "i < length (disk_words r (1024 * nfm blocks))"
  then have i: "i < 1024 * nfm blocks" by (simp add: disk_words_def)
  have "load32 r (8192 + 4 * i) = load32 (words_object ws) (4 * i)"
    by (rule load32_cong) (use assms i in \<open>simp add: super_on_disk_def add.assoc\<close>)
  then show "disk_words r (1024 * nfm blocks) ! i = ws ! i" using i words_object_load [of i ws] l by (simp add: disk_words_def)
qed

text \<open>
  C9: Durability of the file system. In a consistent state \<^verbatim>\<open>sfs_sync\<close> succeeds and leaves no cached inode to be
  written. Mounting the disk afterwards, from any memory contents as long as memory can be allocated, succeeds: the new file system has the
  size, the free blocks and the count of the old one and an empty cache, every inode that was cached is on the disk as it
  was in memory, and every block that holds neither an inode that was cached nor the super block or the free map is as it was.\<close>
theorem sfs_sync_mount:
  fixes s :: "'z sfs_fs_scheme"
  assumes ok: "sfs_ok s" "layout_ok s" "sfs_fs_sem s = 1" and c: "cache s L" "\<forall>p \<in> set L. synced_ok s p \<and> inode_place s p"
    and d: "super_dirty s \<or> super_on_disk (rd s) (super_blocks s) (unused_blocks s) (bmap (freemap s))"
  shows "\<exists>s'. sfs_sync s = Some (0, s') \<and> \<not> super_dirty s' \<and> (\<forall>p \<in> set L. \<not> sin_dirty (nodes s' p)) \<and>
    (\<forall>t :: 'z sfs_fs_scheme. rd t = rd s' \<and> d_blocks t = d_blocks s \<and> disk_ok t \<and> (\<forall>k. fs_kmalloc t k \<noteq> None) \<longrightarrow>
      (\<exists>mm t'. sfs_do_mount 4096 t = Some (0, Some mm, t') \<and> sfs_ok t' \<and> layout_ok t' \<and> cache t' [] \<and>
        super_blocks t' = super_blocks s \<and> fs_free_blocks t' = fs_free_blocks s \<and> unused_blocks t' = unused_blocks s \<and>
        (\<forall>p \<in> set L. disk_din t' (sin_ino (nodes s p)) = din (nodes s p)) \<and>
        (\<forall>a. a div 4096 \<notin> (\<lambda>p. unat (sin_ino (nodes s p))) ` set L \<and> 1 \<le> a div 4096 \<and>
           \<not> (2 \<le> a div 4096 \<and> a div 4096 < 2 + nfm (super_blocks s)) \<longrightarrow> rd t' a = rd s a)))"
proof -
  let ?bl = "super_blocks s" and ?un = "unused_blocks s" and ?ws = "bmap (freemap s)"
  obtain s' where s': "sfs_sync s = Some (0, s')" "\<not> super_dirty s'" "super_on_disk (rd s') ?bl ?un ?ws"
    "\<forall>p \<in> set L. \<not> sin_dirty (nodes s' p) \<and> disk_din s' (sin_ino (nodes s p)) = din (nodes s p)"
    "\<forall>a. a div 4096 \<notin> (\<lambda>p. unat (sin_ino (nodes s p))) ` set L \<and> 1 \<le> a div 4096 \<and>
      \<not> (2 \<le> a div 4096 \<and> a div 4096 < 2 + nfm ?bl) \<longrightarrow> rd s' a = rd s a"
    using sync_spec [OF ok c d] by blast
  have sup: "load32 (rd s') 0 = SFS_MAGIC" "load32 (rd s') 4 = ?bl" "load32 (rd s') 8 = ?un" using s'(3) by (simp_all add: super_on_disk_def)
  have fb: "disk_free (rd s') ?bl = fs_free_blocks s"
    using free_bits_disk [of 0 0 "rd s'" ?bl] unfolding disk_words_super [OF s'(3)] by (simp add: fs_free_blocks_def free_bits_def)
  have un: "unat ?un = card (fs_free_blocks s)" "fs_free_blocks s \<subseteq> {1..<unat ?bl}" "unat ?bl \<le> unat (d_blocks s)" using ok(1) by (simp_all add: sfs_ok_def)
  then have cnt: "of_nat (card (disk_free (rd s') ?bl)) = ?un" unfolding fb by (metis of_nat_unat ucast_id)
  have lay: "?bl \<noteq> 0" "2 + nfm ?bl \<le> unat ?bl" using ok(2) by (auto simp: layout_ok_def)
  have mount: "\<exists>mm t'. sfs_do_mount 4096 t = Some (0, Some mm, t') \<and> sfs_ok t' \<and> layout_ok t' \<and> cache t' [] \<and>
      super_blocks t' = ?bl \<and> fs_free_blocks t' = fs_free_blocks s \<and> unused_blocks t' = ?un \<and> rd t' = rd s'"
    if t: "rd t = rd s'" "d_blocks t = d_blocks s" "disk_ok t" "\<forall>k. fs_kmalloc t k \<noteq> None" for t :: "'z sfs_fs_scheme"
  proof -
    have "2 + nfm ?bl \<le> unat (d_blocks s)" using lay(2) un(3) by linarith
    with do_mount_cases(2) [OF t(3), of 4096] obtain r mm t' where r: "sfs_do_mount 4096 t = Some (r, Some mm, t')"
      using sup cnt lay un(3) t(2,4) unfolding t(1) by auto
    then have m: "r = 0" "mounted (rd s') ?bl ?un t'" "disk_ok t'" "d_blocks t' = d_blocks s"
      using do_mount_cases(1) [OF t(3), of 4096] t sup by (simp_all add: mount_result_def)
    then have "sfs_ok t'" using un fb by (simp add: mounted_def sfs_ok_def)
    then show ?thesis using r m lay(2) fb by (simp add: mounted_def)
  qed
  have din: "disk_din t' n = disk_din s' n" if "rd t' = rd s'" for t' :: "'z sfs_fs_scheme" and n using that by (simp add: disk_din_def)
  show ?thesis
  proof (rule exI [of _ s'], intro conjI allI impI)
    fix t :: "'z sfs_fs_scheme"
    assume "rd t = rd s' \<and> d_blocks t = d_blocks s \<and> disk_ok t \<and> (\<forall>k. fs_kmalloc t k \<noteq> None)"
    then obtain mm t' where t': "sfs_do_mount 4096 t = Some (0, Some mm, t')" "sfs_ok t'" "layout_ok t'" "cache t' []"
      "super_blocks t' = ?bl" "fs_free_blocks t' = fs_free_blocks s" "unused_blocks t' = ?un" "rd t' = rd s'"
      using mount by blast
    then show "\<exists>mm t'. sfs_do_mount 4096 t = Some (0, Some mm, t') \<and> sfs_ok t' \<and> layout_ok t' \<and> cache t' [] \<and>
        super_blocks t' = super_blocks s \<and> fs_free_blocks t' = fs_free_blocks s \<and> unused_blocks t' = unused_blocks s \<and>
        (\<forall>p \<in> set L. disk_din t' (sin_ino (nodes s p)) = din (nodes s p)) \<and>
        (\<forall>a. a div 4096 \<notin> (\<lambda>p. unat (sin_ino (nodes s p))) ` set L \<and> 1 \<le> a div 4096 \<and>
           \<not> (2 \<le> a div 4096 \<and> a div 4096 < 2 + nfm (super_blocks s)) \<longrightarrow> rd t' a = rd s a)"
      using s'(4,5) din [OF t'(8)] by (intro exI [of _ mm] exI [of _ t']) simp
  qed (use s'(1,2,4) in auto)
qed

definition demo_sync :: sfs_fs where
  "demo_sync = sfs_set_links 7 (demo_fs\<lparr>nodes := (\<lambda>_. demo_node\<lparr>open_count := 0, sin_dirty := True, sin_ino := 1\<rparr>), super_dirty := True,
     freemap := \<lparr>nbits = 32768, nwords = 1024, bmap = 0xFFFFFFF8 # replicate 1023 0\<rparr>\<rparr>)"

lemma demo_sync_free: "fs_free_blocks demo_sync = {3..<32}"
proof -
  have e: "(0xFFFFFFF8 :: u32) = NOT (mask 3)" by (simp add: mask_eq_exp_minus_1)
  have f: "{i. i < 32 \<and> bit (0xFFFFFFF8 :: u32) i} = {3..<32}" unfolding e by (auto simp: bit_simps)
  have "bit ((0xFFFFFFF8 # replicate 1023 0 :: u32 list) ! (i div 32)) (i mod 32) \<longleftrightarrow> i < 32 \<and> bit (0xFFFFFFF8 :: u32) i" if "i < 32768" for i
  proof (cases "i < 32")
    case False
    then have "0 < i div 32" "i div 32 - 1 < 1023" using that by (simp_all add: div_greater_zero_iff less_mult_imp_div_less less_diff_conv2)
    then show ?thesis using False by (simp add: nth_Cons')
  qed simp
  then have "free_bits (freemap demo_sync) = {i. i < 32 \<and> bit (0xFFFFFFF8 :: u32) i}"
    by (auto simp: free_bits_def demo_sync_def sfs_set_links_def)
  with f show ?thesis by (simp add: fs_free_blocks_def)
qed

theorem sfs_sync_mount_witness:
  "\<exists>s' mm t'. sfs_sync demo_sync = Some (0, s') \<and> sfs_do_mount 4096 (demo_fs\<lparr>rd := rd s'\<rparr>) = Some (0, Some mm, t') \<and>
     fs_free_blocks t' = {3..<32} \<and> disk_din t' 1 = demo_din"
proof -
  let ?s = "demo_fs\<lparr>nodes := (\<lambda>_. demo_node\<lparr>open_count := 0, sin_dirty := True, sin_ino := 1\<rparr>), super_dirty := True,
     freemap := \<lparr>nbits = 32768, nwords = 1024, bmap = 0xFFFFFFF8 # replicate 1023 0\<rparr>\<rparr>"
  have "cache ?s []" by (rule demo_empty_cache) (simp add: demo_fs_def)
  then have c: "cache demo_sync [7]" unfolding demo_sync_def using cache_set_links [of ?s "[]" 7] by simp
  have d: "disk_ok demo_fs" using demo_sfs_ok by (simp add: sfs_ok_def)
  have ok: "sfs_ok demo_sync" using d demo_sync_free
    by (simp add: sfs_ok_def) (simp add: demo_sync_def sfs_set_links_def demo_fs_def disk_ok_def bitmap_ok_def)
  have lay: "layout_ok demo_sync" "sfs_fs_sem demo_sync = 1" "super_dirty demo_sync" "super_blocks demo_sync = 32"
    by (simp_all add: layout_ok_def demo_sync_def sfs_set_links_def demo_fs_def)
  have n: "nodes demo_sync 7 = demo_node\<lparr>open_count := 0, sin_dirty := True, sin_ino := 1\<rparr>" by (simp add: demo_sync_def sfs_set_links_def)
  have "synced_ok demo_sync 7 \<and> inode_place demo_sync 7"
    using demo_cached_ok(13) by (simp add: synced_ok_def inode_place_def inode_check_def n lay(4)) (simp add: demo_node_def kassert_def)
  then have "\<forall>p \<in> set [7]. synced_ok demo_sync p \<and> inode_place demo_sync p" by simp
  from sfs_sync_mount [OF ok lay(1,2) c this disjI1 [OF lay(3)]] obtain s' where s': "sfs_sync demo_sync = Some (0, s')"
    "\<And>t :: sfs_fs. rd t = rd s' \<and> d_blocks t = d_blocks demo_sync \<and> disk_ok t \<and> (\<forall>k. fs_kmalloc t k \<noteq> None) \<Longrightarrow>
      \<exists>mm t'. sfs_do_mount 4096 t = Some (0, Some mm, t') \<and> fs_free_blocks t' = fs_free_blocks demo_sync \<and>
        (\<forall>p \<in> set [7]. disk_din t' (sin_ino (nodes demo_sync p)) = din (nodes demo_sync p))"
    by (elim exE conjE) blast
  let ?t = "demo_fs\<lparr>rd := rd s'\<rparr>"
  have "rd ?t = rd s' \<and> d_blocks ?t = d_blocks demo_sync \<and> disk_ok ?t \<and> (\<forall>k. fs_kmalloc ?t k \<noteq> None)"
    using d by (simp add: disk_ok_def) (simp add: demo_sync_def sfs_set_links_def demo_fs_def)
  from s'(2) [OF this] obtain mm t' where "sfs_do_mount 4096 ?t = Some (0, Some mm, t')" "fs_free_blocks t' = {3..<32}" "disk_din t' 1 = demo_din"
    unfolding demo_sync_free by (auto simp: n demo_node_def)
  with s'(1) show ?thesis by blast
qed

end
