(* ===== verification/Spec2Isabelle.thy ===== *)
theory Spec2Isabelle
  imports ProcLife VmArea Timer Sem Buddy CString Klib Sysfile Kmalloc SfsMount
begin

text \<open>
  A verification of the uCore kernel for the NEHCPU soft core: the C code under
  \<^verbatim>\<open>src/ucore-thumips-2017summer/kern\<close> (paths below are relative to \<^verbatim>\<open>kern\<close>).

  \<^bold>\<open>The program.\<close> A small Unix-like kernel for a MIPS soft core with a software-loaded TLB. A buddy
  allocator hands out physical pages; page tables and memory areas build the address spaces on
  them; a process table with a round-robin scheduler, timers, wait queues and semaphores runs the
  processes; a block bitmap, a RAM disk and a simple file system with an inode cache, directories and
  block maps keep the files; a virtual file system with devices and descriptor tables is what the
  processes call. The components share state through pointers (intrusive lists, reference counts,
  locks), and the theorems say what each keeps of it and how they compose.

  \<^bold>\<open>How C is represented.\<close>
  \<^item> \<^emph>\<open>Stopping.\<close> An operation that can stop the kernel has a result of type \<open>'a kernel\<close>, an option: \<open>None\<close>
    is a failed \<^verbatim>\<open>assert\<close>, a \<^verbatim>\<open>panic\<close>, the use of a null pointer, a lock taken twice by the only process that
    could free it, or a loop that does not end (loops whose end needs an argument are
    \<^theory_text>\<open>partial_function (option)\<close>). So a theorem with a conclusion \<open>f s = Some \<dots>\<close> says that the
    code ends and does not panic. Loops over a list or a counter are recursive functions.
  \<^item> \<^emph>\<open>Errors.\<close> C's \<^verbatim>\<open>-E_X\<close> is \<open>- errno_of E_X\<close>, an \<open>int\<close>.
  \<^item> \<^emph>\<open>Integers.\<close> \<open>u8\<close>, \<open>u32\<close> are words, with the wrap-around of C; counters the code never lets wrap are
    \<open>nat\<close> or \<open>int\<close>. Signed division is \<open>c_div\<close>, \<open>c_mod\<close>.
  \<^item> \<^emph>\<open>Memory.\<close> A component's objects are a function from addresses (\<open>nat\<close>) to records; list cells are the
    pointer maps \<open>le_prev\<close>, \<open>le_next\<close> over a datatype of cells (heads and links), so that \<^verbatim>\<open>le2proc\<close> and the like
    are constructors. Byte memory is \<open>nat \<Rightarrow> u8\<close>.
  \<^item> \<^emph>\<open>State.\<close> Records, extended by the component above: \<open>kern\<close> (processes, scheduler, timers), \<open>wkern\<close> (wait
    queues, semaphores), \<open>pkern\<close> and \<open>fkern\<close> (process table, fork and exit), \<open>stdin\<close>; \<open>pmm\<close>, \<open>vmem\<close>, \<open>mstate\<close> (pages,
    tables, areas); \<open>sfs_fs\<close> (disk, file system), \<open>vfs\<close> (devices, descriptors).
  \<^item> \<^emph>\<open>Concurrency.\<close> The kernel runs with interrupts off except while a process sleeps; a call that
    sleeps is split into the part before and the part after (\<open>down_begin\<close>/\<open>down_end\<close>, \<open>dev_stdin_read\<close>/
    \<open>dev_stdin_resume\<close>, \<open>do_wait\<close>), and the theorems on runs quantify over every sequence of such steps.
  \<^item> \<^emph>\<open>Allocation.\<close> Outside the allocator's own theories the answers of \<^verbatim>\<open>kmalloc\<close> are a stream in the state or an argument, an address or \<open>None\<close>,
    so that every theorem covers every pattern of failures; what is freed is recorded.

  \<^bold>\<open>The theories.\<close>
  \<^item> \<^verbatim>\<open>Prelude\<close>: the types above, the collections of rewrite rules, facts on options, lists and words.
  \<^item> \<^verbatim>\<open>Clist\<close>: \<^verbatim>\<open>include/list.h\<close>; rings of cells, and the walk of a list loop.
  \<^item> \<^verbatim>\<open>Klib\<close>, \<^verbatim>\<open>CString\<close>: \<^verbatim>\<open>thumips.h\<close>, \<^verbatim>\<open>defs.h\<close>, \<^verbatim>\<open>libs/hash.c\<close>, \<^verbatim>\<open>rand.c\<close>, \<^verbatim>\<open>string.c\<close>; shift-and-add division equals
    division, copying is right under every overlap.
  \<^item> \<^verbatim>\<open>Kstate\<close>, \<^verbatim>\<open>Sched\<close>, \<^verbatim>\<open>Timer\<close>: \<^verbatim>\<open>process/proc.h\<close>, \<^verbatim>\<open>schedule/*.c\<close>; the run list refines a FIFO queue, \<^verbatim>\<open>schedule\<close> is
    fair, timers fire at their deadline.
  \<^item> \<^verbatim>\<open>Wait\<close>, \<^verbatim>\<open>Sem\<close>: \<^verbatim>\<open>sync/*.c\<close>; units of a semaphore are conserved over every run, waiters are served in
    order.
  \<^item> \<^verbatim>\<open>ProcTable\<close>, \<^verbatim>\<open>Proc\<close>, \<^verbatim>\<open>ProcLife\<close>: \<^verbatim>\<open>process/proc.c\<close>; pids are unique, the family and hash lists stay consistent,
    fork is all or nothing, exit hands over the children, wait reaps.
  \<^item> \<^verbatim>\<open>Buddy\<close>: \<^verbatim>\<open>mm/buddy_pmm.c\<close>; from boot on live runs never overlap and nothing is lost.
  \<^item> \<^verbatim>\<open>Paging\<close>, \<^verbatim>\<open>Pmm\<close>, \<^verbatim>\<open>PageTable\<close>: \<^verbatim>\<open>mm/mmu.h\<close>, \<^verbatim>\<open>thumips_tlb.c\<close>, \<^verbatim>\<open>pmm.c\<close>; an operation changes exactly the entries it
    should and keeps the reference counts; the TLB translates as the tables say.
  \<^item> \<^verbatim>\<open>Vmm\<close>, \<^verbatim>\<open>VmArea\<close>: \<^verbatim>\<open>mm/vmm.c\<close>; areas stay sorted and disjoint, user ranges are checked byte for byte, a page
    fault maps exactly the faulting page.
  \<^item> \<^verbatim>\<open>Bitmap\<close>, \<^verbatim>\<open>Disk\<close>: \<^verbatim>\<open>fs/sfs/bitmap.c\<close>, \<^verbatim>\<open>fs/iobuf.c\<close>, \<^verbatim>\<open>fs/devs/dev_disk0.c\<close>, \<^verbatim>\<open>driver/ide.c\<close>, \<^verbatim>\<open>ramdisk.c\<close>; block requests
    as transfers of bytes.
  \<^item> \<^verbatim>\<open>Sfs\<close>, \<^verbatim>\<open>SfsDir\<close> (definitions), \<^verbatim>\<open>SfsBlock\<close>, \<^verbatim>\<open>SfsFile\<close>, \<^verbatim>\<open>SfsRw\<close>, \<^verbatim>\<open>SfsNames\<close>, \<^verbatim>\<open>SfsCache\<close>: \<^verbatim>\<open>fs/sfs/sfs_io.c\<close>, \<^verbatim>\<open>sfs_lock.c\<close>,
    \<^verbatim>\<open>sfs_inode.c\<close>; a file is the list of bytes its block map spells out, writes splice it, reads slice
    it; directory searches are exact; the cache holds at most one inode per number and writes it back.
  \<^item> \<^verbatim>\<open>Sysfile\<close>: \<^verbatim>\<open>fs/sysfile.c\<close>; the read and write system calls move exactly the bytes of the user range, in
    pieces through a kernel buffer, after checking every byte of it.
  \<^item> \<^verbatim>\<open>Stdin\<close>, \<^verbatim>\<open>Vfs\<close>, \<^verbatim>\<open>File\<close> (definitions), \<^verbatim>\<open>FdTable\<close>, \<^verbatim>\<open>FdStream\<close>: \<^verbatim>\<open>fs/devs\<close>, \<^verbatim>\<open>fs/vfs\<close>, \<^verbatim>\<open>fs/file.c\<close>, \<^verbatim>\<open>fs/fs.c\<close>; the input buffer is a
    FIFO queue for every interleaving, descriptor tables stay consistent over every run of calls,
    forks and exits, and a descriptor of a file is a byte stream down to the blocks of the disk.
  \<^item> \<^verbatim>\<open>Slab\<close> (definitions), \<^verbatim>\<open>SlabInv\<close>, \<^verbatim>\<open>Kmalloc\<close>: \<^verbatim>\<open>mm/kmalloc.c\<close> over the buddy allocator; from boot on no request of
    up to 128K and no release panics, blocks in use never overlap, and what was freed is free.
  \<^item> \<^verbatim>\<open>SfsMount\<close>: \<^verbatim>\<open>fs/sfs/sfs_fs.c\<close>, the mounts of \<^verbatim>\<open>fs/vfs/vfsdev.c\<close>; what a sync leaves on the disk a mount reads back, and a
    mount that fails frees all it allocated.

  \<^bold>\<open>Interfaces.\<close> Each locale is a contract between components and is interpreted on the model's own
  definitions where they are proved: \<open>intrusive_list\<close> (\<open>clist\<close>, \<^verbatim>\<open>list.h\<close>), \<open>fifo_class\<close> (\<open>rr\<close>, the scheduling class),
  \<open>page_manager\<close> (\<open>buddy\<close>, the table \<^verbatim>\<open>pmm_manager\<close>), \<open>free_map\<close> (\<open>bm\<close>, the block bitmap), \<open>block_heap\<close> (\<open>slab\<close>,
  \<^verbatim>\<open>kmalloc\<close>) and \<open>byte_stream\<close> (\<open>fds\<close>, the descriptor operations). The clients (page tables, timers, the file system, the system calls) use
  the facts of the interpretations.

  \<^bold>\<open>Bounds.\<close> There is no fuel that a run could exhaust in a theorem: recursive loops carry the count of the
  C loop itself, and for \<^theory_text>\<open>partial_function\<close>s the theorems prove that the result is \<open>Some\<close>. Theorems on
  files assume offsets up to 1036 blocks of 4096 bytes, which is all the block map can hold
  (\<^verbatim>\<open>SFS_NDIRECT + SFS_BLK_NENTRY\<close>); the model itself covers larger offsets, where the code reads an
  uninitialised variable (the parameter \<open>uninit\<close>). The descriptor table has 145 entries, as
  \<^verbatim>\<open>FS_STRUCT_NENTRY\<close> computes to.

  \<^bold>\<open>Not modelled.\<close> Assembly (\<^verbatim>\<open>boot\<close>, \<^verbatim>\<open>init/entry.S\<close>, \<^verbatim>\<open>trap/*.S\<close>, \<^verbatim>\<open>process/*.S\<close>) and the register
  macros of \<^verbatim>\<open>include/asm\<close>; the device drivers, which only touch device registers; formatted output, the debug monitor and the self checks, which
  only print; \<^verbatim>\<open>libs/rb_tree.c\<close> and \<^verbatim>\<open>mm/default_pmm.c\<close>, which the kernel is not built on; the ELF loader and the
  system call table; the user programs; \<^verbatim>\<open>tools/mksfs.c\<close>; and the parts of the repository in
  other languages (the Verilog of the soft core, the Decaf compiler, the Qt terminal).
\<close>

end
